(* ===== verification/KleePrelude.thy ===== *)
theory KleePrelude
  imports Main "HOL-Library.Word" "HOL-Library.Monad_Syntax"
begin

text \<open>
  Shared vocabulary of the development.

  A C++ \<open>assert\<close> that fails, a null dereference, an out-of-range read and the
  undefined integer operations are all the value \<open>None\<close> of an \<open>option\<close>; \<open>check\<close>
  is the assertion. The theorems on a component that returns \<open>option\<close> therefore state
  that the operation returns (\<open>Some\<close>), hence that no assertion on its path fails.
\<close>

unbundle bit_operations_syntax

named_theorems klee_defs \<open>definitions that unfold to their bodies in evaluations\<close>
named_theorems bits_to_mod \<open>rules that turn bit operations into arithmetic modulo a power of two\<close>

type_synonym uint32 = "32 word"
type_synonym uint64 = "64 word"
type_synonym width = nat

definition check :: "bool \<Rightarrow> 'a option \<Rightarrow> 'a option" where
  "check b k = (if b then k else None)"

lemma check_True [simp]: "check True k = k"
  by (simp add: check_def)

lemma check_False [simp]: "check False k = None"
  by (simp add: check_def)

lemma check_eq_Some [simp]: "check b k = Some x \<longleftrightarrow> b \<and> k = Some x"
  by (simp add: check_def)

lemma check_cong [fundef_cong]:
  "b = b' \<Longrightarrow> (b' \<Longrightarrow> k = k') \<Longrightarrow> check b k = check b' k'"
  by (simp add: check_def)

definition of_bool64 :: "bool \<Rightarrow> uint64" where
  "of_bool64 b = (if b then 1 else 0)"

subsection \<open>Masks\<close>

lemma drop_bit_minus_one_word:
  assumes "n \<le> LENGTH('a)"
  shows "drop_bit (LENGTH('a) - n) (- 1 :: 'a::len word) = mask n"
  by (rule bit_word_eqI) (use assms in \<open>auto simp: bit_simps\<close>)

subsection \<open>The lowest set bit of a word\<close>

lemma word_split_low:
  fixes x :: "'a::len word"
  assumes k: "bit x k" and low: "\<And>j. j < k \<Longrightarrow> \<not> bit x j"
  shows "x - 1 = unset_bit k x OR mask k"
proof -
  have kl: "k < LENGTH('a)" using k bit_imp_le_length by blast
  have "unset_bit k x + 2 ^ k = unset_bit k x OR 2 ^ k"
    by (rule disjunctive_add_eq_or) (rule bit_word_eqI, auto simp: bit_simps)
  also have "\<dots> = x"
    by (rule bit_word_eqI) (use k in \<open>auto simp: bit_simps\<close>)
  finally have "x - 1 = unset_bit k x + mask k"
    by (simp add: mask_eq_exp_minus_1 algebra_simps)
  also have "\<dots> = unset_bit k x OR mask k"
    by (rule disjunctive_add_eq_or) (rule bit_word_eqI, use low in \<open>auto simp: bit_simps\<close>)
  finally show ?thesis .
qed

lemma word_lowest_bit:
  fixes x :: "'a::len word"
  assumes "x \<noteq> 0"
  obtains k where "k < LENGTH('a)" "bit x k" "\<And>j. j < k \<Longrightarrow> \<not> bit x j"
proof -
  have "\<exists>n. bit x n" using assms by (metis bit_eqI bit_0_eq bot_apply bot_bool_def)
  then have "bit x (LEAST n. bit x n)" by (rule LeastI_ex)
  then show ?thesis using that [of "LEAST n. bit x n"] not_less_Least bit_imp_le_length by blast
qed

lemma and_minus_one_low:
  fixes x :: "'a::len word"
  assumes "bit x k" and "\<And>j. j < k \<Longrightarrow> \<not> bit x j"
  shows "x AND (x - 1) = unset_bit k x"
  by (simp add: word_split_low [OF assms]) (rule bit_word_eqI, use assms in \<open>auto simp: bit_simps\<close>)

lemma and_uminus_low:
  fixes x :: "'a::len word"
  assumes "bit x k" and "\<And>j. j < k \<Longrightarrow> \<not> bit x j"
  shows "x AND (- x) = 2 ^ k"
proof -
  have "- x = NOT (unset_bit k x OR mask k)"
    by (metis word_split_low [OF assms] minus_eq_not_minus_1)
  then show ?thesis
    using bit_imp_le_length [OF assms(1)]
    by simp (rule bit_word_eqI, use assms in \<open>auto simp: bit_simps\<close>)
qed

lemma and_minus_one_eq_0_iff:
  fixes x :: "'a::len word"
  shows "x \<noteq> 0 \<and> x AND (x - 1) = 0 \<longleftrightarrow> (\<exists>k < LENGTH('a). x = 2 ^ k)"
proof
  assume x: "x \<noteq> 0 \<and> x AND (x - 1) = 0"
  then obtain k where k: "k < LENGTH('a)" "bit x k" "\<And>j. j < k \<Longrightarrow> \<not> bit x j"
    using word_lowest_bit by blast
  with x have "unset_bit k x = 0" using and_minus_one_low [of x k] by simp
  then have "\<not> bit x j" if "j \<noteq> k" for j
    using that bit_unset_bit_iff [of k x j] by auto
  then have "bit x n \<longleftrightarrow> n = k" for n using k(2) by blast
  then have "x = 2 ^ k" by (intro bit_word_eqI) (auto simp: bit_simps k)
  with k show "\<exists>k < LENGTH('a). x = 2 ^ k" by blast
next
  assume "\<exists>k < LENGTH('a). x = 2 ^ k"
  then obtain k where k: "k < LENGTH('a)" "x = 2 ^ k" by blast
  then have "bit x k" and "\<And>j. j < k \<Longrightarrow> \<not> bit x j" by (auto simp: bit_simps)
  then have "x AND (x - 1) = unset_bit k x" by (rule and_minus_one_low)
  also have "\<dots> = 0" by (rule bit_word_eqI) (auto simp: k bit_simps)
  finally show "x \<noteq> 0 \<and> x AND (x - 1) = 0" using k by auto
qed

subsection \<open>List access\<close>

text \<open>Reading a list at an index, where the code would read out of range: \<open>None\<close>.\<close>

definition nth_opt :: "'a list \<Rightarrow> nat \<Rightarrow> 'a option" where
  "nth_opt xs i = (if i < length xs then Some (xs ! i) else None)"

lemma nth_opt_Some [simp]: "nth_opt xs i = Some x \<longleftrightarrow> i < length xs \<and> xs ! i = x"
  by (simp add: nth_opt_def)

end
