(* ===== verification/Bits.thy ===== *)
theory Bits
  imports KleePrelude
begin

text \<open>
  \<open>klee/util/Bits.h\<close> and \<open>klee/util/BitArray.h\<close>: the bit tricks on 32-bit and
  64-bit words, with the postconditions their comments give, and the packed array of bits.
\<close>

subsection \<open>namespace bits32\<close>

definition bits32_maxValueOfNBits :: "nat \<Rightarrow> uint32 option" where
  "bits32_maxValueOfNBits N =
     check (N \<le> 32) (if N = 0 then Some 0 else Some (drop_bit (32 - N) (- 1)))"

definition bits32_truncateToNBits :: "uint32 \<Rightarrow> nat \<Rightarrow> uint32 option" where
  "bits32_truncateToNBits x N =
     check (N > 0 \<and> N \<le> 32) (Some (x AND drop_bit (32 - N) (- 1)))"

definition bits32_withoutRightmostBit :: "uint32 \<Rightarrow> uint32" where
  "bits32_withoutRightmostBit x = x AND (x - 1)"

definition bits32_isolateRightmostBit :: "uint32 \<Rightarrow> uint32" where
  "bits32_isolateRightmostBit x = x AND (- x)"

definition bits32_isPowerOfTwo :: "uint32 \<Rightarrow> bool" where
  "bits32_isPowerOfTwo x = (if x = 0 then False else \<not> (x AND (x - 1) \<noteq> 0))"

definition bits32_indexOfSingleBit :: "uint32 \<Rightarrow> nat option" where
  "bits32_indexOfSingleBit x =
     check (bits32_withoutRightmostBit x = 0)
       (let res = (0::nat);
            res = (if x AND 0xFFFF0000 \<noteq> 0 then res + 16 else res);
            res = (if x AND 0xFF00FF00 \<noteq> 0 then res + 8 else res);
            res = (if x AND 0xF0F0F0F0 \<noteq> 0 then res + 4 else res);
            res = (if x AND 0xCCCCCCCC \<noteq> 0 then res + 2 else res);
            res = (if x AND 0xAAAAAAAA \<noteq> 0 then res + 1 else res)
        in check (res < 32) (check (push_bit res 1 = x) (Some res)))"

definition bits32_indexOfRightmostBit :: "uint32 \<Rightarrow> nat option" where
  "bits32_indexOfRightmostBit x = bits32_indexOfSingleBit (bits32_isolateRightmostBit x)"

subsection \<open>namespace bits64\<close>

definition bits64_maxValueOfNBits :: "nat \<Rightarrow> uint64 option" where
  "bits64_maxValueOfNBits N =
     check (N \<le> 64) (if N = 0 then Some 0 else Some (drop_bit (64 - N) (- 1)))"

definition bits64_truncateToNBits :: "uint64 \<Rightarrow> nat \<Rightarrow> uint64 option" where
  "bits64_truncateToNBits x N =
     check (N > 0 \<and> N \<le> 64) (Some (x AND drop_bit (64 - N) (- 1)))"

definition bits64_withoutRightmostBit :: "uint64 \<Rightarrow> uint64" where
  "bits64_withoutRightmostBit x = x AND (x - 1)"

definition bits64_isolateRightmostBit :: "uint64 \<Rightarrow> uint64" where
  "bits64_isolateRightmostBit x = x AND (- x)"

definition bits64_isPowerOfTwo :: "uint64 \<Rightarrow> bool" where
  "bits64_isPowerOfTwo x = (if x = 0 then False else \<not> (x AND (x - 1) \<noteq> 0))"

definition bits64_indexOfSingleBit :: "uint64 \<Rightarrow> nat option" where
  "bits64_indexOfSingleBit x =
     check (x AND (x - 1) = 0)
       (case bits32_indexOfSingleBit (ucast (x OR drop_bit 32 x)) of
          None \<Rightarrow> None
        | Some res \<Rightarrow>
            (let res = (if x AND push_bit 32 0xFFFFFFFF \<noteq> 0 then res + 32 else res)
             in check (res < 64) (check (push_bit res 1 = x) (Some res))))"

definition bits64_indexOfRightmostBit :: "uint64 \<Rightarrow> nat option" where
  "bits64_indexOfRightmostBit x = bits64_indexOfSingleBit (bits64_isolateRightmostBit x)"

subsection \<open>class BitArray\<close>

text \<open>The array owns \<open>length(size)\<close> 32-bit words; an access past them is \<open>None\<close>.\<close>

definition BitArray_length :: "nat \<Rightarrow> nat" where
  "BitArray_length sz = (sz + 31) div 32"

definition BitArray_new :: "nat \<Rightarrow> bool \<Rightarrow> uint32 list" where
  "BitArray_new sz value = replicate (BitArray_length sz) (if value then - 1 else 0)"

definition BitArray_copy :: "uint32 list \<Rightarrow> nat \<Rightarrow> uint32 list option" where
  "BitArray_copy b sz =
     check (BitArray_length sz \<le> length b) (Some (take (BitArray_length sz) b))"

definition BitArray_get :: "uint32 list \<Rightarrow> nat \<Rightarrow> bool option" where
  "BitArray_get bits idx =
     (case nth_opt bits (idx div 32) of
        None \<Rightarrow> None
      | Some w \<Rightarrow> Some (drop_bit (idx mod 32) w AND 1 \<noteq> 0))"

definition BitArray_set :: "uint32 list \<Rightarrow> nat \<Rightarrow> uint32 list option" where
  "BitArray_set bits idx =
     (case nth_opt bits (idx div 32) of
        None \<Rightarrow> None
      | Some w \<Rightarrow> Some (bits[idx div 32 := w OR push_bit (idx mod 32) 1]))"

definition BitArray_unset :: "uint32 list \<Rightarrow> nat \<Rightarrow> uint32 list option" where
  "BitArray_unset bits idx =
     (case nth_opt bits (idx div 32) of
        None \<Rightarrow> None
      | Some w \<Rightarrow> Some (bits[idx div 32 := w AND NOT (push_bit (idx mod 32) 1)]))"

definition BitArray_set_value :: "uint32 list \<Rightarrow> nat \<Rightarrow> bool \<Rightarrow> uint32 list option" where
  "BitArray_set_value bits idx value =
     (if value then BitArray_set bits idx else BitArray_unset bits idx)"

subsection \<open>Truncation and masks\<close>

lemma bits64_truncate_eq:
  assumes "0 < N" "N \<le> 64"
  shows "bits64_truncateToNBits x N = Some (take_bit N x)"
  using assms drop_bit_minus_one_word [where 'a = 64, of N]
  by (simp add: bits64_truncateToNBits_def take_bit_eq_mask)

lemma bits32_truncate_eq:
  assumes "0 < N" "N \<le> 32"
  shows "bits32_truncateToNBits x N = Some (take_bit N x)"
  using assms drop_bit_minus_one_word [where 'a = 32, of N]
  by (simp add: bits32_truncateToNBits_def take_bit_eq_mask)

lemma bits64_max_eq: "N \<le> 64 \<Longrightarrow> bits64_maxValueOfNBits N = Some (mask N)"
  using drop_bit_minus_one_word [where 'a = 64, of N]
  by (auto simp: bits64_maxValueOfNBits_def)

lemma bits32_max_eq: "N \<le> 32 \<Longrightarrow> bits32_maxValueOfNBits N = Some (mask N)"
  using drop_bit_minus_one_word [where 'a = 32, of N]
  by (auto simp: bits32_maxValueOfNBits_def)

subsection \<open>Single bits\<close>

lemma bits32_index_pow: "k < 32 \<Longrightarrow> bits32_indexOfSingleBit (2 ^ k) = Some k"
proof -
  assume "k < 32"
  then have "k \<in> set [0..<32]" by simp
  then show ?thesis
    by (simp add: upt_rec bits32_indexOfSingleBit_def bits32_withoutRightmostBit_def) 
       (elim disjE; simp)
qed

lemma pow_and_high:
  "k < 64 \<Longrightarrow> (2 ^ k :: uint64) AND push_bit 32 0xFFFFFFFF \<noteq> 0 \<longleftrightarrow> 32 \<le> k"
proof -
  assume k: "k < 64"
  have m: "(0xFFFFFFFF :: uint64) = mask 32" by (simp add: mask_eq_exp_minus_1)
  have "bit ((2 ^ k :: uint64) AND push_bit 32 0xFFFFFFFF) n \<longleftrightarrow> n = k \<and> 32 \<le> k" for n
    unfolding m using k by (auto simp: bit_simps)
  then show ?thesis by (metis bit_0_eq bit_eqI bot_apply bot_bool_def)
qed

lemma bits64_index_pow: "k < 64 \<Longrightarrow> bits64_indexOfSingleBit (2 ^ k) = Some k"
proof -
  assume k: "k < 64"
  have "(2 ^ k :: uint64) AND (2 ^ k - 1) = 0"
    using k and_minus_one_eq_0_iff [of "2 ^ k :: uint64"] by auto
  moreover have "ucast ((2 ^ k :: uint64) OR drop_bit 32 (2 ^ k)) = (2 ^ (if k < 32 then k else k - 32) :: uint32)"
    by (rule bit_word_eqI) (use k in \<open>auto simp: bit_simps\<close>)
  ultimately show ?thesis
    using k pow_and_high [OF k] bits32_index_pow [of "if k < 32 then k else k - 32"]
    by (auto simp: bits64_indexOfSingleBit_def push_bit_eq_mult split: if_splits)
qed

lemma isPowerOfTwo64_iff: "bits64_isPowerOfTwo x \<longleftrightarrow> (\<exists>k < 64. x = 2 ^ k)"
  using and_minus_one_eq_0_iff [of x] by (auto simp: bits64_isPowerOfTwo_def)
lemma isPowerOfTwo32_iff: "bits32_isPowerOfTwo x \<longleftrightarrow> (\<exists>k < 32. x = 2 ^ k)"
  using and_minus_one_eq_0_iff [of x] by (auto simp: bits32_isPowerOfTwo_def)

lemma indexOfRightmostBit64:
  assumes "x \<noteq> 0"
  obtains k where "bits64_indexOfRightmostBit x = Some k" "k < 64" "bit x k" "\<And>j. j < k \<Longrightarrow> \<not> bit x j"
proof -
  obtain k where k: "k < 64" "bit x k" "\<And>j. j < k \<Longrightarrow> \<not> bit x j"
    using word_lowest_bit [OF assms] by auto
  then have "bits64_isolateRightmostBit x = 2 ^ k"
    by (simp add: bits64_isolateRightmostBit_def and_uminus_low)
  with k that show ?thesis by (simp add: bits64_indexOfRightmostBit_def bits64_index_pow)
qed

lemma indexOfRightmostBit32:
  assumes "x \<noteq> 0"
  obtains k where "bits32_indexOfRightmostBit x = Some k" "k < 32" "bit x k" "\<And>j. j < k \<Longrightarrow> \<not> bit x j"
proof -
  obtain k where k: "k < 32" "bit x k" "\<And>j. j < k \<Longrightarrow> \<not> bit x j"
    using word_lowest_bit [OF assms] by auto
  then have "bits32_isolateRightmostBit x = 2 ^ k"
    by (simp add: bits32_isolateRightmostBit_def and_uminus_low)
  with k that show ?thesis by (simp add: bits32_indexOfRightmostBit_def bits32_index_pow)
qed

subsection \<open>The bit array\<close>

lemma bit_and_1: "drop_bit n (w :: uint32) AND 1 \<noteq> 0 \<longleftrightarrow> bit w n"
  by (simp add: bit_iff_odd_drop_bit and_one_eq odd_iff_mod_2_eq_one)

lemma BitArray_index: "idx < sz \<Longrightarrow> idx div 32 < BitArray_length sz"
  by (simp add: BitArray_length_def)

lemma BitArray_get_eq:
  "idx div 32 < length bits \<Longrightarrow> BitArray_get bits idx = Some (bit (bits ! (idx div 32)) (idx mod 32))"
  by (simp add: BitArray_get_def nth_opt_def bit_and_1)

lemma div_mod_neq: "i \<noteq> (j::nat) \<Longrightarrow> i div 32 = j div 32 \<Longrightarrow> i mod 32 \<noteq> j mod 32"
  by (metis div_mult_mod_eq)

lemma BitArray_get_new:
  "idx < sz \<Longrightarrow> BitArray_get (BitArray_new sz v) idx = Some v"
  by (simp add: BitArray_get_eq BitArray_new_def BitArray_index)

lemma BitArray_get_set_value:
  assumes "idx div 32 < length bits"
  obtains bits' where "BitArray_set_value bits idx v = Some bits'" "length bits' = length bits"
    "\<And>j. j div 32 < length bits \<Longrightarrow>
       BitArray_get bits' j = (if j = idx then Some v else BitArray_get bits j)"
proof -
  let ?w = "bits ! (idx div 32)"
  let ?n = "if v then ?w OR push_bit (idx mod 32) 1 else ?w AND NOT (push_bit (idx mod 32) 1)"
  have "BitArray_set_value bits idx v = Some (bits[idx div 32 := ?n])"
    using assms by (simp add: BitArray_set_value_def BitArray_set_def BitArray_unset_def nth_opt_def)
  moreover have n: "bit ?n m = (if m = idx mod 32 then v else bit ?w m)" if "m < 32" for m
    using that by (cases v) (auto simp: bit_simps)
  have "BitArray_get (bits[idx div 32 := ?n]) j = (if j = idx then Some v else BitArray_get bits j)"
    if "j div 32 < length bits" for j
  proof (cases "j div 32 = idx div 32")
    case True
    then have "BitArray_get (bits[idx div 32 := ?n]) j = Some (bit ?n (j mod 32))"
      using assms that by (simp add: BitArray_get_eq)
    also have "bit ?n (j mod 32) = (if j mod 32 = idx mod 32 then v else bit ?w (j mod 32))"
      by (rule n) simp
    finally show ?thesis using True that div_mod_neq [of j idx]
      by (auto simp: BitArray_get_eq)
  next
    case False
    then show ?thesis using that by (auto simp: BitArray_get_eq nth_list_update)
  qed
  ultimately show ?thesis using that by simp
qed

end
