(* ===== verification/IntEval.thy ===== *)
theory IntEval
  imports Bits "HOL-Library.Signed_Division"
begin

text \<open>
  \<open>klee/Internal/Support/IntEvaluation.h\<close>, namespace \<open>ints\<close>: arithmetic on integers
  of at most 64 bits kept in a \<open>uint64_t\<close> whose unused bits are 0. A \<open>None\<close> is a failed
  assertion of \<open>truncateToNBits\<close> or an operation that C++ leaves undefined: a shift by 64 or
  more, a division by 0, the overflowing signed division.
\<close>

definition MAX_BITS :: nat where "MAX_BITS = 64"

definition ints_add :: "uint64 \<Rightarrow> uint64 \<Rightarrow> nat \<Rightarrow> uint64 option" where
  "ints_add l r inWidth = bits64_truncateToNBits (l + r) inWidth"

definition ints_sub :: "uint64 \<Rightarrow> uint64 \<Rightarrow> nat \<Rightarrow> uint64 option" where
  "ints_sub l r inWidth = bits64_truncateToNBits (l - r) inWidth"

definition ints_mul :: "uint64 \<Rightarrow> uint64 \<Rightarrow> nat \<Rightarrow> uint64 option" where
  "ints_mul l r inWidth = bits64_truncateToNBits (l * r) inWidth"

definition ints_trunc :: "uint64 \<Rightarrow> nat \<Rightarrow> nat \<Rightarrow> uint64 option" where
  "ints_trunc l outWidth inWidth = bits64_truncateToNBits l outWidth"

definition ints_zext :: "uint64 \<Rightarrow> nat \<Rightarrow> nat \<Rightarrow> uint64" where
  "ints_zext l outWidth inWidth = l"

definition ints_sext :: "uint64 \<Rightarrow> nat \<Rightarrow> nat \<Rightarrow> uint64 option" where
  "ints_sext l outWidth inWidth =
     (let numInvalidBits = MAX_BITS - inWidth in
      check (inWidth \<le> MAX_BITS \<and> numInvalidBits < 64)
        (bits64_truncateToNBits
           (signed_drop_bit numInvalidBits (push_bit numInvalidBits l)) outWidth))"

definition ints_udiv :: "uint64 \<Rightarrow> uint64 \<Rightarrow> nat \<Rightarrow> uint64 option" where
  "ints_udiv l r inWidth = check (r \<noteq> 0) (bits64_truncateToNBits (l div r) inWidth)"

definition ints_urem :: "uint64 \<Rightarrow> uint64 \<Rightarrow> nat \<Rightarrow> uint64 option" where
  "ints_urem l r inWidth = check (r \<noteq> 0) (bits64_truncateToNBits (l mod r) inWidth)"

text \<open>Division of \<open>int64_t\<close> values: defined unless the divisor is 0 or the quotient overflows.\<close>

definition i64_div_defined :: "uint64 \<Rightarrow> uint64 \<Rightarrow> bool" where
  "i64_div_defined sl sr \<longleftrightarrow> sr \<noteq> 0 \<and> \<not> (sl = 2 ^ 63 \<and> sr = - 1)"

definition ints_sdiv :: "uint64 \<Rightarrow> uint64 \<Rightarrow> nat \<Rightarrow> uint64 option" where
  "ints_sdiv l r inWidth = do {
     sl \<leftarrow> ints_sext l MAX_BITS inWidth;
     sr \<leftarrow> ints_sext r MAX_BITS inWidth;
     check (i64_div_defined sl sr)
       (bits64_truncateToNBits (word_of_int (sint sl sdiv sint sr)) inWidth) }"

definition ints_srem :: "uint64 \<Rightarrow> uint64 \<Rightarrow> nat \<Rightarrow> uint64 option" where
  "ints_srem l r inWidth = do {
     sl \<leftarrow> ints_sext l MAX_BITS inWidth;
     sr \<leftarrow> ints_sext r MAX_BITS inWidth;
     check (i64_div_defined sl sr)
       (bits64_truncateToNBits (word_of_int (sint sl smod sint sr)) inWidth) }"

definition ints_ashr :: "uint64 \<Rightarrow> uint64 \<Rightarrow> nat \<Rightarrow> uint64 option" where
  "ints_ashr l shift inWidth = do {
     sl \<leftarrow> ints_sext l MAX_BITS inWidth;
     check (unat shift < 64)
       (bits64_truncateToNBits (signed_drop_bit (unat shift) sl) inWidth) }"

definition ints_lshr :: "uint64 \<Rightarrow> uint64 \<Rightarrow> nat \<Rightarrow> uint64 option" where
  "ints_lshr l shift inWidth = check (unat shift < 64) (Some (drop_bit (unat shift) l))"

definition ints_shl :: "uint64 \<Rightarrow> uint64 \<Rightarrow> nat \<Rightarrow> uint64 option" where
  "ints_shl l shift inWidth =
     check (unat shift < 64) (bits64_truncateToNBits (push_bit (unat shift) l) inWidth)"

definition ints_land :: "uint64 \<Rightarrow> uint64 \<Rightarrow> nat \<Rightarrow> uint64" where
  "ints_land l r inWidth = l AND r"

definition ints_lor :: "uint64 \<Rightarrow> uint64 \<Rightarrow> nat \<Rightarrow> uint64" where
  "ints_lor l r inWidth = l OR r"

definition ints_lxor :: "uint64 \<Rightarrow> uint64 \<Rightarrow> nat \<Rightarrow> uint64" where
  "ints_lxor l r inWidth = l XOR r"

definition ints_eq :: "uint64 \<Rightarrow> uint64 \<Rightarrow> nat \<Rightarrow> uint64" where
  "ints_eq l r inWidth = of_bool64 (l = r)"

definition ints_ne :: "uint64 \<Rightarrow> uint64 \<Rightarrow> nat \<Rightarrow> uint64" where
  "ints_ne l r inWidth = of_bool64 (l \<noteq> r)"

definition ints_ult :: "uint64 \<Rightarrow> uint64 \<Rightarrow> nat \<Rightarrow> uint64" where
  "ints_ult l r inWidth = of_bool64 (l < r)"

definition ints_ule :: "uint64 \<Rightarrow> uint64 \<Rightarrow> nat \<Rightarrow> uint64" where
  "ints_ule l r inWidth = of_bool64 (l \<le> r)"

definition ints_ugt :: "uint64 \<Rightarrow> uint64 \<Rightarrow> nat \<Rightarrow> uint64" where
  "ints_ugt l r inWidth = of_bool64 (l > r)"

definition ints_uge :: "uint64 \<Rightarrow> uint64 \<Rightarrow> nat \<Rightarrow> uint64" where
  "ints_uge l r inWidth = of_bool64 (l \<ge> r)"

text \<open>The four signed comparisons differ in the comparison of the extended values only.\<close>

definition ints_slt :: "uint64 \<Rightarrow> uint64 \<Rightarrow> nat \<Rightarrow> uint64 option" where
  "ints_slt l r inWidth = do {
     sl \<leftarrow> ints_sext l MAX_BITS inWidth;
     sr \<leftarrow> ints_sext r MAX_BITS inWidth;
     Some (of_bool64 (sint sl < sint sr)) }"

definition ints_sle :: "uint64 \<Rightarrow> uint64 \<Rightarrow> nat \<Rightarrow> uint64 option" where
  "ints_sle l r inWidth = do {
     sl \<leftarrow> ints_sext l MAX_BITS inWidth;
     sr \<leftarrow> ints_sext r MAX_BITS inWidth;
     Some (of_bool64 (sint sl \<le> sint sr)) }"

definition ints_sgt :: "uint64 \<Rightarrow> uint64 \<Rightarrow> nat \<Rightarrow> uint64 option" where
  "ints_sgt l r inWidth = do {
     sl \<leftarrow> ints_sext l MAX_BITS inWidth;
     sr \<leftarrow> ints_sext r MAX_BITS inWidth;
     Some (of_bool64 (sint sl > sint sr)) }"

definition ints_sge :: "uint64 \<Rightarrow> uint64 \<Rightarrow> nat \<Rightarrow> uint64 option" where
  "ints_sge l r inWidth = do {
     sl \<leftarrow> ints_sext l MAX_BITS inWidth;
     sr \<leftarrow> ints_sext r MAX_BITS inWidth;
     Some (of_bool64 (sint sl \<ge> sint sr)) }"

subsection \<open>The signed value an operand stands for\<close>

definition sval :: "nat \<Rightarrow> uint64 \<Rightarrow> int" where
  "sval w x = signed_take_bit (w - 1) (uint x)"

lemma sext_shift:
  assumes "0 < w" "w \<le> 64"
  shows "signed_drop_bit (64 - w) (push_bit (64 - w) (l :: uint64)) = signed_take_bit (w - 1) l"
proof -
  obtain k where "w = Suc k" using assms by (cases w) auto
  then show ?thesis using assms
    by (intro bit_word_eqI) (auto simp: bit_simps min_def not_less_eq_eq)
qed

lemma ints_sext_eq:
  assumes "0 < inW" "inW \<le> 64" "0 < outW" "outW \<le> 64"
  shows "ints_sext l outW inW = Some (take_bit outW (signed_take_bit (inW - 1) l))"
  using assms by (simp add: ints_sext_def MAX_BITS_def Let_def sext_shift bits64_truncate_eq)

lemma sint_signed_take_bit:
  assumes "0 < w" "w \<le> 64"
  shows "sint (signed_take_bit (w - 1) (x :: uint64)) = sval w x"
  unfolding sval_def
  by (rule bit_eqI) (use assms in \<open>auto simp: bit_simps min_def\<close>)

lemma ints_sext_64:
  assumes "0 < w" "w \<le> 64"
  shows "ints_sext l MAX_BITS w = Some (signed_take_bit (w - 1) l)"
  using assms take_bit_word_eq_self [of 64 "signed_take_bit (w - 1) l"]
  by (simp add: MAX_BITS_def ints_sext_eq)

subsection \<open>The operations against integer arithmetic\<close>

text \<open>A value is valid at a width when its unused bits are 0, as the header assumes.\<close>

definition fits :: "nat \<Rightarrow> uint64 \<Rightarrow> bool" where
  "fits w x \<longleftrightarrow> take_bit w x = x"

lemma fits_take_bit [simp]: "fits w (take_bit w x)"
  by (simp add: fits_def)

lemma fits_uint: "fits w x \<Longrightarrow> take_bit w (uint x) = uint x"
  by (metis fits_def unsigned_take_bit_eq)

lemma take_bit_uint64: "take_bit 64 (uint (l :: uint64)) = uint l"
  by (simp flip: unsigned_take_bit_eq add: take_bit_word_eq_self)

lemma take_bit_mod64: "w \<le> 64 \<Longrightarrow> take_bit w ((x :: int) mod 18446744073709551616) = take_bit w x"
  using take_bit_take_bit [of w 64 x] by (simp add: take_bit_eq_mod [of 64] min_def)

lemma ints_unsigned_ops:
  assumes "0 < w" "w \<le> 64"
  shows "map_option uint (ints_add l r w) = Some (take_bit w (uint l + uint r))"
    and "map_option uint (ints_sub l r w) = Some (take_bit w (uint l - uint r))"
    and "map_option uint (ints_mul l r w) = Some (take_bit w (uint l * uint r))"
    and "map_option uint (ints_trunc l w w') = Some (take_bit w (uint l))"
  using assms
  by (simp_all add: ints_add_def ints_sub_def ints_mul_def ints_trunc_def bits64_truncate_eq
      unsigned_take_bit_eq uint_word_ariths take_bit_mod64)

lemma ints_division_ops:
  assumes "0 < w" "w \<le> 64" "fits w l" "fits w r" "r \<noteq> 0"
  shows "map_option uint (ints_udiv l r w) = Some (uint l div uint r)"
    and "map_option uint (ints_urem l r w) = Some (uint l mod uint r)"
proof -
  have l: "0 \<le> uint l" "uint l < 2 ^ w" and rr: "0 < uint r" "uint r < 2 ^ w"
    using fits_uint [OF assms(3)] fits_uint [OF assms(4)] assms(5)
      take_bit_int_less_exp [of w "uint l"] take_bit_int_less_exp [of w "uint r"]
    by (simp_all add: uint_0_iff less_le)
  have d: "uint l div uint r < 2 ^ w"
    using l rr zdiv_mono2 [of "uint l" 1 "uint r"] by simp
  have m: "uint l mod uint r < 2 ^ w" "0 \<le> uint l mod uint r"
    using rr pos_mod_bound [of "uint r" "uint l"] pos_mod_sign [of "uint r" "uint l"] by linarith+
  show "map_option uint (ints_udiv l r w) = Some (uint l div uint r)"
    using assms by (simp add: ints_udiv_def bits64_truncate_eq unsigned_take_bit_eq uint_div take_bit_int_eq_self_iff d rr
        pos_imp_zdiv_nonneg_iff)
  show "map_option uint (ints_urem l r w) = Some (uint l mod uint r)"
    using assms by (simp add: ints_urem_def bits64_truncate_eq unsigned_take_bit_eq uint_mod take_bit_int_eq_self_iff m)
qed

lemma ints_compare_signed:
  assumes "0 < w" "w \<le> 64"
  shows "ints_slt l r w = Some (of_bool64 (sval w l < sval w r))"
    and "ints_sle l r w = Some (of_bool64 (sval w l \<le> sval w r))"
    and "ints_sgt l r w = Some (of_bool64 (sval w l > sval w r))"
    and "ints_sge l r w = Some (of_bool64 (sval w l \<ge> sval w r))"
  using assms
  by (simp_all add: ints_slt_def ints_sle_def ints_sgt_def ints_sge_def ints_sext_64
      sint_signed_take_bit del: One_nat_def)

lemma sint_eq_iff_word: "sint (x :: uint64) = sint y \<longleftrightarrow> x = y"
  by (auto intro: signed_word_eqI)

lemma i64_div_defined_iff:
  "i64_div_defined x y \<longleftrightarrow> sint y \<noteq> 0 \<and> \<not> (sint x = - (2 ^ 63) \<and> sint y = - 1)"
proof -
  have "x = 2 ^ 63 \<longleftrightarrow> sint x = - (2 ^ 63)"
    using sint_eq_iff_word [of x "2 ^ 63"] by simp
  moreover have "y = - 1 \<longleftrightarrow> sint y = - 1" using sint_eq_iff_word [of y "- 1"] by simp
  moreover have "y = 0 \<longleftrightarrow> sint y = 0" using sint_eq_iff_word [of y 0] by simp
  ultimately show ?thesis by (simp add: i64_div_defined_def)
qed

lemma sval_wrap:
  assumes "0 < w" "w \<le> 64"
  shows "sval w (take_bit w (word_of_int q)) = signed_take_bit (w - 1) q"
  using assms
  by (cases w) (simp_all add: sval_def unsigned_take_bit_eq uint_word_of_int_eq take_bit_take_bit
      min_def signed_take_bit_take_bit)

lemma ints_signed_division:
  assumes w: "0 < w" "w \<le> 64" and r: "sval w r \<noteq> 0"
    and ov: "\<not> (sval w l = - (2 ^ 63) \<and> sval w r = - 1)"
  shows "map_option (sval w) (ints_sdiv l r w) = Some (signed_take_bit (w - 1) (sval w l sdiv sval w r))"
    and "map_option (sval w) (ints_srem l r w) = Some (signed_take_bit (w - 1) (sval w l smod sval w r))"
proof -
  have d: "i64_div_defined (signed_take_bit (w - 1) l) (signed_take_bit (w - 1) r)"
    using r ov by (simp add: i64_div_defined_iff sint_signed_take_bit [OF w] del: One_nat_def)
  show "map_option (sval w) (ints_sdiv l r w) = Some (signed_take_bit (w - 1) (sval w l sdiv sval w r))"
    using w d by (simp add: ints_sdiv_def ints_sext_64 bits64_truncate_eq sint_signed_take_bit sval_wrap
      del: One_nat_def)
  show "map_option (sval w) (ints_srem l r w) = Some (signed_take_bit (w - 1) (sval w l smod sval w r))"
    using w d by (simp add: ints_srem_def ints_sext_64 bits64_truncate_eq sint_signed_take_bit sval_wrap
      del: One_nat_def)
qed

text \<open>The only 64-bit quotient that is undefined: the minimum divided by \<open>- 1\<close>.\<close>

lemma ints_sdiv_overflow: "ints_sdiv (2 ^ 63) (- 1) 64 = None"
  by (simp add: ints_sdiv_def ints_sext_64 i64_div_defined_def)

lemma ints_shifts:
  assumes "0 < w" "w \<le> 64" "unat n < 64"
  shows "map_option uint (ints_shl l n w) = Some (take_bit w (push_bit (unat n) (uint l)))"
    and "map_option uint (ints_lshr l n w) = Some (drop_bit (unat n) (uint l))"
    and "map_option (sval w) (ints_ashr l n w) = Some (signed_take_bit (w - 1) (drop_bit (unat n) (sval w l)))"
proof -
  show "map_option uint (ints_shl l n w) = Some (take_bit w (push_bit (unat n) (uint l)))"
    using assms by (simp add: ints_shl_def bits64_truncate_eq unsigned_take_bit_eq unsigned_push_bit_eq
        take_bit_take_bit min_def)
  show "map_option uint (ints_lshr l n w) = Some (drop_bit (unat n) (uint l))"
    using assms by (simp add: ints_lshr_def unsigned_drop_bit_eq take_bit_uint64)
  have "signed_drop_bit (unat n) (signed_take_bit (w - 1) l)
      = word_of_int (drop_bit (unat n) (sint (signed_take_bit (w - 1) l)))"
    by (simp flip: sint_signed_drop_bit_eq)
  then show "map_option (sval w) (ints_ashr l n w) = Some (signed_take_bit (w - 1) (drop_bit (unat n) (sval w l)))"
    using assms by (simp add: ints_ashr_def ints_sext_64 bits64_truncate_eq sval_wrap
        sint_signed_take_bit del: One_nat_def)
qed

end
