(* ===== verification/APInt.thy ===== *)
theory APInt
  imports KleePrelude "HOL-Library.Signed_Division"
begin

text \<open>
  \<open>llvm::APInt\<close> is library code outside the repository, so its operations are a parameter of
  the model: a record \<open>apint_ops\<close> with one field per operation that KLEE calls.  A value is
  the pair of a width and the unsigned value.  The locale \<open>llvm_apint\<close> states the documented
  behaviour the code relies on, for operands of equal width; nothing is assumed about a
  division by zero.  \<open>apint_model\<close> is one implementation that satisfies the locale.
\<close>

datatype apint = APInt (ap_width: nat) (ap_value: int)

definition ap_ok :: "apint \<Rightarrow> bool" where
  "ap_ok x \<longleftrightarrow> 0 < ap_width x \<and> take_bit (ap_width x) (ap_value x) = ap_value x"

definition ap_signed :: "apint \<Rightarrow> int" where
  "ap_signed x = signed_take_bit (ap_width x - 1) (ap_value x)"

definition mk_ap :: "nat \<Rightarrow> int \<Rightarrow> apint" where
  "mk_ap w v = APInt w (take_bit w v)"

subsection \<open>Bit-vector arithmetic\<close>

text \<open>The mathematical operations; the width of a result is the width of the first operand.\<close>

definition bv_lift :: "(int \<Rightarrow> int \<Rightarrow> int) \<Rightarrow> apint \<Rightarrow> apint \<Rightarrow> apint" where
  "bv_lift f x y = mk_ap (ap_width x) (f (ap_value x) (ap_value y))"

definition bv_lift_s :: "(int \<Rightarrow> int \<Rightarrow> int) \<Rightarrow> apint \<Rightarrow> apint \<Rightarrow> apint" where
  "bv_lift_s f x y = mk_ap (ap_width x) (f (ap_signed x) (ap_signed y))"

definition bv_bool :: "bool \<Rightarrow> apint" where
  "bv_bool b = APInt 1 (if b then 1 else 0)"

text \<open>A shift amount is read as an unsigned number; shifting by the width or more fills.\<close>

definition bv_shl :: "apint \<Rightarrow> nat \<Rightarrow> apint" where
  "bv_shl x n = mk_ap (ap_width x) (push_bit n (ap_value x))"

definition bv_lshr :: "apint \<Rightarrow> nat \<Rightarrow> apint" where
  "bv_lshr x n = mk_ap (ap_width x) (drop_bit n (ap_value x))"

definition bv_ashr :: "apint \<Rightarrow> nat \<Rightarrow> apint" where
  "bv_ashr x n = mk_ap (ap_width x) (drop_bit n (ap_signed x))"

definition bv_zext :: "nat \<Rightarrow> apint \<Rightarrow> apint" where
  "bv_zext w x = mk_ap w (ap_value x)"

definition bv_sext :: "nat \<Rightarrow> apint \<Rightarrow> apint" where
  "bv_sext w x = mk_ap w (ap_signed x)"

definition bv_extract :: "nat \<Rightarrow> nat \<Rightarrow> apint \<Rightarrow> apint" where
  "bv_extract off w x = mk_ap w (drop_bit off (ap_value x))"

definition bv_concat :: "apint \<Rightarrow> apint \<Rightarrow> apint" where
  "bv_concat x y = mk_ap (ap_width x + ap_width y)
     (push_bit (ap_width y) (ap_value x) OR ap_value y)"

definition bv_not :: "apint \<Rightarrow> apint" where
  "bv_not x = mk_ap (ap_width x) (NOT (ap_value x))"

definition bv_neg :: "apint \<Rightarrow> apint" where
  "bv_neg x = mk_ap (ap_width x) (- ap_value x)"

subsection \<open>The interface\<close>

record apint_ops =
  ap_of_uint64 :: "nat \<Rightarrow> uint64 \<Rightarrow> apint"
  ap_zext :: "nat \<Rightarrow> apint \<Rightarrow> apint"
  ap_zextOrTrunc :: "nat \<Rightarrow> apint \<Rightarrow> apint"
  ap_sextOrTrunc :: "nat \<Rightarrow> apint \<Rightarrow> apint"
  ap_add :: "apint \<Rightarrow> apint \<Rightarrow> apint"
  ap_sub :: "apint \<Rightarrow> apint \<Rightarrow> apint"
  ap_mul :: "apint \<Rightarrow> apint \<Rightarrow> apint"
  ap_udiv :: "apint \<Rightarrow> apint \<Rightarrow> apint"
  ap_sdiv :: "apint \<Rightarrow> apint \<Rightarrow> apint"
  ap_urem :: "apint \<Rightarrow> apint \<Rightarrow> apint"
  ap_srem :: "apint \<Rightarrow> apint \<Rightarrow> apint"
  ap_and :: "apint \<Rightarrow> apint \<Rightarrow> apint"
  ap_or :: "apint \<Rightarrow> apint \<Rightarrow> apint"
  ap_xor :: "apint \<Rightarrow> apint \<Rightarrow> apint"
  ap_shl :: "apint \<Rightarrow> apint \<Rightarrow> apint"
  ap_lshr :: "apint \<Rightarrow> apint \<Rightarrow> apint"
  ap_ashr :: "apint \<Rightarrow> apint \<Rightarrow> apint"
  ap_shl_n :: "apint \<Rightarrow> nat \<Rightarrow> apint"
  ap_ashr_n :: "apint \<Rightarrow> nat \<Rightarrow> apint"
  ap_neg :: "apint \<Rightarrow> apint"
  ap_not :: "apint \<Rightarrow> apint"
  ap_eq :: "apint \<Rightarrow> apint \<Rightarrow> bool"
  ap_ne :: "apint \<Rightarrow> apint \<Rightarrow> bool"
  ap_ult :: "apint \<Rightarrow> apint \<Rightarrow> bool"
  ap_ule :: "apint \<Rightarrow> apint \<Rightarrow> bool"
  ap_ugt :: "apint \<Rightarrow> apint \<Rightarrow> bool"
  ap_uge :: "apint \<Rightarrow> apint \<Rightarrow> bool"
  ap_slt :: "apint \<Rightarrow> apint \<Rightarrow> bool"
  ap_sle :: "apint \<Rightarrow> apint \<Rightarrow> bool"
  ap_sgt :: "apint \<Rightarrow> apint \<Rightarrow> bool"
  ap_sge :: "apint \<Rightarrow> apint \<Rightarrow> bool"
  ap_isMinValue :: "apint \<Rightarrow> bool"
  ap_isAllOnesValue :: "apint \<Rightarrow> bool"
  ap_getBoolValue :: "apint \<Rightarrow> bool"
  ap_getLimitedValue :: "apint \<Rightarrow> uint64 \<Rightarrow> uint64"
  ap_getZExtValue :: "apint \<Rightarrow> uint64"
  ap_hash_value :: "apint \<Rightarrow> uint64"

locale llvm_apint =
  fixes A :: apint_ops
  assumes of_uint64: "0 < w \<Longrightarrow> ap_of_uint64 A w v = mk_ap w (uint v)"
    and zext: "ap_ok x \<Longrightarrow> ap_width x < w \<Longrightarrow> ap_zext A w x = bv_zext w x"
    and zextOrTrunc: "ap_ok x \<Longrightarrow> 0 < w \<Longrightarrow> ap_zextOrTrunc A w x = bv_zext w x"
    and sextOrTrunc: "ap_ok x \<Longrightarrow> 0 < w \<Longrightarrow> ap_sextOrTrunc A w x = bv_sext w x"
    and add: "ap_ok x \<Longrightarrow> ap_ok y \<Longrightarrow> ap_width x = ap_width y \<Longrightarrow> ap_add A x y = bv_lift (+) x y"
    and sub: "ap_ok x \<Longrightarrow> ap_ok y \<Longrightarrow> ap_width x = ap_width y \<Longrightarrow> ap_sub A x y = bv_lift (-) x y"
    and mul: "ap_ok x \<Longrightarrow> ap_ok y \<Longrightarrow> ap_width x = ap_width y \<Longrightarrow> ap_mul A x y = bv_lift (*) x y"
    and udiv: "ap_ok x \<Longrightarrow> ap_ok y \<Longrightarrow> ap_width x = ap_width y \<Longrightarrow> ap_value y \<noteq> 0
      \<Longrightarrow> ap_udiv A x y = bv_lift (div) x y"
    and sdiv: "ap_ok x \<Longrightarrow> ap_ok y \<Longrightarrow> ap_width x = ap_width y \<Longrightarrow> ap_value y \<noteq> 0
      \<Longrightarrow> ap_sdiv A x y = bv_lift_s (sdiv) x y"
    and urem: "ap_ok x \<Longrightarrow> ap_ok y \<Longrightarrow> ap_width x = ap_width y \<Longrightarrow> ap_value y \<noteq> 0
      \<Longrightarrow> ap_urem A x y = bv_lift (mod) x y"
    and srem: "ap_ok x \<Longrightarrow> ap_ok y \<Longrightarrow> ap_width x = ap_width y \<Longrightarrow> ap_value y \<noteq> 0
      \<Longrightarrow> ap_srem A x y = bv_lift_s (smod) x y"
    and bit_and: "ap_ok x \<Longrightarrow> ap_ok y \<Longrightarrow> ap_width x = ap_width y \<Longrightarrow> ap_and A x y = bv_lift (AND) x y"
    and bit_or: "ap_ok x \<Longrightarrow> ap_ok y \<Longrightarrow> ap_width x = ap_width y \<Longrightarrow> ap_or A x y = bv_lift (OR) x y"
    and bit_xor: "ap_ok x \<Longrightarrow> ap_ok y \<Longrightarrow> ap_width x = ap_width y \<Longrightarrow> ap_xor A x y = bv_lift (XOR) x y"
    and shl: "ap_ok x \<Longrightarrow> ap_ok y \<Longrightarrow> ap_width x = ap_width y
      \<Longrightarrow> ap_shl A x y = bv_shl x (nat (ap_value y))"
    and lshr: "ap_ok x \<Longrightarrow> ap_ok y \<Longrightarrow> ap_width x = ap_width y
      \<Longrightarrow> ap_lshr A x y = bv_lshr x (nat (ap_value y))"
    and ashr: "ap_ok x \<Longrightarrow> ap_ok y \<Longrightarrow> ap_width x = ap_width y
      \<Longrightarrow> ap_ashr A x y = bv_ashr x (nat (ap_value y))"
    and shl_n: "ap_ok x \<Longrightarrow> n \<le> ap_width x \<Longrightarrow> ap_shl_n A x n = bv_shl x n"
    and ashr_n: "ap_ok x \<Longrightarrow> n \<le> ap_width x \<Longrightarrow> ap_ashr_n A x n = bv_ashr x n"
    and neg: "ap_ok x \<Longrightarrow> ap_neg A x = bv_neg x"
    and bit_not: "ap_ok x \<Longrightarrow> ap_not A x = bv_not x"
    and eq: "ap_ok x \<Longrightarrow> ap_ok y \<Longrightarrow> ap_width x = ap_width y \<Longrightarrow> ap_eq A x y \<longleftrightarrow> x = y"
    and ult: "ap_ok x \<Longrightarrow> ap_ok y \<Longrightarrow> ap_width x = ap_width y
      \<Longrightarrow> ap_ult A x y \<longleftrightarrow> ap_value x < ap_value y"
    and ule: "ap_ok x \<Longrightarrow> ap_ok y \<Longrightarrow> ap_width x = ap_width y
      \<Longrightarrow> ap_ule A x y \<longleftrightarrow> ap_value x \<le> ap_value y"
    and slt: "ap_ok x \<Longrightarrow> ap_ok y \<Longrightarrow> ap_width x = ap_width y
      \<Longrightarrow> ap_slt A x y \<longleftrightarrow> ap_signed x < ap_signed y"
    and sle: "ap_ok x \<Longrightarrow> ap_ok y \<Longrightarrow> ap_width x = ap_width y
      \<Longrightarrow> ap_sle A x y \<longleftrightarrow> ap_signed x \<le> ap_signed y"
    and ne: "ap_ok x \<Longrightarrow> ap_ok y \<Longrightarrow> ap_width x = ap_width y
      \<Longrightarrow> ap_ne A x y \<longleftrightarrow> x \<noteq> y"
    and ugt: "ap_ok x \<Longrightarrow> ap_ok y \<Longrightarrow> ap_width x = ap_width y
      \<Longrightarrow> ap_ugt A x y \<longleftrightarrow> ap_value x > ap_value y"
    and uge: "ap_ok x \<Longrightarrow> ap_ok y \<Longrightarrow> ap_width x = ap_width y
      \<Longrightarrow> ap_uge A x y \<longleftrightarrow> ap_value x \<ge> ap_value y"
    and sgt: "ap_ok x \<Longrightarrow> ap_ok y \<Longrightarrow> ap_width x = ap_width y
      \<Longrightarrow> ap_sgt A x y \<longleftrightarrow> ap_signed x > ap_signed y"
    and sge: "ap_ok x \<Longrightarrow> ap_ok y \<Longrightarrow> ap_width x = ap_width y
      \<Longrightarrow> ap_sge A x y \<longleftrightarrow> ap_signed x \<ge> ap_signed y"
    and isMinValue: "ap_ok x \<Longrightarrow> ap_isMinValue A x \<longleftrightarrow> ap_value x = 0"
    and isAllOnesValue: "ap_ok x \<Longrightarrow> ap_isAllOnesValue A x \<longleftrightarrow> ap_value x = mask (ap_width x)"
    and getBoolValue: "ap_ok x \<Longrightarrow> ap_getBoolValue A x \<longleftrightarrow> ap_value x \<noteq> 0"
    and getLimitedValue: "ap_ok x \<Longrightarrow> ap_getLimitedValue A x m =
      (if ap_value x < uint m then word_of_int (ap_value x) else m)"
    and getZExtValue: "ap_ok x \<Longrightarrow> ap_width x \<le> 64 \<Longrightarrow> ap_getZExtValue A x = word_of_int (ap_value x)"

subsection \<open>An implementation of the interface\<close>

definition apint_model :: apint_ops where
  "apint_model = \<lparr>
     ap_of_uint64 = (\<lambda>w v. mk_ap w (uint v)),
     ap_zext = bv_zext,
     ap_zextOrTrunc = bv_zext,
     ap_sextOrTrunc = bv_sext,
     ap_add = bv_lift (+), ap_sub = bv_lift (-), ap_mul = bv_lift (*),
     ap_udiv = bv_lift (div), ap_sdiv = bv_lift_s (sdiv),
     ap_urem = bv_lift (mod), ap_srem = bv_lift_s (smod),
     ap_and = bv_lift (AND), ap_or = bv_lift (OR), ap_xor = bv_lift (XOR),
     ap_shl = (\<lambda>x y. bv_shl x (nat (ap_value y))),
     ap_lshr = (\<lambda>x y. bv_lshr x (nat (ap_value y))),
     ap_ashr = (\<lambda>x y. bv_ashr x (nat (ap_value y))),
     ap_shl_n = bv_shl, ap_ashr_n = bv_ashr,
     ap_neg = bv_neg, ap_not = bv_not,
     ap_eq = (=), ap_ne = (\<noteq>),
     ap_ult = (\<lambda>x y. ap_value x < ap_value y), ap_ule = (\<lambda>x y. ap_value x \<le> ap_value y),
     ap_ugt = (\<lambda>x y. ap_value x > ap_value y), ap_uge = (\<lambda>x y. ap_value x \<ge> ap_value y),
     ap_slt = (\<lambda>x y. ap_signed x < ap_signed y), ap_sle = (\<lambda>x y. ap_signed x \<le> ap_signed y),
     ap_sgt = (\<lambda>x y. ap_signed x > ap_signed y), ap_sge = (\<lambda>x y. ap_signed x \<ge> ap_signed y),
     ap_isMinValue = (\<lambda>x. ap_value x = 0),
     ap_isAllOnesValue = (\<lambda>x. ap_value x = mask (ap_width x)),
     ap_getBoolValue = (\<lambda>x. ap_value x \<noteq> 0),
     ap_getLimitedValue = (\<lambda>x m. if ap_value x < uint m then word_of_int (ap_value x) else m),
     ap_getZExtValue = (\<lambda>x. word_of_int (ap_value x)),
     ap_hash_value = (\<lambda>x. word_of_int (ap_value x)) \<rparr>"

interpretation apint_model: llvm_apint apint_model
  by unfold_locales (simp_all add: apint_model_def)

subsection \<open>Facts on values\<close>

lemma ap_ok_mk [simp]: "ap_ok (mk_ap w v) \<longleftrightarrow> 0 < w"
  by (simp add: ap_ok_def mk_ap_def)

lemma mk_ap_sel [simp]: "ap_width (mk_ap w v) = w" "ap_value (mk_ap w v) = take_bit w v"
  by (simp_all add: mk_ap_def)

lemma mk_ap_eq: "mk_ap w v = mk_ap w' v' \<longleftrightarrow> w = w' \<and> take_bit w v = take_bit w v'"
  by (auto simp: mk_ap_def)

lemma mk_ap_self: "ap_ok x \<Longrightarrow> mk_ap (ap_width x) (ap_value x) = x"
  by (cases x) (simp add: ap_ok_def mk_ap_def)

lemma ap_value_bounds: "ap_ok x \<Longrightarrow> 0 \<le> ap_value x \<and> ap_value x < 2 ^ ap_width x"
  by (simp add: ap_ok_def take_bit_int_eq_self_iff)

lemma ap_ok_bool [simp]: "ap_ok (bv_bool b)"
  by (simp add: ap_ok_def bv_bool_def)

lemma bv_bool_sel [simp]:
  "ap_width (bv_bool b) = 1" "ap_value (bv_bool b) = (if b then 1 else 0)"
  by (simp_all add: bv_bool_def)

lemma bv_bool_inject [simp]: "bv_bool a = bv_bool b \<longleftrightarrow> a = b"
  by (simp add: bv_bool_def)

text \<open>A value of width 1 is one of the two Booleans.\<close>

lemma ap_bool_cases:
  assumes "ap_ok x" "ap_width x = 1"
  obtains b where "x = bv_bool b"
proof -
  have "ap_value x = 0 \<or> ap_value x = 1"
    using ap_value_bounds [OF assms(1)] assms(2) by auto
  then show ?thesis using that [of True] that [of False] assms(2)
    by (cases x) (auto simp: bv_bool_def)
qed

end
