(* ===== verification/ExprCore.thy ===== *)
theory ExprCore
  imports APInt "HOL-Library.List_Lexorder" "HOL-Library.Char_ord"
begin

text \<open>
  \<open>klee/Expr/Expr.h\<close> and the data part of \<open>Expr.cpp\<close> and \<open>Updates.cpp\<close>: the expression
  classes as one datatype, with kinds, widths, kids, hashes, the structural comparison and
  the operations of \<open>ConstantExpr\<close>.  The last two sections hold what the code only means:
  the typing invariant of expressions and their value under an assignment.

  A pointer to an \<open>Array\<close> is the array's record, which holds its address; a \<open>ref<Expr>\<close> is
  the expression itself, since expressions are immutable.  Widths and offsets are \<open>nat\<close>: the
  sums of widths that the code forms are far below the 32-bit bound.
\<close>

subsection \<open>Classes\<close>

record array =
  arr_addr :: nat
  arr_name :: string
  arr_size :: nat
  arr_domain :: width
  arr_range :: width
  arr_constantValues :: "apint list"

datatype castkind = ZExt | SExt

datatype binkind =
    Add | Sub | Mul | UDiv | SDiv | URem | SRem
  | And | Or | Xor | Shl | LShr | AShr
  | Eq | Ne | Ult | Ule | Ugt | Uge | Slt | Sle | Sgt | Sge

datatype expr =
    ConstantExpr apint
  | NotOptimizedExpr expr
  | ReadExpr array unode expr
  | SelectExpr expr expr expr
  | ConcatExpr expr expr
  | ExtractExpr expr nat width
  | CastExpr castkind expr width
  | NotExpr expr
  | BinaryExpr binkind expr expr
and unode =
    NullNode
  | UpdateNode unode expr expr

abbreviation (input) "Bool_width \<equiv> (1 :: width)"
abbreviation (input) "Int8 \<equiv> (8 :: width)"
abbreviation (input) "Int16 \<equiv> (16 :: width)"
abbreviation (input) "Int32 \<equiv> (32 :: width)"
abbreviation (input) "Int64 \<equiv> (64 :: width)"

definition MAGIC_HASH_CONSTANT :: uint32 where "MAGIC_HASH_CONSTANT = 39"

text \<open>The enumerators of \<open>Expr::Kind\<close> in order, from \<open>Add = 10\<close> for the binary kinds.\<close>

fun binkind_code :: "binkind \<Rightarrow> nat" where
  "binkind_code Add = 10" | "binkind_code Sub = 11" | "binkind_code Mul = 12"
| "binkind_code UDiv = 13" | "binkind_code SDiv = 14" | "binkind_code URem = 15"
| "binkind_code SRem = 16" | "binkind_code And = 17" | "binkind_code Or = 18"
| "binkind_code Xor = 19" | "binkind_code Shl = 20" | "binkind_code LShr = 21"
| "binkind_code AShr = 22" | "binkind_code Eq = 23" | "binkind_code Ne = 24"
| "binkind_code Ult = 25" | "binkind_code Ule = 26" | "binkind_code Ugt = 27"
| "binkind_code Uge = 28" | "binkind_code Slt = 29" | "binkind_code Sle = 30"
| "binkind_code Sgt = 31" | "binkind_code Sge = 32"

fun getKind :: "expr \<Rightarrow> nat" where
  "getKind (ConstantExpr _) = 0"
| "getKind (NotOptimizedExpr _) = 1"
| "getKind (ReadExpr _ _ _) = 3"
| "getKind (SelectExpr _ _ _) = 4"
| "getKind (ConcatExpr _ _) = 5"
| "getKind (ExtractExpr _ _ _) = 6"
| "getKind (CastExpr ZExt _ _) = 7"
| "getKind (CastExpr SExt _ _) = 8"
| "getKind (NotExpr _) = 9"
| "getKind (BinaryExpr k _ _) = binkind_code k"

definition is_CmpExpr_kind :: "nat \<Rightarrow> bool" where
  "is_CmpExpr_kind k \<longleftrightarrow> 23 \<le> k \<and> k \<le> 32"

fun getWidth :: "expr \<Rightarrow> width" where
  "getWidth (ConstantExpr v) = ap_width v"
| "getWidth (NotOptimizedExpr src) = getWidth src"
| "getWidth (ReadExpr root _ _) = arr_range root"
| "getWidth (SelectExpr _ t _) = getWidth t"
| "getWidth (ConcatExpr l r) = getWidth l + getWidth r"
| "getWidth (ExtractExpr _ _ w) = w"
| "getWidth (CastExpr _ _ w) = w"
| "getWidth (NotExpr e) = getWidth e"
| "getWidth (BinaryExpr k l _) = (if is_CmpExpr_kind (binkind_code k) then Bool_width else getWidth l)"

fun kids :: "expr \<Rightarrow> expr list" where
  "kids (ConstantExpr _) = []"
| "kids (NotOptimizedExpr src) = [src]"
| "kids (ReadExpr _ _ index) = [index]"
| "kids (SelectExpr c t f) = [c, t, f]"
| "kids (ConcatExpr l r) = [l, r]"
| "kids (ExtractExpr e _ _) = [e]"
| "kids (CastExpr _ src _) = [src]"
| "kids (NotExpr e) = [e]"
| "kids (BinaryExpr _ l r) = [l, r]"

definition getNumKids :: "expr \<Rightarrow> nat" where "getNumKids e = length (kids e)"

definition getKid :: "expr \<Rightarrow> nat \<Rightarrow> expr option" where "getKid e i = nth_opt (kids e) i"

definition is_Constant :: "expr \<Rightarrow> bool" where
  "is_Constant e = (case e of ConstantExpr _ \<Rightarrow> True | _ \<Rightarrow> False)"

subsection \<open>class ConstantExpr\<close>

definition ConstantExpr_alloc_u64 :: "apint_ops \<Rightarrow> uint64 \<Rightarrow> width \<Rightarrow> apint" where
  "ConstantExpr_alloc_u64 A v w = ap_of_uint64 A w v"

text \<open>\<open>create\<close> checks, for at most 64 bits, that no set bit is dropped.\<close>

definition ConstantExpr_create :: "apint_ops \<Rightarrow> uint64 \<Rightarrow> width \<Rightarrow> apint option" where
  "ConstantExpr_create A v w =
     check (w \<le> 64 \<longrightarrow> 0 < w \<and> v = take_bit w v) (Some (ConstantExpr_alloc_u64 A v w))"

definition getZExtValue :: "apint_ops \<Rightarrow> apint \<Rightarrow> nat \<Rightarrow> uint64 option" where
  "getZExtValue A c bits = check (ap_width c \<le> bits) (Some (ap_getZExtValue A c))"

definition getLimitedValue :: "apint_ops \<Rightarrow> apint \<Rightarrow> uint64" where
  "getLimitedValue A c = ap_getLimitedValue A c (- 1)"

definition ConstantExpr_isZero :: "apint_ops \<Rightarrow> apint \<Rightarrow> bool" where
  "ConstantExpr_isZero A c = ap_isMinValue A c"

definition ConstantExpr_isOne :: "apint_ops \<Rightarrow> apint \<Rightarrow> bool" where
  "ConstantExpr_isOne A c \<longleftrightarrow> getLimitedValue A c = 1"

definition ConstantExpr_isTrue :: "apint_ops \<Rightarrow> apint \<Rightarrow> bool" where
  "ConstantExpr_isTrue A c \<longleftrightarrow> ap_width c = Bool_width \<and> ap_getBoolValue A c"

definition ConstantExpr_isFalse :: "apint_ops \<Rightarrow> apint \<Rightarrow> bool" where
  "ConstantExpr_isFalse A c \<longleftrightarrow> ap_width c = Bool_width \<and> \<not> ap_getBoolValue A c"

definition ConstantExpr_isAllOnes :: "apint_ops \<Rightarrow> apint \<Rightarrow> bool" where
  "ConstantExpr_isAllOnes A c = ap_isAllOnesValue A c"

definition isZero :: "apint_ops \<Rightarrow> expr \<Rightarrow> bool" where
  "isZero A e = (case e of ConstantExpr c \<Rightarrow> ConstantExpr_isZero A c | _ \<Rightarrow> False)"

definition isTrue :: "apint_ops \<Rightarrow> expr \<Rightarrow> bool option" where
  "isTrue A e = check (getWidth e = Bool_width)
     (Some (case e of ConstantExpr c \<Rightarrow> ConstantExpr_isTrue A c | _ \<Rightarrow> False))"

definition isFalse :: "apint_ops \<Rightarrow> expr \<Rightarrow> bool option" where
  "isFalse A e = check (getWidth e = Bool_width)
     (Some (case e of ConstantExpr c \<Rightarrow> ConstantExpr_isFalse A c | _ \<Rightarrow> False))"

definition ConstantExpr_Concat :: "apint_ops \<Rightarrow> apint \<Rightarrow> apint \<Rightarrow> apint" where
  "ConstantExpr_Concat A c rhs =
     (let W = ap_width c + ap_width rhs;
          Tmp = ap_zext A W c;
          Tmp = ap_shl_n A Tmp (ap_width rhs);
          Tmp = ap_or A Tmp (ap_zext A W rhs)
      in Tmp)"

definition ConstantExpr_Extract :: "apint_ops \<Rightarrow> apint \<Rightarrow> nat \<Rightarrow> width \<Rightarrow> apint" where
  "ConstantExpr_Extract A c offset W = ap_zextOrTrunc A W (ap_ashr_n A c offset)"

definition ConstantExpr_ZExt :: "apint_ops \<Rightarrow> apint \<Rightarrow> width \<Rightarrow> apint" where
  "ConstantExpr_ZExt A c W = ap_zextOrTrunc A W c"

definition ConstantExpr_SExt :: "apint_ops \<Rightarrow> apint \<Rightarrow> width \<Rightarrow> apint" where
  "ConstantExpr_SExt A c W = ap_sextOrTrunc A W c"

definition ConstantExpr_Neg :: "apint_ops \<Rightarrow> apint \<Rightarrow> apint" where
  "ConstantExpr_Neg A c = ap_neg A c"

definition ConstantExpr_Not :: "apint_ops \<Rightarrow> apint \<Rightarrow> apint" where
  "ConstantExpr_Not A c = ap_not A c"

definition alloc_bool :: "apint_ops \<Rightarrow> bool \<Rightarrow> apint" where
  "alloc_bool A b = ConstantExpr_alloc_u64 A (of_bool64 b) Bool_width"

text \<open>The members \<open>ConstantExpr::Add\<close> to \<open>ConstantExpr::Sge\<close>, one per binary kind.\<close>

fun ConstantExpr_binary :: "apint_ops \<Rightarrow> binkind \<Rightarrow> apint \<Rightarrow> apint \<Rightarrow> apint" where
  "ConstantExpr_binary A Add x y = ap_add A x y"
| "ConstantExpr_binary A Sub x y = ap_sub A x y"
| "ConstantExpr_binary A Mul x y = ap_mul A x y"
| "ConstantExpr_binary A UDiv x y = ap_udiv A x y"
| "ConstantExpr_binary A SDiv x y = ap_sdiv A x y"
| "ConstantExpr_binary A URem x y = ap_urem A x y"
| "ConstantExpr_binary A SRem x y = ap_srem A x y"
| "ConstantExpr_binary A And x y = ap_and A x y"
| "ConstantExpr_binary A Or x y = ap_or A x y"
| "ConstantExpr_binary A Xor x y = ap_xor A x y"
| "ConstantExpr_binary A Shl x y = ap_shl A x y"
| "ConstantExpr_binary A LShr x y = ap_lshr A x y"
| "ConstantExpr_binary A AShr x y = ap_ashr A x y"
| "ConstantExpr_binary A Eq x y = alloc_bool A (ap_eq A x y)"
| "ConstantExpr_binary A Ne x y = alloc_bool A (ap_ne A x y)"
| "ConstantExpr_binary A Ult x y = alloc_bool A (ap_ult A x y)"
| "ConstantExpr_binary A Ule x y = alloc_bool A (ap_ule A x y)"
| "ConstantExpr_binary A Ugt x y = alloc_bool A (ap_ugt A x y)"
| "ConstantExpr_binary A Uge x y = alloc_bool A (ap_uge A x y)"
| "ConstantExpr_binary A Slt x y = alloc_bool A (ap_slt A x y)"
| "ConstantExpr_binary A Sle x y = alloc_bool A (ap_sle A x y)"
| "ConstantExpr_binary A Sgt x y = alloc_bool A (ap_sgt A x y)"
| "ConstantExpr_binary A Sge x y = alloc_bool A (ap_sge A x y)"

subsection \<open>Hashes\<close>

text \<open>\<open>char\<close> is signed on the platforms KLEE supports, so a byte is sign-extended.\<close>

definition char_uint32 :: "char \<Rightarrow> uint32" where
  "char_uint32 c = scast (of_nat (of_char c) :: 8 word)"

definition name_hash :: "string \<Rightarrow> uint32" where
  "name_hash s = fold (\<lambda>c res. res * MAGIC_HASH_CONSTANT + char_uint32 c) s 0"

definition Array_computeHash :: "array \<Rightarrow> uint32" where
  "Array_computeHash a = name_hash (arr_name a) * MAGIC_HASH_CONSTANT + of_nat (arr_size a)"

definition ConstantExpr_computeHash :: "apint_ops \<Rightarrow> apint \<Rightarrow> uint32" where
  "ConstantExpr_computeHash A c =
     (let w = (of_nat (ap_width c) :: uint32)
      in if ap_width c \<le> 64
         then ucast (getLimitedValue A c XOR ucast (w * MAGIC_HASH_CONSTANT))
         else ucast (ap_hash_value A c XOR ucast (w * MAGIC_HASH_CONSTANT)))"

text \<open>The default \<open>Expr::computeHash\<close> over the hashes of the kids.\<close>

definition Expr_computeHash :: "nat \<Rightarrow> uint32 list \<Rightarrow> uint32" where
  "Expr_computeHash kind hs =
     fold (\<lambda>h res. push_bit 1 res XOR (h * MAGIC_HASH_CONSTANT)) hs
       (of_nat kind * MAGIC_HASH_CONSTANT)"

fun expr_hash :: "apint_ops \<Rightarrow> expr \<Rightarrow> uint32"
  and unode_hash :: "apint_ops \<Rightarrow> unode \<Rightarrow> uint32" where
  "expr_hash A (ConstantExpr c) = ConstantExpr_computeHash A c"
| "expr_hash A (NotOptimizedExpr src) = Expr_computeHash 1 [expr_hash A src]"
| "expr_hash A (ReadExpr root head index) =
     (expr_hash A index * MAGIC_HASH_CONSTANT)
       XOR (name_hash (arr_name root) XOR unode_hash A head)"
| "expr_hash A (SelectExpr c t f) = Expr_computeHash 4 [expr_hash A c, expr_hash A t, expr_hash A f]"
| "expr_hash A (ConcatExpr l r) = Expr_computeHash 5 [expr_hash A l, expr_hash A r]"
| "expr_hash A (ExtractExpr e offset w) =
     ((of_nat offset * MAGIC_HASH_CONSTANT) XOR (of_nat w * MAGIC_HASH_CONSTANT))
       XOR (expr_hash A e * MAGIC_HASH_CONSTANT)"
| "expr_hash A (CastExpr k src w) =
     (of_nat w * MAGIC_HASH_CONSTANT) XOR (expr_hash A src * MAGIC_HASH_CONSTANT)"
| "expr_hash A (NotExpr e) = expr_hash A e * MAGIC_HASH_CONSTANT * 9"
| "expr_hash A (BinaryExpr k l r) =
     Expr_computeHash (binkind_code k) [expr_hash A l, expr_hash A r]"
| "unode_hash A NullNode = 0"
| "unode_hash A (UpdateNode next index value) =
     (expr_hash A index XOR expr_hash A value) XOR unode_hash A next"

subsection \<open>Update lists\<close>

fun unode_size :: "unode \<Rightarrow> nat" where
  "unode_size NullNode = 0"
| "unode_size (UpdateNode next _ _) = 1 + unode_size next"

definition UpdateList_extend ::
  "array option \<Rightarrow> unode \<Rightarrow> expr \<Rightarrow> expr \<Rightarrow> unode option" where
  "UpdateList_extend root head index value =
     (case root of
        None \<Rightarrow> Some (UpdateNode head index value)
      | Some a \<Rightarrow> check (arr_domain a = getWidth index) (check (arr_range a = getWidth value)
                    (Some (UpdateNode head index value))))"

definition isConstantArray :: "array \<Rightarrow> bool" where
  "isConstantArray a \<longleftrightarrow> arr_constantValues a \<noteq> []"

definition isSymbolicArray :: "array \<Rightarrow> bool" where
  "isSymbolicArray a \<longleftrightarrow> arr_constantValues a = []"

text \<open>The constructor's two assertions.\<close>

definition Array_new ::
  "nat \<Rightarrow> string \<Rightarrow> nat \<Rightarrow> apint list \<Rightarrow> width \<Rightarrow> width \<Rightarrow> array option" where
  "Array_new addr name size' constantValues domain range' =
     (let a = \<lparr>arr_addr = addr, arr_name = name, arr_size = size', arr_domain = domain,
               arr_range = range', arr_constantValues = constantValues\<rparr>
      in check (isSymbolicArray a \<or> length constantValues = size')
           (check (\<forall>c \<in> set constantValues. ap_width c = range') (Some a)))"

subsection \<open>Structural comparison\<close>

definition cmp3 :: "'a::linorder \<Rightarrow> 'a \<Rightarrow> int" where
  "cmp3 x y = (if x \<noteq> y then (if x < y then - 1 else 1) else 0)"

definition orElse :: "int \<Rightarrow> int \<Rightarrow> int" where
  "orElse res k = (if res \<noteq> 0 then res else k)"

definition ConstantExpr_compareContents :: "apint_ops \<Rightarrow> apint \<Rightarrow> apint \<Rightarrow> int" where
  "ConstantExpr_compareContents A x y =
     (if ap_width x \<noteq> ap_width y then (if ap_width x < ap_width y then - 1 else 1)
      else if ap_eq A x y then 0
      else if ap_ult A x y then - 1 else 1)"

text \<open>The virtual \<open>compareContents\<close> of every class but \<open>ReadExpr\<close>, on two expressions of one kind.\<close>

fun compareContents :: "apint_ops \<Rightarrow> expr \<Rightarrow> expr \<Rightarrow> int" where
  "compareContents A (ConstantExpr x) (ConstantExpr y) = ConstantExpr_compareContents A x y"
| "compareContents A (ConcatExpr l r) (ConcatExpr l' r') =
     cmp3 (getWidth l + getWidth r) (getWidth l' + getWidth r')"
| "compareContents A (ExtractExpr e offset w) (ExtractExpr e' offset' w') =
     orElse (cmp3 offset offset') (cmp3 w w')"
| "compareContents A (CastExpr k s w) (CastExpr k' s' w') = cmp3 w w'"
| "compareContents A _ _ = 0"

lemma size_kids: "sum_list (map (\<lambda>x. Suc (3 * size x)) (kids e)) < Suc (3 * size e)"
  by (cases e) simp_all

text \<open>
  \<open>Expr::compare\<close>: kind, hash, contents, kids; for a read the contents are the update lists
  (\<open>UpdateList::compare\<close>: name, address of the root, length, nodes).  The shortcuts of the
  code, equal addresses and the set of pairs already found equal, change the cost and not the
  result.
\<close>

function expr_compare :: "apint_ops \<Rightarrow> expr \<Rightarrow> expr \<Rightarrow> int"
  and unode_compare :: "apint_ops \<Rightarrow> unode \<Rightarrow> unode \<Rightarrow> int"
  and kids_compare :: "apint_ops \<Rightarrow> expr list \<Rightarrow> expr list \<Rightarrow> int" where
  "expr_compare A a b =
     (if getKind a \<noteq> getKind b then (if getKind a < getKind b then - 1 else 1)
      else if expr_hash A a \<noteq> expr_hash A b then (if expr_hash A a < expr_hash A b then - 1 else 1)
      else
        orElse
          (case a of
             ReadExpr root head index \<Rightarrow>
               (case b of
                  ReadExpr root' head' index' \<Rightarrow>
                    orElse (cmp3 (arr_name root) (arr_name root'))
                     (orElse (cmp3 (arr_addr root) (arr_addr root'))
                      (orElse (cmp3 (unode_size head) (unode_size head'))
                        (unode_compare A head head')))
                | _ \<Rightarrow> 0)
           | _ \<Rightarrow> compareContents A a b)
          (kids_compare A (kids a) (kids b)))"
| "unode_compare A (UpdateNode next index value) (UpdateNode next' index' value') =
     orElse (expr_compare A index index')
       (orElse (expr_compare A value value') (unode_compare A next next'))"
| "unode_compare A NullNode u = 0"
| "unode_compare A (UpdateNode next index value) NullNode = 0"
| "kids_compare A (x # xs) (y # ys) = orElse (expr_compare A x y) (kids_compare A xs ys)"
| "kids_compare A [] ys = 0"
| "kids_compare A (x # xs) [] = 0"
  by pat_completeness auto
termination
  by (relation "measures
       [\<lambda>x. case x of Inl (A, a, b) \<Rightarrow> Suc (3 * size a)
          | Inr (Inl (A, u, v)) \<Rightarrow> 3 * size u
          | Inr (Inr (A, xs, ys)) \<Rightarrow> sum_list (map (\<lambda>x. Suc (3 * size x)) xs),
        \<lambda>x. case x of Inr (Inr _) \<Rightarrow> 1 | _ \<Rightarrow> 0]")
     (auto simp: size_kids neq_Nil_conv)

declare expr_compare.simps [simp del]

definition expr_eq :: "apint_ops \<Rightarrow> expr \<Rightarrow> expr \<Rightarrow> bool" where
  "expr_eq A a b \<longleftrightarrow> expr_compare A a b = 0"

subsection \<open>Typing\<close>

text \<open>
  An array object satisfies the assertions of its constructor and is the object at its
  address (\<open>H\<close>).  The typing of an expression is what the creation functions assert of
  their arguments.
\<close>

definition array_ok :: "(nat \<Rightarrow> array) \<Rightarrow> array \<Rightarrow> bool" where
  "array_ok H a \<longleftrightarrow> H (arr_addr a) = a \<and> 0 < arr_domain a \<and> arr_domain a \<le> 64 \<and> 0 < arr_range a
     \<and> (arr_constantValues a = [] \<or> length (arr_constantValues a) = arr_size a)
     \<and> (\<forall>c \<in> set (arr_constantValues a). ap_ok c \<and> ap_width c = arr_range a)"

fun wt :: "(nat \<Rightarrow> array) \<Rightarrow> expr \<Rightarrow> bool"
  and wt_unode :: "(nat \<Rightarrow> array) \<Rightarrow> array \<Rightarrow> unode \<Rightarrow> bool" where
  "wt H (ConstantExpr c) = ap_ok c"
| "wt H (NotOptimizedExpr src) = wt H src"
| "wt H (ReadExpr root head index) =
     (array_ok H root \<and> wt_unode H root head \<and> wt H index \<and> getWidth index = arr_domain root)"
| "wt H (SelectExpr c t f) =
     (wt H c \<and> wt H t \<and> wt H f \<and> getWidth c = Bool_width \<and> getWidth t = getWidth f)"
| "wt H (ConcatExpr l r) = (wt H l \<and> wt H r)"
| "wt H (ExtractExpr e off w) = (wt H e \<and> 0 < w \<and> off + w \<le> getWidth e)"
| "wt H (CastExpr k src w) = (wt H src \<and> getWidth src \<le> w)"
| "wt H (NotExpr e) = wt H e"
| "wt H (BinaryExpr k l r) = (wt H l \<and> wt H r \<and> getWidth l = getWidth r)"
| "wt_unode H root NullNode = True"
| "wt_unode H root (UpdateNode next index value) =
     (wt_unode H root next \<and> wt H index \<and> wt H value
      \<and> getWidth index = arr_domain root \<and> getWidth value = arr_range root)"

subsection \<open>Values\<close>

text \<open>The bit vector an operator computes; the quotient by 0 is not specified by the code.\<close>

fun bv_binary :: "binkind \<Rightarrow> apint \<Rightarrow> apint \<Rightarrow> apint" where
  "bv_binary Add x y = bv_lift (+) x y"
| "bv_binary Sub x y = bv_lift (-) x y"
| "bv_binary Mul x y = bv_lift (*) x y"
| "bv_binary UDiv x y = bv_lift (div) x y"
| "bv_binary SDiv x y = bv_lift_s (sdiv) x y"
| "bv_binary URem x y = bv_lift (mod) x y"
| "bv_binary SRem x y = bv_lift_s (smod) x y"
| "bv_binary And x y = bv_lift (AND) x y"
| "bv_binary Or x y = bv_lift (OR) x y"
| "bv_binary Xor x y = bv_lift (XOR) x y"
| "bv_binary Shl x y = bv_shl x (nat (ap_value y))"
| "bv_binary LShr x y = bv_lshr x (nat (ap_value y))"
| "bv_binary AShr x y = bv_ashr x (nat (ap_value y))"
| "bv_binary Eq x y = bv_bool (ap_value x = ap_value y)"
| "bv_binary Ne x y = bv_bool (ap_value x \<noteq> ap_value y)"
| "bv_binary Ult x y = bv_bool (ap_value x < ap_value y)"
| "bv_binary Ule x y = bv_bool (ap_value x \<le> ap_value y)"
| "bv_binary Ugt x y = bv_bool (ap_value x > ap_value y)"
| "bv_binary Uge x y = bv_bool (ap_value x \<ge> ap_value y)"
| "bv_binary Slt x y = bv_bool (ap_signed x < ap_signed y)"
| "bv_binary Sle x y = bv_bool (ap_signed x \<le> ap_signed y)"
| "bv_binary Sgt x y = bv_bool (ap_signed x > ap_signed y)"
| "bv_binary Sge x y = bv_bool (ap_signed x \<ge> ap_signed y)"

fun bv_cast :: "castkind \<Rightarrow> width \<Rightarrow> apint \<Rightarrow> apint" where
  "bv_cast ZExt w x = bv_zext w x"
| "bv_cast SExt w x = bv_sext w x"

type_synonym assignment = "array \<Rightarrow> nat \<Rightarrow> int"

definition array_value :: "assignment \<Rightarrow> array \<Rightarrow> nat \<Rightarrow> apint" where
  "array_value \<rho> root i =
     (if isConstantArray root \<and> i < arr_size root then arr_constantValues root ! i
      else mk_ap (arr_range root) (\<rho> root i))"

fun sem :: "assignment \<Rightarrow> expr \<Rightarrow> apint"
  and sem_read :: "assignment \<Rightarrow> array \<Rightarrow> unode \<Rightarrow> apint \<Rightarrow> apint" where
  "sem \<rho> (ConstantExpr c) = c"
| "sem \<rho> (NotOptimizedExpr src) = sem \<rho> src"
| "sem \<rho> (ReadExpr root head index) = sem_read \<rho> root head (sem \<rho> index)"
| "sem \<rho> (SelectExpr c t f) = (if ap_value (sem \<rho> c) \<noteq> 0 then sem \<rho> t else sem \<rho> f)"
| "sem \<rho> (ConcatExpr l r) = bv_concat (sem \<rho> l) (sem \<rho> r)"
| "sem \<rho> (ExtractExpr e off w) = bv_extract off w (sem \<rho> e)"
| "sem \<rho> (CastExpr k src w) = bv_cast k w (sem \<rho> src)"
| "sem \<rho> (NotExpr e) = bv_not (sem \<rho> e)"
| "sem \<rho> (BinaryExpr k l r) = bv_binary k (sem \<rho> l) (sem \<rho> r)"
| "sem_read \<rho> root NullNode i = array_value \<rho> root (nat (ap_value i))"
| "sem_read \<rho> root (UpdateNode next index value) i =
     (if ap_value (sem \<rho> index) = ap_value i then sem \<rho> value else sem_read \<rho> root next i)"

subsection \<open>Typed expressions have well-formed values of their width\<close>

lemma bv_binary_ok:
  assumes "ap_ok x" "ap_ok y" "ap_width x = ap_width y"
  shows "ap_ok (bv_binary k x y) \<and>
    ap_width (bv_binary k x y) = (if is_CmpExpr_kind (binkind_code k) then 1 else ap_width x)"
proof -
  have "0 < ap_width x" using assms by (simp add: ap_ok_def)
  then show ?thesis
    by (cases k)
      (simp_all add: bv_lift_def bv_lift_s_def bv_shl_def bv_lshr_def bv_ashr_def is_CmpExpr_kind_def)
qed

lemma array_value_ok:
  assumes "array_ok H root"
  shows "ap_ok (array_value \<rho> root i) \<and> ap_width (array_value \<rho> root i) = arr_range root"
  using assms by (auto simp: array_ok_def array_value_def isConstantArray_def)

lemma ap_ok_pos: "ap_ok x \<Longrightarrow> 0 < ap_width x"
  by (simp add: ap_ok_def)

lemma wt_sem_both:
  "wt H e \<Longrightarrow> ap_ok (sem \<rho> e) \<and> ap_width (sem \<rho> e) = getWidth e"
  "array_ok H root \<Longrightarrow> wt_unode H root u \<Longrightarrow>
     \<forall>i. ap_ok (sem_read \<rho> root u i) \<and> ap_width (sem_read \<rho> root u i) = arr_range root"
proof (induction e and u arbitrary: and root)
  case (CastExpr k e w)
  then show ?case by (cases k) (auto simp: bv_zext_def bv_sext_def dest: ap_ok_pos)
next
  case (BinaryExpr k l r)
  then show ?case using bv_binary_ok [of "sem \<rho> l" "sem \<rho> r" k] by simp
qed (auto simp: array_value_ok bv_concat_def bv_extract_def bv_not_def dest: ap_ok_pos)

lemma wt_sem_ok [simp, intro]: "wt H e \<Longrightarrow> ap_ok (sem \<rho> e)"
  and wt_sem_width [simp]: "wt H e \<Longrightarrow> ap_width (sem \<rho> e) = getWidth e"
  using wt_sem_both(1) by blast+

lemma wt_width_pos: "wt H e \<Longrightarrow> 0 < getWidth e"
  using wt_sem_both(1) [of H e] by (fastforce simp: ap_ok_def)

subsection \<open>Comparison decides equality\<close>

lemma orElse_eq_0 [simp]: "orElse a b = 0 \<longleftrightarrow> a = 0 \<and> b = 0"
  by (simp add: orElse_def)

lemma cmp3_eq_0 [simp]: "cmp3 x y = 0 \<longleftrightarrow> x = y"
  by (simp add: cmp3_def)

lemma binkind_code_inj: "binkind_code k = binkind_code k' \<Longrightarrow> k = k'"
  by (cases k; cases k') simp_all

lemma binkind_code_ge: "10 \<le> binkind_code k"
  by (cases k) simp_all

lemma binkind_code_ne [simp]:
  "binkind_code k \<noteq> 0" "binkind_code k \<noteq> Suc 0" "binkind_code k \<noteq> 3" "binkind_code k \<noteq> 4"
  "binkind_code k \<noteq> 5" "binkind_code k \<noteq> 6" "binkind_code k \<noteq> 7" "binkind_code k \<noteq> 8"
  "binkind_code k \<noteq> 9" "Suc 0 \<noteq> binkind_code k"
  by (cases k; simp)+

lemma same_kind:
  "0 = getKind b \<Longrightarrow> \<exists>y. b = ConstantExpr y"
  "Suc 0 = getKind b \<Longrightarrow> \<exists>y. b = NotOptimizedExpr y"
  "3 = getKind b \<Longrightarrow> \<exists>r u i. b = ReadExpr r u i"
  "4 = getKind b \<Longrightarrow> \<exists>y1 y2 y3. b = SelectExpr y1 y2 y3"
  "5 = getKind b \<Longrightarrow> \<exists>y1 y2. b = ConcatExpr y1 y2"
  "6 = getKind b \<Longrightarrow> \<exists>y o' w. b = ExtractExpr y o' w"
  "7 = getKind b \<Longrightarrow> \<exists>y w. b = CastExpr ZExt y w"
  "8 = getKind b \<Longrightarrow> \<exists>y w. b = CastExpr SExt y w"
  "9 = getKind b \<Longrightarrow> \<exists>y. b = NotExpr y"
  by (cases b rule: getKind.cases; simp)+

lemma binkind_code_eq [simp]: "binkind_code k = binkind_code k' \<longleftrightarrow> k = k'"
  using binkind_code_inj by blast

lemma same_kind_binary: "binkind_code k = getKind b \<Longrightarrow> \<exists>y1 y2. b = BinaryExpr k y1 y2"
  by (cases b rule: getKind.cases; simp)

lemma expr_compare_eq_0:
  "expr_compare A a b = 0 \<longleftrightarrow> getKind a = getKind b \<and> expr_hash A a = expr_hash A b
     \<and> (case a of
             ReadExpr root head index \<Rightarrow>
               (case b of
                  ReadExpr root' head' index' \<Rightarrow>
                    arr_name root = arr_name root' \<and> arr_addr root = arr_addr root'
                    \<and> unode_size head = unode_size head' \<and> unode_compare A head head' = 0
                | _ \<Rightarrow> True)
           | _ \<Rightarrow> compareContents A a b = 0)
     \<and> kids_compare A (kids a) (kids b) = 0"
  by (subst expr_compare.simps) (simp split: expr.split)

context llvm_apint
begin

lemma constant_compare: "ap_ok x \<Longrightarrow> ap_ok y \<Longrightarrow> ConstantExpr_compareContents A x y = 0 \<longleftrightarrow> x = y"
  by (auto simp: ConstantExpr_compareContents_def eq)

lemma expr_compare_sound:
  "expr_compare A a b = 0 \<Longrightarrow> wt H a \<Longrightarrow> wt H b \<Longrightarrow> a = b"
  "unode_compare A u v = 0 \<Longrightarrow> unode_size u = unode_size v \<Longrightarrow> wt_unode H r u \<Longrightarrow> wt_unode H r v \<Longrightarrow> u = v"
proof (induction a and u arbitrary: b and v r)
  case (ReadExpr r u i)
  then obtain r' u' i' where b: "b = ReadExpr r' u' i'"
    using same_kind(3) [of b] by (auto simp: expr_compare_eq_0 [of _ "ReadExpr r u i"])
  with ReadExpr.prems have "arr_addr r = arr_addr r'" "array_ok H r" "array_ok H r'"
    by (auto simp: expr_compare_eq_0)
  then have "r = r'" by (auto simp: array_ok_def)
  then show ?case using ReadExpr b by (auto simp: expr_compare_eq_0)
next
  case (ConstantExpr x)
  then show ?case using same_kind(1) [of b]
    by (auto simp: expr_compare_eq_0 [of _ "ConstantExpr x"] constant_compare)
next
  case (CastExpr k x w)
  then show ?case using same_kind(7,8) [of b]
    by (cases k) (auto simp: expr_compare_eq_0 [of _ "CastExpr ZExt x w"]
        expr_compare_eq_0 [of _ "CastExpr SExt x w"])
next
  case (NotOptimizedExpr x)
  then show ?case using same_kind(2) [of b]
    by (auto simp: expr_compare_eq_0 [of _ "NotOptimizedExpr x"])
next
  case (SelectExpr x y z)
  then show ?case using same_kind(4) [of b]
    by (auto simp: expr_compare_eq_0 [of _ "SelectExpr x y z"])
next
  case (ConcatExpr x y)
  then show ?case using same_kind(5) [of b]
    by (auto simp: expr_compare_eq_0 [of _ "ConcatExpr x y"])
next
  case (ExtractExpr x o1 w)
  then show ?case using same_kind(6) [of b]
    by (auto simp: expr_compare_eq_0 [of _ "ExtractExpr x o1 w"])
next
  case (NotExpr x)
  then show ?case using same_kind(9) [of b]
    by (auto simp: expr_compare_eq_0 [of _ "NotExpr x"])
next
  case (BinaryExpr k x y)
  then show ?case using same_kind_binary [of k b]
    by (auto simp: expr_compare_eq_0 [of _ "BinaryExpr k x y"])
next
  case NullNode
  then show ?case by (cases v) auto
next
  case (UpdateNode n i x)
  then show ?case by (cases v) auto
qed

lemma expr_compare_refl:
  "wt H a \<Longrightarrow> expr_compare A a a = 0" "wt_unode H r u \<Longrightarrow> unode_compare A u u = 0"
proof (induction a and u arbitrary: and r)
  case (ConstantExpr x)
  then show ?case by (auto simp: expr_compare_eq_0 constant_compare)
qed (auto simp: expr_compare_eq_0)

lemma expr_eq_iff: "wt H a \<Longrightarrow> wt H b \<Longrightarrow> expr_eq A a b \<longleftrightarrow> a = b"
  using expr_compare_sound(1) expr_compare_refl(1) by (auto simp: expr_eq_def)

end

end
