(* ===== verification/ExprCreate.thy ===== *)
theory ExprCreate
  imports ExprCore
begin

text \<open>
  The creation functions of \<open>Expr.cpp\<close>: \<open>T::create\<close> is \<open>T_create\<close>, the file's
  \<open>static T_create\<close> (both operands not constant) is \<open>T_create_static\<close>.  Each returns the
  canonicalised expression, or \<open>None\<close> where an assertion fails.  The macros \<open>BCREATE_R\<close>,
  \<open>BCREATE\<close>, \<open>CMPCREATE\<close> and \<open>CMPCREATE_T\<close> are functions of what they paste.

  Where the code calls \<open>AddExpr::create\<close>, \<open>SubExpr::create\<close> or \<open>EqExpr::create\<close> with an
  operand known to be constant, the model calls the instance of that function for a constant
  operand (\<open>AddExpr_create_cl\<close>, \<open>SubExpr_create_cl\<close>, \<open>SubExpr_create_cr\<close>,
  \<open>EqExpr_create_cr\<close>), which makes the recursion structural; the lemmas \<open>..._eq\<close> show that
  they are the general functions at that operand.
\<close>

record expr_env =
  api :: apint_ops
  ConstArrayOpt :: bool

subsection \<open>The macros\<close>

text \<open>The division of two constants stops the program if the divisor is zero: it is \<open>None\<close>.\<close>

definition div_kind :: "binkind \<Rightarrow> bool" where
  "div_kind k \<longleftrightarrow> k \<in> {UDiv, SDiv, URem, SRem}"

definition division_traps :: "apint_ops \<Rightarrow> binkind \<Rightarrow> apint \<Rightarrow> bool" where
  "division_traps A k divisor \<longleftrightarrow> div_kind k \<and> ConstantExpr_isZero A divisor"

definition BCREATE_R ::
  "apint_ops \<Rightarrow> binkind \<Rightarrow> (expr \<Rightarrow> apint \<Rightarrow> expr option) \<Rightarrow> (apint \<Rightarrow> expr \<Rightarrow> expr option)
   \<Rightarrow> expr option \<Rightarrow> expr \<Rightarrow> expr \<Rightarrow> expr option" where
  "BCREATE_R A oper partialL partialR static l r =
     check (getWidth l = getWidth r)
       (case l of
          ConstantExpr cl \<Rightarrow>
            (case r of
               ConstantExpr cr \<Rightarrow> Some (ConstantExpr (ConstantExpr_binary A oper cl cr))
             | _ \<Rightarrow> partialR cl r)
        | _ \<Rightarrow>
            (case r of
               ConstantExpr cr \<Rightarrow> partialL l cr
             | _ \<Rightarrow> static))"

definition BCREATE ::
  "apint_ops \<Rightarrow> binkind \<Rightarrow> (expr \<Rightarrow> expr \<Rightarrow> expr option) \<Rightarrow> expr \<Rightarrow> expr \<Rightarrow> expr option" where
  "BCREATE A oper static l r =
     check (getWidth l = getWidth r)
       (case l of
          ConstantExpr cl \<Rightarrow>
            (case r of
               ConstantExpr cr \<Rightarrow>
                 check (\<not> division_traps A oper cr) (Some (ConstantExpr (ConstantExpr_binary A oper cl cr)))
             | _ \<Rightarrow> static l r)
        | _ \<Rightarrow> static l r)"

text \<open>\<open>CMPCREATE\<close> has the body of \<open>BCREATE\<close>, and \<open>CMPCREATE_T\<close> that of \<open>BCREATE_R\<close>.\<close>

definition CMPCREATE ::
  "apint_ops \<Rightarrow> binkind \<Rightarrow> (expr \<Rightarrow> expr \<Rightarrow> expr option) \<Rightarrow> expr \<Rightarrow> expr \<Rightarrow> expr option" where
  "CMPCREATE A oper static l r = BCREATE A oper static l r"

definition CMPCREATE_T ::
  "apint_ops \<Rightarrow> binkind \<Rightarrow> (expr \<Rightarrow> apint \<Rightarrow> expr option) \<Rightarrow> (apint \<Rightarrow> expr \<Rightarrow> expr option)
   \<Rightarrow> expr option \<Rightarrow> expr \<Rightarrow> expr \<Rightarrow> expr option" where
  "CMPCREATE_T A oper partialL partialR static l r = BCREATE_R A oper partialL partialR static l r"

subsection \<open>And, Or\<close>

definition AndExpr_createPartial :: "apint_ops \<Rightarrow> expr \<Rightarrow> apint \<Rightarrow> expr option" where
  "AndExpr_createPartial A l cr =
     (if ConstantExpr_isAllOnes A cr then Some l
      else if ConstantExpr_isZero A cr then Some (ConstantExpr cr)
      else Some (BinaryExpr And l (ConstantExpr cr)))"

definition AndExpr_createPartialR :: "apint_ops \<Rightarrow> apint \<Rightarrow> expr \<Rightarrow> expr option" where
  "AndExpr_createPartialR A cl r = AndExpr_createPartial A r cl"

definition AndExpr_create_static :: "expr \<Rightarrow> expr \<Rightarrow> expr option" where
  "AndExpr_create_static l r = Some (BinaryExpr And l r)"

definition AndExpr_create :: "apint_ops \<Rightarrow> expr \<Rightarrow> expr \<Rightarrow> expr option" where
  "AndExpr_create A l r =
     BCREATE_R A And (AndExpr_createPartial A) (AndExpr_createPartialR A) (AndExpr_create_static l r) l r"

definition OrExpr_createPartial :: "apint_ops \<Rightarrow> expr \<Rightarrow> apint \<Rightarrow> expr option" where
  "OrExpr_createPartial A l cr =
     (if ConstantExpr_isAllOnes A cr then Some (ConstantExpr cr)
      else if ConstantExpr_isZero A cr then Some l
      else Some (BinaryExpr Or l (ConstantExpr cr)))"

definition OrExpr_createPartialR :: "apint_ops \<Rightarrow> apint \<Rightarrow> expr \<Rightarrow> expr option" where
  "OrExpr_createPartialR A cl r = OrExpr_createPartial A r cl"

definition OrExpr_create_static :: "expr \<Rightarrow> expr \<Rightarrow> expr option" where
  "OrExpr_create_static l r = Some (BinaryExpr Or l r)"

definition OrExpr_create :: "apint_ops \<Rightarrow> expr \<Rightarrow> expr \<Rightarrow> expr option" where
  "OrExpr_create A l r =
     BCREATE_R A Or (OrExpr_createPartial A) (OrExpr_createPartialR A) (OrExpr_create_static l r) l r"

subsection \<open>Eq\<close>

definition EqExpr_create_static :: "apint_ops \<Rightarrow> expr \<Rightarrow> expr \<Rightarrow> expr option" where
  "EqExpr_create_static A l r =
     (if expr_eq A l r then Some (ConstantExpr (ConstantExpr_alloc_u64 A 1 Bool_width))
      else Some (BinaryExpr Eq l r))"

text \<open>
  \<open>TryConstArrayOpt\<close>: the loop over the array's values; \<open>eqIndex c\<close> is
  \<open>EqExpr::create(rd->index, c)\<close>, \<open>n\<close> the number of positions still to visit.
\<close>

fun TryConstArrayOpt_loop ::
  "apint_ops \<Rightarrow> (apint \<Rightarrow> expr option) \<Rightarrow> apint \<Rightarrow> array \<Rightarrow> width \<Rightarrow> expr option
   \<Rightarrow> nat \<Rightarrow> nat \<Rightarrow> nat \<Rightarrow> expr \<Rightarrow> expr option" where
  "TryConstArrayOpt_loop A eqIndex cl root iw giveUp 0 i numMatches res = Some res"
| "TryConstArrayOpt_loop A eqIndex cl root iw giveUp (Suc n) i numMatches res =
     (case nth_opt (arr_constantValues root) i of
        None \<Rightarrow> None
      | Some v \<Rightarrow>
          if expr_eq A (ConstantExpr cl) (ConstantExpr v) then
            (if numMatches + 1 > 100 then giveUp
             else do {
               mayBe \<leftarrow> eqIndex (ConstantExpr_alloc_u64 A (of_nat i) iw);
               res' \<leftarrow> OrExpr_create A res mayBe;
               TryConstArrayOpt_loop A eqIndex cl root iw giveUp n (Suc i) (numMatches + 1) res' })
          else TryConstArrayOpt_loop A eqIndex cl root iw giveUp n (Suc i) numMatches res)"

definition TryConstArrayOpt ::
  "apint_ops \<Rightarrow> (apint \<Rightarrow> expr option) \<Rightarrow> apint \<Rightarrow> array \<Rightarrow> unode \<Rightarrow> expr \<Rightarrow> expr option" where
  "TryConstArrayOpt A eqIndex cl root head index =
     (let giveUp = EqExpr_create_static A (ConstantExpr cl) (ReadExpr root head index)
      in if isSymbolicArray root \<or> unode_size head \<noteq> 0 then giveUp
         else TryConstArrayOpt_loop A eqIndex cl root (getWidth index) giveUp (arr_size root) 0 0
                (ConstantExpr (ConstantExpr_alloc_u64 A 0 Bool_width)))"

text \<open>
  The pathological check of the two casts: is \<open>cl\<close> the extension of its own truncation?
\<close>

definition EqExpr_ext_of_trunc :: "apint_ops \<Rightarrow> castkind \<Rightarrow> apint \<Rightarrow> width \<Rightarrow> bool" where
  "EqExpr_ext_of_trunc A k cl fromBits =
     (let trunc = ConstantExpr_ZExt A cl fromBits
      in expr_eq A (ConstantExpr cl)
           (ConstantExpr (case k of SExt \<Rightarrow> ConstantExpr_SExt A trunc (ap_width cl)
                                  | ZExt \<Rightarrow> ConstantExpr_ZExt A trunc (ap_width cl))))"

text \<open>\<open>0 == (0 == A)\<close>: the double negation that \<open>createPartialR\<close> removes.\<close>

definition EqExpr_is_false_const :: "apint_ops \<Rightarrow> expr \<Rightarrow> bool" where
  "EqExpr_is_false_const A a =
     (case a of ConstantExpr ce \<Rightarrow> ap_width ce = Bool_width \<and> ConstantExpr_isFalse A ce | _ \<Rightarrow> False)"

function EqExpr_createPartialR :: "expr_env \<Rightarrow> apint \<Rightarrow> expr \<Rightarrow> expr option"
  and EqExpr_create_cr :: "expr_env \<Rightarrow> expr \<Rightarrow> apint \<Rightarrow> expr option" where
  "EqExpr_createPartialR G cl r =
     (if ap_width cl = Bool_width then
        (if ConstantExpr_isTrue (api G) cl then Some r
         else
           (case r of
              BinaryExpr k a b \<Rightarrow>
                if k = Eq \<and> EqExpr_is_false_const (api G) a then Some b
                else if k = Or then do {
                  za \<leftarrow> ConstantExpr_create (api G) 0 (getWidth a);
                  na \<leftarrow> EqExpr_create_cr G a za;
                  zb \<leftarrow> ConstantExpr_create (api G) 0 (getWidth b);
                  nb \<leftarrow> EqExpr_create_cr G b zb;
                  AndExpr_create (api G) na nb }
                else EqExpr_create_static (api G) (ConstantExpr cl) r
            | _ \<Rightarrow> EqExpr_create_static (api G) (ConstantExpr cl) r))
      else
        (case r of
           CastExpr k src _ \<Rightarrow>
             if EqExpr_ext_of_trunc (api G) k cl (getWidth src)
             then EqExpr_create_cr G src (ConstantExpr_ZExt (api G) cl (getWidth src))
             else map_option ConstantExpr (ConstantExpr_create (api G) 0 Bool_width)
         | BinaryExpr k (ConstantExpr c1) b \<Rightarrow>
             if k = Add then
               check (ap_width cl = ap_width c1)
                 (EqExpr_createPartialR G (ConstantExpr_binary (api G) Sub cl c1) b)
             else if k = Sub then
               check (ap_width c1 = ap_width cl)
                 (EqExpr_createPartialR G (ConstantExpr_binary (api G) Sub c1 cl) b)
             else EqExpr_create_static (api G) (ConstantExpr cl) r
         | ReadExpr root head index \<Rightarrow>
             if ConstArrayOpt G
             then TryConstArrayOpt (api G) (EqExpr_create_cr G index) cl root head index
             else EqExpr_create_static (api G) (ConstantExpr cl) r
         | _ \<Rightarrow> EqExpr_create_static (api G) (ConstantExpr cl) r))"
| "EqExpr_create_cr G e c =
     check (getWidth e = ap_width c)
       (case e of
          ConstantExpr ce \<Rightarrow> Some (ConstantExpr (ConstantExpr_binary (api G) Eq ce c))
        | _ \<Rightarrow> EqExpr_createPartialR G c e)"
  by pat_completeness auto
termination
  by (relation "measure (\<lambda>x. case x of Inl (G, cl, r) \<Rightarrow> 2 * size r | Inr (G, e, c) \<Rightarrow> Suc (2 * size e))")
     auto

declare EqExpr_createPartialR.simps [simp del] EqExpr_create_cr.simps [simp del]

definition EqExpr_createPartial :: "expr_env \<Rightarrow> expr \<Rightarrow> apint \<Rightarrow> expr option" where
  "EqExpr_createPartial G l cr = EqExpr_createPartialR G cr l"

definition EqExpr_create :: "expr_env \<Rightarrow> expr \<Rightarrow> expr \<Rightarrow> expr option" where
  "EqExpr_create G l r =
     CMPCREATE_T (api G) Eq (EqExpr_createPartial G) (EqExpr_createPartialR G)
       (EqExpr_create_static (api G) l r) l r"

definition createIsZero :: "expr_env \<Rightarrow> expr \<Rightarrow> expr option" where
  "createIsZero G e = do {
     z \<leftarrow> ConstantExpr_create (api G) 0 (getWidth e);
     EqExpr_create G e (ConstantExpr z) }"

definition createImplies :: "expr_env \<Rightarrow> expr \<Rightarrow> expr \<Rightarrow> expr option" where
  "createImplies G hyp conc = do {
     nh \<leftarrow> createIsZero G hyp;
     OrExpr_create (api G) nh conc }"

subsection \<open>Xor\<close>

definition XorExpr_createPartialR :: "expr_env \<Rightarrow> apint \<Rightarrow> expr \<Rightarrow> expr option" where
  "XorExpr_createPartialR G cl r =
     (if ConstantExpr_isZero (api G) cl then Some r
      else if ap_width cl = Bool_width then do {
        z \<leftarrow> ConstantExpr_create (api G) 0 Bool_width;
        EqExpr_createPartial G r z }
      else Some (BinaryExpr Xor (ConstantExpr cl) r))"

definition XorExpr_createPartial :: "expr_env \<Rightarrow> expr \<Rightarrow> apint \<Rightarrow> expr option" where
  "XorExpr_createPartial G l cr = XorExpr_createPartialR G cr l"

definition XorExpr_create_static :: "expr \<Rightarrow> expr \<Rightarrow> expr option" where
  "XorExpr_create_static l r = Some (BinaryExpr Xor l r)"

definition XorExpr_create :: "expr_env \<Rightarrow> expr \<Rightarrow> expr \<Rightarrow> expr option" where
  "XorExpr_create G l r =
     BCREATE_R (api G) Xor (XorExpr_createPartial G) (XorExpr_createPartialR G)
       (XorExpr_create_static l r) l r"

subsection \<open>Add, Sub\<close>

text \<open>\<open>const_left k e\<close>: \<open>e->getKind() == k && isa<ConstantExpr>(e->getKid(0))\<close>, with the two kids.\<close>

definition const_left :: "binkind \<Rightarrow> expr \<Rightarrow> (apint \<times> expr) option" where
  "const_left k e =
     (case e of
        BinaryExpr k' (ConstantExpr c) b \<Rightarrow> (if k' = k then Some (c, b) else None)
      | _ \<Rightarrow> None)"

lemma const_left_Some: "const_left k e = Some (c, b) \<longleftrightarrow> e = BinaryExpr k (ConstantExpr c) b"
  by (auto simp: const_left_def split: expr.splits)

function AddExpr_createPartialR :: "expr_env \<Rightarrow> apint \<Rightarrow> expr \<Rightarrow> expr option"
  and SubExpr_createPartialR :: "expr_env \<Rightarrow> apint \<Rightarrow> expr \<Rightarrow> expr option"
  and AddExpr_create_cl :: "expr_env \<Rightarrow> apint \<Rightarrow> expr \<Rightarrow> expr option"
  and SubExpr_create_cl :: "expr_env \<Rightarrow> apint \<Rightarrow> expr \<Rightarrow> expr option" where
  "AddExpr_createPartialR G cl r =
     (if ap_width cl = Bool_width then XorExpr_createPartialR G cl r
      else if ConstantExpr_isZero (api G) cl then Some r
      else
        (case const_left Add r of
           Some (c, b) \<Rightarrow>
             check (ap_width cl = ap_width c)
               (AddExpr_create_cl G (ConstantExpr_binary (api G) Add cl c) b)
         | None \<Rightarrow>
        (case const_left Sub r of
           Some (c, b) \<Rightarrow>
             check (ap_width cl = ap_width c)
               (SubExpr_create_cl G (ConstantExpr_binary (api G) Add cl c) b)
         | None \<Rightarrow> Some (BinaryExpr Add (ConstantExpr cl) r))))"
| "SubExpr_createPartialR G cl r =
     (if ap_width cl = Bool_width then XorExpr_createPartialR G cl r
      else
        (case const_left Add r of
           Some (c, b) \<Rightarrow>
             check (ap_width cl = ap_width c)
               (SubExpr_create_cl G (ConstantExpr_binary (api G) Sub cl c) b)
         | None \<Rightarrow>
        (case const_left Sub r of
           Some (c, b) \<Rightarrow>
             check (ap_width cl = ap_width c)
               (AddExpr_create_cl G (ConstantExpr_binary (api G) Sub cl c) b)
         | None \<Rightarrow> Some (BinaryExpr Sub (ConstantExpr cl) r))))"
| "AddExpr_create_cl G cl r =
     check (ap_width cl = getWidth r)
       (case r of
          ConstantExpr cr \<Rightarrow> Some (ConstantExpr (ConstantExpr_binary (api G) Add cl cr))
        | _ \<Rightarrow> AddExpr_createPartialR G cl r)"
| "SubExpr_create_cl G cl r =
     check (ap_width cl = getWidth r)
       (case r of
          ConstantExpr cr \<Rightarrow> Some (ConstantExpr (ConstantExpr_binary (api G) Sub cl cr))
        | _ \<Rightarrow> SubExpr_createPartialR G cl r)"
  by pat_completeness auto
termination
  by (relation "measure (\<lambda>x. case x of Inl (Inl (G, cl, r)) \<Rightarrow> 2 * size r
        | Inl (Inr (G, cl, r)) \<Rightarrow> 2 * size r
        | Inr (Inl (G, cl, r)) \<Rightarrow> Suc (2 * size r)
        | Inr (Inr (G, cl, r)) \<Rightarrow> Suc (2 * size r))")
     (auto simp: const_left_Some)

declare AddExpr_createPartialR.simps [simp del] SubExpr_createPartialR.simps [simp del]
  AddExpr_create_cl.simps [simp del] SubExpr_create_cl.simps [simp del]

definition AddExpr_createPartial :: "expr_env \<Rightarrow> expr \<Rightarrow> apint \<Rightarrow> expr option" where
  "AddExpr_createPartial G l cr = AddExpr_createPartialR G cr l"

definition SubExpr_createPartial :: "expr_env \<Rightarrow> expr \<Rightarrow> apint \<Rightarrow> expr option" where
  "SubExpr_createPartial G l cr =
     AddExpr_createPartial G l
       (ConstantExpr_binary (api G) Sub (ConstantExpr_alloc_u64 (api G) 0 (ap_width cr)) cr)"

definition SubExpr_create_cr :: "expr_env \<Rightarrow> expr \<Rightarrow> apint \<Rightarrow> expr option" where
  "SubExpr_create_cr G l cr =
     check (getWidth l = ap_width cr)
       (case l of
          ConstantExpr cl \<Rightarrow> Some (ConstantExpr (ConstantExpr_binary (api G) Sub cl cr))
        | _ \<Rightarrow> SubExpr_createPartial G l cr)"

function AddExpr_create :: "expr_env \<Rightarrow> expr \<Rightarrow> expr \<Rightarrow> expr option"
  and SubExpr_create :: "expr_env \<Rightarrow> expr \<Rightarrow> expr \<Rightarrow> expr option"
  and AddExpr_create_static :: "expr_env \<Rightarrow> expr \<Rightarrow> expr \<Rightarrow> expr option"
  and SubExpr_create_static :: "expr_env \<Rightarrow> expr \<Rightarrow> expr \<Rightarrow> expr option" where
  "AddExpr_create G l r =
     BCREATE_R (api G) Add (AddExpr_createPartial G) (AddExpr_createPartialR G)
       (AddExpr_create_static G l r) l r"
| "SubExpr_create G l r =
     BCREATE_R (api G) Sub (SubExpr_createPartial G) (SubExpr_createPartialR G)
       (SubExpr_create_static G l r) l r"
| "AddExpr_create_static G l r =
     (if getWidth l = Bool_width then XorExpr_create_static l r
      else
        (case const_left Add l of
           Some (k, a) \<Rightarrow> do { x \<leftarrow> AddExpr_create G a r; AddExpr_create_cl G k x }
         | None \<Rightarrow>
        (case const_left Sub l of
           Some (k, a) \<Rightarrow> do { x \<leftarrow> SubExpr_create G r a; AddExpr_create_cl G k x }
         | None \<Rightarrow>
        (case const_left Add r of
           Some (k, b) \<Rightarrow> do { x \<leftarrow> AddExpr_create G l b; AddExpr_create_cl G k x }
         | None \<Rightarrow>
        (case const_left Sub r of
           Some (k, b) \<Rightarrow> do { x \<leftarrow> SubExpr_create G l b; AddExpr_create_cl G k x }
         | None \<Rightarrow> Some (BinaryExpr Add l r))))))"
| "SubExpr_create_static G l r =
     (if getWidth l = Bool_width then XorExpr_create_static l r
      else if expr_eq (api G) l r
      then Some (ConstantExpr (ConstantExpr_alloc_u64 (api G) 0 (getWidth l)))
      else
        (case const_left Add l of
           Some (k, a) \<Rightarrow> do { x \<leftarrow> SubExpr_create G a r; AddExpr_create_cl G k x }
         | None \<Rightarrow>
        (case const_left Sub l of
           Some (k, a) \<Rightarrow> do { x \<leftarrow> AddExpr_create G a r; SubExpr_create_cl G k x }
         | None \<Rightarrow>
        (case const_left Add r of
           Some (k, b) \<Rightarrow> do { x \<leftarrow> SubExpr_create G l b; SubExpr_create_cr G x k }
         | None \<Rightarrow>
        (case const_left Sub r of
           Some (k, b) \<Rightarrow> do { x \<leftarrow> AddExpr_create G l b; SubExpr_create_cr G x k }
         | None \<Rightarrow> Some (BinaryExpr Sub l r))))))"
  by pat_completeness auto
termination
  by (relation "measure (\<lambda>x. case x of Inl (Inl (G, l, r)) \<Rightarrow> Suc (2 * (size l + size r))
        | Inl (Inr (G, l, r)) \<Rightarrow> Suc (2 * (size l + size r))
        | Inr (Inl (G, l, r)) \<Rightarrow> 2 * (size l + size r)
        | Inr (Inr (G, l, r)) \<Rightarrow> 2 * (size l + size r))")
     (auto simp: const_left_Some)

declare AddExpr_create.simps [simp del] SubExpr_create.simps [simp del]
  AddExpr_create_static.simps [simp del] SubExpr_create_static.simps [simp del]

subsection \<open>Mul, divisions, shifts\<close>

definition MulExpr_createPartialR :: "apint_ops \<Rightarrow> apint \<Rightarrow> expr \<Rightarrow> expr option" where
  "MulExpr_createPartialR A cl r =
     (if ap_width cl = Bool_width then AndExpr_createPartialR A cl r
      else if ConstantExpr_isOne A cl then Some r
      else if ConstantExpr_isZero A cl then Some (ConstantExpr cl)
      else Some (BinaryExpr Mul (ConstantExpr cl) r))"

definition MulExpr_createPartial :: "apint_ops \<Rightarrow> expr \<Rightarrow> apint \<Rightarrow> expr option" where
  "MulExpr_createPartial A l cr = MulExpr_createPartialR A cr l"

definition MulExpr_create_static :: "expr \<Rightarrow> expr \<Rightarrow> expr option" where
  "MulExpr_create_static l r =
     (if getWidth l = Bool_width then Some (BinaryExpr And l r) else Some (BinaryExpr Mul l r))"

definition MulExpr_create :: "apint_ops \<Rightarrow> expr \<Rightarrow> expr \<Rightarrow> expr option" where
  "MulExpr_create A l r =
     BCREATE_R A Mul (MulExpr_createPartial A) (MulExpr_createPartialR A) (MulExpr_create_static l r) l r"

definition UDivExpr_create_static :: "expr \<Rightarrow> expr \<Rightarrow> expr option" where
  "UDivExpr_create_static l r =
     (if getWidth l = Bool_width then Some l else Some (BinaryExpr UDiv l r))"

definition SDivExpr_create_static :: "expr \<Rightarrow> expr \<Rightarrow> expr option" where
  "SDivExpr_create_static l r =
     (if getWidth l = Bool_width then Some l else Some (BinaryExpr SDiv l r))"

definition URemExpr_create_static :: "apint_ops \<Rightarrow> expr \<Rightarrow> expr \<Rightarrow> expr option" where
  "URemExpr_create_static A l r =
     (if getWidth l = Bool_width then map_option ConstantExpr (ConstantExpr_create A 0 Bool_width)
      else Some (BinaryExpr URem l r))"

definition SRemExpr_create_static :: "apint_ops \<Rightarrow> expr \<Rightarrow> expr \<Rightarrow> expr option" where
  "SRemExpr_create_static A l r =
     (if getWidth l = Bool_width then map_option ConstantExpr (ConstantExpr_create A 0 Bool_width)
      else Some (BinaryExpr SRem l r))"

definition ShlExpr_create_static :: "expr_env \<Rightarrow> expr \<Rightarrow> expr \<Rightarrow> expr option" where
  "ShlExpr_create_static G l r =
     (if getWidth l = Bool_width then do { nr \<leftarrow> createIsZero G r; AndExpr_create (api G) l nr }
      else Some (BinaryExpr Shl l r))"

definition LShrExpr_create_static :: "expr_env \<Rightarrow> expr \<Rightarrow> expr \<Rightarrow> expr option" where
  "LShrExpr_create_static G l r =
     (if getWidth l = Bool_width then do { nr \<leftarrow> createIsZero G r; AndExpr_create (api G) l nr }
      else Some (BinaryExpr LShr l r))"

definition AShrExpr_create_static :: "expr \<Rightarrow> expr \<Rightarrow> expr option" where
  "AShrExpr_create_static l r =
     (if getWidth l = Bool_width then Some l else Some (BinaryExpr AShr l r))"

definition UDivExpr_create :: "apint_ops \<Rightarrow> expr \<Rightarrow> expr \<Rightarrow> expr option" where
  "UDivExpr_create A l r = BCREATE A UDiv UDivExpr_create_static l r"
definition SDivExpr_create :: "apint_ops \<Rightarrow> expr \<Rightarrow> expr \<Rightarrow> expr option" where
  "SDivExpr_create A l r = BCREATE A SDiv SDivExpr_create_static l r"
definition URemExpr_create :: "apint_ops \<Rightarrow> expr \<Rightarrow> expr \<Rightarrow> expr option" where
  "URemExpr_create A l r = BCREATE A URem (URemExpr_create_static A) l r"
definition SRemExpr_create :: "apint_ops \<Rightarrow> expr \<Rightarrow> expr \<Rightarrow> expr option" where
  "SRemExpr_create A l r = BCREATE A SRem (SRemExpr_create_static A) l r"
definition ShlExpr_create :: "expr_env \<Rightarrow> expr \<Rightarrow> expr \<Rightarrow> expr option" where
  "ShlExpr_create G l r = BCREATE (api G) Shl (ShlExpr_create_static G) l r"
definition LShrExpr_create :: "expr_env \<Rightarrow> expr \<Rightarrow> expr \<Rightarrow> expr option" where
  "LShrExpr_create G l r = BCREATE (api G) LShr (LShrExpr_create_static G) l r"
definition AShrExpr_create :: "apint_ops \<Rightarrow> expr \<Rightarrow> expr \<Rightarrow> expr option" where
  "AShrExpr_create A l r = BCREATE A AShr AShrExpr_create_static l r"

subsection \<open>Orders\<close>

definition UltExpr_create_static :: "expr_env \<Rightarrow> expr \<Rightarrow> expr \<Rightarrow> expr option" where
  "UltExpr_create_static G l r =
     (if getWidth l = Bool_width then do { nl \<leftarrow> createIsZero G l; AndExpr_create (api G) nl r }
      else Some (BinaryExpr Ult l r))"

definition UleExpr_create_static :: "expr_env \<Rightarrow> expr \<Rightarrow> expr \<Rightarrow> expr option" where
  "UleExpr_create_static G l r =
     (if getWidth l = Bool_width then do { nl \<leftarrow> createIsZero G l; OrExpr_create (api G) nl r }
      else Some (BinaryExpr Ule l r))"

definition SltExpr_create_static :: "expr_env \<Rightarrow> expr \<Rightarrow> expr \<Rightarrow> expr option" where
  "SltExpr_create_static G l r =
     (if getWidth l = Bool_width then do { nr \<leftarrow> createIsZero G r; AndExpr_create (api G) l nr }
      else Some (BinaryExpr Slt l r))"

definition SleExpr_create_static :: "expr_env \<Rightarrow> expr \<Rightarrow> expr \<Rightarrow> expr option" where
  "SleExpr_create_static G l r =
     (if getWidth l = Bool_width then do { nr \<leftarrow> createIsZero G r; OrExpr_create (api G) l nr }
      else Some (BinaryExpr Sle l r))"

definition UltExpr_create :: "expr_env \<Rightarrow> expr \<Rightarrow> expr \<Rightarrow> expr option" where
  "UltExpr_create G l r = CMPCREATE (api G) Ult (UltExpr_create_static G) l r"
definition UleExpr_create :: "expr_env \<Rightarrow> expr \<Rightarrow> expr \<Rightarrow> expr option" where
  "UleExpr_create G l r = CMPCREATE (api G) Ule (UleExpr_create_static G) l r"
definition SltExpr_create :: "expr_env \<Rightarrow> expr \<Rightarrow> expr \<Rightarrow> expr option" where
  "SltExpr_create G l r = CMPCREATE (api G) Slt (SltExpr_create_static G) l r"
definition SleExpr_create :: "expr_env \<Rightarrow> expr \<Rightarrow> expr \<Rightarrow> expr option" where
  "SleExpr_create G l r = CMPCREATE (api G) Sle (SleExpr_create_static G) l r"

definition NeExpr_create :: "expr_env \<Rightarrow> expr \<Rightarrow> expr \<Rightarrow> expr option" where
  "NeExpr_create G l r = do {
     z \<leftarrow> ConstantExpr_create (api G) 0 Bool_width;
     e \<leftarrow> EqExpr_create G l r;
     EqExpr_create G (ConstantExpr z) e }"

definition UgtExpr_create :: "expr_env \<Rightarrow> expr \<Rightarrow> expr \<Rightarrow> expr option" where
  "UgtExpr_create G l r = UltExpr_create G r l"
definition UgeExpr_create :: "expr_env \<Rightarrow> expr \<Rightarrow> expr \<Rightarrow> expr option" where
  "UgeExpr_create G l r = UleExpr_create G r l"
definition SgtExpr_create :: "expr_env \<Rightarrow> expr \<Rightarrow> expr \<Rightarrow> expr option" where
  "SgtExpr_create G l r = SltExpr_create G r l"
definition SgeExpr_create :: "expr_env \<Rightarrow> expr \<Rightarrow> expr \<Rightarrow> expr option" where
  "SgeExpr_create G l r = SleExpr_create G r l"

end
