(* ===== verification/ExprShape.thy ===== *)
theory ExprShape
  imports ExprCreate
begin

text \<open>
  The remaining creation functions of \<open>Expr.cpp\<close>: extraction, concatenation, casts,
  negation, selection and array reads, and the functions that dispatch on a kind
  (\<open>createFromKind\<close>, the virtual \<open>rebuild\<close>).
\<close>

definition NotOptimizedExpr_create :: "expr \<Rightarrow> expr option" where
  "NotOptimizedExpr_create src = Some (NotOptimizedExpr src)"

subsection \<open>Extract, Concat\<close>

text \<open>The code's \<open>w - right + off\<close> wraps around to \<open>w + off - right\<close>.\<close>

function ExtractExpr_create :: "apint_ops \<Rightarrow> expr \<Rightarrow> nat \<Rightarrow> width \<Rightarrow> expr option"
  and ConcatExpr_create :: "apint_ops \<Rightarrow> expr \<Rightarrow> expr \<Rightarrow> expr option" where
  "ExtractExpr_create A e off w =
     check (w > 0 \<and> off + w \<le> getWidth e)
       (if w = getWidth e then Some e
        else
          (case e of
             ConstantExpr c \<Rightarrow> Some (ConstantExpr (ConstantExpr_Extract A c off w))
           | ConcatExpr l r \<Rightarrow>
               if off \<ge> getWidth r then ExtractExpr_create A l (off - getWidth r) w
               else if off + w \<le> getWidth r then ExtractExpr_create A r off w
               else do {
                 x \<leftarrow> ExtractExpr_create A l 0 (w + off - getWidth r);
                 y \<leftarrow> ExtractExpr_create A r off (getWidth r - off);
                 ConcatExpr_create A x y }
           | _ \<Rightarrow> Some (ExtractExpr e off w)))"
| "ConcatExpr_create A l r =
     (case (l, r) of
        (ConstantExpr lc, ConstantExpr rc) \<Rightarrow> Some (ConstantExpr (ConstantExpr_Concat A lc rc))
      | (ExtractExpr el lo lw, ExtractExpr er ro rw) \<Rightarrow>
          if expr_eq A el er \<and> ro + rw = lo
          then ExtractExpr_create A el ro (getWidth l + getWidth r)
          else Some (ConcatExpr l r)
      | _ \<Rightarrow> Some (ConcatExpr l r))"
  by pat_completeness auto

text \<open>
  The outer \<open>ConcatExpr::create\<close> of the last branch is applied to results of the function
  itself, so termination needs a bound on them: an extraction at most doubles the size.
\<close>

fun esz :: "expr \<Rightarrow> nat" where
  "esz (ConcatExpr l r) = esz l + esz r + 1"
| "esz (ExtractExpr e _ _) = esz e + 1"
| "esz _ = 1"

lemma esz_pos: "0 < esz e"
  by (cases e) simp_all

lemma expr_compare_esz: "expr_compare A a b = 0 \<Longrightarrow> esz a = esz b"
proof (induction a arbitrary: b)
  case (ConcatExpr l r)
  then show ?case using same_kind(5) [of b] by (auto simp: expr_compare_eq_0 [of _ "ConcatExpr l r"])
next
  case (ExtractExpr e off w)
  then show ?case using same_kind(6) [of b] by (auto simp: expr_compare_eq_0 [of _ "ExtractExpr e off w"])
next
  case (BinaryExpr k l r)
  then show ?case using same_kind_binary [of k b] by (auto simp: expr_compare_eq_0 [of _ "BinaryExpr k l r"])
next
  case (CastExpr k e w)
  then show ?case using same_kind(7,8) [of b] by (cases k)
    (auto simp: expr_compare_eq_0 [of _ "CastExpr ZExt e w"] expr_compare_eq_0 [of _ "CastExpr SExt e w"])
qed (auto simp: expr_compare_eq_0 dest: same_kind same_kind [OF sym])

lemma expr_eq_esz: "expr_eq A a b \<Longrightarrow> esz a = esz b"
  by (simp add: expr_eq_def expr_compare_esz)

lemma Extract_Concat_size:
  "ExtractExpr_create_ConcatExpr_create_dom (Inl (A, e, off, w)) \<Longrightarrow>
     ExtractExpr_create A e off w = Some x \<Longrightarrow> esz x \<le> 2 * esz e"
  "ExtractExpr_create_ConcatExpr_create_dom (Inr (A, l, r)) \<Longrightarrow>
     ConcatExpr_create A l r = Some x \<Longrightarrow> esz x \<le> esz l + esz r + 1"
proof (induction arbitrary: x and x rule: ExtractExpr_create_ConcatExpr_create.pinduct)
  case (1 A e off w)
  note eq = "1.prems" [unfolded ExtractExpr_create.psimps [OF "1.hyps"]]
  show ?case
  proof (cases e)
    case (ConcatExpr l r)
    show ?thesis
    proof (cases "w = getWidth e")
      case True
      then show ?thesis using eq by simp
    next
      case False
      note ih = "1.IH" [OF _ False ConcatExpr]
      consider "getWidth r \<le> off" | "off < getWidth r" "off + w \<le> getWidth r"
        | "off < getWidth r" "getWidth r < off + w" by linarith
      then show ?thesis
      proof cases
        assume "getWidth r \<le> off"
        then show ?thesis using eq False ih(1) ConcatExpr by fastforce
      next
        assume "off < getWidth r" "off + w \<le> getWidth r"
        then show ?thesis using eq False ih(2) ConcatExpr by fastforce
      next
        assume c: "off < getWidth r" "getWidth r < off + w"
        with eq False ConcatExpr obtain a b where ab:
          "ExtractExpr_create A l 0 (w + off - getWidth r) = Some a"
          "ExtractExpr_create A r off (getWidth r - off) = Some b"
          "ConcatExpr_create A a b = Some x"
          by (auto simp: bind_eq_Some_conv)
        have "esz a \<le> 2 * esz l" by (rule ih(3)) (use c eq ConcatExpr ab in auto)
        moreover have "esz b \<le> 2 * esz r" by (rule ih(4)) (use c eq ConcatExpr ab in auto)
        moreover have "esz x \<le> esz a + esz b + 1" by (rule ih(5)) (use c eq ConcatExpr ab in auto)
        ultimately show ?thesis using ConcatExpr by simp
      qed
    qed
  qed (use eq in \<open>auto split: if_splits\<close>)
next
  case (2 A l r)
  note eq = "2.prems" [unfolded ConcatExpr_create.psimps [OF "2.hyps"]]
  show ?case
  proof (cases "\<exists>el lo lw er ro rw. l = ExtractExpr el lo lw \<and> r = ExtractExpr er ro rw
      \<and> expr_eq A el er \<and> ro + rw = lo")
    case True
    then obtain el lo lw er ro rw where lr: "l = ExtractExpr el lo lw" "r = ExtractExpr er ro rw"
      and c: "expr_eq A el er \<and> ro + rw = lo" by blast
    have "esz x \<le> 2 * esz el" by (rule "2.IH") (use lr c eq in auto)
    also have "\<dots> \<le> esz l + esz r + 1" using lr c expr_eq_esz [of A el er] by simp
    finally show ?thesis .
  next
    case False
    then have "x = ConcatExpr l r \<or> (\<exists>c. x = ConstantExpr c)"
      using eq by (auto split: expr.splits if_splits)
    then show ?thesis by auto
  qed
qed


termination ExtractExpr_create
proof (relation "measure (\<lambda>x. case x of Inl (A, e, off, w) \<Rightarrow> 2 * esz e | Inr (A, l, r) \<Rightarrow> esz l + esz r)",
    goal_cases)
  case 6
  then show ?case
    using Extract_Concat_size(1) by simp (meson add_le_mono le_imp_less_Suc less_SucI)
next
  case 7
  then show ?case using expr_eq_esz by auto
qed (auto simp: esz_pos)

declare ExtractExpr_create.simps [simp del] ConcatExpr_create.simps [simp del]

text \<open>\<open>createN\<close> builds the chain from the last kid; \<open>create4\<close> and \<open>create8\<close> nest the calls.\<close>

fun ConcatExpr_createN :: "apint_ops \<Rightarrow> expr list \<Rightarrow> expr option" where
  "ConcatExpr_createN A [] = None"
| "ConcatExpr_createN A [k] = Some k"
| "ConcatExpr_createN A (k # k' # ks) = do {
     r \<leftarrow> ConcatExpr_createN A (k' # ks);
     ConcatExpr_create A k r }"

definition ConcatExpr_create4 :: "apint_ops \<Rightarrow> expr \<Rightarrow> expr \<Rightarrow> expr \<Rightarrow> expr \<Rightarrow> expr option" where
  "ConcatExpr_create4 A k1 k2 k3 k4 = do {
     r \<leftarrow> ConcatExpr_create A k3 k4;
     r \<leftarrow> ConcatExpr_create A k2 r;
     ConcatExpr_create A k1 r }"

definition ConcatExpr_create8 ::
  "apint_ops \<Rightarrow> expr \<Rightarrow> expr \<Rightarrow> expr \<Rightarrow> expr \<Rightarrow> expr \<Rightarrow> expr \<Rightarrow> expr \<Rightarrow> expr \<Rightarrow> expr option" where
  "ConcatExpr_create8 A k1 k2 k3 k4 k5 k6 k7 k8 = do {
     r \<leftarrow> ConcatExpr_create4 A k5 k6 k7 k8;
     r \<leftarrow> ConcatExpr_create A k4 r;
     r \<leftarrow> ConcatExpr_create A k3 r;
     r \<leftarrow> ConcatExpr_create A k2 r;
     ConcatExpr_create A k1 r }"

subsection \<open>Not, casts\<close>

definition NotExpr_create :: "apint_ops \<Rightarrow> expr \<Rightarrow> expr option" where
  "NotExpr_create A e =
     (case e of ConstantExpr c \<Rightarrow> Some (ConstantExpr (ConstantExpr_Not A c)) | _ \<Rightarrow> Some (NotExpr e))"

definition ZExtExpr_create :: "apint_ops \<Rightarrow> expr \<Rightarrow> width \<Rightarrow> expr option" where
  "ZExtExpr_create A e w =
     (if w = getWidth e then Some e
      else if w < getWidth e then ExtractExpr_create A e 0 w
      else case e of ConstantExpr c \<Rightarrow> Some (ConstantExpr (ConstantExpr_ZExt A c w))
                   | _ \<Rightarrow> Some (CastExpr ZExt e w))"

definition SExtExpr_create :: "apint_ops \<Rightarrow> expr \<Rightarrow> width \<Rightarrow> expr option" where
  "SExtExpr_create A e w =
     (if w = getWidth e then Some e
      else if w < getWidth e then ExtractExpr_create A e 0 w
      else case e of ConstantExpr c \<Rightarrow> Some (ConstantExpr (ConstantExpr_SExt A c w))
                   | _ \<Rightarrow> Some (CastExpr SExt e w))"

subsection \<open>Read\<close>

text \<open>The walk over the update list: a value, or the node where it stops and whether its
  index may be equal to the one that is read.\<close>

datatype read_scan = ScanFound expr | ScanStop unode bool

fun ReadExpr_scan :: "expr_env \<Rightarrow> expr \<Rightarrow> unode \<Rightarrow> read_scan option" where
  "ReadExpr_scan G index NullNode = Some (ScanStop NullNode False)"
| "ReadExpr_scan G index (UpdateNode next ui uv) = do {
     cond \<leftarrow> EqExpr_create G index ui;
     (case cond of
        ConstantExpr ce \<Rightarrow>
          if ConstantExpr_isTrue (api G) ce then Some (ScanFound uv)
          else ReadExpr_scan G index next
      | _ \<Rightarrow> Some (ScanStop (UpdateNode next ui uv) True)) }"

text \<open>Both places read \<open>getZExtValue\<close> after asserting that the index has at most 64 bits.\<close>

definition concrete_index :: "apint_ops \<Rightarrow> apint \<Rightarrow> nat option" where
  "concrete_index A ce = check (ap_width ce \<le> 64) (map_option unat (getZExtValue A ce 64))"

definition ReadExpr_shorten :: "apint_ops \<Rightarrow> array \<Rightarrow> unode \<Rightarrow> unode \<Rightarrow> expr \<Rightarrow> expr option" where
  "ReadExpr_shorten A root head un index =
     (case index of
        ConstantExpr ce \<Rightarrow> do {
          concreteIndex \<leftarrow> concrete_index A ce;
          if concreteIndex < arr_size root then Some (ReadExpr root un index)
          else Some (ReadExpr root head index) }
      | _ \<Rightarrow> Some (ReadExpr root head index))"

definition ReadExpr_create :: "expr_env \<Rightarrow> array \<Rightarrow> unode \<Rightarrow> expr \<Rightarrow> expr option" where
  "ReadExpr_create G root head index = do {
     s \<leftarrow> ReadExpr_scan G index head;
     (case s of
        ScanFound v \<Rightarrow> Some v
      | ScanStop un symbolicWrites \<Rightarrow>
          if isConstantArray root \<and> \<not> symbolicWrites then
            (case index of
               ConstantExpr ce \<Rightarrow> do {
                 concreteIndex \<leftarrow> concrete_index (api G) ce;
                 if concreteIndex < arr_size root
                 then map_option ConstantExpr (nth_opt (arr_constantValues root) concreteIndex)
                 else ReadExpr_shorten (api G) root head un index }
             | _ \<Rightarrow> ReadExpr_shorten (api G) root head un index)
          else ReadExpr_shorten (api G) root head un index) }"

definition createTempRead :: "expr_env \<Rightarrow> array \<Rightarrow> width \<Rightarrow> expr option" where
  "createTempRead G array w =
     (let rd = (\<lambda>i. ReadExpr_create G array NullNode
                     (ConstantExpr (ConstantExpr_alloc_u64 (api G) i Int32)))
      in if w = Bool_width then do { b \<leftarrow> rd 0; ZExtExpr_create (api G) b Bool_width }
         else if w = Int8 then rd 0
         else if w = Int16 then do { b1 \<leftarrow> rd 1; b0 \<leftarrow> rd 0; ConcatExpr_create (api G) b1 b0 }
         else if w = Int32 then do {
           b3 \<leftarrow> rd 3; b2 \<leftarrow> rd 2; b1 \<leftarrow> rd 1; b0 \<leftarrow> rd 0;
           ConcatExpr_create4 (api G) b3 b2 b1 b0 }
         else if w = Int64 then do {
           b7 \<leftarrow> rd 7; b6 \<leftarrow> rd 6; b5 \<leftarrow> rd 5; b4 \<leftarrow> rd 4;
           b3 \<leftarrow> rd 3; b2 \<leftarrow> rd 2; b1 \<leftarrow> rd 1; b0 \<leftarrow> rd 0;
           ConcatExpr_create8 (api G) b7 b6 b5 b4 b3 b2 b1 b0 }
         else None)"

subsection \<open>Select\<close>

definition SelectExpr_create :: "expr_env \<Rightarrow> expr \<Rightarrow> expr \<Rightarrow> expr \<Rightarrow> expr option" where
  "SelectExpr_create G c t f =
     (let A = api G; kt = getWidth t in
      check (getWidth c = Bool_width) (check (kt = getWidth f)
        (case c of
           ConstantExpr ce \<Rightarrow> Some (if ConstantExpr_isTrue A ce then t else f)
         | _ \<Rightarrow>
             if expr_eq A t f then Some t
             else if kt = Bool_width then
               (case t of
                  ConstantExpr ct \<Rightarrow>
                    if ConstantExpr_isTrue A ct then OrExpr_create A c f
                    else do { nc \<leftarrow> createIsZero G c; AndExpr_create A nc f }
                | _ \<Rightarrow>
                    (case f of
                       ConstantExpr cf \<Rightarrow>
                         if ConstantExpr_isTrue A cf
                         then do { nc \<leftarrow> createIsZero G c; OrExpr_create A nc t }
                         else AndExpr_create A c t
                     | _ \<Rightarrow> Some (SelectExpr c t f)))
             else Some (SelectExpr c t f))))"

subsection \<open>Dispatch on the kind\<close>

fun BinaryExpr_create :: "expr_env \<Rightarrow> binkind \<Rightarrow> expr \<Rightarrow> expr \<Rightarrow> expr option" where
  "BinaryExpr_create G Add l r = AddExpr_create G l r"
| "BinaryExpr_create G Sub l r = SubExpr_create G l r"
| "BinaryExpr_create G Mul l r = MulExpr_create (api G) l r"
| "BinaryExpr_create G UDiv l r = UDivExpr_create (api G) l r"
| "BinaryExpr_create G SDiv l r = SDivExpr_create (api G) l r"
| "BinaryExpr_create G URem l r = URemExpr_create (api G) l r"
| "BinaryExpr_create G SRem l r = SRemExpr_create (api G) l r"
| "BinaryExpr_create G And l r = AndExpr_create (api G) l r"
| "BinaryExpr_create G Or l r = OrExpr_create (api G) l r"
| "BinaryExpr_create G Xor l r = XorExpr_create G l r"
| "BinaryExpr_create G Shl l r = ShlExpr_create G l r"
| "BinaryExpr_create G LShr l r = LShrExpr_create G l r"
| "BinaryExpr_create G AShr l r = AShrExpr_create (api G) l r"
| "BinaryExpr_create G Eq l r = EqExpr_create G l r"
| "BinaryExpr_create G Ne l r = NeExpr_create G l r"
| "BinaryExpr_create G Ult l r = UltExpr_create G l r"
| "BinaryExpr_create G Ule l r = UleExpr_create G l r"
| "BinaryExpr_create G Ugt l r = UgtExpr_create G l r"
| "BinaryExpr_create G Uge l r = UgeExpr_create G l r"
| "BinaryExpr_create G Slt l r = SltExpr_create G l r"
| "BinaryExpr_create G Sle l r = SleExpr_create G l r"
| "BinaryExpr_create G Sgt l r = SgtExpr_create G l r"
| "BinaryExpr_create G Sge l r = SgeExpr_create G l r"

fun CastExpr_create :: "apint_ops \<Rightarrow> castkind \<Rightarrow> expr \<Rightarrow> width \<Rightarrow> expr option" where
  "CastExpr_create A ZExt e w = ZExtExpr_create A e w"
| "CastExpr_create A SExt e w = SExtExpr_create A e w"

datatype create_arg = ArgExpr expr | ArgWidth width

datatype expr_kind =
    KConstant | KNotOptimized | KRead | KSelect | KConcat | KExtract
  | KCast castkind | KNot | KBinary binkind

text \<open>A kind that the switch does not list, \<open>Not\<close> among them, fails its first assertion.\<close>

fun createFromKind :: "expr_env \<Rightarrow> expr_kind \<Rightarrow> create_arg list \<Rightarrow> expr option" where
  "createFromKind G KNotOptimized [ArgExpr e] = NotOptimizedExpr_create e"
| "createFromKind G KSelect [ArgExpr c, ArgExpr t, ArgExpr f] = SelectExpr_create G c t f"
| "createFromKind G KConcat [ArgExpr l, ArgExpr r] = ConcatExpr_create (api G) l r"
| "createFromKind G (KCast k) [ArgExpr e, ArgWidth w] = CastExpr_create (api G) k e w"
| "createFromKind G (KBinary k) [ArgExpr l, ArgExpr r] = BinaryExpr_create G k l r"
| "createFromKind G _ _ = None"

text \<open>The virtual \<open>rebuild\<close> of every class; \<open>ConstantExpr::rebuild\<close> asserts.\<close>

fun rebuild :: "expr_env \<Rightarrow> expr \<Rightarrow> expr list \<Rightarrow> expr option" where
  "rebuild G (NotOptimizedExpr _) [src] = NotOptimizedExpr_create src"
| "rebuild G (ReadExpr root head _) [index] = ReadExpr_create G root head index"
| "rebuild G (SelectExpr _ _ _) [c, t, f] = SelectExpr_create G c t f"
| "rebuild G (ConcatExpr _ _) [l, r] = ConcatExpr_create (api G) l r"
| "rebuild G (ExtractExpr _ off w) [e] = ExtractExpr_create (api G) e off w"
| "rebuild G (CastExpr k _ w) [src] = CastExpr_create (api G) k src w"
| "rebuild G (NotExpr _) [e] = NotExpr_create (api G) e"
| "rebuild G (BinaryExpr k _ _) [l, r] = BinaryExpr_create G k l r"
| "rebuild G _ _ = None"

end
