(* ===== verification/ExprAlgebra.thy ===== *)
theory ExprAlgebra
  imports ExprShape
begin

text \<open>
  Identities of the bit-vector operators that the creation functions rely on: units, the laws
  of addition and subtraction modulo a power of two, the Boolean case (width 1), and the
  solution of an equation whose right-hand side is a sum, a difference or an extension.
\<close>

subsection \<open>Identities of bit vectors\<close>

lemma ap_value_take [simp]: "ap_ok x \<Longrightarrow> take_bit (ap_width x) (ap_value x) = ap_value x"
  by (simp add: ap_ok_def)

lemma bv_eqI: "ap_width x = ap_width y \<Longrightarrow> ap_value x = ap_value y \<Longrightarrow> x = y"
  by (cases x; cases y) simp

lemma bv_value_inject: "ap_width x = ap_width y \<Longrightarrow> ap_value x = ap_value y \<longleftrightarrow> x = y"
  by (auto intro: bv_eqI)

lemma bv_bool_binary [simp]:
  "bv_binary And (bv_bool a) (bv_bool b) = bv_bool (a \<and> b)"
  "bv_binary Or (bv_bool a) (bv_bool b) = bv_bool (a \<or> b)"
  "bv_binary Xor (bv_bool a) (bv_bool b) = bv_bool (a \<noteq> b)"
  "bv_binary Add (bv_bool a) (bv_bool b) = bv_bool (a \<noteq> b)"
  "bv_binary Sub (bv_bool a) (bv_bool b) = bv_bool (a \<noteq> b)"
  "bv_binary Mul (bv_bool a) (bv_bool b) = bv_bool (a \<and> b)"
  "bv_binary Eq (bv_bool a) (bv_bool b) = bv_bool (a = b)"
  "bv_binary UDiv (bv_bool a) (bv_bool True) = bv_bool a"
  "bv_binary SDiv (bv_bool a) (bv_bool True) = bv_bool a"
  "bv_binary URem (bv_bool a) (bv_bool True) = bv_bool False"
  "bv_binary SRem (bv_bool a) (bv_bool True) = bv_bool False"
  "bv_binary Shl (bv_bool a) (bv_bool b) = bv_bool (a \<and> \<not> b)"
  "bv_binary LShr (bv_bool a) (bv_bool b) = bv_bool (a \<and> \<not> b)"
  "bv_binary AShr (bv_bool a) (bv_bool b) = bv_bool a"
  "bv_binary Ult (bv_bool a) (bv_bool b) = bv_bool (\<not> a \<and> b)"
  "bv_binary Ule (bv_bool a) (bv_bool b) = bv_bool (\<not> a \<or> b)"
  "bv_binary Slt (bv_bool a) (bv_bool b) = bv_bool (a \<and> \<not> b)"
  "bv_binary Sle (bv_bool a) (bv_bool b) = bv_bool (a \<or> \<not> b)"
  by (cases a; cases b; simp add: bv_bool_def bv_lift_def bv_lift_s_def mk_ap_def ap_signed_def
      bv_shl_def bv_lshr_def bv_ashr_def signed_take_bit_eq_if_positive signed_take_bit_eq_if_negative
      signed_modulo_int_def signed_divide_int_def take_bit_eq_mod signed_take_bit_rec drop_bit_eq_div push_bit_eq_mult)+

lemma bv_comm:
  "ap_width x = ap_width y \<Longrightarrow> bv_binary Add x y = bv_binary Add y x"
  "ap_width x = ap_width y \<Longrightarrow> bv_binary Mul x y = bv_binary Mul y x"
  "ap_width x = ap_width y \<Longrightarrow> bv_binary And x y = bv_binary And y x"
  "ap_width x = ap_width y \<Longrightarrow> bv_binary Or x y = bv_binary Or y x"
  "ap_width x = ap_width y \<Longrightarrow> bv_binary Xor x y = bv_binary Xor y x"
  "bv_binary Eq x y = bv_binary Eq y x"
  by (simp_all add: bv_lift_def ac_simps eq_commute)

definition bv_zero :: "width \<Rightarrow> apint" where "bv_zero w = APInt w 0"

lemma bv_zero_sel [simp]: "ap_width (bv_zero w) = w" "ap_value (bv_zero w) = 0" 
  "ap_ok (bv_zero w) \<longleftrightarrow> 0 < w"
  by (simp_all add: bv_zero_def ap_ok_def)

lemma bv_zero_1 [simp]: "bv_zero (Suc 0) = bv_bool False"
  by (simp add: bv_zero_def bv_bool_def)

lemma bv_zero_iff: "ap_value x = 0 \<longleftrightarrow> x = bv_zero (ap_width x)"
  by (cases x) (simp add: bv_zero_def)

lemma mk_ap_value [simp]: "ap_ok x \<Longrightarrow> mk_ap (ap_width x) (ap_value x) = x"
  by (rule mk_ap_self)

lemma mk_ap_0 [simp]: "mk_ap w 0 = bv_zero w"
  by (simp add: mk_ap_def bv_zero_def)

lemma bv_units:
  assumes "ap_ok x"
  shows "bv_binary Add (bv_zero (ap_width x)) x = x"
    "bv_binary Xor (bv_zero (ap_width x)) x = x"
    "bv_binary Or (bv_zero (ap_width x)) x = x"
    "bv_binary And (bv_zero (ap_width x)) x = bv_zero (ap_width x)"
    "bv_binary Mul (bv_zero (ap_width x)) x = bv_zero (ap_width x)"
    "bv_binary Sub x x = bv_zero (ap_width x)"
  using assms by (simp_all add: bv_lift_def)

lemma bv_null_units:
  assumes "ap_ok x" "ap_width z = ap_width x" "ap_value z = 0"
  shows "bv_binary Add z x = x" "bv_binary Add x z = x"
    "bv_binary Xor z x = x" "bv_binary Xor x z = x"
    "bv_binary Or z x = x" "bv_binary Or x z = x"
    "bv_binary And z x = z" "bv_binary And x z = z"
    "bv_binary Mul z x = z" "bv_binary Mul x z = z"
  using bv_units [OF assms(1)] assms(2) bv_zero_iff [THEN iffD1, OF assms(3)]
    bv_comm(1-5) [of z x, OF assms(2)] by metis+

lemma bv_mask_units:
  assumes "ap_ok x" "ap_width x = ap_width y" "ap_value y = mask (ap_width y)"
  shows "bv_binary And x y = x" "bv_binary Or x y = y"
proof -
  have x: "ap_value x AND mask (ap_width x) = ap_value x"
    using assms(1) by (simp add: ap_ok_def take_bit_eq_mask)
  show "bv_binary And x y = x"
    using x mk_ap_self [OF assms(1)] by (simp add: bv_lift_def assms)
  have "ap_value x OR mask (ap_width x) = mask (ap_width x)"
    by (subst x [symmetric]) (rule bit_eqI, auto simp: bit_simps)
  then show "bv_binary Or x y = y"
    by (intro bv_eqI) (simp_all add: bv_lift_def assms)
qed

lemma bv_add_assoc:
  assumes "ap_width x = ap_width y" "ap_width y = ap_width z"
  shows "bv_binary Add (bv_binary Add x y) z = bv_binary Add x (bv_binary Add y z)"
    "bv_binary Sub (bv_binary Add x y) z = bv_binary Add x (bv_binary Sub y z)"
    "bv_binary Add (bv_binary Sub x y) z = bv_binary Add x (bv_binary Sub z y)"
    "bv_binary Sub (bv_binary Sub x y) z = bv_binary Sub x (bv_binary Add y z)"
    "bv_binary Sub x (bv_binary Sub y z) = bv_binary Add (bv_binary Sub x y) z"
    "bv_binary Sub x (bv_binary Add y z) = bv_binary Sub (bv_binary Sub x y) z"
    "bv_binary Add y (bv_binary Add x z) = bv_binary Add x (bv_binary Add y z)"
    "bv_binary Add x (bv_binary Sub y z) = bv_binary Sub (bv_binary Add x y) z"
    "bv_binary Sub y (bv_binary Sub x z) = bv_binary Sub (bv_binary Add y z) x"
    "bv_binary Add z (bv_binary Sub x y) = bv_binary Add x (bv_binary Sub z y)"
    "bv_binary Sub z (bv_binary Add x y) = bv_binary Sub (bv_binary Sub z y) x"
    "bv_binary Sub z (bv_binary Sub x y) = bv_binary Sub (bv_binary Add z y) x"
  using assms by (simp_all add: bv_lift_def mk_ap_eq take_bit_eq_mod mod_simps algebra_simps)

lemma bv_sub_add_neg:
  "ap_width x = ap_width y \<Longrightarrow>
     bv_binary Add (bv_binary Sub (bv_zero (ap_width y)) y) x = bv_binary Sub x y"
  by (simp add: bv_lift_def mk_ap_eq take_bit_eq_mod mod_simps algebra_simps)

lemma mod_shift_eq:
  fixes a b c m :: int
  assumes "0 \<le> a" "a < m" "0 \<le> b" "b < m"
  shows "a = (c + b) mod m \<longleftrightarrow> (a - c) mod m = b"
    and "a = (c - b) mod m \<longleftrightarrow> (c - a) mod m = b"
proof -
  have ab: "a = x mod m \<longleftrightarrow> m dvd a - x" "x mod m = b \<longleftrightarrow> m dvd x - b" for x
    using assms by (metis mod_eq_dvd_iff mod_pos_pos_trivial)+
  show "a = (c + b) mod m \<longleftrightarrow> (a - c) mod m = b"
    unfolding ab by (simp add: algebra_simps)
  have "c - a - b = - (a - (c - b))" by simp
  then show "a = (c - b) mod m \<longleftrightarrow> (c - a) mod m = b"
    unfolding ab by (metis dvd_minus_iff)
qed

lemma bv_eq_shift:
  assumes "ap_ok a" "ap_ok b" "ap_width a = ap_width b" "ap_width c = ap_width b"
  shows "bv_binary Eq a (bv_binary Add c b) = bv_binary Eq (bv_binary Sub a c) b"
    and "bv_binary Eq a (bv_binary Sub c b) = bv_binary Eq (bv_binary Sub c a) b"
  using assms mod_shift_eq [of "ap_value a" "2 ^ ap_width b" "ap_value b"]
    ap_value_bounds [of a] ap_value_bounds [of b]
  by (simp_all add: bv_lift_def take_bit_eq_mod)

lemma bv_eq_cast:
  assumes "ap_ok a" "ap_ok s" "ap_width s \<le> ap_width a"
  shows "bv_binary Eq a (bv_cast k (ap_width a) s) =
     bv_bool (a = bv_cast k (ap_width a) (bv_zext (ap_width s) a) \<and> bv_zext (ap_width s) a = s)"
proof -
  have "s = bv_zext (ap_width s) (bv_cast k (ap_width a) s)"
    using assms by (cases k) (auto intro!: bv_eqI simp: bv_zext_def bv_sext_def ap_signed_def
       take_bit_signed_take_bit ap_ok_def)
  moreover have "ap_width (bv_cast k (ap_width a) s) = ap_width a" 
    by (cases k) (simp_all add: bv_zext_def bv_sext_def)
  ultimately show ?thesis by (auto simp: bv_value_inject[symmetric]) (metis bv_value_inject)+
qed

lemma bv_Eq: "ap_width x = ap_width y \<Longrightarrow> bv_binary Eq x y = bv_bool (x = y)"
  by (simp add: bv_value_inject)

lemma bv_binary_sort [simp]:
  "ap_ok x \<Longrightarrow> ap_ok y \<Longrightarrow> ap_width x = ap_width y \<Longrightarrow> ap_ok (bv_binary k x y)"
  "ap_ok x \<Longrightarrow> ap_ok y \<Longrightarrow> ap_width x = ap_width y \<Longrightarrow>
     ap_width (bv_binary k x y) = (if is_CmpExpr_kind (binkind_code k) then 1 else ap_width x)"
  using bv_binary_ok by blast+

declare bv_binary.simps [simp del] ConstantExpr_binary.simps [simp del]

end
