(* ===== verification/ExprSound.thy ===== *)
theory ExprSound
  imports ExprAlgebra
begin

text \<open>
  The creation functions keep the meaning: on typed operands each returns (no assertion
  fails) a typed expression whose value under every assignment is the operator applied to the
  values of the operands.  \<open>denotes H \<rho> x v\<close> says so of a result \<open>x\<close> and a value \<open>v\<close>.

  The lemmas on \<open>ConstantExpr\<close>, And and Or need the laws of \<open>llvm::APInt\<close> only (locale
  \<open>llvm_apint\<close>).  The locale \<open>expr_creation\<close> adds that the option \<open>const-array-opt\<close> is off,
  which is its default: the functions that create an equality depend on it.
\<close>


definition denotes :: "(nat \<Rightarrow> array) \<Rightarrow> assignment \<Rightarrow> expr option \<Rightarrow> apint \<Rightarrow> bool" where
  "denotes H \<rho> x v \<longleftrightarrow> (\<exists>e. x = Some e \<and> wt H e \<and> sem \<rho> e = v)"

lemma denotes_Some [simp]: "denotes H \<rho> (Some e) v \<longleftrightarrow> wt H e \<and> sem \<rho> e = v"
  by (simp add: denotes_def)

lemma denotes_bind:
  assumes "denotes H \<rho> x v"
    and "\<And>e. wt H e \<Longrightarrow> sem \<rho> e = v \<Longrightarrow> getWidth e = ap_width v \<Longrightarrow> denotes H \<rho> (k e) u"
  shows "denotes H \<rho> (x \<bind> k) u"
  using assms by (auto simp: denotes_def)

definition binary_pre :: "binkind \<Rightarrow> apint \<Rightarrow> apint \<Rightarrow> bool" where
  "binary_pre k x y \<longleftrightarrow> ap_width x = ap_width y \<and> (div_kind k \<longrightarrow> ap_value y \<noteq> 0)"

context llvm_apint
begin

lemma alloc_bool [simp]: "alloc_bool A b = bv_bool b"
  by (auto simp: alloc_bool_def ConstantExpr_alloc_u64_def of_uint64 of_bool64_def mk_ap_def bv_bool_def)

lemma alloc_u64 [simp]: "0 < w \<Longrightarrow> ConstantExpr_alloc_u64 A v w = mk_ap w (uint v)"
  by (simp add: ConstantExpr_alloc_u64_def of_uint64)

lemma create_0 [simp]: "0 < w \<Longrightarrow> ConstantExpr_create A 0 w = Some (bv_zero w)"
  by (simp add: ConstantExpr_create_def)

lemma isZero_iff [simp]: "ap_ok c \<Longrightarrow> ConstantExpr_isZero A c \<longleftrightarrow> ap_value c = 0"
  by (simp add: ConstantExpr_isZero_def isMinValue)

lemma isAllOnes_iff [simp]: "ap_ok c \<Longrightarrow> ConstantExpr_isAllOnes A c \<longleftrightarrow> ap_value c = mask (ap_width c)"
  by (simp add: ConstantExpr_isAllOnes_def isAllOnesValue)

lemma isTrue_iff [simp]: "ap_ok c \<Longrightarrow> ConstantExpr_isTrue A c \<longleftrightarrow> c = bv_bool True"
  by (auto simp: ConstantExpr_isTrue_def getBoolValue elim!: ap_bool_cases split: if_splits)

lemma isFalse_iff [simp]: "ap_ok c \<Longrightarrow> ConstantExpr_isFalse A c \<longleftrightarrow> c = bv_bool False"
  by (auto simp: ConstantExpr_isFalse_def getBoolValue elim!: ap_bool_cases split: if_splits)

lemma isOne_iff [simp]: "ap_ok c \<Longrightarrow> ConstantExpr_isOne A c \<longleftrightarrow> ap_value c = 1"
proof -
  assume c: "ap_ok c"
  then have "0 \<le> ap_value c" using ap_value_bounds by blast
  moreover have "word_of_int (ap_value c) = (1 :: uint64) \<longleftrightarrow> ap_value c = 1"
    if "ap_value c < 2 ^ 64 - 1"
    using that \<open>0 \<le> ap_value c\<close> by (simp add: word_uint_eq_iff uint_word_of_int)
  ultimately show ?thesis using c
    by (auto simp: ConstantExpr_isOne_def getLimitedValue_def getLimitedValue unsigned_minus_1_eq_mask mask_eq_exp_minus_1)
qed

lemma ConstantExpr_binary_eq:
  assumes "ap_ok x" "ap_ok y" "binary_pre k x y"
  shows "ConstantExpr_binary A k x y = bv_binary k x y"
  using assms bv_value_inject [of x y]
  by (cases k) (simp_all add: bv_binary.simps ConstantExpr_binary.simps binary_pre_def div_kind_def add sub mul udiv sdiv urem srem bit_and bit_or
      bit_xor shl lshr ashr eq ne ult ule ugt uge slt sle sgt sge)

lemma ZExt_eq [simp]: "ap_ok x \<Longrightarrow> 0 < w \<Longrightarrow> ConstantExpr_ZExt A x w = bv_zext w x"
  by (simp add: ConstantExpr_ZExt_def zextOrTrunc)

lemma SExt_eq [simp]: "ap_ok x \<Longrightarrow> 0 < w \<Longrightarrow> ConstantExpr_SExt A x w = bv_sext w x"
  by (simp add: ConstantExpr_SExt_def sextOrTrunc)

lemma Not_eq [simp]: "ap_ok x \<Longrightarrow> ConstantExpr_Not A x = bv_not x"
  by (simp add: ConstantExpr_Not_def bit_not)

lemma Neg_eq [simp]: "ap_ok x \<Longrightarrow> ConstantExpr_Neg A x = bv_neg x"
  by (simp add: ConstantExpr_Neg_def neg)

lemma Concat_eq [simp]:
  assumes "ap_ok x" "ap_ok y"
  shows "ConstantExpr_Concat A x y = bv_concat x y"
proof -
  let ?W = "ap_width x + ap_width y"
  have w: "0 < ap_width x" "0 < ap_width y" using assms ap_ok_pos by auto
  have "ConstantExpr_Concat A x y =
      bv_lift (OR) (bv_shl (bv_zext ?W x) (ap_width y)) (bv_zext ?W y)"
    using assms w by (simp add: ConstantExpr_Concat_def zext shl_n bit_or bv_zext_def bv_shl_def Let_def)
  also have "\<dots> = bv_concat x y"
    using w by (simp add: bv_zext_def bv_shl_def bv_lift_def bv_concat_def mk_ap_eq)
      (rule bit_eqI, auto simp: bit_simps)
  finally show ?thesis .
qed

lemma Extract_eq [simp]:
  assumes "ap_ok x" "0 < w" "off + w \<le> ap_width x"
  shows "ConstantExpr_Extract A x off w = bv_extract off w x"
proof -
  have "ConstantExpr_Extract A x off w = bv_zext w (bv_ashr x off)"
    using assms by (simp add: ConstantExpr_Extract_def ashr_n zextOrTrunc bv_ashr_def ap_ok_pos)
  also have "\<dots> = bv_extract off w x"
    using assms by (auto simp: bv_zext_def bv_ashr_def bv_extract_def mk_ap_eq ap_signed_def
        intro!: bit_eqI simp: bit_simps)
  finally show ?thesis .
qed



lemma BCREATE_R_sound:
  assumes "wt H l" "wt H r" "binary_pre k (sem \<rho> l) (sem \<rho> r)"
    and "\<And>c. r = ConstantExpr c \<Longrightarrow> denotes H \<rho> (pL l c) v"
    and "\<And>c. l = ConstantExpr c \<Longrightarrow> denotes H \<rho> (pR c r) v"
    and "denotes H \<rho> st v"
    and v: "v = bv_binary k (sem \<rho> l) (sem \<rho> r)"
  shows "denotes H \<rho> (BCREATE_R A k pL pR st l r) v"
proof -
  have w: "getWidth l = getWidth r" using assms(1-3) by (simp add: binary_pre_def)
  have const: "denotes H \<rho> (Some (ConstantExpr (ConstantExpr_binary A k cl cr))) v"
    if "l = ConstantExpr cl" "r = ConstantExpr cr" for cl cr
    using that assms(1-3) bv_binary_ok [of cl cr k] unfolding v
    by (simp add: ConstantExpr_binary_eq binary_pre_def)
  show ?thesis
    using assms(4-6) const w unfolding BCREATE_R_def
    by (cases l; cases r) (simp_all del: denotes_Some)
qed

lemma BCREATE_sound:
  assumes "wt H l" "wt H r" "binary_pre k (sem \<rho> l) (sem \<rho> r)"
    and "denotes H \<rho> (st l r) v"
    and v: "v = bv_binary k (sem \<rho> l) (sem \<rho> r)"
  shows "denotes H \<rho> (BCREATE A k st l r) v"
proof -
  have "BCREATE A k st l r = BCREATE_R A k (\<lambda>_ _. st l r) (\<lambda>_ _. st l r) (st l r) l r"
    using assms(2,3) by (auto simp: BCREATE_def BCREATE_R_def binary_pre_def division_traps_def split: expr.split)
  then show ?thesis
    by (simp only:) (rule BCREATE_R_sound [OF assms(1-3) _ _ assms(4) v]; rule assms(4))
qed

lemmas create_sound_simps = binary_pre_def div_kind_def is_CmpExpr_kind_def

lemma AndPartial_sound:
  assumes "wt H l" "ap_ok c" "getWidth l = ap_width c"
  shows "denotes H \<rho> (AndExpr_createPartial A l c) (bv_binary And (sem \<rho> l) c)"
  using assms bv_mask_units(1) [of "sem \<rho> l" c]  bv_null_units(8) [of "sem \<rho> l" c]
  by (simp add: AndExpr_createPartial_def) 

lemma OrPartial_sound:
  assumes "wt H l" "ap_ok c" "getWidth l = ap_width c"
  shows "denotes H \<rho> (OrExpr_createPartial A l c) (bv_binary Or (sem \<rho> l) c)"
  using assms bv_mask_units(2) [of "sem \<rho> l" c] bv_null_units(6) [of "sem \<rho> l" c]
  by (simp add: OrExpr_createPartial_def) 

lemma AndExpr_create_sound:
  assumes "wt H l" "wt H r" "getWidth l = getWidth r"
  shows "denotes H \<rho> (AndExpr_create A l r) (bv_binary And (sem \<rho> l) (sem \<rho> r))"
  unfolding AndExpr_create_def
  using assms AndPartial_sound [of H l _ \<rho>] AndPartial_sound [of H r _ \<rho>] bv_comm(3)
  by (intro BCREATE_R_sound) (auto simp: create_sound_simps AndExpr_createPartialR_def 
     AndExpr_create_static_def)

lemma OrExpr_create_sound:
  assumes "wt H l" "wt H r" "getWidth l = getWidth r"
  shows "denotes H \<rho> (OrExpr_create A l r) (bv_binary Or (sem \<rho> l) (sem \<rho> r))"
  unfolding OrExpr_create_def
  using assms OrPartial_sound [of H l _ \<rho>] OrPartial_sound [of H r _ \<rho>] bv_comm(4)
  by (intro BCREATE_R_sound) (auto simp: create_sound_simps OrExpr_createPartialR_def 
     OrExpr_create_static_def)

lemma wt_bool_cases:
  assumes "wt H e" "getWidth e = 1"
  obtains b where "sem \<rho> e = bv_bool b"
  using assms ap_bool_cases [of "sem \<rho> e"] wt_sem_width wt_sem_ok by metis

lemma EqExpr_static_sound:
  assumes "wt H l" "wt H r" "getWidth l = getWidth r"
  shows "denotes H \<rho> (EqExpr_create_static A l r) (bv_binary Eq (sem \<rho> l) (sem \<rho> r))"
  using assms expr_eq_iff [of H l r] by (auto simp: EqExpr_create_static_def bv_Eq bv_bool_def mk_ap_def ap_ok_def)

lemma EqExpr_is_false_const_iff:
  "wt H a \<Longrightarrow> EqExpr_is_false_const A a \<longleftrightarrow> a = ConstantExpr (bv_bool False)"
  by (auto simp: EqExpr_is_false_const_def split: expr.splits)

lemma EqExpr_ext_of_trunc_iff:
  assumes "ap_ok cl" "0 < w" 
  shows "EqExpr_ext_of_trunc A k cl w \<longleftrightarrow> cl = bv_cast k (ap_width cl) (bv_zext w cl)"
proof -
  have "0 < ap_width cl" using assms ap_ok_pos by blast
  then have "ap_ok (bv_cast k (ap_width cl) (bv_zext w cl))" 
    by (cases k) (simp_all add: bv_zext_def bv_sext_def)
  then have "EqExpr_ext_of_trunc A k cl w 
     \<longleftrightarrow> ConstantExpr cl = ConstantExpr (bv_cast k (ap_width cl) (bv_zext w cl))"
    using assms \<open>0 < ap_width cl\<close> expr_eq_iff [of undefined "ConstantExpr cl" "ConstantExpr (bv_cast k (ap_width cl) (bv_zext w cl))"]
    by (cases k) (simp_all add: EqExpr_ext_of_trunc_def bv_zext_def)
  then show ?thesis by simp
qed

lemma bv_not_or: 
  "bv_binary And (bv_binary Eq (bv_bool a) (bv_bool False)) (bv_binary Eq (bv_bool b) (bv_bool False))
    = bv_binary Eq (bv_bool False) (bv_binary Or (bv_bool a) (bv_bool b))"
  by simp

end

locale expr_creation = llvm_apint "api G" for G :: expr_env +
  assumes no_const_array_opt [simp]: "\<not> ConstArrayOpt G"
begin

lemma EqExpr_cr_sound:
  assumes "ap_ok c" "wt H e" "getWidth e = ap_width c"  "denotes H \<rho> (EqExpr_createPartialR G c e) (bv_binary Eq c (sem \<rho> e))"
  shows "denotes H \<rho> (EqExpr_create_cr G e c) (bv_binary Eq (sem \<rho> e) c)"
  using assms by (cases e)
    (auto simp: EqExpr_create_cr.simps bv_comm(6) ConstantExpr_binary_eq create_sound_simps)

lemma EqExpr_false_static:
  assumes "wt H r" "\<nexists>a b. r = BinaryExpr Or a b" "\<nexists>b. r = BinaryExpr Eq (ConstantExpr (bv_bool False)) b"
  shows "EqExpr_createPartialR G (bv_bool False) r
     = EqExpr_create_static (api G) (ConstantExpr (bv_bool False)) r"
  using assms by (cases r) (auto simp: EqExpr_createPartialR.simps EqExpr_is_false_const_iff)

lemma EqExpr_or_sound:
  assumes "wt H a" "wt H b" "getWidth a = 1" "getWidth b = 1"  "denotes H \<rho> (EqExpr_create_cr G a (bv_bool False)) (bv_binary Eq (sem \<rho> a) (bv_bool False))"
    and "denotes H \<rho> (EqExpr_create_cr G b (bv_bool False)) (bv_binary Eq (sem \<rho> b) (bv_bool False))"
  shows "denotes H \<rho> (EqExpr_createPartialR G (bv_bool False) (BinaryExpr Or a b))
           (bv_binary Eq (bv_bool False) (bv_binary Or (sem \<rho> a) (sem \<rho> b)))"
proof -
  obtain va vb where v: "sem \<rho> a = bv_bool va" "sem \<rho> b = bv_bool vb"
    using assms wt_bool_cases by metis
  obtain x y where "EqExpr_create_cr G a (bv_bool False) = Some x" "wt H x" "sem \<rho> x = bv_binary Eq (sem \<rho> a) (bv_bool False)"
     "EqExpr_create_cr G b (bv_bool False) = Some y" "wt H y" "sem \<rho> y = bv_binary Eq (sem \<rho> b) (bv_bool False)"
    using assms(5,6) unfolding denotes_def by auto
  moreover from this have "getWidth x = 1" "getWidth y = 1"
    using wt_sem_width [of H x \<rho>] wt_sem_width [of H y \<rho>] v by simp_all
  ultimately show ?thesis
    using AndExpr_create_sound [of H x y \<rho>] assms v
    by (simp add: EqExpr_createPartialR.simps)
qed

lemma EqExpr_cast_sound:
  assumes "ap_ok cl" "wt H (CastExpr k src w)" "w = ap_width cl" "w \<noteq> 1"
    and "denotes H \<rho> (EqExpr_create_cr G src (bv_zext (getWidth src) cl))
           (bv_binary Eq (sem \<rho> src) (bv_zext (getWidth src) cl))"
  shows "denotes H \<rho> (EqExpr_createPartialR G cl (CastExpr k src w))
           (bv_binary Eq cl (bv_cast k w (sem \<rho> src)))"
proof -
  have p: "wt H src" "getWidth src \<le> w" "0 < getWidth src" using assms wt_width_pos by auto
  have "bv_binary Eq (sem \<rho> src) (bv_zext (getWidth src) cl)
      = bv_bool (bv_zext (getWidth src) cl = sem \<rho> src)"
    using assms by (auto simp: bv_zext_def bv_Eq)
  then show ?thesis using assms(1,3-5) p bv_eq_cast [of cl "sem \<rho> src" k]
    by (simp add: EqExpr_createPartialR.simps EqExpr_ext_of_trunc_iff)
qed

lemma EqExpr_shift_sound:
  assumes "ap_ok cl" "ap_ok c" "wt H b" "ap_width cl = ap_width c" "getWidth b = ap_width c" "ap_width cl \<noteq> 1"
    and k: "k = Add \<and> c' = bv_binary Sub cl c \<or> k = Sub \<and> c' = bv_binary Sub c cl"
    and "denotes H \<rho> (EqExpr_createPartialR G c' b) (bv_binary Eq c' (sem \<rho> b))"
  shows "denotes H \<rho> (EqExpr_createPartialR G cl (BinaryExpr k (ConstantExpr c) b))
           (bv_binary Eq cl (bv_binary k c (sem \<rho> b)))"
  using k
proof
  assume k: "k = Add \<and> c' = bv_binary Sub cl c"
  show ?thesis
    using assms(1-6) assms(8) [unfolded conjunct2 [OF k]] k bv_eq_shift(1) [of cl "sem \<rho> b" c]
    by (subst EqExpr_createPartialR.simps)
      (simp (no_asm_simp) add: ConstantExpr_binary_eq create_sound_simps)
next
  assume k: "k = Sub \<and> c' = bv_binary Sub c cl"
  show ?thesis
    using assms(1-6) assms(8) [unfolded conjunct2 [OF k]] k bv_eq_shift(2) [of cl "sem \<rho> b" c]
    by (subst EqExpr_createPartialR.simps)
      (simp (no_asm_simp) add: ConstantExpr_binary_eq create_sound_simps)
qed

lemma EqExpr_bool_sound:
  assumes "wt H r" "getWidth r = 1"
    and IH: "\<And>c e. size e < size r \<Longrightarrow> ap_ok c \<Longrightarrow> wt H e \<Longrightarrow> getWidth e = ap_width c \<Longrightarrow>
       denotes H \<rho> (EqExpr_create_cr G e c) (bv_binary Eq (sem \<rho> e) c)"
  shows "denotes H \<rho> (EqExpr_createPartialR G (bv_bool v) r) (bv_binary Eq (bv_bool v) (sem \<rho> r))"
proof -
  obtain rb where rb: "sem \<rho> r = bv_bool rb"
    using assms wt_bool_cases by metis
  consider "v" | a b where "\<not> v" "r = BinaryExpr Or a b"
    | b where "\<not> v" "r = BinaryExpr Eq (ConstantExpr (bv_bool False)) b"
    | "\<not> v" "\<nexists>a b. r = BinaryExpr Or a b" "\<nexists>b. r = BinaryExpr Eq (ConstantExpr (bv_bool False)) b"
    by blast
  then show ?thesis
  proof cases
    case 1
    then show ?thesis using rb assms(1,2) by (subst EqExpr_createPartialR.simps) simp
  next
    case 2
    then show ?thesis
      using EqExpr_or_sound [of H a b \<rho>] IH [of a "bv_bool False"] IH [of b "bv_bool False"] assms(1,2)
      by (simp add: is_CmpExpr_kind_def)
  next
    case 3
    then have b: "wt H b" "getWidth b = 1" using assms(1) by simp_all
    then obtain bb where "sem \<rho> b = bv_bool bb" using wt_bool_cases by metis
    with 3 b show ?thesis
      by (subst EqExpr_createPartialR.simps) (simp add: EqExpr_is_false_const_iff)
  next
    case 4
    then show ?thesis
      using EqExpr_static_sound [of H "ConstantExpr (bv_bool False)" r \<rho>] assms(1,2)
        EqExpr_false_static [OF assms(1) 4(2,3)] by simp
  qed
qed

lemma EqExpr_word_static:
  assumes "ap_width cl \<noteq> 1" "\<nexists>k src w. r = CastExpr k src w"
    "\<nexists>k c b. r = BinaryExpr k (ConstantExpr c) b \<and> (k = Add \<or> k = Sub)"
  shows "EqExpr_createPartialR G cl r = EqExpr_create_static (api G) (ConstantExpr cl) r"
  using assms by (subst EqExpr_createPartialR.simps) (auto split: expr.split)

lemma EqExpr_partial_sound:
  "ap_ok cl \<Longrightarrow> wt H r \<Longrightarrow> getWidth r = ap_width cl \<Longrightarrow>
     denotes H \<rho> (EqExpr_createPartialR G cl r) (bv_binary Eq cl (sem \<rho> r))"
proof (induction r arbitrary: cl rule: measure_induct_rule [where f = size])
  case (less r)
  have cr: "denotes H \<rho> (EqExpr_create_cr G e c) (bv_binary Eq (sem \<rho> e) c)"
    if "size e < size r" "ap_ok c" "wt H e" "getWidth e = ap_width c" for c e
    by (rule EqExpr_cr_sound [OF that(2-4) less.IH [OF that]])
  show ?case
  proof (cases "ap_width cl = 1")
    case True
    then obtain cb where cb: "cl = bv_bool cb" using less.prems(1) ap_bool_cases by blast
    have w: "getWidth r = 1" using less.prems(3) True by (rule trans)
    show ?thesis unfolding cb by (rule EqExpr_bool_sound [OF less.prems(2) w cr])
  next
    case False
    consider k src w where "r = CastExpr k src w"
      | k c b where "r = BinaryExpr k (ConstantExpr c) b" "k = Add \<or> k = Sub"
      | "EqExpr_createPartialR G cl r = EqExpr_create_static (api G) (ConstantExpr cl) r"
      using EqExpr_word_static [OF False] by blast
    then show ?thesis
    proof cases
      case 1
      then have w: "w = ap_width cl" "wt H src" using less.prems by simp_all
      have "denotes H \<rho> (EqExpr_create_cr G src (bv_zext (getWidth src) cl))
           (bv_binary Eq (sem \<rho> src) (bv_zext (getWidth src) cl))"
        using w wt_width_pos by (intro cr) (auto simp: 1 bv_zext_def)
      then show ?thesis
        using EqExpr_cast_sound [OF less.prems(1) less.prems(2) [unfolded 1] w(1)] w(1) False 1 by simp
    next
      case 2
      define c' where "c' = (if k = Add then bv_binary Sub cl c else bv_binary Sub c cl)"
      have k: "\<not> is_CmpExpr_kind (binkind_code k)" "\<not> is_CmpExpr_kind (binkind_code Sub)"
        using 2(2) by (auto simp: is_CmpExpr_kind_def)
      have b: "wt H b" "ap_ok c" "getWidth b = ap_width c" "ap_width cl = ap_width c"
        using less.prems(2,3) 2(1) k by simp_all
      have c': "ap_ok c'" "ap_width c' = ap_width c"
        using b less.prems(1) k by (simp_all add: c'_def)
      have *: "k = Add \<and> c' = bv_binary Sub cl c \<or> k = Sub \<and> c' = bv_binary Sub c cl"
        using 2(2) by (auto simp: c'_def)
      have "denotes H \<rho> (EqExpr_createPartialR G c' b) (bv_binary Eq c' (sem \<rho> b))"
        by (rule less.IH) (simp_all add: 2(1) b c')
      then show ?thesis
        using EqExpr_shift_sound [OF less.prems(1) b(2,1,4,3) False *] 2(1) by simp
    next
      case 3
      then show ?thesis using EqExpr_static_sound [of H "ConstantExpr cl" r \<rho>] less.prems by simp
    qed
  qed
qed

lemma EqExpr_create_sound:
  assumes "wt H l" "wt H r" "getWidth l = getWidth r"
  shows "denotes H \<rho> (EqExpr_create G l r) (bv_binary Eq (sem \<rho> l) (sem \<rho> r))"
  unfolding EqExpr_create_def CMPCREATE_T_def
  using assms EqExpr_partial_sound [of _ H l \<rho>] 
    EqExpr_partial_sound [of _ H r \<rho>] EqExpr_static_sound bv_comm(6)
  by (intro BCREATE_R_sound) (auto simp: create_sound_simps EqExpr_createPartial_def)

end
end
