(* ===== verification/ExprSoundArith.thy ===== *)
theory ExprSoundArith
  imports ExprSound
begin

text \<open>
  Xor, Add and Sub.  The two functions that create a sum or a difference with a constant on
  the left call each other on a smaller operand, and so do the two general ones; each lemma
  below treats one level of the recursion, and the induction is on the size of the operands.
\<close>

lemma const_left_wt:
  assumes "const_left k e = Some (c, b)" "wt H e" "k = Add \<or> k = Sub"
  shows "wt H b" "ap_ok c" "getWidth b = ap_width c" "getWidth e = ap_width c" "size b < size e"
    "sem \<rho> e = bv_binary k c (sem \<rho> b)" 
  using assms by (auto simp: const_left_Some is_CmpExpr_kind_def)

lemma is_CmpExpr_kind_numeral [simp]:
  "is_CmpExpr_kind (numeral n) \<longleftrightarrow> 23 \<le> (numeral n :: nat) \<and> (numeral n :: nat) \<le> 32"
  by (simp add: is_CmpExpr_kind_def)

lemma bv_left_assoc:
  assumes "ap_width x = ap_width y" "ap_width y = ap_width z"
  shows "bv_binary Add x (bv_binary Add y z) = bv_binary Add (bv_binary Add x y) z"
    "bv_binary Add x (bv_binary Sub y z) = bv_binary Sub (bv_binary Add x y) z"
    "bv_binary Sub x (bv_binary Add y z) = bv_binary Sub (bv_binary Sub x y) z"
    "bv_binary Sub x (bv_binary Sub y z) = bv_binary Add (bv_binary Sub x y) z"
  using bv_add_assoc [OF assms] by simp_all

lemma bv_width_1:
  assumes "ap_ok x" "ap_ok y" "ap_width x = 1" "ap_width y = 1"
  shows "bv_binary Add x y = bv_binary Xor x y" "bv_binary Sub x y = bv_binary Xor x y"
    "bv_binary Mul x y = bv_binary And x y"
proof -
  obtain a b where "x = bv_bool a" "y = bv_bool b" using assms ap_bool_cases by metis
  then show "bv_binary Add x y = bv_binary Xor x y" "bv_binary Sub x y = bv_binary Xor x y"
    "bv_binary Mul x y = bv_binary And x y"
    by simp_all
qed

context expr_creation
begin

lemma denotes_binary:
  "\<not> is_CmpExpr_kind (binkind_code k) \<Longrightarrow> wt H l \<Longrightarrow> wt H r \<Longrightarrow> getWidth l = getWidth r \<Longrightarrow>
     denotes H \<rho> (Some (BinaryExpr k l r)) (bv_binary k (sem \<rho> l) (sem \<rho> r))"
  by simp

lemma XorPartialR_sound:
  assumes "ap_ok c" "wt H r" "getWidth r = ap_width c"
  shows "denotes H \<rho> (XorExpr_createPartialR G c r) (bv_binary Xor c (sem \<rho> r))"
proof (cases "ap_value c = 0")
  case True
  then show ?thesis using assms bv_null_units(3) [of "sem \<rho> r" c] by (simp add: XorExpr_createPartialR_def)
next
  case nz: False
  show ?thesis
  proof (cases "ap_width c = 1")
    case True
    obtain v where v: "c = bv_bool v" using True assms(1) ap_bool_cases by blast
    obtain b where b: "sem \<rho> r = bv_bool b" using True assms wt_bool_cases by metis
    have "denotes H \<rho> (EqExpr_createPartialR G (bv_bool False) r) (bv_binary Eq (bv_bool False) (sem \<rho> r))"
      by (rule EqExpr_partial_sound) (use assms True in auto)
    then show ?thesis using assms v b nz by (cases v) (simp_all add: XorExpr_createPartialR_def EqExpr_createPartial_def)
  next
    case False
    then show ?thesis using assms nz by (simp add: XorExpr_createPartialR_def)
  qed
qed

lemma XorExpr_create_sound:
  assumes "wt H l" "wt H r" "getWidth l = getWidth r"
  shows "denotes H \<rho> (XorExpr_create G l r) (bv_binary Xor (sem \<rho> l) (sem \<rho> r))"
  unfolding XorExpr_create_def
  using assms XorPartialR_sound [of _ H l \<rho>] XorPartialR_sound [of _ H r \<rho>] bv_comm(5)
  by (intro BCREATE_R_sound) (auto simp: create_sound_simps XorExpr_createPartial_def
     XorExpr_create_static_def)

lemma create_cl_sound:
  assumes "ap_ok cl" "wt H r" "getWidth r = ap_width cl"
  shows "denotes H \<rho> (AddExpr_createPartialR G cl r) (bv_binary Add cl (sem \<rho> r)) \<Longrightarrow>
     denotes H \<rho> (AddExpr_create_cl G cl r) (bv_binary Add cl (sem \<rho> r))"
   "denotes H \<rho> (SubExpr_createPartialR G cl r) (bv_binary Sub cl (sem \<rho> r)) \<Longrightarrow>
     denotes H \<rho> (SubExpr_create_cl G cl r) (bv_binary Sub cl (sem \<rho> r))"
proof -
  have "AddExpr_create_cl G cl r = AddExpr_createPartialR G cl r \<and>
      SubExpr_create_cl G cl r = SubExpr_createPartialR G cl r \<or> (\<exists>c. r = ConstantExpr c)"
    using assms(3) AddExpr_create_cl.simps [of G cl r] SubExpr_create_cl.simps [of G cl r]
    by (cases r) simp_all
  moreover have "denotes H \<rho> (AddExpr_create_cl G cl r) (bv_binary Add cl (sem \<rho> r)) \<and>
      denotes H \<rho> (SubExpr_create_cl G cl r) (bv_binary Sub cl (sem \<rho> r))" if "r = ConstantExpr c" for c
    using assms unfolding that
    by (simp add: AddExpr_create_cl.simps SubExpr_create_cl.simps ConstantExpr_binary_eq create_sound_simps)
  ultimately show
    "denotes H \<rho> (AddExpr_createPartialR G cl r) (bv_binary Add cl (sem \<rho> r)) \<Longrightarrow>
     denotes H \<rho> (AddExpr_create_cl G cl r) (bv_binary Add cl (sem \<rho> r))"
   "denotes H \<rho> (SubExpr_createPartialR G cl r) (bv_binary Sub cl (sem \<rho> r)) \<Longrightarrow>
     denotes H \<rho> (SubExpr_create_cl G cl r) (bv_binary Sub cl (sem \<rho> r))"
    by auto
qed

lemma AddSub_partial_step:
  assumes cl: "ap_ok cl" "wt H r" "getWidth r = ap_width cl"
    and IH: "\<And>cl b. size b < size r \<Longrightarrow> ap_ok cl \<Longrightarrow> wt H b \<Longrightarrow> getWidth b = ap_width cl \<Longrightarrow>
      denotes H \<rho> (AddExpr_create_cl G cl b) (bv_binary Add cl (sem \<rho> b)) \<and>
      denotes H \<rho> (SubExpr_create_cl G cl b) (bv_binary Sub cl (sem \<rho> b))"
  shows "denotes H \<rho> (AddExpr_createPartialR G cl r) (bv_binary Add cl (sem \<rho> r)) \<and>
    denotes H \<rho> (SubExpr_createPartialR G cl r) (bv_binary Sub cl (sem \<rho> r))"
proof (cases "ap_width cl = 1")
  case True
  then show ?thesis
    using XorPartialR_sound [OF cl] cl bv_width_1 [of cl "sem \<rho> r"]
    by (simp add: AddExpr_createPartialR.simps SubExpr_createPartialR.simps)
next
  case w: False
  have IH': "denotes H \<rho> (AddExpr_create_cl G (bv_binary Add cl c) b) (bv_binary Add (bv_binary Add cl c) (sem \<rho> b))
      \<and> denotes H \<rho> (SubExpr_create_cl G (bv_binary Add cl c) b) (bv_binary Sub (bv_binary Add cl c) (sem \<rho> b))
      \<and> denotes H \<rho> (AddExpr_create_cl G (bv_binary Sub cl c) b) (bv_binary Add (bv_binary Sub cl c) (sem \<rho> b))
      \<and> denotes H \<rho> (SubExpr_create_cl G (bv_binary Sub cl c) b) (bv_binary Sub (bv_binary Sub cl c) (sem \<rho> b))"
    and ok: "ap_ok c" "ap_width cl = ap_width c" "wt H b" "getWidth b = ap_width c" 
    and eq: "sem \<rho> r = bv_binary k c (sem \<rho> b)"
    if "const_left k r = Some (c, b)" "k = Add \<or> k = Sub" for k c b
  proof -
    note r = const_left_wt [OF that(1) cl(2) that(2)]
    show o: "ap_ok c" "ap_width cl = ap_width c" "wt H b" "getWidth b = ap_width c"
      using r(1-4) cl(3) by simp_all
    show "sem \<rho> r = bv_binary k c (sem \<rho> b)" by (rule r(6))
    show "denotes H \<rho> (AddExpr_create_cl G (bv_binary Add cl c) b) (bv_binary Add (bv_binary Add cl c) (sem \<rho> b))
      \<and> denotes H \<rho> (SubExpr_create_cl G (bv_binary Add cl c) b) (bv_binary Sub (bv_binary Add cl c) (sem \<rho> b))
      \<and> denotes H \<rho> (AddExpr_create_cl G (bv_binary Sub cl c) b) (bv_binary Add (bv_binary Sub cl c) (sem \<rho> b))
      \<and> denotes H \<rho> (SubExpr_create_cl G (bv_binary Sub cl c) b) (bv_binary Sub (bv_binary Sub cl c) (sem \<rho> b))"
      using IH [OF r(5), of "bv_binary Add cl c"] IH [OF r(5), of "bv_binary Sub cl c"] o cl(1) by simp
  qed
  have addeq: "AddExpr_createPartialR G cl r = (if ap_value cl = 0 then Some r else
        (case const_left Add r of
           Some (c, b) \<Rightarrow> check (ap_width cl = ap_width c) (AddExpr_create_cl G (ConstantExpr_binary (api G) Add cl c) b)
         | None \<Rightarrow> (case const_left Sub r of
           Some (c, b) \<Rightarrow> check (ap_width cl = ap_width c) (SubExpr_create_cl G (ConstantExpr_binary (api G) Add cl c) b)
         | None \<Rightarrow> Some (BinaryExpr Add (ConstantExpr cl) r))))"
    using w cl(1) by (subst AddExpr_createPartialR.simps) simp
  have subeq: "SubExpr_createPartialR G cl r = 
        (case const_left Add r of
           Some (c, b) \<Rightarrow> check (ap_width cl = ap_width c) (SubExpr_create_cl G (ConstantExpr_binary (api G) Sub cl c) b)
         | None \<Rightarrow> (case const_left Sub r of
           Some (c, b) \<Rightarrow> check (ap_width cl = ap_width c) (AddExpr_create_cl G (ConstantExpr_binary (api G) Sub cl c) b)
         | None \<Rightarrow> Some (BinaryExpr Sub (ConstantExpr cl) r)))"
    using w by (subst SubExpr_createPartialR.simps) simp
  have zero: "denotes H \<rho> (AddExpr_createPartialR G cl r) (bv_binary Add cl (sem \<rho> r))" if "ap_value cl = 0"
    using that cl bv_null_units(1) [of "sem \<rho> r" cl] unfolding addeq by simp
  consider (add) c b where "const_left Add r = Some (c, b)" 
    | (sub) c b where "const_left Add r = None" "const_left Sub r = Some (c, b)"
    | (no) "const_left Add r = None" "const_left Sub r = None" by (metis option.exhaust prod.exhaust)
  then have "(ap_value cl \<noteq> 0 \<longrightarrow> denotes H \<rho> (AddExpr_createPartialR G cl r) (bv_binary Add cl (sem \<rho> r))) \<and>
    denotes H \<rho> (SubExpr_createPartialR G cl r) (bv_binary Sub cl (sem \<rho> r))"
  proof cases
    case add
    have k: "Add = Add \<or> Add = Sub" by simp
    show ?thesis
      using IH' [OF add k] ok [OF add k] eq [OF add k] cl(1) bv_left_assoc [of cl c "sem \<rho> b"]
      unfolding addeq subeq add
      by (simp (no_asm_simp) add: ConstantExpr_binary_eq create_sound_simps)
  next
    case sub
    have k: "Sub = Add \<or> Sub = Sub" by simp
    show ?thesis
      using IH' [OF sub(2) k] ok [OF sub(2) k] eq [OF sub(2) k] cl(1) bv_left_assoc [of cl c "sem \<rho> b"]
      unfolding addeq subeq sub
      by (simp (no_asm_simp) add: ConstantExpr_binary_eq create_sound_simps)
  next
    case no
    then show ?thesis unfolding addeq subeq no
      using cl bv_null_units(1) [of "sem \<rho> r" cl] by simp
  qed
  then show ?thesis using zero by blast
qed

lemma AddSub_partial_sound:
  "ap_ok cl \<Longrightarrow> wt H r \<Longrightarrow> getWidth r = ap_width cl \<Longrightarrow>
    denotes H \<rho> (AddExpr_createPartialR G cl r) (bv_binary Add cl (sem \<rho> r)) \<and>
    denotes H \<rho> (SubExpr_createPartialR G cl r) (bv_binary Sub cl (sem \<rho> r))"
proof (induction r arbitrary: cl rule: measure_induct_rule [where f = size])
  case (less r)
  show ?case
    by (rule AddSub_partial_step [OF less.prems]) (use create_cl_sound less.IH in blast)
qed

lemma AddSub_sound_cl:
  assumes "ap_ok cl" "wt H r" "getWidth r = ap_width cl"
  shows AddPartialR_sound: "denotes H \<rho> (AddExpr_createPartialR G cl r) (bv_binary Add cl (sem \<rho> r))"
    and SubPartialR_sound: "denotes H \<rho> (SubExpr_createPartialR G cl r) (bv_binary Sub cl (sem \<rho> r))"
    and Add_cl_sound: "denotes H \<rho> (AddExpr_create_cl G cl r) (bv_binary Add cl (sem \<rho> r))"
    and Sub_cl_sound: "denotes H \<rho> (SubExpr_create_cl G cl r) (bv_binary Sub cl (sem \<rho> r))"
  using AddSub_partial_sound [OF assms] create_cl_sound [OF assms] by blast+

lemma SubPartial_sound:
  assumes "ap_ok c" "wt H l" "getWidth l = ap_width c"
  shows "denotes H \<rho> (SubExpr_createPartial G l c) (bv_binary Sub (sem \<rho> l) c)"
proof -
  have eq: "ConstantExpr_binary (api G) Sub (bv_zero (ap_width c)) c = bv_binary Sub (bv_zero (ap_width c)) c"
    using assms ap_ok_pos by (intro ConstantExpr_binary_eq) (auto simp: create_sound_simps)
  have "denotes H \<rho> (AddExpr_createPartialR G (bv_binary Sub (bv_zero (ap_width c)) c) l)
      (bv_binary Add (bv_binary Sub (bv_zero (ap_width c)) c) (sem \<rho> l))"
    using assms ap_ok_pos by (intro AddPartialR_sound) auto
  then show ?thesis
    using assms ap_ok_pos bv_sub_add_neg [of "sem \<rho> l" c] eq
    by (simp add: SubExpr_createPartial_def AddExpr_createPartial_def)
qed

lemma Sub_cr_sound:
  assumes "ap_ok c" "wt H l" "getWidth l = ap_width c"
  shows "denotes H \<rho> (SubExpr_create_cr G l c) (bv_binary Sub (sem \<rho> l) c)"
proof -
  have "SubExpr_create_cr G l c = SubExpr_createPartial G l c \<or> (\<exists>x. l = ConstantExpr x)"
    using assms(3) by (cases l) (simp_all add: SubExpr_create_cr_def)
  then show ?thesis
    using SubPartial_sound [OF assms] assms
    by (auto simp: SubExpr_create_cr_def ConstantExpr_binary_eq create_sound_simps)
qed

lemma create_left_sound:
  assumes "wt H a" "wt H b" "ap_ok c" "getWidth b = getWidth a" "ap_width c = getWidth a"
    and "denotes H \<rho> x (bv_binary k (sem \<rho> a) (sem \<rho> b))" "k = Add \<or> k = Sub"
  shows "denotes H \<rho> (x \<bind> AddExpr_create_cl G c) (bv_binary Add c (bv_binary k (sem \<rho> a) (sem \<rho> b)))"
    "denotes H \<rho> (x \<bind> SubExpr_create_cl G c) (bv_binary Sub c (bv_binary k (sem \<rho> a) (sem \<rho> b)))"
    "denotes H \<rho> (x \<bind> (\<lambda>x. SubExpr_create_cr G x c)) (bv_binary Sub (bv_binary k (sem \<rho> a) (sem \<rho> b)) c)"
proof -
  have w: "ap_width (bv_binary k (sem \<rho> a) (sem \<rho> b)) = ap_width c"
    using assms(1-5,7) by auto
  show "denotes H \<rho> (x \<bind> AddExpr_create_cl G c) (bv_binary Add c (bv_binary k (sem \<rho> a) (sem \<rho> b)))"
    "denotes H \<rho> (x \<bind> SubExpr_create_cl G c) (bv_binary Sub c (bv_binary k (sem \<rho> a) (sem \<rho> b)))"
    "denotes H \<rho> (x \<bind> (\<lambda>x. SubExpr_create_cr G x c)) (bv_binary Sub (bv_binary k (sem \<rho> a) (sem \<rho> b)) c)"
    by (rule denotes_bind [OF assms(6)], metis w Add_cl_sound Sub_cl_sound Sub_cr_sound assms(3))+
qed

lemma Add_static_sound:
  assumes l: "wt H l" "wt H r" "getWidth l = getWidth r"
    and add: "\<And>a b. size a + size b < size l + size r \<Longrightarrow> wt H a \<Longrightarrow> wt H b \<Longrightarrow> getWidth a = getWidth b \<Longrightarrow>
      denotes H \<rho> (AddExpr_create G a b) (bv_binary Add (sem \<rho> a) (sem \<rho> b))"
    and sub: "\<And>a b. size a + size b < size l + size r \<Longrightarrow> wt H a \<Longrightarrow> wt H b \<Longrightarrow> getWidth a = getWidth b \<Longrightarrow>
      denotes H \<rho> (SubExpr_create G a b) (bv_binary Sub (sem \<rho> a) (sem \<rho> b))"
  shows "denotes H \<rho> (AddExpr_create_static G l r) (bv_binary Add (sem \<rho> l) (sem \<rho> r))"
proof (cases "getWidth l = 1")
  case True
  then show ?thesis using l bv_width_1 [of "sem \<rho> l" "sem \<rho> r"]
    by (auto simp: AddExpr_create_static.simps XorExpr_create_static_def)
next
  case False
  then have "getWidth l \<noteq> Suc 0"
    using False by simp_all
  note static = AddExpr_create_static.simps [of G l r] this
  consider (la) k a where "const_left Add l = Some (k, a)"
    | (ls) k a where "const_left Add l = None" "const_left Sub l = Some (k, a)"
    | (ra) k a where "const_left Add l = None" "const_left Sub l = None" "const_left Add r = Some (k, a)"
    | (rs) k a where "const_left Add l = None" "const_left Sub l = None" "const_left Add r = None"
        "const_left Sub r = Some (k, a)"
    | (no) "const_left Add l = None" "const_left Sub l = None" "const_left Add r = None" "const_left Sub r = None"
    by (metis option.exhaust prod.exhaust)
  then show ?thesis
  proof cases
    case la
    have e: "wt H a" "ap_ok k" "getWidth a = getWidth l" "ap_width k = getWidth l" "size a < size l"
        "bv_binary Add (sem \<rho> l) (sem \<rho> r) = bv_binary Add k (bv_binary Add (sem \<rho> a) (sem \<rho> r))"
      using const_left_wt [OF la l(1)] l bv_add_assoc(1) [of k "sem \<rho> a" "sem \<rho> r"]
      by simp_all
    have "denotes H \<rho> (AddExpr_create G a r) (bv_binary Add (sem \<rho> a) (sem \<rho> r))"
      by (rule add) (use e l in simp_all)
    then have "denotes H \<rho> (AddExpr_create G a r \<bind> AddExpr_create_cl G k) (bv_binary Add k (bv_binary Add (sem \<rho> a) (sem \<rho> r)))"
      by (rule create_left_sound(1) [rotated 5]) (use e l in simp_all)
    then show ?thesis unfolding e(6) by (simp (no_asm_simp) add: static la)
  next
    case ls
    have e: "wt H a" "ap_ok k" "getWidth a = getWidth l" "ap_width k = getWidth l" "size a < size l"
        "bv_binary Add (sem \<rho> l) (sem \<rho> r) = bv_binary Add k (bv_binary Sub (sem \<rho> r) (sem \<rho> a))"
      using const_left_wt [OF ls(2) l(1)] l bv_add_assoc(3) [of k "sem \<rho> a" "sem \<rho> r"]
      by simp_all
    have "denotes H \<rho> (SubExpr_create G r a) (bv_binary Sub (sem \<rho> r) (sem \<rho> a))"
      by (rule sub) (use e l in simp_all)
    then have "denotes H \<rho> (SubExpr_create G r a \<bind> AddExpr_create_cl G k) (bv_binary Add k (bv_binary Sub (sem \<rho> r) (sem \<rho> a)))"
      by (rule create_left_sound(1) [rotated 5]) (use e l in simp_all)
    then show ?thesis unfolding e(6) by (simp (no_asm_simp) add: static ls)
  next
    case ra
    have e: "wt H a" "ap_ok k" "getWidth a = getWidth l" "ap_width k = getWidth l" "size a < size r"
        "bv_binary Add (sem \<rho> l) (sem \<rho> r) = bv_binary Add k (bv_binary Add (sem \<rho> l) (sem \<rho> a))"
      using const_left_wt [OF ra(3) l(2)] l bv_add_assoc(7) [of k "sem \<rho> l" "sem \<rho> a"]
      by simp_all
    have "denotes H \<rho> (AddExpr_create G l a) (bv_binary Add (sem \<rho> l) (sem \<rho> a))"
      by (rule add) (use e l in simp_all)
    then have "denotes H \<rho> (AddExpr_create G l a \<bind> AddExpr_create_cl G k) (bv_binary Add k (bv_binary Add (sem \<rho> l) (sem \<rho> a)))"
      by (rule create_left_sound(1) [rotated 5]) (use e l in simp_all)
    then show ?thesis unfolding e(6) by (simp (no_asm_simp) add: static ra)
  next
    case rs
    have e: "wt H a" "ap_ok k" "getWidth a = getWidth l" "ap_width k = getWidth l" "size a < size r"
        "bv_binary Add (sem \<rho> l) (sem \<rho> r) = bv_binary Add k (bv_binary Sub (sem \<rho> l) (sem \<rho> a))"
      using const_left_wt [OF rs(4) l(2)] l bv_add_assoc(10) [of k "sem \<rho> a" "sem \<rho> l"]
      by simp_all
    have "denotes H \<rho> (SubExpr_create G l a) (bv_binary Sub (sem \<rho> l) (sem \<rho> a))"
      by (rule sub) (use e l in simp_all)
    then have "denotes H \<rho> (SubExpr_create G l a \<bind> AddExpr_create_cl G k) (bv_binary Add k (bv_binary Sub (sem \<rho> l) (sem \<rho> a)))"
      by (rule create_left_sound(1) [rotated 5]) (use e l in simp_all)
    then show ?thesis unfolding e(6) by (simp (no_asm_simp) add: static rs)
  next
    case no
    then show ?thesis using static l by simp
  qed
qed

lemma Sub_static_sound:
  assumes l: "wt H l" "wt H r" "getWidth l = getWidth r"
    and add: "\<And>a b. size a + size b < size l + size r \<Longrightarrow> wt H a \<Longrightarrow> wt H b \<Longrightarrow> getWidth a = getWidth b \<Longrightarrow>
      denotes H \<rho> (AddExpr_create G a b) (bv_binary Add (sem \<rho> a) (sem \<rho> b))"
    and sub: "\<And>a b. size a + size b < size l + size r \<Longrightarrow> wt H a \<Longrightarrow> wt H b \<Longrightarrow> getWidth a = getWidth b \<Longrightarrow>
      denotes H \<rho> (SubExpr_create G a b) (bv_binary Sub (sem \<rho> a) (sem \<rho> b))"
  shows "denotes H \<rho> (SubExpr_create_static G l r) (bv_binary Sub (sem \<rho> l) (sem \<rho> r))"
proof (cases "getWidth l = 1 \<or> l = r")
  case True
  then show ?thesis using l bv_width_1 [of "sem \<rho> l" "sem \<rho> r"] bv_units(6) [of "sem \<rho> l"] expr_eq_iff [of H l r] wt_width_pos [of H l]
    by (auto simp: SubExpr_create_static.simps XorExpr_create_static_def)
next
  case False
  then have "getWidth l \<noteq> Suc 0" "\<not> expr_eq (api G) l r"
    using expr_eq_iff [OF l(1,2)] by simp_all
  note static = SubExpr_create_static.simps [of G l r] this
  consider (la) k a where "const_left Add l = Some (k, a)"
    | (ls) k a where "const_left Add l = None" "const_left Sub l = Some (k, a)"
    | (ra) k a where "const_left Add l = None" "const_left Sub l = None" "const_left Add r = Some (k, a)"
    | (rs) k a where "const_left Add l = None" "const_left Sub l = None" "const_left Add r = None"
        "const_left Sub r = Some (k, a)"
    | (no) "const_left Add l = None" "const_left Sub l = None" "const_left Add r = None" "const_left Sub r = None"
    by (metis option.exhaust prod.exhaust)
  then show ?thesis
  proof cases
    case la
    have e: "wt H a" "ap_ok k" "getWidth a = getWidth l" "ap_width k = getWidth l" "size a < size l"
        "bv_binary Sub (sem \<rho> l) (sem \<rho> r) = bv_binary Add k (bv_binary Sub (sem \<rho> a) (sem \<rho> r))"
      using const_left_wt [OF la l(1)] l bv_add_assoc(2) [of k "sem \<rho> a" "sem \<rho> r"]
      by simp_all
    have "denotes H \<rho> (SubExpr_create G a r) (bv_binary Sub (sem \<rho> a) (sem \<rho> r))"
      by (rule sub) (use e l in simp_all)
    then have "denotes H \<rho> (SubExpr_create G a r \<bind> AddExpr_create_cl G k) (bv_binary Add k (bv_binary Sub (sem \<rho> a) (sem \<rho> r)))"
      by (rule create_left_sound(1) [rotated 5]) (use e l in simp_all)
    then show ?thesis unfolding e(6) by (simp (no_asm_simp) add: static la)
  next
    case ls
    have e: "wt H a" "ap_ok k" "getWidth a = getWidth l" "ap_width k = getWidth l" "size a < size l"
        "bv_binary Sub (sem \<rho> l) (sem \<rho> r) = bv_binary Sub k (bv_binary Add (sem \<rho> a) (sem \<rho> r))"
      using const_left_wt [OF ls(2) l(1)] l bv_add_assoc(4) [of k "sem \<rho> a" "sem \<rho> r"]
      by simp_all
    have "denotes H \<rho> (AddExpr_create G a r) (bv_binary Add (sem \<rho> a) (sem \<rho> r))"
      by (rule add) (use e l in simp_all)
    then have "denotes H \<rho> (AddExpr_create G a r \<bind> SubExpr_create_cl G k) (bv_binary Sub k (bv_binary Add (sem \<rho> a) (sem \<rho> r)))"
      by (rule create_left_sound(2) [rotated 5]) (use e l in simp_all)
    then show ?thesis unfolding e(6) by (simp (no_asm_simp) add: static ls)
  next
    case ra
    have e: "wt H a" "ap_ok k" "getWidth a = getWidth l" "ap_width k = getWidth l" "size a < size r"
        "bv_binary Sub (sem \<rho> l) (sem \<rho> r) = bv_binary Sub (bv_binary Sub (sem \<rho> l) (sem \<rho> a)) k"
      using const_left_wt [OF ra(3) l(2)] l bv_add_assoc(11) [of k "sem \<rho> a" "sem \<rho> l"]
      by simp_all
    have "denotes H \<rho> (SubExpr_create G l a) (bv_binary Sub (sem \<rho> l) (sem \<rho> a))"
      by (rule sub) (use e l in simp_all)
    then have "denotes H \<rho> (SubExpr_create G l a \<bind> (\<lambda>x. SubExpr_create_cr G x k)) (bv_binary Sub (bv_binary Sub (sem \<rho> l) (sem \<rho> a)) k)"
      by (rule create_left_sound(3) [rotated 5]) (use e l in simp_all)
    then show ?thesis unfolding e(6) by (simp (no_asm_simp) add: static ra)
  next
    case rs
    have e: "wt H a" "ap_ok k" "getWidth a = getWidth l" "ap_width k = getWidth l" "size a < size r"
        "bv_binary Sub (sem \<rho> l) (sem \<rho> r) = bv_binary Sub (bv_binary Add (sem \<rho> l) (sem \<rho> a)) k"
      using const_left_wt [OF rs(4) l(2)] l bv_add_assoc(12) [of k "sem \<rho> a" "sem \<rho> l"]
      by simp_all
    have "denotes H \<rho> (AddExpr_create G l a) (bv_binary Add (sem \<rho> l) (sem \<rho> a))"
      by (rule add) (use e l in simp_all)
    then have "denotes H \<rho> (AddExpr_create G l a \<bind> (\<lambda>x. SubExpr_create_cr G x k)) (bv_binary Sub (bv_binary Add (sem \<rho> l) (sem \<rho> a)) k)"
      by (rule create_left_sound(3) [rotated 5]) (use e l in simp_all)
    then show ?thesis unfolding e(6) by (simp (no_asm_simp) add: static rs)
  next
    case no
    then show ?thesis using static l by simp
  qed
qed

lemma AddSub_create_of_static:
  assumes "wt H l" "wt H r" "getWidth l = getWidth r"
  shows "denotes H \<rho> (AddExpr_create_static G l r) (bv_binary Add (sem \<rho> l) (sem \<rho> r)) \<Longrightarrow>
      denotes H \<rho> (AddExpr_create G l r) (bv_binary Add (sem \<rho> l) (sem \<rho> r))"
    "denotes H \<rho> (SubExpr_create_static G l r) (bv_binary Sub (sem \<rho> l) (sem \<rho> r)) \<Longrightarrow>
      denotes H \<rho> (SubExpr_create G l r) (bv_binary Sub (sem \<rho> l) (sem \<rho> r))"
proof -
  note partial = AddPartialR_sound [of _ H l \<rho>] AddPartialR_sound [of _ H r \<rho>]
    SubPartial_sound [of _ H l \<rho>] SubPartialR_sound [of _ H r \<rho>]
  show "denotes H \<rho> (AddExpr_create_static G l r) (bv_binary Add (sem \<rho> l) (sem \<rho> r)) \<Longrightarrow>
      denotes H \<rho> (AddExpr_create G l r) (bv_binary Add (sem \<rho> l) (sem \<rho> r))"
    using assms partial bv_comm(1) unfolding AddExpr_create.simps
    by (intro BCREATE_R_sound) (auto simp: create_sound_simps AddExpr_createPartial_def)
  show "denotes H \<rho> (SubExpr_create_static G l r) (bv_binary Sub (sem \<rho> l) (sem \<rho> r)) \<Longrightarrow>
      denotes H \<rho> (SubExpr_create G l r) (bv_binary Sub (sem \<rho> l) (sem \<rho> r))"
    using assms partial unfolding SubExpr_create.simps
    by (intro BCREATE_R_sound) (auto simp: create_sound_simps)
qed

lemma AddSub_create_sound:
  "wt H l \<Longrightarrow> wt H r \<Longrightarrow> getWidth l = getWidth r \<Longrightarrow>
      denotes H \<rho> (AddExpr_create G l r) (bv_binary Add (sem \<rho> l) (sem \<rho> r)) \<and>
      denotes H \<rho> (SubExpr_create G l r) (bv_binary Sub (sem \<rho> l) (sem \<rho> r))"
proof (induction "size l + size r" arbitrary: l r rule: less_induct)
  case less
  note ih = conjunct1 [OF less.hyps] conjunct2 [OF less.hyps]
  show ?case
    using AddSub_create_of_static [OF less.prems] Add_static_sound [OF less.prems ih]
      Sub_static_sound [OF less.prems ih] by blast
qed

lemmas AddExpr_create_sound = conjunct1 [OF AddSub_create_sound]
lemmas SubExpr_create_sound = conjunct2 [OF AddSub_create_sound]

end
end
