(* ===== verification/ExprSoundBinary.thy ===== *)
theory ExprSoundBinary
  imports ExprSoundArith
begin

text \<open>
  The remaining binary operators: products, divisions and remainders (by a divisor that is not
  0), shifts and orders with their special cases at width 1, inequality, and the function that
  dispatches on the kind.
\<close>

lemma bv_Mul_one: "ap_ok x \<Longrightarrow> ap_width c = ap_width x \<Longrightarrow> ap_value c = 1 \<Longrightarrow> bv_binary Mul c x = x"
  by (simp add: bv_binary.simps bv_lift_def)

lemma bv_flip:
  "bv_binary Ugt x y = bv_binary Ult y x" "bv_binary Uge x y = bv_binary Ule y x"
  "bv_binary Sgt x y = bv_binary Slt y x" "bv_binary Sge x y = bv_binary Sle y x"
  by (simp_all add: bv_binary.simps)

lemma bv_bool_zero [simp]: "ap_value (bv_bool b) = 0 \<longleftrightarrow> \<not> b"
  by simp

declare bv_bool_sel(2) [simp del]

lemmas shifts_static_defs = ShlExpr_create_static_def LShrExpr_create_static_def AShrExpr_create_static_def UltExpr_create_static_def
  UleExpr_create_static_def SltExpr_create_static_def SleExpr_create_static_def

context expr_creation
begin

lemma wt_bool_cases2:
  assumes "wt H l" "wt H r" "getWidth l = getWidth r" "getWidth l = 1"
  obtains a b where "sem \<rho> l = bv_bool a" "sem \<rho> r = bv_bool b"
  using wt_bool_cases [OF assms(1,4)] wt_bool_cases [OF assms(2), of \<rho>] assms(3,4) by metis

lemma MulPartialR_sound:
  assumes "ap_ok c" "wt H r" "getWidth r = ap_width c"
  shows "denotes H \<rho> (MulExpr_createPartialR (api G) c r) (bv_binary Mul c (sem \<rho> r))"
proof (cases "ap_width c = 1")
  case True
  then show ?thesis
    using AndPartial_sound [of H r c \<rho>] assms bv_width_1(3) [of c "sem \<rho> r"] bv_comm(3) [of c "sem \<rho> r"]
    by (simp add: MulExpr_createPartialR_def AndExpr_createPartialR_def)
next
  case False
  then show ?thesis
    using assms bv_Mul_one [of "sem \<rho> r" c] bv_null_units(9) [of "sem \<rho> r" c]
    by (simp add: MulExpr_createPartialR_def)
qed

lemma MulExpr_create_sound:
  assumes "wt H l" "wt H r" "getWidth l = getWidth r"
  shows "denotes H \<rho> (MulExpr_create (api G) l r) (bv_binary Mul (sem \<rho> l) (sem \<rho> r))"
proof -
  have "denotes H \<rho> (MulExpr_create_static l r) (bv_binary Mul (sem \<rho> l) (sem \<rho> r))"
    using assms bv_width_1(3) [of "sem \<rho> l" "sem \<rho> r"] by (simp add: MulExpr_create_static_def)
  then show ?thesis
    unfolding MulExpr_create_def
    using assms MulPartialR_sound [of _ H l \<rho>] MulPartialR_sound [of _ H r \<rho>] bv_comm(2)
    by (intro BCREATE_R_sound) (auto simp: create_sound_simps MulExpr_createPartial_def)
qed

lemma divisions_sound:
  assumes "wt H l" "wt H r" "getWidth l = getWidth r" "ap_value (sem \<rho> r) \<noteq> 0"
  shows "denotes H \<rho> (UDivExpr_create (api G) l r) (bv_binary UDiv (sem \<rho> l) (sem \<rho> r))"
    "denotes H \<rho> (SDivExpr_create (api G) l r) (bv_binary SDiv (sem \<rho> l) (sem \<rho> r))"
    "denotes H \<rho> (URemExpr_create (api G) l r) (bv_binary URem (sem \<rho> l) (sem \<rho> r))"
    "denotes H \<rho> (SRemExpr_create (api G) l r) (bv_binary SRem (sem \<rho> l) (sem \<rho> r))"
proof -
  have pre: "binary_pre k (sem \<rho> l) (sem \<rho> r)" for k
    using assms by (simp add: binary_pre_def)
  have bool: "bv_binary UDiv (sem \<rho> l) (sem \<rho> r) = sem \<rho> l" "bv_binary SDiv (sem \<rho> l) (sem \<rho> r) = sem \<rho> l"
    "bv_binary URem (sem \<rho> l) (sem \<rho> r) = bv_bool False" "bv_binary SRem (sem \<rho> l) (sem \<rho> r) = bv_bool False"
    if "getWidth l = 1"
  proof -
    note w = that
    obtain a b where ab: "sem \<rho> l = bv_bool a" "sem \<rho> r = bv_bool b"
      by (rule wt_bool_cases2 [OF assms(1-3) w])
    then have "b" using assms(4) by simp
    then show "bv_binary UDiv (sem \<rho> l) (sem \<rho> r) = sem \<rho> l" "bv_binary SDiv (sem \<rho> l) (sem \<rho> r) = sem \<rho> l"
      "bv_binary URem (sem \<rho> l) (sem \<rho> r) = bv_bool False" "bv_binary SRem (sem \<rho> l) (sem \<rho> r) = bv_bool False"
      using ab by simp_all
  qed
  show "denotes H \<rho> (UDivExpr_create (api G) l r) (bv_binary UDiv (sem \<rho> l) (sem \<rho> r))"
    unfolding UDivExpr_create_def using assms bool
    by (intro BCREATE_sound [OF _ _ pre]) (simp_all add: UDivExpr_create_static_def)
  show "denotes H \<rho> (SDivExpr_create (api G) l r) (bv_binary SDiv (sem \<rho> l) (sem \<rho> r))"
    unfolding SDivExpr_create_def using assms bool
    by (intro BCREATE_sound [OF _ _ pre]) (simp_all add: SDivExpr_create_static_def)
  show "denotes H \<rho> (URemExpr_create (api G) l r) (bv_binary URem (sem \<rho> l) (sem \<rho> r))"
    unfolding URemExpr_create_def using assms bool
    by (intro BCREATE_sound [OF _ _ pre]) (simp_all add: URemExpr_create_static_def)
  show "denotes H \<rho> (SRemExpr_create (api G) l r) (bv_binary SRem (sem \<rho> l) (sem \<rho> r))"
    unfolding SRemExpr_create_def using assms bool
    by (intro BCREATE_sound [OF _ _ pre]) (simp_all add: SRemExpr_create_static_def)
qed

lemma createIsZero_sound:
  assumes "wt H e"
  shows "denotes H \<rho> (createIsZero G e) (bv_binary Eq (sem \<rho> e) (bv_zero (getWidth e)))"
  using EqExpr_create_sound [OF assms, of "ConstantExpr (bv_zero (getWidth e))" \<rho>] wt_width_pos [OF assms]
  by (simp add: createIsZero_def)

lemma createIsZero_bool:
  assumes "wt H e" "getWidth e = 1" "sem \<rho> e = bv_bool b"
  shows "denotes H \<rho> (createIsZero G e) (bv_bool (\<not> b))"
  using createIsZero_sound [OF assms(1), of \<rho>] assms(2,3) by simp

text \<open>A conjunction or disjunction of a Boolean and a negated one, on either side.\<close>

lemma negated_left:
  assumes "wt H l" "wt H r" "getWidth l = 1" "getWidth r = 1" "sem \<rho> l = bv_bool a" "sem \<rho> r = bv_bool b"
  shows "denotes H \<rho> (createIsZero G l \<bind> (\<lambda>nl. AndExpr_create (api G) nl r)) (bv_bool (\<not> a \<and> b))"
    "denotes H \<rho> (createIsZero G l \<bind> (\<lambda>nl. OrExpr_create (api G) nl r)) (bv_bool (\<not> a \<or> b))"
    "denotes H \<rho> (createIsZero G l \<bind> (\<lambda>nl. AndExpr_create (api G) r nl)) (bv_bool (b \<and> \<not> a))"
    "denotes H \<rho> (createIsZero G l \<bind> (\<lambda>nl. OrExpr_create (api G) r nl)) (bv_bool (b \<or> \<not> a))"
proof -
  note neg = createIsZero_bool [OF assms(1,3,5)]
  have *: "denotes H \<rho> (AndExpr_create (api G) e r) (bv_bool (\<not> a \<and> b))"
    "denotes H \<rho> (OrExpr_create (api G) e r) (bv_bool (\<not> a \<or> b))"
    "denotes H \<rho> (AndExpr_create (api G) r e) (bv_bool (b \<and> \<not> a))"
    "denotes H \<rho> (OrExpr_create (api G) r e) (bv_bool (b \<or> \<not> a))"
    if "wt H e" "sem \<rho> e = bv_bool (\<not> a)" "getWidth e = ap_width (bv_bool (\<not> a))" for e
    using AndExpr_create_sound [of H e r \<rho>] OrExpr_create_sound [of H e r \<rho>]
      AndExpr_create_sound [of H r e \<rho>] OrExpr_create_sound [of H r e \<rho>] assms that by simp_all
  show "denotes H \<rho> (createIsZero G l \<bind> (\<lambda>nl. AndExpr_create (api G) nl r)) (bv_bool (\<not> a \<and> b))"
    "denotes H \<rho> (createIsZero G l \<bind> (\<lambda>nl. OrExpr_create (api G) nl r)) (bv_bool (\<not> a \<or> b))"
    "denotes H \<rho> (createIsZero G l \<bind> (\<lambda>nl. AndExpr_create (api G) r nl)) (bv_bool (b \<and> \<not> a))"
    "denotes H \<rho> (createIsZero G l \<bind> (\<lambda>nl. OrExpr_create (api G) r nl)) (bv_bool (b \<or> \<not> a))"
    by (rule denotes_bind [OF neg], rule *; assumption)+
qed

lemma createImplies_sound:
  assumes "wt H h" "wt H c" "getWidth h = 1" "getWidth c = 1" "sem \<rho> h = bv_bool a" "sem \<rho> c = bv_bool b"
  shows "denotes H \<rho> (createImplies G h c) (bv_bool (a \<longrightarrow> b))"
  using negated_left(2) [OF assms] by (simp only: createImplies_def imp_conv_disj)

lemma shifts_orders_static_sound:
  assumes "wt H l" "wt H r" "getWidth l = getWidth r"
  shows "denotes H \<rho> (ShlExpr_create_static G l r) (bv_binary Shl (sem \<rho> l) (sem \<rho> r)) \<and>
    denotes H \<rho> (LShrExpr_create_static G l r) (bv_binary LShr (sem \<rho> l) (sem \<rho> r)) \<and>
    denotes H \<rho> (AShrExpr_create_static l r) (bv_binary AShr (sem \<rho> l) (sem \<rho> r)) \<and>
    denotes H \<rho> (UltExpr_create_static G l r) (bv_binary Ult (sem \<rho> l) (sem \<rho> r)) \<and>
    denotes H \<rho> (UleExpr_create_static G l r) (bv_binary Ule (sem \<rho> l) (sem \<rho> r)) \<and>
    denotes H \<rho> (SltExpr_create_static G l r) (bv_binary Slt (sem \<rho> l) (sem \<rho> r)) \<and>
    denotes H \<rho> (SleExpr_create_static G l r) (bv_binary Sle (sem \<rho> l) (sem \<rho> r))"
proof (cases "getWidth l = 1")
  case True
  obtain a b where ab: "sem \<rho> l = bv_bool a" "sem \<rho> r = bv_bool b"
    by (rule wt_bool_cases2 [OF assms True])
  have w: "getWidth l = 1" "getWidth r = 1" using assms(3) True by simp_all
  note n = negated_left [OF assms(1,2) w ab] negated_left [OF assms(2,1) w(2,1) ab(2,1)]
  show ?thesis
    using assms(1) w
    by (simp (no_asm_simp) only: ab bv_bool_binary simp_thms if_True n shifts_static_defs denotes_Some)
next
  case False
  then show ?thesis
    using assms by (simp add: shifts_static_defs)
qed

lemma shifts_orders_sound:
  assumes "wt H l" "wt H r" "getWidth l = getWidth r"
  shows "denotes H \<rho> (ShlExpr_create G l r) (bv_binary Shl (sem \<rho> l) (sem \<rho> r))"
    "denotes H \<rho> (LShrExpr_create G l r) (bv_binary LShr (sem \<rho> l) (sem \<rho> r))"
    "denotes H \<rho> (AShrExpr_create (api G) l r) (bv_binary AShr (sem \<rho> l) (sem \<rho> r))"
    "denotes H \<rho> (UltExpr_create G l r) (bv_binary Ult (sem \<rho> l) (sem \<rho> r))"
    "denotes H \<rho> (UleExpr_create G l r) (bv_binary Ule (sem \<rho> l) (sem \<rho> r))"
    "denotes H \<rho> (SltExpr_create G l r) (bv_binary Slt (sem \<rho> l) (sem \<rho> r))"
    "denotes H \<rho> (SleExpr_create G l r) (bv_binary Sle (sem \<rho> l) (sem \<rho> r))"
proof -
  have pre: "binary_pre k (sem \<rho> l) (sem \<rho> r)" if "\<not> div_kind k" for k
    using assms that by (simp add: binary_pre_def)
  note st = shifts_orders_static_sound [OF assms, of \<rho>]
  show "denotes H \<rho> (ShlExpr_create G l r) (bv_binary Shl (sem \<rho> l) (sem \<rho> r))"
    unfolding ShlExpr_create_def by (intro BCREATE_sound assms(1,2) pre refl) (use st in \<open>simp_all add: div_kind_def\<close>)
  show "denotes H \<rho> (LShrExpr_create G l r) (bv_binary LShr (sem \<rho> l) (sem \<rho> r))"
    unfolding LShrExpr_create_def by (intro BCREATE_sound assms(1,2) pre refl) (use st in \<open>simp_all add: div_kind_def\<close>)
  show "denotes H \<rho> (AShrExpr_create (api G) l r) (bv_binary AShr (sem \<rho> l) (sem \<rho> r))"
    unfolding AShrExpr_create_def by (intro BCREATE_sound assms(1,2) pre refl) (use st in \<open>simp_all add: div_kind_def\<close>)
  show "denotes H \<rho> (UltExpr_create G l r) (bv_binary Ult (sem \<rho> l) (sem \<rho> r))"
    unfolding UltExpr_create_def CMPCREATE_def by (intro BCREATE_sound assms(1,2) pre refl) (use st in \<open>simp_all add: div_kind_def\<close>)
  show "denotes H \<rho> (UleExpr_create G l r) (bv_binary Ule (sem \<rho> l) (sem \<rho> r))"
    unfolding UleExpr_create_def CMPCREATE_def by (intro BCREATE_sound assms(1,2) pre refl) (use st in \<open>simp_all add: div_kind_def\<close>)
  show "denotes H \<rho> (SltExpr_create G l r) (bv_binary Slt (sem \<rho> l) (sem \<rho> r))"
    unfolding SltExpr_create_def CMPCREATE_def by (intro BCREATE_sound assms(1,2) pre refl) (use st in \<open>simp_all add: div_kind_def\<close>)
  show "denotes H \<rho> (SleExpr_create G l r) (bv_binary Sle (sem \<rho> l) (sem \<rho> r))"
    unfolding SleExpr_create_def CMPCREATE_def by (intro BCREATE_sound assms(1,2) pre refl) (use st in \<open>simp_all add: div_kind_def\<close>)
qed

lemma NeExpr_create_sound:
  assumes "wt H l" "wt H r" "getWidth l = getWidth r"
  shows "denotes H \<rho> (NeExpr_create G l r) (bv_binary Ne (sem \<rho> l) (sem \<rho> r))"
proof -
  let ?v = "ap_value (sem \<rho> l) = ap_value (sem \<rho> r)"
  have v: "bv_binary Ne (sem \<rho> l) (sem \<rho> r) = bv_bool (\<not> ?v)" "bv_binary Eq (sem \<rho> l) (sem \<rho> r) = bv_bool ?v"
    by (simp_all only: bv_binary.simps)
  have "denotes H \<rho> (EqExpr_create G (ConstantExpr (bv_bool False)) e) (bv_bool (\<not> ?v))"
    if "wt H e" "sem \<rho> e = bv_bool ?v" "getWidth e = ap_width (bv_bool ?v)" for e
    using EqExpr_create_sound [of H "ConstantExpr (bv_bool False)" e \<rho>] that by simp
  then show ?thesis
    using EqExpr_create_sound [OF assms, of \<rho>] unfolding v by (auto simp: NeExpr_create_def intro!: denotes_bind)
qed

theorem BinaryExpr_create_sound:
  assumes "wt H l" "wt H r" "getWidth l = getWidth r" "div_kind k \<Longrightarrow> ap_value (sem \<rho> r) \<noteq> 0"
  shows "denotes H \<rho> (BinaryExpr_create G k l r) (bv_binary k (sem \<rho> l) (sem \<rho> r))"
  using assms
  by (cases k; simp only: BinaryExpr_create.simps bv_flip UgtExpr_create_def UgeExpr_create_def
      SgtExpr_create_def SgeExpr_create_def)
    (rule AddExpr_create_sound SubExpr_create_sound MulExpr_create_sound divisions_sound
      AndExpr_create_sound OrExpr_create_sound XorExpr_create_sound shifts_orders_sound
      EqExpr_create_sound NeExpr_create_sound; simp add: div_kind_def)+

end
end
