(* ===== verification/ExprSoundShape.thy ===== *)
theory ExprSoundShape
  imports ExprSoundBinary
begin

text \<open>
  Extraction, concatenation, casts, negation, selection and array reads keep the meaning, and
  so does \<open>rebuild\<close> on kids of the widths of the node's own.
\<close>

subsection \<open>Parts of bit vectors\<close>

lemma bv_parts_width [simp]:
  "ap_width (bv_extract off w x) = w" "ap_width (bv_concat x y) = ap_width x + ap_width y"
  "ap_width (bv_not x) = ap_width x" "ap_width (bv_cast k w x) = w"
  by (simp_all add: bv_extract_def bv_concat_def bv_not_def) (cases k; simp add: bv_zext_def bv_sext_def)

lemma bit_ap_value: "ap_ok x \<Longrightarrow> bit (ap_value x) n \<Longrightarrow> n < ap_width x"
  using bit_take_bit_iff [of "ap_width x" "ap_value x" n] by (simp add: ap_ok_def)

lemma bv_extract_all: "ap_ok x \<Longrightarrow> w = ap_width x \<Longrightarrow> bv_extract 0 w x = x"
  by (simp add: bv_extract_def)

lemma bv_extract_concat_high:
  assumes "ap_ok x" "ap_ok y" "ap_width y \<le> off" "off + w \<le> ap_width x + ap_width y"
  shows "bv_extract off w (bv_concat x y) = bv_extract (off - ap_width y) w x"
  using assms by (auto simp: bv_extract_def bv_concat_def mk_ap_eq bit_simps
      dest: bit_ap_value intro!: bit_eqI) 

lemma bv_extract_concat_low:
  assumes "ap_ok x" "ap_ok y" "off + w \<le> ap_width y"
  shows "bv_extract off w (bv_concat x y) = bv_extract off w y"
  using assms by (auto simp: bv_extract_def bv_concat_def mk_ap_eq bit_simps
      dest: bit_ap_value intro!: bit_eqI)

lemma bv_extract_concat_both:
  assumes "ap_ok x" "ap_ok y" "off < ap_width y" "ap_width y < off + w" "off + w \<le> ap_width x + ap_width y"
  shows "bv_extract off w (bv_concat x y) =
    bv_concat (bv_extract 0 (w + off - ap_width y) x) (bv_extract off (ap_width y - off) y)"
proof (rule bv_eqI)
  show "ap_width (bv_extract off w (bv_concat x y)) =
      ap_width (bv_concat (bv_extract 0 (w + off - ap_width y) x) (bv_extract off (ap_width y - off) y))"
    using assms by simp
  show "ap_value (bv_extract off w (bv_concat x y)) =
      ap_value (bv_concat (bv_extract 0 (w + off - ap_width y) x) (bv_extract off (ap_width y - off) y))"
  proof (rule bit_eqI)
    fix n
    have y: "bit (ap_value y) (off + n) \<Longrightarrow> off + n < ap_width y" using bit_ap_value assms(2) by blast
    have n: "off + n - ap_width y = n - (ap_width y - off)" "\<not> n < ap_width y - off \<Longrightarrow>
        n - (ap_width y - off) < w + off - ap_width y \<longleftrightarrow> n < w" using assms(3,4) by linarith+
    show "bit (ap_value (bv_extract off w (bv_concat x y))) n \<longleftrightarrow>
      bit (ap_value (bv_concat (bv_extract 0 (w + off - ap_width y) x) (bv_extract off (ap_width y - off) y))) n"
      using assms(3-5) y n by (cases "n < ap_width y - off") (auto simp: bv_extract_def bv_concat_def bit_simps)
  qed
qed

lemma bv_concat_extract:
  assumes "ro + rw = lo"
  shows "bv_concat (bv_extract lo lw x) (bv_extract ro rw x) = bv_extract ro (lw + rw) x"
  using assms by (auto simp: bv_extract_def bv_concat_def mk_ap_def bit_simps algebra_simps intro!: bit_eqI)

lemma bv_zext_trunc: "ap_ok x \<Longrightarrow> w \<le> ap_width x \<Longrightarrow> bv_extract 0 w x = bv_cast k w x"
  by (cases k) (auto simp: bv_extract_def bv_zext_def bv_sext_def mk_ap_eq ap_signed_def bit_simps intro!: bit_eqI)

lemma bv_cast_same: "ap_ok x \<Longrightarrow> bv_cast k (ap_width x) x = x"
  using bv_zext_trunc [of x "ap_width x" k] by (simp add: bv_extract_all)

context llvm_apint
begin

subsection \<open>Extract and Concat\<close>

lemma Concat_step:
  assumes "wt H l" "wt H r"
    and IH: "\<And>el lo lw ro rw. l = ExtractExpr el lo lw \<Longrightarrow> r = ExtractExpr el ro rw \<Longrightarrow> ro + rw = lo \<Longrightarrow>
      denotes H \<rho> (ExtractExpr_create A el ro (lw + rw)) (bv_extract ro (lw + rw) (sem \<rho> el))"
  shows "denotes H \<rho> (ConcatExpr_create A l r) (bv_concat (sem \<rho> l) (sem \<rho> r))"
proof -
  consider el lo lw er ro rw where "l = ExtractExpr el lo lw" "r = ExtractExpr er ro rw" "el = er" "ro + rw = lo"
    | x y where "l = ConstantExpr x" "r = ConstantExpr y"
    | "ConcatExpr_create A l r = Some (ConcatExpr l r)"
  proof (cases "\<exists>el lo lw er ro rw. l = ExtractExpr el lo lw \<and> r = ExtractExpr er ro rw \<and> el = er \<and> ro + rw = lo")
    case False
    have "ConcatExpr_create A l r = Some (ConcatExpr l r)" if "\<nexists>x y. l = ConstantExpr x \<and> r = ConstantExpr y"
      using that False assms(1,2) expr_eq_iff [of H]
      by (cases l; cases r) (auto simp: ConcatExpr_create.simps)
    then show thesis using that by blast
  qed (use that in blast)
  then show ?thesis
  proof cases
    case 1
    then have "expr_eq A el er" using assms(1,2) expr_eq_iff [of H el er] by simp
    then have "ConcatExpr_create A l r = ExtractExpr_create A el ro (lw + rw)"
      using 1 by (simp add: ConcatExpr_create.simps)
    then show ?thesis using IH [of el lo lw ro rw] 1 bv_concat_extract [of ro rw lo lw "sem \<rho> el"] by simp
  next
    case 2
    then show ?thesis using assms(1,2) ap_ok_pos [of x]
      by (simp add: ConcatExpr_create.simps bv_concat_def)
  next
    case 3
    then show ?thesis using assms(1,2) by simp
  qed
qed

lemma Extract_step:
  assumes e: "wt H e" "0 < w" "off + w \<le> getWidth e"
    and hi: "\<And>l r. e = ConcatExpr l r \<Longrightarrow> w \<noteq> getWidth e \<Longrightarrow> getWidth r \<le> off \<Longrightarrow>
      denotes H \<rho> (ExtractExpr_create A l (off - getWidth r) w) (bv_extract (off - getWidth r) w (sem \<rho> l))"
    and lo: "\<And>l r. e = ConcatExpr l r \<Longrightarrow> w \<noteq> getWidth e \<Longrightarrow> off < getWidth r \<Longrightarrow> off + w \<le> getWidth r \<Longrightarrow>
      denotes H \<rho> (ExtractExpr_create A r off w) (bv_extract off w (sem \<rho> r))"
    and both: "\<And>l r. e = ConcatExpr l r \<Longrightarrow> w \<noteq> getWidth e \<Longrightarrow> off < getWidth r \<Longrightarrow> getWidth r < off + w \<Longrightarrow>
      denotes H \<rho> (do { x \<leftarrow> ExtractExpr_create A l 0 (w + off - getWidth r);
                     y \<leftarrow> ExtractExpr_create A r off (getWidth r - off);
                     ConcatExpr_create A x y })
        (bv_concat (bv_extract 0 (w + off - getWidth r) (sem \<rho> l)) (bv_extract off (getWidth r - off) (sem \<rho> r)))"
  shows "denotes H \<rho> (ExtractExpr_create A e off w) (bv_extract off w (sem \<rho> e))"
proof (cases "w = getWidth e")
  case True
  then have "off = 0" using e by simp
  then show ?thesis using True e by (subst ExtractExpr_create.simps) (simp add: bv_extract_all)
next
  case False
  show ?thesis
  proof (cases e)
    case (ConcatExpr l r)
    have lr: "wt H l" "wt H r" using e(1) ConcatExpr by simp_all
    have e3: "off + w \<le> getWidth l + getWidth r" using e(3) ConcatExpr by simp
    consider "getWidth r \<le> off" | "off < getWidth r" "off + w \<le> getWidth r"
      | "off < getWidth r" "getWidth r < off + w" by linarith
    then show ?thesis
    proof cases
      case 1
      then have "ExtractExpr_create A e off w = ExtractExpr_create A l (off - getWidth r) w"
        using e False ConcatExpr by (subst ExtractExpr_create.simps) simp
      then show ?thesis using hi [OF ConcatExpr False 1] ConcatExpr 1 e3 lr
          bv_extract_concat_high [of "sem \<rho> l" "sem \<rho> r" off w] by simp
    next
      case 2
      then have "ExtractExpr_create A e off w = ExtractExpr_create A r off w"
        using e False ConcatExpr by (subst ExtractExpr_create.simps) simp
      then show ?thesis using lo [OF ConcatExpr False 2] ConcatExpr 2 lr
          bv_extract_concat_low [of "sem \<rho> l" "sem \<rho> r" off w] by simp
    next
      case 3
      then show ?thesis
        using both [OF ConcatExpr False 3] bv_extract_concat_both [of "sem \<rho> l" "sem \<rho> r" off w]
          e(2) False lr e3 ConcatExpr
        by (subst ExtractExpr_create.simps) simp
    qed
  qed (use e False in \<open>simp_all add: ExtractExpr_create.simps bv_extract_def\<close>)
qed

lemma Extract_Concat_sound:
  "A' = A \<Longrightarrow> wt H e \<Longrightarrow> 0 < w \<Longrightarrow> off + w \<le> getWidth e \<Longrightarrow>
     denotes H \<rho> (ExtractExpr_create A' e off w) (bv_extract off w (sem \<rho> e))"
  "A' = A \<Longrightarrow> wt H l \<Longrightarrow> wt H r \<Longrightarrow>
     denotes H \<rho> (ConcatExpr_create A' l r) (bv_concat (sem \<rho> l) (sem \<rho> r))"
proof (induction A' e off w and A' l r rule: ExtractExpr_create_ConcatExpr_create.induct)
  case (1 A' e off w)
  show ?case unfolding "1.prems"(1)
  proof (rule Extract_step [OF "1.prems"(2-4)], goal_cases)
    case (1 l r)
    then show ?case using "1.IH"(1) [OF _ 1(2,1,3)] "1.prems" by simp
  next
    case (2 l r)
    then show ?case using "1.IH"(2) [OF _ 2(2,1)] "1.prems" by simp
  next
    case (3 l r)
    obtain x where x: "ExtractExpr_create A l 0 (w + off - getWidth r) = Some x" "wt H x"
       "sem \<rho> x = bv_extract 0 (w + off - getWidth r) (sem \<rho> l)"
      using "1.IH"(3) [OF _ 3(2,1)] "1.prems" 3 by (auto simp: denotes_def le_diff_conv add.commute)
    obtain y where y: "ExtractExpr_create A r off (getWidth r - off) = Some y" "wt H y"
       "sem \<rho> y = bv_extract off (getWidth r - off) (sem \<rho> r)"
      using "1.IH"(4) [OF _ 3(2,1)] "1.prems" 3 x by (auto simp: denotes_def)
    have "denotes H \<rho> (ConcatExpr_create A x y) (bv_concat (sem \<rho> x) (sem \<rho> y))"
      using "1.IH"(5) [OF _ 3(2,1), of x y] "1.prems" 3 x y by simp
    then show ?case using x y by simp
  qed
next
  case (2 A' l r)
  show ?case unfolding "2.prems"(1)
  proof (rule Concat_step [OF "2.prems"(2,3)], goal_cases)
    case (1 el lo lw ro rw)
    then show ?case using "2.IH" [of l r el lo lw el ro rw] "2.prems" expr_eq_iff [of H el el] by simp
  qed
qed

lemmas ExtractExpr_create_sound = Extract_Concat_sound(1) [OF refl]
lemmas ConcatExpr_create_sound = Extract_Concat_sound(2) [OF refl]

lemma CastExpr_create_sound:
  assumes "wt H e" "0 < w"
  shows "denotes H \<rho> (CastExpr_create A k e w) (bv_cast k w (sem \<rho> e))"
proof -
  consider "w = getWidth e" | "w < getWidth e" | "getWidth e < w" by linarith
  then show ?thesis
  proof cases
    case 1
    then show ?thesis using assms bv_cast_same [of "sem \<rho> e" k]
      by (cases k) (simp_all add: ZExtExpr_create_def SExtExpr_create_def)
  next
    case 2
    then show ?thesis
      using ExtractExpr_create_sound [OF assms, of 0 \<rho>] bv_zext_trunc [of "sem \<rho> e" w k] assms
      by (cases k) (simp_all add: ZExtExpr_create_def SExtExpr_create_def)
  next
    case 3
    then show ?thesis using assms 
      by (cases k; cases e) (simp_all add: ZExtExpr_create_def SExtExpr_create_def bv_zext_def bv_sext_def)
  qed
qed

lemma NotExpr_create_sound:
  "wt H e \<Longrightarrow> denotes H \<rho> (NotExpr_create A e) (bv_not (sem \<rho> e))"
  using ap_ok_pos wt_width_pos [of H e] by (cases e) (auto simp: NotExpr_create_def bv_not_def)

end

subsection \<open>Select, Read\<close>

lemma case_not_Constant [simp]:
  "\<not> is_Constant e \<Longrightarrow> (case e of ConstantExpr c \<Rightarrow> f c | _ \<Rightarrow> g) = g"
  by (cases e) (simp_all add: is_Constant_def)

lemma is_Constant_simp [simp]: "is_Constant (ConstantExpr c)"
  by (simp add: is_Constant_def)

lemma Constant_cases [case_names Constant other]:
  obtains c where "e = ConstantExpr c" | "\<not> is_Constant e"
  by (cases e) (simp_all add: is_Constant_def)

context expr_creation
begin

lemma SelectExpr_create_sound:
  assumes "wt H c" "wt H t" "wt H f" "getWidth c = 1" "getWidth t = getWidth f"
  shows "denotes H \<rho> (SelectExpr_create G c t f) (if ap_value (sem \<rho> c) \<noteq> 0 then sem \<rho> t else sem \<rho> f)"
proof -
  obtain b where b: "sem \<rho> c = bv_bool b" using assms(1,4) wt_bool_cases by metis
  consider (const) x where "c = ConstantExpr x" | (same) "\<not> is_Constant c" "t = f" 
    | (bool) "\<not> is_Constant c" "t \<noteq> f" "getWidth t = 1" | (other) "\<not> is_Constant c" "t \<noteq> f" "getWidth t \<noteq> 1"
    by (metis Constant_cases)
  then show ?thesis
  proof cases
    case const
    then show ?thesis using assms b by (auto simp: SelectExpr_create_def)
  next
    case same
    then show ?thesis using assms expr_eq_iff [of H t f]
      by (simp add: SelectExpr_create_def)
  next
    case other
    then show ?thesis using assms expr_eq_iff [of H t f]
      by (simp add: SelectExpr_create_def)
  next
    case bool
    obtain v u where vu: "sem \<rho> t = bv_bool v" "sem \<rho> f = bv_bool u"
      by (rule wt_bool_cases2 [OF assms(2,3,5) bool(3)])
    have w: "getWidth t = 1" "getWidth f = 1" using bool(3) assms(5) by simp_all
    note n = negated_left [OF assms(1,3,4) w(2) b vu(2)] negated_left [OF assms(1,2,4) w(1) b vu(1)]
    note o = OrExpr_create_sound [of H c f \<rho>] AndExpr_create_sound [of H c t \<rho>]
    have ne: "\<not> expr_eq (api G) t f" using bool assms expr_eq_iff [of H t f] by simp
    define res where "res = bv_bool (if b then v else u)"
    have "denotes H \<rho> (SelectExpr_create G c t f) res" if t: "t = ConstantExpr ct" for ct
    proof (cases v)
      case True
      then have "SelectExpr_create G c t f = OrExpr_create (api G) c f"
        using bool(1) assms(1-4) ne vu t w by (simp add: SelectExpr_create_def)
      then show ?thesis using o(1) assms w b vu True by (cases b) (simp_all add: res_def)
    next
      case False
      then have "SelectExpr_create G c t f = createIsZero G c \<bind> (\<lambda>nc. AndExpr_create (api G) nc f)"
        using bool(1) assms(1-4) ne vu t w by (simp add: SelectExpr_create_def)
      then show ?thesis using n(1) False by (cases b) (simp_all add: res_def)
    qed
    moreover have "denotes H \<rho> (SelectExpr_create G c t f) res" if t: "\<not> is_Constant t" "f = ConstantExpr cf" for cf
    proof (cases u)
      case True
      then have "SelectExpr_create G c t f = createIsZero G c \<bind> (\<lambda>nc. OrExpr_create (api G) nc t)"
        using bool(1) assms(1-4) ne vu t w by (simp add: SelectExpr_create_def)
      then show ?thesis using n(6) True by (cases b) (simp_all add: res_def)
    next
      case False
      then have "SelectExpr_create G c t f = AndExpr_create (api G) c t"
        using bool(1) assms(1-4) ne vu t w by (simp add: SelectExpr_create_def)
      then show ?thesis using o(2) assms w b vu False by (cases b) (simp_all add: res_def)
    qed
    moreover have "denotes H \<rho> (SelectExpr_create G c t f) res" if t: "\<not> is_Constant t" "\<not> is_Constant f"
    proof -
      have "SelectExpr_create G c t f = Some (SelectExpr c t f)"
        using bool(1) assms(1-4) ne vu t w by (simp add: SelectExpr_create_def)
      then show ?thesis using assms b vu by (simp add: res_def)
    qed
    ultimately have "denotes H \<rho> (SelectExpr_create G c t f) res"
      by (metis Constant_cases)
    then show ?thesis by (cases b) (simp_all add: res_def b vu)
  qed
qed

lemma concrete_index_eq:
  assumes "ap_ok c" "ap_width c \<le> 64"
  shows "concrete_index (api G) c = Some (nat (ap_value c))"
proof -
  have "0 \<le> ap_value c" "ap_value c < 2 ^ 64"
    using ap_value_bounds [OF assms(1)] power_increasing [OF assms(2), of "2 :: int"] by simp_all
  then have "unat (word_of_int (ap_value c) :: uint64) = nat (ap_value c)"
    by (simp add: unsigned_of_int take_bit_int_eq_self)
  then show ?thesis
    using assms by (simp add: concrete_index_def getZExtValue_def llvm_apint.getZExtValue [OF llvm_apint_axioms])
qed

text \<open>The walk over the update list stops at a value that the read has, or at a node from which
  the read has the value it has from the head.\<close>

lemma ReadExpr_scan_sound:
  assumes "array_ok H root" "wt H index" "getWidth index = arr_domain root"
  shows "wt_unode H root u \<Longrightarrow>
    (\<exists>v. ReadExpr_scan G index u = Some (ScanFound v) \<and> wt H v
       \<and> sem \<rho> v = sem_read \<rho> root u (sem \<rho> index)) \<or>
    (\<exists>un sw. ReadExpr_scan G index u = Some (ScanStop un sw) \<and> wt_unode H root un
       \<and> sem_read \<rho> root un (sem \<rho> index) = sem_read \<rho> root u (sem \<rho> index) \<and> (\<not> sw \<longrightarrow> un = NullNode))"
proof (induction "unode_size u" arbitrary: u)
  case (Suc n)
  then obtain nx ui uv where UpdateNode: "u = UpdateNode nx ui uv" "n = unode_size nx"
    by (cases u) auto
  note UpdateNode = UpdateNode Suc.prems Suc.hyps(1) [OF UpdateNode(2)]
  then have u: "wt_unode H root nx" "wt H ui" "wt H uv" "getWidth ui = arr_domain root" by simp_all
  have w: "ap_width (sem \<rho> index) = ap_width (sem \<rho> ui)" using assms u by simp
  obtain e where e: "EqExpr_create G index ui = Some e" "wt H e"
      "sem \<rho> e = bv_bool (ap_value (sem \<rho> index) = ap_value (sem \<rho> ui))"
    using EqExpr_create_sound [of H index ui \<rho>] assms u bv_Eq [OF w] bv_value_inject [OF w]
    by (auto simp: denotes_def)
  show ?case
  proof (cases e rule: Constant_cases)
    case (Constant c)
    then show ?thesis using e u UpdateNode by (cases "ap_value (sem \<rho> index) = ap_value (sem \<rho> ui)") auto
  next
    case other
    then show ?thesis using e UpdateNode by auto
  qed
next
  case 0
  then have "u = NullNode" by (cases u) auto
  then show ?case by (auto intro: exI [of _ False])
qed

lemma ReadExpr_shorten_sound:
  assumes "array_ok H root" "wt H index" "getWidth index = arr_domain root" "wt_unode H root head" "wt_unode H root un"
    "sem_read \<rho> root un (sem \<rho> index) = sem_read \<rho> root head (sem \<rho> index)"
  shows "denotes H \<rho> (ReadExpr_shorten (api G) root head un index) (sem_read \<rho> root head (sem \<rho> index))"
proof (cases index rule: Constant_cases)
  case (Constant c)
  then show ?thesis
    using assms concrete_index_eq [of c] by (auto simp: ReadExpr_shorten_def array_ok_def)
qed (use assms in \<open>simp add: ReadExpr_shorten_def\<close>)

theorem ReadExpr_create_sound:
  assumes "array_ok H root" "wt_unode H root head" "wt H index" "getWidth index = arr_domain root"
  shows "denotes H \<rho> (ReadExpr_create G root head index) (sem_read \<rho> root head (sem \<rho> index))"
proof -
  consider v where "ReadExpr_scan G index head = Some (ScanFound v)" "wt H v"
      "sem \<rho> v = sem_read \<rho> root head (sem \<rho> index)"
    | un sw where "ReadExpr_scan G index head = Some (ScanStop un sw)" "wt_unode H root un"
      "sem_read \<rho> root un (sem \<rho> index) = sem_read \<rho> root head (sem \<rho> index)" "\<not> sw \<longrightarrow> un = NullNode"
    using ReadExpr_scan_sound [OF assms(1,3,4,2), of \<rho>] by blast
  then show ?thesis
  proof cases
    case 1
    then show ?thesis by (simp add: ReadExpr_create_def)
  next
    case 2
    note sh = ReadExpr_shorten_sound [OF assms(1,3,4,2) 2(2,3)]
    show ?thesis
    proof (cases "isConstantArray root \<and> \<not> sw \<and> is_Constant index")
      case True
      then obtain c where c: "index = ConstantExpr c" by (metis Constant_cases)
      have "denotes H \<rho> (map_option ConstantExpr (nth_opt (arr_constantValues root) (nat (ap_value c))))
          (sem_read \<rho> root head (sem \<rho> index))" if "nat (ap_value c) < arr_size root"
        using that True assms(1) 2(3) [symmetric] 2(4) c
        by (auto simp: denotes_def array_ok_def array_value_def isConstantArray_def)
      then show ?thesis
        using True 2(1) sh c assms concrete_index_eq [of c] by (simp add: ReadExpr_create_def array_ok_def)
    next
      case False
      then have "ReadExpr_create G root head index = ReadExpr_shorten (api G) root head un index"
        using 2(1) by (auto simp: ReadExpr_create_def)
      then show ?thesis using sh by simp
    qed
  qed
qed

end

subsection \<open>rebuild\<close>

text \<open>The value of a node from the values of its kids.\<close>

fun sem_node :: "assignment \<Rightarrow> expr \<Rightarrow> apint list \<Rightarrow> apint" where
  "sem_node \<rho> (NotOptimizedExpr _) [v] = v"
| "sem_node \<rho> (ReadExpr root head _) [i] = sem_read \<rho> root head i"
| "sem_node \<rho> (SelectExpr _ _ _) [c, t, f] = (if ap_value c \<noteq> 0 then t else f)"
| "sem_node \<rho> (ConcatExpr _ _) [l, r] = bv_concat l r"
| "sem_node \<rho> (ExtractExpr _ off w) [v] = bv_extract off w v"
| "sem_node \<rho> (CastExpr k _ w) [v] = bv_cast k w v"
| "sem_node \<rho> (NotExpr _) [v] = bv_not v"
| "sem_node \<rho> (BinaryExpr k _ _) [l, r] = bv_binary k l r"
| "sem_node \<rho> e _ = sem \<rho> e"

lemma sem_node_kids: "sem_node \<rho> e (map (sem \<rho>) (kids e)) = sem \<rho> e"
  by (cases e) simp_all

definition div_ok :: "assignment \<Rightarrow> expr \<Rightarrow> expr list \<Rightarrow> bool" where
  "div_ok \<rho> e ks \<longleftrightarrow> (case e of BinaryExpr k _ _ \<Rightarrow> div_kind k \<longrightarrow> ap_value (sem \<rho> (ks ! 1)) \<noteq> 0 | _ \<Rightarrow> True)"

context expr_creation
begin

theorem rebuild_sound:
  assumes "wt H e" "\<not> is_Constant e" "map getWidth ks = map getWidth (kids e)" "\<forall>k \<in> set ks. wt H k" "div_ok \<rho> e ks"
  shows "denotes H \<rho> (rebuild G e ks) (sem_node \<rho> e (map (sem \<rho>) ks))"
proof (cases e)
  case (ConstantExpr c)
  then show ?thesis using assms(2) by simp
next
  case (CastExpr k src w)
  then show ?thesis using assms CastExpr_create_sound [of H "hd ks" w \<rho> k] wt_width_pos [OF assms(1)]
    by (auto simp: map_eq_Cons_conv)
next
  case (BinaryExpr k l r)
  then show ?thesis using assms BinaryExpr_create_sound [of H "hd ks" "ks ! 1" k \<rho>]
    by (auto simp: map_eq_Cons_conv div_ok_def)
next
  case (SelectExpr c t f)
  then show ?thesis using assms SelectExpr_create_sound [of H "hd ks" "ks ! 1" "ks ! 2" \<rho>]
    by (auto simp: map_eq_Cons_conv)
next
  case (ExtractExpr x off w)
  then show ?thesis using assms ExtractExpr_create_sound [of H "hd ks" w off \<rho>]
    by (auto simp: map_eq_Cons_conv)
qed (use assms in \<open>auto simp: map_eq_Cons_conv NotOptimizedExpr_create_def
      intro: ReadExpr_create_sound ConcatExpr_create_sound NotExpr_create_sound\<close>)

end

end
