(* ===== verification/ExprEval.thy ===== *)
theory ExprEval
  imports ExprSoundShape
begin

text \<open>
  \<open>ExprVisitor.cpp\<close>, \<open>ExprEvaluator.cpp\<close> and \<open>Assignment.h/.cpp\<close>: evaluation of an expression
  under an assignment of bytes to arrays.

  The evaluator is a visitor that is not \<open>recursive\<close>, so a visit is a structural recursion.  The
  hash table of visited expressions only avoids repeated work and is left out: a visit has no
  effect, and its keys are compared structurally.
\<close>

subsection \<open>ExprVisitor\<close>

datatype action = SkipChildren | DoChildren | ChangeTo expr

text \<open>
  \<open>visitActual\<close> of a node \<open>e\<close> that is not a constant: \<open>pre\<close> is the result of \<open>visitExpr\<close>,
  \<open>act\<close> that of the method for the kind, \<open>ks\<close> the visited kids and \<open>post\<close> the method
  \<open>visitExprPost\<close>.
\<close>

definition visit_children ::
  "expr_env \<Rightarrow> (expr \<Rightarrow> action) \<Rightarrow> expr \<Rightarrow> expr list \<Rightarrow> expr option" where
  "visit_children G post e ks = do {
     e' \<leftarrow> (if list_all2 (expr_eq (api G)) ks (kids e) then Some e else rebuild G e ks);
     (if is_Constant e' then Some e'
      else case post e' of ChangeTo x \<Rightarrow> Some x | _ \<Rightarrow> Some e') }"

definition visitActual ::
  "expr_env \<Rightarrow> (expr \<Rightarrow> action) \<Rightarrow> expr \<Rightarrow> action option \<Rightarrow> action option \<Rightarrow> expr list option \<Rightarrow> expr option" where
  "visitActual G post e pre act ks =
     (case pre of
        None \<Rightarrow> None
      | Some SkipChildren \<Rightarrow> Some e
      | Some (ChangeTo x) \<Rightarrow> Some x
      | Some DoChildren \<Rightarrow>
          (case act of
             None \<Rightarrow> None
           | Some SkipChildren \<Rightarrow> Some e
           | Some (ChangeTo x) \<Rightarrow> Some x
           | Some DoChildren \<Rightarrow> ks \<bind> visit_children G post e))"

subsection \<open>ExprEvaluator\<close>

definition ExprEvaluator_visitExpr :: "expr_env \<Rightarrow> expr \<Rightarrow> action option" where
  "ExprEvaluator_visitExpr G e =
     (if kids e = [] \<or> getKind e = 3 then Some DoChildren
      else if list_all is_Constant (kids e) then map_option ChangeTo (rebuild G e (kids e))
      else Some DoChildren)"

definition ExprEvaluator_visitExprPost :: "expr \<Rightarrow> action" where
  "ExprEvaluator_visitExprPost e =
     (case e of NotOptimizedExpr src \<Rightarrow> ChangeTo src | _ \<Rightarrow> SkipChildren)"

text \<open>\<open>l'\<close> and \<open>r'\<close> are the results of visiting the operands.\<close>

definition protectedDivOperation ::
  "expr_env \<Rightarrow> binkind \<Rightarrow> expr \<Rightarrow> expr \<Rightarrow> expr option \<Rightarrow> expr option \<Rightarrow> action option" where
  "protectedDivOperation G k l r l' r' = do {
     kl \<leftarrow> l';
     kr \<leftarrow> r';
     let kr = (if isZero (api G) kr then r else kr) in
     if \<not> expr_eq (api G) kl l \<or> \<not> expr_eq (api G) kr r
     then map_option ChangeTo (rebuild G (BinaryExpr k l r) [kl, kr])
     else Some SkipChildren }"

text \<open>The index of a read is passed as an \<open>unsigned\<close>.\<close>

definition read_index :: "apint_ops \<Rightarrow> apint \<Rightarrow> nat option" where
  "read_index A c = map_option (\<lambda>z. unat (ucast z :: uint32)) (getZExtValue A c 64)"

fun ExprEvaluator_visit ::
  "expr_env \<Rightarrow> (array \<Rightarrow> nat \<Rightarrow> expr option) \<Rightarrow> expr \<Rightarrow> expr option"
  and ExprEvaluator_evalRead ::
  "expr_env \<Rightarrow> (array \<Rightarrow> nat \<Rightarrow> expr option) \<Rightarrow> array \<Rightarrow> unode \<Rightarrow> nat \<Rightarrow> expr option" where
  "ExprEvaluator_visit G giv (ConstantExpr c) = Some (ConstantExpr c)"
| "ExprEvaluator_visit G giv (ReadExpr root head index) =
     (let e = ReadExpr root head index; v = ExprEvaluator_visit G giv index in
      visitActual G ExprEvaluator_visitExprPost e (ExprEvaluator_visitExpr G e)
        (do { v' \<leftarrow> v;
              (case v' of
                 ConstantExpr c \<Rightarrow> do {
                   i \<leftarrow> read_index (api G) c;
                   map_option ChangeTo (ExprEvaluator_evalRead G giv root head i) }
               | _ \<Rightarrow> Some DoChildren) })
        (map_option (\<lambda>v'. [v']) v))"
| "ExprEvaluator_visit G giv (NotOptimizedExpr src) =
     (let e = NotOptimizedExpr src in
      visitActual G ExprEvaluator_visitExprPost e (ExprEvaluator_visitExpr G e) (Some DoChildren)
        (do { k \<leftarrow> ExprEvaluator_visit G giv src; Some [k] }))"
| "ExprEvaluator_visit G giv (SelectExpr c t f) =
     (let e = SelectExpr c t f in
      visitActual G ExprEvaluator_visitExprPost e (ExprEvaluator_visitExpr G e) (Some DoChildren)
        (do { k0 \<leftarrow> ExprEvaluator_visit G giv c; k1 \<leftarrow> ExprEvaluator_visit G giv t;
              k2 \<leftarrow> ExprEvaluator_visit G giv f; Some [k0, k1, k2] }))"
| "ExprEvaluator_visit G giv (ConcatExpr l r) =
     (let e = ConcatExpr l r in
      visitActual G ExprEvaluator_visitExprPost e (ExprEvaluator_visitExpr G e) (Some DoChildren)
        (do { k0 \<leftarrow> ExprEvaluator_visit G giv l; k1 \<leftarrow> ExprEvaluator_visit G giv r; Some [k0, k1] }))"
| "ExprEvaluator_visit G giv (ExtractExpr x off w) =
     (let e = ExtractExpr x off w in
      visitActual G ExprEvaluator_visitExprPost e (ExprEvaluator_visitExpr G e) (Some DoChildren)
        (do { k \<leftarrow> ExprEvaluator_visit G giv x; Some [k] }))"
| "ExprEvaluator_visit G giv (CastExpr c x w) =
     (let e = CastExpr c x w in
      visitActual G ExprEvaluator_visitExprPost e (ExprEvaluator_visitExpr G e) (Some DoChildren)
        (do { k \<leftarrow> ExprEvaluator_visit G giv x; Some [k] }))"
| "ExprEvaluator_visit G giv (NotExpr x) =
     (let e = NotExpr x in
      visitActual G ExprEvaluator_visitExprPost e (ExprEvaluator_visitExpr G e) (Some DoChildren)
        (do { k \<leftarrow> ExprEvaluator_visit G giv x; Some [k] }))"
| "ExprEvaluator_visit G giv (BinaryExpr k l r) =
     (let e = BinaryExpr k l r; l' = ExprEvaluator_visit G giv l; r' = ExprEvaluator_visit G giv r in
      visitActual G ExprEvaluator_visitExprPost e (ExprEvaluator_visitExpr G e)
        (if k = UDiv \<or> k = SDiv \<or> k = URem \<or> k = SRem
         then protectedDivOperation G k l r l' r' else Some DoChildren)
        (do { k0 \<leftarrow> l'; k1 \<leftarrow> r'; Some [k0, k1] }))"
| "ExprEvaluator_evalRead G giv root NullNode index =
     (if isConstantArray root \<and> index < arr_size root
      then map_option ConstantExpr (nth_opt (arr_constantValues root) index)
      else giv root index)"
| "ExprEvaluator_evalRead G giv root (UpdateNode nx ui uv) index = do {
     u \<leftarrow> ExprEvaluator_visit G giv ui;
     (case u of
        ConstantExpr c \<Rightarrow> do {
          z \<leftarrow> getZExtValue (api G) c 64;
          if unat z = index then ExprEvaluator_visit G giv uv
          else ExprEvaluator_evalRead G giv root nx index }
      | _ \<Rightarrow> ReadExpr_create G root (UpdateNode nx ui uv)
               (ConstantExpr (ConstantExpr_alloc_u64 (api G) (of_nat index) (arr_domain root)))) }"

subsection \<open>Assignment\<close>

text \<open>
  The bindings in the order in which the map iterates, that of the arrays' addresses.
\<close>

record Assignment =
  allowFreeValues :: bool
  bindings :: "(array \<times> 8 word list) list"

text \<open>\<open>std::map::insert\<close> keeps the value of a key that is present.\<close>

fun bindings_insert :: "array \<Rightarrow> 8 word list \<Rightarrow> (array \<times> 8 word list) list \<Rightarrow> (array \<times> 8 word list) list" where
  "bindings_insert a v [] = [(a, v)]"
| "bindings_insert a v ((b, w) # bs) =
     (if arr_addr a < arr_addr b then (a, v) # (b, w) # bs
      else if arr_addr a = arr_addr b then (b, w) # bs
      else (b, w) # bindings_insert a v bs)"

fun Assignment_new_loop ::
  "array list \<Rightarrow> 8 word list list \<Rightarrow> (array \<times> 8 word list) list \<Rightarrow> (array \<times> 8 word list) list option" where
  "Assignment_new_loop [] vs bs = Some bs"
| "Assignment_new_loop (os # objects) [] bs = None"
| "Assignment_new_loop (os # objects) (arr # vs) bs =
     Assignment_new_loop objects vs (bindings_insert os arr bs)"

definition Assignment_new :: "array list \<Rightarrow> 8 word list list \<Rightarrow> bool \<Rightarrow> Assignment option" where
  "Assignment_new objects values free =
     map_option (\<lambda>bs. \<lparr>allowFreeValues = free, bindings = bs\<rparr>) (Assignment_new_loop objects values [])"

fun bindings_find :: "array \<Rightarrow> (array \<times> 8 word list) list \<Rightarrow> 8 word list option" where
  "bindings_find a [] = None"
| "bindings_find a ((b, v) # bs) = (if arr_addr a = arr_addr b then Some v else bindings_find a bs)"

definition byte64 :: "8 word \<Rightarrow> uint64" where "byte64 b = ucast b"

definition Assignment_evaluate_index ::
  "expr_env \<Rightarrow> Assignment \<Rightarrow> array \<Rightarrow> nat \<Rightarrow> expr option" where
  "Assignment_evaluate_index G a array index =
     (case bindings_find array (bindings a) of
        Some bytes \<Rightarrow>
          if index < length bytes
          then Some (ConstantExpr (ConstantExpr_alloc_u64 (api G) (byte64 (bytes ! index)) (arr_range array)))
          else if allowFreeValues a
          then ReadExpr_create G array NullNode
                 (ConstantExpr (ConstantExpr_alloc_u64 (api G) (of_nat index) (arr_domain array)))
          else Some (ConstantExpr (ConstantExpr_alloc_u64 (api G) 0 (arr_range array)))
      | None \<Rightarrow>
          if allowFreeValues a
          then ReadExpr_create G array NullNode
                 (ConstantExpr (ConstantExpr_alloc_u64 (api G) (of_nat index) (arr_domain array)))
          else Some (ConstantExpr (ConstantExpr_alloc_u64 (api G) 0 (arr_range array))))"

definition Assignment_evaluate :: "expr_env \<Rightarrow> Assignment \<Rightarrow> expr \<Rightarrow> expr option" where
  "Assignment_evaluate G a e = ExprEvaluator_visit G (Assignment_evaluate_index G a) e"

fun Assignment_satisfies :: "expr_env \<Rightarrow> Assignment \<Rightarrow> expr list \<Rightarrow> bool option" where
  "Assignment_satisfies G a [] = Some True"
| "Assignment_satisfies G a (c # cs) = do {
     v \<leftarrow> Assignment_evaluate G a c;
     t \<leftarrow> isTrue (api G) v;
     if \<not> t then Some False else Assignment_satisfies G a cs }"

fun createConstraints_array ::
  "expr_env \<Rightarrow> array \<Rightarrow> 8 word list \<Rightarrow> nat \<Rightarrow> nat \<Rightarrow> expr list \<Rightarrow> expr list option" where
  "createConstraints_array G array values 0 i out = Some out"
| "createConstraints_array G array values (Suc n) i out = do {
     value \<leftarrow> nth_opt values i;
     rd \<leftarrow> ReadExpr_create G array NullNode
             (ConstantExpr (ConstantExpr_alloc_u64 (api G) (of_nat i) (arr_domain array)));
     e \<leftarrow> EqExpr_create G rd (ConstantExpr (ConstantExpr_alloc_u64 (api G) (byte64 value) (arr_range array)));
     createConstraints_array G array values n (Suc i) (out @ [e]) }"

fun createConstraints_loop ::
  "expr_env \<Rightarrow> (array \<times> 8 word list) list \<Rightarrow> expr list \<Rightarrow> expr list option" where
  "createConstraints_loop G [] out = Some out"
| "createConstraints_loop G ((array, values) # bs) out = do {
     out' \<leftarrow> createConstraints_array G array values (arr_size array) 0 out;
     createConstraints_loop G bs out' }"

definition createConstraintsFromAssignment :: "expr_env \<Rightarrow> Assignment \<Rightarrow> expr list \<Rightarrow> expr list option" where
  "createConstraintsFromAssignment G a out =
     check (out = []) (createConstraints_loop G (bindings a) out)"

end
