(* ===== verification/ExprEvalSound.thy ===== *)
theory ExprEvalSound
  imports ExprEval
begin

text \<open>
  The evaluator returns an expression with the value of the one it visits, and a constant when
  the initial values are constants; hence evaluation under an assignment computes the value of
  the expression, \<open>satisfies\<close> decides the constraints, and the constraints made from an
  assignment hold exactly under the assignments that agree with it.
\<close>


subsection \<open>What an evaluation needs\<close>

text \<open>
  No divisor is 0 and the indices of the arrays that are read fit an \<open>unsigned\<close> (\<open>evaluable\<close>);
  no \<open>NotOptimizedExpr\<close> has a constant as its operand (\<open>folds\<close>).
\<close>

fun evaluable :: "assignment \<Rightarrow> expr \<Rightarrow> bool"
  and evaluable_unode :: "assignment \<Rightarrow> unode \<Rightarrow> bool" where
  "evaluable \<rho> (ConstantExpr c) = True"
| "evaluable \<rho> (NotOptimizedExpr e) = evaluable \<rho> e"
| "evaluable \<rho> (ReadExpr root head index) =
     (arr_domain root \<le> 32 \<and> evaluable_unode \<rho> head \<and> evaluable \<rho> index)"
| "evaluable \<rho> (SelectExpr c t f) = (evaluable \<rho> c \<and> evaluable \<rho> t \<and> evaluable \<rho> f)"
| "evaluable \<rho> (ConcatExpr l r) = (evaluable \<rho> l \<and> evaluable \<rho> r)"
| "evaluable \<rho> (ExtractExpr e off w) = evaluable \<rho> e"
| "evaluable \<rho> (CastExpr k e w) = evaluable \<rho> e"
| "evaluable \<rho> (NotExpr e) = evaluable \<rho> e"
| "evaluable \<rho> (BinaryExpr k l r) =
     (evaluable \<rho> l \<and> evaluable \<rho> r \<and> (div_kind k \<longrightarrow> ap_value (sem \<rho> r) \<noteq> 0))"
| "evaluable_unode \<rho> NullNode = True"
| "evaluable_unode \<rho> (UpdateNode nx index value) =
     (evaluable_unode \<rho> nx \<and> evaluable \<rho> index \<and> evaluable \<rho> value)"

fun folds :: "expr \<Rightarrow> bool" and folds_unode :: "unode \<Rightarrow> bool" where
  "folds (ConstantExpr c) = True"
| "folds (NotOptimizedExpr e) = (folds e \<and> \<not> is_Constant e)"
| "folds (ReadExpr root head index) = (folds_unode head \<and> folds index)"
| "folds (SelectExpr c t f) = (folds c \<and> folds t \<and> folds f)"
| "folds (ConcatExpr l r) = (folds l \<and> folds r)"
| "folds (ExtractExpr e off w) = folds e"
| "folds (CastExpr k e w) = folds e"
| "folds (NotExpr e) = folds e"
| "folds (BinaryExpr k l r) = (folds l \<and> folds r)"
| "folds_unode NullNode = True"
| "folds_unode (UpdateNode nx index value) = (folds_unode nx \<and> folds index \<and> folds value)"

text \<open>Every read is at a byte of \<open>C\<close>, or at a byte of a constant array.\<close>

fun reads_at :: "(array \<Rightarrow> nat \<Rightarrow> bool) \<Rightarrow> assignment \<Rightarrow> expr \<Rightarrow> bool"
  and reads_at_unode :: "(array \<Rightarrow> nat \<Rightarrow> bool) \<Rightarrow> assignment \<Rightarrow> unode \<Rightarrow> bool" where
  "reads_at C \<rho> (ConstantExpr c) = True"
| "reads_at C \<rho> (NotOptimizedExpr e) = reads_at C \<rho> e"
| "reads_at C \<rho> (ReadExpr root head index) =
     ((let i = nat (ap_value (sem \<rho> index)) in isConstantArray root \<and> i < arr_size root \<or> C root i)
      \<and> reads_at_unode C \<rho> head \<and> reads_at C \<rho> index)"
| "reads_at C \<rho> (SelectExpr c t f) = (reads_at C \<rho> c \<and> reads_at C \<rho> t \<and> reads_at C \<rho> f)"
| "reads_at C \<rho> (ConcatExpr l r) = (reads_at C \<rho> l \<and> reads_at C \<rho> r)"
| "reads_at C \<rho> (ExtractExpr e off w) = reads_at C \<rho> e"
| "reads_at C \<rho> (CastExpr k e w) = reads_at C \<rho> e"
| "reads_at C \<rho> (NotExpr e) = reads_at C \<rho> e"
| "reads_at C \<rho> (BinaryExpr k l r) = (reads_at C \<rho> l \<and> reads_at C \<rho> r)"
| "reads_at_unode C \<rho> NullNode = True"
| "reads_at_unode C \<rho> (UpdateNode nx index value) =
     (reads_at_unode C \<rho> nx \<and> reads_at C \<rho> index \<and> reads_at C \<rho> value)"

lemma reads_at_all: "reads_at (\<lambda>_ _. True) \<rho> e" "reads_at_unode (\<lambda>_ _. True) \<rho> u"
  by (induction e and u) auto

lemma div_ok_kids: "evaluable \<rho> e \<Longrightarrow> map (sem \<rho>) ks = map (sem \<rho>) (kids e) \<Longrightarrow> div_ok \<rho> e ks"
  by (cases e) (auto simp: div_ok_def)

lemma wt_kids: "wt H e \<Longrightarrow> k \<in> set (kids e) \<Longrightarrow> wt H k"
  by (cases e) auto

lemma same_sem_width:
  assumes "map (sem \<rho>) ks = map (sem \<rho>) ls" "\<forall>k \<in> set ks. wt H k" "\<forall>k \<in> set ls. wt H k"
  shows "map getWidth ks = map getWidth ls"
proof -
  have "map getWidth xs = map ap_width (map (sem \<rho>) xs)" if "\<forall>k \<in> set xs. wt H k" for xs
    using that by (auto simp: wt_sem_width [symmetric] simp del: wt_sem_width)
  then show ?thesis using assms by metis
qed

text \<open>The contract of \<open>getInitialValue\<close>.\<close>

definition initial_ok :: "(nat \<Rightarrow> array) \<Rightarrow> assignment \<Rightarrow> (array \<Rightarrow> nat \<Rightarrow> expr option) \<Rightarrow> bool" where
  "initial_ok H \<rho> giv \<longleftrightarrow> (\<forall>root i. array_ok H root \<longrightarrow> \<not> (isConstantArray root \<and> i < arr_size root) \<longrightarrow>
     i < 2 ^ arr_domain root \<longrightarrow> denotes H \<rho> (giv root i) (mk_ap (arr_range root) (\<rho> root i)))"

context expr_creation
begin

lemma visit_children_sound:
  assumes "wt H e" "\<not> is_Constant e" "evaluable \<rho> e" "\<forall>k \<in> set ks. wt H k" "map (sem \<rho>) ks = map (sem \<rho>) (kids e)"
  shows "denotes H \<rho> (visit_children G ExprEvaluator_visitExprPost e ks) (sem \<rho> e)"
proof -
  have "denotes H \<rho> (rebuild G e ks) (sem_node \<rho> e (map (sem \<rho>) ks))"
    using assms same_sem_width [OF assms(5,4)] wt_kids [OF assms(1)] div_ok_kids [OF assms(3,5)]
    by (intro rebuild_sound) auto
  then have "denotes H \<rho> (if list_all2 (expr_eq (api G)) ks (kids e) then Some e else rebuild G e ks) (sem \<rho> e)"
    using assms(1,5) sem_node_kids [of \<rho> e] by simp
  then show ?thesis unfolding visit_children_def
  proof (rule denotes_bind)
    fix x assume "wt H x" "sem \<rho> x = sem \<rho> e"
    then show "denotes H \<rho> (if is_Constant x then Some x
        else case ExprEvaluator_visitExprPost x of ChangeTo y \<Rightarrow> Some y | _ \<Rightarrow> Some x) (sem \<rho> e)"
      by (cases x) (simp_all add: ExprEvaluator_visitExprPost_def)
  qed
qed

lemma visitExpr_sound:
  assumes "wt H e" "\<not> is_Constant e" "evaluable \<rho> e"
  shows "ExprEvaluator_visitExpr G e = Some DoChildren \<or>
    (\<exists>x. ExprEvaluator_visitExpr G e = Some (ChangeTo x) \<and> wt H x \<and> sem \<rho> x = sem \<rho> e)"
proof -
  have "denotes H \<rho> (rebuild G e (kids e)) (sem \<rho> e)"
    using rebuild_sound [OF assms(1,2) refl _ div_ok_kids [OF assms(3) refl]] wt_kids [OF assms(1)]
    by (simp add: sem_node_kids)
  then show ?thesis by (auto simp: ExprEvaluator_visitExpr_def denotes_def)
qed

lemma visitActual_sound:
  assumes e: "wt H e" "\<not> is_Constant e" "evaluable \<rho> e"
    and act: "(\<exists>x. act = Some (ChangeTo x) \<and> wt H x \<and> sem \<rho> x = sem \<rho> e) \<or> act = Some SkipChildren
      \<or> act = Some DoChildren \<and> (\<exists>xs. ks = Some xs \<and> (\<forall>k \<in> set xs. wt H k) \<and> map (sem \<rho>) xs = map (sem \<rho>) (kids e))"
  shows "denotes H \<rho> (visitActual G ExprEvaluator_visitExprPost e (ExprEvaluator_visitExpr G e) act ks) (sem \<rho> e)"
  using visitExpr_sound [OF e] act visit_children_sound [OF e] e
  by (auto simp: visitActual_def)

lemma protectedDiv_sound:
  assumes e: "wt H (BinaryExpr k l r)" "evaluable \<rho> (BinaryExpr k l r)" "div_kind k"
    and l: "denotes H \<rho> l' (sem \<rho> l)" and r: "denotes H \<rho> r' (sem \<rho> r)"
  shows "(\<exists>x. protectedDivOperation G k l r l' r' = Some (ChangeTo x) \<and> wt H x
      \<and> sem \<rho> x = sem \<rho> (BinaryExpr k l r)) \<or> protectedDivOperation G k l r l' r' = Some SkipChildren"
proof -
  obtain kl kr where k: "l' = Some kl" "wt H kl" "sem \<rho> kl = sem \<rho> l" "r' = Some kr" "wt H kr" "sem \<rho> kr = sem \<rho> r"
    using l r by (auto simp: denotes_def)
  have nz: "ap_value (sem \<rho> kr) \<noteq> 0" using e k by simp
  then have "\<not> isZero (api G) kr" using k(5) by (cases kr) (simp_all add: isZero_def)
  moreover have "denotes H \<rho> (rebuild G (BinaryExpr k l r) [kl, kr]) (sem \<rho> (BinaryExpr k l r))"
    using BinaryExpr_create_sound [of H kl kr k \<rho>] e k nz
      wt_sem_width [of H kl \<rho>] wt_sem_width [of H kr \<rho>] wt_sem_width [of H l \<rho>] wt_sem_width [of H r \<rho>]
    by simp
  ultimately show ?thesis using k by (auto simp: protectedDivOperation_def denotes_def)
qed

lemma read_index_eq:
  assumes "ap_ok c" "ap_width c \<le> 32"
  shows "read_index (api G) c = Some (nat (ap_value c))"
proof -
  have b: "0 \<le> ap_value c" "ap_value c < 2 ^ 32"
    using ap_value_bounds [OF assms(1)] power_increasing [OF assms(2), of "2 :: int"] by simp_all
  then have "unat (ucast (word_of_int (ap_value c) :: uint64) :: uint32) = nat (ap_value c)"
    by (simp add: unsigned_of_int ucast_eq take_bit_int_eq_self)
  then show ?thesis
    using assms by (simp add: read_index_def getZExtValue_def llvm_apint.getZExtValue [OF llvm_apint_axioms])
qed

lemma getZExtValue_eq:
  assumes "ap_ok c" "ap_width c \<le> 64"
  shows "getZExtValue (api G) c 64 = Some (word_of_int (ap_value c)) \<and>
    unat (word_of_int (ap_value c) :: uint64) = nat (ap_value c)"
  using concrete_index_eq [OF assms] assms
  by (auto simp: concrete_index_def getZExtValue_def llvm_apint.getZExtValue [OF llvm_apint_axioms])

theorem visit_sound:
  assumes giv: "initial_ok H \<rho> giv"
  shows "wt H e \<Longrightarrow> evaluable \<rho> e \<Longrightarrow> denotes H \<rho> (ExprEvaluator_visit G giv e) (sem \<rho> e)"
    and "array_ok H root \<Longrightarrow> wt_unode H root u \<Longrightarrow> evaluable_unode \<rho> u \<Longrightarrow> i < 2 ^ arr_domain root \<Longrightarrow>
      denotes H \<rho> (ExprEvaluator_evalRead G giv root u i) (sem_read \<rho> root u (mk_ap (arr_domain root) (int i)))"
proof (induction e and u arbitrary: and root i)
  case (ReadExpr root head index)
  then have p: "array_ok H root" "wt_unode H root head" "wt H index" "getWidth index = arr_domain root"
     "arr_domain root \<le> 32" "evaluable_unode \<rho> head" "evaluable \<rho> index" by simp_all
  obtain v where v: "ExprEvaluator_visit G giv index = Some v" "wt H v" "sem \<rho> v = sem \<rho> index"
    using ReadExpr.IH(2) p by (auto simp: denotes_def)
  show ?case
  proof (cases v rule: Constant_cases)
    case (Constant c)
    then have c: "ap_ok c" "ap_width c = arr_domain root" "sem \<rho> index = c" 
      using v p wt_sem_width [of H index \<rho>] by auto
    have b: "0 \<le> ap_value c" "ap_value c < 2 ^ arr_domain root"
      using ap_value_bounds [OF c(1)] c(2) by simp_all
    have lt: "nat (ap_value c) < 2 ^ arr_domain root"
      using b by (metis nat_less_iff of_nat_numeral of_nat_power)
    have "mk_ap (arr_domain root) (int (nat (ap_value c))) = c" using b mk_ap_self [OF c(1)] c(2) by simp
    then have "denotes H \<rho> (ExprEvaluator_evalRead G giv root head (nat (ap_value c))) (sem \<rho> (ReadExpr root head index))"
      using ReadExpr.IH(1) [OF p(1,2,6) lt] c(3) by simp
    then show ?thesis
      using visitActual_sound [OF ReadExpr.prems(1) _ ReadExpr.prems(2)] v Constant read_index_eq [OF c(1)] c(2) p(5)
      by (auto simp: Let_def is_Constant_def denotes_def)
  next
    case other
    then show ?thesis
      using visitActual_sound [OF ReadExpr.prems(1) _ ReadExpr.prems(2)] v by (auto simp: Let_def is_Constant_def)
  qed
next
  case (NotOptimizedExpr x)
  then show ?case using visitActual_sound [of H "NotOptimizedExpr x" \<rho>]
    by (auto simp: Let_def is_Constant_def denotes_def)
next
  case (SelectExpr x y z)
  then obtain a b c where "ExprEvaluator_visit G giv x = Some a" "ExprEvaluator_visit G giv y = Some b"
    "ExprEvaluator_visit G giv z = Some c" "wt H a" "wt H b" "wt H c" "sem \<rho> a = sem \<rho> x" "sem \<rho> b = sem \<rho> y" "sem \<rho> c = sem \<rho> z"
    by (auto simp: denotes_def)
  then show ?case using visitActual_sound [OF SelectExpr.prems(1) _ SelectExpr.prems(2), of "Some DoChildren" "Some [a, b, c]"]
    by (simp add: Let_def is_Constant_def)
next
  case (ConcatExpr x y)
  then obtain a b where "ExprEvaluator_visit G giv x = Some a" "ExprEvaluator_visit G giv y = Some b"
    "wt H a" "wt H b" "sem \<rho> a = sem \<rho> x" "sem \<rho> b = sem \<rho> y"
    by (auto simp: denotes_def)
  then show ?case using visitActual_sound [OF ConcatExpr.prems(1) _ ConcatExpr.prems(2), of "Some DoChildren" "Some [a, b]"]
    by (simp add: Let_def is_Constant_def)
next
  case (ExtractExpr x off w)
  then show ?case using visitActual_sound [OF ExtractExpr.prems(1) _ ExtractExpr.prems(2)]
    by (auto simp: Let_def is_Constant_def denotes_def)
next
  case (CastExpr k x w)
  then show ?case using visitActual_sound [OF CastExpr.prems(1) _ CastExpr.prems(2)]
    by (auto simp: Let_def is_Constant_def denotes_def)
next
  case (NotExpr x)
  then show ?case using visitActual_sound [OF NotExpr.prems(1) _ NotExpr.prems(2)]
    by (auto simp: Let_def is_Constant_def denotes_def)
next
  case (BinaryExpr k x y)
  then have d: "denotes H \<rho> (ExprEvaluator_visit G giv x) (sem \<rho> x)" "denotes H \<rho> (ExprEvaluator_visit G giv y) (sem \<rho> y)"
    by simp_all
  then obtain a b where ab: "ExprEvaluator_visit G giv x = Some a" "ExprEvaluator_visit G giv y = Some b"
    "wt H a" "wt H b" "sem \<rho> a = sem \<rho> x" "sem \<rho> b = sem \<rho> y"
    by (auto simp: denotes_def)
  show ?case
    using visitActual_sound [OF BinaryExpr.prems(1) _ BinaryExpr.prems(2)] ab
      protectedDiv_sound [OF BinaryExpr.prems _ d]
    by (auto simp: is_Constant_def Let_def div_kind_def)
next
  case NullNode
  then show ?case using giv
    by (auto simp: initial_ok_def array_value_def denotes_def array_ok_def isConstantArray_def take_bit_int_eq_self)
next
  case (UpdateNode nx ui uv)
  then have p: "wt_unode H root nx" "wt H ui" "wt H uv" "getWidth ui = arr_domain root" "arr_domain root \<le> 64"
    by (simp_all add: array_ok_def)
  obtain u where u: "ExprEvaluator_visit G giv ui = Some u" "wt H u" "sem \<rho> u = sem \<rho> ui"
    using UpdateNode by (auto simp: denotes_def)
  have i: "take_bit (arr_domain root) (int i) = int i"
    using UpdateNode.prems(4) by (simp add: take_bit_int_eq_self)
  show ?case
  proof (cases u rule: Constant_cases)
    case (Constant c)
    then have c: "ap_ok c" "ap_width c = arr_domain root" "sem \<rho> ui = c" 
      using u p wt_sem_width [of H ui \<rho>] by auto
    have "0 \<le> ap_value c" using ap_value_bounds [OF c(1)] by simp
    then have eq: "nat (ap_value c) = i \<longleftrightarrow> ap_value c = int i" by auto
    show ?thesis using getZExtValue_eq [OF c(1)] c p u Constant UpdateNode.IH UpdateNode.prems i eq by auto
  next
    case other
    have "(of_nat i :: uint64) = word_of_int (int i)" by simp
    moreover have "int i < 2 ^ 64"
      using UpdateNode.prems(4) power_increasing [OF p(5), of "2 :: nat"]
      by (metis (mono_tags, lifting) le_trans not_le of_nat_less_iff of_nat_numeral of_nat_power one_le_numeral)
    ultimately have "uint (of_nat i :: uint64) = int i" by (simp add: unsigned_of_nat take_bit_nat_eq_self take_bit_int_eq_self)
    moreover have "0 < arr_domain root" using UpdateNode.prems(1) by (simp add: array_ok_def)
    ultimately show ?thesis
      using ReadExpr_create_sound [OF UpdateNode.prems(1,2), of "ConstantExpr (mk_ap (arr_domain root) (int i))" \<rho>] u other
      by simp
  qed
qed auto

end

subsection \<open>Constants fold\<close>

lemma BCREATE_R_const [simp]:
  "BCREATE_R A k pL pR st (ConstantExpr x) (ConstantExpr y) =
     check (ap_width x = ap_width y) (Some (ConstantExpr (ConstantExpr_binary A k x y)))"
  by (simp add: BCREATE_R_def)

lemma BCREATE_const [simp]:
  "BCREATE A k st (ConstantExpr x) (ConstantExpr y) =
     check (ap_width x = ap_width y \<and> \<not> division_traps A k y) (Some (ConstantExpr (ConstantExpr_binary A k x y)))"
  by (simp add: BCREATE_def check_def)

lemma EqExpr_const:
  "EqExpr_create G (ConstantExpr x) (ConstantExpr y) = Some e \<Longrightarrow> is_Constant e"
  by (auto simp: EqExpr_create_def CMPCREATE_T_def)

lemma BinaryExpr_create_const:
  "BinaryExpr_create G k (ConstantExpr x) (ConstantExpr y) = Some e \<Longrightarrow> is_Constant e"
  by (cases k)
    (auto simp: AddExpr_create.simps SubExpr_create.simps MulExpr_create_def UDivExpr_create_def SDivExpr_create_def
      URemExpr_create_def SRemExpr_create_def AndExpr_create_def OrExpr_create_def XorExpr_create_def
      ShlExpr_create_def LShrExpr_create_def AShrExpr_create_def EqExpr_create_def CMPCREATE_T_def CMPCREATE_def
      UltExpr_create_def UleExpr_create_def UgtExpr_create_def UgeExpr_create_def SltExpr_create_def
      SleExpr_create_def SgtExpr_create_def SgeExpr_create_def NeExpr_create_def bind_eq_Some_conv)

lemma ExtractExpr_create_const: "ExtractExpr_create A (ConstantExpr c) off w = Some e \<Longrightarrow> is_Constant e"
  by (auto simp: ExtractExpr_create.simps split: if_splits)

lemma CastExpr_create_const: "CastExpr_create A k (ConstantExpr c) w = Some e \<Longrightarrow> is_Constant e"
  by (cases k) (auto simp: ZExtExpr_create_def SExtExpr_create_def dest: ExtractExpr_create_const split: if_splits)

lemma rebuild_length: "rebuild G e ks = Some x \<Longrightarrow> length ks = length (kids e)"
  by (cases "(G, e, ks)" rule: rebuild.cases) auto

lemma rebuild_const:
  assumes "rebuild G e ks = Some x" "list_all is_Constant ks" "getKind e \<noteq> 1" "getKind e \<noteq> 3"
  shows "is_Constant x"
proof -
  have len: "length ks = length (kids e)" by (rule rebuild_length [OF assms(1)])
  have all: "\<exists>cs. ks = map ConstantExpr cs"
    using assms(2) by (induction ks) (auto simp: is_Constant_def Cons_eq_map_conv split: expr.splits)
  then obtain cs where ks: "ks = map ConstantExpr cs" by blast
  show ?thesis
  proof (cases e)
    case (BinaryExpr k l r)
    then obtain a b where "cs = [a, b]" using len ks by (auto simp: length_Suc_conv)
    then show ?thesis using assms(1) BinaryExpr ks BinaryExpr_create_const by simp
  next
    case (SelectExpr c t f)
    then obtain a b d where "cs = [a, b, d]" using len ks by (auto simp: length_Suc_conv)
    then show ?thesis using assms(1) SelectExpr ks by (auto simp: SelectExpr_create_def Let_def)
  next
    case (ConcatExpr l r)
    then obtain a b where "cs = [a, b]" using len ks by (auto simp: length_Suc_conv)
    then show ?thesis using assms(1) ConcatExpr ks by (auto simp: ConcatExpr_create.simps)
  next
    case (ExtractExpr x off w)
    then obtain a where "cs = [a]" using len ks by (auto simp: length_Suc_conv)
    then show ?thesis using assms(1) ExtractExpr ks ExtractExpr_create_const by auto
  next
    case (CastExpr k x w)
    then obtain a where "cs = [a]" using len ks by (auto simp: length_Suc_conv)
    then show ?thesis using assms(1) CastExpr ks CastExpr_create_const by auto
  next
    case (NotExpr x)
    then obtain a where "cs = [a]" using len ks by (auto simp: length_Suc_conv)
    then show ?thesis using assms(1) NotExpr ks by (auto simp: NotExpr_create_def)
  qed (use assms in simp_all)
qed

context expr_creation
begin

lemma visitExpr_DoChildren:
  assumes "ExprEvaluator_visitExpr G e = Some DoChildren" "\<not> is_Constant e" "getKind e \<noteq> 3"
  shows "\<not> list_all is_Constant (kids e)"
  using assms by (cases e) (auto simp: ExprEvaluator_visitExpr_def)

lemma visit_children_const:
  assumes "visit_children G ExprEvaluator_visitExprPost e ks = Some x" "wt H e" "getKind e \<noteq> 3"
    "\<not> list_all is_Constant (kids e)" "list_all is_Constant ks" "\<forall>k \<in> set ks. wt H k"
  shows "is_Constant x"
proof -
  have "\<not> list_all2 (expr_eq (api G)) ks (kids e)"
  proof
    assume "list_all2 (expr_eq (api G)) ks (kids e)"
    then have "list_all2 (=) ks (kids e)"
      by (rule list.rel_mono_strong) (use assms(6) wt_kids [OF assms(2)] expr_eq_iff in auto)
    then show False using assms(4,5) by (simp add: list.rel_eq)
  qed
  then obtain e' where e': "rebuild G e ks = Some e'"
      "(if is_Constant e' then Some e' else case ExprEvaluator_visitExprPost e' of ChangeTo y \<Rightarrow> Some y | _ \<Rightarrow> Some e') = Some x"
    using assms(1) by (auto simp: visit_children_def bind_eq_Some_conv)
  show ?thesis
  proof (cases "getKind e = 1")
    case True
    then obtain src where "e = NotOptimizedExpr src" using same_kind(2) [of e] by auto
    then obtain c where "e' = NotOptimizedExpr (ConstantExpr c)"
      using e'(1) assms(5) by (cases ks rule: list.exhaust; cases "tl ks")
        (auto simp: NotOptimizedExpr_create_def elim: Constant_cases)
    then show ?thesis using e'(2) by (simp add: ExprEvaluator_visitExprPost_def split: if_splits) (auto simp: is_Constant_def)
  next
    case False
    then have "is_Constant e'" using rebuild_const [OF e'(1) assms(5) _ assms(3)] by simp
    then show ?thesis using e'(2) by simp
  qed
qed

lemma visitActual_const:
  assumes "visitActual G ExprEvaluator_visitExprPost e (ExprEvaluator_visitExpr G e) act ks = Some x"
    "wt H e" "\<not> is_Constant e" "getKind e \<noteq> 3" "\<And>c. e \<noteq> NotOptimizedExpr (ConstantExpr c)"
    and act: "act = Some DoChildren \<or> (\<exists>y. act = Some (ChangeTo y) \<and> is_Constant y)
      \<or> act = Some SkipChildren \<and> list_all is_Constant (kids e)"
    and ks: "\<And>xs. ks = Some xs \<Longrightarrow> list_all is_Constant xs \<and> (\<forall>k \<in> set xs. wt H k)"
  shows "is_Constant x"
proof (cases "list_all is_Constant (kids e)")
  case True
  have "kids e \<noteq> []" using assms(3) by (cases e) auto
  moreover have "getKind e \<noteq> 1" using True assms(5) same_kind(2) [of e] by (auto simp: is_Constant_def split: expr.splits)
  ultimately show ?thesis
    using assms(1,3,4) True rebuild_const [of G e "kids e"]
    by (auto simp: visitActual_def ExprEvaluator_visitExpr_def split: option.splits)
next
  case False
  then have "ExprEvaluator_visitExpr G e = Some DoChildren" by (simp add: ExprEvaluator_visitExpr_def)
  then show ?thesis
    using assms(1) act False ks visit_children_const [OF _ assms(2,4) False]
    by (auto simp: visitActual_def bind_eq_Some_conv)
qed

lemma denotes_const:
  assumes "denotes H \<rho> x v" "\<And>y. x = Some y \<Longrightarrow> is_Constant y"
  shows "x = Some (ConstantExpr v)"
proof -
  obtain y where y: "x = Some y" "sem \<rho> y = v" using assms(1) by (auto simp: denotes_def)
  then obtain c where "y = ConstantExpr c" using assms(2) Constant_cases [of y] by blast
  then show ?thesis using y by simp
qed

lemma visit_kids_value:
  assumes giv: "initial_ok H \<rho> giv" and e: "wt H e" "evaluable \<rho> e" "\<not> is_Constant e" "getKind e \<noteq> 3"
    "\<And>c. e \<noteq> NotOptimizedExpr (ConstantExpr c)"
    and eq: "ExprEvaluator_visit G giv e = visitActual G ExprEvaluator_visitExprPost e
        (ExprEvaluator_visitExpr G e) (Some DoChildren) (Some (map (\<lambda>k. ConstantExpr (sem \<rho> k)) (kids e)))"
  shows "ExprEvaluator_visit G giv e = Some (ConstantExpr (sem \<rho> e))"
proof (rule denotes_const [OF visit_sound(1) [OF giv e(1,2)]])
  fix x assume x: "ExprEvaluator_visit G giv e = Some x"
  show "is_Constant x"
    by (rule visitActual_const [OF x [unfolded eq] e(1,3-5)])
      (use wt_kids [OF e(1)] in \<open>auto simp: list_all_iff\<close>)
qed

lemma protectedDiv_const:
  assumes "wt H (BinaryExpr k l r)" "ap_value (sem \<rho> r) \<noteq> 0"
    "wt H a" "is_Constant a" "wt H b" "is_Constant b" "sem \<rho> b = sem \<rho> r"
    "protectedDivOperation G k l r (Some a) (Some b) = Some act"
  shows "(\<exists>y. act = ChangeTo y \<and> is_Constant y) \<or> act = SkipChildren \<and> is_Constant l \<and> is_Constant r"
proof -
  have "\<not> isZero (api G) b" using assms(2,5,7) by (cases b) (simp_all add: isZero_def)
  moreover have "is_Constant y" if "rebuild G (BinaryExpr k l r) [a, b] = Some y" for y
    using rebuild_const [OF that] assms(4,6) by simp
  moreover have "expr_eq (api G) a l \<longleftrightarrow> a = l" "expr_eq (api G) b r \<longleftrightarrow> b = r"
    using expr_eq_iff assms(1,3,5) by auto
  ultimately show ?thesis
    using assms(4,6,8) by (auto simp: protectedDivOperation_def split: if_splits)
qed

lemma visit_div_value:
  assumes giv: "initial_ok H \<rho> giv" and e: "wt H (BinaryExpr k l r)" "evaluable \<rho> (BinaryExpr k l r)" "div_kind k"
    and IH: "ExprEvaluator_visit G giv l = Some (ConstantExpr (sem \<rho> l))"
      "ExprEvaluator_visit G giv r = Some (ConstantExpr (sem \<rho> r))"
  shows "ExprEvaluator_visit G giv (BinaryExpr k l r) = Some (ConstantExpr (sem \<rho> (BinaryExpr k l r)))"
proof (rule denotes_const [OF visit_sound(1) [OF giv e(1,2)]])
  fix x assume x: "ExprEvaluator_visit G giv (BinaryExpr k l r) = Some x"
  let ?l = "ConstantExpr (sem \<rho> l)" and ?r = "ConstantExpr (sem \<rho> r)"
  have ok: "wt H ?l" "wt H ?r" "ap_value (sem \<rho> r) \<noteq> 0" "denotes H \<rho> (Some ?l) (sem \<rho> l)"
    "denotes H \<rho> (Some ?r) (sem \<rho> r)" using e by auto
  obtain act where act: "protectedDivOperation G k l r (Some ?l) (Some ?r) = Some act"
    using protectedDiv_sound [OF e ok(4,5)] by auto
  have c: "(\<exists>y. act = ChangeTo y \<and> is_Constant y) \<or> act = SkipChildren \<and> is_Constant l \<and> is_Constant r"
    by (rule protectedDiv_const [OF e(1) ok(3) ok(1) _ ok(2) _ _ act]) simp_all
  have k: "k = UDiv \<or> k = SDiv \<or> k = URem \<or> k = SRem" using e(3) by (simp add: div_kind_def)
  have x': "visitActual G ExprEvaluator_visitExprPost (BinaryExpr k l r) (ExprEvaluator_visitExpr G (BinaryExpr k l r))
      (Some act) (Some [?l, ?r]) = Some x"
    using x k IH act by (simp only: ExprEvaluator_visit.simps Let_def if_True Option.bind.bind_lunit)
  show "is_Constant x"
    by (rule visitActual_const [OF x' e(1)]) (use c ok in \<open>auto simp: is_Constant_def\<close>)
qed

theorem visit_value_where:
  assumes giv: "initial_ok H \<rho> giv"
    and const: "\<And>root i e. array_ok H root \<Longrightarrow> C root i \<Longrightarrow> giv root i = Some e \<Longrightarrow> is_Constant e"
  shows "wt H e \<Longrightarrow> evaluable \<rho> e \<Longrightarrow> folds e \<Longrightarrow> reads_at C \<rho> e \<Longrightarrow>
      ExprEvaluator_visit G giv e = Some (ConstantExpr (sem \<rho> e))"
    and "array_ok H root \<Longrightarrow> wt_unode H root u \<Longrightarrow> evaluable_unode \<rho> u \<Longrightarrow> folds_unode u \<Longrightarrow>
      reads_at_unode C \<rho> u \<Longrightarrow> isConstantArray root \<and> i < arr_size root \<or> C root i \<Longrightarrow>
      ExprEvaluator_evalRead G giv root u i = Some x \<Longrightarrow> is_Constant x"
proof (induction e and u arbitrary: and root i x)
  case (ReadExpr root head index)
  have *: "ExprEvaluator_visit G giv index = Some (ConstantExpr (sem \<rho> index))" using ReadExpr by simp
  show ?case
  proof (rule denotes_const [OF visit_sound(1) [OF giv ReadExpr.prems(1,2)]])
    fix x assume x: "ExprEvaluator_visit G giv (ReadExpr root head index) = Some x"
    have c: "ap_ok (sem \<rho> index)" "ap_width (sem \<rho> index) \<le> 32" using ReadExpr.prems by auto
    have "ExprEvaluator_evalRead G giv root head (nat (ap_value (sem \<rho> index))) = Some x"
      using x read_index_eq [OF c]
      by (auto simp: * Let_def visitActual_def ExprEvaluator_visitExpr_def bind_eq_Some_conv split: option.splits)
    from ReadExpr.IH(1) [OF _ _ _ _ _ _ this] show "is_Constant x"
      using ReadExpr.prems by (simp add: Let_def)
  qed
next
  case (NotOptimizedExpr y)
  then show ?case
    by (intro visit_kids_value [OF giv]) (auto simp: Let_def is_Constant_def)
next
  case (SelectExpr x y z)
  then show ?case
    by (intro visit_kids_value [OF giv]) (auto simp: Let_def is_Constant_def)
next
  case (ConcatExpr x y)
  then show ?case
    by (intro visit_kids_value [OF giv]) (auto simp: Let_def is_Constant_def)
next
  case (ExtractExpr x off w)
  then show ?case
    by (intro visit_kids_value [OF giv]) (auto simp: Let_def is_Constant_def)
next
  case (CastExpr k x w)
  then show ?case
    by (intro visit_kids_value [OF giv]) (cases k; auto simp: Let_def is_Constant_def)+
next
  case (NotExpr x)
  then show ?case
    by (intro visit_kids_value [OF giv]) (auto simp: Let_def is_Constant_def)
next
  case (BinaryExpr k x y)
  note IH = BinaryExpr.IH(1) BinaryExpr.IH(2)
  show ?case
  proof (cases "div_kind k")
    case True
    show ?thesis by (rule visit_div_value [OF giv BinaryExpr.prems(1,2) True]) (use BinaryExpr in simp_all)
  next
    case False
    then have "\<not> (k = UDiv \<or> k = SDiv \<or> k = URem \<or> k = SRem)" by (simp add: div_kind_def)
    then show ?thesis using BinaryExpr
      by (intro visit_kids_value [OF giv]) (auto simp: Let_def is_Constant_def)
  qed
next
  case (UpdateNode nx ui uv)
  have "ExprEvaluator_visit G giv ui = Some (ConstantExpr (sem \<rho> ui))"
    "ExprEvaluator_visit G giv uv = Some (ConstantExpr (sem \<rho> uv))" using UpdateNode by simp_all
  then show ?case using UpdateNode.prems UpdateNode.IH(1) by (auto simp: bind_eq_Some_conv split: if_splits)
qed (auto simp: const split: if_splits)

theorem visit_value:
  assumes giv: "initial_ok H \<rho> giv"
    and const: "\<And>root i e. array_ok H root \<Longrightarrow> giv root i = Some e \<Longrightarrow> is_Constant e"
    and e: "wt H e" "evaluable \<rho> e" "folds e"
  shows "ExprEvaluator_visit G giv e = Some (ConstantExpr (sem \<rho> e))"
  by (rule visit_value_where(1) [OF giv _ e, of "\<lambda>_ _. True"]) (use const in \<open>auto simp: reads_at_all\<close>)

end

subsection \<open>Assignments\<close>

text \<open>The values that an assignment gives to the bytes of an array: bound bytes, and 0.\<close>

definition assignment_of :: "Assignment \<Rightarrow> assignment" where
  "assignment_of a root i =
     (case bindings_find root (bindings a) of
        Some bytes \<Rightarrow> if i < length bytes then uint (bytes ! i) else 0
      | None \<Rightarrow> 0)"

text \<open>A byte to which the assignment gives a value.\<close>

definition bound_byte :: "Assignment \<Rightarrow> array \<Rightarrow> nat \<Rightarrow> bool" where
  "bound_byte a root i \<longleftrightarrow> (\<exists>bytes. bindings_find root (bindings a) = Some bytes \<and> i < length bytes)"

lemma bindings_find_insert:
  "bindings_find a (bindings_insert b v bs) =
     (if arr_addr a = arr_addr b \<and> bindings_find b bs = None then Some v else bindings_find a bs)"
  if "sorted_wrt (\<lambda>x y. arr_addr (fst x) < arr_addr (fst y)) bs"
  using that
proof (induction b v bs rule: bindings_insert.induct)
  case (2 a' v b w bs)
  have "bindings_find a' bs = None" if "arr_addr a' \<le> arr_addr b"
    using 2(2) that by (induction bs) auto
  then show ?case using 2 by auto
qed simp

lemma set_bindings_insert: "set (bindings_insert a v bs) \<subseteq> insert (a, v) (set bs)"
  by (induction a v bs rule: bindings_insert.induct) auto

lemma bindings_insert_sorted:
  "sorted_wrt (\<lambda>x y. arr_addr (fst x) < arr_addr (fst y)) bs \<Longrightarrow>
     sorted_wrt (\<lambda>x y. arr_addr (fst x) < arr_addr (fst y)) (bindings_insert a v bs)"
proof (induction a v bs rule: bindings_insert.induct)
  case (2 a v b w bs)
  then show ?case using set_bindings_insert [of a v bs] by fastforce
qed simp

text \<open>The constructor binds every object to the value of its first occurrence.\<close>

lemma Assignment_new_loop_find:
  "Assignment_new_loop objects values bs = Some bs' \<Longrightarrow>
   sorted_wrt (\<lambda>x y. arr_addr (fst x) < arr_addr (fst y)) bs \<Longrightarrow>
   sorted_wrt (\<lambda>x y. arr_addr (fst x) < arr_addr (fst y)) bs' \<and>
   bindings_find a bs' = (case bindings_find a bs of Some v \<Rightarrow> Some v
     | None \<Rightarrow> map_of (zip (map arr_addr objects) values) (arr_addr a))"
proof (induction objects "values" bs rule: Assignment_new_loop.induct)
  case (3 os objects arr vs bs)
  have same: "bindings_find os bs = bindings_find a bs" if "arr_addr a = arr_addr os"
    using that by (induction bs) auto
  show ?case
    using 3 bindings_insert_sorted [OF 3(3)] bindings_find_insert [OF 3(3), of a os arr] same
    by (auto split: option.splits)
qed (auto split: option.split)

theorem Assignment_new_lookup:
  assumes "Assignment_new objects values free = Some a"
  shows "bindings_find arr (bindings a) = map_of (zip (map arr_addr objects) values) (arr_addr arr)"
  using assms Assignment_new_loop_find [of objects "values" "[]" _ arr] by (auto simp: Assignment_new_def)

definition agrees_on :: "assignment \<Rightarrow> array \<Rightarrow> 8 word list \<Rightarrow> bool" where
  "agrees_on \<rho> array bytes \<longleftrightarrow>
     (\<forall>i < arr_size array. array_value \<rho> array i = mk_ap (arr_range array) (uint (bytes ! i)))"

context expr_creation
begin

lemma byte64_mk: "mk_ap w (uint (byte64 b)) = mk_ap w (uint b)"
  by (simp add: byte64_def uint_up_ucast is_up)

lemma free_value_ok:
  assumes "array_ok H root" "i < 2 ^ arr_domain root" "\<not> (isConstantArray root \<and> i < arr_size root)"
  shows "denotes H \<rho> (ReadExpr_create G root NullNode
      (ConstantExpr (ConstantExpr_alloc_u64 (api G) (of_nat i) (arr_domain root)))) (mk_ap (arr_range root) (\<rho> root i))"
proof -
  have d: "0 < arr_domain root" "arr_domain root \<le> 64" using assms(1) by (simp_all add: array_ok_def)
  have "i < 2 ^ 64" using assms(2) power_increasing [OF d(2), of "2 :: nat"] by simp
  then have "uint (of_nat i :: uint64) = int i" by (simp add: unsigned_of_nat take_bit_nat_eq_self)
  moreover have "take_bit (arr_domain root) (int i) = int i" using assms(2) by (simp add: take_bit_int_eq_self)
  ultimately show ?thesis
    using ReadExpr_create_sound [OF assms(1), of NullNode "ConstantExpr (mk_ap (arr_domain root) (int i))" \<rho>] d(1) assms(3)
    by (simp add: array_value_def mk_ap_def ap_ok_def)
qed

lemma initial_ok_assignment: "initial_ok H (assignment_of a) (Assignment_evaluate_index G a)"
  unfolding initial_ok_def
proof (intro allI impI)
  fix root i
  assume root: "array_ok H root" "\<not> (isConstantArray root \<and> i < arr_size root)" "i < 2 ^ arr_domain root"
  have r: "0 < arr_range root" using root(1) by (simp add: array_ok_def)
  consider v where "bindings_find root (bindings a) = Some v" "i < length v" | "\<not> bound_byte a root i" "allowFreeValues a"
    | "\<not> bound_byte a root i" "\<not> allowFreeValues a" by (auto simp: bound_byte_def)
  then show "denotes H (assignment_of a) (Assignment_evaluate_index G a root i) (mk_ap (arr_range root) (assignment_of a root i))"
  proof cases
    case (1 v)
    then show ?thesis using r by (simp add: Assignment_evaluate_index_def assignment_of_def byte64_mk)
  next
    case 2
    then have "Assignment_evaluate_index G a root i = ReadExpr_create G root NullNode
        (ConstantExpr (ConstantExpr_alloc_u64 (api G) (of_nat i) (arr_domain root)))"
      by (auto simp: Assignment_evaluate_index_def bound_byte_def split: option.split)
    then show ?thesis using free_value_ok [OF root(1,3,2)] by simp
  next
    case 3
    then show ?thesis using r
      by (auto simp: Assignment_evaluate_index_def bound_byte_def assignment_of_def split: option.split)
  qed
qed

lemma evaluate_index_const:
  assumes "array_ok H root" "allowFreeValues a \<longrightarrow> bound_byte a root i" "Assignment_evaluate_index G a root i = Some e"
  shows "is_Constant e"
  using assms by (auto simp: Assignment_evaluate_index_def bound_byte_def split: option.splits if_splits)

text \<open>With free values, the evaluation gives a constant when every byte that is read is bound.\<close>

theorem Assignment_evaluate_bound:
  assumes "wt H e" "evaluable (assignment_of a) e" "folds e" "reads_at (bound_byte a) (assignment_of a) e"
  shows "Assignment_evaluate G a e = Some (ConstantExpr (sem (assignment_of a) e))"
  unfolding Assignment_evaluate_def
  by (rule visit_value_where(1) [OF initial_ok_assignment _ assms]) (rule evaluate_index_const, auto)

theorem Assignment_evaluate_value:
  assumes "\<not> allowFreeValues a" "wt H e" "evaluable (assignment_of a) e" "folds e"
  shows "Assignment_evaluate G a e = Some (ConstantExpr (sem (assignment_of a) e))"
  unfolding Assignment_evaluate_def
  by (rule visit_value [OF initial_ok_assignment _ assms(2-4)]) (rule evaluate_index_const, use assms(1) in auto)

theorem Assignment_satisfies_iff:
  assumes "\<not> allowFreeValues a"
    and "\<forall>c \<in> set cs. wt H c \<and> getWidth c = 1 \<and> evaluable (assignment_of a) c \<and> folds c"
  shows "Assignment_satisfies G a cs = Some (\<forall>c \<in> set cs. sem (assignment_of a) c = bv_bool True)"
  using assms(2)
proof (induction cs)
  case (Cons c cs)
  let ?v = "sem (assignment_of a) c"
  have v: "Assignment_evaluate G a c = Some (ConstantExpr ?v)"
    by (rule Assignment_evaluate_value [OF assms(1)]) (use Cons.prems in auto)
  have "isTrue (api G) (ConstantExpr ?v) = Some (?v = bv_bool True)"
    using Cons.prems wt_sem_ok [of H c "assignment_of a"] wt_sem_width [of H c "assignment_of a"]
    by (simp add: isTrue_def)
  then show ?case using v Cons by auto
qed simp

text \<open>The constraints made from an assignment.\<close>

lemma createConstraints_array_sound:
  assumes "array_ok H array" "i + n \<le> 2 ^ arr_domain array" "i + n \<le> length values"
  shows "\<exists>es. createConstraints_array G array values n i out = Some (out @ es) \<and> length es = n \<and>
    (\<forall>j < n. wt H (es ! j) \<and> getWidth (es ! j) = 1 \<and> (\<forall>\<rho>. sem \<rho> (es ! j) = bv_bool
       (array_value \<rho> array (i + j) = mk_ap (arr_range array) (uint (values ! (i + j))))))"
  using assms(2,3)
proof (induction n arbitrary: i out)
  case (Suc n)
  let ?I = "ConstantExpr (mk_ap (arr_domain array) (uint (of_nat i :: uint64)))"
  let ?V = "ConstantExpr (mk_ap (arr_range array) (uint (byte64 (values ! i))))"
  have arr: "0 < arr_domain array" "arr_domain array \<le> 64" "0 < arr_range array"
    using assms(1) by (simp_all add: array_ok_def)
  have "i < 2 ^ arr_domain array" using Suc.prems by simp
  moreover have "i < 2 ^ 64" using calculation power_increasing [OF arr(2), of "2 :: nat"] by simp
  ultimately have i: "nat (take_bit (arr_domain array) (uint (of_nat i :: uint64))) = i"
    by (simp add: unsigned_of_nat take_bit_nat_eq_self take_bit_int_eq_self)
  have e: "\<exists>rd e. ReadExpr_create G array NullNode ?I = Some rd \<and> EqExpr_create G rd ?V = Some e \<and> wt H e
      \<and> sem \<rho> e = bv_bool (array_value \<rho> array i = mk_ap (arr_range array) (uint (values ! i)))" for \<rho>
  proof -
    obtain rd where rd: "ReadExpr_create G array NullNode ?I = Some rd" "wt H rd" "sem \<rho> rd = array_value \<rho> array i"
      using ReadExpr_create_sound [of H array NullNode ?I \<rho>] assms(1) arr i by (auto simp: denotes_def)
    have w: "getWidth rd = arr_range array"
      using rd wt_sem_width [OF rd(2), of \<rho>] array_value_ok [OF assms(1), of \<rho> i] by simp
    have aw: "ap_width (array_value \<rho> array i) = arr_range array"
      using array_value_ok [OF assms(1), of \<rho> i] by simp
    then show ?thesis
      using EqExpr_create_sound [of H rd ?V \<rho>] rd w arr byte64_mk bv_Eq [of "sem \<rho> rd" "sem \<rho> ?V"]
      by (auto simp: denotes_def)
  qed
  then obtain rd e where re: "ReadExpr_create G array NullNode ?I = Some rd" "EqExpr_create G rd ?V = Some e" "wt H e"
    by blast
  have se: "sem \<rho> e = bv_bool (array_value \<rho> array i = mk_ap (arr_range array) (uint (values ! i)))" for \<rho>
    using e [of \<rho>] re by auto
  have we: "getWidth e = 1" using wt_sem_width [OF re(3), of undefined] se by simp
  obtain es where es: "createConstraints_array G array values n (Suc i) (out @ [e]) = Some ((out @ [e]) @ es)" "length es = n"
      "\<forall>j < n. wt H (es ! j) \<and> getWidth (es ! j) = 1 \<and> (\<forall>\<rho>. sem \<rho> (es ! j) = bv_bool
       (array_value \<rho> array (Suc i + j) = mk_ap (arr_range array) (uint (values ! (Suc i + j)))))"
    using Suc.IH [of "Suc i" "out @ [e]"] Suc.prems by auto
  have "nth_opt values i = Some (values ! i)" using Suc.prems by simp
  then show ?case
    using es re se we arr by (intro exI [of _ "e # es"]) (auto simp: less_Suc_eq_0_disj nth_opt_def)
qed simp

text \<open>Each array of the assignment contributes one Boolean constraint per byte.\<close>

theorem createConstraints_sound:
  assumes "\<forall>(array, bytes) \<in> set (bindings a). array_ok H array \<and> arr_size array \<le> 2 ^ arr_domain array
      \<and> arr_size array \<le> length bytes"
  shows "\<exists>es. createConstraintsFromAssignment G a [] = Some es \<and> (\<forall>e \<in> set es. wt H e \<and> getWidth e = 1) \<and>
    (\<forall>\<rho>. (\<forall>e \<in> set es. sem \<rho> e = bv_bool True) \<longleftrightarrow>
       (\<forall>(array, bytes) \<in> set (bindings a). agrees_on \<rho> array bytes))"
proof -
  have "\<exists>es. createConstraints_loop G bs out = Some (out @ es) \<and> (\<forall>e \<in> set es. wt H e \<and> getWidth e = 1) \<and>
    (\<forall>\<rho>. (\<forall>e \<in> set es. sem \<rho> e = bv_bool True) \<longleftrightarrow> (\<forall>(array, bytes) \<in> set bs. agrees_on \<rho> array bytes))"
    if "\<forall>(array, bytes) \<in> set bs. array_ok H array \<and> arr_size array \<le> 2 ^ arr_domain array
      \<and> arr_size array \<le> length bytes" for bs out
    using that
  proof (induction bs arbitrary: out)
    case (Cons b bs)
    obtain array bytes where b: "b = (array, bytes)" by (cases b)
    obtain es where es: "createConstraints_array G array bytes (arr_size array) 0 out = Some (out @ es)"
      "length es = arr_size array" "\<forall>j < arr_size array. wt H (es ! j) \<and> getWidth (es ! j) = 1 \<and>
        (\<forall>\<rho>. sem \<rho> (es ! j) = bv_bool (array_value \<rho> array j = mk_ap (arr_range array) (uint (bytes ! j))))"
      using createConstraints_array_sound [of H array 0 "arr_size array" bytes out] Cons.prems b by auto
    obtain fs where fs: "createConstraints_loop G bs (out @ es) = Some ((out @ es) @ fs)"
      "\<forall>e \<in> set fs. wt H e \<and> getWidth e = 1"
      "\<forall>\<rho>. (\<forall>e \<in> set fs. sem \<rho> e = bv_bool True) \<longleftrightarrow> (\<forall>(array, bytes) \<in> set bs. agrees_on \<rho> array bytes)"
      using Cons.IH [of "out @ es"] Cons.prems by auto
    have "(\<forall>e \<in> set es. sem \<rho> e = bv_bool True) \<longleftrightarrow> agrees_on \<rho> array bytes" for \<rho>
      using es(2,3) by (auto simp: agrees_on_def all_set_conv_all_nth)
    moreover have "\<forall>e \<in> set es. wt H e \<and> getWidth e = 1"
      using es(2,3) by (auto simp: all_set_conv_all_nth)
    ultimately show ?case using es(1) fs b by (intro exI [of _ "es @ fs"]) (auto simp: ball_Un)
  qed simp
  from this [OF assms, of "[]"] show ?thesis by (simp add: createConstraintsFromAssignment_def)
qed

end

end
