(* ===== verification/ExprProps.thy ===== *)
theory ExprProps
  imports ExprEvalSound
begin

text \<open>
  The properties of expressions: creation, comparison, evaluation.  The witnesses use the
  implementation \<open>apint_model\<close> of the integers and a symbolic array of 4 bytes.
\<close>

definition default_env :: expr_env where
  "default_env = \<lparr>api = apint_model, ConstArrayOpt = False\<rparr>"

lemma default_env_sel [simp]: "api default_env = apint_model" "ConstArrayOpt default_env = False"
  by (simp_all add: default_env_def)

interpretation default_env: expr_creation default_env
  by (rule expr_creation.intro) (simp_all add: apint_model.llvm_apint_axioms expr_creation_axioms_def)

definition buf :: array where
  "buf = \<lparr>arr_addr = 1, arr_name = ''buf'', arr_size = 4, arr_domain = 32, arr_range = 8,
          arr_constantValues = []\<rparr>"

definition buf_heap :: "nat \<Rightarrow> array" where "buf_heap _ = buf"

definition buf_byte :: "int \<Rightarrow> expr" where
  "buf_byte i = ReadExpr buf NullNode (ConstantExpr (APInt 32 i))"

lemma buf_ok [simp]: "array_ok buf_heap buf"
  by (simp add: array_ok_def buf_heap_def buf_def)

lemma buf_domain [simp]: "arr_domain buf = 32" "arr_range buf = 8" "arr_size buf = 4" "\<not> isConstantArray buf"
  by (simp_all add: buf_def isConstantArray_def)

lemma buf_byte_wt [simp]: "0 \<le> i \<Longrightarrow> i < 2 ^ 32 \<Longrightarrow> wt buf_heap (buf_byte i)" "getWidth (buf_byte i) = 8"
  "\<not> is_Constant (buf_byte i)" "buf_byte i = buf_byte j \<longleftrightarrow> i = j"
  by (simp_all add: buf_byte_def ap_ok_def take_bit_int_eq_self is_Constant_def)

lemma sem_buf_byte [simp]: "sem \<rho> (buf_byte i) = APInt 8 (take_bit 8 (\<rho> buf (nat i)))"
  by (simp add: buf_byte_def array_value_def mk_ap_def)

lemma byte_ok [simp]: "0 \<le> v \<Longrightarrow> v < 256 \<Longrightarrow> ap_ok (APInt 8 v)"
  by (simp add: ap_ok_def take_bit_int_eq_self)

subsection \<open>Creation\<close>

lemma expr_creationI:
  "llvm_apint (api G) \<Longrightarrow> \<not> ConstArrayOpt G \<Longrightarrow> expr_creation G"
  by (simp add: expr_creation_def expr_creation_axioms_def)

text \<open>
  (C13) Creating a binary expression returns (no assertion fails) and the canonicalised
  expression is well typed and has, under every assignment, the value of the operator applied
  to the values of the operands.  The operands are well typed and of the same width, the divisor
  of a division or remainder is not 0 under the assignment, and \<open>-const-array-opt\<close> is off, as
  it is by default.
\<close>

theorem binary_create_meaning:
  assumes "llvm_apint (api G)" "\<not> ConstArrayOpt G" "wt H l" "wt H r" "getWidth l = getWidth r"
    and "div_kind k \<Longrightarrow> ap_value (sem \<rho> r) \<noteq> 0"
  shows "\<exists>e. BinaryExpr_create G k l r = Some e \<and> wt H e \<and> sem \<rho> e = bv_binary k (sem \<rho> l) (sem \<rho> r)"
  using expr_creation.BinaryExpr_create_sound [OF expr_creationI [OF assms(1,2)] assms(3-6)]
  by (simp add: denotes_def)

theorem binary_create_meaning_witness:
  "\<exists>e. BinaryExpr_create default_env Sub (BinaryExpr Add (ConstantExpr (APInt 8 200)) (buf_byte 0)) (buf_byte 1) = Some e
     \<and> wt buf_heap e
     \<and> sem (\<lambda>_ i. 7) e = bv_binary Sub (bv_binary Add (APInt 8 200) (APInt 8 7)) (APInt 8 7)"
  using binary_create_meaning [of default_env buf_heap "BinaryExpr Add (ConstantExpr (APInt 8 200)) (buf_byte 0)"
      "buf_byte 1" Sub "\<lambda>_ i. 7"] apint_model.llvm_apint_axioms
  by (simp add: div_kind_def take_bit_int_eq_self)

text \<open>
  (C15) Reading an array through its update list returns the value of the read: the newest
  update at the index, and otherwise the initial value; the shortened update list and the
  constant that a constant array holds do not change it.
\<close>

theorem read_create_meaning:
  assumes "llvm_apint (api G)" "\<not> ConstArrayOpt G"
    and "array_ok H root" "wt_unode H root head" "wt H index" "getWidth index = arr_domain root"
  shows "\<exists>e. ReadExpr_create G root head index = Some e \<and> wt H e \<and> sem \<rho> e = sem_read \<rho> root head (sem \<rho> index)"
  using expr_creation.ReadExpr_create_sound [OF expr_creationI [OF assms(1,2)] assms(3-6)]
  by (simp add: denotes_def)

theorem read_create_meaning_witness:
  "\<exists>e. ReadExpr_create default_env buf
         (UpdateNode (UpdateNode NullNode (ConstantExpr (APInt 32 2)) (ConstantExpr (APInt 8 9)))
           (ConstantExpr (APInt 32 1)) (ConstantExpr (APInt 8 5))) (ConstantExpr (APInt 32 2)) = Some e
     \<and> wt buf_heap e \<and> sem (\<lambda>_ i. 7) e = APInt 8 9"
  using read_create_meaning [of default_env buf_heap buf
      "UpdateNode (UpdateNode NullNode (ConstantExpr (APInt 32 2)) (ConstantExpr (APInt 8 9)))
           (ConstantExpr (APInt 32 1)) (ConstantExpr (APInt 8 5))" "ConstantExpr (APInt 32 2)" "\<lambda>_ i. 7"]
    apint_model.llvm_apint_axioms
  by (simp add: ap_ok_def take_bit_int_eq_self)

text \<open>
  (C17) Creating a conditional expression keeps its meaning: the Boolean cases are turned into
  conjunctions and disjunctions.
\<close>

theorem select_create_meaning:
  assumes "llvm_apint (api G)" "\<not> ConstArrayOpt G"
    and "wt H c" "wt H t" "wt H f" "getWidth c = 1" "getWidth t = getWidth f"
  shows "\<exists>e. SelectExpr_create G c t f = Some e \<and> wt H e
    \<and> sem \<rho> e = (if ap_value (sem \<rho> c) \<noteq> 0 then sem \<rho> t else sem \<rho> f)"
  using expr_creation.SelectExpr_create_sound [OF expr_creationI [OF assms(1,2)] assms(3-7)]
  by (simp add: denotes_def)

theorem select_create_meaning_witness:
  "\<exists>e. SelectExpr_create default_env (BinaryExpr Ult (buf_byte 0) (buf_byte 1))
      (ConstantExpr (bv_bool False)) (BinaryExpr Eq (buf_byte 2) (buf_byte 3)) = Some e \<and> wt buf_heap e
     \<and> sem (\<lambda>_ i. int i) e = bv_bool False"
  using select_create_meaning [of default_env buf_heap "BinaryExpr Ult (buf_byte 0) (buf_byte 1)"
      "ConstantExpr (bv_bool False)" "BinaryExpr Eq (buf_byte 2) (buf_byte 3)" "\<lambda>_ i. int i"] apint_model.llvm_apint_axioms
  by (simp add: bv_binary.simps take_bit_int_eq_self)

text \<open>
  (C16) Extracting bits and concatenating keep their meaning: an extraction is pushed through a
  concatenation, and adjacent extractions of one expression are merged.
\<close>

theorem extract_concat_meaning:
  assumes "llvm_apint A" "wt H e" "wt H r" "0 < w" "off + w \<le> getWidth e"
  shows "(\<exists>x. ExtractExpr_create A e off w = Some x \<and> wt H x \<and> sem \<rho> x = bv_extract off w (sem \<rho> e)) \<and>
    (\<exists>x. ConcatExpr_create A e r = Some x \<and> wt H x \<and> sem \<rho> x = bv_concat (sem \<rho> e) (sem \<rho> r))"
  using llvm_apint.ExtractExpr_create_sound [OF assms(1,2,4,5)] llvm_apint.ConcatExpr_create_sound [OF assms(1-3)]
  by (simp add: denotes_def)

theorem extract_concat_meaning_witness:
  "(\<exists>x. ExtractExpr_create apint_model (ConcatExpr (buf_byte 1) (buf_byte 0)) 4 8 = Some x \<and> wt buf_heap x
      \<and> sem (\<lambda>_ i. 16 * int i + 2) x = APInt 8 32) \<and>
   (\<exists>x. ConcatExpr_create apint_model (ConcatExpr (buf_byte 1) (buf_byte 0)) (buf_byte 2) = Some x \<and> wt buf_heap x
      \<and> sem (\<lambda>_ i. 16 * int i + 2) x = APInt 24 1180194)"
  using extract_concat_meaning [OF apint_model.llvm_apint_axioms, of buf_heap "ConcatExpr (buf_byte 1) (buf_byte 0)"
     "buf_byte 2" 8 4 "\<lambda>_ i. 16 * int i + 2"]
  by (simp add: mk_ap_def bv_extract_def bv_concat_def)

text \<open>A cast extends with zeros or the sign, truncates, or is the expression itself.\<close>

theorem cast_create_meaning:
  assumes "llvm_apint A" "wt H e" "0 < w"
  shows "\<exists>x. CastExpr_create A k e w = Some x \<and> wt H x \<and> sem \<rho> x = bv_cast k w (sem \<rho> e)"
  using llvm_apint.CastExpr_create_sound [OF assms] by (simp add: denotes_def)

theorem cast_create_meaning_witness:
  "\<exists>x. CastExpr_create apint_model SExt (buf_byte 0) 16 = Some x \<and> wt buf_heap x \<and> sem (\<lambda>_ _. 255) x = APInt 16 65535"
  using cast_create_meaning [OF apint_model.llvm_apint_axioms, of buf_heap "buf_byte 0" 16 SExt "\<lambda>_ _. 255"]
  by (simp add: mk_ap_def bv_sext_def ap_signed_def take_bit_int_eq_self mask_eq_exp_minus_1)

text \<open>
  Rebuilding a node that is not a constant from kids of the same widths gives the value of
  the node at the values of the new kids.
\<close>

theorem rebuild_meaning:
  assumes "llvm_apint (api G)" "\<not> ConstArrayOpt G" "wt H e" "\<not> is_Constant e"
    and "map getWidth ks = map getWidth (kids e)" "\<forall>k \<in> set ks. wt H k" "div_ok \<rho> e ks"
  shows "\<exists>x. rebuild G e ks = Some x \<and> wt H x \<and> sem \<rho> x = sem_node \<rho> e (map (sem \<rho>) ks)"
  using expr_creation.rebuild_sound [OF expr_creationI [OF assms(1,2)] assms(3-7)] by (simp add: denotes_def)

theorem rebuild_meaning_witness:
  "\<exists>x. rebuild default_env (BinaryExpr UDiv (buf_byte 0) (buf_byte 1)) [ConstantExpr (APInt 8 9), ConstantExpr (APInt 8 2)] = Some x
     \<and> wt buf_heap x \<and> sem (\<lambda>_ _. 0) x = APInt 8 4"
  using rebuild_meaning [of default_env buf_heap "BinaryExpr UDiv (buf_byte 0) (buf_byte 1)"
     "[ConstantExpr (APInt 8 9), ConstantExpr (APInt 8 2)]" "\<lambda>_ _. 0"] apint_model.llvm_apint_axioms
  by (simp add: div_ok_def is_Constant_def bv_binary.simps bv_lift_def mk_ap_def take_bit_int_eq_self)

subsection \<open>Comparison\<close>

text \<open>
  (C32) \<open>Expr::compare\<close> returns 0 exactly for structurally equal expressions: the hash, the
  widths and the update lists it looks at before the kids never separate equal expressions and
  never identify different ones.
\<close>

theorem compare_decides_equality:
  assumes "llvm_apint A" "wt H a" "wt H b"
  shows "expr_eq A a b \<longleftrightarrow> a = b"
  by (rule llvm_apint.expr_eq_iff [OF assms])

theorem compare_decides_equality_witness:
  "\<not> expr_eq apint_model (buf_byte 0) (buf_byte 1)"
  using compare_decides_equality [OF apint_model.llvm_apint_axioms, of buf_heap "buf_byte 0" "buf_byte 1"]
  by simp

subsection \<open>Evaluation\<close>

text \<open>
  (C14) Evaluating an expression under an assignment without free values returns the constant
  that is its value, for an expression with no divisor that is 0 under the assignment (the
  division would stop the program), with indices of at most 32 bits (\<open>evaluable\<close>) and with no
  \<open>NotOptimizedExpr\<close> directly over a constant, which is not folded (\<open>folds\<close>).
\<close>

theorem evaluate_value:
  assumes "llvm_apint (api G)" "\<not> ConstArrayOpt G" "\<not> allowFreeValues a"
    and "wt H e" "evaluable (assignment_of a) e" "folds e"
  shows "Assignment_evaluate G a e = Some (ConstantExpr (sem (assignment_of a) e))"
  by (rule expr_creation.Assignment_evaluate_value [OF expr_creationI [OF assms(1,2)] assms(3-6)])

definition buf_values :: Assignment where
  "buf_values = \<lparr>allowFreeValues = False, bindings = [(buf, [10, 20, 30, 40])]\<rparr>"

lemma assignment_of_buf [simp]:
  "assignment_of buf_values buf i = (if i < 4 then uint ([10, 20, 30, 40 :: 8 word] ! i) else 0)"
  by (simp add: assignment_of_def buf_values_def)

lemma buf_byte_evaluable [simp]: "evaluable \<rho> (buf_byte i)" "folds (buf_byte i)"
  by (simp_all add: buf_byte_def)

lemma buf_values_free [simp]: "\<not> allowFreeValues buf_values"
  by (simp add: buf_values_def)

theorem evaluate_value_witness:
  "Assignment_evaluate default_env buf_values
     (BinaryExpr UDiv (NotOptimizedExpr (buf_byte 3)) (BinaryExpr Sub (buf_byte 1) (buf_byte 0))) =
   Some (ConstantExpr (APInt 8 4))"
  using evaluate_value [of default_env buf_values buf_heap
      "BinaryExpr UDiv (NotOptimizedExpr (buf_byte 3)) (BinaryExpr Sub (buf_byte 1) (buf_byte 0))"]
    apint_model.llvm_apint_axioms
  by (simp add: bv_binary.simps bv_lift_def mk_ap_def take_bit_int_eq_self is_CmpExpr_kind_def)

text \<open>
  (C33) \<open>satisfies\<close> answers whether all constraints hold under the assignment; it stops at the
  first that does not.  The assignment has no free values, and no constraint has a divisor that
  is 0 under the assignment, an index of more than 32 bits, or a \<open>NotOptimizedExpr\<close> directly
  over a constant, which \<open>satisfies\<close> takes for false.
\<close>

theorem satisfies_decides:
  assumes "llvm_apint (api G)" "\<not> ConstArrayOpt G" "\<not> allowFreeValues a"
    and "\<forall>c \<in> set cs. wt H c \<and> getWidth c = 1 \<and> evaluable (assignment_of a) c \<and> folds c"
  shows "Assignment_satisfies G a cs = Some (\<forall>c \<in> set cs. sem (assignment_of a) c = bv_bool True)"
  by (rule expr_creation.Assignment_satisfies_iff [OF expr_creationI [OF assms(1,2)] assms(3,4)])

theorem satisfies_decides_witness:
  "Assignment_satisfies default_env buf_values
     [BinaryExpr Ult (buf_byte 0) (buf_byte 1), BinaryExpr Eq (buf_byte 2) (buf_byte 3)] = Some False"
  using satisfies_decides [of default_env buf_values
      "[BinaryExpr Ult (buf_byte 0) (buf_byte 1), BinaryExpr Eq (buf_byte 2) (buf_byte 3)]" buf_heap]
    apint_model.llvm_apint_axioms
  by (simp add: bv_binary.simps take_bit_int_eq_self is_CmpExpr_kind_def)

text \<open>
  (C34) The constraints made from an assignment exist, are Boolean, and hold under exactly the
  assignments that agree with it on every byte of its arrays.
\<close>

theorem assignment_constraints_characterise:
  assumes "llvm_apint (api G)" "\<not> ConstArrayOpt G"
    and "\<forall>(array, bytes) \<in> set (bindings a). array_ok H array \<and> arr_size array \<le> 2 ^ arr_domain array
      \<and> arr_size array \<le> length bytes"
  shows "\<exists>es. createConstraintsFromAssignment G a [] = Some es \<and> (\<forall>e \<in> set es. wt H e \<and> getWidth e = 1) \<and>
    (\<forall>\<rho>. (\<forall>e \<in> set es. sem \<rho> e = bv_bool True) \<longleftrightarrow>
       (\<forall>(array, bytes) \<in> set (bindings a). agrees_on \<rho> array bytes))"
  by (rule expr_creation.createConstraints_sound [OF expr_creationI [OF assms(1,2)] assms(3)])

theorem assignment_constraints_characterise_witness:
  "\<exists>es. createConstraintsFromAssignment default_env buf_values [] = Some es \<and>
     (\<forall>e \<in> set es. wt buf_heap e \<and> getWidth e = 1) \<and>
     (\<forall>\<rho>. (\<forall>e \<in> set es. sem \<rho> e = bv_bool True) \<longleftrightarrow> agrees_on \<rho> buf [10, 20, 30, 40])"
  using assignment_constraints_characterise [of default_env buf_values buf_heap] apint_model.llvm_apint_axioms
  by (simp add: buf_values_def)

text \<open>The constructor binds each object to the bytes given with its first occurrence.\<close>

theorem assignment_lookup:
  assumes "Assignment_new objects values free = Some a"
  shows "bindings_find arr (bindings a) = map_of (zip (map arr_addr objects) values) (arr_addr arr)"
  by (rule Assignment_new_lookup [OF assms])

theorem assignment_lookup_witness:
  "bindings_find buf (bindings \<lparr>allowFreeValues = True, bindings = [(buf, [1])]\<rparr>) = Some [1]"
  using assignment_lookup [of "[buf, buf]" "[[1], [2]]" True "\<lparr>allowFreeValues = True, bindings = [(buf, [1])]\<rparr>" buf]
  by (simp add: Assignment_new_def)

text \<open>
  The evaluator does not fold a \<open>NotOptimizedExpr\<close> whose operand is a constant: all its
  kids are constants, so \<open>visitExpr\<close> returns the rebuilt node before \<open>visitExprPost\<close> is reached.
\<close>

theorem not_optimized_constant_stays:
  "Assignment_evaluate G a (NotOptimizedExpr (ConstantExpr c)) = Some (NotOptimizedExpr (ConstantExpr c))"
  by (simp add: Assignment_evaluate_def visitActual_def ExprEvaluator_visitExpr_def NotOptimizedExpr_create_def
      is_Constant_def)

text \<open>
  A division of constants by zero stops the program when it is evaluated: \<open>visitExpr\<close> folds the
  node before \<open>protectedDivOperation\<close>, which would leave it alone, is reached.
\<close>

lemma constant_division_traps:
  assumes "llvm_apint (api G)" "div_kind k" "ap_ok z" "ap_ok x" "ap_width x = ap_width z" "ap_value z = 0"
  shows "ExprEvaluator_visit G giv (BinaryExpr k (ConstantExpr x) (ConstantExpr z)) = None"
    "protectedDivOperation G k (ConstantExpr x) (ConstantExpr z) (Some (ConstantExpr x)) (Some (ConstantExpr z)) = Some SkipChildren"
proof -
  have "ConstantExpr_isZero (api G) z" using assms(1,3,6) llvm_apint.isZero_iff by blast
  then show "ExprEvaluator_visit G giv (BinaryExpr k (ConstantExpr x) (ConstantExpr z)) = None"
    using assms(2,5) by (cases k)
      (simp_all add: visitActual_def ExprEvaluator_visitExpr_def is_Constant_def UDivExpr_create_def SDivExpr_create_def
        URemExpr_create_def SRemExpr_create_def BCREATE_def div_kind_def division_traps_def)
  show "protectedDivOperation G k (ConstantExpr x) (ConstantExpr z) (Some (ConstantExpr x)) (Some (ConstantExpr z)) = Some SkipChildren"
    using assms(3,4) llvm_apint.expr_eq_iff [OF assms(1), of undefined "ConstantExpr z" "ConstantExpr z"]
      llvm_apint.expr_eq_iff [OF assms(1), of undefined "ConstantExpr x" "ConstantExpr x"]
    by (simp add: protectedDivOperation_def)
qed

end
