(* ===== verification/ImmutableTree.thy ===== *)
theory ImmutableTree
  imports KleePrelude
begin

text \<open>
  \<open>include/klee/Internal/ADT/ImmutableTree.h\<close>: the persistent height-balanced search
  tree under \<open>ImmutableMap\<close> and \<open>ImmutableSet\<close>.

  A node is a constructor with its children, its value and its stored height; the
  shared \<open>terminator\<close> node is the constructor \<open>Terminator\<close>, whose height is 0 and whose
  children are itself. The template's \<open>key_compare\<close> and \<open>key_of_value\<close> are the arguments
  \<open>lt\<close> and \<open>kov\<close> of the operations. Reference counts only decide when a node is freed;
  nodes are never written after their construction, so they are not represented.

  The locale \<open>key_order\<close> is what the tree asks of \<open>key_compare\<close>, a strict weak order.
  The operations are proved against the list of the values in order; the balance
  invariant is that of the code, heights differing by at most 2.
\<close>

section \<open>The code\<close>

datatype 'v itree = Terminator | Node "'v itree" "'v itree" 'v nat

fun isTerminator :: "'v itree \<Rightarrow> bool" where
  "isTerminator Terminator = True"
| "isTerminator (Node _ _ _ _) = False"

fun n_height :: "'v itree \<Rightarrow> nat" where
  "n_height Terminator = 0"
| "n_height (Node _ _ _ h) = h"

fun n_left :: "'v itree \<Rightarrow> 'v itree" where
  "n_left Terminator = Terminator"
| "n_left (Node l _ _ _) = l"

fun n_right :: "'v itree \<Rightarrow> 'v itree" where
  "n_right Terminator = Terminator"
| "n_right (Node _ r _ _) = r"

definition new_Node :: "'v itree \<Rightarrow> 'v itree \<Rightarrow> 'v \<Rightarrow> 'v itree" where
  "new_Node l r v = Node l r v (max (n_height l) (n_height r) + 1)"

text \<open>
  In \<open>balance\<close> a node is only taken apart when its height exceeds another one, so it is
  not the terminator; the last equations of the inner cases are never reached and build
  the unbalanced node.
\<close>

definition balance :: "'v itree \<Rightarrow> 'v \<Rightarrow> 'v itree \<Rightarrow> 'v itree" where
  "balance left v right =
    (if n_height left > n_height right + 2 then
       case left of
         Node ll lr lv _ \<Rightarrow>
           if n_height ll \<ge> n_height lr then new_Node ll (new_Node lr right v) lv
           else (case lr of
               Node lrl lrr lrv _ \<Rightarrow> new_Node (new_Node ll lrl lv) (new_Node lrr right v) lrv
             | Terminator \<Rightarrow> new_Node left right v)
       | Terminator \<Rightarrow> new_Node left right v
     else if n_height right > n_height left + 2 then
       case right of
         Node rl rr rv _ \<Rightarrow>
           if n_height rr \<ge> n_height rl then new_Node (new_Node left rl v) rr rv
           else (case rl of
               Node rll rlr rlv _ \<Rightarrow> new_Node (new_Node left rll v) (new_Node rlr rr rv) rlv
             | Terminator \<Rightarrow> new_Node left right v)
       | Terminator \<Rightarrow> new_Node left right v
     else new_Node left right v)"

fun Node_size :: "'v itree \<Rightarrow> nat" where
  "Node_size Terminator = 0"
| "Node_size (Node l r _ _) = Node_size l + 1 + Node_size r"

text \<open>
  \<open>popMin\<close> and \<open>popMax\<close> return the tree and \<open>valueOut\<close>. On the terminator the code hands
  out the terminator's own value, which nothing initialises: \<open>None\<close>.
\<close>

fun Node_popMin :: "'v itree \<Rightarrow> ('v itree \<times> 'v) option" where
  "Node_popMin Terminator = None"
| "Node_popMin (Node l r v _) =
    (if isTerminator l then Some (r, v)
     else do { (l', out) \<leftarrow> Node_popMin l; Some (balance l' v r, out) })"

fun Node_popMax :: "'v itree \<Rightarrow> ('v itree \<times> 'v) option" where
  "Node_popMax Terminator = None"
| "Node_popMax (Node l r v _) =
    (if isTerminator r then Some (l, v)
     else do { (r', out) \<leftarrow> Node_popMax r; Some (balance l v r', out) })"

fun Node_insert :: "('k \<Rightarrow> 'k \<Rightarrow> bool) \<Rightarrow> ('v \<Rightarrow> 'k) \<Rightarrow> 'v itree \<Rightarrow> 'v \<Rightarrow> 'v itree" where
  "Node_insert lt kov Terminator v = new_Node Terminator Terminator v"
| "Node_insert lt kov (Node l r x h) v =
    (if lt (kov v) (kov x) then balance (Node_insert lt kov l v) x r
     else if lt (kov x) (kov v) then balance l x (Node_insert lt kov r v)
     else Node l r x h)"

fun Node_replace :: "('k \<Rightarrow> 'k \<Rightarrow> bool) \<Rightarrow> ('v \<Rightarrow> 'k) \<Rightarrow> 'v itree \<Rightarrow> 'v \<Rightarrow> 'v itree" where
  "Node_replace lt kov Terminator v = new_Node Terminator Terminator v"
| "Node_replace lt kov (Node l r x h) v =
    (if lt (kov v) (kov x) then balance (Node_replace lt kov l v) x r
     else if lt (kov x) (kov v) then balance l x (Node_replace lt kov r v)
     else new_Node l r v)"

fun Node_remove :: "('k \<Rightarrow> 'k \<Rightarrow> bool) \<Rightarrow> ('v \<Rightarrow> 'k) \<Rightarrow> 'v itree \<Rightarrow> 'k \<Rightarrow> 'v itree option" where
  "Node_remove lt kov Terminator k = Some Terminator"
| "Node_remove lt kov (Node l r x h) k =
    (if lt k (kov x) then do { l' \<leftarrow> Node_remove lt kov l k; Some (balance l' x r) }
     else if lt (kov x) k then do { r' \<leftarrow> Node_remove lt kov r k; Some (balance l x r') }
     else if isTerminator l then Some r
     else if isTerminator r then Some l
     else do { (nr, m) \<leftarrow> Node_popMin r; Some (balance l m nr) })"

subsection \<open>The public operations\<close>

definition ImmutableTree_empty :: "'v itree \<Rightarrow> bool" where
  "ImmutableTree_empty t = isTerminator t"

fun ImmutableTree_count :: "('k \<Rightarrow> 'k \<Rightarrow> bool) \<Rightarrow> ('v \<Rightarrow> 'k) \<Rightarrow> 'v itree \<Rightarrow> 'k \<Rightarrow> nat" where
  "ImmutableTree_count lt kov Terminator k = 0"
| "ImmutableTree_count lt kov (Node l r x h) k =
    (if lt k (kov x) then ImmutableTree_count lt kov l k
     else if lt (kov x) k then ImmutableTree_count lt kov r k
     else 1)"

fun ImmutableTree_lookup :: "('k \<Rightarrow> 'k \<Rightarrow> bool) \<Rightarrow> ('v \<Rightarrow> 'k) \<Rightarrow> 'v itree \<Rightarrow> 'k \<Rightarrow> 'v option" where
  "ImmutableTree_lookup lt kov Terminator k = None"
| "ImmutableTree_lookup lt kov (Node l r x h) k =
    (if lt k (kov x) then ImmutableTree_lookup lt kov l k
     else if lt (kov x) k then ImmutableTree_lookup lt kov r k
     else Some x)"

text \<open>The loop of \<open>lookup_previous\<close>, with its local \<open>result\<close>.\<close>

fun lookup_previous_loop ::
  "('k \<Rightarrow> 'k \<Rightarrow> bool) \<Rightarrow> ('v \<Rightarrow> 'k) \<Rightarrow> 'v itree \<Rightarrow> 'v option \<Rightarrow> 'k \<Rightarrow> 'v option" where
  "lookup_previous_loop lt kov Terminator result k = result"
| "lookup_previous_loop lt kov (Node l r x h) result k =
    (if lt k (kov x) then lookup_previous_loop lt kov l result k
     else if lt (kov x) k then lookup_previous_loop lt kov r (Some x) k
     else Some x)"

definition ImmutableTree_lookup_previous ::
  "('k \<Rightarrow> 'k \<Rightarrow> bool) \<Rightarrow> ('v \<Rightarrow> 'k) \<Rightarrow> 'v itree \<Rightarrow> 'k \<Rightarrow> 'v option" where
  "ImmutableTree_lookup_previous lt kov t k = lookup_previous_loop lt kov t None k"

fun ImmutableTree_min :: "'v itree \<Rightarrow> 'v option" where
  "ImmutableTree_min Terminator = None"
| "ImmutableTree_min (Node l r x h) = (if isTerminator l then Some x else ImmutableTree_min l)"

fun ImmutableTree_max :: "'v itree \<Rightarrow> 'v option" where
  "ImmutableTree_max Terminator = None"
| "ImmutableTree_max (Node l r x h) = (if isTerminator r then Some x else ImmutableTree_max r)"

definition ImmutableTree_size :: "'v itree \<Rightarrow> nat" where
  "ImmutableTree_size t = Node_size t"

definition ImmutableTree_insert ::
  "('k \<Rightarrow> 'k \<Rightarrow> bool) \<Rightarrow> ('v \<Rightarrow> 'k) \<Rightarrow> 'v itree \<Rightarrow> 'v \<Rightarrow> 'v itree" where
  "ImmutableTree_insert lt kov t v = Node_insert lt kov t v"

definition ImmutableTree_replace ::
  "('k \<Rightarrow> 'k \<Rightarrow> bool) \<Rightarrow> ('v \<Rightarrow> 'k) \<Rightarrow> 'v itree \<Rightarrow> 'v \<Rightarrow> 'v itree" where
  "ImmutableTree_replace lt kov t v = Node_replace lt kov t v"

definition ImmutableTree_remove ::
  "('k \<Rightarrow> 'k \<Rightarrow> bool) \<Rightarrow> ('v \<Rightarrow> 'k) \<Rightarrow> 'v itree \<Rightarrow> 'k \<Rightarrow> 'v itree option" where
  "ImmutableTree_remove lt kov t k = Node_remove lt kov t k"

definition ImmutableTree_popMin :: "'v itree \<Rightarrow> ('v itree \<times> 'v) option" where
  "ImmutableTree_popMin t = Node_popMin t"

definition ImmutableTree_popMax :: "'v itree \<Rightarrow> ('v itree \<times> 'v) option" where
  "ImmutableTree_popMax t = Node_popMax t"


subsection \<open>Iterators\<close>

text \<open>
  An iterator holds the root and the stack of the nodes from the current one up to the
  root; the top of the stack is the head of the list. The stack has room for as many
  nodes as the root is high, and \<open>push_back\<close> beyond that writes past the array: \<open>None\<close>.
  The code compares nodes by address. In a tree without duplicate keys two non-terminator
  nodes of one path and their children are the same node exactly when they are equal as
  trees, which is how they are compared here.
\<close>

record 'v iterator =
  it_root :: "'v itree"
  it_stack :: "'v itree list"

definition push_back :: "nat \<Rightarrow> 'v itree \<Rightarrow> 'v itree list \<Rightarrow> 'v itree list option" where
  "push_back mx n st = (if length st < mx then Some (n # st) else None)"

text \<open>The loops \<open>for (...; !n->isTerminator(); n = n->left) stack.push_back(n)\<close> and their mirror image.\<close>

fun push_left :: "nat \<Rightarrow> 'v itree \<Rightarrow> 'v itree list \<Rightarrow> 'v itree list option" where
  "push_left mx Terminator st = Some st"
| "push_left mx (Node l r x h) st =
    do { st' \<leftarrow> push_back mx (Node l r x h) st; push_left mx l st' }"

fun push_right :: "nat \<Rightarrow> 'v itree \<Rightarrow> 'v itree list \<Rightarrow> 'v itree list option" where
  "push_right mx Terminator st = Some st"
| "push_right mx (Node l r x h) st =
    do { st' \<leftarrow> push_back mx (Node l r x h) st; push_right mx r st' }"

text \<open>The inner loops of \<open>operator++\<close> and \<open>operator--\<close>: pop until the popped node is the left (right) child of the new top.\<close>

fun climb_next :: "'v itree \<Rightarrow> 'v itree list \<Rightarrow> 'v itree list" where
  "climb_next prev [] = []"
| "climb_next prev (n # st) = (if prev = n_left n then n # st else climb_next n st)"

fun climb_prev :: "'v itree \<Rightarrow> 'v itree list \<Rightarrow> 'v itree list" where
  "climb_prev prev [] = []"
| "climb_prev prev (n # st) = (if prev = n_right n then n # st else climb_prev n st)"

definition new_iterator :: "'v itree \<Rightarrow> bool \<Rightarrow> 'v iterator option" where
  "new_iterator root atBeginning =
    (if atBeginning then
       do { st \<leftarrow> push_left (n_height root) root []; Some \<lparr>it_root = root, it_stack = st\<rparr> }
     else Some \<lparr>it_root = root, it_stack = []\<rparr>)"

fun node_value :: "'v itree \<Rightarrow> 'v option" where
  "node_value Terminator = None"
| "node_value (Node _ _ x _) = Some x"

definition iterator_deref :: "'v iterator \<Rightarrow> 'v option" where
  "iterator_deref it = (case it_stack it of [] \<Rightarrow> None | n # _ \<Rightarrow> node_value n)"

definition iterator_eq :: "'v iterator \<Rightarrow> 'v iterator \<Rightarrow> bool" where
  "iterator_eq a b \<longleftrightarrow> it_stack a = it_stack b"

definition iterator_decr :: "'v iterator \<Rightarrow> 'v iterator option" where
  "iterator_decr it =
    (let mx = n_height (it_root it) in
     case it_stack it of
       [] \<Rightarrow> do { st \<leftarrow> push_right mx (it_root it) []; Some (it\<lparr>it_stack := st\<rparr>) }
     | n # st \<Rightarrow>
         if isTerminator (n_left n) then Some (it\<lparr>it_stack := climb_prev n st\<rparr>)
         else do {
           st' \<leftarrow> push_back mx (n_left n) (n # st);
           st'' \<leftarrow> push_right mx (n_right (n_left n)) st';
           Some (it\<lparr>it_stack := st''\<rparr>) })"

definition iterator_incr :: "'v iterator \<Rightarrow> 'v iterator option" where
  "iterator_incr it =
    (let mx = n_height (it_root it) in
     case it_stack it of
       [] \<Rightarrow> None
     | n # st \<Rightarrow>
         if isTerminator (n_right n) then Some (it\<lparr>it_stack := climb_next n st\<rparr>)
         else do {
           st' \<leftarrow> push_back mx (n_right n) (n # st);
           st'' \<leftarrow> push_left mx (n_left (n_right n)) st';
           Some (it\<lparr>it_stack := st''\<rparr>) })"

definition ImmutableTree_begin :: "'v itree \<Rightarrow> 'v iterator option" where
  "ImmutableTree_begin t = new_iterator t True"

definition ImmutableTree_end :: "'v itree \<Rightarrow> 'v iterator option" where
  "ImmutableTree_end t = new_iterator t False"

text \<open>The loop of \<open>lower_bound\<close>: the stack it leaves and whether it returned at an equal key.\<close>

fun lower_bound_loop ::
  "('k \<Rightarrow> 'k \<Rightarrow> bool) \<Rightarrow> ('v \<Rightarrow> 'k) \<Rightarrow> nat \<Rightarrow> 'v itree \<Rightarrow> 'v itree list \<Rightarrow> 'k \<Rightarrow> ('v itree list \<times> bool) option" where
  "lower_bound_loop lt kov mx Terminator st k = Some (st, False)"
| "lower_bound_loop lt kov mx (Node l r x h) st k =
    do {
      st' \<leftarrow> push_back mx (Node l r x h) st;
      if lt k (kov x) then lower_bound_loop lt kov mx l st' k
      else if lt (kov x) k then lower_bound_loop lt kov mx r st' k
      else Some (st', True) }"

definition ImmutableTree_lower_bound ::
  "('k \<Rightarrow> 'k \<Rightarrow> bool) \<Rightarrow> ('v \<Rightarrow> 'k) \<Rightarrow> 'v itree \<Rightarrow> 'k \<Rightarrow> 'v iterator option" where
  "ImmutableTree_lower_bound lt kov t k =
    do {
      it \<leftarrow> new_iterator t False;
      (st, found) \<leftarrow> lower_bound_loop lt kov (n_height t) t (it_stack it) k;
      (let it = it\<lparr>it_stack := st\<rparr> in
       if found then Some it
       else case st of
           [] \<Rightarrow> Some it
         | n # _ \<Rightarrow> do { v \<leftarrow> node_value n; if lt (kov v) k then iterator_incr it else Some it }) }"

definition ImmutableTree_find ::
  "('k \<Rightarrow> 'k \<Rightarrow> bool) \<Rightarrow> ('v \<Rightarrow> 'k) \<Rightarrow> 'v itree \<Rightarrow> 'k \<Rightarrow> 'v iterator option" where
  "ImmutableTree_find lt kov t k =
    do {
      en \<leftarrow> new_iterator t False;
      it \<leftarrow> ImmutableTree_lower_bound lt kov t k;
      if iterator_eq it en then Some en
      else do { v \<leftarrow> iterator_deref it; Some (if lt k (kov v) then en else it) } }"

definition ImmutableTree_upper_bound ::
  "('k \<Rightarrow> 'k \<Rightarrow> bool) \<Rightarrow> ('v \<Rightarrow> 'k) \<Rightarrow> 'v itree \<Rightarrow> 'k \<Rightarrow> 'v iterator option" where
  "ImmutableTree_upper_bound lt kov t k =
    do {
      en \<leftarrow> new_iterator t False;
      it \<leftarrow> ImmutableTree_lower_bound lt kov t k;
      if iterator_eq it en then Some it
      else do { v \<leftarrow> iterator_deref it; if \<not> lt k (kov v) then iterator_incr it else Some it } }"

section \<open>Values in order, heights and balance\<close>

fun inorder :: "'v itree \<Rightarrow> 'v list" where
  "inorder Terminator = []"
| "inorder (Node l r x _) = inorder l @ x # inorder r"

fun heights_ok :: "'v itree \<Rightarrow> bool" where
  "heights_ok Terminator = True"
| "heights_ok (Node l r _ h) \<longleftrightarrow>
     h = max (n_height l) (n_height r) + 1 \<and>
     n_height l \<le> n_height r + 2 \<and> n_height r \<le> n_height l + 2 \<and> heights_ok l \<and> heights_ok r"

lemma isTerminator_iff [simp]: "isTerminator t \<longleftrightarrow> t = Terminator"
  by (cases t) simp_all

lemma inorder_eq_Nil [simp]: "inorder t = [] \<longleftrightarrow> t = Terminator"
  by (cases t) simp_all

lemma height_0 [simp]: "heights_ok t \<Longrightarrow> n_height t = 0 \<longleftrightarrow> t = Terminator"
  by (cases t) simp_all

lemma inorder_new_Node [simp]: "inorder (new_Node l r v) = inorder l @ v # inorder r"
  by (simp add: new_Node_def)

lemma inorder_balance [simp]: "inorder (balance l v r) = inorder l @ v # inorder r"
  by (simp add: balance_def split: itree.split)

lemma n_height_new_Node [simp]: "n_height (new_Node l r v) = max (n_height l) (n_height r) + 1"
  by (simp add: new_Node_def)

lemma heights_new_Node [simp]:
  "heights_ok (new_Node l r v) \<longleftrightarrow>
     n_height l \<le> n_height r + 2 \<and> n_height r \<le> n_height l + 2 \<and> heights_ok l \<and> heights_ok r"
  by (auto simp: new_Node_def)

text \<open>
  One operation changes the height of a subtree by at most one, so that \<open>balance\<close> is called
  on trees whose heights differ by at most 3; it restores the invariant and its result is
  as high as the unbalanced node would be, or one less.
\<close>

definition balance_post :: "'v itree \<Rightarrow> 'v itree \<Rightarrow> 'v itree \<Rightarrow> bool" where
  "balance_post l r t \<longleftrightarrow>
     heights_ok t \<and> n_height t \<le> max (n_height l) (n_height r) + 1 \<and>
     max (n_height l) (n_height r) \<le> n_height t \<and>
     (n_height l \<le> n_height r + 2 \<and> n_height r \<le> n_height l + 2 \<longrightarrow>
        n_height t = max (n_height l) (n_height r) + 1)"

lemma balance_left_high:
  assumes "heights_ok l" "heights_ok r" "n_height l = n_height r + 3"
  shows "balance_post l r (balance l v r)"
proof -
  obtain ll lr lv h where l: "l = Node ll lr lv h" using assms(3) by (cases l) auto
  show ?thesis
  proof (cases "n_height lr \<le> n_height ll")
    case True
    then show ?thesis using assms unfolding l balance_post_def
      by (simp add: balance_def)
  next
    case False
    then obtain lrl lrr lrv h' where lr: "lr = Node lrl lrr lrv h'" by (cases lr) auto
    show ?thesis using False assms unfolding l lr balance_post_def
      by (simp add: balance_def) linarith
  qed
qed

lemma balance_right_high:
  assumes "heights_ok l" "heights_ok r" "n_height r = n_height l + 3"
  shows "balance_post l r (balance l v r)"
proof -
  obtain rl rr rv h where r: "r = Node rl rr rv h" using assms(3) by (cases r) auto
  show ?thesis
  proof (cases "n_height rl \<le> n_height rr")
    case True
    then show ?thesis using assms unfolding r balance_post_def
      by (simp add: balance_def)
  next
    case False
    then obtain rll rlr rlv h' where rl: "rl = Node rll rlr rlv h'" by (cases rl) auto
    show ?thesis using False assms unfolding r rl balance_post_def
      by (simp add: balance_def) linarith
  qed
qed

lemma balance_even:
  assumes "heights_ok l" "heights_ok r" "n_height l \<le> n_height r + 2" "n_height r \<le> n_height l + 2"
  shows "balance_post l r (balance l v r)"
  using assms by (simp add: balance_def balance_post_def) linarith

lemma balance_heights:
  assumes "heights_ok l" "heights_ok r" "n_height l \<le> n_height r + 3" "n_height r \<le> n_height l + 3"
  shows "balance_post l r (balance l v r)"
proof -
  consider "n_height l = n_height r + 3" | "n_height r = n_height l + 3"
    | "n_height l \<le> n_height r + 2" "n_height r \<le> n_height l + 2" using assms(3,4) by linarith
  then show ?thesis
    by cases (rule balance_left_high balance_right_high balance_even, rule assms, rule assms, assumption+)+
qed

definition grows :: "'v itree \<Rightarrow> 'v itree \<Rightarrow> bool" where
  "grows t t' \<longleftrightarrow> heights_ok t' \<and> n_height t \<le> n_height t' \<and> n_height t' \<le> n_height t + 1"

definition shrinks :: "'v itree \<Rightarrow> 'v itree \<Rightarrow> bool" where
  "shrinks t t' \<longleftrightarrow> heights_ok t' \<and> n_height t' \<le> n_height t \<and> n_height t \<le> n_height t' + 1"

lemma grows_left:
  assumes "heights_ok (Node l r x h)" "grows l l'"
  shows "grows (Node l r x h) (balance l' v r)"
  using assms balance_heights [of l' r v] by (simp add: grows_def balance_post_def) linarith

lemma grows_right:
  assumes "heights_ok (Node l r x h)" "grows r r'"
  shows "grows (Node l r x h) (balance l v r')"
  using assms balance_heights [of l r' v] by (simp add: grows_def balance_post_def) linarith

lemma shrinks_left:
  assumes "heights_ok (Node l r x h)" "shrinks l l'"
  shows "shrinks (Node l r x h) (balance l' v r)"
  using assms balance_heights [of l' r v] by (simp add: shrinks_def balance_post_def) linarith

lemma shrinks_right:
  assumes "heights_ok (Node l r x h)" "shrinks r r'"
  shows "shrinks (Node l r x h) (balance l v r')"
  using assms balance_heights [of l r' v] by (simp add: shrinks_def balance_post_def) linarith

lemma Node_insert_grows: "heights_ok t \<Longrightarrow> grows t (Node_insert lt kov t v)"
  by (induction t) (auto simp: grows_left grows_right, auto simp: grows_def)

lemma Node_replace_grows: "heights_ok t \<Longrightarrow> grows t (Node_replace lt kov t v)"
  by (induction t) (auto simp: grows_left grows_right, auto simp: grows_def)

lemma Node_popMin_shrinks:
  "heights_ok t \<Longrightarrow> t \<noteq> Terminator \<Longrightarrow>
     \<exists>t' m. Node_popMin t = Some (t', m) \<and> shrinks t t' \<and> inorder t = m # inorder t'"
proof (induction t)
  case (Node l r x h)
  show ?case
  proof (cases "l = Terminator")
    case True
    then show ?thesis using Node.prems by (auto simp: shrinks_def)
  next
    case False
    then obtain l' m where "Node_popMin l = Some (l', m)" "shrinks l l'" "inorder l = m # inorder l'"
      using Node by auto
    then show ?thesis using False shrinks_left [OF Node.prems(1)] by auto
  qed
qed simp

lemma Node_popMax_shrinks:
  "heights_ok t \<Longrightarrow> t \<noteq> Terminator \<Longrightarrow>
     \<exists>t' m. Node_popMax t = Some (t', m) \<and> shrinks t t' \<and> inorder t = inorder t' @ [m]"
proof (induction t)
  case (Node l r x h)
  show ?case
  proof (cases "r = Terminator")
    case True
    then show ?thesis using Node.prems by (auto simp: shrinks_def)
  next
    case False
    then obtain r' m where "Node_popMax r = Some (r', m)" "shrinks r r'" "inorder r = inorder r' @ [m]"
      using Node by auto
    then show ?thesis using False shrinks_right [OF Node.prems(1)] by auto
  qed
qed simp

lemma Node_remove_shrinks:
  "heights_ok t \<Longrightarrow> \<exists>t'. Node_remove lt kov t k = Some t' \<and> shrinks t t'"
proof (induction t)
  case (Node l r x h)
  obtain l' where l': "Node_remove lt kov l k = Some l'" "shrinks l l'" using Node by auto
  obtain r' where r': "Node_remove lt kov r k = Some r'" "shrinks r r'" using Node by auto
  show ?case
  proof (cases "lt k (kov x) \<or> lt (kov x) k \<or> l = Terminator \<or> r = Terminator")
    case True
    then show ?thesis using l' r' Node.prems shrinks_left [OF Node.prems] shrinks_right [OF Node.prems]
      by (auto simp: shrinks_def)
  next
    case False
    then obtain nr m where "Node_popMin r = Some (nr, m)" "shrinks r nr"
      using Node_popMin_shrinks [of r] Node.prems by auto
    then show ?thesis using False shrinks_right [OF Node.prems] by auto
  qed
qed (simp add: shrinks_def)

text \<open>The height is logarithmic: a tree of height \<open>h\<close> has at least \<open>2 ^ ((h + 2) div 3) - 1\<close> values.\<close>

lemma Node_size_inorder: "Node_size t = length (inorder t)"
  by (induction t) simp_all

lemma height_size: "heights_ok t \<Longrightarrow> 2 ^ ((n_height t + 2) div 3) \<le> Node_size t + 1"
proof (induction t)
  case (Node l r x h)
  let ?a = "(n_height l + 2) div 3" and ?b = "(n_height r + 2) div 3"
  have ih: "2 ^ ?a \<le> Node_size l + 1" "2 ^ ?b \<le> Node_size r + 1" using Node by simp_all
  have "(h + 2) div 3 \<le> min ?a ?b + 1" using Node.prems by (auto simp: min_def max_def)
  then have "(2::nat) ^ ((h + 2) div 3) \<le> 2 ^ (min ?a ?b + 1)" by (intro power_increasing) simp_all
  also have "\<dots> = 2 ^ min ?a ?b + 2 ^ min ?a ?b" by simp
  also have "\<dots> \<le> 2 ^ ?a + 2 ^ ?b" by (intro add_mono power_increasing) simp_all
  finally show ?case using ih by simp
qed simp

section \<open>Search trees\<close>

definition lows :: "('k \<Rightarrow> 'k \<Rightarrow> bool) \<Rightarrow> ('v \<Rightarrow> 'k) \<Rightarrow> 'k \<Rightarrow> 'v list \<Rightarrow> 'v list" where
  "lows lt kov k xs = [x \<leftarrow> xs. lt (kov x) k]"

definition highs :: "('k \<Rightarrow> 'k \<Rightarrow> bool) \<Rightarrow> ('v \<Rightarrow> 'k) \<Rightarrow> 'k \<Rightarrow> 'v list \<Rightarrow> 'v list" where
  "highs lt kov k xs = [x \<leftarrow> xs. lt k (kov x)]"

definition same_key :: "('k \<Rightarrow> 'k \<Rightarrow> bool) \<Rightarrow> 'k \<Rightarrow> 'k \<Rightarrow> bool" where
  "same_key lt a b \<longleftrightarrow> \<not> lt a b \<and> \<not> lt b a"

definition key_sorted :: "('k \<Rightarrow> 'k \<Rightarrow> bool) \<Rightarrow> ('v \<Rightarrow> 'k) \<Rightarrow> 'v list \<Rightarrow> bool" where
  "key_sorted lt kov xs = sorted_wrt (\<lambda>a b. lt (kov a) (kov b)) xs"

text \<open>What every operation keeps: the values in order of their keys, and the balance.\<close>

definition tree_ok :: "('k \<Rightarrow> 'k \<Rightarrow> bool) \<Rightarrow> ('v \<Rightarrow> 'k) \<Rightarrow> 'v itree \<Rightarrow> bool" where
  "tree_ok lt kov t \<longleftrightarrow> key_sorted lt kov (inorder t) \<and> heights_ok t"

text \<open>The dictionary specification, on lists sorted by key.\<close>

definition list_lookup :: "('k \<Rightarrow> 'k \<Rightarrow> bool) \<Rightarrow> ('v \<Rightarrow> 'k) \<Rightarrow> 'v list \<Rightarrow> 'k \<Rightarrow> 'v option" where
  "list_lookup lt kov xs k = List.find (\<lambda>x. same_key lt (kov x) k) xs"

definition list_replace :: "('k \<Rightarrow> 'k \<Rightarrow> bool) \<Rightarrow> ('v \<Rightarrow> 'k) \<Rightarrow> 'v list \<Rightarrow> 'v \<Rightarrow> 'v list" where
  "list_replace lt kov xs v = lows lt kov (kov v) xs @ v # highs lt kov (kov v) xs"

definition list_insert :: "('k \<Rightarrow> 'k \<Rightarrow> bool) \<Rightarrow> ('v \<Rightarrow> 'k) \<Rightarrow> 'v list \<Rightarrow> 'v \<Rightarrow> 'v list" where
  "list_insert lt kov xs v =
    (if list_lookup lt kov xs (kov v) = None then list_replace lt kov xs v else xs)"

definition list_remove :: "('k \<Rightarrow> 'k \<Rightarrow> bool) \<Rightarrow> ('v \<Rightarrow> 'k) \<Rightarrow> 'v list \<Rightarrow> 'k \<Rightarrow> 'v list" where
  "list_remove lt kov xs k = lows lt kov k xs @ highs lt kov k xs"

lemma lows_simps [simp]:
  "lows lt kov k [] = []"
  "lows lt kov k (x # xs) = (if lt (kov x) k then x # lows lt kov k xs else lows lt kov k xs)"
  "lows lt kov k (xs @ ys) = lows lt kov k xs @ lows lt kov k ys"
  by (simp_all add: lows_def)

lemma highs_simps [simp]:
  "highs lt kov k [] = []"
  "highs lt kov k (x # xs) = (if lt k (kov x) then x # highs lt kov k xs else highs lt kov k xs)"
  "highs lt kov k (xs @ ys) = highs lt kov k xs @ highs lt kov k ys"
  by (simp_all add: highs_def)

lemma list_lookup_simps [simp]:
  "list_lookup lt kov [] k = None"
  "list_lookup lt kov (x # xs) k =
     (if same_key lt (kov x) k then Some x else list_lookup lt kov xs k)"
  by (simp_all add: list_lookup_def)

lemma list_lookup_append [simp]:
  "list_lookup lt kov (xs @ ys) k =
     (case list_lookup lt kov xs k of None \<Rightarrow> list_lookup lt kov ys k | Some x \<Rightarrow> Some x)"
  by (induction xs) simp_all

lemma list_lookup_None: "list_lookup lt kov xs k = None \<longleftrightarrow> (\<forall>x \<in> set xs. \<not> same_key lt (kov x) k)"
  by (induction xs) auto

locale key_order =
  fixes lt :: "'k \<Rightarrow> 'k \<Rightarrow> bool"
  assumes asym: "lt a b \<Longrightarrow> \<not> lt b a"
    and weak: "lt a c \<Longrightarrow> lt a b \<or> lt b c"
begin

lemma irrefl [simp]: "\<not> lt a a"
  using asym by blast

lemma trans: "lt a b \<Longrightarrow> lt b c \<Longrightarrow> lt a c"
  using weak asym by blast

lemma same_key_refl [simp]: "same_key lt a a"
  by (simp add: same_key_def)

lemma lt_same: "lt a b \<Longrightarrow> \<not> lt b c \<Longrightarrow> \<not> lt c b \<Longrightarrow> lt a c"
  "lt b a \<Longrightarrow> \<not> lt b c \<Longrightarrow> \<not> lt c b \<Longrightarrow> lt c a"
  using weak by blast+

lemma key_sorted_append [simp]:
  "key_sorted lt kov (xs @ ys) \<longleftrightarrow>
     key_sorted lt kov xs \<and> key_sorted lt kov ys \<and>
     (\<forall>x \<in> set xs. \<forall>y \<in> set ys. lt (kov x) (kov y))"
  by (simp add: key_sorted_def sorted_wrt_append)

lemma key_sorted_Nil [simp]: "key_sorted lt kov []"
  by (simp add: key_sorted_def)

lemma key_sorted_Cons [simp]:
  "key_sorted lt kov (x # xs) \<longleftrightarrow> (\<forall>y \<in> set xs. lt (kov x) (kov y)) \<and> key_sorted lt kov xs"
  by (simp add: key_sorted_def)

lemma set_lows [simp]: "set (lows lt kov k xs) = {x \<in> set xs. lt (kov x) k}"
  by (simp add: lows_def)

lemma set_highs [simp]: "set (highs lt kov k xs) = {x \<in> set xs. lt k (kov x)}"
  by (simp add: highs_def)

lemma key_sorted_lows [simp]: "key_sorted lt kov xs \<Longrightarrow> key_sorted lt kov (lows lt kov k xs)"
  by (simp add: key_sorted_def lows_def sorted_wrt_filter)

lemma key_sorted_highs [simp]: "key_sorted lt kov xs \<Longrightarrow> key_sorted lt kov (highs lt kov k xs)"
  by (simp add: key_sorted_def highs_def sorted_wrt_filter)

text \<open>A list wholly below or wholly above a key.\<close>

lemma all_low:
  assumes "\<forall>x \<in> set xs. lt (kov x) k"
  shows "lows lt kov k xs = xs" "highs lt kov k xs = []" "list_lookup lt kov xs k = None"
  using assms asym by (auto simp: lows_def highs_def list_lookup_None same_key_def filter_empty_conv)

lemma all_high:
  assumes "\<forall>x \<in> set xs. lt k (kov x)"
  shows "highs lt kov k xs = xs" "lows lt kov k xs = []" "list_lookup lt kov xs k = None"
  using assms asym by (auto simp: lows_def highs_def list_lookup_None same_key_def filter_empty_conv)

text \<open>At a node of a search tree, a key decides on which side it lies.\<close>

lemma node_sides:
  assumes "key_sorted lt kov (inorder (Node l r x h))"
  shows "\<forall>y \<in> set (inorder l). lt (kov y) (kov x)" "\<forall>y \<in> set (inorder r). lt (kov x) (kov y)"
  using assms by simp_all

lemma below_node:
  assumes "key_sorted lt kov (inorder (Node l r x h))" "lt k (kov x)"
  shows "\<forall>y \<in> set (inorder r). lt k (kov y)"
  using node_sides(2) [OF assms(1)] trans [OF assms(2)] by blast

lemma above_node:
  assumes "key_sorted lt kov (inorder (Node l r x h))" "lt (kov x) k"
  shows "\<forall>y \<in> set (inorder l). lt (kov y) k"
  using node_sides(1) [OF assms(1)] trans [OF _ assms(2)] by blast

lemma at_node:
  assumes "key_sorted lt kov (inorder (Node l r x h))" "\<not> lt k (kov x)" "\<not> lt (kov x) k"
  shows "\<forall>y \<in> set (inorder l). lt (kov y) k" "\<forall>y \<in> set (inorder r). lt k (kov y)"
  using node_sides [OF assms(1)] lt_same(1) [OF _ assms(3,2)] lt_same(2) [OF _ assms(3,2)] by blast+

lemmas sides = all_low [OF above_node] all_high [OF below_node] all_low [OF at_node(1)] all_high [OF at_node(2)]

lemma key_cases:
  obtains "lt a b" "\<not> lt b a" | "lt b a" "\<not> lt a b" | "\<not> lt a b" "\<not> lt b a"
  using asym by blast

lemma lookup_inorder:
  "key_sorted lt kov (inorder t) \<Longrightarrow> ImmutableTree_lookup lt kov t k = list_lookup lt kov (inorder t) k"
proof (induction t)
  case (Node l r x h)
  have ih: "ImmutableTree_lookup lt kov l k = list_lookup lt kov (inorder l) k"
    "ImmutableTree_lookup lt kov r k = list_lookup lt kov (inorder r) k" using Node by simp_all
  show ?case
  proof (cases rule: key_cases [of k "kov x"])
    case 1
    then show ?thesis using ih sides(4-6) [OF Node.prems 1(1)] by (simp add: same_key_def split: option.split)
  next
    case 2
    then show ?thesis using ih sides(1-3) [OF Node.prems 2(1)] by (simp add: same_key_def)
  next
    case 3
    then show ?thesis using sides(7-12) [OF Node.prems 3] by (simp add: same_key_def)
  qed
qed simp

lemma replace_inorder:
  "key_sorted lt kov (inorder t) \<Longrightarrow> inorder (Node_replace lt kov t v) = list_replace lt kov (inorder t) v"
proof (induction t)
  case (Node l r x h)
  have ih: "inorder (Node_replace lt kov l v) = list_replace lt kov (inorder l) v"
    "inorder (Node_replace lt kov r v) = list_replace lt kov (inorder r) v" using Node by simp_all
  show ?case
  proof (cases rule: key_cases [of "kov v" "kov x"])
    case 1
    then show ?thesis using ih sides(4-6) [OF Node.prems 1(1)] by (simp add: list_replace_def)
  next
    case 2
    then show ?thesis using ih sides(1-3) [OF Node.prems 2(1)] by (simp add: list_replace_def)
  next
    case 3
    then show ?thesis using sides(7-12) [OF Node.prems 3] by (simp add: list_replace_def)
  qed
qed (simp add: list_replace_def)

lemma insert_inorder:
  "key_sorted lt kov (inorder t) \<Longrightarrow> inorder (Node_insert lt kov t v) = list_insert lt kov (inorder t) v"
proof (induction t)
  case (Node l r x h)
  have ih: "inorder (Node_insert lt kov l v) = list_insert lt kov (inorder l) v"
    "inorder (Node_insert lt kov r v) = list_insert lt kov (inorder r) v" using Node by simp_all
  show ?case
  proof (cases rule: key_cases [of "kov v" "kov x"])
    case 1
    then show ?thesis using ih sides(4-6) [OF Node.prems 1(1)]
      by (simp add: list_insert_def list_replace_def same_key_def split: option.split)
  next
    case 2
    then show ?thesis using ih sides(1-3) [OF Node.prems 2(1)]
      by (simp add: list_insert_def list_replace_def same_key_def)
  next
    case 3
    then show ?thesis by (simp add: list_insert_def same_key_def split: option.split)
  qed
qed (simp add: list_insert_def list_replace_def)

lemma remove_inorder:
  "heights_ok t \<Longrightarrow> key_sorted lt kov (inorder t) \<Longrightarrow>
     \<exists>t'. Node_remove lt kov t k = Some t' \<and> inorder t' = list_remove lt kov (inorder t) k"
proof (induction t)
  case (Node l r x h)
  have kl: "heights_ok l" "key_sorted lt kov (inorder l)" and kr: "heights_ok r" "key_sorted lt kov (inorder r)"
    using Node.prems by simp_all
  obtain l' where l': "Node_remove lt kov l k = Some l'" "inorder l' = list_remove lt kov (inorder l) k"
    using Node.IH(1) [OF kl] by blast
  obtain r' where r': "Node_remove lt kov r k = Some r'" "inorder r' = list_remove lt kov (inorder r) k"
    using Node.IH(2) [OF kr] by blast
  show ?case
  proof (cases rule: key_cases [of k "kov x"])
    case 1
    then show ?thesis using l' sides(4-6) [OF Node.prems(2) 1(1)] by (simp add: list_remove_def)
  next
    case 2
    then show ?thesis using r' sides(1-3) [OF Node.prems(2) 2(1)] by (simp add: list_remove_def)
  next
    case 3
    note s = sides(7-12) [OF Node.prems(2) 3]
    show ?thesis
    proof (cases "l = Terminator \<or> r = Terminator")
      case True
      then show ?thesis using 3 s by (auto simp: list_remove_def)
    next
      case False
      then obtain nr m where "Node_popMin r = Some (nr, m)" "inorder r = m # inorder nr"
        using Node_popMin_shrinks [OF kr(1)] by blast
      then show ?thesis using 3 s False by (simp add: list_remove_def)
    qed
  qed
qed (simp add: list_remove_def)

text \<open>The specification keeps the order, and is a dictionary.\<close>

lemma list_lookup_lows_highs:
  assumes "key_sorted lt kov xs"
  shows "list_lookup lt kov (lows lt kov k xs) j = (if lt j k then list_lookup lt kov xs j else None)"
    and "list_lookup lt kov (highs lt kov k xs) j = (if lt k j then list_lookup lt kov xs j else None)"
proof -
  have "lt (kov x) k \<longleftrightarrow> lt j k" if "same_key lt (kov x) j" for x
    using that weak unfolding same_key_def by blast
  then show "list_lookup lt kov (lows lt kov k xs) j = (if lt j k then list_lookup lt kov xs j else None)"
    by (induction xs) auto
  have "lt k (kov x) \<longleftrightarrow> lt k j" if "same_key lt (kov x) j" for x
    using that weak unfolding same_key_def by blast
  then show "list_lookup lt kov (highs lt kov k xs) j = (if lt k j then list_lookup lt kov xs j else None)"
    by (induction xs) auto
qed

lemma sorted_list_replace: "key_sorted lt kov xs \<Longrightarrow> key_sorted lt kov (list_replace lt kov xs v)"
  using trans by (auto simp: list_replace_def)

lemma sorted_list_insert: "key_sorted lt kov xs \<Longrightarrow> key_sorted lt kov (list_insert lt kov xs v)"
  by (simp add: list_insert_def sorted_list_replace)

lemma sorted_list_remove: "key_sorted lt kov xs \<Longrightarrow> key_sorted lt kov (list_remove lt kov xs k)"
  using trans by (auto simp: list_remove_def)

lemma lookup_list_replace:
  "key_sorted lt kov xs \<Longrightarrow>
     list_lookup lt kov (list_replace lt kov xs v) k =
       (if same_key lt (kov v) k then Some v else list_lookup lt kov xs k)"
  using asym by (auto simp: list_replace_def list_lookup_lows_highs same_key_def split: option.split)

lemma lookup_list_remove:
  "key_sorted lt kov xs \<Longrightarrow>
     list_lookup lt kov (list_remove lt kov xs j) k =
       (if same_key lt j k then None else list_lookup lt kov xs k)"
  using asym by (auto simp: list_remove_def list_lookup_lows_highs same_key_def split: option.split)

lemma list_lookup_same: "same_key lt j k \<Longrightarrow> list_lookup lt kov xs j = list_lookup lt kov xs k"
proof -
  assume "same_key lt j k"
  then have "same_key lt (kov x) j \<longleftrightarrow> same_key lt (kov x) k" for x
    using weak unfolding same_key_def by blast
  then show ?thesis by (induction xs) auto
qed

lemma lookup_list_insert:
  "key_sorted lt kov xs \<Longrightarrow>
     list_lookup lt kov (list_insert lt kov xs v) k =
       (if same_key lt (kov v) k \<and> list_lookup lt kov xs k = None then Some v else list_lookup lt kov xs k)"
  using list_lookup_same [of "kov v" k kov xs]
  by (auto simp: list_insert_def lookup_list_replace)

end

end
