(* ===== verification/ImmutableTreeIter.thy ===== *)
theory ImmutableTreeIter
  imports ImmutableTree
begin

text \<open>
  The iterators of \<open>ImmutableTree\<close>: an iterator stands before a suffix of the values in
  order. \<open>begin\<close> stands before all of them, \<open>end\<close> before none, \<open>operator++\<close> and
  \<open>operator--\<close> move by one value, and the searches return the position they are named
  after. The stack never outgrows the array that the root's height sizes.
\<close>

section \<open>Positions\<close>

fun path_ok :: "'v itree \<Rightarrow> 'v itree list \<Rightarrow> bool" where
  "path_ok root [] = True"
| "path_ok root [n] \<longleftrightarrow> n \<noteq> Terminator \<and> n = root"
| "path_ok root (n # m # st) \<longleftrightarrow>
     n \<noteq> Terminator \<and> (n = n_left m \<or> n = n_right m) \<and> path_ok root (m # st)"

fun vals :: "'v itree \<Rightarrow> 'v list" where
  "vals Terminator = []"
| "vals (Node _ _ x _) = [x]"

text \<open>The values after and before the subtree \<open>n\<close>, whose ancestors are the stack.\<close>

fun up_next :: "'v itree \<Rightarrow> 'v itree list \<Rightarrow> 'v list" where
  "up_next n [] = []"
| "up_next n (m # st) =
    (if n = n_left m then vals m @ inorder (n_right m) @ up_next m st else up_next m st)"

fun up_prev :: "'v itree \<Rightarrow> 'v itree list \<Rightarrow> 'v list" where
  "up_prev n [] = []"
| "up_prev n (m # st) =
    (if n = n_right m then up_prev m st @ inorder (n_left m) @ vals m else up_prev m st)"

fun remaining :: "'v itree list \<Rightarrow> 'v list" where
  "remaining [] = []"
| "remaining (n # st) = vals n @ inorder (n_right n) @ up_next n st"

definition iterates ::
  "('k \<Rightarrow> 'k \<Rightarrow> bool) \<Rightarrow> ('v \<Rightarrow> 'k) \<Rightarrow> 'v itree \<Rightarrow> 'v iterator \<Rightarrow> 'v list \<Rightarrow> bool" where
  "iterates lt kov t it xs \<longleftrightarrow>
     tree_ok lt kov t \<and> it_root it = t \<and> path_ok t (it_stack it) \<and> remaining (it_stack it) = xs"

lemma inorder_split: "n \<noteq> Terminator \<Longrightarrow> inorder n = inorder (n_left n) @ vals n @ inorder (n_right n)"
  by (cases n) simp_all

lemma path_ok_tl: "path_ok root (n # st) \<Longrightarrow> path_ok root st"
  by (cases st) simp_all

lemma path_ok_Cons: "path_ok root (n # st) \<Longrightarrow> n \<noteq> Terminator"
  by (cases st) auto

lemma no_path_Terminator [simp]: "\<not> path_ok root (Terminator # st)"
  using path_ok_Cons by blast

lemma path_ok_parent: "path_ok root (n # m # st) \<Longrightarrow> m \<noteq> Terminator"
  using path_ok_Cons path_ok_tl by blast

lemma heights_left: "heights_ok n \<Longrightarrow> n \<noteq> Terminator \<Longrightarrow>
    heights_ok (n_left n) \<and> n_height (n_left n) < n_height n"
  by (cases n) auto

lemma heights_right: "heights_ok n \<Longrightarrow> n \<noteq> Terminator \<Longrightarrow>
    heights_ok (n_right n) \<and> n_height (n_right n) < n_height n"
  by (cases n) auto

lemma path_height:
  "path_ok root (n # st) \<Longrightarrow> heights_ok root \<Longrightarrow> heights_ok n \<and> n_height n + length st \<le> n_height root"
proof (induction st arbitrary: n)
  case (Cons m st)
  then have m: "heights_ok m" "n_height m + length st \<le> n_height root" and mt: "m \<noteq> Terminator"
    using path_ok_parent [of root n m st] by simp_all
  have "n = n_left m \<or> n = n_right m" using Cons.prems(1) by simp
  then show ?case using heights_left [OF m(1) mt] heights_right [OF m(1) mt] m(2) by auto
qed simp

lemma path_room:
  assumes "path_ok root (n # st)" "heights_ok root"
  shows "length st < n_height root"
  using path_height [OF assms] path_ok_Cons [OF assms(1)] by (cases n) auto

lemma push_back_ok:
  "path_ok root (n # st) \<Longrightarrow> heights_ok root \<Longrightarrow> push_back (n_height root) n st = Some (n # st)"
  by (simp add: push_back_def path_room)

text \<open>The values from the lower bound of \<open>k\<close> on, and those up to \<open>k\<close>.\<close>

definition not_below :: "('k \<Rightarrow> 'k \<Rightarrow> bool) \<Rightarrow> ('v \<Rightarrow> 'k) \<Rightarrow> 'k \<Rightarrow> 'v list \<Rightarrow> 'v list" where
  "not_below lt kov k xs = [x \<leftarrow> xs. \<not> lt (kov x) k]"

definition not_above :: "('k \<Rightarrow> 'k \<Rightarrow> bool) \<Rightarrow> ('v \<Rightarrow> 'k) \<Rightarrow> 'k \<Rightarrow> 'v list \<Rightarrow> 'v list" where
  "not_above lt kov k xs = [x \<leftarrow> xs. \<not> lt k (kov x)]"

lemma not_below_simps [simp]:
  "not_below lt kov k [] = []"
  "not_below lt kov k (x # xs) = (if lt (kov x) k then not_below lt kov k xs else x # not_below lt kov k xs)"
  "not_below lt kov k (xs @ ys) = not_below lt kov k xs @ not_below lt kov k ys"
  by (simp_all add: not_below_def)

lemma not_above_simps [simp]:
  "not_above lt kov k [] = []"
  "not_above lt kov k (x # xs) = (if lt k (kov x) then not_above lt kov k xs else x # not_above lt kov k xs)"
  "not_above lt kov k (xs @ ys) = not_above lt kov k xs @ not_above lt kov k ys"
  by (simp_all add: not_above_def)

definition last_opt :: "'v list \<Rightarrow> 'v option" where
  "last_opt xs = (if xs = [] then None else Some (last xs))"

context key_order
begin

lemma path_sorted:
  "path_ok root (n # st) \<Longrightarrow> key_sorted lt kov (inorder root) \<Longrightarrow> key_sorted lt kov (inorder n)"
proof (induction st arbitrary: n)
  case (Cons m st)
  then have "key_sorted lt kov (inorder m)" by simp
  then show ?case using Cons.prems(1) path_ok_parent [of root n m st]
    by (auto simp: inorder_split [of m])
qed simp

lemma children_differ:
  assumes "key_sorted lt kov (inorder m)" "n_left m \<noteq> Terminator"
  shows "n_left m \<noteq> n_right m"
proof
  assume eq: "n_left m = n_right m"
  obtain l r x h where m: "m = Node l r x h" using assms(2) by (cases m) auto
  obtain y where "y \<in> set (inorder l)" using assms(2) m by (cases l) auto
  then have "lt (kov y) (kov x)" "lt (kov x) (kov y)" using assms(1) eq m by auto
  then show False using asym by blast
qed

lemma path_child:
  assumes "path_ok root (n # m # st)" "key_sorted lt kov (inorder root)"
  obtains "n = n_left m" "n \<noteq> n_right m" | "n = n_right m" "n \<noteq> n_left m"
proof -
  have m: "key_sorted lt kov (inorder m)"
    using path_sorted [of root m st kov] path_ok_tl [OF assms(1)] assms(2) by blast
  have "n \<noteq> Terminator" "n = n_left m \<or> n = n_right m" using assms(1) by simp_all
  then show ?thesis using children_differ [OF m] that by metis
qed

lemma path_total:
  "path_ok root (n # st) \<Longrightarrow> key_sorted lt kov (inorder root) \<Longrightarrow>
     up_prev n st @ inorder n @ up_next n st = inorder root"
proof (induction st arbitrary: n)
  case (Cons m st)
  have ih: "up_prev m st @ inorder m @ up_next m st = inorder root"
    using Cons path_ok_tl by blast
  have m: "inorder m = inorder (n_left m) @ vals m @ inorder (n_right m)"
    using Cons.prems(1) path_ok_parent inorder_split by blast
  show ?case
    by (rule path_child [OF Cons.prems]) (simp_all add: ih [symmetric] m)
qed simp

lemma up_next_right:
  assumes "path_ok root (n_right m # m # st)" "key_sorted lt kov (inorder root)"
  shows "up_next (n_right m) (m # st) = up_next m st"
  by (rule path_child [OF assms]) simp_all

text \<open>The loops.\<close>

lemma push_left_ok:
  "path_ok root (n # st) \<Longrightarrow> heights_ok root \<Longrightarrow>
     \<exists>st'. push_left (n_height root) n st = Some st' \<and> path_ok root st' \<and>
       remaining st' = inorder n @ up_next n st"
proof (induction n arbitrary: st)
  case (Node l r x h)
  show ?case
  proof (cases "l = Terminator")
    case True
    then show ?thesis using Node.prems push_back_ok [OF Node.prems] by simp
  next
    case False
    then have "path_ok root (l # Node l r x h # st)" using Node.prems(1) by simp
    from Node.IH(1) [OF this Node.prems(2)] show ?thesis using push_back_ok [OF Node.prems] by auto
  qed
qed simp

lemma push_right_ok:
  "path_ok root (n # st) \<Longrightarrow> heights_ok root \<Longrightarrow> key_sorted lt kov (inorder root) \<Longrightarrow>
     \<exists>st'. push_right (n_height root) n st = Some st' \<and> path_ok root st' \<and>
       remaining st' = last (inorder n) # up_next n st"
proof (induction n arbitrary: st)
  case (Node l r x h)
  show ?case
  proof (cases "r = Terminator")
    case True
    then show ?thesis using Node.prems push_back_ok [OF Node.prems(1,2)] by simp
  next
    case False
    then have p: "path_ok root (r # Node l r x h # st)" using Node.prems(1) by simp
    from Node.IH(2) [OF this Node.prems(2,3)] show ?thesis
      using push_back_ok [OF Node.prems(1,2)] up_next_right [of root "Node l r x h" st kov] p Node.prems(3) False
      by auto
  qed
qed simp

lemma climb_next_ok:
  "path_ok root (n # st) \<Longrightarrow> path_ok root (climb_next n st) \<and> remaining (climb_next n st) = up_next n st"
proof (induction st arbitrary: n)
  case (Cons m st)
  then show ?case using path_ok_tl [OF Cons.prems] by simp
qed simp

lemma climb_prev_ok:
  "path_ok root (n # st) \<Longrightarrow> key_sorted lt kov (inorder root) \<Longrightarrow> up_prev n st \<noteq> [] \<Longrightarrow>
     path_ok root (climb_prev n st) \<and>
     remaining (climb_prev n st) = last (up_prev n st) # inorder n @ up_next n st"
proof (induction st arbitrary: n)
  case (Cons m st)
  have p: "path_ok root (m # st)" and m: "m \<noteq> Terminator"
    using path_ok_tl path_ok_parent Cons.prems(1) by blast+
  obtain x where x: "vals m = [x]" using m by (cases m) auto
  show ?case
  proof (rule path_child [OF Cons.prems(1,2)])
    assume "n = n_left m" "n \<noteq> n_right m"
    then show ?thesis using Cons.IH [OF p Cons.prems(2)] Cons.prems(3) inorder_split [OF m] by simp
  next
    assume "n = n_right m" "n \<noteq> n_left m"
    then show ?thesis using p x by simp
  qed
qed simp

section \<open>The operations\<close>

lemma iterates_suffix:
  assumes "iterates lt kov t it (x # xs)"
  shows "\<exists>ys. inorder t = ys @ x # xs"
proof -
  obtain n st where n: "it_stack it = n # st" "path_ok t (n # st)" "remaining (n # st) = x # xs"
    using assms by (cases "it_stack it") (auto simp: iterates_def)
  have "key_sorted lt kov (inorder t)" using assms by (simp add: iterates_def tree_ok_def)
  from path_total [OF n(2) this] show ?thesis
    using inorder_split [OF path_ok_Cons [OF n(2)]] n(3) by (metis append.assoc remaining.simps(2))
qed

lemma end_ok: "tree_ok lt kov t \<Longrightarrow> \<exists>it. ImmutableTree_end t = Some it \<and> iterates lt kov t it []"
  by (simp add: ImmutableTree_end_def new_iterator_def iterates_def)

lemma begin_ok:
  assumes "tree_ok lt kov t"
  shows "\<exists>it. ImmutableTree_begin t = Some it \<and> iterates lt kov t it (inorder t)"
proof (cases "t = Terminator")
  case False
  then have "path_ok t [t]" by simp
  moreover have "heights_ok t" using assms by (simp add: tree_ok_def)
  ultimately show ?thesis
    using push_left_ok [of t t "[]"] assms
    by (auto simp: ImmutableTree_begin_def new_iterator_def iterates_def)
qed (use assms in \<open>simp add: ImmutableTree_begin_def new_iterator_def iterates_def\<close>)

lemma iterates_Nil: "iterates lt kov t it xs \<Longrightarrow> it_stack it = [] \<longleftrightarrow> xs = []"
proof -
  assume "iterates lt kov t it xs"
  then have "path_ok t (it_stack it)" "remaining (it_stack it) = xs" by (simp_all add: iterates_def)
  then show ?thesis
    by (cases "it_stack it") (auto dest: path_ok_Cons elim: vals.elims)
qed

lemma deref_ok:
  assumes "iterates lt kov t it (x # xs)"
  shows "iterator_deref it = Some x"
proof -
  obtain n st where n: "it_stack it = n # st" using iterates_Nil [OF assms] by (cases "it_stack it") auto
  then have "n \<noteq> Terminator" "remaining (n # st) = x # xs"
    using assms path_ok_Cons by (auto simp: iterates_def)
  then show ?thesis using n by (cases n) (simp_all add: iterator_deref_def)
qed

lemma incr_ok:
  assumes "iterates lt kov t it (x # xs)"
  shows "\<exists>it'. iterator_incr it = Some it' \<and> iterates lt kov t it' xs"
proof -
  obtain n st where n: "it_stack it = n # st" using iterates_Nil [OF assms] by (cases "it_stack it") auto
  have tr: "tree_ok lt kov t" "it_root it = t" and p: "path_ok t (n # st)" and r: "remaining (n # st) = x # xs"
    using assms n by (simp_all add: iterates_def)
  have ok: "heights_ok t" "key_sorted lt kov (inorder t)" using tr by (simp_all add: tree_ok_def)
  have xs: "xs = inorder (n_right n) @ up_next n st" using r path_ok_Cons [OF p] by (cases n) simp_all
  show ?thesis
  proof (cases "n_right n = Terminator")
    case True
    then show ?thesis using n tr xs climb_next_ok [OF p] by (simp add: iterator_incr_def iterates_def)
  next
    case False
    then obtain l' r' y h' where c: "n_right n = Node l' r' y h'" by (cases "n_right n") auto
    have p': "path_ok t (n_right n # n # st)" using False p by simp
    show ?thesis using push_left_ok [OF p' ok(1)] push_back_ok [OF p' ok(1)] up_next_right [OF p' ok(2)] n tr xs
      by (auto simp: iterator_incr_def iterates_def c)
  qed
qed

lemma decr_ok:
  assumes "iterates lt kov t it xs" "inorder t = ys @ y # xs"
  shows "\<exists>it'. iterator_decr it = Some it' \<and> iterates lt kov t it' (y # xs)"
proof -
  have tr: "tree_ok lt kov t" "it_root it = t" and ps: "path_ok t (it_stack it)"
    and rs: "remaining (it_stack it) = xs" using assms(1) by (simp_all add: iterates_def)
  have ok: "heights_ok t" "key_sorted lt kov (inorder t)" using tr by (simp_all add: tree_ok_def)
  show ?thesis
  proof (cases "it_stack it")
    case Nil
    then have "path_ok t [t]" "last (inorder t) = y" "xs = []" using assms(2) rs by (cases t; force)+
    then show ?thesis using push_right_ok [of t t "[]" kov] ok tr Nil
      by (auto simp: iterator_decr_def iterates_def)
  next
    case (Cons n st)
    then have p: "path_ok t (n # st)" and r: "remaining (n # st) = xs" using ps rs by simp_all
    have sp: "inorder n = inorder (n_left n) @ vals n @ inorder (n_right n)"
      using path_ok_Cons [OF p] inorder_split by blast
    have vis: "up_prev n st @ inorder (n_left n) = ys @ [y]"
      using path_total [OF p ok(2)] assms(2) sp r by simp
    show ?thesis
    proof (cases "n_left n = Terminator")
      case True
      then have "up_prev n st = ys @ [y]" using vis by simp
      then show ?thesis using climb_prev_ok [OF p ok(2)] Cons tr True sp r
        by (simp add: iterator_decr_def iterates_def)
    next
      case False
      then obtain l' r' z h' where c: "n_left n = Node l' r' z h'" by (cases "n_left n") auto
      have p': "path_ok t (n_left n # n # st)" using False p by simp
      have l: "last (inorder (n_left n)) = y" using vis False by (metis last_appendR last_snoc inorder_eq_Nil)
      show ?thesis using push_right_ok [OF p' ok] push_back_ok [OF p' ok(1)] Cons tr r l
        by (auto simp: iterator_decr_def iterates_def c)
    qed
  qed
qed

section \<open>The searches\<close>

lemma bounds_low:
  assumes "\<forall>x \<in> set xs. lt (kov x) k"
  shows "not_below lt kov k xs = []" "not_above lt kov k xs = xs"
  using assms asym by (auto simp: not_below_def not_above_def filter_empty_conv filter_id_conv)

lemma bounds_high:
  assumes "\<forall>x \<in> set xs. lt k (kov x)"
  shows "not_below lt kov k xs = xs" "not_above lt kov k xs = []"
  using assms asym by (auto simp: not_below_def not_above_def filter_empty_conv filter_id_conv)

lemmas bound_sides = bounds_low [OF above_node] bounds_high [OF below_node]
  bounds_low [OF at_node(1)] bounds_high [OF at_node(2)]

text \<open>What the loop of \<open>lower_bound\<close> leaves, when it runs on a subtree.\<close>

definition lower_bound_post :: "('v \<Rightarrow> 'k) \<Rightarrow> 'k \<Rightarrow> 'v itree list \<Rightarrow> bool \<Rightarrow> 'v list \<Rightarrow> bool" where
  "lower_bound_post kov k st found xs \<longleftrightarrow>
     (\<exists>n rest x. st = n # rest \<and> node_value n = Some x \<and>
       (if found then remaining st = xs
        else if lt (kov x) k then remaining st = x # xs
        else remaining st = xs))"

lemma lower_bound_loop_ok:
  "path_ok root (t # st) \<Longrightarrow> heights_ok root \<Longrightarrow> key_sorted lt kov (inorder root) \<Longrightarrow>
     \<exists>st' found. lower_bound_loop lt kov (n_height root) t st k = Some (st', found) \<and>
       path_ok root st' \<and> lower_bound_post kov k st' found (not_below lt kov k (inorder t) @ up_next t st)"
proof (induction t arbitrary: st)
  case (Node l r x h)
  let ?t = "Node l r x h"
  have s: "key_sorted lt kov (inorder ?t)" using path_sorted [OF Node.prems(1,3)] .
  note pb = push_back_ok [OF Node.prems(1,2)]
  show ?case
  proof (cases rule: key_cases [of k "kov x"])
    case 1
    show ?thesis
    proof (cases "l = Terminator")
      case True
      then show ?thesis using 1 pb Node.prems(1) bound_sides(3) [OF s 1(1)]
        by (auto simp: lower_bound_post_def)
    next
      case False
      then have "path_ok root (l # ?t # st)" using Node.prems(1) by simp
      from Node.IH(1) [OF this Node.prems(2,3)] show ?thesis using 1 pb bound_sides(3) [OF s 1(1)] by simp
    qed
  next
    case 2
    show ?thesis
    proof (cases "r = Terminator")
      case True
      then show ?thesis using 2 pb Node.prems(1) bound_sides(1) [OF s 2(1)]
        by (auto simp: lower_bound_post_def)
    next
      case False
      then have p: "path_ok root (r # ?t # st)" using Node.prems(1) by simp
      from Node.IH(2) [OF this Node.prems(2,3)] show ?thesis
        using 2 pb bound_sides(1) [OF s 2(1)] up_next_right [of root ?t st kov] p Node.prems(3) by simp
    qed
  next
    case 3
    then show ?thesis using pb Node.prems(1) bound_sides(5,7) [OF s 3]
      by (auto simp: lower_bound_post_def)
  qed
qed simp

lemma lower_bound_ok:
  assumes "tree_ok lt kov t"
  shows "\<exists>it. ImmutableTree_lower_bound lt kov t k = Some it \<and>
           iterates lt kov t it (not_below lt kov k (inorder t))"
proof (cases "t = Terminator")
  case True
  then show ?thesis using assms
    by (simp add: ImmutableTree_lower_bound_def new_iterator_def iterates_def)
next
  case False
  have ok: "heights_ok t" "key_sorted lt kov (inorder t)" using assms by (simp_all add: tree_ok_def)
  have "path_ok t [t]" using False by simp
  from lower_bound_loop_ok [OF this ok, of k] obtain n rest x found where
    r: "lower_bound_loop lt kov (n_height t) t [] k = Some (n # rest, found)" "path_ok t (n # rest)"
      "node_value n = Some x" and
    post: "if found then remaining (n # rest) = not_below lt kov k (inorder t)
           else if lt (kov x) k then remaining (n # rest) = x # not_below lt kov k (inorder t)
           else remaining (n # rest) = not_below lt kov k (inorder t)"
    by (auto simp: lower_bound_post_def)
  let ?it = "\<lparr>it_root = t, it_stack = n # rest\<rparr>"
  have it: "iterates lt kov t ?it (remaining (n # rest))" using assms r(2) by (simp add: iterates_def)
  show ?thesis
  proof (cases "\<not> found \<and> lt (kov x) k")
    case True
    then have "iterates lt kov t ?it (x # not_below lt kov k (inorder t))" using post it by simp
    then show ?thesis using r True incr_ok by (simp add: ImmutableTree_lower_bound_def new_iterator_def)
  next
    case False
    then have "iterates lt kov t ?it (not_below lt kov k (inorder t))" using post it by (auto split: if_splits)
    then show ?thesis using r False
      by (auto simp: ImmutableTree_lower_bound_def new_iterator_def Let_def)
  qed
qed

text \<open>In order, the values that are not below \<open>k\<close> are the one with the key \<open>k\<close>, if any, and those above.\<close>

lemma not_below_eq:
  "key_sorted lt kov xs \<Longrightarrow>
     not_below lt kov k xs =
       (case list_lookup lt kov xs k of None \<Rightarrow> highs lt kov k xs | Some x \<Rightarrow> x # highs lt kov k xs)"
proof (induction xs)
  case (Cons x xs)
  have "\<forall>y \<in> set xs. lt k (kov y)" if "\<not> lt (kov x) k"
    using Cons.prems that weak by auto
  note hi = bounds_high [OF this] all_high [OF this]
  show ?case using Cons hi asym [of "kov x" k]
    by (cases "lt (kov x) k") (simp_all add: same_key_def split: option.split)
qed simp

lemma find_ok:
  assumes "tree_ok lt kov t"
  shows "\<exists>it. ImmutableTree_find lt kov t k = Some it \<and>
    iterates lt kov t it
      (case list_lookup lt kov (inorder t) k of None \<Rightarrow> [] | Some x \<Rightarrow> x # highs lt kov k (inorder t))"
proof -
  let ?xs = "not_below lt kov k (inorder t)"
  have s: "key_sorted lt kov (inorder t)" using assms by (simp add: tree_ok_def)
  obtain it where it: "ImmutableTree_lower_bound lt kov t k = Some it" "iterates lt kov t it ?xs"
    using lower_bound_ok [OF assms] by blast
  obtain en where en: "new_iterator t False = Some en" "iterates lt kov t en []"
    using end_ok [OF assms] by (auto simp: ImmutableTree_end_def)
  have nil: "it_stack en = []" "it_stack it = [] \<longleftrightarrow> ?xs = []"
    using iterates_Nil en(2) it(2) by blast+
  show ?thesis
  proof (cases ?xs)
    case Nil
    then show ?thesis using it en nil not_below_eq [OF s, of k]
      by (simp add: ImmutableTree_find_def iterator_eq_def split: option.splits)
  next
    case (Cons x xs)
    have d: "iterator_deref it = Some x" using deref_ok it(2) Cons by simp
    show ?thesis
    proof (cases "list_lookup lt kov (inorder t) k")
      case None
      then have "highs lt kov k (inorder t) = x # xs" using not_below_eq [OF s, of k] Cons by simp
      then have "lt k (kov x)" using set_highs [of kov k "inorder t"] by auto
      then show ?thesis using None it en nil d Cons
        by (simp add: ImmutableTree_find_def iterator_eq_def)
    next
      case (Some y)
      then have "x = y" "xs = highs lt kov k (inorder t)" using not_below_eq [OF s, of k] Cons by simp_all
      moreover have "same_key lt (kov y) k" using Some by (auto simp: list_lookup_def find_Some_iff)
      ultimately show ?thesis using Some it en nil d Cons
        by (simp add: ImmutableTree_find_def iterator_eq_def same_key_def)
    qed
  qed
qed

lemma upper_bound_ok:
  assumes "tree_ok lt kov t"
  shows "\<exists>it. ImmutableTree_upper_bound lt kov t k = Some it \<and>
    iterates lt kov t it (highs lt kov k (inorder t))"
proof -
  let ?xs = "not_below lt kov k (inorder t)"
  have s: "key_sorted lt kov (inorder t)" using assms by (simp add: tree_ok_def)
  obtain it where it: "ImmutableTree_lower_bound lt kov t k = Some it" "iterates lt kov t it ?xs"
    using lower_bound_ok [OF assms] by blast
  obtain en where en: "new_iterator t False = Some en" "iterates lt kov t en []"
    using end_ok [OF assms] by (auto simp: ImmutableTree_end_def)
  have nil: "it_stack en = []" "it_stack it = [] \<longleftrightarrow> ?xs = []"
    using iterates_Nil en(2) it(2) by blast+
  show ?thesis
  proof (cases ?xs)
    case Nil
    then show ?thesis using it en nil not_below_eq [OF s, of k]
      by (simp add: ImmutableTree_upper_bound_def iterator_eq_def split: option.splits)
  next
    case (Cons x xs)
    have d: "iterator_deref it = Some x" using deref_ok it(2) Cons by simp
    show ?thesis
    proof (cases "list_lookup lt kov (inorder t) k")
      case None
      then have eq: "?xs = highs lt kov k (inorder t)" using not_below_eq [OF s, of k] by simp
      then have "highs lt kov k (inorder t) = x # xs" using Cons by simp
      then have "lt k (kov x)" using set_highs [of kov k "inorder t"] by auto
      then show ?thesis using it en nil d eq Cons
        by (auto simp: ImmutableTree_upper_bound_def iterator_eq_def)
    next
      case (Some y)
      then have "x = y" and xs: "xs = highs lt kov k (inorder t)" using not_below_eq [OF s, of k] Cons by simp_all
      moreover have "same_key lt (kov y) k" using Some by (auto simp: list_lookup_def find_Some_iff)
      moreover have "\<exists>it'. iterator_incr it = Some it' \<and> iterates lt kov t it' xs"
        using incr_ok it(2) Cons by simp
      ultimately show ?thesis using it en nil d Cons
        by (simp add: ImmutableTree_upper_bound_def iterator_eq_def same_key_def)
    qed
  qed
qed

lemma lookup_previous_loop_ok:
  "key_sorted lt kov (inorder t) \<Longrightarrow>
     lookup_previous_loop lt kov t res k =
       (case last_opt (not_above lt kov k (inorder t)) of None \<Rightarrow> res | Some x \<Rightarrow> Some x)"
proof (induction t arbitrary: res)
  case (Node l r x h)
  have s: "key_sorted lt kov (inorder l)" "key_sorted lt kov (inorder r)" using Node.prems by simp_all
  show ?case
  proof (cases rule: key_cases [of k "kov x"])
    case 1
    then show ?thesis using Node.IH(1) [OF s(1)] bound_sides(4) [OF Node.prems 1(1)] by simp
  next
    case 2
    then show ?thesis using Node.IH(2) [OF s(2)] by (simp add: last_opt_def)
  next
    case 3
    then show ?thesis using bound_sides(8) [OF Node.prems 3] by (simp add: last_opt_def)
  qed
qed (simp add: last_opt_def)

lemma count_lookup: "ImmutableTree_count lt kov t k = (if ImmutableTree_lookup lt kov t k = None then 0 else 1)"
  by (induction t) simp_all

lemma min_inorder: "ImmutableTree_min t = (if t = Terminator then None else Some (hd (inorder t)))"
  by (induction t) simp_all

lemma max_inorder: "ImmutableTree_max t = (if t = Terminator then None else Some (last (inorder t)))"
  by (induction t) simp_all

text \<open>Every operation keeps the tree well formed.\<close>

lemma insert_ok: "tree_ok lt kov t \<Longrightarrow> tree_ok lt kov (ImmutableTree_insert lt kov t v)"
  using Node_insert_grows [of t lt kov v]
  by (simp add: tree_ok_def ImmutableTree_insert_def insert_inorder sorted_list_insert grows_def)

lemma replace_ok: "tree_ok lt kov t \<Longrightarrow> tree_ok lt kov (ImmutableTree_replace lt kov t v)"
  using Node_replace_grows [of t lt kov v]
  by (simp add: tree_ok_def ImmutableTree_replace_def replace_inorder sorted_list_replace grows_def)

lemma remove_ok:
  assumes "tree_ok lt kov t"
  shows "\<exists>t'. ImmutableTree_remove lt kov t k = Some t' \<and> tree_ok lt kov t' \<and>
           inorder t' = list_remove lt kov (inorder t) k"
proof -
  have ok: "heights_ok t" "key_sorted lt kov (inorder t)" using assms by (simp_all add: tree_ok_def)
  obtain t' where "Node_remove lt kov t k = Some t'" "inorder t' = list_remove lt kov (inorder t) k"
    using remove_inorder [OF ok] by blast
  then show ?thesis using Node_remove_shrinks [OF ok(1), of lt kov k] sorted_list_remove [OF ok(2)]
    by (auto simp: tree_ok_def ImmutableTree_remove_def shrinks_def)
qed

lemma popMin_ok:
  assumes "tree_ok lt kov t" "t \<noteq> Terminator"
  shows "\<exists>t' m. ImmutableTree_popMin t = Some (t', m) \<and> tree_ok lt kov t' \<and> inorder t = m # inorder t'"
proof -
  have ok: "heights_ok t" "key_sorted lt kov (inorder t)" using assms by (simp_all add: tree_ok_def)
  show ?thesis using Node_popMin_shrinks [OF ok(1) assms(2)] ok(2)
    by (auto simp: tree_ok_def ImmutableTree_popMin_def shrinks_def)
qed

lemma popMax_ok:
  assumes "tree_ok lt kov t" "t \<noteq> Terminator"
  shows "\<exists>t' m. ImmutableTree_popMax t = Some (t', m) \<and> tree_ok lt kov t' \<and> inorder t = inorder t' @ [m]"
proof -
  have ok: "heights_ok t" "key_sorted lt kov (inorder t)" using assms by (simp_all add: tree_ok_def)
  show ?thesis using Node_popMax_shrinks [OF ok(1) assms(2)] ok(2)
    by (auto simp: tree_ok_def ImmutableTree_popMax_def shrinks_def)
qed

end

section \<open>Comparing iterators\<close>

lemma path_below:
  "path_ok root (n # st) \<Longrightarrow> n # st = [root] \<or>
     (\<exists>ys c. n # st = ys @ [root] \<and> ys \<noteq> [] \<and> (c = n_left root \<or> c = n_right root) \<and> path_ok c ys)"
proof (induction st arbitrary: n)
  case (Cons m st)
  have m: "path_ok root (m # st)" and n: "n \<noteq> Terminator" "n = n_left m \<or> n = n_right m" using Cons.prems by simp_all
  from Cons.IH [OF m] show ?case
  proof
    assume "m # st = [root]"
    then show ?thesis using n by (intro disjI2 exI [of _ "[n]"] exI [of _ n]) simp
  next
    assume "\<exists>ys c. m # st = ys @ [root] \<and> ys \<noteq> [] \<and> (c = n_left root \<or> c = n_right root) \<and> path_ok c ys"
    then obtain ys c where ys: "m # st = ys @ [root]" "ys \<noteq> []" "c = n_left root \<or> c = n_right root" "path_ok c ys" by blast
    then obtain zs where "ys = m # zs" by (cases ys) auto
    then show ?thesis using n ys by (intro disjI2 exI [of _ "n # ys"] exI [of _ c]) simp
  qed
qed simp

context key_order
begin

lemma path_value:
  assumes "path_ok root (n # st)" "key_sorted lt kov (inorder root)" "vals n = [x]"
  shows "x \<in> set (inorder root)"
  by (subst path_total [OF assms(1,2), symmetric])
    (simp add: inorder_split [OF path_ok_Cons [OF assms(1)]] assms(3))

lemma path_unique:
  "key_sorted lt kov (inorder root) \<Longrightarrow> path_ok root (n # st) \<Longrightarrow> path_ok root (m # st') \<Longrightarrow>
     vals n = [x] \<Longrightarrow> vals m = [x] \<Longrightarrow> n # st = m # st'"
proof (induction root arbitrary: n st m st')
  case (Node l r v h)
  let ?t = "Node l r v h"
  have s: "key_sorted lt kov (inorder l)" "key_sorted lt kov (inorder r)"
    and lv: "\<And>a. a \<in> set (inorder l) \<Longrightarrow> lt (kov a) (kov v)"
    and vr: "\<And>a. a \<in> set (inorder r) \<Longrightarrow> lt (kov v) (kov a)"
    using Node.prems(1) by simp_all
  have lr: "a \<notin> set (inorder r)" if "a \<in> set (inorder l)" for a
    using asym [OF lv [OF that]] vr by blast
  have side: "n # st = [?t] \<and> x = v \<or> (\<exists>ys. n # st = ys @ [?t] \<and> path_ok l ys \<and> ys \<noteq> [] \<and> hd ys = n \<and> x \<in> set (inorder l))
      \<or> (\<exists>ys. n # st = ys @ [?t] \<and> path_ok r ys \<and> ys \<noteq> [] \<and> hd ys = n \<and> x \<in> set (inorder r))"
    if p: "path_ok ?t (n # st)" and x: "vals n = [x]" for n st
    using path_below [OF p]
  proof (elim disjE exE conjE)
    assume "n # st = [?t]" then show ?thesis using x by simp
  next
    fix ys c assume a: "n # st = ys @ [?t]" "ys \<noteq> []" "c = n_left ?t" "path_ok c ys"
    then obtain zs where zs: "ys = n # zs" by (cases ys) auto
    have "x \<in> set (inorder l)" by (rule path_value [of l n zs]) (use a zs s x in simp_all)
    then show ?thesis using a zs by (intro disjI2 disjI1 exI [of _ ys]) simp
  next
    fix ys c assume a: "n # st = ys @ [?t]" "ys \<noteq> []" "c = n_right ?t" "path_ok c ys"
    then obtain zs where zs: "ys = n # zs" by (cases ys) auto
    have "x \<in> set (inorder r)" by (rule path_value [of r n zs]) (use a zs s x in simp_all)
    then show ?thesis using a zs by (intro disjI2 exI [of _ ys]) simp
  qed
  have not: "\<not> (x = v \<and> x \<in> set (inorder l))" "\<not> (x = v \<and> x \<in> set (inorder r))"
      "\<not> (x \<in> set (inorder l) \<and> x \<in> set (inorder r))"
    using lv [of x] vr [of x] lr [of x] irrefl by auto
  show ?case using side [OF Node.prems(2,4)] side [OF Node.prems(3,5)]
  proof (elim disjE exE conjE)
    fix ys zs assume a: "n # st = ys @ [?t]" "path_ok l ys" "ys \<noteq> []" "hd ys = n"
      "m # st' = zs @ [?t]" "path_ok l zs" "zs \<noteq> []" "hd zs = m"
    have "hd ys # tl ys = hd zs # tl zs"
      by (rule Node.IH(1) [OF s(1)]) (use a(2,3,6,7) in simp, use a(2,3,6,7) in simp, use a Node.prems(4,5) in simp_all)
    then have "ys = zs" using a(3,7) by simp
    then show ?thesis using a by simp
  next
    fix ys zs assume a: "n # st = ys @ [?t]" "path_ok r ys" "ys \<noteq> []" "hd ys = n"
      "m # st' = zs @ [?t]" "path_ok r zs" "zs \<noteq> []" "hd zs = m"
    have "hd ys # tl ys = hd zs # tl zs"
      by (rule Node.IH(2) [OF s(2)]) (use a(2,3,6,7) in simp, use a(2,3,6,7) in simp, use a Node.prems(4,5) in simp_all)
    then have "ys = zs" using a(3,7) by simp
    then show ?thesis using a by simp
  qed (use not in \<open>simp_all\<close>)
next
  case Terminator
  then show ?case using path_value [of Terminator n st] by simp
qed

text \<open>Iterators of one tree before the same values compare equal, which is what the loops test.\<close>

lemma iterates_eq:
  assumes a: "iterates lt kov t a xs" and b: "iterates lt kov t b ys"
  shows "iterator_eq a b \<longleftrightarrow> xs = ys"
proof
  assume "iterator_eq a b" then show "xs = ys" using a b by (simp add: iterator_eq_def iterates_def)
next
  assume eq: "xs = ys"
  show "iterator_eq a b"
  proof (cases xs)
    case Nil
    then show ?thesis using iterates_Nil [OF a] iterates_Nil [OF b] eq by (simp add: iterator_eq_def)
  next
    case (Cons x zs)
    have head: "\<exists>n st. it_stack c = n # st \<and> vals n = [x] \<and> path_ok t (n # st)" if c: "iterates lt kov t c xs" for c
    proof -
      obtain n st where n: "it_stack c = n # st" using iterates_Nil [OF c] Cons by (cases "it_stack c") auto
      then have p: "path_ok t (n # st)" "remaining (n # st) = x # zs" using c Cons by (auto simp: iterates_def)
      then have "vals n = [x]" using path_ok_Cons [OF p(1)] by (cases n) simp_all
      then show ?thesis using n p by blast
    qed
    obtain n st where n: "it_stack a = n # st" "vals n = [x]" "path_ok t (n # st)" using head [OF a] by blast
    obtain m st' where m: "it_stack b = m # st'" "vals m = [x]" "path_ok t (m # st')"
      using head [OF b [folded eq]] by blast
    have "key_sorted lt kov (inorder t)" using a by (simp add: iterates_def tree_ok_def)
    from path_unique [OF this n(3) m(3) n(2) m(2)] show ?thesis using n m by (simp add: iterator_eq_def)
  qed
qed

end

end
