(* ===== verification/ImmutableMap.thy ===== *)
theory ImmutableMap
  imports ImmutableTreeIter
begin

text \<open>
  \<open>ImmutableMap.h\<close> and \<open>ImmutableSet.h\<close>: the two wrappers of \<open>ImmutableTree\<close>, with
  \<open>key_of_value\<close> the first component of a pair, or the value itself. The locale
  \<open>persistent_map\<close> is the interface their clients rely on; \<open>keyed_tree\<close> provides it for
  every key order, and is interpreted at \<open>std::less\<close>, the default \<open>key_compare\<close>.
\<close>

section \<open>The wrappers\<close>

type_synonym ('k, 'd) imap = "('k \<times> 'd) itree"
type_synonym 'k iset = "'k itree"

definition Select1st :: "'k \<times> 'd \<Rightarrow> 'k" where "Select1st a = fst a"

definition Identity :: "'k \<Rightarrow> 'k" where "Identity a = a"

definition ImmutableMap_new :: "('k, 'd) imap" where "ImmutableMap_new = Terminator"

definition ImmutableMap_empty :: "('k, 'd) imap \<Rightarrow> bool" where
  "ImmutableMap_empty m = ImmutableTree_empty m"

definition ImmutableMap_count :: "('k \<Rightarrow> 'k \<Rightarrow> bool) \<Rightarrow> ('k, 'd) imap \<Rightarrow> 'k \<Rightarrow> nat" where
  "ImmutableMap_count lt m k = ImmutableTree_count lt Select1st m k"

definition ImmutableMap_lookup :: "('k \<Rightarrow> 'k \<Rightarrow> bool) \<Rightarrow> ('k, 'd) imap \<Rightarrow> 'k \<Rightarrow> ('k \<times> 'd) option" where
  "ImmutableMap_lookup lt m k = ImmutableTree_lookup lt Select1st m k"

definition ImmutableMap_lookup_previous ::
  "('k \<Rightarrow> 'k \<Rightarrow> bool) \<Rightarrow> ('k, 'd) imap \<Rightarrow> 'k \<Rightarrow> ('k \<times> 'd) option" where
  "ImmutableMap_lookup_previous lt m k = ImmutableTree_lookup_previous lt Select1st m k"

definition ImmutableMap_min :: "('k, 'd) imap \<Rightarrow> ('k \<times> 'd) option" where
  "ImmutableMap_min m = ImmutableTree_min m"

definition ImmutableMap_max :: "('k, 'd) imap \<Rightarrow> ('k \<times> 'd) option" where
  "ImmutableMap_max m = ImmutableTree_max m"

definition ImmutableMap_size :: "('k, 'd) imap \<Rightarrow> nat" where
  "ImmutableMap_size m = ImmutableTree_size m"

definition ImmutableMap_insert :: "('k \<Rightarrow> 'k \<Rightarrow> bool) \<Rightarrow> ('k, 'd) imap \<Rightarrow> 'k \<times> 'd \<Rightarrow> ('k, 'd) imap" where
  "ImmutableMap_insert lt m v = ImmutableTree_insert lt Select1st m v"

definition ImmutableMap_replace :: "('k \<Rightarrow> 'k \<Rightarrow> bool) \<Rightarrow> ('k, 'd) imap \<Rightarrow> 'k \<times> 'd \<Rightarrow> ('k, 'd) imap" where
  "ImmutableMap_replace lt m v = ImmutableTree_replace lt Select1st m v"

definition ImmutableMap_remove :: "('k \<Rightarrow> 'k \<Rightarrow> bool) \<Rightarrow> ('k, 'd) imap \<Rightarrow> 'k \<Rightarrow> ('k, 'd) imap option" where
  "ImmutableMap_remove lt m k = ImmutableTree_remove lt Select1st m k"

definition ImmutableMap_begin :: "('k, 'd) imap \<Rightarrow> ('k \<times> 'd) iterator option" where
  "ImmutableMap_begin m = ImmutableTree_begin m"

definition ImmutableMap_end :: "('k, 'd) imap \<Rightarrow> ('k \<times> 'd) iterator option" where
  "ImmutableMap_end m = ImmutableTree_end m"

definition ImmutableMap_find :: "('k \<Rightarrow> 'k \<Rightarrow> bool) \<Rightarrow> ('k, 'd) imap \<Rightarrow> 'k \<Rightarrow> ('k \<times> 'd) iterator option" where
  "ImmutableMap_find lt m k = ImmutableTree_find lt Select1st m k"

definition ImmutableMap_lower_bound ::
  "('k \<Rightarrow> 'k \<Rightarrow> bool) \<Rightarrow> ('k, 'd) imap \<Rightarrow> 'k \<Rightarrow> ('k \<times> 'd) iterator option" where
  "ImmutableMap_lower_bound lt m k = ImmutableTree_lower_bound lt Select1st m k"

definition ImmutableMap_upper_bound ::
  "('k \<Rightarrow> 'k \<Rightarrow> bool) \<Rightarrow> ('k, 'd) imap \<Rightarrow> 'k \<Rightarrow> ('k \<times> 'd) iterator option" where
  "ImmutableMap_upper_bound lt m k = ImmutableTree_upper_bound lt Select1st m k"

definition ImmutableSet_empty :: "'k iset \<Rightarrow> bool" where
  "ImmutableSet_empty s = ImmutableTree_empty s"

definition ImmutableSet_count :: "('k \<Rightarrow> 'k \<Rightarrow> bool) \<Rightarrow> 'k iset \<Rightarrow> 'k \<Rightarrow> nat" where
  "ImmutableSet_count lt s k = ImmutableTree_count lt Identity s k"

definition ImmutableSet_lookup :: "('k \<Rightarrow> 'k \<Rightarrow> bool) \<Rightarrow> 'k iset \<Rightarrow> 'k \<Rightarrow> 'k option" where
  "ImmutableSet_lookup lt s k = ImmutableTree_lookup lt Identity s k"

definition ImmutableSet_min :: "'k iset \<Rightarrow> 'k option" where
  "ImmutableSet_min s = ImmutableTree_min s"

definition ImmutableSet_max :: "'k iset \<Rightarrow> 'k option" where
  "ImmutableSet_max s = ImmutableTree_max s"

definition ImmutableSet_size :: "'k iset \<Rightarrow> nat" where
  "ImmutableSet_size s = ImmutableTree_size s"

definition ImmutableSet_insert :: "('k \<Rightarrow> 'k \<Rightarrow> bool) \<Rightarrow> 'k iset \<Rightarrow> 'k \<Rightarrow> 'k iset" where
  "ImmutableSet_insert lt s v = ImmutableTree_insert lt Identity s v"

definition ImmutableSet_replace :: "('k \<Rightarrow> 'k \<Rightarrow> bool) \<Rightarrow> 'k iset \<Rightarrow> 'k \<Rightarrow> 'k iset" where
  "ImmutableSet_replace lt s v = ImmutableTree_replace lt Identity s v"

definition ImmutableSet_remove :: "('k \<Rightarrow> 'k \<Rightarrow> bool) \<Rightarrow> 'k iset \<Rightarrow> 'k \<Rightarrow> 'k iset option" where
  "ImmutableSet_remove lt s k = ImmutableTree_remove lt Identity s k"

definition ImmutableSet_begin :: "'k iset \<Rightarrow> 'k iterator option" where
  "ImmutableSet_begin s = ImmutableTree_begin s"

definition ImmutableSet_end :: "'k iset \<Rightarrow> 'k iterator option" where
  "ImmutableSet_end s = ImmutableTree_end s"

definition ImmutableSet_find :: "('k \<Rightarrow> 'k \<Rightarrow> bool) \<Rightarrow> 'k iset \<Rightarrow> 'k \<Rightarrow> 'k iterator option" where
  "ImmutableSet_find lt s k = ImmutableTree_find lt Identity s k"

definition ImmutableSet_lower_bound :: "('k \<Rightarrow> 'k \<Rightarrow> bool) \<Rightarrow> 'k iset \<Rightarrow> 'k \<Rightarrow> 'k iterator option" where
  "ImmutableSet_lower_bound lt s k = ImmutableTree_lower_bound lt Identity s k"

definition ImmutableSet_upper_bound :: "('k \<Rightarrow> 'k \<Rightarrow> bool) \<Rightarrow> 'k iset \<Rightarrow> 'k \<Rightarrow> 'k iterator option" where
  "ImmutableSet_upper_bound lt s k = ImmutableTree_upper_bound lt Identity s k"

section \<open>Histories of operations\<close>

datatype ('k, 'v) map_op = OpInsert 'v | OpReplace 'v | OpRemove 'k

fun run_op ::
  "('m \<Rightarrow> 'v \<Rightarrow> 'm) \<Rightarrow> ('m \<Rightarrow> 'v \<Rightarrow> 'm) \<Rightarrow> ('m \<Rightarrow> 'k \<Rightarrow> 'm option) \<Rightarrow> 'm \<Rightarrow> ('k, 'v) map_op \<Rightarrow> 'm option" where
  "run_op ins rep rm m (OpInsert v) = Some (ins m v)"
| "run_op ins rep rm m (OpReplace v) = Some (rep m v)"
| "run_op ins rep rm m (OpRemove k) = rm m k"

fun run_ops ::
  "('m \<Rightarrow> 'v \<Rightarrow> 'm) \<Rightarrow> ('m \<Rightarrow> 'v \<Rightarrow> 'm) \<Rightarrow> ('m \<Rightarrow> 'k \<Rightarrow> 'm option) \<Rightarrow> 'm \<Rightarrow> ('k, 'v) map_op list \<Rightarrow> 'm option" where
  "run_ops ins rep rm m [] = Some m"
| "run_ops ins rep rm m (a # as) = do { m' \<leftarrow> run_op ins rep rm m a; run_ops ins rep rm m' as }"

text \<open>The abstract map: a function from keys to stored values, updated at the equivalent keys.\<close>

fun spec_op :: "('k \<Rightarrow> 'k \<Rightarrow> bool) \<Rightarrow> ('v \<Rightarrow> 'k) \<Rightarrow> ('k \<Rightarrow> 'v option) \<Rightarrow> ('k, 'v) map_op \<Rightarrow> 'k \<Rightarrow> 'v option" where
  "spec_op eqk kov f (OpInsert v) = (\<lambda>k. if eqk (kov v) k \<and> f k = None then Some v else f k)"
| "spec_op eqk kov f (OpReplace v) = (\<lambda>k. if eqk (kov v) k then Some v else f k)"
| "spec_op eqk kov f (OpRemove j) = (\<lambda>k. if eqk j k then None else f k)"

definition spec_ops :: "('k \<Rightarrow> 'k \<Rightarrow> bool) \<Rightarrow> ('v \<Rightarrow> 'k) \<Rightarrow> ('k \<Rightarrow> 'v option) \<Rightarrow> ('k, 'v) map_op list \<Rightarrow> 'k \<Rightarrow> 'v option" where
  "spec_ops eqk kov f as = foldl (spec_op eqk kov) f as"

locale persistent_map =
  fixes inv :: "'m \<Rightarrow> bool" and new :: 'm
    and lookup :: "'m \<Rightarrow> 'k \<Rightarrow> 'v option"
    and ins :: "'m \<Rightarrow> 'v \<Rightarrow> 'm" and rep :: "'m \<Rightarrow> 'v \<Rightarrow> 'm" and rm :: "'m \<Rightarrow> 'k \<Rightarrow> 'm option"
    and kov :: "'v \<Rightarrow> 'k" and eqk :: "'k \<Rightarrow> 'k \<Rightarrow> bool"
  assumes inv_new: "inv new"
    and lookup_new: "lookup new k = None"
    and inv_ins: "inv m \<Longrightarrow> inv (ins m v)"
    and lookup_ins: "inv m \<Longrightarrow>
      lookup (ins m v) k = (if eqk (kov v) k \<and> lookup m k = None then Some v else lookup m k)"
    and inv_rep: "inv m \<Longrightarrow> inv (rep m v)"
    and lookup_rep: "inv m \<Longrightarrow> lookup (rep m v) k = (if eqk (kov v) k then Some v else lookup m k)"
    and rm_ok: "inv m \<Longrightarrow> \<exists>m'. rm m j = Some m' \<and> inv m' \<and>
      (\<forall>k. lookup m' k = (if eqk j k then None else lookup m k))"
begin

lemma run_op_ok:
  assumes "inv m"
  shows "\<exists>m'. run_op ins rep rm m a = Some m' \<and> inv m' \<and> lookup m' = spec_op eqk kov (lookup m) a"
proof (cases a)
  case (OpRemove j)
  then show ?thesis using rm_ok [OF assms, of j] by (auto simp: fun_eq_iff)
qed (auto simp: assms inv_ins inv_rep lookup_ins lookup_rep fun_eq_iff)

lemma run_ops_ok:
  "inv m \<Longrightarrow> \<exists>m'. run_ops ins rep rm m as = Some m' \<and> inv m' \<and> lookup m' = spec_ops eqk kov (lookup m) as"
proof (induction as arbitrary: m)
  case (Cons a as)
  obtain m1 where m1: "run_op ins rep rm m a = Some m1" "inv m1" "lookup m1 = spec_op eqk kov (lookup m) a"
    using run_op_ok [OF Cons.prems] by blast
  show ?case using Cons.IH [OF m1(2)] m1 by (simp add: spec_ops_def)
qed (simp add: spec_ops_def)

lemma run_ops_new:
  "\<exists>m. run_ops ins rep rm new as = Some m \<and> inv m \<and> lookup m = spec_ops eqk kov (\<lambda>_. None) as"
proof -
  have "lookup new = (\<lambda>_. None)" using lookup_new by blast
  then show ?thesis using run_ops_ok [OF inv_new, of as] by simp
qed

end

text \<open>A tree with a key order provides the interface.\<close>

locale keyed_tree = key_order lt for lt :: "'k \<Rightarrow> 'k \<Rightarrow> bool" +
  fixes kov :: "'v \<Rightarrow> 'k"
begin

lemma tree_Terminator [simp]: "tree_ok lt kov Terminator"
  by (simp add: tree_ok_def)

lemma lookup_insert_tree:
  "tree_ok lt kov t \<Longrightarrow>
     ImmutableTree_lookup lt kov (ImmutableTree_insert lt kov t v) k =
       (if same_key lt (kov v) k \<and> ImmutableTree_lookup lt kov t k = None then Some v
        else ImmutableTree_lookup lt kov t k)"
  using insert_ok [of kov t v]
  by (simp add: tree_ok_def lookup_inorder lookup_list_insert insert_inorder ImmutableTree_insert_def)

lemma lookup_replace_tree:
  "tree_ok lt kov t \<Longrightarrow>
     ImmutableTree_lookup lt kov (ImmutableTree_replace lt kov t v) k =
       (if same_key lt (kov v) k then Some v else ImmutableTree_lookup lt kov t k)"
  using replace_ok [of kov t v]
  by (simp add: tree_ok_def lookup_inorder lookup_list_replace replace_inorder ImmutableTree_replace_def)

lemma remove_tree:
  assumes "tree_ok lt kov t"
  shows "\<exists>t'. ImmutableTree_remove lt kov t j = Some t' \<and> tree_ok lt kov t' \<and>
    (\<forall>k. ImmutableTree_lookup lt kov t' k =
      (if same_key lt j k then None else ImmutableTree_lookup lt kov t k))"
  using remove_ok [OF assms, of j] assms by (auto simp: tree_ok_def lookup_inorder lookup_list_remove)

end

sublocale keyed_tree \<subseteq> dict: persistent_map "tree_ok lt kov" Terminator "ImmutableTree_lookup lt kov"
  "ImmutableTree_insert lt kov" "ImmutableTree_replace lt kov" "ImmutableTree_remove lt kov" kov "same_key lt"
  by unfold_locales
    (simp_all add: insert_ok replace_ok lookup_insert_tree lookup_replace_tree remove_tree)

text \<open>\<open>std::less\<close> on a linearly ordered key, for maps and for sets.\<close>

lemma same_key_less [simp]: "same_key (<) (a :: 'k::linorder) b \<longleftrightarrow> a = b"
  by (auto simp: same_key_def)

interpretation less: key_order "(<) :: 'k::linorder \<Rightarrow> 'k \<Rightarrow> bool"
  by unfold_locales auto

interpretation less_map: keyed_tree "(<) :: 'k::linorder \<Rightarrow> 'k \<Rightarrow> bool" "Select1st :: 'k \<times> 'd \<Rightarrow> 'k"
  by unfold_locales

interpretation less_set: keyed_tree "(<) :: 'k::linorder \<Rightarrow> 'k \<Rightarrow> bool" "Identity :: 'k \<Rightarrow> 'k"
  by unfold_locales

lemmas map_unfold =
  ImmutableMap_insert_def ImmutableMap_replace_def ImmutableMap_remove_def ImmutableMap_lookup_def
  ImmutableMap_lookup_previous_def ImmutableMap_count_def ImmutableMap_size_def
  ImmutableMap_begin_def ImmutableMap_end_def ImmutableMap_find_def
  ImmutableMap_lower_bound_def ImmutableMap_upper_bound_def ImmutableMap_new_def

lemmas set_unfold =
  ImmutableSet_insert_def ImmutableSet_remove_def ImmutableSet_count_def ImmutableSet_lookup_def
  ImmutableSet_begin_def ImmutableSet_replace_def

end
