(* ===== verification/MapProps.thy ===== *)
theory MapProps
  imports ImmutableMap
begin

text \<open>
  The properties of the persistent maps and sets, at \<open>std::less\<close> on a linearly ordered
  key. \<open>traverse\<close> is the loop \<open>for (it = begin(); it != end(); ++it)\<close> of their clients.
\<close>

partial_function (option) traverse :: "'v iterator \<Rightarrow> 'v list option" where
  "traverse it =
    (if it_stack it = [] then Some []
     else do { x \<leftarrow> iterator_deref it; it' \<leftarrow> iterator_incr it; xs \<leftarrow> traverse it'; Some (x # xs) })"

context key_order
begin

lemma traverse_ok: "iterates lt kov t it xs \<Longrightarrow> traverse it = Some xs"
proof (induction xs arbitrary: it)
  case Nil
  then show ?case by (subst traverse.simps) (simp add: iterates_Nil)
next
  case (Cons x xs)
  have ne: "it_stack it \<noteq> []" using iterates_Nil [OF Cons.prems] by simp
  obtain it' where "iterator_incr it = Some it'" "iterates lt kov t it' xs"
    using incr_ok [OF Cons.prems] by blast
  then show ?case using ne deref_ok [OF Cons.prems] Cons.IH by (subst traverse.simps) simp
qed

text \<open>Stepping back from a position returns to it.\<close>

lemma incr_decr:
  assumes "iterates lt kov t it (x # xs)"
  shows "\<exists>it1 it2. iterator_incr it = Some it1 \<and> iterator_decr it1 = Some it2 \<and> iterates lt kov t it2 (x # xs)"
proof -
  obtain it1 where it1: "iterator_incr it = Some it1" "iterates lt kov t it1 xs"
    using incr_ok [OF assms] by blast
  obtain ys where "inorder t = ys @ x # xs" using iterates_suffix [OF assms] by blast
  then show ?thesis using decr_ok [OF it1(2)] it1(1) by blast
qed

end

section \<open>Auxiliary facts on linear orders\<close>

lemma key_sorted_less: "key_sorted (<) Identity (xs :: 'k::linorder list) \<longleftrightarrow> sorted_wrt (<) xs"
  by (simp add: key_sorted_def Identity_def)

lemma set_list_insert:
  "key_sorted (<) Identity xs \<Longrightarrow> set (list_insert (<) Identity xs v) = insert v (set (xs :: 'k::linorder list))"
  by (auto simp: list_insert_def list_replace_def Identity_def list_lookup_None)

lemma foldl_insert:
  fixes xs :: "'k::linorder list"
  assumes "tree_ok (<) Identity t"
  shows "tree_ok (<) Identity (foldl (ImmutableSet_insert (<)) t xs) \<and>
         set (inorder (foldl (ImmutableSet_insert (<)) t xs)) = set (inorder t) \<union> set xs"
  using assms
proof (induction xs arbitrary: t)
  case (Cons x xs)
  have s: "key_sorted (<) Identity (inorder t)" using Cons.prems by (simp add: tree_ok_def)
  have "tree_ok (<) Identity (ImmutableSet_insert (<) t x)"
    by (simp add: ImmutableSet_insert_def less.insert_ok Cons.prems)
  moreover have "set (inorder (ImmutableSet_insert (<) t x)) = insert x (set (inorder t))"
    by (simp add: ImmutableSet_insert_def ImmutableTree_insert_def less.insert_inorder [OF s] set_list_insert [OF s])
  ultimately show ?case using Cons.IH by simp
qed simp

section \<open>Properties\<close>

text \<open>
  Map history (C5): every sequence of insertions, replacements and removals that starts
  from the empty \<open>ImmutableMap\<close> succeeds, keeps the search order and the balance of the
  tree, and its lookups are those of the function that the same sequence builds.
\<close>

theorem map_history:
  "\<exists>m. run_ops (ImmutableMap_insert (<)) (ImmutableMap_replace (<)) (ImmutableMap_remove (<))
         (ImmutableMap_new :: ('k::linorder, 'd) imap) ops = Some m \<and>
       tree_ok (<) Select1st m \<and>
       ImmutableMap_lookup (<) m = spec_ops (=) fst (\<lambda>_. None) ops"
proof -
  have eq: "same_key (<) = ((=) :: 'k \<Rightarrow> 'k \<Rightarrow> bool)" "Select1st = (fst :: 'k \<times> 'd \<Rightarrow> 'k)"
    by (simp_all add: fun_eq_iff Select1st_def)
  have fs: "ImmutableMap_insert (<) = ImmutableTree_insert (<) (Select1st :: 'k \<times> 'd \<Rightarrow> 'k)"
    "ImmutableMap_replace (<) = ImmutableTree_replace (<) (Select1st :: 'k \<times> 'd \<Rightarrow> 'k)"
    "ImmutableMap_remove (<) = ImmutableTree_remove (<) (Select1st :: 'k \<times> 'd \<Rightarrow> 'k)"
    "ImmutableMap_lookup (<) = ImmutableTree_lookup (<) (Select1st :: 'k \<times> 'd \<Rightarrow> 'k)"
    by (simp_all add: fun_eq_iff map_unfold)
  show ?thesis unfolding fs ImmutableMap_new_def
    using less_map.dict.run_ops_new [of ops] by (simp add: eq)
qed

text \<open>
  Tree height : in a well-formed tree the height is logarithmic in the number of
  values: there are at least \<open>2 ^ ((h + 2) div 3) - 1\<close> of them. The \<open>unsigned\<close> field
  \<open>height\<close> and the stack of an iterator stay small.
\<close>

theorem tree_height_bound:
  assumes "tree_ok lt kov t"
  shows "2 ^ ((n_height t + 2) div 3) \<le> ImmutableTree_size t + 1"
  using height_size [of t] assms by (simp add: tree_ok_def ImmutableTree_size_def)

definition five :: "nat itree" where
  "five = foldl (ImmutableSet_insert (<)) Terminator [1, 2, 3, 4, 5]"

lemma five_eval:
  "five = Node (Node Terminator Terminator 1 1)
     (Node Terminator (Node Terminator (Node Terminator Terminator 5 1) 4 2) 3 3) 2 4"
  by (simp add: five_def ImmutableSet_insert_def ImmutableTree_insert_def Identity_def new_Node_def balance_def)

lemma five_ok: "tree_ok (<) Identity five"
  using foldl_insert [of Terminator "[1, 2, 3, 4, 5 :: nat]"] by (simp add: five_def)

theorem tree_height_bound_witness: "2 ^ ((n_height five + 2) div 3) \<le> ImmutableTree_size five + 1"
  by (rule tree_height_bound [OF five_ok])

text \<open>
  Sorted traversal : inserting values into the empty \<open>ImmutableSet\<close> and iterating from
  \<open>begin()\<close> to \<open>end()\<close> lists them in increasing order, each once; the traversal returns and
  never leaves the array of the iterator's stack.
\<close>

theorem set_traversal:
  "\<exists>it. ImmutableSet_begin (foldl (ImmutableSet_insert (<)) Terminator xs) = Some it \<and>
     traverse it = Some (sorted_list_of_set (set (xs :: 'k::linorder list)))"
proof -
  let ?t = "foldl (ImmutableSet_insert (<)) Terminator xs"
  have ok: "tree_ok (<) Identity ?t" "set (inorder ?t) = set xs"
    using foldl_insert [of Terminator xs] by simp_all
  then have "sorted_wrt (<) (inorder ?t)" by (simp add: tree_ok_def key_sorted_less)
  then have "inorder ?t = sorted_list_of_set (set xs)"
    using ok(2) by (metis sorted_list_of_set_nonempty strict_sorted_equal sorted_list_of_set.strict_sorted_key_list_of_set
      set_sorted_list_of_set List.finite_set)
  then show ?thesis using less.begin_ok [OF ok(1)] less.traverse_ok
    by (auto simp: ImmutableSet_begin_def)
qed

lemma not_below_less: "not_below (<) Select1st k xs = [v \<leftarrow> xs. k \<le> fst (v :: 'k::linorder \<times> 'd)]"
  by (simp add: not_below_def Select1st_def not_less)

lemma not_above_less: "not_above (<) Select1st k xs = [v \<leftarrow> xs. fst (v :: 'k::linorder \<times> 'd) \<le> k]"
  by (simp add: not_above_def Select1st_def not_less)

lemma highs_less: "highs (<) Select1st k xs = [v \<leftarrow> xs. k < fst (v :: 'k::linorder \<times> 'd)]"
  by (simp add: highs_def Select1st_def)

text \<open>
  Map searches : on a well-formed map, \<open>lower_bound\<close> and \<open>upper_bound\<close> return iterators
  that stand before the entries with key at least, and above, the given one; \<open>find\<close>
  returns the entry of the key or \<open>end()\<close>; \<open>lookup_previous\<close> returns the last entry whose
  key is at most the given one.
\<close>

theorem map_searches:
  fixes m :: "('k::linorder, 'd) imap"
  assumes "tree_ok (<) Select1st m"
  shows "Option.bind (ImmutableMap_lower_bound (<) m k) traverse = Some [v \<leftarrow> inorder m. k \<le> fst v] \<and>
    Option.bind (ImmutableMap_upper_bound (<) m k) traverse = Some [v \<leftarrow> inorder m. k < fst v] \<and>
    Option.bind (ImmutableMap_find (<) m k) traverse =
      Some (case ImmutableMap_lookup (<) m k of None \<Rightarrow> [] | Some x \<Rightarrow> x # [v \<leftarrow> inorder m. k < fst v]) \<and>
    ImmutableMap_lookup_previous (<) m k = last_opt [v \<leftarrow> inorder m. fst v \<le> k]"
proof -
  have s: "key_sorted (<) Select1st (inorder m)" using assms by (simp add: tree_ok_def)
  have "Option.bind (ImmutableMap_lower_bound (<) m k) traverse = Some [v \<leftarrow> inorder m. k \<le> fst v]"
    using less.lower_bound_ok [OF assms, of k] less.traverse_ok
    by (auto simp: ImmutableMap_lower_bound_def not_below_less)
  moreover have "Option.bind (ImmutableMap_upper_bound (<) m k) traverse = Some [v \<leftarrow> inorder m. k < fst v]"
    using less.upper_bound_ok [OF assms, of k] less.traverse_ok
    by (auto simp: ImmutableMap_upper_bound_def highs_less)
  moreover have "Option.bind (ImmutableMap_find (<) m k) traverse =
      Some (case ImmutableMap_lookup (<) m k of None \<Rightarrow> [] | Some x \<Rightarrow> x # [v \<leftarrow> inorder m. k < fst v])"
  proof -
    obtain it where "ImmutableTree_find (<) Select1st m k = Some it"
      "iterates (<) Select1st m it (case ImmutableTree_lookup (<) Select1st m k of None \<Rightarrow> []
         | Some x \<Rightarrow> x # [v \<leftarrow> inorder m. k < fst v])"
      using less.find_ok [OF assms, of k] unfolding less.lookup_inorder [OF s] highs_less by blast
    then show ?thesis using less.traverse_ok
      by (simp add: ImmutableMap_find_def ImmutableMap_lookup_def)
  qed
  moreover have "ImmutableMap_lookup_previous (<) m k = last_opt [v \<leftarrow> inorder m. fst v \<le> k]"
    using less.lookup_previous_loop_ok [OF s, of None k]
    by (simp add: ImmutableMap_lookup_previous_def ImmutableTree_lookup_previous_def not_above_less
      split: option.splits)
  ultimately show ?thesis by blast
qed

definition pairs :: "(nat, nat) imap" where
  "pairs = Node (Node Terminator Terminator (10, 1) 1) (Node Terminator Terminator (30, 3) 1) (20, 2) 2"

lemma pairs_ok: "tree_ok (<) Select1st pairs"
  by (simp add: pairs_def tree_ok_def key_sorted_def Select1st_def)

theorem map_searches_witness:
  "Option.bind (ImmutableMap_lower_bound (<) pairs 15) traverse = Some [(20, 2), (30, 3)] \<and>
   Option.bind (ImmutableMap_upper_bound (<) pairs 20) traverse = Some [(30, 3)] \<and>
   ImmutableMap_lookup_previous (<) pairs 25 = Some (20, 2)"
  using map_searches [OF pairs_ok, of 15] map_searches [OF pairs_ok, of 20] map_searches [OF pairs_ok, of 25]
  by (simp add: pairs_def last_opt_def)

text \<open>
  Ends of a tree : on a non-empty well-formed tree \<open>popMin\<close> and \<open>popMax\<close> return the first and
  last value, which are those of \<open>min\<close> and \<open>max\<close>, and a well-formed tree of the others.
\<close>

theorem tree_pop:
  fixes t :: "'k::linorder itree"
  assumes "tree_ok (<) Identity t" "\<not> ImmutableTree_empty t"
  shows "(\<exists>t1 a. ImmutableTree_popMin t = Some (t1, a) \<and> ImmutableTree_min t = Some a \<and>
            tree_ok (<) Identity t1 \<and> inorder t1 = tl (inorder t)) \<and>
         (\<exists>t2 b. ImmutableTree_popMax t = Some (t2, b) \<and> ImmutableTree_max t = Some b \<and>
            tree_ok (<) Identity t2 \<and> inorder t2 = butlast (inorder t))"
proof -
  have ne: "t \<noteq> Terminator" using assms(2) by (auto simp: ImmutableTree_empty_def)
  obtain t1 a where "ImmutableTree_popMin t = Some (t1, a)" "tree_ok (<) Identity t1" "inorder t = a # inorder t1"
    using less.popMin_ok [OF assms(1) ne] by blast
  moreover obtain t2 b where "ImmutableTree_popMax t = Some (t2, b)" "tree_ok (<) Identity t2"
      "inorder t = inorder t2 @ [b]"
    using less.popMax_ok [OF assms(1) ne] by blast
  ultimately show ?thesis using ne
    by (metis less.min_inorder less.max_inorder list.sel(1,3) last_snoc butlast_snoc)
qed

theorem tree_pop_witness:
  "\<exists>t1. ImmutableTree_popMin five = Some (t1, 1) \<and> inorder t1 = [2, 3, 4, 5]"
proof -
  have "\<not> ImmutableTree_empty five" by (simp add: five_eval ImmutableTree_empty_def)
  from tree_pop [OF five_ok this] show ?thesis by (auto simp: five_eval)
qed

text \<open>
  Stepping an iterator : an iterator of a map that stands before an entry is dereferenced to it,
  \<open>operator++\<close> moves past it and \<open>operator--\<close> comes back.
\<close>

theorem map_iterator_steps:
  fixes m :: "('k::linorder, 'd) imap"
  assumes "iterates (<) Select1st m it (x # xs)"
  shows "iterator_deref it = Some x \<and>
    (\<exists>it1 it2. iterator_incr it = Some it1 \<and> iterates (<) Select1st m it1 xs \<and>
       iterator_decr it1 = Some it2 \<and> iterates (<) Select1st m it2 (x # xs))"
  using less.deref_ok [OF assms] less.incr_ok [OF assms] less.incr_decr [OF assms] by auto

theorem map_iterator_steps_witness:
  "\<exists>it it1. ImmutableMap_begin pairs = Some it \<and> iterator_incr it = Some it1 \<and>
     iterates (<) Select1st pairs it1 [(20, 2), (30, 3)]"
proof -
  obtain it where "ImmutableMap_begin pairs = Some it" "iterates (<) Select1st pairs it [(10, 1), (20, 2), (30, 3)]"
    using less.begin_ok [OF pairs_ok] by (auto simp: ImmutableMap_begin_def pairs_def)
  then show ?thesis using map_iterator_steps by blast
qed

end
