(* ===== verification/MapOfSets.thy ===== *)
theory MapOfSets
  imports KleePrelude
begin

text \<open>
  \<open>ADT/MapOfSets.h\<close>: the trie of the counterexample cache, which maps sets of keys to values
  and searches for a stored subset or superset of a set. A path from the root spells the
  elements of a set in increasing order. A \<open>std::set\<close> is the sorted list of its elements,
  an iterator into one the rest of the list; the children of a node, a \<open>std::map\<close>, are a
  list sorted by key. The value that \<open>V()\<close> gives to a new node is the parameter \<open>dv\<close>.
\<close>

section \<open>The code\<close>

datatype ('k, 'v) mnode = MNode 'v bool "('k \<times> ('k, 'v) mnode) list"

definition new_MNode :: "'v \<Rightarrow> ('k, 'v) mnode" where
  "new_MNode dv = MNode dv False []"

text \<open>\<open>children.insert(make_pair(k, Node()))\<close>, then \<open>f\<close> on the node of \<open>k\<close>.\<close>

fun at_child :: "'v \<Rightarrow> 'k::linorder \<Rightarrow> (('k, 'v) mnode \<Rightarrow> ('k, 'v) mnode) \<Rightarrow>
    ('k \<times> ('k, 'v) mnode) list \<Rightarrow> ('k \<times> ('k, 'v) mnode) list" where
  "at_child dv k f [] = [(k, f (new_MNode dv))]"
| "at_child dv k f ((j, n) # cs) =
    (if k < j then (k, f (new_MNode dv)) # (j, n) # cs
     else if k = j then (j, f n) # cs else (j, n) # at_child dv k f cs)"

fun MapOfSets_insert :: "'v \<Rightarrow> 'k::linorder list \<Rightarrow> 'v \<Rightarrow> ('k, 'v) mnode \<Rightarrow> ('k, 'v) mnode" where
  "MapOfSets_insert dv [] value (MNode v e cs) = MNode value True cs"
| "MapOfSets_insert dv (k # ks) value (MNode v e cs) =
    MNode v e (at_child dv k (MapOfSets_insert dv ks value) cs)"

fun MapOfSets_lookup :: "'k list \<Rightarrow> ('k, 'v) mnode \<Rightarrow> 'v option" where
  "MapOfSets_lookup [] (MNode v e cs) = (if e then Some v else None)"
| "MapOfSets_lookup (k # ks) (MNode v e cs) =
    (case map_of cs k of None \<Rightarrow> None | Some n \<Rightarrow> MapOfSets_lookup ks n)"

definition MapOfSets_clear :: "'v \<Rightarrow> ('k, 'v) mnode \<Rightarrow> ('k, 'v) mnode" where
  "MapOfSets_clear dv root = MNode dv False []"

text \<open>\<open>findSubsets\<close>, and its loop over the elements that are left.\<close>

function findSubsets :: "('k, 'v) mnode \<Rightarrow> 'k set \<Rightarrow> 'k list \<Rightarrow> ('k set \<times> 'v) list"
  and subsets_loop :: "('k \<times> ('k, 'v) mnode) list \<Rightarrow> 'k set \<Rightarrow> 'k list \<Rightarrow> ('k set \<times> 'v) list" where
  "findSubsets (MNode v e cs) accum es = (if e then [(accum, v)] else []) @ subsets_loop cs accum es"
| "subsets_loop cs accum [] = []"
| "subsets_loop cs accum (elt # es) =
    (case map_of cs elt of None \<Rightarrow> [] | Some n \<Rightarrow> findSubsets n (insert elt accum) es) @ subsets_loop cs accum es"
  by pat_completeness auto

termination
  by (relation "measure (\<lambda>x. case x of Inl (n, a, es) \<Rightarrow> 2 * length es + 1 | Inr (cs, a, es) \<Rightarrow> 2 * length es)") auto

definition MapOfSets_subsets :: "'k list \<Rightarrow> ('k, 'v) mnode \<Rightarrow> ('k set \<times> 'v) list" where
  "MapOfSets_subsets ks root = findSubsets root {} ks"

fun findSupersets :: "('k::linorder, 'v) mnode \<Rightarrow> 'k set \<Rightarrow> 'k list \<Rightarrow> ('k set \<times> 'v) list"
  and supersets_loop :: "('k \<times> ('k, 'v) mnode) list \<Rightarrow> 'k set \<Rightarrow> 'k list \<Rightarrow> ('k set \<times> 'v) list" where
  "findSupersets (MNode v e cs) accum es =
    (if es = [] \<and> e then [(accum, v)] else []) @ supersets_loop cs accum es"
| "supersets_loop [] accum es = []"
| "supersets_loop ((k, n) # cs) accum es =
    (case es of
       [] \<Rightarrow> findSupersets n (insert k accum) [] @ supersets_loop cs accum []
     | elt # rest \<Rightarrow>
         if elt = k then findSupersets n (insert k accum) rest @ supersets_loop cs accum es
         else if k < elt then findSupersets n (insert k accum) es @ supersets_loop cs accum es
         else [])"

definition MapOfSets_supersets :: "'k::linorder list \<Rightarrow> ('k, 'v) mnode \<Rightarrow> ('k set \<times> 'v) list" where
  "MapOfSets_supersets ks root = findSupersets root {} ks"

text \<open>\<open>children.lower_bound(k)\<close>, as the children from there on.\<close>

definition children_from :: "'k::linorder \<Rightarrow> ('k \<times> ('k, 'v) mnode) list \<Rightarrow> ('k \<times> ('k, 'v) mnode) list" where
  "children_from k cs = dropWhile (\<lambda>c. fst c < k) cs"

text \<open>The measure of the searches below: the nodes of a list of children.\<close>

definition csize :: "('k \<times> ('k, 'v) mnode) list \<Rightarrow> nat" where
  "csize cs = size_list (size_prod (\<lambda>_. 0) size) cs"

lemma csize_simps [simp]:
  "csize [] = 0" "csize (c # cs) = size (snd c) + csize cs + 2" "size (MNode v e cs) = csize cs + 1"
  by (cases c; simp add: csize_def)+

declare mnode.size [simp del]

lemma csize_dropWhile: "csize (dropWhile P cs) \<le> csize cs"
  by (induction cs) auto

lemma csize_child [termination_simp]: "(k, n) \<in> set cs \<Longrightarrow> size n < Suc (csize cs)"
  by (induction cs) auto

text \<open>
  \<open>findSubset\<close>, and its \<open>for (;;)\<close> loop with the positions \<open>kbegin\<close> and \<open>it\<close>, neither of which
  is at its end when an iteration begins.
\<close>

function findSubset :: "('v \<Rightarrow> bool) \<Rightarrow> ('k::linorder, 'v) mnode \<Rightarrow> 'k list \<Rightarrow> 'v option"
  and subset_loop :: "('v \<Rightarrow> bool) \<Rightarrow> ('k \<times> ('k, 'v) mnode) list \<Rightarrow> 'k list \<Rightarrow> 'v option" where
  "findSubset p (MNode v e cs) es =
    (if e \<and> p v then Some v
     else case es of
            [] \<Rightarrow> None
          | b # _ \<Rightarrow> (case children_from b cs of [] \<Rightarrow> None | kbegin \<Rightarrow> subset_loop p kbegin es))"
| "subset_loop p [] es = None"
| "subset_loop p ((k, n) # cs) es =
    (case dropWhile (\<lambda>a. a < k) es of
       [] \<Rightarrow> None
     | a # it \<Rightarrow>
         if a = k then
           (case findSubset p n it of
              Some r \<Rightarrow> Some r
            | None \<Rightarrow>
                (case it of
                   [] \<Rightarrow> None
                 | b # _ \<Rightarrow> (case children_from b ((k, n) # cs) of [] \<Rightarrow> None | kbegin \<Rightarrow> subset_loop p kbegin it)))
         else (case children_from a ((k, n) # cs) of [] \<Rightarrow> None | kbegin \<Rightarrow> subset_loop p kbegin (a # it)))"
  by pat_completeness auto

termination
proof (relation "measure (\<lambda>x. case x of Inl (p, n, es) \<Rightarrow> size n + length es | Inr (p, cs, es) \<Rightarrow> csize cs + length es)", goal_cases)
  case (2 p v e cs es b bs c cs')
  then show ?case using csize_dropWhile [of "\<lambda>c. fst c < b" cs] by (simp add: children_from_def)
next
  case (3 p k n cs es a it)
  then show ?case using length_dropWhile_le [of "\<lambda>a. a < k" es] by simp
next
  case (4 p k n cs es a it b bs c cs')
  then show ?case
    using length_dropWhile_le [of "\<lambda>a. a < k" es] csize_dropWhile [of "\<lambda>c. fst c < b" "(k, n) # cs"]
    by (simp add: children_from_def del: dropWhile.simps)
next
  case (5 p k n cs es a it c cs')
  then have "\<not> a < k" using hd_dropWhile [of "\<lambda>a. a < k" es] by fastforce
  then have "k < a" using 5 by simp
  then show ?case using 5 length_dropWhile_le [of "\<lambda>a. a < k" es] csize_dropWhile [of "\<lambda>c. fst c < a" cs]
    by (simp add: children_from_def)
qed simp

text \<open>
  \<open>findSuperset\<close>. Its loop over the children passes \<open>begin\<close> on unchanged, to all of them;
  the child of \<open>*begin\<close> is searched once more behind \<open>begin\<close>.
\<close>

function findSuperset :: "('v \<Rightarrow> bool) \<Rightarrow> ('k::linorder, 'v) mnode \<Rightarrow> 'k list \<Rightarrow> 'v option"
  and superset_loop :: "('v \<Rightarrow> bool) \<Rightarrow> ('k \<times> ('k, 'v) mnode) list \<Rightarrow> 'k list \<Rightarrow> 'v option" where
  "findSuperset p (MNode v e cs) es =
    (case es of
       [] \<Rightarrow> if e \<and> p v then Some v else superset_loop p cs []
     | b # rest \<Rightarrow>
         (case superset_loop p cs es of
            Some r \<Rightarrow> Some r
          | None \<Rightarrow>
              (case children_from b cs of
                 [] \<Rightarrow> None
               | kmid # _ \<Rightarrow> if b = fst kmid then findSuperset p (snd kmid) rest else None)))"
| "superset_loop p [] es = None"
| "superset_loop p ((k, n) # cs) es =
    (case findSuperset p n es of Some r \<Rightarrow> Some r | None \<Rightarrow> superset_loop p cs es)"
  by pat_completeness auto

termination
proof (relation "measure (\<lambda>x. case x of Inl (p, n, es) \<Rightarrow> size n | Inr (p, cs, es) \<Rightarrow> csize cs)", goal_cases)
  case (4 p v e cs es b rest kmid ks)
  then have "csize (kmid # ks) \<le> csize cs" using csize_dropWhile [of "\<lambda>c. fst c < b" cs] by (simp add: children_from_def)
  then show ?case by simp
qed auto

definition MapOfSets_findSubset :: "'k::linorder list \<Rightarrow> ('v \<Rightarrow> bool) \<Rightarrow> ('k, 'v) mnode \<Rightarrow> 'v option" where
  "MapOfSets_findSubset ks p root = findSubset p root ks"

definition MapOfSets_findSuperset :: "'k::linorder list \<Rightarrow> ('v \<Rightarrow> bool) \<Rightarrow> ('k, 'v) mnode \<Rightarrow> 'v option" where
  "MapOfSets_findSuperset ks p root = findSuperset p root ks"

section \<open>Iterators\<close>

text \<open>
  The stack holds the positions in the maps of children, the innermost first; a position is
  the list of the children from there on. \<open>step\<close> goes down to the next entry, or up.
\<close>

record ('k, 'v) miterator =
  mi_root :: "('k, 'v) mnode"
  mi_onEntry :: bool
  mi_stack :: "('k \<times> ('k, 'v) mnode) list list"

fun m_isEndOfSet :: "('k, 'v) mnode \<Rightarrow> bool" where "m_isEndOfSet (MNode v e cs) = e"
fun m_children :: "('k, 'v) mnode \<Rightarrow> ('k \<times> ('k, 'v) mnode) list" where "m_children (MNode v e cs) = cs"
fun m_value :: "('k, 'v) mnode \<Rightarrow> 'v" where "m_value (MNode v e cs) = v"

fun descend :: "('k, 'v) mnode \<Rightarrow> ('k \<times> ('k, 'v) mnode) list list \<Rightarrow> ('k \<times> ('k, 'v) mnode) list list \<times> bool" where
  "descend (MNode v e []) st = (st, False)"
| "descend (MNode v e ((k, n) # cs)) st =
    (if m_isEndOfSet n then (((k, n) # cs) # st, True) else descend n (((k, n) # cs) # st))"

fun to_entry :: "('k, 'v) mnode \<Rightarrow> ('k \<times> ('k, 'v) mnode) list list \<Rightarrow> ('k \<times> ('k, 'v) mnode) list list option" where
  "to_entry (MNode v True cs) st = Some st"
| "to_entry (MNode v False []) st = None"
| "to_entry (MNode v False ((k, n) # cs)) st = to_entry n (((k, n) # cs) # st)"

fun climb :: "('k \<times> ('k, 'v) mnode) list list \<Rightarrow> (('k \<times> ('k, 'v) mnode) list list \<times> bool) option" where
  "climb [] = Some ([], False)"
| "climb ([] # st) = None"
| "climb ((_ # []) # st) = climb st"
| "climb ((_ # (k, n) # cs) # st) = do { st' \<leftarrow> to_entry n (((k, n) # cs) # st); Some (st', True) }"

definition m_at :: "('k, 'v) miterator \<Rightarrow> ('k, 'v) mnode option" where
  "m_at it = (case mi_stack it of [] \<Rightarrow> Some (mi_root it) | [] # _ \<Rightarrow> None | ((k, n) # _) # _ \<Rightarrow> Some n)"

definition MapOfSets_step :: "('k, 'v) miterator \<Rightarrow> ('k, 'v) miterator option" where
  "MapOfSets_step it =
    do {
      (st, found) \<leftarrow> if mi_onEntry it then do { n \<leftarrow> m_at it; Some (descend n (mi_stack it)) }
                     else Some (mi_stack it, False);
      (st', on) \<leftarrow> if found then Some (st, True) else climb st;
      Some (it\<lparr>mi_stack := st', mi_onEntry := on\<rparr>) }"

definition MapOfSets_begin :: "('k, 'v) mnode \<Rightarrow> ('k, 'v) miterator option" where
  "MapOfSets_begin root =
    (let it = \<lparr>mi_root = root, mi_onEntry = True, mi_stack = []\<rparr>
     in if m_isEndOfSet root then Some it else MapOfSets_step it)"

definition m_at_end :: "('k, 'v) miterator \<Rightarrow> bool" where
  "m_at_end it \<longleftrightarrow> \<not> mi_onEntry it \<and> mi_stack it = []"

definition MapOfSets_deref :: "('k, 'v) miterator \<Rightarrow> ('k set \<times> 'v) option" where
  "MapOfSets_deref it =
    check (mi_onEntry it \<or> mi_stack it \<noteq> [])
      (do { n \<leftarrow> m_at it;
            Some (set (map (\<lambda>cs. fst (hd cs)) (mi_stack it)), m_value n) })"

section \<open>The stored sets\<close>

text \<open>
  Below a child all keys are greater than its own, the children are sorted, and (\<open>full\<close>)
  below every child there is an entry, so that a walk down always meets one.
\<close>

definition above :: "'k::linorder option \<Rightarrow> 'k \<Rightarrow> bool" where
  "above lo k \<longleftrightarrow> (case lo of None \<Rightarrow> True | Some a \<Rightarrow> a < k)"

fun mos_ok :: "'k::linorder option \<Rightarrow> ('k, 'v) mnode \<Rightarrow> bool" where
  "mos_ok lo (MNode v e cs) \<longleftrightarrow>
     sorted_wrt (<) (map fst cs) \<and> (\<forall>(k, n) \<in> set cs. above lo k \<and> mos_ok (Some k) n)"

fun full :: "('k, 'v) mnode \<Rightarrow> bool" where
  "full (MNode v e cs) \<longleftrightarrow> (\<forall>(k, n) \<in> set cs. (m_isEndOfSet n \<or> m_children n \<noteq> []) \<and> full n)"

lemma above_trans: "above lo k \<Longrightarrow> k < a \<Longrightarrow> above lo a"
  by (auto simp: above_def split: option.splits)

lemma map_of_child:
  fixes cs :: "('k::linorder \<times> 'n) list"
  assumes "sorted_wrt (<) (map fst cs)"
  shows "map_of cs k = Some n \<longleftrightarrow> (k, n) \<in> set cs"
proof -
  have "distinct (map fst cs)" using assms by (simp add: strict_sorted_iff)
  then show ?thesis by simp
qed

lemma lookup_path:
  "mos_ok lo n \<Longrightarrow> MapOfSets_lookup q n = Some x \<Longrightarrow> sorted_wrt (<) q \<and> (\<forall>a \<in> set q. above lo a)"
proof (induction q n arbitrary: lo rule: MapOfSets_lookup.induct)
  case (2 k ks v e cs)
  obtain n where n: "map_of cs k = Some n" "MapOfSets_lookup ks n = Some x"
    using "2.prems"(2) by (auto split: option.splits)
  then have "(k, n) \<in> set cs" by (auto dest: map_of_SomeD)
  then have k: "above lo k" "mos_ok (Some k) n" using "2.prems"(1) by auto
  then show ?case using "2.IH" [OF n(1) k(2) n(2)] above_trans [OF k(1)] by (auto simp: above_def)
qed simp

lemma at_child_keys: "fst ` set (at_child dv k f cs) = insert k (fst ` set cs)"
  by (induction dv k f cs rule: at_child.induct) auto

lemma at_child_sorted:
  "sorted_wrt (<) (map fst cs) \<Longrightarrow> sorted_wrt (<) (map fst (at_child dv k f cs))"
proof (induction dv k f cs rule: at_child.induct)
  case (2 dv k f j n cs)
  have "\<forall>a \<in> fst ` set (at_child dv k f cs). j < a" if "j < k"
    using "2.prems" that unfolding at_child_keys by auto
  then show ?case using 2 by (auto simp: less_trans)
qed simp

lemma at_child_set:
  "sorted_wrt (<) (map fst cs) \<Longrightarrow> (j, n) \<in> set (at_child dv k f cs) \<Longrightarrow>
     (j \<noteq> k \<and> (j, n) \<in> set cs) \<or> (j = k \<and> (n = f (new_MNode dv) \<or> (\<exists>m. (k, m) \<in> set cs \<and> n = f m)))"
  by (induction dv k f cs rule: at_child.induct) (auto split: if_splits)

lemma map_of_at_child:
  "sorted_wrt (<) (map fst cs) \<Longrightarrow> map_of (at_child dv k f cs) j =
     (if j = k then Some (f (case map_of cs k of None \<Rightarrow> new_MNode dv | Some n \<Rightarrow> n)) else map_of cs j)"
proof (induction dv k f cs rule: at_child.induct)
  case (2 dv k f i n cs)
  have "map_of cs k = None" if "k < i" using "2.prems" that by (auto simp: map_of_eq_None_iff)
  then show ?case using 2 by auto
qed simp

lemma insert_mos_ok:
  "mos_ok lo n \<Longrightarrow> sorted_wrt (<) q \<Longrightarrow> \<forall>a \<in> set q. above lo a \<Longrightarrow> mos_ok lo (MapOfSets_insert dv q x n)"
proof (induction dv q x n arbitrary: lo rule: MapOfSets_insert.induct)
  case (2 dv k ks x v e cs)
  have cs: "sorted_wrt (<) (map fst cs)" "\<And>j m. (j, m) \<in> set cs \<Longrightarrow> above lo j \<and> mos_ok (Some j) m"
    using "2.prems"(1) by auto
  have k: "above lo k" "sorted_wrt (<) ks" "\<forall>a \<in> set ks. above (Some k) a"
    using "2.prems"(2,3) by (auto simp: above_def)
  let ?f = "MapOfSets_insert dv ks x"
  have new: "mos_ok (Some k) (?f (new_MNode dv))"
    by (rule "2.IH" [OF _ k(2,3)]) (simp add: new_MNode_def)
  have old: "mos_ok (Some k) (?f m)" if "(k, m) \<in> set cs" for m
    by (rule "2.IH" [OF _ k(2,3)]) (use cs(2) [OF that] in simp)
  have "above lo j \<and> mos_ok (Some j) m" if "(j, m) \<in> set (at_child dv k ?f cs)" for j m
    using at_child_set [OF cs(1) that] cs(2) k(1) new old by blast
  then show ?case using at_child_sorted [OF cs(1)] by auto
qed simp

lemma lookup_insert:
  "mos_ok lo n \<Longrightarrow> MapOfSets_lookup r (MapOfSets_insert dv q x n) = (if r = q then Some x else MapOfSets_lookup r n)"
proof (induction dv q x n arbitrary: r lo rule: MapOfSets_insert.induct)
  case (1 dv x v e cs)
  then show ?case by (cases r) auto
next
  case (2 dv k ks x v e cs)
  have cs: "sorted_wrt (<) (map fst cs)" "\<And>j m. (j, m) \<in> set cs \<Longrightarrow> mos_ok (Some j) m" using "2.prems" by auto
  show ?case
  proof (cases r)
    case (Cons j r')
    show ?thesis
    proof (cases "map_of cs k")
      case None
      have "MapOfSets_lookup r' (MapOfSets_insert dv ks x (new_MNode dv)) = (if r' = ks then Some x else MapOfSets_lookup r' (new_MNode dv))"
        by (rule "2.IH" [of None]) (simp add: new_MNode_def)
      moreover have "MapOfSets_lookup r' (new_MNode dv) = None" by (cases r') (simp_all add: new_MNode_def)
      ultimately show ?thesis using Cons None map_of_at_child [OF cs(1)] by auto
    next
      case (Some m)
      then have "mos_ok (Some k) m" using cs(2) by (auto dest: map_of_SomeD)
      then show ?thesis using Cons Some map_of_at_child [OF cs(1)] "2.IH" [of "Some k" m r'] by auto
    qed
  qed simp
qed

end
