(* ===== verification/MapOfSetsProps.thy ===== *)
theory MapOfSetsProps
  imports MapOfSets
begin

text \<open>
  What the queries of \<open>MapOfSets\<close> answer: \<open>holds n q x\<close> says that the trie \<open>n\<close> stores the
  value \<open>x\<close> for the set with the sorted elements \<open>q\<close>.
\<close>

section \<open>Subsets and supersets\<close>

abbreviation holds :: "('k, 'v) mnode \<Rightarrow> 'k list \<Rightarrow> 'v \<Rightarrow> bool" where
  "holds n q x \<equiv> MapOfSets_lookup q n = Some x"

text \<open>The entries below a list of children.\<close>

definition cholds :: "('k \<times> ('k, 'v) mnode) list \<Rightarrow> 'k list \<Rightarrow> 'v \<Rightarrow> bool" where
  "cholds cs q x \<longleftrightarrow> (\<exists>k n q'. q = k # q' \<and> (k, n) \<in> set cs \<and> holds n q' x)"

definition cs_ok :: "('k::linorder \<times> ('k, 'v) mnode) list \<Rightarrow> bool" where
  "cs_ok cs \<longleftrightarrow> sorted_wrt (<) (map fst cs) \<and> (\<forall>(k, n) \<in> set cs. mos_ok (Some k) n)"

lemma cs_ok_Nil [simp]: "cs_ok []"
  by (simp add: cs_ok_def)

lemma cs_ok_Cons: "cs_ok ((k, n) # cs) \<longleftrightarrow> mos_ok (Some k) n \<and> cs_ok cs \<and> (\<forall>c \<in> set cs. k < fst c)"
  by (auto simp: cs_ok_def)

lemma mos_ok_cs: "mos_ok lo (MNode v e cs) \<Longrightarrow> cs_ok cs"
  by (auto simp: cs_ok_def)

lemma cs_ok_map_of: "cs_ok cs \<Longrightarrow> map_of cs k = Some n \<longleftrightarrow> (k, n) \<in> set cs"
  using map_of_child [of cs k n] by (simp add: cs_ok_def)

lemma cs_ok_child: "cs_ok cs \<Longrightarrow> (k, n) \<in> set cs \<Longrightarrow> mos_ok (Some k) n"
  by (auto simp: cs_ok_def)

lemma cholds_Nil [simp]: "\<not> cholds [] q x"
  by (simp add: cholds_def)

lemma cholds_Cons: "cholds ((k, n) # cs) q x \<longleftrightarrow> (\<exists>q'. q = k # q' \<and> holds n q' x) \<or> cholds cs q x"
  by (auto simp: cholds_def)

lemma holds_MNode:
  assumes "cs_ok cs"
  shows "holds (MNode v e cs) q x \<longleftrightarrow> (q = [] \<and> e \<and> x = v) \<or> cholds cs q x"
  by (cases q) (auto simp: cholds_def cs_ok_map_of [OF assms, symmetric] split: option.splits)

lemma holds_above: "mos_ok (Some k) n \<Longrightarrow> holds n q x \<Longrightarrow> \<forall>a \<in> set q. k < a"
  using lookup_path [of "Some k" n q x] by (simp add: above_def)

lemma cholds_above:
  assumes "cs_ok cs" "cholds cs q x" "\<forall>c \<in> set cs. b \<le> fst c"
  shows "\<forall>a \<in> set q. b \<le> a"
proof -
  obtain k n q' where q: "q = k # q'" "(k, n) \<in> set cs" "holds n q' x" using assms(2) by (auto simp: cholds_def)
  have "b \<le> k" using assms(3) q(2) by fastforce
  moreover have "\<forall>a \<in> set q'. k < a" by (rule holds_above [OF cs_ok_child [OF assms(1) q(2)] q(3)])
  ultimately show ?thesis using q(1) by fastforce
qed

text \<open>The values that a search may return.\<close>

definition subs :: "('k, 'v) mnode \<Rightarrow> 'k list \<Rightarrow> 'v set" where
  "subs n es = {x. \<exists>q. holds n q x \<and> set q \<subseteq> set es}"

definition csubs :: "('k \<times> ('k, 'v) mnode) list \<Rightarrow> 'k list \<Rightarrow> 'v set" where
  "csubs cs es = {x. \<exists>q. cholds cs q x \<and> set q \<subseteq> set es}"

definition sups :: "('k, 'v) mnode \<Rightarrow> 'k list \<Rightarrow> 'v set" where
  "sups n es = {x. \<exists>q. holds n q x \<and> set es \<subseteq> set q}"

definition csups :: "('k \<times> ('k, 'v) mnode) list \<Rightarrow> 'k list \<Rightarrow> 'v set" where
  "csups cs es = {x. \<exists>q. cholds cs q x \<and> set es \<subseteq> set q}"

definition searched :: "('v \<Rightarrow> bool) \<Rightarrow> 'v set \<Rightarrow> 'v option \<Rightarrow> bool" where
  "searched p A r \<longleftrightarrow> (case r of Some x \<Rightarrow> x \<in> A \<and> p x | None \<Rightarrow> \<forall>x \<in> A. \<not> p x)"

lemma searched_simps [simp]:
  "searched p A None \<longleftrightarrow> (\<forall>x \<in> A. \<not> p x)" "searched p A (Some x) \<longleftrightarrow> x \<in> A \<and> p x"
  by (simp_all add: searched_def)

lemma searched_or:
  assumes "searched p A r" "r = None \<Longrightarrow> searched p B r'"
  shows "searched p (A \<union> B) (case r of Some x \<Rightarrow> Some x | None \<Rightarrow> r')"
  using assms by (cases r; cases r') auto

lemma subs_MNode: "cs_ok cs \<Longrightarrow> subs (MNode v e cs) es = (if e then {v} else {}) \<union> csubs cs es"
  by (auto simp: subs_def csubs_def holds_MNode)

lemma csubs_Nil [simp]: "csubs [] es = {}"
  by (simp add: csubs_def)

lemma csubs_no_elements: "csubs cs [] = {}"
  by (auto simp: csubs_def cholds_def)

text \<open>Children below the first element, and elements below the first child, have no part.\<close>

lemma csubs_children_from:
  assumes "sorted_wrt (<) (b # es)"
  shows "csubs (children_from b cs) (b # es) = csubs cs (b # es)"
proof -
  have "cholds (dropWhile (\<lambda>c. fst c < b) cs) q x \<longleftrightarrow> cholds cs q x" if "set q \<subseteq> set (b # es)" for q x
    using that
  proof (induction cs)
    case (Cons c cs)
    obtain k n where c: "c = (k, n)" by (cases c)
    have "k \<notin> set (b # es)" if "k < b" using that assms by (auto dest: less_asym)
    then have "\<not> (\<exists>q'. q = k # q' \<and> holds n q' x)" if "k < b" using that Cons.prems by auto
    then show ?case using Cons by (auto simp: c cholds_Cons)
  qed simp
  then show ?thesis unfolding csubs_def children_from_def by blast
qed

lemma csubs_elements_from:
  assumes ok: "cs_ok ((k, n) # cs)" and "sorted_wrt (<) es"
  shows "csubs ((k, n) # cs) (dropWhile (\<lambda>a. a < k) es) = csubs ((k, n) # cs) es"
proof -
  have "set q \<subseteq> set (dropWhile (\<lambda>a. a < k) es) \<longleftrightarrow> set q \<subseteq> set es" if "cholds ((k, n) # cs) q x" for q x
  proof -
    have "\<forall>c \<in> set ((k, n) # cs). k \<le> fst c" using ok by (auto simp: cs_ok_Cons)
    then have le: "\<forall>a \<in> set q. k \<le> a" using cholds_above [OF ok that] by blast
    have "a \<in> set (dropWhile (\<lambda>a. a < k) es) \<longleftrightarrow> a \<in> set es" if "k \<le> a" for a
      using that by (induction es) auto
    then show ?thesis using le by blast
  qed
  then show ?thesis unfolding csubs_def by blast
qed

lemma csubs_Cons: "csubs ((k, n) # cs) es = {x. k \<in> set es \<and> (\<exists>q. holds n q x \<and> set q \<subseteq> set es)} \<union> csubs cs es"
proof -
  have "(\<exists>q. (\<exists>q'. q = k # q' \<and> holds n q' x) \<and> set q \<subseteq> set es) \<longleftrightarrow> k \<in> set es \<and> (\<exists>q. holds n q x \<and> set q \<subseteq> set es)" for x
    by fastforce
  then show ?thesis unfolding csubs_def cholds_Cons by blast
qed

lemma csubs_match:
  assumes ok: "cs_ok ((k, n) # cs)" and s: "sorted_wrt (<) (k # it)"
  shows "csubs ((k, n) # cs) (k # it) = subs n it \<union> csubs ((k, n) # cs) it"
proof -
  have n: "mos_ok (Some k) n" "cs_ok cs" "\<forall>c \<in> set cs. k < fst c" using ok by (simp_all add: cs_ok_Cons)
  have "k \<notin> set it" using s by auto
  have child: "set q \<subseteq> set (k # it) \<longleftrightarrow> set q \<subseteq> set it" if "holds n q x" for q x
    using holds_above [OF n(1) that] by auto
  have rest: "set q \<subseteq> set (k # it) \<longleftrightarrow> set q \<subseteq> set it" if "cholds cs q x" for q x
  proof -
    obtain j m q' where q: "q = j # q'" "(j, m) \<in> set cs" "holds m q' x" using \<open>cholds cs q x\<close> by (auto simp: cholds_def)
    have "k < j" using n(3) q(2) by auto
    moreover have "\<forall>a \<in> set q'. j < a" by (rule holds_above [OF cs_ok_child [OF n(2) q(2)] q(3)])
    ultimately have "k \<notin> set q" using q(1) by auto
    then show ?thesis by auto
  qed
  have "csubs cs (k # it) = csubs cs it" using rest unfolding csubs_def by blast
  moreover have "{x. \<exists>q. holds n q x \<and> set q \<subseteq> set (k # it)} = subs n it" using child unfolding subs_def by blast
  ultimately show ?thesis using \<open>k \<notin> set it\<close> by (simp add: csubs_Cons)
qed

lemma sorted_from: "sorted_wrt (<) (es :: 'k::linorder list) \<Longrightarrow> dropWhile P es = a # it \<Longrightarrow> sorted_wrt (<) (a # it) \<and> \<not> P a"
  by (induction es) (auto split: if_splits)

lemma children_from_ok: "cs_ok cs \<Longrightarrow> cs_ok (children_from b cs)"
  by (induction cs) (auto simp: children_from_def cs_ok_Cons)

lemma findSubset_searched:
  "mos_ok lo n \<Longrightarrow> sorted_wrt (<) es \<Longrightarrow> searched p (subs n es) (findSubset p n es)"
  "cs_ok ks \<Longrightarrow> sorted_wrt (<) es \<Longrightarrow> searched p (csubs ks es) (subset_loop p ks es)"
proof (induction p n es and p ks es arbitrary: lo rule: findSubset_subset_loop.induct)
  case (1 p v e cs es)
  have cs: "cs_ok cs" using "1.prems"(1) by (rule mos_ok_cs)
  show ?case
  proof (cases "e \<and> p v")
    case True
    then show ?thesis by (simp add: subs_MNode [OF cs])
  next
    case False
    have "searched p (csubs cs es) (case es of [] \<Rightarrow> None
          | b # _ \<Rightarrow> (case children_from b cs of [] \<Rightarrow> None | kbegin \<Rightarrow> subset_loop p kbegin es))"
    proof (cases es)
      case Nil
      then show ?thesis by (simp add: csubs_no_elements)
    next
      case (Cons b bs)
      have eq: "csubs (children_from b cs) es = csubs cs es" using csubs_children_from "1.prems"(2) by (simp add: Cons)
      show ?thesis
      proof (cases "children_from b cs")
        case Nil
        then have "csubs cs es = {}" using eq by simp
        then show ?thesis using Cons Nil by simp
      next
        case (Cons c cs')
        have "searched p (csubs (children_from b cs) es) (subset_loop p (children_from b cs) es)"
          unfolding Cons by (rule "1.IH" [OF False \<open>es = b # bs\<close> Cons]) (use children_from_ok [OF cs, of b] Cons "1.prems"(2) in simp_all)
        then show ?thesis using eq Cons \<open>es = b # bs\<close> by simp
      qed
    qed
    then show ?thesis using False by (auto simp: subs_MNode [OF cs] searched_def split: option.splits)
  qed
next
  case (2 p es)
  then show ?case by simp
next
  case (3 p k n cs es)
  have ok: "cs_ok ((k, n) # cs)" and s: "sorted_wrt (<) es" using "3.prems" by simp_all
  have n: "mos_ok (Some k) n" using ok by (simp add: cs_ok_Cons)
  note from_eq = csubs_elements_from [OF ok s]
  show ?case
  proof (cases "dropWhile (\<lambda>a. a < k) es")
    case Nil
    then have "csubs ((k, n) # cs) es = {}" using from_eq by (metis csubs_no_elements)
    then show ?thesis unfolding subset_loop.simps Nil by simp
  next
    case (Cons a it)
    have s': "sorted_wrt (<) (a # it)" "\<not> a < k" using sorted_from [OF s Cons] by simp_all
    show ?thesis
    proof (cases "a = k")
      case True
      let ?next = "case it of [] \<Rightarrow> None
                 | b # _ \<Rightarrow> (case children_from b ((k, n) # cs) of [] \<Rightarrow> None | kbegin \<Rightarrow> subset_loop p kbegin it)"
      have first: "searched p (subs n it) (findSubset p n it)"
        by (rule "3.IH"(1) [OF Cons True n]) (use s'(1) in simp)
      have "searched p (csubs ((k, n) # cs) it) ?next" if none: "findSubset p n it = None"
      proof (cases it)
        case Nil
        then show ?thesis by (simp add: csubs_no_elements)
      next
        case it: (Cons b bs)
        have eq: "csubs (children_from b ((k, n) # cs)) it = csubs ((k, n) # cs) it"
          unfolding it by (rule csubs_children_from) (use s'(1) in \<open>simp add: it\<close>)
        show ?thesis
        proof (cases "children_from b ((k, n) # cs)")
          case Nil
          then have "csubs ((k, n) # cs) it = {}" using eq by simp
          then show ?thesis using it Nil by simp
        next
          case from_b: (Cons c cs')
          have "searched p (csubs (c # cs') it) (subset_loop p (c # cs') it)"
            by (rule "3.IH"(2) [OF Cons True none it from_b])
              (use children_from_ok [OF ok, of b] from_b s'(1) in simp_all)
          then show ?thesis using eq from_b it by simp
        qed
      qed
      from searched_or [OF first this] show ?thesis
        using Cons True csubs_match [OF ok] s'(1) from_eq by simp
    next
      case False
      have eq: "csubs (children_from a ((k, n) # cs)) (a # it) = csubs ((k, n) # cs) (a # it)"
        by (rule csubs_children_from [OF s'(1)])
      show ?thesis
      proof (cases "children_from a ((k, n) # cs)")
        case Nil
        then have "csubs ((k, n) # cs) es = {}" using eq Cons from_eq by simp
        then show ?thesis using Cons False Nil by simp
      next
        case from_a: (Cons c cs')
        have "searched p (csubs (c # cs') (a # it)) (subset_loop p (c # cs') (a # it))"
          by (rule "3.IH"(3) [OF Cons False from_a]) (use children_from_ok [OF ok, of a] from_a s'(1) in simp_all)
        then show ?thesis using eq from_a Cons False from_eq by simp
      qed
    qed
  qed
qed

text \<open>A child that holds a superset: either below it everything is found, or its key is the first element.\<close>

lemma csups_Nil [simp]: "csups [] es = {}"
  by (simp add: csups_def)

lemma csups_Cons: "csups ((k, n) # cs) es = {x. \<exists>q. holds n q x \<and> set es \<subseteq> insert k (set q)} \<union> csups cs es"
proof -
  have "(\<exists>q. (\<exists>q'. q = k # q' \<and> holds n q' x) \<and> set es \<subseteq> set q) \<longleftrightarrow> (\<exists>q. holds n q x \<and> set es \<subseteq> insert k (set q))" for x
    by fastforce
  then show ?thesis unfolding csups_def cholds_Cons by blast
qed

definition all_sups :: "('k \<times> ('k, 'v) mnode) list \<Rightarrow> 'k list \<Rightarrow> 'v set" where
  "all_sups cs es = (\<Union>c \<in> set cs. sups (snd c) es)"

lemma sups_MNode: "cs_ok cs \<Longrightarrow> sups (MNode v e cs) es = (if es = [] \<and> e then {v} else {}) \<union> csups cs es"
  by (auto simp: sups_def csups_def holds_MNode)

lemma csups_all: "csups cs [] = all_sups cs []"
proof (induction cs)
  case (Cons c cs)
  then show ?case by (cases c) (simp add: csups_Cons all_sups_def sups_def)
qed (simp add: all_sups_def)

lemma csups_begin:
  assumes ok: "cs_ok cs" and s: "sorted_wrt (<) (b # rest)"
  shows "csups cs (b # rest) = all_sups cs (b # rest) \<union> (case map_of cs b of None \<Rightarrow> {} | Some n \<Rightarrow> sups n rest)"
  using ok
proof (induction cs)
  case (Cons c cs)
  obtain k n where c: "c = (k, n)" by (cases c)
  have n: "mos_ok (Some k) n" "cs_ok cs" "\<forall>c \<in> set cs. k < fst c" using Cons.prems by (simp_all add: c cs_ok_Cons)
  have b: "b \<notin> set rest" using s by auto
  have "{x. \<exists>q. holds n q x \<and> set (b # rest) \<subseteq> insert k (set q)} = sups n (b # rest) \<union> (if k = b then sups n rest else {})"
  proof (cases "k = b")
    case True
    then have "set (b # rest) \<subseteq> insert k (set q) \<longleftrightarrow> set rest \<subseteq> set q" for q using b by auto
    then show ?thesis using True by (auto simp: sups_def)
  next
    case False
    have "set (b # rest) \<subseteq> insert k (set q) \<longleftrightarrow> set (b # rest) \<subseteq> set q" if q: "holds n q x" for q x
    proof -
      have "k \<notin> set rest" if "b \<in> set q" using holds_above [OF n(1) q] that s by (auto dest: less_asym)
      then show ?thesis using False by auto
    qed
    then show ?thesis using False unfolding sups_def by auto
  qed
  moreover have "map_of cs b = None" if "k = b" using n(3) that by (auto simp: map_of_eq_None_iff)
  ultimately show ?case using Cons.IH [OF n(2)] by (auto simp: c csups_Cons all_sups_def split: option.splits)
qed (simp add: all_sups_def)

lemma children_from_map_of:
  assumes "cs_ok cs"
  shows "(case children_from b cs of [] \<Rightarrow> None | kmid # _ \<Rightarrow> if b = fst kmid then Some (snd kmid) else None) = map_of cs b"
  using assms
proof (induction cs)
  case (Cons c cs)
  obtain k n where c: "c = (k, n)" by (cases c)
  have n: "cs_ok cs" "\<forall>c \<in> set cs. k < fst c" using Cons.prems by (simp_all add: c cs_ok_Cons)
  consider "k < b" | "k = b" | "b < k" by fastforce
  then show ?case
  proof cases
    case 3
    then have "map_of cs b = None" using n(2) by (auto simp: map_of_eq_None_iff dest: less_asym)
    then show ?thesis using 3 by (auto simp: c children_from_def)
  qed (use Cons.IH [OF n(1)] in \<open>auto simp: c children_from_def\<close>)
qed (simp add: children_from_def)

lemma findSuperset_searched:
  "mos_ok lo n \<Longrightarrow> sorted_wrt (<) es \<Longrightarrow> searched p (sups n es) (findSuperset p n es)"
  "cs_ok ks \<Longrightarrow> sorted_wrt (<) es \<Longrightarrow> searched p (all_sups ks es) (superset_loop p ks es)"
proof (induction p n es and p ks es arbitrary: lo rule: findSuperset_superset_loop.induct)
  case (1 p v e cs es)
  have cs: "cs_ok cs" using "1.prems"(1) by (rule mos_ok_cs)
  show ?case
  proof (cases es)
    case Nil
    show ?thesis
    proof (cases "e \<and> p v")
      case False
      then have "searched p (all_sups cs []) (superset_loop p cs [])" using "1.IH"(1) [OF Nil] cs by simp
      then show ?thesis using False Nil by (auto simp: sups_MNode [OF cs] csups_all searched_def split: option.splits)
    qed (simp add: Nil sups_MNode [OF cs])
  next
    case (Cons b rest)
    have loop: "searched p (all_sups cs es) (superset_loop p cs es)" using "1.IH"(2) [OF Cons] cs "1.prems"(2) by simp
    let ?mid = "case children_from b cs of [] \<Rightarrow> None | kmid # _ \<Rightarrow> if b = fst kmid then findSuperset p (snd kmid) rest else None"
    have "searched p (case map_of cs b of None \<Rightarrow> {} | Some n \<Rightarrow> sups n rest) ?mid" if none: "superset_loop p cs es = None"
    proof (cases "children_from b cs")
      case Nil
      then show ?thesis using children_from_map_of [OF cs, of b] by simp
    next
      case from_b: (Cons kmid ks)
      show ?thesis
      proof (cases "b = fst kmid")
        case True
        then have m: "map_of cs b = Some (snd kmid)" using children_from_map_of [OF cs, of b] from_b by simp
        then have "mos_ok (Some b) (snd kmid)" using cs_ok_map_of [OF cs] cs_ok_child [OF cs] by blast
        then have "searched p (sups (snd kmid) rest) (findSuperset p (snd kmid) rest)"
          using "1.IH"(3) [OF Cons none from_b True] "1.prems"(2) Cons by simp
        then show ?thesis using m from_b True by simp
      next
        case False
        then have "map_of cs b = None" using children_from_map_of [OF cs, of b] from_b by simp
        then show ?thesis using from_b False by simp
      qed
    qed
    from searched_or [OF loop this] show ?thesis
      using Cons csups_begin [OF cs, of b rest] "1.prems"(2) by (simp add: sups_MNode [OF cs])
  qed
next
  case (2 p es)
  then show ?case by (simp add: all_sups_def)
next
  case (3 p k n cs es)
  have n: "mos_ok (Some k) n" "cs_ok cs" using "3.prems"(1) by (simp_all add: cs_ok_Cons)
  have first: "searched p (sups n es) (findSuperset p n es)" by (rule "3.IH"(1) [OF n(1) "3.prems"(2)])
  have "searched p (all_sups cs es) (superset_loop p cs es)" if "findSuperset p n es = None"
    by (rule "3.IH"(2) [OF that n(2) "3.prems"(2)])
  from searched_or [OF first this] show ?case by (simp add: all_sups_def)
qed

section \<open>All subsets and all supersets\<close>

lemma cholds_elements:
  assumes ok: "cs_ok cs" and s: "sorted_wrt (<) (elt # es)"
  shows "cholds cs q x \<and> set q \<subseteq> set (elt # es) \<longleftrightarrow>
      (cholds cs q x \<and> set q \<subseteq> set es) \<or>
      (\<exists>n q'. map_of cs elt = Some n \<and> q = elt # q' \<and> holds n q' x \<and> set q' \<subseteq> set es)" (is "?l \<longleftrightarrow> ?r")
proof
  assume l: ?l
  then obtain k n q' where q: "q = k # q'" "(k, n) \<in> set cs" "holds n q' x" by (auto simp: cholds_def)
  have gt: "\<forall>a \<in> set q'. k < a" by (rule holds_above [OF cs_ok_child [OF ok q(2)] q(3)])
  show ?r
  proof (cases "k = elt")
    case True
    then have "set q' \<subseteq> set es" using l q(1) gt by auto
    then show ?thesis using True q cs_ok_map_of [OF ok] by blast
  next
    case False
    then have "elt < k" using l q(1) s by auto
    then have "elt \<notin> set q" using gt q(1) by auto
    then show ?thesis using l by auto
  qed
next
  assume ?r
  then show ?l
  proof
    assume "\<exists>n q'. map_of cs elt = Some n \<and> q = elt # q' \<and> holds n q' x \<and> set q' \<subseteq> set es"
    then obtain n q' where "map_of cs elt = Some n" "q = elt # q'" "holds n q' x" "set q' \<subseteq> set es" by blast
    then show ?l using cs_ok_map_of [OF ok] by (auto simp: cholds_def)
  qed auto
qed

lemma results_here:
  "{(acc \<union> set q, x) | q x. (q = [] \<and> e \<and> x = v \<or> C q x) \<and> T q} =
     (if e \<and> T [] then {(acc, v)} else {}) \<union> {(acc \<union> set q, x) | q x. C q x \<and> T q}" (is "?A = ?B \<union> ?C")
proof
  show "?A \<subseteq> ?B \<union> ?C" by auto
  have "?B \<subseteq> ?A" by (cases "e \<and> T []") (auto intro!: exI [of _ "[]"])
  moreover have "?C \<subseteq> ?A" by blast
  ultimately show "?B \<union> ?C \<subseteq> ?A" by blast
qed

lemma results_child:
  "{(acc \<union> set q, x) | q x. \<exists>q'. q = k # q' \<and> H q' x} = {(insert k acc \<union> set q, x) | q x. H q x}"
proof -
  have "{(acc \<union> set q, x) | q x. \<exists>q'. q = k # q' \<and> H q' x} = {(acc \<union> set (k # q), x) | q x. H q x}" by blast
  then show ?thesis by simp
qed

lemma findSubsets_ok:
  fixes n :: "('k::linorder, 'v) mnode" and cs :: "('k \<times> ('k, 'v) mnode) list"
  shows "mos_ok lo n \<Longrightarrow> sorted_wrt (<) es \<Longrightarrow>
     set (findSubsets n acc es) = {(acc \<union> set q, x) | q x. holds n q x \<and> set q \<subseteq> set es}"
  "cs_ok cs \<Longrightarrow> sorted_wrt (<) es \<Longrightarrow>
     set (subsets_loop cs acc es) = {(acc \<union> set q, x) | q x. cholds cs q x \<and> set q \<subseteq> set es}"
proof (induction n acc es and cs acc es arbitrary: lo rule: findSubsets_subsets_loop.induct)
  case (1 v e cs acc es)
  have cs: "cs_ok cs" using "1.prems"(1) by (rule mos_ok_cs)
  show ?case unfolding holds_MNode [OF cs] results_here findSubsets.simps set_append
    using "1.IH" [OF cs "1.prems"(2)] by simp
next
  case (2 cs acc)
  then show ?case by (auto simp: cholds_def)
next
  case (3 cs acc elt es)
  have s: "sorted_wrt (<) es" "elt \<notin> set es" using "3.prems"(2) by auto
  have loop: "set (subsets_loop cs acc es) = {(acc \<union> set q, x) | q x. cholds cs q x \<and> set q \<subseteq> set es}"
    using "3.IH"(2) [OF "3.prems"(1) s(1)] .
  let ?here = "\<lambda>q x. \<exists>n q'. map_of cs elt = Some n \<and> q = elt # q' \<and> holds n q' x \<and> set q' \<subseteq> set es"
  have "cholds cs q x \<and> set q \<subseteq> set (elt # es) \<longleftrightarrow> (cholds cs q x \<and> set q \<subseteq> set es) \<or> ?here q x" for q x
    by (rule cholds_elements [OF "3.prems"])
  then have split: "{(acc \<union> set q, x) | q x. cholds cs q x \<and> set q \<subseteq> set (elt # es)} =
      {(acc \<union> set q, x) | q x. cholds cs q x \<and> set q \<subseteq> set es} \<union> {(acc \<union> set q, x) | q x. ?here q x}"
    by (simp only: conj_disj_distribL ex_disj_distrib Collect_disj_eq)
  show ?case
  proof (cases "map_of cs elt")
    case None
    then show ?thesis unfolding split using loop by simp
  next
    case (Some n)
    then have "mos_ok (Some elt) n" using cs_ok_map_of [OF "3.prems"(1)] cs_ok_child [OF "3.prems"(1)] by blast
    from "3.IH"(1) [OF Some this s(1)]
    have "set (findSubsets n (insert elt acc) es) = {(insert elt acc \<union> set q, x) | q x. holds n q x \<and> set q \<subseteq> set es}" .
    moreover have "{(acc \<union> set q, x) | q x. ?here q x} = {(insert elt acc \<union> set q, x) | q x. holds n q x \<and> set q \<subseteq> set es}"
      using Some results_child by simp
    ultimately show ?thesis unfolding split using Some loop by (simp add: Un_commute)
  qed
qed

lemma findSupersets_ok:
  fixes n :: "('k::linorder, 'v) mnode" and cs :: "('k \<times> ('k, 'v) mnode) list"
  shows "mos_ok lo n \<Longrightarrow> sorted_wrt (<) es \<Longrightarrow>
     set (findSupersets n acc es) = {(acc \<union> set q, x) | q x. holds n q x \<and> set es \<subseteq> set q}"
  "cs_ok cs \<Longrightarrow> sorted_wrt (<) es \<Longrightarrow>
     set (supersets_loop cs acc es) = {(acc \<union> set q, x) | q x. cholds cs q x \<and> set es \<subseteq> set q}"
proof (induction n acc es and cs acc es arbitrary: lo rule: findSupersets_supersets_loop.induct)
  case (1 v e cs acc es)
  have cs: "cs_ok cs" using "1.prems"(1) by (rule mos_ok_cs)
  show ?case unfolding holds_MNode [OF cs] results_here findSupersets.simps set_append
    using "1.IH" [OF cs "1.prems"(2)] by (cases e; cases es; simp)
next
  case (2 acc es)
  then show ?case by simp
next
  case (3 k n cs acc es)
  have n: "mos_ok (Some k) n" "cs_ok cs" "\<forall>c \<in> set cs. k < fst c" using "3.prems"(1) by (simp_all add: cs_ok_Cons)
  have eq: "cholds ((k, n) # cs) q x \<and> set es \<subseteq> set q \<longleftrightarrow>
      (\<exists>q'. q = k # q' \<and> (holds n q' x \<and> set es \<subseteq> insert k (set q'))) \<or> (cholds cs q x \<and> set es \<subseteq> set q)" for q x
    unfolding cholds_Cons by auto
  have here: "{(acc \<union> set q, x) | q x. cholds ((k, n) # cs) q x \<and> set es \<subseteq> set q} =
      {(insert k acc \<union> set q, x) | q x. holds n q x \<and> set es \<subseteq> insert k (set q)} \<union>
      {(acc \<union> set q, x) | q x. cholds cs q x \<and> set es \<subseteq> set q}"
    unfolding eq results_child [symmetric] by (simp only: ex_disj_distrib Collect_disj_eq conj_disj_distribL)
  show ?case
  proof (cases es)
    case Nil
    then show ?thesis using "3.IH"(1) [OF Nil n(1)] "3.IH"(2) [OF Nil n(2)] unfolding here by simp
  next
    case (Cons elt rest)
    have s: "sorted_wrt (<) rest" "\<forall>a \<in> set rest. elt < a" using "3.prems"(2) Cons by auto
    consider "elt = k" | "k < elt" | "elt < k" by fastforce
    then show ?thesis
    proof cases
      case 1
      then have "set es \<subseteq> insert k (set q) \<longleftrightarrow> set rest \<subseteq> set q" for q using Cons s(2) by auto
      then show ?thesis using "3.IH"(3) [OF Cons 1 n(1) s(1)] "3.IH"(4) [OF Cons 1 n(2) "3.prems"(2)] 1 Cons
        unfolding here by simp
    next
      case 2
      then have "set es \<subseteq> insert k (set q) \<longleftrightarrow> set es \<subseteq> set q" for q using Cons s(2) by (auto dest: less_asym)
      moreover have ne: "elt \<noteq> k" using 2 by simp
      ultimately show ?thesis using "3.IH"(5) [OF Cons ne 2 n(1) "3.prems"(2)] "3.IH"(6) [OF Cons ne 2 n(2) "3.prems"(2)] 2 Cons
        unfolding here by simp
    next
      case 3
      have "\<forall>c \<in> set ((k, n) # cs). k \<le> fst c" using n(3) by auto
      then have "elt \<notin> set q" if "cholds ((k, n) # cs) q x" for q x
        using cholds_above [OF "3.prems"(1) that] 3 by fastforce
      then show ?thesis using 3 Cons by auto
    qed
  qed
qed

section \<open>Iteration\<close>

text \<open>All entries, in the order of the iteration: a node before its children, the children by key.\<close>

fun m_entries :: "('k, 'v) mnode \<Rightarrow> ('k list \<times> 'v) list" where
  "m_entries (MNode v e cs) =
    (if e then [([], v)] else []) @ concat (map (\<lambda>(k, n). map (\<lambda>(q, x). (k # q, x)) (m_entries n)) cs)"

definition centries :: "('k \<times> ('k, 'v) mnode) list \<Rightarrow> ('k list \<times> 'v) list" where
  "centries cs = concat (map (\<lambda>(k, n). map (\<lambda>(q, x). (k # q, x)) (m_entries n)) cs)"

lemma centries_simps [simp]:
  "centries [] = []" "centries ((k, n) # cs) = map (\<lambda>(q, x). (k # q, x)) (m_entries n) @ centries cs"
  by (simp_all add: centries_def)

lemma m_entries_eq: "m_entries (MNode v e cs) = (if e then [([], v)] else []) @ centries cs"
  by (simp add: centries_def)

declare m_entries.simps [simp del]

text \<open>A stack of positions: the path to its node, and the entries after the subtree of the node.\<close>

definition path_of :: "('k \<times> ('k, 'v) mnode) list list \<Rightarrow> 'k list" where
  "path_of st = rev (map (\<lambda>cs. fst (hd cs)) st)"

definition prefixed :: "'k list \<Rightarrow> ('k list \<times> 'v) list \<Rightarrow> ('k list \<times> 'v) list" where
  "prefixed p es = map (\<lambda>(q, x). (p @ q, x)) es"

fun after_stack :: "('k \<times> ('k, 'v) mnode) list list \<Rightarrow> ('k list \<times> 'v) list" where
  "after_stack [] = []"
| "after_stack (cs # st) = prefixed (path_of st) (centries (tl cs)) @ after_stack st"

definition list_at :: "('k \<times> ('k, 'v) mnode) list list \<Rightarrow> ('k, 'v) mnode \<Rightarrow> ('k list \<times> 'v) list" where
  "list_at st n = prefixed (path_of st) (m_entries n) @ after_stack st"

lemma prefixed_simps [simp]:
  "prefixed p [] = []" "prefixed p (es @ es') = prefixed p es @ prefixed p es'"
  "prefixed p ((q, x) # es) = (p @ q, x) # prefixed p es"
  "prefixed (p @ [k]) es = prefixed p (map (\<lambda>(q, x). (k # q, x)) es)"
  by (auto simp: prefixed_def)

lemma prefixed_Nil [simp]: "prefixed [] es = es"
  by (induction es) (auto simp: prefixed_def)

lemma list_at_child: "list_at (((k, c) # cs) # st) c = prefixed (path_of st) (centries ((k, c) # cs)) @ after_stack st"
  by (simp add: list_at_def path_of_def)

definition good_child :: "('k, 'v) mnode \<Rightarrow> bool" where
  "good_child n \<longleftrightarrow> (m_isEndOfSet n \<or> m_children n \<noteq> []) \<and> full n"

lemma full_children: "full (MNode v e cs) \<longleftrightarrow> (\<forall>(k, n) \<in> set cs. good_child n)"
  by (auto simp: good_child_def)

declare full.simps [simp del]

definition frames_full :: "('k \<times> ('k, 'v) mnode) list list \<Rightarrow> bool" where
  "frames_full st \<longleftrightarrow> (\<forall>cs \<in> set st. cs \<noteq> [] \<and> (\<forall>(k, n) \<in> set cs. good_child n))"

lemma frames_full_Cons [simp]:
  "frames_full (cs # st) \<longleftrightarrow> cs \<noteq> [] \<and> (\<forall>(k, n) \<in> set cs. good_child n) \<and> frames_full st"
  by (auto simp: frames_full_def)

lemma frames_full_Nil [simp]: "frames_full []"
  by (simp add: frames_full_def)

text \<open>Standing on an entry below the root, with the entries that are left.\<close>

definition stands_below :: "('k \<times> ('k, 'v) mnode) list list \<Rightarrow> ('k list \<times> 'v) list \<Rightarrow> bool" where
  "stands_below st xs \<longleftrightarrow> (\<exists>k n cs st'. st = ((k, n) # cs) # st' \<and> m_isEndOfSet n \<and> frames_full st \<and> xs = list_at st n)"

lemma to_entry_ok:
  "good_child n \<Longrightarrow> frames_full (((k, n) # cs) # st) \<Longrightarrow>
     \<exists>st'. to_entry n (((k, n) # cs) # st) = Some st' \<and> stands_below st' (list_at (((k, n) # cs) # st) n)"
proof (induction n arbitrary: k cs st)
  case (MNode v e ds)
  show ?case
  proof (cases e)
    case True
    then show ?thesis using MNode.prems by (auto simp: stands_below_def)
  next
    case False
    then obtain j m ds' where ds: "ds = (j, m) # ds'" using MNode.prems(1) by (cases ds) (auto simp: good_child_def)
    let ?st = "((k, MNode v e ds) # cs) # st"
    have full: "\<forall>(k, n) \<in> set ds. good_child n" using MNode.prems(1) by (simp add: good_child_def full_children)
    then have m: "good_child m" "frames_full (((j, m) # ds') # ?st)" using MNode.prems(2) ds by auto
    have "list_at (((j, m) # ds') # ?st) m = list_at ?st (MNode v e ds)"
    proof (rule trans [OF list_at_child])
      show "prefixed (path_of ?st) (centries ((j, m) # ds')) @ after_stack ?st = list_at ?st (MNode v e ds)"
        using False ds unfolding list_at_def m_entries_eq by (simp del: centries_simps after_stack.simps)
    qed
    then show ?thesis using MNode.IH [of "(j, m)" m, OF _ _ m] False ds by (auto simp: snds.simps)
  qed
qed

lemma descend_ok:
  assumes "full n" "frames_full st"
  shows "(m_children n = [] \<and> descend n st = (st, False)) \<or>
    (\<exists>st'. descend n st = (st', True) \<and> stands_below st' (prefixed (path_of st) (centries (m_children n)) @ after_stack st))"
  using assms
proof (induction n st rule: descend.induct)
  case (2 v e k n cs st)
  let ?st = "((k, n) # cs) # st"
  have n: "good_child n" "frames_full ?st" using "2.prems" by (auto simp: full_children)
  have eq: "list_at ?st n = prefixed (path_of st) (centries ((k, n) # cs)) @ after_stack st" by (rule list_at_child)
  show ?case
  proof (cases "m_isEndOfSet n")
    case True
    then show ?thesis using n(2) eq by (auto simp: stands_below_def)
  next
    case False
    then have ne: "m_children n \<noteq> []" "full n" using n(1) by (simp_all add: good_child_def)
    obtain st' where st': "descend n ?st = (st', True)"
      "stands_below st' (prefixed (path_of ?st) (centries (m_children n)) @ after_stack ?st)"
      using "2.IH" [OF False ne(2) n(2)] ne(1) by blast
    have "m_entries n = centries (m_children n)" using False by (cases n) (simp add: m_entries_eq)
    then have "prefixed (path_of ?st) (centries (m_children n)) @ after_stack ?st = list_at ?st n" by (simp add: list_at_def)
    then show ?thesis using st' False eq by auto
  qed
qed simp

lemma climb_ok:
  "frames_full st \<Longrightarrow>
     (climb st = Some ([], False) \<and> after_stack st = []) \<or> (\<exists>st'. climb st = Some (st', True) \<and> stands_below st' (after_stack st))"
proof (induction st rule: climb.induct)
  case (4 c k n cs st)
  have n: "good_child n" "frames_full (((k, n) # cs) # st)" using "4.prems" by auto
  have "list_at (((k, n) # cs) # st) n = after_stack ((c # (k, n) # cs) # st)"
    by (simp only: list_at_child after_stack.simps list.sel)
  then show ?case using to_entry_ok [OF n] by auto
qed auto

text \<open>The iterator before its entries.\<close>

definition m_iterates :: "('k, 'v) mnode \<Rightarrow> ('k, 'v) miterator \<Rightarrow> ('k list \<times> 'v) list \<Rightarrow> bool" where
  "m_iterates root it xs \<longleftrightarrow> mi_root it = root \<and> full root \<and>
     (if mi_onEntry it then
        if mi_stack it = [] then m_isEndOfSet root \<and> xs = m_entries root else stands_below (mi_stack it) xs
      else mi_stack it = [] \<and> xs = [])"

lemma path_deref: "set (map (\<lambda>cs. fst (hd cs)) st) = set (path_of st)"
  by (simp add: path_of_def)

lemma deref_step:
  assumes "m_iterates root it xs" "mi_onEntry it"
  shows "\<exists>q x ys it'. xs = (q, x) # ys \<and> MapOfSets_deref it = Some (set q, x) \<and>
    MapOfSets_step it = Some it' \<and> m_iterates root it' ys"
proof -
  obtain n where n: "m_at it = Some n" "m_isEndOfSet n" "full n" "xs = list_at (mi_stack it) n" "frames_full (mi_stack it)"
  proof (cases "mi_stack it")
    case Nil
    then show ?thesis using assms by (intro that [of root]) (auto simp: m_iterates_def m_at_def list_at_def path_of_def)
  next
    case (Cons f fs)
    then show ?thesis using assms that
      by (auto simp: m_iterates_def stands_below_def m_at_def good_child_def)
  qed
  let ?st = "mi_stack it" and ?rest = "prefixed (path_of (mi_stack it)) (centries (m_children n)) @ after_stack (mi_stack it)"
  have xs: "xs = (path_of ?st, m_value n) # ?rest"
    using n(2,4) by (cases n) (simp add: list_at_def m_entries_eq)
  have "MapOfSets_deref it = Some (set (path_of ?st), m_value n)"
    using n(1) assms(2) by (simp add: MapOfSets_deref_def path_of_def)
  moreover have "\<exists>it'. MapOfSets_step it = Some it' \<and> m_iterates root it' ?rest"
  proof (cases "m_children n = [] \<and> descend n ?st = (?st, False)")
    case True
    have root: "mi_root it = root" "full root" using assms(1) by (simp_all add: m_iterates_def)
    show ?thesis using climb_ok [OF n(5)] True n(1) assms(2) root
      by (auto simp: MapOfSets_step_def m_iterates_def stands_below_def)
  next
    case False
    have root: "mi_root it = root" "full root" using assms(1) by (simp_all add: m_iterates_def)
    obtain st' where "descend n ?st = (st', True)" "stands_below st' ?rest" using descend_ok [OF n(3,5)] False by blast
    then show ?thesis using n(1) assms(2) root
      by (auto simp: MapOfSets_step_def m_iterates_def stands_below_def)
  qed
  ultimately show ?thesis using xs by blast
qed

text \<open>The loop \<open>for (it = begin(); it != end(); ++it)\<close>.\<close>

partial_function (option) m_traverse :: "('k, 'v) miterator \<Rightarrow> ('k set \<times> 'v) list option" where
  "m_traverse it =
    (if m_at_end it then Some []
     else do { x \<leftarrow> MapOfSets_deref it; it' \<leftarrow> MapOfSets_step it; xs \<leftarrow> m_traverse it'; Some (x # xs) })"

lemma m_traverse_ok: "m_iterates root it xs \<Longrightarrow> m_traverse it = Some (map (\<lambda>(q, x). (set q, x)) xs)"
proof (induction xs arbitrary: it)
  case Nil
  then have "\<not> mi_onEntry it" using deref_step by blast
  then have "m_at_end it" using Nil by (simp add: m_iterates_def m_at_end_def)
  then show ?case by (subst m_traverse.simps) simp
next
  case (Cons e xs)
  then have on: "mi_onEntry it" by (auto simp: m_iterates_def split: if_splits)
  obtain q x ys it' where s: "e # xs = (q, x) # ys" "MapOfSets_deref it = Some (set q, x)"
    "MapOfSets_step it = Some it'" "m_iterates root it' ys" using deref_step [OF Cons.prems on] by blast
  then have "m_traverse it' = Some (map (\<lambda>(q, x). (set q, x)) xs)" using Cons.IH by simp
  then show ?case using on s by (subst m_traverse.simps) (simp add: m_at_end_def)
qed

lemma begin_iterates:
  assumes "full root"
  shows "\<exists>it. MapOfSets_begin root = Some it \<and> m_iterates root it (m_entries root)"
proof (cases "m_isEndOfSet root")
  case True
  then show ?thesis using assms by (simp add: MapOfSets_begin_def m_iterates_def)
next
  case False
  then have e: "m_entries root = centries (m_children root)" by (cases root) (simp add: m_entries_eq)
  have d: "(m_children root = [] \<and> descend root [] = ([], False)) \<or>
    (\<exists>st'. descend root [] = (st', True) \<and> stands_below st' (centries (m_children root)))"
    using descend_ok [OF assms, of "[]"] by (simp add: path_of_def)
  then show ?thesis
  proof
    assume "m_children root = [] \<and> descend root [] = ([], False)"
    then have "MapOfSets_begin root = Some \<lparr>mi_root = root, mi_onEntry = False, mi_stack = []\<rparr>"
      "m_iterates root \<lparr>mi_root = root, mi_onEntry = False, mi_stack = []\<rparr> (m_entries root)"
      using False assms e by (simp_all add: MapOfSets_begin_def MapOfSets_step_def m_at_def m_iterates_def)
    then show ?thesis by blast
  next
    assume "\<exists>st'. descend root [] = (st', True) \<and> stands_below st' (centries (m_children root))"
    then obtain st' where st': "descend root [] = (st', True)" "stands_below st' (centries (m_children root))" by blast
    then have "st' \<noteq> []" by (auto simp: stands_below_def)
    then have "MapOfSets_begin root = Some \<lparr>mi_root = root, mi_onEntry = True, mi_stack = st'\<rparr>"
      "m_iterates root \<lparr>mi_root = root, mi_onEntry = True, mi_stack = st'\<rparr> (m_entries root)"
      using False assms e st' by (simp_all add: MapOfSets_begin_def MapOfSets_step_def m_at_def m_iterates_def)
    then show ?thesis by blast
  qed
qed

section \<open>Tries built by insertions\<close>

lemma entries_holds: "mos_ok lo n \<Longrightarrow> (q, x) \<in> set (m_entries n) \<longleftrightarrow> holds n q x"
proof (induction n arbitrary: lo q)
  case (MNode v e cs)
  have ok: "cs_ok cs" using MNode.prems by (rule mos_ok_cs)
  have c: "(q', x) \<in> set (m_entries n) \<longleftrightarrow> holds n q' x" if "(k, n) \<in> set cs" for k n q'
    using MNode.IH [OF that, of n "Some k" q'] cs_ok_child [OF ok that] by (simp add: snds.simps)
  have "(q, x) \<in> set (centries cs) \<longleftrightarrow> cholds cs q x"
  proof
    assume "(q, x) \<in> set (centries cs)"
    then obtain k n q' where "(k, n) \<in> set cs" "q = k # q'" "(q', x) \<in> set (m_entries n)" by (auto simp: centries_def)
    then show "cholds cs q x" using c unfolding cholds_def by blast
  next
    assume "cholds cs q x"
    then obtain k n q' where "(k, n) \<in> set cs" "q = k # q'" "holds n q' x" by (auto simp: cholds_def)
    then show "(q, x) \<in> set (centries cs)" using c by (fastforce simp: centries_def)
  qed
  then show ?case by (auto simp: m_entries_eq holds_MNode [OF ok])
qed

lemma distinct_Cons_map: "distinct (map fst (map (\<lambda>(q, x). (k # q, x)) es)) \<longleftrightarrow> distinct (map fst es)"
proof -
  have eq: "map fst (map (\<lambda>(q, x). (k # q, x)) es) = map ((#) k) (map fst es)" by (induction es) auto
  have "inj_on ((#) k) (set (map fst es))" by (simp add: inj_on_def)
  then show ?thesis unfolding eq distinct_map [of "(#) k"] by blast
qed

lemma centries_first: "q \<in> set (map fst (centries ds)) \<Longrightarrow> \<exists>j \<in> fst ` set ds. \<exists>q'. q = j # q'"
proof (induction ds)
  case (Cons d ds)
  obtain k n where d: "d = (k, n)" by (cases d)
  show ?case
  proof (cases "q \<in> set (map fst (centries ds))")
    case True
    then show ?thesis using Cons.IH by auto
  next
    case False
    then obtain q' where "q = k # q'" using Cons.prems by (auto simp: d)
    then show ?thesis by (simp add: d)
  qed
qed simp

lemma entries_distinct: "mos_ok lo n \<Longrightarrow> distinct (map fst (m_entries n))"
proof (induction n arbitrary: lo)
  case (MNode v e cs)
  have c: "distinct (map fst (m_entries n))" if "(k, n) \<in> set cs" for k n
    using MNode.IH [OF that, of n "Some k"] cs_ok_child [OF mos_ok_cs [OF MNode.prems] that] by (simp add: snds.simps)
  have "distinct (map fst (centries cs))" using c mos_ok_cs [OF MNode.prems]
  proof (induction cs)
    case (Cons a cs)
    obtain k n where a: "a = (k, n)" by (cases a)
    have "k \<notin> fst ` set cs" using Cons.prems(2) by (auto simp: a cs_ok_Cons)
    moreover have "\<exists>q'. q = k # q'" if "q \<in> set (map fst (map (\<lambda>(q, x). (k # q, x)) (m_entries n)))" for q
      using that by auto
    ultimately have "set (map fst (map (\<lambda>(q, x). (k # q, x)) (m_entries n))) \<inter> set (map fst (centries cs)) = {}"
      using centries_first [of _ cs] by blast
    moreover have "distinct (map fst (map (\<lambda>(q, x). (k # q, x)) (m_entries n)))"
      unfolding distinct_Cons_map using Cons.prems(1) by (auto simp: a)
    moreover have "distinct (map fst (centries cs))"
      by (rule Cons.IH) (use Cons.prems in \<open>auto simp: a cs_ok_Cons\<close>)
    ultimately show ?case by (simp add: a)
  qed simp
  moreover have "[] \<notin> set (map fst (centries cs))" using centries_first [of "[]" cs] by auto
  ultimately show ?case by (simp add: m_entries_eq)
qed

lemma good_insert: "full n \<Longrightarrow> good_child (MapOfSets_insert dv q x n)"
proof (induction dv q x n rule: MapOfSets_insert.induct)
  case (1 dv x v e cs)
  then show ?case by (simp add: good_child_def full_children)
next
  case (2 dv k ks x v e cs)
  let ?f = "MapOfSets_insert dv ks x"
  have "good_child m" if "(j, m) \<in> set (at_child dv k ?f ds)" "\<forall>(k, n) \<in> set ds. good_child n" for j m ds
    using that
  proof (induction ds)
    case Nil
    then show ?case using "2.IH" [of "new_MNode dv"] by (simp add: new_MNode_def full_children)
  next
    case (Cons d ds)
    obtain i l where d: "d = (i, l)" by (cases d)
    have "good_child (?f (new_MNode dv))" using "2.IH" [of "new_MNode dv"] by (simp add: new_MNode_def full_children)
    moreover have "good_child (?f l)" using "2.IH" [of l] Cons.prems(2) by (simp add: d good_child_def)
    ultimately show ?case using Cons by (auto simp: d split: if_splits)
  qed
  then have "full (MapOfSets_insert dv (k # ks) x (MNode v e cs))" using "2.prems" by (auto simp: full_children)
  moreover have "at_child dv k ?f cs \<noteq> []" using at_child_keys [of dv k ?f cs] by auto
  ultimately show ?case by (simp add: good_child_def)
qed

text \<open>\<open>std::set\<close> of the elements of a list, and a trie built by insertions into a new one.\<close>

definition std_set :: "'k::linorder list \<Rightarrow> 'k list" where
  "std_set xs = sorted_list_of_set (set xs)"

lemma std_set_ok [simp]: "sorted_wrt (<) (std_set xs)" "set (std_set xs) = set xs" "\<forall>a \<in> set q. above None a"
  by (simp_all add: std_set_def above_def)

lemma std_set_eq: "sorted_wrt (<) q \<Longrightarrow> q = std_set xs \<longleftrightarrow> set q = set xs"
  by (metis std_set_ok(1,2) strict_sorted_equal)

definition mos_build :: "'v \<Rightarrow> ('k::linorder list \<times> 'v) list \<Rightarrow> ('k, 'v) mnode" where
  "mos_build dv ops = foldl (\<lambda>t (xs, x). MapOfSets_insert dv (std_set xs) x t) (new_MNode dv) ops"

text \<open>The map from sets to values that the insertions stand for.\<close>

definition mos_map :: "('k list \<times> 'v) list \<Rightarrow> 'k set \<Rightarrow> 'v option" where
  "mos_map ops = foldl (\<lambda>m (xs, x). m(set xs \<mapsto> x)) (\<lambda>_. None) ops"

lemma build_ok:
  fixes t :: "('k::linorder, 'v) mnode"
  assumes "mos_ok None t" "full t" "\<And>q x. holds t q x \<longleftrightarrow> sorted_wrt (<) q \<and> m (set q) = Some x"
  shows "let t' = foldl (\<lambda>t (xs, x). MapOfSets_insert dv (std_set xs) x t) t ops;
             m' = foldl (\<lambda>m (xs, x). m(set xs \<mapsto> x)) m ops
         in mos_ok None t' \<and> full t' \<and> (\<forall>q x. holds t' q x \<longleftrightarrow> sorted_wrt (<) q \<and> m' (set q) = Some x)"
  using assms
proof (induction ops arbitrary: t m)
  case (Cons p ops)
  obtain xs y where p: "p = (xs, y)" by (cases p)
  let ?t = "MapOfSets_insert dv (std_set xs) y t"
  have "mos_ok None ?t" by (rule insert_mos_ok [OF Cons.prems(1)]) simp_all
  moreover have "full ?t" using good_insert [OF Cons.prems(2)] by (simp add: good_child_def)
  moreover have "holds ?t q x \<longleftrightarrow> sorted_wrt (<) q \<and> (m(set xs \<mapsto> y)) (set q) = Some x" for q x
  proof (cases "q = std_set xs")
    case True
    then show ?thesis using lookup_insert [OF Cons.prems(1)] by simp
  next
    case False
    then have "sorted_wrt (<) q \<Longrightarrow> set q \<noteq> set xs" using std_set_eq by blast
    then show ?thesis using lookup_insert [OF Cons.prems(1), of q] False Cons.prems(3) by auto
  qed
  ultimately show ?case using Cons.IH [of ?t "m(set xs \<mapsto> y)"] by (simp add: p)
qed simp

lemma mos_build_ok:
  fixes ops :: "('k::linorder list \<times> 'v) list"
  shows "mos_ok None (mos_build dv ops)" "full (mos_build dv ops)"
    "holds (mos_build dv ops) q x \<longleftrightarrow> sorted_wrt (<) q \<and> mos_map ops (set q) = Some x"
proof -
  have "holds (new_MNode dv :: ('k, 'v) mnode) q x \<longleftrightarrow> sorted_wrt (<) q \<and> None = Some x" for q x
    by (cases q) (simp_all add: new_MNode_def)
  from build_ok [OF _ _ this, of dv ops] show "mos_ok None (mos_build dv ops)" "full (mos_build dv ops)"
    "holds (mos_build dv ops) q x \<longleftrightarrow> sorted_wrt (<) q \<and> mos_map ops (set q) = Some x"
    by (simp_all add: mos_build_def mos_map_def new_MNode_def full_children Let_def)
qed

lemma mos_map_std: "finite S \<Longrightarrow> \<exists>q. sorted_wrt (<) q \<and> set q = (S :: 'k::linorder set)"
  by (metis finite_list std_set_ok(1,2))

lemma mos_map_finite: "mos_map ops S = Some x \<Longrightarrow> finite S"
proof -
  have "foldl (\<lambda>m (xs, x). m(set xs \<mapsto> x)) m ops S = Some x \<Longrightarrow> finite S \<or> m S = Some x" for m
  proof (induction ops arbitrary: m)
    case (Cons p ops)
    obtain xs y where p: "p = (xs, y)" by (cases p)
    have "finite S \<or> (m(set xs \<mapsto> y)) S = Some x" by (rule Cons.IH) (use Cons.prems in \<open>simp add: p\<close>)
    then show ?case by (auto split: if_splits)
  qed simp
  then show "mos_map ops S = Some x \<Longrightarrow> finite S" unfolding mos_map_def by fastforce
qed

lemma option_eqI: "(\<And>x. a = Some x \<longleftrightarrow> b = Some x) \<Longrightarrow> a = b"
  by (cases a; cases b) auto

lemma mos_build_sets:
  "(\<exists>q. holds (mos_build dv ops) q x \<and> set q = S) \<longleftrightarrow> mos_map ops S = Some x"
  (is "?l \<longleftrightarrow> ?r")
proof
  assume ?r
  then obtain q where "sorted_wrt (<) q" "set q = S" using mos_map_std [OF mos_map_finite] by metis
  then show ?l using \<open>?r\<close> mos_build_ok(3) [where dv = dv and ops = ops and q = q and x = x] by blast
next
  assume ?l
  then obtain q where "holds (mos_build dv ops) q x" "set q = S" by blast
  then show ?r using mos_build_ok(3) [where dv = dv and ops = ops and q = q and x = x] by simp
qed

section \<open>Properties\<close>

text \<open>
  The map of sets (C36): after any sequence of insertions into a new trie, \<open>lookup\<close> answers as
  the map from sets to values that the sequence builds, and the loop from \<open>begin()\<close> to \<open>end()\<close>
  fails no assertion, ends, and visits every stored set once, with its value.
\<close>

theorem map_of_sets_history:
  fixes ops :: "('k::linorder list \<times> 'v) list"
  shows "MapOfSets_lookup (std_set xs) (mos_build dv ops) = mos_map ops (set xs) \<and>
    (\<exists>es. Option.bind (MapOfSets_begin (mos_build dv ops)) m_traverse = Some es \<and> distinct (map fst es) \<and>
       set es = {(S, x). mos_map ops S = Some x})"
proof -
  let ?t = "mos_build dv ops"
  have ok: "mos_ok None ?t" "full ?t" by (rule mos_build_ok)+
  have "MapOfSets_lookup (std_set xs) ?t = mos_map ops (set xs)"
    by (rule option_eqI) (simp add: mos_build_ok(3))
  moreover obtain it where it: "MapOfSets_begin ?t = Some it" "m_iterates ?t it (m_entries ?t)"
    using begin_iterates [OF ok(2)] by blast
  let ?es = "map (\<lambda>(q, x). (set q, x)) (m_entries ?t)"
  have h: "(q, x) \<in> set (m_entries ?t) \<longleftrightarrow> holds ?t q x" for q x by (rule entries_holds [OF ok(1)])
  have "set ?es = {(S, x). \<exists>q. (q, x) \<in> set (m_entries ?t) \<and> set q = S}" by force
  then have "set ?es = {(S, x). \<exists>q. holds ?t q x \<and> set q = S}" unfolding h .
  then have "set ?es = {(S, x). mos_map ops S = Some x}" unfolding mos_build_sets .
  moreover have "distinct (map fst ?es)"
  proof -
    have "map fst ?es = map set (map fst (m_entries ?t))" by (simp add: case_prod_unfold)
    moreover have "inj_on set (set (map fst (m_entries ?t)))"
    proof (rule inj_onI)
      fix q r assume a: "q \<in> set (map fst (m_entries ?t))" "r \<in> set (map fst (m_entries ?t))" "set q = set r"
      have sorted: "sorted_wrt (<) q" if q: "q \<in> set (map fst (m_entries ?t))" for q
      proof -
        obtain x where "(q, x) \<in> set (m_entries ?t)" using q by auto
        then have "holds ?t q x" unfolding h .
        then show ?thesis unfolding mos_build_ok(3) by (rule conjunct1)
      qed
      show "q = r" by (rule strict_sorted_equal [OF sorted [OF a(2)] sorted [OF a(1)] a(3)])
    qed
    ultimately show ?thesis using entries_distinct [OF ok(1)] by (simp only: distinct_map)
  qed
  ultimately show ?thesis using it m_traverse_ok [OF it(2)] by simp
qed

text \<open>
  Searches among the sets (C35): \<open>findSubset\<close> and \<open>findSuperset\<close> return the value of a stored
  subset or superset of the given set that satisfies the predicate, and nothing only if
  there is none; \<open>subsets\<close> and \<open>supersets\<close> return all of them with their values.
\<close>

theorem map_of_sets_searches:
  fixes ops :: "('k::linorder list \<times> 'v) list"
  shows "searched p {x. \<exists>S. mos_map ops S = Some x \<and> S \<subseteq> set xs} (MapOfSets_findSubset (std_set xs) p (mos_build dv ops)) \<and>
    searched p {x. \<exists>S. mos_map ops S = Some x \<and> set xs \<subseteq> S} (MapOfSets_findSuperset (std_set xs) p (mos_build dv ops)) \<and>
    set (MapOfSets_subsets (std_set xs) (mos_build dv ops)) = {(S, x). mos_map ops S = Some x \<and> S \<subseteq> set xs} \<and>
    set (MapOfSets_supersets (std_set xs) (mos_build dv ops)) = {(S, x). mos_map ops S = Some x \<and> set xs \<subseteq> S}"
proof -
  let ?t = "mos_build dv ops"
  have ok: "mos_ok None ?t" by (rule mos_build_ok)
  have "subs ?t (std_set xs) = {x. \<exists>S. (\<exists>q. holds ?t q x \<and> set q = S) \<and> S \<subseteq> set xs}"
    unfolding subs_def std_set_ok by blast
  moreover have "sups ?t (std_set xs) = {x. \<exists>S. (\<exists>q. holds ?t q x \<and> set q = S) \<and> set xs \<subseteq> S}"
    unfolding sups_def std_set_ok by blast
  moreover have "set (MapOfSets_subsets (std_set xs) ?t) = {(S, x). (\<exists>q. holds ?t q x \<and> set q = S) \<and> S \<subseteq> set xs}"
    unfolding MapOfSets_subsets_def findSubsets_ok(1) [OF ok std_set_ok(1)] std_set_ok by auto
  moreover have "set (MapOfSets_supersets (std_set xs) ?t) = {(S, x). (\<exists>q. holds ?t q x \<and> set q = S) \<and> set xs \<subseteq> S}"
    unfolding MapOfSets_supersets_def findSupersets_ok(1) [OF ok std_set_ok(1)] std_set_ok by auto
  ultimately show ?thesis
    using findSubset_searched(1) [OF ok std_set_ok(1), of p xs] findSuperset_searched(1) [OF ok std_set_ok(1), of p xs]
    unfolding MapOfSets_findSubset_def MapOfSets_findSuperset_def mos_build_sets by simp
qed

end
