(* ===== verification/RNG.thy ===== *)
theory RNG
  imports KleePrelude Complex_Main
begin

text \<open>
  \<open>lib/Support/RNG.cpp\<close>: the Mersenne Twister behind every random choice of the searchers.
  The generator is its state array of \<open>N = 624\<close> words and the index \<open>mti\<close>; every reading
  of the array is checked against its bounds. The functions that return \<open>double\<close> or
  \<open>float\<close> return here the value of their expression as a rational number. That of
  \<open>getDoubleL\<close> is representable in a \<open>double\<close>, a 32-bit integer divided by a power of two.
\<close>

section \<open>The code\<close>

record rng =
  mt :: "uint32 list"
  mti :: nat

definition RNG_N :: nat where "RNG_N = 624"
definition RNG_M :: nat where "RNG_M = 397"
definition MATRIX_A :: uint32 where "MATRIX_A = 0x9908b0df"
definition UPPER_MASK :: uint32 where "UPPER_MASK = 0x80000000"
definition LOWER_MASK :: uint32 where "LOWER_MASK = 0x7fffffff"

text \<open>The loop of \<open>seed\<close>: the words from index \<open>i\<close> on, after the word \<open>prev\<close>.\<close>

fun seed_loop :: "nat \<Rightarrow> nat \<Rightarrow> uint32 \<Rightarrow> uint32 list" where
  "seed_loop 0 i prev = []"
| "seed_loop (Suc n) i prev =
    (let w = 1812433253 * (prev XOR drop_bit 30 prev) + of_nat i in w # seed_loop n (Suc i) w)"

definition RNG_seed :: "uint32 \<Rightarrow> rng" where
  "RNG_seed s = \<lparr>mt = s # seed_loop (RNG_N - 1) 1 s, mti = RNG_N\<rparr>"

definition mag01 :: "uint32 \<Rightarrow> uint32" where
  "mag01 y = (if y AND 1 = 0 then 0 else MATRIX_A)"

text \<open>
  One iteration of the generation: word \<open>kk\<close> from the words \<open>kk\<close>, \<open>j\<close> and \<open>k\<close>, where \<open>j\<close> is the
  index after \<open>kk\<close> and \<open>k\<close> the one \<open>M\<close> further on, both modulo \<open>N\<close>.
\<close>

definition gen_word :: "nat \<Rightarrow> nat \<Rightarrow> nat \<Rightarrow> uint32 list \<Rightarrow> uint32 list option" where
  "gen_word kk j k xs =
    do {
      a \<leftarrow> nth_opt xs kk;
      b \<leftarrow> nth_opt xs j;
      c \<leftarrow> nth_opt xs k;
      let y = (a AND UPPER_MASK) OR (b AND LOWER_MASK) in
      Some (xs[kk := c XOR drop_bit 1 y XOR mag01 y]) }"

fun gen_loop :: "nat list \<Rightarrow> uint32 list \<Rightarrow> uint32 list option" where
  "gen_loop [] xs = Some xs"
| "gen_loop (kk # kks) xs =
    do { xs' \<leftarrow> (if kk < RNG_N - RNG_M then gen_word kk (kk + 1) (kk + RNG_M) xs
                else gen_word kk (kk + 1) (kk + RNG_M - RNG_N) xs);
         gen_loop kks xs' }"

definition generate_words :: "uint32 list \<Rightarrow> uint32 list option" where
  "generate_words xs =
    do { xs' \<leftarrow> gen_loop [0..<RNG_N - 1] xs; gen_word (RNG_N - 1) 0 (RNG_M - 1) xs' }"

definition temper :: "uint32 \<Rightarrow> uint32" where
  "temper y0 =
    (let y1 = y0 XOR drop_bit 11 y0;
         y2 = y1 XOR (push_bit 7 y1 AND 0x9d2c5680);
         y3 = y2 XOR (push_bit 15 y2 AND 0xefc60000)
     in y3 XOR drop_bit 18 y3)"

definition RNG_getInt32 :: "rng \<Rightarrow> (uint32 \<times> rng) option" where
  "RNG_getInt32 r =
    do {
      r' \<leftarrow> if mti r \<ge> RNG_N then do { xs \<leftarrow> generate_words (mt r); Some \<lparr>mt = xs, mti = 0\<rparr> } else Some r;
      y \<leftarrow> nth_opt (mt r') (mti r');
      Some (temper y, r'\<lparr>mti := mti r' + 1\<rparr>) }"

definition RNG_getInt31 :: "rng \<Rightarrow> (int \<times> rng) option" where
  "RNG_getInt31 r = do { (x, r') \<leftarrow> RNG_getInt32 r; Some (uint (drop_bit 1 x), r') }"

definition RNG_getDoubleL :: "rng \<Rightarrow> (rat \<times> rng) option" where
  "RNG_getDoubleL r = do { (x, r') \<leftarrow> RNG_getInt32 r; Some (of_int (uint x) * (1 / 4294967296), r') }"

definition RNG_getDoubleLR :: "rng \<Rightarrow> (rat \<times> rng) option" where
  "RNG_getDoubleLR r = do { (x, r') \<leftarrow> RNG_getInt32 r; Some (of_int (uint x) * (1 / 4294967295), r') }"

definition RNG_getDouble :: "rng \<Rightarrow> (rat \<times> rng) option" where
  "RNG_getDouble r = do { (x, r') \<leftarrow> RNG_getInt32 r; Some ((of_int (uint x) + 1 / 2) * (1 / 4294967296), r') }"

text \<open>
  The conversion of an \<open>unsigned\<close> to \<open>float\<close> keeps 24 significant bits: to the nearest
  multiple of the last place, to an even one half way. The product with 2\<open>^\<close>-32 is exact.
\<close>

function last_place :: "int \<Rightarrow> int" where
  "last_place n = (if n < 16777216 then 1 else 2 * last_place (n div 2))"
  by pat_completeness auto

termination
  by (relation "measure nat") auto

definition float_of_uint32 :: "uint32 \<Rightarrow> int" where
  "float_of_uint32 x =
    (let n = uint x; u = last_place n; q = n div u; r = n mod u
     in (if 2 * r > u \<or> (2 * r = u \<and> odd q) then q + 1 else q) * u)"

definition RNG_getFloatL :: "rng \<Rightarrow> (rat \<times> rng) option" where
  "RNG_getFloatL r = do { (x, r') \<leftarrow> RNG_getInt32 r; Some (of_int (float_of_uint32 x) * (1 / 4294967296), r') }"

definition RNG_getBool :: "rng \<Rightarrow> (bool \<times> rng) option" where
  "RNG_getBool r =
    do { (b0, r') \<leftarrow> RNG_getInt32 r;
         let b1 = b0 XOR drop_bit 16 b0; b2 = b1 XOR drop_bit 8 b1; b3 = b2 XOR drop_bit 4 b2;
             b4 = b3 XOR drop_bit 2 b3; b5 = b4 XOR drop_bit 1 b4
         in Some (b5 AND 1 \<noteq> 0, r') }"

declare last_place.simps [simp del]

section \<open>Every call stays inside the state array\<close>

definition rng_ok :: "rng \<Rightarrow> bool" where
  "rng_ok r \<longleftrightarrow> length (mt r) = RNG_N \<and> mti r \<le> RNG_N"

lemma length_seed_loop [simp]: "length (seed_loop n i w) = n"
  by (induction n arbitrary: i w) (simp_all add: Let_def)

lemma seed_ok: "rng_ok (RNG_seed s)"
  by (simp add: rng_ok_def RNG_seed_def RNG_N_def)

lemma gen_word_ok:
  assumes "length xs = n" "kk < n" "j < n" "k < n"
  shows "\<exists>xs'. gen_word kk j k xs = Some xs' \<and> length xs' = n"
  using assms by (simp add: gen_word_def nth_opt_def Let_def)

lemma gen_loop_ok:
  "length xs = RNG_N \<Longrightarrow> \<forall>k \<in> set kks. k < RNG_N - 1 \<Longrightarrow>
     \<exists>xs'. gen_loop kks xs = Some xs' \<and> length xs' = RNG_N"
proof (induction kks arbitrary: xs)
  case (Cons kk kks)
  have "kk + 1 < RNG_N" "kk < RNG_N - RNG_M \<Longrightarrow> kk + RNG_M < RNG_N" "kk + RNG_M - RNG_N < RNG_N" "kk < RNG_N"
    using Cons.prems(2) by (auto simp: RNG_N_def RNG_M_def)
  then obtain xs' where xs': "(if kk < RNG_N - RNG_M then gen_word kk (kk + 1) (kk + RNG_M) xs
      else gen_word kk (kk + 1) (kk + RNG_M - RNG_N) xs) = Some xs'" "length xs' = RNG_N"
    using gen_word_ok [OF Cons.prems(1), of kk "kk + 1" "kk + RNG_M"]
      gen_word_ok [OF Cons.prems(1), of kk "kk + 1" "kk + RNG_M - RNG_N"]
    by (cases "kk < RNG_N - RNG_M") auto
  then show ?case using Cons.IH [OF xs'(2)] Cons.prems(2) by simp
qed simp

lemma generate_ok: "length xs = RNG_N \<Longrightarrow> \<exists>xs'. generate_words xs = Some xs' \<and> length xs' = RNG_N"
proof -
  assume "length xs = RNG_N"
  then obtain xs1 where xs1: "gen_loop [0..<RNG_N - 1] xs = Some xs1" "length xs1 = RNG_N"
    using gen_loop_ok [of xs "[0..<RNG_N - 1]"] by auto
  obtain xs2 where "gen_word (RNG_N - 1) 0 (RNG_M - 1) xs1 = Some xs2" "length xs2 = RNG_N"
    using gen_word_ok [OF xs1(2), of "RNG_N - 1" 0 "RNG_M - 1"] by (auto simp: RNG_N_def RNG_M_def)
  then show ?thesis using xs1(1) by (simp add: generate_words_def)
qed

lemma getInt32_ok:
  assumes "rng_ok r"
  shows "\<exists>x r'. RNG_getInt32 r = Some (x, r') \<and> rng_ok r' \<and> 0 < mti r'"
proof (cases "mti r \<ge> RNG_N")
  case True
  obtain xs where "generate_words (mt r) = Some xs" "length xs = RNG_N"
    using generate_ok assms by (auto simp: rng_ok_def)
  then show ?thesis using True by (simp add: RNG_getInt32_def rng_ok_def nth_opt_def RNG_N_def)
next
  case False
  then show ?thesis using assms by (simp add: RNG_getInt32_def rng_ok_def nth_opt_def)
qed

lemma getDoubleL_ok:
  assumes "rng_ok r"
  shows "\<exists>p r'. RNG_getDoubleL r = Some (p, r') \<and> rng_ok r' \<and> 0 \<le> p \<and> p < 1"
proof -
  obtain x r' where x: "RNG_getInt32 r = Some (x, r')" "rng_ok r'" using getInt32_ok [OF assms] by blast
  define q :: rat where "q = of_int (uint x)"
  have "uint x < 4294967296" "0 \<le> uint x" using uint_lt2p [of x] by simp_all
  then have "q < 4294967296" "0 \<le> q" unfolding q_def
    by (metis of_int_less_iff of_int_numeral, metis of_int_0_le_iff)
  then have "0 \<le> q * (1 / 4294967296)" "q * (1 / 4294967296) < 1" by simp_all
  moreover have "RNG_getDoubleL r = Some (q * (1 / 4294967296), r')"
    using x(1) by (simp only: RNG_getDoubleL_def q_def) simp
  ultimately show ?thesis using x(2) by blast
qed

end
