(* ===== verification/RNGProps.thy ===== *)
theory RNGProps
  imports RNG
begin

text \<open>
  The numbers of the generator. \<open>mt_seq\<close> is the Mersenne Twister as a recurrence over an
  infinite sequence of words; the code computes it in place, 624 words at a time.
\<close>

section \<open>The recurrence\<close>

definition twist :: "uint32 \<Rightarrow> uint32 \<Rightarrow> uint32" where
  "twist a b = (let y = (a AND UPPER_MASK) OR (b AND LOWER_MASK) in drop_bit 1 y XOR mag01 y)"

function mt_seq :: "uint32 list \<Rightarrow> nat \<Rightarrow> uint32" where
  "mt_seq xs i =
    (if i < RNG_N then xs ! i
     else mt_seq xs (i - RNG_N + RNG_M) XOR twist (mt_seq xs (i - RNG_N)) (mt_seq xs (i - RNG_N + 1)))"
  by pat_completeness auto

termination
  by (relation "measure snd") (auto simp: RNG_N_def RNG_M_def)

declare mt_seq.simps [simp del]

lemma mt_seq_small: "i < RNG_N \<Longrightarrow> mt_seq xs i = xs ! i"
  by (subst mt_seq.simps) simp

lemma mt_seq_step: "mt_seq xs (RNG_N + i) = mt_seq xs (i + RNG_M) XOR twist (mt_seq xs i) (mt_seq xs (i + 1))"
  by (subst mt_seq.simps) simp

text \<open>The array after the first \<open>n\<close> words have been replaced.\<close>

definition half_way :: "uint32 list \<Rightarrow> nat \<Rightarrow> uint32 list" where
  "half_way xs n = map (\<lambda>i. mt_seq xs (if i < n then RNG_N + i else i)) [0..<RNG_N]"

lemma half_way_nth: "i < RNG_N \<Longrightarrow> nth_opt (half_way xs n) i = Some (mt_seq xs (if i < n then RNG_N + i else i))"
  by (simp add: half_way_def nth_opt_def)

lemma half_way_0: "length xs = RNG_N \<Longrightarrow> half_way xs 0 = xs"
  by (rule nth_equalityI) (simp_all add: half_way_def mt_seq_small)

lemma half_way_update:
  assumes "n < RNG_N"
  shows "(half_way xs n)[n := mt_seq xs (RNG_N + n)] = half_way xs (Suc n)"
  using assms by (intro nth_equalityI) (auto simp: half_way_def nth_list_update less_Suc_eq)

lemma gen_word_half_way:
  assumes "n < RNG_N" "j < RNG_N" "k < RNG_N"
    and "(if j < n then RNG_N + j else j) = n + 1" "(if k < n then RNG_N + k else k) = n + RNG_M"
  shows "gen_word n j k (half_way xs n) = Some (half_way xs (Suc n))"
proof -
  have "nth_opt (half_way xs n) n = Some (mt_seq xs n)"
    "nth_opt (half_way xs n) j = Some (mt_seq xs (n + 1))"
    "nth_opt (half_way xs n) k = Some (mt_seq xs (n + RNG_M))"
    using assms(1-3) by (simp_all only: half_way_nth assms(4,5) if_False less_irrefl)
  then have "gen_word n j k (half_way xs n) = Some ((half_way xs n)[n :=
      mt_seq xs (n + RNG_M) XOR twist (mt_seq xs n) (mt_seq xs (n + 1))])"
    by (simp only: gen_word_def twist_def Let_def xor.assoc bind.bind_lunit)
  then show ?thesis by (simp only: mt_seq_step [symmetric] half_way_update [OF assms(1)])
qed

lemma gen_loop_half_way:
  "m + length kks = RNG_N - 1 \<Longrightarrow> kks = [m..<RNG_N - 1] \<Longrightarrow>
     gen_loop kks (half_way xs m) = Some (half_way xs (RNG_N - 1))"
proof (induction kks arbitrary: m)
  case (Cons kk kks)
  have m: "m < RNG_N - 1" using Cons.prems(1) by simp
  then have k: "kk = m" "kks = [Suc m..<RNG_N - 1]" using Cons.prems(2) by (simp_all add: upt_conv_Cons)
  have "(if m < RNG_N - RNG_M then gen_word m (m + 1) (m + RNG_M) (half_way xs m)
        else gen_word m (m + 1) (m + RNG_M - RNG_N) (half_way xs m)) = Some (half_way xs (Suc m))"
  proof (cases "m < RNG_N - RNG_M")
    case True
    then have "gen_word m (m + 1) (m + RNG_M) (half_way xs m) = Some (half_way xs (Suc m))"
      using m by (intro gen_word_half_way) (simp_all add: RNG_N_def RNG_M_def)
    then show ?thesis using True by simp
  next
    case False
    then have "gen_word m (m + 1) (m + RNG_M - RNG_N) (half_way xs m) = Some (half_way xs (Suc m))"
      using m by (intro gen_word_half_way) (simp_all add: RNG_N_def RNG_M_def)
    then show ?thesis using False by simp
  qed
  then show ?case using Cons.IH [of "Suc m"] Cons.prems(1) k by simp
qed simp

lemma generate_words_seq:
  assumes "length xs = RNG_N"
  shows "generate_words xs = Some (map (\<lambda>i. mt_seq xs (RNG_N + i)) [0..<RNG_N])"
proof -
  have "gen_loop [0..<RNG_N - 1] (half_way xs 0) = Some (half_way xs (RNG_N - 1))"
    by (rule gen_loop_half_way) simp_all
  moreover have "gen_word (RNG_N - 1) 0 (RNG_M - 1) (half_way xs (RNG_N - 1)) = Some (half_way xs (Suc (RNG_N - 1)))"
    by (rule gen_word_half_way) (simp_all add: RNG_N_def RNG_M_def)
  moreover have "half_way xs (Suc (RNG_N - 1)) = map (\<lambda>i. mt_seq xs (RNG_N + i)) [0..<RNG_N]"
    by (simp add: half_way_def RNG_N_def)
  ultimately show ?thesis by (simp add: generate_words_def half_way_0 assms)
qed

text \<open>A block of the sequence continues it.\<close>

lemma mt_seq_block: "mt_seq (map (\<lambda>i. mt_seq xs (b + i)) [0..<RNG_N]) j = mt_seq xs (b + j)"
proof (induction j rule: less_induct)
  case (less j)
  let ?ys = "map (\<lambda>i. mt_seq xs (b + i)) [0..<RNG_N]"
  show ?case
  proof (cases "j < RNG_N")
    case False
    then obtain i where i: "j = RNG_N + i" by (metis le_add_diff_inverse not_less)
    have "mt_seq ?ys (i + RNG_M) = mt_seq xs (b + (i + RNG_M))" "mt_seq ?ys i = mt_seq xs (b + i)"
      "mt_seq ?ys (i + 1) = mt_seq xs (b + (i + 1))"
      by (rule less.IH; simp add: i RNG_N_def RNG_M_def)+
    then have "mt_seq ?ys j = mt_seq xs (b + i + RNG_M) XOR twist (mt_seq xs (b + i)) (mt_seq xs (b + i + 1))"
      by (simp only: i mt_seq_step add.assoc)
    also have "\<dots> = mt_seq xs (RNG_N + (b + i))" by (rule mt_seq_step [symmetric])
    finally show ?thesis by (simp add: i ac_simps)
  qed (simp add: mt_seq_small)
qed

text \<open>The generator stands before word \<open>n\<close> of the sequence.\<close>

definition stands_at :: "uint32 list \<Rightarrow> nat \<Rightarrow> rng \<Rightarrow> bool" where
  "stands_at xs n r \<longleftrightarrow> (\<exists>b. mt r = map (\<lambda>i. mt_seq xs (b + i)) [0..<RNG_N] \<and> b + mti r = n \<and> mti r \<le> RNG_N)"

lemma seed_stands: "stands_at (mt (RNG_seed s)) RNG_N (RNG_seed s)"
proof -
  have l: "length (mt (RNG_seed s)) = RNG_N" "mti (RNG_seed s) = RNG_N" using seed_ok [of s] by (simp_all add: rng_ok_def RNG_seed_def)
  have "mt (RNG_seed s) = map (\<lambda>i. mt_seq (mt (RNG_seed s)) (0 + i)) [0..<RNG_N]"
    by (rule nth_equalityI) (simp_all add: l mt_seq_small)
  then show ?thesis using l(2) unfolding stands_at_def by (intro exI [of _ 0]) simp
qed

lemma getInt32_stands:
  assumes "stands_at xs n r"
  shows "\<exists>r'. RNG_getInt32 r = Some (temper (mt_seq xs n), r') \<and> stands_at xs (Suc n) r'"
proof -
  obtain b where b: "mt r = map (\<lambda>i. mt_seq xs (b + i)) [0..<RNG_N]" "b + mti r = n" "mti r \<le> RNG_N"
    using assms unfolding stands_at_def by blast
  show ?thesis
  proof (cases "mti r = RNG_N")
    case True
    have "generate_words (mt r) = Some (map (\<lambda>i. mt_seq xs (b + RNG_N + i)) [0..<RNG_N])"
      using generate_words_seq [of "mt r"] by (simp add: b(1) mt_seq_block add.assoc)
    moreover have "0 < RNG_N" by (simp add: RNG_N_def)
    ultimately show ?thesis using True b(2)
      by (auto simp: RNG_getInt32_def nth_opt_def stands_at_def intro!: exI [of _ "b + RNG_N"])
  next
    case False
    then have "mti r < RNG_N" using b(3) by simp
    then show ?thesis using b by (auto simp: RNG_getInt32_def nth_opt_def stands_at_def intro!: exI [of _ b])
  qed
qed

fun getInt32s :: "nat \<Rightarrow> rng \<Rightarrow> (uint32 list \<times> rng) option" where
  "getInt32s 0 r = Some ([], r)"
| "getInt32s (Suc n) r = do { (x, r1) \<leftarrow> RNG_getInt32 r; (xs, r2) \<leftarrow> getInt32s n r1; Some (x # xs, r2) }"

lemma getInt32s_stands:
  "stands_at xs m r \<Longrightarrow> \<exists>r'. getInt32s n r = Some (map (\<lambda>k. temper (mt_seq xs (m + k))) [0..<n], r') \<and> stands_at xs (m + n) r'"
proof (induction n arbitrary: m r)
  case (Suc n)
  obtain r1 where r1: "RNG_getInt32 r = Some (temper (mt_seq xs m), r1)" "stands_at xs (Suc m) r1"
    using getInt32_stands [OF Suc.prems] by blast
  obtain r2 where "getInt32s n r1 = Some (map (\<lambda>k. temper (mt_seq xs (Suc m + k))) [0..<n], r2)" "stands_at xs (Suc m + n) r2"
    using Suc.IH [OF r1(2)] by blast
  moreover have "map (\<lambda>k. temper (mt_seq xs (m + k))) [0..<Suc n] =
      temper (mt_seq xs m) # map (\<lambda>k. temper (mt_seq xs (Suc m + k))) [0..<n]"
    by (simp add: map_upt_Suc del: upt_Suc)
  ultimately show ?case using r1(1) by simp
qed simp

section \<open>Rounding to float\<close>

lemma last_place_power: "k = 0 \<or> 2 ^ (23 + k) \<le> n \<Longrightarrow> n < 2 ^ (24 + k) \<Longrightarrow> last_place n = 2 ^ k"
proof (induction k arbitrary: n)
  case 0
  then show ?case by (subst last_place.simps) simp
next
  case (Suc k)
  have low: "2 ^ (24 + k) \<le> n" and high: "n < 2 * 2 ^ (24 + k)" using Suc.prems by (simp_all add: power_add)
  have "(2 :: int) ^ (24 + k) = 2 * 2 ^ (23 + k)" by (simp add: power_add)
  then have "2 ^ (23 + k) \<le> n div 2" "n div 2 < 2 ^ (24 + k)" using low high by linarith+
  then have "last_place (n div 2) = 2 ^ k" using Suc.IH by blast
  moreover have "(2 :: int) ^ 24 \<le> 2 ^ (24 + k)" by (rule power_increasing) simp_all
  then have "\<not> n < 16777216" using low by simp
  ultimately show ?case by (subst last_place.simps) simp
qed

section \<open>Properties\<close>

text \<open>
  The generator is the Mersenne Twister : after \<open>seed\<close>, any number of calls of \<open>getInt32\<close>
  return the tempered words of the recurrence over the seeded array, one after the other,
  from word 624 on; generating 624 words in place, from three loops that read words that
  are partly replaced already, makes no difference.
\<close>

theorem getInt32_is_recurrence:
  "\<exists>r. getInt32s n (RNG_seed s) =
     Some (map (\<lambda>k. temper (mt_seq (mt (RNG_seed s)) (RNG_N + k))) [0..<n], r)"
  using getInt32s_stands [OF seed_stands] by blast

lemma uint_rat:
  fixes x :: uint32
  defines "q \<equiv> of_int (uint x) :: rat"
  shows "0 \<le> q" "q \<le> 4294967295"
proof -
  have b: "0 \<le> uint x" "uint x \<le> 4294967295" using uint_lt2p [of x] by simp_all
  have "(of_int (uint x) :: rat) \<le> of_int 4294967295" using b(2) by (simp only: of_int_le_iff)
  then show "q \<le> 4294967295" by (simp add: q_def)
  show "0 \<le> q" unfolding q_def using b(1) by (simp only: of_int_0_le_iff)
qed

text \<open>
  Ranges : on a seeded generator \<open>getInt31\<close> is below 2\<open>^\<close>31, \<open>getDoubleL\<close> lies in [0,1),
  \<open>getDouble\<close> in (0,1) and \<open>getDoubleLR\<close> in [0,1]; each call reads inside the state array
  and leaves the generator ready for the next.
\<close>

theorem random_ranges:
  assumes "rng_ok r"
  shows "(\<exists>i r'. RNG_getInt31 r = Some (i, r') \<and> 0 \<le> i \<and> i < 2 ^ 31 \<and> rng_ok r') \<and>
    (\<exists>p r'. RNG_getDoubleL r = Some (p, r') \<and> 0 \<le> p \<and> p < 1 \<and> rng_ok r') \<and>
    (\<exists>p r'. RNG_getDouble r = Some (p, r') \<and> 0 < p \<and> p < 1 \<and> rng_ok r') \<and>
    (\<exists>p r'. RNG_getDoubleLR r = Some (p, r') \<and> 0 \<le> p \<and> p \<le> 1 \<and> rng_ok r')"
proof -
  obtain x r' where x: "RNG_getInt32 r = Some (x, r')" "rng_ok r'" using getInt32_ok [OF assms] by blast
  note q = uint_rat [of x]
  have "uint (drop_bit 1 x) = uint x div 2"
    by (simp add: drop_bit_eq_div uint_div)
  moreover have "0 \<le> uint x" "uint x < 4294967296" using uint_lt2p [of x] by simp_all
  ultimately have "0 \<le> uint (drop_bit 1 x)" "uint (drop_bit 1 x) < 2 ^ 31" by simp_all
  moreover define p :: rat where "p = of_int (uint x)"
  moreover have p: "0 \<le> p" "p \<le> 4294967295" using q unfolding p_def by simp_all
  moreover have "RNG_getInt31 r = Some (uint (drop_bit 1 x), r')" "RNG_getDoubleL r = Some (p * (1 / 4294967296), r')"
    "RNG_getDouble r = Some ((p + 1 / 2) * (1 / 4294967296), r')"
    "RNG_getDoubleLR r = Some (p * (1 / 4294967295), r')"
    unfolding RNG_getInt31_def RNG_getDoubleL_def RNG_getDouble_def RNG_getDoubleLR_def x(1) p_def by simp_all
  moreover have "0 \<le> p * (1 / 4294967296)" "p * (1 / 4294967296) < 1" "0 < (p + 1 / 2) * (1 / 4294967296)"
    "(p + 1 / 2) * (1 / 4294967296) < 1" "0 \<le> p * (1 / 4294967295)" "p * (1 / 4294967295) \<le> 1"
    using p by (simp_all add: field_simps)
  ultimately show ?thesis using x(2) by blast
qed

theorem random_ranges_witness:
  "\<exists>p r'. RNG_getDoubleL (RNG_seed 5489) = Some (p, r') \<and> 0 \<le> p \<and> p < 1 \<and> rng_ok r'"
  using random_ranges [OF seed_ok [of 5489]] by (elim conjE)

text \<open>
  The half-open interval of \<open>getFloatL\<close> is closed : the comment in \<open>RNG.h\<close> promises
  a number in [0,1), but the conversion of the upper 128 words to \<open>float\<close> rounds to 2\<open>^\<close>32, and
  then \<open>getFloatL\<close> returns 1.
\<close>

theorem getFloatL_reaches_one:
  assumes "RNG_getInt32 r = Some (x, r')" "4294967168 \<le> uint x"
  shows "RNG_getFloatL r = Some (1, r')"
proof -
  have b: "uint x < 4294967296" using uint_lt2p [of x] by simp
  have u: "last_place (uint x) = 256" using last_place_power [of 8 "uint x"] assms(2) b by simp
  have q: "uint x div 256 = 16777215" using assms(2) b by linarith
  then have "uint x mod 256 = uint x - 16777215 * 256" by (simp add: minus_div_mult_eq_mod [symmetric])
  then have "2 * (uint x mod 256) > 256 \<or> 2 * (uint x mod 256) = 256" using assms(2) by linarith
  then have "float_of_uint32 x = 4294967296" unfolding float_of_uint32_def Let_def u q by auto
  then show ?thesis using assms(1) by (simp add: RNG_getFloatL_def)
qed

theorem getFloatL_reaches_one_witness:
  "RNG_getFloatL \<lparr>mt = [316513203], mti = 0\<rparr> = Some (1, \<lparr>mt = [316513203], mti = 1\<rparr>)"
proof (rule getFloatL_reaches_one)
  show "RNG_getInt32 \<lparr>mt = [316513203], mti = 0\<rparr> = Some (0xffffffff, \<lparr>mt = [316513203], mti = 1\<rparr>)"
    by (simp add: RNG_getInt32_def RNG_N_def temper_def nth_opt_def)
qed simp

end
