(* ===== verification/PTree.thy ===== *)
theory PTree
  imports RNG
begin

text \<open>
  \<open>lib/Core/PTree.cpp\<close>: the process tree, whose leaves are the execution states, and the walk
  of \<open>RandomPathSearcher::selectState\<close> (\<open>lib/Core/Searcher.cpp\<close>) over it.

  The nodes live in a store: an address is a natural number, a freed node is \<open>None\<close>, and
  \<open>std::make_unique\<close> takes the next address. Following a null or freed pointer, and a failed
  assertion, is \<open>None\<close>. \<open>ptreeNode\<close> is the field of that name of every execution state.
  The store represents a tree (\<open>rep\<close>); \<open>attach\<close> and \<open>remove\<close> are proved to represent
  the corresponding tree operations, and the walk to end at a live state.
\<close>

section \<open>The code\<close>

record 's ptnode =
  pt_parent :: "nat option"
  pt_left :: "nat option"
  pt_right :: "nat option"
  pt_state :: "'s option"

record 's process_tree =
  nodes :: "nat \<Rightarrow> 's ptnode option"
  next_addr :: nat
  pt_root :: nat
  ptreeNode :: "'s \<Rightarrow> nat option"

text \<open>\<open>std::make_unique<PTreeNode>(parent, state)\<close>: the constructor sets \<open>state->ptreeNode\<close>.\<close>

definition new_PTreeNode :: "nat option \<Rightarrow> 's \<Rightarrow> 's process_tree \<Rightarrow> nat \<times> 's process_tree" where
  "new_PTreeNode parent s h =
    (next_addr h,
     h\<lparr>nodes := (nodes h)(next_addr h \<mapsto>
          \<lparr>pt_parent = parent, pt_left = None, pt_right = None, pt_state = Some s\<rparr>),
       next_addr := next_addr h + 1,
       ptreeNode := (ptreeNode h)(s \<mapsto> next_addr h)\<rparr>)"

definition PTree_new :: "'s \<Rightarrow> 's process_tree" where
  "PTree_new s =
    (let (a, h) = new_PTreeNode None s
       \<lparr>nodes = (\<lambda>_. None), next_addr = 0, pt_root = 0, ptreeNode = (\<lambda>_. None)\<rparr>
     in h\<lparr>pt_root := a\<rparr>)"

definition set_node :: "nat \<Rightarrow> 's ptnode \<Rightarrow> 's process_tree \<Rightarrow> 's process_tree" where
  "set_node a n h = h\<lparr>nodes := (nodes h)(a \<mapsto> n)\<rparr>"

definition PTree_attach :: "nat \<Rightarrow> 's \<Rightarrow> 's \<Rightarrow> 's process_tree \<Rightarrow> 's process_tree option" where
  "PTree_attach node leftState rightState h =
    do {
      n \<leftarrow> nodes h node;
      check (pt_left n = None \<and> pt_right n = None)
        (let h1 = set_node node (n\<lparr>pt_state := None\<rparr>) h;
             (l, h2) = new_PTreeNode (Some node) leftState h1;
             h3 = set_node node (n\<lparr>pt_state := None, pt_left := Some l\<rparr>) h2;
             (r, h4) = new_PTreeNode (Some node) rightState h3
         in Some (set_node node (n\<lparr>pt_state := None, pt_left := Some l, pt_right := Some r\<rparr>) h4)) }"

text \<open>
  The \<open>do\<close> loop of \<open>remove\<close>. Assigning \<open>nullptr\<close> to the parent's \<open>unique_ptr\<close> frees the
  node, which has no children any more.
\<close>

partial_function (option) remove_loop :: "(nat \<Rightarrow> 's ptnode option) \<Rightarrow> nat \<Rightarrow> (nat \<Rightarrow> 's ptnode option) option" where
  "remove_loop N n =
    do {
      nd \<leftarrow> N n;
      (case pt_parent nd of
         None \<Rightarrow> Some N
       | Some p \<Rightarrow>
           do {
             pd \<leftarrow> N p;
             pd' \<leftarrow> if pt_left pd = Some n then Some (pd\<lparr>pt_left := None\<rparr>)
                    else if pt_right pd = Some n then Some (pd\<lparr>pt_right := None\<rparr>) else None;
             let N' = (N(n := None))(p \<mapsto> pd') in
             if pt_left pd' = None \<and> pt_right pd' = None then remove_loop N' p else Some N' }) }"

definition PTree_remove :: "nat \<Rightarrow> 's process_tree \<Rightarrow> 's process_tree option" where
  "PTree_remove n h =
    do {
      nd \<leftarrow> nodes h n;
      check (pt_left nd = None \<and> pt_right nd = None)
        (do { N \<leftarrow> remove_loop (nodes h) n; Some (h\<lparr>nodes := N\<rparr>) }) }"

text \<open>The loop of \<open>RandomPathSearcher::selectState\<close>, with its locals \<open>n\<close>, \<open>flips\<close> and \<open>bits\<close>.\<close>

partial_function (option) walk ::
  "(nat \<Rightarrow> 's ptnode option) \<Rightarrow> nat \<Rightarrow> uint32 \<Rightarrow> nat \<Rightarrow> rng \<Rightarrow> ('s \<times> rng) option" where
  "walk N n flips bits r =
    do {
      nd \<leftarrow> N n;
      (case pt_state nd of
         Some s \<Rightarrow> Some (s, r)
       | None \<Rightarrow>
           (case pt_left nd of
              None \<Rightarrow> do { n' \<leftarrow> pt_right nd; walk N n' flips bits r }
            | Some l \<Rightarrow>
                (case pt_right nd of
                   None \<Rightarrow> walk N l flips bits r
                 | Some rt \<Rightarrow>
                     do {
                       (flips', bits', r') \<leftarrow>
                         if bits = 0 then do { (x, r') \<leftarrow> RNG_getInt32 r; Some (x, 32, r') }
                         else Some (flips, bits, r);
                       walk N (if bit flips' (bits' - 1) then l else rt) flips' (bits' - 1) r' }))) }"

definition RandomPath_selectState :: "'s process_tree \<Rightarrow> rng \<Rightarrow> ('s \<times> rng) option" where
  "RandomPath_selectState h r = walk (nodes h) (pt_root h) 0 0 r"

section \<open>The tree that a store represents\<close>

datatype 's pt = PNone | PT nat "'s pt" "'s pt" "'s option"

fun rep :: "(nat \<Rightarrow> 's ptnode option) \<Rightarrow> nat option \<Rightarrow> nat option \<Rightarrow> 's pt \<Rightarrow> bool" where
  "rep N par x PNone \<longleftrightarrow> x = None"
| "rep N par x (PT i l r s) \<longleftrightarrow> x = Some i \<and>
     (\<exists>n. N i = Some n \<and> pt_parent n = par \<and> pt_state n = s \<and>
          rep N (Some i) (pt_left n) l \<and> rep N (Some i) (pt_right n) r)"

fun addrs :: "'s pt \<Rightarrow> nat list" where
  "addrs PNone = []"
| "addrs (PT i l r s) = i # addrs l @ addrs r"

fun leaves :: "'s pt \<Rightarrow> ('s \<times> nat) list" where
  "leaves PNone = []"
| "leaves (PT i l r s) = (case s of None \<Rightarrow> [] | Some x \<Rightarrow> [(x, i)]) @ leaves l @ leaves r"

text \<open>A node has a state exactly when it is a leaf.\<close>

fun live :: "'s pt \<Rightarrow> bool" where
  "live PNone = True"
| "live (PT i l r s) \<longleftrightarrow> (s = None \<longleftrightarrow> l \<noteq> PNone \<or> r \<noteq> PNone) \<and> live l \<and> live r"

lemma rep_update [simp]: "a \<notin> set (addrs t) \<Longrightarrow> rep (N(a := y)) par x t = rep N par x t"
  by (induction t arbitrary: par x) auto

lemma rep_addrs: "rep N par x t \<Longrightarrow> i \<in> set (addrs t) \<Longrightarrow> N i \<noteq> None"
  by (induction t arbitrary: par x) auto

text \<open>A node in its context, the frames from its parent to the root.\<close>

datatype 's pframe = PL nat "'s pt" "'s option" | PR nat "'s pt" "'s option"

fun frame_addr :: "'s pframe \<Rightarrow> nat" where
  "frame_addr (PL i _ _) = i"
| "frame_addr (PR i _ _) = i"

definition ctx_parent :: "'s pframe list \<Rightarrow> nat option" where
  "ctx_parent ctx = (case ctx of [] \<Rightarrow> None | f # _ \<Rightarrow> Some (frame_addr f))"

fun pplug1 :: "'s pt \<Rightarrow> 's pframe \<Rightarrow> 's pt" where
  "pplug1 t (PL i r s) = PT i t r s"
| "pplug1 t (PR i l s) = PT i l t s"

fun pplug :: "'s pt \<Rightarrow> 's pframe list \<Rightarrow> 's pt" where
  "pplug t [] = t"
| "pplug t (f # fs) = pplug (pplug1 t f) fs"

fun rep_ctx :: "(nat \<Rightarrow> 's ptnode option) \<Rightarrow> nat \<Rightarrow> nat option \<Rightarrow> 's pframe list \<Rightarrow> bool" where
  "rep_ctx N rt x [] \<longleftrightarrow> x = Some rt"
| "rep_ctx N rt x (PL i r s # fs) \<longleftrightarrow>
     (\<exists>n. N i = Some n \<and> pt_parent n = ctx_parent fs \<and> pt_state n = s \<and> pt_left n = x \<and>
          rep N (Some i) (pt_right n) r) \<and> rep_ctx N rt (Some i) fs"
| "rep_ctx N rt x (PR i l s # fs) \<longleftrightarrow>
     (\<exists>n. N i = Some n \<and> pt_parent n = ctx_parent fs \<and> pt_state n = s \<and> pt_right n = x \<and>
          rep N (Some i) (pt_left n) l) \<and> rep_ctx N rt (Some i) fs"

fun ctx_addrs :: "'s pframe list \<Rightarrow> nat list" where
  "ctx_addrs [] = []"
| "ctx_addrs (PL i t _ # fs) = i # addrs t @ ctx_addrs fs"
| "ctx_addrs (PR i t _ # fs) = i # addrs t @ ctx_addrs fs"

lemma ctx_parent_simps [simp]: "ctx_parent [] = None" "ctx_parent (f # fs) = Some (frame_addr f)"
  by (simp_all add: ctx_parent_def)

lemma rep_pplug:
  "rep N None (Some rt) (pplug t ctx) \<longleftrightarrow> (\<exists>x. rep N (ctx_parent ctx) x t \<and> rep_ctx N rt x ctx)"
proof (induction ctx arbitrary: t)
  case (Cons f fs)
  then show ?case by (cases f) auto
qed simp

lemma rep_ctx_update [simp]: "a \<notin> set (ctx_addrs ctx) \<Longrightarrow> rep_ctx (N(a := y)) rt x ctx = rep_ctx N rt x ctx"
  by (induction ctx arbitrary: x rule: ctx_addrs.induct) auto

lemma addrs_pplug: "set (addrs (pplug t ctx)) = set (addrs t) \<union> set (ctx_addrs ctx)"
proof (induction ctx arbitrary: t)
  case (Cons f fs)
  show ?case unfolding pplug.simps Cons.IH by (cases f) auto
qed simp

lemma distinct_pplug: "distinct (addrs (pplug t ctx)) \<longleftrightarrow> distinct (addrs t @ ctx_addrs ctx)"
proof (induction ctx arbitrary: t)
  case (Cons f fs)
  show ?case unfolding pplug.simps Cons.IH by (cases f) auto
qed simp

fun ctx_leaves :: "'s pframe list \<Rightarrow> ('s \<times> nat) set" where
  "ctx_leaves [] = {}"
| "ctx_leaves (PL i t s # fs) = (case s of None \<Rightarrow> {} | Some x \<Rightarrow> {(x, i)}) \<union> set (leaves t) \<union> ctx_leaves fs"
| "ctx_leaves (PR i t s # fs) = (case s of None \<Rightarrow> {} | Some x \<Rightarrow> {(x, i)}) \<union> set (leaves t) \<union> ctx_leaves fs"

lemma leaves_pplug: "set (leaves (pplug t ctx)) = set (leaves t) \<union> ctx_leaves ctx"
proof (induction ctx arbitrary: t)
  case (Cons f fs)
  show ?case unfolding pplug.simps Cons.IH by (cases f) (auto split: option.splits)
qed simp

fun live_ctx :: "'s pframe list \<Rightarrow> bool" where
  "live_ctx [] = True"
| "live_ctx (PL i t s # fs) \<longleftrightarrow> s = None \<and> live t \<and> live_ctx fs"
| "live_ctx (PR i t s # fs) \<longleftrightarrow> s = None \<and> live t \<and> live_ctx fs"

lemma pplug1_PNone [simp]: "pplug1 t f \<noteq> PNone"
  by (cases f) simp_all

lemma live_pplug: "t \<noteq> PNone \<Longrightarrow> live (pplug t ctx) \<longleftrightarrow> live t \<and> live_ctx ctx"
proof (induction ctx arbitrary: t)
  case (Cons f fs)
  show ?case unfolding pplug.simps Cons.IH [OF pplug1_PNone] using Cons.prems by (cases f) auto
qed simp

lemma pplug_append [simp]: "pplug t (c1 @ c2) = pplug (pplug t c1) c2"
  by (induction t c1 rule: pplug.induct) simp_all

lemma find_leaf:
  "live t \<Longrightarrow> (s, i) \<in> set (leaves t) \<Longrightarrow> \<exists>ctx. t = pplug (PT i PNone PNone (Some s)) ctx"
proof (induction t)
  case (PT j l r st)
  consider "st = Some s" "i = j" | "(s, i) \<in> set (leaves l)" | "(s, i) \<in> set (leaves r)"
    using PT.prems(2) by (auto split: option.splits)
  then show ?case
  proof cases
    case 1
    then show ?thesis using PT.prems(1) by (intro exI [of _ "[]"]) simp
  next
    case 2
    then obtain ctx where "l = pplug (PT i PNone PNone (Some s)) ctx" using PT by auto
    then show ?thesis by (intro exI [of _ "ctx @ [PL j r st]"]) simp
  next
    case 3
    then obtain ctx where "r = pplug (PT i PNone PNone (Some s)) ctx" using PT by auto
    then show ?thesis by (intro exI [of _ "ctx @ [PR j l st]"]) simp
  qed
qed simp

section \<open>Attaching and removing\<close>

text \<open>The whole tree: the store represents it, fresh addresses are free, every leaf knows its node.\<close>

definition process_ok :: "'s process_tree \<Rightarrow> 's pt \<Rightarrow> bool" where
  "process_ok h t \<longleftrightarrow>
     rep (nodes h) None (Some (pt_root h)) t \<and> distinct (addrs t) \<and> live t \<and>
     (\<forall>a \<ge> next_addr h. nodes h a = None) \<and>
     (\<forall>(s, i) \<in> set (leaves t). ptreeNode h s = Some i)"

definition states_of :: "'s pt \<Rightarrow> 's set" where
  "states_of t = fst ` set (leaves t)"

lemma process_addrs:
  assumes "process_ok h t" "i \<in> set (addrs t)"
  shows "i < next_addr h"
proof (rule ccontr)
  assume "\<not> i < next_addr h"
  then have "nodes h i = None" using assms(1) by (simp add: process_ok_def)
  then show False using rep_addrs [of "nodes h" None "Some (pt_root h)" t i] assms by (simp add: process_ok_def)
qed

lemma leaves_addrs: "(x, j) \<in> set (leaves t) \<Longrightarrow> j \<in> set (addrs t)"
  by (induction t) (auto split: option.splits)

lemma ctx_leaves_addrs: "(x, j) \<in> ctx_leaves ctx \<Longrightarrow> j \<in> set (ctx_addrs ctx)"
  by (induction ctx rule: ctx_leaves.induct) (auto split: option.splits dest: leaves_addrs)

lemma PTree_new_ok: "\<exists>t. process_ok (PTree_new s) t \<and> states_of t = {s}"
  by (rule exI [of _ "PT 0 PNone PNone (Some s)"])
    (simp add: process_ok_def PTree_new_def new_PTreeNode_def states_of_def)

lemma PTree_attach_eq:
  assumes "nodes h i = Some n" "pt_left n = None" "pt_right n = None" "i < next_addr h"
  shows "PTree_attach i ls rs h = Some (h\<lparr>
    nodes := (nodes h)(next_addr h \<mapsto> \<lparr>pt_parent = Some i, pt_left = None, pt_right = None, pt_state = Some ls\<rparr>,
       Suc (next_addr h) \<mapsto> \<lparr>pt_parent = Some i, pt_left = None, pt_right = None, pt_state = Some rs\<rparr>,
       i \<mapsto> n\<lparr>pt_state := None, pt_left := Some (next_addr h), pt_right := Some (Suc (next_addr h))\<rparr>),
    next_addr := Suc (Suc (next_addr h)),
    ptreeNode := (ptreeNode h)(ls \<mapsto> next_addr h, rs \<mapsto> Suc (next_addr h))\<rparr>)"
  using assms by (simp add: PTree_attach_def new_PTreeNode_def set_node_def Let_def)

text \<open>The leaf of a state, and the other leaves.\<close>

lemma process_leaf:
  assumes ok: "process_ok h t" and leaf: "(s, i) \<in> set (leaves t)"
  obtains ctx n where "t = pplug (PT i PNone PNone (Some s)) ctx" "live_ctx ctx"
    "nodes h i = Some n" "pt_parent n = ctx_parent ctx" "pt_state n = Some s" "pt_left n = None" "pt_right n = None"
    "rep_ctx (nodes h) (pt_root h) (Some i) ctx" "i \<notin> set (ctx_addrs ctx)"
    "\<And>x j. (x, j) \<in> ctx_leaves ctx \<Longrightarrow> x \<noteq> s \<and> ptreeNode h x = Some j"
    "states_of t - {s} = fst ` ctx_leaves ctx"
proof -
  have live: "live t" and rp: "rep (nodes h) None (Some (pt_root h)) t" and d: "distinct (addrs t)"
    and lv: "\<And>x j. (x, j) \<in> set (leaves t) \<Longrightarrow> ptreeNode h x = Some j"
    using ok by (auto simp: process_ok_def)
  obtain ctx where t: "t = pplug (PT i PNone PNone (Some s)) ctx" using find_leaf [OF live leaf] by blast
  have ic: "i \<notin> set (ctx_addrs ctx)" using d unfolding t distinct_pplug by simp
  have other: "x \<noteq> s \<and> ptreeNode h x = Some j" if "(x, j) \<in> ctx_leaves ctx" for x j
  proof -
    have "ptreeNode h x = Some j" using that lv [of x j] unfolding t leaves_pplug by blast
    moreover have "j \<noteq> i" using ctx_leaves_addrs [OF that] ic by blast
    ultimately show ?thesis using lv [OF leaf] by auto
  qed
  then have "states_of t - {s} = fst ` ctx_leaves ctx" unfolding t states_of_def leaves_pplug by force
  moreover obtain n where "nodes h i = Some n" "pt_parent n = ctx_parent ctx" "pt_state n = Some s"
      "pt_left n = None" "pt_right n = None" "rep_ctx (nodes h) (pt_root h) (Some i) ctx"
    using rp unfolding t rep_pplug by auto
  moreover have "live_ctx ctx" using live unfolding t by (simp add: live_pplug)
  ultimately show ?thesis using that t ic other by blast
qed

lemma PTree_attach_ok:
  assumes ok: "process_ok h t" and leaf: "(s, i) \<in> set (leaves t)"
    and new: "ls \<noteq> rs" "ls \<notin> states_of t - {s}" "rs \<notin> states_of t - {s}"
  shows "\<exists>h' t'. PTree_attach i ls rs h = Some h' \<and> process_ok h' t' \<and>
    states_of t' = (states_of t - {s}) \<union> {ls, rs}"
proof -
  obtain ctx n where t: "t = pplug (PT i PNone PNone (Some s)) ctx" "live_ctx ctx"
    and n: "nodes h i = Some n" "pt_parent n = ctx_parent ctx" "pt_left n = None" "pt_right n = None"
    and c: "rep_ctx (nodes h) (pt_root h) (Some i) ctx" "i \<notin> set (ctx_addrs ctx)"
    and o: "\<And>x j. (x, j) \<in> ctx_leaves ctx \<Longrightarrow> x \<noteq> s \<and> ptreeNode h x = Some j"
      "states_of t - {s} = fst ` ctx_leaves ctx"
    using process_leaf [OF ok leaf] by metis
  define a where "a = next_addr h"
  have lt: "j < a" if "j \<in> set (addrs t)" for j using process_addrs [OF ok that] by (simp add: a_def)
  have at: "set (addrs t) = insert i (set (ctx_addrs ctx))"
    unfolding t(1) addrs_pplug by simp
  have i: "i < a" and ca: "a \<notin> set (ctx_addrs ctx)" "Suc a \<notin> set (ctx_addrs ctx)"
    using lt unfolding at by fastforce+
  let ?t = "pplug (PT i (PT a PNone PNone (Some ls)) (PT (Suc a) PNone PNone (Some rs)) None) ctx"
  obtain h' where h': "PTree_attach i ls rs h = Some h'" "pt_root h' = pt_root h" "next_addr h' = Suc (Suc a)"
    "ptreeNode h' = (ptreeNode h)(ls \<mapsto> a, rs \<mapsto> Suc a)"
    "nodes h' = (nodes h)(a \<mapsto> \<lparr>pt_parent = Some i, pt_left = None, pt_right = None, pt_state = Some ls\<rparr>,
       Suc a \<mapsto> \<lparr>pt_parent = Some i, pt_left = None, pt_right = None, pt_state = Some rs\<rparr>,
       i \<mapsto> n\<lparr>pt_state := None, pt_left := Some a, pt_right := Some (Suc a)\<rparr>)"
    by (rule that [OF PTree_attach_eq [OF n(1,3,4) i [unfolded a_def]]]) (simp_all add: a_def)
  have "rep_ctx (nodes h') (pt_root h) (Some i) ctx" unfolding h'(5) using c ca by simp
  moreover have "rep (nodes h') (ctx_parent ctx) (Some i) (PT i (PT a PNone PNone (Some ls)) (PT (Suc a) PNone PNone (Some rs)) None)"
    unfolding h'(5) using n(2) i by simp
  ultimately have "rep (nodes h') None (Some (pt_root h')) ?t" unfolding rep_pplug h'(2) by blast
  moreover have "distinct (addrs ?t)"
  proof -
    have "distinct (addrs t)" using ok by (simp add: process_ok_def)
    then show ?thesis using ca c(2) i unfolding t(1) distinct_pplug by simp
  qed
  moreover have "live ?t" using t(2) by (simp add: live_pplug)
  moreover have "\<forall>b \<ge> next_addr h'. nodes h' b = None"
    using ok i unfolding h'(3,5) by (simp add: process_ok_def a_def)
  moreover have "\<forall>(x, j) \<in> set (leaves ?t). ptreeNode h' x = Some j"
  proof -
    have "x \<noteq> ls \<and> x \<noteq> rs" if "(x, j) \<in> ctx_leaves ctx" for x j
    proof -
      have "x \<in> states_of t - {s}" using that unfolding o(2) by force
      then show ?thesis using new(2,3) by blast
    qed
    then show ?thesis using o(1) new(1) unfolding leaves_pplug h'(4) by auto
  qed
  ultimately have "process_ok h' ?t" by (simp add: process_ok_def)
  moreover have "states_of ?t = (states_of t - {s}) \<union> {ls, rs}"
  proof -
    have "states_of ?t = fst ` ctx_leaves ctx \<union> {ls, rs}"
      unfolding states_of_def leaves_pplug by auto
    then show ?thesis using o(2) by simp
  qed
  ultimately show ?thesis using h'(1) by blast
qed

text \<open>Removal drops the leaf and every ancestor that has no other child, except for the root.\<close>

fun prune :: "'s pt \<Rightarrow> 's pframe list \<Rightarrow> 's pt" where
  "prune t [] = t"
| "prune t (PL i r s # fs) = (if r = PNone then prune (PT i PNone PNone s) fs else pplug (PT i PNone r s) fs)"
| "prune t (PR i l s # fs) = (if l = PNone then prune (PT i PNone PNone s) fs else pplug (PT i l PNone s) fs)"

lemma rep_PNone [simp]: "rep N par None t \<longleftrightarrow> t = PNone"
  by (cases t) simp_all

lemma remove_loop_ok:
  "rep N None (Some rt) (pplug (PT n PNone PNone s) ctx) \<Longrightarrow> distinct (addrs (pplug (PT n PNone PNone s) ctx)) \<Longrightarrow>
     \<exists>N'. remove_loop N n = Some N' \<and> rep N' None (Some rt) (prune (PT n PNone PNone s) ctx) \<and>
       (\<forall>a. N a = None \<longrightarrow> N' a = None)"
proof (induction ctx arbitrary: n s N)
  case Nil
  then show ?case by (subst remove_loop.simps) auto
next
  case (Cons f fs)
  obtain nd where nd: "N n = Some nd" "pt_parent nd = Some (frame_addr f)"
      and c: "rep_ctx N rt (Some n) (f # fs)"
    using Cons.prems(1) unfolding rep_pplug by auto
  have dis: "n \<notin> set (ctx_addrs (f # fs))" "distinct (ctx_addrs (f # fs))"
    using Cons.prems(2) unfolding distinct_pplug by simp_all
  show ?case
  proof (cases f)
    case (PL i r s')
    obtain pd where pd: "N i = Some pd" "pt_parent pd = ctx_parent fs" "pt_state pd = s'" "pt_left pd = Some n"
      "rep N (Some i) (pt_right pd) r" and cf: "rep_ctx N rt (Some i) fs" using c PL by auto
    let ?N = "(N(n := None))(i \<mapsto> pd\<lparr>pt_left := None\<rparr>)"
    have fr: "n \<noteq> i" "n \<notin> set (addrs r)" "i \<notin> set (addrs r)" "n \<notin> set (ctx_addrs fs)" "i \<notin> set (ctx_addrs fs)"
      using dis PL by auto
    have r': "rep ?N (ctx_parent fs) (Some i) (PT i PNone r s')" "rep_ctx ?N rt (Some i) fs"
      using pd cf fr by simp_all
    have d': "distinct (addrs (pplug (PT i PNone r s') fs))"
      using dis PL fr unfolding distinct_pplug by auto
    have step: "remove_loop N n = (if pt_right pd = None then remove_loop ?N i else Some ?N)"
      using nd pd(1,4) PL fr(1) by (subst remove_loop.simps) (simp add: Let_def)
    have mono: "\<forall>a. N a = None \<longrightarrow> ?N a = None" using pd(1) by auto
    show ?thesis
    proof (cases "r = PNone")
      case True
      then have pn: "pt_right pd = None" using pd(5) by simp
      have "rep ?N None (Some rt) (pplug (PT i PNone PNone s') fs)" unfolding rep_pplug using r' True by blast
      from Cons.IH [OF this d' [unfolded True]] obtain N' where N': "remove_loop ?N i = Some N'"
        "rep N' None (Some rt) (prune (PT i PNone PNone s') fs)" "\<forall>a. ?N a = None \<longrightarrow> N' a = None" by blast
      have "\<forall>a. N a = None \<longrightarrow> N' a = None" using N'(3) mono by blast
      then show ?thesis using N'(1,2) step pn True PL by simp
    next
      case False
      then have pn: "pt_right pd \<noteq> None" using pd(5) by (cases "pt_right pd") auto
      have "rep ?N None (Some rt) (pplug (PT i PNone r s') fs)" unfolding rep_pplug using r' by blast
      then show ?thesis using step pn False PL mono by simp
    qed
  next
    case (PR i l s')
    obtain pd where pd: "N i = Some pd" "pt_parent pd = ctx_parent fs" "pt_state pd = s'" "pt_right pd = Some n"
      "rep N (Some i) (pt_left pd) l" and cf: "rep_ctx N rt (Some i) fs" using c PR by auto
    let ?N = "(N(n := None))(i \<mapsto> pd\<lparr>pt_right := None\<rparr>)"
    have fr: "n \<noteq> i" "n \<notin> set (addrs l)" "i \<notin> set (addrs l)" "n \<notin> set (ctx_addrs fs)" "i \<notin> set (ctx_addrs fs)"
      using dis PR by auto
    have ln: "pt_left pd \<noteq> Some n"
    proof
      assume "pt_left pd = Some n"
      then have "n \<in> set (addrs l)" using pd(5) by (cases l) auto
      then show False using fr by simp
    qed
    have r': "rep ?N (ctx_parent fs) (Some i) (PT i l PNone s')" "rep_ctx ?N rt (Some i) fs"
      using pd cf fr by simp_all
    have d': "distinct (addrs (pplug (PT i l PNone s') fs))"
      using dis PR fr unfolding distinct_pplug by auto
    have step: "remove_loop N n = (if pt_left pd = None then remove_loop ?N i else Some ?N)"
      using nd pd(1,4) PR fr(1) ln by (subst remove_loop.simps) (simp add: Let_def)
    have mono: "\<forall>a. N a = None \<longrightarrow> ?N a = None" using pd(1) by auto
    show ?thesis
    proof (cases "l = PNone")
      case True
      then have pn: "pt_left pd = None" using pd(5) by simp
      have "rep ?N None (Some rt) (pplug (PT i PNone PNone s') fs)" unfolding rep_pplug using r' True by blast
      from Cons.IH [OF this d' [unfolded True]] obtain N' where N': "remove_loop ?N i = Some N'"
        "rep N' None (Some rt) (prune (PT i PNone PNone s') fs)" "\<forall>a. ?N a = None \<longrightarrow> N' a = None" by blast
      have "\<forall>a. N a = None \<longrightarrow> N' a = None" using N'(3) mono by blast
      then show ?thesis using N'(1,2) step pn True PR by simp
    next
      case False
      then have pn: "pt_left pd \<noteq> None" using pd(5) by (cases "pt_left pd") auto
      have "rep ?N None (Some rt) (pplug (PT i l PNone s') fs)" unfolding rep_pplug using r' by blast
      then show ?thesis using step pn False PR mono by simp
    qed
  qed
qed

text \<open>What is left after the removal of a leaf of a live tree.\<close>

definition emptied :: "'s pt \<Rightarrow> bool" where
  "emptied t \<longleftrightarrow> (\<exists>i. t = PT i PNone PNone None)"

lemma prune_distinct:
  "distinct (addrs (pplug (PT n PNone PNone s) ctx)) \<Longrightarrow> distinct (addrs (prune (PT n PNone PNone s) ctx))"
proof (induction ctx arbitrary: n s)
  case (Cons f fs)
  then show ?case unfolding distinct_pplug by (cases f) (auto simp: distinct_pplug)
qed simp

lemma prune_leaves:
  "live_ctx ctx \<Longrightarrow> set (leaves (prune (PT n PNone PNone None) ctx)) = ctx_leaves ctx \<and>
     (live (prune (PT n PNone PNone None) ctx) \<or> emptied (prune (PT n PNone PNone None) ctx))"
proof (induction ctx arbitrary: n)
  case (Cons f fs)
  then show ?case by (cases f) (auto simp: leaves_pplug live_pplug)
qed (simp add: emptied_def)

lemma prune_not_PNone: "prune (PT n PNone PNone s) ctx \<noteq> PNone"
proof (induction ctx arbitrary: n s)
  case (Cons f fs)
  have "pplug (PT i l r s) fs \<noteq> PNone" for i l r s and fs :: "'a pframe list"
    by (induction fs rule: rev_induct) simp_all
  then show ?case using Cons by (cases f) auto
qed simp

lemma live_leaves: "live t \<Longrightarrow> t \<noteq> PNone \<Longrightarrow> leaves t \<noteq> []"
  by (induction t) (auto split: option.splits)

lemma prune_state: "ctx \<noteq> [] \<Longrightarrow> prune (PT n PNone PNone s) ctx = prune (PT n PNone PNone None) ctx"
  by (cases ctx; cases "hd ctx") auto

lemma PTree_remove_ok:
  assumes ok: "process_ok h t" and leaf: "(s, i) \<in> set (leaves t)"
  shows "\<exists>h' t'. PTree_remove i h = Some h' \<and> rep (nodes h') None (Some (pt_root h')) t' \<and>
    (if states_of t = {s} then states_of t' \<subseteq> {s} \<and> (\<exists>j st. t' = PT j PNone PNone st)
     else process_ok h' t' \<and> states_of t' = states_of t - {s})"
proof -
  obtain ctx n where t: "t = pplug (PT i PNone PNone (Some s)) ctx" "live_ctx ctx"
    and n: "nodes h i = Some n" "pt_left n = None" "pt_right n = None"
    and o: "\<And>x j. (x, j) \<in> ctx_leaves ctx \<Longrightarrow> x \<noteq> s \<and> ptreeNode h x = Some j"
      "states_of t - {s} = fst ` ctx_leaves ctx"
    using process_leaf [OF ok leaf] by metis
  let ?t = "prune (PT i PNone PNone (Some s)) ctx"
  have rp: "rep (nodes h) None (Some (pt_root h)) t" and d: "distinct (addrs t)"
    and fr: "\<forall>a \<ge> next_addr h. nodes h a = None" using ok by (simp_all add: process_ok_def)
  obtain N' where N': "remove_loop (nodes h) i = Some N'" "rep N' None (Some (pt_root h)) ?t"
    "\<forall>a. nodes h a = None \<longrightarrow> N' a = None"
    using remove_loop_ok [OF rp [unfolded t(1)] d [unfolded t(1)]] by blast
  have rm: "PTree_remove i h = Some (h\<lparr>nodes := N'\<rparr>)" using n N'(1) by (simp add: PTree_remove_def)
  show ?thesis
  proof (cases "ctx = []")
    case True
    then have "states_of t = {s}" "?t = PT i PNone PNone (Some s)" using t(1) by (simp_all add: states_of_def)
    then show ?thesis using rm N'(2)
      by (intro exI [of _ "h\<lparr>nodes := N'\<rparr>"] exI [of _ ?t]) (simp add: states_of_def)
  next
    case False
    have pt: "?t = prune (PT i PNone PNone None) ctx" using prune_state [OF False] .
    note pl = prune_leaves [OF t(2), of i, folded pt]
    have st: "states_of ?t = states_of t - {s}" using pl o(2) by (simp add: states_of_def)
    show ?thesis
    proof (cases "states_of t = {s}")
      case True
      then have "leaves ?t = []" using st by (simp add: states_of_def)
      moreover have "live ?t \<Longrightarrow> leaves ?t \<noteq> []" using live_leaves [of ?t] prune_not_PNone by auto
      ultimately have "emptied ?t" using pl by blast
      then show ?thesis using True rm N'(2) by (auto simp: emptied_def states_of_def)
    next
      case False
      have "s \<in> states_of t" using leaf by (force simp: states_of_def)
      then have "states_of ?t \<noteq> {}" using False st by auto
      then have "live ?t" using pl by (auto simp: emptied_def states_of_def)
      moreover have "distinct (addrs ?t)" using prune_distinct d t(1) by blast
      moreover have "\<forall>(x, j) \<in> set (leaves ?t). ptreeNode h x = Some j" using pl o(1) by auto
      ultimately have "process_ok (h\<lparr>nodes := N'\<rparr>) ?t" using N'(2,3) fr by (simp add: process_ok_def)
      then show ?thesis using False rm st N'(2) by auto
    qed
  qed
qed

section \<open>The random walk\<close>

lemma walk_leaf: "N n = Some nd \<Longrightarrow> pt_state nd = Some s \<Longrightarrow> walk N n flips bits r = Some (s, r)"
  by (subst walk.simps) simp

lemma walk_right:
  "N n = Some nd \<Longrightarrow> pt_state nd = None \<Longrightarrow> pt_left nd = None \<Longrightarrow> pt_right nd = Some n' \<Longrightarrow>
     walk N n flips bits r = walk N n' flips bits r"
  by (subst walk.simps) simp

lemma walk_left:
  "N n = Some nd \<Longrightarrow> pt_state nd = None \<Longrightarrow> pt_left nd = Some n' \<Longrightarrow> pt_right nd = None \<Longrightarrow>
     walk N n flips bits r = walk N n' flips bits r"
  by (subst walk.simps) simp

lemma walk_flip:
  assumes "N n = Some nd" "pt_state nd = None" "pt_left nd = Some nl" "pt_right nd = Some nr" "rng_ok r"
  shows "\<exists>n' f b r1. n' \<in> {nl, nr} \<and> walk N n flips bits r = walk N n' f b r1 \<and> rng_ok r1"
proof -
  obtain x r' where x: "RNG_getInt32 r = Some (x, r')" "rng_ok r'" using getInt32_ok [OF assms(5)] by blast
  show ?thesis
  proof (cases "bits = 0")
    case True
    have "walk N n flips bits r = walk N (if bit x 31 then nl else nr) x 31 r'"
      using assms x(1) True by (subst walk.simps) simp
    then show ?thesis using x(2) by (metis insertI1 insertI2 singletonI)
  next
    case False
    have "walk N n flips bits r = walk N (if bit flips (bits - 1) then nl else nr) flips (bits - 1) r"
      using assms False by (subst walk.simps) simp
    then show ?thesis using assms(5) by (metis insertI1 insertI2 singletonI)
  qed
qed

lemma walk_ok:
  "rep N par (Some n) t \<Longrightarrow> live t \<Longrightarrow> rng_ok r \<Longrightarrow>
     \<exists>s r'. walk N n flips bits r = Some (s, r') \<and> s \<in> states_of t \<and> rng_ok r'"
proof (induction t arbitrary: n par flips bits r)
  case (PT i l rt st)
  obtain nd where nd: "N n = Some nd" "pt_state nd = st" "rep N (Some n) (pt_left nd) l" "rep N (Some n) (pt_right nd) rt"
    using PT.prems(1) by auto
  have lv: "live l" "live rt" using PT.prems(2) by simp_all
  have sub: "states_of l \<subseteq> states_of (PT i l rt st)" "states_of rt \<subseteq> states_of (PT i l rt st)"
    by (auto simp: states_of_def)
  show ?case
  proof (cases st)
    case (Some s)
    then have "walk N n flips bits r = Some (s, r)" using walk_leaf nd(1,2) by metis
    then show ?thesis using Some PT.prems(3) by (simp add: states_of_def)
  next
    case None
    then have ne: "l \<noteq> PNone \<or> rt \<noteq> PNone" and st: "pt_state nd = None" using PT.prems(2) nd(2) by simp_all
    show ?thesis
    proof (cases "pt_left nd")
      case left: None
      then obtain n' where n': "pt_right nd = Some n'" using ne nd(3,4) by (cases "pt_right nd") simp_all
      show ?thesis unfolding walk_right [of N n nd n', OF nd(1) st left n']
        using PT.IH(2) [OF nd(4) [unfolded n'] lv(2) PT.prems(3)] sub(2) by blast
    next
      case left: (Some nl)
      show ?thesis
      proof (cases "pt_right nd")
        case right: None
        show ?thesis unfolding walk_left [of N n nd nl, OF nd(1) st left right]
          using PT.IH(1) [OF nd(3) [unfolded left] lv(1) PT.prems(3)] sub(1) by blast
      next
        case right: (Some nr)
        obtain n' f b r1 where w: "n' \<in> {nl, nr}" "walk N n flips bits r = walk N n' f b r1" "rng_ok r1"
          using walk_flip [of N n nd nl nr r, OF nd(1) st left right PT.prems(3)] by metis
        show ?thesis unfolding w(2)
          using PT.IH(1) [OF nd(3) [unfolded left] lv(1) w(3)] PT.IH(2) [OF nd(4) [unfolded right] lv(2) w(3)] sub w(1)
          by blast
      qed
    qed
  qed
qed simp

lemma RandomPath_ok:
  assumes "process_ok h t" "rng_ok r"
  shows "\<exists>s r'. RandomPath_selectState h r = Some (s, r') \<and> s \<in> states_of t \<and> rng_ok r'"
  using walk_ok [of "nodes h" None "pt_root h" t r 0 0] assms
  by (auto simp: RandomPath_selectState_def process_ok_def)

end
