(* ===== verification/DiscretePDF.thy ===== *)
theory DiscretePDF
  imports KleePrelude
begin

text \<open>
  \<open>include/klee/Internal/ADT/DiscretePDF.inc\<close>: the weighted search tree from which
  \<open>WeightedRandomSearcher\<close> draws its states, a red-black tree whose nodes hold the sum of
  the weights below them.

  The nodes have parent pointers, so a node is modelled as a location: its subtree and the
  path of frames from it to the root, a frame being the rest of the parent node. A function
  of the code that takes a \<open>Node *\<close> takes a location and returns the location of the same
  node afterwards. A dereferenced null pointer and a failed assertion are \<open>None\<close>.

  The weights are of any type with the arithmetic the code uses; no law is assumed of it
  until the distribution is stated, so the tree's invariant, including that of the sums,
  holds of floating-point weights as it does of exact ones.
\<close>

section \<open>Nodes and locations\<close>

text \<open>Fields in the order \<open>m_mark\<close> (red), \<open>left\<close>, \<open>right\<close>, \<open>key\<close>, \<open>weight\<close>, \<open>sumWeights\<close>.\<close>

datatype ('k, 'w) dtree = Null | DNode bool "('k, 'w) dtree" "('k, 'w) dtree" 'k 'w 'w

text \<open>\<open>LeftOf\<close>: the hole is the left child; the other fields of the parent follow, its right child among them.\<close>

datatype ('k, 'w) dframe =
    LeftOf bool "('k, 'w) dtree" 'k 'w 'w
  | RightOf bool "('k, 'w) dtree" 'k 'w 'w

type_synonym ('k, 'w) dloc = "('k, 'w) dtree \<times> ('k, 'w) dframe list"

fun markRed :: "('k, 'w) dtree \<Rightarrow> ('k, 'w) dtree" where
  "markRed Null = Null"
| "markRed (DNode _ l r k w s) = DNode True l r k w s"

fun markBlack :: "('k, 'w) dtree \<Rightarrow> ('k, 'w) dtree" where
  "markBlack Null = Null"
| "markBlack (DNode _ l r k w s) = DNode False l r k w s"

text \<open>\<open>isBlack\<close> of a node, and \<open>leftIsBlack\<close>, \<open>rightIsBlack\<close> of its parent, for which null is black.\<close>

fun isBlack :: "('k, 'w) dtree \<Rightarrow> bool" where
  "isBlack Null = True"
| "isBlack (DNode m _ _ _ _ _) = (\<not> m)"

fun sumWeights :: "('k, 'w) dtree \<Rightarrow> 'w option" where
  "sumWeights Null = None"
| "sumWeights (DNode _ _ _ _ _ s) = Some s"

definition add_sum :: "'w::plus \<Rightarrow> ('k, 'w) dtree \<Rightarrow> 'w" where
  "add_sum a t = (case sumWeights t of None \<Rightarrow> a | Some s \<Rightarrow> a + s)"

fun setSum :: "('k, 'w::plus) dtree \<Rightarrow> ('k, 'w) dtree" where
  "setSum Null = Null"
| "setSum (DNode m l r k w s) = DNode m l r k w (add_sum (add_sum w l) r)"

definition new_DNode :: "'k \<Rightarrow> 'w::zero \<Rightarrow> ('k, 'w) dtree" where
  "new_DNode k w = DNode False Null Null k w 0"

fun plug1 :: "('k, 'w) dframe \<Rightarrow> ('k, 'w) dtree \<Rightarrow> ('k, 'w) dtree" where
  "plug1 (LeftOf m r k w s) t = DNode m t r k w s"
| "plug1 (RightOf m l k w s) t = DNode m l t k w s"

fun down_left :: "('k, 'w) dloc \<Rightarrow> ('k, 'w) dloc option" where
  "down_left (Null, path) = None"
| "down_left (DNode m l r k w s, path) = Some (l, LeftOf m r k w s # path)"

fun down_right :: "('k, 'w) dloc \<Rightarrow> ('k, 'w) dloc option" where
  "down_right (Null, path) = None"
| "down_right (DNode m l r k w s, path) = Some (r, RightOf m l k w s # path)"

fun is_left :: "('k, 'w) dframe \<Rightarrow> bool" where
  "is_left (LeftOf _ _ _ _ _) = True"
| "is_left (RightOf _ _ _ _ _) = False"

definition down :: "bool \<Rightarrow> ('k, 'w) dloc \<Rightarrow> ('k, 'w) dloc option" where
  "down d loc = (if d then down_left loc else down_right loc)"

fun frame_mark :: "('k, 'w) dframe \<Rightarrow> bool" where
  "frame_mark (LeftOf m _ _ _ _) = m"
| "frame_mark (RightOf m _ _ _ _) = m"

fun frame_set_mark :: "bool \<Rightarrow> ('k, 'w) dframe \<Rightarrow> ('k, 'w) dframe" where
  "frame_set_mark b (LeftOf _ r k w s) = LeftOf b r k w s"
| "frame_set_mark b (RightOf _ l k w s) = RightOf b l k w s"

fun sibling :: "('k, 'w) dframe \<Rightarrow> ('k, 'w) dtree" where
  "sibling (LeftOf _ r _ _ _) = r"
| "sibling (RightOf _ l _ _ _) = l"

fun set_sibling :: "('k, 'w) dtree \<Rightarrow> ('k, 'w) dframe \<Rightarrow> ('k, 'w) dframe" where
  "set_sibling t (LeftOf m _ k w s) = LeftOf m t k w s"
| "set_sibling t (RightOf m _ k w s) = RightOf m t k w s"

section \<open>Rotation, splitting and lengthening\<close>

text \<open>
  \<open>rotate\<close> calls \<open>setSum\<close> of the node before that of its old parent, which is now its child:
  the node's sum is computed from the parent's old one.
\<close>

fun rotate_node :: "('k, 'w::plus) dloc \<Rightarrow> ('k, 'w) dloc option" where
  "rotate_node (DNode m l r k w s, LeftOf pm pr pk pw ps # path) =
    (let p = DNode pm r pr pk pw ps
     in Some (DNode m l (setSum p) k w (add_sum (add_sum w l) p), path))"
| "rotate_node (DNode m l r k w s, RightOf pm pl pk pw ps # path) =
    (let p = DNode pm pl l pk pw ps
     in Some (DNode m (setSum p) r k w (add_sum (add_sum w p) r), path))"
| "rotate_node _ = None"

definition split_node :: "('k, 'w::plus) dloc \<Rightarrow> ('k, 'w) dloc option" where
  "split_node loc =
    (case loc of
       (Null, path) \<Rightarrow> None
     | (DNode m l r k w s, path) \<Rightarrow>
         (case path of
            [] \<Rightarrow> Some (DNode m (markBlack l) (markBlack r) k w s, [])
          | p # ps \<Rightarrow>
              let n = DNode True (markBlack l) (markBlack r) k w s in
              if \<not> frame_mark p then Some (n, p # ps)
              else (case ps of
                  [] \<Rightarrow> None
                | pp # ps' \<Rightarrow>
                    let pp = frame_set_mark True pp in
                    if is_left p = is_left pp then
                      do { (pt, path') \<leftarrow> rotate_node (plug1 p n, pp # ps');
                           down (is_left p) (markBlack pt, path') }
                    else
                      do { loc' \<leftarrow> rotate_node (n, p # pp # ps');
                           (nt, path') \<leftarrow> rotate_node loc';
                           Some (markBlack nt, path') })))"

text \<open>\<open>rotate(n->sibling())\<close>; the result is the location of \<open>n\<close>, whose parent is now below the sibling.\<close>

fun rotate_sibling :: "('k, 'w::plus) dloc \<Rightarrow> ('k, 'w) dloc option" where
  "rotate_sibling (t, LeftOf m r k w s # path) =
    do { loc \<leftarrow> rotate_node (r, RightOf m t k w s # path); loc \<leftarrow> down_left loc; down_left loc }"
| "rotate_sibling (t, RightOf m l k w s # path) =
    do { loc \<leftarrow> rotate_node (l, LeftOf m t k w s # path); loc \<leftarrow> down_right loc; down_right loc }"
| "rotate_sibling (t, []) = None"

text \<open>The first part of \<open>lengthen\<close>: a red sibling is rotated up and exchanges its colour with the parent.\<close>

definition lengthen_red_sibling :: "('k, 'w::plus) dloc \<Rightarrow> ('k, 'w) dloc option" where
  "lengthen_red_sibling loc =
    (case loc of
       (t, []) \<Rightarrow> None
     | (t, f # fs) \<Rightarrow>
         if sibling f \<noteq> Null \<and> \<not> isBlack (sibling f)
         then rotate_sibling (t, frame_set_mark True (set_sibling (markBlack (sibling f)) f) # fs)
         else Some loc)"

text \<open>
  The middle part: when only the near child of the sibling is red, that child is rotated
  over the sibling and takes its place. The rotations of a subtree do not look beyond it,
  so they are done at the top of a path of its own.
\<close>

fun far_rotation :: "('k, 'w::plus) dframe \<Rightarrow> ('k, 'w) dframe option" where
  "far_rotation (LeftOf m sib k w s) =
    (case sib of
       Null \<Rightarrow> None
     | DNode sm sl sr sk sw ss \<Rightarrow>
         if isBlack sr then
           do { (x, _) \<leftarrow> rotate_node (sl, [LeftOf sm sr sk sw ss]);
                (case x of
                   Null \<Rightarrow> None
                 | DNode _ xl xr xk xw xs \<Rightarrow> Some (LeftOf m (DNode False xl (markRed xr) xk xw xs) k w s)) }
         else Some (LeftOf m sib k w s))"
| "far_rotation (RightOf m sib k w s) =
    (case sib of
       Null \<Rightarrow> None
     | DNode sm sl sr sk sw ss \<Rightarrow>
         if isBlack sl then
           do { (x, _) \<leftarrow> rotate_node (sr, [RightOf sm sl sk sw ss]);
                (case x of
                   Null \<Rightarrow> None
                 | DNode _ xl xr xk xw xs \<Rightarrow> Some (RightOf m (DNode False (markRed xl) xr xk xw xs) k w s)) }
         else Some (RightOf m sib k w s))"

text \<open>
  The last part: rotate the sibling up, give it the parent's colour, and colour its
  children, the old parent and the far child, black.
\<close>

definition lengthen_rotate :: "('k, 'w::plus) dloc \<Rightarrow> ('k, 'w) dloc option" where
  "lengthen_rotate loc =
    do { loc' \<leftarrow> rotate_sibling loc;
         (case loc' of
            (t, p # sib # fs) \<Rightarrow>
              check (sibling sib \<noteq> Null)
                (Some (t, frame_set_mark False p #
                          (let sib' = set_sibling (markBlack (sibling sib)) sib
                           in if frame_mark p then frame_set_mark True sib' else sib') # fs))
          | _ \<Rightarrow> None) }"

lemma length_rotate_sibling:
  "rotate_sibling (t, f # fs) = Some (t', path) \<Longrightarrow>
     \<exists>f' fs'. path = f' # fs' \<and> length fs' = Suc (length fs) \<and> frame_mark f' = frame_mark f"
  by (cases f; cases "sibling f") (auto simp: Let_def)

lemma lengthen_red_sibling_measure:
  assumes "lengthen_red_sibling (t, f # fs) = Some (t', f' # fs')"
  shows "(fs' = fs \<and> frame_mark f' = frame_mark f) \<or> (length fs' = Suc (length fs) \<and> frame_mark f')"
  using assms length_rotate_sibling [of t "frame_set_mark True (set_sibling (markBlack (sibling f)) f)" fs t' "f' # fs'"]
  by (cases f) (auto simp: lengthen_red_sibling_def split: if_splits)

lemma isBlack_plug1 [simp]: "isBlack (plug1 f t) \<longleftrightarrow> \<not> frame_mark f"
  by (cases f) simp_all

function lengthen :: "('k, 'w::plus) dloc \<Rightarrow> ('k, 'w) dloc option" where
  "lengthen (t, path) =
    (if \<not> isBlack t then Some (markBlack t, path)
     else case path of
         [] \<Rightarrow> Some (t, [])
       | f0 # fs0 \<Rightarrow>
           do {
             loc \<leftarrow> lengthen_red_sibling (t, f0 # fs0);
             (case loc of
                (t', []) \<Rightarrow> None
              | (t', f # fs) \<Rightarrow>
                  (case sibling f of
                     Null \<Rightarrow> do { loc' \<leftarrow> lengthen (plug1 f t', fs); down (is_left f) loc' }
                   | DNode sm sl sr sk sw ss \<Rightarrow>
                       let f' = set_sibling (DNode True sl sr sk sw ss) f in
                       if isBlack sl \<and> isBlack sr then
                         if \<not> frame_mark f then
                           do { loc' \<leftarrow> lengthen (plug1 f' t', fs); down (is_left f) loc' }
                         else Some (t', frame_set_mark False f' # fs)
                       else do { f'' \<leftarrow> far_rotation f; lengthen_rotate (t', f'' # fs) })) })"
  by pat_completeness auto

termination
proof (relation "measure (\<lambda>(t, path). 2 * length path + (if isBlack t then 1 else 0))", goal_cases)
  case 1
  then show ?case by simp
next
  case (2 t path f0 fs0 loc t' path' f fs)
  then show ?case using lengthen_red_sibling_measure [of t f0 fs0 t' f fs] by auto
next
  case (3 t path f0 fs0 loc t' path' f fs)
  then show ?case using lengthen_red_sibling_measure [of t f0 fs0 t' f fs]
    by (cases f) auto
qed

section \<open>The operations\<close>

fun propogateSumsUp :: "('k, 'w::plus) dloc \<Rightarrow> ('k, 'w) dtree" where
  "propogateSumsUp (t, []) = setSum t"
| "propogateSumsUp (t, f # fs) = propogateSumsUp (plug1 f (setSum t), fs)"

definition DiscretePDF_empty :: "('k, 'w) dtree \<Rightarrow> bool" where
  "DiscretePDF_empty root \<longleftrightarrow> root = Null"

text \<open>The loop of \<open>insert\<close>: the path to the null pointer where the new node goes.\<close>

partial_function (option) insert_descend ::
  "'k::linorder \<Rightarrow> ('k, 'w::plus) dloc \<Rightarrow> ('k, 'w) dframe list option" where
  "insert_descend item loc =
    (case loc of
       (Null, path) \<Rightarrow> Some path
     | (DNode m l r k w s, path) \<Rightarrow>
         do { loc' \<leftarrow> if \<not> isBlack l \<and> \<not> isBlack r then split_node loc else Some loc;
              (case loc' of
                 (Null, _) \<Rightarrow> None
               | (DNode m' l' r' k' w' s', _) \<Rightarrow>
                   if k' = item then None
                   else do { loc'' \<leftarrow> if item < k' then down_left loc' else down_right loc';
                             insert_descend item loc'' }) })"

definition DiscretePDF_insert ::
  "'k::linorder \<Rightarrow> 'w::{plus,zero} \<Rightarrow> ('k, 'w) dtree \<Rightarrow> ('k, 'w) dtree option" where
  "DiscretePDF_insert item weight root =
    do { path \<leftarrow> insert_descend item (root, []);
         let n = new_DNode item weight in
         do { loc \<leftarrow> if path = [] then Some (n, []) else split_node (n, path);
              Some (propogateSumsUp loc) } }"

fun lookup_loc :: "'k::linorder \<Rightarrow> ('k, 'w) dloc \<Rightarrow> ('k, 'w) dloc" where
  "lookup_loc item (Null, path) = (Null, path)"
| "lookup_loc item (DNode m l r k w s, path) =
    (if k = item then (DNode m l r k w s, path)
     else if item < k then lookup_loc item (l, LeftOf m r k w s # path)
     else lookup_loc item (r, RightOf m l k w s # path))"

text \<open>\<open>while ((*leftMaxp)->right) leftMaxp = &(*leftMaxp)->right\<close>, and the key and weight found there.\<close>

fun left_max :: "('k, 'w) dloc \<Rightarrow> ('k, 'w) dloc" where
  "left_max (DNode m l r k w s, path) =
    (if r = Null then (DNode m l r k w s, path) else left_max (r, RightOf m l k w s # path))"
| "left_max (Null, path) = (Null, path)"

fun left_max_entry :: "('k, 'w) dtree \<Rightarrow> ('k \<times> 'w) option" where
  "left_max_entry Null = None"
| "left_max_entry (DNode m l r k w s) = (if r = Null then Some (k, w) else left_max_entry r)"

text \<open>\<open>remove\<close> from \<open>node now has at most one child\<close> on: take the node out of its location.\<close>

definition remove_loc :: "('k, 'w::plus) dloc \<Rightarrow> ('k, 'w) dtree option" where
  "remove_loc loc =
    (case loc of
       (Null, path) \<Rightarrow> None
     | (DNode m l r k w s, path) \<Rightarrow>
         let child = if l \<noteq> Null then l else r in
         do { (t, path') \<leftarrow> if child \<noteq> Null \<and> \<not> m then lengthen (child, path) else Some (child, path);
              Some (case path' of [] \<Rightarrow> t | f # fs \<Rightarrow> propogateSumsUp (plug1 f t, fs)) })"

definition DiscretePDF_remove :: "'k::linorder \<Rightarrow> ('k, 'w::plus) dtree \<Rightarrow> ('k, 'w) dtree option" where
  "DiscretePDF_remove item root =
    (case lookup_loc item (root, []) of
       (Null, path) \<Rightarrow> None
     | (DNode m l r k w s, path) \<Rightarrow>
         if l \<noteq> Null then
           do { (k', w') \<leftarrow> left_max_entry l;
                remove_loc (left_max (l, LeftOf m r k' w' s # path)) }
         else remove_loc (DNode m l r k w s, path))"

definition DiscretePDF_update :: "'k::linorder \<Rightarrow> 'w::plus \<Rightarrow> ('k, 'w) dtree \<Rightarrow> ('k, 'w) dtree option" where
  "DiscretePDF_update item weight root =
    (case lookup_loc item (root, []) of
       (Null, path) \<Rightarrow> None
     | (DNode m l r k w s, path) \<Rightarrow> Some (propogateSumsUp (DNode m l r k weight s, path)))"

text \<open>The loop of \<open>choose\<close>.\<close>

fun choose_loop :: "'w::{ord,minus} \<Rightarrow> ('k, 'w) dtree \<Rightarrow> 'k option" where
  "choose_loop w Null = None"
| "choose_loop w (DNode m l r k wt s) =
    (case sumWeights l of
       Some ls \<Rightarrow>
         if w < ls then choose_loop w l
         else if w - ls < wt \<or> r = Null then Some k
         else choose_loop (w - ls - wt) r
     | None \<Rightarrow>
         if w < wt \<or> r = Null then Some k
         else choose_loop (w - wt) r)"

definition DiscretePDF_choose ::
  "'w::{ord,minus,times,zero,one} \<Rightarrow> ('k, 'w) dtree \<Rightarrow> 'k option" where
  "DiscretePDF_choose p root =
    check (\<not> (p < 0 \<or> 1 \<le> p))
      (case sumWeights root of
         None \<Rightarrow> None
       | Some s \<Rightarrow> choose_loop (s * p) root)"

definition DiscretePDF_inTree :: "'k::linorder \<Rightarrow> ('k, 'w) dtree \<Rightarrow> bool" where
  "DiscretePDF_inTree item root = (fst (lookup_loc item (root, [])) \<noteq> Null)"

definition DiscretePDF_getWeight :: "'k::linorder \<Rightarrow> ('k, 'w) dtree \<Rightarrow> 'w option" where
  "DiscretePDF_getWeight item root =
    (case fst (lookup_loc item (root, [])) of
       Null \<Rightarrow> None
     | DNode m l r k w s \<Rightarrow> Some w)"

end
