(* ===== verification/Searcher.thy ===== *)
theory Searcher
  imports PTree DiscretePDF
begin

text \<open>
  \<open>lib/Core/Searcher.cpp\<close>: the searchers that decide which execution state runs next,
  FeatMaker's \<open>AutoFeatureSearcher\<close> among them, with the parts of \<open>StatsTracker.cpp\<close> and
  \<open>Executor.cpp\<close> they call or are called from.

  The classes under \<open>Searcher\<close> are the constructors of one datatype, and the virtual
  methods recursive functions on it, because searchers hold other searchers. A state is a
  pointer, an element of a linear order. What the methods read and write outside of the
  searcher is the record \<open>world\<close>: the random generator, the steady clock (its successive
  readings in nanoseconds), the instruction counter, the process tree and the set of states
  of the executor, and the fields of the states that the searchers look at. An
  \<open>assert\<close> that fails, \<open>back()\<close> of an empty vector and an index out of range are \<open>None\<close>.
  A \<open>double\<close> weight or score is computed here exactly, as a rational number.
\<close>

section \<open>States and the world\<close>

text \<open>The fields of \<open>ExecutionState\<close> and the statistics of its instruction that enter a weight.\<close>

record es_info =
  es_depth :: nat
  es_instructions :: uint64
  es_callpath_instructions :: uint64
  es_queryCost :: rat
  es_minDistLocal :: uint64
  es_distToReturn :: uint64
  es_minDistAtRA :: uint64
  es_instsSinceCovNew :: uint32
  es_stack_size :: nat

record 'e world =
  w_rng :: rng
  w_clock :: "nat \<Rightarrow> int"
  w_tick :: nat
  w_instructions :: uint64
  w_tree :: "'e process_tree"
  w_states :: "'e set"
  w_info :: "'e \<Rightarrow> es_info"
  w_constraints :: "'e \<Rightarrow> string"
  w_updated :: "'e \<Rightarrow> bool"

definition getWallTime :: "'e world \<Rightarrow> int \<times> 'e world" where
  "getWallTime w = (w_clock w (w_tick w), w\<lparr>w_tick := w_tick w + 1\<rparr>)"

definition theRNG_getInt32 :: "'e world \<Rightarrow> (uint32 \<times> 'e world) option" where
  "theRNG_getInt32 w = do { (x, r) \<leftarrow> RNG_getInt32 (w_rng w); Some (x, w\<lparr>w_rng := r\<rparr>) }"

definition theRNG_getDoubleL :: "'e world \<Rightarrow> (rat \<times> 'e world) option" where
  "theRNG_getDoubleL w = do { (x, r) \<leftarrow> RNG_getDoubleL (w_rng w); Some (x, w\<lparr>w_rng := r\<rparr>) }"

definition computeMinDistToUncovered :: "es_info \<Rightarrow> uint64" where
  "computeMinDistToUncovered i =
    (if es_minDistAtRA i = 0 then es_minDistLocal i
     else if es_distToReturn i = 0 then es_minDistLocal i
     else if es_minDistLocal i = 0 then es_distToReturn i + es_minDistAtRA i
     else min (es_minDistLocal i) (es_distToReturn i + es_minDistAtRA i))"

section \<open>Weights\<close>

datatype weight_type = Depth | RP | QueryCost | InstCount | CPInstCount | MinDistToUncovered | CoveringNew

definition updateWeights_of :: "weight_type \<Rightarrow> bool" where
  "updateWeights_of ty = (case ty of Depth \<Rightarrow> False | RP \<Rightarrow> False | _ \<Rightarrow> True)"

definition rat_of_word :: "'a::len word \<Rightarrow> rat" where
  "rat_of_word x = of_int (uint x)"

definition WeightedRandom_getWeight :: "weight_type \<Rightarrow> es_info \<Rightarrow> rat" where
  "WeightedRandom_getWeight ty i =
    (let md2u = computeMinDistToUncovered i;
         invMD2U = 1 / (if md2u \<noteq> 0 then rat_of_word md2u else 10000);
         invCovNew = (if es_instsSinceCovNew i \<noteq> 0
                      then 1 / of_int (max 1 (sint (es_instsSinceCovNew i) - 1000)) else 0)
     in case ty of
          Depth \<Rightarrow> of_nat (es_depth i)
        | RP \<Rightarrow> (1 / 2) ^ es_depth i
        | InstCount \<Rightarrow> (let inv = 1 / rat_of_word (max 1 (es_instructions i)) in inv * inv)
        | CPInstCount \<Rightarrow> 1 / rat_of_word (max 1 (es_callpath_instructions i))
        | QueryCost \<Rightarrow> (if es_queryCost i < 1 / 10 then 1 else 1 / es_queryCost i)
        | CoveringNew \<Rightarrow> invCovNew * invCovNew + invMD2U * invMD2U
        | MinDistToUncovered \<Rightarrow> invMD2U * invMD2U)"

section \<open>Features\<close>

text \<open>\<open>regex_replace(line, "\\d{8,}", "LargeValue")\<close>: every maximal run of at least eight digits.\<close>

definition is_digit :: "char \<Rightarrow> bool" where
  "is_digit c = (48 \<le> (of_char c :: nat) \<and> (of_char c :: nat) \<le> 57)"

fun abstract_run :: "string \<Rightarrow> string \<Rightarrow> string" where
  "abstract_run run [] = (if 8 \<le> length run then ''LargeValue'' else rev run)"
| "abstract_run run (c # cs) =
    (if is_digit c then abstract_run (c # run) cs
     else (if 8 \<le> length run then ''LargeValue'' else rev run) @ c # abstract_run [] cs)"

definition abstractCond :: "string \<Rightarrow> string" where
  "abstractCond line = abstract_run [] line"

text \<open>\<open>getline\<close> until it fails: a last line without a newline counts, an empty rest does not.\<close>

fun getlines :: "string \<Rightarrow> string \<Rightarrow> string list" where
  "getlines cur [] = (if cur = [] then [] else [rev cur])"
| "getlines cur (c # cs) = (if c = CHR 0x0A then rev cur # getlines [] cs else getlines (c # cur) cs)"

definition lines_of :: "string \<Rightarrow> string list" where
  "lines_of text = getlines [] text"

text \<open>\<open>std::map<ExecutionState *, double>\<close>, as the list of its entries in the order of the keys.\<close>

fun esw_set :: "'e::linorder \<Rightarrow> rat \<Rightarrow> ('e \<times> rat) list \<Rightarrow> ('e \<times> rat) list" where
  "esw_set e x [] = [(e, x)]"
| "esw_set e x ((f, y) # m) =
    (if e < f then (e, x) # (f, y) # m else if e = f then (e, x) # m else (f, y) # esw_set e x m)"

definition esw_erase :: "'e \<Rightarrow> ('e \<times> rat) list \<Rightarrow> ('e \<times> rat) list" where
  "esw_erase e m = [p \<leftarrow> m. fst p \<noteq> e]"

record 'e auto_feature =
  af_states :: "'e list"
  af_selectedState :: "'e option"
  af_updateFeatureMap :: bool
  af_feature_map :: "string \<Rightarrow> nat option"
  af_encountered :: "nat set"
  af_weights :: "rat list"
  af_EsWeightMap :: "('e \<times> rat) list"
  af_featureCount :: nat

fun read_features :: "string list \<Rightarrow> (string \<Rightarrow> nat option) \<Rightarrow> nat \<Rightarrow> (string \<Rightarrow> nat option) \<times> nat" where
  "read_features [] m n = (m, n)"
| "read_features (cond # conds) m n = read_features conds (m(cond \<mapsto> n)) (n + 1)"

text \<open>The constructor, from the text of the feature file and the numbers read from the weight file.\<close>

definition AutoFeature_new :: "string \<Rightarrow> rat list \<Rightarrow> 'e auto_feature" where
  "AutoFeature_new feature_text ws =
    (let (m, n) = read_features (lines_of feature_text) (\<lambda>_. None) 0
     in \<lparr>af_states = [], af_selectedState = None, af_updateFeatureMap = False, af_feature_map = m,
         af_encountered = {}, af_weights = ws, af_EsWeightMap = [], af_featureCount = n\<rparr>)"

text \<open>The loop of \<open>getWeight\<close> over the lines of the printed constraints.\<close>

fun feature_loop :: "'e auto_feature \<Rightarrow> string list \<Rightarrow> rat \<Rightarrow> (rat \<times> 'e auto_feature) option" where
  "feature_loop a [] weight = Some (weight, a)"
| "feature_loop a (l # ls) weight =
    (case af_feature_map a (abstractCond l) of
       None \<Rightarrow> feature_loop a ls weight
     | Some i \<Rightarrow>
         do { x \<leftarrow> nth_opt (af_weights a) i;
              feature_loop (a\<lparr>af_encountered := insert i (af_encountered a)\<rparr>) ls (weight + x) })"

definition AutoFeature_getWeight ::
  "'e world \<Rightarrow> 'e auto_feature \<Rightarrow> 'e \<Rightarrow> (rat \<times> 'e auto_feature \<times> 'e world) option" where
  "AutoFeature_getWeight w a es =
    do { (x, a') \<leftarrow> feature_loop a (lines_of (w_constraints w es)) 0;
         Some (x, a', w\<lparr>w_updated := (w_updated w)(es := False)\<rparr>) }"

text \<open>The scan of \<open>selectState\<close> for the highest score; it starts below every usual score.\<close>

fun top_score :: "('e \<times> rat) list \<Rightarrow> rat \<Rightarrow> 'e option \<Rightarrow> 'e option" where
  "top_score [] topScore sel = sel"
| "top_score ((e, score) # m) topScore sel =
    (if score > topScore then top_score m score (Some e) else top_score m topScore sel)"

fun erase_first :: "'e \<Rightarrow> 'e list \<Rightarrow> 'e list option" where
  "erase_first e [] = None"
| "erase_first e (x # xs) = (if e = x then Some xs else do { xs' \<leftarrow> erase_first e xs; Some (x # xs') })"

definition AutoFeature_selectState ::
  "'e world \<Rightarrow> 'e auto_feature \<Rightarrow> ('e \<times> 'e auto_feature \<times> 'e world) option" where
  "AutoFeature_selectState w a =
    do {
      (sel, w') \<leftarrow>
        if af_EsWeightMap a = [] \<or> \<not> af_updateFeatureMap a then
          do { (x, w') \<leftarrow> theRNG_getInt32 w;
               check (af_states a \<noteq> [])
                 (do { e \<leftarrow> nth_opt (af_states a) (unat x mod length (af_states a)); Some (Some e, w') }) }
        else Some (top_score (af_EsWeightMap a) (- 100000000) (af_selectedState a), w);
      e \<leftarrow> sel;
      Some (e, a\<lparr>af_selectedState := sel\<rparr>, w') }"

fun af_add :: "'e::linorder world \<Rightarrow> 'e auto_feature \<Rightarrow> 'e list \<Rightarrow> ('e auto_feature \<times> 'e world) option" where
  "af_add w a [] = Some (a, w)"
| "af_add w a (es # ess) =
    do { (x, a', w') \<leftarrow> AutoFeature_getWeight w a es;
         af_add w' (a'\<lparr>af_EsWeightMap := esw_set es x (af_EsWeightMap a'),
                       af_states := af_states a' @ [es]\<rparr>) ess }"

fun af_remove :: "'e auto_feature \<Rightarrow> 'e list \<Rightarrow> 'e auto_feature option" where
  "af_remove a [] = Some a"
| "af_remove a (es # ess) =
    do { xs \<leftarrow> erase_first es (af_states a);
         af_remove (a\<lparr>af_states := xs, af_EsWeightMap := esw_erase es (af_EsWeightMap a)\<rparr>) ess }"

definition AutoFeature_update ::
  "'e::linorder world \<Rightarrow> 'e auto_feature \<Rightarrow> 'e option \<Rightarrow> 'e list \<Rightarrow> 'e list \<Rightarrow> ('e auto_feature \<times> 'e world) option" where
  "AutoFeature_update w a current added removed =
    do {
      (a1, w1) \<leftarrow>
        (case current of
           None \<Rightarrow> Some (a, w)
         | Some c \<Rightarrow>
             if w_updated w c then
               do { (x, a', w') \<leftarrow> AutoFeature_getWeight w a c;
                    Some (a'\<lparr>af_EsWeightMap := esw_set c x (af_EsWeightMap a')\<rparr>, w') }
             else Some (a, w));
      (a2, w2) \<leftarrow> af_add w1 a1 added;
      a3 \<leftarrow> af_remove a2 removed;
      Some (a3\<lparr>af_updateFeatureMap := (10 \<le> length (af_states a3))\<rparr>, w2) }"

section \<open>The searchers\<close>

record batching =
  b_timeBudget :: int
  b_instructionBudget :: uint32
  b_lastStartTime :: int
  b_lastStartInstructions :: uint32

datatype 'e searcher =
    DFSSearcher "'e list"
  | BFSSearcher "'e list"
  | RandomSearcher "'e list"
  | WeightedRandomSearcher "('e, rat) dtree" weight_type bool
  | RandomPathSearcher
  | BatchingSearcher "'e searcher" batching "'e option"
  | IterativeDeepeningTimeSearcher "'e searcher" int int "'e set"
  | InterleavedSearcher "'e searcher list" nat
  | AutoFeatureSearcher "'e auto_feature"
  | BranchingSearcher "'e searcher" "'e option" nat

definition new_WeightedRandomSearcher :: "weight_type \<Rightarrow> 'e searcher" where
  "new_WeightedRandomSearcher ty = WeightedRandomSearcher Null ty (updateWeights_of ty)"

definition new_BatchingSearcher :: "'e searcher \<Rightarrow> int \<Rightarrow> uint32 \<Rightarrow> 'e searcher" where
  "new_BatchingSearcher base timeBudget instructionBudget =
    BatchingSearcher base \<lparr>b_timeBudget = timeBudget, b_instructionBudget = instructionBudget,
      b_lastStartTime = 0, b_lastStartInstructions = 0\<rparr> None"

text \<open>\<open>time\<close> starts at one second; durations are in nanoseconds.\<close>

definition new_IterativeDeepeningTimeSearcher :: "'e searcher \<Rightarrow> 'e searcher" where
  "new_IterativeDeepeningTimeSearcher base = IterativeDeepeningTimeSearcher base 0 1000000000 {}"

definition new_InterleavedSearcher :: "'e searcher list \<Rightarrow> 'e searcher" where
  "new_InterleavedSearcher ss = InterleavedSearcher ss 1"

definition new_BranchingSearcher :: "'e searcher \<Rightarrow> 'e searcher" where
  "new_BranchingSearcher base = BranchingSearcher base None 0"

text \<open>\<open>t *= 1.1\<close> goes through microseconds and drops the fraction.\<close>

definition span_times_1_1 :: "int \<Rightarrow> int" where
  "span_times_1_1 t = (t div 1000) * 11 div 10 * 1000"

text \<open>The test at the head of \<open>BatchingSearcher::selectState\<close>, which reads the clock only when it has to.\<close>

definition batch_expired :: "'e world \<Rightarrow> batching \<Rightarrow> bool \<times> 'e world" where
  "batch_expired w b =
    (let (late, w') =
           (if b_timeBudget b > 0
            then (let (now, w') = getWallTime w in (now - b_lastStartTime b > b_timeBudget b, w'))
            else (False, w))
     in (late \<or> (b_instructionBudget b > 0 \<and>
           w_instructions w' - ucast (b_lastStartInstructions b) > ucast (b_instructionBudget b)), w'))"

definition batch_budget :: "'e world \<Rightarrow> batching \<Rightarrow> batching \<times> 'e world" where
  "batch_budget w b =
    (let (now, w') = getWallTime w; delta = now - b_lastStartTime b
     in (if delta > span_times_1_1 (b_timeBudget b) then b\<lparr>b_timeBudget := delta\<rparr> else b, w'))"

definition DFS_selectState :: "'e list \<Rightarrow> 'e option" where
  [simp]: "DFS_selectState states = (if states = [] then None else Some (last states))"

definition BFS_selectState :: "'e list \<Rightarrow> 'e option" where
  [simp]: "BFS_selectState states = (if states = [] then None else Some (hd states))"

definition Random_selectState :: "'e world \<Rightarrow> 'e list \<Rightarrow> ('e \<times> 'e world) option" where
  [simp]: "Random_selectState w states =
    do { (x, w') \<leftarrow> theRNG_getInt32 w;
         check (states \<noteq> [])
           (do { e \<leftarrow> nth_opt states (unat x mod length states); Some (e, w') }) }"

definition WeightedRandom_selectState :: "'e world \<Rightarrow> ('e, rat) dtree \<Rightarrow> ('e \<times> 'e world) option" where
  [simp]: "WeightedRandom_selectState w states =
    do { (p, w') \<leftarrow> theRNG_getDoubleL w; e \<leftarrow> DiscretePDF_choose p states; Some (e, w') }"

text \<open>\<open>--index\<close>, back to the last searcher after the first one.\<close>

definition Interleaved_advance :: "nat \<Rightarrow> nat \<Rightarrow> nat" where
  [simp]: "Interleaved_advance n index = (if index - 1 = 0 then n else index - 1)"

function selectState :: "'e world \<Rightarrow> 'e searcher \<Rightarrow> ('e \<times> 'e searcher \<times> 'e world) option" where
  "selectState w (DFSSearcher states) =
    do { e \<leftarrow> DFS_selectState states; Some (e, DFSSearcher states, w) }"
| "selectState w (BFSSearcher states) =
    do { e \<leftarrow> BFS_selectState states; Some (e, BFSSearcher states, w) }"
| "selectState w (RandomSearcher states) =
    do { (e, w') \<leftarrow> Random_selectState w states; Some (e, RandomSearcher states, w') }"
| "selectState w (WeightedRandomSearcher states ty uw) =
    do { (e, w') \<leftarrow> WeightedRandom_selectState w states; Some (e, WeightedRandomSearcher states ty uw, w') }"
| "selectState w RandomPathSearcher =
    do { (e, r) \<leftarrow> RandomPath_selectState (w_tree w) (w_rng w); Some (e, RandomPathSearcher, w\<lparr>w_rng := r\<rparr>) }"
| "selectState w (BatchingSearcher base b lastState) =
    (let (again, w1) = (case lastState of None \<Rightarrow> (True, w) | Some _ \<Rightarrow> batch_expired w b) in
     if again then
       let (b2, w2) = (case lastState of None \<Rightarrow> (b, w1) | Some _ \<Rightarrow> batch_budget w1 b) in
       do {
         (e, base', w3) \<leftarrow> selectState w2 base;
         let (now, w4) = getWallTime w3 in
         Some (e, BatchingSearcher base'
                    (b2\<lparr>b_lastStartTime := now, b_lastStartInstructions := ucast (w_instructions w4)\<rparr>) (Some e), w4) }
     else do { e \<leftarrow> lastState; Some (e, BatchingSearcher base b lastState, w1) })"
| "selectState w (IterativeDeepeningTimeSearcher base startTime time paused) =
    do {
      (e, base', w') \<leftarrow> selectState w base;
      let (now, w'') = getWallTime w' in Some (e, IterativeDeepeningTimeSearcher base' now time paused, w'') }"
| "selectState w (InterleavedSearcher ss index) =
    check (0 < index)
      (do {
         s \<leftarrow> nth_opt ss (index - 1);
         (e, s', w') \<leftarrow> selectState w s;
         Some (e, InterleavedSearcher (ss[index - 1 := s']) (Interleaved_advance (length ss) index), w') })"
| "selectState w (AutoFeatureSearcher a) =
    do { (e, a', w') \<leftarrow> AutoFeature_selectState w a; Some (e, AutoFeatureSearcher a', w') }"
| "selectState w (BranchingSearcher base lastState stackSize) =
    (case lastState of
       None \<Rightarrow>
         do { (e, base', w') \<leftarrow> selectState w base;
              Some (e, BranchingSearcher base' (Some e) (es_stack_size (w_info w' e)), w') }
     | Some e \<Rightarrow> Some (e, BranchingSearcher base lastState stackSize, w))"
  by pat_completeness auto

termination
proof (relation "measure (\<lambda>(w, s). size s)", goal_cases)
  case (4 w ss index s)
  then have "s \<in> set ss" by (auto simp: nth_opt_def split: if_splits)
  then show ?case using size_list_estimation' [of s ss "size s" size] by (simp add: less_Suc_eq_le)
qed auto

text \<open>\<open>empty\<close>; \<open>searchers[0]\<close> of no searchers is out of range.\<close>

fun isEmpty :: "'e world \<Rightarrow> 'e searcher \<Rightarrow> bool option" where
  "isEmpty w (DFSSearcher states) = Some (states = [])"
| "isEmpty w (BFSSearcher states) = Some (states = [])"
| "isEmpty w (RandomSearcher states) = Some (states = [])"
| "isEmpty w (WeightedRandomSearcher states ty uw) = Some (DiscretePDF_empty states)"
| "isEmpty w RandomPathSearcher = Some (w_states w = {})"
| "isEmpty w (BatchingSearcher base b lastState) = isEmpty w base"
| "isEmpty w (IterativeDeepeningTimeSearcher base startTime time paused) =
    do { b \<leftarrow> isEmpty w base; Some (b \<and> paused = {}) }"
| "isEmpty w (InterleavedSearcher [] index) = None"
| "isEmpty w (InterleavedSearcher (s # ss) index) = isEmpty w s"
| "isEmpty w (AutoFeatureSearcher a) = Some (af_states a = [])"
| "isEmpty w (BranchingSearcher base lastState stackSize) = isEmpty w base"

section \<open>Updates\<close>

fun dfs_remove :: "'e list \<Rightarrow> 'e list \<Rightarrow> 'e list option" where
  "dfs_remove states [] = Some states"
| "dfs_remove states (es # ess) =
    check (states \<noteq> [])
      (do { states' \<leftarrow> if es = last states then Some (butlast states) else erase_first es states;
            dfs_remove states' ess })"

definition DFS_update :: "'e list \<Rightarrow> 'e list \<Rightarrow> 'e list \<Rightarrow> 'e list option" where
  "DFS_update states added removed = dfs_remove (states @ added) removed"

fun bfs_remove :: "'e list \<Rightarrow> 'e list \<Rightarrow> 'e list option" where
  "bfs_remove states [] = Some states"
| "bfs_remove states (es # ess) =
    check (states \<noteq> [])
      (do { states' \<leftarrow> if es = hd states then Some (tl states) else erase_first es states;
            bfs_remove states' ess })"

definition BFS_update :: "'e list \<Rightarrow> 'e option \<Rightarrow> 'e list \<Rightarrow> 'e list \<Rightarrow> 'e list option" where
  "BFS_update states current added removed =
    do {
      states1 \<leftarrow>
        (case current of
           None \<Rightarrow> Some states
         | Some c \<Rightarrow>
             if added \<noteq> [] \<and> c \<notin> set removed
             then do { xs \<leftarrow> erase_first c states; Some (xs @ [c]) } else Some states);
      bfs_remove (states1 @ added) removed }"

fun random_remove :: "'e list \<Rightarrow> 'e list \<Rightarrow> 'e list option" where
  "random_remove states [] = Some states"
| "random_remove states (es # ess) = do { states' \<leftarrow> erase_first es states; random_remove states' ess }"

definition Random_update :: "'e list \<Rightarrow> 'e list \<Rightarrow> 'e list \<Rightarrow> 'e list option" where
  "Random_update states added removed = random_remove (states @ added) removed"

fun wr_insert :: "('e \<Rightarrow> rat) \<Rightarrow> ('e::linorder, rat) dtree \<Rightarrow> 'e list \<Rightarrow> ('e, rat) dtree option" where
  "wr_insert wt t [] = Some t"
| "wr_insert wt t (es # ess) = do { t' \<leftarrow> DiscretePDF_insert es (wt es) t; wr_insert wt t' ess }"

fun wr_remove :: "('e::linorder, rat) dtree \<Rightarrow> 'e list \<Rightarrow> ('e, rat) dtree option" where
  "wr_remove t [] = Some t"
| "wr_remove t (es # ess) = do { t' \<leftarrow> DiscretePDF_remove es t; wr_remove t' ess }"

definition WeightedRandom_update ::
  "('e \<Rightarrow> rat) \<Rightarrow> ('e::linorder, rat) dtree \<Rightarrow> bool \<Rightarrow> 'e option \<Rightarrow> 'e list \<Rightarrow> 'e list \<Rightarrow> ('e, rat) dtree option" where
  "WeightedRandom_update wt t uw current added removed =
    do {
      t1 \<leftarrow>
        (case current of
           None \<Rightarrow> Some t
         | Some c \<Rightarrow> if uw \<and> c \<notin> set removed then DiscretePDF_update c (wt c) t else Some t);
      t2 \<leftarrow> wr_insert wt t1 added;
      wr_remove t2 removed }"

text \<open>
  The loop over the removed states of \<open>IterativeDeepeningTimeSearcher::update\<close>: the paused
  states among them are taken out of \<open>pausedStates\<close> and of the vector \<open>alt\<close>.
\<close>

fun unpause_removed :: "'e set \<Rightarrow> 'e list \<Rightarrow> 'e list \<Rightarrow> 'e set \<times> 'e list" where
  "unpause_removed paused alt [] = (paused, alt)"
| "unpause_removed paused alt (es # ess) =
    (if es \<in> paused then unpause_removed (paused - {es}) (removeAll es alt) ess
     else unpause_removed paused alt ess)"

text \<open>A loop over the held searchers.\<close>

fun each_searcher :: "('s \<Rightarrow> 'w \<Rightarrow> ('s \<times> 'w) option) \<Rightarrow> 's list \<Rightarrow> 'w \<Rightarrow> ('s list \<times> 'w) option" where
  "each_searcher f [] w = Some ([], w)"
| "each_searcher f (s # ss) w =
    do { (s', w') \<leftarrow> f s w; (ss', w'') \<leftarrow> each_searcher f ss w'; Some (s' # ss', w'') }"

lemma each_searcher_agree:
  assumes "\<And>s w. f s w = None \<or> f s w = g s w"
  shows "each_searcher f ss w = None \<or> each_searcher f ss w = each_searcher g ss w"
proof (induction ss arbitrary: w)
  case (Cons s ss)
  show ?case
  proof (cases "f s w")
    case (Some r)
    then have "g s w = Some r" using assms [of s w] by simp
    then show ?thesis using Some Cons.IH [of "snd r"] by (cases r) auto
  qed simp
qed simp

lemma each_searcher_mono [partial_function_mono]:
  fixes B :: "'s \<Rightarrow> 'w \<Rightarrow> ('c \<Rightarrow> 'd option) \<Rightarrow> ('s \<times> 'w) option"
  assumes "\<And>s w. mono_option (\<lambda>f. B s w f)"
  shows "mono_option (\<lambda>f. each_searcher (\<lambda>s w. B s w f) ss w)"
proof (rule monotoneI, goal_cases)
  case (1 f g)
  have "B s w f = None \<or> B s w f = B s w g" for s w
    using assms [of s w] 1 unfolding monotone_def flat_ord_def by blast
  then show ?case
    using each_searcher_agree [of "\<lambda>s w. B s w f" "\<lambda>s w. B s w g" ss w] by (simp add: flat_ord_def)
qed

text \<open>A removed state is not kept as the last one; after a fork \<open>BranchingSearcher\<close> selects anew.\<close>

definition Batching_forget :: "'e option \<Rightarrow> 'e list \<Rightarrow> 'e option" where
  [simp]: "Batching_forget lastState removed =
    (case lastState of None \<Rightarrow> None | Some e \<Rightarrow> if e \<in> set removed then None else Some e)"

definition Branching_forget :: "'e option \<Rightarrow> 'e option \<Rightarrow> 'e list \<Rightarrow> 'e list \<Rightarrow> 'e option" where
  [simp]: "Branching_forget lastState current added removed =
    (case lastState of None \<Rightarrow> None
     | Some e \<Rightarrow> if e \<in> set removed \<or> (current \<noteq> None \<and> added \<noteq> []) then None else Some e)"

partial_function (option) update ::
  "'e::linorder world \<Rightarrow> 'e searcher \<Rightarrow> 'e option \<Rightarrow> 'e list \<Rightarrow> 'e list \<Rightarrow> ('e searcher \<times> 'e world) option" where
  "update w s current added removed =
    (case s of
       DFSSearcher states \<Rightarrow> do { xs \<leftarrow> DFS_update states added removed; Some (DFSSearcher xs, w) }
     | BFSSearcher states \<Rightarrow> do { xs \<leftarrow> BFS_update states current added removed; Some (BFSSearcher xs, w) }
     | RandomSearcher states \<Rightarrow> do { xs \<leftarrow> Random_update states added removed; Some (RandomSearcher xs, w) }
     | WeightedRandomSearcher t ty uw \<Rightarrow>
         do { t' \<leftarrow> WeightedRandom_update (\<lambda>e. WeightedRandom_getWeight ty (w_info w e)) t uw current added removed;
              Some (WeightedRandomSearcher t' ty uw, w) }
     | RandomPathSearcher \<Rightarrow> Some (RandomPathSearcher, w)
     | BatchingSearcher base b lastState \<Rightarrow>
         do { (base', w') \<leftarrow> update w base current added removed;
              Some (BatchingSearcher base' b (Batching_forget lastState removed), w') }
     | IterativeDeepeningTimeSearcher base startTime time paused \<Rightarrow>
         (let (now, w0) = getWallTime w;
              elapsed = now - startTime;
              (paused1, alt) = (if removed \<noteq> [] then unpause_removed paused removed removed else (paused, removed))
          in do {
            (base1, w1) \<leftarrow> update w0 base current added alt;
            (base2, paused2, w2) \<leftarrow>
              (case current of
                 None \<Rightarrow> Some (base1, paused1, w1)
               | Some c \<Rightarrow>
                   if c \<notin> set removed \<and> elapsed > time
                   then do { (base2, w2) \<leftarrow> update w1 base1 None [] [c]; Some (base2, insert c paused1, w2) }
                   else Some (base1, paused1, w1));
            none_left \<leftarrow> isEmpty w2 base2;
            if none_left
            then do { (base3, w3) \<leftarrow> update w2 base2 None (sorted_list_of_set paused2) [];
                      Some (IterativeDeepeningTimeSearcher base3 startTime (time * 2) {}, w3) }
            else Some (IterativeDeepeningTimeSearcher base2 startTime time paused2, w2) })
     | InterleavedSearcher ss index \<Rightarrow>
         do { (ss', w') \<leftarrow> each_searcher (\<lambda>s w. update w s current added removed) ss w;
              Some (InterleavedSearcher ss' index, w') }
     | AutoFeatureSearcher a \<Rightarrow>
         do { (a', w') \<leftarrow> AutoFeature_update w a current added removed; Some (AutoFeatureSearcher a', w') }
     | BranchingSearcher base lastState stackSize \<Rightarrow>
         do { (base', w') \<leftarrow> update w base current added removed;
              Some (BranchingSearcher base' (Branching_forget lastState current added removed) stackSize, w') })"

definition removeState :: "'e::linorder world \<Rightarrow> 'e searcher \<Rightarrow> 'e \<Rightarrow> ('e searcher \<times> 'e world) option" where
  "removeState w s es = update w s None [] [es]"

definition addState :: "'e::linorder world \<Rightarrow> 'e searcher \<Rightarrow> 'e \<Rightarrow> ('e searcher \<times> 'e world) option" where
  "addState w s es = update w s None [es] []"

text \<open>
  \<open>Executor::updateStates\<close>: the searcher learns of the added and removed states before the
  set \<open>states\<close> and the process tree change.
\<close>

fun remove_from_executor :: "'e list \<Rightarrow> 'e world \<Rightarrow> 'e world option" where
  "remove_from_executor [] w = Some w"
| "remove_from_executor (es # ess) w =
    check (es \<in> w_states w)
      (do { n \<leftarrow> ptreeNode (w_tree w) es;
            tree \<leftarrow> PTree_remove n (w_tree w);
            remove_from_executor ess (w\<lparr>w_states := w_states w - {es}, w_tree := tree\<rparr>) })"

definition Executor_updateStates ::
  "'e::linorder world \<Rightarrow> 'e searcher \<Rightarrow> 'e option \<Rightarrow> 'e list \<Rightarrow> 'e list \<Rightarrow> ('e searcher \<times> 'e world) option" where
  "Executor_updateStates w s current added removed =
    do {
      (s', w') \<leftarrow> update w s current added removed;
      w'' \<leftarrow> remove_from_executor removed (w'\<lparr>w_states := w_states w' \<union> set added\<rparr>);
      Some (s', w'') }"

end
