(* ===== verification/DiscretePDFSound.thy ===== *)
theory DiscretePDFSound
  imports DiscretePDF
begin

text \<open>
  Correctness of \<open>DiscretePDF\<close>: the rotations keep the entries in order, and after every
  operation each node's \<open>sumWeights\<close> is again what \<open>setSum\<close> computes from its children,
  although nodes on the way up are left with stale sums until \<open>propogateSumsUp\<close> reaches
  them. The root stays black, which is why \<open>split\<close> never follows the null parent of the root.
\<close>

section \<open>Entries, sums and marks\<close>

fun entries :: "('k, 'w) dtree \<Rightarrow> ('k \<times> 'w) list" where
  "entries Null = []"
| "entries (DNode m l r k w s) = entries l @ (k, w) # entries r"

fun d_before :: "('k, 'w) dframe list \<Rightarrow> ('k \<times> 'w) list" where
  "d_before [] = []"
| "d_before (LeftOf m r k w s # fs) = d_before fs"
| "d_before (RightOf m l k w s # fs) = d_before fs @ entries l @ [(k, w)]"

fun d_after :: "('k, 'w) dframe list \<Rightarrow> ('k \<times> 'w) list" where
  "d_after [] = []"
| "d_after (LeftOf m r k w s # fs) = (k, w) # entries r @ d_after fs"
| "d_after (RightOf m l k w s # fs) = d_after fs"

fun all_entries :: "('k, 'w) dloc \<Rightarrow> ('k \<times> 'w) list" where
  "all_entries (t, path) = d_before path @ entries t @ d_after path"

fun sums_ok :: "('k, 'w::plus) dtree \<Rightarrow> bool" where
  "sums_ok Null = True"
| "sums_ok (DNode m l r k w s) \<longleftrightarrow> s = add_sum (add_sum w l) r \<and> sums_ok l \<and> sums_ok r"

text \<open>The sums below a node, or below a frame's sibling; that of the node itself may be stale.\<close>

fun kids_ok :: "('k, 'w::plus) dtree \<Rightarrow> bool" where
  "kids_ok Null = True"
| "kids_ok (DNode m l r k w s) \<longleftrightarrow> sums_ok l \<and> sums_ok r"

fun frames_ok :: "('k, 'w::plus) dframe list \<Rightarrow> bool" where
  "frames_ok [] = True"
| "frames_ok (f # fs) \<longleftrightarrow> sums_ok (sibling f) \<and> frames_ok fs"

definition path_black :: "('k, 'w) dframe list \<Rightarrow> bool" where
  "path_black path \<longleftrightarrow> (path \<noteq> [] \<longrightarrow> \<not> frame_mark (last path))"

fun root_black :: "('k, 'w) dloc \<Rightarrow> bool" where
  "root_black (t, path) \<longleftrightarrow> (if path = [] then isBlack t else path_black path)"

lemma sums_kids: "sums_ok t \<Longrightarrow> kids_ok t"
  by (cases t) simp_all

lemma entries_Nil [simp]: "entries t = [] \<longleftrightarrow> t = Null"
  by (cases t) simp_all

lemma entries_marks [simp]: "entries (markRed t) = entries t" "entries (markBlack t) = entries t"
  by (cases t; simp)+

lemma marks_Null [simp]:
  "markRed t = Null \<longleftrightarrow> t = Null" "markBlack t = Null \<longleftrightarrow> t = Null" "isBlack (markBlack t)"
  "sumWeights (markRed t) = sumWeights t" "sumWeights (markBlack t) = sumWeights t"
  by (cases t; simp)+

lemma sums_marks [simp]:
  "sums_ok (markRed t) = sums_ok t" "sums_ok (markBlack t) = sums_ok t"
  "kids_ok (markRed t) = kids_ok t" "kids_ok (markBlack t) = kids_ok t"
  by (cases t; simp)+

lemma add_sum_marks [simp]: "add_sum a (markRed t) = add_sum a t" "add_sum a (markBlack t) = add_sum a t"
  by (simp_all add: add_sum_def)

lemma frame_simps [simp]:
  "sibling (frame_set_mark b f) = sibling f" "frame_mark (frame_set_mark b f) = b"
  "sibling (set_sibling t f) = t" "frame_mark (set_sibling t f) = frame_mark f"
  "is_left (frame_set_mark b f) = is_left f" "is_left (set_sibling t f) = is_left f"
  by (cases f; simp)+

lemma d_before_mark [simp]: "d_before (frame_set_mark b f # fs) = d_before (f # fs)"
  by (cases f) simp_all

lemma d_after_mark [simp]: "d_after (frame_set_mark b f # fs) = d_after (f # fs)"
  by (cases f) simp_all

lemma d_before_Cons: "fs \<noteq> [] \<Longrightarrow> d_before (f # fs) = d_before fs @ d_before [f]"
  by (cases f) simp_all

lemma d_after_Cons: "fs \<noteq> [] \<Longrightarrow> d_after (f # fs) = d_after [f] @ d_after fs"
  by (cases f) simp_all

lemma entries_setSum [simp]: "entries (setSum t) = entries t"
  by (cases t) simp_all

lemma sums_setSum [simp]: "sums_ok (setSum t) \<longleftrightarrow> kids_ok t"
  by (cases t) simp_all

lemma isBlack_setSum [simp]: "isBlack (setSum t) = isBlack t"
  by (cases t) simp_all

lemma setSum_Null [simp]: "setSum t = Null \<longleftrightarrow> t = Null"
  by (cases t) simp_all

lemma path_black_simps [simp]:
  "path_black []" "path_black [f] \<longleftrightarrow> \<not> frame_mark f" "path_black (f # g # fs) \<longleftrightarrow> path_black (g # fs)"
  by (simp_all add: path_black_def)

lemma path_black_Cons: "path_black (f # fs) \<longleftrightarrow> (if fs = [] then \<not> frame_mark f else path_black fs)"
  by (simp add: path_black_def)

lemma d_before_set_sibling [simp]:
  "d_before (set_sibling (markBlack (sibling f)) f # fs) = d_before (f # fs)"
  by (cases f) simp_all

lemma d_after_set_sibling [simp]:
  "d_after (set_sibling (markBlack (sibling f)) f # fs) = d_after (f # fs)"
  by (cases f) simp_all

lemma all_entries_plug1 [simp]: "all_entries (plug1 f t, fs) = all_entries (t, f # fs)"
  by (cases f) simp_all

lemma entries_plug1: "entries (plug1 f t) = d_before [f] @ entries t @ d_after [f]"
  by (cases f) simp_all

lemma kids_plug1 [simp]: "kids_ok (plug1 f t) \<longleftrightarrow> sums_ok t \<and> sums_ok (sibling f)"
  by (cases f) auto

lemma plug1_Null [simp]: "plug1 f t \<noteq> Null"
  by (cases f) simp_all

section \<open>The rotations\<close>

lemma rotate_node_ok:
  assumes "t \<noteq> Null"
  shows "\<exists>t'. rotate_node (t, f # fs) = Some (t', fs) \<and> t' \<noteq> Null \<and>
    all_entries (t', fs) = all_entries (t, f # fs) \<and>
    (sums_ok (sibling f) \<longrightarrow> kids_ok t \<longrightarrow> kids_ok t')"
  using assms by (cases t; cases f) (simp_all add: Let_def)

lemma rotate_sibling_ok:
  assumes "sibling f \<noteq> Null"
  shows "\<exists>f1 f2. rotate_sibling (t, f # fs) = Some (t, f1 # f2 # fs) \<and>
    all_entries (t, f1 # f2 # fs) = all_entries (t, f # fs) \<and>
    (kids_ok (sibling f) \<longrightarrow> sums_ok (sibling f1) \<and> sums_ok (sibling f2)) \<and>
    frame_mark f1 = frame_mark f \<and> (frame_mark f2 \<longleftrightarrow> \<not> isBlack (sibling f)) \<and>
    is_left f1 = is_left f \<and> is_left f2 = is_left f \<and>
    sibling f2 = (case sibling f of DNode m l r k w s \<Rightarrow> if is_left f then r else l)"
  using assms by (cases f; cases "sibling f") (auto simp: Let_def)

lemma propogateSumsUp_ok:
  "entries (propogateSumsUp (t, path)) = all_entries (t, path) \<and>
   (kids_ok t \<longrightarrow> frames_ok path \<longrightarrow> sums_ok (propogateSumsUp (t, path))) \<and>
   (isBlack (propogateSumsUp (t, path)) \<longleftrightarrow> root_black (t, path))"
proof (induction path arbitrary: t)
  case (Cons f fs)
  then show ?case by (cases fs) (auto simp: all_entries_plug1 simp del: all_entries.simps, auto simp: entries_plug1)
qed simp

lemma split_node_ok:
  assumes "t \<noteq> Null" "root_black (t, path)" "kids_ok t" "frames_ok path"
  shows "\<exists>t' path'. split_node (t, path) = Some (t', path') \<and> t' \<noteq> Null \<and>
    all_entries (t', path') = all_entries (t, path) \<and> kids_ok t' \<and> frames_ok path' \<and> root_black (t', path')"
proof -
  obtain m l r k w s where t: "t = DNode m l r k w s" using assms(1) by (cases t) auto
  show ?thesis
  proof (cases path)
    case Nil
    then show ?thesis using assms t by (simp add: split_node_def)
  next
    case (Cons p ps)
    show ?thesis
    proof (cases "frame_mark p")
      case False
      then show ?thesis using assms t Cons by (cases p) (simp_all add: split_node_def path_black_Cons)
    next
      case True
      then obtain pp ps' where "ps = pp # ps'" using assms(2) Cons by (cases ps) auto
      then show ?thesis using assms t Cons True
        by (cases p; cases pp; simp add: split_node_def down_def Let_def path_black_Cons split: if_splits)
    qed
  qed
qed

text \<open>The three parts of \<open>lengthen\<close>.\<close>

lemma lengthen_red_sibling_ok:
  assumes "frames_ok (f # fs)" "path_black (f # fs)"
  shows "\<exists>f' fs'. lengthen_red_sibling (t, f # fs) = Some (t, f' # fs') \<and>
    all_entries (t, f' # fs') = all_entries (t, f # fs) \<and> frames_ok (f' # fs') \<and>
    path_black (f' # fs') \<and> is_left f' = is_left f \<and> (isBlack (sibling f') \<or> fs' \<noteq> [])"
proof (cases "sibling f \<noteq> Null \<and> \<not> isBlack (sibling f)")
  case True
  let ?f = "frame_set_mark True (set_sibling (markBlack (sibling f)) f)"
  obtain f1 f2 where r: "rotate_sibling (t, ?f # fs) = Some (t, f1 # f2 # fs)"
    "all_entries (t, f1 # f2 # fs) = all_entries (t, ?f # fs)"
    "sums_ok (sibling f1)" "sums_ok (sibling f2)" "\<not> frame_mark f2" "is_left f1 = is_left f"
    using rotate_sibling_ok [of ?f t fs] True assms(1) sums_kids [of "sibling f"] by auto
  then show ?thesis using True assms by (simp add: lengthen_red_sibling_def path_black_Cons)
next
  case False
  then show ?thesis using assms by (auto simp: lengthen_red_sibling_def)
qed

definition far_child :: "('k, 'w) dframe \<Rightarrow> ('k, 'w) dtree" where
  "far_child f = (case sibling f of DNode m l r k w s \<Rightarrow> if is_left f then r else l)"

lemma far_rotation_ok:
  assumes "sibling f = DNode sm sl sr sk sw ss" "\<not> (isBlack sl \<and> isBlack sr)" "sums_ok (sibling f)"
  shows "\<exists>f'. far_rotation f = Some f' \<and> all_entries (t, f' # fs) = all_entries (t, f # fs) \<and>
    sibling f' \<noteq> Null \<and> far_child f' \<noteq> Null \<and> kids_ok (sibling f') \<and>
    (isBlack (sibling f) \<longrightarrow> isBlack (sibling f')) \<and>
    is_left f' = is_left f \<and> frame_mark f' = frame_mark f"
  using assms by (cases f; cases sl; cases sr) (auto simp: far_child_def Let_def)

lemma lengthen_rotate_ok:
  assumes "sibling f \<noteq> Null" "far_child f \<noteq> Null" "kids_ok (sibling f)" "frames_ok fs" "path_black (f # fs)"
    "isBlack (sibling f) \<or> fs \<noteq> []"
  shows "\<exists>g gs. lengthen_rotate (t, f # fs) = Some (t, g # gs) \<and>
    all_entries (t, g # gs) = all_entries (t, f # fs) \<and> frames_ok (g # gs) \<and> path_black (g # gs) \<and>
    is_left g = is_left f"
proof -
  obtain f1 f2 where r: "rotate_sibling (t, f # fs) = Some (t, f1 # f2 # fs)"
    "all_entries (t, f1 # f2 # fs) = all_entries (t, f # fs)"
    "sums_ok (sibling f1)" "sums_ok (sibling f2)" "frame_mark f1 = frame_mark f"
    "frame_mark f2 \<longleftrightarrow> \<not> isBlack (sibling f)"
    "is_left f1 = is_left f" "sibling f2 = far_child f"
    using rotate_sibling_ok [OF assms(1), of t fs] assms(3) by (auto simp: far_child_def)
  define f3 where "f3 = set_sibling (markBlack (sibling f2)) f2"
  define f4 where "f4 = (if frame_mark f1 then frame_set_mark True f3 else f3)"
  have f4: "d_before (f4 # fs) = d_before (f2 # fs)" "d_after (f4 # fs) = d_after (f2 # fs)"
    "sums_ok (sibling f4)" "frame_mark f4 \<longleftrightarrow> frame_mark f1 \<or> frame_mark f2"
    using r(4) by (simp_all add: f4_def f3_def)
  have "lengthen_rotate (t, f # fs) = Some (t, frame_set_mark False f1 # f4 # fs)"
    using r(1,8) assms(2) by (simp add: lengthen_rotate_def Let_def f4_def f3_def)
  moreover have "all_entries (t, frame_set_mark False f1 # f4 # fs) = all_entries (t, f # fs)"
    using r(2) f4(1,2) by (simp add: d_before_Cons [of "_ # _"] d_after_Cons [of "_ # _"])
  ultimately show ?thesis using r(3,5,6,7) f4(3,4) assms(4,5,6)
    by (intro exI [of _ "frame_set_mark False f1"] exI [of _ "f4 # fs"]) (auto simp: path_black_Cons split: if_splits)
qed

definition lengthen_post :: "('k, 'w::plus) dloc \<Rightarrow> ('k, 'w) dloc \<Rightarrow> bool" where
  "lengthen_post loc loc' \<longleftrightarrow>
     (fst loc' = fst loc \<or> fst loc' = markBlack (fst loc)) \<and> all_entries loc' = all_entries loc \<and>
     frames_ok (snd loc') \<and> root_black loc' \<and>
     (case snd loc of [] \<Rightarrow> snd loc' = []
      | f # fs \<Rightarrow> (\<exists>g gs. snd loc' = g # gs \<and> is_left g = is_left f))"

lemma markBlack_plug1 [simp]: "markBlack (plug1 f t) = plug1 (frame_set_mark False f) t"
  by (cases f) simp_all

lemma down_plug1: "down (is_left f) (plug1 f t, path) = Some (t, f # path)"
  by (cases f) (simp_all add: down_def)

text \<open>\<open>lengthen(n->parent)\<close>, and back to \<open>n\<close>.\<close>

lemma lengthen_parent:
  assumes "lengthen (plug1 f t, fs) = Some loc'" "lengthen_post (plug1 f t, fs) loc'" "sums_ok (sibling f)"
  shows "\<exists>g gs. down (is_left f) loc' = Some (t, g # gs) \<and> is_left g = is_left f \<and>
    all_entries (t, g # gs) = all_entries (t, f # fs) \<and> frames_ok (g # gs) \<and> path_black (g # gs)"
proof -
  obtain p path where loc': "loc' = (p, path)" by (cases loc')
  have p: "p = plug1 f t \<or> p = markBlack (plug1 f t)" and en: "all_entries (p, path) = all_entries (t, f # fs)"
    and fr: "frames_ok path" and rb: "root_black (p, path)"
    using assms(2) unfolding lengthen_post_def loc' by (simp_all del: all_entries.simps)
  obtain g where g: "down (is_left f) loc' = Some (t, g # path)" "p = plug1 g t" "is_left g = is_left f"
    "sibling g = sibling f"
  proof (cases "p = plug1 f t")
    case False
    then have "p = plug1 (frame_set_mark False f) t" using p by simp
    then show ?thesis using that [of "frame_set_mark False f"] loc' down_plug1 [of "frame_set_mark False f" t path]
      by simp
  qed (use that [of f] loc' down_plug1 [of f t path] in simp)
  then show ?thesis using en fr rb assms(3)
    by (auto simp: path_black_Cons simp del: all_entries.simps split: if_splits)
qed

declare lengthen.simps [simp del]

lemma lengthen_post_Cons:
  assumes "all_entries (t, g # gs) = all_entries (t, f # fs)" "frames_ok (g # gs)" "path_black (g # gs)"
    "is_left g = is_left f"
  shows "lengthen_post (t, f # fs) (t, g # gs)"
  using assms by (simp add: lengthen_post_def)

lemma lengthen_ok:
  "frames_ok path \<Longrightarrow> path_black path \<Longrightarrow> \<exists>loc'. lengthen (t, path) = Some loc' \<and> lengthen_post (t, path) loc'"
proof (induction "(t, path)" arbitrary: t path rule: lengthen.induct)
  case (1 t path)
  show ?case
  proof (cases "isBlack t \<and> path \<noteq> []")
    case False
    then show ?thesis using 1(3,4) by (subst lengthen.simps) (cases path; auto simp: lengthen_post_def)
  next
    case True
    then obtain f0 fs0 where p: "path = f0 # fs0" by (cases path) auto
    obtain f fs where l: "lengthen_red_sibling (t, f0 # fs0) = Some (t, f # fs)"
      "all_entries (t, f # fs) = all_entries (t, f0 # fs0)" "frames_ok (f # fs)" "path_black (f # fs)"
      "is_left f = is_left f0" "isBlack (sibling f) \<or> fs \<noteq> []"
      using lengthen_red_sibling_ok [of f0 fs0 t] 1(3,4) p by blast
    have fs: "frames_ok fs" "path_black fs" using l(3,4) by (simp_all add: path_black_Cons split: if_splits)
    have "\<exists>g gs. lengthen (t, path) = Some (t, g # gs) \<and> all_entries (t, g # gs) = all_entries (t, f # fs) \<and>
      frames_ok (g # gs) \<and> path_black (g # gs) \<and> is_left g = is_left f"
    proof (cases "sibling f")
      case Null
      obtain loc' where loc': "lengthen (plug1 f t, fs) = Some loc'" "lengthen_post (plug1 f t, fs) loc'"
        using 1(1) [OF _ p l(1) refl refl Null] True fs by auto
      have "lengthen (t, path) = down (is_left f) loc'"
        using Null l(1) True p loc'(1) by (subst lengthen.simps) simp
      then show ?thesis using lengthen_parent [OF loc'] Null by auto
    next
      case (DNode sm sl sr sk sw ss)
      define f' where "f' = set_sibling (DNode True sl sr sk sw ss) f"
      have f': "all_entries (t, f' # fs) = all_entries (t, f # fs)" "sums_ok (sibling f')" "is_left f' = is_left f"
        "frame_mark f' = frame_mark f"
        using DNode l(3) unfolding f'_def by (cases f; simp)+
      consider (far) "\<not> (isBlack sl \<and> isBlack sr)" | (up) "isBlack sl" "isBlack sr" "\<not> frame_mark f"
        | (swap) "isBlack sl" "isBlack sr" "frame_mark f" by blast
      then show ?thesis
      proof cases
        case far
        obtain f2 where f2: "far_rotation f = Some f2" "all_entries (t, f2 # fs) = all_entries (t, f # fs)"
          "sibling f2 \<noteq> Null" "far_child f2 \<noteq> Null" "kids_ok (sibling f2)"
          "isBlack (sibling f) \<longrightarrow> isBlack (sibling f2)" "is_left f2 = is_left f" "frame_mark f2 = frame_mark f"
          using far_rotation_ok [OF DNode far, of t fs] l(3) by auto
        have "path_black (f2 # fs)" "isBlack (sibling f2) \<or> fs \<noteq> []"
          using f2(6,8) l(4,6) by (auto simp: path_black_Cons)
        then obtain g gs where "lengthen_rotate (t, f2 # fs) = Some (t, g # gs)"
          "all_entries (t, g # gs) = all_entries (t, f2 # fs)" "frames_ok (g # gs)" "path_black (g # gs)"
          "is_left g = is_left f2"
          using lengthen_rotate_ok [OF f2(3-5) fs(1), of t] by blast
        moreover have "lengthen (t, path) = lengthen_rotate (t, f2 # fs)"
          using True p l(1) f2(1) DNode far by (subst lengthen.simps) (auto simp: Let_def)
        ultimately show ?thesis using f2(2,7) by auto
      next
        case up
        obtain loc' where loc': "lengthen (plug1 f' t, fs) = Some loc'" "lengthen_post (plug1 f' t, fs) loc'"
          using 1(2) [OF _ p l(1) refl refl DNode _ _ up(3)] True fs up f'_def by auto
        have "lengthen (t, path) = down (is_left f) loc'"
          using True p l(1) loc'(1) DNode up by (subst lengthen.simps) (simp add: Let_def flip: f'_def)
        then show ?thesis using lengthen_parent [OF loc'] f' by auto
      next
        case swap
        have "lengthen (t, path) = Some (t, frame_set_mark False f' # fs)"
          using True p l(1) DNode swap by (subst lengthen.simps) (simp add: Let_def flip: f'_def)
        moreover have "all_entries (t, frame_set_mark False f' # fs) = all_entries (t, f # fs)" using f'(1) by simp
        ultimately show ?thesis using f' fs by (auto simp: path_black_Cons simp del: all_entries.simps)
      qed
    qed
    then show ?thesis using lengthen_post_Cons l(2,5) p by metis
  qed
qed

section \<open>Insertion\<close>

text \<open>
  The descent follows the search path of the item. A node that is split can come back below
  a rotation, but its children are then black, so the measure decreases at each step.
\<close>

fun search_depth :: "'k::linorder \<Rightarrow> ('k, 'w) dtree \<Rightarrow> nat" where
  "search_depth item Null = 0"
| "search_depth item (DNode m l r k w s) = Suc (if item < k then search_depth item l else search_depth item r)"

fun splits :: "('k, 'w) dtree \<Rightarrow> bool" where
  "splits Null = False"
| "splits (DNode m l r k w s) \<longleftrightarrow> \<not> isBlack l \<and> \<not> isBlack r"

definition descent :: "'k::linorder \<Rightarrow> ('k, 'w) dtree \<Rightarrow> nat" where
  "descent item t = 2 * search_depth item t + (if splits t then 1 else 0)"

definition around :: "'k::linorder \<Rightarrow> ('k, 'w) dframe list \<Rightarrow> bool" where
  "around item path \<longleftrightarrow> (\<forall>e \<in> set (d_before path). fst e < item) \<and> (\<forall>e \<in> set (d_after path). item < fst e)"

definition descend_inv :: "'k::linorder \<Rightarrow> ('k, 'w::plus) dloc \<Rightarrow> bool" where
  "descend_inv item loc \<longleftrightarrow>
     sums_ok (fst loc) \<and> frames_ok (snd loc) \<and> root_black loc \<and> around item (snd loc) \<and>
     item \<notin> fst ` set (entries (fst loc)) \<and> sorted_wrt (<) (map fst (all_entries loc))"

lemma search_depth_markBlack [simp]: "search_depth item (markBlack t) = search_depth item t"
  by (cases t) simp_all

text \<open>The node that the descent leaves, at the location where \<open>split\<close> put it.\<close>

definition at_node :: "'k::linorder \<Rightarrow> nat \<Rightarrow> ('k, 'w::plus) dloc \<Rightarrow> bool" where
  "at_node item n loc \<longleftrightarrow>
     (case loc of
        (Null, path) \<Rightarrow> False
      | (DNode m l r k w s, path) \<Rightarrow>
          sums_ok l \<and> sums_ok r \<and> frames_ok path \<and> root_black loc \<and> around item path \<and>
          item \<noteq> k \<and> item \<notin> fst ` set (entries l) \<and> item \<notin> fst ` set (entries r) \<and>
          sorted_wrt (<) (map fst (all_entries loc)) \<and>
          descent item (if item < k then l else r) < n)"

lemma at_node_down:
  assumes "at_node item n (DNode m l r k w s, path)"
  shows "\<exists>c path'. (if item < k then down_left (DNode m l r k w s, path) else down_right (DNode m l r k w s, path))
      = Some (c, path') \<and> descend_inv item (c, path') \<and> descent item c < n \<and>
      all_entries (c, path') = all_entries (DNode m l r k w s, path)"
proof (cases "item < k")
  case True
  have "\<forall>e \<in> set (entries r). k < fst e" using assms by (auto simp: at_node_def sorted_wrt_append)
  then have "\<forall>e \<in> set (entries r). item < fst e" using True less_trans by blast
  then show ?thesis using True assms
    by (auto simp: at_node_def descend_inv_def around_def path_black_Cons split: if_splits)
next
  case False
  then have k: "k < item" using assms by (auto simp: at_node_def)
  have "\<forall>e \<in> set (entries l). fst e < k" using assms by (auto simp: at_node_def sorted_wrt_append)
  then have "\<forall>e \<in> set (entries l). fst e < item" using k less_trans by blast
  then show ?thesis using False k assms
    by (auto simp: at_node_def descend_inv_def around_def path_black_Cons split: if_splits)
qed

text \<open>\<open>split\<close> below a red parent: one rotation, or two when the node is an inner grandchild.\<close>

lemma split_outer:
  assumes "frame_mark p" "is_left p = is_left pp"
  shows "\<exists>path'. split_node (DNode m l r k w s, p # pp # ps) =
      Some (DNode True (markBlack l) (markBlack r) k w s, path') \<and>
    (around item (p # pp # ps) \<longrightarrow> around item path')"
  using assms by (cases p; cases pp) (simp_all add: split_node_def down_def Let_def around_def ball_Un)

lemma split_inner:
  assumes "frame_mark p" "is_left p \<noteq> is_left pp"
  shows "\<exists>a b sm. split_node (DNode m l r k w s, p # pp # ps) = Some (DNode False a b k w sm, ps) \<and>
    (around item (p # pp # ps) \<longrightarrow> around item ps \<and>
       descent item a \<le> Suc (Suc (2 * search_depth item l)) \<and>
       descent item b \<le> Suc (Suc (2 * search_depth item r)))"
proof (cases p)
  case (LeftOf pm pr pk pw psm)
  then obtain m2 pl pk2 pw2 ps2 where "pp = RightOf m2 pl pk2 pw2 ps2" using assms(2) by (cases pp) auto
  then show ?thesis using LeftOf assms(1)
    by (auto simp: split_node_def Let_def around_def descent_def)
next
  case (RightOf pm pl pk pw psm)
  then obtain m2 pr pk2 pw2 ps2 where "pp = LeftOf m2 pr pk2 pw2 ps2" using assms(2) by (cases pp) auto
  then show ?thesis using RightOf assms(1)
    by (auto simp: split_node_def Let_def around_def descent_def)
qed

lemma descend_node:
  assumes inv: "descend_inv item (t, path)" and ne: "t \<noteq> Null"
  shows "\<exists>loc'. (if splits t then split_node (t, path) else Some (t, path)) = Some loc' \<and>
    at_node item (descent item t) loc' \<and> all_entries loc' = all_entries (t, path)"
proof -
  obtain m l r k w s where t: "t = DNode m l r k w s" using ne by (cases t) auto
  have b: "sums_ok l" "sums_ok r" "frames_ok path" "around item path" "item \<noteq> k"
    "item \<notin> fst ` set (entries l)" "item \<notin> fst ` set (entries r)"
    and rb: "root_black (t, path)" and srt: "sorted_wrt (<) (map fst (all_entries (t, path)))"
    using inv t by (auto simp: descend_inv_def)
  have dc: "descent item (if item < k then l else r) < descent item t"
    using t by (simp add: descent_def)
  show ?thesis
  proof (cases "splits t")
    case False
    then have "(if splits t then split_node (t, path) else Some (t, path)) = Some (t, path)" by simp
    moreover have "at_node item (descent item t) (t, path)" using b rb srt dc t by (simp add: at_node_def)
    ultimately show ?thesis by blast
  next
    case True
    have dm: "descent item (markBlack c) \<le> Suc (2 * search_depth item c)" for c :: "('a, 'b) dtree"
      by (simp add: descent_def)
    have dn: "descent item (if item < k then markBlack l else markBlack r) < descent item t"
      using dm [of l] dm [of r] True t by (simp add: descent_def)
    show ?thesis
    proof (cases "\<exists>p ps. path = p # ps \<and> frame_mark p")
      case False
      then have "split_node (t, path) = Some (DNode (path \<noteq> []) (markBlack l) (markBlack r) k w s, path)
        \<or> (path = [] \<and> split_node (t, path) = Some (DNode m (markBlack l) (markBlack r) k w s, path))"
        using t by (cases path) (auto simp: split_node_def)
      then show ?thesis using True b rb srt dn t by (auto simp: at_node_def)
    next
      case red: True
      then obtain p pp ps where pp: "path = p # pp # ps" "frame_mark p"
        using rb by (cases path; cases "tl path") auto
      have sd: "search_depth item t = Suc (if item < k then search_depth item l else search_depth item r)"
        using t by simp
      have dt: "descent item t = Suc (2 * search_depth item t)" using True by (simp add: descent_def)
      obtain t' path' where sp: "split_node (t, path) = Some (t', path')" "t' \<noteq> Null"
        "all_entries (t', path') = all_entries (t, path)" "kids_ok t'" "frames_ok path'" "root_black (t', path')"
        using split_node_ok [OF ne rb] sums_kids inv by (auto simp: descend_inv_def)
      obtain m1 l1 r1 k1 w1 s1 where t': "t' = DNode m1 l1 r1 k1 w1 s1" using sp(2) by (cases t') auto
      have "item \<notin> fst ` set (all_entries (t, path))"
        using b t by (auto simp: around_def)
      then have fresh: "item \<noteq> k1" "item \<notin> fst ` set (entries l1)" "item \<notin> fst ` set (entries r1)"
        unfolding sp(3) [symmetric] t' by auto
      have "around item path' \<and> descent item (if item < k1 then l1 else r1) < descent item t"
      proof (cases "is_left p = is_left pp")
        case True
        then have "k1 = k" "l1 = markBlack l" "r1 = markBlack r" "around item path'"
          using split_outer [OF pp(2), of pp m l r k w s ps item] sp(1) b(4) pp(1) t t' by auto
        then show ?thesis using dn by (cases "item < k") simp_all
      next
        case False
        have "k1 = k" "around item path'" "descent item l1 \<le> Suc (Suc (2 * search_depth item l))"
          "descent item r1 \<le> Suc (Suc (2 * search_depth item r))"
          using split_inner [OF pp(2) False, of m l r k w s ps item] sp(1) b(4) pp(1) t t' by auto
        then show ?thesis using dt sd by simp
      qed
      then show ?thesis using sp True fresh srt by (auto simp: at_node_def t')
    qed
  qed
qed

lemma insert_descend_ok:
  "descend_inv item (t, path) \<Longrightarrow>
     \<exists>path'. insert_descend item (t, path) = Some path' \<and> descend_inv item (Null, path') \<and>
       all_entries (Null, path') = all_entries (t, path)"
proof (induction "descent item t" arbitrary: t path rule: less_induct)
  case less
  show ?case
  proof (cases "t = Null")
    case True
    then show ?thesis using less.prems by (subst insert_descend.simps) simp
  next
    case False
    obtain loc' where loc': "(if splits t then split_node (t, path) else Some (t, path)) = Some loc'"
      "at_node item (descent item t) loc'" "all_entries loc' = all_entries (t, path)"
      using descend_node [OF less.prems False] by blast
    obtain m l r k w s path1 where l1: "loc' = (DNode m l r k w s, path1)"
      using loc'(2) by (cases loc'; cases "fst loc'") (auto simp: at_node_def)
    obtain c path2 where c: "(if item < k then down_left loc' else down_right loc') = Some (c, path2)"
      "descend_inv item (c, path2)" "descent item c < descent item t" "all_entries (c, path2) = all_entries loc'"
      using at_node_down loc'(2) l1 by blast
    have "item \<noteq> k" using loc'(2) l1 by (simp add: at_node_def)
    then have "insert_descend item (t, path) = insert_descend item (c, path2)"
      using False loc'(1) c(1) l1 by (subst insert_descend.simps) (cases t; cases "item < k"; simp)
    then show ?thesis using less.hyps [OF c(3,2)] c(4) loc'(3) by simp
  qed
qed

text \<open>What the operations keep.\<close>

definition pdf_ok :: "('k::linorder, 'w::plus) dtree \<Rightarrow> bool" where
  "pdf_ok root \<longleftrightarrow> sorted_wrt (<) (map fst (entries root)) \<and> sums_ok root \<and> isBlack root"

lemma sorted_around_filter:
  assumes "\<forall>e \<in> set xs. fst e < item" "\<forall>e \<in> set ys. item < (fst e :: 'k::linorder)"
  shows "[e \<leftarrow> xs @ ys. fst e < item] = xs" "[e \<leftarrow> xs @ ys. item < fst e] = ys"
  using assms by (auto simp: filter_empty_conv filter_id_conv)

lemma pdf_insert_ok:
  assumes ok: "pdf_ok root" and fresh: "item \<notin> fst ` set (entries root)"
  shows "\<exists>root'. DiscretePDF_insert item weight root = Some root' \<and> pdf_ok root' \<and>
    entries root' = [e \<leftarrow> entries root. fst e < item] @ (item, weight) # [e \<leftarrow> entries root. item < fst e]"
proof -
  have inv: "descend_inv item (root, [])" using assms by (simp add: descend_inv_def pdf_ok_def around_def)
  obtain path where path: "insert_descend item (root, []) = Some path" "descend_inv item (Null, path)"
    "all_entries (Null, path) = all_entries (root, [])"
    using insert_descend_ok [OF inv] by blast
  let ?n = "new_DNode item weight"
  have n: "?n \<noteq> Null" "kids_ok ?n" "isBlack ?n" "frames_ok path" "path_black path"
    and ar: "around item path" and er: "entries root = d_before path @ d_after path"
    using path(2,3) by (auto simp: new_DNode_def descend_inv_def split: if_splits)
  have en: "all_entries (?n, path) = d_before path @ (item, weight) # d_after path"
    by (simp add: new_DNode_def)
  obtain loc where loc: "(if path = [] then Some (?n, []) else split_node (?n, path)) = Some loc"
    "all_entries loc = all_entries (?n, path)" "kids_ok (fst loc)" "frames_ok (snd loc)" "root_black loc"
    using split_node_ok [OF n(1), of path] n by (cases "path = []") (auto simp: new_DNode_def)
  let ?root = "propogateSumsUp loc"
  have "DiscretePDF_insert item weight root = Some ?root"
    using path(1) loc(1) by (simp add: DiscretePDF_insert_def Let_def)
  moreover have e: "entries ?root = d_before path @ (item, weight) # d_after path" "sums_ok ?root" "isBlack ?root"
    using propogateSumsUp_ok [of "fst loc" "snd loc"] loc(2-5) en by simp_all
  moreover have fl: "[e \<leftarrow> entries root. fst e < item] = d_before path" "[e \<leftarrow> entries root. item < fst e] = d_after path"
    using sorted_around_filter [of "d_before path" item "d_after path"] ar er by (simp_all add: around_def)
  moreover have "sorted_wrt (<) (map fst (entries ?root))"
    using e(1) ok ar er by (auto simp: pdf_ok_def around_def sorted_wrt_append)
  ultimately show ?thesis by (simp add: pdf_ok_def)
qed

section \<open>Lookup, update and removal\<close>

definition lookup_post :: "'k::linorder \<Rightarrow> ('k \<times> 'w) list \<Rightarrow> ('k, 'w::plus) dloc \<Rightarrow> bool" where
  "lookup_post item xs loc \<longleftrightarrow>
     all_entries loc = xs \<and> frames_ok (snd loc) \<and> sums_ok (fst loc) \<and> root_black loc \<and>
     (case fst loc of Null \<Rightarrow> item \<notin> fst ` set xs | DNode m l r k w s \<Rightarrow> k = item)"

lemma lookup_loc_ok:
  assumes "sorted_wrt (<) (map fst (all_entries (t, path)))" "frames_ok path" "sums_ok t"
    "item \<notin> fst ` set (d_before path) \<and> item \<notin> fst ` set (d_after path)" "root_black (t, path)"
  shows "lookup_post item (all_entries (t, path)) (lookup_loc item (t, path))"
  using assms
proof (induction item "(t, path)" arbitrary: t path rule: lookup_loc.induct)
  case (2 item m l r k w s path)
  consider "item = k" | "item < k" | "k < item" by fastforce
  then show ?case
  proof cases
    case 1
    then show ?thesis using 2 by (simp add: lookup_post_def)
  next
    case i: 2
    let ?p = "LeftOf m r k w s # path"
    have "\<forall>e \<in> set (entries r). k < fst e" using 2(3) by (auto simp: sorted_wrt_append)
    then have "item \<notin> fst ` set (d_before ?p) \<and> item \<notin> fst ` set (d_after ?p)" using 2(6) i by force
    moreover have "frames_ok ?p" "sums_ok l" "root_black (l, ?p)" "sorted_wrt (<) (map fst (all_entries (l, ?p)))"
      using 2(3-5,7) by (simp_all add: path_black_Cons split: if_splits)
    ultimately have "lookup_post item (all_entries (l, ?p)) (lookup_loc item (l, ?p))"
      using 2(1) i by blast
    moreover have "lookup_loc item (DNode m l r k w s, path) = lookup_loc item (l, ?p)" using i by auto
    ultimately show ?thesis by simp
  next
    case i: 3
    let ?p = "RightOf m l k w s # path"
    have "\<forall>e \<in> set (entries l). fst e < k" using 2(3) by (auto simp: sorted_wrt_append)
    then have "item \<notin> fst ` set (d_before ?p) \<and> item \<notin> fst ` set (d_after ?p)" using 2(6) i by force
    moreover have "frames_ok ?p" "sums_ok r" "root_black (r, ?p)" "sorted_wrt (<) (map fst (all_entries (r, ?p)))"
      using 2(3-5,7) by (simp_all add: path_black_Cons split: if_splits)
    moreover have "item \<noteq> k" "\<not> item < k" using i by auto
    ultimately have "lookup_post item (all_entries (r, ?p)) (lookup_loc item (r, ?p))"
      using 2(2) by blast
    moreover have "lookup_loc item (DNode m l r k w s, path) = lookup_loc item (r, ?p)" using i by auto
    ultimately show ?thesis by simp
  qed
qed (auto simp: lookup_post_def)

lemma lookup_post_found:
  "lookup_post item xs (DNode m l r k w s, path) \<Longrightarrow> k = item \<and> item \<in> fst ` set xs"
  by (force simp: lookup_post_def)

lemma lookup_root:
  assumes "pdf_ok root"
  shows "lookup_post item (entries root) (lookup_loc item (root, []))"
  using lookup_loc_ok [of root "[]" item] assms by (simp add: pdf_ok_def)

lemma inTree_ok:
  assumes "pdf_ok root"
  shows "DiscretePDF_inTree item root \<longleftrightarrow> item \<in> fst ` set (entries root)"
proof -
  obtain t path where t: "lookup_loc item (root, []) = (t, path)" by fastforce
  then have p: "lookup_post item (entries root) (t, path)" using lookup_root [OF assms, of item] by simp
  show ?thesis
  proof (cases t)
    case Null
    then show ?thesis using p t by (simp add: DiscretePDF_inTree_def lookup_post_def)
  next
    case (DNode m l r k w s)
    then show ?thesis using p t lookup_post_found by (simp add: DiscretePDF_inTree_def) blast
  qed
qed

text \<open>The entry of an item splits the entries of a tree in two.\<close>

lemma lookup_found:
  assumes "pdf_ok root" "item \<in> fst ` set (entries root)"
  obtains m l r w s path where "lookup_loc item (root, []) = (DNode m l r item w s, path)"
    "all_entries (DNode m l r item w s, path) = entries root" "frames_ok path" "sums_ok l" "sums_ok r"
    "root_black (DNode m l r item w s, path)"
    "\<forall>e \<in> set (d_before path @ entries l). fst e < item" "\<forall>e \<in> set (entries r @ d_after path). item < fst e"
proof -
  obtain t path where t: "lookup_loc item (root, []) = (t, path)" by fastforce
  have p: "lookup_post item (entries root) (t, path)" using lookup_root [OF assms(1), of item] t by simp
  then obtain m l r w s where d: "t = DNode m l r item w s" using assms(2) by (cases t) (auto simp: lookup_post_def)
  have e: "all_entries (DNode m l r item w s, path) = entries root" using p d by (simp add: lookup_post_def)
  have s: "sorted_wrt (<) (map fst (all_entries (DNode m l r item w s, path)))"
    using assms(1) unfolding e by (simp add: pdf_ok_def)
  have "\<forall>e \<in> set (d_before path @ entries l). fst e < item" "\<forall>e \<in> set (entries r @ d_after path). item < fst e"
    using s by (auto simp: sorted_wrt_append)
  then show ?thesis using that t d p e by (auto simp: lookup_post_def simp del: root_black.simps)
qed

lemma getWeight_ok:
  assumes "pdf_ok root"
  shows "DiscretePDF_getWeight item root = map_of (entries root) item"
proof (cases "item \<in> fst ` set (entries root)")
  case True
  obtain m l r w s path where f: "lookup_loc item (root, []) = (DNode m l r item w s, path)"
    "all_entries (DNode m l r item w s, path) = entries root"
    "\<forall>e \<in> set (d_before path @ entries l). fst e < item"
    using lookup_found [OF assms True] by metis
  have "map_of (d_before path @ entries l) item = None" using f(3) by (auto simp: map_of_eq_None_iff)
  then have "map_of (entries root) item = Some w" unfolding f(2) [symmetric]
    by (simp add: map_add_def split: option.splits)
  then show ?thesis using f(1) by (simp add: DiscretePDF_getWeight_def)
next
  case False
  obtain t path where t: "lookup_loc item (root, []) = (t, path)" by fastforce
  then have "t = Null" using lookup_root [OF assms, of item] False lookup_post_found
    by (cases t) (simp_all, blast)
  moreover have "map_of (entries root) item = None" using False by (simp add: map_of_eq_None_iff)
  ultimately show ?thesis using t by (simp add: DiscretePDF_getWeight_def)
qed

lemma sorted_map_around:
  fixes item :: "'k::linorder"
  shows "sorted_wrt (<) (map fst (xs @ (item, w) # ys)) \<longleftrightarrow> sorted_wrt (<) (map fst (xs @ (item, w') # ys))"
  by simp

lemma pdf_update_ok:
  assumes "pdf_ok root" "item \<in> fst ` set (entries root)"
  shows "\<exists>root'. DiscretePDF_update item weight root = Some root' \<and> pdf_ok root' \<and>
    entries root' = map (\<lambda>(k, w). (k, if k = item then weight else w)) (entries root)"
proof -
  obtain m l r w s path where f: "lookup_loc item (root, []) = (DNode m l r item w s, path)"
    "all_entries (DNode m l r item w s, path) = entries root" "frames_ok path" "sums_ok l" "sums_ok r"
    "root_black (DNode m l r item w s, path)"
    "\<forall>e \<in> set (d_before path @ entries l). fst e < item" "\<forall>e \<in> set (entries r @ d_after path). item < fst e"
    using lookup_found [OF assms] by metis
  let ?t = "DNode m l r item weight s" and ?u = "map (\<lambda>(k, w). (k, if k = item then weight else w))"
  let ?root = "propogateSumsUp (?t, path)"
  have same: "?u xs = xs" if "item \<notin> fst ` set xs" for xs
    using that by (induction xs) auto
  have e: "entries ?root = ?u (entries root)"
    using f(7,8) same [of "d_before path @ entries l"] same [of "entries r @ d_after path"]
    unfolding f(2) [symmetric] by (simp add: propogateSumsUp_ok) force
  have "map fst (?u xs) = map fst xs" for xs by (induction xs) auto
  then have "sorted_wrt (<) (map fst (entries ?root))" using assms(1) unfolding e pdf_ok_def by metis
  moreover have "root_black (?t, path)" using f(6) by (cases path) simp_all
  ultimately show ?thesis using f(1,3-5) e propogateSumsUp_ok [of ?t path]
    by (simp add: DiscretePDF_update_def pdf_ok_def del: root_black.simps)
qed

text \<open>Removal.\<close>

lemma remove_loc_ok:
  assumes "frames_ok path" "sums_ok l" "sums_ok r" "root_black (DNode m l r k w s, path)" "l = Null \<or> r = Null"
  shows "\<exists>root'. remove_loc (DNode m l r k w s, path) = Some root' \<and>
    entries root' = d_before path @ entries l @ entries r @ d_after path \<and> sums_ok root' \<and> isBlack root'"
proof -
  let ?c = "if l \<noteq> Null then l else r"
  have c: "sums_ok ?c" "entries ?c = entries l @ entries r" using assms(2,3,5) by auto
  have "\<exists>t path'. (if ?c \<noteq> Null \<and> \<not> m then lengthen (?c, path) else Some (?c, path)) = Some (t, path') \<and>
    (t = ?c \<or> t = markBlack ?c) \<and> all_entries (t, path') = all_entries (?c, path) \<and> frames_ok path' \<and>
    root_black (t, path') \<and> (path = [] \<longrightarrow> path' = [])"
  proof (cases "?c \<noteq> Null \<and> \<not> m")
    case True
    have "path_black path" using assms(4) by (cases path) (auto split: if_splits)
    then obtain loc' where "lengthen (?c, path) = Some loc'" "lengthen_post (?c, path) loc'"
      using lengthen_ok [OF assms(1), of ?c] by blast
    then show ?thesis using True by (cases loc') (auto simp: lengthen_post_def simp del: all_entries.simps root_black.simps)
  next
    case False
    have "root_black (?c, path)" using assms(4) False by (cases path) auto
    then show ?thesis using False assms(1) by (auto simp del: all_entries.simps root_black.simps)
  qed
  then obtain t path' where r: "(if ?c \<noteq> Null \<and> \<not> m then lengthen (?c, path) else Some (?c, path)) = Some (t, path')"
    "t = ?c \<or> t = markBlack ?c" "all_entries (t, path') = all_entries (?c, path)" "frames_ok path'"
    "root_black (t, path')" by blast
  have t: "sums_ok t" using r(2) c(1) by auto
  let ?root = "case path' of [] \<Rightarrow> t | f # fs \<Rightarrow> propogateSumsUp (plug1 f t, fs)"
  have "entries ?root = all_entries (t, path') \<and> sums_ok ?root \<and> isBlack ?root"
  proof (cases path')
    case (Cons f fs)
    then show ?thesis using propogateSumsUp_ok [of "plug1 f t" fs] r(4,5) t
      by (auto simp: path_black_Cons simp del: all_entries.simps split: if_splits)
  qed (use t r(5) in simp)
  moreover have "remove_loc (DNode m l r k w s, path) = Some ?root"
    using r(1) by (simp add: remove_loc_def Let_def)
  ultimately show ?thesis using r(3) c(2) by auto
qed

text \<open>The largest node of the left subtree.\<close>

lemma left_max_ok:
  assumes "t \<noteq> Null" "sums_ok t" "frames_ok path" "root_black (t, path)"
  shows "\<exists>m l k w s path' xs. left_max (t, path) = (DNode m l Null k w s, path') \<and>
    left_max_entry t = Some (k, w) \<and> entries t = xs @ [(k, w)] \<and>
    d_before path' @ entries l = d_before path @ xs \<and> d_after path' = d_after path \<and>
    frames_ok path' \<and> sums_ok l \<and> root_black (DNode m l Null k w s, path')"
  using assms
proof (induction t arbitrary: path)
  case (DNode m l r k w s)
  show ?case
  proof (cases "r = Null")
    case False
    let ?p = "RightOf m l k w s # path"
    have "frames_ok ?p" "sums_ok r" "root_black (r, ?p)"
      using DNode.prems by (simp_all add: path_black_Cons split: if_splits)
    from DNode.IH(2) [OF False this(2,1,3)] obtain m' l' k' w' s' path' xs where
      "left_max (r, ?p) = (DNode m' l' Null k' w' s', path')" "left_max_entry r = Some (k', w')"
      "entries r = xs @ [(k', w')]" "d_before path' @ entries l' = d_before ?p @ xs" "d_after path' = d_after ?p"
      "frames_ok path'" "sums_ok l'" "root_black (DNode m' l' Null k' w' s', path')" by blast
    then show ?thesis using False
      by (intro exI [of _ m'] exI [of _ l'] exI [of _ k'] exI [of _ w'] exI [of _ s'] exI [of _ path']
        exI [of _ "entries l @ (k, w) # xs"]) (simp del: root_black.simps)
  qed (use DNode.prems in \<open>simp del: root_black.simps\<close>)
qed simp

lemma pdf_remove_ok:
  assumes ok: "pdf_ok root" and mem: "item \<in> fst ` set (entries root)"
  shows "\<exists>root'. DiscretePDF_remove item root = Some root' \<and> pdf_ok root' \<and>
    entries root' = [e \<leftarrow> entries root. fst e \<noteq> item]"
proof -
  obtain m l r w s path where f: "lookup_loc item (root, []) = (DNode m l r item w s, path)"
    "all_entries (DNode m l r item w s, path) = entries root" "frames_ok path" "sums_ok l" "sums_ok r"
    "root_black (DNode m l r item w s, path)"
    "\<forall>e \<in> set (d_before path @ entries l). fst e < item" "\<forall>e \<in> set (entries r @ d_after path). item < fst e"
    using lookup_found [OF assms] by metis
  have "\<exists>root'. DiscretePDF_remove item root = Some root' \<and>
    entries root' = d_before path @ entries l @ entries r @ d_after path \<and> sums_ok root' \<and> isBlack root'"
  proof (cases "l = Null")
    case True
    then show ?thesis using remove_loc_ok [OF f(3-6)] f(1) by (simp add: DiscretePDF_remove_def)
  next
    case False
    have fr: "frames_ok (LeftOf m r k w s # path)" "root_black (l, LeftOf m r k w s # path)" for k w
      using f(3,5,6) by (simp_all add: path_black_Cons split: if_splits)
    obtain k' w' where kw: "left_max_entry l = Some (k', w')"
      using left_max_ok [OF False f(4) fr, of item w] by blast
    obtain m1 l1 s1 path1 xs where x: "left_max (l, LeftOf m r k' w' s # path) = (DNode m1 l1 Null k' w' s1, path1)"
      "entries l = xs @ [(k', w')]" "d_before path1 @ entries l1 = d_before path @ xs"
      "d_after path1 = (k', w') # entries r @ d_after path" "frames_ok path1" "sums_ok l1"
      "root_black (DNode m1 l1 Null k' w' s1, path1)"
      using left_max_ok [OF False f(4) fr, of k' w'] kw by auto
    have "d_before path1 @ entries l1 @ d_after path1 = d_before path @ entries l @ entries r @ d_after path"
      using x(2-4) by (metis append.assoc append_Cons append_Nil)
    then show ?thesis using remove_loc_ok [OF x(5,6) _ x(7)] f(1) kw x(1) False
      by (simp add: DiscretePDF_remove_def del: root_black.simps)
  qed
  moreover have "[e \<leftarrow> entries root. fst e \<noteq> item] = d_before path @ entries l @ entries r @ d_after path"
  proof -
    have "[e \<leftarrow> d_before path @ entries l. fst e \<noteq> item] = d_before path @ entries l"
      "[e \<leftarrow> entries r @ d_after path. fst e \<noteq> item] = entries r @ d_after path"
      using f(7,8) by (intro filter_True; force)+
    then show ?thesis unfolding f(2) [symmetric] by simp
  qed
  moreover have "sorted_wrt (<) (map fst [e \<leftarrow> entries root. fst e \<noteq> item])"
    using ok by (simp add: pdf_ok_def sorted_wrt_map sorted_wrt_filter)
  ultimately show ?thesis by (auto simp: pdf_ok_def)
qed

section \<open>Drawing an item\<close>

text \<open>For any weights, \<open>choose\<close> on a non-empty tree returns one of its items.\<close>

lemma choose_loop_mem: "t \<noteq> Null \<Longrightarrow> \<exists>k. choose_loop w t = Some k \<and> k \<in> fst ` set (entries t)"
proof (induction t arbitrary: w)
  case (DNode m l r k wt s)
  consider (none) "sumWeights l = None" | (some) ls where "sumWeights l = Some ls" by fastforce
  then show ?case
  proof cases
    case none
    then show ?thesis using DNode.IH(2) [of "w - wt"] by (auto simp: rev_image_eqI)
  next
    case some
    then have "l \<noteq> Null" by (cases l) auto
    then show ?thesis using some DNode.IH(1) [of w] DNode.IH(2) [of "w - ls - wt"]
      by (auto simp: rev_image_eqI)
  qed
qed simp

lemma choose_ok:
  "root \<noteq> Null \<Longrightarrow> \<not> (p < 0 \<or> 1 \<le> p) \<Longrightarrow>
     \<exists>k. DiscretePDF_choose p root = Some k \<and> k \<in> fst ` set (entries root)"
  using choose_loop_mem [of root "the (sumWeights root) * p"]
  by (cases root) (simp_all add: DiscretePDF_choose_def del: choose_loop.simps)

text \<open>
  With exact arithmetic and weights that are not negative, \<open>choose\<close> divides the interval
  from 0 to the total weight among the items in order, each with the length of its weight.
\<close>

definition total_weight :: "('k \<times> 'w::comm_monoid_add) list \<Rightarrow> 'w" where
  "total_weight es = sum_list (map snd es)"

lemma total_simps [simp]: "total_weight [] = 0" "total_weight (e # es) = snd e + total_weight es" "total_weight (xs @ ys) = total_weight xs + total_weight ys"
  by (simp_all add: total_weight_def)

lemma sumWeights_total:
  fixes t :: "('k, 'w::linordered_idom) dtree"
  shows "sums_ok t \<Longrightarrow> sumWeights t = (if t = Null then None else Some (total_weight (entries t)))"
proof (induction t)
  case (DNode m l r k w s)
  then show ?case by (simp add: add_sum_def)
qed simp

lemma choose_loop_interval:
  fixes t :: "('k, 'w::linordered_idom) dtree"
  assumes "sums_ok t" "t \<noteq> Null" "0 \<le> w" "w < total_weight (entries t)"
  shows "\<exists>xs k wt ys. entries t = xs @ (k, wt) # ys \<and> choose_loop w t = Some k \<and> total_weight xs \<le> w \<and> w < total_weight xs + wt"
  using assms
proof (induction t arbitrary: w)
  case (DNode m l r k wt s)
  let ?s = "total_weight (entries l)"
  have sl: "sumWeights l = (if l = Null then None else Some ?s)" using DNode.prems(1) sumWeights_total [of l] by simp
  show ?case
  proof (cases "l \<noteq> Null \<and> w < ?s")
    case True
    then obtain xs k' wt' ys where "entries l = xs @ (k', wt') # ys" "choose_loop w l = Some k'" "total_weight xs \<le> w"
      "w < total_weight xs + wt'"
      using DNode.IH(1) [of w] DNode.prems by auto
    then show ?thesis using True sl by (intro exI [of _ xs] exI [of _ k'] exI [of _ wt'] exI [of _ "ys @ (k, wt) # entries r"]) auto
  next
    case left: False
    then have ge: "?s \<le> w" using DNode.prems(3) by (cases "l = Null") auto
    show ?thesis
    proof (cases "w - ?s < wt \<or> r = Null")
      case True
      have "w < ?s + wt" using True DNode.prems(4) by (auto simp: algebra_simps)
      then show ?thesis using True left ge sl
        by (intro exI [of _ "entries l"] exI [of _ k] exI [of _ wt] exI [of _ "entries r"]) auto
    next
      case False
      then obtain xs k' wt' ys where "entries r = xs @ (k', wt') # ys" "choose_loop (w - ?s - wt) r = Some k'"
        "total_weight xs \<le> w - ?s - wt" "w - ?s - wt < total_weight xs + wt'"
        using DNode.IH(2) [of "w - ?s - wt"] DNode.prems by (auto simp: algebra_simps)
      then show ?thesis using False left sl
        by (intro exI [of _ "entries l @ (k, wt) # xs"] exI [of _ k'] exI [of _ wt'] exI [of _ ys])
          (auto simp: algebra_simps)
    qed
  qed
qed simp

end
