(* ===== verification/SearcherSound.thy ===== *)
theory SearcherSound
  imports Searcher DiscretePDFSound
begin

text \<open>
  What a searcher promises the executor. \<open>tracks S s\<close> says that the searcher \<open>s\<close> schedules
  exactly the states \<open>S\<close>. As long as there are states, \<open>selectState\<close> returns one of them,
  and \<open>update\<close> tracks the set with the added states in and the removed ones out, for
  every composition of searchers that \<open>constructUserSearcher\<close> can build, apart from
  iterative deepening over a random-path searcher, which does not keep the promise.
\<close>

section \<open>Lists of states\<close>

lemma erase_first_eq: "erase_first e xs = (if e \<in> set xs then Some (remove1 e xs) else None)"
  by (induction xs) auto

lemma erase_first_ok:
  "distinct xs \<Longrightarrow> e \<in> set xs \<Longrightarrow> \<exists>ys. erase_first e xs = Some ys \<and> distinct ys \<and> set ys = set xs - {e}"
  by (simp add: erase_first_eq distinct_remove1 set_remove1_eq)

lemma random_remove_ok:
  "distinct xs \<Longrightarrow> distinct es \<Longrightarrow> set es \<subseteq> set xs \<Longrightarrow>
     \<exists>ys. random_remove xs es = Some ys \<and> distinct ys \<and> set ys = set xs - set es"
proof (induction es arbitrary: xs)
  case (Cons e es)
  obtain ys where ys: "erase_first e xs = Some ys" "distinct ys" "set ys = set xs - {e}"
    using erase_first_ok Cons.prems by (metis list.set_intros(1) subsetD)
  obtain zs where "random_remove ys es = Some zs" "distinct zs" "set zs = set ys - set es"
    using Cons.IH [OF ys(2)] Cons.prems ys(3) by auto
  then show ?case using ys by auto
qed simp

lemma butlast_set: "distinct xs \<Longrightarrow> xs \<noteq> [] \<Longrightarrow> distinct (butlast xs) \<and> set (butlast xs) = set xs - {last xs}"
  by (induction xs rule: rev_induct) auto

lemma dfs_remove_ok:
  "distinct xs \<Longrightarrow> distinct es \<Longrightarrow> set es \<subseteq> set xs \<Longrightarrow>
     \<exists>ys. dfs_remove xs es = Some ys \<and> distinct ys \<and> set ys = set xs - set es"
proof (induction es arbitrary: xs)
  case (Cons e es)
  have ne: "xs \<noteq> []" and e: "e \<in> set xs" using Cons.prems by auto
  obtain ys where ys: "(if e = last xs then Some (butlast xs) else erase_first e xs) = Some ys" "distinct ys"
    "set ys = set xs - {e}"
    using erase_first_ok [OF Cons.prems(1) e] butlast_set [OF Cons.prems(1) ne] by (cases "e = last xs") auto
  obtain zs where "dfs_remove ys es = Some zs" "distinct zs" "set zs = set ys - set es"
    using Cons.IH [OF ys(2)] Cons.prems ys(3) by auto
  then show ?case using ys ne by auto
qed simp

lemma bfs_remove_ok:
  "distinct xs \<Longrightarrow> distinct es \<Longrightarrow> set es \<subseteq> set xs \<Longrightarrow>
     \<exists>ys. bfs_remove xs es = Some ys \<and> distinct ys \<and> set ys = set xs - set es"
proof (induction es arbitrary: xs)
  case (Cons e es)
  have ne: "xs \<noteq> []" and e: "e \<in> set xs" using Cons.prems by auto
  have hd: "distinct (tl xs) \<and> set (tl xs) = set xs - {hd xs}" using Cons.prems(1) ne by (cases xs) auto
  obtain ys where ys: "(if e = hd xs then Some (tl xs) else erase_first e xs) = Some ys" "distinct ys"
    "set ys = set xs - {e}"
    using erase_first_ok [OF Cons.prems(1) e] hd by (cases "e = hd xs") auto
  obtain zs where "bfs_remove ys es = Some zs" "distinct zs" "set zs = set ys - set es"
    using Cons.IH [OF ys(2)] Cons.prems ys(3) by auto
  then show ?case using ys ne by auto
qed simp

text \<open>The conditions on the arguments of an update of a searcher that tracks \<open>S\<close>.\<close>

definition update_pre :: "'e set \<Rightarrow> 'e option \<Rightarrow> 'e list \<Rightarrow> 'e list \<Rightarrow> bool" where
  "update_pre S current added removed \<longleftrightarrow>
     finite S \<and> (\<forall>c. current = Some c \<longrightarrow> c \<in> S) \<and> distinct added \<and> set added \<inter> S = {} \<and>
     distinct removed \<and> set removed \<subseteq> S \<union> set added"

definition after :: "'e set \<Rightarrow> 'e list \<Rightarrow> 'e list \<Rightarrow> 'e set" where
  "after S added removed = (S \<union> set added) - set removed"

lemma DFS_update_ok:
  assumes "distinct xs" "update_pre (set xs) c added removed"
  shows "\<exists>ys. DFS_update xs added removed = Some ys \<and> distinct ys \<and> set ys = after (set xs) added removed"
  using dfs_remove_ok [of "xs @ added" removed] assms
  by (auto simp: DFS_update_def update_pre_def after_def)

lemma Random_update_ok:
  assumes "distinct xs" "update_pre (set xs) c added removed"
  shows "\<exists>ys. Random_update xs added removed = Some ys \<and> distinct ys \<and> set ys = after (set xs) added removed"
  using random_remove_ok [of "xs @ added" removed] assms
  by (auto simp: Random_update_def update_pre_def after_def)

lemma BFS_update_ok:
  assumes "distinct xs" "update_pre (set xs) c added removed"
  shows "\<exists>ys. BFS_update xs c added removed = Some ys \<and> distinct ys \<and> set ys = after (set xs) added removed"
proof -
  have "\<exists>zs. (case c of None \<Rightarrow> Some xs
       | Some c \<Rightarrow> if added \<noteq> [] \<and> c \<notin> set removed
             then do { xs \<leftarrow> erase_first c xs; Some (xs @ [c]) } else Some xs) = Some zs \<and>
      distinct zs \<and> set zs = set xs"
  proof (cases c)
    case (Some e)
    then have "e \<in> set xs" using assms(2) by (simp add: update_pre_def)
    then obtain ys where "erase_first e xs = Some ys" "distinct ys" "set ys = set xs - {e}"
      using erase_first_ok [OF assms(1)] by blast
    then show ?thesis using Some \<open>e \<in> set xs\<close> assms(1) by auto
  qed (use assms(1) in simp)
  then obtain zs where zs: "(case c of None \<Rightarrow> Some xs
       | Some c \<Rightarrow> if added \<noteq> [] \<and> c \<notin> set removed
             then do { xs \<leftarrow> erase_first c xs; Some (xs @ [c]) } else Some xs) = Some zs"
      "distinct zs" "set zs = set xs" by blast
  then obtain ys where "bfs_remove (zs @ added) removed = Some ys" "distinct ys"
      "set ys = set (zs @ added) - set removed"
    using bfs_remove_ok [of "zs @ added" removed] assms(2) by (auto simp: update_pre_def)
  then show ?thesis using zs by (simp add: BFS_update_def after_def)
qed

section \<open>The weighted store\<close>

text \<open>The operations \<open>WeightedRandomSearcher\<close> calls, and what it relies on.\<close>

locale weighted_store =
  fixes inv :: "'t \<Rightarrow> bool" and new :: 't and keys :: "'t \<Rightarrow> 'e set"
    and ins :: "'e \<Rightarrow> 'w \<Rightarrow> 't \<Rightarrow> 't option" and upd :: "'e \<Rightarrow> 'w \<Rightarrow> 't \<Rightarrow> 't option"
    and rm :: "'e \<Rightarrow> 't \<Rightarrow> 't option"
  assumes new: "inv new" "keys new = {}"
    and ins: "inv t \<Longrightarrow> e \<notin> keys t \<Longrightarrow> \<exists>t'. ins e x t = Some t' \<and> inv t' \<and> keys t' = insert e (keys t)"
    and upd: "inv t \<Longrightarrow> e \<in> keys t \<Longrightarrow> \<exists>t'. upd e x t = Some t' \<and> inv t' \<and> keys t' = keys t"
    and rm: "inv t \<Longrightarrow> e \<in> keys t \<Longrightarrow> \<exists>t'. rm e t = Some t' \<and> inv t' \<and> keys t' = keys t - {e}"
begin

fun insert_all :: "('e \<Rightarrow> 'w) \<Rightarrow> 't \<Rightarrow> 'e list \<Rightarrow> 't option" where
  "insert_all wt t [] = Some t"
| "insert_all wt t (e # es) = do { t' \<leftarrow> ins e (wt e) t; insert_all wt t' es }"

fun remove_all :: "'t \<Rightarrow> 'e list \<Rightarrow> 't option" where
  "remove_all t [] = Some t"
| "remove_all t (e # es) = do { t' \<leftarrow> rm e t; remove_all t' es }"

lemma insert_all_ok:
  "inv t \<Longrightarrow> distinct es \<Longrightarrow> set es \<inter> keys t = {} \<Longrightarrow>
     \<exists>t'. insert_all wt t es = Some t' \<and> inv t' \<and> keys t' = keys t \<union> set es"
proof (induction es arbitrary: t)
  case (Cons e es)
  obtain t1 where t1: "ins e (wt e) t = Some t1" "inv t1" "keys t1 = insert e (keys t)"
    using ins [OF Cons.prems(1), of e "wt e"] Cons.prems(3) by auto
  obtain t2 where "insert_all wt t1 es = Some t2" "inv t2" "keys t2 = keys t1 \<union> set es"
    using Cons.IH [OF t1(2)] Cons.prems t1(3) by auto
  then show ?case using t1 by auto
qed simp

lemma remove_all_ok:
  "inv t \<Longrightarrow> distinct es \<Longrightarrow> set es \<subseteq> keys t \<Longrightarrow>
     \<exists>t'. remove_all t es = Some t' \<and> inv t' \<and> keys t' = keys t - set es"
proof (induction es arbitrary: t)
  case (Cons e es)
  obtain t1 where t1: "rm e t = Some t1" "inv t1" "keys t1 = keys t - {e}"
    using rm [OF Cons.prems(1), of e] Cons.prems(3) by auto
  obtain t2 where "remove_all t1 es = Some t2" "inv t2" "keys t2 = keys t1 - set es"
    using Cons.IH [OF t1(2)] Cons.prems t1(3) by auto
  then show ?case using t1 by auto
qed simp

end

definition pdf_keys :: "('k, 'w) dtree \<Rightarrow> 'k set" where
  "pdf_keys t = fst ` set (entries t)"

lemma pdf_ins:
  assumes "pdf_ok t" "e \<notin> pdf_keys t"
  shows "\<exists>t'. DiscretePDF_insert e x t = Some t' \<and> pdf_ok t' \<and> pdf_keys t' = insert e (pdf_keys t)"
proof -
  obtain t' where t': "DiscretePDF_insert e x t = Some t'" "pdf_ok t'"
    "entries t' = [p \<leftarrow> entries t. fst p < e] @ (e, x) # [p \<leftarrow> entries t. e < fst p]"
    using pdf_insert_ok [of t e x] assms by (auto simp: pdf_keys_def)
  have ne: "fst p < e \<or> e < fst p" if "p \<in> set (entries t)" for p
    using assms(2) that by (metis image_eqI neqE pdf_keys_def)
  have "set [p \<leftarrow> entries t. fst p < e] \<union> set [p \<leftarrow> entries t. e < fst p] = set (entries t)"
    using ne by auto
  then have "pdf_keys t' = insert e (pdf_keys t)"
    unfolding pdf_keys_def t'(3) by (simp only: set_append list.set(2) image_Un image_insert fst_conv) blast
  then show ?thesis using t' by blast
qed

lemma pdf_upd:
  assumes "pdf_ok t" "e \<in> pdf_keys t"
  shows "\<exists>t'. DiscretePDF_update e x t = Some t' \<and> pdf_ok t' \<and> pdf_keys t' = pdf_keys t"
proof -
  obtain t' where t': "DiscretePDF_update e x t = Some t'" "pdf_ok t'"
    "entries t' = map (\<lambda>(k, w). (k, if k = e then x else w)) (entries t)"
    using pdf_update_ok [of t e x] assms by (auto simp: pdf_keys_def)
  have "fst ` set (map (\<lambda>(k, w). (k, if k = e then x else w)) es) = fst ` set es" for es
    by (induction es) auto
  then show ?thesis using t' by (simp add: pdf_keys_def)
qed

lemma pdf_rm:
  assumes "pdf_ok t" "e \<in> pdf_keys t"
  shows "\<exists>t'. DiscretePDF_remove e t = Some t' \<and> pdf_ok t' \<and> pdf_keys t' = pdf_keys t - {e}"
proof -
  obtain t' where t': "DiscretePDF_remove e t = Some t'" "pdf_ok t'" "entries t' = [p \<leftarrow> entries t. fst p \<noteq> e]"
    using pdf_remove_ok [of t e] assms by (auto simp: pdf_keys_def)
  then have "pdf_keys t' = pdf_keys t - {e}" by (auto simp: pdf_keys_def)
  then show ?thesis using t' by blast
qed

interpretation pdf: weighted_store "pdf_ok :: ('k::linorder, 'w::{plus,zero}) dtree \<Rightarrow> bool" Null pdf_keys
  DiscretePDF_insert DiscretePDF_update DiscretePDF_remove
  by unfold_locales (simp_all add: pdf_ins pdf_upd pdf_rm, simp_all add: pdf_ok_def pdf_keys_def)

lemma wr_insert_eq: "wr_insert wt t es = pdf.insert_all wt t es"
  by (induction es arbitrary: t) (simp_all add: pdf.insert_all.simps)

lemma wr_remove_eq: "wr_remove t es = pdf.remove_all t es"
  by (induction es arbitrary: t) (simp_all add: pdf.remove_all.simps)

lemma WeightedRandom_update_ok:
  assumes "pdf_ok t" "update_pre (pdf_keys t) c added removed"
  shows "\<exists>t'. WeightedRandom_update wt t uw c added removed = Some t' \<and> pdf_ok t' \<and>
    pdf_keys t' = after (pdf_keys t) added removed"
proof -
  have "\<exists>t1. (case c of None \<Rightarrow> Some t
     | Some c \<Rightarrow> if uw \<and> c \<notin> set removed then DiscretePDF_update c (wt c) t else Some t) = Some t1 \<and>
    pdf_ok t1 \<and> pdf_keys t1 = pdf_keys t"
    using assms pdf.upd [OF assms(1)] by (auto simp: update_pre_def split: option.split)
  then obtain t1 where t1: "(case c of None \<Rightarrow> Some t
     | Some c \<Rightarrow> if uw \<and> c \<notin> set removed then DiscretePDF_update c (wt c) t else Some t) = Some t1"
    "pdf_ok t1" "pdf_keys t1 = pdf_keys t" by blast
  obtain t2 where t2: "wr_insert wt t1 added = Some t2" "pdf_ok t2" "pdf_keys t2 = pdf_keys t1 \<union> set added"
    using pdf.insert_all_ok [OF t1(2), of added wt] assms(2) t1(3) by (auto simp: update_pre_def wr_insert_eq)
  obtain t3 where "wr_remove t2 removed = Some t3" "pdf_ok t3" "pdf_keys t3 = pdf_keys t2 - set removed"
    using pdf.remove_all_ok [OF t2(2), of removed] assms(2) t1(3) t2(3) by (auto simp: update_pre_def wr_remove_eq)
  then show ?thesis using t1 t2 by (simp add: WeightedRandom_update_def after_def)
qed

section \<open>The feature searcher\<close>

lemma esw_set_map: "sorted_wrt (<) (map fst m) \<Longrightarrow>
    sorted_wrt (<) (map fst (esw_set e x m)) \<and> set (esw_set e x m) = insert (e, x) {p \<in> set m. fst p \<noteq> e}"
proof (induction m)
  case (Cons p m)
  obtain f y where p: "p = (f, y)" by (cases p)
  have s: "sorted_wrt (<) (map fst m)" "\<forall>q \<in> set m. f < fst q" using Cons.prems p by simp_all
  consider "e < f" | "e = f" | "f < e" by fastforce
  then show ?case
  proof cases
    case 1
    then have "\<forall>q \<in> set m. e < fst q" using s(2) less_trans by blast
    then show ?thesis using 1 Cons.prems p by auto
  next
    case 2
    then show ?thesis using s p by auto
  next
    case 3
    then have "esw_set e x (p # m) = (f, y) # esw_set e x m" using p by auto
    then show ?thesis using 3 Cons.IH [OF s(1)] s p by auto
  qed
qed simp

lemma esw_erase_map: "sorted_wrt (<) (map fst m) \<Longrightarrow>
    sorted_wrt (<) (map fst (esw_erase e m)) \<and> set (esw_erase e m) = {p \<in> set m. fst p \<noteq> e}"
  by (induction m) (auto simp: esw_erase_def)

definition line_score :: "'e auto_feature \<Rightarrow> string \<Rightarrow> rat" where
  "line_score a l = (case af_feature_map a (abstractCond l) of None \<Rightarrow> 0 | Some i \<Rightarrow> af_weights a ! i)"

text \<open>The score of a state: the weights of the features of its constraints.\<close>

definition score :: "'e world \<Rightarrow> 'e auto_feature \<Rightarrow> 'e \<Rightarrow> rat" where
  "score w a es = (\<Sum>l \<leftarrow> lines_of (w_constraints w es). line_score a l)"

definition features_ok :: "'e auto_feature \<Rightarrow> bool" where
  "features_ok a \<longleftrightarrow> (\<forall>l i. af_feature_map a l = Some i \<longrightarrow> i < length (af_weights a))"

definition same_features :: "'e auto_feature \<Rightarrow> 'e auto_feature \<Rightarrow> bool" where
  "same_features a a' \<longleftrightarrow> af_feature_map a' = af_feature_map a \<and> af_weights a' = af_weights a"

definition same_world :: "'e world \<Rightarrow> 'e world \<Rightarrow> bool" where
  "same_world w w' \<longleftrightarrow>
     w_tree w' = w_tree w \<and> w_states w' = w_states w \<and> w_constraints w' = w_constraints w \<and>
     w_info w' = w_info w \<and> (rng_ok (w_rng w) \<longrightarrow> rng_ok (w_rng w'))"

lemma same_world_refl [simp]: "same_world w w"
  by (simp add: same_world_def)

lemma same_world_trans: "same_world w w1 \<Longrightarrow> same_world w1 w2 \<Longrightarrow> same_world w w2"
  by (simp add: same_world_def)

lemma same_features_refl [simp]: "same_features a a"
  by (simp add: same_features_def)

lemma same_features_trans: "same_features a b \<Longrightarrow> same_features b c \<Longrightarrow> same_features a c"
  by (simp add: same_features_def)

lemma same_features_score: "same_features a a' \<Longrightarrow> same_world w w' \<Longrightarrow> score w' a' es = score w a es"
  by (simp add: score_def line_score_def same_features_def same_world_def cong: option.case_cong)

lemma features_ok_same: "same_features a a' \<Longrightarrow> features_ok a \<Longrightarrow> features_ok a'"
  by (simp add: features_ok_def same_features_def)

lemma feature_loop_ok:
  "features_ok a \<Longrightarrow> \<exists>E. feature_loop a ls x = Some (x + (\<Sum>l \<leftarrow> ls. line_score a l), a\<lparr>af_encountered := E\<rparr>)"
proof (induction ls arbitrary: a x)
  case Nil
  then show ?case by (intro exI [of _ "af_encountered a"]) simp
next
  case (Cons l ls)
  show ?case
  proof (cases "af_feature_map a (abstractCond l)")
    case None
    then show ?thesis using Cons.IH [OF Cons.prems, of x] by (simp add: line_score_def)
  next
    case (Some i)
    then have i: "i < length (af_weights a)" using Cons.prems by (simp add: features_ok_def)
    let ?a = "a\<lparr>af_encountered := insert i (af_encountered a)\<rparr>"
    have "features_ok ?a" using Cons.prems by (simp add: features_ok_def)
    from Cons.IH [OF this, of "x + af_weights a ! i"] obtain E where
      "feature_loop ?a ls (x + af_weights a ! i) =
        Some (x + af_weights a ! i + (\<Sum>l \<leftarrow> ls. line_score ?a l), ?a\<lparr>af_encountered := E\<rparr>)" by blast
    moreover have "line_score ?a = line_score a" 
      by (simp add: line_score_def fun_eq_iff cong: option.case_cong)
    ultimately show ?thesis using Some i by (auto simp: nth_opt_def line_score_def add.assoc)
  qed
qed

lemma getWeight_score:
  assumes "features_ok a"
  shows "\<exists>a' w'. AutoFeature_getWeight w a es = Some (score w a es, a', w') \<and> same_features a a' \<and> same_world w w' \<and>
    af_states a' = af_states a \<and> af_EsWeightMap a' = af_EsWeightMap a \<and>
    af_updateFeatureMap a' = af_updateFeatureMap a \<and> af_selectedState a' = af_selectedState a"
proof -
  obtain E where "feature_loop a (lines_of (w_constraints w es)) 0 = Some (score w a es, a\<lparr>af_encountered := E\<rparr>)"
    using feature_loop_ok [OF assms, of "lines_of (w_constraints w es)" 0] by (auto simp: score_def)
  then show ?thesis by (simp add: AutoFeature_getWeight_def same_features_def same_world_def)
qed

definition scores_high :: "'e world \<Rightarrow> 'e auto_feature \<Rightarrow> bool" where
  "scores_high w a \<longleftrightarrow> (\<forall>e. score w a e > - 100000000)"

definition map_ok :: "'e::linorder set \<Rightarrow> ('e \<times> rat) list \<Rightarrow> bool" where
  "map_ok S m \<longleftrightarrow> sorted_wrt (<) (map fst m) \<and> fst ` set m = S \<and> (\<forall>p \<in> set m. snd p > - 100000000)"

definition af_ok :: "'e::linorder set \<Rightarrow> 'e auto_feature \<Rightarrow> bool" where
  "af_ok S a \<longleftrightarrow> distinct (af_states a) \<and> set (af_states a) = S \<and> map_ok S (af_EsWeightMap a) \<and> features_ok a"

lemma map_ok_set: "map_ok S m \<Longrightarrow> x > - 100000000 \<Longrightarrow> map_ok (insert e S) (esw_set e x m)"
  using esw_set_map [of m e x] by (auto simp: map_ok_def)

lemma map_ok_erase: "map_ok S m \<Longrightarrow> map_ok (S - {e}) (esw_erase e m)"
  using esw_erase_map [of m e] by (auto simp: map_ok_def)

lemma af_add_ok:
  "af_ok S a \<Longrightarrow> scores_high w a \<Longrightarrow> distinct es \<Longrightarrow> set es \<inter> S = {} \<Longrightarrow>
     \<exists>a' w'. af_add w a es = Some (a', w') \<and> af_ok (S \<union> set es) a' \<and> same_features a a' \<and> same_world w w'"
proof (induction es arbitrary: S a w)
  case (Cons e es)
  have f: "features_ok a" using Cons.prems(1) by (simp add: af_ok_def)
  obtain a1 w1 where g: "AutoFeature_getWeight w a e = Some (score w a e, a1, w1)" "same_features a a1" "same_world w w1"
    "af_states a1 = af_states a" "af_EsWeightMap a1 = af_EsWeightMap a"
    using getWeight_score [OF f] by metis
  let ?a = "a1\<lparr>af_EsWeightMap := esw_set e (score w a e) (af_EsWeightMap a1), af_states := af_states a1 @ [e]\<rparr>"
  have sf: "same_features a ?a" using g(2) by (simp add: same_features_def)
  have "af_ok (insert e S) ?a"
    using Cons.prems map_ok_set [of S "af_EsWeightMap a" "score w a e" e] g(4,5) features_ok_same [OF sf f]
    by (auto simp: af_ok_def scores_high_def)
  moreover have "scores_high w1 ?a"
    using Cons.prems(2) same_features_score [OF sf g(3)] by (simp add: scores_high_def)
  ultimately obtain a' w' where "af_add w1 ?a es = Some (a', w')" "af_ok (insert e S \<union> set es) a'"
    "same_features ?a a'" "same_world w1 w'"
    using Cons.IH [of "insert e S" ?a w1] Cons.prems by auto
  then show ?case using g(1,3) sf same_features_trans same_world_trans by fastforce
qed simp

lemma af_remove_ok:
  "af_ok S a \<Longrightarrow> distinct es \<Longrightarrow> set es \<subseteq> S \<Longrightarrow>
     \<exists>a'. af_remove a es = Some a' \<and> af_ok (S - set es) a' \<and> same_features a a'"
proof (induction es arbitrary: S a)
  case (Cons e es)
  obtain xs where xs: "erase_first e (af_states a) = Some xs" "distinct xs" "set xs = S - {e}"
    using erase_first_ok [of "af_states a" e] Cons.prems by (auto simp: af_ok_def)
  let ?a = "a\<lparr>af_states := xs, af_EsWeightMap := esw_erase e (af_EsWeightMap a)\<rparr>"
  have ok: "af_ok (S - {e}) ?a"
    using xs Cons.prems(1) map_ok_erase by (auto simp: af_ok_def features_ok_def)
  obtain a' where "af_remove ?a es = Some a'" "af_ok (S - {e} - set es) a'" "same_features ?a a'"
    using Cons.IH [OF ok] Cons.prems by auto
  moreover have "S - {e} - set es = S - set (e # es)" by auto
  ultimately show ?case using xs(1) by (simp add: same_features_def)
qed simp

lemma AutoFeature_update_ok:
  assumes ok: "af_ok S a" and pre: "update_pre S c added removed" and hi: "scores_high w a"
  shows "\<exists>a' w'. AutoFeature_update w a c added removed = Some (a', w') \<and> af_ok (after S added removed) a' \<and>
    same_features a a' \<and> same_world w w' \<and> (af_updateFeatureMap a' \<longleftrightarrow> 10 \<le> card (after S added removed))"
proof -
  have f: "features_ok a" using ok by (simp add: af_ok_def)
  have "\<exists>a1 w1. (case c of None \<Rightarrow> Some (a, w)
       | Some c \<Rightarrow> if w_updated w c then
               do { (x, a', w') \<leftarrow> AutoFeature_getWeight w a c;
                    Some (a'\<lparr>af_EsWeightMap := esw_set c x (af_EsWeightMap a')\<rparr>, w') }
             else Some (a, w)) = Some (a1, w1) \<and> af_ok S a1 \<and> same_features a a1 \<and> same_world w w1"
  proof (cases "\<exists>e. c = Some e \<and> w_updated w e")
    case True
    then obtain e where e: "c = Some e" "w_updated w e" by blast
    obtain a1 w1 where g: "AutoFeature_getWeight w a e = Some (score w a e, a1, w1)" "same_features a a1" "same_world w w1"
      "af_states a1 = af_states a" "af_EsWeightMap a1 = af_EsWeightMap a"
      using getWeight_score [OF f] by metis
    have "insert e S = S" using pre e by (auto simp: update_pre_def)
    then have "map_ok S (esw_set e (score w a e) (af_EsWeightMap a))"
      using map_ok_set [of S "af_EsWeightMap a" "score w a e" e] ok hi by (simp add: af_ok_def scores_high_def)
    then show ?thesis using e g ok features_ok_same [OF g(2) f]
      by (auto simp: af_ok_def same_features_def features_ok_def)
  qed (use ok in \<open>auto split: option.split\<close>)
  then obtain a1 w1 where s1: "(case c of None \<Rightarrow> Some (a, w)
       | Some c \<Rightarrow> if w_updated w c then
               do { (x, a', w') \<leftarrow> AutoFeature_getWeight w a c;
                    Some (a'\<lparr>af_EsWeightMap := esw_set c x (af_EsWeightMap a')\<rparr>, w') }
             else Some (a, w)) = Some (a1, w1)" "af_ok S a1" "same_features a a1" "same_world w w1" by blast
  have "scores_high w1 a1" using hi same_features_score [OF s1(3,4)] by (simp add: scores_high_def)
  then obtain a2 w2 where s2: "af_add w1 a1 added = Some (a2, w2)" "af_ok (S \<union> set added) a2"
    "same_features a1 a2" "same_world w1 w2"
    using af_add_ok [OF s1(2) \<open>scores_high w1 a1\<close>, of added] pre
    by (auto simp only: update_pre_def simp_thms Int_commute)
  obtain a3 where s3: "af_remove a2 removed = Some a3" "af_ok (after S added removed) a3" "same_features a2 a3"
    using af_remove_ok [OF s2(2), of removed] pre by (auto simp: update_pre_def after_def)
  let ?a = "a3\<lparr>af_updateFeatureMap := (10 \<le> length (af_states a3))\<rparr>"
  have "AutoFeature_update w a c added removed = Some (?a, w2)"
    using s1(1) s2(1) s3(1) by (simp add: AutoFeature_update_def)
  moreover have "af_ok (after S added removed) ?a" using s3(2) by (simp add: af_ok_def features_ok_def)
  moreover have "same_features a ?a" using s1(3) s2(3) s3(3) by (simp add: same_features_def)
  moreover have "length (af_states a3) = card (after S added removed)"
    using s3(2) distinct_card [of "af_states a3"] by (simp add: af_ok_def)
  ultimately show ?thesis using same_world_trans [OF s1(4) s2(4)] by auto
qed

text \<open>The scan keeps the first state with the highest score above the start.\<close>

lemma top_score_low: "\<forall>q \<in> set m. snd q \<le> hi \<Longrightarrow> top_score m hi sel = sel"
  by (induction m) auto

definition best_entry :: "('e::linorder \<times> rat) list \<Rightarrow> 'e \<Rightarrow> rat \<Rightarrow> bool" where
  "best_entry m e x \<longleftrightarrow> (e, x) \<in> set m \<and> (\<forall>q \<in> set m. snd q < x \<or> (snd q = x \<and> e \<le> fst q))"

lemma top_score_ok:
  "\<exists>p \<in> set m. snd p > hi \<Longrightarrow> sorted_wrt (<) (map fst m) \<Longrightarrow>
     \<exists>e x. top_score m hi sel = Some e \<and> best_entry m e x"
proof (induction m arbitrary: hi sel)
  case (Cons p m)
  obtain f y where p: "p = (f, y)" by (cases p)
  have s: "sorted_wrt (<) (map fst m)" "\<forall>q \<in> set m. f < fst q" using Cons.prems(2) p by simp_all
  consider (more) "y > hi" "\<exists>q \<in> set m. snd q > y" | (here) "y > hi" "\<forall>q \<in> set m. snd q \<le> y"
    | (less) "y \<le> hi" by fastforce
  then show ?case
  proof cases
    case more
    then obtain e x where r: "top_score m y (Some f) = Some e" "best_entry m e x"
      using Cons.IH [OF more(2) s(1)] by blast
    then have "y < x" using more(2) unfolding best_entry_def by fastforce
    then have "best_entry (p # m) e x" using r(2) p by (simp add: best_entry_def)
    then show ?thesis using r(1) more(1) p by auto
  next
    case here
    have "best_entry (p # m) f y" using here(2) s(2) p by (auto simp: best_entry_def order.order_iff_strict)
    then show ?thesis using top_score_low [OF here(2)] here(1) p by auto
  next
    case less
    then have ex: "\<exists>q \<in> set m. snd q > hi" using Cons.prems(1) p by auto
    obtain e x where r: "top_score m hi sel = Some e" "best_entry m e x" using Cons.IH [OF ex s(1)] by blast
    then have "y < x" using ex less unfolding best_entry_def by fastforce
    then have "best_entry (p # m) e x" using r(2) p by (simp add: best_entry_def)
    then show ?thesis using r(1) less p by auto
  qed
qed simp

end
