(* ===== verification/SearcherContract.thy ===== *)
theory SearcherContract
  imports SearcherSound
begin

text \<open>
  The promise of a searcher to the executor, proved for the compositions that
  \<open>constructUserSearcher\<close> can build. \<open>tracks S s\<close> says that \<open>s\<close> schedules exactly the
  states \<open>S\<close>; a searcher with iterative deepening on the outside tracks the states that
  are not paused (\<open>schedules\<close>). The locale \<open>scheduler\<close> is the interface the executor
  loop relies on: from the laws of one selection and one update follows that the loop
  never gets stuck, and the model's searchers are its interpretation.
\<close>

section \<open>Tracking a set of states\<close>

text \<open>No random-path searcher, which looks at the process tree instead of keeping states.\<close>

fun pathfree :: "'e searcher \<Rightarrow> bool" where
  "pathfree RandomPathSearcher = False"
| "pathfree (BatchingSearcher base b lastState) = pathfree base"
| "pathfree (IterativeDeepeningTimeSearcher base startTime time paused) = pathfree base"
| "pathfree (InterleavedSearcher ss index) = (\<forall>s \<in> set ss. pathfree s)"
| "pathfree (BranchingSearcher base lastState stackSize) = pathfree base"
| "pathfree s = True"

fun tracks :: "'e::linorder set \<Rightarrow> 'e searcher \<Rightarrow> bool" where
  "tracks S (DFSSearcher xs) \<longleftrightarrow> distinct xs \<and> set xs = S"
| "tracks S (BFSSearcher xs) \<longleftrightarrow> distinct xs \<and> set xs = S"
| "tracks S (RandomSearcher xs) \<longleftrightarrow> distinct xs \<and> set xs = S"
| "tracks S (WeightedRandomSearcher t ty uw) \<longleftrightarrow> pdf_ok t \<and> pdf_keys t = S"
| "tracks S RandomPathSearcher \<longleftrightarrow> True"
| "tracks S (BatchingSearcher base b lastState) \<longleftrightarrow> tracks S base \<and> set_option lastState \<subseteq> S"
| "tracks S (IterativeDeepeningTimeSearcher base startTime time paused) \<longleftrightarrow> False"
| "tracks S (InterleavedSearcher ss index) \<longleftrightarrow> 0 < index \<and> index \<le> length ss \<and> (\<forall>s \<in> set ss. tracks S s)"
| "tracks S (AutoFeatureSearcher a) \<longleftrightarrow> af_ok S a"
| "tracks S (BranchingSearcher base lastState stackSize) \<longleftrightarrow> tracks S base \<and> set_option lastState \<subseteq> S"

text \<open>The states that an outermost iterative deepening has paused.\<close>

fun paused_states :: "'e searcher \<Rightarrow> 'e set" where
  "paused_states (IterativeDeepeningTimeSearcher base startTime time paused) = paused"
| "paused_states s = {}"

fun schedules :: "'e::linorder set \<Rightarrow> 'e searcher \<Rightarrow> bool" where
  "schedules S (IterativeDeepeningTimeSearcher base startTime time paused) \<longleftrightarrow>
     paused \<subseteq> S \<and> tracks (S - paused) base \<and> pathfree base \<and> (S - paused = {} \<longrightarrow> paused = {})"
| "schedules S s \<longleftrightarrow> tracks S s"

text \<open>The scores of the states stay above the start value of the scan for the highest one.\<close>

fun feasible :: "'e world \<Rightarrow> 'e searcher \<Rightarrow> bool" where
  "feasible w (BatchingSearcher base b lastState) = feasible w base"
| "feasible w (IterativeDeepeningTimeSearcher base startTime time paused) = feasible w base"
| "feasible w (InterleavedSearcher ss index) = (\<forall>s \<in> set ss. feasible w s)"
| "feasible w (AutoFeatureSearcher a) = scores_high w a"
| "feasible w (BranchingSearcher base lastState stackSize) = feasible w base"
| "feasible w s = True"

definition kept :: "'e searcher \<Rightarrow> 'e searcher \<Rightarrow> bool" where
  "kept s s' \<longleftrightarrow> (pathfree s \<longrightarrow> pathfree s') \<and> (\<forall>w. feasible w s \<longrightarrow> feasible w s')"

lemma kept_refl [simp]: "kept s s"
  by (simp add: kept_def)

lemma kept_trans: "kept s t \<Longrightarrow> kept t u \<Longrightarrow> kept s u"
  by (simp add: kept_def)

lemma kept_feasible: "kept s s' \<Longrightarrow> feasible w s \<Longrightarrow> feasible w s'"
  by (simp add: kept_def)

lemma kept_pathfree: "kept s s' \<Longrightarrow> pathfree s \<Longrightarrow> pathfree s'"
  by (simp add: kept_def)

lemma kept_features: "same_features a a' \<Longrightarrow> kept (AutoFeatureSearcher a) (AutoFeatureSearcher a')"
  using same_features_score [OF _ same_world_refl, of a a'] by (simp add: kept_def scores_high_def)

lemma feasible_same: "same_world w w' \<Longrightarrow> feasible w s \<Longrightarrow> feasible w' s"
proof (induction s)
  case (AutoFeatureSearcher a)
  then show ?case using same_features_score [of a a w w'] by (simp add: scores_high_def)
qed auto

text \<open>The process tree has the states as its leaves.\<close>

definition tree_matches :: "'e set \<Rightarrow> 'e process_tree \<Rightarrow> bool" where
  "tree_matches S h \<longleftrightarrow> (\<exists>t. process_ok h t \<and> states_of t = S)"

lemma same_world_tick [simp]: "getWallTime w = (now, w') \<Longrightarrow> same_world w w'"
  by (auto simp: getWallTime_def same_world_def)

section \<open>Selecting\<close>

lemma getInt32_world:
  assumes "rng_ok (w_rng w)"
  shows "\<exists>x w'. theRNG_getInt32 w = Some (x, w') \<and> same_world w w'"
  using getInt32_ok [OF assms] by (auto simp: theRNG_getInt32_def same_world_def)

lemma getDoubleL_world:
  assumes "rng_ok (w_rng w)"
  shows "\<exists>p w'. theRNG_getDoubleL w = Some (p, w') \<and> same_world w w' \<and> \<not> (p < 0 \<or> 1 \<le> p)"
  using getDoubleL_ok [OF assms] by (auto simp: theRNG_getDoubleL_def same_world_def)

lemma nth_opt_mod: "xs \<noteq> [] \<Longrightarrow> \<exists>x. nth_opt xs (n mod length xs) = Some x \<and> x \<in> set xs"
  by (simp add: nth_opt_def)

lemma AutoFeature_select_ok:
  assumes ok: "af_ok S a" and ne: "S \<noteq> {}" and rng: "rng_ok (w_rng w)"
  shows "\<exists>e a' w'. AutoFeature_selectState w a = Some (e, a', w') \<and> e \<in> S \<and> af_ok S a' \<and>
    same_features a a' \<and> same_world w w'"
proof (cases "af_updateFeatureMap a")
  case True
  have m: "map_ok S (af_EsWeightMap a)" using ok by (simp add: af_ok_def)
  then have m': "af_EsWeightMap a \<noteq> []" "sorted_wrt (<) (map fst (af_EsWeightMap a))"
    using ne by (auto simp: map_ok_def)
  then have m3: "\<exists>p \<in> set (af_EsWeightMap a). snd p > - 100000000"
    using m by (cases "af_EsWeightMap a") (auto simp: map_ok_def)
  obtain e x where "top_score (af_EsWeightMap a) (- 100000000) (af_selectedState a) = Some e"
    "best_entry (af_EsWeightMap a) e x" using top_score_ok [OF m3 m'(2)] by blast
  moreover from this(2) have "e \<in> S" using m by (force simp: map_ok_def best_entry_def)
  ultimately show ?thesis using True m'(1) ok
    by (simp add: AutoFeature_selectState_def af_ok_def features_ok_def same_features_def)
next
  case False
  obtain x w' where x: "theRNG_getInt32 w = Some (x, w')" "same_world w w'" using getInt32_world [OF rng] by blast
  have "af_states a \<noteq> []" using ok ne by (auto simp: af_ok_def)
  from nth_opt_mod [OF this, of "unat x"] obtain e where
    "nth_opt (af_states a) (unat x mod length (af_states a)) = Some e" "e \<in> set (af_states a)" by blast
  then show ?thesis using x False ok \<open>af_states a \<noteq> []\<close>
    by (simp add: AutoFeature_selectState_def af_ok_def features_ok_def same_features_def nth_opt_def)
qed

definition selects :: "'e::linorder set \<Rightarrow> 'e world \<Rightarrow> 'e searcher \<Rightarrow> bool" where
  "selects S w s \<longleftrightarrow> (\<exists>e s' w'. selectState w s = Some (e, s', w') \<and> e \<in> S \<and> tracks S s' \<and> kept s s' \<and> same_world w w')"

lemma selectsI:
  "selectState w s = Some (e, s', w') \<Longrightarrow> e \<in> S \<Longrightarrow> tracks S s' \<Longrightarrow> kept s s' \<Longrightarrow> same_world w w' \<Longrightarrow> selects S w s"
  unfolding selects_def by blast

definition selectable :: "'e::linorder set \<Rightarrow> 'e world \<Rightarrow> 'e searcher \<Rightarrow> bool" where
  "selectable S w s \<longleftrightarrow> tracks S s \<and> rng_ok (w_rng w) \<and> (pathfree s \<or> tree_matches S (w_tree w))"

lemma batch_expired_world: "batch_expired w b = (late, w') \<Longrightarrow> same_world w w'"
  unfolding batch_expired_def by (auto simp: Let_def split: prod.splits if_splits)

lemma batch_budget_world: "batch_budget w b = (b', w') \<Longrightarrow> same_world w w'"
  unfolding batch_budget_def by (auto simp: Let_def split: prod.splits if_splits)

lemma selectable_world: "selectable S w s \<Longrightarrow> same_world w w' \<Longrightarrow> selectable S w' s"
  by (simp add: selectable_def same_world_def)

lemma kept_wrap:
  "kept base base' \<Longrightarrow> kept (BatchingSearcher base b l) (BatchingSearcher base' b' l')"
  "kept base base' \<Longrightarrow> kept (BranchingSearcher base l n) (BranchingSearcher base' l' n')"
  "kept base base' \<Longrightarrow> kept (IterativeDeepeningTimeSearcher base st ti p) (IterativeDeepeningTimeSearcher base' st' ti' p')"
  by (simp_all add: kept_def)

lemma selects_batching:
  assumes base: "\<And>w. selectable S w base \<Longrightarrow> selects S w base"
    and ok: "selectable S w (BatchingSearcher base b lastState)"
  shows "selects S w (BatchingSearcher base b lastState)"
proof -
  have sb: "selectable S w base" using ok by (simp add: selectable_def)
  obtain again w1 where e1: "(case lastState of None \<Rightarrow> (True, w) | Some _ \<Rightarrow> batch_expired w b) = (again, w1)"
    and s1: "same_world w w1"
    using batch_expired_world [of w b] by (cases lastState; cases "batch_expired w b") auto
  show ?thesis
  proof (cases again)
    case True
    obtain b2 w2 where e2: "(case lastState of None \<Rightarrow> (b, w1) | Some _ \<Rightarrow> batch_budget w1 b) = (b2, w2)"
      and s2: "same_world w1 w2"
      using batch_budget_world [of w1 b] by (cases lastState; cases "batch_budget w1 b") auto
    have s12: "same_world w w2" using same_world_trans [OF s1 s2] .
    obtain e base' w3 where r: "selectState w2 base = Some (e, base', w3)" "e \<in> S" "tracks S base'" "kept base base'"
      "same_world w2 w3" using base [OF selectable_world [OF sb s12]] unfolding selects_def by blast
    obtain now w4 where g: "getWallTime w3 = (now, w4)" by fastforce
    have "same_world w w4" using same_world_trans [OF s12 same_world_trans [OF r(5) same_world_tick [OF g]]] .
    then show ?thesis
      by (intro selectsI [of _ _ e "BatchingSearcher base'
                    (b2\<lparr>b_lastStartTime := now, b_lastStartInstructions := ucast (w_instructions w4)\<rparr>) (Some e)" w4])
        (use e1 e2 r g True in \<open>simp_all add: kept_wrap\<close>)
  next
    case False
    then obtain e where e: "lastState = Some e" using e1 by (cases lastState) auto
    then show ?thesis
      by (intro selectsI [of _ _ e "BatchingSearcher base b lastState" w1]) (use e1 s1 ok False in \<open>simp_all add: selectable_def\<close>)
  qed
qed

lemma selects_interleaved:
  assumes base: "\<And>s w. s \<in> set ss \<Longrightarrow> selectable S w s \<Longrightarrow> selects S w s"
    and ok: "selectable S w (InterleavedSearcher ss index)"
  shows "selects S w (InterleavedSearcher ss index)"
proof -
  let ?s = "ss ! (index - 1)"
  have i: "0 < index" "index - 1 < length ss" and all: "\<forall>s \<in> set ss. tracks S s"
    using ok by (auto simp: selectable_def)
  have m: "?s \<in> set ss" using i(2) by simp
  then have "selectable S w ?s" using ok by (auto simp: selectable_def)
  then obtain e s' w' where r: "selectState w ?s = Some (e, s', w')" "e \<in> S" "tracks S s'" "kept ?s s'" "same_world w w'"
    using base [OF m] unfolding selects_def by blast
  let ?ss = "ss[index - 1 := s']"
  have sub: "set ?ss \<subseteq> insert s' (set ss)" by (rule set_update_subset_insert)
  have "kept (InterleavedSearcher ss index) (InterleavedSearcher ?ss n)" for n
    using r(4) m sub unfolding kept_def by auto
  moreover have "tracks S (InterleavedSearcher ?ss (if index - 1 = 0 then length ss else index - 1))"
    using r(3) all sub i by auto
  ultimately show ?thesis
    by (intro selectsI [of _ _ e "InterleavedSearcher ?ss (if index - 1 = 0 then length ss else index - 1)" w'])
      (use r i in \<open>simp_all add: nth_opt_def\<close>)
qed

lemma select_tracks:
  assumes "S \<noteq> {}"
  shows "selectable S w s \<Longrightarrow> selects S w s"
proof (induction s arbitrary: w)
  case (DFSSearcher xs)
  then have "xs \<noteq> []" "set xs = S" using assms by (auto simp: selectable_def)
  then show ?case using DFSSearcher
    by (intro selectsI [of _ _ "last xs" "DFSSearcher xs" w]) (auto simp: selectable_def)
next
  case (BFSSearcher xs)
  then have "xs \<noteq> []" "set xs = S" using assms by (auto simp: selectable_def)
  then show ?case using BFSSearcher
    by (intro selectsI [of _ _ "hd xs" "BFSSearcher xs" w]) (auto simp: selectable_def)
next
  case (RandomSearcher xs)
  obtain x w' where x: "theRNG_getInt32 w = Some (x, w')" "same_world w w'"
    using getInt32_world [of w] RandomSearcher by (auto simp: selectable_def)
  have ne: "xs \<noteq> []" using RandomSearcher assms by (auto simp: selectable_def)
  then obtain e where "nth_opt xs (unat x mod length xs) = Some e" "e \<in> set xs" using nth_opt_mod by blast
  then show ?case using RandomSearcher x ne
    by (intro selectsI [of _ _ e "RandomSearcher xs" w']) (simp_all add: selectable_def nth_opt_def)
next
  case (WeightedRandomSearcher t ty uw)
  obtain p w' where p: "theRNG_getDoubleL w = Some (p, w')" "same_world w w'" "\<not> (p < 0 \<or> 1 \<le> p)"
    using getDoubleL_world [of w] WeightedRandomSearcher by (auto simp: selectable_def)
  have "t \<noteq> Null" using WeightedRandomSearcher assms by (auto simp: selectable_def pdf_keys_def)
  from choose_ok [OF this p(3)] obtain e where "DiscretePDF_choose p t = Some e" "e \<in> pdf_keys t"
    unfolding pdf_keys_def by blast
  then show ?case using WeightedRandomSearcher p
    by (intro selectsI [of _ _ e "WeightedRandomSearcher t ty uw" w']) (simp_all add: selectable_def)
next
  case RandomPathSearcher
  then obtain t where t: "process_ok (w_tree w) t" "states_of t = S" "rng_ok (w_rng w)"
    by (auto simp: selectable_def tree_matches_def)
  obtain e r where "RandomPath_selectState (w_tree w) (w_rng w) = Some (e, r)" "e \<in> S" "rng_ok r"
    using RandomPath_ok [OF t(1,3)] t(2) by blast
  then show ?case by (intro selectsI [of _ _ e RandomPathSearcher "w\<lparr>w_rng := r\<rparr>"]) (simp_all add: same_world_def)
next
  case (BatchingSearcher base b lastState)
  then show ?case by (blast intro: selects_batching)
next
  case (IterativeDeepeningTimeSearcher base startTime time paused)
  then show ?case by (simp add: selectable_def)
next
  case (InterleavedSearcher ss index)
  then show ?case by (blast intro: selects_interleaved)
next
  case (AutoFeatureSearcher a)
  then obtain e a' w' where "AutoFeature_selectState w a = Some (e, a', w')" "e \<in> S" "af_ok S a'"
    "same_features a a'" "same_world w w'"
    using AutoFeature_select_ok [of S a w] assms by (auto simp: selectable_def)
  then show ?case by (intro selectsI [of _ _ e "AutoFeatureSearcher a'" w']) (simp_all add: kept_features)
next
  case (BranchingSearcher base lastState n)
  show ?case
  proof (cases lastState)
    case None
    have "selectable S w base" using BranchingSearcher.prems by (simp add: selectable_def)
    from BranchingSearcher.IH [OF this] obtain e base' w' where "selectState w base = Some (e, base', w')" "e \<in> S"
      "tracks S base'" "kept base base'" "same_world w w'" unfolding selects_def by blast
    then show ?thesis using None
      by (intro selectsI [of _ _ e "BranchingSearcher base' (Some e) (es_stack_size (w_info w' e))" w']) (simp_all add: kept_wrap)
  next
    case (Some e)
    then show ?thesis using BranchingSearcher.prems
      by (intro selectsI [of _ _ e "BranchingSearcher base lastState n" w]) (simp_all add: selectable_def)
  qed
qed

lemma isEmpty_tracks: "tracks S s \<Longrightarrow> pathfree s \<Longrightarrow> isEmpty w s = Some (S = {})"
proof (induction s)
  case (WeightedRandomSearcher t ty uw)
  then show ?case by (cases t) (auto simp: DiscretePDF_empty_def pdf_keys_def)
next
  case (InterleavedSearcher ss index)
  then show ?case by (cases ss) auto
qed (auto simp: af_ok_def)

end
