(* ===== verification/SearcherUpdate.thy ===== *)
theory SearcherUpdate
  imports SearcherContract
begin

text \<open>
  The second law of the searchers: \<open>update\<close> returns, and the searcher then tracks the
  states with the added ones in and the removed ones out, iterative deepening included.
\<close>

section \<open>One searcher\<close>

definition updates :: "'e::linorder set \<Rightarrow> 'e world \<Rightarrow> 'e searcher \<Rightarrow> 'e option \<Rightarrow> 'e list \<Rightarrow> 'e list \<Rightarrow> bool" where
  "updates S w s c added removed \<longleftrightarrow>
     (\<exists>s' w'. update w s c added removed = Some (s', w') \<and> tracks (after S added removed) s' \<and>
        kept s s' \<and> same_world w w')"

lemma updatesI:
  "update w s c added removed = Some (s', w') \<Longrightarrow> tracks (after S added removed) s' \<Longrightarrow> kept s s' \<Longrightarrow>
   same_world w w' \<Longrightarrow> updates S w s c added removed"
  unfolding updates_def by blast

lemma updatesE:
  assumes "updates S w s c added removed"
  obtains s' w' where "update w s c added removed = Some (s', w')" "tracks (after S added removed) s'" "kept s s'"
    "same_world w w'"
  using assms unfolding updates_def by blast

lemma each_searcher_ok:
  assumes refl: "\<And>w. R w w" and trans: "\<And>u v w. R u v \<Longrightarrow> R v w \<Longrightarrow> R u w"
  shows "(\<And>s w. s \<in> set ss \<Longrightarrow> R w0 w \<Longrightarrow> \<exists>s' w'. f s w = Some (s', w') \<and> Q s s' \<and> R w w') \<Longrightarrow>
    \<exists>ss' w'. each_searcher f ss w0 = Some (ss', w') \<and> list_all2 Q ss ss' \<and> R w0 w'"
proof (induction ss arbitrary: w0)
  case Nil
  then show ?case by (simp add: refl)
next
  case (Cons s ss)
  obtain s' w1 where s: "f s w0 = Some (s', w1)" "Q s s'" "R w0 w1"
    using Cons.prems [of s w0] refl by auto
  have "\<exists>s' w'. f x w = Some (s', w') \<and> Q x s' \<and> R w w'" if "x \<in> set ss" "R w1 w" for x w
    using Cons.prems [of x w] that trans [OF s(3)] by simp
  from Cons.IH [OF this] obtain ss' w2 where "each_searcher f ss w1 = Some (ss', w2)" "list_all2 Q ss ss'" "R w1 w2"
    by blast
  then show ?case using s trans [OF s(3)] by simp
qed

lemma updates_interleaved:
  assumes base: "\<And>s w. s \<in> set ss \<Longrightarrow> tracks S s \<Longrightarrow> feasible w s \<Longrightarrow> updates S w s c added removed"
    and ok: "tracks S (InterleavedSearcher ss index)" "feasible w (InterleavedSearcher ss index)"
  shows "updates S w (InterleavedSearcher ss index) c added removed"
proof -
  let ?T = "after S added removed" and ?f = "\<lambda>s w. update w s c added removed"
  have "\<exists>s' w'. ?f s u = Some (s', w') \<and> (tracks ?T s' \<and> kept s s') \<and> same_world u w'"
    if "s \<in> set ss" "same_world w u" for s u
  proof -
    have "tracks S s" "feasible w s" using ok that(1) by auto
    from base [OF that(1) this(1) feasible_same [OF that(2) this(2)]] show ?thesis
      unfolding updates_def by blast
  qed
  then have "\<exists>ss' w'. each_searcher ?f ss w = Some (ss', w') \<and>
      list_all2 (\<lambda>s s'. tracks ?T s' \<and> kept s s') ss ss' \<and> same_world w w'"
    by (intro each_searcher_ok [of same_world ss w ?f "\<lambda>s s'. tracks ?T s' \<and> kept s s'"])
      (simp_all, blast intro: same_world_trans)
  then obtain ss' w' where r: "each_searcher ?f ss w = Some (ss', w')"
    "list_all2 (\<lambda>s s'. tracks ?T s' \<and> kept s s') ss ss'" "same_world w w'" by blast
  have all: "\<forall>s' \<in> set ss'. tracks ?T s' \<and> (\<exists>s \<in> set ss. kept s s')"
    using r(2) by (induction rule: list_all2_induct) auto
  have "kept (InterleavedSearcher ss index) (InterleavedSearcher ss' index)"
    using all unfolding kept_def by auto
  moreover have "tracks ?T (InterleavedSearcher ss' index)"
    using all ok(1) list_all2_lengthD [OF r(2)] by auto
  ultimately show ?thesis using r(1,3)
    by (intro updatesI [of _ _ _ _ _ "InterleavedSearcher ss' index" w']) (subst update.simps, simp_all)
qed

lemma update_tracks:
  assumes pre: "update_pre S c added removed"
  shows "tracks S s \<Longrightarrow> feasible w s \<Longrightarrow> updates S w s c added removed"
proof (induction s arbitrary: w)
  case (DFSSearcher xs)
  then obtain ys where "DFS_update xs added removed = Some ys" "distinct ys" "set ys = after S added removed"
    using DFS_update_ok [of xs c added removed] pre by auto
  then show ?case
    by (intro updatesI [of _ _ _ _ _ "DFSSearcher ys" w]) (subst update.simps, simp_all add: kept_def)
next
  case (BFSSearcher xs)
  then obtain ys where "BFS_update xs c added removed = Some ys" "distinct ys" "set ys = after S added removed"
    using BFS_update_ok [of xs c added removed] pre by auto
  then show ?case
    by (intro updatesI [of _ _ _ _ _ "BFSSearcher ys" w]) (subst update.simps, simp_all add: kept_def)
next
  case (RandomSearcher xs)
  then obtain ys where "Random_update xs added removed = Some ys" "distinct ys" "set ys = after S added removed"
    using Random_update_ok [of xs c added removed] pre by auto
  then show ?case
    by (intro updatesI [of _ _ _ _ _ "RandomSearcher ys" w]) (subst update.simps, simp_all add: kept_def)
next
  case (WeightedRandomSearcher t ty uw)
  then obtain t' where "WeightedRandom_update (\<lambda>e. WeightedRandom_getWeight ty (w_info w e)) t uw c added removed = Some t'"
    "pdf_ok t'" "pdf_keys t' = after S added removed"
    using WeightedRandom_update_ok [of t c added removed "\<lambda>e. WeightedRandom_getWeight ty (w_info w e)" uw] pre by auto
  then show ?case
    by (intro updatesI [of _ _ _ _ _ "WeightedRandomSearcher t' ty uw" w]) (subst update.simps, simp_all add: kept_def)
next
  case RandomPathSearcher
  show ?case
    by (intro updatesI [of _ _ _ _ _ RandomPathSearcher w]) (subst update.simps, simp_all)
next
  case (BatchingSearcher base b l)
  then have "updates S w base c added removed" by simp
  then obtain base' w' where r: "update w base c added removed = Some (base', w')" "tracks (after S added removed) base'"
    "kept base base'" "same_world w w'" by (rule updatesE)
  let ?l = "case l of None \<Rightarrow> None | Some e \<Rightarrow> if e \<in> set removed then None else Some e"
  have "set_option ?l \<subseteq> after S added removed" using BatchingSearcher.prems by (auto simp: after_def split: option.splits)
  then show ?case using r
    by (intro updatesI [of _ _ _ _ _ "BatchingSearcher base' b ?l" w']) (subst update.simps, simp_all add: kept_wrap)
next
  case (IterativeDeepeningTimeSearcher base startTime time paused)
  then show ?case by simp
next
  case (InterleavedSearcher ss index)
  then show ?case by (blast intro: updates_interleaved)
next
  case (AutoFeatureSearcher a)
  then obtain a' w' where "AutoFeature_update w a c added removed = Some (a', w')" "af_ok (after S added removed) a'"
    "same_features a a'" "same_world w w'"
    using AutoFeature_update_ok [of S a c added removed w] pre by auto
  then show ?case
    by (intro updatesI [of _ _ _ _ _ "AutoFeatureSearcher a'" w']) (subst update.simps, simp_all add: kept_features)
next
  case (BranchingSearcher base l n)
  then have "updates S w base c added removed" by simp
  then obtain base' w' where r: "update w base c added removed = Some (base', w')" "tracks (after S added removed) base'"
    "kept base base'" "same_world w w'" by (rule updatesE)
  let ?l = "case l of None \<Rightarrow> None
                       | Some e \<Rightarrow> if e \<in> set removed \<or> (c \<noteq> None \<and> added \<noteq> []) then None else Some e"
  have "set_option ?l \<subseteq> after S added removed" using BranchingSearcher.prems by (auto simp: after_def split: option.splits)
  then show ?case using r
    by (intro updatesI [of _ _ _ _ _ "BranchingSearcher base' ?l n" w']) (subst update.simps, simp_all add: kept_wrap)
qed

section \<open>Iterative deepening\<close>

lemma unpause_removed_eq:
  "unpause_removed paused alt es = (paused - set es, [e \<leftarrow> alt. e \<notin> paused \<inter> set es])"
proof (induction es arbitrary: paused alt)
  case (Cons e es)
  show ?case by (auto simp: Cons.IH removeAll_filter_not_eq intro!: filter_cong)
qed simp

text \<open>What the executor gets from a searcher, iterative deepening on the outside or not.\<close>

definition updated_to :: "'e::linorder set \<Rightarrow> 'e world \<Rightarrow> 'e searcher \<Rightarrow> ('e searcher \<times> 'e world) option \<Rightarrow> bool" where
  "updated_to T w s r \<longleftrightarrow> (\<exists>s' w'. r = Some (s', w') \<and> schedules T s' \<and> kept s s' \<and> same_world w w')"

lemma update_schedules_plain:
  assumes "tracks S s" "update_pre S c added removed" "feasible w s"
  shows "updated_to (after S added removed) w s (update w s c added removed)"
proof -
  obtain s' w' where r: "update w s c added removed = Some (s', w')" "tracks (after S added removed) s'" "kept s s'"
    "same_world w w'" using update_tracks [OF assms(2,1,3)] by (rule updatesE)
  then have "schedules (after S added removed) s'" by (cases s') simp_all
  then show ?thesis using r unfolding updated_to_def by blast
qed

lemma update_deepening:
  assumes ok: "schedules S (IterativeDeepeningTimeSearcher base startTime time paused)"
    and pre: "update_pre S c added removed" and run: "\<And>e. c = Some e \<Longrightarrow> e \<notin> paused"
    and f: "feasible w base"
  shows "updated_to (after S added removed) w (IterativeDeepeningTimeSearcher base startTime time paused)
    (update w (IterativeDeepeningTimeSearcher base startTime time paused) c added removed)"
proof -
  let ?T = "after S added removed" and ?A = "set added" and ?R = "set removed"
  have b: "paused \<subseteq> S" "tracks (S - paused) base" "pathfree base" using ok by simp_all
  have p: "finite S" "distinct added" "?A \<inter> S = {}" "distinct removed" "?R \<subseteq> S \<union> ?A"
    using pre by (simp_all add: update_pre_def)
  obtain now w0 where g: "getWallTime w = (now, w0)" by fastforce
  define alt where "alt = [e \<leftarrow> removed. e \<notin> paused]"
  have un: "(if removed \<noteq> [] then unpause_removed paused removed removed else (paused, removed)) = (paused - ?R, alt)"
    unfolding unpause_removed_eq alt_def by (auto intro!: filter_cong)
  have pre1: "update_pre (S - paused) c added alt" using pre run b(1) by (auto simp: update_pre_def alt_def)
  have T1: "after (S - paused) added alt = ?T - (paused - ?R)" using b(1) p(3) by (auto simp: after_def alt_def)
  obtain base1 w1 where u1: "update w0 base c added alt = Some (base1, w1)" "tracks (?T - (paused - ?R)) base1"
    "kept base base1" "same_world w0 w1"
    by (rule updatesE [OF update_tracks [OF pre1 b(2) feasible_same [OF same_world_tick [OF g] f]], unfolded T1])
  have s1: "same_world w w1" using same_world_trans [OF same_world_tick [OF g] u1(4)] .
  have finT: "finite ?T" using p(1) by (simp add: after_def)
  have P1: "paused - ?R \<subseteq> ?T" using b(1) by (auto simp: after_def)
  let ?pause = "case c of
       None \<Rightarrow> Some (base1, paused - ?R, w1)
     | Some e \<Rightarrow>
         if e \<notin> ?R \<and> now - startTime > time
         then do { (base2, w2) \<leftarrow> update w1 base1 None [] [e]; Some (base2, insert e (paused - ?R), w2) }
         else Some (base1, paused - ?R, w1)"
  have "\<exists>base2 paused2 w2. ?pause = Some (base2, paused2, w2) \<and> paused2 \<subseteq> ?T \<and> tracks (?T - paused2) base2 \<and>
      kept base base2 \<and> same_world w w2"
  proof (cases "\<exists>e. c = Some e \<and> e \<notin> ?R \<and> now - startTime > time")
    case True
    then obtain e where e: "c = Some e" "e \<notin> ?R" "now - startTime > time" by blast
    have eT: "e \<in> ?T - (paused - ?R)" using e pre run by (auto simp: update_pre_def after_def)
    then have "update_pre (?T - (paused - ?R)) None [] [e]" using finT by (auto simp: update_pre_def)
    from update_tracks [OF this u1(2) kept_feasible [OF u1(3) feasible_same [OF s1 f]]]
    obtain base2 w2 where u2: "update w1 base1 None [] [e] = Some (base2, w2)"
      "tracks (after (?T - (paused - ?R)) [] [e]) base2" "kept base1 base2" "same_world w1 w2" by (rule updatesE)
    have "after (?T - (paused - ?R)) [] [e] = ?T - insert e (paused - ?R)" by (auto simp: after_def)
    then show ?thesis using u2 e eT P1 kept_trans [OF u1(3) u2(3)] same_world_trans [OF s1 u2(4)] by auto
  next
    case False
    then have "?pause = Some (base1, paused - ?R, w1)" by (auto split: option.split)
    then show ?thesis using P1 u1 s1 by blast
  qed
  then obtain base2 paused2 w2 where u2: "?pause = Some (base2, paused2, w2)" "paused2 \<subseteq> ?T"
    "tracks (?T - paused2) base2" "kept base base2" "same_world w w2" by blast
  have e2: "isEmpty w2 base2 = Some (?T - paused2 = {})"
    by (rule isEmpty_tracks [OF u2(3) kept_pathfree [OF u2(4) b(3)]])
  let ?id = "\<lambda>b t P. IterativeDeepeningTimeSearcher b startTime t P"
  show ?thesis
  proof (cases "?T - paused2 = {}")
    case True
    have fin2: "finite paused2" using finT u2(2) finite_subset by blast
    have "update_pre (?T - paused2) None (sorted_list_of_set paused2) []"
      using fin2 finT by (auto simp: update_pre_def)
    from update_tracks [OF this u2(3) kept_feasible [OF u2(4) feasible_same [OF u2(5) f]]]
    obtain base3 w3 where u3: "update w2 base2 None (sorted_list_of_set paused2) [] = Some (base3, w3)"
      "tracks (after (?T - paused2) (sorted_list_of_set paused2) []) base3" "kept base2 base3" "same_world w2 w3"
      by (rule updatesE)
    have "after (?T - paused2) (sorted_list_of_set paused2) [] = ?T" using u2(2) fin2 by (auto simp: after_def)
    then have "schedules ?T (?id base3 (time * 2) {})"
      using u3(2) kept_pathfree [OF kept_trans [OF u2(4) u3(3)] b(3)] by simp
    moreover have "update w (?id base time paused) c added removed = Some (?id base3 (time * 2) {}, w3)"
      by (subst update.simps) (use g un u1(1) u2(1) e2 True u3(1) in \<open>simp add: Let_def\<close>)
    ultimately show ?thesis
      using kept_wrap(3) [OF kept_trans [OF u2(4) u3(3)]] same_world_trans [OF u2(5) u3(4)]
      unfolding updated_to_def by blast
  next
    case False
    have "update w (?id base time paused) c added removed = Some (?id base2 time paused2, w2)"
      by (subst update.simps) (use g un u1(1) u2(1) e2 False in \<open>simp add: Let_def\<close>)
    moreover have "schedules ?T (?id base2 time paused2)"
      using u2(2,3) kept_pathfree [OF u2(4) b(3)] False by simp
    ultimately show ?thesis using kept_wrap(3) [OF u2(4)] u2(5) unfolding updated_to_def by blast
  qed
qed

lemma update_schedules:
  assumes "schedules S s" "update_pre S c added removed" "\<And>e. c = Some e \<Longrightarrow> e \<notin> paused_states s" "feasible w s"
  shows "updated_to (after S added removed) w s (update w s c added removed)"
proof (cases "\<exists>base startTime time paused. s = IterativeDeepeningTimeSearcher base startTime time paused")
  case True
  then obtain base startTime time paused where s: "s = IterativeDeepeningTimeSearcher base startTime time paused" by blast
  show ?thesis using assms(3,4) unfolding s
    by (intro update_deepening assms(2) assms(1) [unfolded s]) simp_all
next
  case False
  then have "tracks S s" using assms(1) by (cases s) auto
  then show ?thesis using update_schedules_plain assms(2,4) by blast
qed

text \<open>A selected state is never a paused one.\<close>

lemma select_schedules:
  assumes ok: "schedules S s" and ne: "S \<noteq> {}" and rng: "rng_ok (w_rng w)"
    and tree: "pathfree s \<or> tree_matches S (w_tree w)"
  shows "\<exists>e s' w'. selectState w s = Some (e, s', w') \<and> e \<in> S - paused_states s' \<and> schedules S s' \<and> kept s s' \<and> same_world w w'"
proof (cases "\<exists>base startTime time paused. s = IterativeDeepeningTimeSearcher base startTime time paused")
  case True
  then obtain base startTime time paused where s: "s = IterativeDeepeningTimeSearcher base startTime time paused" by blast
  have b: "tracks (S - paused) base" "pathfree base" "S - paused \<noteq> {}" using ok ne by (auto simp: s)
  have "selectable (S - paused) w base" using b rng by (simp add: selectable_def)
  from select_tracks [OF b(3) this] obtain e base' w1 where r: "selectState w base = Some (e, base', w1)"
    "e \<in> S - paused" "tracks (S - paused) base'" "kept base base'" "same_world w w1" unfolding selects_def by blast
  obtain now w2 where g: "getWallTime w1 = (now, w2)" by fastforce
  have "schedules S (IterativeDeepeningTimeSearcher base' now time paused)"
    using ok r(3) kept_pathfree [OF r(4) b(2)] by (simp add: s)
  then show ?thesis using r g kept_wrap(3) [OF r(4)] same_world_trans [OF r(5) same_world_tick [OF g]]
    by (auto simp: s)
next
  case False
  then have t: "tracks S s" using ok by (cases s) auto
  then have "selectable S w s" using rng tree by (simp add: selectable_def)
  from select_tracks [OF ne this] obtain e s' w' where r: "selectState w s = Some (e, s', w')" "e \<in> S" "tracks S s'"
    "kept s s'" "same_world w w'" unfolding selects_def by blast
  then have "schedules S s'" "paused_states s' = {}" by (cases s'; simp)+
  then show ?thesis using r by blast
qed

end
