(* ===== verification/ExecutorLoop.thy ===== *)
theory ExecutorLoop
  imports SearcherUpdate
begin

text \<open>
  The scheduling loop of \<open>Executor::run\<close>: select a state, execute one instruction of it,
  which may fork and terminate states, and report them with \<open>updateStates\<close>. The locale
  \<open>scheduler\<close> states what the loop asks of a searcher; in it the loop is proved never to
  get stuck while there are states. Executing an instruction is any change of the world
  that keeps what the searcher relies on (\<open>executes\<close>).
\<close>

section \<open>The interface\<close>

locale scheduler =
  fixes ok :: "'e set \<Rightarrow> 's \<Rightarrow> bool" and held :: "'s \<Rightarrow> 'e set" and fits :: "'e set \<Rightarrow> 'w \<Rightarrow> 's \<Rightarrow> bool"
    and sel :: "'w \<Rightarrow> 's \<Rightarrow> ('e \<times> 's \<times> 'w) option"
    and upd :: "'w \<Rightarrow> 's \<Rightarrow> 'e option \<Rightarrow> 'e list \<Rightarrow> 'e list \<Rightarrow> ('s \<times> 'w) option"
    and exec :: "'e set \<Rightarrow> 'e list \<Rightarrow> 's \<Rightarrow> 'w \<Rightarrow> 'w \<Rightarrow> bool"
  assumes sel: "ok S s \<Longrightarrow> fits S w s \<Longrightarrow> S \<noteq> {} \<Longrightarrow>
      \<exists>e s' w'. sel w s = Some (e, s', w') \<and> e \<in> S - held s' \<and> ok S s' \<and> fits S w' s'"
    and upd: "ok S s \<Longrightarrow> fits S w s \<Longrightarrow> exec S added s w w1 \<Longrightarrow> update_pre S (Some e) added removed \<Longrightarrow> e \<notin> held s \<Longrightarrow>
      \<exists>s' w'. upd w1 s (Some e) added removed = Some (s', w') \<and> ok (after S added removed) s' \<and>
        fits (after S added removed) w' s'"
begin

text \<open>One round of the loop, from a set of states, a searcher and a world to the next ones.\<close>

inductive round :: "'e set \<times> 's \<times> 'w \<Rightarrow> 'e set \<times> 's \<times> 'w \<Rightarrow> bool" where
  "S \<noteq> {} \<Longrightarrow> sel w s = Some (e, s1, w1) \<Longrightarrow> exec S added s1 w1 w2 \<Longrightarrow> update_pre S (Some e) added removed \<Longrightarrow>
   upd w2 s1 (Some e) added removed = Some (s', w') \<Longrightarrow> round (S, s, w) (after S added removed, s', w')"

fun good :: "'e set \<times> 's \<times> 'w \<Rightarrow> bool" where
  "good (S, s, w) \<longleftrightarrow> ok S s \<and> fits S w s"

lemma round_good: "round c c' \<Longrightarrow> good c \<Longrightarrow> good c'"
proof (induction rule: round.induct)
  case (1 S w s e s1 w1 added w2 removed s' w')
  have g: "ok S s" "fits S w s" using 1(6) by simp_all
  from sel [OF g 1(1)] have s1: "e \<in> S - held s1" "ok S s1" "fits S w1 s1" using 1(2) by auto
  then show ?case using upd [OF s1(2,3) 1(3,4)] 1(5) by auto
qed

lemma rounds_good: "round\<^sup>*\<^sup>* c c' \<Longrightarrow> good c \<Longrightarrow> good c'"
  by (induction rule: rtranclp_induct) (blast intro: round_good)+

lemma round_total:
  assumes "good (S, s, w)" "S \<noteq> {}"
  shows "\<exists>e s1 w1. sel w s = Some (e, s1, w1) \<and> e \<in> S \<and>
    (\<forall>added removed w2. exec S added s1 w1 w2 \<longrightarrow> update_pre S (Some e) added removed \<longrightarrow>
       (\<exists>s' w'. upd w2 s1 (Some e) added removed = Some (s', w') \<and> good (after S added removed, s', w')))"
proof -
  obtain e s1 w1 where s1: "sel w s = Some (e, s1, w1)" "e \<in> S - held s1" "ok S s1" "fits S w1 s1"
    using sel [of S s w] assms by auto
  have "\<exists>s' w'. upd w2 s1 (Some e) added removed = Some (s', w') \<and> good (after S added removed, s', w')"
    if "exec S added s1 w1 w2" "update_pre S (Some e) added removed" for added removed w2
    using upd [OF s1(3,4) that] s1(2) by auto
  then show ?thesis using s1 by blast
qed

end

section \<open>The states of the executor\<close>

lemma leaf_node: "process_ok h t \<Longrightarrow> e \<in> states_of t \<Longrightarrow> \<exists>n. ptreeNode h e = Some n \<and> (e, n) \<in> set (leaves t)"
  by (force simp: process_ok_def states_of_def)

lemma PTree_remove_state:
  assumes "tree_matches S h" "e \<in> S"
  shows "\<exists>n h'. ptreeNode h e = Some n \<and> PTree_remove n h = Some h' \<and> (S - {e} = {} \<or> tree_matches (S - {e}) h')"
proof -
  obtain t where t: "process_ok h t" "states_of t = S" using assms(1) by (auto simp: tree_matches_def)
  obtain n where n: "ptreeNode h e = Some n" "(e, n) \<in> set (leaves t)"
    using leaf_node [OF t(1), of e] assms(2) t(2) by blast
  obtain h' t' where r: "PTree_remove n h = Some h'"
    "if states_of t = {e} then states_of t' \<subseteq> {e} \<and> (\<exists>j st. t' = PT j PNone PNone st)
     else process_ok h' t' \<and> states_of t' = states_of t - {e}"
    using PTree_remove_ok [OF t(1) n(2)] by blast
  show ?thesis
  proof (cases "S = {e}")
    case False
    then show ?thesis using n(1) r t(2) by (auto simp: tree_matches_def)
  qed (use n(1) r(1) in simp)
qed

lemma remove_from_executor_ok:
  "tree_matches (w_states w) (w_tree w) \<Longrightarrow> distinct es \<Longrightarrow> set es \<subseteq> w_states w \<Longrightarrow>
   \<exists>tree. remove_from_executor es w = Some (w\<lparr>w_states := w_states w - set es, w_tree := tree\<rparr>) \<and>
     (w_states w - set es = {} \<or> tree_matches (w_states w - set es) tree)"
proof (induction es arbitrary: w)
  case Nil
  then show ?case by (intro exI [of _ "w_tree w"]) simp
next
  case (Cons e es)
  have e: "e \<in> w_states w" using Cons.prems(3) by simp
  obtain n h' where r: "ptreeNode (w_tree w) e = Some n" "PTree_remove n (w_tree w) = Some h'"
    "w_states w - {e} = {} \<or> tree_matches (w_states w - {e}) h'"
    using PTree_remove_state [OF Cons.prems(1) e] by blast
  let ?w = "w\<lparr>w_states := w_states w - {e}, w_tree := h'\<rparr>"
  have step: "remove_from_executor (e # es) w = remove_from_executor es ?w" using e r(1,2) by simp
  show ?case
  proof (cases "es = []")
    case True
    then show ?thesis using r(3) e step by (intro exI [of _ h']) simp
  next
    case False
    have sub: "set es \<subseteq> w_states ?w" using Cons.prems by auto
    moreover have "w_states w - {e} \<noteq> {}" using False sub by (cases es) auto
    ultimately obtain tree where "remove_from_executor es ?w =
        Some (?w\<lparr>w_states := w_states ?w - set es, w_tree := tree\<rparr>)"
      "w_states ?w - set es = {} \<or> tree_matches (w_states ?w - set es) tree"
      using Cons.IH [of ?w] r(3) Cons.prems(2) by auto
    moreover have "w_states w - {e} - set es = w_states w - set (e # es)" by auto
    ultimately show ?thesis unfolding step by (intro exI [of _ tree]) simp
  qed
qed

section \<open>The loop of the executor\<close>

text \<open>What the searcher relies on in the world: a seeded generator, the states, their tree, their scores.\<close>

definition world_ok :: "'e::linorder set \<Rightarrow> 'e world \<Rightarrow> 'e searcher \<Rightarrow> bool" where
  "world_ok S w s \<longleftrightarrow> w_states w = S \<and> finite S \<and> rng_ok (w_rng w) \<and> (S = {} \<or> tree_matches S (w_tree w)) \<and> feasible w s"

text \<open>
  The execution of an instruction: the forked states are attached to the process tree, the
  set \<open>states\<close> is left alone until \<open>updateStates\<close>; constraints, clock and statistics may change.
\<close>

definition executes :: "'e::linorder set \<Rightarrow> 'e list \<Rightarrow> 'e searcher \<Rightarrow> 'e world \<Rightarrow> 'e world \<Rightarrow> bool" where
  "executes S added s w w' \<longleftrightarrow> w_states w' = w_states w \<and> rng_ok (w_rng w') \<and>
     tree_matches (S \<union> set added) (w_tree w') \<and> feasible w' s"

lemma updateStates_ok:
  assumes ok: "schedules S s" and w: "world_ok S w s" and ex: "executes S added s w w1"
    and pre: "update_pre S (Some e) added removed" and run: "e \<notin> paused_states s"
  shows "\<exists>s' w'. Executor_updateStates w1 s (Some e) added removed = Some (s', w') \<and>
    schedules (after S added removed) s' \<and> world_ok (after S added removed) w' s'"
proof -
  have x: "w_states w1 = S" "rng_ok (w_rng w1)" "tree_matches (S \<union> set added) (w_tree w1)" "feasible w1 s"
    using ex w by (simp_all add: executes_def world_ok_def)
  have "updated_to (after S added removed) w1 s (update w1 s (Some e) added removed)"
    using update_schedules [OF ok pre _ x(4)] run by simp
  then obtain s' w2 where u: "update w1 s (Some e) added removed = Some (s', w2)"
    "schedules (after S added removed) s'" "kept s s'" "same_world w1 w2"
    unfolding updated_to_def by blast
  let ?w2 = "w2\<lparr>w_states := w_states w2 \<union> set added\<rparr>"
  have w2: "w_states ?w2 = S \<union> set added" "w_tree ?w2 = w_tree w1" "rng_ok (w_rng ?w2)"
    using u(4) x(1,2) by (simp_all add: same_world_def)
  have rm: "distinct removed" "set removed \<subseteq> w_states ?w2" "tree_matches (w_states ?w2) (w_tree ?w2)"
    using pre w2 x(3) by (simp_all add: update_pre_def)
  obtain tree where r: "remove_from_executor removed ?w2 =
      Some (?w2\<lparr>w_states := w_states ?w2 - set removed, w_tree := tree\<rparr>)"
    "w_states ?w2 - set removed = {} \<or> tree_matches (w_states ?w2 - set removed) tree"
    using remove_from_executor_ok [OF rm(3,1,2)] by blast
  let ?w3 = "?w2\<lparr>w_states := w_states ?w2 - set removed, w_tree := tree\<rparr>"
  have T: "w_states ?w2 - set removed = after S added removed" unfolding w2(1) after_def ..
  have "feasible w2 s'" by (rule kept_feasible [OF u(3) feasible_same [OF u(4) x(4)]])
  moreover have "same_world w2 (?w3\<lparr>w_states := w_states w2, w_tree := w_tree w2\<rparr>)" by (simp add: same_world_def)
  ultimately have f: "feasible ?w3 s'"
    by (induction s') (auto simp: scores_high_def score_def)
  have "finite (after S added removed)" using pre by (simp add: update_pre_def after_def)
  then have "world_ok (after S added removed) ?w3 s'"
    using f r(2) w2(3) unfolding T by (simp add: world_ok_def)
  then show ?thesis using u(1,2) r(1) by (simp add: Executor_updateStates_def)
qed

lemma select_ok:
  assumes "schedules S s" "world_ok S w s" "S \<noteq> {}"
  shows "\<exists>e s' w'. selectState w s = Some (e, s', w') \<and> e \<in> S - paused_states s' \<and> schedules S s' \<and> world_ok S w' s'"
proof -
  obtain e s' w' where r: "selectState w s = Some (e, s', w')" "e \<in> S - paused_states s'" "schedules S s'" "kept s s'"
    "same_world w w'" using select_schedules [of S s w] assms by (auto simp: world_ok_def)
  have "world_ok S w' s'"
    using assms(2) r(4,5) kept_feasible [OF r(4) feasible_same [OF r(5)]] by (simp add: world_ok_def same_world_def)
  then show ?thesis using r by blast
qed

interpretation executor: scheduler schedules paused_states world_ok selectState Executor_updateStates executes
proof (unfold_locales, goal_cases)
  case (1 S s w)
  then show ?case by (rule select_ok)
next
  case (2 S s w added w1 e removed)
  then show ?case by (rule updateStates_ok)
qed

text \<open>A round of the loop on the model, and what holds of the states it passes.\<close>

inductive executor_step :: "'e::linorder searcher \<times> 'e world \<Rightarrow> 'e searcher \<times> 'e world \<Rightarrow> bool" where
  "w_states w \<noteq> {} \<Longrightarrow> selectState w s = Some (e, s1, w1) \<Longrightarrow> executes (w_states w) added s1 w1 w2 \<Longrightarrow>
   update_pre (w_states w) (Some e) added removed \<Longrightarrow>
   Executor_updateStates w2 s1 (Some e) added removed = Some (s', w') \<Longrightarrow> executor_step (s, w) (s', w')"

definition config_ok :: "'e::linorder searcher \<times> 'e world \<Rightarrow> bool" where
  "config_ok c = (let (s, w) = c in schedules (w_states w) s \<and> world_ok (w_states w) w s)"

lemma config_good: "config_ok (s, w) \<longleftrightarrow> executor.good (w_states w, s, w)"
  by (simp add: config_ok_def)

lemma good_config: "executor.good (S, s, w) \<Longrightarrow> S = w_states w \<and> config_ok (s, w)"
  by (auto simp: config_ok_def world_ok_def)

lemma executor_step_round:
  assumes "executor_step (s, w) (s', w')" "config_ok (s, w)"
  shows "executor.round (w_states w, s, w) (w_states w', s', w')"
  using assms(1)
proof (cases rule: executor_step.cases)
  case (1 e s1 w1 added w2 removed)
  have r: "executor.round (w_states w, s, w) (after (w_states w) added removed, s', w')"
    by (rule executor.round.intros [OF 1])
  have "executor.good (w_states w, s, w)" using assms(2) unfolding config_good .
  from executor.round_good [OF r this] have "after (w_states w) added removed = w_states w'" using good_config by blast
  then show ?thesis using r by simp
qed

lemma executor_step_ok: "executor_step c c' \<Longrightarrow> config_ok c \<Longrightarrow> config_ok c'"
  using executor_step_round executor.round_good config_good by (metis surj_pair)

lemma executor_steps_ok: "executor_step\<^sup>*\<^sup>* c c' \<Longrightarrow> config_ok c \<Longrightarrow> config_ok c'"
  by (induction rule: rtranclp_induct) (blast intro: executor_step_ok)+

end
