(* ===== verification/UserSearcher.thy ===== *)
theory UserSearcher
  imports ExecutorLoop
begin

text \<open>
  \<open>lib/Core/UserSearcher.cpp\<close> and the head of the loop of \<open>Executor::run\<close>: the searcher
  that the command line asks for, and its first update with the initial states. The
  options that the searchers get are the record \<open>search_options\<close>; the contents of the
  feature and weight files stand for their names. With \<open>--use-merge\<close> the searcher is wrapped
  in a \<open>MergingSearcher\<close>, whose own operations are not modelled: the loop is considered
  without it.
\<close>

section \<open>The code\<close>

datatype core_search =
    DFS | BFS | RandomState | RandomPath | NURS_CovNew | NURS_MD2U | NURS_Depth | NURS_RP | NURS_ICnt
  | NURS_CPICnt | NURS_QC | AutoFeat

record search_options =
  CoreSearch :: "core_search list"
  UseIterativeDeepeningTimeSearch :: bool
  UseBatchingSearch :: bool
  UseBranchingSearch :: bool
  UseMerge :: bool
  BatchInstructions :: uint32
  BatchTime :: int
  FeatureCond :: string
  Weight :: "rat list"

definition initializeSearchOptions :: "search_options \<Rightarrow> search_options" where
  "initializeSearchOptions opts =
    (if CoreSearch opts = []
     then opts\<lparr>CoreSearch := if UseMerge opts then [NURS_CovNew] else [RandomPath, NURS_CovNew]\<rparr>
     else opts)"

definition userSearcherRequiresMD2U :: "search_options \<Rightarrow> bool" where
  "userSearcherRequiresMD2U opts =
    list_ex (\<lambda>t. t \<in> set (CoreSearch opts)) [NURS_MD2U, NURS_CovNew, NURS_ICnt, NURS_CPICnt, NURS_QC, AutoFeat]"

definition getNewSearcher :: "search_options \<Rightarrow> core_search \<Rightarrow> 'e searcher" where
  "getNewSearcher opts type =
    (case type of
       DFS \<Rightarrow> DFSSearcher []
     | BFS \<Rightarrow> BFSSearcher []
     | RandomState \<Rightarrow> RandomSearcher []
     | RandomPath \<Rightarrow> RandomPathSearcher
     | NURS_CovNew \<Rightarrow> new_WeightedRandomSearcher CoveringNew
     | NURS_MD2U \<Rightarrow> new_WeightedRandomSearcher MinDistToUncovered
     | NURS_Depth \<Rightarrow> new_WeightedRandomSearcher Depth
     | NURS_RP \<Rightarrow> new_WeightedRandomSearcher RP
     | NURS_ICnt \<Rightarrow> new_WeightedRandomSearcher InstCount
     | NURS_CPICnt \<Rightarrow> new_WeightedRandomSearcher CPInstCount
     | NURS_QC \<Rightarrow> new_WeightedRandomSearcher QueryCost
     | AutoFeat \<Rightarrow> AutoFeatureSearcher (AutoFeature_new (FeatureCond opts) (Weight opts)))"

text \<open>The searcher that is constructed, wrapped for merging or not. \<open>klee_error\<close> ends the run: \<open>None\<close>.\<close>

datatype 'e user_searcher = BaseSearcher "'e searcher" | MergingSearcher "'e searcher"

definition constructUserSearcher :: "search_options \<Rightarrow> 'e user_searcher option" where
  "constructUserSearcher opts =
    do {
      t \<leftarrow> nth_opt (CoreSearch opts) 0;
      let s0 = getNewSearcher opts t;
          s1 = (if 1 < length (CoreSearch opts)
                then new_InterleavedSearcher (s0 # map (getNewSearcher opts) (tl (CoreSearch opts))) else s0);
          s2 = (if UseBranchingSearch opts then new_BranchingSearcher s1 else s1);
          s3 = (if UseBatchingSearch opts then new_BatchingSearcher s2 (BatchTime opts) (BatchInstructions opts) else s2);
          s4 = (if UseIterativeDeepeningTimeSearch opts then new_IterativeDeepeningTimeSearcher s3 else s3)
      in if UseMerge opts then check (RandomPath \<notin> set (CoreSearch opts)) (Some (MergingSearcher s4))
         else Some (BaseSearcher s4) }"

text \<open>
  From the construction of the searcher to the first test of the loop, for a searcher that is
  not wrapped for merging.
\<close>

definition Executor_start :: "search_options \<Rightarrow> 'e::linorder world \<Rightarrow> ('e searcher \<times> 'e world) option" where
  "Executor_start opts w =
    do { u \<leftarrow> constructUserSearcher opts;
         (case u of
            BaseSearcher s \<Rightarrow> update w s None (sorted_list_of_set (w_states w)) []
          | MergingSearcher s \<Rightarrow> None) }"

section \<open>Every supported choice is scheduled correctly\<close>

text \<open>
  The features of the file have weights, iterative deepening is not over random paths, and
  states are not merged.
\<close>

definition supported :: "search_options \<Rightarrow> bool" where
  "supported opts \<longleftrightarrow>
     (AutoFeat \<in> set (CoreSearch opts) \<longrightarrow> length (lines_of (FeatureCond opts)) \<le> length (Weight opts)) \<and>
     \<not> (UseIterativeDeepeningTimeSearch opts \<and> RandomPath \<in> set (CoreSearch opts)) \<and> \<not> UseMerge opts"

lemma read_features_range:
  "(\<forall>l i. m l = Some i \<longrightarrow> i < n) \<Longrightarrow> read_features ls m n = (m', n') \<Longrightarrow>
     n' = n + length ls \<and> (\<forall>l i. m' l = Some i \<longrightarrow> i < n')"
proof (induction ls arbitrary: m n)
  case (Cons l ls)
  have range: "\<forall>k i. (m(l \<mapsto> n)) k = Some i \<longrightarrow> i < n + 1" using Cons.prems(1) by (auto simp: less_Suc_eq)
  have "read_features ls (m(l \<mapsto> n)) (n + 1) = (m', n')"
    using Cons.prems(2) by (simp del: fun_upd_apply)
  then have r: "n' = n + 1 + length ls \<and> (\<forall>l i. m' l = Some i \<longrightarrow> i < n')" by (rule Cons.IH [OF range])
  have len: "n + length (l # ls) = n + 1 + length ls" by simp
  show ?case unfolding len by (rule r)
qed auto

lemma AutoFeature_new_ok:
  assumes "length (lines_of text) \<le> length ws"
  shows "af_ok {} (AutoFeature_new text ws)"
proof -
  obtain m n where r: "read_features (lines_of text) (\<lambda>_. None) 0 = (m, n)" by fastforce
  from read_features_range [OF _ r] have "\<And>l i. m l = Some i \<Longrightarrow> i < length ws" using assms by fastforce
  then show ?thesis using r by (simp add: AutoFeature_new_def af_ok_def map_ok_def features_ok_def)
qed

lemma getNewSearcher_ok:
  assumes "type = AutoFeat \<Longrightarrow> length (lines_of (FeatureCond opts)) \<le> length (Weight opts)"
  shows "tracks {} (getNewSearcher opts type)" "pathfree (getNewSearcher opts type) \<longleftrightarrow> type \<noteq> RandomPath"
  using assms AutoFeature_new_ok [of "FeatureCond opts" "Weight opts"]
  by (cases type; simp add: getNewSearcher_def new_WeightedRandomSearcher_def pdf_ok_def pdf_keys_def)+

lemma constructUserSearcher_ok:
  assumes ne: "CoreSearch opts \<noteq> []" and ok: "supported opts"
  shows "\<exists>s :: 'e::linorder searcher. constructUserSearcher opts = Some (BaseSearcher s) \<and> schedules {} s"
proof -
  let ?new = "getNewSearcher opts :: core_search \<Rightarrow> 'e searcher"
  obtain t ts where c: "CoreSearch opts = t # ts" using ne by (cases "CoreSearch opts") auto
  have new: "tracks {} (?new u)" "pathfree (?new u) \<longleftrightarrow> u \<noteq> RandomPath" if "u \<in> set (t # ts)" for u
    using getNewSearcher_ok [of u opts] ok that by (auto simp: supported_def c)
  define s1 where "s1 = (if ts \<noteq> [] then new_InterleavedSearcher (?new t # map ?new ts) else ?new t)"
  have s1: "tracks {} s1" "pathfree s1 \<longleftrightarrow> RandomPath \<notin> set (t # ts)"
    using new unfolding s1_def new_InterleavedSearcher_def by auto
  define s2 where "s2 = (if UseBranchingSearch opts then new_BranchingSearcher s1 else s1)"
  have s2: "tracks {} s2" "pathfree s2 \<longleftrightarrow> pathfree s1"
    using s1 unfolding s2_def new_BranchingSearcher_def by auto
  define s3 where "s3 = (if UseBatchingSearch opts
                         then new_BatchingSearcher s2 (BatchTime opts) (BatchInstructions opts) else s2)"
  have s3: "tracks {} s3" "pathfree s3 \<longleftrightarrow> pathfree s1"
    using s2 unfolding s3_def new_BatchingSearcher_def by auto
  define s4 where "s4 = (if UseIterativeDeepeningTimeSearch opts then new_IterativeDeepeningTimeSearcher s3 else s3)"
  have "schedules {} s4"
  proof (cases "UseIterativeDeepeningTimeSearch opts")
    case True
    then show ?thesis using s1 s3 ok by (simp add: s4_def new_IterativeDeepeningTimeSearcher_def supported_def c)
  next
    case False
    then show ?thesis using s3(1) by (cases s3) (simp_all add: s4_def)
  qed
  moreover have "constructUserSearcher opts = Some (BaseSearcher s4)"
    using ok unfolding constructUserSearcher_def c s4_def s3_def s2_def s1_def by (simp add: nth_opt_def supported_def)
  ultimately show ?thesis by blast
qed

text \<open>The executor starts in a configuration in which its loop runs.\<close>

lemma Executor_start_ok:
  fixes w :: "'e::linorder world"
  assumes ne: "CoreSearch opts \<noteq> []" and ok: "supported opts"
    and w: "finite (w_states w)" "rng_ok (w_rng w)" "tree_matches (w_states w) (w_tree w)"
    and f: "\<And>s. constructUserSearcher opts = Some (BaseSearcher s) \<Longrightarrow> feasible w s"
  shows "\<exists>s w'. Executor_start opts w = Some (s, w') \<and> config_ok (s, w') \<and> w_states w' = w_states w"
proof -
  obtain s0 :: "'e searcher" where s0: "constructUserSearcher opts = Some (BaseSearcher s0)" "schedules {} s0"
    using constructUserSearcher_ok [OF ne ok] by blast
  let ?S = "sorted_list_of_set (w_states w)"
  have "update_pre {} None ?S []" using w(1) by (simp add: update_pre_def)
  from update_schedules [OF s0(2) this _ f [OF s0(1)]]
  have "updated_to (after {} ?S []) w s0 (update w s0 None ?S [])" by simp
  moreover have "after {} ?S [] = w_states w" using w(1) by (simp add: after_def)
  ultimately have "updated_to (w_states w) w s0 (update w s0 None ?S [])" by simp
  then obtain s w' where r: "update w s0 None ?S [] = Some (s, w')" "schedules (w_states w) s" "kept s0 s" "same_world w w'"
    unfolding updated_to_def by blast
  have "feasible w' s" by (rule kept_feasible [OF r(3) feasible_same [OF r(4) f [OF s0(1)]]])
  then have "config_ok (s, w')" using r(2,4) w by (simp add: config_ok_def world_ok_def same_world_def)
  then show ?thesis using r(1,4) s0(1) by (simp add: Executor_start_def same_world_def)
qed

end
