(* ===== verification/SearchProps.thy ===== *)
theory SearchProps
  imports UserSearcher
begin

text \<open>
  The properties of the searchers and of the structures below them: the weighted tree
  \<open>DiscretePDF\<close> and the process tree.
\<close>

section \<open>Histories of the weighted tree\<close>

datatype ('k, 'w) pdf_action = PdfInsert 'k 'w | PdfUpdate 'k 'w | PdfRemove 'k

fun pdf_op :: "('k::linorder, 'w::{plus,zero}) dtree \<Rightarrow> ('k, 'w) pdf_action \<Rightarrow> ('k, 'w) dtree option" where
  "pdf_op t (PdfInsert k x) = DiscretePDF_insert k x t"
| "pdf_op t (PdfUpdate k x) = DiscretePDF_update k x t"
| "pdf_op t (PdfRemove k) = DiscretePDF_remove k t"

fun pdf_ops :: "('k::linorder, 'w::{plus,zero}) dtree \<Rightarrow> ('k, 'w) pdf_action list \<Rightarrow> ('k, 'w) dtree option" where
  "pdf_ops t [] = Some t"
| "pdf_ops t (p # ps) = do { t' \<leftarrow> pdf_op t p; pdf_ops t' ps }"

text \<open>The map the tree stands for, and the operations that its assertions allow.\<close>

fun pdf_spec :: "('k \<Rightarrow> 'w option) \<Rightarrow> ('k, 'w) pdf_action \<Rightarrow> 'k \<Rightarrow> 'w option" where
  "pdf_spec m (PdfInsert k x) = m(k \<mapsto> x)"
| "pdf_spec m (PdfUpdate k x) = m(k \<mapsto> x)"
| "pdf_spec m (PdfRemove k) = m(k := None)"

fun pdf_allowed :: "('k \<Rightarrow> 'w option) \<Rightarrow> ('k, 'w) pdf_action \<Rightarrow> bool" where
  "pdf_allowed m (PdfInsert k x) \<longleftrightarrow> m k = None"
| "pdf_allowed m (PdfUpdate k x) \<longleftrightarrow> m k \<noteq> None"
| "pdf_allowed m (PdfRemove k) \<longleftrightarrow> m k \<noteq> None"

fun pdf_valid :: "('k \<Rightarrow> 'w option) \<Rightarrow> ('k, 'w) pdf_action list \<Rightarrow> bool" where
  "pdf_valid m [] \<longleftrightarrow> True"
| "pdf_valid m (p # ps) \<longleftrightarrow> pdf_allowed m p \<and> pdf_valid (pdf_spec m p) ps"

definition pdf_map :: "('k, 'w) dtree \<Rightarrow> 'k \<Rightarrow> 'w option" where
  "pdf_map t = map_of (entries t)"

lemma map_of_update_value:
  "map_of (map (\<lambda>(k, w). (k, if k = a then x else w)) es) =
     (\<lambda>k. if k = a \<and> a \<in> fst ` set es then Some x else map_of es k)"
  by (induction es) auto

lemma map_of_around:
  fixes es :: "('k::linorder \<times> 'w) list"
  assumes "sorted_wrt (<) (map fst es)" "a \<notin> fst ` set es"
  shows "map_of ([e \<leftarrow> es. fst e < a] @ (a, x) # [e \<leftarrow> es. a < fst e]) = (map_of es)(a \<mapsto> x)"
proof
  fix k
  have f: "map_of [e \<leftarrow> es. P (fst e)] k = (if P k then map_of es k else None)" for P
    by (induction es) auto
  consider "k < a" | "k = a" | "a < k" by fastforce
  then show "map_of ([e \<leftarrow> es. fst e < a] @ (a, x) # [e \<leftarrow> es. a < fst e]) k = ((map_of es)(a \<mapsto> x)) k"
    using f [of "\<lambda>k. k < a"] f [of "\<lambda>k. a < k"] by cases (auto simp: map_add_def split: option.split)
qed

lemma map_of_filter_ne: "map_of [e \<leftarrow> es. fst e \<noteq> a] = (map_of es)(a := None)"
  by (induction es) auto

lemma pdf_map_None: "pdf_map t k = None \<longleftrightarrow> k \<notin> fst ` set (entries t)"
  by (simp add: pdf_map_def map_of_eq_None_iff)

lemma pdf_op_ok:
  assumes "pdf_ok t" "pdf_allowed (pdf_map t) p"
  shows "\<exists>t'. pdf_op t p = Some t' \<and> pdf_ok t' \<and> pdf_map t' = pdf_spec (pdf_map t) p"
proof (cases p)
  case (PdfInsert k x)
  then have k: "k \<notin> fst ` set (entries t)" using assms(2) by (simp add: pdf_map_None)
  have s: "sorted_wrt (<) (map fst (entries t))" using assms(1) by (simp add: pdf_ok_def)
  obtain t' where "DiscretePDF_insert k x t = Some t'" "pdf_ok t'"
    "entries t' = [e \<leftarrow> entries t. fst e < k] @ (k, x) # [e \<leftarrow> entries t. k < fst e]"
    using pdf_insert_ok [OF assms(1) k] by blast
  then show ?thesis unfolding PdfInsert pdf_op.simps pdf_spec.simps pdf_map_def
    using map_of_around [OF s k, of x] by simp
next
  case (PdfUpdate k x)
  then have k: "k \<in> fst ` set (entries t)" using assms(2) pdf_map_None [of t k] by simp
  obtain t' where "DiscretePDF_update k x t = Some t'" "pdf_ok t'"
    "entries t' = map (\<lambda>(a, w). (a, if a = k then x else w)) (entries t)"
    using pdf_update_ok [OF assms(1) k] by blast
  then show ?thesis unfolding PdfUpdate pdf_op.simps pdf_spec.simps pdf_map_def
    using k by (simp add: map_of_update_value fun_eq_iff)
next
  case (PdfRemove k)
  then have k: "k \<in> fst ` set (entries t)" using assms(2) pdf_map_None [of t k] by simp
  obtain t' where "DiscretePDF_remove k t = Some t'" "pdf_ok t'" "entries t' = [e \<leftarrow> entries t. fst e \<noteq> k]"
    using pdf_remove_ok [OF assms(1) k] by blast
  then show ?thesis unfolding PdfRemove pdf_op.simps pdf_spec.simps pdf_map_def
    by (simp add: map_of_filter_ne)
qed

lemma pdf_ops_ok:
  "pdf_ok t \<Longrightarrow> pdf_valid (pdf_map t) ps \<Longrightarrow>
     \<exists>t'. pdf_ops t ps = Some t' \<and> pdf_ok t' \<and> pdf_map t' = foldl pdf_spec (pdf_map t) ps"
proof (induction ps arbitrary: t)
  case (Cons p ps)
  then obtain t1 where "pdf_op t p = Some t1" "pdf_ok t1" "pdf_map t1 = pdf_spec (pdf_map t) p"
    using pdf_op_ok [of t p] by auto
  then show ?case using Cons.IH [of t1] Cons.prems by simp
qed simp

section \<open>Histories of the process tree\<close>

text \<open>\<open>Executor::fork\<close> attaches the new state and the forked one below the node of the forked one.\<close>

datatype 's tree_action = Fork 's 's | Terminate 's

fun tree_op :: "'s process_tree \<Rightarrow> 's tree_action \<Rightarrow> 's process_tree option" where
  "tree_op h (Fork s new) = do { n \<leftarrow> ptreeNode h s; PTree_attach n new s h }"
| "tree_op h (Terminate s) = do { n \<leftarrow> ptreeNode h s; PTree_remove n h }"

fun tree_ops :: "'s process_tree \<Rightarrow> 's tree_action list \<Rightarrow> 's process_tree option" where
  "tree_ops h [] = Some h"
| "tree_ops h (p # ps) = do { h' \<leftarrow> tree_op h p; tree_ops h' ps }"

fun live_states :: "'s set \<Rightarrow> 's tree_action \<Rightarrow> 's set" where
  "live_states S (Fork s new) = insert new S"
| "live_states S (Terminate s) = S - {s}"

fun tree_valid :: "'s set \<Rightarrow> 's tree_action list \<Rightarrow> bool" where
  "tree_valid S [] \<longleftrightarrow> True"
| "tree_valid S (Fork s new # ps) \<longleftrightarrow> s \<in> S \<and> new \<notin> S \<and> tree_valid (insert new S) ps"
| "tree_valid S (Terminate s # ps) \<longleftrightarrow> s \<in> S \<and> tree_valid (S - {s}) ps"

lemma PTree_fork_state:
  assumes "tree_matches S h" "s \<in> S" "new \<notin> S"
  shows "\<exists>h'. tree_op h (Fork s new) = Some h' \<and> tree_matches (insert new S) h'"
proof -
  obtain t where t: "process_ok h t" "states_of t = S" using assms(1) by (auto simp: tree_matches_def)
  obtain n where n: "ptreeNode h s = Some n" "(s, n) \<in> set (leaves t)"
    using leaf_node [OF t(1), of s] assms(2) t(2) by blast
  obtain h' t' where "PTree_attach n new s h = Some h'" "process_ok h' t'" "states_of t' = (states_of t - {s}) \<union> {new, s}"
    using PTree_attach_ok [OF t(1) n(2), of new s] assms t(2) by auto
  moreover from this(3) have "states_of t' = insert new S" using assms(2) t(2) by auto
  ultimately show ?thesis using n(1) by (auto simp: tree_matches_def)
qed

lemma tree_ops_ok:
  "S = {} \<or> tree_matches S h \<Longrightarrow> tree_valid S ps \<Longrightarrow>
     \<exists>h'. tree_ops h ps = Some h' \<and> (foldl live_states S ps = {} \<or> tree_matches (foldl live_states S ps) h')"
proof (induction ps arbitrary: S h)
  case (Cons p ps)
  show ?case
  proof (cases p)
    case (Fork s new)
    then have v: "s \<in> S" "new \<notin> S" "tree_valid (insert new S) ps" using Cons.prems(2) by simp_all
    then obtain h' where h': "tree_op h (Fork s new) = Some h'" "tree_matches (insert new S) h'"
      using PTree_fork_state [of S h s new] Cons.prems(1) by blast
    from Cons.IH [OF disjI2 [OF h'(2)] v(3)] show ?thesis using Fork h'(1) by (simp del: tree_op.simps)
  next
    case (Terminate s)
    then have v: "s \<in> S" "tree_valid (S - {s}) ps" using Cons.prems(2) by simp_all
    then obtain n h' where h': "ptreeNode h s = Some n" "PTree_remove n h = Some h'"
      "S - {s} = {} \<or> tree_matches (S - {s}) h'"
      using PTree_remove_state [of S h s] Cons.prems(1) by blast
    from Cons.IH [OF h'(3) v(2)] show ?thesis using Terminate h'(1,2) by simp
  qed
qed auto

lemma new_tree_matches: "tree_matches {s} (PTree_new s)"
  using PTree_new_ok [of s] by (simp add: tree_matches_def)

section \<open>The score map of the feature searcher\<close>

lemma map_of_esw_set: "sorted_wrt (<) (map fst m) \<Longrightarrow> map_of (esw_set e x m) = (map_of m)(e \<mapsto> x)"
proof (induction e x m rule: esw_set.induct)
  case (2 e x f y m)
  show ?case
  proof (cases "e < f \<or> e = f")
    case False
    then have "map_of (esw_set e x m) = (map_of m)(e \<mapsto> x)" using 2 by auto
    then show ?thesis using False by (auto simp: fun_eq_iff)
  qed auto
qed (simp add: fun_eq_iff)

lemma map_of_esw_erase: "map_of (esw_erase e m) = (map_of m)(e := None)"
  by (simp add: esw_erase_def map_of_filter_ne)

lemma sorted_esw_set: "sorted_wrt (<) (map fst m) \<Longrightarrow> sorted_wrt (<) (map fst (esw_set e x m))"
  using esw_set_map by blast

lemma af_remove_scores:
  "af_remove a es = Some a' \<Longrightarrow>
     map_of (af_EsWeightMap a') = (\<lambda>e. if e \<in> set es then None else map_of (af_EsWeightMap a) e)"
proof (induction es arbitrary: a)
  case (Cons e es)
  obtain xs where xs: "erase_first e (af_states a) = Some xs" using Cons.prems by (cases "erase_first e (af_states a)") auto
  then have "af_remove (a\<lparr>af_states := xs, af_EsWeightMap := esw_erase e (af_EsWeightMap a)\<rparr>) es = Some a'"
    using Cons.prems by simp
  from Cons.IH [OF this] show ?case by (auto simp: map_of_esw_erase)
qed simp

lemma af_add_scores:
  "af_add w a es = Some (a', w') \<Longrightarrow> features_ok a \<Longrightarrow> sorted_wrt (<) (map fst (af_EsWeightMap a)) \<Longrightarrow>
     map_of (af_EsWeightMap a') = (\<lambda>e. if e \<in> set es then Some (score w a e) else map_of (af_EsWeightMap a) e)"
proof (induction es arbitrary: w a)
  case (Cons e es)
  obtain a1 w1 where g: "AutoFeature_getWeight w a e = Some (score w a e, a1, w1)" "same_features a a1" "same_world w w1"
    "af_states a1 = af_states a" "af_EsWeightMap a1 = af_EsWeightMap a"
    using getWeight_score [OF Cons.prems(2)] by metis
  let ?a = "a1\<lparr>af_EsWeightMap := esw_set e (score w a e) (af_EsWeightMap a1), af_states := af_states a1 @ [e]\<rparr>"
  have sf: "same_features a ?a" using g(2) by (simp add: same_features_def)
  have add: "af_add w1 ?a es = Some (a', w')" using Cons.prems(1) g(1) by simp
  have sorted: "sorted_wrt (<) (map fst (af_EsWeightMap ?a))"
    using sorted_esw_set Cons.prems(3) g(5) by simp
  have "score w1 ?a x = score w a x" for x by (rule same_features_score [OF sf g(3)])
  then show ?case
    using Cons.IH [OF add features_ok_same [OF sf Cons.prems(2)] sorted] g(5)
    by (auto simp: map_of_esw_set [OF Cons.prems(3)] fun_eq_iff)
qed simp

section \<open>A concrete world\<close>

definition demo_info :: es_info where
  "demo_info = \<lparr>es_depth = 1, es_instructions = 10, es_callpath_instructions = 5, es_queryCost = 1 / 4,
     es_minDistLocal = 3, es_distToReturn = 2, es_minDistAtRA = 4, es_instsSinceCovNew = 7, es_stack_size = 1\<rparr>"

definition demo_world :: "nat world" where
  "demo_world = \<lparr>w_rng = RNG_seed 1, w_clock = (\<lambda>n. 5000000000), w_tick = 0, w_instructions = 0,
     w_tree = PTree_new 0, w_states = {0}, w_info = (\<lambda>_. demo_info), w_constraints = (\<lambda>_. ''a'' @ [CHR 0x0A]),
     w_updated = (\<lambda>_. False)\<rparr>"

lemma demo_world_ok: "world_ok {0} demo_world (DFSSearcher [0])"
  by (simp add: world_ok_def demo_world_def seed_ok new_tree_matches)

section \<open>Properties of the searchers\<close>

text \<open>
  The loop of the executor (C1): from the searcher that any supported options construct and
  one initial state, after any number of rounds the searcher schedules exactly the states
  of the executor, the process tree has exactly them as leaves, and as long as there are
  states the next \<open>selectState\<close> returns one of them. Supported are all options but
  \<open>--use-merge\<close>, iterative deepening over random paths, and a feature file with more lines
  than weights. If the feature searcher is among the searchers, the score of every state is
  assumed to stay above -100000000, where its scan for the highest score begins
  (\<open>feasible\<close>): at the start, and after every instruction (in \<open>executes\<close>).
\<close>

theorem executor_invariant:
  fixes w :: "'e::linorder world"
  assumes "CoreSearch opts \<noteq> []" "supported opts" "w_states w = {e0}" "w_tree w = PTree_new e0" "rng_ok (w_rng w)"
    and "\<forall>s. constructUserSearcher opts = Some (BaseSearcher s) \<longrightarrow> feasible w s"
  shows "\<exists>s0 w0. Executor_start opts w = Some (s0, w0) \<and> w_states w0 = {e0} \<and>
    (\<forall>s w'. executor_step\<^sup>*\<^sup>* (s0, w0) (s, w') \<longrightarrow>
       schedules (w_states w') s \<and> (w_states w' = {} \<or> tree_matches (w_states w') (w_tree w')) \<and>
       (w_states w' \<noteq> {} \<longrightarrow> (\<exists>e s1 w1. selectState w' s = Some (e, s1, w1) \<and> e \<in> w_states w')))"
proof -
  have "tree_matches (w_states w) (w_tree w)" using assms(3,4) new_tree_matches by simp
  then obtain s0 w0 where st: "Executor_start opts w = Some (s0, w0)" "config_ok (s0, w0)" "w_states w0 = {e0}"
    using Executor_start_ok [of opts w] assms by auto
  have "schedules (w_states w') s \<and> (w_states w' = {} \<or> tree_matches (w_states w') (w_tree w')) \<and>
       (w_states w' \<noteq> {} \<longrightarrow> (\<exists>e s1 w1. selectState w' s = Some (e, s1, w1) \<and> e \<in> w_states w'))"
    if "executor_step\<^sup>*\<^sup>* (s0, w0) (s, w')" for s w'
  proof -
    have c: "schedules (w_states w') s" "world_ok (w_states w') w' s"
      using executor_steps_ok [OF that st(2)] by (simp_all add: config_ok_def)
    then show ?thesis using select_ok [OF c] by (auto simp: world_ok_def)
  qed
  then show ?thesis using st(1,3) by blast
qed

definition demo_options :: search_options where
  "demo_options = \<lparr>CoreSearch = [RandomPath, NURS_CovNew], UseIterativeDeepeningTimeSearch = False,
     UseBatchingSearch = True, UseBranchingSearch = False, UseMerge = False, BatchInstructions = 10000,
     BatchTime = 5000000000, FeatureCond = [], Weight = []\<rparr>"

theorem executor_invariant_witness:
  "\<exists>s0 w0 s1 w1. Executor_start demo_options demo_world = Some (s0, w0) \<and> selectState w0 s0 = Some (0, s1, w1)"
proof -
  have "\<forall>s. constructUserSearcher demo_options = Some (BaseSearcher s) \<longrightarrow> feasible demo_world s"
    by (simp add: constructUserSearcher_def demo_options_def nth_opt_def Let_def new_BatchingSearcher_def
        new_InterleavedSearcher_def getNewSearcher_def new_WeightedRandomSearcher_def)
  then have "\<exists>s0 w0. Executor_start demo_options demo_world = Some (s0, w0) \<and> w_states w0 = {0} \<and>
    (\<forall>s w'. executor_step\<^sup>*\<^sup>* (s0, w0) (s, w') \<longrightarrow>
       schedules (w_states w') s \<and> (w_states w' = {} \<or> tree_matches (w_states w') (w_tree w')) \<and>
       (w_states w' \<noteq> {} \<longrightarrow> (\<exists>e s1 w1. selectState w' s = Some (e, s1, w1) \<and> e \<in> w_states w')))"
    by (intro executor_invariant [of _ _ 0])
      (simp_all add: demo_options_def supported_def demo_world_def seed_ok)
  then show ?thesis by fastforce
qed

text \<open>
  A round of the loop (C2): in every good configuration \<open>selectState\<close> returns a live state,
  and after an instruction that attaches the forked states to the process tree, keeps the
  generator seeded and keeps the scores of a feature searcher above -100000000
  (\<open>executes\<close>), for every set of forked and terminated states \<open>updateStates\<close> returns and the
  configuration is good again. Without a feature searcher there is no condition on scores.
\<close>

theorem executor_never_stuck:
  assumes "config_ok (s, w)" "w_states w \<noteq> {}"
  shows "\<exists>e s1 w1. selectState w s = Some (e, s1, w1) \<and> e \<in> w_states w \<and>
    (\<forall>added removed w2. executes (w_states w) added s1 w1 w2 \<longrightarrow> update_pre (w_states w) (Some e) added removed \<longrightarrow>
       (\<exists>s' w'. Executor_updateStates w2 s1 (Some e) added removed = Some (s', w') \<and> config_ok (s', w') \<and>
          w_states w' = after (w_states w) added removed))"
proof -
  have "executor.good (w_states w, s, w)" using assms(1) by (simp only: config_good)
  from executor.round_total [OF this assms(2)] show ?thesis using good_config by (metis (no_types, lifting))
qed

theorem executor_never_stuck_witness:
  "\<exists>e s1 w1. selectState demo_world (DFSSearcher [0]) = Some (e, s1, w1) \<and> e \<in> {0} \<and>
    (\<forall>added removed w2. executes {0} added s1 w1 w2 \<longrightarrow> update_pre {0} (Some e) added removed \<longrightarrow>
       (\<exists>s' w'. Executor_updateStates w2 s1 (Some e) added removed = Some (s', w') \<and> config_ok (s', w') \<and>
          w_states w' = after {0} added removed))"
proof -
  have s: "w_states demo_world = {0}" by (simp add: demo_world_def)
  have "config_ok (DFSSearcher [0], demo_world)" using demo_world_ok by (simp add: config_ok_def s)
  from executor_never_stuck [OF this] show ?thesis unfolding s by simp
qed

text \<open>
  Updates (C3): for every composition of searchers that tracks a set of states, iterative
  deepening on the outside or not, \<open>update\<close> with a state that is not paused returns a
  searcher that tracks the set with the added states in and the removed ones out. The added
  states are new, the removed ones are there; the scores that a feature searcher among them
  gives are above -100000000 (\<open>feasible\<close>).
\<close>

theorem searcher_update_contract:
  assumes "schedules S s" "update_pre S c added removed" "\<forall>e. c = Some e \<longrightarrow> e \<notin> paused_states s" "feasible w s"
  shows "\<exists>s' w'. update w s c added removed = Some (s', w') \<and> schedules (after S added removed) s' \<and>
    w_tree w' = w_tree w \<and> w_states w' = w_states w"
  using update_schedules [of S s c added removed w] assms
  unfolding updated_to_def same_world_def by blast

theorem searcher_update_contract_witness:
  "\<exists>s' w'. update demo_world (IterativeDeepeningTimeSearcher (BFSSearcher [0, 1]) 0 1000 {2}) (Some 0) [3] [1] = Some (s', w') \<and>
     schedules {0, 2, 3} s'"
proof -
  have "\<exists>s' w'. update demo_world (IterativeDeepeningTimeSearcher (BFSSearcher [0, 1]) 0 1000 {2}) (Some 0) [3] [1] = Some (s', w') \<and>
     schedules (after {0, 1, 2} [3] [1]) s' \<and> w_tree w' = w_tree demo_world \<and> w_states w' = w_states demo_world"
    by (rule searcher_update_contract) (auto simp: update_pre_def)
  moreover have "after {0, 1, 2} [3] [1] = {0, 2, 3 :: nat}" by (auto simp: after_def)
  ultimately show ?thesis by auto
qed

text \<open>
  Iterative deepening over a random-path searcher: with \<open>--search=random-path
  --search=nurs:covnew\<close>, the default, and \<open>--use-iterative-deepening-time-search\<close>, the only state
  is paused when it has run too long. \<open>InterleavedSearcher::empty\<close> asks only its first
  searcher, which answers for the executor and not for itself, so the paused state is not
  resumed. When it is the turn of the weighted searcher (the index is 2), the next \<open>selectState\<close>
  calls \<open>choose\<close> on an empty tree, whose assertion fails. When it is the turn of the random
  path, the index becomes 2, and the \<open>update\<close> after the instruction updates a state that the
  weighted searcher does not hold, whose assertion fails.
\<close>

definition deepening_default :: "('e, rat) dtree \<Rightarrow> nat \<Rightarrow> int \<Rightarrow> int \<Rightarrow> 'e set \<Rightarrow> 'e searcher" where
  "deepening_default t index start time paused =
     IterativeDeepeningTimeSearcher
       (InterleavedSearcher [RandomPathSearcher, WeightedRandomSearcher t CoveringNew True] index) start time paused"

theorem deepening_random_path_stuck:
  assumes "e \<in> w_states w" "fst (getWallTime w) - start > time"
  shows "(\<exists>w1. update w (deepening_default (DNode False Null Null e x x) i start time {}) (Some e) [] [] =
      Some (deepening_default Null i start time {e}, w1)) \<and>
    (\<forall>w2. selectState w2 (deepening_default Null 2 start time {e}) = None) \<and>
    (\<forall>w2 f s w3. selectState w2 (deepening_default Null 1 start time {e}) = Some (f, s, w3) \<longrightarrow>
       (\<exists>now. s = deepening_default Null 2 now time {e})) \<and>
    (\<forall>w2 now. update w2 (deepening_default Null 2 now time {e}) (Some e) [] [] = None)"
proof -
  let ?wr = "\<lambda>t. WeightedRandomSearcher t CoveringNew True"
  let ?il = "\<lambda>t. InterleavedSearcher [RandomPathSearcher, ?wr t] i"
  obtain now w0 where g: "getWallTime w = (now, w0)" by fastforce
  then have s0: "w_states w0 = w_states w" by (auto simp: getWallTime_def)
  let ?x = "WeightedRandom_getWeight CoveringNew (w_info w0 e)"
  let ?t = "DNode False Null Null e ?x ?x"
  have one: "update w0 (?il (DNode False Null Null e x x)) (Some e) [] [] = Some (?il ?t, w0)"
    by (subst update.simps) (simp add: update.simps [of _ "?wr _"] update.simps [of _ RandomPathSearcher] WeightedRandom_update_def
        DiscretePDF_update_def add_sum_def)
  have two: "update w0 (?il ?t) None [] [e] = Some (?il Null, w0)"
    by (subst update.simps) (simp add: update.simps [of _ "?wr _"] update.simps [of _ RandomPathSearcher] WeightedRandom_update_def
        DiscretePDF_remove_def remove_loc_def)
  have "update w (deepening_default (DNode False Null Null e x x) i start time {}) (Some e) [] [] =
      Some (deepening_default Null i start time {e}, w0)"
    unfolding deepening_default_def
    by (subst update.simps) (use g s0 assms one two in \<open>auto simp: Let_def\<close>)
  moreover have "selectState w2 (deepening_default Null 2 start time {e}) = None" for w2
    by (cases "theRNG_getDoubleL w2") (auto simp: deepening_default_def nth_opt_def DiscretePDF_choose_def check_def)
  moreover have "\<exists>now. s = deepening_default Null 2 now time {e}"
    if "selectState w2 (deepening_default Null 1 start time {e}) = Some (f, s, w3)" for w2 f s w3
    using that by (auto simp: deepening_default_def nth_opt_def split: Option.bind_splits prod.splits)
  moreover have "update w2 (deepening_default Null 2 now time {e}) (Some e) [] [] = None" for w2 now
  proof -
    have "update w3 (InterleavedSearcher [RandomPathSearcher, ?wr Null] 2) (Some e) [] [] = None" for w3
      by (subst update.simps) (simp add: update.simps [of _ "?wr _"] update.simps [of _ RandomPathSearcher] WeightedRandom_update_def
          DiscretePDF_update_def)
    then show ?thesis unfolding deepening_default_def by (subst update.simps) (simp add: Let_def split: prod.split)
  qed
  ultimately show ?thesis by blast
qed

theorem deepening_random_path_stuck_witness:
  "(\<exists>w1. update demo_world (deepening_default (DNode False Null Null 0 1 1) 1 0 1000000000 {}) (Some 0) [] [] =
      Some (deepening_default Null 1 0 1000000000 {0}, w1)) \<and>
    (\<forall>w2 now. update w2 (deepening_default Null 2 now 1000000000 {0 :: nat}) (Some 0) [] [] = None)"
  using deepening_random_path_stuck [where e = 0 and w = demo_world and start = 0 and time = 1000000000 and i = 1 and x = 1] by (simp add: demo_world_def getWallTime_def)

text \<open>
  The instruction budget of \<open>BatchingSearcher\<close> : the start of a batch is kept in 32
  bits of the 64-bit instruction counter, so from 2\<open>^\<close>32 instructions on a batch has
  expired as soon as it has begun, and every \<open>selectState\<close> selects anew.
\<close>

theorem batch_expires_at_once:
  assumes "2 ^ 32 \<le> uint (w_instructions w)" "b_instructionBudget b > 0"
    and "b_lastStartInstructions b = ucast (w_instructions w)"
  shows "fst (batch_expired w b)"
proof -
  let ?i = "w_instructions w"
  have l: "uint (ucast (ucast ?i :: uint32) :: uint64) = uint ?i mod 2 ^ 32"
    by (simp add: unsigned_ucast_eq take_bit_eq_mod uint_mod)
  moreover have le: "uint ?i mod 2 ^ 32 \<le> uint ?i" by (simp add: zmod_le_nonneg_dividend)
  ultimately have "uint (?i - ucast (ucast ?i :: uint32)) = uint ?i - uint ?i mod 2 ^ 32"
    by (simp add: uint_sub_if')
  moreover have "uint ?i - uint ?i mod 2 ^ 32 = 2 ^ 32 * (uint ?i div 2 ^ 32)" by (simp add: minus_mod_eq_mult_div)
  moreover have "1 \<le> uint ?i div 2 ^ 32" using assms(1) by (simp add: zdiv_int pos_imp_zdiv_pos_iff)
  moreover have "uint (ucast (b_instructionBudget b) :: uint64) < 2 ^ 32"
    using uint_lt2p [of "b_instructionBudget b"] by (simp add: unsigned_ucast_eq take_bit_eq_mod)
  ultimately have "ucast (b_instructionBudget b) < ?i - ucast (ucast ?i :: uint32)"
    by (simp add: word_less_def)
  then show ?thesis using assms(2,3)
    by (auto simp: batch_expired_def getWallTime_def Let_def split: prod.split)
qed

theorem batch_expires_at_once_witness:
  "fst (batch_expired (demo_world\<lparr>w_instructions := 5000000000\<rparr>)
     \<lparr>b_timeBudget = 0, b_instructionBudget = 10000, b_lastStartTime = 0, b_lastStartInstructions = ucast (5000000000 :: uint64)\<rparr>)"
  by (rule batch_expires_at_once) simp_all

text \<open>
  The time budget of \<open>BatchingSearcher\<close> : \<open>--batch-time=0s\<close> is documented to disable the
  time limit, but when the instruction budget ends a batch, \<open>selectState\<close> raises a
  budget of 0 to the time of the batch, and later batches are limited by it.
\<close>

theorem disabled_batch_time_returns:
  assumes "b_timeBudget b = 0" "fst (getWallTime w) > b_lastStartTime b"
  shows "b_timeBudget (fst (batch_budget w b)) = fst (getWallTime w) - b_lastStartTime b \<and>
    b_timeBudget (fst (batch_budget w b)) > 0"
  using assms by (auto simp: batch_budget_def getWallTime_def Let_def span_times_1_1_def)

theorem disabled_batch_time_returns_witness:
  "b_timeBudget (fst (batch_budget demo_world
     \<lparr>b_timeBudget = 0, b_instructionBudget = 10000, b_lastStartTime = 2000000000, b_lastStartInstructions = 0\<rparr>)) = 3000000000"
  using disabled_batch_time_returns [of "\<lparr>b_timeBudget = 0, b_instructionBudget = 10000,
     b_lastStartTime = 2000000000, b_lastStartInstructions = 0\<rparr>" demo_world]
  by (simp add: demo_world_def getWallTime_def)

lemma top_score_none: "\<forall>p \<in> set m. snd p \<le> hi \<Longrightarrow> top_score m hi sel = sel"
  by (induction m) auto

text \<open>
  The choice of the feature searcher (C37), with at least ten states at the last update: if
  some state has a score above -100000000, where the scan begins, \<open>selectState\<close> returns the
  state with the highest score, among equal scores the one with the lowest address, and
  leaves the random generator alone. If no score is above it, \<open>selectState\<close> returns the state
  that it selected before, whatever has become of it, or has none to return.
\<close>

theorem feature_select_highest:
  fixes a :: "'e::linorder auto_feature"
  assumes "sorted_wrt (<) (map fst (af_EsWeightMap a))" "af_EsWeightMap a \<noteq> []" "af_updateFeatureMap a"
  shows "if \<exists>p \<in> set (af_EsWeightMap a). snd p > - 100000000
    then \<exists>e x a'. selectState w (AutoFeatureSearcher a) = Some (e, AutoFeatureSearcher a', w) \<and>
      map_of (af_EsWeightMap a) e = Some x \<and> (\<forall>p \<in> set (af_EsWeightMap a). snd p < x \<or> (snd p = x \<and> e \<le> fst p))
    else selectState w (AutoFeatureSearcher a) = map_option (\<lambda>e. (e, AutoFeatureSearcher a, w)) (af_selectedState a)"
proof (cases "\<exists>p \<in> set (af_EsWeightMap a). snd p > - 100000000")
  case True
  have d: "distinct (map fst (af_EsWeightMap a))" using assms(1) by (simp add: strict_sorted_iff)
  obtain e x where r: "top_score (af_EsWeightMap a) (- 100000000) (af_selectedState a) = Some e"
    "best_entry (af_EsWeightMap a) e x" using top_score_ok [OF True assms(1)] by blast
  have e: "map_of (af_EsWeightMap a) e = Some x" using r(2) d by (simp add: best_entry_def)
  have "selectState w (AutoFeatureSearcher a) = Some (e, AutoFeatureSearcher (a\<lparr>af_selectedState := Some e\<rparr>), w)"
    using r(1) assms(2,3) by (simp add: AutoFeature_selectState_def)
  then show ?thesis using True e r(2) unfolding best_entry_def by auto
next
  case False
  then have "top_score (af_EsWeightMap a) (- 100000000) (af_selectedState a) = af_selectedState a"
    by (intro top_score_none) (auto simp: not_less)
  then show ?thesis using False assms(2,3) by (cases "af_selectedState a") (simp_all add: AutoFeature_selectState_def)
qed

definition demo_features :: "nat auto_feature" where
  "demo_features = \<lparr>af_states = [1, 0], af_selectedState = None, af_updateFeatureMap = True,
     af_feature_map = (\<lambda>_. None), af_encountered = {}, af_weights = [], af_EsWeightMap = [(0, 1), (1, 3)],
     af_featureCount = 0\<rparr>"

lemma demo_features_ok: "af_ok {0, 1} demo_features"
  by (auto simp: demo_features_def af_ok_def map_ok_def features_ok_def)

theorem feature_select_highest_witness:
  "\<exists>a'. selectState demo_world (AutoFeatureSearcher demo_features) = Some (1, AutoFeatureSearcher a', demo_world)"
proof -
  obtain e x a' where r: "selectState demo_world (AutoFeatureSearcher demo_features) = Some (e, AutoFeatureSearcher a', demo_world)"
    "map_of (af_EsWeightMap demo_features) e = Some x"
    "\<forall>p \<in> set (af_EsWeightMap demo_features). snd p < x \<or> (snd p = x \<and> e \<le> fst p)"
    using feature_select_highest [of demo_features demo_world] by (auto simp: demo_features_def)
  have "e = 1" using r(2,3) by (auto simp: demo_features_def split: if_splits)
  then show ?thesis using r(1) by auto
qed

text \<open>
  The scores of the feature searcher (C38): after an update, the recorded score of an added
  state, and of the current one if its constraints have changed, is the sum of the weights
  of the features among its printed constraints; the scores of the other states stay, and
  removed states have none.
\<close>

theorem feature_update_scores:
  assumes "af_ok S a" "AutoFeature_update w a c added removed = Some (a', w')"
  shows "map_of (af_EsWeightMap a') = (\<lambda>e.
    if e \<in> set removed then None
    else if e \<in> set added \<or> (c = Some e \<and> w_updated w e)
      then Some (\<Sum>l \<leftarrow> lines_of (w_constraints w e).
             case af_feature_map a (abstractCond l) of None \<Rightarrow> 0 | Some i \<Rightarrow> af_weights a ! i)
    else map_of (af_EsWeightMap a) e)"
proof -
  have ok: "features_ok a" "sorted_wrt (<) (map fst (af_EsWeightMap a))"
    using assms(1) by (simp_all add: af_ok_def map_ok_def)
  let ?current = "case c of
           None \<Rightarrow> Some (a, w)
         | Some c \<Rightarrow>
             if w_updated w c then
               do { (x, a', w') \<leftarrow> AutoFeature_getWeight w a c;
                    Some (a'\<lparr>af_EsWeightMap := esw_set c x (af_EsWeightMap a')\<rparr>, w') }
             else Some (a, w)"
  obtain a1 w1 where s1: "?current = Some (a1, w1)" "features_ok a1" "same_features a a1" "same_world w w1"
    "sorted_wrt (<) (map fst (af_EsWeightMap a1))"
    "map_of (af_EsWeightMap a1) =
       (\<lambda>e. if c = Some e \<and> w_updated w e then Some (score w a e) else map_of (af_EsWeightMap a) e)"
  proof (cases "\<exists>e. c = Some e \<and> w_updated w e")
    case True
    then obtain e where e: "c = Some e" "w_updated w e" by blast
    obtain a1 w1 where g: "AutoFeature_getWeight w a e = Some (score w a e, a1, w1)" "same_features a a1" "same_world w w1"
      "af_EsWeightMap a1 = af_EsWeightMap a" using getWeight_score [OF ok(1)] by metis
    let ?a = "a1\<lparr>af_EsWeightMap := esw_set e (score w a e) (af_EsWeightMap a1)\<rparr>"
    have sf: "same_features a ?a" using g(2) by (simp add: same_features_def)
    show ?thesis
      by (rule that [of ?a w1]) (use e g sf features_ok_same [OF sf ok(1)] sorted_esw_set [OF ok(2)] in
        \<open>auto simp: map_of_esw_set [OF ok(2)] fun_eq_iff\<close>)
  next
    case False
    then show ?thesis by (intro that [of a w]) (use ok in \<open>auto simp: fun_eq_iff split: option.split\<close>)
  qed
  obtain a2 w2 where s2: "af_add w1 a1 added = Some (a2, w2)"
    using assms(2) s1(1) unfolding AutoFeature_update_def by (cases "af_add w1 a1 added") auto
  obtain a3 where s3: "af_remove a2 removed = Some a3"
    using assms(2) s1(1) s2 unfolding AutoFeature_update_def by (cases "af_remove a2 removed") auto
  have "af_EsWeightMap a' = af_EsWeightMap a3"
    using assms(2) s1(1) s2 s3 unfolding AutoFeature_update_def by auto
  moreover have "score w1 a1 e = score w a e" for e by (rule same_features_score [OF s1(3,4)])
  ultimately show ?thesis
    unfolding score_def [symmetric] line_score_def [symmetric]
    using af_remove_scores [OF s3] af_add_scores [OF s2 s1(2,5)] s1(6) by (auto simp: fun_eq_iff)
qed

theorem feature_update_scores_witness:
  "\<exists>a' w'. AutoFeature_update demo_world (demo_features\<lparr>af_feature_map := [''a'' \<mapsto> 0], af_weights := [7]\<rparr>) None [5] [1] = Some (a', w') \<and>
     map_of (af_EsWeightMap a') 5 = Some 7 \<and> map_of (af_EsWeightMap a') 1 = None \<and> map_of (af_EsWeightMap a') 0 = Some 1"
proof -
  let ?a = "demo_features\<lparr>af_feature_map := [''a'' \<mapsto> 0], af_weights := [7]\<rparr>"
  have lines: "lines_of (w_constraints demo_world e) = [''a'']" for e
    by (simp add: demo_world_def lines_of_def)
  have ab: "abstractCond ''a'' = ''a''" by (simp add: abstractCond_def is_digit_def)
  have ok: "af_ok {0, 1} ?a" by (auto simp: demo_features_def af_ok_def map_ok_def features_ok_def)
  have hi: "scores_high demo_world ?a"
    by (simp add: scores_high_def score_def line_score_def lines ab)
  have "update_pre {0, 1} None [5] [1 :: nat]" by (auto simp: update_pre_def)
  from AutoFeature_update_ok [OF ok this hi] obtain a' w' where
    u: "AutoFeature_update demo_world ?a None [5] [1] = Some (a', w')" by blast
  from feature_update_scores [OF ok u] show ?thesis
    using u by (simp add: lines ab demo_features_def)
qed

section \<open>Properties of the weighted tree\<close>

text \<open>
  Histories of \<open>DiscretePDF\<close> (C4): every sequence of insertions of absent items and updates
  and removals of present ones runs through all rotations without failing, leaves the
  items in order with the sums of the weights right and the root black, and \<open>inTree\<close> and
  \<open>getWeight\<close> answer as the map that the same sequence builds.
\<close>

theorem pdf_history:
  fixes ps :: "('k::linorder, 'w::{plus,zero}) pdf_action list"
  assumes "pdf_valid (\<lambda>_. None) ps"
  shows "\<exists>t. pdf_ops Null ps = Some t \<and> pdf_ok t \<and>
    (\<forall>k. DiscretePDF_getWeight k t = foldl pdf_spec (\<lambda>_. None) ps k) \<and>
    (\<forall>k. DiscretePDF_inTree k t \<longleftrightarrow> foldl pdf_spec (\<lambda>_. None) ps k \<noteq> None)"
proof -
  have "pdf_ok (Null :: ('k, 'w) dtree)" "pdf_map (Null :: ('k, 'w) dtree) = (\<lambda>_. None)"
    by (simp_all add: pdf_ok_def pdf_map_def fun_eq_iff)
  then obtain t where t: "pdf_ops Null ps = Some t" "pdf_ok t" "pdf_map t = foldl pdf_spec (\<lambda>_. None) ps"
    using pdf_ops_ok [of Null ps] assms by metis
  have "DiscretePDF_getWeight k t = foldl pdf_spec (\<lambda>_. None) ps k" for k
    using getWeight_ok [OF t(2)] t(3) by (simp add: pdf_map_def)
  moreover have "DiscretePDF_inTree k t \<longleftrightarrow> foldl pdf_spec (\<lambda>_. None) ps k \<noteq> None" for k
    using inTree_ok [OF t(2), of k] pdf_map_None [of t k] t(3) by simp
  ultimately show ?thesis using t(1,2) by blast
qed

theorem pdf_history_witness:
  "\<exists>t. pdf_ops Null [PdfInsert 3 1, PdfInsert 1 4, PdfInsert 2 1, PdfUpdate 3 5, PdfRemove 1] = Some t \<and> pdf_ok t \<and>
     DiscretePDF_getWeight 3 t = Some (5 :: int) \<and> \<not> DiscretePDF_inTree (1 :: nat) t"
proof -
  let ?ps = "[PdfInsert 3 1, PdfInsert 1 4, PdfInsert 2 1, PdfUpdate 3 5, PdfRemove 1] :: (nat, int) pdf_action list"
  have "pdf_valid (\<lambda>_. None) ?ps" by simp
  from pdf_history [OF this] show ?thesis by auto
qed

text \<open>
  The distribution of \<open>choose\<close> (C39): on a correct tree with a positive total weight, \<open>choose p\<close>
  returns the item in whose interval the number \<open>p\<close> times the total falls, where the items
  in order have consecutive intervals, each as long as its weight; so for a uniform \<open>p\<close> an
  item is chosen with the probability of its share of the weight.
\<close>

theorem choose_by_weight:
  fixes t :: "('k::linorder, 'w::linordered_idom) dtree"
  assumes "pdf_ok t" "0 \<le> p" "p < 1" "0 < total_weight (entries t)"
  shows "\<exists>xs k x ys. entries t = xs @ (k, x) # ys \<and> DiscretePDF_choose p t = Some k \<and>
    total_weight xs \<le> total_weight (entries t) * p \<and> total_weight (entries t) * p < total_weight xs + x"
proof -
  have s: "sums_ok t" using assms(1) by (simp add: pdf_ok_def)
  have ne: "t \<noteq> Null" using assms(4) by (auto simp: total_weight_def)
  have "total_weight (entries t) * p < total_weight (entries t)" using assms(3,4) by simp
  from choose_loop_interval [OF s ne _ this] show ?thesis
    using assms(2-4) ne sumWeights_total [OF s] by (simp add: DiscretePDF_choose_def)
qed

theorem choose_by_weight_witness:
  "DiscretePDF_choose (1 / 2 :: rat) (DNode False Null (DNode True Null Null 7 3 3) 4 1 4) = Some (7 :: nat) \<and>
   (\<exists>xs k x ys. [(4, 1), (7, 3)] = xs @ (k :: nat, x :: rat) # ys \<and> total_weight xs \<le> 2 \<and> 2 < total_weight xs + x)"
  using choose_by_weight [of "DNode False Null (DNode True Null Null 7 3 3) (4 :: nat) (1 :: rat) 4" "1 / 2"]
  by (auto simp: pdf_ok_def total_weight_def DiscretePDF_choose_def add_sum_def)

text \<open>
  Weights : the weight of a state is positive under every heuristic, except that
  under \<open>nurs:depth\<close> an initial state, which has depth 0, has weight 0.
\<close>

theorem weights_positive:
  "if ty = Depth then WeightedRandom_getWeight ty i = of_nat (es_depth i) else 0 < WeightedRandom_getWeight ty i"
proof -
  have w: "0 \<le> rat_of_word x" "x \<noteq> 0 \<Longrightarrow> 0 < rat_of_word x" for x :: "'a::len word"
    using word_gt_0 [of x] uint_ge_0 [of x] unfolding rat_of_word_def word_less_def
    by (simp_all only: of_int_0_le_iff of_int_0_less_iff uint_0_eq)
  have m: "0 < rat_of_word (max 1 x)" for x :: uint64
    by (rule w(2)) (auto simp: max_def word_le_def)
  show ?thesis
    using m [of "es_instructions i"] m [of "es_callpath_instructions i"] w(2) [of "computeMinDistToUncovered i"]
    by (cases ty) (auto simp: WeightedRandom_getWeight_def Let_def add_nonneg_pos)
qed

section \<open>Properties of the process tree\<close>

text \<open>
  Histories of the process tree (C40): from the tree of one state, every sequence of forks
  of live states into new ones and of terminations of live states follows no null or freed
  node and fails no assertion, and while there are states the tree has exactly them as
  leaves, with every state pointing to its leaf and every inner node having children.
\<close>

theorem process_tree_history:
  assumes "tree_valid {s} ps"
  shows "\<exists>h. tree_ops (PTree_new s) ps = Some h \<and>
    (foldl live_states {s} ps = {} \<or> (\<exists>t. process_ok h t \<and> states_of t = foldl live_states {s} ps))"
  using tree_ops_ok [of "{s}" "PTree_new s" ps] new_tree_matches [of s] assms
  unfolding tree_matches_def by blast

theorem process_tree_history_witness:
  "\<exists>h t. tree_ops (PTree_new (0 :: nat)) [Fork 0 1, Fork 1 2, Terminate 0] = Some h \<and> process_ok h t \<and> states_of t = {1, 2}"
proof -
  let ?ps = "[Fork 0 1, Fork 1 2, Terminate 0] :: nat tree_action list"
  have live: "foldl live_states {0} ?ps = {1, 2}" by auto
  have "tree_valid {0} ?ps" by simp
  from process_tree_history [OF this] show ?thesis unfolding live by blast
qed

text \<open>
  The random path: on the process tree of the live states the walk of
  \<open>RandomPathSearcher::selectState\<close> ends, at a live state, whatever bits the generator returns.
\<close>

theorem random_path_selects_live:
  assumes "process_ok (w_tree w) t" "rng_ok (w_rng w)"
  shows "\<exists>e w'. selectState w RandomPathSearcher = Some (e, RandomPathSearcher, w') \<and> e \<in> states_of t \<and> rng_ok (w_rng w')"
  using RandomPath_ok [OF assms] by auto

theorem random_path_selects_live_witness:
  "\<exists>w'. selectState demo_world RandomPathSearcher = Some (0, RandomPathSearcher, w')"
proof -
  obtain t where t: "process_ok (w_tree demo_world) t" "states_of t = {0}"
    using PTree_new_ok [of 0] by (auto simp: demo_world_def)
  have "rng_ok (w_rng demo_world)" by (simp add: demo_world_def seed_ok)
  from random_path_selects_live [OF t(1) this] show ?thesis using t(2) by auto
qed

end
