(* ===== verification/Memory.thy ===== *)
theory Memory
  imports ExprShape Bits
begin

text \<open>
  \<open>lib/Core/Memory.h\<close>, \<open>lib/Core/Memory.cpp\<close> and \<open>lib/Expr/ArrayCache.cpp\<close>: memory objects and the
  state of their bytes.  A byte is concrete (in \<open>concreteStore\<close>), known symbolic (an expression
  in \<open>knownSymbolics\<close>), or it is found in the update list \<open>updates\<close> only; two packed bit arrays
  that may be missing and an array of pointers that may be missing say which.

  The state that the operations pass on is the object with the global state: the cache of
  arrays and the counters that name new arrays.  Members declared \<open>mutable\<close> change in \<open>const\<close>
  operations too.  The endianness and pointer width of the target, the options, the text of a
  number (\<open>llvm::utostr\<close>) and the addresses that \<open>new\<close> returns are the environment.
\<close>

subsection \<open>class ArrayCache\<close>

record array_cache =
  cachedSymbolicArrays :: "array list"
  concreteArrays :: "array list"

record mem_env =
  me_expr :: expr_env
  UseConstantArrays :: bool
  isLittleEndian :: bool
  pointerWidth :: width
  utostr :: "uint32 \<Rightarrow> string"
  new_addr :: "nat \<Rightarrow> nat"

record mem_globals =
  arrayCache :: array_cache
  const_arr_id :: uint32
  tmp_arr_id :: uint32

definition cache_arrays :: "array_cache \<Rightarrow> array list" where
  "cache_arrays C = cachedSymbolicArrays C @ concreteArrays C"

text \<open>The key of the hash set: size and name.\<close>

definition EquivArrayCmpFn :: "array \<Rightarrow> array \<Rightarrow> bool" where
  "EquivArrayCmpFn a b \<longleftrightarrow> arr_size a = arr_size b \<and> arr_name a = arr_name b"

definition CreateArray ::
  "mem_env \<Rightarrow> string \<Rightarrow> nat \<Rightarrow> apint list \<Rightarrow> width \<Rightarrow> width \<Rightarrow> array_cache
   \<Rightarrow> (array \<times> array_cache) option" where
  "CreateArray E nm sz constantValues domain range' C = do {
     a \<leftarrow> Array_new (new_addr E (length (cache_arrays C))) nm sz constantValues domain range';
     if isSymbolicArray a then
       (case find (EquivArrayCmpFn a) (cachedSymbolicArrays C) of
          None \<Rightarrow> Some (a, C\<lparr>cachedSymbolicArrays := cachedSymbolicArrays C @ [a]\<rparr>)
        | Some b \<Rightarrow> check (isSymbolicArray b) (Some (b, C)))
     else check (isConstantArray a) (Some (a, C\<lparr>concreteArrays := concreteArrays C @ [a]\<rparr>)) }"

subsection \<open>class MemoryObject\<close>

record memory_object =
  mo_id :: nat
  mo_address :: uint64
  mo_size :: uint32
  mo_isLocal :: bool
  mo_isGlobal :: bool
  mo_isFixed :: bool
  mo_isUserSpecified :: bool
  mo_allocSite :: "nat option"

definition getBaseExpr :: "mem_env \<Rightarrow> memory_object \<Rightarrow> apint option" where
  "getBaseExpr E mo = ConstantExpr_create (api (me_expr E)) (mo_address mo) (pointerWidth E)"

definition getSizeExpr :: "mem_env \<Rightarrow> memory_object \<Rightarrow> apint option" where
  "getSizeExpr E mo = ConstantExpr_create (api (me_expr E)) (ucast (mo_size mo)) (pointerWidth E)"

definition getOffsetExpr :: "mem_env \<Rightarrow> memory_object \<Rightarrow> expr \<Rightarrow> expr option" where
  "getOffsetExpr E mo pointer = do {
     base \<leftarrow> getBaseExpr E mo;
     SubExpr_create (me_expr E) pointer (ConstantExpr base) }"

definition getBoundsCheckOffset :: "mem_env \<Rightarrow> memory_object \<Rightarrow> expr \<Rightarrow> expr option" where
  "getBoundsCheckOffset E mo offset =
     (if mo_size mo = 0 then
        EqExpr_create (me_expr E) offset
          (ConstantExpr (ConstantExpr_alloc_u64 (api (me_expr E)) 0 (pointerWidth E)))
      else do {
        sz \<leftarrow> getSizeExpr E mo;
        UltExpr_create (me_expr E) offset (ConstantExpr sz) })"

text \<open>The overload with a number of bytes; \<open>size - bytes + 1\<close> is computed in 32 bits.\<close>

definition getBoundsCheckOffset_bytes ::
  "mem_env \<Rightarrow> memory_object \<Rightarrow> expr \<Rightarrow> uint32 \<Rightarrow> expr option" where
  "getBoundsCheckOffset_bytes E mo offset bytes =
     (if bytes \<le> mo_size mo then
        UltExpr_create (me_expr E) offset
          (ConstantExpr (ConstantExpr_alloc_u64 (api (me_expr E)) (ucast (mo_size mo - bytes + 1)) (pointerWidth E)))
      else Some (ConstantExpr (ConstantExpr_alloc_u64 (api (me_expr E)) 0 Bool_width)))"

definition getBoundsCheckPointer :: "mem_env \<Rightarrow> memory_object \<Rightarrow> expr \<Rightarrow> expr option" where
  "getBoundsCheckPointer E mo pointer = do {
     off \<leftarrow> getOffsetExpr E mo pointer;
     getBoundsCheckOffset E mo off }"

definition getBoundsCheckPointer_bytes ::
  "mem_env \<Rightarrow> memory_object \<Rightarrow> expr \<Rightarrow> uint32 \<Rightarrow> expr option" where
  "getBoundsCheckPointer_bytes E mo pointer bytes = do {
     off \<leftarrow> getOffsetExpr E mo pointer;
     getBoundsCheckOffset_bytes E mo off bytes }"

text \<open>Allocation sites are compared by address, as the objects are.\<close>

definition site_compare :: "nat option \<Rightarrow> nat option \<Rightarrow> int" where
  "site_compare a b =
     (let addr = (\<lambda>s. case s of None \<Rightarrow> 0 | Some n \<Rightarrow> Suc n) in cmp3 (addr a) (addr b))"

definition MemoryObject_compare :: "memory_object \<Rightarrow> memory_object \<Rightarrow> int" where
  "MemoryObject_compare a b =
     (if mo_id a = mo_id b then 0
      else orElse (cmp3 (mo_address a) (mo_address b))
        (orElse (cmp3 (mo_size a) (mo_size b)) (site_compare (mo_allocSite a) (mo_allocSite b))))"

subsection \<open>class ObjectState: data and caches\<close>

record object_state =
  copyOnWriteOwner :: uint32
  os_object :: memory_object
  concreteStore :: "8 word list"
  concreteMask :: "uint32 list option"
  flushMask :: "uint32 list option"
  knownSymbolics :: "expr option list option"
  upd_root :: "array option"
  upd_head :: unode
  os_size :: uint32
  readOnly :: bool

type_synonym mem = "object_state \<times> mem_globals"

text \<open>An assignment to an element of a C++ array: past its end it is \<open>None\<close>.\<close>

definition set_opt :: "'a list \<Rightarrow> nat \<Rightarrow> 'a \<Rightarrow> 'a list option" where
  "set_opt xs i x = (if i < length xs then Some (xs[i := x]) else None)"

fun foldM :: "('s \<Rightarrow> 'x \<Rightarrow> 's option) \<Rightarrow> 's \<Rightarrow> 'x list \<Rightarrow> 's option" where
  "foldM f s [] = Some s"
| "foldM f s (x # xs) = do { s' \<leftarrow> f s x; foldM f s' xs }"

text \<open>The offsets of \<open>for (unsigned i = a; i < b; i++)\<close>.\<close>

definition unsigned_range :: "uint32 \<Rightarrow> uint32 \<Rightarrow> uint32 list" where
  "unsigned_range a b = map of_nat [unat a ..< unat b]"

definition isByteConcrete :: "object_state \<Rightarrow> uint32 \<Rightarrow> bool option" where
  "isByteConcrete s off =
     (case concreteMask s of None \<Rightarrow> Some True | Some m \<Rightarrow> BitArray_get m (unat off))"

definition isByteFlushed :: "object_state \<Rightarrow> uint32 \<Rightarrow> bool option" where
  "isByteFlushed s off =
     (case flushMask s of None \<Rightarrow> Some False | Some m \<Rightarrow> map_option Not (BitArray_get m (unat off)))"

definition isByteKnownSymbolic :: "object_state \<Rightarrow> uint32 \<Rightarrow> bool option" where
  "isByteKnownSymbolic s off =
     (case knownSymbolics s of
        None \<Rightarrow> Some False
      | Some k \<Rightarrow> map_option (\<lambda>e. e \<noteq> None) (nth_opt k (unat off)))"

definition markByteConcrete :: "object_state \<Rightarrow> uint32 \<Rightarrow> object_state option" where
  "markByteConcrete s off =
     (case concreteMask s of
        None \<Rightarrow> Some s
      | Some m \<Rightarrow> do { m \<leftarrow> BitArray_set m (unat off); Some (s\<lparr>concreteMask := Some m\<rparr>) })"

definition markByteSymbolic :: "object_state \<Rightarrow> uint32 \<Rightarrow> object_state option" where
  "markByteSymbolic s off =
     (let m = (case concreteMask s of None \<Rightarrow> BitArray_new (unat (os_size s)) True | Some m \<Rightarrow> m)
      in do { m \<leftarrow> BitArray_unset m (unat off); Some (s\<lparr>concreteMask := Some m\<rparr>) })"

definition markByteUnflushed :: "object_state \<Rightarrow> uint32 \<Rightarrow> object_state option" where
  "markByteUnflushed s off =
     (case flushMask s of
        None \<Rightarrow> Some s
      | Some m \<Rightarrow> do { m \<leftarrow> BitArray_set m (unat off); Some (s\<lparr>flushMask := Some m\<rparr>) })"

text \<open>The first byte that is marked flushed marks every byte.\<close>

definition markByteFlushed :: "object_state \<Rightarrow> uint32 \<Rightarrow> object_state option" where
  "markByteFlushed s off =
     (case flushMask s of
        None \<Rightarrow> Some (s\<lparr>flushMask := Some (BitArray_new (unat (os_size s)) False)\<rparr>)
      | Some m \<Rightarrow> do { m \<leftarrow> BitArray_unset m (unat off); Some (s\<lparr>flushMask := Some m\<rparr>) })"

definition setKnownSymbolic :: "object_state \<Rightarrow> uint32 \<Rightarrow> expr option \<Rightarrow> object_state option" where
  "setKnownSymbolic s off value =
     (case knownSymbolics s of
        Some k \<Rightarrow> do { k \<leftarrow> set_opt k (unat off) value; Some (s\<lparr>knownSymbolics := Some k\<rparr>) }
      | None \<Rightarrow>
          (case value of
             None \<Rightarrow> Some s
           | Some _ \<Rightarrow> do {
               k \<leftarrow> set_opt (replicate (unat (os_size s)) None) (unat off) value;
               Some (s\<lparr>knownSymbolics := Some k\<rparr>) }))"

subsection \<open>Construction\<close>

definition makeConcrete :: "object_state \<Rightarrow> object_state" where
  "makeConcrete s = s\<lparr>concreteMask := None, flushMask := None, knownSymbolics := None\<rparr>"

definition makeSymbolic :: "object_state \<Rightarrow> object_state option" where
  "makeSymbolic s =
     check (upd_head s = NullNode)
       (foldM (\<lambda>s i. do {
            s \<leftarrow> markByteSymbolic s i;
            s \<leftarrow> setKnownSymbolic s i None;
            markByteFlushed s i }) s (unsigned_range 0 (os_size s)))"

definition initializeToZero :: "object_state \<Rightarrow> object_state" where
  "initializeToZero s = (makeConcrete s)\<lparr>concreteStore := replicate (unat (os_size s)) 0\<rparr>"

text \<open>The loop writes the constant \<open>0xAB\<close> to every byte.\<close>

definition initializeToRandom :: "object_state \<Rightarrow> object_state" where
  "initializeToRandom s = (makeConcrete s)\<lparr>concreteStore := replicate (unat (os_size s)) 0xAB\<rparr>"

definition fresh_object :: "memory_object \<Rightarrow> array option \<Rightarrow> object_state" where
  "fresh_object mo root =
     \<lparr>copyOnWriteOwner = 0, os_object = mo, concreteStore = replicate (unat (mo_size mo)) 0,
      concreteMask = None, flushMask = None, knownSymbolics = None, upd_root = root,
      upd_head = NullNode, os_size = mo_size mo, readOnly = False\<rparr>"

definition ObjectState_new :: "mem_env \<Rightarrow> memory_object \<Rightarrow> mem_globals \<Rightarrow> mem option" where
  "ObjectState_new E mo g =
     (if UseConstantArrays E then Some (fresh_object mo None, g)
      else do {
        let i = tmp_arr_id g + 1;
        (a, C) \<leftarrow> CreateArray E (''tmp_arr'' @ utostr E i) (unat (mo_size mo)) [] Int32 Int8 (arrayCache g);
        Some (fresh_object mo (Some a), g\<lparr>arrayCache := C, tmp_arr_id := i\<rparr>) })"

definition ObjectState_new_symbolic :: "memory_object \<Rightarrow> array \<Rightarrow> object_state option" where
  "ObjectState_new_symbolic mo array = makeSymbolic (fresh_object mo (Some array))"

definition ObjectState_copy :: "object_state \<Rightarrow> object_state option" where
  "ObjectState_copy os = check (\<not> readOnly os) (do {
     cm \<leftarrow> (case concreteMask os of
            None \<Rightarrow> Some None
          | Some m \<Rightarrow> map_option Some (BitArray_copy m (unat (os_size os))));
     fm \<leftarrow> (case flushMask os of
            None \<Rightarrow> Some None
          | Some m \<Rightarrow> map_option Some (BitArray_copy m (unat (os_size os))));
     ks \<leftarrow> (case knownSymbolics os of
            None \<Rightarrow> Some None
          | Some k \<Rightarrow> check (unat (os_size os) \<le> length k) (Some (Some (take (unat (os_size os)) k))));
     check (unat (os_size os) \<le> length (concreteStore os)) (Some
       \<lparr>copyOnWriteOwner = 0, os_object = os_object os,
        concreteStore = take (unat (os_size os)) (concreteStore os), concreteMask = cm,
        flushMask = fm, knownSymbolics = ks, upd_root = upd_root os, upd_head = upd_head os,
        os_size = os_size os, readOnly = False\<rparr>) })"

subsection \<open>Update lists of an object\<close>

definition object_extend :: "object_state \<Rightarrow> expr \<Rightarrow> expr \<Rightarrow> object_state option" where
  "object_extend s index value = do {
     h \<leftarrow> UpdateList_extend (upd_root s) (upd_head s) index value;
     Some (s\<lparr>upd_head := h\<rparr>) }"

fun unode_writes :: "unode \<Rightarrow> (expr \<times> expr) list" where
  "unode_writes NullNode = []"
| "unode_writes (UpdateNode next index value) = unode_writes next @ [(index, value)]"

text \<open>The leading writes of constants to constant indices go into the constant array.\<close>

fun absorb_writes ::
  "apint_ops \<Rightarrow> apint list \<Rightarrow> (expr \<times> expr) list \<Rightarrow> (apint list \<times> (expr \<times> expr) list) option" where
  "absorb_writes A Contents [] = Some (Contents, [])"
| "absorb_writes A Contents ((index, value) # ws) =
     (case index of
        ConstantExpr i \<Rightarrow>
          (case value of
             ConstantExpr v \<Rightarrow> do {
               n \<leftarrow> getZExtValue A i 64;
               Contents' \<leftarrow> set_opt Contents (unat n) v;
               absorb_writes A Contents' ws }
           | _ \<Rightarrow> Some (Contents, (index, value) # ws))
      | _ \<Rightarrow> Some (Contents, (index, value) # ws))"

definition getUpdates :: "mem_env \<Rightarrow> mem \<Rightarrow> (array \<times> mem) option" where
  "getUpdates E st = (case st of (s, g) \<Rightarrow>
     (case upd_root s of
        Some a \<Rightarrow> Some (a, s, g)
      | None \<Rightarrow> do {
          let A = api (me_expr E);
          zero \<leftarrow> ConstantExpr_create A 0 Int8;
          (Contents, rest) \<leftarrow> absorb_writes A (replicate (unat (os_size s)) zero) (unode_writes (upd_head s));
          let i = const_arr_id g + 1;
          (a, C) \<leftarrow> CreateArray E (''const_arr'' @ utostr E i) (unat (os_size s)) Contents Int32 Int8 (arrayCache g);
          s' \<leftarrow> foldM (\<lambda>s (index, value). object_extend s index value)
                 (s\<lparr>upd_root := Some a, upd_head := NullNode\<rparr>) rest;
          Some (a, s', g\<lparr>arrayCache := C, const_arr_id := i\<rparr>) }))"

subsection \<open>Flushing the cached bytes to the update list\<close>

definition fastRangeCheckOffset :: "object_state \<Rightarrow> uint32 \<times> uint32" where
  "fastRangeCheckOffset s = (0, os_size s)"

definition const_index :: "mem_env \<Rightarrow> uint32 \<Rightarrow> expr option" where
  "const_index E off = map_option ConstantExpr (ConstantExpr_create (api (me_expr E)) (ucast off) Int32)"

definition concrete_byte :: "mem_env \<Rightarrow> object_state \<Rightarrow> uint32 \<Rightarrow> expr option" where
  "concrete_byte E s off = do {
     b \<leftarrow> nth_opt (concreteStore s) (unat off);
     map_option ConstantExpr (ConstantExpr_create (api (me_expr E)) (ucast b) Int8) }"

definition known_byte :: "object_state \<Rightarrow> uint32 \<Rightarrow> expr option" where
  "known_byte s off = do { k \<leftarrow> knownSymbolics s; e \<leftarrow> nth_opt k (unat off); e }"

definition unset_flush :: "object_state \<Rightarrow> uint32 \<Rightarrow> object_state option" where
  "unset_flush s off = do {
     m \<leftarrow> flushMask s;
     m \<leftarrow> BitArray_unset m (unat off);
     Some (s\<lparr>flushMask := Some m\<rparr>) }"

definition ensure_flushMask :: "object_state \<Rightarrow> object_state" where
  "ensure_flushMask s =
     (case flushMask s of
        None \<Rightarrow> s\<lparr>flushMask := Some (BitArray_new (unat (os_size s)) True)\<rparr>
      | Some _ \<Rightarrow> s)"

definition flush_read_step :: "mem_env \<Rightarrow> object_state \<Rightarrow> uint32 \<Rightarrow> object_state option" where
  "flush_read_step E s off = do {
     flushed \<leftarrow> isByteFlushed s off;
     if flushed then Some s
     else do {
       conc \<leftarrow> isByteConcrete s off;
       index \<leftarrow> const_index E off;
       s \<leftarrow> (if conc then do {
               v \<leftarrow> concrete_byte E s off;
               object_extend s index v }
             else do {
               known \<leftarrow> isByteKnownSymbolic s off;
               check known (do {
                 v \<leftarrow> known_byte s off;
                 object_extend s index v }) });
       unset_flush s off } }"

definition flushRangeForRead :: "mem_env \<Rightarrow> object_state \<Rightarrow> uint32 \<Rightarrow> uint32 \<Rightarrow> object_state option" where
  "flushRangeForRead E s rangeBase rangeSize =
     foldM (flush_read_step E) (ensure_flushMask s) (unsigned_range rangeBase (rangeBase + rangeSize))"

definition flush_write_step :: "mem_env \<Rightarrow> object_state \<Rightarrow> uint32 \<Rightarrow> object_state option" where
  "flush_write_step E s off = do {
     flushed \<leftarrow> isByteFlushed s off;
     conc \<leftarrow> isByteConcrete s off;
     if \<not> flushed then do {
       index \<leftarrow> const_index E off;
       s \<leftarrow> (if conc then do {
               v \<leftarrow> concrete_byte E s off;
               s \<leftarrow> object_extend s index v;
               markByteSymbolic s off }
             else do {
               known \<leftarrow> isByteKnownSymbolic s off;
               check known (do {
                 v \<leftarrow> known_byte s off;
                 s \<leftarrow> object_extend s index v;
                 setKnownSymbolic s off None }) });
       unset_flush s off }
     else if conc then markByteSymbolic s off
     else do {
       known \<leftarrow> isByteKnownSymbolic s off;
       if known then setKnownSymbolic s off None else Some s } }"

definition flushRangeForWrite :: "mem_env \<Rightarrow> object_state \<Rightarrow> uint32 \<Rightarrow> uint32 \<Rightarrow> object_state option" where
  "flushRangeForWrite E s rangeBase rangeSize =
     foldM (flush_write_step E) (ensure_flushMask s) (unsigned_range rangeBase (rangeBase + rangeSize))"

subsection \<open>Bytes\<close>

definition read8 :: "mem_env \<Rightarrow> uint32 \<Rightarrow> mem \<Rightarrow> (expr \<times> mem) option" where
  "read8 E off st = (case st of (s, g) \<Rightarrow> do {
     conc \<leftarrow> isByteConcrete s off;
     if conc then do { v \<leftarrow> concrete_byte E s off; Some (v, s, g) }
     else do {
       known \<leftarrow> isByteKnownSymbolic s off;
       if known then do { v \<leftarrow> known_byte s off; Some (v, s, g) }
       else do {
         flushed \<leftarrow> isByteFlushed s off;
         check flushed (do {
           (root, s, g) \<leftarrow> getUpdates E (s, g);
           index \<leftarrow> const_index E off;
           v \<leftarrow> ReadExpr_create (me_expr E) root (upd_head s) index;
           Some (v, s, g) }) } } })"

text \<open>The overload for an offset that is not constant.\<close>

definition read8_expr :: "mem_env \<Rightarrow> expr \<Rightarrow> mem \<Rightarrow> (expr \<times> mem) option" where
  "read8_expr E offset st = (case st of (s, g) \<Rightarrow> check (\<not> is_Constant offset) (do {
     let (base, sz) = fastRangeCheckOffset s;
     s \<leftarrow> flushRangeForRead E s base sz;
     (root, s, g) \<leftarrow> getUpdates E (s, g);
     index \<leftarrow> ZExtExpr_create (api (me_expr E)) offset Int32;
     v \<leftarrow> ReadExpr_create (me_expr E) root (upd_head s) index;
     Some (v, s, g) }))"

definition write8_byte :: "uint32 \<Rightarrow> 8 word \<Rightarrow> object_state \<Rightarrow> object_state option" where
  "write8_byte off value s = do {
     cs \<leftarrow> set_opt (concreteStore s) (unat off) value;
     s \<leftarrow> setKnownSymbolic (s\<lparr>concreteStore := cs\<rparr>) off None;
     s \<leftarrow> markByteConcrete s off;
     markByteUnflushed s off }"

definition write8 :: "mem_env \<Rightarrow> uint32 \<Rightarrow> expr \<Rightarrow> object_state \<Rightarrow> object_state option" where
  "write8 E off value s =
     (case value of
        ConstantExpr c \<Rightarrow> do {
          v \<leftarrow> getZExtValue (api (me_expr E)) c 8;
          write8_byte off (ucast v) s }
      | _ \<Rightarrow> do {
          s \<leftarrow> setKnownSymbolic s off (Some value);
          s \<leftarrow> markByteSymbolic s off;
          markByteUnflushed s off })"

definition write8_expr :: "mem_env \<Rightarrow> expr \<Rightarrow> expr \<Rightarrow> object_state \<Rightarrow> object_state option" where
  "write8_expr E offset value s = check (\<not> is_Constant offset) (do {
     let (base, sz) = fastRangeCheckOffset s;
     s \<leftarrow> flushRangeForWrite E s base sz;
     index \<leftarrow> ZExtExpr_create (api (me_expr E)) offset Int32;
     object_extend s index value })"

subsection \<open>Values of several bytes\<close>

text \<open>The index of the \<open>i\<close>-th least significant byte of \<open>n\<close>.\<close>

definition byte_index :: "mem_env \<Rightarrow> nat \<Rightarrow> nat \<Rightarrow> uint32" where
  "byte_index E n i = of_nat (if isLittleEndian E then i else n - i - 1)"

text \<open>The loop of both \<open>read\<close> functions; a null \<open>Res\<close> at the end is no expression.\<close>

fun read_loop ::
  "apint_ops \<Rightarrow> (nat \<Rightarrow> mem \<Rightarrow> (expr \<times> mem) option) \<Rightarrow> nat list \<Rightarrow> expr option \<Rightarrow> mem
   \<Rightarrow> (expr \<times> mem) option" where
  "read_loop A rd [] Res st = (case Res of None \<Rightarrow> None | Some e \<Rightarrow> Some (e, st))"
| "read_loop A rd (i # is) Res st = do {
     (Byte, st) \<leftarrow> rd i st;
     r \<leftarrow> (case Res of None \<Rightarrow> Some Byte | Some r \<Rightarrow> ConcatExpr_create A Byte r);
     read_loop A rd is (Some r) st }"

definition read_at :: "mem_env \<Rightarrow> uint32 \<Rightarrow> width \<Rightarrow> mem \<Rightarrow> (expr \<times> mem) option" where
  "read_at E off w st =
     (let A = api (me_expr E) in
      if w = Bool_width then do {
        (b, st) \<leftarrow> read8 E off st;
        e \<leftarrow> ExtractExpr_create A b 0 Bool_width;
        Some (e, st) }
      else
        (let NumBytes = w div 8
         in check (w = NumBytes * 8)
              (read_loop A (\<lambda>i. read8 E (off + byte_index E NumBytes i)) [0..<NumBytes] None st)))"

definition offset_plus :: "mem_env \<Rightarrow> expr \<Rightarrow> uint32 \<Rightarrow> expr option" where
  "offset_plus E offset idx = do {
     i \<leftarrow> const_index E idx;
     AddExpr_create (me_expr E) offset i }"

definition read_expr :: "mem_env \<Rightarrow> expr \<Rightarrow> width \<Rightarrow> mem \<Rightarrow> (expr \<times> mem) option" where
  "read_expr E offset w st =
     (let A = api (me_expr E) in do {
      offset \<leftarrow> ZExtExpr_create A offset Int32;
      (case offset of
         ConstantExpr c \<Rightarrow> do { off \<leftarrow> getZExtValue A c 32; read_at E (ucast off) w st }
       | _ \<Rightarrow>
           if w = Bool_width then do {
             (b, st) \<leftarrow> read8_expr E offset st;
             e \<leftarrow> ExtractExpr_create A b 0 Bool_width;
             Some (e, st) }
           else
             (let NumBytes = w div 8
              in check (w = NumBytes * 8)
                   (read_loop A
                      (\<lambda>i st. do { o' \<leftarrow> offset_plus E offset (byte_index E NumBytes i); read8_expr E o' st })
                      [0..<NumBytes] None st))) })"

text \<open>\<open>write16\<close>, \<open>write32\<close> and \<open>write64\<close> differ in the type of the value only.\<close>

definition write_bytes :: "mem_env \<Rightarrow> nat \<Rightarrow> uint32 \<Rightarrow> uint64 \<Rightarrow> object_state \<Rightarrow> object_state option" where
  "write_bytes E NumBytes off value s =
     foldM (\<lambda>s i. write8_byte (off + byte_index E NumBytes i) (ucast (drop_bit (8 * i) value)) s)
       s [0..<NumBytes]"

definition write16 :: "mem_env \<Rightarrow> uint32 \<Rightarrow> 16 word \<Rightarrow> object_state \<Rightarrow> object_state option" where
  "write16 E off value s = write_bytes E 2 off (ucast value) s"

definition write32 :: "mem_env \<Rightarrow> uint32 \<Rightarrow> uint32 \<Rightarrow> object_state \<Rightarrow> object_state option" where
  "write32 E off value s = write_bytes E 4 off (ucast value) s"

definition write64 :: "mem_env \<Rightarrow> uint32 \<Rightarrow> uint64 \<Rightarrow> object_state \<Rightarrow> object_state option" where
  "write64 E off value s = write_bytes E 8 off value s"

text \<open>What follows the special case of constants in \<open>write\<close>.\<close>

definition write_general :: "mem_env \<Rightarrow> uint32 \<Rightarrow> expr \<Rightarrow> object_state \<Rightarrow> object_state option" where
  "write_general E off value s =
     (let A = api (me_expr E); w = getWidth value in
      if w = Bool_width then do { v \<leftarrow> ZExtExpr_create A value Int8; write8 E off v s }
      else
        (let NumBytes = w div 8
         in check (w = NumBytes * 8)
              (foldM (\<lambda>s i. do {
                   v \<leftarrow> ExtractExpr_create A value (8 * i) Int8;
                   write8 E (off + byte_index E NumBytes i) v s }) s [0..<NumBytes])))"

definition write_at :: "mem_env \<Rightarrow> uint32 \<Rightarrow> expr \<Rightarrow> object_state \<Rightarrow> object_state option" where
  "write_at E off value s =
     (case value of
        ConstantExpr c \<Rightarrow>
          if ap_width c \<le> 64 \<and> bits64_isPowerOfTwo (of_nat (ap_width c)) then do {
            v \<leftarrow> getZExtValue (api (me_expr E)) c 64;
            (if ap_width c = Bool_width \<or> ap_width c = Int8 then write8_byte off (ucast v) s
             else if ap_width c = Int16 then write16 E off (ucast v) s
             else if ap_width c = Int32 then write32 E off (ucast v) s
             else if ap_width c = Int64 then write64 E off v s
             else None) }
          else write_general E off value s
      | _ \<Rightarrow> write_general E off value s)"

definition write_expr :: "mem_env \<Rightarrow> expr \<Rightarrow> expr \<Rightarrow> object_state \<Rightarrow> object_state option" where
  "write_expr E offset value s =
     (let A = api (me_expr E) in do {
      offset \<leftarrow> ZExtExpr_create A offset Int32;
      (case offset of
         ConstantExpr c \<Rightarrow> do { off \<leftarrow> getZExtValue A c 32; write_at E (ucast off) value s }
       | _ \<Rightarrow>
           (let w = getWidth value in
            if w = Bool_width then do { v \<leftarrow> ZExtExpr_create A value Int8; write8_expr E offset v s }
            else
              (let NumBytes = w div 8
               in check (w = NumBytes * 8)
                    (foldM (\<lambda>s i. do {
                         o' \<leftarrow> offset_plus E offset (byte_index E NumBytes i);
                         v \<leftarrow> ExtractExpr_create A value (8 * i) Int8;
                         write8_expr E o' v s }) s [0..<NumBytes])))) })"

subsection \<open>Concretising for an external call\<close>

text \<open>
  \<open>getValue e\<close> is the solver's answer for a constant of \<open>e\<close> in the state, \<open>None\<close> on failure
  (then the byte stays what it is).  A byte's value is stored by \<open>ConstantExpr::toMemory\<close>.
\<close>

definition toMemory_byte :: "apint_ops \<Rightarrow> apint \<Rightarrow> (8 word) option" where
  "toMemory_byte A c =
     (if ap_width c = Bool_width then map_option ucast (getZExtValue A c 1)
      else if ap_width c = Int8 then map_option ucast (getZExtValue A c 8)
      else None)"

definition flushToConcreteStore ::
  "mem_env \<Rightarrow> (expr \<Rightarrow> apint option) \<Rightarrow> mem \<Rightarrow> mem option" where
  "flushToConcreteStore E getValue st =
     foldM (\<lambda>(s, g) i. do {
          known \<leftarrow> isByteKnownSymbolic s i;
          if known then do {
            (e, s, g) \<leftarrow> read8 E i (s, g);
            (case getValue e of
               None \<Rightarrow> Some (s, g)
             | Some ce \<Rightarrow> do {
                 b \<leftarrow> toMemory_byte (api (me_expr E)) ce;
                 cs \<leftarrow> set_opt (concreteStore s) (unat i) b;
                 Some (s\<lparr>concreteStore := cs\<rparr>, g) }) }
          else Some (s, g) }) st (unsigned_range 0 (os_size (fst st)))"

end
