(* ===== verification/AddressSpace.thy ===== *)
theory AddressSpace
  imports Memory ImmutableMap
begin

text \<open>
  \<open>lib/Core/AddressSpace.h\<close> and \<open>lib/Core/AddressSpace.cpp\<close>: the objects of an execution state,
  ordered by address, with copy on write.  Object states are shared between address spaces, so
  they live in a heap and a space maps a memory object to a reference; what an object is
  referred to by is the counted pointer of the code.  The key of a space and the owner of an
  object state say whether the space may write to it in place.

  Resolution asks the solver of the state.  The solver with its caches and the clock are a
  parameter: every question gets an answer (\<open>None\<close> when it fails or times out) and a new state
  of the solver.  An address of the process is followed in \<open>host\<close>, the memory of KLEE itself.
\<close>

type_synonym os_ref = nat
type_synonym os_heap = "object_state list"
type_synonym object_pair = "memory_object \<times> os_ref"
type_synonym resolution_list = "object_pair list"

definition MemoryObjectLT :: "memory_object \<Rightarrow> memory_object \<Rightarrow> bool" where
  "MemoryObjectLT a b \<longleftrightarrow> mo_address a < mo_address b"

record address_space =
  cowKey :: uint32
  objects :: "(memory_object, os_ref) imap"

type_synonym space = "address_space \<times> os_heap"

definition AddressSpace_new :: address_space where
  "AddressSpace_new = \<lparr>cowKey = 1, objects = ImmutableMap_new\<rparr>"

text \<open>The copy constructor: the key of the original is mutable and moves on with the copy's.\<close>

definition AddressSpace_copy :: "address_space \<Rightarrow> address_space \<times> address_space" where
  "AddressSpace_copy b = (let b' = b\<lparr>cowKey := cowKey b + 1\<rparr>
     in (b', \<lparr>cowKey = cowKey b', objects = objects b\<rparr>))"

definition bindObject :: "memory_object \<Rightarrow> os_ref \<Rightarrow> space \<Rightarrow> space option" where
  "bindObject mo r sp = (case sp of (AS, h) \<Rightarrow> do {
     os \<leftarrow> nth_opt h r;
     check (copyOnWriteOwner os = 0) (do {
       h \<leftarrow> set_opt h r (os\<lparr>copyOnWriteOwner := cowKey AS\<rparr>);
       Some (AS\<lparr>objects := ImmutableMap_replace MemoryObjectLT (objects AS) (mo, r)\<rparr>, h) }) })"

definition unbindObject :: "memory_object \<Rightarrow> address_space \<Rightarrow> address_space option" where
  "unbindObject mo AS = do {
     m \<leftarrow> ImmutableMap_remove MemoryObjectLT (objects AS) mo;
     Some (AS\<lparr>objects := m\<rparr>) }"

definition findObject :: "address_space \<Rightarrow> memory_object \<Rightarrow> os_ref option" where
  "findObject AS mo = map_option snd (ImmutableMap_lookup MemoryObjectLT (objects AS) mo)"

definition getWriteable :: "memory_object \<Rightarrow> os_ref \<Rightarrow> space \<Rightarrow> (os_ref \<times> space) option" where
  "getWriteable mo r sp = (case sp of (AS, h) \<Rightarrow> do {
     os \<leftarrow> nth_opt h r;
     check (\<not> readOnly os)
       (if cowKey AS = copyOnWriteOwner os then Some (r, AS, h)
        else do {
          new \<leftarrow> ObjectState_copy os;
          let r' = length h;
          Some (r', AS\<lparr>objects := ImmutableMap_replace MemoryObjectLT (objects AS) (mo, r')\<rparr>,
                h @ [new\<lparr>copyOnWriteOwner := cowKey AS\<rparr>]) }) })"

subsection \<open>Resolution of an address\<close>

text \<open>
  The object that serves as a key.  Its id, which comes from a counter, and the members that
  its constructor leaves uninitialised are not read.
\<close>

definition MemoryObject_hack :: "uint64 \<Rightarrow> memory_object" where
  "MemoryObject_hack address =
     \<lparr>mo_id = 0, mo_address = address, mo_size = 0, mo_isLocal = False, mo_isGlobal = False,
      mo_isFixed = True, mo_isUserSpecified = False, mo_allocSite = None\<rparr>"

definition resolveOne_const :: "apint_ops \<Rightarrow> address_space \<Rightarrow> apint \<Rightarrow> object_pair option option" where
  "resolveOne_const A AS addr = do {
     address \<leftarrow> getZExtValue A addr 64;
     Some (case ImmutableMap_lookup_previous MemoryObjectLT (objects AS) (MemoryObject_hack address) of
             None \<Rightarrow> None
           | Some (mo, r) \<Rightarrow>
               if mo_size mo = 0 \<and> address = mo_address mo
                 \<or> address - mo_address mo < ucast (mo_size mo) then Some (mo, r) else None) }"

record 'w timing_solver =
  ts_getValue :: "expr \<Rightarrow> 'w \<Rightarrow> apint option \<times> 'w"
  ts_mayBeTrue :: "expr \<Rightarrow> 'w \<Rightarrow> bool option \<times> 'w"
  ts_mustBeTrue :: "expr \<Rightarrow> 'w \<Rightarrow> bool option \<times> 'w"
  ts_delta :: "'w \<Rightarrow> nat \<times> 'w"

text \<open>How a search ends: a query failed, nothing was found, or an object was.\<close>

datatype one_result = QueryFailed | Unresolved | ResolvedTo object_pair

definition base_compare ::
  "(expr_env \<Rightarrow> expr \<Rightarrow> expr \<Rightarrow> expr option) \<Rightarrow> mem_env \<Rightarrow> expr \<Rightarrow> memory_object \<Rightarrow> expr option" where
  "base_compare create E p mo = do {
     base \<leftarrow> getBaseExpr E mo;
     create (me_expr E) p (ConstantExpr base) }"

text \<open>The backward loop of \<open>resolveOne\<close>; \<open>None\<close> inside when it is left without an answer.\<close>

partial_function (option) resolveOne_back ::
  "mem_env \<Rightarrow> 'w timing_solver \<Rightarrow> expr \<Rightarrow> object_pair iterator \<Rightarrow> object_pair iterator \<Rightarrow> 'w
   \<Rightarrow> (one_result option \<times> 'w) option" where
  "resolveOne_back E S address oi bg w =
     (if iterator_eq oi bg then Some (None, w)
      else do {
        oi \<leftarrow> iterator_decr oi;
        (mo, r) \<leftarrow> iterator_deref oi;
        inb \<leftarrow> getBoundsCheckPointer E mo address;
        (case ts_mayBeTrue S inb w of
           (None, w) \<Rightarrow> Some (Some QueryFailed, w)
         | (Some may, w) \<Rightarrow>
             if may then Some (Some (ResolvedTo (mo, r)), w)
             else do {
               ge \<leftarrow> base_compare UgeExpr_create E address mo;
               (case ts_mustBeTrue S ge w of
                  (None, w) \<Rightarrow> Some (Some QueryFailed, w)
                | (Some must, w) \<Rightarrow>
                    if must then Some (None, w) else resolveOne_back E S address oi bg w) }) })"

partial_function (option) resolveOne_fwd ::
  "mem_env \<Rightarrow> 'w timing_solver \<Rightarrow> expr \<Rightarrow> object_pair iterator \<Rightarrow> object_pair iterator \<Rightarrow> 'w
   \<Rightarrow> (one_result option \<times> 'w) option" where
  "resolveOne_fwd E S address oi en w =
     (if iterator_eq oi en then Some (None, w)
      else do {
        (mo, r) \<leftarrow> iterator_deref oi;
        lt \<leftarrow> base_compare UltExpr_create E address mo;
        (case ts_mustBeTrue S lt w of
           (None, w) \<Rightarrow> Some (Some QueryFailed, w)
         | (Some must, w) \<Rightarrow>
             if must then Some (None, w)
             else do {
               inb \<leftarrow> getBoundsCheckPointer E mo address;
               (case ts_mayBeTrue S inb w of
                  (None, w) \<Rightarrow> Some (Some QueryFailed, w)
                | (Some may, w) \<Rightarrow>
                    if may then Some (Some (ResolvedTo (mo, r)), w)
                    else do {
                      oi \<leftarrow> iterator_incr oi;
                      resolveOne_fwd E S address oi en w }) }) })"

definition resolveOne_search ::
  "mem_env \<Rightarrow> 'w timing_solver \<Rightarrow> address_space \<Rightarrow> expr \<Rightarrow> uint64 \<Rightarrow> 'w \<Rightarrow> (one_result \<times> 'w) option" where
  "resolveOne_search E S AS address example w = do {
     start \<leftarrow> ImmutableMap_upper_bound MemoryObjectLT (objects AS) (MemoryObject_hack example);
     bg \<leftarrow> ImmutableMap_begin (objects AS);
     en \<leftarrow> ImmutableMap_end (objects AS);
     (res, w) \<leftarrow> resolveOne_back E S address start bg w;
     (case res of
        Some r \<Rightarrow> Some (r, w)
      | None \<Rightarrow> do {
          (res, w) \<leftarrow> resolveOne_fwd E S address start en w;
          Some (case res of Some r \<Rightarrow> r | None \<Rightarrow> Unresolved, w) }) }"

definition resolveOne ::
  "mem_env \<Rightarrow> 'w timing_solver \<Rightarrow> address_space \<Rightarrow> expr \<Rightarrow> 'w \<Rightarrow> (one_result \<times> 'w) option" where
  "resolveOne E S AS address w =
     (case address of
        ConstantExpr c \<Rightarrow> do {
          res \<leftarrow> resolveOne_const (api (me_expr E)) AS c;
          Some (case res of None \<Rightarrow> Unresolved | Some p \<Rightarrow> ResolvedTo p, w) }
      | _ \<Rightarrow>
          (case ts_getValue S address w of
             (None, w) \<Rightarrow> Some (QueryFailed, w)
           | (Some cex, w) \<Rightarrow> do {
               example \<leftarrow> getZExtValue (api (me_expr E)) cex 64;
               (case ImmutableMap_lookup_previous MemoryObjectLT (objects AS) (MemoryObject_hack example) of
                  None \<Rightarrow> resolveOne_search E S AS address example w
                | Some (mo, r) \<Rightarrow>
                    if example - mo_address mo < ucast (mo_size mo) then Some (ResolvedTo (mo, r), w)
                    else resolveOne_search E S AS address example w) }))"

subsection \<open>Resolution to every object\<close>

definition checkPointerInObject ::
  "mem_env \<Rightarrow> 'w timing_solver \<Rightarrow> expr \<Rightarrow> object_pair \<Rightarrow> resolution_list \<Rightarrow> uint32 \<Rightarrow> 'w
   \<Rightarrow> (nat \<times> resolution_list \<times> 'w) option" where
  "checkPointerInObject E S p op rl maxResolutions w = do {
     inBounds \<leftarrow> getBoundsCheckPointer E (fst op) p;
     Some (case ts_mayBeTrue S inBounds w of
         (None, w) \<Rightarrow> (1, rl, w)
       | (Some False, w) \<Rightarrow> (2, rl, w)
       | (Some True, w) \<Rightarrow>
           (let rl = rl @ [op] in
            if length rl = 1 then
              (case ts_mustBeTrue S inBounds w of
                 (None, w) \<Rightarrow> (1, rl, w)
               | (Some must, w) \<Rightarrow> (if must then 0 else 2, rl, w))
            else if length rl = unat maxResolutions then (1, rl, w)
            else (2, rl, w))) }"

definition timed_out :: "'w timing_solver \<Rightarrow> nat \<Rightarrow> 'w \<Rightarrow> bool \<times> 'w" where
  "timed_out S timeout w =
     (if timeout = 0 then (False, w) else (case ts_delta S w of (d, w) \<Rightarrow> (timeout < d, w)))"

text \<open>The loops of \<open>resolve\<close>: the value returned, if one is, and the list so far.\<close>

partial_function (option) resolve_back ::
  "mem_env \<Rightarrow> 'w timing_solver \<Rightarrow> expr \<Rightarrow> uint32 \<Rightarrow> nat \<Rightarrow> object_pair iterator \<Rightarrow> object_pair iterator
   \<Rightarrow> resolution_list \<Rightarrow> 'w \<Rightarrow> (bool option \<times> resolution_list \<times> 'w) option" where
  "resolve_back E S p mx timeout oi bg rl w =
     (if iterator_eq oi bg then Some (None, rl, w)
      else do {
        oi \<leftarrow> iterator_decr oi;
        op \<leftarrow> iterator_deref oi;
        (case timed_out S timeout w of (late, w) \<Rightarrow>
           if late then Some (Some True, rl, w)
           else do {
             (incomplete, rl, w) \<leftarrow> checkPointerInObject E S p op rl mx w;
             if incomplete \<noteq> 2 then Some (Some (incomplete \<noteq> 0), rl, w)
             else do {
               ge \<leftarrow> base_compare UgeExpr_create E p (fst op);
               (case ts_mustBeTrue S ge w of
                  (None, w) \<Rightarrow> Some (Some True, rl, w)
                | (Some must, w) \<Rightarrow>
                    if must then Some (None, rl, w) else resolve_back E S p mx timeout oi bg rl w) } }) })"

partial_function (option) resolve_fwd ::
  "mem_env \<Rightarrow> 'w timing_solver \<Rightarrow> expr \<Rightarrow> uint32 \<Rightarrow> nat \<Rightarrow> object_pair iterator \<Rightarrow> object_pair iterator
   \<Rightarrow> resolution_list \<Rightarrow> 'w \<Rightarrow> (bool option \<times> resolution_list \<times> 'w) option" where
  "resolve_fwd E S p mx timeout oi en rl w =
     (if iterator_eq oi en then Some (None, rl, w)
      else do {
        op \<leftarrow> iterator_deref oi;
        (case timed_out S timeout w of (late, w) \<Rightarrow>
           if late then Some (Some True, rl, w)
           else do {
             lt \<leftarrow> base_compare UltExpr_create E p (fst op);
             (case ts_mustBeTrue S lt w of
                (None, w) \<Rightarrow> Some (Some True, rl, w)
              | (Some must, w) \<Rightarrow>
                  if must then Some (None, rl, w)
                  else do {
                    (incomplete, rl, w) \<leftarrow> checkPointerInObject E S p op rl mx w;
                    if incomplete \<noteq> 2 then Some (Some (incomplete \<noteq> 0), rl, w)
                    else do {
                      oi \<leftarrow> iterator_incr oi;
                      resolve_fwd E S p mx timeout oi en rl w } }) }) })"

definition resolve ::
  "mem_env \<Rightarrow> 'w timing_solver \<Rightarrow> address_space \<Rightarrow> expr \<Rightarrow> resolution_list \<Rightarrow> uint32 \<Rightarrow> nat \<Rightarrow> 'w
   \<Rightarrow> (bool \<times> resolution_list \<times> 'w) option" where
  "resolve E S AS p rl mx timeout w =
     (case p of
        ConstantExpr c \<Rightarrow> do {
          res \<leftarrow> resolveOne_const (api (me_expr E)) AS c;
          Some (False, case res of None \<Rightarrow> rl | Some op \<Rightarrow> rl @ [op], w) }
      | _ \<Rightarrow>
          (case ts_getValue S p w of
             (None, w) \<Rightarrow> Some (True, rl, w)
           | (Some cex, w) \<Rightarrow> do {
               example \<leftarrow> getZExtValue (api (me_expr E)) cex 64;
               start \<leftarrow> ImmutableMap_upper_bound MemoryObjectLT (objects AS) (MemoryObject_hack example);
               bg \<leftarrow> ImmutableMap_begin (objects AS);
               en \<leftarrow> ImmutableMap_end (objects AS);
               (res, rl, w) \<leftarrow> resolve_back E S p mx timeout start bg rl w;
               (case res of
                  Some r \<Rightarrow> Some (r, rl, w)
                | None \<Rightarrow> do {
                    (res, rl, w) \<leftarrow> resolve_fwd E S p mx timeout start en rl w;
                    Some (case res of Some r \<Rightarrow> r | None \<Rightarrow> False, rl, w) }) }))"

subsection \<open>Passing memory to external code and back\<close>

type_synonym host = "uint64 \<Rightarrow> 8 word"

definition host_write :: "host \<Rightarrow> uint64 \<Rightarrow> 8 word list \<Rightarrow> host" where
  "host_write M a bs = (\<lambda>x. if unat (x - a) < length bs then bs ! unat (x - a) else M x)"

definition host_read :: "host \<Rightarrow> uint64 \<Rightarrow> nat \<Rightarrow> 8 word list" where
  "host_read M a n = map (\<lambda>i. M (a + of_nat i)) [0..<n]"

text \<open>The first \<open>n\<close> bytes of the concrete store, which has to be as long.\<close>

definition store_bytes :: "object_state \<Rightarrow> nat \<Rightarrow> 8 word list option" where
  "store_bytes os n = check (n \<le> length (concreteStore os)) (Some (take n (concreteStore os)))"

partial_function (option) copyOut_loop ::
  "os_heap \<Rightarrow> object_pair iterator \<Rightarrow> object_pair iterator \<Rightarrow> host \<Rightarrow> host option" where
  "copyOut_loop h it ie M =
     (if iterator_eq it ie then Some M
      else do {
        (mo, r) \<leftarrow> iterator_deref it;
        os \<leftarrow> nth_opt h r;
        M \<leftarrow> (if \<not> mo_isUserSpecified mo \<and> \<not> readOnly os then do {
                bs \<leftarrow> store_bytes os (unat (mo_size mo));
                Some (host_write M (mo_address mo) bs) }
              else Some M);
        it \<leftarrow> iterator_incr it;
        copyOut_loop h it ie M })"

definition copyOutConcretes :: "space \<Rightarrow> host \<Rightarrow> host option" where
  "copyOutConcretes sp M = (case sp of (AS, h) \<Rightarrow> do {
     it \<leftarrow> ImmutableMap_begin (objects AS);
     ie \<leftarrow> ImmutableMap_end (objects AS);
     copyOut_loop h it ie M })"

definition copyInConcrete ::
  "memory_object \<Rightarrow> os_ref \<Rightarrow> uint64 \<Rightarrow> host \<Rightarrow> space \<Rightarrow> (bool \<times> space) option" where
  "copyInConcrete mo r src_address M sp = (case sp of (AS, h) \<Rightarrow> do {
     os \<leftarrow> nth_opt h r;
     let new = host_read M src_address (unat (mo_size mo));
     old \<leftarrow> store_bytes os (unat (mo_size mo));
     if new \<noteq> old then
       if readOnly os then Some (False, AS, h)
       else do {
         (w, AS, h) \<leftarrow> getWriteable mo r (AS, h);
         wos \<leftarrow> nth_opt h w;
         h \<leftarrow> set_opt h w (wos\<lparr>concreteStore := new @ drop (unat (mo_size mo)) (concreteStore wos)\<rparr>);
         Some (True, AS, h) }
     else Some (True, AS, h) })"

text \<open>The loop runs over the map as it was, while \<open>getWriteable\<close> replaces entries of the member.\<close>

partial_function (option) copyIn_loop ::
  "object_pair iterator \<Rightarrow> object_pair iterator \<Rightarrow> host \<Rightarrow> space \<Rightarrow> (bool \<times> space) option" where
  "copyIn_loop it ie M sp =
     (if iterator_eq it ie then Some (True, sp)
      else do {
        (mo, r) \<leftarrow> iterator_deref it;
        (ok, sp) \<leftarrow> (if mo_isUserSpecified mo then Some (True, sp)
                    else copyInConcrete mo r (mo_address mo) M sp);
        if \<not> ok then Some (False, sp)
        else do {
          it \<leftarrow> iterator_incr it;
          copyIn_loop it ie M sp } })"

definition copyInConcretes :: "host \<Rightarrow> space \<Rightarrow> (bool \<times> space) option" where
  "copyInConcretes M sp = do {
     it \<leftarrow> ImmutableMap_begin (objects (fst sp));
     ie \<leftarrow> ImmutableMap_end (objects (fst sp));
     copyIn_loop it ie M sp }"

end
