(* ===== verification/MemorySound.thy ===== *)
theory MemorySound
  imports Memory ExprSoundShape
begin

text \<open>
  The bytes of an object state.  \<open>cells\<close> reads the store, the two bit arrays and the array of
  expressions as one function from offsets to cells; the first section gives the effect of the
  marking operations on it.  \<open>object_ok\<close> is the invariant of the caches (the comment "Cache
  Invariants" of \<open>Memory.cpp\<close>, and that a cached byte that was flushed agrees with the update
  list), and \<open>byte_val\<close> the value of a byte under an assignment.
\<close>

subsection \<open>Cells\<close>

datatype cell = Cell (c_val: "8 word") (c_conc: bool) (c_flushed: bool) (c_known: "expr option")

definition bconc :: "object_state \<Rightarrow> nat \<Rightarrow> bool" where
  "bconc s i = (case concreteMask s of None \<Rightarrow> True | Some m \<Rightarrow> BitArray_get m i = Some True)"

definition bflushed :: "object_state \<Rightarrow> nat \<Rightarrow> bool" where
  "bflushed s i = (case flushMask s of None \<Rightarrow> False | Some m \<Rightarrow> BitArray_get m i = Some False)"

definition bknown :: "object_state \<Rightarrow> nat \<Rightarrow> expr option" where
  "bknown s i = (case knownSymbolics s of None \<Rightarrow> None | Some k \<Rightarrow> k ! i)"

abbreviation bytes :: "object_state \<Rightarrow> nat" where "bytes s \<equiv> unat (os_size s)"

definition cells :: "object_state \<Rightarrow> nat \<Rightarrow> cell" where
  "cells s i = (if i < bytes s
     then Cell (concreteStore s ! i) (bconc s i) (bflushed s i) (bknown s i)
     else Cell 0 False False None)"

definition shape_ok :: "object_state \<Rightarrow> bool" where
  "shape_ok s \<longleftrightarrow> length (concreteStore s) = bytes s
     \<and> (\<forall>m. concreteMask s = Some m \<longrightarrow> length m = BitArray_length (bytes s))
     \<and> (\<forall>m. flushMask s = Some m \<longrightarrow> length m = BitArray_length (bytes s))
     \<and> (\<forall>k. knownSymbolics s = Some k \<longrightarrow> length k = bytes s)"

definition same_rest :: "object_state \<Rightarrow> object_state \<Rightarrow> bool" where
  "same_rest s s' \<longleftrightarrow> copyOnWriteOwner s' = copyOnWriteOwner s \<and> os_object s' = os_object s
     \<and> upd_root s' = upd_root s \<and> upd_head s' = upd_head s \<and> os_size s' = os_size s
     \<and> readOnly s' = readOnly s"

text \<open>\<open>cell_op\<close>: an operation returns an object whose cell \<open>i\<close> is \<open>f\<close> of the old one.\<close>

definition cell_op :: "object_state \<Rightarrow> object_state option \<Rightarrow> nat \<Rightarrow> (cell \<Rightarrow> cell) \<Rightarrow> bool" where
  "cell_op s r i f \<longleftrightarrow> (\<exists>s'. r = Some s' \<and> shape_ok s' \<and> same_rest s s'
     \<and> cells s' = (cells s)(i := f (cells s i)))"

lemma cell_opI:
  assumes "r = Some s'" "shape_ok s'" "same_rest s s'" "i < bytes s"
    and "\<And>j. j < bytes s \<Longrightarrow> j \<noteq> i \<Longrightarrow> cells s' j = cells s j" "cells s' i = f (cells s i)"
  shows "cell_op s r i f"
proof -
  have "cells s' j = ((cells s)(i := f (cells s i))) j" for j
    using assms by (cases "j < bytes s") (auto simp: cells_def same_rest_def)
  then show ?thesis using assms unfolding cell_op_def by (auto intro!: exI [of _ s'])
qed

lemma cell_op_bind_Some:
  assumes "cell_op s r i f" "\<And>s'. r = Some s' \<Longrightarrow> shape_ok s' \<Longrightarrow> same_rest s s' \<Longrightarrow> cell_op s' (k s') i g"
  shows "cell_op s (r \<bind> k) i (g \<circ> f)"
proof -
  obtain s' where s': "r = Some s'" "shape_ok s'" "same_rest s s'" "cells s' = (cells s)(i := f (cells s i))"
    using assms(1) by (auto simp: cell_op_def)
  obtain s'' where "k s' = Some s''" "shape_ok s''" "same_rest s' s''" "cells s'' = (cells s')(i := g (cells s' i))"
    using assms(2) [OF s'(1-3)] by (auto simp: cell_op_def)
  then show ?thesis using s' by (auto simp: cell_op_def same_rest_def)
qed

lemma cell_op_bind:
  assumes "cell_op s r i f" "\<And>s'. shape_ok s' \<Longrightarrow> same_rest s s' \<Longrightarrow> cell_op s' (k s') i g"
  shows "cell_op s (r \<bind> k) i (g \<circ> f)"
  by (rule cell_op_bind_Some [OF assms(1)]) (rule assms(2))

lemma same_rest_bytes: "same_rest s s' \<Longrightarrow> bytes s' = bytes s"
  by (simp add: same_rest_def)

lemma BitArray_get_cases:
  assumes "i < n" "length m = BitArray_length n"
  shows "BitArray_get m i = Some (BitArray_get m i = Some True)"
    "BitArray_get m i = Some (BitArray_get m i \<noteq> Some False)"
  using assms by (simp_all add: BitArray_get_eq BitArray_index)

lemma isByteConcrete_eq:
  assumes "shape_ok s" "unat off < bytes s"
  shows "isByteConcrete s off = Some (c_conc (cells s (unat off)))"
proof (cases "concreteMask s")
  case None
  then show ?thesis using assms by (simp add: isByteConcrete_def cells_def bconc_def)
next
  case (Some m)
  then have "BitArray_get m (unat off) = Some (BitArray_get m (unat off) = Some True)"
    using BitArray_get_cases(1) [of "unat off" "bytes s" m] assms by (simp add: shape_ok_def)
  then obtain b where "BitArray_get m (unat off) = Some b" by blast
  then show ?thesis using Some assms by (simp add: isByteConcrete_def cells_def bconc_def)
qed

lemma isByteFlushed_eq:
  assumes "shape_ok s" "unat off < bytes s"
  shows "isByteFlushed s off = Some (c_flushed (cells s (unat off)))"
proof (cases "flushMask s")
  case None
  then show ?thesis using assms by (simp add: isByteFlushed_def cells_def bflushed_def)
next
  case (Some m)
  then have "BitArray_get m (unat off) = Some (BitArray_get m (unat off) \<noteq> Some False)"
    using BitArray_get_cases(2) [of "unat off" "bytes s" m] assms by (simp add: shape_ok_def)
  then obtain b where "BitArray_get m (unat off) = Some b" by blast
  then show ?thesis using Some assms by (cases b) (simp_all add: isByteFlushed_def cells_def bflushed_def)
qed

lemma isByteKnownSymbolic_eq:
  "shape_ok s \<Longrightarrow> unat off < bytes s \<Longrightarrow> isByteKnownSymbolic s off = Some (c_known (cells s (unat off)) \<noteq> None)"
  by (auto simp: isByteKnownSymbolic_def cells_def bknown_def shape_ok_def nth_opt_def split: option.splits)

lemma known_byte_eq: "shape_ok s \<Longrightarrow> unat off < bytes s \<Longrightarrow> known_byte s off = c_known (cells s (unat off))"
  by (auto simp: known_byte_def cells_def bknown_def shape_ok_def nth_opt_def split: option.splits)

lemmas cells_simps = cells_def bconc_def bflushed_def bknown_def

lemma mask_update:
  assumes "i < n" "length m = BitArray_length n"
  shows "\<exists>m'. BitArray_set_value m i v = Some m' \<and> length m' = BitArray_length n
    \<and> (\<forall>j < n. BitArray_get m' j = (if j = i then Some v else BitArray_get m j))"
proof -
  have len: "j div 32 < length m" if "j < n" for j
    using BitArray_index [OF that] assms(2) by simp
  obtain m' where "BitArray_set_value m i v = Some m'" "length m' = length m"
      "\<And>j. j div 32 < length m \<Longrightarrow> BitArray_get m' j = (if j = i then Some v else BitArray_get m j)"
    using BitArray_get_set_value [OF len [OF assms(1)], of v] by metis
  then show ?thesis using assms(2) len by auto
qed

lemma markByteConcrete_cells:
  assumes "shape_ok s" "unat off < bytes s"
  shows "cell_op s (markByteConcrete s off) (unat off) (\<lambda>c. Cell (c_val c) True (c_flushed c) (c_known c))"
proof (cases "concreteMask s")
  case None
  then show ?thesis using assms
    by (intro cell_opI [where s' = s]) (auto simp: markByteConcrete_def same_rest_def cells_simps)
next
  case (Some m)
  then have m: "length m = BitArray_length (bytes s)" using assms by (simp add: shape_ok_def)
  obtain m' where m': "BitArray_set_value m (unat off) True = Some m'" "length m' = BitArray_length (bytes s)"
    "\<forall>j < bytes s. BitArray_get m' j = (if j = unat off then Some True else BitArray_get m j)"
    using mask_update [OF assms(2) m, of True] by blast
  show ?thesis
    by (rule cell_opI [where s' = "s\<lparr>concreteMask := Some m'\<rparr>"])
      (use assms Some m' in \<open>auto simp: markByteConcrete_def BitArray_set_value_def same_rest_def cells_simps shape_ok_def\<close>)
qed

lemma markByteSymbolic_cells:
  assumes "shape_ok s" "unat off < bytes s"
  shows "cell_op s (markByteSymbolic s off) (unat off) (\<lambda>c. Cell (c_val c) False (c_flushed c) (c_known c))"
proof -
  define m where "m = (case concreteMask s of None \<Rightarrow> BitArray_new (bytes s) True | Some m \<Rightarrow> m)"
  have m: "length m = BitArray_length (bytes s)" using assms
    by (auto simp: m_def shape_ok_def BitArray_new_def split: option.splits)
  have g: "BitArray_get m j = Some True \<longleftrightarrow> bconc s j" if "j < bytes s" for j
    using BitArray_get_new [OF that] by (simp add: m_def bconc_def split: option.splits)
  obtain m' where m': "BitArray_set_value m (unat off) False = Some m'" "length m' = BitArray_length (bytes s)"
    "\<forall>j < bytes s. BitArray_get m' j = (if j = unat off then Some False else BitArray_get m j)"
    using mask_update [OF assms(2) m, of False] by blast
  show ?thesis
    by (rule cell_opI [where s' = "s\<lparr>concreteMask := Some m'\<rparr>"])
      (use assms m' g in \<open>auto simp: markByteSymbolic_def m_def [symmetric] BitArray_set_value_def
        same_rest_def cells_def bconc_def [of "s\<lparr>concreteMask := Some m'\<rparr>"] bflushed_def bknown_def shape_ok_def\<close>)
qed

lemma markByteUnflushed_cells:
  assumes "shape_ok s" "unat off < bytes s"
  shows "cell_op s (markByteUnflushed s off) (unat off) (\<lambda>c. Cell (c_val c) (c_conc c) False (c_known c))"
proof (cases "flushMask s")
  case None
  then show ?thesis using assms
    by (intro cell_opI [where s' = s]) (auto simp: markByteUnflushed_def same_rest_def cells_simps)
next
  case (Some m)
  then have m: "length m = BitArray_length (bytes s)" using assms by (simp add: shape_ok_def)
  obtain m' where m': "BitArray_set_value m (unat off) True = Some m'" "length m' = BitArray_length (bytes s)"
    "\<forall>j < bytes s. BitArray_get m' j = (if j = unat off then Some True else BitArray_get m j)"
    using mask_update [OF assms(2) m, of True] by blast
  show ?thesis
    by (rule cell_opI [where s' = "s\<lparr>flushMask := Some m'\<rparr>"])
      (use assms Some m' in \<open>auto simp: markByteUnflushed_def BitArray_set_value_def same_rest_def cells_simps shape_ok_def\<close>)
qed

lemma unset_flush_cells:
  assumes "shape_ok s" "unat off < bytes s" "flushMask s \<noteq> None"
  shows "cell_op s (unset_flush s off) (unat off) (\<lambda>c. Cell (c_val c) (c_conc c) True (c_known c))"
proof -
  obtain m where Some: "flushMask s = Some m" using assms(3) by blast
  then have m: "length m = BitArray_length (bytes s)" using assms by (simp add: shape_ok_def)
  obtain m' where m': "BitArray_set_value m (unat off) False = Some m'" "length m' = BitArray_length (bytes s)"
    "\<forall>j < bytes s. BitArray_get m' j = (if j = unat off then Some False else BitArray_get m j)"
    using mask_update [OF assms(2) m, of False] by blast
  show ?thesis
    by (rule cell_opI [where s' = "s\<lparr>flushMask := Some m'\<rparr>"])
      (use assms Some m' in \<open>auto simp: unset_flush_def BitArray_set_value_def same_rest_def cells_simps shape_ok_def\<close>)
qed

lemma setKnownSymbolic_cells:
  assumes "shape_ok s" "unat off < bytes s"
  shows "cell_op s (setKnownSymbolic s off v) (unat off) (\<lambda>c. Cell (c_val c) (c_conc c) (c_flushed c) v)"
proof (cases "knownSymbolics s = None \<and> v = None")
  case True
  then show ?thesis using assms
    by (intro cell_opI [where s' = s]) (auto simp: setKnownSymbolic_def same_rest_def cells_simps)
next
  case False
  define k where "k = (case knownSymbolics s of None \<Rightarrow> replicate (bytes s) None | Some k \<Rightarrow> k)"
  have k: "length k = bytes s" using assms by (auto simp: k_def shape_ok_def split: option.splits)
  have g: "k ! j = bknown s j" if "j < bytes s" for j
    using that by (simp add: k_def bknown_def split: option.splits)
  have "setKnownSymbolic s off v = Some (s\<lparr>knownSymbolics := Some (k[unat off := v])\<rparr>)"
    using False assms k by (auto simp: setKnownSymbolic_def set_opt_def k_def split: option.splits)
  then show ?thesis
    by (rule cell_opI)
      (use assms k g in \<open>auto simp: same_rest_def cells_def bconc_def bflushed_def shape_ok_def
        bknown_def [of "s\<lparr>knownSymbolics := Some (k[unat off := v])\<rparr>"]\<close>)
qed

lemma store_cells:
  assumes "shape_ok s" "unat off < bytes s"
  shows "cell_op s (map_option (\<lambda>cs. s\<lparr>concreteStore := cs\<rparr>) (set_opt (concreteStore s) (unat off) v)) (unat off)
     (\<lambda>c. Cell v (c_conc c) (c_flushed c) (c_known c))"
  by (rule cell_opI [where s' = "s\<lparr>concreteStore := (concreteStore s)[unat off := v]\<rparr>"])
    (use assms in \<open>auto simp: set_opt_def shape_ok_def same_rest_def cells_simps\<close>)

subsection \<open>The writes of one byte\<close>

lemma write8_byte_cells:
  assumes "shape_ok s" "unat off < bytes s"
  shows "cell_op s (write8_byte off v s) (unat off) (\<lambda>_. Cell v True False None)"
proof -
  let ?k = "\<lambda>s. do { s \<leftarrow> setKnownSymbolic s off None; s \<leftarrow> markByteConcrete s off; markByteUnflushed s off }"
  have "cell_op s (map_option (\<lambda>cs. s\<lparr>concreteStore := cs\<rparr>) (set_opt (concreteStore s) (unat off) v) \<bind> ?k) (unat off)
    (((\<lambda>c. Cell (c_val c) (c_conc c) False (c_known c)) \<circ> (\<lambda>c. Cell (c_val c) True (c_flushed c) (c_known c))
      \<circ> (\<lambda>c. Cell (c_val c) (c_conc c) (c_flushed c) None)) \<circ> (\<lambda>c. Cell v (c_conc c) (c_flushed c) (c_known c)))"
    using assms(2)
    by (intro cell_op_bind store_cells setKnownSymbolic_cells markByteConcrete_cells markByteUnflushed_cells assms)
      (simp_all add: same_rest_bytes)
  moreover have "map_option (\<lambda>cs. s\<lparr>concreteStore := cs\<rparr>) (set_opt (concreteStore s) (unat off) v) \<bind> ?k = write8_byte off v s"
    by (simp add: write8_byte_def set_opt_def)
  ultimately show ?thesis by (simp add: comp_def)
qed

lemma write8_symbolic_cells:
  assumes "shape_ok s" "unat off < bytes s" "\<not> is_Constant v"
  shows "cell_op s (write8 E off v s) (unat off) (\<lambda>c. Cell (c_val c) False False (Some v))"
proof -
  have "cell_op s (do { s \<leftarrow> setKnownSymbolic s off (Some v); s \<leftarrow> markByteSymbolic s off; markByteUnflushed s off })
    (unat off) (((\<lambda>c. Cell (c_val c) (c_conc c) False (c_known c)) \<circ> (\<lambda>c. Cell (c_val c) False (c_flushed c) (c_known c)))
      \<circ> (\<lambda>c. Cell (c_val c) (c_conc c) (c_flushed c) (Some v)))"
    using assms(2)
    by (intro cell_op_bind setKnownSymbolic_cells markByteSymbolic_cells markByteUnflushed_cells assms)
      (simp_all add: same_rest_bytes)
  then show ?thesis using assms(3) by (simp add: write8_def comp_def)
qed

end
