(* ===== verification/MemoryValues.thy ===== *)
theory MemoryValues
  imports MemorySound
begin

text \<open>
  The values of the bytes of an object, the invariant \<open>object_ok\<close>, and the flushing of the caches
  to the update list: it returns, keeps the invariant and keeps every byte's value.
\<close>

subsection \<open>Update lists as lists of writes\<close>

definition write_value :: "assignment \<Rightarrow> nat \<Rightarrow> (expr \<times> expr) list \<Rightarrow> apint \<Rightarrow> apint" where
  "write_value \<rho> i ws base =
     fold (\<lambda>(index, value) v. if ap_value (sem \<rho> index) = int i then sem \<rho> value else v) ws base"

lemma write_value_simps [simp]:
  "write_value \<rho> i [] base = base"
  "write_value \<rho> i ((index, value) # ws) base =
     write_value \<rho> i ws (if ap_value (sem \<rho> index) = int i then sem \<rho> value else base)"
  "write_value \<rho> i (ws @ ws') base = write_value \<rho> i ws' (write_value \<rho> i ws base)"
  by (simp_all add: write_value_def)

lemma sem_read_writes:
  "ap_value x = int i \<Longrightarrow> sem_read \<rho> root u x = write_value \<rho> i (unode_writes u) (array_value \<rho> root i)"
proof (induction "unode_size u" arbitrary: u)
  case 0
  then show ?case by (cases u) auto
next
  case (Suc n)
  then show ?case by (cases u) auto
qed

definition writes_wt :: "(nat \<Rightarrow> array) \<Rightarrow> (expr \<times> expr) list \<Rightarrow> bool" where
  "writes_wt H ws \<longleftrightarrow> (\<forall>(index, value) \<in> set ws. wt H index \<and> wt H value \<and> getWidth index = 32 \<and> getWidth value = 8)"

lemma wt_unode_writes:
  "arr_domain root = 32 \<Longrightarrow> arr_range root = 8 \<Longrightarrow> wt_unode H root u \<longleftrightarrow> writes_wt H (unode_writes u)"
proof (induction "unode_size u" arbitrary: u)
  case 0
  then show ?case by (cases u) (auto simp: writes_wt_def)
next
  case (Suc n)
  then show ?case by (cases u) (auto simp: writes_wt_def)
qed

lemma write_value_ok:
  "writes_wt H ws \<Longrightarrow> ap_ok base \<Longrightarrow> ap_width base = 8 \<Longrightarrow>
     ap_ok (write_value \<rho> i ws base) \<and> ap_width (write_value \<rho> i ws base) = 8"
  by (induction ws arbitrary: base) (auto simp: writes_wt_def)

subsection \<open>The value of a byte\<close>

definition zero_array :: "nat \<Rightarrow> array" where
  "zero_array n = \<lparr>arr_addr = 0, arr_name = [], arr_size = n, arr_domain = 32, arr_range = 8,
     arr_constantValues = replicate n (APInt 8 0)\<rparr>"

definition obj_array :: "object_state \<Rightarrow> array" where
  "obj_array s = (case upd_root s of Some a \<Rightarrow> a | None \<Rightarrow> zero_array (bytes s))"

definition upd_val :: "assignment \<Rightarrow> object_state \<Rightarrow> nat \<Rightarrow> apint" where
  "upd_val \<rho> s i = write_value \<rho> i (unode_writes (upd_head s)) (array_value \<rho> (obj_array s) i)"

definition cached :: "assignment \<Rightarrow> cell \<Rightarrow> apint option" where
  "cached \<rho> c = (if c_conc c then Some (APInt 8 (uint (c_val c))) else map_option (sem \<rho>) (c_known c))"

definition byte_val :: "assignment \<Rightarrow> object_state \<Rightarrow> nat \<Rightarrow> apint" where
  "byte_val \<rho> s i = (case cached \<rho> (cells s i) of Some v \<Rightarrow> v | None \<Rightarrow> upd_val \<rho> s i)"

definition cell_ok :: "(nat \<Rightarrow> array) \<Rightarrow> cell \<Rightarrow> bool" where
  "cell_ok H c \<longleftrightarrow> (\<not> c_flushed c \<longrightarrow> c_conc c \<or> c_known c \<noteq> None) \<and> (c_conc c \<longrightarrow> c_known c = None)
     \<and> (\<forall>e. c_known c = Some e \<longrightarrow> wt H e \<and> getWidth e = 8)"

definition updates_ok :: "(nat \<Rightarrow> array) \<Rightarrow> object_state \<Rightarrow> bool" where
  "updates_ok H s \<longleftrightarrow> writes_wt H (unode_writes (upd_head s))
     \<and> (case upd_root s of
          Some a \<Rightarrow> array_ok H a \<and> arr_domain a = 32 \<and> arr_range a = 8
        | None \<Rightarrow> \<forall>(index, value) \<in> set (unode_writes (upd_head s)).
            \<forall>c. index = ConstantExpr c \<longrightarrow> nat (ap_value c) < bytes s)"

definition object_ok :: "(nat \<Rightarrow> array) \<Rightarrow> object_state \<Rightarrow> bool" where
  "object_ok H s \<longleftrightarrow> shape_ok s \<and> updates_ok H s
     \<and> (\<forall>i < bytes s. cell_ok H (cells s i)
         \<and> (\<forall>\<rho> v. c_flushed (cells s i) \<longrightarrow> cached \<rho> (cells s i) = Some v \<longrightarrow> upd_val \<rho> s i = v))"

lemma object_okD:
  assumes "object_ok H s"
  shows "shape_ok s" "updates_ok H s" "i < bytes s \<Longrightarrow> cell_ok H (cells s i)"
    "i < bytes s \<Longrightarrow> c_flushed (cells s i) \<Longrightarrow> cached \<rho> (cells s i) = Some v \<Longrightarrow> upd_val \<rho> s i = v"
  using assms by (auto simp: object_ok_def)

lemma obj_array_shape: "updates_ok H s \<Longrightarrow> arr_domain (obj_array s) = 32 \<and> arr_range (obj_array s) = 8"
  by (auto simp: updates_ok_def obj_array_def zero_array_def split: option.splits)

lemma array_value_zero: "i < n \<Longrightarrow> array_value \<rho> (zero_array n) i = APInt 8 0"
  by (auto simp: array_value_def zero_array_def isConstantArray_def)

lemma upd_val_ok:
  assumes "updates_ok H s"
  shows "ap_ok (upd_val \<rho> s i) \<and> ap_width (upd_val \<rho> s i) = 8"
proof -
  have "ap_ok (array_value \<rho> (obj_array s) i) \<and> ap_width (array_value \<rho> (obj_array s) i) = 8"
  proof (cases "upd_root s")
    case None
    then show ?thesis
      by (auto simp: obj_array_def array_value_def zero_array_def ap_ok_def)
  next
    case (Some a)
    then show ?thesis using assms array_value_ok [of H a] by (simp add: updates_ok_def obj_array_def)
  qed
  moreover have "writes_wt H (unode_writes (upd_head s))" using assms by (simp add: updates_ok_def)
  ultimately show ?thesis unfolding upd_val_def by (intro write_value_ok) simp_all
qed

lemma uint_lt_byte: "uint (v :: 8 word) < 256"
  using unsigned_less [of v, where 'a = int] by simp

lemma byte_ap_ok [simp]: "ap_ok (APInt 8 (uint (v :: 8 word)))"
  by (simp add: ap_ok_def take_bit_int_eq_self uint_lt_byte)

lemma cached_ok: "cell_ok H c \<Longrightarrow> cached \<rho> c = Some v \<Longrightarrow> ap_ok v \<and> ap_width v = 8"
  by (auto simp: cell_ok_def cached_def split: if_splits)

lemma byte_val_ok:
  assumes "object_ok H s" "i < bytes s"
  shows "ap_ok (byte_val \<rho> s i) \<and> ap_width (byte_val \<rho> s i) = 8"
  using assms cached_ok [OF object_okD(3) [OF assms]] upd_val_ok [OF object_okD(2) [OF assms(1)]]
  by (auto simp: byte_val_def split: option.splits)

lemma object_okI:
  assumes "shape_ok s" "updates_ok H s" "\<And>i. i < bytes s \<Longrightarrow> cell_ok H (cells s i)"
    and "\<And>i \<rho> v. i < bytes s \<Longrightarrow> c_flushed (cells s i) \<Longrightarrow> cached \<rho> (cells s i) = Some v \<Longrightarrow> upd_val \<rho> s i = v"
  shows "object_ok H s"
  using assms by (simp add: object_ok_def)

text \<open>An operation on one cell that leaves the update list.\<close>

lemma cell_op_object:
  assumes ok: "object_ok H s" and op: "cell_op s r i f" and i: "i < bytes s"
    and c: "cell_ok H (f (cells s i))"
    and fl: "\<And>\<rho> v. c_flushed (f (cells s i)) \<Longrightarrow> cached \<rho> (f (cells s i)) = Some v \<Longrightarrow> upd_val \<rho> s i = v"
  shows "\<exists>s'. r = Some s' \<and> object_ok H s' \<and> same_rest s s' \<and> cells s' = (cells s)(i := f (cells s i))
     \<and> (\<forall>\<rho> j. upd_val \<rho> s' j = upd_val \<rho> s j)"
proof -
  obtain s' where s': "r = Some s'" "shape_ok s'" "same_rest s s'" "cells s' = (cells s)(i := f (cells s i))"
    using op by (auto simp: cell_op_def)
  have b: "os_size s' = os_size s" "upd_root s' = upd_root s" "upd_head s' = upd_head s"
    using s'(3) by (simp_all add: same_rest_def)
  have u: "upd_val \<rho> s' j = upd_val \<rho> s j" for \<rho> j
    using b by (cases "upd_root s") (simp_all add: upd_val_def obj_array_def)
  have uo: "updates_ok H s'" using object_okD(2) [OF ok] b
    by (cases "upd_root s") (simp_all add: updates_ok_def)
  have "object_ok H s'"
  proof (rule object_okI [OF s'(2) uo])
    fix j assume "j < bytes s'"
    then show "cell_ok H (cells s' j)" using c object_okD(3) [OF ok] s'(4) b by simp
  next
    fix j \<rho> v assume "j < bytes s'" "c_flushed (cells s' j)" "cached \<rho> (cells s' j) = Some v"
    then show "upd_val \<rho> s' j = v"
      using fl object_okD(4) [OF ok] s'(4) b u by (cases "j = i") simp_all
  qed
  then show ?thesis using s' u by blast
qed

subsection \<open>The heap of arrays\<close>

definition heap_of :: "array_cache \<Rightarrow> nat \<Rightarrow> array" where
  "heap_of C i = (case find (\<lambda>a. arr_addr a = i) (cache_arrays C) of
     Some a \<Rightarrow> a
   | None \<Rightarrow> \<lparr>arr_addr = Suc i, arr_name = [], arr_size = 0, arr_domain = 1, arr_range = 1, arr_constantValues = []\<rparr>)"

definition heap_le :: "(nat \<Rightarrow> array) \<Rightarrow> (nat \<Rightarrow> array) \<Rightarrow> bool" where
  "heap_le H H' \<longleftrightarrow> (\<forall>a. array_ok H a \<longrightarrow> array_ok H' a)"

lemma heap_le_refl [simp]: "heap_le H H"
  by (simp add: heap_le_def)

lemma heap_le_trans: "heap_le H H' \<Longrightarrow> heap_le H' H'' \<Longrightarrow> heap_le H H''"
  by (simp add: heap_le_def)

lemma wt_mono_both:
  "wt H e \<Longrightarrow> heap_le H H' \<Longrightarrow> wt H' e"
  "wt_unode H root u \<Longrightarrow> heap_le H H' \<Longrightarrow> wt_unode H' root u"
proof (induction e and u arbitrary: and root)
  case (ReadExpr a u e)
  then show ?case by (auto simp: heap_le_def)
qed auto

lemmas wt_mono = wt_mono_both(1)

lemma writes_wt_mono: "writes_wt H ws \<Longrightarrow> heap_le H H' \<Longrightarrow> writes_wt H' ws"
  by (auto simp: writes_wt_def intro: wt_mono)

lemma updates_ok_mono: "updates_ok H s \<Longrightarrow> heap_le H H' \<Longrightarrow> updates_ok H' s"
  by (auto simp: updates_ok_def heap_le_def writes_wt_mono split: option.splits)

lemma cell_ok_mono: "cell_ok H c \<Longrightarrow> heap_le H H' \<Longrightarrow> cell_ok H' c"
  by (auto simp: cell_ok_def intro: wt_mono)

lemma object_ok_mono: "object_ok H s \<Longrightarrow> heap_le H H' \<Longrightarrow> object_ok H' s"
  by (auto simp: object_ok_def updates_ok_mono cell_ok_mono)

definition cache_ok :: "mem_env \<Rightarrow> array_cache \<Rightarrow> bool" where
  "cache_ok E C \<longleftrightarrow>
     distinct (map arr_addr (cache_arrays C))
     \<and> arr_addr ` set (cache_arrays C) = new_addr E ` {..<length (cache_arrays C)}
     \<and> list_all isSymbolicArray (cachedSymbolicArrays C) \<and> list_all isConstantArray (concreteArrays C)
     \<and> distinct (map (\<lambda>a. (arr_size a, arr_name a)) (cachedSymbolicArrays C))"

lemma heap_of_member:
  assumes "cache_ok E C" "a \<in> set (cache_arrays C)"
  shows "heap_of C (arr_addr a) = a"
proof -
  obtain b where b: "find (\<lambda>b. arr_addr b = arr_addr a) (cache_arrays C) = Some b"
    using assms(2) by (cases "find (\<lambda>b. arr_addr b = arr_addr a) (cache_arrays C)") (auto simp: find_None_iff)
  then have "b \<in> set (cache_arrays C)" "arr_addr b = arr_addr a"
    by (auto simp: find_Some_iff)
  then have "b = a"
    using assms by (auto simp: cache_ok_def distinct_map dest: inj_onD)
  then show ?thesis using b by (simp add: heap_of_def)
qed

lemma heap_of_ok_member:
  assumes "array_ok (heap_of C) a"
  shows "a \<in> set (cache_arrays C)"
proof (cases "find (\<lambda>b. arr_addr b = arr_addr a) (cache_arrays C)")
  case None
  then have "arr_addr (heap_of C (arr_addr a)) = Suc (arr_addr a)" by (simp add: heap_of_def)
  then show ?thesis using assms by (simp add: array_ok_def)
next
  case (Some b)
  then have "heap_of C (arr_addr a) = b" by (simp add: heap_of_def)
  then show ?thesis using assms Some by (auto simp: array_ok_def find_Some_iff)
qed

lemma heap_of_grows:
  assumes "cache_ok E C" "cache_ok E C'" "set (cache_arrays C) \<subseteq> set (cache_arrays C')"
  shows "heap_le (heap_of C) (heap_of C')"
proof -
  have "array_ok (heap_of C') a" if a: "array_ok (heap_of C) a" for a
  proof -
    have "a \<in> set (cache_arrays C')" using heap_of_ok_member [OF a] assms(3) by blast
    then show ?thesis using heap_of_member [OF assms(2)] a by (simp add: array_ok_def)
  qed
  then show ?thesis by (simp add: heap_le_def)
qed

text \<open>The cache keeps one symbolic array of a size and name, and every constant array.\<close>

lemma CreateArray_ok:
  assumes C: "cache_ok E C" and inj: "inj (new_addr E)"
    and vals: "cs = [] \<or> length cs = sz" "\<forall>c \<in> set cs. ap_width c = rg"
  shows "\<exists>a C'. CreateArray E nm sz cs dom' rg C = Some (a, C') \<and> cache_ok E C'
     \<and> set (cache_arrays C') = insert a (set (cache_arrays C))
     \<and> arr_size a = sz \<and> arr_name a = nm
     \<and> (isSymbolicArray a \<longleftrightarrow> cs = [])
     \<and> (a \<in> set (cachedSymbolicArrays C) \<or> arr_domain a = dom' \<and> arr_range a = rg \<and> arr_constantValues a = cs)"
proof -
  let ?n = "length (cache_arrays C)"
  define a where "a = \<lparr>arr_addr = new_addr E ?n, arr_name = nm, arr_size = sz, arr_domain = dom',
     arr_range = rg, arr_constantValues = cs\<rparr>"
  have new: "Array_new (new_addr E ?n) nm sz cs dom' rg = Some a"
    using vals by (simp add: Array_new_def a_def isSymbolicArray_def)
  have fresh: "arr_addr a \<notin> arr_addr ` set (cache_arrays C)"
    using C inj by (auto simp: cache_ok_def a_def dest: injD)
  have addrs: "arr_addr ` insert a (set (cache_arrays C)) = new_addr E ` {..<Suc ?n}"
    using C by (simp add: cache_ok_def a_def lessThan_Suc)
  consider (const) "cs \<noteq> []"
    | (hit) b where "cs = []" "find (EquivArrayCmpFn a) (cachedSymbolicArrays C) = Some b"
    | (miss) "cs = []" "find (EquivArrayCmpFn a) (cachedSymbolicArrays C) = None"
    by fastforce
  then show ?thesis
  proof cases
    case const
    let ?C = "C\<lparr>concreteArrays := concreteArrays C @ [a]\<rparr>"
    have "CreateArray E nm sz cs dom' rg C = Some (a, ?C)"
      using const new by (simp add: CreateArray_def a_def isSymbolicArray_def isConstantArray_def)
    moreover have "cache_ok E ?C"
      using C fresh addrs const by (auto simp: cache_ok_def cache_arrays_def a_def isConstantArray_def)
    ultimately show ?thesis using const by (auto simp: cache_arrays_def a_def isSymbolicArray_def)
  next
    case hit
    then have b: "b \<in> set (cachedSymbolicArrays C)" "EquivArrayCmpFn a b" by (auto simp: find_Some_iff)
    then have "isSymbolicArray b" using C by (auto simp: cache_ok_def list_all_iff)
    then have "CreateArray E nm sz cs dom' rg C = Some (b, C)"
      using hit new by (simp add: CreateArray_def a_def isSymbolicArray_def)
    then show ?thesis using hit b C \<open>isSymbolicArray b\<close>
      by (auto simp: cache_arrays_def EquivArrayCmpFn_def a_def)
  next
    case miss
    let ?C = "C\<lparr>cachedSymbolicArrays := cachedSymbolicArrays C @ [a]\<rparr>"
    have "CreateArray E nm sz cs dom' rg C = Some (a, ?C)"
      using miss new by (simp add: CreateArray_def a_def isSymbolicArray_def)
    moreover have "cache_ok E ?C"
      using C fresh addrs miss
      by (auto simp: cache_ok_def cache_arrays_def a_def isSymbolicArray_def find_None_iff EquivArrayCmpFn_def)
    ultimately show ?thesis using miss by (auto simp: cache_arrays_def a_def isSymbolicArray_def)
  qed
qed

end
