(* ===== verification/MemoryFlush.thy ===== *)
theory MemoryFlush
  imports MemoryValues
begin

text \<open>
  Flushing and the lazy creation of the array: \<open>getUpdates\<close>, \<open>flushRangeForRead\<close> and
  \<open>flushRangeForWrite\<close> return, keep the invariant of the object and the value of every byte.
  The locale \<open>mem_model\<close> is the environment the operations rely on.
\<close>

locale mem_model = expr_creation "me_expr E" for E :: mem_env +
  assumes new_addr_inj: "inj (new_addr E)"

subsection \<open>Loops\<close>

lemma foldM_invariant:
  assumes "P 0 s" "\<And>k s. k < length xs \<Longrightarrow> P k s \<Longrightarrow> \<exists>s'. f s (xs ! k) = Some s' \<and> P (Suc k) s'"
  shows "\<exists>s'. foldM f s xs = Some s' \<and> P (length xs) s'"
  using assms
proof (induction xs arbitrary: P s)
  case (Cons x xs)
  obtain s' where s': "f s x = Some s'" "P (Suc 0) s'" using Cons.prems(2) [of 0 s] Cons.prems(1) by auto
  have "\<exists>s''. f t (xs ! k) = Some s'' \<and> P (Suc (Suc k)) s''" if "k < length xs" "P (Suc k) t" for k t
    using Cons.prems(2) [of "Suc k" t] that by simp
  then have "\<exists>s''. foldM f s' xs = Some s'' \<and> P (Suc (length xs)) s''"
    by (rule Cons.IH [where P = "\<lambda>k. P (Suc k)", OF s'(2)])
  then show ?case using s' by simp
qed simp

lemma length_unsigned_range [simp]: "length (unsigned_range 0 n) = unat n"
  by (simp add: unsigned_range_def)

lemma unsigned_range_nth:
  assumes "k < unat n"
  shows "unat (unsigned_range 0 n ! k) = k"
proof -
  have "k < 2 ^ 32" using assms unsigned_less [of n, where 'a = nat] by simp
  then show ?thesis using assms by (simp add: unsigned_range_def unat_of_nat take_bit_nat_eq_self)
qed

subsection \<open>Extending the update list\<close>

lemma object_extend_ok:
  assumes s: "updates_ok H s" and w: "wt H index" "wt H value" "getWidth index = 32" "getWidth value = 8"
    and c: "\<And>c. index = ConstantExpr c \<Longrightarrow> nat (ap_value c) < bytes s"
  shows "\<exists>s'. object_extend s index value = Some s' \<and> updates_ok H s'
    \<and> s' = s\<lparr>upd_head := UpdateNode (upd_head s) index value\<rparr>
    \<and> (\<forall>\<rho> i. upd_val \<rho> s' i = (if ap_value (sem \<rho> index) = int i then sem \<rho> value else upd_val \<rho> s i))"
proof -
  let ?s = "s\<lparr>upd_head := UpdateNode (upd_head s) index value\<rparr>"
  have e: "object_extend s index value = Some ?s"
    using s w by (cases "upd_root s") (simp_all add: object_extend_def UpdateList_extend_def updates_ok_def)
  moreover have "updates_ok H ?s"
    using s w c by (cases "upd_root s") (auto simp: updates_ok_def writes_wt_def)
  moreover have "upd_val \<rho> ?s i = (if ap_value (sem \<rho> index) = int i then sem \<rho> value else upd_val \<rho> s i)" for \<rho> i
    by (cases "upd_root s") (simp_all add: upd_val_def obj_array_def)
  ultimately show ?thesis by blast
qed

lemma cells_extend [simp]: "cells (s\<lparr>upd_head := h\<rparr>) = cells s"
  by (rule ext) (simp add: cells_simps)

lemma cells_root [simp]: "cells (s\<lparr>upd_root := r\<rparr>) = cells s"
  by (rule ext) (simp add: cells_simps)

lemma shape_extend [simp]: "shape_ok (s\<lparr>upd_head := h\<rparr>) = shape_ok s" "shape_ok (s\<lparr>upd_root := r\<rparr>) = shape_ok s"
  by (simp_all add: shape_ok_def)

subsection \<open>A cell that is flushed\<close>

text \<open>The expression that is flushed for a cached byte.\<close>

definition cell_expr :: "cell \<Rightarrow> expr option" where
  "cell_expr c = (if c_conc c then Some (ConstantExpr (APInt 8 (uint (c_val c)))) else c_known c)"

lemma cell_expr_ok:
  assumes "cell_ok H c" "\<not> c_flushed c"
  obtains e where "cell_expr c = Some e" "wt H e" "getWidth e = 8" "\<And>\<rho>. cached \<rho> c = Some (sem \<rho> e)"
proof (cases "c_conc c")
  case True
  then show thesis by (intro that [of "ConstantExpr (APInt 8 (uint (c_val c)))"]) (simp_all add: cell_expr_def cached_def)
next
  case False
  then obtain e where "c_known c = Some e" using assms by (auto simp: cell_ok_def)
  then show thesis using assms False by (intro that [of e]) (auto simp: cell_expr_def cached_def cell_ok_def)
qed

text \<open>The flush for a write drops the cached value, the flush for a read keeps it.\<close>

definition flushed_as :: "bool \<Rightarrow> cell \<Rightarrow> cell" where
  "flushed_as keep c = (if keep then Cell (c_val c) (c_conc c) True (c_known c) else Cell (c_val c) False True None)"

lemma flushed_as_simps [simp]:
  "c_flushed (flushed_as keep c)" "flushed_as keep (flushed_as keep c) = flushed_as keep c"
  "cached \<rho> (flushed_as True c) = cached \<rho> c" "cached \<rho> (flushed_as False c) = None"
  by (simp_all add: flushed_as_def cached_def)

lemma flushed_as_id: "c_flushed c \<Longrightarrow> keep \<or> \<not> c_conc c \<and> c_known c = None \<Longrightarrow> flushed_as keep c = c"
  by (cases c) (auto simp: flushed_as_def)

lemma flushed_as_ok: "cell_ok H c \<Longrightarrow> cell_ok H (flushed_as keep c)"
  by (simp add: flushed_as_def cell_ok_def)

lemma flushed_mask: "c_flushed (cells s j) \<Longrightarrow> flushMask s \<noteq> None"
  by (cases "flushMask s") (simp_all add: cells_simps split: if_splits)

lemma byte_val_cong: "cells s' j = cells s j \<Longrightarrow> upd_val \<rho> s' j = upd_val \<rho> s j \<Longrightarrow> byte_val \<rho> s' j = byte_val \<rho> s j"
  by (cases "cached \<rho> (cells s j)") (simp_all add: byte_val_def)

lemma byte_val_cached: "cached \<rho> (cells s j) = Some v \<Longrightarrow> byte_val \<rho> s j = v"
  by (simp add: byte_val_def)

lemma byte_val_uncached: "cached \<rho> (cells s j) = None \<Longrightarrow> byte_val \<rho> s j = upd_val \<rho> s j"
  by (simp add: byte_val_def)

text \<open>\<open>flush_rel H s s' C\<close>: the object \<open>s'\<close> is \<open>s\<close> with the cells \<open>C\<close> and some flushed values.\<close>

definition flush_rel :: "(nat \<Rightarrow> array) \<Rightarrow> object_state \<Rightarrow> object_state \<Rightarrow> (nat \<Rightarrow> cell) \<Rightarrow> bool" where
  "flush_rel H s s' C \<longleftrightarrow> object_ok H s' \<and> cells s' = C
     \<and> os_size s' = os_size s \<and> upd_root s' = upd_root s \<and> os_object s' = os_object s
     \<and> readOnly s' = readOnly s \<and> copyOnWriteOwner s' = copyOnWriteOwner s
     \<and> (\<forall>\<rho> j. j < bytes s \<longrightarrow> byte_val \<rho> s' j = byte_val \<rho> s j)"

lemma flush_rel_refl: "object_ok H s \<Longrightarrow> flush_rel H s s (cells s)"
  by (simp add: flush_rel_def)

lemma flush_rel_trans: "flush_rel H s s' C \<Longrightarrow> flush_rel H s' s'' C' \<Longrightarrow> flush_rel H s s'' C'"
  by (simp add: flush_rel_def)

lemma flush_rel_cell_op:
  assumes ok: "object_ok H s" and op: "cell_op s r k f" and k: "k < bytes s"
    and f: "f (cells s k) = flushed_as keep (cells s k)"
    and v: "\<And>\<rho> v. cached \<rho> (cells s k) = Some v \<Longrightarrow> upd_val \<rho> s k = v"
  shows "\<exists>s'. r = Some s' \<and> flush_rel H s s' ((cells s)(k := flushed_as keep (cells s k)))"
proof -
  have c: "cell_ok H (f (cells s k))" using f flushed_as_ok object_okD(3) [OF ok k] by simp
  have fl: "upd_val \<rho> s k = u" if "cached \<rho> (f (cells s k)) = Some u" for \<rho> u
    using that v f by (cases keep) simp_all
  obtain s' where s': "r = Some s'" "object_ok H s'" "same_rest s s'" "cells s' = (cells s)(k := f (cells s k))"
      "\<forall>\<rho> j. upd_val \<rho> s' j = upd_val \<rho> s j"
    using cell_op_object [OF ok op k c fl] by blast
  have b: "byte_val \<rho> s' j = byte_val \<rho> s j" for \<rho> j
  proof (cases "j = k")
    case True
    then show ?thesis using s'(4,5) f v
      by (cases keep; cases "cached \<rho> (cells s k)") (simp_all add: byte_val_def)
  qed (use s' in \<open>intro byte_val_cong, simp_all\<close>)
  then have "flush_rel H s s' ((cells s)(k := flushed_as keep (cells s k)))"
    using s' f by (simp add: flush_rel_def same_rest_def)
  then show ?thesis using s'(1) by blast
qed

text \<open>Appending the value of an unflushed byte to the update list.\<close>

lemma flush_extend:
  assumes ok: "object_ok H s" and k: "k < bytes s" and fl: "\<not> c_flushed (cells s k)"
    and e: "cell_expr (cells s k) = Some e" and i: "ap_ok i" "ap_width i = 32" "ap_value i = int k"
  shows "\<exists>s'. object_extend s (ConstantExpr i) e = Some s' \<and> flush_rel H s s' (cells s)
     \<and> flushMask s' = flushMask s \<and> (\<forall>\<rho> v. cached \<rho> (cells s k) = Some v \<longrightarrow> upd_val \<rho> s' k = v)"
proof -
  note c = object_okD(3) [OF ok]
  have w: "wt H e" "getWidth e = 8" "\<And>\<rho>. cached \<rho> (cells s k) = Some (sem \<rho> e)"
    using cell_expr_ok [OF c [OF k] fl] e by auto
  obtain s' where s': "object_extend s (ConstantExpr i) e = Some s'" "updates_ok H s'"
      "s' = s\<lparr>upd_head := UpdateNode (upd_head s) (ConstantExpr i) e\<rparr>"
      "\<forall>\<rho> j. upd_val \<rho> s' j = (if int k = int j then sem \<rho> e else upd_val \<rho> s j)"
    using object_extend_ok [OF object_okD(2) [OF ok], of "ConstantExpr i" e] w i k by auto
  have "object_ok H s'"
  proof (rule object_okI)
    show "shape_ok s'" using object_okD(1) [OF ok] s'(3) by simp
    show "updates_ok H s'" by (rule s'(2))
    show "cell_ok H (cells s' j)" if "j < bytes s'" for j using that c s'(3) by simp
    show "upd_val \<rho> s' j = v" if "j < bytes s'" "c_flushed (cells s' j)" "cached \<rho> (cells s' j) = Some v" for j \<rho> v
      using that s'(3,4) fl object_okD(4) [OF ok] by (cases "j = k") simp_all
  qed
  moreover have "byte_val \<rho> s' j = byte_val \<rho> s j" if "j < bytes s" for \<rho> j
  proof (cases "j = k")
    case True
    then show ?thesis using w(3) s'(3) by (simp add: byte_val_cached [where v = "sem \<rho> e"])
  next
    case False
    then show ?thesis by (intro byte_val_cong) (use s'(3,4) in simp_all)
  qed
  ultimately have "flush_rel H s s' (cells s)" using s'(3) by (simp add: flush_rel_def)
  then show ?thesis using s' w(3) by auto
qed

context mem_model
begin

lemma const_index_eq:
  fixes off :: uint32
  shows "const_index E off = Some (ConstantExpr (APInt 32 (uint off)))" "ap_ok (APInt 32 (uint off))"
proof -
  have u: "uint off < 2 ^ 32" using unsigned_less [of off, where 'a = int] by simp
  then have "take_bit 32 (ucast off :: uint64) = ucast off"
    by (intro bit_word_eqI) (auto simp: bit_simps dest: bit_imp_le_length)
  then show "const_index E off = Some (ConstantExpr (APInt 32 (uint off)))"
    using u by (simp add: const_index_def ConstantExpr_create_def mk_ap_def unsigned_ucast_eq take_bit_int_eq_self)
  show "ap_ok (APInt 32 (uint off))" using u by (simp add: ap_ok_def take_bit_int_eq_self)
qed

lemma byte_const:
  "ConstantExpr_create (api (me_expr E)) (ucast (v :: 8 word)) 8 = Some (APInt 8 (uint v))"
proof -
  have "take_bit 8 (ucast v :: uint64) = ucast v"
    by (intro bit_word_eqI) (auto simp: bit_simps dest: bit_imp_le_length)
  then show ?thesis
    using uint_lt_byte [of v] by (simp add: ConstantExpr_create_def mk_ap_def unsigned_ucast_eq take_bit_int_eq_self)
qed

lemma concrete_byte_eq:
  "shape_ok s \<Longrightarrow> unat off < bytes s \<Longrightarrow>
     concrete_byte E s off = Some (ConstantExpr (APInt 8 (uint (c_val (cells s (unat off))))))"
  by (simp add: concrete_byte_def shape_ok_def nth_opt_def byte_const cells_def)

lemma flush_value:
  fixes off :: uint32
  assumes ok: "object_ok H s" and k: "unat off < bytes s" and fl: "\<not> c_flushed (cells s (unat off))"
  shows "\<exists>e s'. cell_expr (cells s (unat off)) = Some e
     \<and> object_extend s (ConstantExpr (APInt 32 (uint off))) e = Some s' \<and> flush_rel H s s' (cells s)
     \<and> flushMask s' = flushMask s \<and> (\<forall>\<rho> v. cached \<rho> (cells s (unat off)) = Some v \<longrightarrow> upd_val \<rho> s' (unat off) = v)"
proof -
  obtain e where e: "cell_expr (cells s (unat off)) = Some e"
    using cell_expr_ok [OF object_okD(3) [OF ok k] fl] by blast
  have i: "ap_width (APInt 32 (uint off)) = 32" "ap_value (APInt 32 (uint off)) = int (unat off)" by simp_all
  have "ap_ok (APInt 32 (uint off))" by (rule const_index_eq(2))
  from flush_extend [OF ok k fl e this i] e show ?thesis by blast
qed

lemma flush_read_step_ok:
  assumes ok: "object_ok H s" and k: "unat off < bytes s" and m: "flushMask s \<noteq> None"
  shows "\<exists>s'. flush_read_step E s off = Some s'
     \<and> flush_rel H s s' ((cells s)(unat off := flushed_as True (cells s (unat off))))"
proof (cases "c_flushed (cells s (unat off))")
  case True
  then have "flush_read_step E s off = Some s"
    using k object_okD(1) [OF ok] by (simp add: flush_read_step_def isByteFlushed_eq)
  then show ?thesis using True flush_rel_refl [OF ok] flushed_as_id [OF True, of True] by (simp add: fun_upd_idem)
next
  case False
  note sh = object_okD(1) [OF ok]
  obtain e s' where e: "cell_expr (cells s (unat off)) = Some e"
    "object_extend s (ConstantExpr (APInt 32 (uint off))) e = Some s'" "flush_rel H s s' (cells s)"
    "flushMask s' = flushMask s" "\<And>\<rho> v. cached \<rho> (cells s (unat off)) = Some v \<Longrightarrow> upd_val \<rho> s' (unat off) = v"
    using flush_value [OF ok k False] by blast
  have s': "object_ok H s'" "cells s' = cells s" "bytes s' = bytes s" using e(3) by (simp_all add: flush_rel_def)
  have op: "cell_op s' (unset_flush s' off) (unat off) (\<lambda>c. Cell (c_val c) (c_conc c) True (c_known c))"
    using unset_flush_cells [OF object_okD(1) [OF s'(1)]] s'(3) k e(4) m by simp
  have "\<exists>s''. unset_flush s' off = Some s'' \<and>
      flush_rel H s' s'' ((cells s')(unat off := flushed_as True (cells s' (unat off))))"
    by (rule flush_rel_cell_op [OF s'(1) op]) (use k s' e(5) in \<open>simp_all add: flushed_as_def\<close>)
  moreover have "flush_read_step E s off = unset_flush s' off"
    using False k sh e const_index_eq(1) concrete_byte_eq [OF sh k] known_byte_eq [OF sh k] object_okD(3) [OF ok k]
    by (auto simp: flush_read_step_def isByteFlushed_eq isByteConcrete_eq isByteKnownSymbolic_eq cell_expr_def cell_ok_def)
  ultimately show ?thesis using flush_rel_trans [OF e(3)] s'(2) by auto
qed

lemma flush_write_step_ok:
  assumes ok: "object_ok H s" and k: "unat off < bytes s" and m: "flushMask s \<noteq> None"
  shows "\<exists>s'. flush_write_step E s off = Some s'
     \<and> flush_rel H s s' ((cells s)(unat off := flushed_as False (cells s (unat off))))"
proof -
  note sh = object_okD(1) [OF ok]
  note c = object_okD(3) [OF ok k]
  note is_eqs = isByteFlushed_eq [OF sh k] isByteConcrete_eq [OF sh k] isByteKnownSymbolic_eq [OF sh k]
    known_byte_eq [OF sh k] concrete_byte_eq [OF sh k] const_index_eq(1)
  show ?thesis
  proof (cases "c_flushed (cells s (unat off))")
    case fl: True
    note v = object_okD(4) [OF ok k fl]
    consider (conc) "c_conc (cells s (unat off))" "c_known (cells s (unat off)) = None"
      | (known) "\<not> c_conc (cells s (unat off))" "c_known (cells s (unat off)) \<noteq> None"
      | (none) "\<not> c_conc (cells s (unat off))" "c_known (cells s (unat off)) = None"
      using c by (auto simp: cell_ok_def)
    then show ?thesis
    proof cases
      case conc
      have "\<exists>s'. markByteSymbolic s off = Some s' \<and>
          flush_rel H s s' ((cells s)(unat off := flushed_as False (cells s (unat off))))"
        by (rule flush_rel_cell_op [OF ok markByteSymbolic_cells [OF sh k] k _ v])
          (use fl conc in \<open>simp_all add: flushed_as_def\<close>)
      then show ?thesis using is_eqs fl conc by (simp add: flush_write_step_def)
    next
      case known
      have "\<exists>s'. setKnownSymbolic s off None = Some s' \<and>
          flush_rel H s s' ((cells s)(unat off := flushed_as False (cells s (unat off))))"
        by (rule flush_rel_cell_op [OF ok setKnownSymbolic_cells [OF sh k] k _ v])
          (use fl known in \<open>simp_all add: flushed_as_def\<close>)
      then show ?thesis using is_eqs fl known by (simp add: flush_write_step_def)
    next
      case none
      then have "flush_write_step E s off = Some s" using is_eqs fl by (simp add: flush_write_step_def)
      then show ?thesis using flush_rel_refl [OF ok] flushed_as_id [OF fl, of False] none
        by (simp add: fun_upd_idem)
    qed
  next
    case fl: False
    obtain e s' where e: "cell_expr (cells s (unat off)) = Some e"
      "object_extend s (ConstantExpr (APInt 32 (uint off))) e = Some s'" "flush_rel H s s' (cells s)"
      "flushMask s' = flushMask s" "\<And>\<rho> v. cached \<rho> (cells s (unat off)) = Some v \<Longrightarrow> upd_val \<rho> s' (unat off) = v"
      using flush_value [OF ok k fl] by blast
    have s': "object_ok H s'" "cells s' = cells s" "os_size s' = os_size s" using e(3) by (simp_all add: flush_rel_def)
    note sh' = object_okD(1) [OF s'(1)]
    have k': "unat off < bytes s'" using k s'(3) by simp
    have unset: "cell_op s'' (unset_flush s'' off) (unat off) (\<lambda>c. Cell (c_val c) (c_conc c) True (c_known c))"
      if "shape_ok s''" "same_rest s' s''" "flushMask s'' \<noteq> None" for s''
      using unset_flush_cells [OF that(1) _ that(3)] k' same_rest_bytes [OF that(2)] by simp
    let ?op = "if c_conc (cells s (unat off)) then markByteSymbolic s' off else setKnownSymbolic s' off None"
    have mask: "flushMask s'' = flushMask s'" if "?op = Some s''" for s''
      using that by (auto simp: markByteSymbolic_def setKnownSymbolic_def bind_eq_Some_conv Let_def split: if_splits option.splits)
    have step: "flush_write_step E s off = ?op \<bind> (\<lambda>s. unset_flush s off)"
      using fl is_eqs e(1,2) c by (auto simp: flush_write_step_def cell_expr_def cell_ok_def)
    let ?f = "\<lambda>c. if c_conc (cells s (unat off)) then Cell (c_val c) False (c_flushed c) (c_known c)
      else Cell (c_val c) (c_conc c) (c_flushed c) None"
    have op1: "cell_op s' ?op (unat off) ?f"
      using markByteSymbolic_cells [OF sh' k'] setKnownSymbolic_cells [OF sh' k', of None] by simp
    then obtain s2 where s2: "?op = Some s2" "shape_ok s2" "same_rest s' s2" by (auto simp: cell_op_def)
    have "cell_op s' (?op \<bind> (\<lambda>s. unset_flush s off)) (unat off)
        ((\<lambda>c. Cell (c_val c) (c_conc c) True (c_known c)) \<circ> ?f)"
    proof (rule cell_op_bind_Some [OF op1])
      show "cell_op s'' (unset_flush s'' off) (unat off) (\<lambda>c. Cell (c_val c) (c_conc c) True (c_known c))"
        if "?op = Some s''" "shape_ok s''" "same_rest s' s''" for s''
        using unset [OF that(2,3)] mask [OF that(1)] e(4) m by simp
    qed
    then have "\<exists>s''. ?op \<bind> (\<lambda>s. unset_flush s off) = Some s'' \<and>
        flush_rel H s' s'' ((cells s')(unat off := flushed_as False (cells s' (unat off))))"
      by (rule flush_rel_cell_op [OF s'(1) _ k']) (use c s'(2) e(5) in \<open>auto simp: flushed_as_def cell_ok_def\<close>)
    then show ?thesis using step flush_rel_trans [OF e(3)] s'(2) by auto
  qed
qed

subsection \<open>Flushing every byte\<close>

lemma ensure_flushMask_ok:
  assumes "object_ok H s"
  shows "flush_rel H s (ensure_flushMask s) (cells s) \<and> flushMask (ensure_flushMask s) \<noteq> None"
proof (cases "flushMask s")
  case None
  let ?s = "ensure_flushMask s"
  have s: "?s = s\<lparr>flushMask := Some (BitArray_new (bytes s) True)\<rparr>" using None by (simp add: ensure_flushMask_def)
  have c: "cells ?s = cells s"
    using None BitArray_get_new [of _ "bytes s" True] by (intro ext) (simp add: s cells_simps)
  have u: "upd_val \<rho> ?s i = upd_val \<rho> s i" for \<rho> i
    by (cases "upd_root s") (simp_all add: s upd_val_def obj_array_def)
  have "object_ok H ?s"
  proof (rule object_okI)
    show "shape_ok ?s" using object_okD(1) [OF assms] by (simp add: s shape_ok_def BitArray_new_def)
    show "updates_ok H ?s" using object_okD(2) [OF assms] by (cases "upd_root s") (simp_all add: s updates_ok_def)
    show "cell_ok H (cells ?s i)" if "i < bytes ?s" for i
      unfolding c by (rule object_okD(3) [OF assms]) (use that s in simp)
    show "upd_val \<rho> ?s i = v" if "i < bytes ?s" "c_flushed (cells ?s i)" "cached \<rho> (cells ?s i) = Some v" for i \<rho> v
      unfolding u by (rule object_okD(4) [OF assms]) (use that s c in simp_all)
  qed
  moreover have "byte_val \<rho> ?s j = byte_val \<rho> s j" for \<rho> j
    by (rule byte_val_cong) (simp_all only: c u)
  moreover have "os_size ?s = os_size s \<and> upd_root ?s = upd_root s \<and> os_object ?s = os_object s
      \<and> readOnly ?s = readOnly s \<and> copyOnWriteOwner ?s = copyOnWriteOwner s \<and> flushMask ?s \<noteq> None"
    by (simp add: s)
  ultimately show ?thesis using c by (simp add: flush_rel_def)
next
  case (Some m)
  then show ?thesis using flush_rel_refl [OF assms] by (simp add: ensure_flushMask_def)
qed

definition flush_all :: "bool \<Rightarrow> object_state \<Rightarrow> nat \<Rightarrow> nat \<Rightarrow> cell" where
  "flush_all keep s k j = (if j < k then flushed_as keep (cells s j) else cells s j)"

lemma flush_all_0: "flush_all keep s 0 = cells s"
  by (rule ext) (simp add: flush_all_def)

lemma flush_loop_ok:
  assumes ok: "object_ok H s"
    and step: "\<And>s off. object_ok H s \<Longrightarrow> unat off < bytes s \<Longrightarrow> flushMask s \<noteq> None \<Longrightarrow>
      \<exists>s'. f s off = Some s' \<and> flush_rel H s s' ((cells s)(unat off := flushed_as keep (cells s (unat off))))"
  shows "\<exists>s'. foldM f (ensure_flushMask s) (unsigned_range 0 (os_size s)) = Some s'
     \<and> flush_rel H s s' (flush_all keep s (bytes s))"
proof -
  let ?P = "\<lambda>k t. flush_rel H s t (flush_all keep s k) \<and> flushMask t \<noteq> None"
  let ?xs = "unsigned_range 0 (os_size s)"
  have "\<exists>s'. foldM f (ensure_flushMask s) ?xs = Some s' \<and> ?P (length ?xs) s'"
  proof (rule foldM_invariant [where P = ?P])
    show "?P 0 (ensure_flushMask s)"
      using ensure_flushMask_ok [OF ok] by (simp add: flush_all_0)
  next
    fix k t assume k: "k < length ?xs" and t: "?P k t"
    let ?off = "?xs ! k"
    have off: "unat ?off = k" using k unsigned_range_nth by simp
    have t': "object_ok H t" "cells t = flush_all keep s k" "bytes t = bytes s"
      using t by (simp_all add: flush_rel_def)
    obtain s' where s': "f t ?off = Some s'" "flush_rel H t s' ((cells t)(k := flushed_as keep (cells t k)))"
      using step [OF t'(1), of ?off] off k t t'(3) by auto
    have "(cells t)(k := flushed_as keep (cells t k)) = flush_all keep s (Suc k)"
      by (rule ext) (simp add: t'(2) flush_all_def less_Suc_eq)
    moreover have "flushMask s' \<noteq> None"
      using s'(2) by (intro flushed_mask [of s' k]) (simp add: flush_rel_def)
    ultimately show "\<exists>s'. f t ?off = Some s' \<and> ?P (Suc k) s'"
      using s' flush_rel_trans t by auto
  qed
  then show ?thesis by auto
qed

lemma flushRangeForRead_ok:
  assumes "object_ok H s"
  shows "\<exists>s'. flushRangeForRead E s 0 (os_size s) = Some s' \<and> flush_rel H s s' (flush_all True s (bytes s))
     \<and> (\<forall>\<rho> j. j < bytes s \<longrightarrow> upd_val \<rho> s' j = byte_val \<rho> s j)"
proof -
  obtain s' where s': "flushRangeForRead E s 0 (os_size s) = Some s'" "flush_rel H s s' (flush_all True s (bytes s))"
    using flush_loop_ok [OF assms flush_read_step_ok] unfolding flushRangeForRead_def by auto
  have "upd_val \<rho> s' j = byte_val \<rho> s j" if j: "j < bytes s" for \<rho> j
  proof -
    have o': "object_ok H s'" "c_flushed (cells s' j)" "byte_val \<rho> s' j = byte_val \<rho> s j" "j < bytes s'"
      using s'(2) j by (simp_all add: flush_rel_def flush_all_def)
    have "upd_val \<rho> s' j = byte_val \<rho> s' j"
      using object_okD(4) [OF o'(1,4,2), of \<rho>] by (cases "cached \<rho> (cells s' j)") (simp_all add: byte_val_def)
    then show ?thesis using o'(3) by simp
  qed
  then show ?thesis using s' by blast
qed

lemma flushRangeForWrite_ok:
  assumes "object_ok H s"
  shows "\<exists>s'. flushRangeForWrite E s 0 (os_size s) = Some s' \<and> flush_rel H s s' (flush_all False s (bytes s))
     \<and> (\<forall>\<rho> j. j < bytes s \<longrightarrow> upd_val \<rho> s' j = byte_val \<rho> s j)"
proof -
  obtain s' where s': "flushRangeForWrite E s 0 (os_size s) = Some s'" "flush_rel H s s' (flush_all False s (bytes s))"
    using flush_loop_ok [OF assms flush_write_step_ok] unfolding flushRangeForWrite_def by auto
  have "upd_val \<rho> s' j = byte_val \<rho> s j" if j: "j < bytes s" for \<rho> j
  proof -
    have "cached \<rho> (cells s' j) = None" "byte_val \<rho> s' j = byte_val \<rho> s j"
      using s'(2) j by (simp_all add: flush_rel_def flush_all_def)
    then show ?thesis by (simp add: byte_val_def)
  qed
  then show ?thesis using s' by blast
qed

end

end
