(* ===== verification/MemoryBytes.thy ===== *)
theory MemoryBytes
  imports MemoryFlush
begin

text \<open>
  The lazily created constant array and the reads and writes of one byte: each returns, keeps
  the invariants of the object and of the array cache, and reads or changes the value of the
  byte at its offset only.
\<close>

subsection \<open>The state of a memory object\<close>

abbreviation heap :: "mem_globals \<Rightarrow> nat \<Rightarrow> array" where "heap g \<equiv> heap_of (arrayCache g)"

definition mem_ok :: "mem_env \<Rightarrow> mem \<Rightarrow> bool" where
  "mem_ok E st \<longleftrightarrow> cache_ok E (arrayCache (snd st)) \<and> object_ok (heap (snd st)) (fst st)"

definition same_object :: "object_state \<Rightarrow> object_state \<Rightarrow> bool" where
  "same_object s s' \<longleftrightarrow> os_size s' = os_size s \<and> os_object s' = os_object s \<and> readOnly s' = readOnly s
     \<and> copyOnWriteOwner s' = copyOnWriteOwner s"

text \<open>\<open>mem_step\<close>: the invariants hold and expressions over the old heap stay typed;
  \<open>same_mem\<close>: every byte keeps its value as well.\<close>

definition mem_step :: "mem_env \<Rightarrow> mem \<Rightarrow> mem \<Rightarrow> bool" where
  "mem_step E st st' \<longleftrightarrow> mem_ok E st' \<and> heap_le (heap (snd st)) (heap (snd st'))
     \<and> same_object (fst st) (fst st')"

definition same_bytes :: "object_state \<Rightarrow> object_state \<Rightarrow> bool" where
  "same_bytes s s' \<longleftrightarrow> (\<forall>\<rho> j. j < bytes s \<longrightarrow> byte_val \<rho> s' j = byte_val \<rho> s j)"

definition same_mem :: "mem_env \<Rightarrow> mem \<Rightarrow> mem \<Rightarrow> bool" where
  "same_mem E st st' \<longleftrightarrow> mem_step E st st' \<and> same_bytes (fst st) (fst st')"

lemma mem_step_refl: "mem_ok E st \<Longrightarrow> mem_step E st st"
  by (simp add: mem_step_def same_object_def)

lemma mem_step_trans: "mem_step E st st' \<Longrightarrow> mem_step E st' st'' \<Longrightarrow> mem_step E st st''"
  by (auto simp: mem_step_def same_object_def intro: heap_le_trans)

lemma same_mem_refl: "mem_ok E st \<Longrightarrow> same_mem E st st"
  by (simp add: same_mem_def mem_step_refl same_bytes_def)

lemma same_mem_trans: "same_mem E st st' \<Longrightarrow> same_mem E st' st'' \<Longrightarrow> same_mem E st st''"
  by (auto simp: same_mem_def mem_step_def same_object_def same_bytes_def intro: heap_le_trans)

lemma same_memD:
  assumes "same_mem E (s, g) (s', g')"
  shows "mem_ok E (s', g')" "os_size s' = os_size s" "j < bytes s \<Longrightarrow> byte_val \<rho> s' j = byte_val \<rho> s j"
    "wt (heap g) e \<Longrightarrow> wt (heap g') e"
  using assms by (auto simp: same_mem_def mem_step_def same_object_def same_bytes_def intro: wt_mono)

lemma flush_rel_same_mem:
  "cache_ok E (arrayCache g) \<Longrightarrow> flush_rel (heap g) s s' C \<Longrightarrow> same_mem E (s, g) (s', g)"
  by (simp add: same_mem_def mem_step_def mem_ok_def flush_rel_def same_object_def same_bytes_def)

subsection \<open>The constant array\<close>

definition byte_list :: "nat \<Rightarrow> apint list \<Rightarrow> bool" where
  "byte_list n C \<longleftrightarrow> length C = n \<and> (\<forall>c \<in> set C. ap_ok c \<and> ap_width c = 8)"

definition const_indices_below :: "nat \<Rightarrow> (expr \<times> expr) list \<Rightarrow> bool" where
  "const_indices_below n ws \<longleftrightarrow>
     (\<forall>(index, value) \<in> set ws. \<forall>c. index = ConstantExpr c \<longrightarrow> nat (ap_value c) < n)"

definition absorbed :: "(nat \<Rightarrow> array) \<Rightarrow> nat \<Rightarrow> apint list \<Rightarrow> (expr \<times> expr) list
    \<Rightarrow> apint list \<Rightarrow> (expr \<times> expr) list \<Rightarrow> bool" where
  "absorbed H n C ws C' rest \<longleftrightarrow> byte_list n C' \<and> writes_wt H rest
     \<and> (\<forall>\<rho> i. i < n \<longrightarrow> write_value \<rho> i rest (C' ! i) = write_value \<rho> i ws (C ! i))"

text \<open>The results of \<open>getUpdates\<close> and of the read or write of a byte, under the assignments of \<open>P\<close>.\<close>

definition updates_result :: "mem_env \<Rightarrow> mem \<Rightarrow> array \<Rightarrow> mem \<Rightarrow> bool" where
  "updates_result E st a st' \<longleftrightarrow> same_mem E st st' \<and> upd_root (fst st') = Some a
     \<and> cells (fst st') = cells (fst st)
     \<and> (\<forall>\<rho> i. i < bytes (fst st) \<longrightarrow> upd_val \<rho> (fst st') i = upd_val \<rho> (fst st) i)"

definition reads_byte :: "mem_env \<Rightarrow> (assignment \<Rightarrow> bool) \<Rightarrow> mem \<Rightarrow> expr \<Rightarrow> mem \<Rightarrow> (assignment \<Rightarrow> apint) \<Rightarrow> bool" where
  "reads_byte E P st e st' v \<longleftrightarrow> same_mem E st st' \<and> wt (heap (snd st')) e \<and> getWidth e = 8 \<and> (\<forall>\<rho>. P \<rho> \<longrightarrow> sem \<rho> e = v \<rho>)"

definition writes_byte ::
  "mem_env \<Rightarrow> (assignment \<Rightarrow> bool) \<Rightarrow> object_state \<Rightarrow> mem_globals \<Rightarrow> object_state
   \<Rightarrow> (assignment \<Rightarrow> nat) \<Rightarrow> (assignment \<Rightarrow> apint) \<Rightarrow> bool" where
  "writes_byte E P s g s' k v \<longleftrightarrow> mem_ok E (s', g) \<and> same_object s s'
     \<and> (\<forall>\<rho> j. P \<rho> \<longrightarrow> j < bytes s \<longrightarrow> byte_val \<rho> s' j = (if j = k \<rho> then v \<rho> else byte_val \<rho> s j))"

context mem_model
begin

lemma getZExtValue_index:
  assumes "ap_ok c" "ap_width c \<le> 64"
  shows "\<exists>z. getZExtValue (api (me_expr E)) c 64 = Some z \<and> unat z = nat (ap_value c)"
  using concrete_index_eq [OF assms] assms by (auto simp: concrete_index_def)

lemma absorb_writes_ok:
  "byte_list n C \<Longrightarrow> writes_wt H ws \<Longrightarrow> const_indices_below n ws \<Longrightarrow>
    \<exists>C' rest. absorb_writes (api (me_expr E)) C ws = Some (C', rest) \<and> absorbed H n C ws C' rest"
proof (induction ws arbitrary: C)
  case Nil
  then show ?case by (simp add: absorbed_def)
next
  case (Cons w ws)
  obtain index v where w: "w = (index, v)" by fastforce
  show ?case
  proof (cases "\<exists>i x. index = ConstantExpr i \<and> v = ConstantExpr x")
    case True
    then obtain i x where ix: "index = ConstantExpr i" "v = ConstantExpr x" by blast
    have i: "ap_ok i" "ap_width i \<le> 64" "nat (ap_value i) < n" "ap_ok x" "ap_width x = 8"
      using Cons.prems w ix by (auto simp: writes_wt_def const_indices_below_def)
    obtain z where z: "getZExtValue (api (me_expr E)) i 64 = Some z" "unat z = nat (ap_value i)"
      using getZExtValue_index [OF i(1,2)] by blast
    let ?C = "C[nat (ap_value i) := x]"
    have C: "byte_list n ?C" using Cons.prems(1) i set_update_subset_insert [of C "nat (ap_value i)" x]
      by (auto simp: byte_list_def)
    have ws: "writes_wt H ws" "const_indices_below n ws" using Cons.prems(2,3)
      by (auto simp: writes_wt_def const_indices_below_def)
    obtain C' rest where r: "absorb_writes (api (me_expr E)) ?C ws = Some (C', rest)" "absorbed H n ?C ws C' rest"
      using Cons.IH [OF C ws] by blast
    have len: "nat (ap_value i) < length C" using i(3) Cons.prems(1) by (simp add: byte_list_def)
    have "absorb_writes (api (me_expr E)) C (w # ws) = Some (C', rest)"
      using ix w z len r by (simp add: set_opt_def)
    moreover have "?C ! j = (if ap_value (sem \<rho> index) = int j then sem \<rho> v else C ! j)" if "j < n" for j \<rho>
      using that len ap_value_bounds [OF i(1)] ix by (auto simp: nth_list_update)
    then have "absorbed H n C (w # ws) C' rest" using r(2) w by (simp add: absorbed_def)
    ultimately show ?thesis by blast
  next
    case False
    then have "absorb_writes (api (me_expr E)) C (w # ws) = Some (C, w # ws)"
      using w by (cases index; cases v) auto
    then show ?thesis using Cons.prems by (simp add: absorbed_def)
  qed
qed

lemma extend_all:
  assumes "upd_root s = Some a" "arr_domain a = 32" "arr_range a = 8" "writes_wt H ws"
  shows "\<exists>h. foldM (\<lambda>s (index, value). object_extend s index value) s ws = Some (s\<lparr>upd_head := h\<rparr>)
     \<and> unode_writes h = unode_writes (upd_head s) @ ws"
  using assms
proof (induction ws arbitrary: s)
  case Nil
  then show ?case by (auto intro!: exI [of _ "upd_head s"])
next
  case (Cons w ws)
  obtain index v where w: "w = (index, v)" by fastforce
  let ?s = "s\<lparr>upd_head := UpdateNode (upd_head s) index v\<rparr>"
  have e: "object_extend s index v = Some ?s"
    using Cons.prems w by (simp add: object_extend_def UpdateList_extend_def writes_wt_def)
  have ws: "writes_wt H ws" using Cons.prems(4) by (auto simp: writes_wt_def)
  obtain h where h: "foldM (\<lambda>s (index, value). object_extend s index value) ?s ws = Some (?s\<lparr>upd_head := h\<rparr>)"
      "unode_writes h = unode_writes (upd_head ?s) @ ws"
    using Cons.IH [of ?s] Cons.prems(1-3) ws by auto
  then show ?case using e w by (intro exI [of _ h]) simp
qed

lemma getUpdates_ok:
  assumes ok: "mem_ok E (s, g)" and n: "0 < bytes s"
  shows "\<exists>a s' g'. getUpdates E (s, g) = Some (a, s', g') \<and> updates_result E (s, g) a (s', g')"
proof (cases "upd_root s")
  case (Some a)
  then show ?thesis using ok by (simp add: getUpdates_def updates_result_def same_mem_refl)
next
  case None
  note o = ok [unfolded mem_ok_def, simplified]
  define C0 where "C0 = replicate (bytes s) (APInt 8 0)"
  let ?ws = "unode_writes (upd_head s)"
  have C0: "byte_list (bytes s) C0" by (simp add: byte_list_def C0_def ap_ok_def)
  have ws: "writes_wt (heap g) ?ws" "const_indices_below (bytes s) ?ws"
    using object_okD(2) [of "heap g" s] o None by (auto simp: updates_ok_def const_indices_below_def)
  obtain C rest where r: "absorb_writes (api (me_expr E)) C0 ?ws = Some (C, rest)"
      "absorbed (heap g) (bytes s) C0 ?ws C rest"
    using absorb_writes_ok [OF C0 ws] by blast
  have Cs: "length C = bytes s" "\<forall>c \<in> set C. ap_ok c \<and> ap_width c = 8" "C \<noteq> []"
    using r(2) n by (auto simp: absorbed_def byte_list_def)
  let ?i = "const_arr_id g + 1"
  obtain a K where a: "CreateArray E (''const_arr'' @ utostr E ?i) (bytes s) C 32 8 (arrayCache g) = Some (a, K)"
      "cache_ok E K" "set (cache_arrays K) = insert a (set (cache_arrays (arrayCache g)))"
      "arr_size a = bytes s" "\<not> isSymbolicArray a"
      "a \<in> set (cachedSymbolicArrays (arrayCache g)) \<or> arr_domain a = 32 \<and> arr_range a = 8 \<and> arr_constantValues a = C"
    using CreateArray_ok [of E "arrayCache g" C "bytes s" 8 "''const_arr'' @ utostr E ?i" 32] o new_addr_inj Cs by auto
  have av: "arr_domain a = 32" "arr_range a = 8" "arr_constantValues a = C"
    using a(5,6) o by (auto simp: cache_ok_def list_all_iff)
  let ?g = "g\<lparr>arrayCache := K, const_arr_id := ?i\<rparr>"
  have le: "heap_le (heap g) (heap ?g)" using heap_of_grows [of E "arrayCache g" K] a o by auto
  have aok: "array_ok (heap ?g) a"
    using heap_of_member [OF a(2), of a] a(3,4) av Cs by (simp add: array_ok_def)
  let ?s = "s\<lparr>upd_root := Some a, upd_head := NullNode\<rparr>"
  have rest: "writes_wt (heap g) rest" using r(2) by (simp add: absorbed_def)
  obtain h where h: "foldM (\<lambda>s (index, value). object_extend s index value) ?s rest = Some (?s\<lparr>upd_head := h\<rparr>)"
      "unode_writes h = rest"
    using extend_all [of ?s a "heap g" rest] av rest by auto
  let ?t = "?s\<lparr>upd_head := h\<rparr>"
  have eq: "getUpdates E (s, g) = Some (a, ?t, ?g)"
    using None r(1) a(1) h by (simp add: getUpdates_def Let_def C0_def bv_zero_def)
  have u: "upd_val \<rho> ?t i = upd_val \<rho> s i" if "i < bytes s" for \<rho> i
  proof -
    have "upd_val \<rho> ?t i = write_value \<rho> i rest (C ! i)"
      using that av a(4) Cs h(2) by (simp add: upd_val_def obj_array_def array_value_def isConstantArray_def)
    also have "\<dots> = write_value \<rho> i ?ws (C0 ! i)" using r(2) that by (simp add: absorbed_def)
    also have "\<dots> = upd_val \<rho> s i" using None that
      by (simp add: upd_val_def obj_array_def array_value_zero C0_def)
    finally show ?thesis .
  qed
  have c: "cells ?t = cells s" by simp
  have obj: "object_ok (heap ?g) ?t"
  proof (rule object_okI)
    show "shape_ok ?t" using o object_okD(1) [of "heap g" s] by simp
    show "updates_ok (heap ?g) ?t" using aok av writes_wt_mono [OF rest le] h(2) by (simp add: updates_ok_def)
    show "cell_ok (heap ?g) (cells ?t i)" if "i < bytes ?t" for i
      unfolding c using o that by (intro cell_ok_mono [OF object_okD(3) le]) simp_all
    show "upd_val \<rho> ?t i = v" if "i < bytes ?t" "c_flushed (cells ?t i)" "cached \<rho> (cells ?t i) = Some v" for i \<rho> v
      using that o u [of i \<rho>] object_okD(4) [of "heap g" s i \<rho> v] by (simp add: c)
  qed
  have "byte_val \<rho> ?t j = byte_val \<rho> s j" if "j < bytes s" for \<rho> j
    by (rule byte_val_cong) (use u [OF that] c in simp_all)
  then have "same_mem E (s, g) (?t, ?g)"
    using obj a(2) le by (simp add: same_mem_def mem_step_def mem_ok_def same_object_def same_bytes_def)
  then show ?thesis using eq u c by (auto simp: updates_result_def)
qed

subsection \<open>Reading a byte\<close>

lemma read_updates_ok:
  assumes ok: "mem_ok E (s, g)" and root: "upd_root s = Some a"
    and index: "wt (heap g) index" "getWidth index = 32"
  shows "\<exists>e. ReadExpr_create (me_expr E) a (upd_head s) index = Some e \<and> wt (heap g) e \<and> getWidth e = 8
     \<and> (\<forall>\<rho>. sem \<rho> e = upd_val \<rho> s (nat (ap_value (sem \<rho> index))))"
proof -
  have u: "updates_ok (heap g) s" using ok object_okD(2) by (simp add: mem_ok_def)
  have a: "array_ok (heap g) a" "arr_domain a = 32" "arr_range a = 8" "writes_wt (heap g) (unode_writes (upd_head s))"
    using u root by (simp_all add: updates_ok_def)
  have wu: "wt_unode (heap g) a (upd_head s)" using wt_unode_writes a by blast
  have d: "denotes (heap g) \<rho> (ReadExpr_create (me_expr E) a (upd_head s) index) (sem_read \<rho> a (upd_head s) (sem \<rho> index))" for \<rho>
    using ReadExpr_create_sound [OF a(1) wu index(1)] index a by simp
  then obtain e where e: "ReadExpr_create (me_expr E) a (upd_head s) index = Some e" "wt (heap g) e"
    by (auto simp: denotes_def)
  have v: "sem \<rho> e = upd_val \<rho> s (nat (ap_value (sem \<rho> index)))" for \<rho>
  proof -
    have "0 \<le> ap_value (sem \<rho> index)" using ap_value_bounds wt_sem_ok [OF index(1)] by blast
    then show ?thesis using d [of \<rho>] e root
      by (simp add: upd_val_def obj_array_def sem_read_writes [of _ "nat (ap_value (sem \<rho> index))"])
  qed
  then have "getWidth e = 8" using wt_sem_width [OF e(2)] upd_val_ok [OF u] by metis
  then show ?thesis using e v by blast
qed

lemma read8_ok:
  assumes ok: "mem_ok E (s, g)" and k: "unat off < bytes s"
  shows "\<exists>e st'. read8 E off (s, g) = Some (e, st') \<and> reads_byte E P (s, g) e st' (\<lambda>\<rho>. byte_val \<rho> s (unat off))"
proof -
  have obj: "object_ok (heap g) s" using ok by (simp add: mem_ok_def)
  note sh = object_okD(1) [OF obj]
  note is_eqs = isByteFlushed_eq [OF sh k] isByteConcrete_eq [OF sh k] isByteKnownSymbolic_eq [OF sh k]
    known_byte_eq [OF sh k] concrete_byte_eq [OF sh k]
  note c = object_okD(3) [OF obj k]
  consider (conc) "c_conc (cells s (unat off))"
    | (known) e where "\<not> c_conc (cells s (unat off))" "c_known (cells s (unat off)) = Some e"
    | (none) "\<not> c_conc (cells s (unat off))" "c_known (cells s (unat off)) = None" by blast
  then show ?thesis
  proof cases
    case conc
    then show ?thesis using is_eqs same_mem_refl [OF ok]
      by (simp add: read8_def reads_byte_def byte_val_def cached_def)
  next
    case known
    then show ?thesis using is_eqs same_mem_refl [OF ok] c
      by (simp add: read8_def reads_byte_def byte_val_def cached_def cell_ok_def)
  next
    case none
    then have fl: "c_flushed (cells s (unat off))" using c by (auto simp: cell_ok_def)
    obtain a s' g' where u: "getUpdates E (s, g) = Some (a, s', g')" "updates_result E (s, g) a (s', g')"
      using getUpdates_ok [OF ok] k by auto
    then have sm: "same_mem E (s, g) (s', g')" "upd_root s' = Some a"
      "\<And>\<rho> i. i < bytes s \<Longrightarrow> upd_val \<rho> s' i = upd_val \<rho> s i" by (simp_all add: updates_result_def)
    let ?i = "ConstantExpr (APInt 32 (uint off))"
    obtain e where e: "ReadExpr_create (me_expr E) a (upd_head s') ?i = Some e" "wt (heap g') e" "getWidth e = 8"
        "\<forall>\<rho>. sem \<rho> e = upd_val \<rho> s' (nat (ap_value (sem \<rho> ?i)))"
      using read_updates_ok [OF same_memD(1) [OF sm(1)] sm(2), of ?i] const_index_eq(2) by auto
    have "read8 E off (s, g) = Some (e, s', g')"
      using is_eqs none fl u e const_index_eq(1) by (simp add: read8_def)
    moreover have "byte_val \<rho> s (unat off) = sem \<rho> e" for \<rho>
      using e(4) sm(3) [OF k] none by (simp add: byte_val_def cached_def nat_uint_eq)
    ultimately show ?thesis using sm(1) e by (simp add: reads_byte_def)
  qed
qed

lemma ZExt_same: "getWidth e = 32 \<Longrightarrow> ZExtExpr_create A e 32 = Some e"
  by (simp add: ZExtExpr_create_def)

lemma read8_expr_ok:
  assumes ok: "mem_ok E (s, g)" and n: "0 < bytes s"
    and off: "\<not> is_Constant offset" "wt (heap g) offset" "getWidth offset = 32"
  shows "\<exists>e st'. read8_expr E offset (s, g) = Some (e, st')
     \<and> reads_byte E (\<lambda>\<rho>. ap_value (sem \<rho> offset) < int (bytes s)) (s, g) e st'
         (\<lambda>\<rho>. byte_val \<rho> s (nat (ap_value (sem \<rho> offset))))"
proof -
  have obj: "cache_ok E (arrayCache g)" "object_ok (heap g) s" using ok by (simp_all add: mem_ok_def)
  obtain t where t: "flushRangeForRead E s 0 (os_size s) = Some t" "flush_rel (heap g) s t (flush_all True s (bytes s))"
      "\<And>\<rho> j. j < bytes s \<Longrightarrow> upd_val \<rho> t j = byte_val \<rho> s j"
    using flushRangeForRead_ok [OF obj(2)] by blast
  have st: "same_mem E (s, g) (t, g)" by (rule flush_rel_same_mem [OF obj(1) t(2)])
  note tm = same_memD [OF st]
  obtain a s' g' where u: "getUpdates E (t, g) = Some (a, s', g')" "updates_result E (t, g) a (s', g')"
    using getUpdates_ok [OF tm(1)] n tm(2) by auto
  then have sm: "same_mem E (t, g) (s', g')" "upd_root s' = Some a"
      "\<And>\<rho> i. i < bytes t \<Longrightarrow> upd_val \<rho> s' i = upd_val \<rho> t i" by (simp_all add: updates_result_def)
  have w': "wt (heap g') offset" using same_memD(4) [OF sm(1) off(2)] .
  obtain e where e: "ReadExpr_create (me_expr E) a (upd_head s') offset = Some e" "wt (heap g') e" "getWidth e = 8"
      "\<And>\<rho>. sem \<rho> e = upd_val \<rho> s' (nat (ap_value (sem \<rho> offset)))"
    using read_updates_ok [OF same_memD(1) [OF sm(1)] sm(2) w' off(3)] by blast
  have "read8_expr E offset (s, g) = Some (e, s', g')"
    using off(1) t(1) u(1) e(1) off(3) by (simp add: read8_expr_def fastRangeCheckOffset_def ZExt_same)
  moreover have "sem \<rho> e = byte_val \<rho> s (nat (ap_value (sem \<rho> offset)))"
    if \<rho>: "ap_value (sem \<rho> offset) < int (bytes s)" for \<rho>
  proof -
    have "nat (ap_value (sem \<rho> offset)) < bytes s" using \<rho> n by linarith
    then show ?thesis using e(4) sm(3) t(3) tm(2) by simp
  qed
  ultimately show ?thesis using same_mem_trans [OF st sm(1)] e by (simp add: reads_byte_def)
qed

subsection \<open>Writing a byte\<close>

lemma writes_byteI:
  assumes ok: "mem_ok E (s, g)" and k: "k < bytes s"
    and op: "cell_op s r k (\<lambda>_. c)" and c: "cell_ok (heap g) c" "\<not> c_flushed c"
    and v: "\<And>\<rho>. cached \<rho> c = Some (v \<rho>)"
  shows "\<exists>s'. r = Some s' \<and> writes_byte E (\<lambda>_. True) s g s' (\<lambda>_. k) v"
proof -
  have obj: "object_ok (heap g) s" using ok by (simp add: mem_ok_def)
  have fl: "upd_val \<rho> s k = u" if "c_flushed c" for \<rho> u using c(2) that by simp
  obtain s' where s': "r = Some s'" "object_ok (heap g) s'" "same_rest s s'" "cells s' = (cells s)(k := c)"
      "\<And>\<rho> j. upd_val \<rho> s' j = upd_val \<rho> s j"
    using cell_op_object [OF obj op k c(1) fl] by blast
  have b: "byte_val \<rho> s' j = (if j = k then v \<rho> else byte_val \<rho> s j)" for \<rho> j
  proof (cases "j = k")
    case True
    have "cached \<rho> (cells s' k) = Some (v \<rho>)" unfolding s'(4) fun_upd_same by (rule v)
    then show ?thesis using True byte_val_cached by simp
  next
    case False
    have "byte_val \<rho> s' j = byte_val \<rho> s j"
      by (rule byte_val_cong) (use False s'(4,5) in simp_all)
    then show ?thesis using False by simp
  qed
  have "same_object s s'" using s'(3) by (simp add: same_object_def same_rest_def)
  moreover have "mem_ok E (s', g)" using ok s'(2) by (simp add: mem_ok_def)
  ultimately have "writes_byte E (\<lambda>_. True) s g s' (\<lambda>_. k) v" using b unfolding writes_byte_def by blast
  then show ?thesis using s'(1) by blast
qed

lemma write8_byte_ok:
  assumes "mem_ok E (s, g)" "unat off < bytes s"
  shows "\<exists>s'. write8_byte off b s = Some s' \<and>
     writes_byte E (\<lambda>_. True) s g s' (\<lambda>_. unat off) (\<lambda>_. APInt 8 (uint b))"
proof (rule writes_byteI [OF assms])
  show "cell_op s (write8_byte off b s) (unat off) (\<lambda>_. Cell b True False None)"
    using assms object_okD(1) by (intro write8_byte_cells) (auto simp: mem_ok_def)
qed (simp_all add: cell_ok_def cached_def)

lemma constant_byte:
  assumes "ap_ok c" "ap_width c = 8"
  shows "\<exists>z. getZExtValue (api (me_expr E)) c 8 = Some z \<and> APInt 8 (uint (ucast z :: 8 word)) = c"
proof -
  have v: "0 \<le> ap_value c" "ap_value c < 256" using ap_value_bounds [OF assms(1)] assms(2) by simp_all
  have z: "getZExtValue (api (me_expr E)) c 8 = Some (word_of_int (ap_value c))"
    using assms by (simp add: getZExtValue_def getZExtValue)
  have "uint (ucast (word_of_int (ap_value c) :: uint64) :: 8 word) = ap_value c"
    using v by (simp add: unsigned_ucast_eq unsigned_of_int take_bit_take_bit take_bit_int_eq_self)
  then show ?thesis using z assms(2) by (cases c) simp
qed

lemma write8_ok:
  assumes ok: "mem_ok E (s, g)" and k: "unat off < bytes s" and v: "wt (heap g) v" "getWidth v = 8"
  shows "\<exists>s'. write8 E off v s = Some s' \<and> writes_byte E (\<lambda>_. True) s g s' (\<lambda>_. unat off) (\<lambda>\<rho>. sem \<rho> v)"
proof (cases v rule: Constant_cases)
  case (Constant c)
  then have c: "ap_ok c" "ap_width c = 8" using v by simp_all
  obtain z where z: "getZExtValue (api (me_expr E)) c 8 = Some z" "APInt 8 (uint (ucast z :: 8 word)) = c"
    using constant_byte [OF c] by blast
  show ?thesis using write8_byte_ok [OF ok k, of "ucast z"] Constant z by (simp add: write8_def)
next
  case other
  let ?r = "write8 E off v s"
  have sh: "shape_ok s" using ok object_okD(1) by (auto simp: mem_ok_def)
  have "cell_op s ?r (unat off) (\<lambda>_. Cell (c_val (cells s (unat off))) False False (Some v))"
    using write8_symbolic_cells [OF sh k other, of E] by (simp add: cell_op_def)
  then show ?thesis
    by (rule writes_byteI [OF ok k]) (use v in \<open>simp_all add: cell_ok_def cached_def\<close>)
qed

lemma write8_expr_ok:
  assumes ok: "mem_ok E (s, g)"
    and off: "\<not> is_Constant offset" "wt (heap g) offset" "getWidth offset = 32"
    and v: "wt (heap g) v" "getWidth v = 8"
  shows "\<exists>s'. write8_expr E offset v s = Some s'
     \<and> writes_byte E (\<lambda>\<rho>. ap_value (sem \<rho> offset) < int (bytes s)) s g s'
         (\<lambda>\<rho>. nat (ap_value (sem \<rho> offset))) (\<lambda>\<rho>. sem \<rho> v)"
proof -
  have obj: "cache_ok E (arrayCache g)" "object_ok (heap g) s" using ok by (simp_all add: mem_ok_def)
  obtain t where t: "flushRangeForWrite E s 0 (os_size s) = Some t" "flush_rel (heap g) s t (flush_all False s (bytes s))"
      "\<And>\<rho> j. j < bytes s \<Longrightarrow> upd_val \<rho> t j = byte_val \<rho> s j"
    using flushRangeForWrite_ok [OF obj(2)] by blast
  have t': "object_ok (heap g) t" "os_size t = os_size s" "cells t = flush_all False s (bytes s)"
    using t(2) by (simp_all add: flush_rel_def)
  have nc: "nat (ap_value c) < bytes t" if "offset = ConstantExpr c" for c using off(1) that by simp
  obtain s' where s': "object_extend t offset v = Some s'" "updates_ok (heap g) s'"
      "s' = t\<lparr>upd_head := UpdateNode (upd_head t) offset v\<rparr>"
      "\<And>\<rho> i. upd_val \<rho> s' i = (if ap_value (sem \<rho> offset) = int i then sem \<rho> v else upd_val \<rho> t i)"
    using object_extend_ok [OF object_okD(2) [OF t'(1)] off(2) v(1) off(3) v(2) nc] by blast
  have c: "cells s' = flush_all False s (bytes s)" using s'(3) t'(3) by simp
  have none: "cached \<rho> (cells s' j) = None" if "j < bytes s" for \<rho> j
    using that by (simp add: c flush_all_def)
  have sz: "os_size s' = os_size s" using s'(3) t'(2) by simp
  have "object_ok (heap g) s'"
  proof (rule object_okI)
    show "shape_ok s'" using object_okD(1) [OF t'(1)] s'(3) by simp
    show "updates_ok (heap g) s'" by (rule s'(2))
    show "cell_ok (heap g) (cells s' i)" if "i < bytes s'" for i
      using object_okD(3) [OF t'(1), of i] that c t'(2,3) sz by simp
    show "upd_val \<rho> s' i = u" if "i < bytes s'" "cached \<rho> (cells s' i) = Some u" for i \<rho> u
      using that none [of i \<rho>] sz by simp
  qed
  moreover have "byte_val \<rho> s' j = (if j = nat (ap_value (sem \<rho> offset)) then sem \<rho> v else byte_val \<rho> s j)"
    if "j < bytes s" for \<rho> j
  proof -
    have "0 \<le> ap_value (sem \<rho> offset)" using ap_value_bounds wt_sem_ok [OF off(2)] by blast
    then show ?thesis using none [OF that] s'(4) t(3) [OF that] by (auto simp: byte_val_uncached)
  qed
  moreover have "write8_expr E offset v s = Some s'"
    using off t(1) s'(1) by (simp add: write8_expr_def fastRangeCheckOffset_def ZExt_same)
  moreover have "same_object s s'" using t(2) s'(3) by (simp add: same_object_def flush_rel_def)
  ultimately show ?thesis using obj(1) by (simp add: writes_byte_def mem_ok_def)
qed

end

end
