(* ===== verification/MemoryAccess.thy ===== *)
theory MemoryAccess
  imports MemoryBytes
begin

text \<open>
  Reads and writes of several bytes at constant and at symbolic offsets refine loads and stores
  of a memory of bytes: \<open>mem_load\<close> and \<open>mem_store\<close> are the specification, in either byte order.
\<close>

subsection \<open>The specification\<close>

fun le_bytes :: "int list \<Rightarrow> int" where
  "le_bytes [] = 0"
| "le_bytes (b # bs) = b + 256 * le_bytes bs"

lemma le_bytes_append: "le_bytes (xs @ [b]) = le_bytes xs + 256 ^ length xs * b"
  by (induction xs) (simp_all add: algebra_simps)

lemma le_bytes_digits:
  assumes "0 \<le> v" "v < 256 ^ n"
  shows "le_bytes (map (\<lambda>i. v div 256 ^ i mod 256) [0..<n]) = v"
proof -
  have "le_bytes (map (\<lambda>i. v div 256 ^ i mod 256) [0..<m]) = v mod 256 ^ m" for m
  proof (induction m)
    case (Suc m)
    have "v mod (256 ^ m * 256) = 256 ^ m * (v div 256 ^ m mod 256) + v mod 256 ^ m"
      by (simp add: zmod_zmult2_eq)
    then show ?case using Suc by (simp add: le_bytes_append mult.commute)
  qed simp
  then show ?thesis using assms by simp
qed

definition byte_pos :: "bool \<Rightarrow> nat \<Rightarrow> nat \<Rightarrow> nat" where
  "byte_pos little n i = (if little then i else n - i - 1)"

lemma byte_pos_less: "i < n \<Longrightarrow> byte_pos little n i < n"
  by (simp add: byte_pos_def)

lemma byte_pos_inverse: "i < n \<Longrightarrow> byte_pos little n (byte_pos little n i) = i"
  by (simp add: byte_pos_def)

definition mem_load :: "bool \<Rightarrow> (nat \<Rightarrow> int) \<Rightarrow> nat \<Rightarrow> nat \<Rightarrow> int" where
  "mem_load little M off n = le_bytes (map (\<lambda>i. M (off + byte_pos little n i)) [0..<n])"

definition mem_store :: "bool \<Rightarrow> (nat \<Rightarrow> int) \<Rightarrow> nat \<Rightarrow> nat \<Rightarrow> int \<Rightarrow> nat \<Rightarrow> int" where
  "mem_store little M off n v j =
     (if off \<le> j \<and> j < off + n then v div 256 ^ byte_pos little n (j - off) mod 256 else M j)"

lemma load_store:
  assumes "0 \<le> v" "v < 256 ^ n"
  shows "mem_load little (mem_store little M off n v) off n = v"
proof -
  have "map (\<lambda>i. mem_store little M off n v (off + byte_pos little n i)) [0..<n] =
      map (\<lambda>i. v div 256 ^ i mod 256) [0..<n]"
    by (rule map_cong [OF refl]) (simp add: mem_store_def byte_pos_less byte_pos_inverse)
  then show ?thesis using le_bytes_digits [OF assms] by (simp only: mem_load_def)
qed

lemma le_bytes_load:
  assumes "\<And>i. i < n \<Longrightarrow> f i = M (off + byte_pos little n i)"
  shows "le_bytes (map f [0..<n]) = mem_load little M off n"
proof -
  have "map f [0..<n] = map (\<lambda>i. M (off + byte_pos little n i)) [0..<n]"
    by (rule map_cong [OF refl]) (simp add: assms)
  then show ?thesis by (simp only: mem_load_def)
qed

text \<open>The bytes of an object under an assignment; a value of width 1 occupies a byte.\<close>

definition obj_mem :: "assignment \<Rightarrow> object_state \<Rightarrow> nat \<Rightarrow> int" where
  "obj_mem \<rho> s j = (if j < bytes s then ap_value (byte_val \<rho> s j) else 0)"

definition access_width :: "width \<Rightarrow> bool" where
  "access_width w \<longleftrightarrow> w = 1 \<or> 0 < w \<and> w mod 8 = 0"

definition access_bytes :: "width \<Rightarrow> nat" where
  "access_bytes w = (if w = 1 then 1 else w div 8)"

definition load_value :: "bool \<Rightarrow> (nat \<Rightarrow> int) \<Rightarrow> nat \<Rightarrow> width \<Rightarrow> int" where
  "load_value little M off w = (if w = 1 then M off mod 2 else mem_load little M off (w div 8))"

definition store_value :: "bool \<Rightarrow> (nat \<Rightarrow> int) \<Rightarrow> nat \<Rightarrow> width \<Rightarrow> int \<Rightarrow> nat \<Rightarrow> int" where
  "store_value little M off w v = mem_store little M off (access_bytes w) v"

text \<open>The result of a read of several bytes, and of a write.\<close>

definition reads_value ::
  "mem_env \<Rightarrow> (assignment \<Rightarrow> bool) \<Rightarrow> mem \<Rightarrow> width \<Rightarrow> expr \<Rightarrow> mem \<Rightarrow> (assignment \<Rightarrow> int) \<Rightarrow> bool" where
  "reads_value E P st w e st' v \<longleftrightarrow> same_mem E st st' \<and> wt (heap (snd st')) e \<and> getWidth e = w
     \<and> (\<forall>\<rho>. P \<rho> \<longrightarrow> ap_value (sem \<rho> e) = v \<rho>)"

definition writes_value ::
  "mem_env \<Rightarrow> (assignment \<Rightarrow> bool) \<Rightarrow> mem_globals \<Rightarrow> object_state \<Rightarrow> object_state
   \<Rightarrow> (assignment \<Rightarrow> nat \<Rightarrow> int) \<Rightarrow> bool" where
  "writes_value E P g s s' M \<longleftrightarrow> mem_ok E (s', g) \<and> same_object s s'
     \<and> (\<forall>\<rho>. P \<rho> \<longrightarrow> obj_mem \<rho> s' = M \<rho>)"

subsection \<open>Offsets\<close>

fun offset_chain :: "expr \<Rightarrow> bool" where
  "offset_chain (BinaryExpr k (ConstantExpr c) b) = (k \<in> {Add, Sub} \<longrightarrow> \<not> is_Constant b \<and> offset_chain b)"
| "offset_chain e = True"

text \<open>What a symbolic access of a width needs of its offset, and the assignments it is correct for.\<close>

definition symbolic_offset :: "expr \<Rightarrow> bool" where
  "symbolic_offset offset \<longleftrightarrow> getWidth offset = 32 \<and> \<not> is_Constant offset \<and> offset_chain offset"

definition in_bounds :: "object_state \<Rightarrow> expr \<Rightarrow> width \<Rightarrow> assignment \<Rightarrow> bool" where
  "in_bounds s offset w \<rho> \<longleftrightarrow> ap_value (sem \<rho> offset) + int (access_bytes w) \<le> int (bytes s)"

lemma AddSub_const_left_symbolic:
  "AddExpr_createPartialR G c r = Some e \<Longrightarrow> ap_width c \<noteq> 1 \<Longrightarrow> wt H r \<Longrightarrow> getWidth r \<noteq> 1
     \<Longrightarrow> \<not> is_Constant r \<Longrightarrow> offset_chain r \<Longrightarrow> \<not> is_Constant e"
  "SubExpr_createPartialR G c r = Some e \<Longrightarrow> ap_width c \<noteq> 1 \<Longrightarrow> wt H r \<Longrightarrow> getWidth r \<noteq> 1
     \<Longrightarrow> \<not> is_Constant r \<Longrightarrow> offset_chain r \<Longrightarrow> \<not> is_Constant e"
  "AddExpr_create_cl G c r = Some e \<Longrightarrow> wt H r \<Longrightarrow> getWidth r \<noteq> 1
     \<Longrightarrow> \<not> is_Constant r \<Longrightarrow> offset_chain r \<Longrightarrow> \<not> is_Constant e"
  "SubExpr_create_cl G c r = Some e \<Longrightarrow> wt H r \<Longrightarrow> getWidth r \<noteq> 1
     \<Longrightarrow> \<not> is_Constant r \<Longrightarrow> offset_chain r \<Longrightarrow> \<not> is_Constant e"
proof (induction G c r and G c r and G c r and G c r
    rule: AddExpr_createPartialR_SubExpr_createPartialR_AddExpr_create_cl_SubExpr_create_cl.induct)
  case (1 G cl r)
  note p = "1.prems"(1) [unfolded AddExpr_createPartialR.simps [of G cl r]]
  consider (zero) "e = r" | (new) "e = BinaryExpr Add (ConstantExpr cl) r"
    | (add) c b where "r = BinaryExpr Add (ConstantExpr c) b" "const_left Add r = Some (c, b)" "\<not> ConstantExpr_isZero (api G) cl"
        "AddExpr_create_cl G (ConstantExpr_binary (api G) Add cl c) b = Some e" "ap_width cl = ap_width c"
    | (sub) c b where "r = BinaryExpr Sub (ConstantExpr c) b" "const_left Add r = None" "const_left Sub r = Some (c, b)"
        "\<not> ConstantExpr_isZero (api G) cl"
        "SubExpr_create_cl G (ConstantExpr_binary (api G) Add cl c) b = Some e" "ap_width cl = ap_width c"
    using p "1.prems"(2) by (auto simp: const_left_Some split: if_splits option.splits)
  then show ?case
  proof cases
    case add
    then show ?thesis using "1.prems" by (intro "1.IH"(2) [of "(c, b)" c b]) auto
  next
    case sub
    then show ?thesis using "1.prems" by (intro "1.IH"(1) [of "(c, b)" c b]) auto
  qed (use "1.prems" in \<open>auto simp: is_Constant_def\<close>)
next
  case (2 G cl r)
  note p = "2.prems"(1) [unfolded SubExpr_createPartialR.simps [of G cl r]]
  consider (new) "e = BinaryExpr Sub (ConstantExpr cl) r"
    | (add) c b where "r = BinaryExpr Add (ConstantExpr c) b" "const_left Add r = Some (c, b)"
        "SubExpr_create_cl G (ConstantExpr_binary (api G) Sub cl c) b = Some e" "ap_width cl = ap_width c"
    | (sub) c b where "r = BinaryExpr Sub (ConstantExpr c) b" "const_left Add r = None" "const_left Sub r = Some (c, b)"
        "AddExpr_create_cl G (ConstantExpr_binary (api G) Sub cl c) b = Some e" "ap_width cl = ap_width c"
    using p "2.prems"(2) by (auto simp: const_left_Some split: if_splits option.splits)
  then show ?case
  proof cases
    case add
    then show ?thesis using "2.prems" by (intro "2.IH"(2) [of "(c, b)" c b]) auto
  next
    case sub
    then show ?thesis using "2.prems" by (intro "2.IH"(1) [of "(c, b)" c b]) auto
  qed (use "2.prems" in \<open>auto simp: is_Constant_def\<close>)
next
  case (3 G cl r)
  then show ?case by (cases r) (auto simp: AddExpr_create_cl.simps is_Constant_def)
next
  case (4 G cl r)
  then show ?case by (cases r) (auto simp: SubExpr_create_cl.simps is_Constant_def)
qed

lemma bv_concat_value:
  assumes "ap_ok x" "ap_ok y"
  shows "ap_value (bv_concat x y) = ap_value y + 2 ^ ap_width y * ap_value x"
proof -
  have x: "0 \<le> ap_value x" "ap_value x < 2 ^ ap_width x" and y: "0 \<le> ap_value y" "ap_value y < 2 ^ ap_width y"
    using ap_value_bounds [OF assms(1)] ap_value_bounds [OF assms(2)] by simp_all
  have high: "ap_width y \<le> n \<Longrightarrow> \<not> bit (ap_value y) n" for n
    using bit_ap_value [OF assms(2), of n] by auto
  have "push_bit (ap_width y) (ap_value x) OR ap_value y = push_bit (ap_width y) (ap_value x) + ap_value y"
  proof (rule disjunctive_add_eq_or [symmetric], rule bit_eqI)
    fix n
    show "bit (push_bit (ap_width y) (ap_value x) AND ap_value y) n \<longleftrightarrow> bit (0 :: int) n"
      using high [of n] by (simp add: bit_simps)
  qed
  also have "\<dots> = ap_value y + 2 ^ ap_width y * ap_value x" by (simp add: push_bit_eq_mult)
  finally have "ap_value (bv_concat x y) =
      take_bit (ap_width x + ap_width y) (ap_value y + 2 ^ ap_width y * ap_value x)"
    by (simp add: bv_concat_def mk_ap_def)
  moreover have "ap_value y + 2 ^ ap_width y * ap_value x < 2 ^ (ap_width x + ap_width y)"
  proof -
    have "2 ^ ap_width y * ap_value x \<le> 2 ^ ap_width y * (2 ^ ap_width x - 1)"
      using x by (intro mult_left_mono) simp_all
    then show ?thesis using y by (simp add: power_add algebra_simps)
  qed
  ultimately show ?thesis using x y by (simp add: take_bit_int_eq_self)
qed

lemma bv_extract_byte: "ap_value (bv_extract (8 * i) 8 x) = ap_value x div 256 ^ i mod 256"
  by (simp add: bv_extract_def mk_ap_def take_bit_eq_mod drop_bit_eq_div power_mult)

context mem_model
begin

lemma offset_plus_ok:
  assumes off: "wt H offset" "getWidth offset = 32" "\<not> is_Constant offset" "offset_chain offset"
  shows "\<exists>e. offset_plus E offset k = Some e \<and> wt H e \<and> getWidth e = 32 \<and> \<not> is_Constant e
    \<and> (\<forall>\<rho>. ap_value (sem \<rho> offset) + int (unat k) < 2 ^ 32 \<longrightarrow>
           ap_value (sem \<rho> e) = ap_value (sem \<rho> offset) + int (unat k))"
proof -
  let ?i = "APInt 32 (uint k)"
  have i: "ap_ok ?i" by (rule const_index_eq(2))
  have d: "denotes H \<rho> (AddExpr_create (me_expr E) offset (ConstantExpr ?i)) (bv_binary Add (sem \<rho> offset) ?i)" for \<rho>
    using AddExpr_create_sound [of H offset "ConstantExpr ?i" \<rho>] off i by simp
  then obtain e where e: "AddExpr_create (me_expr E) offset (ConstantExpr ?i) = Some e" "wt H e"
    by (auto simp: denotes_def)
  have v: "sem \<rho> e = bv_binary Add (sem \<rho> offset) ?i" for \<rho> using d [of \<rho>] e by simp
  have "ap_width (sem (\<lambda>_ _. 0) e) = 32" using v off by (simp add: bv_lift_def mk_ap_def)
  then have w: "getWidth e = 32" using e(2) by simp
  have "AddExpr_createPartialR (me_expr E) ?i offset = Some e"
    using e(1) off by (cases offset)
      (simp_all add: AddExpr_create.simps BCREATE_R_def AddExpr_createPartial_def is_Constant_def)
  then have "\<not> is_Constant e"
    using AddSub_const_left_symbolic(1) [of "me_expr E" ?i offset e H] off by simp
  moreover have "ap_value (sem \<rho> e) = ap_value (sem \<rho> offset) + int (unat k)"
    if "ap_value (sem \<rho> offset) + int (unat k) < 2 ^ 32" for \<rho>
  proof -
    have "0 \<le> ap_value (sem \<rho> offset)" using ap_value_bounds wt_sem_ok [OF off(1)] by blast
    then show ?thesis using that v off by (simp add: bv_lift_def mk_ap_def take_bit_int_eq_self)
  qed
  ultimately show ?thesis using e w const_index_eq(1) by (simp add: offset_plus_def)
qed

subsection \<open>Reads\<close>

text \<open>The loop over the bytes: \<open>bv i\<close> is the value of the byte read for \<open>i\<close>, \<open>pre\<close> those read before.\<close>

lemma read_loop_step:
  assumes A: "A = api (me_expr E)"
    and rd: "\<And>i t. i \<in> set js \<Longrightarrow> same_mem E st t \<Longrightarrow> \<exists>e t'. rd i t = Some (e, t') \<and> reads_byte E P t e t' (bv i)"
    and t: "same_mem E st t" and r: "wt (heap (snd t)) r" "getWidth r = 8 * n"
    and pre: "\<And>\<rho>. P \<rho> \<Longrightarrow> length (pre \<rho>) = n \<and> ap_value (sem \<rho> r) = le_bytes (pre \<rho>)"
  shows "\<exists>e t'. read_loop A rd js (Some r) t = Some (e, t') \<and> same_mem E st t' \<and> wt (heap (snd t')) e
    \<and> getWidth e = 8 * (n + length js)
    \<and> (\<forall>\<rho>. P \<rho> \<longrightarrow> ap_value (sem \<rho> e) = le_bytes (pre \<rho> @ map (\<lambda>i. ap_value (bv i \<rho>)) js))"
  using rd t r pre
proof (induction js arbitrary: t r n pre)
  case Nil
  then show ?case by auto
next
  case (Cons i js)
  obtain b t' where b: "rd i t = Some (b, t')" "reads_byte E P t b t' (bv i)"
    using Cons.prems(1) [of i t] Cons.prems(2) by auto
  have t': "same_mem E t t'" "wt (heap (snd t')) b" "getWidth b = 8" "\<And>\<rho>. P \<rho> \<Longrightarrow> sem \<rho> b = bv i \<rho>"
    using b(2) by (simp_all add: reads_byte_def)
  have r': "wt (heap (snd t')) r" using t'(1) Cons.prems(3) by (auto simp: same_mem_def mem_step_def intro: wt_mono)
  obtain c where c: "ConcatExpr_create A b r = Some c" "wt (heap (snd t')) c"
      "\<And>\<rho>. sem \<rho> c = bv_concat (sem \<rho> b) (sem \<rho> r)"
  proof -
    have d: "denotes (heap (snd t')) \<rho> (ConcatExpr_create A b r) (bv_concat (sem \<rho> b) (sem \<rho> r))" for \<rho>
      unfolding A by (rule ConcatExpr_create_sound [OF t'(2) r'])
    then obtain c where "ConcatExpr_create A b r = Some c" "wt (heap (snd t')) c" by (auto simp: denotes_def)
    then show thesis using d by (intro that [of c]) simp_all
  qed
  have w: "getWidth c = 8 * Suc n"
    using wt_sem_width [OF c(2), of "\<lambda>_ _. 0"] c(3) t'(2,3) r' Cons.prems(4) by simp
  let ?pre = "\<lambda>\<rho>. pre \<rho> @ [ap_value (bv i \<rho>)]"
  have pre: "length (?pre \<rho>) = Suc n \<and> ap_value (sem \<rho> c) = le_bytes (?pre \<rho>)" if "P \<rho>" for \<rho>
  proof -
    have "ap_value (sem \<rho> c) = ap_value (sem \<rho> r) + 2 ^ getWidth r * ap_value (sem \<rho> b)"
      using bv_concat_value [of "sem \<rho> b" "sem \<rho> r"] c(3) t'(2) r' by simp
    then show ?thesis using Cons.prems(4,5) that t'(4) [OF that] by (simp add: le_bytes_append power_mult)
  qed
  have "\<exists>e u. read_loop A rd js (Some c) t' = Some (e, u) \<and> same_mem E st u \<and> wt (heap (snd u)) e
      \<and> getWidth e = 8 * (Suc n + length js)
      \<and> (\<forall>\<rho>. P \<rho> \<longrightarrow> ap_value (sem \<rho> e) = le_bytes (?pre \<rho> @ map (\<lambda>i. ap_value (bv i \<rho>)) js))"
    by (rule Cons.IH [OF _ same_mem_trans [OF Cons.prems(2) t'(1)] c(2) w pre]) (rule Cons.prems(1), simp_all)
  then show ?case using b(1) c(1) by simp
qed

lemma read_loop_ok:
  assumes A: "A = api (me_expr E)" and st: "mem_ok E st" and n: "0 < n"
    and rd: "\<And>i t. i < n \<Longrightarrow> same_mem E st t \<Longrightarrow> \<exists>e t'. rd i t = Some (e, t') \<and> reads_byte E P t e t' (bv i)"
  shows "\<exists>e t'. read_loop A rd [0..<n] None st = Some (e, t') \<and> same_mem E st t' \<and> wt (heap (snd t')) e
    \<and> getWidth e = 8 * n
    \<and> (\<forall>\<rho>. P \<rho> \<longrightarrow> ap_value (sem \<rho> e) = le_bytes (map (\<lambda>i. ap_value (bv i \<rho>)) [0..<n]))"
proof -
  obtain b t where b: "rd 0 st = Some (b, t)" "reads_byte E P st b t (bv 0)"
    using rd [OF n same_mem_refl [OF st]] by blast
  then have t: "same_mem E st t" "wt (heap (snd t)) b" "getWidth b = 8 * 1" "\<And>\<rho>. P \<rho> \<Longrightarrow> sem \<rho> b = bv 0 \<rho>"
    by (simp_all add: reads_byte_def)
  have js: "[0..<n] = 0 # [1..<n]" using n by (simp add: upt_conv_Cons)
  have "\<exists>e t'. read_loop A rd [1..<n] (Some b) t = Some (e, t') \<and> same_mem E st t' \<and> wt (heap (snd t')) e
      \<and> getWidth e = 8 * (1 + length [1..<n])
      \<and> (\<forall>\<rho>. P \<rho> \<longrightarrow> ap_value (sem \<rho> e) = le_bytes ([ap_value (bv 0 \<rho>)] @ map (\<lambda>i. ap_value (bv i \<rho>)) [1..<n]))"
  proof (rule read_loop_step [OF A _ t(1,2,3)])
    show "\<exists>e t'. rd i t = Some (e, t') \<and> reads_byte E P t e t' (bv i)" if "i \<in> set [1..<n]" "same_mem E st t" for i t
      using rd that by simp
    show "length [ap_value (bv 0 \<rho>)] = 1 \<and> ap_value (sem \<rho> b) = le_bytes [ap_value (bv 0 \<rho>)]" if "P \<rho>" for \<rho>
      using t(4) [OF that] by simp
  qed
  then show ?thesis using b(1) n unfolding js by simp
qed

lemma byte_index_unat:
  assumes "unat off + n \<le> bytes s" "i < n"
  shows "unat (off + byte_index E n i) = unat off + byte_pos (isLittleEndian E) n i"
proof -
  let ?p = "byte_pos (isLittleEndian E) n i"
  have p: "unat off + ?p < 2 ^ 32" "?p < 2 ^ 32"
    using assms byte_pos_less [of i n "isLittleEndian E"] unsigned_less [of "os_size s", where 'a = nat] by simp_all
  then have u: "unat (of_nat ?p :: uint32) = ?p" by (simp add: unat_of_nat take_bit_nat_eq_self)
  then have "unat (off + of_nat ?p) = unat off + unat (of_nat ?p :: uint32)"
    using p(1) unat_add_lem [of off "of_nat ?p"] by simp
  then show ?thesis using u by (simp add: byte_index_def byte_pos_def [symmetric])
qed

lemma extract_bool:
  assumes "wt H b" "getWidth b = 8"
  shows "\<exists>e. ExtractExpr_create (api (me_expr E)) b 0 1 = Some e \<and> wt H e \<and> getWidth e = 1
     \<and> (\<forall>\<rho>. ap_value (sem \<rho> e) = ap_value (sem \<rho> b) mod 2)"
proof -
  have d: "denotes H \<rho> (ExtractExpr_create (api (me_expr E)) b 0 1) (bv_extract 0 1 (sem \<rho> b))" for \<rho>
    by (rule ExtractExpr_create_sound) (use assms in simp_all)
  then obtain e where e: "ExtractExpr_create (api (me_expr E)) b 0 1 = Some e" "wt H e"
    by (auto simp: denotes_def)
  have v: "sem \<rho> e = bv_extract 0 1 (sem \<rho> b)" for \<rho> using d [of \<rho>] e by simp
  have "getWidth e = 1" using wt_sem_width [OF e(2), of "\<lambda>_ _. 0"] v by simp
  moreover have "ap_value (sem \<rho> e) = ap_value (sem \<rho> b) mod 2" for \<rho>
    by (simp add: v bv_extract_def mk_ap_def take_bit_eq_mod)
  ultimately show ?thesis using e by blast
qed

lemma read_at_ok:
  assumes ok: "mem_ok E (s, g)" and w: "access_width w" and n: "unat off + access_bytes w \<le> bytes s"
  shows "\<exists>e st'. read_at E off w (s, g) = Some (e, st')
     \<and> reads_value E (\<lambda>_. True) (s, g) w e st' (\<lambda>\<rho>. load_value (isLittleEndian E) (obj_mem \<rho> s) (unat off) w)"
proof (cases "w = 1")
  case True
  then have k: "unat off < bytes s" using n by (simp add: access_bytes_def)
  obtain b s' g' where b: "read8 E off (s, g) = Some (b, s', g')"
      "reads_byte E (\<lambda>_. True) (s, g) b (s', g') (\<lambda>\<rho>. byte_val \<rho> s (unat off))"
    using read8_ok [OF ok k, where P = "\<lambda>_. True"] by (metis surj_pair)
  then obtain e where e: "ExtractExpr_create (api (me_expr E)) b 0 1 = Some e" "wt (heap g') e" "getWidth e = 1"
      "\<And>\<rho>. ap_value (sem \<rho> e) = ap_value (sem \<rho> b) mod 2"
    using extract_bool [of "heap g'" b] by (auto simp: reads_byte_def)
  show ?thesis
    using b e True k by (simp add: read_at_def reads_value_def reads_byte_def load_value_def obj_mem_def)
next
  case False
  define m where "m = w div 8"
  have m: "w = m * 8" "0 < m" "unat off + m \<le> bytes s"
    using False w n by (auto simp: access_width_def access_bytes_def m_def)
  let ?bv = "\<lambda>i \<rho>. byte_val \<rho> s (unat off + byte_pos (isLittleEndian E) m i)"
  have pos: "unat off + byte_pos (isLittleEndian E) m i < bytes s" if "i < m" for i
    using byte_pos_less [OF that, of "isLittleEndian E"] m(3) by simp
  have rd: "\<exists>e t'. read8 E (off + byte_index E m i) t = Some (e, t') \<and> reads_byte E (\<lambda>_. True) t e t' (?bv i)"
    if i: "i < m" and t: "same_mem E (s, g) t" for i t
  proof -
    obtain s1 g1 where t1: "t = (s1, g1)" by fastforce
    note tm = same_memD [OF t [unfolded t1]]
    note u = byte_index_unat [OF m(3) i]
    have "unat (off + byte_index E m i) < bytes s1" using u pos [OF i] tm(2) by simp
    then obtain e t' where r: "read8 E (off + byte_index E m i) t = Some (e, t')"
        "reads_byte E (\<lambda>_. True) t e t' (\<lambda>\<rho>. byte_val \<rho> s1 (unat (off + byte_index E m i)))"
      using read8_ok [OF tm(1), where P = "\<lambda>_. True"] t1 by blast
    then show ?thesis using u tm(3) [OF pos [OF i]] by auto
  qed
  obtain e t' where e: "read_loop (api (me_expr E)) (\<lambda>i. read8 E (off + byte_index E m i)) [0..<m] None (s, g) = Some (e, t')"
      "same_mem E (s, g) t'" "wt (heap (snd t')) e" "getWidth e = 8 * m"
      "\<And>\<rho>. ap_value (sem \<rho> e) = le_bytes (map (\<lambda>i. ap_value (?bv i \<rho>)) [0..<m])"
    using read_loop_ok [where rd = "\<lambda>i. read8 E (off + byte_index E m i)" and bv = ?bv and P = "\<lambda>_. True",
      OF refl ok m(2) rd] by blast
  have "ap_value (sem \<rho> e) = load_value (isLittleEndian E) (obj_mem \<rho> s) (unat off) w" for \<rho>
    unfolding e(5) load_value_def m_def [symmetric] using False pos
    by (subst le_bytes_load [where M = "obj_mem \<rho> s" and off = "unat off"]) (simp_all add: obj_mem_def)
  then show ?thesis using e(1-4) False m(1)
    by (simp add: read_at_def reads_value_def m_def [symmetric] Let_def)
qed

lemma symbolic_index:
  assumes off: "wt H offset" "symbolic_offset offset" and i: "i < n"
  shows "\<exists>e. offset_plus E offset (byte_index E n i) = Some e \<and> wt H e \<and> getWidth e = 32 \<and> \<not> is_Constant e
    \<and> (\<forall>\<rho>. n < 2 ^ 32 \<longrightarrow> ap_value (sem \<rho> offset) + int n \<le> int (bytes s) \<longrightarrow>
          ap_value (sem \<rho> e) = ap_value (sem \<rho> offset) + int (byte_pos (isLittleEndian E) n i))"
proof -
  let ?p = "byte_pos (isLittleEndian E) n i"
  obtain e where e: "offset_plus E offset (byte_index E n i) = Some e" "wt H e" "getWidth e = 32" "\<not> is_Constant e"
    "\<And>\<rho>. ap_value (sem \<rho> offset) + int (unat (byte_index E n i)) < 2 ^ 32 \<Longrightarrow>
       ap_value (sem \<rho> e) = ap_value (sem \<rho> offset) + int (unat (byte_index E n i))"
    using offset_plus_ok [of H offset "byte_index E n i"] off by (auto simp: symbolic_offset_def)
  have "ap_value (sem \<rho> e) = ap_value (sem \<rho> offset) + int ?p"
    if n: "n < 2 ^ 32" "ap_value (sem \<rho> offset) + int n \<le> int (bytes s)" for \<rho>
  proof -
    have "unat (byte_index E n i) = ?p"
      using n(1) byte_pos_less [OF i, of "isLittleEndian E"]
      by (simp add: byte_index_def byte_pos_def unat_of_nat take_bit_nat_eq_self)
    moreover have "int (bytes s) < 2 ^ 32" using unsigned_less [of "os_size s", where 'a = int] by simp
    ultimately show ?thesis using e(5) [of \<rho>] n(2) byte_pos_less [OF i, of "isLittleEndian E"] by simp
  qed
  then show ?thesis using e(1-4) by blast
qed

lemma read_symbolic_bool:
  assumes ok: "mem_ok E (s, g)" and n: "0 < bytes s" and off: "wt (heap g) offset" "symbolic_offset offset"
  shows "\<exists>e st'. read_expr E offset 1 (s, g) = Some (e, st')
     \<and> reads_value E (in_bounds s offset 1) (s, g) 1 e st'
        (\<lambda>\<rho>. load_value (isLittleEndian E) (obj_mem \<rho> s) (nat (ap_value (sem \<rho> offset))) 1)"
proof -
  have o32: "getWidth offset = 32" "\<not> is_Constant offset" using off(2) by (simp_all add: symbolic_offset_def)
  obtain b st' where b0: "read8_expr E offset (s, g) = Some (b, st')"
      "reads_byte E (\<lambda>\<rho>. ap_value (sem \<rho> offset) < int (bytes s)) (s, g) b st'
        (\<lambda>\<rho>. byte_val \<rho> s (nat (ap_value (sem \<rho> offset))))"
    using read8_expr_ok [OF ok n o32(2) off(1) o32(1)] by blast
  obtain s' g' where "st' = (s', g')" by fastforce
  note b = b0 [unfolded this]
  have b': "wt (heap g') b" "getWidth b = 8" "same_mem E (s, g) (s', g')" using b(2) by (simp_all add: reads_byte_def)
  obtain e where e: "ExtractExpr_create (api (me_expr E)) b 0 1 = Some e" "wt (heap g') e" "getWidth e = 1"
      "\<And>\<rho>. ap_value (sem \<rho> e) = ap_value (sem \<rho> b) mod 2"
    using extract_bool [OF b'(1,2)] by blast
  have "ap_value (sem \<rho> e) = load_value (isLittleEndian E) (obj_mem \<rho> s) (nat (ap_value (sem \<rho> offset))) 1"
    if "in_bounds s offset 1 \<rho>" for \<rho>
  proof -
    have lt: "ap_value (sem \<rho> offset) < int (bytes s)" using that by (simp add: in_bounds_def access_bytes_def)
    then have "nat (ap_value (sem \<rho> offset)) < bytes s" using n by linarith
    moreover have "sem \<rho> b = byte_val \<rho> s (nat (ap_value (sem \<rho> offset)))"
      using b(2) lt unfolding reads_byte_def by blast
    ultimately show ?thesis using e(4) by (simp add: load_value_def obj_mem_def)
  qed
  moreover have "read_expr E offset 1 (s, g) = Some (e, s', g')"
    using o32 b(1) e(1) by (simp add: read_expr_def ZExt_same)
  ultimately show ?thesis using b'(3) e(2,3) by (simp add: reads_value_def)
qed

lemma symbolic_byte_read:
  assumes t: "mem_ok E (t, g)" "os_size t = os_size s" and m: "0 < m" "m \<le> bytes s"
    and off: "wt (heap g) offset" "symbolic_offset offset" and i: "i < m"
    and same: "\<And>\<rho> j. j < bytes s \<Longrightarrow> byte_val \<rho> t j = byte_val \<rho> s j"
  shows "\<exists>e t'. (do { o' \<leftarrow> offset_plus E offset (byte_index E m i); read8_expr E o' (t, g) }) = Some (e, t')
    \<and> reads_byte E (\<lambda>\<rho>. ap_value (sem \<rho> offset) + int m \<le> int (bytes s)) (t, g) e t'
       (\<lambda>\<rho>. byte_val \<rho> s (nat (ap_value (sem \<rho> offset)) + byte_pos (isLittleEndian E) m i))"
proof -
  have m32: "m < 2 ^ 32" using m(2) unsigned_less [of "os_size s", where 'a = nat] by simp
  have n: "0 < bytes t" using m t(2) by simp
  obtain o' where o': "offset_plus E offset (byte_index E m i) = Some o'" "wt (heap g) o'" "getWidth o' = 32"
      "\<not> is_Constant o'"
      "\<And>\<rho>. ap_value (sem \<rho> offset) + int m \<le> int (bytes s) \<Longrightarrow>
         ap_value (sem \<rho> o') = ap_value (sem \<rho> offset) + int (byte_pos (isLittleEndian E) m i)"
    using symbolic_index [OF off i, of s] m32 by blast
  obtain e t' where r: "read8_expr E o' (t, g) = Some (e, t')"
      "reads_byte E (\<lambda>\<rho>. ap_value (sem \<rho> o') < int (bytes t)) (t, g) e t'
         (\<lambda>\<rho>. byte_val \<rho> t (nat (ap_value (sem \<rho> o'))))"
    using read8_expr_ok [OF t(1) n o'(4,2,3)] by blast
  have "ap_value (sem \<rho> o') < int (bytes t) \<and> byte_val \<rho> t (nat (ap_value (sem \<rho> o'))) =
      byte_val \<rho> s (nat (ap_value (sem \<rho> offset)) + byte_pos (isLittleEndian E) m i)"
    if \<rho>: "ap_value (sem \<rho> offset) + int m \<le> int (bytes s)" for \<rho>
  proof -
    have p: "0 \<le> ap_value (sem \<rho> offset)" using ap_value_bounds wt_sem_ok [OF off(1)] by blast
    have v: "ap_value (sem \<rho> o') = ap_value (sem \<rho> offset) + int (byte_pos (isLittleEndian E) m i)"
      using o'(5) \<rho> .
    have lt: "byte_pos (isLittleEndian E) m i < m" using byte_pos_less [OF i] .
    have "nat (ap_value (sem \<rho> o')) = nat (ap_value (sem \<rho> offset)) + byte_pos (isLittleEndian E) m i"
      using v p by (simp add: nat_add_distrib)
    moreover have "nat (ap_value (sem \<rho> o')) < bytes s" using v p lt \<rho> by linarith
    moreover have "ap_value (sem \<rho> o') < int (bytes s)" using v lt \<rho> by linarith
    ultimately show ?thesis using same [of "nat (ap_value (sem \<rho> o'))" \<rho>] t(2) by simp
  qed
  then show ?thesis using r o'(1) by (simp add: reads_byte_def)
qed

lemma read_symbolic_bytes:
  assumes ok: "mem_ok E (s, g)" and w: "w = m * 8" "0 < m" "m \<le> bytes s"
    and off: "wt (heap g) offset" "symbolic_offset offset"
  shows "\<exists>e st'. read_expr E offset w (s, g) = Some (e, st')
     \<and> reads_value E (\<lambda>\<rho>. ap_value (sem \<rho> offset) + int m \<le> int (bytes s)) (s, g) w e st'
        (\<lambda>\<rho>. mem_load (isLittleEndian E) (obj_mem \<rho> s) (nat (ap_value (sem \<rho> offset))) m)"
proof -
  have o32: "getWidth offset = 32" "\<not> is_Constant offset" using off(2) by (simp_all add: symbolic_offset_def)
  let ?P = "\<lambda>\<rho>. ap_value (sem \<rho> offset) + int m \<le> int (bytes s)"
  let ?idx = "\<lambda>i \<rho>. nat (ap_value (sem \<rho> offset)) + byte_pos (isLittleEndian E) m i"
  let ?rd = "\<lambda>i st. do { o' \<leftarrow> offset_plus E offset (byte_index E m i); read8_expr E o' st }"
  let ?bv = "\<lambda>i \<rho>. byte_val \<rho> s (?idx i \<rho>)"
  have rd: "\<exists>e t'. ?rd i t = Some (e, t') \<and> reads_byte E ?P t e t' (?bv i)"
    if i: "i < m" and t: "same_mem E (s, g) t" for i t
  proof -
    obtain s1 g1 where t1: "t = (s1, g1)" by fastforce
    note tm = same_memD [OF t [unfolded t1]]
    show ?thesis unfolding t1
      by (rule symbolic_byte_read [OF tm(1,2) w(2,3) tm(4) [OF off(1)] off(2) i tm(3)])
  qed
  have "\<exists>e t'. read_loop (api (me_expr E)) ?rd [0..<m] None (s, g) = Some (e, t')
      \<and> same_mem E (s, g) t' \<and> wt (heap (snd t')) e \<and> getWidth e = 8 * m
      \<and> (\<forall>\<rho>. ?P \<rho> \<longrightarrow> ap_value (sem \<rho> e) = le_bytes (map (\<lambda>i. ap_value (?bv i \<rho>)) [0..<m]))"
    by (rule read_loop_ok [where rd = ?rd and bv = ?bv and P = ?P, OF refl ok w(2) rd])
  then obtain e t' where e: "read_loop (api (me_expr E)) ?rd [0..<m] None (s, g) = Some (e, t')"
      "same_mem E (s, g) t'" "wt (heap (snd t')) e" "getWidth e = 8 * m"
      "\<And>\<rho>. ?P \<rho> \<Longrightarrow> ap_value (sem \<rho> e) = le_bytes (map (\<lambda>i. ap_value (?bv i \<rho>)) [0..<m])"
    by blast
  have "ap_value (sem \<rho> e) = mem_load (isLittleEndian E) (obj_mem \<rho> s) (nat (ap_value (sem \<rho> offset))) m"
    if \<rho>: "?P \<rho>" for \<rho>
    unfolding e(5) [OF \<rho>]
  proof (rule le_bytes_load)
    fix i assume i: "i < m"
    have "0 \<le> ap_value (sem \<rho> offset)" using ap_value_bounds wt_sem_ok [OF off(1)] by blast
    then have "?idx i \<rho> < bytes s" using \<rho> byte_pos_less [OF i, of "isLittleEndian E"] by linarith
    then show "ap_value (?bv i \<rho>) = obj_mem \<rho> s (?idx i \<rho>)" by (simp add: obj_mem_def)
  qed
  moreover have "read_expr E offset w (s, g) = Some (e, t')"
    using e(1) o32 w(1,2) by (simp add: read_expr_def ZExt_same Let_def)
  ultimately show ?thesis using e(2-4) w(1) by (simp add: reads_value_def)
qed

lemma read_symbolic_ok:
  assumes ok: "mem_ok E (s, g)" and w: "access_width w" and sz: "access_bytes w \<le> bytes s"
    and off: "wt (heap g) offset" "symbolic_offset offset"
  shows "\<exists>e st'. read_expr E offset w (s, g) = Some (e, st')
     \<and> reads_value E (in_bounds s offset w) (s, g) w e st'
        (\<lambda>\<rho>. load_value (isLittleEndian E) (obj_mem \<rho> s) (nat (ap_value (sem \<rho> offset))) w)"
proof (cases "w = 1")
  case True
  then show ?thesis using read_symbolic_bool [OF ok _ off] sz by (simp add: access_bytes_def)
next
  case False
  have m: "w = w div 8 * 8" "0 < w div 8" "w div 8 \<le> bytes s" "access_bytes w = w div 8"
    using False w sz by (auto simp: access_width_def access_bytes_def)
  have "in_bounds s offset w = (\<lambda>\<rho>. ap_value (sem \<rho> offset) + int (w div 8) \<le> int (bytes s))"
    by (rule ext) (simp add: in_bounds_def m(4))
  then show ?thesis using read_symbolic_bytes [OF ok m(1-3) off] False
    by (simp only: load_value_def if_False)
qed

end

end
