(* ===== verification/MemoryWrite.thy ===== *)
theory MemoryWrite
  imports MemoryAccess
begin

text \<open>Writes of several bytes refine \<open>mem_store\<close>.\<close>

definition stored :: "bool \<Rightarrow> nat \<Rightarrow> (nat \<Rightarrow> int) \<Rightarrow> nat \<Rightarrow> nat \<Rightarrow> int \<Rightarrow> nat \<Rightarrow> int" where
  "stored little k M off n v j =
     (if off \<le> j \<and> j < off + n \<and> byte_pos little n (j - off) < k
      then v div 256 ^ byte_pos little n (j - off) mod 256 else M j)"

lemma stored_0: "stored little 0 M off n v = M"
  by (rule ext) (simp add: stored_def)

lemma stored_all: "stored little n M off n v = mem_store little M off n v"
  by (rule ext) (auto simp: stored_def mem_store_def byte_pos_def)

lemma stored_Suc:
  assumes "k < n"
  shows "stored little (Suc k) M off n v j =
    (if j = off + byte_pos little n k then v div 256 ^ k mod 256 else stored little k M off n v j)"
proof -
  have "off \<le> j \<Longrightarrow> j < off + n \<Longrightarrow> byte_pos little n (j - off) = k \<longleftrightarrow> j = off + byte_pos little n k"
    using byte_pos_inverse [of "j - off" n little] byte_pos_inverse [OF assms, of little] by auto
  moreover have "byte_pos little n k < n" using byte_pos_less [OF assms] .
  ultimately show ?thesis by (auto simp: stored_def less_Suc_eq byte_pos_inverse assms)
qed

context mem_model
begin

lemma write_loop_ok:
  assumes ok: "mem_ok E (s, g)"
    and f: "\<And>i t. i < m \<Longrightarrow> mem_ok E (t, g) \<Longrightarrow> same_object s t \<Longrightarrow>
      \<exists>t'. f t i = Some t' \<and> writes_byte E P t g t' (\<lambda>\<rho>. base \<rho> + byte_pos little m i) (v i)"
    and v: "\<And>i \<rho>. i < m \<Longrightarrow> P \<rho> \<Longrightarrow> ap_value (v i \<rho>) = V \<rho> div 256 ^ i mod 256"
    and base: "\<And>\<rho>. P \<rho> \<Longrightarrow> base \<rho> + m \<le> bytes s"
  shows "\<exists>s'. foldM f s [0..<m] = Some s'
     \<and> writes_value E P g s s' (\<lambda>\<rho>. mem_store little (obj_mem \<rho> s) (base \<rho>) m (V \<rho>))"
proof -
  let ?I = "\<lambda>k t. mem_ok E (t, g) \<and> same_object s t
     \<and> (\<forall>\<rho>. P \<rho> \<longrightarrow> obj_mem \<rho> t = stored little k (obj_mem \<rho> s) (base \<rho>) m (V \<rho>))"
  have "\<exists>s'. foldM f s [0..<m] = Some s' \<and> ?I (length [0..<m]) s'"
  proof (rule foldM_invariant [where P = ?I])
    show "?I 0 s" using ok by (simp add: same_object_def stored_0)
  next
    fix k t assume k: "k < length [0..<m]" and t: "?I k t"
    then have km: "k < m" by simp
    obtain t' where t': "f t k = Some t'" "writes_byte E P t g t' (\<lambda>\<rho>. base \<rho> + byte_pos little m k) (v k)"
      using f [OF km] t by blast
    have so: "same_object s t'" "os_size t' = os_size s" "os_size t = os_size s" "mem_ok E (t', g)"
      using t'(2) t by (simp_all add: writes_byte_def same_object_def)
    have "obj_mem \<rho> t' = stored little (Suc k) (obj_mem \<rho> s) (base \<rho>) m (V \<rho>)" if \<rho>: "P \<rho>" for \<rho>
    proof (rule ext)
      fix j
      let ?p = "base \<rho> + byte_pos little m k"
      have p: "?p < bytes s" using base [OF \<rho>] byte_pos_less [OF km, of little] by linarith
      have b: "byte_val \<rho> t' j = (if j = ?p then v k \<rho> else byte_val \<rho> t j)" if "j < bytes s"
        using t'(2) \<rho> that so(3) by (simp add: writes_byte_def)
      have "obj_mem \<rho> t' j = (if j = ?p then V \<rho> div 256 ^ k mod 256 else obj_mem \<rho> t j)"
        using b p so v [OF km \<rho>] by (cases "j < bytes s") (simp_all add: obj_mem_def)
      then show "obj_mem \<rho> t' j = stored little (Suc k) (obj_mem \<rho> s) (base \<rho>) m (V \<rho>) j"
        using t \<rho> by (simp add: stored_Suc [OF km])
    qed
    then show "\<exists>s'. f t ([0..<m] ! k) = Some s' \<and> ?I (Suc k) s'" using t'(1) so km by auto
  qed
  then show ?thesis by (auto simp: writes_value_def stored_all)
qed

lemma byte_index_same:
  assumes "unat off + m \<le> bytes s" "i < m" "same_object s t"
  shows "unat (off + byte_index E m i) = unat off + byte_pos (isLittleEndian E) m i"
    "unat (off + byte_index E m i) < bytes t"
  using byte_index_unat [OF assms(1,2)] byte_pos_less [OF assms(2), of "isLittleEndian E"] assms(1,3)
  by (simp_all add: same_object_def)

lemma word_byte: "uint (ucast (drop_bit (8 * i) (x :: uint64)) :: 8 word) = uint x div 256 ^ i mod 256"
proof -
  have "uint (drop_bit (8 * i) x) = drop_bit (8 * i) (uint x)"
    by (rule bit_eqI) (auto simp: bit_simps dest: bit_imp_le_length)
  then have "uint (ucast (drop_bit (8 * i) x) :: 8 word) = take_bit 8 (drop_bit (8 * i) (uint x))"
    by (simp only: unsigned_ucast_eq) simp
  then show ?thesis by (simp only: take_bit_eq_mod drop_bit_eq_div power_mult) simp
qed

lemma write_bytes_ok:
  assumes ok: "mem_ok E (s, g)" and n: "unat off + m \<le> bytes s"
  shows "\<exists>s'. write_bytes E m off x s = Some s' \<and> writes_value E (\<lambda>_. True) g s s'
     (\<lambda>\<rho>. mem_store (isLittleEndian E) (obj_mem \<rho> s) (unat off) m (uint x))"
  unfolding write_bytes_def
proof (rule write_loop_ok [OF ok, where v = "\<lambda>i \<rho>. APInt 8 (uint (ucast (drop_bit (8 * i) x) :: 8 word))"])
  fix i t assume i: "i < m" and t: "mem_ok E (t, g)" "same_object s t"
  show "\<exists>t'. write8_byte (off + byte_index E m i) (ucast (drop_bit (8 * i) x)) t = Some t' \<and>
      writes_byte E (\<lambda>_. True) t g t' (\<lambda>\<rho>. unat off + byte_pos (isLittleEndian E) m i)
        (\<lambda>\<rho>. APInt 8 (uint (ucast (drop_bit (8 * i) x) :: 8 word)))"
    using write8_byte_ok [OF t(1), of "off + byte_index E m i"] byte_index_same [OF n i t(2)] by simp
qed (use n in \<open>simp_all add: word_byte\<close>)

lemma extract_byte:
  assumes "wt H v" "getWidth v = m * 8" "i < m"
  shows "\<exists>b. ExtractExpr_create (api (me_expr E)) v (8 * i) 8 = Some b \<and> wt H b \<and> getWidth b = 8
     \<and> (\<forall>\<rho>. ap_value (sem \<rho> b) = ap_value (sem \<rho> v) div 256 ^ i mod 256)"
proof -
  have d: "denotes H \<rho> (ExtractExpr_create (api (me_expr E)) v (8 * i) 8) (bv_extract (8 * i) 8 (sem \<rho> v))" for \<rho>
    by (rule ExtractExpr_create_sound) (use assms in simp_all)
  then obtain b where b: "ExtractExpr_create (api (me_expr E)) v (8 * i) 8 = Some b" "wt H b"
    by (auto simp: denotes_def)
  have s: "sem \<rho> b = bv_extract (8 * i) 8 (sem \<rho> v)" for \<rho> using d [of \<rho>] b by simp
  have "getWidth b = 8" using wt_sem_width [OF b(2), of "\<lambda>_ _. 0"] s by simp
  then show ?thesis using b s bv_extract_byte by auto
qed

lemma zext_byte:
  assumes "wt H v" "getWidth v = 1"
  shows "\<exists>b. ZExtExpr_create (api (me_expr E)) v 8 = Some b \<and> wt H b \<and> getWidth b = 8
     \<and> (\<forall>\<rho>. ap_value (sem \<rho> b) = ap_value (sem \<rho> v))"
proof -
  have d: "denotes H \<rho> (CastExpr_create (api (me_expr E)) ZExt v 8) (bv_cast ZExt 8 (sem \<rho> v))" for \<rho>
    by (rule CastExpr_create_sound) (use assms in simp_all)
  then obtain b where b: "ZExtExpr_create (api (me_expr E)) v 8 = Some b" "wt H b"
    by (auto simp: denotes_def)
  have s: "sem \<rho> b = bv_zext 8 (sem \<rho> v)" for \<rho> using d [of \<rho>] b by simp
  have "getWidth b = 8" using wt_sem_width [OF b(2), of "\<lambda>_ _. 0"] s by (simp add: bv_zext_def mk_ap_def)
  moreover have "ap_value (sem \<rho> b) = ap_value (sem \<rho> v)" for \<rho>
  proof -
    have "0 \<le> ap_value (sem \<rho> v)" "ap_value (sem \<rho> v) < 2"
      using ap_value_bounds wt_sem_ok [OF assms(1)] assms by (metis, metis power_one_right wt_sem_width)
    then show ?thesis by (simp add: s bv_zext_def mk_ap_def take_bit_int_eq_self)
  qed
  ultimately show ?thesis using b by blast
qed

text \<open>A single byte, as a store of one byte.\<close>

lemma writes_one_byte:
  assumes w: "writes_byte E P s g s' k v" and k: "\<And>\<rho>. P \<rho> \<Longrightarrow> k \<rho> < bytes s"
    and v: "\<And>\<rho>. P \<rho> \<Longrightarrow> ap_value (v \<rho>) = V \<rho> \<and> 0 \<le> V \<rho> \<and> V \<rho> < 256"
  shows "writes_value E P g s s' (\<lambda>\<rho>. mem_store little (obj_mem \<rho> s) (k \<rho>) 1 (V \<rho>))"
proof -
  have "obj_mem \<rho> s' j = mem_store little (obj_mem \<rho> s) (k \<rho>) 1 (V \<rho>) j" if \<rho>: "P \<rho>" for \<rho> j
  proof (cases "j < bytes s")
    case True
    then have "byte_val \<rho> s' j = (if j = k \<rho> then v \<rho> else byte_val \<rho> s j)"
      using w \<rho> by (simp add: writes_byte_def)
    then show ?thesis using True w v [OF \<rho>]
      by (auto simp: obj_mem_def mem_store_def byte_pos_def writes_byte_def same_object_def)
  next
    case False
    then show ?thesis using w k [OF \<rho>]
      by (auto simp: obj_mem_def mem_store_def writes_byte_def same_object_def)
  qed
  then show ?thesis using w by (auto simp: writes_value_def writes_byte_def)
qed

lemma write_general_ok:
  assumes ok: "mem_ok E (s, g)" and v: "wt (heap g) v" "access_width (getWidth v)"
    and n: "unat off + access_bytes (getWidth v) \<le> bytes s"
  shows "\<exists>s'. write_general E off v s = Some s' \<and> writes_value E (\<lambda>_. True) g s s'
     (\<lambda>\<rho>. store_value (isLittleEndian E) (obj_mem \<rho> s) (unat off) (getWidth v) (ap_value (sem \<rho> v)))"
proof (cases "getWidth v = 1")
  case True
  then have k: "unat off < bytes s" using n by (simp add: access_bytes_def)
  obtain b where b: "ZExtExpr_create (api (me_expr E)) v 8 = Some b" "wt (heap g) b" "getWidth b = 8"
      "\<And>\<rho>. ap_value (sem \<rho> b) = ap_value (sem \<rho> v)"
    using zext_byte [OF v(1) True] by blast
  obtain s' where s': "write8 E off b s = Some s'" "writes_byte E (\<lambda>_. True) s g s' (\<lambda>_. unat off) (\<lambda>\<rho>. sem \<rho> b)"
    using write8_ok [OF ok k b(2,3)] by blast
  have "0 \<le> ap_value (sem \<rho> v) \<and> ap_value (sem \<rho> v) < 256" for \<rho>
    using ap_value_bounds [OF wt_sem_ok [OF b(2), of \<rho>]] b by simp
  then have "writes_value E (\<lambda>_. True) g s s'
      (\<lambda>\<rho>. mem_store (isLittleEndian E) (obj_mem \<rho> s) (unat off) 1 (ap_value (sem \<rho> v)))"
    by (intro writes_one_byte [OF s'(2)]) (use k b in simp_all)
  then show ?thesis using True b(1) s'(1)
    by (simp add: write_general_def store_value_def access_bytes_def)
next
  case False
  define m where "m = getWidth v div 8"
  have m: "getWidth v = m * 8" "unat off + m \<le> bytes s" "access_bytes (getWidth v) = m"
    using False v(2) n by (auto simp: access_width_def access_bytes_def m_def)
  let ?f = "\<lambda>s i. do {
    v \<leftarrow> ExtractExpr_create (api (me_expr E)) v (8 * i) 8;
    write8 E (off + byte_index E m i) v s }"
  have step: "\<exists>t'. ?f t i = Some t' \<and> writes_byte E (\<lambda>_. True) t g t'
      (\<lambda>\<rho>. unat off + byte_pos (isLittleEndian E) m i) (\<lambda>\<rho>. bv_extract (8 * i) 8 (sem \<rho> v))"
    if i: "i < m" and t: "mem_ok E (t, g)" "same_object s t" for i t
  proof -
    obtain b where b: "ExtractExpr_create (api (me_expr E)) v (8 * i) 8 = Some b" "wt (heap g) b" "getWidth b = 8"
        "\<And>\<rho>. ap_value (sem \<rho> b) = ap_value (sem \<rho> v) div 256 ^ i mod 256"
      using extract_byte [OF v(1) m(1) i] by blast
    have "sem \<rho> b = bv_extract (8 * i) 8 (sem \<rho> v)" for \<rho>
      by (rule bv_eqI) (use b in \<open>simp_all add: bv_extract_byte\<close>)
    then show ?thesis using write8_ok [OF t(1) byte_index_same(2) [OF m(2) i t(2)] b(2,3)] b(1)
        byte_index_same(1) [OF m(2) i t(2)] by auto
  qed
  have "\<exists>s'. foldM ?f s [0..<m] = Some s' \<and> writes_value E (\<lambda>_. True) g s s'
     (\<lambda>\<rho>. mem_store (isLittleEndian E) (obj_mem \<rho> s) (unat off) m (ap_value (sem \<rho> v)))"
    by (rule write_loop_ok [OF ok, where v = "\<lambda>i \<rho>. bv_extract (8 * i) 8 (sem \<rho> v)"])
      (use step m(2) in \<open>simp_all add: bv_extract_byte\<close>)
  then show ?thesis using False m(1,3)
    by (simp add: write_general_def store_value_def m_def [symmetric] Let_def)
qed

lemma constant_uint64:
  assumes "ap_ok c" "ap_width c \<le> 64"
  shows "\<exists>z. getZExtValue (api (me_expr E)) c 64 = Some z \<and> uint z = ap_value c"
proof -
  obtain z where z: "getZExtValue (api (me_expr E)) c 64 = Some z" "unat z = nat (ap_value c)"
    using getZExtValue_index [OF assms] by blast
  have nn: "0 \<le> ap_value c" using ap_value_bounds [OF assms(1)] by blast
  have "uint z = int (unat z)" by simp
  also have "\<dots> = ap_value c" unfolding z(2) using nn by simp
  finally show ?thesis using z(1) by blast
qed

lemma ucast_same:
  assumes "uint (z :: uint64) < 2 ^ LENGTH('a)"
  shows "ucast (ucast z :: 'a::len word) = z"
proof -
  have z: "take_bit LENGTH('a) (uint z) = uint z" using assms by (simp add: take_bit_int_eq_self)
  have "take_bit 64 (uint z) = uint z" using unsigned_less [of z, where 'a = int] by (simp add: take_bit_int_eq_self)
  moreover have "uint (ucast z :: 'a word) = uint z" by (simp only: unsigned_ucast_eq z)
  ultimately have "uint (ucast (ucast z :: 'a word) :: uint64) = uint z"
    by (subst unsigned_ucast_eq) simp
  then show ?thesis by (rule word_uint_eqI)
qed

text \<open>A constant is stored like any value; the fast path writes its bytes from a 64-bit word.\<close>

lemma write_at_ok:
  assumes ok: "mem_ok E (s, g)" and v: "wt (heap g) v" "access_width (getWidth v)"
    and n: "unat off + access_bytes (getWidth v) \<le> bytes s"
  shows "\<exists>s'. write_at E off v s = Some s' \<and> writes_value E (\<lambda>_. True) g s s'
     (\<lambda>\<rho>. store_value (isLittleEndian E) (obj_mem \<rho> s) (unat off) (getWidth v) (ap_value (sem \<rho> v)))"
proof (cases "\<exists>c. v = ConstantExpr c \<and> ap_width c \<le> 64 \<and> bits64_isPowerOfTwo (of_nat (ap_width c))")
  case False
  then have "write_at E off v s = write_general E off v s"
    by (cases v) (auto simp: write_at_def)
  then show ?thesis using write_general_ok [OF ok v n] by simp
next
  case True
  then obtain c where c: "v = ConstantExpr c" "ap_width c \<le> 64" "bits64_isPowerOfTwo (of_nat (ap_width c))"
    by blast
  have cok: "ap_ok c" using v c by simp
  obtain z where z: "getZExtValue (api (me_expr E)) c 64 = Some z" "uint z = ap_value c"
    using constant_uint64 [OF cok c(2)] by blast
  have zb: "uint z < 2 ^ ap_width c" using ap_value_bounds [OF cok] z(2) by simp
  consider "ap_width c = 1" | "ap_width c \<in> {8, 16, 24, 32, 40, 48, 56, 64}"
  proof (cases "ap_width c = 1")
    case False
    then obtain k where k: "ap_width c = 8 * k" "0 < k" using v(2) c(1) by (auto simp: access_width_def)
    then have "k = 1 \<or> k = 2 \<or> k = 3 \<or> k = 4 \<or> k = 5 \<or> k = 6 \<or> k = 7 \<or> k = 8" using c(2) by linarith
    then have "ap_width c \<in> {8, 16, 24, 32, 40, 48, 56, 64}" using k(1) by auto
    then show thesis using that by blast
  qed
  then consider (byte) "ap_width c = 1 \<or> ap_width c = 8" | (w16) "ap_width c = 16" | (w32) "ap_width c = 32"
    | (w64) "ap_width c = 64"
    using c(3) by cases (auto simp: bits64_isPowerOfTwo_def)
  then show ?thesis
  proof cases
    case byte
    then have k: "unat off < bytes s" "access_bytes (ap_width c) = 1" using n c by (auto simp: access_bytes_def)
    have b: "uint (ucast z :: 8 word) = ap_value c"
      using zb byte z(2) ap_value_bounds [OF cok] by (auto simp: unsigned_ucast_eq take_bit_int_eq_self)
    obtain s' where s': "write8_byte off (ucast z) s = Some s'"
        "writes_byte E (\<lambda>_. True) s g s' (\<lambda>_. unat off) (\<lambda>_. APInt 8 (uint (ucast z :: 8 word)))"
      using write8_byte_ok [OF ok k(1)] by blast
    have "writes_value E (\<lambda>_. True) g s s'
        (\<lambda>\<rho>. mem_store (isLittleEndian E) (obj_mem \<rho> s) (unat off) 1 (ap_value c))"
      by (rule writes_one_byte [OF s'(2)]) (use k b uint_lt_byte [of "ucast z"] ap_value_bounds [OF cok] in simp_all)
    then show ?thesis using s'(1) c z(1) byte k(2) by (auto simp: write_at_def store_value_def)
  next
    case w16
    then have "ucast (ucast z :: 16 word) = z" using zb by (intro ucast_same) simp
    then show ?thesis using write_bytes_ok [OF ok, of off 2 z] n c z w16
      by (simp add: write_at_def write16_def store_value_def access_bytes_def)
  next
    case w32
    then have "ucast (ucast z :: uint32) = z" using zb by (intro ucast_same) simp
    then show ?thesis using write_bytes_ok [OF ok, of off 4 z] n c z w32
      by (simp add: write_at_def write32_def store_value_def access_bytes_def)
  next
    case w64
    then show ?thesis using write_bytes_ok [OF ok, of off 8 z] n c z
      by (simp add: write_at_def write64_def store_value_def access_bytes_def)
  qed
qed

lemma write_symbolic_bytes:
  assumes ok: "mem_ok E (s, g)" and v: "wt (heap g) v" "getWidth v = m * 8" "0 < m" "m \<le> bytes s"
    and off: "wt (heap g) offset" "symbolic_offset offset"
  shows "\<exists>s'. write_expr E offset v s = Some s'
     \<and> writes_value E (\<lambda>\<rho>. ap_value (sem \<rho> offset) + int m \<le> int (bytes s)) g s s'
       (\<lambda>\<rho>. mem_store (isLittleEndian E) (obj_mem \<rho> s) (nat (ap_value (sem \<rho> offset))) m (ap_value (sem \<rho> v)))"
proof -
  have o32: "getWidth offset = 32" "\<not> is_Constant offset" using off(2) by (simp_all add: symbolic_offset_def)
  have pos: "0 \<le> ap_value (sem \<rho> offset)" for \<rho> using ap_value_bounds wt_sem_ok [OF off(1)] by blast
  have m32: "m < 2 ^ 32" using v(4) unsigned_less [of "os_size s", where 'a = nat] by simp
  let ?P = "\<lambda>\<rho>. ap_value (sem \<rho> offset) + int m \<le> int (bytes s)"
  let ?f = "\<lambda>s i. do {
    o' \<leftarrow> offset_plus E offset (byte_index E m i);
    v \<leftarrow> ExtractExpr_create (api (me_expr E)) v (8 * i) 8;
    write8_expr E o' v s }"
  have step: "\<exists>t'. ?f t i = Some t' \<and> writes_byte E ?P t g t'
      (\<lambda>\<rho>. nat (ap_value (sem \<rho> offset)) + byte_pos (isLittleEndian E) m i) (\<lambda>\<rho>. bv_extract (8 * i) 8 (sem \<rho> v))"
    if i: "i < m" and t: "mem_ok E (t, g)" "same_object s t" for i t
  proof -
    obtain b where b: "ExtractExpr_create (api (me_expr E)) v (8 * i) 8 = Some b" "wt (heap g) b" "getWidth b = 8"
        "\<And>\<rho>. ap_value (sem \<rho> b) = ap_value (sem \<rho> v) div 256 ^ i mod 256"
      using extract_byte [OF v(1,2) i] by blast
    have bv: "sem \<rho> b = bv_extract (8 * i) 8 (sem \<rho> v)" for \<rho>
      by (rule bv_eqI) (use b in \<open>simp_all add: bv_extract_byte\<close>)
    obtain o' where o': "offset_plus E offset (byte_index E m i) = Some o'" "wt (heap g) o'" "getWidth o' = 32"
        "\<not> is_Constant o'"
        "\<And>\<rho>. ?P \<rho> \<Longrightarrow> ap_value (sem \<rho> o') = ap_value (sem \<rho> offset) + int (byte_pos (isLittleEndian E) m i)"
      using symbolic_index [OF off i, of s] m32 by blast
    obtain t' where t': "write8_expr E o' b t = Some t'"
        "writes_byte E (\<lambda>\<rho>. ap_value (sem \<rho> o') < int (bytes t)) t g t' (\<lambda>\<rho>. nat (ap_value (sem \<rho> o'))) (\<lambda>\<rho>. sem \<rho> b)"
      using write8_expr_ok [OF t(1) o'(4,2,3) b(2,3)] by blast
    have tb: "bytes t = bytes s" using t(2) by (simp add: same_object_def)
    have "ap_value (sem \<rho> o') < int (bytes t) \<and>
        nat (ap_value (sem \<rho> o')) = nat (ap_value (sem \<rho> offset)) + byte_pos (isLittleEndian E) m i"
      if \<rho>: "?P \<rho>" for \<rho>
    proof -
      have "byte_pos (isLittleEndian E) m i < m" using byte_pos_less [OF i] .
      then show ?thesis unfolding o'(5) [OF \<rho>] tb using \<rho> pos [of \<rho>] by (simp add: nat_add_distrib)
    qed
    then have "writes_byte E ?P t g t'
        (\<lambda>\<rho>. nat (ap_value (sem \<rho> offset)) + byte_pos (isLittleEndian E) m i) (\<lambda>\<rho>. bv_extract (8 * i) 8 (sem \<rho> v))"
      using t'(2) bv unfolding writes_byte_def by simp
    then show ?thesis using b(1) o'(1) t'(1) by simp
  qed
  have base: "nat (ap_value (sem \<rho> offset)) + m \<le> bytes s" if "?P \<rho>" for \<rho> using that pos [of \<rho>] by linarith
  have "\<exists>s'. foldM ?f s [0..<m] = Some s' \<and> writes_value E ?P g s s'
     (\<lambda>\<rho>. mem_store (isLittleEndian E) (obj_mem \<rho> s) (nat (ap_value (sem \<rho> offset))) m (ap_value (sem \<rho> v)))"
    by (rule write_loop_ok [OF ok step _ base]) (simp_all add: bv_extract_byte)
  moreover have "write_expr E offset v s = foldM ?f s [0..<m]"
    using o32 v(2,3) by (simp add: write_expr_def ZExt_same Let_def)
  ultimately show ?thesis by simp
qed

lemma write_symbolic_ok:
  assumes ok: "mem_ok E (s, g)" and v: "wt (heap g) v" "access_width (getWidth v)" "access_bytes (getWidth v) \<le> bytes s"
    and off: "wt (heap g) offset" "symbolic_offset offset"
  shows "\<exists>s'. write_expr E offset v s = Some s'
     \<and> writes_value E (in_bounds s offset (getWidth v)) g s s'
       (\<lambda>\<rho>. store_value (isLittleEndian E) (obj_mem \<rho> s) (nat (ap_value (sem \<rho> offset))) (getWidth v) (ap_value (sem \<rho> v)))"
proof (cases "getWidth v = 1")
  case False
  have m: "getWidth v = getWidth v div 8 * 8" "0 < getWidth v div 8" "getWidth v div 8 \<le> bytes s"
      "access_bytes (getWidth v) = getWidth v div 8"
    using False v by (auto simp: access_width_def access_bytes_def)
  have "in_bounds s offset (getWidth v) = (\<lambda>\<rho>. ap_value (sem \<rho> offset) + int (getWidth v div 8) \<le> int (bytes s))"
    by (rule ext) (simp add: in_bounds_def m(4))
  then show ?thesis using write_symbolic_bytes [OF ok v(1) m(1-3) off]
    by (simp only: store_value_def m(4))
next
  case True
  have o32: "getWidth offset = 32" "\<not> is_Constant offset" using off(2) by (simp_all add: symbolic_offset_def)
  have pos: "0 \<le> ap_value (sem \<rho> offset)" for \<rho> using ap_value_bounds wt_sem_ok [OF off(1)] by blast
  obtain b where b: "ZExtExpr_create (api (me_expr E)) v 8 = Some b" "wt (heap g) b" "getWidth b = 8"
      "\<And>\<rho>. ap_value (sem \<rho> b) = ap_value (sem \<rho> v)"
    using zext_byte [OF v(1) True] by blast
  obtain s' where s': "write8_expr E offset b s = Some s'"
      "writes_byte E (\<lambda>\<rho>. ap_value (sem \<rho> offset) < int (bytes s)) s g s' (\<lambda>\<rho>. nat (ap_value (sem \<rho> offset))) (\<lambda>\<rho>. sem \<rho> b)"
    using write8_expr_ok [OF ok o32(2) off(1) o32(1) b(2,3)] by blast
  have bb: "0 \<le> ap_value (sem \<rho> v) \<and> ap_value (sem \<rho> v) < 256" for \<rho>
    using ap_value_bounds [OF wt_sem_ok [OF b(2), of \<rho>]] b by simp
  have ib: "in_bounds s offset (getWidth v) = (\<lambda>\<rho>. ap_value (sem \<rho> offset) < int (bytes s))"
    by (rule ext) (auto simp: in_bounds_def access_bytes_def True)
  have "writes_value E (\<lambda>\<rho>. ap_value (sem \<rho> offset) < int (bytes s)) g s s'
      (\<lambda>\<rho>. mem_store (isLittleEndian E) (obj_mem \<rho> s) (nat (ap_value (sem \<rho> offset))) 1 (ap_value (sem \<rho> v)))"
  proof (rule writes_one_byte [OF s'(2)])
    show "nat (ap_value (sem \<rho> offset)) < bytes s" if "ap_value (sem \<rho> offset) < int (bytes s)" for \<rho>
      using that pos [of \<rho>] by linarith
    show "ap_value (sem \<rho> b) = ap_value (sem \<rho> v) \<and> 0 \<le> ap_value (sem \<rho> v) \<and> ap_value (sem \<rho> v) < 256" for \<rho>
      using b(4) bb by simp
  qed
  moreover have "write_expr E offset v s = Some s'"
    using o32 True b(1) s'(1) by (simp add: write_expr_def ZExt_same)
  ultimately show ?thesis unfolding ib store_value_def using True by (simp add: access_bytes_def)
qed

end

end
