(* ===== verification/MemoryProps.thy ===== *)
theory MemoryProps
  imports MemoryWrite ExprProps
begin

text \<open>The properties of memory objects: construction, reads and writes, bounds checks.\<close>

subsection \<open>Objects that are constructed\<close>

lemma cells_concrete:
  assumes "concreteMask s = None" "flushMask s = None" "knownSymbolics s = None" "i < bytes s"
  shows "cells s i = Cell (concreteStore s ! i) True False None"
  using assms by (simp add: cells_simps)

lemma concrete_object_ok:
  assumes "concreteMask s = None" "flushMask s = None" "knownSymbolics s = None"
    and "concreteStore s = replicate (bytes s) b" "updates_ok H s"
  shows "object_ok H s \<and> (\<forall>\<rho>. obj_mem \<rho> s = (\<lambda>j. if j < bytes s then uint b else 0))"
proof
  show "object_ok H s"
    by (rule object_okI) (use assms in \<open>simp_all add: shape_ok_def cells_concrete cell_ok_def\<close>)
  show "\<forall>\<rho>. obj_mem \<rho> s = (\<lambda>j. if j < bytes s then uint b else 0)"
    using assms by (auto simp: obj_mem_def byte_val_def cells_concrete cached_def)
qed

lemma makeSymbolic_step:
  assumes s: "shape_ok t" and k: "unat off < bytes t"
  shows "\<exists>t'. (do { s \<leftarrow> markByteSymbolic t off; s \<leftarrow> setKnownSymbolic s off None; markByteFlushed s off }) = Some t'
    \<and> shape_ok t' \<and> same_rest t t' \<and> \<not> c_conc (cells t' (unat off)) \<and> c_known (cells t' (unat off)) = None
    \<and> c_flushed (cells t' (unat off))
    \<and> (\<forall>j. j \<noteq> unat off \<longrightarrow> c_conc (cells t' j) = c_conc (cells t j) \<and> c_known (cells t' j) = c_known (cells t j)
          \<and> (c_flushed (cells t j) \<longrightarrow> c_flushed (cells t' j)))"
proof -
  have "cell_op t (markByteSymbolic t off \<bind> (\<lambda>s. setKnownSymbolic s off None)) (unat off)
      ((\<lambda>c. Cell (c_val c) (c_conc c) (c_flushed c) None) \<circ> (\<lambda>c. Cell (c_val c) False (c_flushed c) (c_known c)))"
    by (rule cell_op_bind [OF markByteSymbolic_cells [OF s k]], rule setKnownSymbolic_cells)
      (use k in \<open>simp_all add: same_rest_bytes\<close>)
  then obtain u where u: "markByteSymbolic t off \<bind> (\<lambda>s. setKnownSymbolic s off None) = Some u" "shape_ok u" "same_rest t u"
      "cells u = (cells t)(unat off := Cell (c_val (cells t (unat off))) False (c_flushed (cells t (unat off))) None)"
    by (auto simp: cell_op_def)
  have ku: "unat off < bytes u" using k same_rest_bytes [OF u(3)] by simp
  show ?thesis
  proof (cases "flushMask u")
    case None
    let ?t = "u\<lparr>flushMask := Some (BitArray_new (bytes u) False)\<rparr>"
    have f: "markByteFlushed u off = Some ?t" using None by (simp add: markByteFlushed_def)
    have c: "cells ?t j = (if j < bytes u then Cell (c_val (cells u j)) (c_conc (cells u j)) True (c_known (cells u j))
        else cells u j)" for j
      using BitArray_get_new [of j "bytes u" False] by (simp add: cells_simps)
    have "shape_ok ?t" using u(2) by (simp add: shape_ok_def BitArray_new_def)
    moreover have "same_rest t ?t" using u(3) by (simp add: same_rest_def)
    ultimately show ?thesis using f u(1) c u(4) ku
      by (intro exI [of _ ?t]) (cases "markByteSymbolic t off"; simp)
  next
    case (Some m)
    then have "markByteFlushed u off = unset_flush u off" by (simp add: markByteFlushed_def unset_flush_def)
    then obtain v where v: "markByteFlushed u off = Some v" "shape_ok v" "same_rest u v"
      "cells v = (cells u)(unat off := Cell (c_val (cells u (unat off))) (c_conc (cells u (unat off))) True (c_known (cells u (unat off))))"
      using unset_flush_cells [OF u(2) ku] Some by (auto simp: cell_op_def)
    have "same_rest t v" using u(3) v(3) by (simp add: same_rest_def)
    then show ?thesis using v u(1,4) by (intro exI [of _ v]) (cases "markByteSymbolic t off"; simp)
  qed
qed

lemma makeSymbolic_ok:
  assumes s: "shape_ok s" "upd_head s = NullNode"
  shows "\<exists>t. makeSymbolic s = Some t \<and> shape_ok t \<and> same_rest s t
    \<and> (\<forall>j < bytes s. \<not> c_conc (cells t j) \<and> c_known (cells t j) = None \<and> c_flushed (cells t j))"
proof -
  let ?f = "\<lambda>s i. do { s \<leftarrow> markByteSymbolic s i; s \<leftarrow> setKnownSymbolic s i None; markByteFlushed s i }"
  let ?xs = "unsigned_range 0 (os_size s)"
  let ?I = "\<lambda>k t. shape_ok t \<and> same_rest s t
    \<and> (\<forall>j < k. \<not> c_conc (cells t j) \<and> c_known (cells t j) = None \<and> c_flushed (cells t j))"
  have "\<exists>t. foldM ?f s ?xs = Some t \<and> ?I (length ?xs) t"
  proof (rule foldM_invariant [where P = ?I])
    show "?I 0 s" using s by (simp add: same_rest_def)
  next
    fix k t assume k: "k < length ?xs" and t: "?I k t"
    have off: "unat (?xs ! k) = k" using k unsigned_range_nth by simp
    have kt: "unat (?xs ! k) < bytes t" using off k same_rest_bytes [of s t] t by simp
    obtain t' where t': "?f t (?xs ! k) = Some t'" "shape_ok t'" "same_rest t t'" "\<not> c_conc (cells t' k)"
        "c_known (cells t' k) = None" "c_flushed (cells t' k)"
        "\<And>j. j \<noteq> k \<Longrightarrow> c_conc (cells t' j) = c_conc (cells t j) \<and> c_known (cells t' j) = c_known (cells t j)
          \<and> (c_flushed (cells t j) \<longrightarrow> c_flushed (cells t' j))"
      using makeSymbolic_step [OF _ kt] t unfolding off by blast
    have "\<not> c_conc (cells t' j) \<and> c_known (cells t' j) = None \<and> c_flushed (cells t' j)" if "j < Suc k" for j
      using that t' t by (cases "j = k") simp_all
    then show "\<exists>t'. ?f t (?xs ! k) = Some t' \<and> ?I (Suc k) t'"
      using t' t by (intro exI [of _ t']) (simp add: same_rest_def)
  qed
  then show ?thesis using s(2) by (simp add: makeSymbolic_def)
qed

lemma symbolic_object_ok:
  assumes a: "array_ok H a" "arr_domain a = 32" "arr_range a = 8"
  shows "\<exists>s. ObjectState_new_symbolic mo a = Some s \<and> object_ok H s \<and> os_size s = mo_size mo
    \<and> (\<forall>\<rho>. obj_mem \<rho> s = (\<lambda>j. if j < unat (mo_size mo) then ap_value (array_value \<rho> a j) else 0))"
proof -
  let ?s = "fresh_object mo (Some a)"
  have "shape_ok ?s" "upd_head ?s = NullNode" by (simp_all add: fresh_object_def shape_ok_def)
  then obtain t where t: "makeSymbolic ?s = Some t" "shape_ok t" "same_rest ?s t"
      "\<forall>j < bytes ?s. \<not> c_conc (cells t j) \<and> c_known (cells t j) = None \<and> c_flushed (cells t j)"
    using makeSymbolic_ok by blast
  have r: "upd_root t = Some a" "upd_head t = NullNode" "os_size t = mo_size mo"
    using t(3) by (simp_all add: same_rest_def fresh_object_def)
  have c: "\<not> c_conc (cells t j)" "c_known (cells t j) = None" "c_flushed (cells t j)" if "j < bytes t" for j
    using t(4) that r(3) by (simp_all add: fresh_object_def)
  have "object_ok H t"
    by (rule object_okI) (use t(2) r a c in \<open>simp_all add: updates_ok_def writes_wt_def cell_ok_def cached_def\<close>)
  moreover have "obj_mem \<rho> t j = (if j < unat (mo_size mo) then ap_value (array_value \<rho> a j) else 0)" for \<rho> j
    using c [of j] r by (simp add: obj_mem_def byte_val_def cached_def upd_val_def obj_array_def)
  ultimately show ?thesis using t(1) r(3) by (auto simp: ObjectState_new_symbolic_def)
qed

lemma copy_ok:
  assumes "object_ok H s" "\<not> readOnly s"
  shows "ObjectState_copy s = Some (s\<lparr>copyOnWriteOwner := 0\<rparr>)"
  using object_okD(1) [OF assms(1)] assms(2)
  by (auto simp: ObjectState_copy_def shape_ok_def BitArray_copy_def split: option.splits)

lemma object_owner:
  assumes "object_ok H s"
  shows "object_ok H (s\<lparr>copyOnWriteOwner := k\<rparr>) \<and> (\<forall>\<rho>. obj_mem \<rho> (s\<lparr>copyOnWriteOwner := k\<rparr>) = obj_mem \<rho> s)"
proof -
  let ?s = "s\<lparr>copyOnWriteOwner := k\<rparr>"
  have c: "cells ?s = cells s" by (rule ext) (simp add: cells_simps)
  have u: "upd_val \<rho> ?s i = upd_val \<rho> s i" for \<rho> i
    by (cases "upd_root s") (simp_all add: upd_val_def obj_array_def)
  have "object_ok H ?s"
  proof (rule object_okI)
    show "shape_ok ?s" using object_okD(1) [OF assms] by (simp add: shape_ok_def)
    show "updates_ok H ?s" using object_okD(2) [OF assms] by (cases "upd_root s") (simp_all add: updates_ok_def)
    show "cell_ok H (cells ?s i)" if "i < bytes ?s" for i
      unfolding c by (rule object_okD(3) [OF assms]) (use that in simp)
    show "upd_val \<rho> ?s i = v" if "i < bytes ?s" "c_flushed (cells ?s i)" "cached \<rho> (cells ?s i) = Some v" for i \<rho> v
      unfolding u by (rule object_okD(4) [OF assms]) (use that c in simp_all)
  qed
  moreover have "byte_val \<rho> ?s j = byte_val \<rho> s j" for \<rho> j
    by (rule byte_val_cong) (simp_all only: c u)
  ultimately show ?thesis by (auto simp: obj_mem_def)
qed

subsection \<open>Accesses\<close>

text \<open>What the code relies on in its environment.\<close>

definition mem_env_ok :: "mem_env \<Rightarrow> bool" where
  "mem_env_ok E \<longleftrightarrow> llvm_apint (api (me_expr E)) \<and> \<not> ConstArrayOpt (me_expr E) \<and> inj (new_addr E)"

lemma mem_modelI: "mem_env_ok E \<Longrightarrow> mem_model E"
  by (simp add: mem_env_ok_def mem_model_def mem_model_axioms_def expr_creationI)

text \<open>
  The offset of an access, as the code reads it: truncated to 32 bits.  An access is permitted
  (\<open>access_ok\<close>) when its width is 1 or a number of bytes that fit the object; at an offset that
  folds to a constant it has to be within bounds, and an offset that does not fold must be in the
  form in which the creation functions leave sums with a constant.  At a symbolic offset the
  values are those of a load or store for the assignments under which it is within bounds
  (\<open>in_object\<close>).
\<close>

definition offset_value :: "assignment \<Rightarrow> expr \<Rightarrow> nat" where
  "offset_value \<rho> offset = nat (ap_value (sem \<rho> offset) mod 2 ^ 32)"

definition access_ok :: "mem_env \<Rightarrow> mem \<Rightarrow> expr \<Rightarrow> width \<Rightarrow> bool" where
  "access_ok E st offset w \<longleftrightarrow> access_width w \<and> wt (heap (snd st)) offset \<and> access_bytes w \<le> bytes (fst st)
     \<and> (case ZExtExpr_create (api (me_expr E)) offset 32 of
          Some (ConstantExpr c) \<Rightarrow> nat (ap_value c) + access_bytes w \<le> bytes (fst st)
        | Some off \<Rightarrow> offset_chain off
        | None \<Rightarrow> False)"

definition in_object :: "object_state \<Rightarrow> expr \<Rightarrow> width \<Rightarrow> assignment \<Rightarrow> bool" where
  "in_object s offset w \<rho> \<longleftrightarrow> offset_value \<rho> offset + access_bytes w \<le> bytes s"

lemma access_ok_same:
  assumes "access_ok E (s, g) offset w" "same_object s s'"
  shows "access_ok E (s', g) offset w"
proof -
  have sz: "os_size s' = os_size s" using assms(2) by (simp add: same_object_def)
  show ?thesis using assms(1) unfolding access_ok_def fst_conv snd_conv sz .
qed

lemma in_bounds_in_object:
  assumes "wt H off" "\<And>\<rho>. nat (ap_value (sem \<rho> off)) = offset_value \<rho> offset"
  shows "in_bounds s off w = in_object s offset w"
proof (rule ext)
  fix \<rho>
  have p: "0 \<le> ap_value (sem \<rho> off)" using ap_value_bounds wt_sem_ok [OF assms(1)] by blast
  have "ap_value (sem \<rho> off) = int (offset_value \<rho> offset)" using assms(2) [of \<rho>] p by simp
  then show "in_bounds s off w \<rho> = in_object s offset w \<rho>"
    unfolding in_bounds_def in_object_def by linarith
qed

context mem_model
begin

lemma truncated_offset:
  assumes "wt H offset"
  shows "\<exists>off. ZExtExpr_create (api (me_expr E)) offset 32 = Some off \<and> wt H off \<and> getWidth off = 32
    \<and> (\<forall>\<rho>. nat (ap_value (sem \<rho> off)) = offset_value \<rho> offset)"
proof -
  have d: "denotes H \<rho> (CastExpr_create (api (me_expr E)) ZExt offset 32) (bv_cast ZExt 32 (sem \<rho> offset))" for \<rho>
    by (rule CastExpr_create_sound) (use assms in simp_all)
  then obtain off where o: "ZExtExpr_create (api (me_expr E)) offset 32 = Some off" "wt H off"
    by (auto simp: denotes_def)
  have s: "sem \<rho> off = bv_zext 32 (sem \<rho> offset)" for \<rho> using d [of \<rho>] o by simp
  have "getWidth off = 32" using wt_sem_width [OF o(2), of "\<lambda>_ _. 0"] s by (simp add: bv_zext_def mk_ap_def)
  moreover have "nat (ap_value (sem \<rho> off)) = offset_value \<rho> offset" for \<rho>
    by (simp add: s bv_zext_def mk_ap_def offset_value_def take_bit_eq_mod)
  ultimately show ?thesis using o by blast
qed

text \<open>At an offset that folds, the 32-bit constant.\<close>

lemma constant_offset:
  assumes "ap_ok c" "ap_width c = 32"
  shows "\<exists>z. getZExtValue (api (me_expr E)) c 32 = Some z \<and> unat (ucast z :: uint32) = nat (ap_value c)"
proof -
  have v: "0 \<le> ap_value c" "ap_value c < 2 ^ 32" using ap_value_bounds [OF assms(1)] assms(2) by simp_all
  have z: "getZExtValue (api (me_expr E)) c 32 = Some (word_of_int (ap_value c))"
    using assms by (simp add: getZExtValue_def getZExtValue)
  have "uint (ucast (word_of_int (ap_value c) :: uint64) :: uint32) = ap_value c"
    using v by (simp add: unsigned_ucast_eq unsigned_of_int take_bit_take_bit take_bit_int_eq_self)
  then have "unat (ucast (word_of_int (ap_value c) :: uint64) :: uint32) = nat (ap_value c)"
    by (simp only: nat_uint_eq [symmetric])
  then show ?thesis using z by blast
qed

lemma same_offset:
  assumes "ZExtExpr_create (api (me_expr E)) offset 32 = Some off" "getWidth off = 32"
  shows "read_expr E offset w st = read_expr E off w st" "write_expr E offset v s = write_expr E off v s"
  using assms by (simp_all add: read_expr_def write_expr_def ZExt_same)

lemma write_expr_ok:
  assumes ok: "mem_ok E (s, g)" and acc: "access_ok E (s, g) offset (getWidth v)" and v: "wt (heap g) v"
  shows "\<exists>s'. write_expr E offset v s = Some s'
     \<and> writes_value E (in_object s offset (getWidth v)) g s s'
       (\<lambda>\<rho>. store_value (isLittleEndian E) (obj_mem \<rho> s) (offset_value \<rho> offset) (getWidth v) (ap_value (sem \<rho> v)))"
proof -
  let ?w = "getWidth v"
  have a: "access_width ?w" "wt (heap g) offset" "access_bytes ?w \<le> bytes s" using acc by (simp_all add: access_ok_def)
  obtain off where off: "ZExtExpr_create (api (me_expr E)) offset 32 = Some off" "wt (heap g) off" "getWidth off = 32"
      "\<And>\<rho>. nat (ap_value (sem \<rho> off)) = offset_value \<rho> offset"
    using truncated_offset [OF a(2)] by blast
  have ib: "in_bounds s off ?w = in_object s offset ?w" by (rule in_bounds_in_object [OF off(2,4)])
  show ?thesis
  proof (cases off rule: Constant_cases)
    case (Constant c)
    have c: "ap_ok c" "ap_width c = 32" "nat (ap_value c) + access_bytes ?w \<le> bytes s"
      using off(1-3) acc Constant by (simp_all add: access_ok_def)
    obtain z where z: "getZExtValue (api (me_expr E)) c 32 = Some z" "unat (ucast z :: uint32) = nat (ap_value c)"
      using constant_offset [OF c(1,2)] by blast
    obtain s' where s': "write_at E (ucast z) v s = Some s'" "writes_value E (\<lambda>_. True) g s s'
        (\<lambda>\<rho>. store_value (isLittleEndian E) (obj_mem \<rho> s) (nat (ap_value c)) ?w (ap_value (sem \<rho> v)))"
      using write_at_ok [OF ok v a(1), of "ucast z"] c(3) z(2) by auto
    have "write_expr E offset v s = Some s'"
      using same_offset(2) [OF off(1,3)] Constant z(1) s'(1) off(3) by (simp add: write_expr_def ZExt_same)
    moreover have "offset_value \<rho> offset = nat (ap_value c)" for \<rho> using off(4) [of \<rho>] Constant by simp
    ultimately show ?thesis using s'(2) by (auto simp: writes_value_def)
  next
    case other
    then have "symbolic_offset off"
      using acc off(1,3) by (cases off) (simp_all add: access_ok_def symbolic_offset_def)
    then show ?thesis using write_symbolic_ok [OF ok v a(1,3) off(2)] same_offset(2) [OF off(1,3)] ib off(4) by simp
  qed
qed

lemma read_expr_ok:
  assumes ok: "mem_ok E (s, g)" and acc: "access_ok E (s, g) offset w"
  shows "\<exists>e st'. read_expr E offset w (s, g) = Some (e, st')
     \<and> reads_value E (in_object s offset w) (s, g) w e st'
        (\<lambda>\<rho>. load_value (isLittleEndian E) (obj_mem \<rho> s) (offset_value \<rho> offset) w)"
proof -
  have a: "access_width w" "wt (heap g) offset" "access_bytes w \<le> bytes s" using acc by (simp_all add: access_ok_def)
  obtain off where off: "ZExtExpr_create (api (me_expr E)) offset 32 = Some off" "wt (heap g) off" "getWidth off = 32"
      "\<And>\<rho>. nat (ap_value (sem \<rho> off)) = offset_value \<rho> offset"
    using truncated_offset [OF a(2)] by blast
  have ib: "in_bounds s off w = in_object s offset w" by (rule in_bounds_in_object [OF off(2,4)])
  show ?thesis
  proof (cases off rule: Constant_cases)
    case (Constant c)
    have c: "ap_ok c" "ap_width c = 32" "nat (ap_value c) + access_bytes w \<le> bytes s"
      using off(1-3) acc Constant by (simp_all add: access_ok_def)
    obtain z where z: "getZExtValue (api (me_expr E)) c 32 = Some z" "unat (ucast z :: uint32) = nat (ap_value c)"
      using constant_offset [OF c(1,2)] by blast
    obtain e st' where e: "read_at E (ucast z) w (s, g) = Some (e, st')" "reads_value E (\<lambda>_. True) (s, g) w e st'
        (\<lambda>\<rho>. load_value (isLittleEndian E) (obj_mem \<rho> s) (nat (ap_value c)) w)"
      using read_at_ok [OF ok a(1), of "ucast z"] c(3) z(2) by auto
    have "read_expr E offset w (s, g) = Some (e, st')"
      using same_offset(1) [OF off(1,3)] Constant z(1) e(1) off(3) by (simp add: read_expr_def ZExt_same)
    moreover have "offset_value \<rho> offset = nat (ap_value c)" for \<rho> using off(4) [of \<rho>] Constant by simp
    ultimately show ?thesis using e(2) by (auto simp: reads_value_def)
  next
    case other
    then have "symbolic_offset off"
      using acc off(1,3) by (cases off) (simp_all add: access_ok_def symbolic_offset_def)
    then show ?thesis using read_symbolic_ok [OF ok a(1,3) off(2)] same_offset(1) [OF off(1,3)] ib off(4) by simp
  qed
qed

end

context mem_model
begin

lemma create_pointer:
  assumes "w \<in> {32, 64}" "uint x < 2 ^ w"
  shows "ConstantExpr_create (api (me_expr E)) x w = Some (APInt w (uint x))" "ap_ok (APInt w (uint x))"
proof -
  have "uint (take_bit w x) = uint x"
    using assms by (simp add: unsigned_take_bit_eq take_bit_int_eq_self)
  then have "take_bit w x = x" by (rule word_uint_eqI)
  then show "ConstantExpr_create (api (me_expr E)) x w = Some (APInt w (uint x))"
    using assms by (auto simp: ConstantExpr_create_def mk_ap_def take_bit_int_eq_self)
  show "ap_ok (APInt w (uint x))" using assms by (auto simp: ap_ok_def take_bit_int_eq_self)
qed

text \<open>The subtraction that computes the offset wraps below the base, to an offset past the object.\<close>

lemma offset_in_object:
  fixes p a sz n :: int
  assumes "0 \<le> p" "p < W" "0 \<le> a" "a < W" "a + sz \<le> W" "0 < n" "n \<le> sz"
  shows "(p - a) mod W < sz - n + 1 \<longleftrightarrow> a \<le> p \<and> p + n \<le> a + sz"
proof (cases "a \<le> p")
  case True
  then have "(p - a) mod W = p - a" using assms by (intro mod_pos_pos_trivial) simp_all
  then show ?thesis using True by linarith
next
  case False
  have "(p - a) mod W = (p - a + W) mod W" by simp
  also have "\<dots> = p - a + W" using False assms by (intro mod_pos_pos_trivial) simp_all
  finally show ?thesis using False assms by linarith
qed

lemma bounds_check_ok:
  assumes pw: "pointerWidth E \<in> {32, 64}" and p: "wt H p" "getWidth p = pointerWidth E"
    and mo: "uint (mo_address mo) + uint (mo_size mo) \<le> 2 ^ pointerWidth E" "uint (mo_address mo) < 2 ^ pointerWidth E"
    and n: "0 < n"
  shows "\<exists>e. getBoundsCheckPointer_bytes E mo p n = Some e \<and> wt H e \<and> getWidth e = 1
    \<and> (ap_value (sem \<rho> e) \<noteq> 0 \<longleftrightarrow> uint (mo_address mo) \<le> ap_value (sem \<rho> p)
        \<and> ap_value (sem \<rho> p) + uint n \<le> uint (mo_address mo) + uint (mo_size mo))"
proof -
  let ?w = "pointerWidth E"
  let ?a = "uint (mo_address mo)"
  let ?s = "uint (mo_size mo)"
  have w0: "0 < ?w" "?w \<le> 64" "(2 :: int) ^ 32 \<le> 2 ^ ?w" using pw by auto
  have n0: "0 < uint n" using n by (simp add: word_less_def)
  have s32: "?s < 2 ^ 32" using unsigned_less [of "mo_size mo", where 'a = int] by simp
  have pb: "0 \<le> ap_value (sem \<rho> p)" "ap_value (sem \<rho> p) < 2 ^ ?w"
    using ap_value_bounds [OF wt_sem_ok [OF p(1), of \<rho>]] p by simp_all
  note base = create_pointer [OF pw mo(2)]
  have d: "denotes H r (SubExpr_create (me_expr E) p (ConstantExpr (APInt ?w ?a)))
      (bv_binary Sub (sem r p) (APInt ?w ?a))" for r
    using SubExpr_create_sound [of H p "ConstantExpr (APInt ?w ?a)" r] p base(2) by simp
  then obtain off where off: "SubExpr_create (me_expr E) p (ConstantExpr (APInt ?w ?a)) = Some off" "wt H off"
    by (auto simp: denotes_def)
  have vo: "sem r off = bv_binary Sub (sem r p) (APInt ?w ?a)" for r using d [of r] off by simp
  have wo: "getWidth off = ?w" using wt_sem_width [OF off(2), of \<rho>] vo p by (simp add: bv_lift_def mk_ap_def)
  have o': "getOffsetExpr E mo p = Some off" using base(1) off(1) by (simp add: getOffsetExpr_def getBaseExpr_def)
  have ov: "ap_value (sem \<rho> off) = (ap_value (sem \<rho> p) - ?a) mod 2 ^ ?w"
    using vo p by (simp add: bv_lift_def mk_ap_def take_bit_eq_mod)
  show ?thesis
  proof (cases "n \<le> mo_size mo")
    case False
    then have "?s < uint n" by (simp add: word_le_def)
    then show ?thesis using o' False pb
      by (auto simp: getBoundsCheckPointer_bytes_def getBoundsCheckOffset_bytes_def mk_ap_def ap_ok_def)
  next
    case True
    then have ns: "uint n \<le> ?s" by (simp add: word_le_def)
    let ?k = "mo_size mo - n + 1"
    have "uint (mo_size mo - n) = ?s - uint n" using True by (simp add: uint_sub_lem [THEN iffD1] word_le_def)
    then have k: "uint ?k = ?s - uint n + 1"
      using n0 s32 ns uint_add_lem [of "mo_size mo - n" 1] by simp
    have kw: "take_bit ?w (uint (ucast ?k :: uint64)) = uint ?k"
      using k n0 s32 w0(3) ns by (simp add: unsigned_ucast_eq take_bit_int_eq_self)
    have kok: "ap_ok (APInt ?w (uint ?k))" using k n0 s32 w0 ns by (simp add: ap_ok_def take_bit_int_eq_self)
    have d': "denotes H r (UltExpr_create (me_expr E) off (ConstantExpr (APInt ?w (uint ?k))))
        (bv_binary Ult (sem r off) (APInt ?w (uint ?k)))" for r
      using shifts_orders_sound(4) [of H off "ConstantExpr (APInt ?w (uint ?k))" r] off(2) wo kok by simp
    then obtain e where e: "UltExpr_create (me_expr E) off (ConstantExpr (APInt ?w (uint ?k))) = Some e" "wt H e"
      by (auto simp: denotes_def)
    have ve: "sem r e = bv_bool (ap_value (sem r off) < uint ?k)" for r using d' [of r] e by simp
    have "getWidth e = 1" using wt_sem_width [OF e(2), of \<rho>] ve by (simp add: bv_bool_def)
    moreover have "getBoundsCheckPointer_bytes E mo p n = Some e"
      using o' True e(1) w0(1) kw by (simp add: getBoundsCheckPointer_bytes_def getBoundsCheckOffset_bytes_def mk_ap_def)
    moreover have "ap_value (sem \<rho> e) \<noteq> 0 \<longleftrightarrow> ap_value (sem \<rho> off) < ?s - uint n + 1"
      by (simp add: ve k bv_bool_def)
    ultimately show ?thesis using e(2) unfolding ov
      using offset_in_object [OF pb, of ?a ?s "uint n"] mo n0 ns by auto
  qed
qed

end

lemma load_store_value:
  assumes "access_width w" "0 \<le> v" "v < 2 ^ w"
  shows "load_value little (store_value little M off w v) off w = v"
proof (cases "w = 1")
  case True
  then show ?thesis using assms by (auto simp: load_value_def store_value_def access_bytes_def mem_store_def byte_pos_def)
next
  case False
  then obtain n where n: "w = 8 * n" using assms(1) by (auto simp: access_width_def)
  then have "(2 :: int) ^ w = 256 ^ n" by (simp add: power_mult)
  then show ?thesis using load_store [of v n little M off] False assms n
    by (simp add: load_value_def store_value_def access_bytes_def)
qed

subsection \<open>An environment\<close>

definition default_mem :: mem_env where
  "default_mem = \<lparr>me_expr = default_env, UseConstantArrays = True, isLittleEndian = True, pointerWidth = 64,
     utostr = (\<lambda>i. [char_of (48 + unat i)]), new_addr = Suc\<rparr>"

interpretation default_mem: mem_model default_mem
  by (rule mem_modelI)
    (simp add: mem_env_ok_def default_mem_def apint_model.llvm_apint_axioms)

lemma default_mem_ok [simp]: "mem_env_ok default_mem"
  by (simp add: mem_env_ok_def default_mem_def apint_model.llvm_apint_axioms)

lemma default_mem_sel [simp]: "me_expr default_mem = default_env" "isLittleEndian default_mem = True"
  "UseConstantArrays default_mem = True" "pointerWidth default_mem = 64" "new_addr default_mem = Suc"
  by (simp_all add: default_mem_def)

text \<open>An object of 4 zero bytes; the array cache holds the symbolic array \<open>buf\<close>.\<close>

definition four_bytes :: memory_object where
  "four_bytes = \<lparr>mo_id = 0, mo_address = 4096, mo_size = 4, mo_isLocal = False, mo_isGlobal = True,
     mo_isFixed = False, mo_isUserSpecified = False, mo_allocSite = None\<rparr>"

definition zero_object :: object_state where "zero_object = fresh_object four_bytes None"

definition buf_globals :: mem_globals where
  "buf_globals = \<lparr>arrayCache = \<lparr>cachedSymbolicArrays = [buf], concreteArrays = []\<rparr>, const_arr_id = 0, tmp_arr_id = 0\<rparr>"

definition buf_offset :: expr where "buf_offset = CastExpr ZExt (buf_byte 0) 32"

lemma zero_object_size [simp]: "os_size zero_object = 4"
  by (simp add: zero_object_def fresh_object_def four_bytes_def)

lemma zero_object_ok [simp]: "object_ok H zero_object" "obj_mem \<rho> zero_object j = 0"
  using concrete_object_ok [of zero_object 0 H]
  by (auto simp: zero_object_def fresh_object_def four_bytes_def updates_ok_def writes_wt_def)

lemma buf_in_heap: "heap buf_globals (arr_addr buf) = buf"
  by (simp add: heap_of_def buf_globals_def cache_arrays_def)

lemma buf_array_ok [simp]: "array_ok (heap buf_globals) buf"
  using buf_ok by (simp add: array_ok_def buf_in_heap)

lemma buf_mem_ok [simp]: "mem_ok default_mem (zero_object, buf_globals)"
  by (simp add: mem_ok_def cache_ok_def buf_globals_def cache_arrays_def isSymbolicArray_def buf_def lessThan_Suc)

lemma buf_offset_simps [simp]: "wt (heap buf_globals) buf_offset" "getWidth buf_offset = 32"
  "ZExtExpr_create A buf_offset 32 = Some buf_offset" "offset_chain buf_offset"
  "offset_value \<rho> buf_offset = nat (take_bit 8 (\<rho> buf 0))"
proof -
  show "wt (heap buf_globals) buf_offset" "getWidth buf_offset = 32" "ZExtExpr_create A buf_offset 32 = Some buf_offset"
    "offset_chain buf_offset"
    by (simp_all add: buf_offset_def buf_byte_def ap_ok_def default_mem.ZExt_same)
  have b: "0 \<le> take_bit 8 (\<rho> buf 0)" "take_bit 8 (\<rho> buf 0) < 256"
    using take_bit_int_less_exp [of 8 "\<rho> buf 0"] by simp_all
  then have "take_bit 32 (take_bit 8 (\<rho> buf 0)) mod 2 ^ 32 = take_bit 8 (\<rho> buf 0)"
    by (simp add: take_bit_int_eq_self)
  then show "offset_value \<rho> buf_offset = nat (take_bit 8 (\<rho> buf 0))"
    by (simp add: offset_value_def buf_offset_def bv_zext_def mk_ap_def)
qed

lemma buf_access [simp]: "access_width w \<Longrightarrow> access_bytes w \<le> 4 \<Longrightarrow> access_ok default_mem (zero_object, buf_globals) buf_offset w"
  by (simp add: access_ok_def) (simp add: buf_offset_def)

subsection \<open>Properties\<close>

text \<open>
  (C18) A write through \<open>ObjectState::write\<close> is a store: at an offset that is constant or symbolic,
  of a boolean or of any number of bytes, in either byte order, it returns (no assertion fails),
  keeps the invariant of the caches, and afterwards the bytes of the object are, under every
  assignment for which the access is within the object, those of the store of the value.
\<close>

theorem memory_write_refines:
  assumes "mem_env_ok E" "mem_ok E (s, g)" "access_ok E (s, g) offset (getWidth v)" "wt (heap g) v"
  shows "\<exists>s'. write_expr E offset v s = Some s' \<and> mem_ok E (s', g) \<and> same_object s s'
     \<and> (\<forall>\<rho>. in_object s offset (getWidth v) \<rho> \<longrightarrow> obj_mem \<rho> s' =
          store_value (isLittleEndian E) (obj_mem \<rho> s) (offset_value \<rho> offset) (getWidth v) (ap_value (sem \<rho> v)))"
  using mem_model.write_expr_ok [OF mem_modelI [OF assms(1)] assms(2-4)] by (simp add: writes_value_def)

theorem memory_write_refines_witness:
  "\<exists>s'. write_expr default_mem buf_offset (ConstantExpr (APInt 16 0x1234)) zero_object = Some s'
     \<and> obj_mem (\<lambda>_ _. 1) s' 1 = 0x34 \<and> obj_mem (\<lambda>_ _. 1) s' 2 = 0x12 \<and> obj_mem (\<lambda>_ _. 2) s' 2 = 0x34"
proof -
  let ?v = "ConstantExpr (APInt 16 0x1234)"
  have v: "wt (heap buf_globals) ?v" by (simp add: ap_ok_def)
  have acc: "access_ok default_mem (zero_object, buf_globals) buf_offset (getWidth ?v)"
    by (rule buf_access) (simp_all add: access_width_def access_bytes_def)
  obtain s' where s': "write_expr default_mem buf_offset ?v zero_object = Some s'"
    "\<And>\<rho>. in_object zero_object buf_offset (getWidth ?v) \<rho> \<Longrightarrow> obj_mem \<rho> s' =
        store_value True (obj_mem \<rho> zero_object) (offset_value \<rho> buf_offset) (getWidth ?v) (ap_value (sem \<rho> ?v))"
    using memory_write_refines [OF default_mem_ok buf_mem_ok acc v] by auto
  have "in_object zero_object buf_offset (getWidth ?v) (\<lambda>_ _. 1)" "in_object zero_object buf_offset (getWidth ?v) (\<lambda>_ _. 2)"
    by (simp_all add: in_object_def access_bytes_def take_bit_int_eq_self)
  note m = this [THEN s'(2)]
  show ?thesis using s'(1) unfolding m
    by (auto simp: m store_value_def access_bytes_def mem_store_def byte_pos_def take_bit_int_eq_self)
qed

text \<open>
  (C19) A read through \<open>ObjectState::read\<close> is a load: it returns an expression whose value, under
  every assignment for which the access is within the object, is the load of the bytes, although
  bytes that are cached, flushed to the update list or folded into a constant array are found
  in different places.
\<close>

theorem memory_read_refines:
  assumes "mem_env_ok E" "mem_ok E (s, g)" "access_ok E (s, g) offset w"
  shows "\<exists>e st'. read_expr E offset w (s, g) = Some (e, st')
     \<and> (\<forall>\<rho>. in_object s offset w \<rho> \<longrightarrow>
          ap_value (sem \<rho> e) = load_value (isLittleEndian E) (obj_mem \<rho> s) (offset_value \<rho> offset) w)"
  using mem_model.read_expr_ok [OF mem_modelI [OF assms(1)] assms(2,3)] by (auto simp: reads_value_def)

theorem memory_read_refines_witness:
  "\<exists>e st'. read_expr default_mem buf_offset 16 (zero_object, buf_globals) = Some (e, st')
     \<and> ap_value (sem (\<lambda>_ _. 2) e) = 0"
proof -
  have acc: "access_ok default_mem (zero_object, buf_globals) buf_offset 16"
    by (rule buf_access) (simp_all add: access_width_def access_bytes_def)
  obtain e st' where e: "read_expr default_mem buf_offset 16 (zero_object, buf_globals) = Some (e, st')"
    "\<And>\<rho>. in_object zero_object buf_offset 16 \<rho> \<Longrightarrow>
       ap_value (sem \<rho> e) = load_value True (obj_mem \<rho> zero_object) (offset_value \<rho> buf_offset) 16"
    using memory_read_refines [OF default_mem_ok buf_mem_ok acc] by auto
  have "in_object zero_object buf_offset 16 (\<lambda>_ _. 2)"
    by (simp add: in_object_def access_bytes_def take_bit_int_eq_self)
  then show ?thesis using e(1) e(2) [of "\<lambda>_ _. 2"]
    by (simp add: load_value_def mem_load_def upt_rec)
qed

text \<open>
  (C21) Reads are typed and have no effect on the bytes: the expression is well typed over the
  arrays that exist afterwards and has the width that was asked for; the invariant holds
  afterwards and every byte of the object has the value it had, although the read may have
  flushed caches and created an array.
\<close>

theorem memory_read_typed:
  assumes "mem_env_ok E" "mem_ok E (s, g)" "access_ok E (s, g) offset w"
  shows "\<exists>e s' g'. read_expr E offset w (s, g) = Some (e, s', g') \<and> wt (heap g') e \<and> getWidth e = w
     \<and> mem_ok E (s', g') \<and> heap_le (heap g) (heap g') \<and> same_object s s' \<and> (\<forall>\<rho>. obj_mem \<rho> s' = obj_mem \<rho> s)"
proof -
  obtain e s' g' where e: "read_expr E offset w (s, g) = Some (e, s', g')" "same_mem E (s, g) (s', g')"
      "wt (heap g') e" "getWidth e = w"
    using mem_model.read_expr_ok [OF mem_modelI [OF assms(1)] assms(2,3)] by (auto simp: reads_value_def)
  have "obj_mem \<rho> s' = obj_mem \<rho> s" for \<rho>
    using same_memD(2,3) [OF e(2)] by (intro ext) (simp add: obj_mem_def)
  then show ?thesis using e by (auto simp: same_mem_def mem_step_def)
qed

theorem memory_read_typed_witness:
  "\<exists>e s' g'. read_expr default_mem buf_offset 16 (zero_object, buf_globals) = Some (e, s', g')
     \<and> wt (heap g') e \<and> getWidth e = 16 \<and> mem_ok default_mem (s', g')"
proof -
  have "access_ok default_mem (zero_object, buf_globals) buf_offset 16"
    by (rule buf_access) (simp_all add: access_width_def access_bytes_def)
  from memory_read_typed [OF default_mem_ok buf_mem_ok this] show ?thesis by blast
qed

text \<open>
  (C20) What is written is read: a read of the same width at the same offset, constant or symbolic,
  after a write returns an expression equal to the value written, under every assignment for
  which the access is within the object.
\<close>

theorem memory_write_read:
  assumes "mem_env_ok E" "mem_ok E (s, g)" "access_ok E (s, g) offset (getWidth v)" "wt (heap g) v"
  shows "\<exists>s' e st'. write_expr E offset v s = Some s' \<and> read_expr E offset (getWidth v) (s', g) = Some (e, st')
     \<and> (\<forall>\<rho>. in_object s offset (getWidth v) \<rho> \<longrightarrow> sem \<rho> e = sem \<rho> v)"
proof -
  note m = mem_modelI [OF assms(1)]
  obtain s' where s': "write_expr E offset v s = Some s'" "mem_ok E (s', g)" "same_object s s'"
    "\<And>\<rho>. in_object s offset (getWidth v) \<rho> \<Longrightarrow> obj_mem \<rho> s' =
       store_value (isLittleEndian E) (obj_mem \<rho> s) (offset_value \<rho> offset) (getWidth v) (ap_value (sem \<rho> v))"
    using mem_model.write_expr_ok [OF m assms(2-4)] by (auto simp: writes_value_def)
  have acc: "access_ok E (s', g) offset (getWidth v)"
    by (rule access_ok_same [OF assms(3) s'(3)])
  obtain e st' where e: "read_expr E offset (getWidth v) (s', g) = Some (e, st')" "wt (heap (snd st')) e"
      "getWidth e = getWidth v"
      "\<And>\<rho>. in_object s' offset (getWidth v) \<rho> \<Longrightarrow> ap_value (sem \<rho> e) =
         load_value (isLittleEndian E) (obj_mem \<rho> s') (offset_value \<rho> offset) (getWidth v)"
    using mem_model.read_expr_ok [OF m s'(2) acc] by (auto simp: reads_value_def)
  have "sem \<rho> e = sem \<rho> v" if \<rho>: "in_object s offset (getWidth v) \<rho>" for \<rho>
  proof (rule bv_eqI)
    show "ap_width (sem \<rho> e) = ap_width (sem \<rho> v)" using e(2,3) assms(4) by simp
    have "in_object s' offset (getWidth v) \<rho>" using \<rho> s'(3) by (simp add: in_object_def same_object_def)
    moreover have "0 \<le> ap_value (sem \<rho> v)" "ap_value (sem \<rho> v) < 2 ^ getWidth v"
      using ap_value_bounds [OF wt_sem_ok [OF assms(4), of \<rho>]] assms(4) by simp_all
    ultimately show "ap_value (sem \<rho> e) = ap_value (sem \<rho> v)"
      using e(4) s'(4) [OF \<rho>] assms(3) by (simp add: load_store_value access_ok_def)
  qed
  then show ?thesis using s'(1) e(1) by blast
qed

theorem memory_write_read_witness:
  "\<exists>s' e st'. write_expr default_mem buf_offset (buf_byte 1) zero_object = Some s'
     \<and> read_expr default_mem buf_offset 8 (s', buf_globals) = Some (e, st') \<and> sem (\<lambda>_ _. 3) e = APInt 8 3"
proof -
  have v: "wt (heap buf_globals) (buf_byte 1)" by (simp add: buf_byte_def ap_ok_def)
  have "access_ok default_mem (zero_object, buf_globals) buf_offset (getWidth (buf_byte 1))"
    by (rule buf_access) (simp_all add: access_width_def access_bytes_def)
  note r = memory_write_read [OF default_mem_ok buf_mem_ok this v]
  have "in_object zero_object buf_offset (getWidth (buf_byte 1)) (\<lambda>_ _. 3)"
    by (simp add: in_object_def access_bytes_def take_bit_int_eq_self)
  then show ?thesis using r by (auto simp: take_bit_int_eq_self)
qed

lemma constructed_objects:
  assumes "mem_ok E (s, g)" "UseConstantArrays E" "\<not> readOnly s"
    and a: "array_ok (heap g) a" "arr_domain a = 32" "arr_range a = 8"
  shows "\<exists>n. ObjectState_new E mo g = Some (n, g) \<and> mem_ok E (n, g) \<and> obj_mem \<rho> n = (\<lambda>_. 0)"
    and "mem_ok E (initializeToZero s, g) \<and> obj_mem \<rho> (initializeToZero s) = (\<lambda>_. 0)"
    and "mem_ok E (initializeToRandom s, g)
      \<and> obj_mem \<rho> (initializeToRandom s) = (\<lambda>j. if j < bytes s then 0xAB else 0)"
    and "\<exists>n. ObjectState_new_symbolic mo a = Some n \<and> mem_ok E (n, g)
      \<and> obj_mem \<rho> n = (\<lambda>j. if j < unat (mo_size mo) then ap_value (array_value \<rho> a j) else 0)"
    and "\<exists>n. ObjectState_copy s = Some n \<and> mem_ok E (n, g) \<and> obj_mem \<rho> n = obj_mem \<rho> s \<and> copyOnWriteOwner n = 0"
proof -
  have c: "cache_ok E (arrayCache g)" and o: "object_ok (heap g) s" using assms(1) by (simp_all add: mem_ok_def)
  have u: "updates_ok (heap g) s" using object_okD(2) [OF o] .
  let ?n = "fresh_object mo None"
  have "object_ok (heap g) ?n \<and> (\<forall>\<rho>. obj_mem \<rho> ?n = (\<lambda>j. if j < bytes ?n then uint (0 :: 8 word) else 0))"
    by (rule concrete_object_ok) (simp_all add: fresh_object_def updates_ok_def writes_wt_def)
  then show "\<exists>n. ObjectState_new E mo g = Some (n, g) \<and> mem_ok E (n, g) \<and> obj_mem \<rho> n = (\<lambda>_. 0)"
    using c assms(2) by (auto simp: ObjectState_new_def mem_ok_def)
  have "updates_ok (heap g) (initializeToZero s)" "updates_ok (heap g) (initializeToRandom s)"
    using u by (cases "upd_root s"; simp add: updates_ok_def initializeToZero_def initializeToRandom_def makeConcrete_def)+
  then have "object_ok (heap g) (initializeToZero s) \<and>
      (\<forall>\<rho>. obj_mem \<rho> (initializeToZero s) = (\<lambda>j. if j < bytes (initializeToZero s) then uint (0 :: 8 word) else 0))"
    "object_ok (heap g) (initializeToRandom s) \<and>
      (\<forall>\<rho>. obj_mem \<rho> (initializeToRandom s) = (\<lambda>j. if j < bytes (initializeToRandom s) then uint (0xAB :: 8 word) else 0))"
    by (intro concrete_object_ok; simp add: initializeToZero_def initializeToRandom_def makeConcrete_def)+
  then show "mem_ok E (initializeToZero s, g) \<and> obj_mem \<rho> (initializeToZero s) = (\<lambda>_. 0)"
    "mem_ok E (initializeToRandom s, g)
      \<and> obj_mem \<rho> (initializeToRandom s) = (\<lambda>j. if j < bytes s then 0xAB else 0)"
    using c by (auto simp: mem_ok_def initializeToRandom_def makeConcrete_def)
  show "\<exists>n. ObjectState_new_symbolic mo a = Some n \<and> mem_ok E (n, g)
      \<and> obj_mem \<rho> n = (\<lambda>j. if j < unat (mo_size mo) then ap_value (array_value \<rho> a j) else 0)"
    using symbolic_object_ok [OF a, of mo] c by (auto simp: mem_ok_def)
  have o': "object_ok (heap g) (s\<lparr>copyOnWriteOwner := 0\<rparr>) \<and> obj_mem \<rho> (s\<lparr>copyOnWriteOwner := 0\<rparr>) = obj_mem \<rho> s"
    using object_owner [OF o] by blast
  then show "\<exists>n. ObjectState_copy s = Some n \<and> mem_ok E (n, g) \<and> obj_mem \<rho> n = obj_mem \<rho> s \<and> copyOnWriteOwner n = 0"
    using c copy_ok [OF o assms(3)] by (auto simp: mem_ok_def)
qed

text \<open>
  The constructors establish the invariant and the contents they promise: a new object and
  one that is initialised to zero hold zeros, \<open>initializeToRandom\<close> fills with 0xAB, an object
  with symbolic contents has the bytes of its array, and the copy that copy-on-write makes has
  the bytes and the caches of the original.
\<close>

theorem object_constructors:
  assumes "mem_ok E (s, g)" "UseConstantArrays E" "\<not> readOnly s"
    and a: "array_ok (heap g) a" "arr_domain a = 32" "arr_range a = 8"
  shows "(\<exists>n. ObjectState_new E mo g = Some (n, g) \<and> mem_ok E (n, g) \<and> obj_mem \<rho> n = (\<lambda>_. 0))
    \<and> (mem_ok E (initializeToZero s, g) \<and> obj_mem \<rho> (initializeToZero s) = (\<lambda>_. 0))
    \<and> (mem_ok E (initializeToRandom s, g)
        \<and> obj_mem \<rho> (initializeToRandom s) = (\<lambda>j. if j < bytes s then 0xAB else 0))
    \<and> (\<exists>n. ObjectState_new_symbolic mo a = Some n \<and> mem_ok E (n, g)
        \<and> obj_mem \<rho> n = (\<lambda>j. if j < unat (mo_size mo) then ap_value (array_value \<rho> a j) else 0))
    \<and> (\<exists>n. ObjectState_copy s = Some n \<and> mem_ok E (n, g) \<and> obj_mem \<rho> n = obj_mem \<rho> s \<and> copyOnWriteOwner n = 0)"
  by (intro conjI constructed_objects [OF assms])

theorem object_constructors_witness:
  "(\<exists>n. ObjectState_new_symbolic four_bytes buf = Some n \<and> obj_mem (\<lambda>_ _. 5) n 3 = 5)
   \<and> obj_mem (\<lambda>_ _. 5) (initializeToRandom zero_object) 3 = 0xAB
   \<and> (\<exists>n. ObjectState_copy zero_object = Some n \<and> copyOnWriteOwner n = 0)
   \<and> obj_mem (\<lambda>_ _. 5) (initializeToZero zero_object) 3 = 0
   \<and> (\<exists>n. ObjectState_new default_mem four_bytes buf_globals = Some (n, buf_globals))"
proof -
  have r: "\<not> readOnly zero_object" by (simp add: zero_object_def fresh_object_def)
  have "array_value (\<lambda>_ _. 5) buf 3 = APInt 8 5"
    by (simp add: array_value_def mk_ap_def take_bit_int_eq_self)
  moreover have "3 < unat (mo_size four_bytes)" by (simp add: four_bytes_def)
  ultimately show ?thesis
    using object_constructors [OF buf_mem_ok _ r buf_array_ok, where mo = four_bytes and \<rho> = "\<lambda>_ _. 5"]
    by auto
qed

subsection \<open>Bounds checks\<close>

text \<open>
  The bounds check of a pointer is exact: for an object that does not wrap around the end
  of the address space and a positive number of bytes, the boolean expression that
  \<open>getBoundsCheckPointer\<close> returns is true under an assignment exactly if the bytes from the
  pointer lie within the object; the subtraction of the base that wraps for lower pointers
  does not make it true for them.
\<close>

theorem bounds_check_exact:
  assumes "mem_env_ok E" "pointerWidth E \<in> {32, 64}" "wt H p" "getWidth p = pointerWidth E"
    and "uint (mo_address mo) + uint (mo_size mo) \<le> 2 ^ pointerWidth E" "uint (mo_address mo) < 2 ^ pointerWidth E" "0 < n"
  shows "\<exists>e. getBoundsCheckPointer_bytes E mo p n = Some e \<and> wt H e \<and> getWidth e = 1
    \<and> (ap_value (sem \<rho> e) \<noteq> 0 \<longleftrightarrow> uint (mo_address mo) \<le> ap_value (sem \<rho> p)
        \<and> ap_value (sem \<rho> p) + uint n \<le> uint (mo_address mo) + uint (mo_size mo))"
  using mem_model.bounds_check_ok [OF mem_modelI [OF assms(1)] assms(2-7)] .

theorem bounds_check_exact_witness:
  "\<exists>e. getBoundsCheckPointer_bytes default_mem four_bytes (ConstantExpr (APInt 64 4098)) 2 = Some e
     \<and> ap_value (sem (\<lambda>_ _. 0) e) \<noteq> 0"
proof -
  have "wt (heap buf_globals) (ConstantExpr (APInt 64 4098))" by (simp add: ap_ok_def)
  then show ?thesis
    using bounds_check_exact [OF default_mem_ok, of "heap buf_globals" "ConstantExpr (APInt 64 4098)" four_bytes 2 "\<lambda>_ _. 0"]
    by (auto simp: four_bytes_def)
qed

end
