(* ===== verification/AddressSpaceSound.thy ===== *)
theory AddressSpaceSound
  imports AddressSpace MemoryProps
begin

text \<open>
  Copy on write.  The abstract system gives every address space a map of its own from addresses
  to contents of objects; copying a space duplicates the map.  The invariant \<open>spaces_ok\<close> of the
  spaces with their shared heap of object states is the one the header documents, and that an
  object state whose owner is the key of a space is bound in no other space.
\<close>

subsection \<open>Memory objects as keys\<close>

interpretation mo_order: key_order MemoryObjectLT
  by unfold_locales (auto simp: MemoryObjectLT_def)

interpretation mo_map: keyed_tree MemoryObjectLT "Select1st :: memory_object \<times> os_ref \<Rightarrow> memory_object"
  by unfold_locales

lemma same_key_object [simp]: "same_key MemoryObjectLT a b \<longleftrightarrow> mo_address a = mo_address b"
  by (auto simp: same_key_def MemoryObjectLT_def)

lemma hack_address [simp]: "mo_address (MemoryObject_hack a) = a"
  by (simp add: MemoryObject_hack_def)

abbreviation objects_ok :: "address_space \<Rightarrow> bool" where
  "objects_ok AS \<equiv> tree_ok MemoryObjectLT Select1st (objects AS)"

definition binding :: "address_space \<Rightarrow> uint64 \<Rightarrow> os_ref option" where
  "binding AS a = findObject AS (MemoryObject_hack a)"

lemma findObject_binding:
  assumes "objects_ok AS"
  shows "findObject AS mo = binding AS (mo_address mo)"
proof -
  have "key_sorted MemoryObjectLT Select1st (inorder (objects AS))" using assms by (simp add: tree_ok_def)
  note l = mo_order.lookup_inorder [OF this]
  have "list_lookup MemoryObjectLT Select1st (inorder (objects AS)) mo
      = list_lookup MemoryObjectLT Select1st (inorder (objects AS)) (MemoryObject_hack (mo_address mo))"
    by (rule mo_order.list_lookup_same) simp
  then show ?thesis by (simp add: binding_def findObject_def ImmutableMap_lookup_def l)
qed

lemma binding_replace:
  assumes "objects_ok AS"
  shows "objects_ok (AS\<lparr>objects := ImmutableMap_replace MemoryObjectLT (objects AS) (mo, r)\<rparr>)"
    and "binding (AS\<lparr>objects := ImmutableMap_replace MemoryObjectLT (objects AS) (mo, r)\<rparr>)
      = (binding AS)(mo_address mo \<mapsto> r)"
  using mo_order.replace_ok [OF assms, of "(mo, r)"] mo_map.lookup_replace_tree [OF assms, of "(mo, r)"]
  by (auto simp: ImmutableMap_replace_def binding_def findObject_def ImmutableMap_lookup_def Select1st_def fun_eq_iff)

lemma unbindObject_ok:
  assumes "objects_ok AS"
  shows "\<exists>AS'. unbindObject mo AS = Some AS' \<and> objects_ok AS' \<and> cowKey AS' = cowKey AS
    \<and> binding AS' = (binding AS)(mo_address mo := None)"
proof -
  obtain t where t: "ImmutableTree_remove MemoryObjectLT Select1st (objects AS) mo = Some t"
      "tree_ok MemoryObjectLT Select1st t"
      "\<And>k. ImmutableTree_lookup MemoryObjectLT Select1st t k =
         (if mo_address mo = mo_address k then None
          else ImmutableTree_lookup MemoryObjectLT Select1st (objects AS) k)"
    using mo_map.remove_tree [OF assms, of mo] by auto
  then show ?thesis
    by (auto simp: unbindObject_def ImmutableMap_remove_def binding_def findObject_def ImmutableMap_lookup_def fun_eq_iff)
qed

subsection \<open>The system of spaces\<close>

type_synonym spaces = "address_space list \<times> os_heap"

text \<open>What an object state holds, apart from the bookkeeping of its owner.\<close>

definition contents :: "object_state \<Rightarrow> object_state" where
  "contents os = os\<lparr>copyOnWriteOwner := 0\<rparr>"

definition view :: "os_heap \<Rightarrow> address_space \<Rightarrow> uint64 \<Rightarrow> object_state option" where
  "view h AS a = map_option (\<lambda>r. contents (h ! r)) (binding AS a)"

definition owner :: "os_heap \<Rightarrow> os_ref \<Rightarrow> nat" where
  "owner h r = unat (copyOnWriteOwner (h ! r))"

definition key :: "address_space \<Rightarrow> nat" where
  "key AS = unat (cowKey AS)"

definition spaces_ok :: "nat \<Rightarrow> spaces \<Rightarrow> bool" where
  "spaces_ok n sys \<longleftrightarrow> (case sys of (SS, h) \<Rightarrow>
     (\<forall>AS \<in> set SS. objects_ok AS \<and> 0 < key AS \<and> key AS \<le> n)
   \<and> (\<forall>os \<in> set h. shape_ok os)
   \<and> (\<forall>i < length SS. \<forall>a r. binding (SS ! i) a = Some r \<longrightarrow>
        r < length h \<and> 0 < owner h r \<and> owner h r \<le> key (SS ! i))
   \<and> (\<forall>i < length SS. \<forall>j < length SS. \<forall>a b r.
        binding (SS ! i) a = Some r \<longrightarrow> binding (SS ! j) b = Some r \<longrightarrow>
          a = b \<and> (i \<noteq> j \<longrightarrow> owner h r < key (SS ! i))))"

lemma spaces_okI:
  assumes "\<And>AS. AS \<in> set SS \<Longrightarrow> objects_ok AS \<and> 0 < key AS \<and> key AS \<le> n"
    and "\<And>os. os \<in> set h \<Longrightarrow> shape_ok os"
    and "\<And>i a r. i < length SS \<Longrightarrow> binding (SS ! i) a = Some r \<Longrightarrow> r < length h \<and> 0 < owner h r \<and> owner h r \<le> key (SS ! i)"
    and "\<And>i j a b r. i < length SS \<Longrightarrow> j < length SS \<Longrightarrow> binding (SS ! i) a = Some r \<Longrightarrow>
      binding (SS ! j) b = Some r \<Longrightarrow> a = b \<and> (i \<noteq> j \<longrightarrow> owner h r < key (SS ! i))"
  shows "spaces_ok n (SS, h)"
  unfolding spaces_ok_def prod.case using assms by blast

lemma spaces_okD:
  assumes "spaces_ok n (SS, h)"
  shows "i < length SS \<Longrightarrow> objects_ok (SS ! i)" "i < length SS \<Longrightarrow> 0 < key (SS ! i)" "i < length SS \<Longrightarrow> key (SS ! i) \<le> n"
    "r < length h \<Longrightarrow> shape_ok (h ! r)"
    "i < length SS \<Longrightarrow> binding (SS ! i) a = Some r \<Longrightarrow> r < length h"
    "i < length SS \<Longrightarrow> binding (SS ! i) a = Some r \<Longrightarrow> 0 < owner h r"
    "i < length SS \<Longrightarrow> binding (SS ! i) a = Some r \<Longrightarrow> owner h r \<le> key (SS ! i)"
    "i < length SS \<Longrightarrow> j < length SS \<Longrightarrow> binding (SS ! i) a = Some r \<Longrightarrow> binding (SS ! j) b = Some r \<Longrightarrow> a = b"
    "i < length SS \<Longrightarrow> j < length SS \<Longrightarrow> binding (SS ! i) a = Some r \<Longrightarrow> binding (SS ! j) b = Some r \<Longrightarrow>
      i \<noteq> j \<Longrightarrow> owner h r < key (SS ! i)"
proof -
  note d = assms [unfolded spaces_ok_def prod.case]
  show "i < length SS \<Longrightarrow> objects_ok (SS ! i)" "i < length SS \<Longrightarrow> 0 < key (SS ! i)" "i < length SS \<Longrightarrow> key (SS ! i) \<le> n"
    "r < length h \<Longrightarrow> shape_ok (h ! r)" using d nth_mem by blast+
  show "i < length SS \<Longrightarrow> binding (SS ! i) a = Some r \<Longrightarrow> r < length h"
    "i < length SS \<Longrightarrow> binding (SS ! i) a = Some r \<Longrightarrow> 0 < owner h r"
    "i < length SS \<Longrightarrow> binding (SS ! i) a = Some r \<Longrightarrow> owner h r \<le> key (SS ! i)"
    "i < length SS \<Longrightarrow> j < length SS \<Longrightarrow> binding (SS ! i) a = Some r \<Longrightarrow> binding (SS ! j) b = Some r \<Longrightarrow> a = b"
    "i < length SS \<Longrightarrow> j < length SS \<Longrightarrow> binding (SS ! i) a = Some r \<Longrightarrow> binding (SS ! j) b = Some r \<Longrightarrow>
      i \<noteq> j \<Longrightarrow> owner h r < key (SS ! i)" using d by blast+
qed

text \<open>
  One space gets a binding of its own: to an object state that no other space binds, and that
  this space binds at no other address.
\<close>

definition owned_update :: "spaces \<Rightarrow> nat \<Rightarrow> uint64 \<Rightarrow> address_space \<Rightarrow> os_heap \<Rightarrow> os_ref \<Rightarrow> bool" where
  "owned_update sys i a AS' h' r \<longleftrightarrow> (case sys of (SS, h) \<Rightarrow>
     i < length SS \<and> objects_ok AS' \<and> cowKey AS' = cowKey (SS ! i) \<and> binding AS' = (binding (SS ! i))(a \<mapsto> r)
   \<and> length h \<le> length h' \<and> r < length h' \<and> owner h' r = key AS'
   \<and> (\<forall>q < length h. q \<noteq> r \<longrightarrow> h' ! q = h ! q) \<and> (\<forall>os \<in> set h'. shape_ok os)
   \<and> (\<forall>j < length SS. \<forall>b. binding (SS ! j) b = Some r \<longrightarrow> j = i \<and> b = a))"

lemma view_owned:
  assumes "spaces_ok n (SS, h)" "owned_update (SS, h) i a AS' h' r" "j < length SS"
  shows "view h' ((SS[i := AS']) ! j) =
     (if j = i then (view h (SS ! i))(a \<mapsto> contents (h' ! r)) else view h (SS ! j))"
proof (rule ext)
  fix b
  note u = assms(2) [unfolded owned_update_def prod.case]
  have keep: "h' ! q = h ! q" if "binding (SS ! j) b = Some q" "j \<noteq> i \<or> b \<noteq> a" for q
    using u that assms(3) spaces_okD(5) [OF assms(1,3) that(1)] by blast
  show "view h' ((SS[i := AS']) ! j) b =
     (if j = i then (view h (SS ! i))(a \<mapsto> contents (h' ! r)) else view h (SS ! j)) b"
  proof (cases "j = i \<and> b = a")
    case True
    then show ?thesis using u by (simp add: view_def)
  next
    case False
    then have "binding ((SS[i := AS']) ! j) b = binding (SS ! j) b" using u assms(3) by (auto simp: nth_list_update)
    then show ?thesis using keep False by (cases "binding (SS ! j) b") (auto simp: view_def)
  qed
qed

lemma spaces_ok_owned:
  assumes ok: "spaces_ok n (SS, h)" and up: "owned_update (SS, h) i a AS' h' r"
  shows "spaces_ok n (SS[i := AS'], h')"
proof -
  note u = up [unfolded owned_update_def prod.case]
  have i: "i < length SS" and AS': "objects_ok AS'" and owner: "owner h' r = key AS'"
    and r: "r < length h'" and len: "length h \<le> length h'" using u by blast+
  have key: "key AS' = key (SS ! i)"
  proof -
    have "cowKey AS' = cowKey (SS ! i)" using u by blast
    then show ?thesis by (simp add: key_def)
  qed
  have old: "owner h' q = owner h q" if "q < length h" "q \<noteq> r" for q
  proof -
    have "h' ! q = h ! q" using u that by blast
    then show ?thesis by (simp add: owner_def)
  qed
  have bind: "binding ((SS[i := AS']) ! j) b = (if j = i \<and> b = a then Some r else binding (SS ! j) b)" if "j < length SS" for j b
  proof -
    have "binding AS' = (binding (SS ! i))(a \<mapsto> r)" using u by blast
    then show ?thesis using that by (cases "j = i") simp_all
  qed
  have keys: "key ((SS[i := AS']) ! j) = key (SS ! j)" if "j < length SS" for j
    using key that by (cases "j = i") simp_all
  have other: "binding (SS ! j) b = Some r \<Longrightarrow> j = i \<and> b = a" if "j < length SS" for j b
    using u that by blast
  have new: "j = i \<and> b = a" if "j < length SS" "binding ((SS[i := AS']) ! j) b = Some r" for j b
  proof (rule ccontr)
    assume n: "\<not> (j = i \<and> b = a)"
    have "binding (SS ! j) b = Some r" using that(2) unfolding bind [OF that(1), of b] if_not_P [OF n] .
    then show False using other [OF that(1)] n by blast
  qed
  show ?thesis
  proof (rule spaces_okI)
    fix AS assume "AS \<in> set (SS[i := AS'])"
    then obtain j where j: "j < length SS" "AS = (SS[i := AS']) ! j" by (auto simp: in_set_conv_nth)
    then have j': "j < length SS" by simp
    show "objects_ok AS \<and> 0 < key AS \<and> key AS \<le> n"
      using spaces_okD(1-3) [OF ok j'] AS' key j by (cases "j = i") simp_all
  next
    fix os assume "os \<in> set h'" then show "shape_ok os" using u by blast
  next
    fix j b q assume j: "j < length (SS[i := AS'])" and b: "binding ((SS[i := AS']) ! j) b = Some q"
    show "q < length h' \<and> 0 < owner h' q \<and> owner h' q \<le> key ((SS[i := AS']) ! j)"
    proof (cases "q = r")
      case True
      have j': "j < length SS" using j by simp
      have "j = i" using b True new [OF j', of b] by blast
      then show ?thesis using True r owner key spaces_okD(2) [OF ok i] keys [OF i] by simp
    next
      case False
      have j': "j < length SS" using j by simp
      have s: "binding (SS ! j) b = Some q" using b False bind [OF j', of b] by (simp split: if_splits)
      have "q < length h" using spaces_okD(5) [OF ok j' s] .
      then show ?thesis using spaces_okD(6,7) [OF ok j' s] old [OF _ False] len keys [OF j'] by simp
    qed
  next
    fix j k b c q
    assume j: "j < length (SS[i := AS'])" and k: "k < length (SS[i := AS'])"
      and b: "binding ((SS[i := AS']) ! j) b = Some q" and c: "binding ((SS[i := AS']) ! k) c = Some q"
    have j': "j < length SS" and k': "k < length SS" using j k by simp_all
    show "b = c \<and> (j \<noteq> k \<longrightarrow> owner h' q < key ((SS[i := AS']) ! j))"
    proof (cases "q = r")
      case True
      have "j = i \<and> b = a" using True b new [OF j', of b] by blast
      moreover have "k = i \<and> c = a" using True c new [OF k', of c] by blast
      ultimately show ?thesis by simp
    next
      case False
      have s: "binding (SS ! j) b = Some q" "binding (SS ! k) c = Some q"
        using False b c bind [OF j', of b] bind [OF k', of c] by (simp_all split: if_splits)
      have "q < length h" using spaces_okD(5) [OF ok j' s(1)] .
      then show ?thesis using spaces_okD(8,9) [OF ok j' k' s] old [OF _ False] keys [OF j'] by simp
    qed
  qed
qed

subsection \<open>The operations\<close>

lemma shape_contents [simp]: "shape_ok (os\<lparr>copyOnWriteOwner := k\<rparr>) = shape_ok os"
  by (simp add: shape_ok_def)

lemma contents_owner [simp]: "contents (os\<lparr>copyOnWriteOwner := k\<rparr>) = contents os" "contents (contents os) = contents os"
  by (simp_all add: contents_def)

lemma copy_shape:
  assumes "shape_ok s" "\<not> readOnly s"
  shows "ObjectState_copy s = Some (contents s)"
  using assms by (auto simp: ObjectState_copy_def contents_def shape_ok_def BitArray_copy_def split: option.splits)

text \<open>An object state that has been constructed is bound.\<close>

lemma bind_owned:
  assumes ok: "spaces_ok n (SS, h)" and i: "i < length SS" and os: "shape_ok os" "copyOnWriteOwner os = 0"
  shows "\<exists>AS' h'. bindObject mo (length h) (SS ! i, h @ [os]) = Some (AS', h')
    \<and> owned_update (SS, h) i (mo_address mo) AS' h' (length h) \<and> contents (h' ! length h) = contents os"
proof -
  let ?AS = "SS ! i"
  let ?h = "h @ [os\<lparr>copyOnWriteOwner := cowKey ?AS\<rparr>]"
  let ?AS' = "?AS\<lparr>objects := ImmutableMap_replace MemoryObjectLT (objects ?AS) (mo, length h)\<rparr>"
  note b = binding_replace [OF spaces_okD(1) [OF ok i], of mo "length h"]
  have "bindObject mo (length h) (?AS, h @ [os]) = Some (?AS', ?h)"
    using os by (simp add: bindObject_def nth_opt_def set_opt_def)
  moreover have "owned_update (SS, h) i (mo_address mo) ?AS' ?h (length h)"
    unfolding owned_update_def prod.case
  proof (intro conjI allI impI ballI)
    fix j a assume "j < length SS" "binding (SS ! j) a = Some (length h)"
    then have False using spaces_okD(5) [OF ok] by blast
    then show "j = i" "a = mo_address mo" by simp_all
  next
    fix s assume "s \<in> set ?h"
    then consider "s = os\<lparr>copyOnWriteOwner := cowKey ?AS\<rparr>" | q where "q < length h" "s = h ! q" by (auto simp: in_set_conv_nth)
    then show "shape_ok s" by cases (use os spaces_okD(4) [OF ok] in auto)
  qed (use b i in \<open>simp_all add: owner_def key_def nth_append\<close>)
  ultimately show ?thesis by (intro exI [of _ ?AS'] exI [of _ ?h]) simp
qed

text \<open>
  A bound object state that is not read only is made writeable: what is then stored in it, with
  the owner kept, is seen by this space only.
\<close>

lemma writeable_owned:
  assumes ok: "spaces_ok n (SS, h)" and i: "i < length SS"
    and r: "binding (SS ! i) (mo_address mo) = Some r" "\<not> readOnly (h ! r)"
  shows "\<exists>q AS' h'. getWriteable mo r (SS ! i, h) = Some (q, AS', h')
    \<and> q < length h' \<and> contents (h' ! q) = contents (h ! r)
    \<and> (\<forall>os. shape_ok os \<longrightarrow> owned_update (SS, h) i (mo_address mo) AS' (h'[q := os\<lparr>copyOnWriteOwner := copyOnWriteOwner (h' ! q)\<rparr>]) q)"
proof -
  let ?AS = "SS ! i"
  note rh = spaces_okD(5) [OF ok i r(1)]
  show ?thesis
  proof (cases "cowKey ?AS = copyOnWriteOwner (h ! r)")
    case True
    have g: "getWriteable mo r (?AS, h) = Some (r, ?AS, h)"
      using True r rh by (simp add: getWriteable_def nth_opt_def)
    have "owned_update (SS, h) i (mo_address mo) ?AS (h[r := os\<lparr>copyOnWriteOwner := copyOnWriteOwner (h ! r)\<rparr>]) r"
      if os: "shape_ok os" for os
      unfolding owned_update_def prod.case
    proof (intro conjI allI impI ballI)
      show "binding ?AS = (binding ?AS)(mo_address mo \<mapsto> r)" using r(1) by auto
      fix j a assume j: "j < length SS" "binding (SS ! j) a = Some r"
      show "j = i"
      proof (rule ccontr)
        assume "j \<noteq> i"
        then have "owner h r < key ?AS" using spaces_okD(9) [OF ok i j(1) r(1) j(2)] by simp
        then show False using True by (simp add: owner_def key_def)
      qed
      show "a = mo_address mo" using spaces_okD(8) [OF ok i j(1) r(1) j(2)] by simp
    next
      fix s assume "s \<in> set (h[r := os\<lparr>copyOnWriteOwner := copyOnWriteOwner (h ! r)\<rparr>])"
      then obtain q where "q < length h" "s = h[r := os\<lparr>copyOnWriteOwner := copyOnWriteOwner (h ! r)\<rparr>] ! q"
        by (auto simp: in_set_conv_nth)
      then show "shape_ok s" using os spaces_okD(4) [OF ok] by (cases "q = r") simp_all
    qed (use i rh True spaces_okD(1) [OF ok i] in \<open>simp_all add: owner_def key_def\<close>)
    then show ?thesis using g rh by blast
  next
    case False
    let ?n = "(contents (h ! r))\<lparr>copyOnWriteOwner := cowKey ?AS\<rparr>"
    let ?AS' = "?AS\<lparr>objects := ImmutableMap_replace MemoryObjectLT (objects ?AS) (mo, length h)\<rparr>"
    note b = binding_replace [OF spaces_okD(1) [OF ok i], of mo "length h"]
    have g: "getWriteable mo r (?AS, h) = Some (length h, ?AS', h @ [?n])"
      using False r rh copy_shape [OF spaces_okD(4) [OF ok rh]] by (simp add: getWriteable_def nth_opt_def Let_def)
    have "owned_update (SS, h) i (mo_address mo) ?AS'
        ((h @ [?n])[length h := os\<lparr>copyOnWriteOwner := copyOnWriteOwner ((h @ [?n]) ! length h)\<rparr>]) (length h)"
      if os: "shape_ok os" for os
      unfolding owned_update_def prod.case
    proof (intro conjI allI impI ballI)
      fix j a assume "j < length SS" "binding (SS ! j) a = Some (length h)"
      then have False using spaces_okD(5) [OF ok] by blast
      then show "j = i" "a = mo_address mo" by simp_all
    next
      fix s assume "s \<in> set ((h @ [?n])[length h := os\<lparr>copyOnWriteOwner := copyOnWriteOwner ((h @ [?n]) ! length h)\<rparr>])"
      then consider "s = os\<lparr>copyOnWriteOwner := cowKey ?AS\<rparr>" | q where "q < length h" "s = h ! q"
        by (auto simp: in_set_conv_nth)
      then show "shape_ok s" by cases (use os spaces_okD(4) [OF ok] in auto)
    qed (use b i in \<open>simp_all add: owner_def key_def nth_append\<close>)
    then show ?thesis using g by (intro exI [of _ "length h"] exI [of _ ?AS'] exI [of _ "h @ [?n]"]) simp
  qed
qed

subsection \<open>Histories\<close>

text \<open>
  What the executor does with address spaces: start one, copy it with its state, bind an object
  state that was just constructed, unbind an object, and store other contents in an object that
  is bound, through \<open>getWriteable\<close>.
\<close>

datatype space_action =
    NewSpace
  | CopySpace nat
  | BindObject nat memory_object object_state
  | UnbindObject nat memory_object
  | WriteObject nat memory_object object_state

fun run_action :: "spaces \<Rightarrow> space_action \<Rightarrow> spaces option" where
  "run_action (SS, h) NewSpace = Some (SS @ [AddressSpace_new], h)"
| "run_action (SS, h) (CopySpace i) = do {
     AS \<leftarrow> nth_opt SS i;
     (case AddressSpace_copy AS of (AS', copy) \<Rightarrow> Some (SS[i := AS'] @ [copy], h)) }"
| "run_action (SS, h) (BindObject i mo os) = do {
     AS \<leftarrow> nth_opt SS i;
     (AS', h) \<leftarrow> bindObject mo (length h) (AS, h @ [os]);
     Some (SS[i := AS'], h) }"
| "run_action (SS, h) (UnbindObject i mo) = do {
     AS \<leftarrow> nth_opt SS i;
     AS' \<leftarrow> unbindObject mo AS;
     Some (SS[i := AS'], h) }"
| "run_action (SS, h) (WriteObject i mo os) = do {
     AS \<leftarrow> nth_opt SS i;
     r \<leftarrow> findObject AS mo;
     (q, AS', h) \<leftarrow> getWriteable mo r (AS, h);
     old \<leftarrow> nth_opt h q;
     h \<leftarrow> set_opt h q (os\<lparr>copyOnWriteOwner := copyOnWriteOwner old\<rparr>);
     Some (SS[i := AS'], h) }"

text \<open>The abstract system.\<close>

type_synonym memory_view = "uint64 \<Rightarrow> object_state option"

fun spec_action :: "memory_view list \<Rightarrow> space_action \<Rightarrow> memory_view list option" where
  "spec_action vs NewSpace = Some (vs @ [\<lambda>_. None])"
| "spec_action vs (CopySpace i) = do { v \<leftarrow> nth_opt vs i; Some (vs @ [v]) }"
| "spec_action vs (BindObject i mo os) = do {
     v \<leftarrow> nth_opt vs i;
     Some (vs[i := v(mo_address mo \<mapsto> contents os)]) }"
| "spec_action vs (UnbindObject i mo) = do {
     v \<leftarrow> nth_opt vs i;
     Some (vs[i := v(mo_address mo := None)]) }"
| "spec_action vs (WriteObject i mo os) = do {
     v \<leftarrow> nth_opt vs i;
     old \<leftarrow> v (mo_address mo);
     check (\<not> readOnly old) (Some (vs[i := v(mo_address mo \<mapsto> contents os)])) }"

fun run_actions :: "spaces \<Rightarrow> space_action list \<Rightarrow> spaces option" where
  "run_actions sys [] = Some sys"
| "run_actions sys (a # as) = do { sys \<leftarrow> run_action sys a; run_actions sys as }"

fun spec_actions :: "memory_view list \<Rightarrow> space_action list \<Rightarrow> memory_view list option" where
  "spec_actions vs [] = Some vs"
| "spec_actions vs (a # as) = do { vs \<leftarrow> spec_action vs a; spec_actions vs as }"

fun action_ok :: "space_action \<Rightarrow> bool" where
  "action_ok (BindObject i mo os) \<longleftrightarrow> shape_ok os \<and> copyOnWriteOwner os = 0"
| "action_ok (WriteObject i mo os) \<longleftrightarrow> shape_ok os"
| "action_ok _ \<longleftrightarrow> True"

definition views :: "spaces \<Rightarrow> memory_view list" where
  "views sys = (case sys of (SS, h) \<Rightarrow> map (view h) SS)"

lemma views_simps [simp]: "length (views (SS, h)) = length SS" "nth_opt (views (SS, h)) i = map_option (view h) (nth_opt SS i)"
  "i < length SS \<Longrightarrow> views (SS, h) ! i = view h (SS ! i)"
  by (simp_all add: views_def nth_opt_def)

definition refines_step :: "nat \<Rightarrow> spaces option \<Rightarrow> memory_view list option \<Rightarrow> bool" where
  "refines_step n r v \<longleftrightarrow>
     (case v of None \<Rightarrow> r = None | Some vs \<Rightarrow> \<exists>sys. r = Some sys \<and> spaces_ok n sys \<and> views sys = vs)"

lemma spaces_ok_mono: "spaces_ok n sys \<Longrightarrow> n \<le> m \<Longrightarrow> spaces_ok m sys"
  unfolding spaces_ok_def by (auto split: prod.splits)

lemma refines_owned:
  assumes "spaces_ok n (SS, h)" "owned_update (SS, h) i a AS' h' r"
  shows "refines_step (Suc n) (Some (SS[i := AS'], h')) (Some ((views (SS, h))[i := (view h (SS ! i))(a \<mapsto> contents (h' ! r))]))"
proof -
  have "views (SS[i := AS'], h') = (views (SS, h))[i := (view h (SS ! i))(a \<mapsto> contents (h' ! r))]"
  proof (rule nth_equalityI)
    fix j assume "j < length (views (SS[i := AS'], h'))"
    then have j: "j < length SS" by simp
    show "views (SS[i := AS'], h') ! j = (views (SS, h))[i := (view h (SS ! i))(a \<mapsto> contents (h' ! r))] ! j"
      using view_owned [OF assms j] j by (simp add: views_def)
  qed simp
  moreover have "spaces_ok (Suc n) (SS[i := AS'], h')" by (rule spaces_ok_mono [OF spaces_ok_owned [OF assms]]) simp
  ultimately show ?thesis by (simp add: refines_step_def)
qed

text \<open>A list of spaces whose bindings come from earlier ones, with keys that moved on.\<close>

lemma spaces_ok_derived:
  assumes ok: "spaces_ok n (SS, h)" and n: "n \<le> m"
    and src: "\<And>j. j < length TT \<Longrightarrow> objects_ok (TT ! j) \<and> 0 < key (TT ! j) \<and> key (TT ! j) \<le> m"
    and bind: "\<And>j a r. j < length TT \<Longrightarrow> binding (TT ! j) a = Some r \<Longrightarrow>
      src j < length SS \<and> binding (SS ! src j) a = Some r \<and> key (SS ! src j) \<le> key (TT ! j)"
    and twice: "\<And>j k. j < length TT \<Longrightarrow> k < length TT \<Longrightarrow> j \<noteq> k \<Longrightarrow> src j = src k \<Longrightarrow> key (SS ! src j) < key (TT ! j)"
  shows "spaces_ok m (TT, h)"
proof (rule spaces_okI)
  fix AS assume "AS \<in> set TT"
  then show "objects_ok AS \<and> 0 < key AS \<and> key AS \<le> m" using src by (auto simp: in_set_conv_nth)
next
  fix os assume "os \<in> set h" then show "shape_ok os" using spaces_okD(4) [OF ok] by (auto simp: in_set_conv_nth)
next
  fix j a r assume "j < length TT" "binding (TT ! j) a = Some r"
  from bind [OF this] show "r < length h \<and> 0 < owner h r \<and> owner h r \<le> key (TT ! j)"
    using spaces_okD(5-7) [OF ok, of "src j" a r] by auto
next
  fix j k a b r assume j: "j < length TT" "binding (TT ! j) a = Some r" and k: "k < length TT" "binding (TT ! k) b = Some r"
  note bj = bind [OF j] and bk = bind [OF k]
  have "a = b" using bj bk spaces_okD(8) [OF ok] by blast
  moreover have "owner h r < key (TT ! j)" if "j \<noteq> k"
  proof (cases "src j = src k")
    case True
    then show ?thesis using twice [OF j(1) k(1) that] bj spaces_okD(7) [OF ok, of "src j" a r] by simp
  next
    case False
    then have "owner h r < key (SS ! src j)" using bj bk spaces_okD(9) [OF ok] by blast
    then show ?thesis using bj by simp
  qed
  ultimately show "a = b \<and> (j \<noteq> k \<longrightarrow> owner h r < key (TT ! j))" by simp
qed

lemma new_space [simp]: "objects_ok AddressSpace_new" "binding AddressSpace_new a = None" "key AddressSpace_new = 1"
  by (simp_all add: AddressSpace_new_def ImmutableMap_new_def tree_ok_def key_sorted_def binding_def findObject_def
      ImmutableMap_lookup_def key_def)

lemma new_space_ok:
  assumes "spaces_ok n (SS, h)" "0 < n"
  shows "refines_step (Suc n) (run_action (SS, h) NewSpace) (spec_action (views (SS, h)) NewSpace)"
proof -
  have "spaces_ok (Suc n) (SS @ [AddressSpace_new], h)"
  proof (rule spaces_ok_derived [OF assms(1), where src = id])
    fix j assume "j < length (SS @ [AddressSpace_new])"
    then consider "j < length SS" | "j = length SS" by fastforce
    then show "objects_ok ((SS @ [AddressSpace_new]) ! j) \<and> 0 < key ((SS @ [AddressSpace_new]) ! j)
        \<and> key ((SS @ [AddressSpace_new]) ! j) \<le> Suc n"
      by cases (use spaces_okD(1-3) [OF assms(1), of j] in \<open>auto simp: nth_append\<close>)
  next
    fix j a r assume "j < length (SS @ [AddressSpace_new])" "binding ((SS @ [AddressSpace_new]) ! j) a = Some r"
    then show "id j < length SS \<and> binding (SS ! id j) a = Some r \<and> key (SS ! id j) \<le> key ((SS @ [AddressSpace_new]) ! j)"
      by (simp add: nth_append split: if_splits)
  qed simp_all
  moreover have "view h AddressSpace_new = (\<lambda>_. None)" by (rule ext) (simp add: view_def)
  ultimately show ?thesis by (simp add: refines_step_def views_def)
qed

lemma copy_space_ok:
  assumes ok: "spaces_ok n (SS, h)" and n: "Suc n < 2 ^ 32"
  shows "refines_step (Suc n) (run_action (SS, h) (CopySpace i)) (spec_action (views (SS, h)) (CopySpace i))"
proof (cases "i < length SS")
  case i: True
  let ?AS = "(SS ! i)\<lparr>cowKey := cowKey (SS ! i) + 1\<rparr>"
  let ?TT = "SS[i := ?AS] @ [?AS]"
  let ?src = "\<lambda>j. if j = length SS then i else j"
  have copy: "AddressSpace_copy (SS ! i) = (?AS, ?AS)" by (cases "SS ! i") (simp add: AddressSpace_copy_def Let_def)
  have "unat (cowKey (SS ! i)) + 1 < 2 ^ 32" using spaces_okD(3) [OF ok i] n by (simp add: key_def)
  then have key: "key ?AS = Suc (key (SS ! i))" by (simp add: key_def unat_word_ariths(1))
  have bnd: "binding ?AS = binding (SS ! i)" by (rule ext) (simp add: binding_def findObject_def)
  have nth: "?TT ! j = (if j = i \<or> j = length SS then ?AS else SS ! j)" if "j < length ?TT" for j
    using that by (auto simp: nth_append nth_list_update)
  have "spaces_ok (Suc n) (?TT, h)"
  proof (rule spaces_ok_derived [OF ok, where src = ?src])
    fix j assume j: "j < length ?TT"
    then have "j < length SS \<or> j = length SS" by auto
    then show "objects_ok (?TT ! j) \<and> 0 < key (?TT ! j) \<and> key (?TT ! j) \<le> Suc n"
      unfolding nth [OF j] using key spaces_okD(1-3) [OF ok, of j] spaces_okD(1-3) [OF ok i] by auto
  next
    fix j a r assume j: "j < length ?TT" and b: "binding (?TT ! j) a = Some r"
    show "?src j < length SS \<and> binding (SS ! ?src j) a = Some r \<and> key (SS ! ?src j) \<le> key (?TT ! j)"
      using b j i unfolding nth [OF j] by (cases "j = i"; cases "j = length SS") (simp_all add: bnd key)
  next
    fix j k assume j: "j < length ?TT" and "k < length ?TT" "j \<noteq> k" "?src j = ?src k"
    then have "?src j = i" "j = i \<or> j = length SS" using i by (auto split: if_splits)
    then show "key (SS ! ?src j) < key (?TT ! j)" unfolding nth [OF j] by (simp add: key)
  qed simp
  moreover have "views (?TT, h) = views (SS, h) @ [view h (SS ! i)]"
  proof -
    have "view h ?AS = view h (SS ! i)" by (rule ext) (simp add: view_def bnd)
    then show ?thesis using i by (simp add: views_def map_update list_update_same_conv)
  qed
  ultimately show ?thesis using i copy by (simp add: refines_step_def nth_opt_def)
qed (simp add: refines_step_def nth_opt_def)

lemma unbind_space_ok:
  assumes ok: "spaces_ok n (SS, h)"
  shows "refines_step (Suc n) (run_action (SS, h) (UnbindObject i mo)) (spec_action (views (SS, h)) (UnbindObject i mo))"
proof (cases "i < length SS")
  case i: True
  obtain AS' where AS': "unbindObject mo (SS ! i) = Some AS'" "objects_ok AS'" "cowKey AS' = cowKey (SS ! i)"
      "binding AS' = (binding (SS ! i))(mo_address mo := None)"
    using unbindObject_ok [OF spaces_okD(1) [OF ok i]] by blast
  have key: "key AS' = key (SS ! i)" using AS' by (simp add: key_def)
  have "spaces_ok (Suc n) (SS[i := AS'], h)"
  proof (rule spaces_ok_derived [OF ok, where src = id])
    fix j assume "j < length (SS[i := AS'])"
    then have j: "j < length SS" by simp
    show "objects_ok (SS[i := AS'] ! j) \<and> 0 < key (SS[i := AS'] ! j) \<and> key (SS[i := AS'] ! j) \<le> Suc n"
      using spaces_okD(1-3) [OF ok j] AS'(2) key j by (cases "j = i") simp_all
  next
    fix j a r assume "j < length (SS[i := AS'])" and b: "binding (SS[i := AS'] ! j) a = Some r"
    then have j: "j < length SS" by simp
    show "id j < length SS \<and> binding (SS ! id j) a = Some r \<and> key (SS ! id j) \<le> key (SS[i := AS'] ! j)"
      using b j key by (cases "j = i") (simp_all add: AS'(4) split: if_splits)
  qed simp_all
  moreover have "views (SS[i := AS'], h) = (views (SS, h))[i := (view h (SS ! i))(mo_address mo := None)]"
  proof -
    have "view h AS' = (view h (SS ! i))(mo_address mo := None)" by (rule ext) (simp add: view_def AS'(4))
    then show ?thesis by (simp add: views_def map_update)
  qed
  ultimately show ?thesis using i AS'(1) by (simp add: refines_step_def nth_opt_def)
qed (simp add: refines_step_def nth_opt_def)

lemma bind_space_ok:
  assumes ok: "spaces_ok n (SS, h)" and os: "shape_ok os" "copyOnWriteOwner os = 0"
  shows "refines_step (Suc n) (run_action (SS, h) (BindObject i mo os)) (spec_action (views (SS, h)) (BindObject i mo os))"
proof (cases "i < length SS")
  case i: True
  obtain AS' h' where b: "bindObject mo (length h) (SS ! i, h @ [os]) = Some (AS', h')"
      "owned_update (SS, h) i (mo_address mo) AS' h' (length h)" "contents (h' ! length h) = contents os"
    using bind_owned [OF ok i os] by blast
  show ?thesis using refines_owned [OF ok b(2)] b(1,3) i by (simp add: nth_opt_def)
qed (simp add: refines_step_def nth_opt_def)

lemma write_space_ok:
  assumes ok: "spaces_ok n (SS, h)" and os: "shape_ok os"
  shows "refines_step (Suc n) (run_action (SS, h) (WriteObject i mo os)) (spec_action (views (SS, h)) (WriteObject i mo os))"
proof (cases "i < length SS")
  case i: True
  note find = findObject_binding [OF spaces_okD(1) [OF ok i], of mo]
  show ?thesis
  proof (cases "binding (SS ! i) (mo_address mo)")
    case None
    then show ?thesis using i find by (simp add: refines_step_def nth_opt_def view_def)
  next
    case (Some r)
    note rh = spaces_okD(5) [OF ok i Some]
    show ?thesis
    proof (cases "readOnly (h ! r)")
      case True
      then show ?thesis using i find Some rh
        by (simp add: refines_step_def nth_opt_def view_def getWriteable_def contents_def)
    next
      case False
      obtain q AS' h' where w: "getWriteable mo r (SS ! i, h) = Some (q, AS', h')" "q < length h'"
          "owned_update (SS, h) i (mo_address mo) AS' (h'[q := os\<lparr>copyOnWriteOwner := copyOnWriteOwner (h' ! q)\<rparr>]) q"
        using writeable_owned [OF ok i Some False] os by blast
      show ?thesis using refines_owned [OF ok w(3)] w(1,2) i find Some False
        by (simp add: nth_opt_def set_opt_def view_def contents_def [of "h ! r"])
    qed
  qed
qed (simp add: refines_step_def nth_opt_def)

lemma run_action_ok:
  assumes "spaces_ok n sys" "0 < n" "Suc n < 2 ^ 32" "action_ok a"
  shows "refines_step (Suc n) (run_action sys a) (spec_action (views sys) a)"
  using assms by (cases sys; cases a)
    (simp_all only: action_ok.simps new_space_ok copy_space_ok bind_space_ok unbind_space_ok write_space_ok)

lemma run_actions_ok:
  "spaces_ok n sys \<Longrightarrow> 0 < n \<Longrightarrow> n + length as < 2 ^ 32 \<Longrightarrow> \<forall>a \<in> set as. action_ok a \<Longrightarrow>
     refines_step (n + length as) (run_actions sys as) (spec_actions (views sys) as)"
proof (induction as arbitrary: n sys)
  case (Cons a as)
  have "Suc n < 2 ^ 32" using Cons.prems(3) by simp
  note step = run_action_ok [OF Cons.prems(1,2) this, of a]
  show ?case
  proof (cases "spec_action (views sys) a")
    case None
    then show ?thesis using step Cons.prems(4) by (simp add: refines_step_def)
  next
    case (Some vs)
    then obtain sys' where s: "run_action sys a = Some sys'" "spaces_ok (Suc n) sys'" "views sys' = vs"
      using step Cons.prems(4) by (auto simp: refines_step_def)
    have "refines_step (Suc n + length as) (run_actions sys' as) (spec_actions (views sys') as)"
      by (rule Cons.IH [OF s(2)]) (use Cons.prems(3,4) in auto)
    then show ?thesis using Some s by simp
  qed
qed (simp add: refines_step_def)

end
