(* ===== verification/AddressSpaceResolve.thy ===== *)
theory AddressSpaceResolve
  imports AddressSpaceSound
begin

text \<open>
  Resolution of an address to objects: for objects that do not overlap, the object found for a
  constant address is the one that contains it, and the loops around the position of an example
  visit every object the address may be in before they stop.
\<close>

subsection \<open>Objects in an address space\<close>

text \<open>An address is in an object; an object of no bytes has its base address only.\<close>

definition contains :: "memory_object \<Rightarrow> int \<Rightarrow> bool" where
  "contains mo v \<longleftrightarrow>
     (if mo_size mo = 0 then v = uint (mo_address mo)
      else uint (mo_address mo) \<le> v \<and> v < uint (mo_address mo) + uint (mo_size mo))"

definition entries :: "address_space \<Rightarrow> object_pair list" where
  "entries AS = inorder (objects AS)"

text \<open>Objects lie within the address space of the pointers, and do not overlap.\<close>

definition fits :: "mem_env \<Rightarrow> memory_object \<Rightarrow> bool" where
  "fits E mo \<longleftrightarrow> uint (mo_address mo) < 2 ^ pointerWidth E \<and> uint (mo_address mo) + uint (mo_size mo) \<le> 2 ^ pointerWidth E"

definition apart :: "object_pair \<Rightarrow> object_pair \<Rightarrow> bool" where
  "apart x y \<longleftrightarrow> uint (mo_address (fst x)) + uint (mo_size (fst x)) \<le> uint (mo_address (fst y))"

definition separated :: "mem_env \<Rightarrow> address_space \<Rightarrow> bool" where
  "separated E AS \<longleftrightarrow> objects_ok AS \<and> sorted_wrt apart (entries AS) \<and> (\<forall>x \<in> set (entries AS). fits E (fst x))"

lemma contains_bounds:
  "contains mo v \<Longrightarrow> uint (mo_address mo) \<le> v \<and> v \<le> uint (mo_address mo) + uint (mo_size mo)"
  by (auto simp: contains_def split: if_splits)

lemma contains_above:
  "contains mo v \<Longrightarrow> uint (mo_address mo) + uint (mo_size mo) \<le> a \<Longrightarrow> uint (mo_address mo) < a \<Longrightarrow> v < a"
  by (auto simp: contains_def split: if_splits)

lemma separated_order:
  assumes "separated E AS" "entries AS = xs @ x # ys"
  shows "y \<in> set ys \<Longrightarrow> uint (mo_address (fst x)) < uint (mo_address (fst y))"
    "y \<in> set ys \<Longrightarrow> apart x y" "y \<in> set xs \<Longrightarrow> uint (mo_address (fst y)) < uint (mo_address (fst x))"
    "y \<in> set xs \<Longrightarrow> apart y x" "fits E (fst x)"
  using assms by (auto simp: separated_def tree_ok_def entries_def [symmetric] MemoryObjectLT_def Select1st_def word_less_def
      sorted_wrt_append key_sorted_def)

lemma contains_once:
  assumes s: "separated E AS" and x: "x \<in> set (entries AS)" "contains (fst x) v"
    and y: "y \<in> set (entries AS)" "contains (fst y) v"
  shows "x = y"
proof (rule ccontr)
  assume ne: "x \<noteq> y"
  obtain xs ys where e: "entries AS = xs @ x # ys" using x(1) by (auto dest: split_list)
  note o = separated_order(1-4) [OF s e]
  have "y \<in> set xs \<or> y \<in> set ys" using y(1) e ne by auto
  then show False
  proof
    assume "y \<in> set xs"
    then have "v < uint (mo_address (fst x))" using contains_above [OF y(2) _ o(3)] o(4) by (simp add: apart_def)
    then show False using contains_bounds [OF x(2)] by simp
  next
    assume "y \<in> set ys"
    then have "v < uint (mo_address (fst y))" using contains_above [OF x(2) _ o(1)] o(2) by (simp add: apart_def)
    then show False using contains_bounds [OF y(2)] by simp
  qed
qed

subsection \<open>A constant address\<close>

lemma not_above_hack:
  "not_above MemoryObjectLT Select1st (MemoryObject_hack a) xs = [x \<leftarrow> xs. mo_address (fst x) \<le> a]"
  by (simp add: not_above_def MemoryObjectLT_def Select1st_def not_less)

lemma lookup_previous_hack:
  assumes "objects_ok AS"
  shows "ImmutableMap_lookup_previous MemoryObjectLT (objects AS) (MemoryObject_hack a)
    = last_opt [x \<leftarrow> entries AS. mo_address (fst x) \<le> a]"
proof -
  have "key_sorted MemoryObjectLT Select1st (inorder (objects AS))" using assms by (simp add: tree_ok_def)
  from mo_order.lookup_previous_loop_ok [OF this, where res = None and k = "MemoryObject_hack a"] show ?thesis
    by (simp add: ImmutableMap_lookup_previous_def ImmutableTree_lookup_previous_def not_above_hack entries_def
        split: option.splits)
qed

text \<open>The check of \<open>resolveOne\<close>, whose subtraction does not wrap for an object at or below the address.\<close>

lemma range_check:
  fixes a :: uint64
  assumes "mo_address mo \<le> a"
  shows "a - mo_address mo < ucast (mo_size mo) \<longleftrightarrow> uint a < uint (mo_address mo) + uint (mo_size mo)"
    "mo_size mo = 0 \<and> a = mo_address mo \<or> a - mo_address mo < ucast (mo_size mo) \<longleftrightarrow> contains mo (uint a)"
proof -
  have d: "uint (a - mo_address mo) = uint a - uint (mo_address mo)"
    using assms by (simp add: uint_sub_lem [THEN iffD1] word_le_def)
  have u: "uint (ucast (mo_size mo) :: uint64) = uint (mo_size mo)"
    using unsigned_less [of "mo_size mo", where 'a = int] by (simp add: unsigned_ucast_eq take_bit_int_eq_self)
  show lt: "a - mo_address mo < ucast (mo_size mo) \<longleftrightarrow> uint a < uint (mo_address mo) + uint (mo_size mo)"
    unfolding word_less_def d u by linarith
  have "uint (mo_address mo) \<le> uint a" using assms by (simp add: word_le_def)
  then show "mo_size mo = 0 \<and> a = mo_address mo \<or> a - mo_address mo < ucast (mo_size mo) \<longleftrightarrow> contains mo (uint a)"
    unfolding lt contains_def by (auto simp: word_uint_eq_iff)
qed

text \<open>The object before the address is the only one that can contain it.\<close>

lemma previous_contains:
  assumes s: "separated E AS" and x: "x \<in> set (entries AS)" "contains (fst x) (uint a)"
  shows "last_opt [x \<leftarrow> entries AS. mo_address (fst x) \<le> a] = Some x"
proof -
  obtain xs ys where e: "entries AS = xs @ x # ys" using x(1) by (auto dest: split_list)
  have "mo_address (fst x) \<le> a" using contains_bounds [OF x(2)] by (simp add: word_le_def)
  moreover have "[y \<leftarrow> ys. mo_address (fst y) \<le> a] = []"
  proof -
    have "\<not> mo_address (fst y) \<le> a" if "y \<in> set ys" for y
      using contains_above [OF x(2) _ separated_order(1) [OF s e that]] separated_order(2) [OF s e that]
      by (simp add: apart_def word_le_def)
    then show ?thesis by (auto simp: filter_empty_conv)
  qed
  ultimately show ?thesis by (simp add: e last_opt_def)
qed

lemma last_opt_member: "last_opt xs = Some x \<Longrightarrow> x \<in> set xs"
  by (auto simp: last_opt_def split: if_splits)

lemma resolve_constant:
  assumes s: "separated E AS" and a: "getZExtValue A c 64 = Some a"
  shows "\<exists>res. resolveOne_const A AS c = Some res
    \<and> (\<forall>x. res = Some x \<longleftrightarrow> x \<in> set (entries AS) \<and> contains (fst x) (uint a))"
proof -
  have ok: "objects_ok AS" using s by (simp add: separated_def)
  note l = lookup_previous_hack [OF ok, of a]
  show ?thesis
  proof (cases "last_opt [x \<leftarrow> entries AS. mo_address (fst x) \<le> a]")
    case None
    then have "\<not> (x \<in> set (entries AS) \<and> contains (fst x) (uint a))" for x
      using previous_contains [OF s, of x a] by (metis option.distinct(1))
    moreover have "resolveOne_const A AS c = Some None" using a l None by (simp add: resolveOne_const_def)
    ultimately show ?thesis by blast
  next
    case (Some y)
    then have y: "y \<in> set (entries AS)" "mo_address (fst y) \<le> a" using last_opt_member by fastforce+
    have other: "x = y" if "x \<in> set (entries AS)" "contains (fst x) (uint a)" for x
      using previous_contains [OF s that] Some by simp
    have "resolveOne_const A AS c = Some (if contains (fst y) (uint a) then Some y else None)"
      using a l Some range_check(2) [OF y(2)] by (cases y) (simp add: resolveOne_const_def)
    moreover have "(if contains (fst y) (uint a) then Some y else None) = Some x \<longleftrightarrow>
        x \<in> set (entries AS) \<and> contains (fst x) (uint a)" for x
      using y(1) other [of x] by (cases "x = y") (simp, metis option.distinct(1) option.inject)
    ultimately show ?thesis by blast
  qed
qed

subsection \<open>The conditions that are asked of the solver\<close>

text \<open>A condition that is true under an assignment exactly if \<open>P\<close> holds of it.\<close>

definition decides :: "(nat \<Rightarrow> array) \<Rightarrow> expr option \<Rightarrow> (assignment \<Rightarrow> bool) \<Rightarrow> bool" where
  "decides H x P \<longleftrightarrow> (\<exists>e. x = Some e \<and> wt H e \<and> getWidth e = 1 \<and> (\<forall>\<rho>. ap_value (sem \<rho> e) \<noteq> 0 \<longleftrightarrow> P \<rho>))"

lemma decides_denotes:
  assumes "\<And>\<rho>. denotes H \<rho> x (bv_bool (P \<rho>))"
  shows "decides H x P"
proof -
  obtain e where e: "x = Some e" "wt H e" using assms unfolding denotes_def by blast
  have v: "sem \<rho> e = bv_bool (P \<rho>)" for \<rho> using assms [of \<rho>] e by simp
  have "getWidth e = 1" using wt_sem_width [OF e(2)] v by (metis bv_bool_sel(1))
  moreover have "ap_value (sem \<rho> e) \<noteq> 0 \<longleftrightarrow> P \<rho>" for \<rho> by (simp add: v)
  ultimately show ?thesis using e by (auto simp: decides_def)
qed

context mem_model
begin

lemma base_pointer:
  assumes "pointerWidth E \<in> {32, 64}" "fits E mo"
  shows "getBaseExpr E mo = Some (APInt (pointerWidth E) (uint (mo_address mo)))"
    "ap_ok (APInt (pointerWidth E) (uint (mo_address mo)))"
  using create_pointer [OF assms(1), of "mo_address mo"] assms(2) by (simp_all add: getBaseExpr_def fits_def)

lemma base_compare_ok:
  assumes pw: "pointerWidth E \<in> {32, 64}" "fits E mo" and p: "wt H p" "getWidth p = pointerWidth E"
  shows "decides H (base_compare UgeExpr_create E p mo) (\<lambda>\<rho>. uint (mo_address mo) \<le> ap_value (sem \<rho> p))"
    "decides H (base_compare UltExpr_create E p mo) (\<lambda>\<rho>. ap_value (sem \<rho> p) < uint (mo_address mo))"
proof -
  let ?b = "ConstantExpr (APInt (pointerWidth E) (uint (mo_address mo)))"
  note b = base_pointer [OF pw]
  have wb: "wt H ?b" using b(2) by simp
  have "denotes H \<rho> (base_compare UgeExpr_create E p mo) (bv_bool (uint (mo_address mo) \<le> ap_value (sem \<rho> p)))" for \<rho>
    using shifts_orders_sound(5) [OF wb p(1), of \<rho>] p(2) b(1) by (simp add: base_compare_def UgeExpr_create_def)
  then show "decides H (base_compare UgeExpr_create E p mo) (\<lambda>\<rho>. uint (mo_address mo) \<le> ap_value (sem \<rho> p))"
    by (rule decides_denotes)
  have "denotes H \<rho> (base_compare UltExpr_create E p mo) (bv_bool (ap_value (sem \<rho> p) < uint (mo_address mo)))" for \<rho>
    using shifts_orders_sound(4) [OF p(1) wb, of \<rho>] p(2) b(1) by (simp add: base_compare_def)
  then show "decides H (base_compare UltExpr_create E p mo) (\<lambda>\<rho>. ap_value (sem \<rho> p) < uint (mo_address mo))"
    by (rule decides_denotes)
qed

lemma getOffsetExpr_ok:
  assumes pw: "pointerWidth E \<in> {32, 64}" "fits E mo" and p: "wt H p" "getWidth p = pointerWidth E"
  shows "\<exists>off. getOffsetExpr E mo p = Some off \<and> wt H off \<and> getWidth off = pointerWidth E
    \<and> (\<forall>\<rho>. ap_value (sem \<rho> off) = (ap_value (sem \<rho> p) - uint (mo_address mo)) mod 2 ^ pointerWidth E)"
proof -
  let ?w = "pointerWidth E"
  let ?b = "APInt ?w (uint (mo_address mo))"
  note b = base_pointer [OF pw]
  have d: "denotes H \<rho> (SubExpr_create (me_expr E) p (ConstantExpr ?b)) (bv_binary Sub (sem \<rho> p) ?b)" for \<rho>
    using SubExpr_create_sound [of H p "ConstantExpr ?b" \<rho>] p b(2) by simp
  then obtain off where off: "SubExpr_create (me_expr E) p (ConstantExpr ?b) = Some off" "wt H off"
    unfolding denotes_def by blast
  have v: "sem \<rho> off = bv_binary Sub (sem \<rho> p) ?b" for \<rho> using d [of \<rho>] off by simp
  have "getWidth off = ?w" using wt_sem_width [OF off(2), of undefined] p unfolding v by (simp add: bv_lift_def mk_ap_def)
  moreover have "ap_value (sem \<rho> off) = (ap_value (sem \<rho> p) - uint (mo_address mo)) mod 2 ^ ?w" for \<rho>
    using p by (simp add: v bv_lift_def mk_ap_def take_bit_eq_mod)
  moreover have "getOffsetExpr E mo p = Some off" using b(1) off(1) by (simp add: getOffsetExpr_def)
  ultimately show ?thesis using off(2) by blast
qed

lemma offset_zero:
  fixes p a :: int
  assumes "0 \<le> p" "p < W" "0 \<le> a" "a < W"
  shows "(p - a) mod W = 0 \<longleftrightarrow> p = a"
proof -
  have "(p - a) mod W = 0 \<longleftrightarrow> p mod W = a mod W" by (simp add: mod_eq_dvd_iff mod_eq_0_iff_dvd)
  then show ?thesis using assms by simp
qed

lemma check_pointer_ok:
  assumes pw: "pointerWidth E \<in> {32, 64}" "fits E mo" and p: "wt H p" "getWidth p = pointerWidth E"
  shows "decides H (getBoundsCheckPointer E mo p) (\<lambda>\<rho>. contains mo (ap_value (sem \<rho> p)))"
proof -
  let ?w = "pointerWidth E"
  let ?a = "uint (mo_address mo)"
  obtain off where off: "getOffsetExpr E mo p = Some off" "wt H off" "getWidth off = ?w"
      "\<And>\<rho>. ap_value (sem \<rho> off) = (ap_value (sem \<rho> p) - ?a) mod 2 ^ ?w"
    using getOffsetExpr_ok [OF assms] by blast
  have w: "0 < ?w" "?w \<le> 64" "(2 :: int) ^ 32 \<le> 2 ^ ?w" using pw(1) by auto
  have pb: "0 \<le> ap_value (sem \<rho> p)" "ap_value (sem \<rho> p) < 2 ^ ?w" for \<rho>
    using ap_value_bounds [OF wt_sem_ok [OF p(1), of \<rho>]] p by simp_all
  have a: "0 \<le> ?a" "?a < 2 ^ ?w" "?a + uint (mo_size mo) \<le> 2 ^ ?w" using pw(2) by (simp_all add: fits_def)
  show ?thesis
  proof (rule decides_denotes)
    fix \<rho>
    show "denotes H \<rho> (getBoundsCheckPointer E mo p) (bv_bool (contains mo (ap_value (sem \<rho> p))))"
    proof (cases "mo_size mo = 0")
      case True
      let ?z = "ConstantExpr (APInt ?w 0)"
      have z: "wt H ?z" using w by (simp add: ap_ok_def)
      have "denotes H \<rho> (EqExpr_create (me_expr E) off ?z) (bv_binary Eq (sem \<rho> off) (APInt ?w 0))"
        using EqExpr_create_sound [OF off(2) z, of \<rho>] off(3) by simp
      moreover have "ap_value (sem \<rho> off) = 0 \<longleftrightarrow> ap_value (sem \<rho> p) = ?a"
        using offset_zero [OF pb [of \<rho>] a(1,2)] unfolding off(4) .
      ultimately show ?thesis using off(1) True w(1)
        by (simp add: getBoundsCheckPointer_def getBoundsCheckOffset_def contains_def bv_Eq mk_ap_def off(3))
    next
      case False
      let ?s = "uint (mo_size mo)"
      have s: "0 < ?s" "?s < 2 ^ 32" using False unsigned_less [of "mo_size mo", where 'a = int]
        by (simp_all add: word_neq_0_conv word_less_def)
      have u: "uint (ucast (mo_size mo) :: uint64) = ?s" using s by (simp add: unsigned_ucast_eq take_bit_int_eq_self)
      have "uint (ucast (mo_size mo) :: uint64) < 2 ^ ?w" using u s w(3) by simp
      from create_pointer [OF pw(1) this] have sz: "getSizeExpr E mo = Some (APInt ?w ?s)" "wt H (ConstantExpr (APInt ?w ?s))"
        by (simp_all add: getSizeExpr_def u)
      have "denotes H \<rho> (UltExpr_create (me_expr E) off (ConstantExpr (APInt ?w ?s))) (bv_bool (ap_value (sem \<rho> off) < ?s))"
        using shifts_orders_sound(4) [OF off(2) sz(2), of \<rho>] off(3) by simp
      moreover have "ap_value (sem \<rho> off) < ?s \<longleftrightarrow> contains mo (ap_value (sem \<rho> p))"
        using offset_in_object [OF pb [of \<rho>] a, of 1] s(1) False unfolding off(4) by (auto simp: contains_def)
      ultimately show ?thesis using off(1) False sz(1) by (simp add: getBoundsCheckPointer_def getBoundsCheckOffset_def)
    qed
  qed
qed

end

subsection \<open>The contract of the solver\<close>

text \<open>
  The answers the solver gives are right for the assignments \<open>C\<close> that satisfy the constraints of
  the state; it may also fail.
\<close>

definition solver_answers :: "'w timing_solver \<Rightarrow> (nat \<Rightarrow> array) \<Rightarrow> assignment set \<Rightarrow> bool" where
  "solver_answers S H C \<longleftrightarrow>
     (\<forall>e w b w'. wt H e \<longrightarrow> getWidth e = 1 \<longrightarrow> ts_mayBeTrue S e w = (Some b, w') \<longrightarrow>
        b = (\<exists>\<rho> \<in> C. ap_value (sem \<rho> e) \<noteq> 0))
   \<and> (\<forall>e w b w'. wt H e \<longrightarrow> getWidth e = 1 \<longrightarrow> ts_mustBeTrue S e w = (Some b, w') \<longrightarrow>
        b = (\<forall>\<rho> \<in> C. ap_value (sem \<rho> e) \<noteq> 0))
   \<and> (\<forall>e w c w'. wt H e \<longrightarrow> ts_getValue S e w = (Some c, w') \<longrightarrow> (\<exists>\<rho> \<in> C. sem \<rho> e = c))"

lemma solver_answersD:
  assumes "solver_answers S H C"
  shows "decides H (Some e) P \<Longrightarrow> ts_mayBeTrue S e w = (Some b, w') \<Longrightarrow> b = (\<exists>\<rho> \<in> C. P \<rho>)"
    "decides H (Some e) P \<Longrightarrow> ts_mustBeTrue S e w = (Some b, w') \<Longrightarrow> b = (\<forall>\<rho> \<in> C. P \<rho>)"
    "wt H e \<Longrightarrow> ts_getValue S e w = (Some c, w') \<Longrightarrow> \<exists>\<rho> \<in> C. sem \<rho> e = c"
  using assms unfolding solver_answers_def decides_def by simp_all blast+

subsection \<open>The searches\<close>

text \<open>The objects the pointer may be in, and must be in, in the state.\<close>

definition may_be :: "assignment set \<Rightarrow> expr \<Rightarrow> object_pair \<Rightarrow> bool" where
  "may_be C p op \<longleftrightarrow> (\<exists>\<rho> \<in> C. contains (fst op) (ap_value (sem \<rho> p)))"

definition must_be :: "assignment set \<Rightarrow> expr \<Rightarrow> object_pair \<Rightarrow> bool" where
  "must_be C p op \<longleftrightarrow> (\<forall>\<rho> \<in> C. contains (fst op) (ap_value (sem \<rho> p)))"

text \<open>What a search of the objects \<open>zs\<close> leaves: the value it returned, if any, and the list.\<close>

definition search_post ::
  "bool \<Rightarrow> assignment set \<Rightarrow> expr \<Rightarrow> object_pair list \<Rightarrow> nat \<Rightarrow> resolution_list \<Rightarrow> object_pair list
   \<Rightarrow> bool option \<times> resolution_list \<Rightarrow> bool" where
  "search_post sure C p es mx rl zs r \<longleftrightarrow> (case r of (res, rl') \<Rightarrow>
     (res = None \<longrightarrow> rl' = rl @ filter (may_be C p) zs)
   \<and> (res = Some False \<longrightarrow> (\<exists>op \<in> set es. rl' = [op] \<and> must_be C p op))
   \<and> (2 \<le> mx \<longrightarrow> length rl < mx \<longrightarrow> length rl' \<le> mx \<and> (res = None \<longrightarrow> length rl' < mx))
   \<and> (sure \<longrightarrow> mx < 2 \<longrightarrow> res \<noteq> Some True))"

text \<open>Every query is answered, and there is no time limit.\<close>

definition unlimited :: "'w timing_solver \<Rightarrow> nat \<Rightarrow> bool" where
  "unlimited S timeout \<longleftrightarrow> timeout = 0
     \<and> (\<forall>e w. fst (ts_getValue S e w) \<noteq> None \<and> fst (ts_mayBeTrue S e w) \<noteq> None \<and> fst (ts_mustBeTrue S e w) \<noteq> None)"

lemma unlimitedD:
  assumes "unlimited S timeout"
  shows "timeout = 0" "ts_getValue S e w \<noteq> (None, w')" "ts_mayBeTrue S e w \<noteq> (None, w')" "ts_mustBeTrue S e w \<noteq> (None, w')"
    "timed_out S timeout w = (False, w)"
proof -
  have a: "fst (ts_getValue S e w) \<noteq> None" "fst (ts_mayBeTrue S e w) \<noteq> None" "fst (ts_mustBeTrue S e w) \<noteq> None"
    and t: "timeout = 0" using assms unfolding unlimited_def by blast+
  show "timeout = 0" "timed_out S timeout w = (False, w)" using t by (simp_all add: timed_out_def)
  show "ts_getValue S e w \<noteq> (None, w')" "ts_mayBeTrue S e w \<noteq> (None, w')" "ts_mustBeTrue S e w \<noteq> (None, w')"
    using a by auto
qed

abbreviation before :: "address_space \<Rightarrow> object_pair iterator \<Rightarrow> object_pair list \<Rightarrow> bool" where
  "before AS it xs \<equiv> iterates MemoryObjectLT Select1st (objects AS) it xs"

definition one_post :: "assignment set \<Rightarrow> expr \<Rightarrow> object_pair list \<Rightarrow> object_pair list \<Rightarrow> one_result option \<Rightarrow> bool" where
  "one_post C p es zs res \<longleftrightarrow>
     (case res of
        None \<Rightarrow> \<forall>op \<in> set zs. \<not> may_be C p op
      | Some QueryFailed \<Rightarrow> True
      | Some Unresolved \<Rightarrow> False
      | Some (ResolvedTo op) \<Rightarrow> op \<in> set es \<and> may_be C p op)"

text \<open>What the answer of \<open>resolveOne\<close> says.\<close>

definition one_answer :: "assignment set \<Rightarrow> expr \<Rightarrow> object_pair list \<Rightarrow> one_result \<Rightarrow> bool" where
  "one_answer C p es res \<longleftrightarrow>
     (case res of
        QueryFailed \<Rightarrow> True
      | Unresolved \<Rightarrow> \<forall>op \<in> set es. \<not> may_be C p op
      | ResolvedTo op \<Rightarrow> op \<in> set es \<and> may_be C p op)"

lemma search_post_step:
  assumes "search_post sure C p es mx rl1 zs r" "rl1 = rl @ filter (may_be C p) [op]"
    and "2 \<le> mx \<Longrightarrow> length rl < mx \<Longrightarrow> length rl1 < mx"
  shows "search_post sure C p es mx rl (op # zs) r"
proof -
  obtain res rl' where r: "r = (res, rl')" by (cases r)
  note d = assms(1) [unfolded r search_post_def prod.case]
  have "res = None \<longrightarrow> rl' = rl @ filter (may_be C p) (op # zs)" using d assms(2) by simp
  moreover have "2 \<le> mx \<longrightarrow> length rl < mx \<longrightarrow> length rl' \<le> mx \<and> (res = None \<longrightarrow> length rl' < mx)"
    using d assms(3) by blast
  ultimately show ?thesis unfolding r search_post_def prod.case using d by blast
qed

lemma before_not_may:
  assumes s: "separated E AS" "entries AS = zs @ op # xs"
    and m: "\<forall>\<rho> \<in> C. uint (mo_address (fst op)) \<le> ap_value (sem \<rho> p)"
  shows "filter (may_be C p) zs = []"
proof -
  have "\<not> may_be C p y" if y: "y \<in> set zs" for y
  proof
    assume "may_be C p y"
    then obtain \<rho> where r: "\<rho> \<in> C" "contains (fst y) (ap_value (sem \<rho> p))" by (auto simp: may_be_def)
    have "ap_value (sem \<rho> p) < uint (mo_address (fst op))"
      using contains_above [OF r(2) _ separated_order(3) [OF s y]] separated_order(4) [OF s y] by (simp add: apart_def)
    then show False using m r(1) by fastforce
  qed
  then show ?thesis by (auto simp: filter_empty_conv)
qed

lemma after_not_may:
  assumes s: "separated E AS" "entries AS = zs @ op # xs"
    and m: "\<forall>\<rho> \<in> C. ap_value (sem \<rho> p) < uint (mo_address (fst op))"
  shows "filter (may_be C p) (op # xs) = []"
proof -
  have "\<not> may_be C p y" if y: "y \<in> set (op # xs)" for y
  proof
    assume "may_be C p y"
    then obtain \<rho> where r: "\<rho> \<in> C" "contains (fst y) (ap_value (sem \<rho> p))" by (auto simp: may_be_def)
    have "uint (mo_address (fst op)) \<le> uint (mo_address (fst y))"
      using y separated_order(1) [OF s, of y] by fastforce
    then show False using m r(1) contains_bounds [OF r(2)] by fastforce
  qed
  then show ?thesis by (auto simp: filter_empty_conv)
qed

context mem_model
begin

lemma checkPointerInObject_ok:
  assumes pw: "pointerWidth E \<in> {32, 64}" and p: "wt H p" "getWidth p = pointerWidth E"
    and S: "solver_answers S H C" and op: "fits E (fst op)"
  shows "\<exists>inc rl' w'. checkPointerInObject E S p op rl mx w = Some (inc, rl', w')
    \<and> (inc = 2 \<longrightarrow> rl' = rl @ filter (may_be C p) [op]) \<and> (inc = 0 \<longrightarrow> rl' = [op] \<and> must_be C p op)
    \<and> (2 \<le> unat mx \<longrightarrow> length rl < unat mx \<longrightarrow> length rl' \<le> unat mx \<and> (inc = 2 \<longrightarrow> length rl' < unat mx))
    \<and> (unlimited S timeout \<longrightarrow> unat mx < 2 \<longrightarrow> inc = 0 \<or> inc = 2)"
proof -
  obtain e where e: "getBoundsCheckPointer E (fst op) p = Some e"
      "decides H (Some e) (\<lambda>\<rho>. contains (fst op) (ap_value (sem \<rho> p)))"
    using check_pointer_ok [OF pw op p] unfolding decides_def by auto
  obtain may w1 where m: "ts_mayBeTrue S e w = (may, w1)" by fastforce
  show ?thesis
  proof (cases may)
    case None
    then show ?thesis using e(1) m unlimitedD(3) [of S timeout e w w1] by (auto simp: checkPointerInObject_def)
  next
    case (Some b)
    then have b: "b = may_be C p op" using solver_answersD(1) [OF S e(2)] m by (simp add: may_be_def)
    show ?thesis
    proof (cases b)
      case False
      then show ?thesis using e(1) m Some b by (auto simp: checkPointerInObject_def)
    next
      case True
      show ?thesis
      proof (cases "rl = []")
        case one: True
        obtain must w2 where m2: "ts_mustBeTrue S e w1 = (must, w2)" by fastforce
        show ?thesis
        proof (cases must)
          case None
          then show ?thesis using e(1) m Some b True one m2 unlimitedD(4) [of S timeout e w1 w2]
            by (auto simp: checkPointerInObject_def)
        next
          case s2: (Some c)
          then have "c = must_be C p op" using solver_answersD(2) [OF S e(2)] m2 by (simp add: must_be_def)
          then show ?thesis using e(1) m Some b True one m2 s2 by (auto simp: checkPointerInObject_def)
        qed
      next
        case False
        then have "Suc (length rl) \<noteq> unat mx" if "unat mx < 2" using that by (cases rl) auto
        then show ?thesis using e(1) m Some b True False by (auto simp: checkPointerInObject_def Let_def)
      qed
    qed
  qed
qed

lemma base_question:
  assumes pw: "pointerWidth E \<in> {32, 64}" and p: "wt H p" "getWidth p = pointerWidth E"
    and S: "solver_answers S H C" and mo: "fits E mo"
  shows "\<exists>e. base_compare UgeExpr_create E p mo = Some e \<and>
      (\<forall>w b w'. ts_mustBeTrue S e w = (Some b, w') \<longrightarrow> b = (\<forall>\<rho> \<in> C. uint (mo_address mo) \<le> ap_value (sem \<rho> p)))"
    "\<exists>e. base_compare UltExpr_create E p mo = Some e \<and>
      (\<forall>w b w'. ts_mustBeTrue S e w = (Some b, w') \<longrightarrow> b = (\<forall>\<rho> \<in> C. ap_value (sem \<rho> p) < uint (mo_address mo)))"
proof -
  obtain e where e: "base_compare UgeExpr_create E p mo = Some e"
      "decides H (Some e) (\<lambda>\<rho>. uint (mo_address mo) \<le> ap_value (sem \<rho> p))"
    using base_compare_ok(1) [OF pw mo p] unfolding decides_def by auto
  then show "\<exists>e. base_compare UgeExpr_create E p mo = Some e \<and>
      (\<forall>w b w'. ts_mustBeTrue S e w = (Some b, w') \<longrightarrow> b = (\<forall>\<rho> \<in> C. uint (mo_address mo) \<le> ap_value (sem \<rho> p)))"
    using solver_answersD(2) [OF S e(2)] by blast
  obtain f where f: "base_compare UltExpr_create E p mo = Some f"
      "decides H (Some f) (\<lambda>\<rho>. ap_value (sem \<rho> p) < uint (mo_address mo))"
    using base_compare_ok(2) [OF pw mo p] unfolding decides_def by auto
  then show "\<exists>e. base_compare UltExpr_create E p mo = Some e \<and>
      (\<forall>w b w'. ts_mustBeTrue S e w = (Some b, w') \<longrightarrow> b = (\<forall>\<rho> \<in> C. ap_value (sem \<rho> p) < uint (mo_address mo)))"
    using solver_answersD(2) [OF S f(2)] by blast
qed

lemma resolve_back_ok:
  assumes pw: "pointerWidth E \<in> {32, 64}" and p: "wt H p" "getWidth p = pointerWidth E"
    and S: "solver_answers S H C" and AS: "separated E AS" and bg: "before AS bg (entries AS)"
  shows "before AS oi xs \<Longrightarrow> entries AS = ys @ xs \<Longrightarrow>
     \<exists>res rl' w'. resolve_back E S p mx timeout oi bg rl w = Some (res, rl', w')
       \<and> search_post (unlimited S timeout) C p (entries AS) (unat mx) rl (rev ys) (res, rl')"
proof (induction ys arbitrary: oi xs rl w rule: rev_induct)
  case Nil
  then have "iterator_eq oi bg" using mo_order.iterates_eq [OF Nil.prems(1) bg] by simp
  then show ?case by (subst resolve_back.simps) (simp add: search_post_def)
next
  case (snoc op zs)
  have e: "entries AS = zs @ op # xs" using snoc.prems(2) by simp
  have ne: "\<not> iterator_eq oi bg" using mo_order.iterates_eq [OF snoc.prems(1) bg] e by simp
  obtain it where it: "iterator_decr oi = Some it" "before AS it (op # xs)"
    using mo_order.decr_ok [OF snoc.prems(1), of zs op] e by (auto simp: entries_def)
  note d = mo_order.deref_ok [OF it(2)]
  have op: "fits E (fst op)" using separated_order(5) [OF AS e] .
  obtain late w1 where t: "timed_out S timeout w = (late, w1)" by fastforce
  obtain inc rl1 w2 where c0: "checkPointerInObject E S p op rl mx w1 = Some (inc, rl1, w2)
    \<and> (inc = 2 \<longrightarrow> rl1 = rl @ filter (may_be C p) [op]) \<and> (inc = 0 \<longrightarrow> rl1 = [op] \<and> must_be C p op)
    \<and> (2 \<le> unat mx \<longrightarrow> length rl < unat mx \<longrightarrow> length rl1 \<le> unat mx \<and> (inc = 2 \<longrightarrow> length rl1 < unat mx))
    \<and> (unlimited S timeout \<longrightarrow> unat mx < 2 \<longrightarrow> inc = 0 \<or> inc = 2)"
    using checkPointerInObject_ok [OF pw p S op, of rl mx w1 timeout] by (elim exE) (rule that)
  have c: "checkPointerInObject E S p op rl mx w1 = Some (inc, rl1, w2)"
      "inc = 2 \<Longrightarrow> rl1 = rl @ filter (may_be C p) [op]" "inc = 0 \<Longrightarrow> rl1 = [op] \<and> must_be C p op"
      "2 \<le> unat mx \<Longrightarrow> length rl < unat mx \<Longrightarrow> length rl1 \<le> unat mx \<and> (inc = 2 \<longrightarrow> length rl1 < unat mx)"
      "unlimited S timeout \<Longrightarrow> unat mx < 2 \<Longrightarrow> inc = 0 \<or> inc = 2"
    using c0 by blast+
  obtain ge where ge: "base_compare UgeExpr_create E p (fst op) = Some ge"
      "\<And>w b w'. ts_mustBeTrue S ge w = (Some b, w') \<Longrightarrow> b = (\<forall>\<rho> \<in> C. uint (mo_address (fst op)) \<le> ap_value (sem \<rho> p))"
    using base_question(1) [OF pw p S op] by blast
  obtain must w3 where m: "ts_mustBeTrue S ge w2 = (must, w3)" by fastforce
  note step = resolve_back.simps [of E S p mx timeout oi bg rl w] ne it(1) d t c(1) ge(1) m
  have opin: "op \<in> set (entries AS)" using e by simp
  show ?case
  proof (cases "late \<or> inc \<noteq> 2 \<or> must = None")
    case True
    then consider "late" | "\<not> late" "inc \<noteq> 2" | "\<not> late" "inc = 2" "must = None" by blast
    then show ?thesis
    proof cases
      case 1 then show ?thesis using t unlimitedD(5) [of S timeout w] by (auto simp: step search_post_def)
    next
      case 2 then show ?thesis using c(3-5) opin by (auto simp: step search_post_def)
    next
      case 3 then show ?thesis using c(2,4) m unlimitedD(4) [of S timeout ge w2 w3] by (auto simp: step search_post_def)
    qed
  next
    case False
    then obtain b where b: "must = Some b" and go: "\<not> late" "inc = 2" by auto
    show ?thesis
    proof (cases b)
      case True
      have "filter (may_be C p) zs = []"
        by (rule before_not_may [OF AS e]) (use ge(2) m b True in blast)
      then have "filter (may_be C p) (rev zs) = []" by (simp add: rev_filter [symmetric])
      then show ?thesis using True b go c(2,4) by (auto simp: step search_post_def)
    next
      case False
      obtain res rl' w' where r: "resolve_back E S p mx timeout it bg rl1 w3 = Some (res, rl', w')"
          "search_post (unlimited S timeout) C p (entries AS) (unat mx) rl1 (rev zs) (res, rl')"
        using snoc.IH [OF it(2) e, of rl1 w3] by blast
      have "search_post (unlimited S timeout) C p (entries AS) (unat mx) rl (rev (zs @ [op])) (res, rl')"
        using search_post_step [OF r(2) c(2) [OF go(2)]] c(4) go(2) by simp
      then show ?thesis using False b go r(1) by (simp add: step)
    qed
  qed
qed

lemma resolve_fwd_ok:
  assumes pw: "pointerWidth E \<in> {32, 64}" and p: "wt H p" "getWidth p = pointerWidth E"
    and S: "solver_answers S H C" and AS: "separated E AS" and en: "before AS en []"
  shows "before AS oi xs \<Longrightarrow> entries AS = ys @ xs \<Longrightarrow>
     \<exists>res rl' w'. resolve_fwd E S p mx timeout oi en rl w = Some (res, rl', w')
       \<and> search_post (unlimited S timeout) C p (entries AS) (unat mx) rl xs (res, rl')"
proof (induction xs arbitrary: oi ys rl w)
  case Nil
  then have "iterator_eq oi en" using mo_order.iterates_eq [OF Nil.prems(1) en] by simp
  then show ?case by (subst resolve_fwd.simps) (simp add: search_post_def)
next
  case (Cons op xs)
  note e = Cons.prems(2)
  have ne: "\<not> iterator_eq oi en" using mo_order.iterates_eq [OF Cons.prems(1) en] by simp
  obtain it where it: "iterator_incr oi = Some it" "before AS it xs"
    using mo_order.incr_ok [OF Cons.prems(1)] by blast
  note d = mo_order.deref_ok [OF Cons.prems(1)]
  have op: "fits E (fst op)" using separated_order(5) [OF AS e] .
  obtain late w1 where t: "timed_out S timeout w = (late, w1)" by fastforce
  obtain lt where lt: "base_compare UltExpr_create E p (fst op) = Some lt"
      "\<And>w b w'. ts_mustBeTrue S lt w = (Some b, w') \<Longrightarrow> b = (\<forall>\<rho> \<in> C. ap_value (sem \<rho> p) < uint (mo_address (fst op)))"
    using base_question(2) [OF pw p S op] by blast
  obtain must w2 where m: "ts_mustBeTrue S lt w1 = (must, w2)" by fastforce
  obtain inc rl1 w3 where c0: "checkPointerInObject E S p op rl mx w2 = Some (inc, rl1, w3)
    \<and> (inc = 2 \<longrightarrow> rl1 = rl @ filter (may_be C p) [op]) \<and> (inc = 0 \<longrightarrow> rl1 = [op] \<and> must_be C p op)
    \<and> (2 \<le> unat mx \<longrightarrow> length rl < unat mx \<longrightarrow> length rl1 \<le> unat mx \<and> (inc = 2 \<longrightarrow> length rl1 < unat mx))
    \<and> (unlimited S timeout \<longrightarrow> unat mx < 2 \<longrightarrow> inc = 0 \<or> inc = 2)"
    using checkPointerInObject_ok [OF pw p S op, of rl mx w2 timeout] by (elim exE) (rule that)
  have c: "checkPointerInObject E S p op rl mx w2 = Some (inc, rl1, w3)"
      "inc = 2 \<Longrightarrow> rl1 = rl @ filter (may_be C p) [op]" "inc = 0 \<Longrightarrow> rl1 = [op] \<and> must_be C p op"
      "2 \<le> unat mx \<Longrightarrow> length rl < unat mx \<Longrightarrow> length rl1 \<le> unat mx \<and> (inc = 2 \<longrightarrow> length rl1 < unat mx)"
      "unlimited S timeout \<Longrightarrow> unat mx < 2 \<Longrightarrow> inc = 0 \<or> inc = 2"
    using c0 by blast+
  note step = resolve_fwd.simps [of E S p mx timeout oi en rl w] ne it(1) d t c(1) lt(1) m
  have opin: "op \<in> set (entries AS)" using e by simp
  show ?case
  proof (cases "late \<or> must = None")
    case True
    then show ?thesis using t m unlimitedD(4) [of S timeout lt w1 w2] unlimitedD(5) [of S timeout w]
      by (auto simp: step search_post_def)
  next
    case False
    then obtain b where b: "must = Some b" and go: "\<not> late" by auto
    show ?thesis
    proof (cases b)
      case True
      have "filter (may_be C p) (op # xs) = []"
        by (rule after_not_may [OF AS e]) (use lt(2) m b True in blast)
      then show ?thesis using True b go by (simp add: step search_post_def)
    next
      case False
      show ?thesis
      proof (cases "inc = 2")
        case inc: True
        have e': "entries AS = (ys @ [op]) @ xs" using e by simp
        obtain res rl' w' where r: "resolve_fwd E S p mx timeout it en rl1 w3 = Some (res, rl', w')"
            "search_post (unlimited S timeout) C p (entries AS) (unat mx) rl1 xs (res, rl')"
          using Cons.IH [OF it(2) e', of rl1 w3] by blast
        have "search_post (unlimited S timeout) C p (entries AS) (unat mx) rl (op # xs) (res, rl')"
          using search_post_step [OF r(2) c(2) [OF inc]] c(4) inc by simp
        then show ?thesis using False b go r(1) inc by (simp add: step)
      next
        case inc: False
        then show ?thesis using False b go c(3-5) opin by (auto simp: step search_post_def)
      qed
    qed
  qed
qed

lemma in_bounds_question:
  assumes pw: "pointerWidth E \<in> {32, 64}" and p: "wt H p" "getWidth p = pointerWidth E"
    and S: "solver_answers S H C" and op: "fits E (fst op)"
  shows "\<exists>e. getBoundsCheckPointer E (fst op) p = Some e \<and>
    (\<forall>w b w'. ts_mayBeTrue S e w = (Some b, w') \<longrightarrow> b = may_be C p op)"
proof -
  obtain e where e: "getBoundsCheckPointer E (fst op) p = Some e"
      "decides H (Some e) (\<lambda>\<rho>. contains (fst op) (ap_value (sem \<rho> p)))"
    using check_pointer_ok [OF pw op p] unfolding decides_def by auto
  then show ?thesis using solver_answersD(1) [OF S e(2)] unfolding may_be_def by blast
qed

lemma resolveOne_back_ok:
  assumes pw: "pointerWidth E \<in> {32, 64}" and p: "wt H p" "getWidth p = pointerWidth E"
    and S: "solver_answers S H C" and AS: "separated E AS" and bg: "before AS bg (entries AS)"
  shows "before AS oi xs \<Longrightarrow> entries AS = ys @ xs \<Longrightarrow>
     \<exists>res w'. resolveOne_back E S p oi bg w = Some (res, w') \<and> one_post C p (entries AS) ys res"
proof (induction ys arbitrary: oi xs w rule: rev_induct)
  case Nil
  then have "iterator_eq oi bg" using mo_order.iterates_eq [OF Nil.prems(1) bg] by simp
  then show ?case by (subst resolveOne_back.simps) (simp add: one_post_def)
next
  case (snoc op zs)
  have e: "entries AS = zs @ op # xs" using snoc.prems(2) by simp
  have ne: "\<not> iterator_eq oi bg" using mo_order.iterates_eq [OF snoc.prems(1) bg] e by simp
  obtain it where it: "iterator_decr oi = Some it" "before AS it (op # xs)"
    using mo_order.decr_ok [OF snoc.prems(1), of zs op] e by (auto simp: entries_def)
  have op: "fits E (fst op)" using separated_order(5) [OF AS e] .
  obtain mo r where mr: "op = (mo, r)" by (cases op)
  have d: "iterator_deref it = Some (mo, r)" using mo_order.deref_ok [OF it(2)] mr by simp
  obtain inb where inb: "getBoundsCheckPointer E mo p = Some inb"
      "\<And>w b w'. ts_mayBeTrue S inb w = (Some b, w') \<Longrightarrow> b = may_be C p op"
    using in_bounds_question [OF pw p S op] mr by auto
  obtain may w1 where m1: "ts_mayBeTrue S inb w = (may, w1)" by fastforce
  obtain ge where ge: "base_compare UgeExpr_create E p mo = Some ge"
      "\<And>w b w'. ts_mustBeTrue S ge w = (Some b, w') \<Longrightarrow> b = (\<forall>\<rho> \<in> C. uint (mo_address mo) \<le> ap_value (sem \<rho> p))"
    using base_question(1) [OF pw p S op, unfolded mr fst_conv] by blast
  obtain must w2 where m2: "ts_mustBeTrue S ge w1 = (must, w2)" by fastforce
  note step = resolveOne_back.simps [of E S p oi bg w] ne it(1) d inb(1) m1 ge(1) m2
  show ?case
  proof (cases "may = Some False \<and> must \<noteq> None")
    case False
    then consider "may = None" | "may = Some True" | "may = Some False" "must = None" by auto
    then show ?thesis
      by cases (use inb(2) [of w True] m1 e mr in \<open>simp_all add: step one_post_def\<close>)
  next
    case True
    then obtain b where b: "may = Some False" "must = Some b" by blast
    have no: "\<not> may_be C p op" using inb(2) [of w False] m1 b by simp
    show ?thesis
    proof (cases b)
      case True
      have "filter (may_be C p) zs = []"
        by (rule before_not_may [OF AS e]) (use ge(2) m2 b True mr in simp)
      then show ?thesis using True b no by (auto simp: step one_post_def filter_empty_conv)
    next
      case False
      obtain res w' where r: "resolveOne_back E S p it bg w2 = Some (res, w')" "one_post C p (entries AS) zs res"
        using snoc.IH [OF it(2) e, of w2] by blast
      have "one_post C p (entries AS) (zs @ [op]) res"
        using r(2) no unfolding one_post_def by (cases res) auto
      then show ?thesis using False b r(1) by (simp add: step)
    qed
  qed
qed

lemma resolveOne_fwd_ok:
  assumes pw: "pointerWidth E \<in> {32, 64}" and p: "wt H p" "getWidth p = pointerWidth E"
    and S: "solver_answers S H C" and AS: "separated E AS" and en: "before AS en []"
  shows "before AS oi xs \<Longrightarrow> entries AS = ys @ xs \<Longrightarrow>
     \<exists>res w'. resolveOne_fwd E S p oi en w = Some (res, w') \<and> one_post C p (entries AS) xs res"
proof (induction xs arbitrary: oi ys w)
  case Nil
  then have "iterator_eq oi en" using mo_order.iterates_eq [OF Nil.prems(1) en] by simp
  then show ?case by (subst resolveOne_fwd.simps) (simp add: one_post_def)
next
  case (Cons op xs)
  note e = Cons.prems(2)
  have ne: "\<not> iterator_eq oi en" using mo_order.iterates_eq [OF Cons.prems(1) en] by simp
  obtain it where it: "iterator_incr oi = Some it" "before AS it xs"
    using mo_order.incr_ok [OF Cons.prems(1)] by blast
  have op: "fits E (fst op)" using separated_order(5) [OF AS e] .
  obtain mo r where mr: "op = (mo, r)" by (cases op)
  have d: "iterator_deref oi = Some (mo, r)" using mo_order.deref_ok [OF Cons.prems(1)] mr by simp
  obtain lt where lt: "base_compare UltExpr_create E p mo = Some lt"
      "\<And>w b w'. ts_mustBeTrue S lt w = (Some b, w') \<Longrightarrow> b = (\<forall>\<rho> \<in> C. ap_value (sem \<rho> p) < uint (mo_address mo))"
    using base_question(2) [OF pw p S op, unfolded mr fst_conv] by blast
  obtain must w1 where m1: "ts_mustBeTrue S lt w = (must, w1)" by fastforce
  obtain inb where inb: "getBoundsCheckPointer E mo p = Some inb"
      "\<And>w b w'. ts_mayBeTrue S inb w = (Some b, w') \<Longrightarrow> b = may_be C p op"
    using in_bounds_question [OF pw p S op] mr by auto
  obtain may w2 where m2: "ts_mayBeTrue S inb w1 = (may, w2)" by fastforce
  note step = resolveOne_fwd.simps [of E S p oi en w] ne it(1) d inb(1) m1 lt(1) m2
  show ?case
  proof (cases "must = Some False \<and> may = Some False")
    case False
    then consider "must = None" | "must = Some True" | "must = Some False" "may = None" | "must = Some False" "may = Some True"
      by auto
    then show ?thesis
    proof cases
      case 2
      have "filter (may_be C p) (op # xs) = []"
        by (rule after_not_may [OF AS e]) (use lt(2) m1 2 mr in simp)
      then show ?thesis using 2 by (auto simp: step one_post_def filter_empty_conv split: if_splits)
    qed (use inb(2) [of w1 True] m2 e mr in \<open>simp_all add: step one_post_def\<close>)
  next
    case True
    have no: "\<not> may_be C p op" using inb(2) [of w1 False] m2 True by simp
    have e': "entries AS = (ys @ [op]) @ xs" using e by simp
    obtain res w' where r: "resolveOne_fwd E S p it en w2 = Some (res, w')" "one_post C p (entries AS) xs res"
      using Cons.IH [OF it(2) e', of w2] by blast
    have "one_post C p (entries AS) (op # xs) res"
      using r(2) no unfolding one_post_def by (cases res) auto
    then show ?thesis using True r(1) by (simp add: step)
  qed
qed

text \<open>The positions around the example that the solver gives.\<close>

lemma around_example:
  assumes AS: "separated E AS"
  shows "\<exists>start bg en xs ys. ImmutableMap_upper_bound MemoryObjectLT (objects AS) (MemoryObject_hack a) = Some start
    \<and> ImmutableMap_begin (objects AS) = Some bg \<and> ImmutableMap_end (objects AS) = Some en
    \<and> before AS start xs \<and> before AS bg (entries AS) \<and> before AS en [] \<and> entries AS = ys @ xs"
proof -
  have ok: "objects_ok AS" using AS by (simp add: separated_def)
  obtain start where st: "ImmutableMap_upper_bound MemoryObjectLT (objects AS) (MemoryObject_hack a) = Some start"
      "before AS start (highs MemoryObjectLT Select1st (MemoryObject_hack a) (entries AS))"
    using mo_order.upper_bound_ok [OF ok] unfolding ImmutableMap_upper_bound_def entries_def by blast
  have "\<exists>ys. entries AS = ys @ highs MemoryObjectLT Select1st (MemoryObject_hack a) (entries AS)"
  proof (cases "highs MemoryObjectLT Select1st (MemoryObject_hack a) (entries AS)")
    case (Cons x xs)
    then show ?thesis using mo_order.iterates_suffix [OF st(2) [unfolded Cons]] by (simp add: entries_def)
  qed simp
  then show ?thesis using st mo_order.begin_ok [OF ok] mo_order.end_ok [OF ok]
    unfolding ImmutableMap_begin_def ImmutableMap_end_def entries_def by blast
qed

lemma constant_address:
  assumes pw: "pointerWidth E \<in> {32, 64}" and c: "ap_ok c" "ap_width c = pointerWidth E"
  shows "\<exists>a. getZExtValue (api (me_expr E)) c 64 = Some a \<and> uint a = ap_value c"
proof -
  have "0 \<le> ap_value c" "ap_value c < 2 ^ pointerWidth E" using ap_value_bounds [OF c(1)] c(2) by simp_all
  moreover have "(2 :: int) ^ pointerWidth E \<le> 2 ^ 64" using pw by auto
  ultimately have "uint (word_of_int (ap_value c) :: uint64) = ap_value c"
    by (simp add: uint_word_of_int take_bit_int_eq_self flip: take_bit_eq_mod)
  moreover have "getZExtValue (api (me_expr E)) c 64 = Some (word_of_int (ap_value c))"
    using c(2) pw getZExtValue [OF c(1)] by (auto simp: getZExtValue_def)
  ultimately show ?thesis by blast
qed

lemma example_value:
  assumes pw: "pointerWidth E \<in> {32, 64}" and p: "wt H p" "getWidth p = pointerWidth E"
    and S: "solver_answers S H C" and g: "ts_getValue S p w = (Some cex, w')"
  shows "\<exists>a. getZExtValue (api (me_expr E)) cex 64 = Some a \<and> (\<exists>\<rho> \<in> C. ap_value (sem \<rho> p) = uint a)"
proof -
  obtain \<rho> where r: "\<rho> \<in> C" "sem \<rho> p = cex" using solver_answersD(3) [OF S p(1) g] by blast
  have c: "ap_ok cex" "ap_width cex = pointerWidth E" using wt_sem_ok [OF p(1), of \<rho>] p r(2) by auto
  from constant_address [OF pw c] show ?thesis using r by auto
qed

lemma resolve_not_constant:
  assumes "\<not> is_Constant p"
  shows "resolve E S AS p rl mx timeout w =
     (case ts_getValue S p w of
        (None, w) \<Rightarrow> Some (True, rl, w)
      | (Some cex, w) \<Rightarrow> do {
          example \<leftarrow> getZExtValue (api (me_expr E)) cex 64;
          start \<leftarrow> ImmutableMap_upper_bound MemoryObjectLT (objects AS) (MemoryObject_hack example);
          bg \<leftarrow> ImmutableMap_begin (objects AS);
          en \<leftarrow> ImmutableMap_end (objects AS);
          (res, rl, w) \<leftarrow> resolve_back E S p mx timeout start bg rl w;
          (case res of
             Some r \<Rightarrow> Some (r, rl, w)
           | None \<Rightarrow> do {
               (res, rl, w) \<leftarrow> resolve_fwd E S p mx timeout start en rl w;
               Some (case res of Some r \<Rightarrow> r | None \<Rightarrow> False, rl, w) }) })"
  unfolding resolve_def by (rule case_not_Constant [OF assms])

lemma spec_entries_distinct:
  assumes "separated E AS"
  shows "distinct (entries AS)"
proof -
  have "distinct xs" if "key_sorted MemoryObjectLT Select1st xs" for xs :: "object_pair list"
    using that by (induction xs) auto
  then show ?thesis using assms by (simp add: separated_def tree_ok_def entries_def)
qed

lemma resolve_symbolic:
  assumes pw: "pointerWidth E \<in> {32, 64}" and p: "wt H p" "getWidth p = pointerWidth E" "\<not> is_Constant p"
    and S: "solver_answers S H C" and AS: "separated E AS"
  shows "\<exists>inc rl w'. resolve E S AS p [] mx timeout w = Some (inc, rl, w')
    \<and> (\<not> inc \<longrightarrow> C \<noteq> {} \<longrightarrow> set rl = {op \<in> set (entries AS). may_be C p op} \<and> distinct rl)
    \<and> (2 \<le> unat mx \<longrightarrow> length rl \<le> unat mx)
    \<and> (unlimited S timeout \<longrightarrow> unat mx < 2 \<longrightarrow> \<not> inc)"
proof -
  obtain val w1 where g: "ts_getValue S p w = (val, w1)" by fastforce
  show ?thesis
  proof (cases val)
    case None
    then show ?thesis using g unlimitedD(2) [of S timeout p w w1] by (auto simp: resolve_not_constant [OF p(3)])
  next
    case (Some cex)
    obtain a where a: "getZExtValue (api (me_expr E)) cex 64 = Some a"
      using example_value [OF pw p(1,2) S] g Some by blast
    obtain start bg en xs ys where it: "ImmutableMap_upper_bound MemoryObjectLT (objects AS) (MemoryObject_hack a) = Some start"
        "ImmutableMap_begin (objects AS) = Some bg" "ImmutableMap_end (objects AS) = Some en"
        "before AS start xs" "before AS bg (entries AS)" "before AS en []" "entries AS = ys @ xs"
      using around_example [OF AS] by blast
    obtain res1 rl1 w2 where b: "resolve_back E S p mx timeout start bg [] w1 = Some (res1, rl1, w2)"
        "search_post (unlimited S timeout) C p (entries AS) (unat mx) [] (rev ys) (res1, rl1)"
      using resolve_back_ok [OF pw p(1,2) S AS it(5) it(4) it(7), of mx timeout "[]" w1] by blast
    obtain res2 rl2 w3 where f: "resolve_fwd E S p mx timeout start en rl1 w2 = Some (res2, rl2, w3)"
        "search_post (unlimited S timeout) C p (entries AS) (unat mx) rl1 xs (res2, rl2)"
      using resolve_fwd_ok [OF pw p(1,2) S AS it(6) it(4) it(7), of mx timeout rl1 w2] by blast
    have run: "resolve E S AS p [] mx timeout w = Some
        (case res1 of Some r \<Rightarrow> (r, rl1, w2) | None \<Rightarrow> (case res2 of Some r \<Rightarrow> r | None \<Rightarrow> False, rl2, w3))"
      using g Some a it(1-3) b(1) f(1) by (simp add: resolve_not_constant [OF p(3)] split: option.split)
    have one: "set rl = {op \<in> set (entries AS). may_be C p op} \<and> distinct rl"
      if sole: "\<exists>op \<in> set (entries AS). rl = [op] \<and> must_be C p op" and ne: "C \<noteq> {}" for rl
    proof -
      obtain op where op: "op \<in> set (entries AS)" "rl = [op]" "must_be C p op" using sole by blast
      have "x = op" if x: "x \<in> set (entries AS)" "may_be C p x" for x
      proof -
        obtain \<rho> where "\<rho> \<in> C" "contains (fst x) (ap_value (sem \<rho> p))" using x(2) by (auto simp: may_be_def)
        then show ?thesis using contains_once [OF AS x(1) _ op(1)] op(3) by (auto simp: must_be_def)
      qed
      moreover have "may_be C p op" using op(3) ne by (auto simp: must_be_def may_be_def)
      ultimately have "{x \<in> set (entries AS). may_be C p x} = {op}" using op(1) by blast
      then show ?thesis using op(2) by simp
    qed
    show ?thesis
    proof (cases res1)
      case (Some r)
      have "\<not> r \<longrightarrow> C \<noteq> {} \<longrightarrow> set rl1 = {op \<in> set (entries AS). may_be C p op} \<and> distinct rl1"
        using b(2) Some one [of rl1] by (simp add: search_post_def)
      moreover have "2 \<le> unat mx \<longrightarrow> length rl1 \<le> unat mx" "unlimited S timeout \<longrightarrow> unat mx < 2 \<longrightarrow> \<not> r"
        using b(2) Some by (auto simp: search_post_def)
      ultimately show ?thesis using run Some by simp
    next
      case None
      have r1: "rl1 = filter (may_be C p) (rev ys)" using b(2) None by (simp add: search_post_def)
      have "2 \<le> unat mx \<longrightarrow> length rl1 < unat mx" using b(2) None by (auto simp: search_post_def)
      then have len: "2 \<le> unat mx \<longrightarrow> length rl2 \<le> unat mx" using f(2) unfolding search_post_def prod.case by blast
      have "\<not> (case res2 of Some r \<Rightarrow> r | None \<Rightarrow> False) \<longrightarrow> C \<noteq> {} \<longrightarrow>
          set rl2 = {op \<in> set (entries AS). may_be C p op} \<and> distinct rl2"
      proof (cases res2)
        case None
        then have "rl2 = filter (may_be C p) (rev ys @ xs)" using f(2) r1 by (simp add: search_post_def)
        then show ?thesis using spec_entries_distinct [OF AS] it(7) None by auto
      next
        case (Some r)
        then show ?thesis using f(2) one [of rl2] by (simp add: search_post_def)
      qed
      moreover have "unlimited S timeout \<longrightarrow> unat mx < 2 \<longrightarrow> \<not> (case res2 of Some r \<Rightarrow> r | None \<Rightarrow> False)"
        using f(2) by (cases res2) (auto simp: search_post_def)
      ultimately show ?thesis using run None len by simp
    qed
  qed
qed

lemma resolveOne_not_constant:
  assumes "\<not> is_Constant p"
  shows "resolveOne E S AS p w =
     (case ts_getValue S p w of
        (None, w) \<Rightarrow> Some (QueryFailed, w)
      | (Some cex, w) \<Rightarrow> do {
          example \<leftarrow> getZExtValue (api (me_expr E)) cex 64;
          (case ImmutableMap_lookup_previous MemoryObjectLT (objects AS) (MemoryObject_hack example) of
             None \<Rightarrow> resolveOne_search E S AS p example w
           | Some (mo, r) \<Rightarrow>
               if example - mo_address mo < ucast (mo_size mo) then Some (ResolvedTo (mo, r), w)
               else resolveOne_search E S AS p example w) })"
  unfolding resolveOne_def by (rule case_not_Constant [OF assms])

lemma resolveOne_search_ok:
  assumes pw: "pointerWidth E \<in> {32, 64}" and p: "wt H p" "getWidth p = pointerWidth E"
    and S: "solver_answers S H C" and AS: "separated E AS"
  shows "\<exists>res w'. resolveOne_search E S AS p a w = Some (res, w') \<and> one_answer C p (entries AS) res"
proof -
  obtain start bg en xs ys where it: "ImmutableMap_upper_bound MemoryObjectLT (objects AS) (MemoryObject_hack a) = Some start"
      "ImmutableMap_begin (objects AS) = Some bg" "ImmutableMap_end (objects AS) = Some en"
      "before AS start xs" "before AS bg (entries AS)" "before AS en []" "entries AS = ys @ xs"
    using around_example [OF AS] by blast
  obtain res1 w1 where b: "resolveOne_back E S p start bg w = Some (res1, w1)" "one_post C p (entries AS) ys res1"
    using resolveOne_back_ok [OF pw p S AS it(5) it(4) it(7), of w] by blast
  obtain res2 w2 where f: "resolveOne_fwd E S p start en w1 = Some (res2, w2)" "one_post C p (entries AS) xs res2"
    using resolveOne_fwd_ok [OF pw p S AS it(6) it(4) it(7), of w1] by blast
  have run: "resolveOne_search E S AS p a w = Some
      (case res1 of Some r \<Rightarrow> (r, w1) | None \<Rightarrow> (case res2 of Some r \<Rightarrow> r | None \<Rightarrow> Unresolved, w2))"
    using it(1-3) b(1) f(1) by (simp add: resolveOne_search_def split: option.split)
  show ?thesis
  proof (cases res1)
    case (Some r)
    have "one_answer C p (entries AS) r"
      using b(2) Some by (cases r) (simp_all add: one_post_def one_answer_def)
    then show ?thesis using run Some by simp
  next
    case none: None
    have "one_answer C p (entries AS) (case res2 of Some r \<Rightarrow> r | None \<Rightarrow> Unresolved)"
    proof (cases res2)
      case (Some r)
      then show ?thesis using f(2) by (cases r) (simp_all add: one_post_def one_answer_def)
    next
      case None
      then show ?thesis using b(2) f(2) none it(7) by (auto simp: one_post_def one_answer_def)
    qed
    then show ?thesis using run none by simp
  qed
qed

lemma resolveOne_symbolic:
  assumes pw: "pointerWidth E \<in> {32, 64}" and p: "wt H p" "getWidth p = pointerWidth E" "\<not> is_Constant p"
    and S: "solver_answers S H C" and AS: "separated E AS"
  shows "\<exists>res w'. resolveOne E S AS p w = Some (res, w') \<and> one_answer C p (entries AS) res"
proof -
  obtain val w1 where g: "ts_getValue S p w = (val, w1)" by fastforce
  note search = resolveOne_search_ok [OF pw p(1,2) S AS]
  show ?thesis
  proof (cases val)
    case None
    then show ?thesis using g by (simp add: resolveOne_not_constant [OF p(3)] one_answer_def)
  next
    case (Some cex)
    obtain a \<rho> where a: "getZExtValue (api (me_expr E)) cex 64 = Some a" "\<rho> \<in> C" "ap_value (sem \<rho> p) = uint a"
      using example_value [OF pw p(1,2) S] g Some by blast
    have ok: "objects_ok AS" using AS by (simp add: separated_def)
    note l = lookup_previous_hack [OF ok, of a]
    show ?thesis
    proof (cases "last_opt [x \<leftarrow> entries AS. mo_address (fst x) \<le> a]")
      case None
      then show ?thesis using g Some a(1) l search [of a w1] by (simp add: resolveOne_not_constant [OF p(3)])
    next
      case last: (Some x)
      obtain mo r where x: "x = (mo, r)" by (cases x)
      have m: "x \<in> set (entries AS)" "mo_address mo \<le> a" using last_opt_member [OF last] x by simp_all
      have run: "resolveOne E S AS p w =
          (if a - mo_address mo < ucast (mo_size mo) then Some (ResolvedTo x, w1) else resolveOne_search E S AS p a w1)"
        using g Some a(1) l last x by (simp add: resolveOne_not_constant [OF p(3)])
      show ?thesis
      proof (cases "a - mo_address mo < ucast (mo_size mo)")
        case True
        then have "contains mo (uint a)" using range_check(2) [OF m(2)] by simp
        then have "may_be C p x" using a(2,3) x unfolding may_be_def by (intro bexI [of _ \<rho>]) simp_all
        then show ?thesis using run True m(1) by (simp add: one_answer_def)
      next
        case False
        then show ?thesis using run search [of a w1] by simp
      qed
    qed
  qed
qed

text \<open>Both kinds of address.\<close>

lemma resolve_ok:
  assumes pw: "pointerWidth E \<in> {32, 64}" and p: "wt H p" "getWidth p = pointerWidth E"
    and S: "solver_answers S H C" and AS: "separated E AS"
  shows "\<exists>inc rl w'. resolve E S AS p [] mx timeout w = Some (inc, rl, w')
    \<and> (\<not> inc \<longrightarrow> C \<noteq> {} \<longrightarrow> set rl = {op \<in> set (entries AS). may_be C p op} \<and> distinct rl)
    \<and> (2 \<le> unat mx \<longrightarrow> length rl \<le> unat mx)
    \<and> (unlimited S timeout \<longrightarrow> unat mx < 2 \<longrightarrow> \<not> inc)"
proof (cases "is_Constant p")
  case False
  show ?thesis by (rule resolve_symbolic [OF pw p False S AS])
next
  case True
  then obtain c where c: "p = ConstantExpr c" by (cases p) (auto simp: is_Constant_def)
  obtain a where a: "getZExtValue (api (me_expr E)) c 64 = Some a" "uint a = ap_value c"
    using constant_address [OF pw, of c] p c by auto
  obtain res where r: "resolveOne_const (api (me_expr E)) AS c = Some res"
      "\<And>x. res = Some x \<longleftrightarrow> x \<in> set (entries AS) \<and> contains (fst x) (ap_value c)"
    using resolve_constant [OF AS a(1)] unfolding a(2) by blast
  have may: "may_be C p op \<longleftrightarrow> contains (fst op) (ap_value c)" if "C \<noteq> {}" for op
    using that c by (auto simp: may_be_def)
  have run: "resolve E S AS p [] mx timeout w = Some (False, (case res of None \<Rightarrow> [] | Some op \<Rightarrow> [op]), w)"
    using r(1) c by (simp add: resolve_def split: option.split)
  have "set (case res of None \<Rightarrow> [] | Some op \<Rightarrow> [op]) = {op \<in> set (entries AS). may_be C p op}" if "C \<noteq> {}"
  proof -
    have "op \<in> set (case res of None \<Rightarrow> [] | Some op \<Rightarrow> [op]) \<longleftrightarrow> res = Some op" for op by (cases res) auto
    then show ?thesis using r(2) may [OF that] by blast
  qed
  moreover have "distinct (case res of None \<Rightarrow> [] | Some op \<Rightarrow> [op])"
    "2 \<le> unat mx \<longrightarrow> length (case res of None \<Rightarrow> [] | Some op \<Rightarrow> [op]) \<le> unat mx" by (cases res; simp)+
  ultimately show ?thesis using run by blast
qed

lemma resolveOne_ok:
  assumes pw: "pointerWidth E \<in> {32, 64}" and p: "wt H p" "getWidth p = pointerWidth E"
    and S: "solver_answers S H C" and AS: "separated E AS" and C: "C \<noteq> {}"
  shows "\<exists>res w'. resolveOne E S AS p w = Some (res, w') \<and> one_answer C p (entries AS) res"
proof (cases "is_Constant p")
  case False
  show ?thesis by (rule resolveOne_symbolic [OF pw p False S AS])
next
  case True
  then obtain c where c: "p = ConstantExpr c" by (cases p) (auto simp: is_Constant_def)
  obtain a where a: "getZExtValue (api (me_expr E)) c 64 = Some a" "uint a = ap_value c"
    using constant_address [OF pw, of c] p c by auto
  obtain res where r: "resolveOne_const (api (me_expr E)) AS c = Some res"
      "\<And>x. res = Some x \<longleftrightarrow> x \<in> set (entries AS) \<and> contains (fst x) (ap_value c)"
    using resolve_constant [OF AS a(1)] unfolding a(2) by blast
  have may: "may_be C p op \<longleftrightarrow> contains (fst op) (ap_value c)" for op
    using C c by (auto simp: may_be_def)
  have run: "resolveOne E S AS p w = Some (case res of None \<Rightarrow> Unresolved | Some op \<Rightarrow> ResolvedTo op, w)"
    using r(1) c by (simp add: resolveOne_def)
  have "one_answer C p (entries AS) (case res of None \<Rightarrow> Unresolved | Some op \<Rightarrow> ResolvedTo op)"
  proof (cases res)
    case None
    then have "\<not> (x \<in> set (entries AS) \<and> contains (fst x) (ap_value c))" for x using r(2) [of x] by simp
    then show ?thesis using None may by (simp add: one_answer_def)
  next
    case (Some op)
    then show ?thesis using r(2) [of op] may by (simp add: one_answer_def)
  qed
  then show ?thesis using run by simp
qed

end

end
