(* ===== verification/AddressSpaceHost.thy ===== *)
theory AddressSpaceHost
  imports AddressSpaceResolve
begin

text \<open>
  Passing the concrete bytes to external code and back.  Copying in is, on the view of the
  address space, a sequence of stores of what the host holds; copying out leaves in the host
  the concrete store of every object that is not read only.
\<close>

subsection \<open>Copying in\<close>

text \<open>The object state after the bytes of the host are copied into it, and when they differ.\<close>

definition host_bytes :: "host \<Rightarrow> memory_object \<Rightarrow> 8 word list" where
  "host_bytes M mo = host_read M (mo_address mo) (unat (mo_size mo))"

definition copied :: "host \<Rightarrow> memory_object \<Rightarrow> object_state \<Rightarrow> object_state" where
  "copied M mo os = (if mo_isUserSpecified mo then os else os\<lparr>concreteStore := host_bytes M mo\<rparr>)"

definition blocked :: "host \<Rightarrow> memory_object \<Rightarrow> object_state \<Rightarrow> bool" where
  "blocked M mo os \<longleftrightarrow> \<not> mo_isUserSpecified mo \<and> readOnly os \<and> host_bytes M mo \<noteq> concreteStore os"

lemma length_host_bytes [simp]: "length (host_bytes M mo) = unat (mo_size mo)"
  by (simp add: host_bytes_def host_read_def)

text \<open>What one call leaves of the system when it works on the space \<open>i\<close>.\<close>

definition in_step ::
  "nat \<Rightarrow> spaces \<Rightarrow> nat \<Rightarrow> (memory_view \<Rightarrow> memory_view) \<Rightarrow> uint64 set \<Rightarrow> bool \<Rightarrow> bool \<times> space \<Rightarrow> bool" where
  "in_step n sys i f A ok r \<longleftrightarrow> (case sys of (SS, h) \<Rightarrow> case r of (ok', AS', h') \<Rightarrow>
     ok' = ok \<and> spaces_ok n (SS[i := AS'], h')
   \<and> (\<forall>j < length SS. j \<noteq> i \<longrightarrow> view h' (SS ! j) = view h (SS ! j))
   \<and> (\<forall>a. a \<notin> A \<longrightarrow> binding AS' a = binding (SS ! i) a \<and> view h' AS' a = view h (SS ! i) a)
   \<and> (ok \<longrightarrow> view h' AS' = f (view h (SS ! i))))"

definition store_copied :: "host \<Rightarrow> memory_view \<Rightarrow> memory_object \<Rightarrow> memory_view" where
  "store_copied M v mo = v(mo_address mo := map_option (copied M mo) (v (mo_address mo)))"

lemma contents_sel [simp]: "readOnly (contents os) = readOnly os" "concreteStore (contents os) = concreteStore os"
  "os_size (contents os) = os_size os"
  by (simp_all add: contents_def)

lemma in_step_same:
  assumes "spaces_ok n (SS, h)" "i < length SS" "\<And>v. ok \<Longrightarrow> v = view h (SS ! i) \<Longrightarrow> f v = v"
  shows "in_step n (SS, h) i f A ok (ok, SS ! i, h)"
  using assms by (simp add: in_step_def)

lemma copyInConcrete_ok:
  assumes ok: "spaces_ok n (SS, h)" and i: "i < length SS" and r: "binding (SS ! i) (mo_address mo) = Some r"
    and sz: "bytes (h ! r) = unat (mo_size mo)" and u: "\<not> mo_isUserSpecified mo"
  shows "\<exists>res. copyInConcrete mo r (mo_address mo) M (SS ! i, h) = Some res
    \<and> in_step n (SS, h) i (\<lambda>v. store_copied M v mo) {mo_address mo} (\<not> blocked M mo (h ! r)) res"
proof -
  note rh = spaces_okD(5) [OF ok i r]
  have shape: "shape_ok (h ! r)" using spaces_okD(4) [OF ok rh] .
  then have len: "length (concreteStore (h ! r)) = unat (mo_size mo)" using sz by (simp add: shape_ok_def)
  have start: "copyInConcrete mo r (mo_address mo) M (SS ! i, h) =
      (if host_bytes M mo \<noteq> concreteStore (h ! r) then
         if readOnly (h ! r) then Some (False, SS ! i, h)
         else do {
           (w, AS, h) \<leftarrow> getWriteable mo r (SS ! i, h);
           wos \<leftarrow> nth_opt h w;
           h \<leftarrow> set_opt h w (wos\<lparr>concreteStore := host_bytes M mo @ drop (unat (mo_size mo)) (concreteStore wos)\<rparr>);
           Some (True, AS, h) }
       else Some (True, SS ! i, h))"
    using rh len by (simp add: copyInConcrete_def nth_opt_def store_bytes_def host_bytes_def)
  have vr: "view h (SS ! i) (mo_address mo) = Some (contents (h ! r))" using r by (simp add: view_def)
  consider (same) "host_bytes M mo = concreteStore (h ! r)"
    | (ro) "host_bytes M mo \<noteq> concreteStore (h ! r)" "readOnly (h ! r)"
    | (differ) "host_bytes M mo \<noteq> concreteStore (h ! r)" "\<not> readOnly (h ! r)" by blast
  then show ?thesis
  proof cases
    case same
    have "store_copied M (view h (SS ! i)) mo = view h (SS ! i)"
      using vr same u by (auto simp: store_copied_def copied_def contents_def fun_upd_idem_iff)
    then show ?thesis using start same in_step_same [OF ok i] by (simp add: blocked_def)
  next
    case ro
    then show ?thesis using start u in_step_same [OF ok i, of False] by (simp add: blocked_def)
  next
    case differ
    obtain q AS' h' where w: "getWriteable mo r (SS ! i, h) = Some (q, AS', h')" "q < length h'"
        "contents (h' ! q) = contents (h ! r)"
        "\<And>os. shape_ok os \<Longrightarrow> owned_update (SS, h) i (mo_address mo) AS' (h'[q := os\<lparr>copyOnWriteOwner := copyOnWriteOwner (h' ! q)\<rparr>]) q"
      using writeable_owned [OF ok i r differ(2)] by blast
    let ?os = "(h' ! q)\<lparr>concreteStore := host_bytes M mo\<rparr>"
    have q: "length (concreteStore (h' ! q)) = unat (mo_size mo)"
      using arg_cong [OF w(3), of concreteStore] len by simp
    have "shape_ok (h' ! q)" using shape w(3) by (metis shape_contents contents_def)
    then have "shape_ok ?os" using q by (simp add: shape_ok_def)
    from w(4) [OF this] have up: "owned_update (SS, h) i (mo_address mo) AS' (h'[q := ?os]) q" by simp
    have c: "contents ?os = copied M mo (contents (h ! r))"
    proof -
      have "contents ?os = (contents (h' ! q))\<lparr>concreteStore := host_bytes M mo\<rparr>" by (simp add: contents_def)
      then show ?thesis using w(3) u by (simp add: copied_def)
    qed
    have v: "view (h'[q := ?os]) AS' = (view h (SS ! i))(mo_address mo \<mapsto> contents ?os)"
      using view_owned [OF ok up i] i w(2) by simp
    have others: "view (h'[q := ?os]) (SS ! j) = view h (SS ! j)" if "j < length SS" "j \<noteq> i" for j
      using view_owned [OF ok up that(1)] that(2) by simp
    have b: "binding AS' = (binding (SS ! i))(mo_address mo \<mapsto> q)" using up unfolding owned_update_def by blast
    have "in_step n (SS, h) i (\<lambda>v. store_copied M v mo) {mo_address mo} True (True, AS', h'[q := ?os])"
      using spaces_ok_owned [OF ok up] others v b vr c by (simp add: in_step_def store_copied_def)
    then show ?thesis using start differ w(1,2) q by (simp add: nth_opt_def set_opt_def blocked_def)
  qed
qed

lemma view_bound: "binding AS a = Some r \<Longrightarrow> view h AS a = Some (contents (h ! r))"
  by (simp add: view_def)

lemma copied_contents [simp]: "blocked M mo (contents os) = blocked M mo os"
  by (simp add: blocked_def)

text \<open>The loop over the entries of the map as it was.\<close>

lemma copyIn_loop_ok:
  assumes en: "iterates MemoryObjectLT Select1st t ie []"
  shows "iterates MemoryObjectLT Select1st t it xs \<Longrightarrow> spaces_ok n (SS, h) \<Longrightarrow> i < length SS \<Longrightarrow>
    \<forall>(mo, r) \<in> set xs. binding (SS ! i) (mo_address mo) = Some r \<and> bytes (h ! r) = unat (mo_size mo) \<Longrightarrow>
    distinct (map (mo_address \<circ> fst) xs) \<Longrightarrow>
    \<exists>res. copyIn_loop it ie M (SS ! i, h) = Some res
      \<and> in_step n (SS, h) i (\<lambda>v. foldl (store_copied M) v (map fst xs)) (mo_address ` fst ` set xs)
           (\<forall>(mo, r) \<in> set xs. \<not> blocked M mo (h ! r)) res"
proof (induction xs arbitrary: it SS h)
  case Nil
  then have "iterator_eq it ie" using mo_order.iterates_eq [OF Nil.prems(1) en] by simp
  then show ?case using in_step_same [OF Nil.prems(2,3), of True] by (subst copyIn_loop.simps) simp
next
  case (Cons x xs)
  obtain mo r where x: "x = (mo, r)" by (cases x)
  have ne: "\<not> iterator_eq it ie" using mo_order.iterates_eq [OF Cons.prems(1) en] by simp
  obtain it' where it': "iterator_incr it = Some it'" "iterates MemoryObjectLT Select1st t it' xs"
    using mo_order.incr_ok [OF Cons.prems(1)] by blast
  have d: "iterator_deref it = Some (mo, r)" using mo_order.deref_ok [OF Cons.prems(1)] x by simp
  have r: "binding (SS ! i) (mo_address mo) = Some r" "bytes (h ! r) = unat (mo_size mo)" using Cons.prems(4) x by auto
  let ?ok = "\<not> blocked M mo (h ! r)"
  obtain AS1 h1 where one: "(if mo_isUserSpecified mo then Some (True, SS ! i, h)
        else copyInConcrete mo r (mo_address mo) M (SS ! i, h)) = Some (?ok, AS1, h1)"
      "in_step n (SS, h) i (\<lambda>v. store_copied M v mo) {mo_address mo} ?ok (?ok, AS1, h1)"
  proof (cases "mo_isUserSpecified mo")
    case True
    have "store_copied M v mo = v" for v
      using True by (cases "v (mo_address mo)") (auto simp: store_copied_def copied_def fun_upd_idem_iff)
    then show ?thesis using that [of "SS ! i" h] True in_step_same [OF Cons.prems(2,3), of True] by (simp add: blocked_def)
  next
    case False
    obtain res where res: "copyInConcrete mo r (mo_address mo) M (SS ! i, h) = Some res"
        "in_step n (SS, h) i (\<lambda>v. store_copied M v mo) {mo_address mo} ?ok res"
      using copyInConcrete_ok [OF Cons.prems(2,3) r False] by blast
    obtain b AS1 h1 where e: "res = (b, AS1, h1)" by (cases res)
    then have "b = ?ok" using res(2) by (simp add: in_step_def)
    then show ?thesis using that [of AS1 h1] res False e by simp
  qed
  note s1 = one(2) [unfolded in_step_def prod.case]
  show ?case
  proof (cases ?ok)
    case False
    have "in_step n (SS, h) i (\<lambda>v. foldl (store_copied M) v (map fst (x # xs))) (mo_address ` fst ` set (x # xs))
        False (False, AS1, h1)"
      using s1 False x by (simp add: in_step_def)
    then show ?thesis using ne d one(1) False x by (subst copyIn_loop.simps) auto
  next
    case True
    let ?SS = "SS[i := AS1]"
    have keep: "binding (?SS ! i) (mo_address (fst y)) = binding (SS ! i) (mo_address (fst y))"
      "view h1 (?SS ! i) (mo_address (fst y)) = view h (SS ! i) (mo_address (fst y))" if "y \<in> set xs" for y
    proof -
      have "mo_address mo \<notin> (\<lambda>a. mo_address (fst a)) ` set xs" using Cons.prems(5) x by simp
      then have "mo_address (fst y) \<noteq> mo_address mo" using imageI [OF that, of "\<lambda>a. mo_address (fst a)"] by metis
      then have "binding AS1 (mo_address (fst y)) = binding (SS ! i) (mo_address (fst y))
          \<and> view h1 AS1 (mo_address (fst y)) = view h (SS ! i) (mo_address (fst y))" using s1 by blast
      then show "binding (?SS ! i) (mo_address (fst y)) = binding (SS ! i) (mo_address (fst y))"
        "view h1 (?SS ! i) (mo_address (fst y)) = view h (SS ! i) (mo_address (fst y))" using Cons.prems(3) by simp_all
    qed
    have same: "binding (?SS ! i) (mo_address (fst y)) = Some (snd y) \<and> contents (h1 ! snd y) = contents (h ! snd y)"
      if y: "y \<in> set xs" for y
    proof -
      have b: "binding (SS ! i) (mo_address (fst y)) = Some (snd y)" using Cons.prems(4) y by (cases y) auto
      then have "view h1 (?SS ! i) (mo_address (fst y)) = Some (contents (h1 ! snd y))"
        using keep(1) [OF y] view_bound by metis
      then show ?thesis using keep [OF y] view_bound [OF b, of h] b by simp
    qed
    have ok1: "spaces_ok n (?SS, h1)" using s1 by blast
    have i1: "i < length ?SS" using Cons.prems(3) by simp
    have sizes: "\<forall>(mo, r) \<in> set xs. binding (?SS ! i) (mo_address mo) = Some r \<and> bytes (h1 ! r) = unat (mo_size mo)"
    proof (rule ballI)
      fix y assume y: "y \<in> set xs"
      have "bytes (h1 ! snd y) = bytes (h ! snd y)" using same [OF y] by (metis contents_sel(3))
      then show "case y of (mo, r) \<Rightarrow> binding (?SS ! i) (mo_address mo) = Some r \<and> bytes (h1 ! r) = unat (mo_size mo)"
        using same [OF y] Cons.prems(4) y by (cases y) auto
    qed
    have dist: "distinct (map (mo_address \<circ> fst) xs)" using Cons.prems(5) by (simp only: list.map distinct.simps)
    obtain res where res: "copyIn_loop it' ie M (?SS ! i, h1) = Some res"
        "in_step n (?SS, h1) i (\<lambda>v. foldl (store_copied M) v (map fst xs)) (mo_address ` fst ` set xs)
           (\<forall>(mo, r) \<in> set xs. \<not> blocked M mo (h1 ! r)) res"
      using Cons.IH [OF it'(2) ok1 i1 sizes dist] by blast
    obtain ok2 AS2 h2 where e: "res = (ok2, AS2, h2)" by (cases res)
    note two = res [unfolded e]
    have bl: "(\<forall>(mo, r) \<in> set xs. \<not> blocked M mo (h1 ! r)) = (\<forall>(mo, r) \<in> set xs. \<not> blocked M mo (h ! r))"
    proof (rule ball_cong [OF refl])
      fix y assume y: "y \<in> set xs"
      have "blocked M (fst y) (h1 ! snd y) = blocked M (fst y) (h ! snd y)"
        using same [OF y] by (metis copied_contents)
      then show "(case y of (mo, r) \<Rightarrow> \<not> blocked M mo (h1 ! r)) = (case y of (mo, r) \<Rightarrow> \<not> blocked M mo (h ! r))"
        by (cases y) simp
    qed
    note s2 = two(2) [unfolded in_step_def prod.case bl]
    have others: "view h2 (SS ! j) = view h (SS ! j)" if "j < length SS" "j \<noteq> i" for j
    proof -
      have "view h2 (?SS ! j) = view h1 (?SS ! j)" using s2 that by (metis length_list_update)
      moreover have "view h1 (SS ! j) = view h (SS ! j)" using s1 that by blast
      ultimately show ?thesis using that by simp
    qed
    have rest: "binding AS2 a = binding (SS ! i) a \<and> view h2 AS2 a = view h (SS ! i) a"
      if "a \<notin> mo_address ` fst ` set (x # xs)" for a
    proof -
      have a: "a \<notin> mo_address ` fst ` set xs" "a \<notin> {mo_address mo}" using that x by simp_all
      have "binding AS2 a = binding (?SS ! i) a \<and> view h2 AS2 a = view h1 (?SS ! i) a" using s2 a(1) by blast
      moreover have "binding AS1 a = binding (SS ! i) a \<and> view h1 AS1 a = view h (SS ! i) a" using s1 a(2) by blast
      ultimately show ?thesis using Cons.prems(3) by simp
    qed
    have "in_step n (SS, h) i (\<lambda>v. foldl (store_copied M) v (map fst (x # xs))) (mo_address ` fst ` set (x # xs))
        (\<forall>(mo, r) \<in> set (x # xs). \<not> blocked M mo (h ! r)) (ok2, AS2, h2)"
      unfolding in_step_def prod.case
    proof (intro conjI allI impI)
      have "ok2 = (\<forall>(mo, r) \<in> set xs. \<not> blocked M mo (h ! r))" using s2 by blast
      then show "ok2 = (\<forall>(mo, r) \<in> set (x # xs). \<not> blocked M mo (h ! r))" using True x by simp
      have "spaces_ok n (?SS[i := AS2], h2)" using s2 by blast
      then show "spaces_ok n (SS[i := AS2], h2)" by simp
      show "view h2 AS2 = foldl (store_copied M) (view h (SS ! i)) (map fst (x # xs))"
        if "\<forall>(mo, r) \<in> set (x # xs). \<not> blocked M mo (h ! r)"
      proof -
        have "\<forall>(mo, r) \<in> set xs. \<not> blocked M mo (h ! r)" using that by simp
        then have "view h2 AS2 = foldl (store_copied M) (view h1 (?SS ! i)) (map fst xs)" using s2 by blast
        moreover have "view h1 AS1 = store_copied M (view h (SS ! i)) mo" using s1 True by blast
        ultimately show ?thesis using Cons.prems(3) x by simp
      qed
    qed (use others rest in blast)+
    then show ?thesis using ne d one(1) True x it'(1) two(1) i1 by (subst copyIn_loop.simps) auto
  qed
qed

text \<open>The object states of a space have the sizes of their objects.\<close>

definition sized :: "os_heap \<Rightarrow> address_space \<Rightarrow> bool" where
  "sized h AS \<longleftrightarrow> (\<forall>(mo, r) \<in> set (entries AS). bytes (h ! r) = unat (mo_size mo))"

lemma entries_binding:
  assumes ok: "objects_ok AS" and x: "(mo, r) \<in> set (entries AS)"
  shows "binding AS (mo_address mo) = Some r"
proof -
  have key: "key_sorted MemoryObjectLT Select1st (inorder (objects AS))" using ok by (simp add: tree_ok_def)
  have "list_lookup MemoryObjectLT Select1st xs mo = Some (mo, r)"
    if "key_sorted MemoryObjectLT Select1st xs" "(mo, r) \<in> set xs" for xs :: "object_pair list"
    using that by (induction xs) (auto simp: Select1st_def MemoryObjectLT_def)
  from this [OF key] x have "list_lookup MemoryObjectLT Select1st (inorder (objects AS)) mo = Some (mo, r)"
    by (simp add: entries_def)
  then show ?thesis using findObject_binding [OF ok, of mo]
    by (simp add: findObject_def ImmutableMap_lookup_def mo_order.lookup_inorder [OF key])
qed

lemma binding_entries:
  assumes ok: "objects_ok AS" and b: "binding AS a = Some r"
  shows "\<exists>mo. (mo, r) \<in> set (entries AS) \<and> mo_address mo = a"
proof -
  have key: "key_sorted MemoryObjectLT Select1st (inorder (objects AS))" using ok by (simp add: tree_ok_def)
  obtain x where "list_lookup MemoryObjectLT Select1st (inorder (objects AS)) (MemoryObject_hack a) = Some x" "snd x = r"
    using b by (auto simp: binding_def findObject_def ImmutableMap_lookup_def mo_order.lookup_inorder [OF key])
  then show ?thesis by (auto simp: list_lookup_def find_Some_iff entries_def Select1st_def intro!: exI [of _ "fst x"])
qed

lemma distinct_addresses:
  assumes "objects_ok AS"
  shows "distinct (map (mo_address \<circ> fst) (entries AS))"
proof -
  have "distinct (map (mo_address \<circ> fst) xs)" if "key_sorted MemoryObjectLT Select1st xs" for xs :: "object_pair list"
    using that by (induction xs) (auto simp: Select1st_def MemoryObjectLT_def)
  then show ?thesis using assms by (simp add: tree_ok_def entries_def)
qed

lemma find_distinct:
  "distinct (map f xs) \<Longrightarrow> x \<in> set xs \<Longrightarrow> find (\<lambda>y. f y = f x) xs = Some x"
proof (induction xs)
  case (Cons y ys)
  then show ?case using imageI [of x "set ys" f] by (cases "x = y") auto
qed simp

lemma foldl_store_copied:
  "distinct (map mo_address mos) \<Longrightarrow>
     foldl (store_copied M) v mos a =
       (case find (\<lambda>mo. mo_address mo = a) mos of None \<Rightarrow> v a | Some mo \<Rightarrow> map_option (copied M mo) (v a))"
proof (induction mos arbitrary: v)
  case (Cons mo mos)
  have "find (\<lambda>mo. mo_address mo = a) mos = None" if "mo_address mo = a"
    using Cons.prems that unfolding find_None_iff by (metis distinct.simps(2) imageI list.set_map list.simps(9))
  then show ?case using Cons by (auto simp: store_copied_def split: option.split)
qed simp

lemma copyInConcretes_ok:
  assumes ok: "spaces_ok n (SS, h)" and i: "i < length SS" and sz: "sized h (SS ! i)"
  shows "\<exists>b AS' h'. copyInConcretes M (SS ! i, h) = Some (b, AS', h') \<and> spaces_ok n (SS[i := AS'], h')
    \<and> (\<forall>j < length SS. j \<noteq> i \<longrightarrow> view h' (SS ! j) = view h (SS ! j))
    \<and> (b \<longleftrightarrow> (\<forall>(mo, r) \<in> set (entries (SS ! i)). \<not> blocked M mo (h ! r)))
    \<and> (\<forall>a. binding (SS ! i) a = None \<longrightarrow> view h' AS' a = None)
    \<and> (b \<longrightarrow> (\<forall>(mo, r) \<in> set (entries (SS ! i)). view h' AS' (mo_address mo) = Some (copied M mo (contents (h ! r)))))"
proof -
  let ?AS = "SS ! i"
  have o: "objects_ok ?AS" using spaces_okD(1) [OF ok i] .
  obtain it ie where it: "ImmutableMap_begin (objects ?AS) = Some it" "iterates MemoryObjectLT Select1st (objects ?AS) it (entries ?AS)"
      "ImmutableMap_end (objects ?AS) = Some ie" "iterates MemoryObjectLT Select1st (objects ?AS) ie []"
    using mo_order.begin_ok [OF o] mo_order.end_ok [OF o] unfolding ImmutableMap_begin_def ImmutableMap_end_def entries_def by blast
  have "\<forall>(mo, r) \<in> set (entries ?AS). binding ?AS (mo_address mo) = Some r \<and> bytes (h ! r) = unat (mo_size mo)"
    using entries_binding [OF o] sz unfolding sized_def by blast
  from copyIn_loop_ok [OF it(4) it(2) ok i this distinct_addresses [OF o], of M]
  obtain res where res: "copyIn_loop it ie M (?AS, h) = Some res"
      "in_step n (SS, h) i (\<lambda>v. foldl (store_copied M) v (map fst (entries ?AS))) (mo_address ` fst ` set (entries ?AS))
         (\<forall>(mo, r) \<in> set (entries ?AS). \<not> blocked M mo (h ! r)) res" by blast
  obtain b AS' h' where e: "res = (b, AS', h')" by (cases res)
  note s = res(2) [unfolded e in_step_def prod.case]
  have run: "copyInConcretes M (?AS, h) = Some (b, AS', h')" using it(1,3) res(1) e by (simp add: copyInConcretes_def)
  have dist: "distinct (map mo_address (map fst (entries ?AS)))" using distinct_addresses [OF o] by (simp add: comp_def)
  have none: "view h' AS' a = None" if n: "binding ?AS a = None" for a
  proof -
    have "a \<notin> mo_address ` fst ` set (entries ?AS)"
    proof
      assume "a \<in> mo_address ` fst ` set (entries ?AS)"
      then obtain mo r where "(mo, r) \<in> set (entries ?AS)" "a = mo_address mo" by auto
      then show False using entries_binding [OF o] n by fastforce
    qed
    then have "view h' AS' a = view h ?AS a" using s by blast
    then show ?thesis using n by (simp add: view_def)
  qed
  have bound: "view h' AS' (mo_address mo) = Some (copied M mo (contents (h ! r)))"
    if b: "b" and x: "(mo, r) \<in> set (entries ?AS)" for mo r
  proof -
    have "view h' AS' = foldl (store_copied M) (view h ?AS) (map fst (entries ?AS))" using s b by blast
    moreover have "find (\<lambda>m. mo_address m = mo_address mo) (map fst (entries ?AS)) = Some mo"
      by (rule find_distinct [OF dist]) (use x in force)
    ultimately show ?thesis using foldl_store_copied [OF dist] view_bound [OF entries_binding [OF o x]] by simp
  qed
  show ?thesis using run s none bound by blast
qed

subsection \<open>Copying out\<close>

lemma add_no_wrap:
  fixes b :: uint64
  assumes "uint b + int n \<le> 2 ^ 64" "i < n"
  shows "uint (b + of_nat i) = uint b + int i"
proof -
  have "0 \<le> uint b" by simp
  then have i: "int i < 2 ^ 64" using assms by linarith
  then have "int (take_bit 64 i) = int i" by (simp add: take_bit_nat_eq_self)
  moreover have "(uint b + int i) mod 2 ^ 64 = uint b + int i" using assms by (intro mod_pos_pos_trivial) simp_all
  ultimately show ?thesis by (simp add: uint_word_ariths(1) unsigned_of_nat)
qed

lemma host_read_write:
  assumes "uint a + int (length bs) \<le> 2 ^ 64"
  shows "host_read (host_write M a bs) a (length bs) = bs"
proof (rule nth_equalityI)
  fix i assume "i < length (host_read (host_write M a bs) a (length bs))"
  then have i: "i < length bs" by (simp add: host_read_def)
  have "0 \<le> uint a" by simp
  then have "int i < 2 ^ 64" using i assms by linarith
  then have "unat (of_nat i :: uint64) = i" by (simp add: unsigned_of_nat take_bit_nat_eq_self)
  then show "host_read (host_write M a bs) a (length bs) ! i = bs ! i"
    using i by (simp add: host_read_def host_write_def)
qed (simp add: host_read_def)

text \<open>A write below or above a range leaves the range alone.\<close>

lemma host_read_other:
  assumes a: "uint a + int (length bs) \<le> 2 ^ 64" and b: "uint b + int n \<le> 2 ^ 64"
    and d: "uint a + int (length bs) \<le> uint b \<or> uint b + int n \<le> uint a"
  shows "host_read (host_write M a bs) b n = host_read M b n"
proof -
  have "\<not> unat (b + of_nat i - a) < length bs" if i: "i < n" for i
  proof -
    let ?x = "b + of_nat i"
    have x: "uint ?x = uint b + int i" by (rule add_no_wrap [OF b i])
    have "int (length bs) \<le> uint (?x - a)"
    proof (cases "a \<le> ?x")
      case True
      then have "uint (?x - a) = uint ?x - uint a" by (simp add: uint_sub_lem [THEN iffD1] word_le_def)
      then show ?thesis using d x i True by (auto simp: word_le_def)
    next
      case False
      then have "uint (?x - a) = uint ?x - uint a + 2 ^ 64" by (simp add: uint_sub_if' word_le_def)
      moreover have "0 \<le> uint ?x" by simp
      ultimately show ?thesis using a by linarith
    qed
    then have "int (length bs) \<le> int (unat (?x - a))" by (simp only: of_nat_unat)
    then show ?thesis unfolding of_nat_le_iff not_less .
  qed
  then show ?thesis by (simp add: host_read_def host_write_def)
qed

definition out_step :: "os_heap \<Rightarrow> host \<Rightarrow> object_pair \<Rightarrow> host" where
  "out_step h M x = (case x of (mo, r) \<Rightarrow>
     if \<not> mo_isUserSpecified mo \<and> \<not> readOnly (h ! r)
     then host_write M (mo_address mo) (concreteStore (h ! r)) else M)"

lemma copyOut_loop_ok:
  assumes en: "iterates MemoryObjectLT Select1st t ie []"
  shows "iterates MemoryObjectLT Select1st t it xs \<Longrightarrow>
    \<forall>(mo, r) \<in> set xs. r < length h \<and> length (concreteStore (h ! r)) = unat (mo_size mo) \<Longrightarrow>
    copyOut_loop h it ie M = Some (foldl (out_step h) M xs)"
proof (induction xs arbitrary: it M)
  case Nil
  then have "iterator_eq it ie" using mo_order.iterates_eq [OF Nil.prems(1) en] by simp
  then show ?case by (subst copyOut_loop.simps) simp
next
  case (Cons x xs)
  obtain mo r where x: "x = (mo, r)" by (cases x)
  have ne: "\<not> iterator_eq it ie" using mo_order.iterates_eq [OF Cons.prems(1) en] by simp
  obtain it' where it': "iterator_incr it = Some it'" "iterates MemoryObjectLT Select1st t it' xs"
    using mo_order.incr_ok [OF Cons.prems(1)] by blast
  have d: "iterator_deref it = Some (mo, r)" using mo_order.deref_ok [OF Cons.prems(1)] x by simp
  have r: "r < length h" "length (concreteStore (h ! r)) = unat (mo_size mo)" using Cons.prems(2) x by auto
  have "copyOut_loop h it' ie (out_step h M x) = Some (foldl (out_step h) (out_step h M x) xs)"
    by (rule Cons.IH [OF it'(2)]) (use Cons.prems(2) in auto)
  then show ?case using ne d it'(1) r x
    by (subst copyOut_loop.simps) (auto simp: nth_opt_def store_bytes_def out_step_def split: if_splits)
qed

text \<open>Objects that do not overlap, with the lengths of their stores.\<close>

lemma out_other:
  assumes "apart x y \<or> apart y x" "fits E (fst x)" "fits E (fst y)" "pointerWidth E \<le> 64"
    and "length (concreteStore (h ! snd y)) = unat (mo_size (fst y))"
  shows "host_bytes (out_step h M y) (fst x) = host_bytes M (fst x)"
proof -
  have "(2 :: int) ^ pointerWidth E \<le> 2 ^ 64" using assms(4) by (rule power_increasing) simp
  then have "uint (mo_address (fst y)) + int (length (concreteStore (h ! snd y))) \<le> 2 ^ 64"
    "uint (mo_address (fst x)) + int (unat (mo_size (fst x))) \<le> 2 ^ 64"
    using assms(2,3,5) by (simp_all add: fits_def)
  from host_read_other [OF this, of M] show ?thesis
    using assms(1,5) by (cases y) (auto simp: out_step_def host_bytes_def apart_def)
qed

lemma out_others:
  assumes "fits E (fst x)" "pointerWidth E \<le> 64"
  shows "\<forall>y \<in> set ys. (apart x y \<or> apart y x) \<and> fits E (fst y)
      \<and> length (concreteStore (h ! snd y)) = unat (mo_size (fst y)) \<Longrightarrow>
    host_bytes (foldl (out_step h) M ys) (fst x) = host_bytes M (fst x)"
proof (induction ys arbitrary: M)
  case (Cons y ys)
  have "host_bytes (foldl (out_step h) (out_step h M y) ys) (fst x) = host_bytes (out_step h M y) (fst x)"
    by (rule Cons.IH) (use Cons.prems in simp)
  then show ?case using out_other [of x y E h M] assms Cons.prems by simp
qed simp

lemma out_member:
  assumes sep: "separated E AS" and pw: "pointerWidth E \<le> 64" and x: "x \<in> set (entries AS)"
    and len: "\<forall>y \<in> set (entries AS). length (concreteStore (h ! snd y)) = unat (mo_size (fst y))"
  shows "host_bytes (foldl (out_step h) M (entries AS)) (fst x) =
     (if \<not> mo_isUserSpecified (fst x) \<and> \<not> readOnly (h ! snd x) then concreteStore (h ! snd x) else host_bytes M (fst x))"
proof -
  obtain xs ys where e: "entries AS = xs @ x # ys" using x by (auto dest: split_list)
  have fits: "\<And>y. y \<in> set (entries AS) \<Longrightarrow> fits E (fst y)" using sep by (simp add: separated_def)
  have before: "host_bytes (foldl (out_step h) M xs) (fst x) = host_bytes M (fst x)"
    by (rule out_others [OF fits [OF x] pw]) (use separated_order(4) [OF sep e] fits len e in auto)
  have after: "host_bytes (foldl (out_step h) M' ys) (fst x) = host_bytes M' (fst x)" for M'
    by (rule out_others [OF fits [OF x] pw]) (use separated_order(2) [OF sep e] fits len e in auto)
  have "(2 :: int) ^ pointerWidth E \<le> 2 ^ 64" using pw by (rule power_increasing) simp
  then have "uint (mo_address (fst x)) + int (length (concreteStore (h ! snd x))) \<le> 2 ^ 64"
    using fits [OF x] len x by (simp add: fits_def)
  from host_read_write [OF this] have "host_bytes (out_step h M' x) (fst x) =
      (if \<not> mo_isUserSpecified (fst x) \<and> \<not> readOnly (h ! snd x) then concreteStore (h ! snd x) else host_bytes M' (fst x))" for M'
    using len [THEN bspec, OF x] by (cases x) (simp add: out_step_def host_bytes_def)
  then show ?thesis using before after by (simp add: e)
qed

lemma copyOutConcretes_ok:
  assumes sep: "separated E AS" and pw: "pointerWidth E \<le> 64"
    and h: "\<forall>(mo, r) \<in> set (entries AS). r < length h \<and> shape_ok (h ! r)" and sz: "sized h AS"
  shows "\<exists>M'. copyOutConcretes (AS, h) M = Some M' \<and>
    (\<forall>(mo, r) \<in> set (entries AS). host_bytes M' mo =
       (if \<not> mo_isUserSpecified mo \<and> \<not> readOnly (h ! r) then concreteStore (h ! r) else host_bytes M mo))"
proof -
  have ok: "objects_ok AS" using sep by (simp add: separated_def)
  obtain it ie where it: "ImmutableMap_begin (objects AS) = Some it" "iterates MemoryObjectLT Select1st (objects AS) it (entries AS)"
      "ImmutableMap_end (objects AS) = Some ie" "iterates MemoryObjectLT Select1st (objects AS) ie []"
    using mo_order.begin_ok [OF ok] mo_order.end_ok [OF ok] unfolding ImmutableMap_begin_def ImmutableMap_end_def entries_def by blast
  have len: "r < length h \<and> length (concreteStore (h ! r)) = unat (mo_size mo)" if "(mo, r) \<in> set (entries AS)" for mo r
    using h sz that unfolding sized_def shape_ok_def by fastforce
  have "copyOut_loop h it ie M = Some (foldl (out_step h) M (entries AS))"
    by (rule copyOut_loop_ok [OF it(4) it(2)]) (use len in blast)
  then have "copyOutConcretes (AS, h) M = Some (foldl (out_step h) M (entries AS))"
    using it(1,3) by (simp add: copyOutConcretes_def)
  moreover have lens: "\<forall>y \<in> set (entries AS). length (concreteStore (h ! snd y)) = unat (mo_size (fst y))"
    using len by auto
  have "\<forall>(mo, r) \<in> set (entries AS). host_bytes (foldl (out_step h) M (entries AS)) mo =
       (if \<not> mo_isUserSpecified mo \<and> \<not> readOnly (h ! r) then concreteStore (h ! r) else host_bytes M mo)"
  proof (rule ballI)
    fix y assume y: "y \<in> set (entries AS)"
    show "case y of (mo, r) \<Rightarrow> host_bytes (foldl (out_step h) M (entries AS)) mo =
       (if \<not> mo_isUserSpecified mo \<and> \<not> readOnly (h ! r) then concreteStore (h ! r) else host_bytes M mo)"
      using out_member [OF sep pw y lens, of M] by (cases y) simp
  qed
  ultimately show ?thesis by blast
qed

end
