(* ===== verification/AddressSpaceProps.thy ===== *)
theory AddressSpaceProps
  imports AddressSpaceHost
begin

text \<open>The properties of address spaces: copy on write, resolution, memory for external code.\<close>

subsection \<open>An example system\<close>

definition mo_a :: memory_object where
  "mo_a = (MemoryObject_hack 0x10)\<lparr>mo_id := 1, mo_size := 4\<rparr>"

definition mo_b :: memory_object where
  "mo_b = (MemoryObject_hack 0x20)\<lparr>mo_id := 2, mo_size := 8\<rparr>"

definition object_of :: "memory_object \<Rightarrow> object_state" where
  "object_of mo = fresh_object mo None"

lemma object_of_ok [simp]: "shape_ok (object_of mo)" "copyOnWriteOwner (object_of mo) = 0"
  "contents (object_of mo) = object_of mo" "os_size (object_of mo) = mo_size mo" "readOnly (object_of mo) = False"
  "concreteStore (object_of mo) = replicate (unat (mo_size mo)) 0"
  by (simp_all add: object_of_def fresh_object_def shape_ok_def contents_def)

lemma object_addresses [simp]: "mo_address mo_a = 0x10" "mo_address mo_b = 0x20" "mo_size mo_a = 4" "mo_size mo_b = 8"
  "mo_isUserSpecified mo_a = False" "mo_isUserSpecified mo_b = False"
  by (simp_all add: mo_a_def mo_b_def MemoryObject_hack_def)

definition two_objects :: address_space where
  "two_objects = \<lparr>cowKey = 1, objects = new_Node Terminator (new_Node Terminator Terminator (mo_b, 1)) (mo_a, 0)\<rparr>"

lemma two_entries [simp]: "entries two_objects = [(mo_a, 0), (mo_b, 1)]"
  by (simp add: two_objects_def entries_def)

lemma two_ok [simp]: "objects_ok two_objects"
  by (simp add: two_objects_def tree_ok_def Select1st_def MemoryObjectLT_def)

lemma two_separated [simp]: "separated default_mem two_objects"
  by (simp add: separated_def apart_def fits_def)

subsection \<open>Copy on write\<close>

text \<open>
  (C22) Copy on write is invisible: for every history of creating and copying address spaces,
  binding, unbinding and writing objects, with fewer than 2\<open>^\<close>32 - 1 steps so that no key wraps,
  the spaces with their shared object states run exactly when the abstract system does, in
  which every space has a memory of its own, and every space sees the contents it has there.
\<close>

theorem copy_on_write_refines:
  assumes "length as < 2 ^ 32 - 1" "\<forall>a \<in> set as. action_ok a"
  shows "map_option views (run_actions ([], []) as) = spec_actions [] as"
proof -
  have "spaces_ok 1 ([], [])" by (rule spaces_okI) simp_all
  from run_actions_ok [OF this, of as] have "refines_step (1 + length as) (run_actions ([], []) as) (spec_actions [] as)"
    using assms by (simp add: views_def)
  then show ?thesis by (cases "spec_actions [] as") (auto simp: refines_step_def)
qed

theorem copy_on_write_refines_witness:
  "map_option (map (\<lambda>v. map_option concreteStore (v 0x10)))
     (map_option views (run_actions ([], [])
        [NewSpace, BindObject 0 mo_a (object_of mo_a), CopySpace 0,
         WriteObject 1 mo_a ((object_of mo_a)\<lparr>concreteStore := [1, 2, 3, 4]\<rparr>)]))
   = Some [Some [0, 0, 0, 0], Some [1, 2, 3, 4]]"
proof -
  let ?os = "(object_of mo_a)\<lparr>concreteStore := [1, 2, 3, 4]\<rparr>"
  let ?as = "[NewSpace, BindObject 0 mo_a (object_of mo_a), CopySpace 0, WriteObject 1 mo_a ?os]"
  have s: "shape_ok ?os" by (simp add: object_of_def fresh_object_def shape_ok_def)
  have four: "replicate 4 (0 :: 8 word) = [0, 0, 0, 0]" by (simp add: numeral_eq_Suc)
  have "length ?as < 2 ^ 32 - 1" "\<forall>a \<in> set ?as. action_ok a" using s by simp_all
  note run = copy_on_write_refines [OF this]
  have "spec_actions [] ?as = Some [(\<lambda>_. None)(0x10 \<mapsto> object_of mo_a), (\<lambda>_. None)(0x10 \<mapsto> contents ?os)]"
    by (simp add: nth_opt_def)
  then show ?thesis unfolding run by (simp add: contents_def four)
qed

text \<open>
  (C23) The invariant that the header of \<open>AddressSpace\<close> documents, and what makes writing in place
  safe: in every system that such a history reaches, every bound object state has an owner
  that is at most the key of the space, and one whose owner is the key of the space is bound in
  no other space and at no other address.
\<close>

theorem owned_exclusively:
  assumes "length as < 2 ^ 32 - 1" "\<forall>a \<in> set as. action_ok a" "run_actions ([], []) as = Some (SS, h)"
    and "i < length SS" "findObject (SS ! i) mo = Some r"
  shows "r < length h \<and> copyOnWriteOwner (h ! r) \<le> cowKey (SS ! i) \<and>
    (copyOnWriteOwner (h ! r) = cowKey (SS ! i) \<longrightarrow>
      (\<forall>j < length SS. \<forall>mo'. findObject (SS ! j) mo' = Some r \<longrightarrow> j = i \<and> mo_address mo' = mo_address mo))"
proof -
  have "spaces_ok 1 ([], [])" by (rule spaces_okI) simp_all
  from run_actions_ok [OF this, of as] assms(1-3) have ok: "spaces_ok (1 + length as) (SS, h)"
    by (auto simp: refines_step_def split: option.splits)
  have b: "binding (SS ! i) (mo_address mo) = Some r"
    using findObject_binding [OF spaces_okD(1) [OF ok assms(4)]] assms(5) by simp
  have "j = i \<and> mo_address mo' = mo_address mo"
    if own: "copyOnWriteOwner (h ! r) = cowKey (SS ! i)" and j: "j < length SS" "findObject (SS ! j) mo' = Some r" for j mo'
  proof -
    have b': "binding (SS ! j) (mo_address mo') = Some r"
      using findObject_binding [OF spaces_okD(1) [OF ok j(1)]] j(2) by simp
    have "j = i"
    proof (rule ccontr)
      assume "j \<noteq> i"
      then have "owner h r < key (SS ! i)" using spaces_okD(9) [OF ok assms(4) j(1) b b'] by simp
      then show False using own by (simp add: owner_def key_def)
    qed
    then show ?thesis using spaces_okD(8) [OF ok assms(4) j(1) b b'] by simp
  qed
  moreover have "copyOnWriteOwner (h ! r) \<le> cowKey (SS ! i)"
    using spaces_okD(7) [OF ok assms(4) b] by (simp add: owner_def key_def word_le_nat_alt)
  ultimately show ?thesis using spaces_okD(5) [OF ok assms(4) b] by blast
qed

theorem owned_exclusively_witness:
  "\<exists>SS h. run_actions ([], []) [NewSpace, BindObject 0 mo_a (object_of mo_a), CopySpace 0] = Some (SS, h)
     \<and> findObject (SS ! 1) mo_a = Some 0 \<and> copyOnWriteOwner (h ! 0) \<le> cowKey (SS ! 1)"
proof -
  let ?as = "[NewSpace, BindObject 0 mo_a (object_of mo_a), CopySpace 0]"
  obtain SS h where r: "run_actions ([], []) ?as = Some (SS, h)" "1 < length SS" "findObject (SS ! 1) mo_a = Some 0"
    by (simp add: nth_opt_def bindObject_def set_opt_def AddressSpace_new_def AddressSpace_copy_def Let_def
        findObject_def map_unfold ImmutableTree_replace_def new_Node_def Select1st_def MemoryObjectLT_def)
  then show ?thesis using owned_exclusively [OF _ _ r(1) r(2) r(3)] by auto
qed

subsection \<open>Resolution\<close>

text \<open>
  (C26) A constant address resolves to the object that contains it: in an address space whose
  objects do not overlap, \<open>resolveOne\<close> returns the one object that contains the address, objects
  without bytes at their base address included, and nothing if there is none.
\<close>

theorem resolve_address_exact:
  assumes "mem_env_ok E" "pointerWidth E \<in> {32, 64}" "separated E AS" "ap_ok c" "ap_width c = pointerWidth E"
  shows "\<exists>res. resolveOne_const (api (me_expr E)) AS c = Some res
    \<and> (\<forall>x. res = Some x \<longleftrightarrow> x \<in> set (entries AS) \<and> contains (fst x) (ap_value c))"
proof -
  obtain a where a: "getZExtValue (api (me_expr E)) c 64 = Some a" "uint a = ap_value c"
    using mem_model.constant_address [OF mem_modelI [OF assms(1)] assms(2,4,5)] by blast
  show ?thesis using resolve_constant [OF assms(3) a(1)] unfolding a(2) .
qed

theorem resolve_address_exact_witness:
  "resolveOne_const (api (me_expr default_mem)) two_objects (APInt 64 0x27) = Some (Some (mo_b, 1))
   \<and> resolveOne_const (api (me_expr default_mem)) two_objects (APInt 64 0x14) = Some None"
proof -
  have ok: "ap_ok (APInt 64 0x27)" "ap_ok (APInt 64 0x14)" by (simp_all add: ap_ok_def)
  have c: "contains mo_b 0x27" "\<not> contains mo_a 0x14" "\<not> contains mo_b 0x14"
    by (simp_all add: contains_def)
  obtain x where x: "resolveOne_const (api (me_expr default_mem)) two_objects (APInt 64 0x27) = Some x"
      "\<And>y. x = Some y \<longleftrightarrow> y \<in> set (entries two_objects) \<and> contains (fst y) 0x27"
    using resolve_address_exact [OF default_mem_ok _ two_separated ok(1)] by auto
  obtain z where z: "resolveOne_const (api (me_expr default_mem)) two_objects (APInt 64 0x14) = Some z"
      "\<And>y. z = Some y \<longleftrightarrow> y \<in> set (entries two_objects) \<and> contains (fst y) 0x14"
    using resolve_address_exact [OF default_mem_ok _ two_separated ok(2)] by auto
  have "x = Some (mo_b, 1)" using x(2) [of "(mo_b, 1)"] c by simp
  moreover have "z = None" using z(2) [of "the z"] c by (cases z) auto
  ultimately show ?thesis using x(1) z(1) by simp
qed

text \<open>A pointer that is a byte of the array \<open>buf\<close>, in one of two assignments, and a solver for them.\<close>

definition buf_pointer :: expr where "buf_pointer = CastExpr ZExt (buf_byte 0) 64"

definition two_states :: "assignment set" where "two_states = {(\<lambda>_ _. 0x11), (\<lambda>_ _. 0x21)}"

definition exact_solver :: "unit timing_solver" where
  "exact_solver =
     \<lparr>ts_getValue = (\<lambda>e w. (Some (sem (\<lambda>_ _. 0x11) e), w)),
      ts_mayBeTrue = (\<lambda>e w. (Some (ap_value (sem (\<lambda>_ _. 0x11) e) \<noteq> 0 \<or> ap_value (sem (\<lambda>_ _. 0x21) e) \<noteq> 0), w)),
      ts_mustBeTrue = (\<lambda>e w. (Some (ap_value (sem (\<lambda>_ _. 0x11) e) \<noteq> 0 \<and> ap_value (sem (\<lambda>_ _. 0x21) e) \<noteq> 0), w)),
      ts_delta = (\<lambda>w. (0, w))\<rparr>"

lemma exact_solver_ok [simp]: "solver_answers exact_solver H two_states" "unlimited exact_solver 0"
  by (auto simp: solver_answers_def exact_solver_def two_states_def unlimited_def)

lemma buf_pointer_ok [simp]: "wt (heap buf_globals) buf_pointer" "getWidth buf_pointer = 64"
  by (simp_all add: buf_pointer_def buf_byte_def ap_ok_def)

lemma buf_pointer_may [simp]: "may_be two_states buf_pointer (mo_a, r)" "may_be two_states buf_pointer (mo_b, r)"
proof -
  have "ap_value (sem (\<lambda>_ _. 0x11) buf_pointer) = 0x11" "ap_value (sem (\<lambda>_ _. 0x21) buf_pointer) = 0x21"
    by (simp_all add: buf_pointer_def bv_zext_def mk_ap_def take_bit_int_eq_self)
  then show "may_be two_states buf_pointer (mo_a, r)" "may_be two_states buf_pointer (mo_b, r)"
    by (simp_all add: may_be_def two_states_def contains_def)
qed

text \<open>
  (C25) Resolution of a symbolic address to one object: when the answers of the solver are right,
  \<open>resolveOne\<close> ends without a failure, an object it returns can contain the address in the state,
  and when it says there is none the address is in no object in any assignment of the state.
\<close>

theorem resolve_one_sound:
  assumes "mem_env_ok E" "pointerWidth E \<in> {32, 64}" "wt H p" "getWidth p = pointerWidth E"
    and "solver_answers S H C" "separated E AS" "C \<noteq> {}"
  shows "\<exists>res w'. resolveOne E S AS p w = Some (res, w') \<and>
    (case res of
       QueryFailed \<Rightarrow> True
     | Unresolved \<Rightarrow> \<forall>op \<in> set (entries AS). \<not> may_be C p op
     | ResolvedTo op \<Rightarrow> op \<in> set (entries AS) \<and> may_be C p op)"
  using mem_model.resolveOne_ok [OF mem_modelI [OF assms(1)] assms(2-7)] unfolding one_answer_def .

theorem resolve_one_sound_witness:
  "\<exists>res w'. resolveOne default_mem exact_solver two_objects buf_pointer () = Some (res, w') \<and> res \<noteq> Unresolved"
proof -
  have "two_states \<noteq> {}" by (simp add: two_states_def)
  from resolve_one_sound [OF default_mem_ok _ buf_pointer_ok(1) _ exact_solver_ok(1) two_separated this, of "()"]
  obtain res w' where "resolveOne default_mem exact_solver two_objects buf_pointer () = Some (res, w')"
      "case res of QueryFailed \<Rightarrow> True | Unresolved \<Rightarrow> \<forall>op \<in> set (entries two_objects). \<not> may_be two_states buf_pointer op
       | ResolvedTo op \<Rightarrow> op \<in> set (entries two_objects) \<and> may_be two_states buf_pointer op"
    by auto
  then show ?thesis by (cases res) auto
qed

text \<open>
  (C24) Resolution to every object: \<open>resolve\<close> ends without a failure; when it does not report that
  it is incomplete the list has every object that the address can be in, each once, and no
  other, although the searches stop early and a single object that must contain the address
  ends them; a limit of at least two is kept; without a limit, and with a solver that always
  answers, the result is complete.
\<close>

theorem resolve_complete:
  assumes "mem_env_ok E" "pointerWidth E \<in> {32, 64}" "wt H p" "getWidth p = pointerWidth E"
    and "solver_answers S H C" "separated E AS" "C \<noteq> {}"
  shows "\<exists>inc rl w'. resolve E S AS p [] mx timeout w = Some (inc, rl, w')
    \<and> (\<not> inc \<longrightarrow> set rl = {op \<in> set (entries AS). may_be C p op} \<and> distinct rl)
    \<and> (2 \<le> unat mx \<longrightarrow> length rl \<le> unat mx)
    \<and> (unlimited S timeout \<longrightarrow> mx = 0 \<longrightarrow> \<not> inc)"
proof -
  have "unat mx < 2" if "mx = 0" using that by simp
  then show ?thesis
    using mem_model.resolve_ok [OF mem_modelI [OF assms(1)] assms(2-6), of mx timeout w] assms(7) by blast
qed

theorem resolve_complete_witness:
  "\<exists>rl w'. resolve default_mem exact_solver two_objects buf_pointer [] 0 0 () = Some (False, rl, w')
     \<and> set rl = {(mo_a, 0), (mo_b, 1)} \<and> distinct rl"
proof -
  have "two_states \<noteq> {}" by (simp add: two_states_def)
  from resolve_complete [OF default_mem_ok _ buf_pointer_ok(1) _ exact_solver_ok(1) two_separated this, of 0 0 "()"]
  obtain inc rl w' where r: "resolve default_mem exact_solver two_objects buf_pointer [] 0 0 () = Some (inc, rl, w')"
      "\<not> inc" "set rl = {op \<in> set (entries two_objects). may_be two_states buf_pointer op}" "distinct rl"
    by auto
  have "{op \<in> set (entries two_objects). may_be two_states buf_pointer op} = {(mo_a, 0), (mo_b, 1)}" by auto
  then show ?thesis using r by simp
qed

text \<open>
  A limit of one resolution has no effect: the first object found is only checked for being
  the only one, so with a solver that always answers \<open>resolve\<close> returns every object the address
  can be in and reports that the list is complete.
\<close>

theorem resolve_limit_one:
  assumes "mem_env_ok E" "pointerWidth E \<in> {32, 64}" "wt H p" "getWidth p = pointerWidth E"
    and "solver_answers S H C" "separated E AS" "C \<noteq> {}" "unlimited S timeout"
  shows "\<exists>rl w'. resolve E S AS p [] 1 timeout w = Some (False, rl, w')
    \<and> set rl = {op \<in> set (entries AS). may_be C p op}"
  using mem_model.resolve_ok [OF mem_modelI [OF assms(1)] assms(2-6), of 1 timeout w] assms(7,8) by auto

theorem resolve_limit_one_witness:
  "\<exists>rl w'. resolve default_mem exact_solver two_objects buf_pointer [] 1 0 () = Some (False, rl, w') \<and> length rl > 1"
proof -
  have "two_states \<noteq> {}" by (simp add: two_states_def)
  from resolve_limit_one [OF default_mem_ok _ buf_pointer_ok(1) _ exact_solver_ok(1) two_separated this exact_solver_ok(2), of "()"]
  obtain rl w' where r: "resolve default_mem exact_solver two_objects buf_pointer [] 1 0 () = Some (False, rl, w')"
      "set rl = {op \<in> set (entries two_objects). may_be two_states buf_pointer op}" by auto
  have "{op \<in> set (entries two_objects). may_be two_states buf_pointer op} = {(mo_a, 0), (mo_b, 1)}" by auto
  then have "card (set rl) = 2" using r(2) by simp
  then have "2 \<le> length rl" using card_length [of rl] by simp
  then show ?thesis using r(1) by auto
qed

subsection \<open>Memory for external code\<close>

definition two_heap :: os_heap where
  "two_heap = [(object_of mo_a)\<lparr>copyOnWriteOwner := 1\<rparr>, (object_of mo_b)\<lparr>copyOnWriteOwner := 1, concreteStore := [1, 2, 3, 4, 5, 6, 7, 8]\<rparr>]"

lemma two_binding: "binding two_objects a = (if a = 0x10 then Some 0 else if a = 0x20 then Some 1 else None)"
  by (auto simp: binding_def two_objects_def findObject_def map_unfold new_Node_def Select1st_def MemoryObjectLT_def)

lemma two_heap_sel [simp]: "length two_heap = 2"
  "readOnly (two_heap ! 0) = False" "readOnly (two_heap ! Suc 0) = False" "os_size (two_heap ! 0) = 4" "os_size (two_heap ! Suc 0) = 8"
  "copyOnWriteOwner (two_heap ! 0) = 1" "copyOnWriteOwner (two_heap ! Suc 0) = 1"
  "concreteStore (two_heap ! Suc 0) = [1, 2, 3, 4, 5, 6, 7, 8]"
  by (simp_all add: two_heap_def)

lemma two_key [simp]: "key two_objects = Suc 0"
  by (simp add: key_def two_objects_def)

lemma two_spaces_ok [simp]: "spaces_ok (Suc 0) ([two_objects], two_heap)" "sized two_heap two_objects"
proof -
  have "shape_ok os" if "os \<in> set two_heap" for os
    using that by (auto simp: two_heap_def object_of_def fresh_object_def shape_ok_def)
  then show "spaces_ok (Suc 0) ([two_objects], two_heap)"
    by (intro spaces_okI) (auto simp: owner_def two_binding split: if_splits)
  show "sized two_heap two_objects" by (simp add: sized_def)
qed

text \<open>
  (C27) After an external call the memory of the state is what the host has: \<open>copyInConcretes\<close>
  returns, changes no other address space, returns false exactly if the host differs on a
  read-only object, and otherwise the concrete store of every object that is not specified by
  the user holds the bytes of the host, and nothing else of the object states has changed.
\<close>

theorem copy_in_reads_host:
  assumes "spaces_ok n (SS, h)" "i < length SS" "sized h (SS ! i)"
  shows "\<exists>b AS' h'. copyInConcretes M (SS ! i, h) = Some (b, AS', h') \<and> spaces_ok n (SS[i := AS'], h')
    \<and> (\<forall>j < length SS. j \<noteq> i \<longrightarrow> view h' (SS ! j) = view h (SS ! j))
    \<and> (b \<longleftrightarrow> (\<forall>(mo, r) \<in> set (entries (SS ! i)). \<not> blocked M mo (h ! r)))
    \<and> (b \<longrightarrow> (\<forall>(mo, r) \<in> set (entries (SS ! i)). view h' AS' (mo_address mo) = Some (copied M mo (contents (h ! r)))))"
  using copyInConcretes_ok [OF assms, of M] by (elim exE conjE) (intro exI conjI; assumption)

theorem copy_in_reads_host_witness:
  "\<exists>AS' h'. copyInConcretes (\<lambda>_. 7) (two_objects, two_heap) = Some (True, AS', h')
     \<and> map_option concreteStore (view h' AS' 0x10) = Some [7, 7, 7, 7]"
proof -
  have four: "[0..<4] = [0, 1, 2, 3 :: nat]" by (simp add: upt_rec)
  have bytes: "host_bytes (\<lambda>_. 7) mo_a = [7, 7, 7, 7]" by (simp add: host_bytes_def host_read_def four)
  obtain b AS' h' where c: "copyInConcretes (\<lambda>_. 7) ([two_objects] ! 0, two_heap) = Some (b, AS', h')"
      "b \<longleftrightarrow> (\<forall>(mo, r) \<in> set (entries ([two_objects] ! 0)). \<not> blocked (\<lambda>_. 7) mo (two_heap ! r))"
      "b \<longrightarrow> (\<forall>(mo, r) \<in> set (entries ([two_objects] ! 0)).
         view h' AS' (mo_address mo) = Some (copied (\<lambda>_. 7) mo (contents (two_heap ! r))))"
    using copy_in_reads_host [OF two_spaces_ok(1), of 0 "\<lambda>_. 7"] two_spaces_ok(2) by force
  have "b" using c(2) by (simp add: blocked_def)
  then show ?thesis using c(1,3) bytes by (simp add: copied_def)
qed

text \<open>
  (C28) Copying out and in again changes nothing: when the host holds the bytes of the read-only
  objects, \<open>copyOutConcretes\<close> leaves in the host the concrete store of every object that is not
  specified by the user, and \<open>copyInConcretes\<close> of that host succeeds with the address space as it
  was.
\<close>

theorem external_call_round_trip:
  assumes "spaces_ok n (SS, h)" "i < length SS" "sized h (SS ! i)" "separated E (SS ! i)" "pointerWidth E \<le> 64"
    and ro: "\<forall>(mo, r) \<in> set (entries (SS ! i)). readOnly (h ! r) \<longrightarrow> host_bytes M mo = concreteStore (h ! r)"
  shows "\<exists>M' AS' h'. copyOutConcretes (SS ! i, h) M = Some M'
    \<and> (\<forall>(mo, r) \<in> set (entries (SS ! i)). \<not> mo_isUserSpecified mo \<longrightarrow> host_bytes M' mo = concreteStore (h ! r))
    \<and> copyInConcretes M' (SS ! i, h) = Some (True, AS', h') \<and> view h' AS' = view h (SS ! i)"
proof -
  let ?AS = "SS ! i"
  have ok: "objects_ok ?AS" using spaces_okD(1) [OF assms(1,2)] .
  have heap: "\<forall>(mo, r) \<in> set (entries ?AS). r < length h \<and> shape_ok (h ! r)"
    using entries_binding [OF ok] spaces_okD(4,5) [OF assms(1)] assms(2) by blast
  obtain M' where M': "copyOutConcretes (?AS, h) M = Some M'"
      "\<forall>(mo, r) \<in> set (entries ?AS). host_bytes M' mo =
         (if \<not> mo_isUserSpecified mo \<and> \<not> readOnly (h ! r) then concreteStore (h ! r) else host_bytes M mo)"
    using copyOutConcretes_ok [OF assms(4,5) heap assms(3), of M] by blast
  have same: "host_bytes M' mo = concreteStore (h ! r)" if "(mo, r) \<in> set (entries ?AS)" "\<not> mo_isUserSpecified mo" for mo r
    using bspec [OF M'(2) that(1)] bspec [OF ro that(1)] that(2) by (cases "readOnly (h ! r)") simp_all
  obtain b AS' h' where c: "copyInConcretes M' (?AS, h) = Some (b, AS', h')"
      "b \<longleftrightarrow> (\<forall>(mo, r) \<in> set (entries ?AS). \<not> blocked M' mo (h ! r))"
      "\<forall>a. binding ?AS a = None \<longrightarrow> view h' AS' a = None"
      "b \<longrightarrow> (\<forall>(mo, r) \<in> set (entries ?AS). view h' AS' (mo_address mo) = Some (copied M' mo (contents (h ! r))))"
    using copyInConcretes_ok [OF assms(1-3), of M'] by blast
  have b: "b" using c(2) same by (auto simp: blocked_def)
  have "view h' AS' a = view h ?AS a" for a
  proof (cases "binding ?AS a")
    case None
    then show ?thesis using c(3) by (simp add: view_def [of h])
  next
    case (Some r)
    then obtain mo where mo: "(mo, r) \<in> set (entries ?AS)" "mo_address mo = a" using binding_entries [OF ok] by blast
    have "copied M' mo (contents (h ! r)) = contents (h ! r)"
      using same [OF mo(1)] by (cases "mo_isUserSpecified mo") (simp_all add: copied_def contents_def)
    moreover have "view h' AS' a = Some (copied M' mo (contents (h ! r)))"
      using c(4) b mo by blast
    ultimately show ?thesis using view_bound [OF Some] by simp
  qed
  then have "view h' AS' = view h ?AS" by (rule ext)
  moreover have "\<forall>(mo, r) \<in> set (entries ?AS). \<not> mo_isUserSpecified mo \<longrightarrow> host_bytes M' mo = concreteStore (h ! r)"
    using same by blast
  moreover have "copyInConcretes M' (?AS, h) = Some (True, AS', h')" using c(1) b by simp
  ultimately show ?thesis using M'(1) by blast
qed

theorem external_call_round_trip_witness:
  "\<exists>M' AS' h'. copyOutConcretes (two_objects, two_heap) (\<lambda>_. 0) = Some M' \<and> host_bytes M' mo_b = [1, 2, 3, 4, 5, 6, 7, 8]
     \<and> copyInConcretes M' (two_objects, two_heap) = Some (True, AS', h')"
proof -
  have "\<exists>M' AS' h'. copyOutConcretes ([two_objects] ! 0, two_heap) (\<lambda>_. 0) = Some M'
    \<and> (\<forall>(mo, r) \<in> set (entries ([two_objects] ! 0)). \<not> mo_isUserSpecified mo \<longrightarrow> host_bytes M' mo = concreteStore (two_heap ! r))
    \<and> copyInConcretes M' ([two_objects] ! 0, two_heap) = Some (True, AS', h')
    \<and> view h' AS' = view two_heap ([two_objects] ! 0)"
    by (rule external_call_round_trip [where E = default_mem and n = "Suc 0"]) simp_all
  then show ?thesis by auto
qed

end
