(* ===== verification/ExprPlain.thy ===== *)
theory ExprPlain
  imports ExprEvalSound
begin

text \<open>
  The expressions that the solver layers are proved for: no operand of a division but a nonzero
  constant, indices of at most 32 bits, no \<open>NotOptimizedExpr\<close> (\<open>plain\<close>).  Every such expression
  can be evaluated under every assignment.  The creation functions build their result from the
  parts of their operands, so they keep \<open>plain\<close>, as they keep every property of expressions that
  passes through operators (locale \<open>hereditary\<close>).
\<close>

section \<open>Properties that pass through operators\<close>

locale hereditary =
  fixes P :: "expr \<Rightarrow> bool"
  assumes const: "P (ConstantExpr c)"
    and binary: "\<not> div_kind k \<Longrightarrow> P (BinaryExpr k l r) \<longleftrightarrow> P l \<and> P r"
    and cast: "P (CastExpr ck e w) \<longleftrightarrow> P e"
begin

lemma kinds [simp]:
  "P (ConstantExpr c)" "P (BinaryExpr Eq l r) \<longleftrightarrow> P l \<and> P r" "P (BinaryExpr And l r) \<longleftrightarrow> P l \<and> P r"
  "P (BinaryExpr Or l r) \<longleftrightarrow> P l \<and> P r" "P (BinaryExpr Xor l r) \<longleftrightarrow> P l \<and> P r"
  "P (BinaryExpr Add l r) \<longleftrightarrow> P l \<and> P r" "P (BinaryExpr Sub l r) \<longleftrightarrow> P l \<and> P r"
  "P (BinaryExpr Mul l r) \<longleftrightarrow> P l \<and> P r"
  "P (BinaryExpr Shl l r) \<longleftrightarrow> P l \<and> P r" "P (BinaryExpr LShr l r) \<longleftrightarrow> P l \<and> P r"
  "P (BinaryExpr AShr l r) \<longleftrightarrow> P l \<and> P r" "P (BinaryExpr Ult l r) \<longleftrightarrow> P l \<and> P r"
  "P (BinaryExpr Ule l r) \<longleftrightarrow> P l \<and> P r" "P (BinaryExpr Slt l r) \<longleftrightarrow> P l \<and> P r"
  "P (BinaryExpr Sle l r) \<longleftrightarrow> P l \<and> P r" "P (CastExpr ck e w) \<longleftrightarrow> P e"
  using const binary cast by (simp_all add: div_kind_def)

lemma BCREATE_R_keeps:
  assumes "BCREATE_R A k pl pr st l r = Some e" "P l" "P r"
    and "\<And>c x. l = ConstantExpr c \<Longrightarrow> pr c r = Some x \<Longrightarrow> P x"
    and "\<And>c x. r = ConstantExpr c \<Longrightarrow> pl l c = Some x \<Longrightarrow> P x"
    and "\<And>x. st = Some x \<Longrightarrow> P x"
  shows "P e"
  using assms by (auto simp: BCREATE_R_def split: expr.splits)

lemma BCREATE_keeps:
  assumes "BCREATE A k st l r = Some e" "\<And>x. st l r = Some x \<Longrightarrow> P x"
  shows "P e"
  using assms by (auto simp: BCREATE_def split: expr.splits)

lemma And_partial_keeps: "AndExpr_createPartial A l c = Some e \<Longrightarrow> P l \<Longrightarrow> P e"
  by (auto simp: AndExpr_createPartial_def split: if_splits)

lemma Or_partial_keeps: "OrExpr_createPartial A l c = Some e \<Longrightarrow> P l \<Longrightarrow> P e"
  by (auto simp: OrExpr_createPartial_def split: if_splits)

lemma AndExpr_keeps: "AndExpr_create A l r = Some e \<Longrightarrow> P l \<Longrightarrow> P r \<Longrightarrow> P e"
  unfolding AndExpr_create_def
  by (erule BCREATE_R_keeps) (auto simp: AndExpr_createPartialR_def AndExpr_create_static_def intro: And_partial_keeps)

lemma OrExpr_keeps: "OrExpr_create A l r = Some e \<Longrightarrow> P l \<Longrightarrow> P r \<Longrightarrow> P e"
  unfolding OrExpr_create_def
  by (erule BCREATE_R_keeps) (auto simp: OrExpr_createPartialR_def OrExpr_create_static_def intro: Or_partial_keeps)

lemma Eq_static_keeps: "EqExpr_create_static A l r = Some e \<Longrightarrow> P l \<Longrightarrow> P r \<Longrightarrow> P e"
  by (auto simp: EqExpr_create_static_def split: if_splits)

lemma Eq_partial_keeps:
  "EqExpr_createPartialR G cl r = Some e \<Longrightarrow> \<not> ConstArrayOpt G \<Longrightarrow> P r \<Longrightarrow> P e"
  "EqExpr_create_cr G x c = Some e \<Longrightarrow> \<not> ConstArrayOpt G \<Longrightarrow> P x \<Longrightarrow> P e"
proof (induction G cl r and G x c arbitrary: e and e rule: EqExpr_createPartialR_EqExpr_create_cr.induct)
  case (1 G cl r)
  from "1.prems"(1) show ?case
    unfolding EqExpr_createPartialR.simps [of G cl r]
    using "1.IH" "1.prems"(2,3)
    by (auto simp: bind_eq_Some_conv split: if_splits expr.splits dest!: Eq_static_keeps intro: AndExpr_keeps)
next
  case (2 G x c)
  from "2.prems"(1) show ?case
    unfolding EqExpr_create_cr.simps [of G x c]
    using "2.IH" "2.prems"(2,3) by (auto split: expr.splits)
qed

lemma EqExpr_keeps:
  assumes "EqExpr_create G l r = Some e" "\<not> ConstArrayOpt G" "P l" "P r"
  shows "P e"
  using assms(1) unfolding EqExpr_create_def CMPCREATE_T_def
  by (rule BCREATE_R_keeps)
    (use assms in \<open>auto simp: EqExpr_createPartial_def intro: Eq_partial_keeps Eq_static_keeps\<close>)

lemma createIsZero_keeps: "createIsZero G e = Some x \<Longrightarrow> \<not> ConstArrayOpt G \<Longrightarrow> P e \<Longrightarrow> P x"
  by (auto simp: createIsZero_def bind_eq_Some_conv elim!: EqExpr_keeps)

lemma NeExpr_keeps: "NeExpr_create G l r = Some x \<Longrightarrow> \<not> ConstArrayOpt G \<Longrightarrow> P l \<Longrightarrow> P r \<Longrightarrow> P x"
  by (auto simp: NeExpr_create_def bind_eq_Some_conv elim!: EqExpr_keeps)

lemma orders_keep:
  assumes "\<not> ConstArrayOpt G" "P l" "P r"
  shows "UltExpr_create G l r = Some x \<Longrightarrow> P x" "UleExpr_create G l r = Some x \<Longrightarrow> P x"
    "SltExpr_create G l r = Some x \<Longrightarrow> P x" "SleExpr_create G l r = Some x \<Longrightarrow> P x"
    "ShlExpr_create G l r = Some x \<Longrightarrow> P x" "LShrExpr_create G l r = Some x \<Longrightarrow> P x"
  unfolding UltExpr_create_def UleExpr_create_def SltExpr_create_def SleExpr_create_def CMPCREATE_def
    ShlExpr_create_def LShrExpr_create_def
  by (erule BCREATE_keeps, use assms in \<open>auto simp: UltExpr_create_static_def UleExpr_create_static_def
      SltExpr_create_static_def SleExpr_create_static_def ShlExpr_create_static_def LShrExpr_create_static_def
      bind_eq_Some_conv split: if_splits intro: AndExpr_keeps OrExpr_keeps dest: createIsZero_keeps\<close>)+

end

section \<open>Plain expressions\<close>

definition nonzero_const :: "expr \<Rightarrow> bool" where
  "nonzero_const e = (case e of ConstantExpr c \<Rightarrow> ap_value c \<noteq> 0 | _ \<Rightarrow> False)"

fun plain :: "expr \<Rightarrow> bool" and plain_unode :: "unode \<Rightarrow> bool" where
  "plain (ConstantExpr c) = True"
| "plain (NotOptimizedExpr e) = False"
| "plain (ReadExpr root head index) = (arr_domain root \<le> 32 \<and> plain_unode head \<and> plain index)"
| "plain (SelectExpr c t f) = (plain c \<and> plain t \<and> plain f)"
| "plain (ConcatExpr l r) = (plain l \<and> plain r)"
| "plain (ExtractExpr e off w) = plain e"
| "plain (CastExpr k e w) = plain e"
| "plain (NotExpr e) = plain e"
| "plain (BinaryExpr k l r) = (plain l \<and> plain r \<and> (div_kind k \<longrightarrow> nonzero_const r))"
| "plain_unode NullNode = True"
| "plain_unode (UpdateNode nx index value) = (plain_unode nx \<and> plain index \<and> plain value)"

interpretation plain: hereditary plain
  by unfold_locales auto

lemma plain_evaluable:
  "plain e \<Longrightarrow> evaluable \<rho> e" "plain_unode u \<Longrightarrow> evaluable_unode \<rho> u"
  by (induction e and u) (auto simp: nonzero_const_def split: expr.splits)

lemma plain_folds: "plain e \<Longrightarrow> folds e" "plain_unode u \<Longrightarrow> folds_unode u"
  by (induction e and u) auto

definition term_ok :: "(nat \<Rightarrow> array) \<Rightarrow> expr \<Rightarrow> bool" where
  "term_ok H e \<longleftrightarrow> wt H e \<and> plain e"

definition cond_ok :: "(nat \<Rightarrow> array) \<Rightarrow> expr \<Rightarrow> bool" where
  "cond_ok H e \<longleftrightarrow> wt H e \<and> plain e \<and> getWidth e = 1"

lemma cond_ok_term: "cond_ok H e \<Longrightarrow> term_ok H e"
  by (simp add: cond_ok_def term_ok_def)

lemma cond_ok_const [simp]: "cond_ok H (ConstantExpr (bv_bool b))"
  by (simp add: cond_ok_def)

definition true_in :: "assignment \<Rightarrow> expr \<Rightarrow> bool" where
  "true_in \<rho> e \<longleftrightarrow> sem \<rho> e = bv_bool True"

lemma true_in_const [simp]: "true_in \<rho> (ConstantExpr (bv_bool b)) \<longleftrightarrow> b"
  by (cases b) (simp_all add: true_in_def)

lemma cond_value: "cond_ok H e \<Longrightarrow> sem \<rho> e = bv_bool (true_in \<rho> e)"
  by (rule ap_bool_cases [of "sem \<rho> e"]) (auto simp: cond_ok_def true_in_def)

lemma true_in_value: "cond_ok H e \<Longrightarrow> true_in \<rho> e \<longleftrightarrow> ap_value (sem \<rho> e) \<noteq> 0"
  using cond_value [of H e \<rho>] by simp

context expr_creation
begin

text \<open>The creation functions that the solver layers use, on Boolean and on other operands.\<close>

lemma denotes_cond:
  assumes "\<And>\<rho>. denotes H \<rho> x (bv_bool (p \<rho>))" "\<And>e. x = Some e \<Longrightarrow> plain e"
  shows "\<exists>e. x = Some e \<and> cond_ok H e \<and> (\<forall>\<rho>. true_in \<rho> e = p \<rho>)"
proof -
  obtain e where e: "x = Some e" "wt H e" using assms(1) [of undefined] by (auto simp: denotes_def)
  have s: "sem \<rho> e = bv_bool (p \<rho>)" for \<rho> using assms(1) [of \<rho>] e by simp
  have "getWidth e = 1" using wt_sem_width [OF e(2), of undefined] s by simp
  then show ?thesis using e s assms(2) by (auto simp: cond_ok_def true_in_def)
qed

lemma negate_cond:
  assumes "cond_ok H e"
  shows "\<exists>n. createIsZero G e = Some n \<and> cond_ok H n \<and> (\<forall>\<rho>. true_in \<rho> n = (\<not> true_in \<rho> e))"
proof (rule denotes_cond)
  show "denotes H \<rho> (createIsZero G e) (bv_bool (\<not> true_in \<rho> e))" for \<rho>
    using createIsZero_bool [of H e \<rho>] assms cond_value [OF assms, of \<rho>] by (simp add: cond_ok_def)
qed (use assms plain.createIsZero_keeps in \<open>auto simp: cond_ok_def\<close>)

lemma eq_cond:
  assumes "term_ok H l" "term_ok H r" "getWidth l = getWidth r"
  shows "\<exists>e. EqExpr_create G l r = Some e \<and> cond_ok H e \<and> (\<forall>\<rho>. true_in \<rho> e = (sem \<rho> l = sem \<rho> r))"
proof (rule denotes_cond)
  show "denotes H \<rho> (EqExpr_create G l r) (bv_bool (sem \<rho> l = sem \<rho> r))" for \<rho>
    using EqExpr_create_sound [of H l r \<rho>] assms bv_Eq [of "sem \<rho> l" "sem \<rho> r"] by (simp add: term_ok_def)
qed (use assms plain.EqExpr_keeps in \<open>auto simp: term_ok_def\<close>)

lemma ne_cond:
  assumes "term_ok H l" "term_ok H r" "getWidth l = getWidth r"
  shows "\<exists>e. NeExpr_create G l r = Some e \<and> cond_ok H e \<and> (\<forall>\<rho>. true_in \<rho> e = (sem \<rho> l \<noteq> sem \<rho> r))"
proof (rule denotes_cond)
  show "denotes H \<rho> (NeExpr_create G l r) (bv_bool (sem \<rho> l \<noteq> sem \<rho> r))" for \<rho>
    using NeExpr_create_sound [of H l r \<rho>] assms bv_value_inject [of "sem \<rho> l" "sem \<rho> r"]
    by (simp add: term_ok_def bv_binary.simps)
qed (use assms plain.NeExpr_keeps in \<open>auto simp: term_ok_def\<close>)

lemma ule_cond:
  assumes "term_ok H l" "term_ok H r" "getWidth l = getWidth r"
  shows "\<exists>e. UleExpr_create G l r = Some e \<and> cond_ok H e
    \<and> (\<forall>\<rho>. true_in \<rho> e = (ap_value (sem \<rho> l) \<le> ap_value (sem \<rho> r)))"
proof (rule denotes_cond)
  show "denotes H \<rho> (UleExpr_create G l r) (bv_bool (ap_value (sem \<rho> l) \<le> ap_value (sem \<rho> r)))" for \<rho>
    using shifts_orders_sound(5) [of H l r \<rho>] assms by (simp add: term_ok_def bv_binary.simps)
qed (use assms in \<open>auto simp: term_ok_def intro: plain.orders_keep(2) [OF no_const_array_opt]\<close>)

lemma and_cond:
  assumes "cond_ok H l" "cond_ok H r"
  shows "\<exists>e. AndExpr_create (api G) l r = Some e \<and> cond_ok H e \<and> (\<forall>\<rho>. true_in \<rho> e = (true_in \<rho> l \<and> true_in \<rho> r))"
proof (rule denotes_cond)
  show "denotes H \<rho> (AndExpr_create (api G) l r) (bv_bool (true_in \<rho> l \<and> true_in \<rho> r))" for \<rho>
    using AndExpr_create_sound [of H l r \<rho>] assms cond_value [OF assms(1), of \<rho>] cond_value [OF assms(2), of \<rho>]
    by (simp add: cond_ok_def)
qed (use assms plain.AndExpr_keeps in \<open>auto simp: cond_ok_def\<close>)

text \<open>Evaluation under an assignment without free values.\<close>

lemma evaluate_term:
  "\<not> allowFreeValues a \<Longrightarrow> term_ok H e \<Longrightarrow>
    Assignment_evaluate G a e = Some (ConstantExpr (sem (assignment_of a) e))"
  by (rule Assignment_evaluate_value) (auto simp: term_ok_def plain_evaluable plain_folds)

lemma satisfies_conds:
  assumes "\<not> allowFreeValues a" "\<forall>c \<in> set cs. cond_ok H c"
  shows "Assignment_satisfies G a cs = Some (\<forall>c \<in> set cs. true_in (assignment_of a) c)"
  using Assignment_satisfies_iff [of a cs H] assms
  by (auto simp: cond_ok_def plain_evaluable plain_folds true_in_def)

end

end
