(* ===== verification/SolverCore.thy ===== *)
theory SolverCore
  imports ExprPlain Bits
begin

text \<open>
  The solver interface: \<open>Query\<close> and \<open>Solver\<close> (\<open>Solver.h\<close>, \<open>Solver.cpp\<close>), the virtual operations
  of \<open>SolverImpl\<close> and its default \<open>computeValidity\<close> (\<open>SolverImpl.cpp\<close>).

  A solver implementation is a record of its operations; each takes the state of the solver and
  returns the state after the call.  The value \<open>None\<close> is a failed assertion or an abort.  The
  result \<open>None\<close> of a query is the return value \<open>false\<close>: the query failed and the output
  parameter is not set.  A \<open>ConstraintManager\<close> that is only passed around is the vector of its
  constraints.  The statistics counters and the logs of queries are left out.
\<close>

section \<open>Queries\<close>

record query =
  q_constraints :: "expr list"
  q_expr :: expr

definition withExpr :: "query \<Rightarrow> expr \<Rightarrow> query" where
  "withExpr q e = q\<lparr>q_expr := e\<rparr>"

definition withFalse :: "expr_env \<Rightarrow> query \<Rightarrow> query" where
  "withFalse G q = q\<lparr>q_expr := ConstantExpr (ConstantExpr_alloc_u64 (api G) 0 Bool_width)\<rparr>"

definition negateExpr :: "expr_env \<Rightarrow> query \<Rightarrow> query option" where
  "negateExpr G q = map_option (withExpr q) (createIsZero G (q_expr q))"

section \<open>Solver implementations\<close>

datatype validity = VTrue | VFalse | VUnknown

datatype run_status =
    SUCCESS_SOLVABLE | SUCCESS_UNSOLVABLE | FAILURE | TIMEOUT | FORK_FAILED | INTERRUPTED
  | UNEXPECTED_EXIT_CODE | WAITPID_FAILED

text \<open>
  The output parameters of \<open>computeInitialValues\<close>, which the caller passes in: the flag is
  \<open>None\<close> as long as it is not initialised.
\<close>

record values_out =
  vo_values :: "8 word list list"
  vo_hasSolution :: "bool option"

definition fresh_out :: values_out where
  "fresh_out = \<lparr>vo_values = [], vo_hasSolution = None\<rparr>"

record 's solver_impl =
  si_computeValidity :: "query \<Rightarrow> 's \<Rightarrow> (validity option \<times> 's) option"
  si_computeTruth :: "query \<Rightarrow> 's \<Rightarrow> (bool option \<times> 's) option"
  si_computeValue :: "query \<Rightarrow> 's \<Rightarrow> (expr option \<times> 's) option"
  si_computeInitialValues :: "query \<Rightarrow> array list \<Rightarrow> values_out \<Rightarrow> 's \<Rightarrow> ((bool \<times> values_out) \<times> 's) option"
  si_getOperationStatusCode :: "'s \<Rightarrow> run_status"
  si_setCoreSolverTimeout :: "nat \<Rightarrow> 's \<Rightarrow> 's"

text \<open>The default \<open>SolverImpl::computeValidity\<close>, from the operation \<open>computeTruth\<close>.\<close>

definition SolverImpl_computeValidity ::
  "expr_env \<Rightarrow> (query \<Rightarrow> 's \<Rightarrow> (bool option \<times> 's) option) \<Rightarrow> query \<Rightarrow> 's \<Rightarrow> (validity option \<times> 's) option" where
  "SolverImpl_computeValidity G computeTruth q s = do {
     (isTrue, s) \<leftarrow> computeTruth q s;
     (case isTrue of
        None \<Rightarrow> Some (None, s)
      | Some True \<Rightarrow> Some (Some VTrue, s)
      | Some False \<Rightarrow> do {
          nq \<leftarrow> negateExpr G q;
          (isFalse, s) \<leftarrow> computeTruth nq s;
          Some (map_option (\<lambda>b. if b then VFalse else VUnknown) isFalse, s) }) }"

section \<open>class Solver\<close>

definition Solver_setCoreSolverTimeout :: "'s solver_impl \<Rightarrow> nat \<Rightarrow> 's \<Rightarrow> 's" where
  "Solver_setCoreSolverTimeout S timeout s = si_setCoreSolverTimeout S timeout s"

definition Solver_evaluate :: "expr_env \<Rightarrow> 's solver_impl \<Rightarrow> query \<Rightarrow> 's \<Rightarrow> (validity option \<times> 's) option" where
  "Solver_evaluate G S q s =
     check (getWidth (q_expr q) = Bool_width)
       (case q_expr q of
          ConstantExpr c \<Rightarrow> Some (Some (if ConstantExpr_isTrue (api G) c then VTrue else VFalse), s)
        | _ \<Rightarrow> si_computeValidity S q s)"

definition Solver_mustBeTrue :: "expr_env \<Rightarrow> 's solver_impl \<Rightarrow> query \<Rightarrow> 's \<Rightarrow> (bool option \<times> 's) option" where
  "Solver_mustBeTrue G S q s =
     check (getWidth (q_expr q) = Bool_width)
       (case q_expr q of
          ConstantExpr c \<Rightarrow> Some (Some (ConstantExpr_isTrue (api G) c), s)
        | _ \<Rightarrow> si_computeTruth S q s)"

definition Solver_mustBeFalse :: "expr_env \<Rightarrow> 's solver_impl \<Rightarrow> query \<Rightarrow> 's \<Rightarrow> (bool option \<times> 's) option" where
  "Solver_mustBeFalse G S q s = do { nq \<leftarrow> negateExpr G q; Solver_mustBeTrue G S nq s }"

definition Solver_mayBeTrue :: "expr_env \<Rightarrow> 's solver_impl \<Rightarrow> query \<Rightarrow> 's \<Rightarrow> (bool option \<times> 's) option" where
  "Solver_mayBeTrue G S q s = do {
     (res, s) \<leftarrow> Solver_mustBeFalse G S q s;
     Some (map_option Not res, s) }"

definition Solver_mayBeFalse :: "expr_env \<Rightarrow> 's solver_impl \<Rightarrow> query \<Rightarrow> 's \<Rightarrow> (bool option \<times> 's) option" where
  "Solver_mayBeFalse G S q s = do {
     (res, s) \<leftarrow> Solver_mustBeTrue G S q s;
     Some (map_option Not res, s) }"

definition Solver_getValue :: "'s solver_impl \<Rightarrow> query \<Rightarrow> 's \<Rightarrow> (apint option \<times> 's) option" where
  "Solver_getValue S q s =
     (case q_expr q of
        ConstantExpr c \<Rightarrow> Some (Some c, s)
      | _ \<Rightarrow> do {
          (tmp, s) \<leftarrow> si_computeValue S q s;
          (case tmp of
             None \<Rightarrow> Some (None, s)
           | Some (ConstantExpr c) \<Rightarrow> Some (Some c, s)
           | _ \<Rightarrow> None) })"

text \<open>
  The flag \<open>hasSolution\<close> is not initialised; when the query fails and leaves it so, both
  branches return \<open>false\<close>.
\<close>

definition Solver_getInitialValues ::
  "'s solver_impl \<Rightarrow> query \<Rightarrow> array list \<Rightarrow> 8 word list list \<Rightarrow> 's \<Rightarrow> ((bool \<times> 8 word list list) \<times> 's) option" where
  "Solver_getInitialValues S q objects values s = do {
     ((success, out), s) \<leftarrow>
       si_computeInitialValues S q objects \<lparr>vo_values = values, vo_hasSolution = None\<rparr> s;
     (case vo_hasSolution out of
        None \<Rightarrow> check (\<not> success) (Some ((False, vo_values out), s))
      | Some hasSolution \<Rightarrow> Some ((if \<not> hasSolution then False else success, vo_values out), s)) }"

subsection \<open>getRange\<close>

lemma mid_bounds:
  fixes lo hi :: uint64
  assumes "lo < hi"
  shows "lo \<le> lo + (hi - lo) div 2" "lo + (hi - lo) div 2 < hi"
    "uint (lo + (hi - lo) div 2) = uint lo + (uint hi - uint lo) div 2"
    "uint (lo + (hi - lo) div 2 + 1) = uint lo + (uint hi - uint lo) div 2 + 1"
proof -
  have lh: "uint lo < uint hi" "0 \<le> uint lo" "uint hi < 2 ^ 64" 
    using assms unsigned_less [of hi, where 'a = int] by (simp_all add: word_less_alt)
  have d: "uint ((hi - lo) div 2) = (uint hi - uint lo) div 2"
    using assms by (simp add: uint_div uint_sub_lem [THEN iffD1] word_le_def word_less_alt)
  show e: "uint (lo + (hi - lo) div 2) = uint lo + (uint hi - uint lo) div 2"
    using lh d by (subst uint_add_lem [THEN iffD1]) auto
  then show "lo \<le> lo + (hi - lo) div 2" "lo + (hi - lo) div 2 < hi"
    using lh by (auto simp: word_le_def word_less_alt)
  have "uint (lo + (hi - lo) div 2 + 1) = uint (lo + (hi - lo) div 2) + uint (1 :: uint64)"
    using lh e by (subst uint_add_lem [THEN iffD1]) auto
  then show "uint (lo + (hi - lo) div 2 + 1) = uint lo + (uint hi - uint lo) div 2 + 1" using e by simp
qed

text \<open>
  The three binary searches: the least value from \<open>lo\<close> to \<open>hi\<close> at which the query answers true.
  A query that fails fails the assertion that follows it.
\<close>

function range_search ::
  "(uint64 \<Rightarrow> 's \<Rightarrow> (bool option \<times> 's) option) \<Rightarrow> uint64 \<Rightarrow> uint64 \<Rightarrow> 's \<Rightarrow> (uint64 \<times> 's) option" where
  "range_search ask lo hi s =
     (if lo < hi then
        (let mid = lo + (hi - lo) div 2 in do {
           (res, s) \<leftarrow> ask mid s;
           (case res of
              None \<Rightarrow> None
            | Some True \<Rightarrow> range_search ask lo mid s
            | Some False \<Rightarrow> range_search ask (mid + 1) hi s) })
      else Some (lo, s))"
  by pat_completeness auto

termination
proof (relation "measure (\<lambda>(ask, lo, hi, s). nat (uint hi - uint lo))", goal_cases)
  case (2 ask lo hi s mid)
  then have "uint lo < uint hi" by (simp add: word_less_alt)
  then show ?case using mid_bounds(3) [of lo hi] 2 by auto
next
  case (3 ask lo hi s mid)
  then have "uint lo < uint hi" by (simp add: word_less_alt)
  then show ?case using mid_bounds(4) [of lo hi] 3 by auto
qed simp

declare range_search.simps [simp del]

text \<open>\<open>ConstantExpr::create(mid, width)\<close>, as an expression.\<close>

definition const_expr :: "expr_env \<Rightarrow> uint64 \<Rightarrow> width \<Rightarrow> expr option" where
  "const_expr G v w = map_option ConstantExpr (ConstantExpr_create (api G) v w)"

text \<open>The questions of the three loops: no bit from \<open>mid\<close> on; not above \<open>mid\<close>, possibly or always.\<close>

definition ask_bits :: "expr_env \<Rightarrow> 's solver_impl \<Rightarrow> query \<Rightarrow> uint64 \<Rightarrow> 's \<Rightarrow> (bool option \<times> 's) option" where
  "ask_bits G S q mid s =
     (let e = q_expr q; width = getWidth e in do {
        m \<leftarrow> const_expr G mid width;
        sh \<leftarrow> LShrExpr_create G e m;
        z \<leftarrow> const_expr G 0 width;
        eq \<leftarrow> EqExpr_create G sh z;
        Solver_mustBeTrue G S (withExpr q eq) s })"

definition ask_min :: "expr_env \<Rightarrow> 's solver_impl \<Rightarrow> query \<Rightarrow> uint64 \<Rightarrow> 's \<Rightarrow> (bool option \<times> 's) option" where
  "ask_min G S q mid s =
     (let e = q_expr q in do {
        m \<leftarrow> const_expr G mid (getWidth e);
        le \<leftarrow> UleExpr_create G e m;
        Solver_mayBeTrue G S (withExpr q le) s })"

definition ask_max :: "expr_env \<Rightarrow> 's solver_impl \<Rightarrow> query \<Rightarrow> uint64 \<Rightarrow> 's \<Rightarrow> (bool option \<times> 's) option" where
  "ask_max G S q mid s =
     (let e = q_expr q in do {
        m \<leftarrow> const_expr G mid (getWidth e);
        le \<leftarrow> UleExpr_create G e m;
        Solver_mustBeTrue G S (withExpr q le) s })"

definition Solver_getRange ::
  "expr_env \<Rightarrow> 's solver_impl \<Rightarrow> query \<Rightarrow> 's \<Rightarrow> ((apint \<times> apint) \<times> 's) option" where
  "Solver_getRange G S q s =
     (let e = q_expr q; width = getWidth e in do {
        (min, max, s) \<leftarrow>
          (if width = 1 then do {
             (v, s) \<leftarrow> Solver_evaluate G S q s;
             (case v of
                None \<Rightarrow> None
              | Some VTrue \<Rightarrow> Some (1, 1, s)
              | Some VFalse \<Rightarrow> Some (0, 0, s)
              | Some VUnknown \<Rightarrow> Some (0, 1, s)) }
           else
             (case e of
                ConstantExpr c \<Rightarrow> do { v \<leftarrow> getZExtValue (api G) c 64; Some (v, v, s) }
              | _ \<Rightarrow> do {
                  (bits, s) \<leftarrow> range_search (ask_bits G S q) 0 (of_nat width) s;
                  z \<leftarrow> const_expr G 0 width;
                  eq \<leftarrow> EqExpr_create G e z;
                  (zero, s) \<leftarrow> Solver_mayBeTrue G S (withExpr q eq) s;
                  (min, s) \<leftarrow>
                    (case zero of
                       None \<Rightarrow> None
                     | Some True \<Rightarrow> Some (0, s)
                     | Some False \<Rightarrow> do {
                         hi \<leftarrow> bits64_maxValueOfNBits (unat (ucast bits :: uint32));
                         range_search (ask_min G S q) 0 hi s });
                  hi \<leftarrow> bits64_maxValueOfNBits (unat (ucast bits :: uint32));
                  (max, s) \<leftarrow> range_search (ask_max G S q) min hi s;
                  Some (min, max, s) }));
        lo \<leftarrow> ConstantExpr_create (api G) min width;
        hi \<leftarrow> ConstantExpr_create (api G) max width;
        Some ((lo, hi), s) })"

end
