(* ===== verification/SolverLayers.thy ===== *)
theory SolverLayers
  imports SolverCore
begin

text \<open>
  The layers of the solver chain that keep no structure but a table of results: the solver that
  always fails (\<open>DummySolver.cpp\<close>), the staged solver (\<open>IncompleteSolver.cpp\<close>), the two layers
  that check the answers of another solver (\<open>ValidatingSolver.cpp\<close>,
  \<open>AssignmentValidatingSolver.cpp\<close>) and the cache of validities (\<open>CachingSolver.cpp\<close>).
\<close>

section \<open>DummySolver\<close>

definition DummySolver :: "'s solver_impl" where
  "DummySolver =
     \<lparr>si_computeValidity = \<lambda>q s. Some (None, s),
      si_computeTruth = \<lambda>q s. Some (None, s),
      si_computeValue = \<lambda>q s. Some (None, s),
      si_computeInitialValues = \<lambda>q objects out s. Some ((False, out), s),
      si_getOperationStatusCode = \<lambda>s. FAILURE,
      si_setCoreSolverTimeout = \<lambda>t s. s\<rparr>"

section \<open>IncompleteSolver and StagedSolverImpl\<close>

datatype partial_validity = MustBeTrue | MustBeFalse | MayBeTrue | MayBeFalse | TrueOrFalse | PNone

fun negatePartialValidity :: "partial_validity \<Rightarrow> partial_validity option" where
  "negatePartialValidity MustBeTrue = Some MustBeFalse"
| "negatePartialValidity MustBeFalse = Some MustBeTrue"
| "negatePartialValidity MayBeTrue = Some MayBeFalse"
| "negatePartialValidity MayBeFalse = Some MayBeTrue"
| "negatePartialValidity TrueOrFalse = Some TrueOrFalse"
| "negatePartialValidity PNone = None"

text \<open>The virtual operations; an incomplete solver has no state.\<close>

record incomplete_solver =
  is_computeValidity :: "query \<Rightarrow> partial_validity option"
  is_computeTruth :: "query \<Rightarrow> partial_validity option"
  is_computeValue :: "query \<Rightarrow> expr option option"
  is_computeInitialValues :: "query \<Rightarrow> array list \<Rightarrow> values_out \<Rightarrow> (bool \<times> values_out) option"

definition IncompleteSolver_computeValidity ::
  "expr_env \<Rightarrow> (query \<Rightarrow> partial_validity option) \<Rightarrow> query \<Rightarrow> partial_validity option" where
  "IncompleteSolver_computeValidity G computeTruth q = do {
     trueResult \<leftarrow> computeTruth q;
     if trueResult = MustBeTrue then Some MustBeTrue
     else do {
       nq \<leftarrow> negateExpr G q;
       falseResult \<leftarrow> computeTruth nq;
       if falseResult = MustBeTrue then Some MustBeFalse
       else let trueCorrect = (trueResult \<noteq> PNone); falseCorrect = (falseResult \<noteq> PNone) in
         Some (if trueCorrect \<and> falseCorrect then TrueOrFalse
               else if trueCorrect then MayBeFalse
               else if falseCorrect then MayBeTrue
               else PNone) } }"

definition Staged_computeTruth ::
  "incomplete_solver \<Rightarrow> 's solver_impl \<Rightarrow> query \<Rightarrow> 's \<Rightarrow> (bool option \<times> 's) option" where
  "Staged_computeTruth P S q s = do {
     trueResult \<leftarrow> is_computeTruth P q;
     if trueResult \<noteq> PNone then Some (Some (trueResult = MustBeTrue), s)
     else si_computeTruth S q s }"

definition Staged_computeValidity ::
  "expr_env \<Rightarrow> incomplete_solver \<Rightarrow> 's solver_impl \<Rightarrow> query \<Rightarrow> 's \<Rightarrow> (validity option \<times> 's) option" where
  "Staged_computeValidity G P S q s = do {
     pv \<leftarrow> is_computeValidity P q;
     (case pv of
        MustBeTrue \<Rightarrow> Some (Some VTrue, s)
      | MustBeFalse \<Rightarrow> Some (Some VFalse, s)
      | TrueOrFalse \<Rightarrow> Some (Some VUnknown, s)
      | MayBeTrue \<Rightarrow> do {
          (tmp, s) \<leftarrow> si_computeTruth S q s;
          Some (map_option (\<lambda>b. if b then VTrue else VUnknown) tmp, s) }
      | MayBeFalse \<Rightarrow> do {
          nq \<leftarrow> negateExpr G q;
          (tmp, s) \<leftarrow> si_computeTruth S nq s;
          Some (map_option (\<lambda>b. if b then VFalse else VUnknown) tmp, s) }
      | PNone \<Rightarrow> si_computeValidity S q s) }"

definition Staged_computeValue ::
  "incomplete_solver \<Rightarrow> 's solver_impl \<Rightarrow> query \<Rightarrow> 's \<Rightarrow> (expr option \<times> 's) option" where
  "Staged_computeValue P S q s = do {
     r \<leftarrow> is_computeValue P q;
     (case r of Some e \<Rightarrow> Some (Some e, s) | None \<Rightarrow> si_computeValue S q s) }"

definition Staged_computeInitialValues ::
  "incomplete_solver \<Rightarrow> 's solver_impl \<Rightarrow> query \<Rightarrow> array list \<Rightarrow> values_out \<Rightarrow> 's
   \<Rightarrow> ((bool \<times> values_out) \<times> 's) option" where
  "Staged_computeInitialValues P S q objects out s = do {
     (success, out) \<leftarrow> is_computeInitialValues P q objects out;
     if success then Some ((True, out), s)
     else si_computeInitialValues S q objects out s }"

definition StagedSolver :: "expr_env \<Rightarrow> incomplete_solver \<Rightarrow> 's solver_impl \<Rightarrow> 's solver_impl" where
  "StagedSolver G P S =
     \<lparr>si_computeValidity = Staged_computeValidity G P S,
      si_computeTruth = Staged_computeTruth P S,
      si_computeValue = Staged_computeValue P S,
      si_computeInitialValues = Staged_computeInitialValues P S,
      si_getOperationStatusCode = si_getOperationStatusCode S,
      si_setCoreSolverTimeout = si_setCoreSolverTimeout S\<rparr>"

section \<open>ValidatingSolver\<close>

text \<open>
  The solver and its oracle may share solvers (the chain is validated by its own core solver), so
  both work on one state.
\<close>

definition Validating_computeTruth ::
  "'s solver_impl \<Rightarrow> 's solver_impl \<Rightarrow> query \<Rightarrow> 's \<Rightarrow> (bool option \<times> 's) option" where
  "Validating_computeTruth S ora q s = do {
     (isValid, s) \<leftarrow> si_computeTruth S q s;
     (case isValid of
        None \<Rightarrow> Some (None, s)
      | Some v \<Rightarrow> do {
          (answer, s) \<leftarrow> si_computeTruth ora q s;
          (case answer of
             None \<Rightarrow> Some (None, s)
           | Some a \<Rightarrow> check (v = a) (Some (Some v, s))) }) }"

definition Validating_computeValidity ::
  "'s solver_impl \<Rightarrow> 's solver_impl \<Rightarrow> query \<Rightarrow> 's \<Rightarrow> (validity option \<times> 's) option" where
  "Validating_computeValidity S ora q s = do {
     (result, s) \<leftarrow> si_computeValidity S q s;
     (case result of
        None \<Rightarrow> Some (None, s)
      | Some v \<Rightarrow> do {
          (answer, s) \<leftarrow> si_computeValidity ora q s;
          (case answer of
             None \<Rightarrow> Some (None, s)
           | Some a \<Rightarrow> check (v = a) (Some (Some v, s))) }) }"

definition Validating_computeValue ::
  "expr_env \<Rightarrow> 's solver_impl \<Rightarrow> 's solver_impl \<Rightarrow> query \<Rightarrow> 's \<Rightarrow> (expr option \<times> 's) option" where
  "Validating_computeValue G S ora q s = do {
     (result, s) \<leftarrow> si_computeValue S q s;
     (case result of
        None \<Rightarrow> Some (None, s)
      | Some v \<Rightarrow> do {
          ne \<leftarrow> NeExpr_create G (q_expr q) v;
          (answer, s) \<leftarrow> si_computeTruth ora (withExpr q ne) s;
          (case answer of
             None \<Rightarrow> Some (None, s)
           | Some a \<Rightarrow> check (\<not> a) (Some (Some v, s))) }) }"

text \<open>
  One equality per byte of each array, by the loop that
  \<open>Assignment::createConstraintsFromAssignment\<close> has too; then the conjunction of the negated
  query and the constraints.
\<close>

fun Validating_bindings :: "expr_env \<Rightarrow> array list \<Rightarrow> 8 word list list \<Rightarrow> expr list \<Rightarrow> expr list option" where
  "Validating_bindings G objects [] out = Some out"
| "Validating_bindings G [] (v # vs) out = None"
| "Validating_bindings G (a # objects) (v # vs) out = do {
     out \<leftarrow> createConstraints_array G a v (arr_size a) 0 out;
     Validating_bindings G objects vs out }"

fun Validating_conjunction :: "expr_env \<Rightarrow> expr \<Rightarrow> expr list \<Rightarrow> expr option" where
  "Validating_conjunction G constraints [] = Some constraints"
| "Validating_conjunction G constraints (c # cs) = do {
     constraints \<leftarrow> AndExpr_create (api G) constraints c;
     Validating_conjunction G constraints cs }"

definition Validating_computeInitialValues ::
  "expr_env \<Rightarrow> 's solver_impl \<Rightarrow> 's solver_impl \<Rightarrow> query \<Rightarrow> array list \<Rightarrow> values_out \<Rightarrow> 's
   \<Rightarrow> ((bool \<times> values_out) \<times> 's) option" where
  "Validating_computeInitialValues G S ora q objects out s = do {
     ((success, out), s) \<leftarrow> si_computeInitialValues S q objects out s;
     if \<not> success then Some ((False, out), s)
     else do {
       hasSolution \<leftarrow> vo_hasSolution out;
       (answer, s) \<leftarrow>
         (if hasSolution then do {
            bindings \<leftarrow> Validating_bindings G objects (vo_values out) [];
            nq \<leftarrow> createIsZero G (q_expr q);
            constraints \<leftarrow> Validating_conjunction G nq (q_constraints q);
            si_computeTruth ora \<lparr>q_constraints = bindings, q_expr = constraints\<rparr> s }
          else si_computeTruth ora q s);
       (case answer of
          None \<Rightarrow> Some ((False, out), s)
        | Some a \<Rightarrow> check a (Some ((True, out), s))) } }"

definition ValidatingSolver :: "expr_env \<Rightarrow> 's solver_impl \<Rightarrow> 's solver_impl \<Rightarrow> 's solver_impl" where
  "ValidatingSolver G S ora =
     \<lparr>si_computeValidity = Validating_computeValidity S ora,
      si_computeTruth = Validating_computeTruth S ora,
      si_computeValue = Validating_computeValue G S ora,
      si_computeInitialValues = Validating_computeInitialValues G S ora,
      si_getOperationStatusCode = si_getOperationStatusCode S,
      si_setCoreSolverTimeout = si_setCoreSolverTimeout S\<rparr>"

section \<open>AssignmentValidatingSolver\<close>

text \<open>The loop over the constraints; \<open>abort\<close> where one is not evaluated to a constant or is false.\<close>

fun AssignmentValidating_constraints :: "expr_env \<Rightarrow> Assignment \<Rightarrow> expr list \<Rightarrow> unit option" where
  "AssignmentValidating_constraints G a [] = Some ()"
| "AssignmentValidating_constraints G a (c # cs) = do {
     v \<leftarrow> Assignment_evaluate G a c;
     (case v of
        ConstantExpr ce \<Rightarrow>
          check (\<not> ConstantExpr_isFalse (api G) ce) (AssignmentValidating_constraints G a cs)
      | _ \<Rightarrow> None) }"

text \<open>
  The flag is read whether or not the query has succeeded; a failing query that has not set it
  makes the code read an uninitialised variable, which is the value \<open>None\<close>.
\<close>

definition AssignmentValidating_computeInitialValues ::
  "expr_env \<Rightarrow> 's solver_impl \<Rightarrow> query \<Rightarrow> array list \<Rightarrow> values_out \<Rightarrow> 's
   \<Rightarrow> ((bool \<times> values_out) \<times> 's) option" where
  "AssignmentValidating_computeInitialValues G S q objects out s = do {
     ((success, out), s) \<leftarrow> si_computeInitialValues S q objects out s;
     hasSolution \<leftarrow> vo_hasSolution out;
     if \<not> hasSolution then Some ((success, out), s)
     else do {
       a \<leftarrow> Assignment_new objects (vo_values out) True;
       AssignmentValidating_constraints G a (q_constraints q);
       v \<leftarrow> Assignment_evaluate G a (q_expr q);
       (case v of
          ConstantExpr ce \<Rightarrow> check (\<not> ConstantExpr_isTrue (api G) ce) (Some ((success, out), s))
        | _ \<Rightarrow> None) } }"

definition AssignmentValidatingSolver :: "expr_env \<Rightarrow> 's solver_impl \<Rightarrow> 's solver_impl" where
  "AssignmentValidatingSolver G S =
     S\<lparr>si_computeInitialValues := AssignmentValidating_computeInitialValues G S\<rparr>"

section \<open>CachingSolver\<close>

text \<open>
  The hash map from a set of constraints and a query to a validity: hash and equality compare
  structurally, so the map is the list of its entries.
\<close>

type_synonym cache_map = "((expr list \<times> expr) \<times> partial_validity) list"

record 's caching_state =
  cc_cache :: cache_map
  cc_solver :: 's

definition CacheEntry_eq :: "apint_ops \<Rightarrow> expr list \<times> expr \<Rightarrow> expr list \<times> expr \<Rightarrow> bool" where
  "CacheEntry_eq A a b \<longleftrightarrow> list_all2 (expr_eq A) (fst a) (fst b) \<and> expr_eq A (snd a) (snd b)"

fun cache_find :: "apint_ops \<Rightarrow> expr list \<times> expr \<Rightarrow> cache_map \<Rightarrow> partial_validity option" where
  "cache_find A ce [] = None"
| "cache_find A ce ((k, pv) # m) = (if CacheEntry_eq A k ce then Some pv else cache_find A ce m)"

definition canonicalizeQuery :: "expr_env \<Rightarrow> expr \<Rightarrow> (expr \<times> bool) option" where
  "canonicalizeQuery G originalQuery = do {
     negatedQuery \<leftarrow> createIsZero G originalQuery;
     if expr_compare (api G) originalQuery negatedQuery < 0 then Some (originalQuery, False)
     else Some (negatedQuery, True) }"

definition cacheLookup :: "expr_env \<Rightarrow> query \<Rightarrow> cache_map \<Rightarrow> partial_validity option option" where
  "cacheLookup G q m = do {
     (canonicalQuery, negationUsed) \<leftarrow> canonicalizeQuery G (q_expr q);
     (case cache_find (api G) (q_constraints q, canonicalQuery) m of
        Some pv \<Rightarrow> map_option Some (if negationUsed then negatePartialValidity pv else Some pv)
      | None \<Rightarrow> Some None) }"

text \<open>\<open>unordered_map::insert\<close> keeps an entry that is present.\<close>

definition cacheInsert :: "expr_env \<Rightarrow> query \<Rightarrow> partial_validity \<Rightarrow> cache_map \<Rightarrow> cache_map option" where
  "cacheInsert G q result m = do {
     (canonicalQuery, negationUsed) \<leftarrow> canonicalizeQuery G (q_expr q);
     cachedResult \<leftarrow> (if negationUsed then negatePartialValidity result else Some result);
     let ce = (q_constraints q, canonicalQuery) in
       Some (case cache_find (api G) ce m of None \<Rightarrow> m @ [(ce, cachedResult)] | Some _ \<Rightarrow> m) }"

definition cc_insert :: "expr_env \<Rightarrow> query \<Rightarrow> partial_validity \<Rightarrow> 's caching_state \<Rightarrow> 's caching_state option" where
  "cc_insert G q result s = map_option (\<lambda>m. s\<lparr>cc_cache := m\<rparr>) (cacheInsert G q result (cc_cache s))"

text \<open>A call of the solver below.\<close>

definition cc_call :: "('s \<Rightarrow> ('r \<times> 's) option) \<Rightarrow> 's caching_state \<Rightarrow> ('r \<times> 's caching_state) option" where
  "cc_call f s = map_option (\<lambda>(r, s'). (r, s\<lparr>cc_solver := s'\<rparr>)) (f (cc_solver s))"

definition Caching_computeValidity ::
  "expr_env \<Rightarrow> 's solver_impl \<Rightarrow> query \<Rightarrow> 's caching_state \<Rightarrow> (validity option \<times> 's caching_state) option" where
  "Caching_computeValidity G S q s = do {
     cached \<leftarrow> cacheLookup G q (cc_cache s);
     (case cached of
        Some MustBeTrue \<Rightarrow> Some (Some VTrue, s)
      | Some MustBeFalse \<Rightarrow> Some (Some VFalse, s)
      | Some TrueOrFalse \<Rightarrow> Some (Some VUnknown, s)
      | Some MayBeTrue \<Rightarrow> do {
          (tmp, s) \<leftarrow> cc_call (si_computeTruth S q) s;
          (case tmp of
             None \<Rightarrow> Some (None, s)
           | Some True \<Rightarrow> do { s \<leftarrow> cc_insert G q MustBeTrue s; Some (Some VTrue, s) }
           | Some False \<Rightarrow> do { s \<leftarrow> cc_insert G q TrueOrFalse s; Some (Some VUnknown, s) }) }
      | Some MayBeFalse \<Rightarrow> do {
          nq \<leftarrow> negateExpr G q;
          (tmp, s) \<leftarrow> cc_call (si_computeTruth S nq) s;
          (case tmp of
             None \<Rightarrow> Some (None, s)
           | Some True \<Rightarrow> do { s \<leftarrow> cc_insert G q MustBeFalse s; Some (Some VFalse, s) }
           | Some False \<Rightarrow> do { s \<leftarrow> cc_insert G q TrueOrFalse s; Some (Some VUnknown, s) }) }
      | Some PNone \<Rightarrow> None
      | None \<Rightarrow> do {
          (result, s) \<leftarrow> cc_call (si_computeValidity S q) s;
          (case result of
             None \<Rightarrow> Some (None, s)
           | Some v \<Rightarrow> do {
               s \<leftarrow> cc_insert G q
                 (case v of VTrue \<Rightarrow> MustBeTrue | VFalse \<Rightarrow> MustBeFalse | VUnknown \<Rightarrow> TrueOrFalse) s;
               Some (Some v, s) }) }) }"

definition Caching_computeTruth ::
  "expr_env \<Rightarrow> 's solver_impl \<Rightarrow> query \<Rightarrow> 's caching_state \<Rightarrow> (bool option \<times> 's caching_state) option" where
  "Caching_computeTruth G S q s = do {
     cached \<leftarrow> cacheLookup G q (cc_cache s);
     if cached \<noteq> None \<and> cached \<noteq> Some MayBeTrue then Some (Some (cached = Some MustBeTrue), s)
     else do {
       (isValid, s) \<leftarrow> cc_call (si_computeTruth S q) s;
       (case isValid of
          None \<Rightarrow> Some (None, s)
        | Some v \<Rightarrow> do {
            s \<leftarrow> cc_insert G q
              (if v then MustBeTrue else if cached \<noteq> None then TrueOrFalse else MayBeFalse) s;
            Some (Some v, s) }) } }"

definition CachingSolver :: "expr_env \<Rightarrow> 's solver_impl \<Rightarrow> 's caching_state solver_impl" where
  "CachingSolver G S =
     \<lparr>si_computeValidity = Caching_computeValidity G S,
      si_computeTruth = Caching_computeTruth G S,
      si_computeValue = \<lambda>q. cc_call (si_computeValue S q),
      si_computeInitialValues = \<lambda>q objects out. cc_call (si_computeInitialValues S q objects out),
      si_getOperationStatusCode = \<lambda>s. si_getOperationStatusCode S (cc_solver s),
      si_setCoreSolverTimeout = \<lambda>t s. s\<lparr>cc_solver := si_setCoreSolverTimeout S t (cc_solver s)\<rparr>\<rparr>"

end
