(* ===== verification/ExprUtil.thy ===== *)
theory ExprUtil
  imports ExprPlain
begin

text \<open>
  \<open>ExprUtil.cpp\<close>: the reads of an expression (\<open>findReads\<close>) and the arrays it depends on
  (\<open>findSymbolicObjects\<close>, the visitor \<open>ConstantArrayFinder\<close>).
\<close>

section \<open>findReads\<close>

text \<open>
  \<open>visited\<close> is the hash set, compared structurally.  An expression that is neither constant nor
  visited is marked and pushed; the head of the list is the top of the stack.
\<close>

definition push_new :: "apint_ops \<Rightarrow> expr \<Rightarrow> expr list \<times> expr list \<Rightarrow> expr list \<times> expr list" where
  "push_new A k vs = (case vs of (visited, stack) \<Rightarrow>
     if is_Constant k \<or> list_ex (expr_eq A k) visited then (visited, stack) else (k # visited, k # stack))"

text \<open>The expressions of an update list in the order of the walk, the newest update first.\<close>

fun unode_exprs :: "unode \<Rightarrow> expr list" where
  "unode_exprs NullNode = []"
| "unode_exprs (UpdateNode nx index value) = index # value # unode_exprs nx"

text \<open>
  What the loop body pushes for a popped expression.  The set \<open>updates\<close> of the list heads that
  were walked is left out: all expressions of a list that is met again are in \<open>visited\<close>.
\<close>

definition findReads_next :: "bool \<Rightarrow> expr \<Rightarrow> expr list" where
  "findReads_next visitUpdates e =
     (case e of
        ReadExpr root head index \<Rightarrow> index # (if visitUpdates then unode_exprs head else [])
      | _ \<Rightarrow> kids e)"

definition stack_size :: "expr list \<Rightarrow> nat" where
  "stack_size es = sum_list (map (\<lambda>e. Suc (3 * size e)) es)"

lemma stack_size_simps [simp]:
  "stack_size [] = 0" "stack_size (e # es) = Suc (3 * size e) + stack_size es"
  "stack_size (es @ fs) = stack_size es + stack_size fs"
  by (simp_all add: stack_size_def)

lemma push_new_size: "stack_size (snd (fold (push_new A) ks (visited, stack))) \<le> stack_size ks + stack_size stack"
proof (induction ks arbitrary: visited stack)
  case (Cons k ks)
  obtain v s where p: "push_new A k (visited, stack) = (v, s)" by fastforce
  then have "stack_size s \<le> Suc (3 * size k) + stack_size stack" by (auto simp: push_new_def split: if_splits)
  then show ?case using Cons.IH [of v s] p by simp
qed simp

lemma unode_exprs_size: "stack_size (unode_exprs u) \<le> 3 * size u"
  by (induction u rule: unode_exprs.induct) auto

lemma findReads_next_size: "stack_size (findReads_next b e) < Suc (3 * size e)"
proof (cases e)
  case (ReadExpr root head index)
  then show ?thesis using unode_exprs_size [of head] by (simp add: findReads_next_def)
qed (simp_all add: findReads_next_def)

function findReads_loop ::
  "apint_ops \<Rightarrow> bool \<Rightarrow> expr list \<Rightarrow> expr list \<Rightarrow> expr list \<Rightarrow> expr list" where
  "findReads_loop A visitUpdates visited [] results = results"
| "findReads_loop A visitUpdates visited (e # stack) results =
     (let results = (if getKind e = 3 then results @ [e] else results);
          (visited, stack) = fold (push_new A) (findReads_next visitUpdates e) (visited, stack)
      in findReads_loop A visitUpdates visited stack results)"
  by pat_completeness auto
termination
proof (relation "measure (\<lambda>(A, b, visited, stack, results). stack_size stack)", goal_cases)
  case (2 A b visited t stack results r p v s)
  then have "stack_size s \<le> stack_size (findReads_next b t) + stack_size stack"
    using push_new_size [of A "findReads_next b t" visited stack] by (metis snd_conv)
  then show ?case using findReads_next_size [of b t] by simp
qed simp

declare findReads_loop.simps(2) [simp del]

definition findReads :: "apint_ops \<Rightarrow> expr \<Rightarrow> bool \<Rightarrow> expr list \<Rightarrow> expr list" where
  "findReads A e visitUpdates results =
     (if is_Constant e then results else findReads_loop A visitUpdates [e] [e] results)"

section \<open>findSymbolicObjects\<close>

text \<open>
  The visitor changes no expression; its state is the list of the objects found, which is its
  set \<open>results\<close> too.
\<close>

definition add_object :: "array \<Rightarrow> array list \<Rightarrow> array list" where
  "add_object a objects = (if arr_addr a \<in> arr_addr ` set objects then objects else objects @ [a])"

fun SymbolicObjectFinder :: "expr \<Rightarrow> array list \<Rightarrow> array list"
  and SymbolicObjectFinder_updates :: "unode \<Rightarrow> array list \<Rightarrow> array list" where
  "SymbolicObjectFinder (ConstantExpr c) os = os"
| "SymbolicObjectFinder (NotOptimizedExpr e) os = SymbolicObjectFinder e os"
| "SymbolicObjectFinder (ReadExpr root head index) os =
     (let os = SymbolicObjectFinder_updates head os;
          os = (if isSymbolicArray root then add_object root os else os)
      in SymbolicObjectFinder index os)"
| "SymbolicObjectFinder (SelectExpr c t f) os =
     SymbolicObjectFinder f (SymbolicObjectFinder t (SymbolicObjectFinder c os))"
| "SymbolicObjectFinder (ConcatExpr l r) os = SymbolicObjectFinder r (SymbolicObjectFinder l os)"
| "SymbolicObjectFinder (ExtractExpr e off w) os = SymbolicObjectFinder e os"
| "SymbolicObjectFinder (CastExpr k e w) os = SymbolicObjectFinder e os"
| "SymbolicObjectFinder (NotExpr e) os = SymbolicObjectFinder e os"
| "SymbolicObjectFinder (BinaryExpr k l r) os = SymbolicObjectFinder r (SymbolicObjectFinder l os)"
| "SymbolicObjectFinder_updates NullNode os = os"
| "SymbolicObjectFinder_updates (UpdateNode nx index value) os =
     SymbolicObjectFinder_updates nx (SymbolicObjectFinder value (SymbolicObjectFinder index os))"

definition findSymbolicObjects :: "expr list \<Rightarrow> array list \<Rightarrow> array list" where
  "findSymbolicObjects es results = fold SymbolicObjectFinder es results"

text \<open>\<open>ConstantArrayFinder\<close>; its set of results as a list without duplicates.\<close>

fun ConstantArrayFinder :: "expr \<Rightarrow> array list \<Rightarrow> array list"
  and ConstantArrayFinder_updates :: "unode \<Rightarrow> array list \<Rightarrow> array list" where
  "ConstantArrayFinder (ConstantExpr c) os = os"
| "ConstantArrayFinder (NotOptimizedExpr e) os = ConstantArrayFinder e os"
| "ConstantArrayFinder (ReadExpr root head index) os =
     (let os = ConstantArrayFinder_updates head os;
          os = (if isConstantArray root then add_object root os else os)
      in ConstantArrayFinder index os)"
| "ConstantArrayFinder (SelectExpr c t f) os =
     ConstantArrayFinder f (ConstantArrayFinder t (ConstantArrayFinder c os))"
| "ConstantArrayFinder (ConcatExpr l r) os = ConstantArrayFinder r (ConstantArrayFinder l os)"
| "ConstantArrayFinder (ExtractExpr e off w) os = ConstantArrayFinder e os"
| "ConstantArrayFinder (CastExpr k e w) os = ConstantArrayFinder e os"
| "ConstantArrayFinder (NotExpr e) os = ConstantArrayFinder e os"
| "ConstantArrayFinder (BinaryExpr k l r) os = ConstantArrayFinder r (ConstantArrayFinder l os)"
| "ConstantArrayFinder_updates NullNode os = os"
| "ConstantArrayFinder_updates (UpdateNode nx index value) os =
     ConstantArrayFinder_updates nx (ConstantArrayFinder value (ConstantArrayFinder index os))"

section \<open>What they find\<close>

text \<open>The read nodes in an expression, and the symbolic arrays under its reads.\<close>

fun read_nodes :: "expr \<Rightarrow> expr set" and read_nodes_unode :: "unode \<Rightarrow> expr set" where
  "read_nodes (ConstantExpr c) = {}"
| "read_nodes (NotOptimizedExpr e) = read_nodes e"
| "read_nodes (ReadExpr root head index) =
     insert (ReadExpr root head index) (read_nodes_unode head \<union> read_nodes index)"
| "read_nodes (SelectExpr c t f) = read_nodes c \<union> read_nodes t \<union> read_nodes f"
| "read_nodes (ConcatExpr l r) = read_nodes l \<union> read_nodes r"
| "read_nodes (ExtractExpr e off w) = read_nodes e"
| "read_nodes (CastExpr k e w) = read_nodes e"
| "read_nodes (NotExpr e) = read_nodes e"
| "read_nodes (BinaryExpr k l r) = read_nodes l \<union> read_nodes r"
| "read_nodes_unode NullNode = {}"
| "read_nodes_unode (UpdateNode nx index value) = read_nodes_unode nx \<union> read_nodes index \<union> read_nodes value"

lemma read_nodes_unode_eq: "read_nodes_unode u = (\<Union>e \<in> set (unode_exprs u). read_nodes e)"
  by (induction u rule: unode_exprs.induct) auto

lemma read_nodes_next:
  "read_nodes e = (if getKind e = 3 then {e} else {}) \<union> (\<Union>k \<in> set (findReads_next True e). read_nodes k)"
  by (cases e rule: getKind.cases) (auto simp: findReads_next_def read_nodes_unode_eq)

lemma wt_unode_exprs: "wt_unode H root u \<Longrightarrow> k \<in> set (unode_exprs u) \<Longrightarrow> wt H k"
  by (induction u rule: unode_exprs.induct) auto

lemma wt_next: "wt H e \<Longrightarrow> k \<in> set (findReads_next b e) \<Longrightarrow> wt H k"
  using wt_kids [of H e k] wt_unode_exprs by (cases e) (fastforce simp: findReads_next_def split: if_splits)+

lemma is_Constant_reads: "is_Constant k \<Longrightarrow> read_nodes k = {}"
  by (cases k) (simp_all add: is_Constant_def)

context llvm_apint
begin

lemma push_new_ok:
  assumes "\<forall>k \<in> set ks. wt H k" "\<forall>v \<in> set visited. wt H v"
  shows "\<exists>new. fold (push_new A) ks (visited, stack) = (new @ visited, new @ stack)
    \<and> set new \<subseteq> set ks \<and> (\<forall>k \<in> set ks. is_Constant k \<or> k \<in> set (new @ visited))"
  using assms
proof (induction ks arbitrary: visited stack)
  case (Cons k ks)
  have mem: "list_ex (expr_eq A k) visited \<longleftrightarrow> k \<in> set visited"
    using Cons.prems expr_eq_iff [of H k] by (auto simp: list_ex_iff)
  show ?case
  proof (cases "is_Constant k \<or> k \<in> set visited")
    case True
    obtain new where "fold (push_new A) ks (visited, stack) = (new @ visited, new @ stack)"
      "set new \<subseteq> set ks" "\<forall>k \<in> set ks. is_Constant k \<or> k \<in> set (new @ visited)"
      using Cons.IH [of visited stack] Cons.prems by auto
    moreover have "push_new A k (visited, stack) = (visited, stack)" using True mem by (simp add: push_new_def)
    ultimately show ?thesis using True by (intro exI [of _ new]) auto
  next
    case False
    obtain new where "fold (push_new A) ks (k # visited, k # stack) = (new @ k # visited, new @ k # stack)"
      "set new \<subseteq> set ks" "\<forall>x \<in> set ks. is_Constant x \<or> x \<in> set (new @ k # visited)"
      using Cons.IH [of "k # visited" "k # stack"] Cons.prems by auto
    moreover have "push_new A k (visited, stack) = (k # visited, k # stack)" using False mem by (simp add: push_new_def)
    ultimately show ?thesis by (intro exI [of _ "new @ [k]"]) auto
  qed
qed simp

lemma findReads_loop_complete:
  assumes "\<forall>v \<in> set visited. wt H v" "set stack \<subseteq> set visited"
    and "\<forall>v \<in> set visited - set stack. (getKind v = 3 \<longrightarrow> v \<in> set results) \<and>
      (\<forall>k \<in> set (findReads_next True v). is_Constant k \<or> k \<in> set visited)"
  shows "\<forall>v \<in> set visited. read_nodes v \<subseteq> set (findReads_loop A True visited stack results)"
  using assms
proof (induction B \<equiv> A b \<equiv> True visited stack results rule: findReads_loop.induct)
  case (1 visited results)
  have "read_nodes v \<subseteq> set results" if "v \<in> set visited" for v
    using that
  proof (induction "size v" arbitrary: v rule: less_induct)
    case less
    have "read_nodes k \<subseteq> set results" if k: "k \<in> set (findReads_next True v)" for k
    proof (cases "is_Constant k")
      case False
      have "Suc (3 * size k) \<le> stack_size (findReads_next True v)"
        using k by (auto simp: stack_size_def dest: split_list)
      then have "size k < size v" using findReads_next_size [of True v] by simp
      moreover have "k \<in> set visited" using 1(3) less.prems k False by auto
      ultimately show ?thesis using less.hyps by blast
    qed (simp add: is_Constant_reads)
    moreover have "getKind v = 3 \<Longrightarrow> v \<in> set results" using 1(3) less.prems by auto
    ultimately show ?case by (subst read_nodes_next) auto
  qed
  then show ?case by simp
next
  case (2 visited e stack results)
  have ks: "\<forall>k \<in> set (findReads_next True e). wt H k" using wt_next [of H e] 2(2,3) by auto
  obtain new where new: "fold (push_new A) (findReads_next True e) (visited, stack) = (new @ visited, new @ stack)"
      "set new \<subseteq> set (findReads_next True e)"
      "\<forall>k \<in> set (findReads_next True e). is_Constant k \<or> k \<in> set (new @ visited)"
    using push_new_ok [OF ks 2(2), of stack] by blast
  have "\<forall>v \<in> set (new @ visited). read_nodes v
      \<subseteq> set (findReads_loop A True (new @ visited) (new @ stack) (if getKind e = 3 then results @ [e] else results))"
  proof (rule 2(1) [OF refl new(1) [symmetric] refl])
    show "\<forall>v \<in> set (new @ visited). wt H v" using 2(2) ks new(2) by auto
    show "set (new @ stack) \<subseteq> set (new @ visited)" using 2(3) by auto
    show "\<forall>v \<in> set (new @ visited) - set (new @ stack).
        (getKind v = 3 \<longrightarrow> v \<in> set (if getKind e = 3 then results @ [e] else results)) \<and>
        (\<forall>k \<in> set (findReads_next True v). is_Constant k \<or> k \<in> set (new @ visited))"
    proof
      fix v assume v: "v \<in> set (new @ visited) - set (new @ stack)"
      show "(getKind v = 3 \<longrightarrow> v \<in> set (if getKind e = 3 then results @ [e] else results)) \<and>
        (\<forall>k \<in> set (findReads_next True v). is_Constant k \<or> k \<in> set (new @ visited))"
        using 2(4) v new(3) by (cases "v = e") auto
    qed
  qed
  then show ?case by (simp add: findReads_loop.simps(2) new(1))
qed

lemma findReads_loop_sound:
  "set (findReads_loop A True visited stack results) \<subseteq> set results \<union> (\<Union>e \<in> set stack. read_nodes e)"
proof (induction A "True" visited stack results rule: findReads_loop.induct)
  case (2 A visited e stack results)
  have up: "set (snd (fold (push_new A) ks (vis, st))) \<subseteq> set ks \<union> set st" for ks vis st
  proof (induction ks arbitrary: vis st)
    case (Cons k ks)
    obtain v s where p: "push_new A k (vis, st) = (v, s)" by fastforce
    then have "set s \<subseteq> insert k (set st)" by (auto simp: push_new_def split: if_splits)
    then show ?case using Cons.IH [of v s] p by auto
  qed simp
  obtain v s where vs: "fold (push_new A) (findReads_next True e) (visited, stack) = (v, s)" by fastforce
  then have s: "set s \<subseteq> set (findReads_next True e) \<union> set stack"
    using up [of "findReads_next True e" visited stack] by simp
  have "set (findReads_loop A True v s (if getKind e = 3 then results @ [e] else results))
      \<subseteq> set (if getKind e = 3 then results @ [e] else results) \<union> (\<Union>x \<in> set s. read_nodes x)"
    by (rule 2 [OF refl vs [symmetric] refl])
  also have "\<dots> \<subseteq> set results \<union> (\<Union>x \<in> set (e # stack). read_nodes x)"
    using s read_nodes_next [of e] by auto
  finally show ?case by (simp add: findReads_loop.simps(2) vs)
qed simp

theorem findReads_exact:
  assumes "wt H e"
  shows "set (findReads A e True []) = read_nodes e"
proof (cases "is_Constant e")
  case False
  have "read_nodes e \<subseteq> set (findReads_loop A True [e] [e] [])"
    using findReads_loop_complete [of "[e]" H "[e]" "[]"] assms by auto
  moreover have "set (findReads_loop A True [e] [e] []) \<subseteq> read_nodes e"
    using findReads_loop_sound [of "[e]" "[e]" "[]"] by simp
  ultimately show ?thesis using False by (simp add: findReads_def)
qed (simp add: findReads_def is_Constant_reads)

end

section \<open>The symbolic arrays\<close>

lemma add_object_set:
  assumes "array_ok H a" "\<forall>x \<in> set os. array_ok H x"
  shows "set (add_object a os) = insert a (set os)"
  using assms by (auto simp: add_object_def array_ok_def image_iff)

text \<open>The symbolic arrays that an expression reads.\<close>

fun sym_arrays :: "expr \<Rightarrow> array set" and sym_arrays_unode :: "unode \<Rightarrow> array set" where
  "sym_arrays (ConstantExpr c) = {}"
| "sym_arrays (NotOptimizedExpr e) = sym_arrays e"
| "sym_arrays (ReadExpr root head index) =
     (if isSymbolicArray root then {root} else {}) \<union> sym_arrays_unode head \<union> sym_arrays index"
| "sym_arrays (SelectExpr c t f) = sym_arrays c \<union> sym_arrays t \<union> sym_arrays f"
| "sym_arrays (ConcatExpr l r) = sym_arrays l \<union> sym_arrays r"
| "sym_arrays (ExtractExpr e off w) = sym_arrays e"
| "sym_arrays (CastExpr k e w) = sym_arrays e"
| "sym_arrays (NotExpr e) = sym_arrays e"
| "sym_arrays (BinaryExpr k l r) = sym_arrays l \<union> sym_arrays r"
| "sym_arrays_unode NullNode = {}"
| "sym_arrays_unode (UpdateNode nx index value) =
     sym_arrays_unode nx \<union> sym_arrays index \<union> sym_arrays value"

text \<open>The finder adds the symbolic arrays that the expression reads.\<close>

definition arrays_ok :: "(nat \<Rightarrow> array) \<Rightarrow> array set" where
  "arrays_ok H = {a. array_ok H a}"

lemma wt_sym_arrays:
  "wt H e \<Longrightarrow> sym_arrays e \<subseteq> arrays_ok H" "wt_unode H root u \<Longrightarrow> sym_arrays_unode u \<subseteq> arrays_ok H"
  by (induction e and u arbitrary: and root) (auto simp: arrays_ok_def)

lemma add_object_arrays:
  "array_ok H a \<Longrightarrow> set os \<subseteq> arrays_ok H \<Longrightarrow> set (add_object a os) = insert a (set os)"
  by (rule add_object_set) (auto simp: arrays_ok_def)

lemma SymbolicObjectFinder_set:
  "wt H e \<Longrightarrow> set os \<subseteq> arrays_ok H \<Longrightarrow> set (SymbolicObjectFinder e os) = set os \<union> sym_arrays e"
  "wt_unode H root u \<Longrightarrow> set os \<subseteq> arrays_ok H \<Longrightarrow>
     set (SymbolicObjectFinder_updates u os) = set os \<union> sym_arrays_unode u"
proof (induction e and u arbitrary: os and root os)
  case (ReadExpr root head index)
  have wt: "wt_unode H root head" "wt H index" "array_ok H root" using ReadExpr.prems by auto
  let ?os = "SymbolicObjectFinder_updates head os"
  have h: "set ?os = set os \<union> sym_arrays_unode head" using ReadExpr.IH(1) [OF wt(1) ReadExpr.prems(2)] .
  then have ok: "set ?os \<subseteq> arrays_ok H" using wt_sym_arrays(2) [OF wt(1)] ReadExpr.prems(2) by blast
  have ok': "set (if isSymbolicArray root then add_object root ?os else ?os) \<subseteq> arrays_ok H"
    using add_object_arrays [OF wt(3) ok] ok wt(3) by (simp add: arrays_ok_def)
  show ?case using ReadExpr.IH(2) [OF wt(2) ok'] add_object_arrays [OF wt(3) ok] h by (auto simp: Let_def)
next
  case (UpdateNode nx index v)
  then show ?case using wt_sym_arrays(1) [of H index] wt_sym_arrays(1) [of H v] by (auto simp: Un_assoc)
next
  case (SelectExpr c t f)
  then show ?case using wt_sym_arrays(1) [of H c] wt_sym_arrays(1) [of H t] by (auto simp: Un_assoc)
next
  case (ConcatExpr l r)
  then show ?case using wt_sym_arrays(1) [of H l] by (auto simp: Un_assoc)
next
  case (BinaryExpr k l r)
  then show ?case using wt_sym_arrays(1) [of H l] by (auto simp: Un_assoc)
qed auto

lemma findSymbolicObjects_set:
  "\<forall>e \<in> set es. wt H e \<Longrightarrow> set os \<subseteq> arrays_ok H \<Longrightarrow>
     set (findSymbolicObjects es os) = set os \<union> (\<Union>e \<in> set es. sym_arrays e)"
proof (induction es arbitrary: os)
  case (Cons e es)
  then have e: "set (SymbolicObjectFinder e os) = set os \<union> sym_arrays e" "sym_arrays e \<subseteq> arrays_ok H"
    using SymbolicObjectFinder_set(1) [of H e os] wt_sym_arrays(1) [of H e] by simp_all
  then have "set (findSymbolicObjects es (SymbolicObjectFinder e os))
      = set (SymbolicObjectFinder e os) \<union> (\<Union>e \<in> set es. sym_arrays e)"
    using Cons by (intro Cons.IH) auto
  then show ?case using e by (auto simp: findSymbolicObjects_def)
qed (simp add: findSymbolicObjects_def)

end
