(* ===== verification/Independent.thy ===== *)
theory Independent
  imports SolverLayers ExprUtil
begin

text \<open>
  \<open>IndependentSolver.cpp\<close>: the layer that passes on only the constraints that share bytes of
  arrays with the query, directly or through other constraints.

  A \<open>DenseSet<unsigned>\<close> is the sorted list of its elements; maps and sets of \<open>const Array *\<close> are
  lists in the order of the addresses, in which the code iterates over them.
\<close>

section \<open>Maps and sets of arrays\<close>

fun amap_find :: "array \<Rightarrow> (array \<times> 'v) list \<Rightarrow> 'v option" where
  "amap_find a [] = None"
| "amap_find a ((b, v) # m) = (if arr_addr a = arr_addr b then Some v else amap_find a m)"

fun amap_put :: "array \<Rightarrow> 'v \<Rightarrow> (array \<times> 'v) list \<Rightarrow> (array \<times> 'v) list" where
  "amap_put a v [] = [(a, v)]"
| "amap_put a v ((b, w) # m) =
     (if arr_addr a < arr_addr b then (a, v) # (b, w) # m
      else if arr_addr a = arr_addr b then (b, v) # m
      else (b, w) # amap_put a v m)"

fun amap_erase :: "array \<Rightarrow> (array \<times> 'v) list \<Rightarrow> (array \<times> 'v) list" where
  "amap_erase a [] = []"
| "amap_erase a ((b, w) # m) = (if arr_addr a = arr_addr b then m else (b, w) # amap_erase a m)"

definition aset_mem :: "array \<Rightarrow> array list \<Rightarrow> bool" where
  "aset_mem a s \<longleftrightarrow> arr_addr a \<in> arr_addr ` set s"

fun aset_insert :: "array \<Rightarrow> array list \<Rightarrow> array list" where
  "aset_insert a [] = [a]"
| "aset_insert a (b # s) =
     (if arr_addr a < arr_addr b then a # b # s
      else if arr_addr a = arr_addr b then b # s
      else b # aset_insert a s)"

section \<open>DenseSet\<close>

text \<open>\<open>add(const DenseSet &)\<close>: the flag is true iff the set is changed.\<close>

fun DenseSet_add_loop :: "nat list \<Rightarrow> nat list \<Rightarrow> bool \<Rightarrow> nat list \<times> bool" where
  "DenseSet_add_loop s [] modified = (s, modified)"
| "DenseSet_add_loop s (x # b) modified =
     (if modified \<or> x \<notin> set s then DenseSet_add_loop (insort_insert x s) b True
      else DenseSet_add_loop s b modified)"

definition DenseSet_add :: "nat list \<Rightarrow> nat list \<Rightarrow> nat list \<times> bool" where
  "DenseSet_add s b = DenseSet_add_loop s b False"

definition DenseSet_intersects :: "nat list \<Rightarrow> nat list \<Rightarrow> bool" where
  "DenseSet_intersects s b = list_ex (\<lambda>x. x \<in> set b) s"

section \<open>IndependentElementSet\<close>

record element_set =
  ie_elements :: "(array \<times> nat list) list"
  ie_wholeObjects :: "array list"
  ie_exprs :: "expr list"

definition add_read :: "apint_ops \<Rightarrow> expr \<Rightarrow> element_set \<Rightarrow> element_set option" where
  "add_read A re es =
     (case re of
        ReadExpr array head index \<Rightarrow>
          if isConstantArray array \<and> head = NullNode then Some es
          else if aset_mem array (ie_wholeObjects es) then Some es
          else (case index of
            ConstantExpr CE \<Rightarrow> do {
              z \<leftarrow> getZExtValue A CE 32;
              let dis = (case amap_find array (ie_elements es) of None \<Rightarrow> [] | Some d \<Rightarrow> d) in
                Some (es\<lparr>ie_elements :=
                  amap_put array (insort_insert (unat (ucast z :: uint32)) dis) (ie_elements es)\<rparr>) }
          | _ \<Rightarrow> Some (es\<lparr>ie_elements := amap_erase array (ie_elements es),
                          ie_wholeObjects := aset_insert array (ie_wholeObjects es)\<rparr>))
      | _ \<Rightarrow> None)"

fun add_reads :: "apint_ops \<Rightarrow> expr list \<Rightarrow> element_set \<Rightarrow> element_set option" where
  "add_reads A [] es = Some es"
| "add_reads A (re # reads) es = do { es \<leftarrow> add_read A re es; add_reads A reads es }"

definition IndependentElementSet_new :: "apint_ops \<Rightarrow> expr \<Rightarrow> element_set option" where
  "IndependentElementSet_new A e =
     add_reads A (findReads A e True []) \<lparr>ie_elements = [], ie_wholeObjects = [], ie_exprs = [e]\<rparr>"

definition ie_intersects :: "element_set \<Rightarrow> element_set \<Rightarrow> bool" where
  "ie_intersects s b \<longleftrightarrow>
     list_ex (\<lambda>array. aset_mem array (ie_wholeObjects b) \<or> amap_find array (ie_elements b) \<noteq> None)
       (ie_wholeObjects s) \<or>
     list_ex (\<lambda>(array, dis). aset_mem array (ie_wholeObjects b) \<or>
         (case amap_find array (ie_elements b) of None \<Rightarrow> False | Some dis2 \<Rightarrow> DenseSet_intersects dis dis2))
       (ie_elements s)"

fun add_wholes :: "array list \<Rightarrow> element_set \<Rightarrow> bool \<Rightarrow> element_set \<times> bool" where
  "add_wholes [] s modified = (s, modified)"
| "add_wholes (array # b) s modified =
     (if amap_find array (ie_elements s) \<noteq> None then
        add_wholes b (s\<lparr>ie_elements := amap_erase array (ie_elements s),
                        ie_wholeObjects := aset_insert array (ie_wholeObjects s)\<rparr>) True
      else if \<not> aset_mem array (ie_wholeObjects s) then
        add_wholes b (s\<lparr>ie_wholeObjects := aset_insert array (ie_wholeObjects s)\<rparr>) True
      else add_wholes b s modified)"

fun add_elements :: "(array \<times> nat list) list \<Rightarrow> element_set \<Rightarrow> bool \<Rightarrow> element_set \<times> bool" where
  "add_elements [] s modified = (s, modified)"
| "add_elements ((array, dis) # b) s modified =
     (if \<not> aset_mem array (ie_wholeObjects s) then
        (case amap_find array (ie_elements s) of
           None \<Rightarrow> add_elements b (s\<lparr>ie_elements := amap_put array dis (ie_elements s)\<rparr>) True
         | Some d \<Rightarrow>
             (case DenseSet_add d dis of (d', m) \<Rightarrow>
                add_elements b (s\<lparr>ie_elements := amap_put array d' (ie_elements s)\<rparr>) (m \<or> modified)))
      else add_elements b s modified)"

definition ie_add :: "element_set \<Rightarrow> element_set \<Rightarrow> element_set \<times> bool" where
  "ie_add s b =
     (case add_wholes (ie_wholeObjects b) (s\<lparr>ie_exprs := ie_exprs s @ ie_exprs b\<rparr>) False of
        (s, modified) \<Rightarrow> add_elements (ie_elements b) s modified)"

section \<open>getIndependentConstraints\<close>

text \<open>
  One pass over the worklist: the closure, the constraints that are added to the result, the new
  worklist, and whether the closure was not changed.
\<close>

fun closure_pass ::
  "element_set \<Rightarrow> (expr \<times> element_set) list \<Rightarrow> bool \<Rightarrow> element_set \<times> expr list \<times> (expr \<times> element_set) list \<times> bool" where
  "closure_pass eltsClosure [] done = (eltsClosure, [], [], done)"
| "closure_pass eltsClosure ((e, s) # worklist) done =
     (if ie_intersects s eltsClosure then
        (case ie_add eltsClosure s of (eltsClosure, m) \<Rightarrow>
           (case closure_pass eltsClosure worklist (if m then False else done) of
              (eltsClosure, result, newWorklist, done) \<Rightarrow> (eltsClosure, e # result, newWorklist, done)))
      else
        (case closure_pass eltsClosure worklist done of
           (eltsClosure, result, newWorklist, done) \<Rightarrow> (eltsClosure, result, (e, s) # newWorklist, done)))"

lemma closure_pass_length:
  "closure_pass cl wl d = (cl', r, wl', d') \<Longrightarrow> length wl' \<le> length wl \<and> (d \<and> \<not> d' \<longrightarrow> length wl' < length wl)"
proof (induction cl wl d arbitrary: cl' r wl' d' rule: closure_pass.induct)
  case (2 cl e s wl d)
  then show ?case
    by (fastforce split: if_splits prod.splits)
qed simp

function closure_loop ::
  "element_set \<Rightarrow> (expr \<times> element_set) list \<Rightarrow> expr list \<Rightarrow> element_set \<times> expr list" where
  "closure_loop eltsClosure worklist result =
     (case closure_pass eltsClosure worklist True of
        (eltsClosure, added, worklist, done) \<Rightarrow>
          if done then (eltsClosure, result @ added)
          else closure_loop eltsClosure worklist (result @ added))"
  by pat_completeness auto
termination
  by (relation "measure (\<lambda>(cl, wl, r). length wl)") (auto dest!: closure_pass_length [OF sym])

declare closure_loop.simps [simp del]

fun new_sets :: "apint_ops \<Rightarrow> expr list \<Rightarrow> element_set list option" where
  "new_sets A [] = Some []"
| "new_sets A (e # es) = do { s \<leftarrow> IndependentElementSet_new A e; ss \<leftarrow> new_sets A es; Some (s # ss) }"

definition getIndependentConstraints :: "expr_env \<Rightarrow> query \<Rightarrow> (element_set \<times> expr list) option" where
  "getIndependentConstraints G q = do {
     eltsClosure \<leftarrow> IndependentElementSet_new (api G) (q_expr q);
     sets \<leftarrow> new_sets (api G) (q_constraints q);
     Some (closure_loop eltsClosure (zip (q_constraints q) sets) []) }"

section \<open>getAllIndependentConstraintsSets\<close>

text \<open>
  The inner loop over the other factors: \<open>current\<close> absorbs those it intersects; the others, and
  whether \<open>current\<close> was not changed.
\<close>

fun absorb :: "element_set \<Rightarrow> element_set list \<Rightarrow> bool \<Rightarrow> element_set \<times> element_set list \<times> bool" where
  "absorb current [] doneLoop = (current, [], doneLoop)"
| "absorb current (compare # factors) doneLoop =
     (if ie_intersects current compare then
        (case ie_add current compare of (current, m) \<Rightarrow>
           absorb current factors (if m then False else doneLoop))
      else
        (case absorb current factors doneLoop of
           (current, keep, doneLoop) \<Rightarrow> (current, compare # keep, doneLoop)))"

lemma absorb_length:
  "absorb c fs d = (c', keep, d') \<Longrightarrow> length keep \<le> length fs \<and> (d \<and> \<not> d' \<longrightarrow> length keep < length fs)"
proof (induction c fs d arbitrary: c' keep d' rule: absorb.induct)
  case (2 c x fs d)
  then show ?case by (fastforce split: if_splits prod.splits)
qed simp

function factors_pass :: "element_set list \<Rightarrow> bool \<Rightarrow> element_set list \<times> bool" where
  "factors_pass [] doneLoop = ([], doneLoop)"
| "factors_pass (current # factors) doneLoop =
     (case absorb current factors doneLoop of
        (current, keep, doneLoop) \<Rightarrow>
          (case factors_pass keep doneLoop of (done, doneLoop) \<Rightarrow> (current # done, doneLoop)))"
  by pat_completeness auto
termination
  by (relation "measure (\<lambda>(fs, d). length fs)") (auto dest!: absorb_length [OF sym])

declare factors_pass.simps(2) [simp del]

lemma factors_pass_length:
  "factors_pass fs d = (fs', d') \<Longrightarrow> length fs' \<le> length fs \<and> (d \<and> \<not> d' \<longrightarrow> length fs' < length fs)"
proof (induction fs d arbitrary: fs' d' rule: factors_pass.induct)
  case (2 c fs d)
  obtain c' keep d1 where a: "absorb c fs d = (c', keep, d1)" by (cases "absorb c fs d")
  obtain r d2 where r: "factors_pass keep d1 = (r, d2)" by (cases "factors_pass keep d1")
  have "fs' = c' # r" "d' = d2" using "2.prems" a r by (simp_all add: factors_pass.simps(2))
  then show ?case using "2.IH" [OF a [symmetric] refl r] absorb_length [OF a] by auto
qed simp

function factors_loop :: "element_set list \<Rightarrow> element_set list" where
  "factors_loop factors =
     (case factors_pass factors True of
        (done, doneLoop) \<Rightarrow> if doneLoop then done else factors_loop done)"
  by pat_completeness auto
termination
  by (relation "measure length") (auto dest!: factors_pass_length [OF sym])

declare factors_loop.simps [simp del]

definition getAllIndependentConstraintsSets :: "expr_env \<Rightarrow> query \<Rightarrow> element_set list option" where
  "getAllIndependentConstraintsSets G q = do {
     first \<leftarrow>
       (case q_expr q of
          ConstantExpr CE \<Rightarrow> check (ConstantExpr_isFalse (api G) CE) (Some [])
        | _ \<Rightarrow> do {
            neg \<leftarrow> createIsZero G (q_expr q);
            s \<leftarrow> IndependentElementSet_new (api G) neg;
            Some [s] });
     sets \<leftarrow> new_sets (api G) (q_constraints q);
     Some (factors_loop (first @ sets)) }"

definition calculateArrayReferences :: "element_set \<Rightarrow> array list" where
  "calculateArrayReferences ie =
     fold aset_insert (ie_wholeObjects ie) (fold aset_insert (map fst (ie_elements ie)) [])"

section \<open>The solver\<close>

definition Independent_query :: "expr_env \<Rightarrow> query \<Rightarrow> query option" where
  "Independent_query G q = do {
     (eltsClosure, required) \<leftarrow> getIndependentConstraints G q;
     Some \<lparr>q_constraints = required, q_expr = q_expr q\<rparr> }"

definition Independent_computeValidity ::
  "expr_env \<Rightarrow> 's solver_impl \<Rightarrow> query \<Rightarrow> 's \<Rightarrow> (validity option \<times> 's) option" where
  "Independent_computeValidity G S q s = do { tmp \<leftarrow> Independent_query G q; si_computeValidity S tmp s }"

definition Independent_computeTruth ::
  "expr_env \<Rightarrow> 's solver_impl \<Rightarrow> query \<Rightarrow> 's \<Rightarrow> (bool option \<times> 's) option" where
  "Independent_computeTruth G S q s = do { tmp \<leftarrow> Independent_query G q; si_computeTruth S tmp s }"

definition Independent_computeValue ::
  "expr_env \<Rightarrow> 's solver_impl \<Rightarrow> query \<Rightarrow> 's \<Rightarrow> (expr option \<times> 's) option" where
  "Independent_computeValue G S q s = do { tmp \<leftarrow> Independent_query G q; si_computeValue S tmp s }"

subsection \<open>computeInitialValues\<close>

text \<open>The assertion of the created point; \<open>None\<close> where an evaluation gives no constant.\<close>

fun point_constraints :: "expr_env \<Rightarrow> Assignment \<Rightarrow> expr list \<Rightarrow> bool option" where
  "point_constraints G assign [] = Some True"
| "point_constraints G assign (c # cs) = do {
     ret \<leftarrow> Assignment_evaluate G assign c;
     (case ret of
        ConstantExpr e \<Rightarrow> if ConstantExpr_isFalse (api G) e then Some False else point_constraints G assign cs
      | _ \<Rightarrow> None) }"

definition assertCreatedPointEvaluatesToTrue ::
  "expr_env \<Rightarrow> query \<Rightarrow> array list \<Rightarrow> 8 word list list \<Rightarrow> (array \<times> 8 word list) list \<Rightarrow> bool option" where
  "assertCreatedPointEvaluatesToTrue G q objects values retMap = do {
     assign \<leftarrow> Assignment_new objects values True;
     let assign = assign\<lparr>bindings := fold (\<lambda>(a, v). bindings_insert a v) retMap (bindings assign)\<rparr> in do {
       ok \<leftarrow> point_constraints G assign (q_constraints q);
       if \<not> ok then Some False
       else do {
         neg \<leftarrow> createIsZero G (q_expr q);
         r \<leftarrow> Assignment_evaluate G assign neg;
         (case r of ConstantExpr e \<Rightarrow> Some (ConstantExpr_isTrue (api G) e) | _ \<Rightarrow> None) } } }"

text \<open>The values of a factor are written over those of an array that is there already.\<close>

fun put_indices :: "8 word list \<Rightarrow> nat list \<Rightarrow> 8 word list \<Rightarrow> 8 word list option" where
  "put_indices tempValues [] ptr = Some ptr"
| "put_indices tempValues (index # ds) ptr = do {
     v \<leftarrow> nth_opt tempValues index;
     check (index < length ptr) (put_indices tempValues ds (ptr[index := v])) }"

definition merge_array ::
  "element_set \<Rightarrow> array \<Rightarrow> 8 word list \<Rightarrow> (array \<times> 8 word list) list \<Rightarrow> (array \<times> 8 word list) list option" where
  "merge_array factor array tempValues retMap =
     (case amap_find array retMap of
        Some ptr \<Rightarrow>
          check (length ptr = length tempValues) (do {
            ptr' \<leftarrow> put_indices tempValues
              (case amap_find array (ie_elements factor) of None \<Rightarrow> [] | Some ds \<Rightarrow> ds) ptr;
            Some (amap_put array ptr' retMap) })
      | None \<Rightarrow> Some (amap_put array tempValues retMap))"

fun merge_arrays ::
  "element_set \<Rightarrow> array list \<Rightarrow> 8 word list list \<Rightarrow> (array \<times> 8 word list) list \<Rightarrow> (array \<times> 8 word list) list option" where
  "merge_arrays factor (array # arrays) (v # vs) retMap = do {
     retMap \<leftarrow> merge_array factor array v retMap;
     merge_arrays factor arrays vs retMap }"
| "merge_arrays factor arrays vs retMap = Some retMap"

text \<open>
  The loop over the factors: \<open>Inl\<close> is an early return, with its return value and the flag;
  \<open>Inr\<close> the map, the flag and the state after the loop.
\<close>

fun factors_values ::
  "expr_env \<Rightarrow> 's solver_impl \<Rightarrow> element_set list \<Rightarrow> (array \<times> 8 word list) list \<Rightarrow> bool option \<Rightarrow> 's
   \<Rightarrow> (((bool \<times> bool option) + ((array \<times> 8 word list) list \<times> bool option)) \<times> 's) option" where
  "factors_values G S [] retMap hasSolution s = Some (Inr (retMap, hasSolution), s)"
| "factors_values G S (it # factors) retMap hasSolution s =
     check (length (ie_exprs it) \<ge> 1)
       (let arraysInFactor = calculateArrayReferences it in
        if arraysInFactor = [] then factors_values G S factors retMap hasSolution s
        else do {
          ((success, out), s) \<leftarrow>
            si_computeInitialValues S
              \<lparr>q_constraints = ie_exprs it, q_expr = ConstantExpr (ConstantExpr_alloc_u64 (api G) 0 Bool_width)\<rparr>
              arraysInFactor \<lparr>vo_values = [], vo_hasSolution = hasSolution\<rparr> s;
          if \<not> success then Some (Inl (False, vo_hasSolution out), s)
          else do {
            solution \<leftarrow> vo_hasSolution out;
            if \<not> solution then Some (Inl (True, Some False), s)
            else check (length (vo_values out) = length arraysInFactor) (do {
              retMap \<leftarrow> merge_arrays it arraysInFactor (vo_values out) retMap;
              factors_values G S factors retMap (vo_hasSolution out) s }) } })"

definition object_bytes :: "(array \<times> 8 word list) list \<Rightarrow> array \<Rightarrow> 8 word list" where
  "object_bytes retMap arr =
     (case amap_find arr retMap of None \<Rightarrow> replicate (arr_size arr) 0 | Some v \<Rightarrow> v)"

definition Independent_computeInitialValues ::
  "expr_env \<Rightarrow> 's solver_impl \<Rightarrow> query \<Rightarrow> array list \<Rightarrow> values_out \<Rightarrow> 's
   \<Rightarrow> ((bool \<times> values_out) \<times> 's) option" where
  "Independent_computeInitialValues G S q objects out s = do {
     factors \<leftarrow> getAllIndependentConstraintsSets G q;
     (r, s) \<leftarrow> factors_values G S factors [] (Some True) s;
     (case r of
        Inl (success, hasSolution) \<Rightarrow> Some ((success, \<lparr>vo_values = [], vo_hasSolution = hasSolution\<rparr>), s)
      | Inr (retMap, hasSolution) \<Rightarrow>
          let values = vo_values out @ map (object_bytes retMap) objects in do {
            ok \<leftarrow> assertCreatedPointEvaluatesToTrue G q objects values retMap;
            check ok (Some ((True, \<lparr>vo_values = values, vo_hasSolution = hasSolution\<rparr>), s)) }) }"

definition IndependentSolver :: "expr_env \<Rightarrow> 's solver_impl \<Rightarrow> 's solver_impl" where
  "IndependentSolver G S =
     S\<lparr>si_computeValidity := Independent_computeValidity G S,
       si_computeTruth := Independent_computeTruth G S,
       si_computeValue := Independent_computeValue G S,
       si_computeInitialValues := Independent_computeInitialValues G S\<rparr>"

end
