(* ===== verification/SolverContract.thy ===== *)
theory SolverContract
  imports SolverLayers ExprUtil
begin

text \<open>
  What a solver implementation promises (locale \<open>solver_contract\<close>), and the layers of
  \<open>SolverLayers\<close> that keep the promise of the solver below them.

  The inputs of a program are assignments of bytes to arrays; a byte beyond the size of an array
  is 0, which is what \<open>Assignment::evaluate\<close> returns for it.  A query asks about the inputs that
  satisfy the constraints (\<open>models\<close>).  A solver may fail on any query; when it answers, the
  answer is right.  The questions about truth are asked under satisfiable constraints only, as
  the path constraints of a state are.
\<close>

section \<open>The meaning of queries\<close>

definition inputs :: "(nat \<Rightarrow> array) \<Rightarrow> assignment set" where
  "inputs H = {\<rho>. \<forall>a i. array_ok H a \<longrightarrow> 0 \<le> \<rho> a i \<and> \<rho> a i < 256 \<and> (arr_size a \<le> i \<longrightarrow> \<rho> a i = 0)}"

definition models :: "(nat \<Rightarrow> array) \<Rightarrow> expr list \<Rightarrow> assignment set" where
  "models H cs = {\<rho> \<in> inputs H. \<forall>c \<in> set cs. true_in \<rho> c}"

definition query_ok :: "(nat \<Rightarrow> array) \<Rightarrow> query \<Rightarrow> bool" where
  "query_ok H q \<longleftrightarrow> (\<forall>c \<in> set (q_constraints q). cond_ok H c) \<and> term_ok H (q_expr q)"

definition valid :: "(nat \<Rightarrow> array) \<Rightarrow> query \<Rightarrow> bool" where
  "valid H q \<longleftrightarrow> (\<forall>\<rho> \<in> models H (q_constraints q). true_in \<rho> (q_expr q))"

definition refuted :: "(nat \<Rightarrow> array) \<Rightarrow> query \<Rightarrow> bool" where
  "refuted H q \<longleftrightarrow> (\<forall>\<rho> \<in> models H (q_constraints q). \<not> true_in \<rho> (q_expr q))"

definition satisfiable :: "(nat \<Rightarrow> array) \<Rightarrow> query \<Rightarrow> bool" where
  "satisfiable H q \<longleftrightarrow> models H (q_constraints q) \<noteq> {}"

definition validity_right :: "(nat \<Rightarrow> array) \<Rightarrow> query \<Rightarrow> validity \<Rightarrow> bool" where
  "validity_right H q v = (case v of VTrue \<Rightarrow> valid H q | VFalse \<Rightarrow> refuted H q
     | VUnknown \<Rightarrow> \<not> valid H q \<and> \<not> refuted H q)"

text \<open>A condition on a query that is Boolean.\<close>

definition bool_query :: "(nat \<Rightarrow> array) \<Rightarrow> query \<Rightarrow> bool" where
  "bool_query H q \<longleftrightarrow> query_ok H q \<and> getWidth (q_expr q) = 1"

text \<open>Two inputs that agree on the objects agree on the query.\<close>

definition covers :: "(nat \<Rightarrow> array) \<Rightarrow> array list \<Rightarrow> query \<Rightarrow> bool" where
  "covers H objects q \<longleftrightarrow> (\<forall>e \<in> set (q_expr q # q_constraints q). \<forall>\<rho> \<in> inputs H. \<forall>\<rho>' \<in> inputs H.
     (\<forall>a \<in> set objects. \<rho> a = \<rho>' a) \<longrightarrow> true_in \<rho> e = true_in \<rho>' e)"

text \<open>The assignment of values to objects, one vector of the object's size for each.\<close>

definition values_of :: "(nat \<Rightarrow> array) \<Rightarrow> array list \<Rightarrow> 8 word list list \<Rightarrow> Assignment \<Rightarrow> bool" where
  "values_of H objects vs a \<longleftrightarrow> list_all2 (\<lambda>x v. array_ok H x \<and> length v = arr_size x) objects vs
     \<and> Assignment_new objects vs False = Some a"

definition initial_right :: "(nat \<Rightarrow> array) \<Rightarrow> query \<Rightarrow> array list \<Rightarrow> values_out \<Rightarrow> bool" where
  "initial_right H q objects out =
     (case vo_hasSolution out of
        None \<Rightarrow> False
      | Some False \<Rightarrow> valid H q
      | Some True \<Rightarrow> (\<exists>a. values_of H objects (vo_values out) a
          \<and> assignment_of a \<in> models H (q_constraints q) \<and> \<not> true_in (assignment_of a) (q_expr q)))"

text \<open>The value of an expression depends on the symbolic arrays it reads.\<close>

lemma sem_same_reads:
  assumes "\<rho> \<in> inputs H" "\<rho>' \<in> inputs H"
  shows "wt H e \<Longrightarrow> \<forall>a \<in> sym_arrays e. \<rho> a = \<rho>' a \<Longrightarrow> sem \<rho> e = sem \<rho>' e"
    and "array_ok H root \<Longrightarrow> wt_unode H root u \<Longrightarrow>
      \<forall>a \<in> sym_arrays_unode u \<union> (if isSymbolicArray root then {root} else {}). \<rho> a = \<rho>' a \<Longrightarrow>
      \<forall>i. sem_read \<rho> root u i = sem_read \<rho>' root u i"
proof (induction e and u arbitrary: and root)
  case NullNode
  have "arr_size root \<le> i \<Longrightarrow> \<rho> root i = 0 \<and> \<rho>' root i = 0" for i
    using NullNode(1) assms by (simp add: inputs_def)
  then show ?case
    using NullNode by (auto simp: array_value_def isConstantArray_def isSymbolicArray_def not_less split: if_splits)
next
  case (ReadExpr root head index)
  then show ?case by (simp add: ball_Un)
qed (auto simp: ball_Un)

lemma covers_arrays:
  assumes "query_ok H q" "\<forall>e \<in> set (q_expr q # q_constraints q). sym_arrays e \<subseteq> set objects"
  shows "covers H objects q"
  unfolding covers_def
proof (intro ballI impI)
  fix e \<rho> \<rho>' assume e: "e \<in> set (q_expr q # q_constraints q)" and r: "\<rho> \<in> inputs H" "\<rho>' \<in> inputs H"
    and eq: "\<forall>a \<in> set objects. \<rho> a = \<rho>' a"
  have "wt H e" using e assms(1) by (auto simp: query_ok_def term_ok_def cond_ok_def)
  moreover have "\<forall>a \<in> sym_arrays e. \<rho> a = \<rho>' a" using e eq assms(2) by blast
  ultimately show "true_in \<rho> e = true_in \<rho>' e" using sem_same_reads(1) [OF r] by (simp add: true_in_def)
qed

lemma values_of_inputs:
  assumes "values_of H objects vs a"
  shows "assignment_of a \<in> inputs H" "\<not> allowFreeValues a"
proof -
  have a: "Assignment_new objects vs False = Some a" "list_all2 (\<lambda>x v. array_ok H x \<and> length v = arr_size x) objects vs"
    using assms by (simp_all add: values_of_def)
  have "length bytes \<le> arr_size x" if "array_ok H x" "bindings_find x (bindings a) = Some bytes" for x bytes
  proof -
    have "(arr_addr x, bytes) \<in> set (zip (map arr_addr objects) vs)"
      using Assignment_new_lookup [OF a(1), of x] that(2) map_of_SomeD by metis
    then obtain i where i: "i < length objects" "i < length vs" "arr_addr (objects ! i) = arr_addr x" "vs ! i = bytes"
      by (auto simp: in_set_zip)
    then have "array_ok H (objects ! i) \<and> length (vs ! i) = arr_size (objects ! i)"
      using list_all2_nthD [OF a(2), of i] by simp
    then show ?thesis using i that(1) by (auto simp: array_ok_def)
  qed
  then show "assignment_of a \<in> inputs H"
    using unsigned_less [where 'b = 8 and 'a = int]
    by (fastforce simp: inputs_def assignment_of_def split: option.split)
  show "\<not> allowFreeValues a" using a(1) by (auto simp: Assignment_new_def)
qed

lemma valid_iff: "valid H q \<longleftrightarrow> (\<forall>\<rho> \<in> models H (q_constraints q). true_in \<rho> (q_expr q))"
  by (simp add: valid_def)

lemma valid_not_refuted: "satisfiable H q \<Longrightarrow> valid H q \<Longrightarrow> \<not> refuted H q"
  by (auto simp: satisfiable_def valid_def refuted_def)

lemma query_sel [simp]:
  "q_constraints (withExpr q e) = q_constraints q" "q_expr (withExpr q e) = e"
  "q_constraints (withFalse G q) = q_constraints q"
  by (simp_all add: withExpr_def withFalse_def)

lemma query_eta [simp]: "withExpr q (q_expr q) = q" "\<lparr>q_constraints = q_constraints q, q_expr = q_expr q\<rparr> = q"
  by (simp_all add: withExpr_def)

lemma satisfiable_withExpr [simp]: "satisfiable H (withExpr q e) = satisfiable H q"
  by (simp add: satisfiable_def)

lemma models_inputs: "\<rho> \<in> models H cs \<Longrightarrow> \<rho> \<in> inputs H"
  by (simp add: models_def)

section \<open>The contract\<close>

text \<open>
  \<open>I\<close> is the invariant of the state of the solver, \<open>D\<close> the queries whose initial values may be
  asked for.
\<close>

locale solver_contract = expr_creation G for G :: expr_env +
  fixes H :: "nat \<Rightarrow> array" and D :: "query \<Rightarrow> bool" and I :: "'s \<Rightarrow> bool" and S :: "'s solver_impl"
  assumes truth: "bool_query H q \<Longrightarrow> satisfiable H q \<Longrightarrow> I s \<Longrightarrow>
      \<exists>r s'. si_computeTruth S q s = Some (r, s') \<and> I s' \<and> (\<forall>b. r = Some b \<longrightarrow> b = valid H q)"
    and validity: "bool_query H q \<Longrightarrow> satisfiable H q \<Longrightarrow> I s \<Longrightarrow>
      \<exists>r s'. si_computeValidity S q s = Some (r, s') \<and> I s' \<and> (\<forall>v. r = Some v \<longrightarrow> validity_right H q v)"
    and val: "query_ok H q \<Longrightarrow> satisfiable H q \<Longrightarrow> I s \<Longrightarrow>
      \<exists>r s'. si_computeValue S q s = Some (r, s') \<and> I s' \<and>
        (\<forall>e. r = Some e \<longrightarrow> (\<exists>\<rho> \<in> models H (q_constraints q). e = ConstantExpr (sem \<rho> (q_expr q))))"
    and initial: "bool_query H q \<Longrightarrow> D q \<Longrightarrow> covers H objects q \<Longrightarrow> \<forall>x \<in> set objects. array_ok H x \<Longrightarrow>
      vo_values out = [] \<Longrightarrow> I s \<Longrightarrow>
      \<exists>ok out' s'. si_computeInitialValues S q objects out s = Some ((ok, out'), s') \<and> I s' \<and>
        (ok \<longrightarrow> initial_right H q objects out')"
    and timeout: "I s \<Longrightarrow> I (si_setCoreSolverTimeout S t s)"

context expr_creation
begin

lemma negate_query:
  assumes "bool_query H q"
  shows "\<exists>n. negateExpr G q = Some n \<and> bool_query H n \<and> q_constraints n = q_constraints q
    \<and> (\<forall>\<rho>. true_in \<rho> (q_expr n) = (\<not> true_in \<rho> (q_expr q))) \<and> satisfiable H n = satisfiable H q
    \<and> valid H n = refuted H q \<and> refuted H n = valid H q"
proof -
  have "cond_ok H (q_expr q)" using assms by (simp add: bool_query_def query_ok_def term_ok_def cond_ok_def)
  then obtain e where "createIsZero G (q_expr q) = Some e" "cond_ok H e" "\<forall>\<rho>. true_in \<rho> e = (\<not> true_in \<rho> (q_expr q))"
    using negate_cond by blast
  then show ?thesis using assms
    by (intro exI [of _ "withExpr q e"])
      (simp add: negateExpr_def bool_query_def query_ok_def cond_ok_def term_ok_def valid_def refuted_def satisfiable_def)
qed

lemma bool_query_cond: "bool_query H q \<Longrightarrow> cond_ok H (q_expr q)"
  by (simp add: bool_query_def query_ok_def term_ok_def cond_ok_def)

end

lemma bool_query_const [simp]:
  assumes "bool_query H q"
  shows "bool_query H (withExpr q (ConstantExpr (bv_bool b)))"
  using assms by (simp add: bool_query_def query_ok_def term_ok_def)

lemma bool_query_with: "query_ok H q \<Longrightarrow> cond_ok H e \<Longrightarrow> bool_query H (withExpr q e)"
  by (simp add: bool_query_def query_ok_def cond_ok_def term_ok_def)

end
