(* ===== verification/IndependentSound.thy ===== *)
theory IndependentSound
  imports Independent SolverContract
begin

text \<open>
  The bytes that an expression depends on, the bytes of an element set, and why the constraints
  that share none of them with a query can be left out.
\<close>

section \<open>Maps of arrays by address\<close>

definition amap_at :: "(array \<times> 'v) list \<Rightarrow> nat \<Rightarrow> 'v option" where
  "amap_at m = map_of (map (\<lambda>(a, v). (arr_addr a, v)) m)"

abbreviation amap_sorted :: "(array \<times> 'v) list \<Rightarrow> bool" where
  "amap_sorted m \<equiv> sorted_wrt (\<lambda>x y. arr_addr (fst x) < arr_addr (fst y)) m"

lemma amap_at_simps [simp]:
  "amap_at [] = Map.empty" "amap_at ((a, v) # m) = (amap_at m)(arr_addr a \<mapsto> v)"
  by (simp_all add: amap_at_def)

lemma amap_find_at: "amap_find a m = amap_at m (arr_addr a)"
  by (induction m) auto

lemma amap_at_below: "\<forall>(b, v) \<in> set m. x < arr_addr b \<Longrightarrow> amap_at m x = None"
  by (induction m) auto

lemma amap_put_at: "amap_sorted m \<Longrightarrow> amap_at (amap_put a v m) = (amap_at m)(arr_addr a \<mapsto> v)"
  by (induction a v m rule: amap_put.induct) (auto simp: fun_upd_twist)

lemma amap_put_keys: "set (amap_put a v m) \<subseteq> insert (a, v) (set m \<union> {(b, v) | b w. (b, w) \<in> set m})"
  by (induction a v m rule: amap_put.induct) auto

lemma amap_put_sorted: "amap_sorted m \<Longrightarrow> amap_sorted (amap_put a v m)"
proof (induction a v m rule: amap_put.induct)
  case (2 a v b w m)
  then show ?case using amap_put_keys [of a v m] by fastforce
qed simp

lemma amap_erase_set: "set (amap_erase a m) \<subseteq> set m"
  by (induction a m rule: amap_erase.induct) auto

lemma amap_erase_sorted: "amap_sorted m \<Longrightarrow> amap_sorted (amap_erase a m)"
proof (induction a m rule: amap_erase.induct)
  case (2 a b w m)
  then show ?case using amap_erase_set [of a m] by fastforce
qed simp

lemma amap_erase_at: "amap_sorted m \<Longrightarrow> amap_at (amap_erase a m) = (amap_at m)(arr_addr a := None)"
proof (induction a m rule: amap_erase.induct)
  case (2 a b w m)
  have "amap_at m (arr_addr b) = None" using 2(2) by (intro amap_at_below) auto
  then show ?case using 2 by (auto simp: fun_upd_twist fun_upd_idem)
qed simp

lemma amap_put_same: "amap_at m (arr_addr a) = Some v \<Longrightarrow> amap_sorted m \<Longrightarrow> amap_put a v m = m"
proof (induction a v m rule: amap_put.induct)
  case (2 a v b w m)
  have "amap_at m (arr_addr a) = None" if "arr_addr a < arr_addr b"
    using 2(3) that by (intro amap_at_below) auto
  then show ?case using 2 by (auto split: if_splits)
qed simp

lemma amap_in_set: "amap_sorted m \<Longrightarrow> (a, v) \<in> set m \<Longrightarrow> amap_at m (arr_addr a) = Some v"
proof (induction m)
  case (Cons x m)
  then show ?case by (cases x) fastforce
qed simp

lemma amap_at_set: "amap_at m x = Some v \<Longrightarrow> \<exists>a. (a, v) \<in> set m \<and> arr_addr a = x"
  by (induction m) (auto split: if_splits)

lemma aset_insert_set: "arr_addr ` set (aset_insert a s) = insert (arr_addr a) (arr_addr ` set s)"
  by (induction a s rule: aset_insert.induct) auto

lemma aset_insert_subset: "set (aset_insert a s) \<subseteq> insert a (set s)"
  by (induction a s rule: aset_insert.induct) auto

lemma aset_insert_same: "sorted_wrt (\<lambda>x y. arr_addr x < arr_addr y) s \<Longrightarrow> arr_addr a \<in> arr_addr ` set s \<Longrightarrow> aset_insert a s = s"
  by (induction a s rule: aset_insert.induct) auto

lemma aset_mem_iff [simp]: "aset_mem a s \<longleftrightarrow> arr_addr a \<in> arr_addr ` set s"
  by (simp add: aset_mem_def)

section \<open>Element sets as sets of bytes\<close>

definition elems :: "element_set \<Rightarrow> nat \<Rightarrow> nat list option" where
  "elems es = amap_at (ie_elements es)"

definition wholes :: "element_set \<Rightarrow> nat set" where
  "wholes es = arr_addr ` set (ie_wholeObjects es)"

definition es_keys :: "element_set \<Rightarrow> nat set" where
  "es_keys es = wholes es \<union> dom (elems es)"

definition locs :: "element_set \<Rightarrow> (nat \<times> nat) set" where
  "locs es = {(x, i). x \<in> wholes es \<or> (\<exists>d. elems es x = Some d \<and> i \<in> set d)}"

definition es_ok :: "element_set \<Rightarrow> bool" where
  "es_ok es \<longleftrightarrow> amap_sorted (ie_elements es) \<and> wholes es \<inter> dom (elems es) = {}"

definition separate :: "element_set \<Rightarrow> element_set \<Rightarrow> bool" where
  "separate s b \<longleftrightarrow> locs s \<inter> locs b = {} \<and> wholes s \<inter> es_keys b = {} \<and> wholes b \<inter> es_keys s = {}"

lemma separate_sym: "separate s b \<longleftrightarrow> separate b s"
  by (auto simp: separate_def)

lemma DenseSet_add_loop_ok:
  "set (fst (DenseSet_add_loop s b m)) = set s \<union> set b"
  "\<not> snd (DenseSet_add_loop s b m) \<Longrightarrow> fst (DenseSet_add_loop s b m) = s \<and> \<not> m"
  by (induction s b m rule: DenseSet_add_loop.induct) (auto simp: set_insort_insert split: if_splits)

lemma DenseSet_add_ok:
  "set (fst (DenseSet_add s b)) = set s \<union> set b" "\<not> snd (DenseSet_add s b) \<Longrightarrow> fst (DenseSet_add s b) = s"
  using DenseSet_add_loop_ok [of s b False] by (simp_all add: DenseSet_add_def)

lemma not_intersects:
  assumes "es_ok s" "es_ok b" "\<not> ie_intersects s b"
  shows "separate s b"
proof -
  have w: "x \<notin> es_keys b" if "x \<in> wholes s" for x
    using assms(3) that
    by (auto simp: ie_intersects_def list_ex_iff es_keys_def wholes_def elems_def amap_find_at dom_def)
  have e: "x \<notin> wholes b \<and> (\<forall>d2. elems b x = Some d2 \<longrightarrow> set d \<inter> set d2 = {})" if el: "elems s x = Some d" for x d
  proof -
    obtain a where a: "(a, d) \<in> set (ie_elements s)" "arr_addr a = x"
      using amap_at_set [OF el [unfolded elems_def]] by blast
    then have "\<not> aset_mem a (ie_wholeObjects b)"
        "\<not> (case amap_find a (ie_elements b) of None \<Rightarrow> False | Some dis2 \<Rightarrow> DenseSet_intersects d dis2)"
      using assms(3) by (auto simp: ie_intersects_def list_ex_iff)
    then show ?thesis using a(2)
      by (auto simp: wholes_def elems_def amap_find_at DenseSet_intersects_def list_ex_iff)
  qed
  show ?thesis
    using w e by (fastforce simp: separate_def locs_def es_keys_def dom_def)
qed

text \<open>Adding joins the bytes; an addition that reports no change makes none.\<close>

definition joins :: "element_set \<Rightarrow> element_set \<Rightarrow> element_set \<Rightarrow> bool" where
  "joins s b r \<longleftrightarrow> es_ok r \<and> locs r = locs s \<union> locs b \<and> wholes r = wholes s \<union> wholes b
     \<and> es_keys r = es_keys s \<union> es_keys b"

definition grows :: "element_set \<Rightarrow> nat set \<Rightarrow> (nat \<times> nat) set \<Rightarrow> nat set \<Rightarrow> element_set \<Rightarrow> bool" where
  "grows s W L K r \<longleftrightarrow> es_ok r \<and> ie_exprs r = ie_exprs s \<and> wholes r = wholes s \<union> W \<and> locs r = locs s \<union> L
     \<and> es_keys r = es_keys s \<union> K"

lemma grows_trans: "grows s W L K r \<Longrightarrow> grows r W' L' K' t \<Longrightarrow> grows s (W \<union> W') (L \<union> L') (K \<union> K') t"
  by (auto simp: grows_def)

lemma grows_same: "es_ok s \<Longrightarrow> W \<subseteq> wholes s \<Longrightarrow> L \<subseteq> locs s \<Longrightarrow> K \<subseteq> es_keys s \<Longrightarrow> grows s W L K s"
  by (auto simp: grows_def)

lemma make_whole:
  assumes "es_ok s"
  shows "grows s {arr_addr a} ({arr_addr a} \<times> UNIV) {arr_addr a}
      (s\<lparr>ie_elements := amap_erase a (ie_elements s), ie_wholeObjects := aset_insert a (ie_wholeObjects s)\<rparr>)"
    and "elems s (arr_addr a) = None \<Longrightarrow> grows s {arr_addr a} ({arr_addr a} \<times> UNIV) {arr_addr a}
      (s\<lparr>ie_wholeObjects := aset_insert a (ie_wholeObjects s)\<rparr>)"
proof -
  have srt: "amap_sorted (ie_elements s)" and dis: "wholes s \<inter> dom (elems s) = {}"
    using assms by (simp_all add: es_ok_def)
  let ?s1 = "s\<lparr>ie_elements := amap_erase a (ie_elements s), ie_wholeObjects := aset_insert a (ie_wholeObjects s)\<rparr>"
  let ?s2 = "s\<lparr>ie_wholeObjects := aset_insert a (ie_wholeObjects s)\<rparr>"
  have w: "wholes ?s1 = insert (arr_addr a) (wholes s)" "wholes ?s2 = insert (arr_addr a) (wholes s)"
    by (simp_all add: wholes_def aset_insert_set)
  have e: "elems ?s1 = (elems s)(arr_addr a := None)" "elems ?s2 = elems s"
    by (simp_all add: elems_def amap_erase_at [OF srt])
  show "grows s {arr_addr a} ({arr_addr a} \<times> UNIV) {arr_addr a} ?s1"
    using srt dis amap_erase_sorted [OF srt] by (auto simp: grows_def es_ok_def w e locs_def es_keys_def)
  show "elems s (arr_addr a) = None \<Longrightarrow> grows s {arr_addr a} ({arr_addr a} \<times> UNIV) {arr_addr a} ?s2"
    using srt dis by (auto simp: grows_def es_ok_def w e locs_def es_keys_def)
qed

lemma is_whole:
  assumes "es_ok s" "arr_addr a \<in> wholes s"
  shows "grows s {arr_addr a} ({arr_addr a} \<times> UNIV) {arr_addr a} s" "grows s {} ({arr_addr a} \<times> X) {arr_addr a} s"
  using assms by (auto simp: grows_def es_keys_def locs_def)

lemma add_wholes_ok:
  "es_ok s \<Longrightarrow> grows s (arr_addr ` set ws) ((arr_addr ` set ws) \<times> UNIV) (arr_addr ` set ws) (fst (add_wholes ws s m))
    \<and> (\<not> snd (add_wholes ws s m) \<longrightarrow> fst (add_wholes ws s m) = s \<and> \<not> m)"
proof (induction ws s m rule: add_wholes.induct)
  case (1 s m)
  then show ?case by (simp add: grows_def)
next
  case (2 a b s m)
  let ?W = "insert (arr_addr a) (arr_addr ` set b)"
  have join: "grows s ?W (?W \<times> UNIV) ?W t"
    if "grows s {arr_addr a} ({arr_addr a} \<times> UNIV) {arr_addr a} r"
      "grows r (arr_addr ` set b) ((arr_addr ` set b) \<times> UNIV) (arr_addr ` set b) t" for r t
  proof -
    show ?thesis using grows_trans [OF that] unfolding Sigma_Un_distrib1 [symmetric] by simp
  qed
  consider "amap_find a (ie_elements s) \<noteq> None" | "amap_find a (ie_elements s) = None" "\<not> aset_mem a (ie_wholeObjects s)"
    | "amap_find a (ie_elements s) = None" "aset_mem a (ie_wholeObjects s)" by blast
  then show ?case
  proof cases
    case 1
    note g = make_whole(1) [OF "2.prems", of a]
    have ok: "es_ok (s\<lparr>ie_elements := amap_erase a (ie_elements s), ie_wholeObjects := aset_insert a (ie_wholeObjects s)\<rparr>)"
      using g by (simp add: grows_def)
    show ?thesis using "2.IH"(1) [OF 1 ok] join [OF g] 1 by simp
  next
    case 2
    have n: "elems s (arr_addr a) = None" using 2(1) by (simp add: elems_def amap_find_at)
    note g = make_whole(2) [OF "2.prems" n]
    have ok: "es_ok (s\<lparr>ie_wholeObjects := aset_insert a (ie_wholeObjects s)\<rparr>)" using g by (simp add: grows_def)
    show ?thesis using "2.IH"(2) [OF _ 2(2) ok] join [OF g] 2 by simp
  next
    case 3
    have w: "arr_addr a \<in> wholes s" using 3(2) by (simp add: wholes_def)
    have eq: "add_wholes (a # b) s m = add_wholes b s m" using 3 by simp
    note IH = "2.IH"(3) [OF _ _ "2.prems"]
    have "grows s ?W (?W \<times> UNIV) ?W (fst (add_wholes b s m))"
      by (rule join [OF is_whole(1) [OF "2.prems" w]]) (use IH 3 in blast)
    moreover have "\<not> snd (add_wholes b s m) \<longrightarrow> fst (add_wholes b s m) = s \<and> \<not> m" using IH 3 by blast
    ultimately show ?thesis unfolding eq list.set image_insert by blast
  qed
qed

lemma elems_put:
  assumes "es_ok s" "arr_addr a \<notin> wholes s"
  shows "es_ok (s\<lparr>ie_elements := amap_put a d (ie_elements s)\<rparr>)"
    "elems (s\<lparr>ie_elements := amap_put a d (ie_elements s)\<rparr>) = (elems s)(arr_addr a \<mapsto> d)"
    "wholes (s\<lparr>ie_elements := amap_put a d (ie_elements s)\<rparr>) = wholes s"
  using assms amap_put_sorted [of "ie_elements s" a d] amap_put_at [of "ie_elements s" a d]
  by (auto simp: es_ok_def elems_def wholes_def)

definition pairs :: "(array \<times> nat list) list \<Rightarrow> (nat \<times> nat) set" where
  "pairs m = (\<Union>(a, d) \<in> set m. {arr_addr a} \<times> set d)"

lemma pairs_simps [simp]: "pairs [] = {}" "pairs ((a, d) # m) = {arr_addr a} \<times> set d \<union> pairs m"
  by (auto simp: pairs_def)

lemma put_new:
  assumes "es_ok s" "arr_addr a \<notin> wholes s" "elems s (arr_addr a) = None"
  shows "grows s {} ({arr_addr a} \<times> set d) {arr_addr a} (s\<lparr>ie_elements := amap_put a d (ie_elements s)\<rparr>)"
  using assms elems_put [OF assms(1,2), of d] by (auto simp: grows_def locs_def es_keys_def split: if_splits)

lemma put_more:
  assumes "es_ok s" "arr_addr a \<notin> wholes s" "elems s (arr_addr a) = Some d" "set d' = set d \<union> X"
  shows "grows s {} ({arr_addr a} \<times> X) {arr_addr a} (s\<lparr>ie_elements := amap_put a d' (ie_elements s)\<rparr>)"
  using assms elems_put [OF assms(1,2), of d'] by (auto simp: grows_def locs_def es_keys_def split: if_splits)

lemma add_elements_ok:
  "es_ok s \<Longrightarrow> grows s {} (pairs es) (arr_addr ` fst ` set es) (fst (add_elements es s m))
    \<and> (\<not> snd (add_elements es s m) \<longrightarrow> fst (add_elements es s m) = s \<and> \<not> m)"
proof (induction es s m rule: add_elements.induct)
  case (1 s m)
  then show ?case by (simp add: grows_def)
next
  case (2 a dis b s m)
  note ok = "2.prems"
  have join: "grows s {} ({arr_addr a} \<times> set dis \<union> pairs b) (insert (arr_addr a) (arr_addr ` fst ` set b)) t"
    if "grows s {} ({arr_addr a} \<times> set dis) {arr_addr a} r" "grows r {} (pairs b) (arr_addr ` fst ` set b) t" for r t
    using grows_trans [OF that] by simp
  show ?case
  proof (cases "aset_mem a (ie_wholeObjects s)")
    case True
    have w: "arr_addr a \<in> wholes s" using True by (simp add: wholes_def)
    have "\<not> snd (add_elements b s m) \<longrightarrow> fst (add_elements b s m) = s \<and> \<not> m"
      using "2.IH"(3) [OF _ ok] True by blast
    moreover have "grows s {} ({arr_addr a} \<times> set dis \<union> pairs b) (insert (arr_addr a) (arr_addr ` fst ` set b)) (fst (add_elements b s m))"
      by (rule join [OF is_whole(2) [OF ok]]) (use "2.IH"(3) [OF _ ok] True w in blast)+
    moreover have "add_elements ((a, dis) # b) s m = add_elements b s m" using True by simp
    ultimately show ?thesis by (simp only: pairs_simps list.set image_insert fst_conv)
  next
    case False
    then have nw: "arr_addr a \<notin> wholes s" by (simp add: wholes_def)
    show ?thesis
    proof (cases "amap_find a (ie_elements s)")
      case None
      then have n: "elems s (arr_addr a) = None" by (simp add: elems_def amap_find_at)
      note g = put_new [OF ok nw n, of dis]
      have "es_ok (s\<lparr>ie_elements := amap_put a dis (ie_elements s)\<rparr>)" using g by (simp add: grows_def)
      then show ?thesis using "2.IH"(1) [OF False None] join [OF g] False None by simp
    next
      case (Some d)
      obtain d' m' where d: "DenseSet_add d dis = (d', m')" by (cases "DenseSet_add d dis")
      have sd: "set d' = set d \<union> set dis" "\<not> m' \<Longrightarrow> d' = d" using DenseSet_add_ok [of d dis] d by auto
      have n: "elems s (arr_addr a) = Some d" using Some by (simp add: elems_def amap_find_at)
      note g = put_more [OF ok nw n sd(1)]
      let ?s1 = "s\<lparr>ie_elements := amap_put a d' (ie_elements s)\<rparr>"
      have ok1: "es_ok ?s1" using g by (simp add: grows_def)
      have same: "?s1 = s" if "\<not> m'"
        using amap_put_same [of "ie_elements s" a d] n ok sd(2) [OF that] by (simp add: es_ok_def elems_def)
      have eq: "add_elements ((a, dis) # b) s m = add_elements b ?s1 (m' \<or> m)" using False Some d by simp
      note IH = "2.IH"(2) [OF False Some d [symmetric] ok1]
      have "\<not> snd (add_elements b ?s1 (m' \<or> m)) \<longrightarrow> fst (add_elements b ?s1 (m' \<or> m)) = s \<and> \<not> m"
        using IH same by metis
      moreover have "grows s {} ({arr_addr a} \<times> set dis \<union> pairs b) (insert (arr_addr a) (arr_addr ` fst ` set b))
          (fst (add_elements b ?s1 (m' \<or> m)))" by (rule join [OF g IH [THEN conjunct1]])
      ultimately show ?thesis unfolding eq by (simp only: pairs_simps list.set image_insert fst_conv)
    qed
  qed
qed

lemma ie_add_ok:
  assumes "es_ok s" "es_ok b"
  shows "joins s b (fst (ie_add s b))" "ie_exprs (fst (ie_add s b)) = ie_exprs s @ ie_exprs b"
    "\<not> snd (ie_add s b) \<Longrightarrow> ie_elements (fst (ie_add s b)) = ie_elements s \<and> ie_wholeObjects (fst (ie_add s b)) = ie_wholeObjects s"
proof -
  let ?s0 = "s\<lparr>ie_exprs := ie_exprs s @ ie_exprs b\<rparr>"
  obtain s1 m1 where w: "add_wholes (ie_wholeObjects b) ?s0 False = (s1, m1)" by (cases "add_wholes (ie_wholeObjects b) ?s0 False")
  have same: "es_ok ?s0" "locs ?s0 = locs s" "wholes ?s0 = wholes s" "es_keys ?s0 = es_keys s"
    using assms(1) by (simp_all add: es_ok_def locs_def wholes_def elems_def es_keys_def)
  have w1: "grows ?s0 (wholes b) (wholes b \<times> UNIV) (wholes b) s1" "\<not> m1 \<Longrightarrow> s1 = ?s0"
    using add_wholes_ok [OF same(1), of "ie_wholeObjects b" False] w by (simp_all add: wholes_def)
  have s1: "es_ok s1" using w1 by (simp add: grows_def)
  have eq: "ie_add s b = add_elements (ie_elements b) s1 m1" by (simp add: ie_add_def w)
  have g: "grows ?s0 (wholes b) (wholes b \<times> UNIV \<union> pairs (ie_elements b)) (wholes b \<union> arr_addr ` fst ` set (ie_elements b)) (fst (ie_add s b))"
    using grows_trans [OF w1(1) add_elements_ok [OF s1, THEN conjunct1]] unfolding eq by simp
  have srt: "amap_sorted (ie_elements b)" using assms(2) by (simp add: es_ok_def)
  have el: "elems b x = Some d \<longleftrightarrow> (\<exists>a. (a, d) \<in> set (ie_elements b) \<and> arr_addr a = x)" for x d
    using amap_at_set [of "ie_elements b" x d] amap_in_set [OF srt, of _ d] by (auto simp: elems_def)
  have b: "locs b = wholes b \<times> UNIV \<union> pairs (ie_elements b)"
    by (auto simp: locs_def pairs_def el)
  have k: "es_keys b = wholes b \<union> arr_addr ` fst ` set (ie_elements b)"
    unfolding es_keys_def elems_def amap_at_def by (simp add: dom_map_of_conv_image_fst image_image case_prod_unfold)
  show "joins s b (fst (ie_add s b))" using g unfolding joins_def grows_def same b k by simp
  show "ie_exprs (fst (ie_add s b)) = ie_exprs s @ ie_exprs b" using g by (simp add: grows_def)
  show "ie_elements (fst (ie_add s b)) = ie_elements s \<and> ie_wholeObjects (fst (ie_add s b)) = ie_wholeObjects s"
    if n: "\<not> snd (ie_add s b)"
  proof -
    have e: "fst (ie_add s b) = s1" "\<not> m1"
      using add_elements_ok [OF s1, of "ie_elements b" m1] n unfolding eq by blast+
    show ?thesis unfolding e(1) w1(2) [OF e(2)] by simp
  qed
qed

section \<open>The bytes an expression depends on\<close>

definition read_deps :: "expr \<Rightarrow> (nat \<times> nat) set" where
  "read_deps re = (case re of
     ReadExpr root head index \<Rightarrow>
       if isConstantArray root \<and> head = NullNode then {}
       else {arr_addr root} \<times> (case index of ConstantExpr c \<Rightarrow> {nat (ap_value c)} | _ \<Rightarrow> UNIV)
   | _ \<Rightarrow> {})"

lemma read_index_deps:
  "isConstantArray root \<and> head = NullNode \<or> (arr_addr root, nat (ap_value (sem \<rho> index))) \<in> read_deps (ReadExpr root head index)"
  by (cases index) (auto simp: read_deps_def)

definition deps :: "expr \<Rightarrow> (nat \<times> nat) set" where
  "deps e = (\<Union>re \<in> read_nodes e. read_deps re)"

definition deps_unode :: "unode \<Rightarrow> (nat \<times> nat) set" where
  "deps_unode u = (\<Union>re \<in> read_nodes_unode u. read_deps re)"

lemma deps_simps [simp]:
  "deps (ConstantExpr const) = {}" "deps (NotOptimizedExpr e) = deps e"
  "deps (ReadExpr root head index) = read_deps (ReadExpr root head index) \<union> deps_unode head \<union> deps index"
  "deps (SelectExpr c t f) = deps c \<union> deps t \<union> deps f" "deps (ConcatExpr l r) = deps l \<union> deps r"
  "deps (ExtractExpr e off w) = deps e" "deps (CastExpr ck e w) = deps e" "deps (NotExpr e) = deps e"
  "deps (BinaryExpr k l r) = deps l \<union> deps r"
  "deps_unode NullNode = {}" "deps_unode (UpdateNode nx i v) = deps_unode nx \<union> deps i \<union> deps v"
  by (auto simp: deps_def deps_unode_def)

definition agree_on :: "(nat \<Rightarrow> array) \<Rightarrow> (nat \<times> nat) set \<Rightarrow> assignment \<Rightarrow> assignment \<Rightarrow> bool" where
  "agree_on H L \<rho> \<rho>' \<longleftrightarrow> (\<forall>a i. array_ok H a \<longrightarrow> (arr_addr a, i) \<in> L \<longrightarrow> \<rho> a i = \<rho>' a i)"

lemma agree_on_Un [simp]: "agree_on H (L \<union> M) \<rho> \<rho>' \<longleftrightarrow> agree_on H L \<rho> \<rho>' \<and> agree_on H M \<rho> \<rho>'"
  by (auto simp: agree_on_def)

lemma sem_same_deps:
  assumes "\<rho> \<in> inputs H" "\<rho>' \<in> inputs H"
  shows "wt H e \<Longrightarrow> agree_on H (deps e) \<rho> \<rho>' \<Longrightarrow> sem \<rho> e = sem \<rho>' e"
    and "array_ok H root \<Longrightarrow> wt_unode H root u \<Longrightarrow> agree_on H (deps_unode u) \<rho> \<rho>' \<Longrightarrow>
      (isConstantArray root \<or> \<rho> root (nat (ap_value i)) = \<rho>' root (nat (ap_value i))) \<Longrightarrow>
      sem_read \<rho> root u i = sem_read \<rho>' root u i"
proof (induction e and u arbitrary: and root i)
  case (ReadExpr root head index)
  note p = ReadExpr.prems [unfolded deps_simps agree_on_Un wt.simps]
  have i: "sem \<rho> index = sem \<rho>' index" using ReadExpr.IH(2) p by blast
  have "isConstantArray root \<or> \<rho> root (nat (ap_value (sem \<rho>' index))) = \<rho>' root (nat (ap_value (sem \<rho>' index)))"
    using p read_index_deps [of root head \<rho>' index] unfolding agree_on_def by blast
  then have "sem_read \<rho> root head (sem \<rho>' index) = sem_read \<rho>' root head (sem \<rho>' index)"
    using ReadExpr.IH(1) p by blast
  then show ?case using i by simp
next
  case NullNode
  have "arr_size root \<le> j \<Longrightarrow> \<rho> root j = 0 \<and> \<rho>' root j = 0" for j
    using NullNode(1) assms by (simp add: inputs_def)
  then show ?case using NullNode(4) by (auto simp: array_value_def not_less)
next
  case (UpdateNode nx ui uv)
  note p = UpdateNode.prems [unfolded deps_simps agree_on_Un wt_unode.simps]
  have "sem \<rho> ui = sem \<rho>' ui" "sem \<rho> uv = sem \<rho>' uv" "sem_read \<rho> root nx i = sem_read \<rho>' root nx i"
    using UpdateNode.IH p by blast+
  then show ?case by simp
qed auto

section \<open>The element set of an expression\<close>

definition es_arrays :: "element_set \<Rightarrow> array set" where
  "es_arrays es = fst ` set (ie_elements es) \<union> set (ie_wholeObjects es)"

definition tracks_deps :: "(nat \<Rightarrow> array) \<Rightarrow> expr \<Rightarrow> element_set \<Rightarrow> bool" where
  "tracks_deps H e es \<longleftrightarrow> es_ok es \<and> deps e \<subseteq> locs es \<and> ie_exprs es = [e] \<and> es_arrays es \<subseteq> arrays_ok H"

lemma read_nodes_ok:
  "re \<in> read_nodes e \<Longrightarrow> wt H e \<Longrightarrow> plain e \<Longrightarrow> wt H re \<and> plain re \<and> (\<exists>root head index. re = ReadExpr root head index)"
  "re \<in> read_nodes_unode u \<Longrightarrow> wt_unode H root u \<Longrightarrow> plain_unode u \<Longrightarrow> wt H re \<and> plain re \<and> (\<exists>root head index. re = ReadExpr root head index)"
  by (induction e and u arbitrary: and root) auto

lemma amap_put_arrays: "fst ` set (amap_put a v m) \<subseteq> insert a (fst ` set m)"
  by (induction a v m rule: amap_put.induct) auto

context expr_creation
begin

lemma add_read_ok:
  assumes re: "wt H (ReadExpr root head index)" "plain (ReadExpr root head index)" and es: "es_ok es" "es_arrays es \<subseteq> arrays_ok H"
  shows "\<exists>es'. add_read (api G) (ReadExpr root head index) es = Some es' \<and> es_ok es' \<and> es_arrays es' \<subseteq> arrays_ok H
    \<and> locs es \<union> read_deps (ReadExpr root head index) \<subseteq> locs es' \<and> ie_exprs es' = ie_exprs es"
proof -
  have root: "root \<in> arrays_ok H" using re(1) by (simp add: arrays_ok_def)
  consider "isConstantArray root \<and> head = NullNode"
    | "\<not> (isConstantArray root \<and> head = NullNode)" "arr_addr root \<in> wholes es"
    | c where "\<not> (isConstantArray root \<and> head = NullNode)" "arr_addr root \<notin> wholes es" "index = ConstantExpr c"
    | "\<not> (isConstantArray root \<and> head = NullNode)" "arr_addr root \<notin> wholes es" "\<not> is_Constant index"
    by (cases index) (auto simp: is_Constant_def)
  then show ?thesis
  proof cases
    case 1
    then show ?thesis using es by (simp add: add_read_def read_deps_def)
  next
    case 2
    then have "{arr_addr root} \<times> UNIV \<subseteq> locs es" by (auto simp: locs_def)
    then show ?thesis using 2 es by (auto simp: add_read_def read_deps_def wholes_def)
  next
    case (3 c)
    have c: "ap_ok c" "ap_width c \<le> 32" using re 3(3) by simp_all
    then obtain z where z: "getZExtValue (api G) c 32 = Some z" "unat (ucast z :: uint32) = nat (ap_value c)"
      using read_index_eq [OF c] by (auto simp: read_index_def getZExtValue_def)
    define dis where "dis = (case amap_find root (ie_elements es) of None \<Rightarrow> [] | Some d \<Rightarrow> d)"
    let ?d = "insort_insert (nat (ap_value c)) dis"
    let ?es = "es\<lparr>ie_elements := amap_put root ?d (ie_elements es)\<rparr>"
    have eq: "add_read (api G) (ReadExpr root head index) es = Some ?es"
      using 3 z by (auto simp: add_read_def wholes_def Let_def dis_def)
    have d: "set ?d = set dis \<union> {nat (ap_value c)}" by (simp add: set_insort_insert)
    have "grows es {} ({arr_addr root} \<times> (set dis \<union> {nat (ap_value c)})) {arr_addr root} ?es"
    proof (cases "elems es (arr_addr root)")
      case None
      then show ?thesis using put_new [OF es(1) 3(2) None, of ?d] unfolding d by simp
    next
      case (Some d0)
      then have "dis = d0" by (simp add: dis_def amap_find_at elems_def)
      then show ?thesis using put_more [OF es(1) 3(2) Some, of ?d "set dis \<union> {nat (ap_value c)}"] d by simp
    qed
    moreover have "es_arrays ?es \<subseteq> arrays_ok H"
      using es(2) root amap_put_arrays [of root ?d "ie_elements es"] by (auto simp: es_arrays_def)
    ultimately show ?thesis using eq 3(1,3) by (auto simp: grows_def read_deps_def)
  next
    case 4
    let ?es = "es\<lparr>ie_elements := amap_erase root (ie_elements es), ie_wholeObjects := aset_insert root (ie_wholeObjects es)\<rparr>"
    have eq: "add_read (api G) (ReadExpr root head index) es = Some ?es"
      using 4 by (auto simp: add_read_def wholes_def is_Constant_def split: expr.splits)
    have "es_arrays ?es \<subseteq> arrays_ok H"
      using es(2) root amap_erase_set [of root "ie_elements es"] aset_insert_subset [of root "ie_wholeObjects es"]
      by (auto simp: es_arrays_def)
    then show ?thesis using eq make_whole(1) [OF es(1), of root] 4(1)
      by (auto simp: grows_def read_deps_def)
  qed
qed

lemma add_reads_ok:
  assumes "\<forall>re \<in> set reads. wt H re \<and> plain re \<and> (\<exists>root head index. re = ReadExpr root head index)"
    "es_ok es" "es_arrays es \<subseteq> arrays_ok H"
  shows "\<exists>es'. add_reads (api G) reads es = Some es' \<and> es_ok es' \<and> es_arrays es' \<subseteq> arrays_ok H
    \<and> locs es \<union> (\<Union>re \<in> set reads. read_deps re) \<subseteq> locs es' \<and> ie_exprs es' = ie_exprs es"
  using assms
proof (induction reads arbitrary: es)
  case (Cons re reads)
  then obtain root head index where re: "re = ReadExpr root head index" "wt H re" "plain re" by auto
  obtain es1 where e1: "add_read (api G) re es = Some es1" "es_ok es1" "es_arrays es1 \<subseteq> arrays_ok H"
      "locs es \<union> read_deps re \<subseteq> locs es1" "ie_exprs es1 = ie_exprs es"
    using add_read_ok [of H root head index es] re Cons.prems by auto
  obtain es2 where e2: "add_reads (api G) reads es1 = Some es2" "es_ok es2" "es_arrays es2 \<subseteq> arrays_ok H"
      "locs es1 \<union> (\<Union>re \<in> set reads. read_deps re) \<subseteq> locs es2" "ie_exprs es2 = ie_exprs es1"
    using Cons.IH [OF _ e1(2,3)] Cons.prems(1) by auto
  show ?case using e1 e2 by auto
qed simp

lemma IndependentElementSet_new_ok:
  assumes "term_ok H e"
  shows "\<exists>es. IndependentElementSet_new (api G) e = Some es \<and> tracks_deps H e es"
proof -
  have wt: "wt H e" "plain e" using assms by (simp_all add: term_ok_def)
  have r: "set (findReads (api G) e True []) = read_nodes e" by (rule findReads_exact [OF wt(1)])
  let ?es = "\<lparr>ie_elements = [], ie_wholeObjects = [], ie_exprs = [e]\<rparr>"
  have "es_ok ?es" "es_arrays ?es \<subseteq> arrays_ok H" by (simp_all add: es_ok_def elems_def wholes_def es_arrays_def)
  then show ?thesis
    using add_reads_ok [of "findReads (api G) e True []" H ?es] read_nodes_ok(1) [OF _ wt] r
    by (fastforce simp: IndependentElementSet_new_def tracks_deps_def deps_def)
qed

lemma new_sets_ok:
  "\<forall>c \<in> set cs. term_ok H c \<Longrightarrow> \<exists>ss. new_sets (api G) cs = Some ss \<and> list_all2 (tracks_deps H) cs ss"
proof (induction cs)
  case (Cons c cs)
  then show ?case using IndependentElementSet_new_ok [of H c] by fastforce
qed simp

end

section \<open>The closure\<close>

lemma separate_same:
  "ie_elements s = ie_elements t \<Longrightarrow> ie_wholeObjects s = ie_wholeObjects t \<Longrightarrow> separate b s = separate b t"
  by (simp add: separate_def locs_def wholes_def es_keys_def elems_def)

lemma same_locs:
  "ie_elements s = ie_elements t \<Longrightarrow> ie_wholeObjects s = ie_wholeObjects t \<Longrightarrow> locs s = locs t"
  by (simp add: locs_def wholes_def elems_def)

definition pass_ok ::
  "element_set \<Rightarrow> (expr \<times> element_set) list \<Rightarrow> bool \<Rightarrow> element_set \<times> expr list \<times> (expr \<times> element_set) list \<times> bool \<Rightarrow> bool" where
  "pass_ok cl wl d r \<longleftrightarrow> (case r of (cl', added, wl', d') \<Rightarrow>
     es_ok cl' \<and> locs cl \<subseteq> locs cl' \<and>
     (\<forall>(e, s) \<in> set wl. (e \<in> set added \<and> locs s \<subseteq> locs cl') \<or> (e, s) \<in> set wl') \<and>
     (\<forall>e \<in> set added. \<exists>s. (e, s) \<in> set wl \<and> locs s \<subseteq> locs cl') \<and> set wl' \<subseteq> set wl \<and>
     (d' \<longrightarrow> d \<and> ie_elements cl' = ie_elements cl \<and> ie_wholeObjects cl' = ie_wholeObjects cl \<and>
        (\<forall>(e, s) \<in> set wl'. separate s cl')))"

lemma closure_pass_ok:
  "es_ok cl \<Longrightarrow> \<forall>(e, s) \<in> set wl. es_ok s \<Longrightarrow> pass_ok cl wl d (closure_pass cl wl d)"
proof (induction cl wl d rule: closure_pass.induct)
  case (1 cl d)
  then show ?case by (simp add: pass_ok_def)
next
  case (2 cl e s wl d)
  have s: "es_ok s" and wl: "\<forall>(e, s) \<in> set wl. es_ok s" using "2.prems"(2) by auto
  show ?case
  proof (cases "ie_intersects s cl")
    case True
    obtain cl1 m where a: "ie_add cl s = (cl1, m)" by (cases "ie_add cl s")
    have j: "joins cl s cl1" and same: "\<not> m \<Longrightarrow> ie_elements cl1 = ie_elements cl \<and> ie_wholeObjects cl1 = ie_wholeObjects cl"
      using ie_add_ok [OF "2.prems"(1) s] a by simp_all
    obtain cl2 r2 wl2 d2 where p: "closure_pass cl1 wl (if m then False else d) = (cl2, r2, wl2, d2)"
      by (metis prod_cases4)
    have ok: "pass_ok cl1 wl (if m then False else d) (cl2, r2, wl2, d2)"
      using "2.IH"(1) [OF True a [symmetric] _ wl] j unfolding p by (simp add: joins_def)
    have eq: "closure_pass cl ((e, s) # wl) d = (cl2, e # r2, wl2, d2)" using True a p by simp
    have l: "locs cl \<subseteq> locs cl2" "locs s \<subseteq> locs cl2" using j ok by (auto simp: joins_def pass_ok_def)
    show ?thesis unfolding eq using ok l same by (auto simp: pass_ok_def split: if_splits)
  next
    case False
    obtain cl2 r2 wl2 d2 where p: "closure_pass cl wl d = (cl2, r2, wl2, d2)" by (metis prod_cases4)
    have ok: "pass_ok cl wl d (cl2, r2, wl2, d2)" using "2.IH"(2) [OF False "2.prems"(1) wl] unfolding p .
    have eq: "closure_pass cl ((e, s) # wl) d = (cl2, r2, (e, s) # wl2, d2)" using False p by simp
    have "separate s cl" by (rule not_intersects [OF s "2.prems"(1) False])
    then have "separate s cl2" if d2 using separate_same [of cl2 cl s] ok that by (simp add: pass_ok_def)
    then show ?thesis unfolding eq using ok by (auto simp: pass_ok_def)
  qed
qed

definition closure_ok :: "element_set \<Rightarrow> (expr \<times> element_set) list \<Rightarrow> expr list \<Rightarrow> element_set \<times> expr list \<Rightarrow> bool" where
  "closure_ok cl wl r0 res \<longleftrightarrow> (case res of (cl', r) \<Rightarrow>
     es_ok cl' \<and> locs cl \<subseteq> locs cl' \<and> set r0 \<subseteq> set r \<and>
     (\<forall>e \<in> set r. e \<in> set r0 \<or> (\<exists>s. (e, s) \<in> set wl \<and> locs s \<subseteq> locs cl')) \<and>
     (\<forall>(e, s) \<in> set wl. e \<in> set r \<or> separate s cl'))"

lemma closure_loop_ok:
  "es_ok cl \<Longrightarrow> \<forall>(e, s) \<in> set wl. es_ok s \<Longrightarrow> closure_ok cl wl r (closure_loop cl wl r)"
proof (induction cl wl r rule: closure_loop.induct)
  case (1 cl wl r)
  obtain cl1 added wl1 d where p: "closure_pass cl wl True = (cl1, added, wl1, d)" by (metis prod_cases4)
  have ok: "pass_ok cl wl True (cl1, added, wl1, d)" using closure_pass_ok [OF "1.prems", of True] p by simp
  show ?case
  proof (cases d)
    case True
    then have "closure_loop cl wl r = (cl1, r @ added)" by (subst closure_loop.simps) (simp add: p)
    then show ?thesis using ok True by (fastforce simp: closure_ok_def pass_ok_def)
  next
    case False
    then have eq: "closure_loop cl wl r = closure_loop cl1 wl1 (r @ added)" by (subst closure_loop.simps) (simp add: p)
    have "es_ok cl1" "\<forall>(e, s) \<in> set wl1. es_ok s" using ok "1.prems"(2) by (auto simp: pass_ok_def)
    then have IH: "closure_ok cl1 wl1 (r @ added) (closure_loop cl1 wl1 (r @ added))"
      using "1.IH" [OF p [symmetric] refl refl False] by blast
    obtain cl2 r2 where c: "closure_loop cl1 wl1 (r @ added) = (cl2, r2)" by (cases "closure_loop cl1 wl1 (r @ added)")
    have l: "locs cl1 \<subseteq> locs cl2" using IH unfolding c by (simp add: closure_ok_def)
    show ?thesis unfolding eq c closure_ok_def prod.case
    proof (intro conjI)
      show "es_ok cl2" "set r \<subseteq> set r2" using IH unfolding c by (simp_all add: closure_ok_def)
      show "locs cl \<subseteq> locs cl2" using ok l by (auto simp: pass_ok_def)
      show "\<forall>e \<in> set r2. e \<in> set r \<or> (\<exists>s. (e, s) \<in> set wl \<and> locs s \<subseteq> locs cl2)"
      proof
        fix e assume "e \<in> set r2"
        then consider "e \<in> set r" | "e \<in> set added" | s where "(e, s) \<in> set wl1" "locs s \<subseteq> locs cl2"
          using IH unfolding c by (auto simp: closure_ok_def)
        then show "e \<in> set r \<or> (\<exists>s. (e, s) \<in> set wl \<and> locs s \<subseteq> locs cl2)"
        proof cases
          case 2
          then obtain s where "(e, s) \<in> set wl" "locs s \<subseteq> locs cl1" using ok by (auto simp: pass_ok_def)
          then show ?thesis using l by blast
        next
          case 3
          moreover have "set wl1 \<subseteq> set wl" using ok by (simp add: pass_ok_def)
          ultimately show ?thesis by blast
        qed simp
      qed
      have "e \<in> set r2 \<or> separate s cl2" if "(e, s) \<in> set wl" for e s
      proof -
        have "e \<in> set added \<or> (e, s) \<in> set wl1" using ok that by (auto simp: pass_ok_def)
        moreover have "set (r @ added) \<subseteq> set r2" "\<forall>(e, s) \<in> set wl1. e \<in> set r2 \<or> separate s cl2"
          using IH unfolding c by (simp_all add: closure_ok_def)
        ultimately show ?thesis by auto
      qed
      then show "\<forall>(e, s) \<in> set wl. e \<in> set r2 \<or> separate s cl2" by blast
    qed
  qed
qed

text \<open>The constraints that are passed on, and those that are left out.\<close>

context expr_creation
begin

lemma getIndependentConstraints_ok:
  assumes "query_ok H q"
  shows "\<exists>cl r. getIndependentConstraints G q = Some (cl, r) \<and> deps (q_expr q) \<subseteq> locs cl
    \<and> (\<forall>c \<in> set r. c \<in> set (q_constraints q) \<and> deps c \<subseteq> locs cl)
    \<and> (\<forall>c \<in> set (q_constraints q). c \<in> set r \<or> deps c \<inter> locs cl = {})"
proof -
  have q: "term_ok H (q_expr q)" "\<forall>c \<in> set (q_constraints q). term_ok H c"
    using assms by (auto simp: query_ok_def cond_ok_def term_ok_def)
  obtain es where es: "IndependentElementSet_new (api G) (q_expr q) = Some es" "tracks_deps H (q_expr q) es"
    using IndependentElementSet_new_ok [OF q(1)] by blast
  obtain ss where ss: "new_sets (api G) (q_constraints q) = Some ss" "list_all2 (tracks_deps H) (q_constraints q) ss"
    using new_sets_ok [OF q(2)] by blast
  let ?wl = "zip (q_constraints q) ss"
  have wl: "(c, s) \<in> set ?wl \<Longrightarrow> tracks_deps H c s \<and> c \<in> set (q_constraints q)" for c s
    using ss(2) by (auto simp: list_all2_iff dest: set_zip_leftD)
  have sets: "\<exists>s. (c, s) \<in> set ?wl" if "c \<in> set (q_constraints q)" for c
    using that list_all2_lengthD [OF ss(2)] by (metis in_set_impl_in_set_zip1)
  obtain cl r where c: "closure_loop es ?wl [] = (cl, r)" by (cases "closure_loop es ?wl []")
  have "closure_ok es ?wl [] (cl, r)"
    using closure_loop_ok [of es ?wl "[]"] es(2) wl c by (auto simp: tracks_deps_def)
  then have ok: "locs es \<subseteq> locs cl" "\<forall>e \<in> set r. \<exists>s. (e, s) \<in> set ?wl \<and> locs s \<subseteq> locs cl"
      "\<forall>(e, s) \<in> set ?wl. e \<in> set r \<or> separate s cl"
    by (auto simp: closure_ok_def)
  have "deps (q_expr q) \<subseteq> locs cl" using es(2) ok(1) by (auto simp: tracks_deps_def)
  moreover have "c \<in> set (q_constraints q) \<and> deps c \<subseteq> locs cl" if "c \<in> set r" for c
    using ok(2) that wl by (fastforce simp: tracks_deps_def)
  moreover have "c \<in> set r \<or> deps c \<inter> locs cl = {}" if "c \<in> set (q_constraints q)" for c
    using ok(3) sets [OF that] wl by (fastforce simp: tracks_deps_def separate_def)
  ultimately show ?thesis using es(1) ss(1) c by (simp add: getIndependentConstraints_def)
qed

end

section \<open>Joining inputs\<close>

text \<open>The bytes \<open>L\<close> of one input and the other bytes of another.\<close>

definition override_bytes :: "(nat \<times> nat) set \<Rightarrow> assignment \<Rightarrow> assignment \<Rightarrow> assignment" where
  "override_bytes L \<rho> \<rho>' = (\<lambda>a i. if (arr_addr a, i) \<in> L then \<rho> a i else \<rho>' a i)"

lemma override_inputs: "\<rho> \<in> inputs H \<Longrightarrow> \<rho>' \<in> inputs H \<Longrightarrow> override_bytes L \<rho> \<rho>' \<in> inputs H"
  by (simp add: inputs_def override_bytes_def)

lemma override_sem:
  assumes "\<rho> \<in> inputs H" "\<rho>' \<in> inputs H" "wt H e"
  shows "deps e \<subseteq> L \<Longrightarrow> sem (override_bytes L \<rho> \<rho>') e = sem \<rho> e"
    "deps e \<inter> L = {} \<Longrightarrow> sem (override_bytes L \<rho> \<rho>') e = sem \<rho>' e"
  by (rule sem_same_deps(1) [OF override_inputs [OF assms(1,2)] _ assms(3)];
      use assms in \<open>auto simp: agree_on_def override_bytes_def\<close>)+

context expr_creation
begin

lemma Independent_query_ok:
  assumes "query_ok H q" "satisfiable H q"
  shows "\<exists>t. Independent_query G q = Some t \<and> query_ok H t \<and> q_expr t = q_expr q
    \<and> models H (q_constraints q) \<subseteq> models H (q_constraints t)
    \<and> (\<forall>\<rho> \<in> models H (q_constraints t). \<exists>\<rho>' \<in> models H (q_constraints q). sem \<rho>' (q_expr q) = sem \<rho> (q_expr q))"
proof -
  obtain cl r where r: "getIndependentConstraints G q = Some (cl, r)" "deps (q_expr q) \<subseteq> locs cl"
      "\<forall>c \<in> set r. c \<in> set (q_constraints q) \<and> deps c \<subseteq> locs cl"
      "\<forall>c \<in> set (q_constraints q). c \<in> set r \<or> deps c \<inter> locs cl = {}"
    using getIndependentConstraints_ok [OF assms(1)] by blast
  obtain \<rho>2 where \<rho>2: "\<rho>2 \<in> models H (q_constraints q)" using assms(2) by (auto simp: satisfiable_def)
  have wt: "wt H (q_expr q)" "c \<in> set (q_constraints q) \<Longrightarrow> wt H c" for c
    using assms(1) by (auto simp: query_ok_def cond_ok_def term_ok_def)
  let ?t = "\<lparr>q_constraints = r, q_expr = q_expr q\<rparr>"
  have ext: "\<exists>\<rho>' \<in> models H (q_constraints q). sem \<rho>' (q_expr q) = sem \<rho> (q_expr q)" if \<rho>: "\<rho> \<in> models H r" for \<rho>
  proof
    let ?m = "override_bytes (locs cl) \<rho> \<rho>2"
    note i = models_inputs [OF \<rho>] models_inputs [OF \<rho>2]
    show "sem ?m (q_expr q) = sem \<rho> (q_expr q)" by (rule override_sem(1) [OF i wt(1) r(2)])
    have "true_in ?m c" if c: "c \<in> set (q_constraints q)" for c
    proof (cases "c \<in> set r")
      case True
      then have "sem ?m c = sem \<rho> c" using override_sem(1) [OF i wt(2) [OF c]] r(3) by blast
      then show ?thesis using \<rho> True by (simp add: models_def true_in_def)
    next
      case False
      then have "sem ?m c = sem \<rho>2 c" using override_sem(2) [OF i wt(2) [OF c]] r(4) c by blast
      then show ?thesis using \<rho>2 c by (simp add: models_def true_in_def)
    qed
    then show "?m \<in> models H (q_constraints q)" using override_inputs [OF i] by (simp add: models_def)
  qed
  have "query_ok H ?t" using assms(1) r(3) by (simp add: query_ok_def)
  moreover have "models H (q_constraints q) \<subseteq> models H r" using r(3) by (auto simp: models_def)
  ultimately show ?thesis using r(1) ext by (simp add: Independent_query_def)
qed

lemma Independent_query_same:
  assumes "bool_query H q" "satisfiable H q"
  shows "\<exists>t. Independent_query G q = Some t \<and> bool_query H t \<and> satisfiable H t \<and> valid H t = valid H q \<and> refuted H t = refuted H q"
proof -
  have q: "query_ok H q" using assms(1) by (simp add: bool_query_def)
  obtain t where t: "Independent_query G q = Some t" "query_ok H t" "q_expr t = q_expr q"
      "models H (q_constraints q) \<subseteq> models H (q_constraints t)"
      "\<And>\<rho>. \<rho> \<in> models H (q_constraints t) \<Longrightarrow> \<exists>\<rho>' \<in> models H (q_constraints q). sem \<rho>' (q_expr q) = sem \<rho> (q_expr q)"
    using Independent_query_ok [OF q assms(2)] by blast
  have "valid H t = valid H q" "refuted H t = refuted H q"
    using t(4,5) unfolding valid_def refuted_def t(3) true_in_def by (metis subsetD)+
  moreover have "satisfiable H t" using assms(2) t(4) by (auto simp: satisfiable_def)
  ultimately show ?thesis using t assms(1) by (simp add: bool_query_def)
qed

end

context solver_contract
begin

lemma Independent_truth:
  assumes "bool_query H q" "satisfiable H q" "I s"
  shows "\<exists>r s'. Independent_computeTruth G S q s = Some (r, s') \<and> I s' \<and> (\<forall>b. r = Some b \<longrightarrow> b = valid H q)"
proof -
  obtain t where t: "Independent_query G q = Some t" "bool_query H t" "satisfiable H t" "valid H t = valid H q"
    using Independent_query_same [OF assms(1,2)] by blast
  show ?thesis using truth [OF t(2,3) assms(3)] t(1,4) by (simp add: Independent_computeTruth_def)
qed

lemma Independent_validity:
  assumes "bool_query H q" "satisfiable H q" "I s"
  shows "\<exists>r s'. Independent_computeValidity G S q s = Some (r, s') \<and> I s' \<and> (\<forall>v. r = Some v \<longrightarrow> validity_right H q v)"
proof -
  obtain t where t: "Independent_query G q = Some t" "bool_query H t" "satisfiable H t" "valid H t = valid H q" "refuted H t = refuted H q"
    using Independent_query_same [OF assms(1,2)] by blast
  have "validity_right H t v = validity_right H q v" for v by (cases v) (simp_all add: validity_right_def t)
  then show ?thesis using validity [OF t(2,3) assms(3)] t(1) by (simp add: Independent_computeValidity_def)
qed

lemma Independent_value:
  assumes "query_ok H q" "satisfiable H q" "I s"
  shows "\<exists>r s'. Independent_computeValue G S q s = Some (r, s') \<and> I s' \<and>
    (\<forall>e. r = Some e \<longrightarrow> (\<exists>\<rho> \<in> models H (q_constraints q). e = ConstantExpr (sem \<rho> (q_expr q))))"
proof -
  obtain t where t: "Independent_query G q = Some t" "query_ok H t" "q_expr t = q_expr q"
      "models H (q_constraints q) \<subseteq> models H (q_constraints t)"
      "\<And>\<rho>. \<rho> \<in> models H (q_constraints t) \<Longrightarrow> \<exists>\<rho>' \<in> models H (q_constraints q). sem \<rho>' (q_expr q) = sem \<rho> (q_expr q)"
    using Independent_query_ok [OF assms(1,2)] by blast
  have "satisfiable H t" using assms(2) t(4) by (auto simp: satisfiable_def)
  then obtain r s' where v: "si_computeValue S t s = Some (r, s')" "I s'"
      "\<And>e. r = Some e \<Longrightarrow> \<exists>\<rho> \<in> models H (q_constraints t). e = ConstantExpr (sem \<rho> (q_expr q))"
    using val [OF t(2) _ assms(3)] t(3) by auto
  have "\<exists>\<rho> \<in> models H (q_constraints q). e = ConstantExpr (sem \<rho> (q_expr q))" if "r = Some e" for e
    using v(3) [OF that] t(5) by metis
  then show ?thesis using t(1) v(1,2) by (simp add: Independent_computeValue_def)
qed

end

end
