(* ===== verification/ExprOrder.thy ===== *)
theory ExprOrder
  imports ExprCore
begin

text \<open>
  \<open>Expr::compare\<close> is a total order: it is the lexicographic order of a key, the sequence of the
  numbers that the comparison looks at.  A \<open>std::set<ref<Expr>>\<close> is therefore the list of its
  elements in the order of their keys, and a trie over expressions can be indexed by keys.
\<close>

definition name_key :: "string \<Rightarrow> int list" where
  "name_key s = map (\<lambda>c. int (of_char c)) s @ [- 1]"

fun expr_key :: "apint_ops \<Rightarrow> expr \<Rightarrow> int list" and unode_key :: "apint_ops \<Rightarrow> unode \<Rightarrow> int list" where
  "expr_key A (ConstantExpr c) =
     [int (getKind (ConstantExpr c)), uint (expr_hash A (ConstantExpr c)), int (ap_width c), ap_value c]"
| "expr_key A (NotOptimizedExpr e) =
     [int (getKind (NotOptimizedExpr e)), uint (expr_hash A (NotOptimizedExpr e))] @ expr_key A e"
| "expr_key A (ReadExpr root head index) =
     [int (getKind (ReadExpr root head index)), uint (expr_hash A (ReadExpr root head index))]
     @ name_key (arr_name root) @ [int (arr_addr root), int (unode_size head)]
     @ unode_key A head @ expr_key A index"
| "expr_key A (SelectExpr c t f) =
     [int (getKind (SelectExpr c t f)), uint (expr_hash A (SelectExpr c t f))]
     @ expr_key A c @ expr_key A t @ expr_key A f"
| "expr_key A (ConcatExpr l r) =
     [int (getKind (ConcatExpr l r)), uint (expr_hash A (ConcatExpr l r)), int (getWidth l + getWidth r)]
     @ expr_key A l @ expr_key A r"
| "expr_key A (ExtractExpr e off w) =
     [int (getKind (ExtractExpr e off w)), uint (expr_hash A (ExtractExpr e off w)), int off, int w]
     @ expr_key A e"
| "expr_key A (CastExpr k e w) =
     [int (getKind (CastExpr k e w)), uint (expr_hash A (CastExpr k e w)), int w] @ expr_key A e"
| "expr_key A (NotExpr e) =
     [int (getKind (NotExpr e)), uint (expr_hash A (NotExpr e))] @ expr_key A e"
| "expr_key A (BinaryExpr k l r) =
     [int (getKind (BinaryExpr k l r)), uint (expr_hash A (BinaryExpr k l r))]
     @ expr_key A l @ expr_key A r"
| "unode_key A NullNode = []"
| "unode_key A (UpdateNode nx index value) = expr_key A index @ expr_key A value @ unode_key A nx"

definition kids_key :: "apint_ops \<Rightarrow> expr list \<Rightarrow> int list" where
  "kids_key A es = concat (map (expr_key A) es)"

text \<open>What the comparison reads of an expression besides kind, hash and kids.\<close>

definition contents_key :: "apint_ops \<Rightarrow> expr \<Rightarrow> int list" where
  "contents_key A e =
     (case e of
        ConstantExpr c \<Rightarrow> [int (ap_width c), ap_value c]
      | ReadExpr root head index \<Rightarrow>
          name_key (arr_name root) @ [int (arr_addr root), int (unode_size head)] @ unode_key A head
      | ConcatExpr l r \<Rightarrow> [int (getWidth l + getWidth r)]
      | ExtractExpr x off w \<Rightarrow> [int off, int w]
      | CastExpr k x w \<Rightarrow> [int w]
      | _ \<Rightarrow> [])"

lemma expr_key_eq:
  "expr_key A e = int (getKind e) # uint (expr_hash A e) # contents_key A e @ kids_key A (kids e)"
  by (cases e) (simp_all add: contents_key_def kids_key_def)

lemma orElse_neg: "orElse a b < 0 \<longleftrightarrow> a < 0 \<or> a = 0 \<and> b < 0"
  by (auto simp: orElse_def)

lemma cmp3_neg: "cmp3 x y < 0 \<longleftrightarrow> x < y"
  by (auto simp: cmp3_def)

lemma name_key_less: "name_key s @ xs < name_key t @ ys \<longleftrightarrow> s < t \<or> s = t \<and> xs < ys"
proof (induction s arbitrary: t)
  case Nil
  then show ?case by (cases t) (auto simp: name_key_def)
next
  case (Cons c s)
  show ?case
  proof (cases t)
    case (Cons d t')
    have "int (of_char c) < int (of_char d) \<longleftrightarrow> c < d" "int (of_char c) = int (of_char d) \<longleftrightarrow> c = d"
      by (simp_all add: less_char_def)
    then show ?thesis using Cons Cons.IH [of t'] by (auto simp: name_key_def)
  qed (auto simp: name_key_def)
qed

text \<open>A comparison of two keys, whatever follows them.\<close>

definition key_order :: "int \<Rightarrow> int list \<Rightarrow> int list \<Rightarrow> bool" where
  "key_order c k l \<longleftrightarrow> (\<forall>xs ys. k @ xs < l @ ys \<longleftrightarrow> c < 0 \<or> c = 0 \<and> xs < ys)"

lemma key_order_Nil [simp]: "key_order 0 [] []"
  by (simp add: key_order_def)

lemma key_order_append:
  "key_order c k l \<Longrightarrow> (c = 0 \<Longrightarrow> key_order d k' l') \<Longrightarrow> key_order (orElse c d) (k @ k') (l @ l')"
  by (cases "c = 0") (auto simp: key_order_def orElse_neg orElse_def)

lemma key_order_int: "key_order (cmp3 a b) [int a] [int b]"
  by (auto simp: key_order_def cmp3_neg)

lemma key_order_name: "key_order (cmp3 s t) (name_key s) (name_key t)"
  by (simp add: key_order_def name_key_less cmp3_neg)

context llvm_apint
begin

lemma constant_order:
  assumes "ap_ok x" "ap_ok y"
  shows "key_order (ConstantExpr_compareContents A x y) [int (ap_width x), ap_value x] [int (ap_width y), ap_value y]"
  using assms by (auto simp: key_order_def ConstantExpr_compareContents_def eq ult intro: apint.expand)

lemma same_kind_kids: "getKind a = getKind b \<Longrightarrow> length (kids a) = length (kids b)"
  using same_kind [of b] same_kind_binary [of _ b] by (cases a rule: getKind.cases) fastforce+

text \<open>The contents of two expressions of one kind that are not both reads.\<close>

lemma contents_order:
  assumes "getKind a = getKind b" "wt H a" "wt H b" "getKind a \<noteq> 3"
  shows "key_order (compareContents A a b) (contents_key A a) (contents_key A b)"
proof (cases a rule: getKind.cases)
  case (1 c)
  then obtain d where "b = ConstantExpr d" using same_kind(1) [of b] assms(1) by auto
  then show ?thesis using 1 assms by (simp add: contents_key_def constant_order)
next
  case (5 l r)
  then obtain l' r' where b: "b = ConcatExpr l' r'" using same_kind(5) [of b] assms(1) by auto
  show ?thesis unfolding 5 b contents_key_def expr.case compareContents.simps by (rule key_order_int)
next
  case (6 e off w)
  then obtain e' off' w' where b: "b = ExtractExpr e' off' w'" using same_kind(6) [of b] assms(1) by auto
  show ?thesis unfolding 6 b contents_key_def expr.case compareContents.simps
    using key_order_append [OF key_order_int key_order_int, of off off' w w'] by simp
next
  case (7 e w)
  then obtain e' w' where b: "b = CastExpr ZExt e' w'" using same_kind(7) [of b] assms(1) by auto
  show ?thesis unfolding 7 b contents_key_def expr.case compareContents.simps by (rule key_order_int)
next
  case (8 e w)
  then obtain e' w' where b: "b = CastExpr SExt e' w'" using same_kind(8) [of b] assms(1) by auto
  show ?thesis unfolding 8 b contents_key_def expr.case compareContents.simps by (rule key_order_int)
next
  case (2 e)
  then obtain e' where "b = NotOptimizedExpr e'" using same_kind(2) [of b] assms(1) by auto
  then show ?thesis using 2 by (simp add: contents_key_def)
next
  case (4 c t f)
  then obtain c' t' f' where "b = SelectExpr c' t' f'" using same_kind(4) [of b] assms(1) by auto
  then show ?thesis using 4 by (simp add: contents_key_def)
next
  case (9 e)
  then obtain e' where "b = NotExpr e'" using same_kind(9) [of b] assms(1) by auto
  then show ?thesis using 9 by (simp add: contents_key_def)
next
  case (10 k l r)
  then obtain l' r' where "b = BinaryExpr k l' r'" using same_kind_binary [of k b] assms(1) by auto
  then show ?thesis using 10 by (simp add: contents_key_def)
qed (use assms(4) in simp)

lemma key_order_kind:
  assumes "getKind a = getKind b \<Longrightarrow> expr_hash A a = expr_hash A b \<Longrightarrow> key_order c k l"
    and "c' = (if getKind a \<noteq> getKind b then (if getKind a < getKind b then - 1 else 1)
      else if expr_hash A a \<noteq> expr_hash A b then (if expr_hash A a < expr_hash A b then - 1 else 1) else c)"
  shows "key_order c' (int (getKind a) # uint (expr_hash A a) # k) (int (getKind b) # uint (expr_hash A b) # l)"
  using assms by (auto simp: key_order_def word_less_alt word_uint_eq_iff)

lemma kids_order:
  assumes "length xs = length ys"
    and "\<And>x y. x \<in> set xs \<Longrightarrow> y \<in> set ys \<Longrightarrow> key_order (expr_compare A x y) (expr_key A x) (expr_key A y)"
  shows "key_order (kids_compare A xs ys) (kids_key A xs) (kids_key A ys)"
  using assms
proof (induction xs ys rule: list_induct2)
  case (Cons x xs y ys)
  have "key_order (orElse (expr_compare A x y) (kids_compare A xs ys)) (expr_key A x @ kids_key A xs)
      (expr_key A y @ kids_key A ys)"
    by (intro key_order_append Cons.IH) (use Cons.prems in auto)
  then show ?case by (simp add: kids_key_def)
qed (simp add: kids_key_def)

lemma getKind_cast: "getKind (CastExpr k e w) \<noteq> 3"
  by (cases k) simp_all

lemma wt_kid: "wt H e \<Longrightarrow> k \<in> set (kids e) \<Longrightarrow> wt H k"
  by (cases e) auto

lemma node_order:
  assumes "wt H a" "wt H b" "getKind a \<noteq> 3"
    and "\<And>x y. x \<in> set (kids a) \<Longrightarrow> wt H y \<Longrightarrow> key_order (expr_compare A x y) (expr_key A x) (expr_key A y)"
  shows "key_order (expr_compare A a b) (expr_key A a) (expr_key A b)"
  unfolding expr_key_eq [of A a] expr_key_eq [of A b]
proof (rule key_order_kind)
  assume k: "getKind a = getKind b"
  show "key_order (orElse (compareContents A a b) (kids_compare A (kids a) (kids b)))
      (contents_key A a @ kids_key A (kids a)) (contents_key A b @ kids_key A (kids b))"
    by (intro key_order_append kids_order contents_order [OF k assms(1-3)] same_kind_kids [OF k] assms(4)
        wt_kid [OF assms(2)])
qed (use assms(3) in \<open>auto simp: expr_compare.simps [of A a b] split: expr.split\<close>)

theorem expr_compare_order:
  "wt H a \<Longrightarrow> wt H b \<Longrightarrow> key_order (expr_compare A a b) (expr_key A a) (expr_key A b)"
  "wt_unode H r u \<Longrightarrow> wt_unode H r' v \<Longrightarrow> unode_size u = unode_size v \<Longrightarrow>
     key_order (unode_compare A u v) (unode_key A u) (unode_key A v)"
proof (induction a and u arbitrary: b and v r r')
  case (UpdateNode nx i x)
  then obtain nx' i' x' where v: "v = UpdateNode nx' i' x'" by (cases v) auto
  show ?case unfolding v unode_compare.simps unode_key.simps
    by (intro key_order_append UpdateNode.IH) (use UpdateNode.prems v in auto)
next
  case NullNode
  then show ?case by (cases v) auto
next
  case (ReadExpr root head index)
  show ?case
  proof (cases "getKind (ReadExpr root head index) = getKind b")
    case True
    then obtain root' head' index' where b: "b = ReadExpr root' head' index'"
      using same_kind(3) [of b] by auto
    show ?thesis unfolding expr_key_eq [of A "ReadExpr root head index"] expr_key_eq [of A b]
    proof (rule key_order_kind)
      have "key_order (orElse (cmp3 (arr_name root) (arr_name root'))
            (orElse (cmp3 (arr_addr root) (arr_addr root'))
              (orElse (cmp3 (unode_size head) (unode_size head')) (unode_compare A head head'))))
          (name_key (arr_name root) @ [int (arr_addr root)] @ [int (unode_size head)] @ unode_key A head)
          (name_key (arr_name root') @ [int (arr_addr root')] @ [int (unode_size head')] @ unode_key A head')"
        by (intro key_order_append key_order_int key_order_name ReadExpr.IH(1))
          (use ReadExpr.prems b in auto)
      then have c: "key_order (orElse (cmp3 (arr_name root) (arr_name root'))
            (orElse (cmp3 (arr_addr root) (arr_addr root'))
              (orElse (cmp3 (unode_size head) (unode_size head')) (unode_compare A head head'))))
          (contents_key A (ReadExpr root head index)) (contents_key A b)"
        by (simp add: b contents_key_def)
      have k: "key_order (kids_compare A [index] [index']) (kids_key A (kids (ReadExpr root head index)))
          (kids_key A (kids b))"
        unfolding b kids.simps by (rule kids_order) (use ReadExpr b in auto)
      show "key_order (orElse (orElse (cmp3 (arr_name root) (arr_name root'))
            (orElse (cmp3 (arr_addr root) (arr_addr root'))
              (orElse (cmp3 (unode_size head) (unode_size head')) (unode_compare A head head'))))
            (kids_compare A [index] [index']))
          (contents_key A (ReadExpr root head index) @ kids_key A (kids (ReadExpr root head index)))
          (contents_key A b @ kids_key A (kids b))"
        by (rule key_order_append [OF c k])
    qed (simp add: b expr_compare.simps [of A "ReadExpr root head index"])
  next
    case False
    then show ?thesis unfolding expr_key_eq [of A "ReadExpr root head index"] expr_key_eq [of A b]
      by (intro key_order_kind [where c = 0]) (auto simp: expr_compare.simps [of A "ReadExpr root head index"])
  qed
qed ((rule node_order [where H = H]; fastforce simp: getKind_cast)+)

text \<open>Hence the comparison is the order of the keys, and equal keys are equal expressions.\<close>

lemma expr_compare_less: "wt H a \<Longrightarrow> wt H b \<Longrightarrow> expr_compare A a b < 0 \<longleftrightarrow> expr_key A a < expr_key A b"
  using expr_compare_order(1) [of H a b] unfolding key_order_def by (metis append_Nil2 less_irrefl)

lemma less_snoc: "k < k @ [0 :: int]"
  by (induction k) simp_all

lemma expr_key_inject: "wt H a \<Longrightarrow> wt H b \<Longrightarrow> expr_key A a = expr_key A b \<longleftrightarrow> a = b"
proof
  assume wt: "wt H a" "wt H b" and eq: "expr_key A a = expr_key A b"
  have "\<not> expr_compare A a b < 0" using expr_compare_less [OF wt] eq by simp
  moreover have "expr_compare A a b < 0 \<or> expr_compare A a b = 0"
    using expr_compare_order(1) [OF wt, unfolded key_order_def, rule_format, of "[]" "[0]"] eq less_snoc by simp
  ultimately show "a = b" using expr_compare_sound(1) [OF _ wt] by blast
qed simp

end

end
