(* ===== verification/CexCaching.thy ===== *)
theory CexCaching
  imports SolverLayers ExprUtil ExprOrder MapOfSets
begin

text \<open>
  \<open>CexCachingSolver.cpp\<close>: the cache of counterexamples.  A query is the set of its constraints and
  its negation; the cache maps such sets to an assignment that satisfies them, or to the null
  pointer when there is none.

  A \<open>std::set<ref<Expr>>\<close> is the list of its elements in the order of \<open>Expr::compare\<close>, the trie of
  the cache is indexed by the keys of the elements, which have that order (theory \<open>ExprOrder\<close>).  An
  \<open>Assignment*\<close> is the assignment, or \<open>None\<close>; assignments are never changed or deleted while the
  solver lives.
\<close>

section \<open>Sets of expressions and of assignments\<close>

fun KeyType_insert :: "apint_ops \<Rightarrow> expr \<Rightarrow> expr list \<Rightarrow> expr list" where
  "KeyType_insert A e [] = [e]"
| "KeyType_insert A e (x # xs) =
     (if expr_compare A e x < 0 then e # x # xs
      else if expr_compare A x e < 0 then x # KeyType_insert A e xs
      else x # xs)"

definition KeyType_new :: "apint_ops \<Rightarrow> expr list \<Rightarrow> expr list" where
  "KeyType_new A es = fold (KeyType_insert A) es []"

text \<open>\<open>AssignmentLessThan\<close>: the order of \<open>std::map\<close>, of its pairs and of \<open>std::vector\<close>.\<close>

fun bindings_less :: "(array \<times> 8 word list) list \<Rightarrow> (array \<times> 8 word list) list \<Rightarrow> bool" where
  "bindings_less bs [] = False"
| "bindings_less [] (c # cs) = True"
| "bindings_less ((a, v) # bs) ((b, w) # cs) =
     (if arr_addr a < arr_addr b \<or> arr_addr a = arr_addr b \<and> v < w then True
      else if arr_addr b < arr_addr a \<or> arr_addr a = arr_addr b \<and> w < v then False
      else bindings_less bs cs)"

definition AssignmentLessThan :: "Assignment \<Rightarrow> Assignment \<Rightarrow> bool" where
  "AssignmentLessThan a b = bindings_less (bindings a) (bindings b)"

text \<open>Insertion into the set of assignments; the second component is the element that is in the set.\<close>

fun table_insert :: "Assignment \<Rightarrow> Assignment list \<Rightarrow> Assignment list \<times> Assignment" where
  "table_insert a [] = ([a], a)"
| "table_insert a (b # bs) =
     (if AssignmentLessThan a b then (a # b # bs, a)
      else if AssignmentLessThan b a then (case table_insert a bs of (bs', r) \<Rightarrow> (b # bs', r))
      else (b # bs, b))"

section \<open>The solver\<close>

record cex_options =
  DebugCexCacheCheckBinding :: bool
  CexCacheTryAll :: bool
  CexCacheSuperSet :: bool
  CexCacheExperimental :: bool

record 's cex_state =
  cex_cache :: "(int list, Assignment option) mnode"
  cex_table :: "Assignment list"
  cex_solver :: 's

definition NullAssignment :: "Assignment option \<Rightarrow> bool" where
  "NullAssignment a \<longleftrightarrow> a = None"

definition NonNullAssignment :: "Assignment option \<Rightarrow> bool" where
  "NonNullAssignment a \<longleftrightarrow> a \<noteq> None"

text \<open>
  The elements of a key are Boolean, so that \<open>satisfies\<close> returns; its failure would count as false
  here.
\<close>

definition NullOrSatisfyingAssignment :: "expr_env \<Rightarrow> expr list \<Rightarrow> Assignment option \<Rightarrow> bool" where
  "NullOrSatisfyingAssignment G key a =
     (case a of None \<Rightarrow> True | Some a' \<Rightarrow> Assignment_satisfies G a' key = Some True)"

fun first_satisfying :: "expr_env \<Rightarrow> expr list \<Rightarrow> Assignment list \<Rightarrow> Assignment option option" where
  "first_satisfying G key [] = Some None"
| "first_satisfying G key (a # as) = do {
     b \<leftarrow> Assignment_satisfies G a key;
     if b then Some (Some a) else first_satisfying G key as }"

definition cache_keys :: "expr_env \<Rightarrow> expr list \<Rightarrow> int list list" where
  "cache_keys G key = map (expr_key (api G)) key"

text \<open>The result is the cached value (an assignment or the null pointer) if there is one.\<close>

definition searchForAssignment ::
  "expr_env \<Rightarrow> cex_options \<Rightarrow> expr list \<Rightarrow> 's cex_state \<Rightarrow> Assignment option option option" where
  "searchForAssignment G opt key s =
     (let ks = cache_keys G key in
      case MapOfSets_lookup ks (cex_cache s) of
        Some result \<Rightarrow> Some (Some result)
      | None \<Rightarrow>
          let superset = (if CexCacheSuperSet opt
                          then MapOfSets_findSuperset ks NonNullAssignment (cex_cache s) else None) in
          if CexCacheTryAll opt then
            (case (case superset of
                     Some r \<Rightarrow> Some r
                   | None \<Rightarrow> MapOfSets_findSubset ks NullAssignment (cex_cache s)) of
               Some result \<Rightarrow> Some (Some result)
             | None \<Rightarrow> map_option (map_option Some) (first_satisfying G key (cex_table s)))
          else
            Some (case superset of
                    Some r \<Rightarrow> Some r
                  | None \<Rightarrow> MapOfSets_findSubset ks (NullOrSatisfyingAssignment G key) (cex_cache s)))"

text \<open>The key, and the cached result if one was found.\<close>

definition lookupAssignment ::
  "expr_env \<Rightarrow> cex_options \<Rightarrow> query \<Rightarrow> 's cex_state \<Rightarrow> (expr list \<times> Assignment option option) option" where
  "lookupAssignment G opt q s =
     (let key = KeyType_new (api G) (q_constraints q) in do {
        neg \<leftarrow> createIsZero G (q_expr q);
        (case neg of
           ConstantExpr ce \<Rightarrow>
             if ConstantExpr_isFalse (api G) ce then Some (key, Some None)
             else do { r \<leftarrow> searchForAssignment G opt key s; Some (key, r) }
         | _ \<Rightarrow>
             let key = KeyType_insert (api G) neg key in do {
               r \<leftarrow> searchForAssignment G opt key s;
               Some (key, r) }) })"

definition cex_call :: "('s \<Rightarrow> ('r \<times> 's) option) \<Rightarrow> 's cex_state \<Rightarrow> ('r \<times> 's cex_state) option" where
  "cex_call f s = map_option (\<lambda>(r, s'). (r, s\<lparr>cex_solver := s'\<rparr>)) (f (cex_solver s))"

text \<open>The outer \<open>None\<close> of the result is the return value \<open>false\<close>.\<close>

definition getAssignment ::
  "expr_env \<Rightarrow> cex_options \<Rightarrow> 's solver_impl \<Rightarrow> query \<Rightarrow> 's cex_state
   \<Rightarrow> (Assignment option option \<times> 's cex_state) option" where
  "getAssignment G opt S q s = do {
     (key, found) \<leftarrow> lookupAssignment G opt q s;
     (case found of
        Some result \<Rightarrow> Some (Some result, s)
      | None \<Rightarrow>
          let objects = findSymbolicObjects key [] in do {
            ((success, out), s) \<leftarrow> cex_call (si_computeInitialValues S q objects fresh_out) s;
            if \<not> success then Some (None, s)
            else do {
              hasSolution \<leftarrow> vo_hasSolution out;
              (binding, s) \<leftarrow>
                (if hasSolution then do {
                   binding \<leftarrow> Assignment_new objects (vo_values out) False;
                   (let (table, binding) = table_insert binding (cex_table s);
                        s = s\<lparr>cex_table := table\<rparr>
                    in if DebugCexCacheCheckBinding opt
                       then do { b \<leftarrow> Assignment_satisfies G binding key; check b (Some (Some binding, s)) }
                       else Some (Some binding, s)) }
                 else Some (None, s));
              Some (Some binding,
                s\<lparr>cex_cache := MapOfSets_insert None (cache_keys G key) binding (cex_cache s)\<rparr>) } }) }"

text \<open>\<open>isa<ConstantExpr>(a->evaluate(e))\<close>, asserted, and the constant.\<close>

definition evaluate_const :: "expr_env \<Rightarrow> Assignment \<Rightarrow> expr \<Rightarrow> apint option" where
  "evaluate_const G a e = do {
     v \<leftarrow> Assignment_evaluate G a e;
     (case v of ConstantExpr c \<Rightarrow> Some c | _ \<Rightarrow> None) }"

definition Cex_computeValidity ::
  "expr_env \<Rightarrow> cex_options \<Rightarrow> 's solver_impl \<Rightarrow> query \<Rightarrow> 's cex_state
   \<Rightarrow> (validity option \<times> 's cex_state) option" where
  "Cex_computeValidity G opt S q s = do {
     (r, s) \<leftarrow> getAssignment G opt S (withFalse G q) s;
     (case r of
        None \<Rightarrow> Some (None, s)
      | Some None \<Rightarrow> None
      | Some (Some a) \<Rightarrow> do {
          c \<leftarrow> evaluate_const G a (q_expr q);
          if ConstantExpr_isTrue (api G) c then do {
            (r, s) \<leftarrow> getAssignment G opt S q s;
            Some (map_option (\<lambda>a. if a = None then VTrue else VUnknown) r, s) }
          else do {
            nq \<leftarrow> negateExpr G q;
            (r, s) \<leftarrow> getAssignment G opt S nq s;
            Some (map_option (\<lambda>a. if a = None then VFalse else VUnknown) r, s) } }) }"

text \<open>
  With \<open>cex-cache-exp\<close>, a cached proof that the query is false makes the query fail.
\<close>

definition Cex_computeTruth ::
  "expr_env \<Rightarrow> cex_options \<Rightarrow> 's solver_impl \<Rightarrow> query \<Rightarrow> 's cex_state \<Rightarrow> (bool option \<times> 's cex_state) option" where
  "Cex_computeTruth G opt S q s = do {
     giveUp \<leftarrow>
       (if CexCacheExperimental opt then do {
          nq \<leftarrow> negateExpr G q;
          (key, found) \<leftarrow> lookupAssignment G opt nq s;
          Some (found = Some None) }
        else Some False);
     if giveUp then Some (None, s)
     else do {
       (r, s) \<leftarrow> getAssignment G opt S q s;
       Some (map_option (\<lambda>a. a = None) r, s) } }"

definition Cex_computeValue ::
  "expr_env \<Rightarrow> cex_options \<Rightarrow> 's solver_impl \<Rightarrow> query \<Rightarrow> 's cex_state \<Rightarrow> (expr option \<times> 's cex_state) option" where
  "Cex_computeValue G opt S q s = do {
     (r, s) \<leftarrow> getAssignment G opt S (withFalse G q) s;
     (case r of
        None \<Rightarrow> Some (None, s)
      | Some None \<Rightarrow> None
      | Some (Some a) \<Rightarrow> do {
          c \<leftarrow> evaluate_const G a (q_expr q);
          Some (Some (ConstantExpr c), s) }) }"

definition Cex_computeInitialValues ::
  "expr_env \<Rightarrow> cex_options \<Rightarrow> 's solver_impl \<Rightarrow> query \<Rightarrow> array list \<Rightarrow> values_out \<Rightarrow> 's cex_state
   \<Rightarrow> ((bool \<times> values_out) \<times> 's cex_state) option" where
  "Cex_computeInitialValues G opt S q objects out s = do {
     (r, s) \<leftarrow> getAssignment G opt S q s;
     (case r of
        None \<Rightarrow> Some ((False, out), s)
      | Some None \<Rightarrow> Some ((True, out\<lparr>vo_hasSolution := Some False\<rparr>), s)
      | Some (Some a) \<Rightarrow>
          Some ((True,
            \<lparr>vo_values = map (\<lambda>os. case bindings_find os (bindings a) of
                            None \<Rightarrow> replicate (arr_size os) 0 | Some v \<Rightarrow> v) objects,
             vo_hasSolution = Some True\<rparr>), s)) }"

definition CexCachingSolver :: "expr_env \<Rightarrow> cex_options \<Rightarrow> 's solver_impl \<Rightarrow> 's cex_state solver_impl" where
  "CexCachingSolver G opt S =
     \<lparr>si_computeValidity = Cex_computeValidity G opt S,
      si_computeTruth = Cex_computeTruth G opt S,
      si_computeValue = Cex_computeValue G opt S,
      si_computeInitialValues = Cex_computeInitialValues G opt S,
      si_getOperationStatusCode = \<lambda>s. si_getOperationStatusCode S (cex_solver s),
      si_setCoreSolverTimeout = \<lambda>t s. s\<lparr>cex_solver := si_setCoreSolverTimeout S t (cex_solver s)\<rparr>\<rparr>"

definition cex_init :: "'s \<Rightarrow> 's cex_state" where
  "cex_init s = \<lparr>cex_cache = new_MNode None, cex_table = [], cex_solver = s\<rparr>"

end
