(* ===== verification/SolverSound.thy ===== *)
theory SolverSound
  imports SolverContract
begin

text \<open>
  The layers of \<open>SolverLayers\<close> keep the contract of the solver below them; the checks of the
  validating layers never fail over solvers that keep it.
\<close>

section \<open>The default computeValidity and the solver that fails\<close>

context solver_contract
begin

lemma bool_query_eq [simp]: "bool_query H q \<Longrightarrow> query_ok H q"
  by (simp add: bool_query_def)

lemma truthE:
  assumes "bool_query H q" "satisfiable H q" "I s"
  obtains r s' where "si_computeTruth S q s = Some (r, s')" "I s'" "\<And>b. r = Some b \<Longrightarrow> b = valid H q"
  using truth [OF assms] by blast

lemma validityE:
  assumes "bool_query H q" "satisfiable H q" "I s"
  obtains r s' where "si_computeValidity S q s = Some (r, s')" "I s'" "\<And>v. r = Some v \<Longrightarrow> validity_right H q v"
  using validity [OF assms] by blast

lemma negateE:
  assumes "bool_query H q"
  obtains n where "negateExpr G q = Some n" "bool_query H n" "q_constraints n = q_constraints q"
    "satisfiable H n = satisfiable H q" "valid H n = refuted H q" "refuted H n = valid H q"
  using negate_query [OF assms] by blast

text \<open>The default \<open>computeValidity\<close> answers right when \<open>computeTruth\<close> does.\<close>

lemma default_validity:
  assumes "bool_query H q" "satisfiable H q" "I s"
  shows "\<exists>r s'. SolverImpl_computeValidity G (si_computeTruth S) q s = Some (r, s') \<and> I s'
    \<and> (\<forall>v. r = Some v \<longrightarrow> validity_right H q v)"
proof -
  obtain r s1 where t: "si_computeTruth S q s = Some (r, s1)" "I s1" "\<And>b. r = Some b \<Longrightarrow> b = valid H q"
    using truthE [OF assms] by blast
  obtain n where n: "negateExpr G q = Some n" "bool_query H n" "satisfiable H n = satisfiable H q"
      "valid H n = refuted H q"
    using negateE [OF assms(1)] by blast
  have "satisfiable H n" using n(3) assms(2) by simp
  then obtain r2 s2 where t2: "si_computeTruth S n s1 = Some (r2, s2)" "I s2" "\<And>b. r2 = Some b \<Longrightarrow> b = valid H n"
    using truthE [OF n(2) _ t(2)] by blast
  show ?thesis
  proof (cases r)
    case None
    then show ?thesis using t by (simp add: SolverImpl_computeValidity_def)
  next
    case (Some b)
    have b: "b = valid H q" using t(3) [OF Some] .
    show ?thesis
    proof (cases "b")
      case True
      then show ?thesis using t(1,2) Some b by (simp add: SolverImpl_computeValidity_def validity_right_def)
    next
      case False
      show ?thesis
      proof (cases r2)
        case None
        then show ?thesis using t(1) \<open>r = Some b\<close> False n(1) t2(1,2) by (simp add: SolverImpl_computeValidity_def)
      next
        case (Some c)
        have "c = refuted H q" using t2(3) [OF Some] n(4) by simp
        then show ?thesis using t(1) \<open>r = Some b\<close> b False n(1) t2(1,2) Some
          by (cases c) (simp_all add: SolverImpl_computeValidity_def validity_right_def)
      qed
    qed
  qed
qed

end

lemma DummySolver_contract: "expr_creation G \<Longrightarrow> solver_contract G H D I DummySolver"
  by (auto simp: solver_contract_def solver_contract_axioms_def DummySolver_def)

section \<open>CachingSolver\<close>

fun pv_right :: "(nat \<Rightarrow> array) \<Rightarrow> query \<Rightarrow> partial_validity \<Rightarrow> bool" where
  "pv_right H q MustBeTrue = valid H q"
| "pv_right H q MustBeFalse = refuted H q"
| "pv_right H q MayBeTrue = (\<not> refuted H q)"
| "pv_right H q MayBeFalse = (\<not> valid H q)"
| "pv_right H q TrueOrFalse = (\<not> valid H q \<and> \<not> refuted H q)"
| "pv_right H q PNone = False"

text \<open>Every entry of a valid cache true_in what is known of its query.\<close>

definition cache_ok :: "(nat \<Rightarrow> array) \<Rightarrow> cache_map \<Rightarrow> bool" where
  "cache_ok H m \<longleftrightarrow> (\<forall>((cs, e), pv) \<in> set m.
     bool_query H \<lparr>q_constraints = cs, q_expr = e\<rparr> \<and> pv_right H \<lparr>q_constraints = cs, q_expr = e\<rparr> pv)"

definition caching_ok :: "(nat \<Rightarrow> array) \<Rightarrow> ('s \<Rightarrow> bool) \<Rightarrow> 's caching_state \<Rightarrow> bool" where
  "caching_ok H I s \<longleftrightarrow> cache_ok H (cc_cache s) \<and> I (cc_solver s)"

lemma pv_right_negate:
  assumes "valid H n = refuted H q" "refuted H n = valid H q" "pv_right H n pv"
  shows "\<exists>pv'. negatePartialValidity pv = Some pv' \<and> pv_right H q pv'"
  using assms by (cases pv) auto

context expr_creation
begin

lemma CacheEntry_eq_iff:
  assumes "bool_query H \<lparr>q_constraints = cs, q_expr = e\<rparr>" "bool_query H \<lparr>q_constraints = cs', q_expr = e'\<rparr>"
  shows "CacheEntry_eq (api G) (cs, e) (cs', e') \<longleftrightarrow> cs = cs' \<and> e = e'"
proof -
  have e: "expr_eq (api G) e e' \<longleftrightarrow> e = e'"
    using assms by (intro expr_eq_iff [of H]) (simp_all add: bool_query_def query_ok_def term_ok_def)
  have "expr_eq (api G) x y \<longleftrightarrow> x = y" if "x \<in> set cs" "y \<in> set cs'" for x y
    using assms that by (intro expr_eq_iff [of H]) (simp_all add: bool_query_def query_ok_def cond_ok_def)
  then have "list_all2 (expr_eq (api G)) cs cs' = list_all2 (=) cs cs'"
    by (intro list.rel_cong) auto
  then show ?thesis using e by (simp add: CacheEntry_eq_def list.rel_eq)
qed

lemma cache_find_ok:
  assumes "cache_ok H m" "bool_query H q" "cache_find (api G) (q_constraints q, q_expr q) m = Some pv"
  shows "pv_right H q pv"
  using assms(1,3)
proof (induction m)
  case (Cons x m)
  obtain cs e pv' where x: "x = ((cs, e), pv')" by (metis surj_pair)
  have q: "q = \<lparr>q_constraints = q_constraints q, q_expr = q_expr q\<rparr>" by simp
  have "CacheEntry_eq (api G) (cs, e) (q_constraints q, q_expr q) \<longleftrightarrow> cs = q_constraints q \<and> e = q_expr q"
    by (rule CacheEntry_eq_iff [of H]) (use Cons.prems x assms(2) in \<open>auto simp: cache_ok_def\<close>)
  moreover have "cache_ok H m" using Cons.prems(1) by (simp add: cache_ok_def)
  moreover have "pv_right H \<lparr>q_constraints = cs, q_expr = e\<rparr> pv'" using Cons.prems(1) x by (simp add: cache_ok_def)
  ultimately show ?case using Cons.IH Cons.prems(2) x by (auto split: if_splits)
qed simp

text \<open>Both the query and its canonical form are known to have the same meaning, up to negation.\<close>

lemma canonical:
  assumes "bool_query H q"
  obtains c neg where "canonicalizeQuery G (q_expr q) = Some (c, neg)" "bool_query H (withExpr q c)"
    "neg \<Longrightarrow> valid H (withExpr q c) = refuted H q" "neg \<Longrightarrow> refuted H (withExpr q c) = valid H q"
    "\<not> neg \<Longrightarrow> c = q_expr q"
proof -
  obtain n where n: "negateExpr G q = Some n" "bool_query H n" "valid H n = refuted H q" "refuted H n = valid H q"
    using negate_query [OF assms] by blast
  then obtain e where e: "createIsZero G (q_expr q) = Some e" "n = withExpr q e" by (auto simp: negateExpr_def)
  show ?thesis
  proof (cases "expr_compare (api G) (q_expr q) e < 0")
    case True
    then show ?thesis using that [of "q_expr q" False] e assms by (simp add: canonicalizeQuery_def)
  next
    case False
    then show ?thesis using that [of e True] n e by (simp add: canonicalizeQuery_def)
  qed
qed

lemma cacheLookup_ok:
  assumes "bool_query H q" "cache_ok H m"
  obtains r where "cacheLookup G q m = Some r" "\<And>pv. r = Some pv \<Longrightarrow> pv_right H q pv"
proof -
  obtain c neg where c: "canonicalizeQuery G (q_expr q) = Some (c, neg)" "bool_query H (withExpr q c)"
    "neg \<Longrightarrow> valid H (withExpr q c) = refuted H q" "neg \<Longrightarrow> refuted H (withExpr q c) = valid H q"
    "\<not> neg \<Longrightarrow> c = q_expr q"
    using canonical [OF assms(1)] by blast
  show ?thesis
  proof (cases "cache_find (api G) (q_constraints q, c) m")
    case None
    then show ?thesis using that [of None] c(1) by (simp add: cacheLookup_def)
  next
    case (Some pv)
    then have pv: "pv_right H (withExpr q c) pv"
      using cache_find_ok [OF assms(2) c(2)] by simp
    show ?thesis
    proof (cases neg)
      case True
      then obtain pv' where "negatePartialValidity pv = Some pv'" "pv_right H q pv'"
        using pv_right_negate [OF c(3) c(4) pv] by blast
      then show ?thesis using that [of "Some pv'"] c(1) Some True by (simp add: cacheLookup_def)
    next
      case False
      have "withExpr q c = q" using c(5) False by (simp add: withExpr_def)
      then show ?thesis using that [of "Some pv"] c(1) Some False pv by (simp add: cacheLookup_def)
    qed
  qed
qed

lemma cc_insert_ok:
  assumes "bool_query H q" "caching_ok H I s" "pv_right H q pv"
  obtains s' where "cc_insert G q pv s = Some s'" "caching_ok H I s'"
proof -
  obtain c neg where c: "canonicalizeQuery G (q_expr q) = Some (c, neg)" "bool_query H (withExpr q c)"
    "neg \<Longrightarrow> valid H (withExpr q c) = refuted H q" "neg \<Longrightarrow> refuted H (withExpr q c) = valid H q"
    "\<not> neg \<Longrightarrow> c = q_expr q"
    using canonical [OF assms(1)] by blast
  obtain pv' where pv': "(if neg then negatePartialValidity pv else Some pv) = Some pv'" "pv_right H (withExpr q c) pv'"
  proof (cases neg)
    case True
    then show ?thesis using that pv_right_negate [OF c(4) [symmetric] c(3) [symmetric] assms(3)] by auto
  next
    case False
    then show ?thesis using that [of pv] c(5) assms(3) by (simp add: withExpr_def)
  qed
  have q: "\<lparr>q_constraints = q_constraints q, q_expr = c\<rparr> = withExpr q c" by (simp add: withExpr_def)
  obtain m' where "cacheInsert G q pv (cc_cache s) = Some m'" "cache_ok H m'"
    using that c(1,2) pv' q assms(2)
    by (cases "cache_find (api G) (q_constraints q, c) (cc_cache s)")
      (auto simp: cacheInsert_def Let_def caching_ok_def cache_ok_def)
  then show ?thesis using that assms(2) by (simp add: cc_insert_def caching_ok_def)
qed

end

context solver_contract
begin

lemma cc_call_truth:
  assumes "bool_query H q" "satisfiable H q" "caching_ok H I s"
  obtains r s' where "cc_call (si_computeTruth S q) s = Some (r, s')" "caching_ok H I s'"
    "\<And>b. r = Some b \<Longrightarrow> b = valid H q"
proof -
  have "I (cc_solver s)" using assms(3) by (simp add: caching_ok_def)
  then obtain r s' where "si_computeTruth S q (cc_solver s) = Some (r, s')" "I s'" "\<And>b. r = Some b \<Longrightarrow> b = valid H q"
    using truthE [OF assms(1,2)] by blast
  then show ?thesis using that [of r "s\<lparr>cc_solver := s'\<rparr>"] assms(3) by (simp add: cc_call_def caching_ok_def)
qed

lemma cc_call_validity:
  assumes "bool_query H q" "satisfiable H q" "caching_ok H I s"
  obtains r s' where "cc_call (si_computeValidity S q) s = Some (r, s')" "caching_ok H I s'"
    "\<And>v. r = Some v \<Longrightarrow> validity_right H q v"
proof -
  have "I (cc_solver s)" using assms(3) by (simp add: caching_ok_def)
  then obtain r s' where "si_computeValidity S q (cc_solver s) = Some (r, s')" "I s'"
      "\<And>v. r = Some v \<Longrightarrow> validity_right H q v"
    using validityE [OF assms(1,2)] by blast
  then show ?thesis using that [of r "s\<lparr>cc_solver := s'\<rparr>"] assms(3) by (simp add: cc_call_def caching_ok_def)
qed

lemma Caching_truth:
  assumes q: "bool_query H q" "satisfiable H q" and s: "caching_ok H I s"
  shows "\<exists>r s'. Caching_computeTruth G S q s = Some (r, s') \<and> caching_ok H I s' \<and> (\<forall>b. r = Some b \<longrightarrow> b = valid H q)"
proof -
  obtain cached where c: "cacheLookup G q (cc_cache s) = Some cached" "\<And>pv. cached = Some pv \<Longrightarrow> pv_right H q pv"
    using cacheLookup_ok [OF q(1)] s by (auto simp: caching_ok_def)
  show ?thesis
  proof (cases "cached \<noteq> None \<and> cached \<noteq> Some MayBeTrue")
    case True
    then obtain pv where pv: "cached = Some pv" by auto
    then have "(pv = MustBeTrue) = valid H q"
      using c(2) [OF pv] True valid_not_refuted [OF q(2)] by (cases pv) auto
    then show ?thesis using True c(1) s pv by (simp add: Caching_computeTruth_def)
  next
    case False
    obtain r s1 where t: "cc_call (si_computeTruth S q) s = Some (r, s1)" "caching_ok H I s1"
      "\<And>b. r = Some b \<Longrightarrow> b = valid H q"
      using cc_call_truth [OF q s] by blast
    show ?thesis
    proof (cases r)
      case None
      then show ?thesis using c(1) t False by (auto simp: Caching_computeTruth_def)
    next
      case (Some v)
      let ?pv = "if v then MustBeTrue else if cached \<noteq> None then TrueOrFalse else MayBeFalse"
      have "pv_right H q ?pv" using t(3) [OF Some] False c(2) [of MayBeTrue] by auto
      then obtain s2 where "cc_insert G q ?pv s1 = Some s2" "caching_ok H I s2"
        using cc_insert_ok [OF q(1) t(2)] by blast
      then show ?thesis using c(1) t False Some by (auto simp: Caching_computeTruth_def)
    qed
  qed
qed

lemma Caching_validity:
  assumes q: "bool_query H q" "satisfiable H q" and s: "caching_ok H I s"
  shows "\<exists>r s'. Caching_computeValidity G S q s = Some (r, s') \<and> caching_ok H I s'
    \<and> (\<forall>v. r = Some v \<longrightarrow> validity_right H q v)"
proof -
  obtain cached where c: "cacheLookup G q (cc_cache s) = Some cached" "\<And>pv. cached = Some pv \<Longrightarrow> pv_right H q pv"
    using cacheLookup_ok [OF q(1)] s by (auto simp: caching_ok_def)
  obtain r s1 where t: "cc_call (si_computeTruth S q) s = Some (r, s1)" "caching_ok H I s1"
      "\<And>b. r = Some b \<Longrightarrow> b = valid H q"
    using cc_call_truth [OF q s] by blast
  obtain n where n: "negateExpr G q = Some n" "bool_query H n" "satisfiable H n = satisfiable H q" "valid H n = refuted H q"
    using negateE [OF q(1)] by blast
  obtain rn sn where tn: "cc_call (si_computeTruth S n) s = Some (rn, sn)" "caching_ok H I sn"
      "\<And>b. rn = Some b \<Longrightarrow> b = valid H n"
    using cc_call_truth [OF n(2) _ s] n(3) q(2) by blast
  obtain rv sv where v: "cc_call (si_computeValidity S q) s = Some (rv, sv)" "caching_ok H I sv"
      "\<And>x. rv = Some x \<Longrightarrow> validity_right H q x"
    using cc_call_validity [OF q s] by blast
  show ?thesis
  proof (cases cached)
    case None
    show ?thesis
    proof (cases rv)
      case None
      then show ?thesis using c(1) v \<open>cached = None\<close> by (simp add: Caching_computeValidity_def)
    next
      case (Some x)
      let ?pv = "case x of VTrue \<Rightarrow> MustBeTrue | VFalse \<Rightarrow> MustBeFalse | VUnknown \<Rightarrow> TrueOrFalse"
      have "pv_right H q ?pv" using v(3) [OF Some] by (cases x) (simp_all add: validity_right_def)
      then obtain s2 where "cc_insert G q ?pv sv = Some s2" "caching_ok H I s2"
        using cc_insert_ok [OF q(1) v(2)] by blast
      then show ?thesis using c(1) v Some \<open>cached = None\<close> by (simp add: Caching_computeValidity_def)
    qed
  next
    case (Some pv)
    note pv = c(2) [OF Some]
    have ins: "\<exists>s'. cc_insert G q p s0 = Some s' \<and> caching_ok H I s'" if "pv_right H q p" "caching_ok H I s0" for p s0
      using cc_insert_ok [OF q(1) that(2,1)] by blast
    show ?thesis
    proof (cases pv)
      case MayBeTrue
      show ?thesis
      proof (cases r)
        case None
        then show ?thesis using c(1) t Some MayBeTrue by (simp add: Caching_computeValidity_def)
      next
        case (Some b)
        then show ?thesis
          using c(1) t(1) t(3) [of b] \<open>cached = Some pv\<close> MayBeTrue pv ins [OF _ t(2), of MustBeTrue] ins [OF _ t(2), of TrueOrFalse]
          by (cases b) (auto simp: Caching_computeValidity_def validity_right_def)
      qed
    next
      case MayBeFalse
      show ?thesis
      proof (cases rn)
        case None
        then show ?thesis using c(1) tn n Some MayBeFalse by (simp add: Caching_computeValidity_def)
      next
        case (Some b)
        then show ?thesis
          using c(1) tn(1) tn(3) [of b] n(1,4) \<open>cached = Some pv\<close> MayBeFalse pv ins [OF _ tn(2), of MustBeFalse]
            ins [OF _ tn(2), of TrueOrFalse]
          by (cases b) (auto simp: Caching_computeValidity_def validity_right_def)
      qed
    qed (use c(1) pv s Some in \<open>simp_all add: Caching_computeValidity_def validity_right_def\<close>)
  qed
qed

lemma CachingSolver_contract: "solver_contract G H D (caching_ok H I) (CachingSolver G S)"
proof (intro solver_contract.intro solver_contract_axioms.intro, goal_cases)
  case 1
  show ?case by (rule expr_creation_axioms)
next
  case (4 q s)
  then show ?case using val [OF 4(1,2), of "cc_solver s"]
    by (fastforce simp: CachingSolver_def cc_call_def caching_ok_def)
next
  case (5 q objects out s)
  then show ?case using initial [OF 5(1-5), of "cc_solver s"]
    by (fastforce simp: CachingSolver_def cc_call_def caching_ok_def)
next
  case (6 s t)
  then show ?case using timeout by (simp add: CachingSolver_def caching_ok_def)
qed (use Caching_truth Caching_validity in \<open>simp_all add: CachingSolver_def\<close>)

end

end
