(* ===== verification/CexCachingSound.thy ===== *)
theory CexCachingSound
  imports CexCaching SolverSound MapOfSetsProps
begin

text \<open>
  The cache of counterexamples keeps the contract of the solver below it: every cached assignment
  satisfies the set of expressions it is stored for, a set with the null pointer has no
  satisfying input, and the searches for subsets and supersets return what serves the query.
\<close>

section \<open>Keys\<close>

context llvm_apint
begin

lemma order_cases:
  assumes "wt H e" "wt H x"
  obtains "expr_compare A e x < 0" "expr_key A e < expr_key A x"
    | "\<not> expr_compare A e x < 0" "expr_compare A x e < 0" "expr_key A x < expr_key A e"
    | "\<not> expr_compare A e x < 0" "\<not> expr_compare A x e < 0" "e = x"
  using expr_compare_less [OF assms] expr_compare_less [OF assms(2,1)] expr_key_inject [OF assms]
    linorder_less_linear [of "expr_key A e" "expr_key A x"] by blast

lemma KeyType_insert_set:
  "\<forall>x \<in> set xs. wt H x \<Longrightarrow> wt H e \<Longrightarrow> set (KeyType_insert A e xs) = insert e (set xs)"
proof (induction xs)
  case (Cons x xs)
  have x: "wt H x" "\<forall>y \<in> set xs. wt H y" using Cons.prems(1) by simp_all
  show ?case using Cons.IH [OF x(2) Cons.prems(2)]
    by (cases rule: order_cases [OF Cons.prems(2) x(1)]) auto
qed simp

lemma KeyType_insert_sorted:
  "\<forall>x \<in> set xs. wt H x \<Longrightarrow> wt H e \<Longrightarrow> sorted_wrt (<) (map (expr_key A) xs) \<Longrightarrow>
     sorted_wrt (<) (map (expr_key A) (KeyType_insert A e xs))"
proof (induction xs)
  case (Cons x xs)
  have x: "wt H x" "\<forall>y \<in> set xs. wt H y" using Cons.prems(1) by simp_all
  have s: "sorted_wrt (<) (map (expr_key A) xs)" "\<And>y. y \<in> set xs \<Longrightarrow> expr_key A x < expr_key A y"
    using Cons.prems(3) by simp_all
  note IH = Cons.IH [OF x(2) Cons.prems(2) s(1)]
  show ?case
  proof (cases rule: order_cases [OF Cons.prems(2) x(1)])
    case 1
    then show ?thesis using s by (auto intro: less_trans)
  next
    case 2
    then show ?thesis using IH s KeyType_insert_set [OF x(2) Cons.prems(2)] by simp
  next
    case 3
    then show ?thesis using Cons.prems(3) by simp
  qed
qed simp

lemma KeyType_new_ok:
  assumes "\<forall>x \<in> set es. wt H x"
  shows "set (KeyType_new A es) = set es" "sorted_wrt (<) (map (expr_key A) (KeyType_new A es))"
proof -
  have "set (fold (KeyType_insert A) es xs) = set es \<union> set xs \<and> sorted_wrt (<) (map (expr_key A) (fold (KeyType_insert A) es xs))"
    if "\<forall>x \<in> set es. wt H x" "\<forall>x \<in> set xs. wt H x" "sorted_wrt (<) (map (expr_key A) xs)" for es xs
    using that
  proof (induction es arbitrary: xs)
    case (Cons e es)
    have "set (KeyType_insert A e xs) = insert e (set xs)" "sorted_wrt (<) (map (expr_key A) (KeyType_insert A e xs))"
      using KeyType_insert_set [of xs H e] KeyType_insert_sorted [of xs H e] Cons.prems by auto
    then show ?case using Cons.IH [of "KeyType_insert A e xs"] Cons.prems by auto
  qed simp
  from this [OF assms, of "[]"] show "set (KeyType_new A es) = set es" "sorted_wrt (<) (map (expr_key A) (KeyType_new A es))"
    by (simp_all add: KeyType_new_def)
qed

end

section \<open>The table of assignments\<close>

lemma bindings_less_total:
  "\<not> bindings_less bs cs \<Longrightarrow> \<not> bindings_less cs bs \<Longrightarrow> bindings_find x bs = bindings_find x cs"
proof (induction bs cs rule: bindings_less.induct)
  case (1 bs)
  then show ?case by (cases bs) auto
next
  case (3 a v bs b w cs)
  have a: "arr_addr a = arr_addr b"
    using 3(2,3) linorder_less_linear [of "arr_addr a" "arr_addr b"] by (simp split: if_splits)
  moreover have v: "v = w" using 3(2,3) a linorder_less_linear [of v w] by (simp split: if_splits)
  ultimately have "\<not> bindings_less bs cs" "\<not> bindings_less cs bs" using 3(2,3) by simp_all
  then show ?case using 3(1) a v by simp
qed simp

lemma table_insert_set:
  "set (fst (table_insert a as)) \<subseteq> insert a (set as)" "snd (table_insert a as) \<in> set (fst (table_insert a as))"
  by (induction as) (auto split: prod.splits)

lemma table_insert_find: "bindings_find x (bindings (snd (table_insert a as))) = bindings_find x (bindings a)"
proof (induction as)
  case (Cons c as)
  have "\<not> AssignmentLessThan a c \<Longrightarrow> \<not> AssignmentLessThan c a \<Longrightarrow>
      bindings_find x (bindings c) = bindings_find x (bindings a)"
    by (rule bindings_less_total) (simp_all add: AssignmentLessThan_def)
  then show ?case using Cons by (simp add: case_prod_beta)
qed simp

section \<open>What the cache holds\<close>

text \<open>An assignment made by the solver: total, of bytes, one vector of the size of the array.\<close>

definition solution_ok :: "(nat \<Rightarrow> array) \<Rightarrow> Assignment \<Rightarrow> bool" where
  "solution_ok H a \<longleftrightarrow> \<not> allowFreeValues a \<and> assignment_of a \<in> inputs H \<and>
     (\<forall>x v. array_ok H x \<longrightarrow> bindings_find x (bindings a) = Some v \<longrightarrow> length v = arr_size x)"

definition entry_ok :: "(nat \<Rightarrow> array) \<Rightarrow> expr list \<Rightarrow> Assignment option \<Rightarrow> bool" where
  "entry_ok H key r = (case r of None \<Rightarrow> models H key = {}
     | Some a \<Rightarrow> solution_ok H a \<and> assignment_of a \<in> models H key)"

definition cex_ok :: "expr_env \<Rightarrow> (nat \<Rightarrow> array) \<Rightarrow> ('s \<Rightarrow> bool) \<Rightarrow> 's cex_state \<Rightarrow> bool" where
  "cex_ok G H I s \<longleftrightarrow> mos_ok None (cex_cache s)
     \<and> (\<forall>ks r. MapOfSets_lookup ks (cex_cache s) = Some r \<longrightarrow>
           (\<exists>key. ks = cache_keys G key \<and> (\<forall>e \<in> set key. cond_ok H e) \<and> entry_ok H key r))
     \<and> (\<forall>a \<in> set (cex_table s). solution_ok H a)
     \<and> I (cex_solver s)"

lemma cex_okD:
  assumes "cex_ok G H I s"
  shows "mos_ok None (cex_cache s)" "I (cex_solver s)" "a \<in> set (cex_table s) \<Longrightarrow> solution_ok H a"
    "MapOfSets_lookup ks (cex_cache s) = Some r \<Longrightarrow>
      \<exists>key. ks = cache_keys G key \<and> (\<forall>e \<in> set key. cond_ok H e) \<and> entry_ok H key r"
  using assms by (simp_all add: cex_ok_def)

lemma models_mono: "set key \<subseteq> set key' \<Longrightarrow> models H key' \<subseteq> models H key"
  by (auto simp: models_def)

lemma models_set: "set key = set key' \<Longrightarrow> models H key = models H key'"
  by (simp add: models_def)

lemma solution_ok_same:
  assumes "\<forall>x. bindings_find x (bindings b) = bindings_find x (bindings a)" "solution_ok H b" "\<not> allowFreeValues a"
  shows "assignment_of b = assignment_of a"
  using assms(1) by (intro ext) (simp add: assignment_of_def)

lemma values_of_solution:
  assumes "values_of H objects vs a"
  shows "solution_ok H a"
proof -
  have a: "Assignment_new objects vs False = Some a" "list_all2 (\<lambda>x v. array_ok H x \<and> length v = arr_size x) objects vs"
    using assms by (simp_all add: values_of_def)
  have "length v = arr_size x" if "array_ok H x" "bindings_find x (bindings a) = Some v" for x v
  proof -
    have "(arr_addr x, v) \<in> set (zip (map arr_addr objects) vs)"
      using Assignment_new_lookup [OF a(1), of x] that(2) map_of_SomeD by metis
    then obtain i where i: "i < length objects" "arr_addr (objects ! i) = arr_addr x" "vs ! i = v"
      by (auto simp: in_set_zip)
    then have "array_ok H (objects ! i) \<and> length (vs ! i) = arr_size (objects ! i)"
      using list_all2_nthD [OF a(2), of i] by simp
    then show ?thesis using i that(1) by (auto simp: array_ok_def)
  qed
  then show ?thesis using values_of_inputs [OF assms] by (simp add: solution_ok_def)
qed

context expr_creation
begin

lemma cache_keys_subset:
  assumes "\<forall>e \<in> set key. cond_ok H e" "\<forall>e \<in> set key'. cond_ok H e"
  shows "set (cache_keys G key) \<subseteq> set (cache_keys G key') \<longleftrightarrow> set key \<subseteq> set key'"
proof
  assume s: "set (cache_keys G key) \<subseteq> set (cache_keys G key')"
  show "set key \<subseteq> set key'"
  proof
    fix e assume e: "e \<in> set key"
    then obtain e' where "e' \<in> set key'" "expr_key (api G) e = expr_key (api G) e'"
      using s by (auto simp: cache_keys_def)
    then show "e \<in> set key'"
      using expr_key_inject [of H e e'] assms e by (auto simp: cond_ok_def)
  qed
qed (auto simp: cache_keys_def)

lemma cache_keys_eq:
  assumes "\<forall>e \<in> set key. cond_ok H e" "\<forall>e \<in> set key'. cond_ok H e" "cache_keys G key = cache_keys G key'"
  shows "set key = set key'"
  using cache_keys_subset [OF assms(1,2)] cache_keys_subset [OF assms(2,1)] assms(3) by auto

lemma satisfies_entry:
  assumes "solution_ok H a" "\<forall>e \<in> set key. cond_ok H e" "Assignment_satisfies G a key = Some True"
  shows "entry_ok H key (Some a)"
  using satisfies_conds [of a key H] assms by (auto simp: solution_ok_def entry_ok_def models_def)

lemma first_satisfying_ok:
  assumes "\<forall>a \<in> set as. solution_ok H a" "\<forall>e \<in> set key. cond_ok H e"
  shows "\<exists>r. first_satisfying G key as = Some r \<and> (\<forall>a. r = Some a \<longrightarrow> entry_ok H key (Some a))"
  using assms(1)
proof (induction as)
  case (Cons a as)
  have a: "solution_ok H a" "\<forall>b \<in> set as. solution_ok H b" using Cons.prems by simp_all
  obtain b where b: "Assignment_satisfies G a key = Some b"
    using satisfies_conds [of a key H] a(1) assms(2) by (auto simp: solution_ok_def)
  show ?case
  proof (cases b)
    case True
    then show ?thesis using satisfies_entry [OF a(1) assms(2)] b by simp
  next
    case False
    then show ?thesis using Cons.IH [OF a(2)] b by simp
  qed
qed simp

text \<open>Every search returns a result that is right for the key.\<close>

lemma search_ok:
  assumes s: "cex_ok G H I s" and key: "\<forall>e \<in> set key. cond_ok H e" "sorted_wrt (<) (cache_keys G key)"
  shows "\<exists>r. searchForAssignment G opt key s = Some r \<and> (\<forall>a. r = Some a \<longrightarrow> entry_ok H key a)"
proof -
  let ?ks = "cache_keys G key" and ?c = "cex_cache s"
  note D = cex_okD [OF s]
  have exact: "entry_ok H key r" if r: "MapOfSets_lookup ?ks ?c = Some r" for r
  proof -
    obtain k where k: "?ks = cache_keys G k" "\<forall>e \<in> set k. cond_ok H e" "entry_ok H k r" using D(4) [OF r] by blast
    then show ?thesis using models_set [OF cache_keys_eq [OF key(1) k(2,1)], of H] by (simp add: entry_ok_def split: option.splits)
  qed
  have sup: "entry_ok H key r" if r: "MapOfSets_findSuperset ?ks NonNullAssignment ?c = Some r" for r
  proof -
    have "searched NonNullAssignment (sups ?c ?ks) (Some r)"
      using findSuperset_searched(1) [OF D(1) key(2), of NonNullAssignment] r by (simp add: MapOfSets_findSuperset_def)
    then obtain q where q: "MapOfSets_lookup q ?c = Some r" "set ?ks \<subseteq> set q" "NonNullAssignment r"
      by (auto simp: sups_def)
    obtain k where k: "q = cache_keys G k" "\<forall>e \<in> set k. cond_ok H e" "entry_ok H k r" using D(4) [OF q(1)] by blast
    have "models H k \<subseteq> models H key"
      using models_mono cache_keys_subset [OF key(1) k(2)] q(2) k(1) by blast
    then show ?thesis using k(3) q(3) by (auto simp: entry_ok_def NonNullAssignment_def)
  qed
  have sub: "entry_ok H key r"
    if r: "MapOfSets_findSubset ?ks p ?c = Some r" and p: "\<And>a. p (Some a) \<Longrightarrow> solution_ok H a \<Longrightarrow> entry_ok H key (Some a)" for p r
  proof -
    have "searched p (subs ?c ?ks) (Some r)"
      using findSubset_searched(1) [OF D(1) key(2), of p] r by (simp add: MapOfSets_findSubset_def)
    then obtain q where q: "MapOfSets_lookup q ?c = Some r" "set q \<subseteq> set ?ks" "p r"
      by (auto simp: subs_def)
    obtain k where k: "q = cache_keys G k" "\<forall>e \<in> set k. cond_ok H e" "entry_ok H k r" using D(4) [OF q(1)] by blast
    show ?thesis
    proof (cases r)
      case None
      have "models H key \<subseteq> models H k"
        using models_mono cache_keys_subset [OF k(2) key(1)] q(2) k(1) by blast
      then show ?thesis using k(3) None by (auto simp: entry_ok_def)
    next
      case (Some a)
      then show ?thesis using p [of a] q(3) k(3) by (simp add: entry_ok_def)
    qed
  qed
  have null: "entry_ok H key r" if "MapOfSets_findSubset ?ks NullAssignment ?c = Some r" for r
    by (rule sub [OF that]) (simp add: NullAssignment_def)
  have nullsat: "entry_ok H key r" if "MapOfSets_findSubset ?ks (NullOrSatisfyingAssignment G key) ?c = Some r" for r
    by (rule sub [OF that]) (use satisfies_entry key(1) in \<open>simp add: NullOrSatisfyingAssignment_def\<close>)
  obtain f where f: "first_satisfying G key (cex_table s) = Some f" "\<And>a. f = Some a \<Longrightarrow> entry_ok H key (Some a)"
    using first_satisfying_ok [OF _ key(1)] D(3) by blast
  show ?thesis
  proof (cases "MapOfSets_lookup ?ks ?c")
    case (Some r)
    then show ?thesis using exact [OF Some] by (simp add: searchForAssignment_def)
  next
    case None
    let ?sup = "if CexCacheSuperSet opt then MapOfSets_findSuperset ?ks NonNullAssignment ?c else None"
    show ?thesis
    proof (cases ?sup)
      case (Some r)
      then show ?thesis using sup [of r] None by (simp add: searchForAssignment_def Let_def split: if_splits)
    next
      case no: None
      show ?thesis
      proof (cases "CexCacheTryAll opt")
        case True
        show ?thesis
        proof (cases "MapOfSets_findSubset ?ks NullAssignment ?c")
          case None
          have "searchForAssignment G opt key s = Some (map_option Some f)"
            using \<open>MapOfSets_lookup ?ks ?c = None\<close> no True None f(1) by (simp add: searchForAssignment_def)
          then show ?thesis using f(2) by auto
        next
          case (Some r)
          then have "searchForAssignment G opt key s = Some (Some r)"
            using \<open>MapOfSets_lookup ?ks ?c = None\<close> no True by (simp add: searchForAssignment_def)
          then show ?thesis using null [OF Some] by simp
        qed
      next
        case False
        then have "searchForAssignment G opt key s = Some (MapOfSets_findSubset ?ks (NullOrSatisfyingAssignment G key) ?c)"
          using None no by (simp add: searchForAssignment_def)
        then show ?thesis using nullsat by auto
      qed
    qed
  qed
qed

end

text \<open>The key of a query, and what a lookup finds.\<close>

definition counterexamples :: "(nat \<Rightarrow> array) \<Rightarrow> query \<Rightarrow> assignment set" where
  "counterexamples H q = {\<rho> \<in> models H (q_constraints q). \<not> true_in \<rho> (q_expr q)}"

definition answer_ok :: "(nat \<Rightarrow> array) \<Rightarrow> query \<Rightarrow> Assignment option \<Rightarrow> bool" where
  "answer_ok H q r = (case r of None \<Rightarrow> counterexamples H q = {}
     | Some a \<Rightarrow> solution_ok H a \<and> assignment_of a \<in> counterexamples H q)"

definition key_ok :: "expr_env \<Rightarrow> (nat \<Rightarrow> array) \<Rightarrow> query \<Rightarrow> expr list \<Rightarrow> bool" where
  "key_ok G H q key \<longleftrightarrow> (\<forall>e \<in> set key. cond_ok H e) \<and> sorted_wrt (<) (cache_keys G key)
     \<and> models H key = counterexamples H q
     \<and> (\<forall>\<rho> \<in> inputs H. \<forall>\<rho>' \<in> inputs H. (\<forall>e \<in> set key. true_in \<rho> e = true_in \<rho>' e) \<longrightarrow>
          (\<forall>e \<in> set (q_expr q # q_constraints q). true_in \<rho> e = true_in \<rho>' e))"

lemma entry_answer: "key_ok G H q key \<Longrightarrow> entry_ok H key r \<Longrightarrow> answer_ok H q r"
  by (simp add: key_ok_def entry_ok_def answer_ok_def split: option.splits)

lemma answer_entry: "key_ok G H q key \<Longrightarrow> answer_ok H q r \<Longrightarrow> entry_ok H key r"
  by (simp add: key_ok_def entry_ok_def answer_ok_def split: option.splits)

context expr_creation
begin

lemma key_covers:
  assumes "key_ok G H q key"
  shows "covers H (findSymbolicObjects key []) q" "\<forall>x \<in> set (findSymbolicObjects key []). array_ok H x"
proof -
  have wt: "\<forall>e \<in> set key. wt H e" using assms by (auto simp: key_ok_def cond_ok_def)
  have o: "set (findSymbolicObjects key []) = (\<Union>e \<in> set key. sym_arrays e)"
    using findSymbolicObjects_set [OF wt, of "[]"] by simp
  show "\<forall>x \<in> set (findSymbolicObjects key []). array_ok H x"
  proof
    fix x assume "x \<in> set (findSymbolicObjects key [])"
    then obtain e where "e \<in> set key" "x \<in> sym_arrays e" unfolding o by blast
    then show "array_ok H x" using wt_sym_arrays(1) [of H e] wt by (auto simp: arrays_ok_def)
  qed
  show "covers H (findSymbolicObjects key []) q"
    unfolding covers_def
  proof (intro ballI impI)
    fix e \<rho> \<rho>' assume e: "e \<in> set (q_expr q # q_constraints q)" and r: "\<rho> \<in> inputs H" "\<rho>' \<in> inputs H"
      and eq: "\<forall>a \<in> set (findSymbolicObjects key []). \<rho> a = \<rho>' a"
    have "true_in \<rho> k = true_in \<rho>' k" if "k \<in> set key" for k
    proof -
      have "\<forall>a \<in> sym_arrays k. \<rho> a = \<rho>' a" using eq that unfolding o by blast
      then show ?thesis using sem_same_reads(1) [OF r] wt that by (simp add: true_in_def)
    qed
    then show "true_in \<rho> e = true_in \<rho>' e" using assms r e unfolding key_ok_def by blast
  qed
qed

lemma lookup_ok:
  assumes q: "bool_query H q" and s: "cex_ok G H I s"
  shows "\<exists>key r. lookupAssignment G opt q s = Some (key, r) \<and> (\<forall>a. r = Some a \<longrightarrow> answer_ok H q a)
    \<and> (r = None \<longrightarrow> key_ok G H q key)"
proof -
  let ?key = "KeyType_new (api G) (q_constraints q)"
  have cs: "\<forall>x \<in> set (q_constraints q). wt H x" "\<forall>x \<in> set (q_constraints q). cond_ok H x"
    using q by (auto simp: bool_query_def query_ok_def cond_ok_def)
  note new = KeyType_new_ok [OF cs(1)]
  have k0: "\<forall>e \<in> set ?key. cond_ok H e" "\<forall>e \<in> set ?key. wt H e" "sorted_wrt (<) (cache_keys G ?key)"
    using new cs by (simp_all add: cache_keys_def)
  obtain n where n: "createIsZero G (q_expr q) = Some n" "cond_ok H n" "\<And>\<rho>. true_in \<rho> n = (\<not> true_in \<rho> (q_expr q))"
    using negate_cond [OF bool_query_cond [OF q]] by blast
  have found: "\<exists>key r. (do { r \<leftarrow> searchForAssignment G opt key0 s; Some (key0, r) }) = Some (key, r)
      \<and> (\<forall>a. r = Some a \<longrightarrow> answer_ok H q a) \<and> (r = None \<longrightarrow> key_ok G H q key)"
    if k: "key_ok G H q key0" for key0
  proof -
    have "\<forall>e \<in> set key0. cond_ok H e" "sorted_wrt (<) (cache_keys G key0)" using k by (simp_all add: key_ok_def)
    then obtain r where r: "searchForAssignment G opt key0 s = Some r" "\<forall>a. r = Some a \<longrightarrow> entry_ok H key0 a"
      using search_ok [OF s] by blast
    then show ?thesis using k entry_answer [OF k] by auto
  qed
  show ?thesis
  proof (cases "is_Constant n")
    case True
    then obtain c where c: "n = ConstantExpr c" by (auto simp: is_Constant_def split: expr.splits)
    then have ok: "ap_ok c" "ap_width c = 1" using n(2) by (simp_all add: cond_ok_def)
    show ?thesis
    proof (cases "c = bv_bool False")
      case True
      then have "true_in \<rho> (q_expr q)" for \<rho> using n(3) [of \<rho>] c by simp
      then have "answer_ok H q None" by (simp add: answer_ok_def counterexamples_def)
      then show ?thesis using n(1) c True by (simp add: lookupAssignment_def)
    next
      case False
      then have "c = bv_bool True" using ap_bool_cases [OF ok] by (metis (full_types))
      then have f: "\<not> true_in \<rho> (q_expr q)" for \<rho> using n(3) [of \<rho>] c by simp
      have "key_ok G H q ?key"
        using k0 f new(1) by (auto simp: key_ok_def counterexamples_def models_def)
      from found [OF this] show ?thesis using n(1) c False ok by (simp add: lookupAssignment_def Let_def)
    qed
  next
    case False
    let ?key' = "KeyType_insert (api G) n ?key"
    have wn: "wt H n" using n(2) by (simp add: cond_ok_def)
    have set: "set ?key' = insert n (set (q_constraints q))"
      using KeyType_insert_set [OF k0(2) wn] new(1) by simp
    have "key_ok G H q ?key'"
      unfolding key_ok_def
    proof (intro conjI)
      show "\<forall>e \<in> set ?key'. cond_ok H e" unfolding set using n(2) cs(2) by blast
      show "sorted_wrt (<) (cache_keys G ?key')"
        unfolding cache_keys_def by (rule KeyType_insert_sorted [OF k0(2) wn new(2)])
      show "models H ?key' = counterexamples H q"
        unfolding models_def counterexamples_def set using n(3) by auto
      show "\<forall>\<rho> \<in> inputs H. \<forall>\<rho>' \<in> inputs H. (\<forall>e \<in> set ?key'. true_in \<rho> e = true_in \<rho>' e) \<longrightarrow>
          (\<forall>e \<in> set (q_expr q # q_constraints q). true_in \<rho> e = true_in \<rho>' e)"
        unfolding set using n(3) by auto
    qed
    from found [OF this] show ?thesis using n(1) False by (simp add: lookupAssignment_def Let_def)
  qed
qed

end

section \<open>The contract\<close>

lemma Assignment_new_Some: "length objects = length vs \<Longrightarrow> \<exists>a. Assignment_new objects vs f = Some a"
proof -
  assume "length objects = length vs"
  then have "\<exists>bs'. Assignment_new_loop objects vs bs = Some bs'" for bs
    by (induction objects vs arbitrary: bs rule: list_induct2) auto
  then show ?thesis by (auto simp: Assignment_new_def)
qed

lemma object_lookup:
  assumes "\<forall>x \<in> set objects. array_ok H x" "x \<in> set objects"
  shows "map_of (zip (map arr_addr objects) (map f objects)) (arr_addr x) = Some (f x)"
  using assms
proof (induction objects)
  case (Cons y ys)
  have ok: "array_ok H y" "array_ok H x" using Cons.prems by auto
  have "y = x" if "arr_addr y = arr_addr x"
    using ok that by (metis array_ok_def)
  then show ?case using Cons by (cases "x = y") auto
qed simp

text \<open>The values of an assignment for some objects make an assignment that agrees on them.\<close>

lemma solution_values:
  assumes a: "solution_ok H a" and os: "\<forall>x \<in> set objects. array_ok H x"
  shows "\<exists>b. values_of H objects (map (\<lambda>os. case bindings_find os (bindings a) of
        None \<Rightarrow> replicate (arr_size os) 0 | Some v \<Rightarrow> v) objects) b
      \<and> (\<forall>x \<in> set objects. assignment_of b x = assignment_of a x)"
proof -
  let ?v = "\<lambda>os. case bindings_find os (bindings a) of None \<Rightarrow> replicate (arr_size os) 0 | Some v \<Rightarrow> v"
  obtain b where b: "Assignment_new objects (map ?v objects) False = Some b"
    using Assignment_new_Some [of objects "map ?v objects"] by auto
  have len: "length (?v x) = arr_size x" if "x \<in> set objects" for x
    using a os that by (auto simp: solution_ok_def split: option.split)
  have find: "bindings_find x (bindings b) = Some (?v x)" if x: "x \<in> set objects" for x
    unfolding Assignment_new_lookup [OF b] by (rule object_lookup [OF os x])
  have "assignment_of b x i = assignment_of a x i" if "x \<in> set objects" for x i
    using find [OF that] by (simp add: assignment_of_def split: option.split)
  moreover have "values_of H objects (map ?v objects) b"
    using b len os by (simp add: values_of_def list_all2_conv_all_nth)
  ultimately show ?thesis by blast
qed

lemma cex_ok_solver: "cex_ok G H I s \<Longrightarrow> I s' \<Longrightarrow> cex_ok G H I (s\<lparr>cex_solver := s'\<rparr>)"
  by (simp add: cex_ok_def)

lemma cex_ok_insert:
  assumes "cex_ok G H I s" "key_ok G H q key" "entry_ok H key r" "\<forall>a \<in> set t. solution_ok H a"
  shows "cex_ok G H I (s\<lparr>cex_table := t, cex_cache := MapOfSets_insert None (cache_keys G key) r (cex_cache s)\<rparr>)"
proof -
  have s: "mos_ok None (cex_cache s)" using assms(1) by (simp add: cex_ok_def)
  have k: "\<forall>e \<in> set key. cond_ok H e" "sorted_wrt (<) (cache_keys G key)" using assms(2) by (simp_all add: key_ok_def)
  have "mos_ok None (MapOfSets_insert None (cache_keys G key) r (cex_cache s))"
    by (rule insert_mos_ok [OF s k(2)]) (simp add: above_def)
  moreover have "\<exists>key'. ks = cache_keys G key' \<and> (\<forall>e \<in> set key'. cond_ok H e) \<and> entry_ok H key' r'"
    if "MapOfSets_lookup ks (MapOfSets_insert None (cache_keys G key) r (cex_cache s)) = Some r'" for ks r'
  proof (cases "ks = cache_keys G key")
    case True
    then have "r' = r" using that lookup_insert [OF s] by simp
    then show ?thesis using True k(1) assms(3) by blast
  next
    case False
    then have "MapOfSets_lookup ks (cex_cache s) = Some r'" using that lookup_insert [OF s] by simp
    then show ?thesis using cex_okD(4) [OF assms(1)] by blast
  qed
  ultimately show ?thesis using assms(1,4) by (simp add: cex_ok_def)
qed

context solver_contract
begin

lemma cex_call_initial:
  assumes q: "bool_query H q" "D q" and k: "key_ok G H q key" and s: "cex_ok G H I s"
  obtains ok out s' where
    "cex_call (si_computeInitialValues S q (findSymbolicObjects key []) fresh_out) s = Some ((ok, out), s')"
    "cex_ok G H I s'" "cex_table s' = cex_table s"
    "ok \<Longrightarrow> initial_right H q (findSymbolicObjects key []) out"
proof -
  have "I (cex_solver s)" using s by (simp add: cex_ok_def)
  then obtain ok out s' where "si_computeInitialValues S q (findSymbolicObjects key []) fresh_out (cex_solver s) = Some ((ok, out), s')"
      "I s'" "ok \<longrightarrow> initial_right H q (findSymbolicObjects key []) out"
    using initial [OF q key_covers [OF k], of fresh_out "cex_solver s"] by (auto simp: fresh_out_def)
  then show ?thesis using that [of ok out "s\<lparr>cex_solver := s'\<rparr>"] cex_ok_solver [OF s] by (simp add: cex_call_def)
qed

lemma getAssignment_ok:
  assumes q: "bool_query H q" "D q" and s: "cex_ok G H I s"
  shows "\<exists>r s'. getAssignment G opt S q s = Some (r, s') \<and> cex_ok G H I s' \<and> (\<forall>a. r = Some a \<longrightarrow> answer_ok H q a)"
proof -
  obtain key found where l: "lookupAssignment G opt q s = Some (key, found)"
      "\<And>a. found = Some a \<Longrightarrow> answer_ok H q a" "found = None \<Longrightarrow> key_ok G H q key"
    using lookup_ok [OF q(1) s] by blast
  show ?thesis
  proof (cases found)
    case (Some a)
    then show ?thesis using l s by (simp add: getAssignment_def)
  next
    case None
    note k = l(3) [OF None]
    let ?os = "findSymbolicObjects key []"
    obtain ok out s1 where c: "cex_call (si_computeInitialValues S q ?os fresh_out) s = Some ((ok, out), s1)"
        "cex_ok G H I s1" "ok \<Longrightarrow> initial_right H q ?os out"
      using cex_call_initial [OF q k s] by blast
    show ?thesis
    proof (cases ok)
      case False
      then show ?thesis using l(1) None c(1,2) by (simp add: getAssignment_def)
    next
      case True
      note r = c(3) [OF True]
      obtain b where b: "vo_hasSolution out = Some b" using r by (auto simp: initial_right_def split: option.splits)
      show ?thesis
      proof (cases b)
        case False
        have "answer_ok H q None" using r b False by (auto simp: initial_right_def answer_ok_def counterexamples_def valid_def)
        moreover from this have "cex_ok G H I (s1\<lparr>cex_cache := MapOfSets_insert None (cache_keys G key) None (cex_cache s1)\<rparr>)"
          using cex_ok_insert [OF c(2) k answer_entry [OF k], of None "cex_table s1"] cex_okD(3) [OF c(2)] by simp
        ultimately show ?thesis using l(1) None c(1) True b False by (simp add: getAssignment_def Let_def)
      next
        case True
        obtain a where a: "values_of H ?os (vo_values out) a" "assignment_of a \<in> counterexamples H q"
          using r b True by (auto simp: initial_right_def counterexamples_def)
        have new: "Assignment_new ?os (vo_values out) False = Some a" using a(1) by (simp add: values_of_def)
        obtain t a' where t: "table_insert a (cex_table s1) = (t, a')" by fastforce
        have ts: "set t \<subseteq> insert a (set (cex_table s1))" "a' \<in> set t"
          using table_insert_set [of a "cex_table s1"] t by simp_all
        have sol: "solution_ok H x" if "x \<in> set t" for x
          using that ts(1) values_of_solution [OF a(1)] cex_okD(3) [OF c(2)] by blast
        have "assignment_of a' = assignment_of a"
          using table_insert_find [of _ a "cex_table s1"] t by (intro ext) (simp add: assignment_of_def)
        then have ans: "answer_ok H q (Some a')" using a(2) sol [OF ts(2)] by (simp add: answer_ok_def)
        note ent = answer_entry [OF k ans]
        have "Assignment_satisfies G a' key = Some True"
          using satisfies_conds [of a' key H] ent k sol [OF ts(2)]
          by (simp add: entry_ok_def models_def key_ok_def solution_ok_def)
        then have "getAssignment G opt S q s = Some (Some (Some a'),
            s1\<lparr>cex_table := t, cex_cache := MapOfSets_insert None (cache_keys G key) (Some a') (cex_cache s1)\<rparr>)"
          using l(1) None c(1) \<open>ok\<close> b True new t by (simp add: getAssignment_def Let_def)
        then show ?thesis using ans cex_ok_insert [OF c(2) k ent, of t] sol by blast
      qed
    qed
  qed
qed

lemma getE:
  assumes "bool_query H q" "D q" "cex_ok G H I s"
  obtains r s' where "getAssignment G opt S q s = Some (r, s')" "cex_ok G H I s'" "\<And>a. r = Some a \<Longrightarrow> answer_ok H q a"
  using getAssignment_ok [OF assms] by blast

lemma withFalse_query: "query_ok H q \<Longrightarrow> bool_query H (withFalse G q)"
  by (simp add: bool_query_def query_ok_def withFalse_def term_ok_def)

lemma withFalse_answer:
  "answer_ok H (withFalse G q) r \<longleftrightarrow> (case r of None \<Rightarrow> \<not> satisfiable H q
     | Some a \<Rightarrow> solution_ok H a \<and> assignment_of a \<in> models H (q_constraints q))"
proof -
  have "counterexamples H (withFalse G q) = models H (q_constraints q)"
    by (simp add: counterexamples_def withFalse_def)
  then show ?thesis by (simp add: answer_ok_def satisfiable_def split: option.split)
qed

lemma evaluate_const_ok:
  "solution_ok H a \<Longrightarrow> query_ok H q \<Longrightarrow> evaluate_const G a (q_expr q) = Some (sem (assignment_of a) (q_expr q))"
  using evaluate_term [of a H "q_expr q"] by (simp add: evaluate_const_def solution_ok_def query_ok_def)

lemma answer_valid: "answer_ok H q r \<Longrightarrow> (r = None) = valid H q"
  by (auto simp: answer_ok_def counterexamples_def valid_def split: option.splits)

lemma Cex_truth:
  assumes q: "bool_query H q" "D q" and s: "cex_ok G H I s"
  shows "\<exists>r s'. Cex_computeTruth G opt S q s = Some (r, s') \<and> cex_ok G H I s' \<and> (\<forall>b. r = Some b \<longrightarrow> b = valid H q)"
proof -
  obtain r s' where g: "getAssignment G opt S q s = Some (r, s')" "cex_ok G H I s'" "\<And>a. r = Some a \<Longrightarrow> answer_ok H q a"
    using getE [OF q s] by blast
  obtain n where n: "negateExpr G q = Some n" "bool_query H n" using negateE [OF q(1)] by blast
  obtain key f where l: "lookupAssignment G opt n s = Some (key, f)" using lookup_ok [OF n(2) s] by blast
  have go: "do { (r, s) \<leftarrow> getAssignment G opt S q s; Some (map_option (\<lambda>a. a = None) r, s) } = Some (map_option (\<lambda>a. a = None) r, s')"
    using g(1) by simp
  have right: "\<forall>b. map_option (\<lambda>a. a = None) r = Some b \<longrightarrow> b = valid H q" using answer_valid g(3) by auto
  show ?thesis
  proof (cases "CexCacheExperimental opt \<and> f = Some None")
    case True
    then show ?thesis using n l s by (simp add: Cex_computeTruth_def)
  next
    case False
    then have "Cex_computeTruth G opt S q s = Some (map_option (\<lambda>a. a = None) r, s')"
      using n l go by (simp add: Cex_computeTruth_def)
    then show ?thesis using g(2) right by blast
  qed
qed

lemma Cex_value:
  assumes q: "query_ok H q" "satisfiable H q" "D (withFalse G q)" and s: "cex_ok G H I s"
  shows "\<exists>r s'. Cex_computeValue G opt S q s = Some (r, s') \<and> cex_ok G H I s' \<and>
    (\<forall>e. r = Some e \<longrightarrow> (\<exists>\<rho> \<in> models H (q_constraints q). e = ConstantExpr (sem \<rho> (q_expr q))))"
proof -
  obtain r s' where g: "getAssignment G opt S (withFalse G q) s = Some (r, s')" "cex_ok G H I s'"
      "\<And>a. r = Some a \<Longrightarrow> answer_ok H (withFalse G q) a"
    using getE [OF withFalse_query [OF q(1)] q(3) s] by blast
  show ?thesis
  proof (cases r)
    case None
    then show ?thesis using g by (simp add: Cex_computeValue_def)
  next
    case (Some o')
    obtain a where a: "o' = Some a" "solution_ok H a" "assignment_of a \<in> models H (q_constraints q)"
      using g(3) [OF Some] q(2) by (auto simp: withFalse_answer split: option.splits)
    then show ?thesis using g Some evaluate_const_ok [OF a(2) q(1)] by (auto simp: Cex_computeValue_def)
  qed
qed

lemma Cex_validity:
  assumes q: "bool_query H q" "satisfiable H q" and D: "\<And>q. D q" and s: "cex_ok G H I s"
  shows "\<exists>r s'. Cex_computeValidity G opt S q s = Some (r, s') \<and> cex_ok G H I s' \<and>
    (\<forall>v. r = Some v \<longrightarrow> validity_right H q v)"
proof -
  have qok: "query_ok H q" using q(1) by simp
  obtain r s1 where g: "getAssignment G opt S (withFalse G q) s = Some (r, s1)" "cex_ok G H I s1"
      "\<And>a. r = Some a \<Longrightarrow> answer_ok H (withFalse G q) a"
    using getE [OF withFalse_query [OF qok] D s] by blast
  obtain n where n: "negateExpr G q = Some n" "bool_query H n" "valid H n = refuted H q"
    using negateE [OF q(1)] by blast
  obtain r2 s2 where g2: "getAssignment G opt S q s1 = Some (r2, s2)" "cex_ok G H I s2" "\<And>a. r2 = Some a \<Longrightarrow> answer_ok H q a"
    using getE [OF q(1) D g(2)] by blast
  obtain r3 s3 where g3: "getAssignment G opt S n s1 = Some (r3, s3)" "cex_ok G H I s3" "\<And>a. r3 = Some a \<Longrightarrow> answer_ok H n a"
    using getE [OF n(2) D g(2)] by blast
  show ?thesis
  proof (cases r)
    case None
    then show ?thesis using g by (simp add: Cex_computeValidity_def)
  next
    case (Some o')
    obtain a where a: "o' = Some a" "solution_ok H a" "assignment_of a \<in> models H (q_constraints q)"
      using g(3) [OF Some] q(2) by (auto simp: withFalse_answer split: option.splits)
    have e: "evaluate_const G a (q_expr q) = Some (bv_bool (true_in (assignment_of a) (q_expr q)))"
      using evaluate_const_ok [OF a(2) qok] cond_value [OF bool_query_cond [OF q(1)]] by simp
    show ?thesis
    proof (cases "true_in (assignment_of a) (q_expr q)")
      case True
      then have nr: "\<not> refuted H q" using a(3) by (auto simp: refuted_def)
      have c: "Cex_computeValidity G opt S q s = Some (map_option (\<lambda>a. if a = None then VTrue else VUnknown) r2, s2)"
        using g(1) Some a(1) e True g2(1) by (simp add: Cex_computeValidity_def)
      have "validity_right H q v" if v: "map_option (\<lambda>a. if a = None then VTrue else VUnknown) r2 = Some v" for v
      proof -
        obtain a where "r2 = Some a" "v = (if a = None then VTrue else VUnknown)" using v by blast
        then show ?thesis using answer_valid [OF g2(3)] nr by (auto simp: validity_right_def)
      qed
      then show ?thesis using c g2(2) by blast
    next
      case False
      then have nv: "\<not> valid H q" using a(3) by (auto simp: valid_def)
      have c: "Cex_computeValidity G opt S q s = Some (map_option (\<lambda>a. if a = None then VFalse else VUnknown) r3, s3)"
        using g(1) Some a(1) e False n(1) g3(1) by (simp add: Cex_computeValidity_def)
      have "validity_right H q v" if v: "map_option (\<lambda>a. if a = None then VFalse else VUnknown) r3 = Some v" for v
      proof -
        obtain a where "r3 = Some a" "v = (if a = None then VFalse else VUnknown)" using v by blast
        then show ?thesis using answer_valid [OF g3(3)] nv n(3) by (auto simp: validity_right_def)
      qed
      then show ?thesis using c g3(2) by blast
    qed
  qed
qed

lemma Cex_initial:
  assumes q: "bool_query H q" "D q" and c: "covers H objects q" "\<forall>x \<in> set objects. array_ok H x"
    and s: "cex_ok G H I s"
  shows "\<exists>ok out' s'. Cex_computeInitialValues G opt S q objects out s = Some ((ok, out'), s') \<and> cex_ok G H I s' \<and>
    (ok \<longrightarrow> initial_right H q objects out')"
proof -
  obtain r s' where g: "getAssignment G opt S q s = Some (r, s')" "cex_ok G H I s'" "\<And>a. r = Some a \<Longrightarrow> answer_ok H q a"
    using getE [OF q s] by blast
  show ?thesis
  proof (cases r)
    case None
    then have "Cex_computeInitialValues G opt S q objects out s = Some ((False, out), s')"
      using g by (simp add: Cex_computeInitialValues_def)
    then show ?thesis using g(2) by blast
  next
    case (Some o')
    show ?thesis
    proof (cases o')
      case None
      have "valid H q" using answer_valid [OF g(3) [OF Some]] None by simp
      moreover have "Cex_computeInitialValues G opt S q objects out s = Some ((True, out\<lparr>vo_hasSolution := Some False\<rparr>), s')"
        using g Some None by (simp add: Cex_computeInitialValues_def)
      ultimately show ?thesis using g(2) by (fastforce simp: initial_right_def)
    next
      case a: (Some a)
      let ?vs = "map (\<lambda>os. case bindings_find os (bindings a) of None \<Rightarrow> replicate (arr_size os) 0 | Some v \<Rightarrow> v) objects"
      have sol: "solution_ok H a" "assignment_of a \<in> counterexamples H q"
        using g(3) [OF Some] a by (simp_all add: answer_ok_def)
      obtain b where b: "values_of H objects ?vs b" "\<forall>x \<in> set objects. assignment_of b x = assignment_of a x"
        using solution_values [OF sol(1) c(2)] by blast
      have same: "true_in (assignment_of b) e = true_in (assignment_of a) e" if "e \<in> set (q_expr q # q_constraints q)" for e
        using c(1) that b(2) values_of_inputs(1) [OF b(1)] sol(1) unfolding covers_def solution_ok_def by blast
      have "assignment_of b \<in> models H (q_constraints q) \<and> \<not> true_in (assignment_of b) (q_expr q)"
        using same sol(2) values_of_inputs(1) [OF b(1)] by (simp add: counterexamples_def models_def)
      then have "initial_right H q objects \<lparr>vo_values = ?vs, vo_hasSolution = Some True\<rparr>"
        using b(1) by (auto simp: initial_right_def)
      moreover have "Cex_computeInitialValues G opt S q objects out s
          = Some ((True, \<lparr>vo_values = ?vs, vo_hasSolution = Some True\<rparr>), s')"
        using g Some a by (simp add: Cex_computeInitialValues_def)
      ultimately show ?thesis using g(2) by blast
    qed
  qed
qed

lemma CexCachingSolver_contract:
  assumes D: "\<And>q. D q"
  shows "solver_contract G H (\<lambda>_. True) (cex_ok G H I) (CexCachingSolver G opt S)"
proof (intro solver_contract.intro solver_contract_axioms.intro, goal_cases)
  case 1
  show ?case by (rule expr_creation_axioms)
next
  case (6 s t)
  then show ?case using timeout by (simp add: CexCachingSolver_def cex_ok_def)
next
  case (3 q s)
  then show ?case using Cex_validity [OF 3(1,2) D 3(3)] by (simp add: CexCachingSolver_def)
qed (use Cex_truth Cex_value Cex_initial D in \<open>simp_all add: CexCachingSolver_def\<close>)

lemma cex_init_ok: "I s \<Longrightarrow> cex_ok G H I (cex_init s)"
proof -
  have "MapOfSets_lookup ks (new_MNode None :: (int list, Assignment option) mnode) = None" for ks
    by (cases ks) (simp_all add: new_MNode_def)
  moreover assume "I s"
  ultimately show ?thesis by (simp add: cex_ok_def cex_init_def) (simp add: new_MNode_def)
qed

end

end
