(* ===== verification/IndependentValues.thy ===== *)
theory IndependentValues
  imports IndependentSound CexCachingSound
begin

text \<open>
  \<open>IndependentSolver::computeInitialValues\<close>: the factors of a query share no bytes, so that the
  values found for each of them join to an input that satisfies all, and the assertion of the
  created point holds.
\<close>

section \<open>The factors\<close>

definition exprs_of :: "element_set list \<Rightarrow> expr set" where
  "exprs_of fs = (\<Union>f \<in> set fs. set (ie_exprs f))"

lemma exprs_of_simps [simp]: "exprs_of [] = {}" "exprs_of (f # fs) = set (ie_exprs f) \<union> exprs_of fs"
  by (simp_all add: exprs_of_def)

text \<open>The elements of an array that is not whole are within its size.\<close>

definition within :: "(nat \<Rightarrow> array) \<Rightarrow> element_set \<Rightarrow> bool" where
  "within H f \<longleftrightarrow> (\<forall>x d. elems f x = Some d \<longrightarrow> (\<forall>i \<in> set d. i < arr_size (H x)))"

definition factor_ok :: "(nat \<Rightarrow> array) \<Rightarrow> element_set \<Rightarrow> bool" where
  "factor_ok H f \<longleftrightarrow> es_ok f \<and> es_arrays f \<subseteq> arrays_ok H \<and> ie_exprs f \<noteq> [] \<and> within H f
     \<and> (\<forall>e \<in> set (ie_exprs f). cond_ok H e \<and> deps e \<subseteq> locs f)"

definition same_set :: "element_set \<Rightarrow> element_set \<Rightarrow> bool" where
  "same_set s t \<longleftrightarrow> ie_elements s = ie_elements t \<and> ie_wholeObjects s = ie_wholeObjects t"

lemma same_set_separate: "same_set s t \<Longrightarrow> separate b s = separate b t" "same_set s t \<Longrightarrow> separate s b = separate t b"
  using separate_same [of s t b] separate_sym [of s b] separate_sym [of t b] by (simp_all add: same_set_def)

lemma same_set_trans: "same_set s t \<Longrightarrow> same_set t u \<Longrightarrow> same_set s u"
  by (simp add: same_set_def)

lemma add_wholes_arrays: "es_arrays (fst (add_wholes ws s m)) \<subseteq> es_arrays s \<union> set ws"
proof (induction ws s m rule: add_wholes.induct)
  case (2 a b s m)
  have "es_arrays (s\<lparr>ie_elements := amap_erase a (ie_elements s), ie_wholeObjects := aset_insert a (ie_wholeObjects s)\<rparr>)
      \<subseteq> insert a (es_arrays s)"
    using amap_erase_set [of a "ie_elements s"] aset_insert_subset [of a "ie_wholeObjects s"] by (auto simp: es_arrays_def)
  moreover have "es_arrays (s\<lparr>ie_wholeObjects := aset_insert a (ie_wholeObjects s)\<rparr>) \<subseteq> insert a (es_arrays s)"
    using aset_insert_subset [of a "ie_wholeObjects s"] by (auto simp: es_arrays_def)
  ultimately show ?case using 2 by (simp split: if_splits; blast)
qed simp

lemma add_elements_arrays: "es_arrays (fst (add_elements es s m)) \<subseteq> es_arrays s \<union> fst ` set es"
proof (induction es s m rule: add_elements.induct)
  case (2 a dis b s m)
  have "es_arrays (s\<lparr>ie_elements := amap_put a d (ie_elements s)\<rparr>) \<subseteq> insert a (es_arrays s)" for d
    using amap_put_arrays [of a d "ie_elements s"] by (auto simp: es_arrays_def)
  then have put: "es_arrays t \<subseteq> es_arrays (s\<lparr>ie_elements := amap_put a d (ie_elements s)\<rparr>) \<union> X \<Longrightarrow>
      es_arrays t \<subseteq> es_arrays s \<union> insert a X" for t d X by blast
  show ?case
  proof (cases "aset_mem a (ie_wholeObjects s)")
    case True
    then show ?thesis using "2.IH"(3) by (simp del: aset_mem_iff) blast
  next
    case False
    show ?thesis
    proof (cases "amap_find a (ie_elements s)")
      case None
      then show ?thesis using put [OF "2.IH"(1) [OF False None]] False by (simp del: aset_mem_iff)
    next
      case (Some d)
      obtain d' m' where d: "DenseSet_add d dis = (d', m')" by (cases "DenseSet_add d dis")
      show ?thesis using put [OF "2.IH"(2) [OF False Some d [symmetric]]] False Some d by (simp del: aset_mem_iff)
    qed
  qed
qed simp

lemma ie_add_arrays: "es_arrays (fst (ie_add s b)) \<subseteq> es_arrays s \<union> es_arrays b"
proof -
  let ?s0 = "s\<lparr>ie_exprs := ie_exprs s @ ie_exprs b\<rparr>"
  obtain s1 m1 where w: "add_wholes (ie_wholeObjects b) ?s0 False = (s1, m1)" by (cases "add_wholes (ie_wholeObjects b) ?s0 False")
  have "es_arrays s1 \<subseteq> es_arrays s \<union> set (ie_wholeObjects b)"
    using add_wholes_arrays [of "ie_wholeObjects b" ?s0 False] w by (simp add: es_arrays_def)
  moreover have "es_arrays (fst (ie_add s b)) \<subseteq> es_arrays s1 \<union> fst ` set (ie_elements b)"
    using add_elements_arrays [of "ie_elements b" s1 m1] w by (simp add: ie_add_def)
  moreover have "es_arrays b = fst ` set (ie_elements b) \<union> set (ie_wholeObjects b)" by (simp add: es_arrays_def)
  ultimately show ?thesis by blast
qed

lemma joins_within:
  assumes "joins s b r" "within H s" "within H b"
  shows "within H r"
proof -
  have "i < arr_size (H x)" if el: "elems r x = Some d" "i \<in> set d" for x d i
  proof -
    have "x \<notin> wholes r" using assms(1) el(1) by (auto simp: joins_def es_ok_def)
    moreover have "(x, i) \<in> locs r" using el by (auto simp: locs_def)
    ultimately have "\<exists>d. (elems s x = Some d \<or> elems b x = Some d) \<and> i \<in> set d"
      using assms(1) by (auto simp: joins_def locs_def)
    then show ?thesis using assms(2,3) by (auto simp: within_def)
  qed
  then show ?thesis by (auto simp: within_def)
qed

lemma ie_add_factor: "factor_ok H s \<Longrightarrow> factor_ok H b \<Longrightarrow> factor_ok H (fst (ie_add s b))"
  using ie_add_ok [of s b] ie_add_arrays [of s b] joins_within [of s b _ H]
  by (auto simp: factor_ok_def joins_def)

definition absorb_result :: "(nat \<Rightarrow> array) \<Rightarrow> element_set \<Rightarrow> element_set list \<Rightarrow> bool \<Rightarrow> element_set \<times> element_set list \<times> bool \<Rightarrow> bool" where
  "absorb_result H c fs d r \<longleftrightarrow> (case r of (c', keep, d') \<Rightarrow>
     factor_ok H c' \<and> set keep \<subseteq> set fs \<and> set (ie_exprs c') \<union> exprs_of keep = set (ie_exprs c) \<union> exprs_of fs
     \<and> (d' \<longrightarrow> d \<and> same_set c c' \<and> (\<forall>f \<in> set keep. separate c f)))"

lemma absorb_ok: "factor_ok H c \<Longrightarrow> \<forall>f \<in> set fs. factor_ok H f \<Longrightarrow> absorb_result H c fs d (absorb c fs d)"
proof (induction c fs d rule: absorb.induct)
  case (1 c d)
  then show ?case by (simp add: absorb_result_def same_set_def)
next
  case (2 c x fs d)
  have x: "factor_ok H x" "\<forall>f \<in> set fs. factor_ok H f" using "2.prems"(2) by simp_all
  show ?case
  proof (cases "ie_intersects c x")
    case True
    obtain c1 m where a: "ie_add c x = (c1, m)" by (cases "ie_add c x")
    have c1: "factor_ok H c1" "ie_exprs c1 = ie_exprs c @ ie_exprs x" "\<not> m \<Longrightarrow> same_set c c1"
      using ie_add_factor [OF "2.prems"(1) x(1)] ie_add_ok [of c x] "2.prems"(1) x(1) a
      by (simp_all add: factor_ok_def same_set_def)
    obtain c2 keep d2 where p: "absorb c1 fs (if m then False else d) = (c2, keep, d2)" by (metis prod_cases3)
    have ok: "absorb_result H c1 fs (if m then False else d) (c2, keep, d2)"
      using "2.IH"(1) [OF True a [symmetric] c1(1) x(2)] unfolding p .
    have eq: "absorb c (x # fs) d = (c2, keep, d2)" using True a p by simp
    have "d2 \<longrightarrow> \<not> m" using ok by (auto simp: absorb_result_def split: if_splits)
    then have "d2 \<longrightarrow> d \<and> same_set c c2 \<and> (\<forall>f \<in> set keep. separate c f)"
      using ok c1(3) same_set_trans [of c c1 c2] same_set_separate(2) [of c c1] by (auto simp: absorb_result_def)
    then show ?thesis unfolding eq using ok c1(2) by (auto simp: absorb_result_def)
  next
    case False
    obtain c2 keep d2 where p: "absorb c fs d = (c2, keep, d2)" by (metis prod_cases3)
    have ok: "absorb_result H c fs d (c2, keep, d2)" using "2.IH"(2) [OF False "2.prems"(1) x(2)] unfolding p .
    have eq: "absorb c (x # fs) d = (c2, x # keep, d2)" using False p by simp
    have "separate c x" using not_intersects [of c x] False "2.prems"(1) x(1) by (simp add: factor_ok_def)
    then show ?thesis unfolding eq using ok by (auto simp: absorb_result_def)
  qed
qed

definition pass_result :: "(nat \<Rightarrow> array) \<Rightarrow> element_set list \<Rightarrow> bool \<Rightarrow> element_set list \<times> bool \<Rightarrow> bool" where
  "pass_result H fs d r \<longleftrightarrow> (case r of (fs', d') \<Rightarrow>
     (\<forall>f \<in> set fs'. factor_ok H f) \<and> exprs_of fs' = exprs_of fs
     \<and> (d' \<longrightarrow> d \<and> sorted_wrt separate fs' \<and> (\<forall>f' \<in> set fs'. \<exists>f \<in> set fs. same_set f f')))"

lemma factors_pass_ok: "\<forall>f \<in> set fs. factor_ok H f \<Longrightarrow> pass_result H fs d (factors_pass fs d)"
proof (induction fs d rule: factors_pass.induct)
  case (1 d)
  then show ?case by (simp add: pass_result_def)
next
  case (2 c fs d)
  obtain c1 keep d1 where a: "absorb c fs d = (c1, keep, d1)" by (metis prod_cases3)
  obtain r d2 where p: "factors_pass keep d1 = (r, d2)" by (cases "factors_pass keep d1")
  have eq: "factors_pass (c # fs) d = (c1 # r, d2)" by (simp add: factors_pass.simps(2) a p)
  have ab: "absorb_result H c fs d (c1, keep, d1)" using absorb_ok [of H c fs d] "2.prems" a by simp
  then have keep: "\<forall>f \<in> set keep. factor_ok H f" using "2.prems" by (auto simp: absorb_result_def)
  have IH: "pass_result H keep d1 (r, d2)" using "2.IH" [OF a [symmetric] refl keep] unfolding p .
  have "separate c1 f'" if h: "d2" "f' \<in> set r" for f'
  proof -
    obtain f where f: "f \<in> set keep" "same_set f f'" using IH h by (auto simp: pass_result_def)
    have "same_set c c1" "separate c f" using ab IH h(1) f(1) by (auto simp: absorb_result_def pass_result_def)
    then show ?thesis using same_set_separate(1) [OF f(2)] same_set_separate(2) [of c c1 f] by blast
  qed
  moreover have "\<exists>f \<in> set (c # fs). same_set f f'" if "d2" "f' \<in> set (c1 # r)" for f'
  proof -
    have "set keep \<subseteq> set fs" "same_set c c1" "\<forall>f' \<in> set r. \<exists>f \<in> set keep. same_set f f'"
      using ab IH that(1) by (auto simp: absorb_result_def pass_result_def)
    then show ?thesis using that(2) by (cases "f' = c1") auto
  qed
  moreover have "set (ie_exprs c1) \<union> exprs_of keep = set (ie_exprs c) \<union> exprs_of fs" "factor_ok H c1" "d1 \<longrightarrow> d"
    using ab by (auto simp: absorb_result_def)
  ultimately show ?case unfolding eq using IH by (simp add: pass_result_def)
qed

lemma factors_loop_ok:
  "\<forall>f \<in> set fs. factor_ok H f \<Longrightarrow> (\<forall>f \<in> set (factors_loop fs). factor_ok H f) \<and> exprs_of (factors_loop fs) = exprs_of fs
     \<and> sorted_wrt separate (factors_loop fs)"
proof (induction fs rule: factors_loop.induct)
  case (1 fs)
  obtain r d where p: "factors_pass fs True = (r, d)" by (cases "factors_pass fs True")
  have ok: "pass_result H fs True (r, d)" using factors_pass_ok [OF "1.prems", of True] unfolding p .
  show ?case
  proof (cases d)
    case True
    then have "factors_loop fs = r" by (subst factors_loop.simps) (simp add: p)
    then show ?thesis using ok True by (simp add: pass_result_def)
  next
    case False
    then have eq: "factors_loop fs = factors_loop r" by (subst factors_loop.simps) (simp add: p)
    have "\<forall>f \<in> set r. factor_ok H f" "exprs_of r = exprs_of fs" using ok by (simp_all add: pass_result_def)
    then show ?thesis unfolding eq using "1.IH" [OF p [symmetric] False] by simp
  qed
qed

section \<open>Joining the values of the factors\<close>

text \<open>The input that a map from arrays to bytes stands for.\<close>

definition input_of :: "(array \<times> 8 word list) list \<Rightarrow> assignment" where
  "input_of m = (\<lambda>a i. case amap_at m (arr_addr a) of
     None \<Rightarrow> 0 | Some v \<Rightarrow> if i < length v then uint (v ! i) else 0)"

definition values_ok :: "(nat \<Rightarrow> array) \<Rightarrow> (array \<times> 8 word list) list \<Rightarrow> bool" where
  "values_ok H m \<longleftrightarrow> amap_sorted m \<and> (\<forall>x v. amap_at m x = Some v \<longrightarrow> array_ok H (H x) \<and> arr_addr (H x) = x \<and> length v = arr_size (H x))"

lemma array_at: "array_ok H a \<Longrightarrow> H (arr_addr a) = a"
  by (simp add: array_ok_def)

lemma input_of_inputs: "values_ok H m \<Longrightarrow> input_of m \<in> inputs H"
  using unsigned_less [where 'b = 8 and 'a = int] array_at [of H]
  by (fastforce simp: inputs_def input_of_def values_ok_def split: option.split)

lemma put_indices_ok:
  "\<forall>i \<in> set ds. i < length t \<Longrightarrow> length p = length t \<Longrightarrow>
    \<exists>p'. put_indices t ds p = Some p' \<and> length p' = length p \<and> (\<forall>j < length p. p' ! j = (if j \<in> set ds then t ! j else p ! j))"
proof (induction ds arbitrary: p)
  case (Cons i ds)
  obtain p' where "put_indices t ds (p[i := t ! i]) = Some p'" "length p' = length p"
      "\<forall>j < length p. p' ! j = (if j \<in> set ds then t ! j else p[i := t ! i] ! j)"
    using Cons.IH [of "p[i := t ! i]"] Cons.prems by auto
  then show ?case using Cons.prems by (auto simp: nth_opt_def nth_list_update)
qed simp

text \<open>One array of a factor: the bytes of the factor are set, and bytes that were there stay.\<close>

lemma merge_array_ok:
  assumes m: "values_ok H m" and a: "array_ok H a" "length v = arr_size a" and f: "factor_ok H f" "arr_addr a \<in> es_keys f"
    and new: "arr_addr a \<in> dom (amap_at m) \<Longrightarrow> arr_addr a \<notin> wholes f"
  shows "\<exists>m'. merge_array f a v m = Some m' \<and> values_ok H m' \<and> dom (amap_at m') = insert (arr_addr a) (dom (amap_at m))
    \<and> (\<forall>b i. arr_addr b \<noteq> arr_addr a \<longrightarrow> input_of m' b i = input_of m b i)
    \<and> (\<forall>i. (arr_addr a, i) \<in> locs f \<longrightarrow> input_of m' a i = (if i < length v then uint (v ! i) else 0))
    \<and> (\<forall>i. arr_addr a \<in> dom (amap_at m) \<longrightarrow> (arr_addr a, i) \<notin> locs f \<longrightarrow> input_of m' a i = input_of m a i)"
proof -
  have srt: "amap_sorted m" using m by (simp add: values_ok_def)
  have put: "values_ok H (amap_put a w m)" "amap_at (amap_put a w m) = (amap_at m)(arr_addr a \<mapsto> w)"
    if "length w = arr_size a" for w
    using amap_put_sorted [OF srt, of a w] amap_put_at [OF srt, of a w] m a(1) array_at [OF a(1)] that
    by (auto simp: values_ok_def)
  show ?thesis
  proof (cases "amap_at m (arr_addr a)")
    case None
    then have "merge_array f a v m = Some (amap_put a v m)" by (simp add: merge_array_def amap_find_at)
    then show ?thesis using put [OF a(2)] None by (auto simp: input_of_def)
  next
    case (Some p)
    then have "arr_addr a \<notin> wholes f" using new by auto
    then obtain ds where ds: "elems f (arr_addr a) = Some ds" using f(2) by (auto simp: es_keys_def)
    have bounds: "\<forall>i \<in> set ds. i < length v" using ds f(1) a(2) array_at [OF a(1)] unfolding factor_ok_def within_def by metis
    have lp: "length p = length v" using m Some a by (auto simp: values_ok_def array_at)
    obtain p' where p': "put_indices v ds p = Some p'" "length p' = length p"
        "\<forall>j < length p. p' ! j = (if j \<in> set ds then v ! j else p ! j)"
      using put_indices_ok [OF bounds lp] by blast
    have l: "(arr_addr a, i) \<in> locs f \<longleftrightarrow> i \<in> set ds" for i
      using ds \<open>arr_addr a \<notin> wholes f\<close> by (simp add: locs_def)
    have "merge_array f a v m = Some (amap_put a p' m)"
      using Some ds lp p'(1) by (simp add: merge_array_def amap_find_at elems_def)
    moreover have "length p' = arr_size a" using p'(2) lp a(2) by simp
    ultimately show ?thesis using put [of p'] Some p' lp bounds unfolding l by (auto simp: input_of_def)
  qed
qed

text \<open>The bytes of the arrays \<open>as\<close> that belong to the factor are those of \<open>vs\<close>; the other bytes stay.\<close>

definition merged ::
  "(nat \<Rightarrow> array) \<Rightarrow> element_set \<Rightarrow> (array \<times> 8 word list) list \<Rightarrow> (array \<times> 8 word list) list \<Rightarrow> (array \<times> 8 word list) list \<Rightarrow> bool" where
  "merged H f avs m m' \<longleftrightarrow> values_ok H m' \<and> dom (amap_at m') = dom (amap_at m) \<union> arr_addr ` fst ` set avs
    \<and> (\<forall>(a, v) \<in> set avs. \<forall>i. (arr_addr a, i) \<in> locs f \<longrightarrow> input_of m' a i = (if i < length v then uint (v ! i) else 0))
    \<and> (\<forall>b i. array_ok H b \<longrightarrow> (arr_addr b, i) \<notin> locs f \<longrightarrow> arr_addr b \<in> dom (amap_at m) \<longrightarrow> input_of m' b i = input_of m b i)
    \<and> (\<forall>b i. arr_addr b \<notin> arr_addr ` fst ` set avs \<longrightarrow> input_of m' b i = input_of m b i)"

lemma merged_none: "values_ok H m \<Longrightarrow> merged H f [] m m"
  by (simp add: merged_def)

lemma mergedD:
  assumes "merged H f avs m m'"
  shows "array_ok H b \<Longrightarrow> (arr_addr b, i) \<notin> locs f \<Longrightarrow> arr_addr b \<in> dom (amap_at m) \<Longrightarrow> input_of m' b i = input_of m b i"
    "arr_addr b \<notin> arr_addr ` fst ` set avs \<Longrightarrow> input_of m' b i = input_of m b i"
    "(a, v) \<in> set avs \<Longrightarrow> (arr_addr a, i) \<in> locs f \<Longrightarrow> input_of m' a i = (if i < length v then uint (v ! i) else 0)"
  using assms unfolding merged_def by fastforce+

lemma merged_one:
  assumes "values_ok H m" "array_ok H a" "length v = arr_size a" "factor_ok H f" "arr_addr a \<in> es_keys f"
    "arr_addr a \<in> dom (amap_at m) \<Longrightarrow> arr_addr a \<notin> wholes f"
  shows "\<exists>m'. merge_array f a v m = Some m' \<and> merged H f [(a, v)] m m'"
proof -
  have "\<exists>m'. merge_array f a v m = Some m' \<and> values_ok H m' \<and> dom (amap_at m') = insert (arr_addr a) (dom (amap_at m))
    \<and> (\<forall>b i. arr_addr b \<noteq> arr_addr a \<longrightarrow> input_of m' b i = input_of m b i)
    \<and> (\<forall>i. (arr_addr a, i) \<in> locs f \<longrightarrow> input_of m' a i = (if i < length v then uint (v ! i) else 0))
    \<and> (\<forall>i. arr_addr a \<in> dom (amap_at m) \<longrightarrow> (arr_addr a, i) \<notin> locs f \<longrightarrow> input_of m' a i = input_of m a i)"
    by (rule merge_array_ok) (fact assms)+
  then obtain m1 where m1: "merge_array f a v m = Some m1" "values_ok H m1" "dom (amap_at m1) = insert (arr_addr a) (dom (amap_at m))"
      "\<forall>b i. arr_addr b \<noteq> arr_addr a \<longrightarrow> input_of m1 b i = input_of m b i"
      "\<forall>i. (arr_addr a, i) \<in> locs f \<longrightarrow> input_of m1 a i = (if i < length v then uint (v ! i) else 0)"
      "\<forall>i. arr_addr a \<in> dom (amap_at m) \<longrightarrow> (arr_addr a, i) \<notin> locs f \<longrightarrow> input_of m1 a i = input_of m a i"
    by (elim exE conjE) (rule that)
  have kept: "input_of m1 b i = input_of m b i"
    if "array_ok H b" "(arr_addr b, i) \<notin> locs f" "arr_addr b \<in> dom (amap_at m)" for b i
  proof (cases "arr_addr b = arr_addr a")
    case True
    then have "b = a" using array_at [OF that(1)] array_at [OF assms(2)] by metis
    show ?thesis unfolding \<open>b = a\<close> by (rule m1(6) [rule_format]) (use that(2,3) True in simp_all)
  next
    case False
    then show ?thesis by (rule m1(4) [rule_format])
  qed
  have "merged H f [(a, v)] m m1"
    unfolding merged_def
  proof (intro conjI allI impI)
    show "values_ok H m1" "dom (amap_at m1) = dom (amap_at m) \<union> arr_addr ` fst ` set [(a, v)]" using m1(2,3) by simp_all
    show "\<forall>(a, v) \<in> set [(a, v)]. \<forall>i. (arr_addr a, i) \<in> locs f \<longrightarrow> input_of m1 a i = (if i < length v then uint (v ! i) else 0)"
      using m1(5) by simp
    fix b i
    show "input_of m1 b i = input_of m b i" if "array_ok H b" "(arr_addr b, i) \<notin> locs f" "arr_addr b \<in> dom (amap_at m)"
      using that by (rule kept)
    show "input_of m1 b i = input_of m b i" if "arr_addr b \<notin> arr_addr ` fst ` set [(a, v)]"
      by (rule m1(4) [rule_format]) (use that in simp)
  qed
  then show ?thesis using m1(1) by blast
qed

lemma merged_step:
  assumes one: "merged H f [(a, v)] m m1" and rest: "merged H f avs m1 m2"
    and a: "array_ok H a" "arr_addr a \<notin> arr_addr ` fst ` set avs"
  shows "merged H f ((a, v) # avs) m m2"
proof -
  have m1: "dom (amap_at m1) = insert (arr_addr a) (dom (amap_at m))"
    using one by (simp add: merged_def)
  have r: "values_ok H m2" "dom (amap_at m2) = dom (amap_at m1) \<union> arr_addr ` fst ` set avs"
      "\<forall>(a, v) \<in> set avs. \<forall>i. (arr_addr a, i) \<in> locs f \<longrightarrow> input_of m2 a i = (if i < length v then uint (v ! i) else 0)"
    using rest by (simp_all add: merged_def)
  have kept: "input_of m2 b i = input_of m b i" if "array_ok H b" "(arr_addr b, i) \<notin> locs f" "arr_addr b \<in> dom (amap_at m)" for b i
  proof -
    have "input_of m1 b i = input_of m b i" by (rule mergedD(1) [OF one that])
    moreover have "arr_addr b \<in> dom (amap_at m1)" using m1 that(3) by simp
    then have "input_of m2 b i = input_of m1 b i" by (rule mergedD(1) [OF rest that(1,2)])
    ultimately show ?thesis by simp
  qed
  have other: "input_of m2 b i = input_of m b i" if "arr_addr b \<notin> insert (arr_addr a) (arr_addr ` fst ` set avs)" for b i
  proof -
    have "arr_addr b \<notin> arr_addr ` fst ` set [(a, v)]" "arr_addr b \<notin> arr_addr ` fst ` set avs" using that by simp_all
    then show ?thesis using mergedD(2) [OF one, of b i] mergedD(2) [OF rest, of b i] by simp
  qed
  have a2: "input_of m2 a i = input_of m1 a i" for i by (rule mergedD(2) [OF rest a(2)])
  have a1: "\<forall>i. (arr_addr a, i) \<in> locs f \<longrightarrow> input_of m1 a i = (if i < length v then uint (v ! i) else 0)"
    using mergedD(3) [OF one] by simp
  have new: "\<forall>(b, w) \<in> set ((a, v) # avs). \<forall>i. (arr_addr b, i) \<in> locs f \<longrightarrow> input_of m2 b i = (if i < length w then uint (w ! i) else 0)"
    unfolding list.set(2) ball_simps(7) prod.case a2 by (rule conjI [OF a1 r(3)])
  show ?thesis
    unfolding merged_def
  proof (intro conjI allI impI)
    show "values_ok H m2" "dom (amap_at m2) = dom (amap_at m) \<union> arr_addr ` fst ` set ((a, v) # avs)"
      using r(1,2) m1 by simp_all
    show "\<forall>(b, w) \<in> set ((a, v) # avs). \<forall>i. (arr_addr b, i) \<in> locs f \<longrightarrow> input_of m2 b i = (if i < length w then uint (w ! i) else 0)"
      by (rule new)
    fix b i
    show "input_of m2 b i = input_of m b i" if "array_ok H b" "(arr_addr b, i) \<notin> locs f" "arr_addr b \<in> dom (amap_at m)"
      using that by (rule kept)
    show "input_of m2 b i = input_of m b i" if "arr_addr b \<notin> arr_addr ` fst ` set ((a, v) # avs)"
      by (rule other) (use that in simp)
  qed
qed

lemma merge_arrays_ok:
  assumes "list_all2 (\<lambda>a v. array_ok H a \<and> length v = arr_size a) as vs" "distinct (map arr_addr as)"
    "\<forall>a \<in> set as. arr_addr a \<in> es_keys f \<and> (arr_addr a \<in> dom (amap_at m) \<longrightarrow> arr_addr a \<notin> wholes f)"
    "values_ok H m" "factor_ok H f"
  shows "\<exists>m'. merge_arrays f as vs m = Some m' \<and> merged H f (zip as vs) m m'"
  using assms
proof (induction as vs arbitrary: m rule: list_all2_induct)
  case Nil
  then show ?case by (simp add: merged_none)
next
  case (Cons a as v vs)
  have a: "array_ok H a" "length v = arr_size a" "arr_addr a \<in> es_keys f"
      "arr_addr a \<in> dom (amap_at m) \<Longrightarrow> arr_addr a \<notin> wholes f" "arr_addr a \<notin> arr_addr ` set as" "distinct (map arr_addr as)"
    using Cons.hyps(1) Cons.prems(1,2) by simp_all
  obtain m1 where m1: "merge_array f a v m = Some m1" "merged H f [(a, v)] m m1"
    using merged_one [OF Cons.prems(3) a(1,2) Cons.prems(4) a(3,4)] by blast
  have d1: "dom (amap_at m1) = insert (arr_addr a) (dom (amap_at m))" "values_ok H m1"
    using m1(2) by (simp_all add: merged_def)
  have next_ok: "\<forall>b \<in> set as. arr_addr b \<in> es_keys f \<and> (arr_addr b \<in> dom (amap_at m1) \<longrightarrow> arr_addr b \<notin> wholes f)"
  proof
    fix b assume b: "b \<in> set as"
    then have "arr_addr b \<noteq> arr_addr a" using a(5) by (metis imageI)
    then show "arr_addr b \<in> es_keys f \<and> (arr_addr b \<in> dom (amap_at m1) \<longrightarrow> arr_addr b \<notin> wholes f)"
      using Cons.prems(2) b d1(1) by simp
  qed
  obtain m2 where m2: "merge_arrays f as vs m1 = Some m2" "merged H f (zip as vs) m1 m2"
    using Cons.IH [OF a(6) next_ok d1(2) Cons.prems(4)] by blast
  have "fst ` set (zip as vs) \<subseteq> set as" by (auto dest: set_zip_leftD)
  then have "arr_addr a \<notin> arr_addr ` fst ` set (zip as vs)" using a(5) by blast
  then have "merged H f (zip (a # as) (v # vs)) m m2" using merged_step [OF m1(2) m2(2) a(1)] by simp
  then show ?case using m1(1) m2(1) by simp
qed

section \<open>The arrays of a factor\<close>

lemma aset_insert_sorted:
  "sorted_wrt (\<lambda>x y. arr_addr x < arr_addr y) s \<Longrightarrow> sorted_wrt (\<lambda>x y. arr_addr x < arr_addr y) (aset_insert a s)"
proof (induction a s rule: aset_insert.induct)
  case (2 a b s)
  then show ?case using aset_insert_subset [of a s] by fastforce
qed simp

lemma fold_aset_insert:
  "sorted_wrt (\<lambda>x y. arr_addr x < arr_addr y) s \<Longrightarrow> sorted_wrt (\<lambda>x y. arr_addr x < arr_addr y) (fold aset_insert xs s)"
  "set (fold aset_insert xs s) \<subseteq> set xs \<union> set s"
  "arr_addr ` set (fold aset_insert xs s) = arr_addr ` set xs \<union> arr_addr ` set s"
proof (induction xs arbitrary: s)
  case (Cons x xs)
  { case 1 then show ?case using Cons.IH(1) aset_insert_sorted by simp }
  { case 2 then show ?case using Cons.IH(2) [of "aset_insert x s"] aset_insert_subset [of x s] by fastforce }
  { case 3 then show ?case using Cons.IH(3) [of "aset_insert x s"] aset_insert_set [of x s] by simp }
qed simp_all

lemma sorted_addrs_distinct: "sorted_wrt (\<lambda>x y. arr_addr x < arr_addr y) s \<Longrightarrow> distinct (map arr_addr s)"
  by (induction s) auto

lemma calculateArrayReferences_ok:
  "set (calculateArrayReferences f) \<subseteq> es_arrays f" "arr_addr ` set (calculateArrayReferences f) = es_keys f"
  "distinct (map arr_addr (calculateArrayReferences f))"
proof -
  let ?xs = "map fst (ie_elements f)" and ?ys = "ie_wholeObjects f"
  have sub: "set (calculateArrayReferences f) \<subseteq> set ?xs \<union> set ?ys"
    using fold_aset_insert(2) [of ?ys "fold aset_insert ?xs []"] fold_aset_insert(2) [of ?xs "[]"]
    by (auto simp: calculateArrayReferences_def)
  then show "set (calculateArrayReferences f) \<subseteq> es_arrays f" by (auto simp: es_arrays_def)
  have "dom (elems f) = arr_addr ` set ?xs"
    unfolding elems_def amap_at_def by (simp add: dom_map_of_conv_image_fst image_image case_prod_unfold)
  moreover have "arr_addr ` set (calculateArrayReferences f) = arr_addr ` set ?ys \<union> arr_addr ` set ?xs"
    unfolding calculateArrayReferences_def fold_aset_insert(3) by simp
  ultimately show "arr_addr ` set (calculateArrayReferences f) = es_keys f" by (auto simp: es_keys_def wholes_def)
  have "sorted_wrt (\<lambda>x y. arr_addr x < arr_addr y) (calculateArrayReferences f)"
    unfolding calculateArrayReferences_def by (intro fold_aset_insert(1)) simp
  then show "distinct (map arr_addr (calculateArrayReferences f))" by (rule sorted_addrs_distinct)
qed

lemma locs_keys: "(x, i) \<in> locs f \<Longrightarrow> x \<in> es_keys f"
  by (auto simp: locs_def es_keys_def)

section \<open>The loop over the factors\<close>

definition solved :: "(nat \<Rightarrow> array) \<Rightarrow> (array \<times> 8 word list) list \<Rightarrow> element_set \<Rightarrow> bool" where
  "solved H m f \<longleftrightarrow> es_keys f = {} \<or> (\<exists>\<rho> \<in> models H (ie_exprs f). agree_on H (locs f) (input_of m) \<rho>)"

definition factors_solved :: "(nat \<Rightarrow> array) \<Rightarrow> element_set list \<Rightarrow> (array \<times> 8 word list) list \<Rightarrow> bool" where
  "factors_solved H ps m \<longleftrightarrow> values_ok H m \<and> dom (amap_at m) = (\<Union>f \<in> set ps. es_keys f) \<and> (\<forall>f \<in> set ps. solved H m f)"

lemma factors_solved_none: "factors_solved H [] []"
  by (simp add: factors_solved_def values_ok_def)

lemma factors_solved_skip: "factors_solved H ps m \<Longrightarrow> es_keys f = {} \<Longrightarrow> factors_solved H (ps @ [f]) m"
  by (auto simp: factors_solved_def solved_def)

lemma solved_kept:
  assumes p: "solved H m p" "es_keys p \<subseteq> dom (amap_at m)" and mg: "merged H f avs m m'" and sep: "separate p f"
  shows "solved H m' p"
proof (cases "es_keys p = {}")
  case True
  then show ?thesis by (simp add: solved_def)
next
  case False
  then obtain \<rho> where r: "\<rho> \<in> models H (ie_exprs p)" "agree_on H (locs p) (input_of m) \<rho>" using p(1) by (auto simp: solved_def)
  have "input_of m' b i = \<rho> b i" if b: "array_ok H b" "(arr_addr b, i) \<in> locs p" for b i
  proof -
    have "(arr_addr b, i) \<notin> locs f" using sep b(2) by (auto simp: separate_def)
    moreover have "arr_addr b \<in> dom (amap_at m)" using locs_keys [OF b(2)] p(2) by blast
    ultimately have "input_of m' b i = input_of m b i" by (rule mergedD(1) [OF mg b(1)])
    also have "input_of m b i = \<rho> b i" using r(2) b unfolding agree_on_def by blast
    finally show ?thesis .
  qed
  then have "agree_on H (locs p) (input_of m') \<rho>" unfolding agree_on_def by blast
  then show ?thesis using r(1) unfolding solved_def by blast
qed

lemma solved_merged:
  assumes f: "factor_ok H f" and vs: "values_of H (calculateArrayReferences f) vs a" "assignment_of a \<in> models H (ie_exprs f)"
    and mg: "merged H f (zip (calculateArrayReferences f) vs) m m'"
  shows "solved H m' f"
proof -
  let ?as = "calculateArrayReferences f"
  have l: "list_all2 (\<lambda>x v. array_ok H x \<and> length v = arr_size x) ?as vs" "Assignment_new ?as vs False = Some a"
    using vs(1) by (simp_all add: values_of_def)
  have len: "length ?as = length vs" using list_all2_lengthD [OF l(1)] .
  have "input_of m' b i = assignment_of a b i" if b: "array_ok H b" "(arr_addr b, i) \<in> locs f" for b i
  proof -
    obtain x where x: "x \<in> set ?as" "arr_addr x = arr_addr b"
      using locs_keys [OF b(2)] calculateArrayReferences_ok(2) [of f] by (metis imageE)
    obtain k where k: "k < length ?as" "?as ! k = x" using x(1) unfolding in_set_conv_nth by blast
    have "array_ok H x" using list_all2_nthD [OF l(1) k(1)] k(2) by simp
    then have xb: "x = b" using array_at [OF b(1)] array_at [of H x] x(2) by metis
    have z: "(b, vs ! k) \<in> set (zip ?as vs)" using k len xb by (auto simp: in_set_zip)
    have "map_of (zip (map arr_addr ?as) vs) (arr_addr b) = Some (vs ! k)"
      using map_of_zip_nth [of "map arr_addr ?as" vs k] calculateArrayReferences_ok(3) [of f] k len x(2) by simp
    then have "bindings_find b (bindings a) = Some (vs ! k)" using Assignment_new_lookup [OF l(2), of b] by simp
    then show ?thesis unfolding mergedD(3) [OF mg z b(2)] by (simp add: assignment_of_def)
  qed
  then have "agree_on H (locs f) (input_of m') (assignment_of a)" unfolding agree_on_def by blast
  then show ?thesis using vs(2) unfolding solved_def by blast
qed

text \<open>One factor with arrays, from the values found for it.\<close>

lemma factors_solved_step:
  assumes st: "factors_solved H ps m" and sep: "\<forall>p \<in> set ps. separate p f" and f: "factor_ok H f"
    and vs: "values_of H (calculateArrayReferences f) vs a" "assignment_of a \<in> models H (ie_exprs f)"
  shows "\<exists>m'. merge_arrays f (calculateArrayReferences f) vs m = Some m' \<and> factors_solved H (ps @ [f]) m'"
proof -
  let ?as = "calculateArrayReferences f"
  have m: "values_ok H m" "dom (amap_at m) = (\<Union>f \<in> set ps. es_keys f)" "\<forall>p \<in> set ps. solved H m p"
    using st by (simp_all add: factors_solved_def)
  have l: "list_all2 (\<lambda>x v. array_ok H x \<and> length v = arr_size x) ?as vs" using vs(1) by (simp add: values_of_def)
  have keys: "\<forall>x \<in> set ?as. arr_addr x \<in> es_keys f \<and> (arr_addr x \<in> dom (amap_at m) \<longrightarrow> arr_addr x \<notin> wholes f)"
  proof (intro ballI conjI impI)
    fix x assume x: "x \<in> set ?as"
    show "arr_addr x \<in> es_keys f" using x calculateArrayReferences_ok(2) [of f] by blast
    assume "arr_addr x \<in> dom (amap_at m)"
    then obtain p where "p \<in> set ps" "arr_addr x \<in> es_keys p" using m(2) by blast
    then show "arr_addr x \<notin> wholes f" using sep unfolding separate_def by blast
  qed
  obtain m' where m': "merge_arrays f ?as vs m = Some m'" "merged H f (zip ?as vs) m m'"
    using merge_arrays_ok [OF l calculateArrayReferences_ok(3) keys m(1) f] by blast
  have "fst ` set (zip ?as vs) = set ?as" using list_all2_lengthD [OF l] by (simp flip: set_map)
  then have d: "dom (amap_at m') = dom (amap_at m) \<union> es_keys f" "values_ok H m'"
    using m'(2) calculateArrayReferences_ok(2) [of f] by (simp_all add: merged_def)
  have "solved H m' p" if p: "p \<in> set ps" for p
    by (rule solved_kept [OF _ _ m'(2)]) (use m p sep in blast)+
  moreover have "solved H m' f" by (rule solved_merged [OF f vs m'(2)])
  ultimately show ?thesis using m'(1) d m(2) by (auto simp: factors_solved_def)
qed

definition loop_right ::
  "(nat \<Rightarrow> array) \<Rightarrow> element_set list \<Rightarrow> (bool \<times> bool option) + ((array \<times> 8 word list) list \<times> bool option) \<Rightarrow> bool" where
  "loop_right H fs r \<longleftrightarrow> (case r of
     Inl (ok, h) \<Rightarrow> ok \<longrightarrow> h = Some False \<and> (\<exists>f \<in> set fs. models H (ie_exprs f) = {})
   | Inr (m, h) \<Rightarrow> h = Some True \<and> factors_solved H fs m)"

lemma query_covers:
  assumes f: "factor_ok H f" and q: "q_constraints q = ie_exprs f" "q_expr q = ConstantExpr c"
  shows "covers H (calculateArrayReferences f) q"
  unfolding covers_def
proof (intro ballI impI)
  fix e \<rho> \<rho>' assume e: "e \<in> set (q_expr q # q_constraints q)" and r: "\<rho> \<in> inputs H" "\<rho>' \<in> inputs H"
    and eq: "\<forall>x \<in> set (calculateArrayReferences f). \<rho> x = \<rho>' x"
  show "true_in \<rho> e = true_in \<rho>' e"
  proof (cases "e \<in> set (ie_exprs f)")
    case True
    then have e: "wt H e" "deps e \<subseteq> locs f" using f by (auto simp: factor_ok_def cond_ok_def)
    have "\<rho> b i = \<rho>' b i" if b: "array_ok H b" "(arr_addr b, i) \<in> deps e" for b i
    proof -
      have "arr_addr b \<in> es_keys f" using b(2) e(2) locs_keys by blast
      then obtain x where x: "x \<in> set (calculateArrayReferences f)" "arr_addr x = arr_addr b"
        using calculateArrayReferences_ok(2) [of f] by (metis imageE)
      have "array_ok H x" using x(1) f calculateArrayReferences_ok(1) [of f] by (auto simp: factor_ok_def arrays_ok_def)
      then have "x = b" using array_at [OF b(1)] array_at [of H x] x(2) by metis
      then show ?thesis using eq x(1) by metis
    qed
    then have "agree_on H (deps e) \<rho> \<rho>'" unfolding agree_on_def by blast
    then show ?thesis using sem_same_deps(1) [OF r e(1)] by (simp add: true_in_def)
  next
    case False
    then show ?thesis using e q by (simp add: true_in_def)
  qed
qed

context solver_contract
begin

lemma factors_values_ok:
  assumes D: "\<And>q. D q"
  shows "factors_solved H ps m \<Longrightarrow> sorted_wrt separate (ps @ fs) \<Longrightarrow> \<forall>f \<in> set fs. factor_ok H f \<Longrightarrow> I s \<Longrightarrow>
    \<exists>r s'. factors_values G S fs m (Some True) s = Some (r, s') \<and> I s' \<and> loop_right H (ps @ fs) r"
proof (induction fs arbitrary: ps m s)
  case Nil
  then show ?case by (simp add: loop_right_def)
next
  case (Cons f fs)
  have f: "factor_ok H f" "\<forall>g \<in> set fs. factor_ok H g" using Cons.prems(3) by simp_all
  have sep: "\<forall>p \<in> set ps. separate p f" "sorted_wrt separate ((ps @ [f]) @ fs)"
    using Cons.prems(2) by (auto simp: sorted_wrt_append)
  have ne: "length (ie_exprs f) \<ge> 1" using f(1) by (cases "ie_exprs f") (auto simp: factor_ok_def)
  show ?case
  proof (cases "calculateArrayReferences f = []")
    case True
    then have "es_keys f = {}" using calculateArrayReferences_ok(2) [of f] by simp
    from Cons.IH [OF factors_solved_skip [OF Cons.prems(1) this] sep(2) f(2) Cons.prems(4)]
    show ?thesis using True ne by (simp add: Let_def)
  next
    case False
    let ?as = "calculateArrayReferences f"
    let ?q = "\<lparr>q_constraints = ie_exprs f, q_expr = ConstantExpr (ConstantExpr_alloc_u64 (api G) 0 Bool_width)\<rparr>"
    have c: "ConstantExpr (ConstantExpr_alloc_u64 (api G) 0 Bool_width) = ConstantExpr (bv_bool False)" by simp
    have q: "bool_query H ?q" using f(1) unfolding c by (auto simp: bool_query_def query_ok_def factor_ok_def term_ok_def)
    have cov: "covers H ?as ?q" by (rule query_covers [OF f(1)]) simp_all
    have as: "\<forall>x \<in> set ?as. array_ok H x"
      using f(1) calculateArrayReferences_ok(1) [of f] by (auto simp: factor_ok_def arrays_ok_def)
    obtain ok out s1 where i: "si_computeInitialValues S ?q ?as \<lparr>vo_values = [], vo_hasSolution = Some True\<rparr> s = Some ((ok, out), s1)"
        "I s1" "ok \<Longrightarrow> initial_right H ?q ?as out"
      using initial [OF q D cov as _ Cons.prems(4), of "\<lparr>vo_values = [], vo_hasSolution = Some True\<rparr>"] by auto
    have eq: "factors_values G S (f # fs) m (Some True) s =
      (if \<not> ok then Some (Inl (False, vo_hasSolution out), s1)
       else do {
         solution \<leftarrow> vo_hasSolution out;
         if \<not> solution then Some (Inl (True, Some False), s1)
         else check (length (vo_values out) = length ?as) (do {
           m \<leftarrow> merge_arrays f ?as (vo_values out) m;
           factors_values G S fs m (vo_hasSolution out) s1 }) })"
      using ne False i(1) by (simp add: Let_def)
    show ?thesis
    proof (cases ok)
      case False
      then show ?thesis unfolding eq using i(2) by (simp add: loop_right_def)
    next
      case ok: True
      have false: "\<not> true_in \<rho> (q_expr ?q)" for \<rho> unfolding c by simp
      consider "vo_hasSolution out = Some False" "valid H ?q"
        | a where "vo_hasSolution out = Some True" "values_of H ?as (vo_values out) a" "assignment_of a \<in> models H (ie_exprs f)"
        using i(3) [OF ok] unfolding initial_right_def by (auto split: option.splits bool.splits)
      then show ?thesis
      proof cases
        case 1
        then have "models H (ie_exprs f) = {}" using false by (auto simp: valid_def)
        then show ?thesis unfolding eq using ok 1(1) i(2) by (simp add: loop_right_def)
      next
        case (2 a)
        obtain m' where m': "merge_arrays f ?as (vo_values out) m = Some m'" "factors_solved H (ps @ [f]) m'"
          using factors_solved_step [OF Cons.prems(1) sep(1) f(1) 2(2,3)] by blast
        have "length (vo_values out) = length ?as" using 2(2) by (auto simp: values_of_def dest: list_all2_lengthD)
        then have "factors_values G S (f # fs) m (Some True) s = factors_values G S fs m' (Some True) s1"
          unfolding eq using ok 2(1) m'(1) by simp
        then show ?thesis using Cons.IH [OF m'(2) sep(2) f(2) i(2)] by simp
      qed
    qed
  qed
qed

end

section \<open>The factors of a query\<close>

text \<open>Every read at a constant index is within its array.\<close>

definition reads_inside :: "expr \<Rightarrow> bool" where
  "reads_inside e \<longleftrightarrow> (\<forall>root head c. ReadExpr root head (ConstantExpr c) \<in> read_nodes e \<longrightarrow> nat (ap_value c) < arr_size root)"

text \<open>
  The queries whose initial values the solver may be asked for: a constant query is false, a
  query without symbolic reads can be false, and the points to be found read their arrays inside
  their bounds.  Without them the assertions of the code fail.
\<close>

definition values_domain :: "expr_env \<Rightarrow> (nat \<Rightarrow> array) \<Rightarrow> query \<Rightarrow> bool" where
  "values_domain G H q \<longleftrightarrow> satisfiable H q \<and> (\<forall>c. q_expr q = ConstantExpr c \<longrightarrow> c = bv_bool False)
     \<and> (\<forall>neg. createIsZero G (q_expr q) = Some neg \<longrightarrow>
          (deps neg = {} \<longrightarrow> (\<exists>\<rho> \<in> inputs H. true_in \<rho> neg)) \<and>
          (\<forall>e \<in> set (neg # q_constraints q). reads_inside e \<and>
             (\<forall>\<rho> \<in> models H (neg # q_constraints q). reads_at (\<lambda>a i. i < arr_size a) \<rho> e)))"

lemma within_put:
  assumes "within H es" "es_ok es" "arr_addr root \<notin> wholes es" "\<forall>i \<in> set d. i < arr_size (H (arr_addr root))"
  shows "within H (es\<lparr>ie_elements := amap_put root d (ie_elements es)\<rparr>)"
  unfolding within_def elems_put(2) [OF assms(2,3)] using assms(1,4) by (auto simp: within_def split: if_splits)

lemma within_erase:
  assumes "within H es" "es_ok es"
  shows "within H (es\<lparr>ie_elements := amap_erase root (ie_elements es), ie_wholeObjects := w\<rparr>)"
  using assms amap_erase_at [of "ie_elements es" root] by (auto simp: within_def elems_def es_ok_def split: if_splits)

context expr_creation
begin

lemma add_read_within:
  assumes re: "wt H (ReadExpr root head index)" "plain (ReadExpr root head index)"
    and inside: "\<And>c. index = ConstantExpr c \<Longrightarrow> nat (ap_value c) < arr_size root"
    and es: "es_ok es" "within H es" and eq: "add_read (api G) (ReadExpr root head index) es = Some es'"
  shows "within H es'"
proof -
  consider "es' = es" | c where "index = ConstantExpr c" "arr_addr root \<notin> wholes es"
    | "es' = es\<lparr>ie_elements := amap_erase root (ie_elements es), ie_wholeObjects := aset_insert root (ie_wholeObjects es)\<rparr>"
    using eq by (auto simp: add_read_def wholes_def split: if_splits expr.splits)
  then show ?thesis
  proof cases
    case 1
    then show ?thesis using es(2) by simp
  next
    case (2 c)
    have root: "H (arr_addr root) = root" using re(1) by (simp add: array_ok_def)
    have c: "ap_ok c" "ap_width c \<le> 32" using re 2 by simp_all
    then obtain z where z: "getZExtValue (api G) c 32 = Some z" "unat (ucast z :: uint32) = nat (ap_value c)"
      using read_index_eq [OF c] by (auto simp: read_index_def getZExtValue_def)
    show ?thesis
    proof (cases "isConstantArray root \<and> head = NullNode")
      case True
      then show ?thesis using eq es(2) by (simp add: add_read_def)
    next
      case False
      let ?dis = "case amap_find root (ie_elements es) of None \<Rightarrow> [] | Some d \<Rightarrow> d"
      have es': "es' = es\<lparr>ie_elements := amap_put root (insort_insert (nat (ap_value c)) ?dis) (ie_elements es)\<rparr>"
        using eq False 2 z by (auto simp: add_read_def wholes_def Let_def)
      have "\<forall>i \<in> set ?dis. i < arr_size root"
        using es(2) [unfolded within_def, rule_format, of "arr_addr root"] root
        by (cases "amap_at (ie_elements es) (arr_addr root)") (simp_all add: elems_def amap_find_at)
      then have "\<forall>i \<in> set (insort_insert (nat (ap_value c)) ?dis). i < arr_size (H (arr_addr root))"
        using inside [OF 2(1)] root by (simp add: set_insort_insert)
      then show ?thesis unfolding es' by (rule within_put [OF es(2,1) 2(2)])
    qed
  next
    case 3
    then show ?thesis using within_erase [OF es(2,1)] by simp
  qed
qed

lemma add_reads_within:
  "\<forall>re \<in> set reads. wt H re \<and> plain re \<and> (\<exists>root head index. re = ReadExpr root head index) \<Longrightarrow>
    \<forall>root head c. ReadExpr root head (ConstantExpr c) \<in> set reads \<longrightarrow> nat (ap_value c) < arr_size root \<Longrightarrow>
    es_ok es \<Longrightarrow> es_arrays es \<subseteq> arrays_ok H \<Longrightarrow> within H es \<Longrightarrow> add_reads (api G) reads es = Some es' \<Longrightarrow> within H es'"
proof (induction reads arbitrary: es)
  case (Cons re reads)
  obtain root head index where re: "re = ReadExpr root head index" "wt H re" "plain re" using Cons.prems(1) by auto
  obtain es1 where e1: "add_read (api G) re es = Some es1" "add_reads (api G) reads es1 = Some es'"
    using Cons.prems(6) by (auto simp: bind_eq_Some_conv)
  have ok: "es_ok es1" "es_arrays es1 \<subseteq> arrays_ok H"
    using add_read_ok [OF re(2,3) [unfolded re(1)] Cons.prems(3,4)] e1(1) re(1) by auto
  have "within H es1"
  proof (rule add_read_within [OF re(2,3) [unfolded re(1)] _ Cons.prems(3,5) e1(1) [unfolded re(1)]])
    fix c assume "index = ConstantExpr c"
    then show "nat (ap_value c) < arr_size root" using Cons.prems(2) re(1) by auto
  qed
  then show ?case using Cons.IH [OF _ _ ok _ e1(2)] Cons.prems(1,2) by simp
qed simp

lemma IndependentElementSet_new_within:
  assumes "term_ok H e" "reads_inside e" "IndependentElementSet_new (api G) e = Some es"
  shows "within H es"
proof -
  have wt: "wt H e" "plain e" using assms(1) by (simp_all add: term_ok_def)
  have r: "set (findReads (api G) e True []) = read_nodes e" by (rule findReads_exact [OF wt(1)])
  show ?thesis
    by (rule add_reads_within [OF _ _ _ _ _ assms(3) [unfolded IndependentElementSet_new_def]])
      (use read_nodes_ok(1) [OF _ wt] assms(2) in
        \<open>auto simp: r reads_inside_def es_ok_def elems_def wholes_def es_arrays_def within_def\<close>)
qed

lemma new_factor:
  assumes "cond_ok H e" "reads_inside e" "IndependentElementSet_new (api G) e = Some es"
  shows "factor_ok H es" "ie_exprs es = [e]"
proof -
  have t: "term_ok H e" using assms(1) by (rule cond_ok_term)
  have "tracks_deps H e es" using IndependentElementSet_new_ok [OF t] assms(3) by auto
  then show "factor_ok H es" "ie_exprs es = [e]"
    using IndependentElementSet_new_within [OF t assms(2,3)] assms(1) by (auto simp: tracks_deps_def factor_ok_def)
qed

lemma new_factors:
  "\<forall>e \<in> set cs. cond_ok H e \<and> reads_inside e \<Longrightarrow>
    \<exists>ss. new_sets (api G) cs = Some ss \<and> (\<forall>f \<in> set ss. factor_ok H f) \<and> exprs_of ss = set cs"
proof (induction cs)
  case (Cons c cs)
  obtain es where es: "IndependentElementSet_new (api G) c = Some es"
    using IndependentElementSet_new_ok [of H c] Cons.prems by (auto simp: cond_ok_term)
  show ?case using Cons new_factor [OF _ _ es, of H] es by auto
qed simp

lemma getAll_ok:
  assumes q: "bool_query H q" "values_domain G H q" and neg: "createIsZero G (q_expr q) = Some neg" "cond_ok H neg"
  shows "\<exists>fs. getAllIndependentConstraintsSets G q = Some fs \<and> (\<forall>f \<in> set fs. factor_ok H f) \<and> sorted_wrt separate fs
    \<and> exprs_of fs = (if is_Constant (q_expr q) then {} else {neg}) \<union> set (q_constraints q)"
proof -
  have ins: "\<forall>e \<in> set (neg # q_constraints q). reads_inside e" using q(2) neg(1) unfolding values_domain_def by blast
  obtain ss where ss: "new_sets (api G) (q_constraints q) = Some ss" "\<forall>f \<in> set ss. factor_ok H f" "exprs_of ss = set (q_constraints q)"
    using new_factors [of "q_constraints q" H] q(1) ins by (auto simp: bool_query_def query_ok_def)
  obtain ns where ns: "IndependentElementSet_new (api G) neg = Some ns"
    using IndependentElementSet_new_ok [OF cond_ok_term [OF neg(2)]] by blast
  have nf: "factor_ok H ns" "ie_exprs ns = [neg]" using new_factor [OF neg(2) _ ns] ins by simp_all
  define first where "first = (if is_Constant (q_expr q) then [] else [ns])"
  have "getAllIndependentConstraintsSets G q = Some (factors_loop (first @ ss))"
    using q(2) neg(1) ns ss(1) by (cases "q_expr q") (auto simp: getAllIndependentConstraintsSets_def first_def values_domain_def is_Constant_def)
  moreover have "\<forall>f \<in> set (first @ ss). factor_ok H f" using ss(2) nf(1) by (auto simp: first_def)
  moreover have "exprs_of (first @ ss) = (if is_Constant (q_expr q) then {} else {neg}) \<union> set (q_constraints q)"
    using ss(3) nf(2) by (auto simp: first_def)
  ultimately show ?thesis using factors_loop_ok [of "first @ ss" H] by auto
qed

end

section \<open>The created point\<close>

lemma fold_bindings_insert:
  assumes "sorted_wrt (\<lambda>x y. arr_addr (fst x) < arr_addr (fst y)) bs"
  shows "bindings_find x (fold (\<lambda>(a, v). bindings_insert a v) m bs) =
    (case bindings_find x bs of Some v \<Rightarrow> Some v | None \<Rightarrow> amap_at m (arr_addr x))"
  using assms
proof (induction m arbitrary: bs)
  case (Cons y m)
  obtain a v where y: "y = (a, v)" by (cases y)
  have same: "bindings_find a bs = bindings_find x bs" if "arr_addr x = arr_addr a"
    using that by (induction bs) auto
  show ?case
    using Cons.IH [OF bindings_insert_sorted [OF Cons.prems]] bindings_find_insert [OF Cons.prems, of x a v] same
    unfolding y by (auto split: option.split)
qed (simp split: option.split)

lemma object_bytes_at: "object_bytes m x = (case amap_at m (arr_addr x) of None \<Rightarrow> replicate (arr_size x) 0 | Some v \<Rightarrow> v)"
  by (simp add: object_bytes_def amap_find_at)

lemma object_bytes_input:
  assumes "values_ok H m" "array_ok H x"
  shows "length (object_bytes m x) = arr_size x"
    "input_of m x i = (if i < arr_size x then uint (object_bytes m x ! i) else 0)"
  using assms array_at [OF assms(2)] by (auto simp: values_ok_def object_bytes_at input_of_def split: option.split)

lemma bytes_lookup:
  assumes "\<forall>x \<in> set objects. array_ok H x" "array_ok H x"
  shows "map_of (zip (map arr_addr objects) (map f objects)) (arr_addr x) = (if x \<in> set objects then Some (f x) else None)"
proof (cases "x \<in> set objects")
  case True
  then show ?thesis using object_lookup [OF assms(1)] by simp
next
  case False
  have "arr_addr x \<notin> arr_addr ` set objects"
  proof
    assume "arr_addr x \<in> arr_addr ` set objects"
    then obtain y where "y \<in> set objects" "arr_addr x = arr_addr y" by blast
    then show False using False array_at [OF assms(2)] assms(1) array_at [of H y] by metis
  qed
  then have "arr_addr x \<notin> fst ` set (zip (map arr_addr objects) (map f objects))"
    by (auto dest: set_zip_leftD)
  then show ?thesis using False by (simp add: map_of_eq_None_iff)
qed

text \<open>The bindings of the point: the bytes of the map, and zeros for the other objects.\<close>

definition point_of :: "array list \<Rightarrow> (array \<times> 8 word list) list \<Rightarrow> Assignment \<Rightarrow> bool" where
  "point_of objects m a \<longleftrightarrow> (\<forall>x. bindings_find x (bindings a) =
     (case map_of (zip (map arr_addr objects) (map (object_bytes m) objects)) (arr_addr x) of
        Some v \<Rightarrow> Some v | None \<Rightarrow> amap_at m (arr_addr x)))"

lemma point_value:
  assumes m: "values_ok H m" and os: "\<forall>x \<in> set objects. array_ok H x" and a: "point_of objects m a" and x: "array_ok H x"
  shows "assignment_of a x = input_of m x"
    "arr_addr x \<in> dom (amap_at m) \<Longrightarrow> i < arr_size x \<Longrightarrow> bound_byte a x i"
proof -
  have find: "bindings_find x (bindings a) = (if x \<in> set objects then Some (object_bytes m x) else amap_at m (arr_addr x))"
    using a bytes_lookup [OF os x, of "object_bytes m"] by (simp add: point_of_def)
  note ob = object_bytes_input [OF m x]
  show "assignment_of a x = input_of m x"
  proof
    fix i
    show "assignment_of a x i = input_of m x i"
      using find ob by (cases "x \<in> set objects") (simp_all add: assignment_of_def input_of_def split: option.split)
  qed
  show "bound_byte a x i" if "arr_addr x \<in> dom (amap_at m)" "i < arr_size x"
    using find ob(1) that by (auto simp: bound_byte_def object_bytes_at split: option.splits)
qed

text \<open>Reads inside the arrays that an expression depends on are at bound bytes.\<close>

lemma reads_bound:
  assumes same: "\<And>x. array_ok H x \<Longrightarrow> \<rho> x = \<rho>' x" and r: "\<rho> \<in> inputs H" "\<rho>' \<in> inputs H"
  shows "wt H e \<Longrightarrow> reads_at (\<lambda>a i. i < arr_size a) \<rho> e \<Longrightarrow>
      \<forall>x i. array_ok H x \<longrightarrow> arr_addr x \<in> fst ` deps e \<longrightarrow> i < arr_size x \<longrightarrow> C x i \<Longrightarrow> reads_at C \<rho>' e"
    and "array_ok H root \<Longrightarrow> wt_unode H root u \<Longrightarrow> reads_at_unode (\<lambda>a i. i < arr_size a) \<rho> u \<Longrightarrow>
      \<forall>x i. array_ok H x \<longrightarrow> arr_addr x \<in> fst ` deps_unode u \<longrightarrow> i < arr_size x \<longrightarrow> C x i \<Longrightarrow> reads_at_unode C \<rho>' u"
proof (induction e and u arbitrary: and root)
  case (ReadExpr root head index)
  have wt: "array_ok H root" "wt_unode H root head" "wt H index" using ReadExpr.prems(1) by simp_all
  have "agree_on H (deps index) \<rho> \<rho>'" using same by (simp add: agree_on_def)
  then have i: "sem \<rho> index = sem \<rho>' index" by (rule sem_same_deps(1) [OF r wt(3)])
  let ?i = "nat (ap_value (sem \<rho>' index))"
  have rest: "reads_at C \<rho>' index" "reads_at_unode C \<rho>' head"
    using ReadExpr.IH(2) [OF wt(3)] ReadExpr.IH(1) [OF wt(1,2)] ReadExpr.prems(2,3) by (simp_all add: image_Un Let_def)
  have "isConstantArray root \<and> ?i < arr_size root \<or> ?i < arr_size root" using ReadExpr.prems(2) i by (simp add: Let_def)
  moreover have "C root ?i" if "\<not> (isConstantArray root \<and> head = NullNode)" "?i < arr_size root"
  proof -
    have "(arr_addr root, ?i) \<in> deps (ReadExpr root head index)" using read_index_deps [of root head \<rho>' index] that(1) by auto
    then have "arr_addr root \<in> fst ` deps (ReadExpr root head index)" by force
    then show ?thesis using ReadExpr.prems(3) wt(1) that(2) by blast
  qed
  ultimately show ?case using rest by (auto simp: Let_def)
qed (auto simp: image_Un)

context expr_creation
begin

lemma point_evaluates:
  assumes m: "values_ok H m" and os: "\<forall>x \<in> set objects. array_ok H x" and a: "point_of objects m a"
    and e: "term_ok H e" "fst ` deps e \<subseteq> dom (amap_at m)" "reads_at (\<lambda>a i. i < arr_size a) (input_of m) e"
  shows "Assignment_evaluate G a e = Some (ConstantExpr (sem (input_of m) e))"
proof -
  have same: "input_of m x = assignment_of a x" if "array_ok H x" for x using point_value(1) [OF m os a that] by simp
  have i: "input_of m \<in> inputs H" by (rule input_of_inputs [OF m])
  then have i': "assignment_of a \<in> inputs H" using same by (auto simp: inputs_def)
  have wt: "wt H e" "plain e" using e(1) by (simp_all add: term_ok_def)
  have "agree_on H (deps e) (input_of m) (assignment_of a)" using same by (simp add: agree_on_def)
  then have v: "sem (input_of m) e = sem (assignment_of a) e" by (rule sem_same_deps(1) [OF i i' wt(1)])
  have "reads_at (bound_byte a) (assignment_of a) e"
  proof (rule reads_bound(1) [OF _ i i' wt(1) e(3)])
    show "input_of m x = assignment_of a x" if "array_ok H x" for x by (rule same [OF that])
    show "\<forall>x i. array_ok H x \<longrightarrow> arr_addr x \<in> fst ` deps e \<longrightarrow> i < arr_size x \<longrightarrow> bound_byte a x i"
    proof (intro allI impI)
    fix x i
    assume x: "array_ok H x" "arr_addr x \<in> fst ` deps e" "i < arr_size x"
    then have "arr_addr x \<in> dom (amap_at m)" using e(2) by blast
    then show "bound_byte a x i" by (rule point_value(2) [OF m os a x(1) _ x(3)])
    qed
  qed
  then show ?thesis unfolding v
    by (intro Assignment_evaluate_bound [OF wt(1)]) (simp_all add: plain_evaluable(1) [OF wt(2)] plain_folds(1) [OF wt(2)])
qed

lemma point_constraints_true:
  "\<forall>c \<in> set cs. Assignment_evaluate G a c = Some (ConstantExpr (bv_bool True)) \<Longrightarrow> point_constraints G a cs = Some True"
  by (induction cs) simp_all

lemma created_point:
  assumes m: "values_ok H m" and os: "\<forall>x \<in> set objects. array_ok H x"
    and neg: "createIsZero G (q_expr q) = Some neg" "cond_ok H neg" and cs: "\<forall>c \<in> set (q_constraints q). cond_ok H c"
    and model: "input_of m \<in> models H (neg # q_constraints q)"
    and reads: "\<forall>e \<in> set (neg # q_constraints q). fst ` deps e \<subseteq> dom (amap_at m) \<and> reads_at (\<lambda>a i. i < arr_size a) (input_of m) e"
  shows "assertCreatedPointEvaluatesToTrue G q objects (map (object_bytes m) objects) m = Some True"
proof -
  obtain b where b: "Assignment_new objects (map (object_bytes m) objects) True = Some b"
    using Assignment_new_Some [of objects "map (object_bytes m) objects"] by auto
  let ?a = "b\<lparr>bindings := fold (\<lambda>(a, v). bindings_insert a v) m (bindings b)\<rparr>"
  have srt: "sorted_wrt (\<lambda>x y. arr_addr (fst x) < arr_addr (fst y)) (bindings b)"
    using b Assignment_new_loop_find [of objects "map (object_bytes m) objects" "[]"] by (auto simp: Assignment_new_def)
  have a: "point_of objects m ?a"
    using fold_bindings_insert [OF srt, of _ m] Assignment_new_lookup [OF b] by (simp add: point_of_def)
  have ev: "Assignment_evaluate G ?a e = Some (ConstantExpr (bv_bool True))" if e: "e \<in> set (neg # q_constraints q)" for e
  proof -
    have "cond_ok H e" "true_in (input_of m) e" using e neg(2) cs model by (auto simp: models_def)
    then have t: "term_ok H e" "sem (input_of m) e = bv_bool True" by (simp_all add: cond_ok_term cond_value)
    have "fst ` deps e \<subseteq> dom (amap_at m)" "reads_at (\<lambda>a i. i < arr_size a) (input_of m) e" using reads e by blast+
    from point_evaluates [OF m os a t(1) this] show ?thesis unfolding t(2) .
  qed
  have "point_constraints G ?a (q_constraints q) = Some True" by (rule point_constraints_true) (simp add: ev)
  then show ?thesis using b neg(1) ev [of neg] by (simp add: assertCreatedPointEvaluatesToTrue_def)
qed

end

section \<open>The contract\<close>

interpretation no_bytes: hereditary "\<lambda>e. deps e = {}"
  by unfold_locales auto

lemma deps_keys: "deps e \<subseteq> locs f \<Longrightarrow> fst ` deps e \<subseteq> es_keys f"
  using locs_keys by force

context expr_creation
begin

text \<open>The values of solved factors make a point that satisfies the query.\<close>

lemma solved_model:
  assumes q: "bool_query H q" "values_domain G H q" and neg: "createIsZero G (q_expr q) = Some neg" "cond_ok H neg"
    "\<And>\<rho>. true_in \<rho> neg = (\<not> true_in \<rho> (q_expr q))"
    and fs: "\<forall>f \<in> set fs. factor_ok H f" "exprs_of fs = (if is_Constant (q_expr q) then {} else {neg}) \<union> set (q_constraints q)"
    and m: "factors_solved H fs m"
  shows "input_of m \<in> models H (neg # q_constraints q)"
    "\<forall>e \<in> set (neg # q_constraints q). fst ` deps e \<subseteq> dom (amap_at m)"
proof -
  have mo: "values_ok H m" "dom (amap_at m) = (\<Union>f \<in> set fs. es_keys f)" "\<forall>f \<in> set fs. solved H m f"
    using m by (simp_all add: factors_solved_def)
  have i: "input_of m \<in> inputs H" by (rule input_of_inputs [OF mo(1)])
  have some: "\<exists>\<rho> \<in> inputs H. true_in \<rho> e" if "e \<in> exprs_of fs" "deps e = {}" for e
  proof (cases "e \<in> set (q_constraints q)")
    case True
    then show ?thesis using q(2) by (auto simp: values_domain_def satisfiable_def models_def)
  next
    case False
    then have "e = neg" using that(1) fs(2) by (auto split: if_splits)
    then show ?thesis using q(2) neg(1) that(2) unfolding values_domain_def by blast
  qed
  have all: "true_in (input_of m) e \<and> fst ` deps e \<subseteq> dom (amap_at m)" if e: "e \<in> exprs_of fs" for e
  proof -
    obtain f where f: "f \<in> set fs" "e \<in> set (ie_exprs f)" using e by (auto simp: exprs_of_def)
    have fe: "wt H e" "deps e \<subseteq> locs f" using fs(1) f by (auto simp: factor_ok_def cond_ok_def)
    have "\<exists>\<rho> \<in> inputs H. true_in \<rho> e \<and> agree_on H (deps e) (input_of m) \<rho>"
    proof (cases "es_keys f = {}")
      case True
      then have "deps e = {}" using deps_keys [OF fe(2)] by auto
      then show ?thesis using some [OF e] by (auto simp: agree_on_def)
    next
      case False
      then obtain \<rho> where r: "\<rho> \<in> models H (ie_exprs f)" "agree_on H (locs f) (input_of m) \<rho>"
        using mo(3) f(1) by (auto simp: solved_def)
      have "agree_on H (deps e) (input_of m) \<rho>" using r(2) fe(2) unfolding agree_on_def by blast
      then show ?thesis using r(1) f(2) by (auto simp: models_def)
    qed
    then obtain \<rho> where r: "\<rho> \<in> inputs H" "true_in \<rho> e" "agree_on H (deps e) (input_of m) \<rho>" by blast
    have "true_in (input_of m) e" using sem_same_deps(1) [OF i r(1) fe(1) r(3)] r(2) by (simp add: true_in_def)
    moreover have "fst ` deps e \<subseteq> dom (amap_at m)" using deps_keys [OF fe(2)] f(1) mo(2) by blast
    ultimately show ?thesis by blast
  qed
  have "true_in (input_of m) neg" 
  proof (cases "is_Constant (q_expr q)")
    case True
    then have "q_expr q = ConstantExpr (bv_bool False)" using q(2) by (auto simp: values_domain_def is_Constant_def split: expr.splits)
    then show ?thesis unfolding neg(3) by simp
  next
    case False
    then show ?thesis using all fs(2) by simp
  qed
  then show "input_of m \<in> models H (neg # q_constraints q)" using all fs(2) i by (auto simp: models_def)
  have "fst ` deps neg \<subseteq> dom (amap_at m)"
  proof (cases "is_Constant (q_expr q)")
    case True
    then have "deps (q_expr q) = {}" by (auto simp: is_Constant_def split: expr.splits)
    then have "deps neg = {}" by (rule no_bytes.createIsZero_keeps [OF neg(1) no_const_array_opt])
    then show ?thesis by simp
  next
    case False
    then have "neg \<in> exprs_of fs" using fs(2) by simp
    from all [OF this] show ?thesis by blast
  qed
  moreover have "fst ` deps e \<subseteq> dom (amap_at m)" if "e \<in> set (q_constraints q)" for e
    using all [of e] that fs(2) by (simp split: if_splits)
  ultimately show "\<forall>e \<in> set (neg # q_constraints q). fst ` deps e \<subseteq> dom (amap_at m)" by simp
qed

end

lemma object_values:
  assumes m: "values_ok H m" and os: "\<forall>x \<in> set objects. array_ok H x"
  shows "\<exists>b. values_of H objects (map (object_bytes m) objects) b \<and> (\<forall>x \<in> set objects. assignment_of b x = input_of m x)"
proof -
  obtain b where b: "Assignment_new objects (map (object_bytes m) objects) False = Some b"
    using Assignment_new_Some [of objects "map (object_bytes m) objects"] by auto
  have ob: "length (object_bytes m x) = arr_size x"
      "input_of m x i = (if i < arr_size x then uint (object_bytes m x ! i) else 0)" if "x \<in> set objects" for x i
    using object_bytes_input [OF m] os that by simp_all
  have "values_of H objects (map (object_bytes m) objects) b"
    using b ob(1) os by (simp add: values_of_def list_all2_conv_all_nth)
  moreover have "assignment_of b x = input_of m x" if x: "x \<in> set objects" for x
  proof
    fix i
    have "bindings_find x (bindings b) = Some (object_bytes m x)"
      using Assignment_new_lookup [OF b, of x] bytes_lookup [OF os, of x "object_bytes m"] os x by simp
    then show "assignment_of b x i = input_of m x i" using ob [OF x] by (simp add: assignment_of_def)
  qed
  ultimately show ?thesis by blast
qed

context solver_contract
begin

lemma Independent_initial:
  assumes D: "\<And>q. D q" and q: "bool_query H q" "values_domain G H q" and cov: "covers H objects q"
    and os: "\<forall>x \<in> set objects. array_ok H x" and out: "vo_values out = []" and s: "I s"
  shows "\<exists>ok out' s'. Independent_computeInitialValues G S q objects out s = Some ((ok, out'), s') \<and> I s' \<and>
    (ok \<longrightarrow> initial_right H q objects out')"
proof -
  have c: "cond_ok H (q_expr q)" "\<forall>c \<in> set (q_constraints q). cond_ok H c"
    using q(1) bool_query_cond by (auto simp: bool_query_def query_ok_def)
  obtain neg where neg: "createIsZero G (q_expr q) = Some neg" "cond_ok H neg" "\<And>\<rho>. true_in \<rho> neg = (\<not> true_in \<rho> (q_expr q))"
    using negate_cond [OF c(1)] by blast
  obtain fs where fs: "getAllIndependentConstraintsSets G q = Some fs" "\<forall>f \<in> set fs. factor_ok H f" "sorted_wrt separate fs"
      "exprs_of fs = (if is_Constant (q_expr q) then {} else {neg}) \<union> set (q_constraints q)"
    using getAll_ok [OF q neg(1,2)] by blast
  obtain r s' where r: "factors_values G S fs [] (Some True) s = Some (r, s')" "I s'" "loop_right H fs r"
    using factors_values_ok [OF D factors_solved_none, of fs s] fs(2,3) s by auto
  show ?thesis
  proof (cases r)
    case (Inl x)
    obtain ok h where x: "x = (ok, h)" by (cases x)
    have eq: "Independent_computeInitialValues G S q objects out s = Some ((ok, \<lparr>vo_values = [], vo_hasSolution = h\<rparr>), s')"
      using fs(1) r(1) Inl x by (simp add: Independent_computeInitialValues_def)
    have "initial_right H q objects \<lparr>vo_values = [], vo_hasSolution = h\<rparr>" if k: ok
    proof -
      obtain f where f: "h = Some False" "f \<in> set fs" "models H (ie_exprs f) = {}"
        using r(3) k unfolding Inl x loop_right_def by auto
      have sub: "set (ie_exprs f) \<subseteq> insert neg (set (q_constraints q))" using fs(4) f(2) by (auto simp: exprs_of_def split: if_splits)
      have "true_in \<rho> (q_expr q)" if \<rho>: "\<rho> \<in> models H (q_constraints q)" for \<rho>
      proof (rule ccontr)
        assume "\<not> true_in \<rho> (q_expr q)"
        then have "\<rho> \<in> models H (ie_exprs f)" using \<rho> neg(3) sub by (auto simp: models_def)
        then show False using f(3) by blast
      qed
      then show ?thesis using f(1) by (simp add: initial_right_def valid_def)
    qed
    then show ?thesis using eq r(2) by blast
  next
    case (Inr x)
    obtain m h where x: "x = (m, h)" by (cases x)
    have m: "h = Some True" "factors_solved H fs m" using r(3) unfolding Inr x loop_right_def by simp_all
    then have mv: "values_ok H m" by (simp add: factors_solved_def)
    note model = solved_model [OF q neg fs(2,4) m(2)]
    have "\<forall>e \<in> set (neg # q_constraints q). reads_at (\<lambda>a i. i < arr_size a) (input_of m) e"
      using q(2) neg(1) model(1) unfolding values_domain_def by blast
    then have "assertCreatedPointEvaluatesToTrue G q objects (map (object_bytes m) objects) m = Some True"
      using created_point [OF mv os neg(1,2) c(2) model(1)] model(2) by blast
    then have eq: "Independent_computeInitialValues G S q objects out s =
        Some ((True, \<lparr>vo_values = map (object_bytes m) objects, vo_hasSolution = Some True\<rparr>), s')"
      using fs(1) r(1) Inr x m(1) out by (simp add: Independent_computeInitialValues_def Let_def)
    obtain b where b: "values_of H objects (map (object_bytes m) objects) b" "\<forall>x \<in> set objects. assignment_of b x = input_of m x"
      using object_values [OF mv os] by blast
    have same: "true_in (assignment_of b) e = true_in (input_of m) e" if "e \<in> set (q_expr q # q_constraints q)" for e
      using cov that values_of_inputs(1) [OF b(1)] input_of_inputs [OF mv] b(2) unfolding covers_def by blast
    have "assignment_of b \<in> models H (q_constraints q) \<and> \<not> true_in (assignment_of b) (q_expr q)"
      using model(1) same neg(3) values_of_inputs(1) [OF b(1)] by (simp add: models_def)
    then have "initial_right H q objects \<lparr>vo_values = map (object_bytes m) objects, vo_hasSolution = Some True\<rparr>"
      using b(1) by (auto simp: initial_right_def)
    then show ?thesis using eq r(2) by blast
  qed
qed

lemma IndependentSolver_contract:
  assumes D: "\<And>q. D q"
  shows "solver_contract G H (values_domain G H) I (IndependentSolver G S)"
proof (intro solver_contract.intro solver_contract_axioms.intro, goal_cases)
  case 1
  show ?case by (rule expr_creation_axioms)
next
  case (2 q s)
  then show ?case using Independent_truth [OF 2] by (simp add: IndependentSolver_def)
next
  case (3 q s)
  then show ?case using Independent_validity [OF 3] by (simp add: IndependentSolver_def)
next
  case (4 q s)
  then show ?case using Independent_value [OF 4] by (simp add: IndependentSolver_def)
next
  case (5 q objects out s)
  then show ?case using Independent_initial [OF D 5] by (simp add: IndependentSolver_def)
next
  case (6 s t)
  then show ?case using timeout by (simp add: IndependentSolver_def)
qed

end

end
