(* ===== verification/SolverClass.thy ===== *)
theory SolverClass
  imports SolverContract
begin

text \<open>
  The class \<open>Solver\<close> over an implementation that keeps the contract: its answers are right, and
  \<open>getRange\<close> finds the least and the greatest value of an expression.
\<close>

section \<open>The questions of the class\<close>

context solver_contract
begin

lemma truth_query:
  assumes "bool_query H q" "satisfiable H q" "I s"
  obtains r s' where "si_computeTruth S q s = Some (r, s')" "I s'" "\<And>b. r = Some b \<Longrightarrow> b = valid H q"
  using truth [OF assms] by blast

lemma const_query:
  assumes "bool_query H q" "q_expr q = ConstantExpr c"
  shows "ConstantExpr_isTrue (api G) c = (c = bv_bool True)" "c = bv_bool True \<or> c = bv_bool False"
proof -
  have c: "ap_ok c" "ap_width c = 1" using assms by (simp_all add: bool_query_def query_ok_def term_ok_def)
  show "ConstantExpr_isTrue (api G) c = (c = bv_bool True)" by (rule isTrue_iff [OF c(1)])
  show "c = bv_bool True \<or> c = bv_bool False" by (rule ap_bool_cases [OF c]) simp_all
qed

lemma const_valid:
  assumes "bool_query H q" "q_expr q = ConstantExpr c"
  shows "satisfiable H q \<Longrightarrow> valid H q = (c = bv_bool True)" "refuted H q = (c = bv_bool False \<or> \<not> satisfiable H q)"
  using const_query(2) [OF assms] assms(2) by (auto simp: satisfiable_def valid_def refuted_def true_in_def)

lemma mustBeTrue_right:
  assumes "bool_query H q" "satisfiable H q" "I s"
  shows "\<exists>r s'. Solver_mustBeTrue G S q s = Some (r, s') \<and> I s' \<and> (\<forall>b. r = Some b \<longrightarrow> b = valid H q)"
proof (cases "is_Constant (q_expr q)")
  case True
  then obtain c where c: "q_expr q = ConstantExpr c" by (auto simp: is_Constant_def split: expr.splits)
  then show ?thesis using assms const_query(1) [OF assms(1) c] const_valid(1) [OF assms(1) c] by (simp add: Solver_mustBeTrue_def bool_query_def)
next
  case False
  then have "Solver_mustBeTrue G S q s = si_computeTruth S q s"
    using assms(1) by (simp add: Solver_mustBeTrue_def bool_query_def is_Constant_def split: expr.splits)
  then show ?thesis using truth [OF assms] by simp
qed

lemma evaluate_right:
  assumes "bool_query H q" "satisfiable H q" "I s"
  shows "\<exists>r s'. Solver_evaluate G S q s = Some (r, s') \<and> I s' \<and> (\<forall>v. r = Some v \<longrightarrow> validity_right H q v)"
proof (cases "is_Constant (q_expr q)")
  case True
  then obtain c where c: "q_expr q = ConstantExpr c" by (auto simp: is_Constant_def split: expr.splits)
  have "validity_right H q (if c = bv_bool True then VTrue else VFalse)"
    using const_query(2) [OF assms(1) c] const_valid [OF assms(1) c] assms(2) by (auto simp: validity_right_def)
  then show ?thesis using assms const_query(1) [OF assms(1) c] c by (simp add: Solver_evaluate_def bool_query_def)
next
  case False
  then have "Solver_evaluate G S q s = si_computeValidity S q s"
    using assms(1) by (simp add: Solver_evaluate_def bool_query_def is_Constant_def split: expr.splits)
  then show ?thesis using validity [OF assms] by simp
qed

lemma mustBeFalse_right:
  assumes "bool_query H q" "satisfiable H q" "I s"
  shows "\<exists>r s'. Solver_mustBeFalse G S q s = Some (r, s') \<and> I s' \<and> (\<forall>b. r = Some b \<longrightarrow> b = refuted H q)"
proof -
  obtain n where n: "negateExpr G q = Some n" "bool_query H n" "satisfiable H n = satisfiable H q" "valid H n = refuted H q"
    using negate_query [OF assms(1)] by blast
  then show ?thesis using mustBeTrue_right [OF n(2) _ assms(3)] assms(2) by (simp add: Solver_mustBeFalse_def)
qed

lemma mayBeTrue_right:
  assumes "bool_query H q" "satisfiable H q" "I s"
  shows "\<exists>r s'. Solver_mayBeTrue G S q s = Some (r, s') \<and> I s' \<and> (\<forall>b. r = Some b \<longrightarrow> b = (\<not> refuted H q))"
proof -
  obtain r s' where "Solver_mustBeFalse G S q s = Some (r, s')" "I s'" "\<And>b. r = Some b \<Longrightarrow> b = refuted H q"
    using mustBeFalse_right [OF assms] by blast
  then show ?thesis by (cases r) (simp_all add: Solver_mayBeTrue_def)
qed

lemma mayBeFalse_right:
  assumes "bool_query H q" "satisfiable H q" "I s"
  shows "\<exists>r s'. Solver_mayBeFalse G S q s = Some (r, s') \<and> I s' \<and> (\<forall>b. r = Some b \<longrightarrow> b = (\<not> valid H q))"
proof -
  obtain r s' where "Solver_mustBeTrue G S q s = Some (r, s')" "I s'" "\<And>b. r = Some b \<Longrightarrow> b = valid H q"
    using mustBeTrue_right [OF assms] by blast
  then show ?thesis by (cases r) (simp_all add: Solver_mayBeFalse_def)
qed

lemma getValue_right:
  assumes "query_ok H q" "satisfiable H q" "I s"
  shows "\<exists>r s'. Solver_getValue S q s = Some (r, s') \<and> I s' \<and>
    (\<forall>c. r = Some c \<longrightarrow> (\<exists>\<rho> \<in> models H (q_constraints q). c = sem \<rho> (q_expr q)))"
proof (cases "is_Constant (q_expr q)")
  case True
  then obtain c where c: "q_expr q = ConstantExpr c" by (auto simp: is_Constant_def split: expr.splits)
  then show ?thesis using assms(2,3) by (auto simp: Solver_getValue_def satisfiable_def)
next
  case False
  obtain r s' where v: "si_computeValue S q s = Some (r, s')" "I s'"
      "\<forall>e. r = Some e \<longrightarrow> (\<exists>\<rho> \<in> models H (q_constraints q). e = ConstantExpr (sem \<rho> (q_expr q)))"
    using val [OF assms] by blast
  then show ?thesis
    using False by (cases r; cases "q_expr q") (auto simp: Solver_getValue_def is_Constant_def)
qed

lemma getInitialValues_right:
  assumes "bool_query H q" "D q" "covers H objects q" "\<forall>x \<in> set objects. array_ok H x" "I s"
  shows "\<exists>ok vs s'. Solver_getInitialValues S q objects [] s = Some ((ok, vs), s') \<and> I s' \<and>
    (ok \<longrightarrow> (\<exists>a. values_of H objects vs a \<and> assignment_of a \<in> models H (q_constraints q)
        \<and> \<not> true_in (assignment_of a) (q_expr q)))"
proof -
  obtain ok out s' where v: "si_computeInitialValues S q objects \<lparr>vo_values = [], vo_hasSolution = None\<rparr> s = Some ((ok, out), s')"
      "I s'" "ok \<longrightarrow> initial_right H q objects out"
    using initial [OF assms(1-4) _ assms(5), of "\<lparr>vo_values = [], vo_hasSolution = None\<rparr>"] by auto
  show ?thesis
  proof (cases "vo_hasSolution out")
    case None
    then have "\<not> ok" using v(3) by (auto simp: initial_right_def)
    then show ?thesis using None v(1,2)
      by (intro exI [of _ False] exI [of _ "vo_values out"] exI [of _ s']) (simp add: Solver_getInitialValues_def)
  next
    case (Some b)
    then show ?thesis using v by (cases b) (auto simp: Solver_getInitialValues_def initial_right_def)
  qed
qed

end

section \<open>getRange\<close>

text \<open>
  The binary search finds the least value at which a property holds, when the property is
  upward closed and holds at the upper end.
\<close>

lemma range_search_least:
  "(\<And>m s. I s \<Longrightarrow> m < ub \<Longrightarrow> \<exists>s'. ask m s = Some (Some (P m), s') \<and> I s') \<Longrightarrow>
    (\<And>x y. x \<le> y \<Longrightarrow> P x \<Longrightarrow> P y) \<Longrightarrow>
    I s \<Longrightarrow> lo \<le> hi \<Longrightarrow> hi \<le> ub \<Longrightarrow> P hi \<Longrightarrow> (\<And>x. x < lo \<Longrightarrow> \<not> P x) \<Longrightarrow>
    \<exists>m s'. range_search ask lo hi s = Some (m, s') \<and> I s' \<and> lo \<le> m \<and> m \<le> hi \<and> P m \<and> (\<forall>x < m. \<not> P x)"
proof (induction ask lo hi s rule: range_search.induct)
  case (1 ask lo hi s)
  show ?case
  proof (cases "lo < hi")
    case False
    then have "lo = hi" using "1.prems"(4) by simp
    then show ?thesis using "1.prems" by (subst range_search.simps) simp
  next
    case True
    define mid where "mid = lo + (hi - lo) div 2"
    have mid: "lo \<le> mid" "mid < hi" using mid_bounds [OF True] by (simp_all add: mid_def)
    obtain s1 where s1: "ask mid s = Some (Some (P mid), s1)" "I s1"
      using "1.prems"(1) [OF "1.prems"(3), of mid] mid(2) "1.prems"(5) less_le_trans by blast
    show ?thesis
    proof (cases "P mid")
      case True
      have eq: "range_search ask lo hi s = range_search ask lo mid s1"
        by (subst range_search.simps) (simp add: \<open>lo < hi\<close> mid_def [symmetric] Let_def s1 True)
      have "mid \<le> ub" using mid "1.prems"(5) by simp
      have "\<exists>m s'. range_search ask lo mid s1 = Some (m, s') \<and> I s' \<and> lo \<le> m \<and> m \<le> mid \<and> P m \<and> (\<forall>x < m. \<not> P x)"
        by (rule "1.IH"(1) [OF \<open>lo < hi\<close> mid_def s1(1) refl])
          (rule refl, simp add: True, fact "1.prems"(1), fact "1.prems"(2), fact s1(2), fact mid(1), fact, fact, fact "1.prems"(7))
      then show ?thesis using eq mid by fastforce
    next
      case False
      have eq: "range_search ask lo hi s = range_search ask (mid + 1) hi s1"
        by (subst range_search.simps) (simp add: \<open>lo < hi\<close> mid_def [symmetric] Let_def s1 False)
      have up: "mid + 1 \<le> hi" "lo \<le> mid + 1" and below: "\<And>x. x < mid + 1 \<Longrightarrow> x \<le> mid"
        using mid_bounds [OF \<open>lo < hi\<close>] by (auto simp: mid_def [symmetric] word_le_def word_less_alt)
      have "\<exists>m s'. range_search ask (mid + 1) hi s1 = Some (m, s') \<and> I s' \<and> mid + 1 \<le> m \<and> m \<le> hi \<and> P m \<and> (\<forall>x < m. \<not> P x)"
        by (rule "1.IH"(2) [OF \<open>lo < hi\<close> mid_def s1(1) refl])
          (rule refl, simp add: False, fact "1.prems"(1), fact "1.prems"(2), fact s1(2), fact up(1), fact "1.prems"(5), fact "1.prems"(6),
            use "1.prems"(2) below False in blast)
      then show ?thesis using eq up(2) by fastforce
    qed
  qed
qed

text \<open>A solver that answers every question about truth.\<close>

definition always_answers :: "(nat \<Rightarrow> array) \<Rightarrow> ('s \<Rightarrow> bool) \<Rightarrow> 's solver_impl \<Rightarrow> bool" where
  "always_answers H I S \<longleftrightarrow> (\<forall>q s. bool_query H q \<longrightarrow> satisfiable H q \<longrightarrow> I s \<longrightarrow>
     (\<exists>b s'. si_computeTruth S q s = Some (Some b, s')) \<and> (\<exists>v s'. si_computeValidity S q s = Some (Some v, s')))"

text \<open>The value of an expression as a machine word.\<close>

definition word_value :: "expr \<Rightarrow> assignment \<Rightarrow> uint64" where
  "word_value e \<rho> = word_of_int (ap_value (sem \<rho> e))"

lemma word_value_uint:
  assumes "wt H e" "getWidth e \<le> 64"
  shows "uint (word_value e \<rho>) = ap_value (sem \<rho> e)" "ap_value (sem \<rho> e) < 2 ^ getWidth e" "0 \<le> ap_value (sem \<rho> e)"
proof -
  have ok: "ap_ok (sem \<rho> e)" "ap_width (sem \<rho> e) = getWidth e" using assms(1) by auto
  show b: "ap_value (sem \<rho> e) < 2 ^ getWidth e" "0 \<le> ap_value (sem \<rho> e)"
    using ap_value_bounds [OF ok(1)] ok(2) by auto
  have "(2 :: int) ^ getWidth e \<le> 2 ^ 64" using assms(2) by (intro power_increasing) simp_all
  then show "uint (word_value e \<rho>) = ap_value (sem \<rho> e)"
    using b by (simp add: word_value_def uint_word_of_int take_bit_int_eq_self)
qed

lemma shifted_out:
  fixes v :: int
  assumes "0 \<le> v" "v < 2 ^ w"
  shows "take_bit w (drop_bit m v) = 0 \<longleftrightarrow> v < 2 ^ m"
proof -
  have "v div 2 ^ m \<le> v div 1" using assms(1) by (intro zdiv_mono2) simp_all
  then have "take_bit w (drop_bit m v) = v div 2 ^ m"
    using assms by (simp add: drop_bit_eq_div take_bit_int_eq_self pos_imp_zdiv_nonneg_iff)
  then show ?thesis using assms(1) by (cases "v = 0") (simp_all add: zdiv_eq_0_iff)
qed

lemma word_less_pow_uint: "uint (m :: uint64) < 2 ^ w \<Longrightarrow> take_bit w m = m"
  by (rule word_uint_eqI) (simp add: unsigned_take_bit_eq take_bit_int_eq_self)

context solver_contract
begin

lemma const_expr_ok:
  assumes "0 < w" "w \<le> 64" "uint m < 2 ^ w"
  shows "const_expr G m w = Some (ConstantExpr (APInt w (uint m)))" "term_ok H (ConstantExpr (APInt w (uint m)))"
    "ConstantExpr_create (api G) m w = Some (APInt w (uint m))"
proof -
  have "take_bit w (uint m) = uint m" using assms(3) by (simp add: take_bit_int_eq_self)
  then show c: "ConstantExpr_create (api G) m w = Some (APInt w (uint m))"
    using assms word_less_pow_uint [OF assms(3)] by (simp add: ConstantExpr_create_def mk_ap_def)
  then show "const_expr G m w = Some (ConstantExpr (APInt w (uint m)))" by (simp add: const_expr_def)
  show "term_ok H (ConstantExpr (APInt w (uint m)))" using assms by (simp add: term_ok_def ap_ok_def take_bit_int_eq_self)
qed

lemma mustBeTrue_answers:
  assumes "always_answers H I S" "bool_query H q" "satisfiable H q" "I s"
  shows "\<exists>s'. Solver_mustBeTrue G S q s = Some (Some (valid H q), s') \<and> I s'"
proof -
  obtain r s' where r: "Solver_mustBeTrue G S q s = Some (r, s')" "I s'" "\<And>b. r = Some b \<Longrightarrow> b = valid H q"
    using mustBeTrue_right [OF assms(2-4)] by blast
  have "r \<noteq> None"
  proof -
    obtain b s1 where "si_computeTruth S q s = Some (Some b, s1)" using assms unfolding always_answers_def by blast
    then show ?thesis using r(1) assms(2) by (auto simp: Solver_mustBeTrue_def bool_query_def split: expr.splits)
  qed
  then obtain b where b: "r = Some b" by blast
  from r(3) [OF b] r(1,2) b show ?thesis by blast
qed

lemma mayBeTrue_answers:
  assumes "always_answers H I S" "bool_query H q" "satisfiable H q" "I s"
  shows "\<exists>s'. Solver_mayBeTrue G S q s = Some (Some (\<not> refuted H q), s') \<and> I s'"
proof -
  obtain n where n: "negateExpr G q = Some n" "bool_query H n" "satisfiable H n" "valid H n = refuted H q"
    using negate_query [OF assms(2)] assms(3) by auto
  then show ?thesis using mustBeTrue_answers [OF assms(1) n(2,3) assms(4)]
    by (auto simp: Solver_mayBeTrue_def Solver_mustBeFalse_def)
qed

lemma evaluate_answers:
  assumes "always_answers H I S" "bool_query H q" "satisfiable H q" "I s"
  shows "\<exists>v s'. Solver_evaluate G S q s = Some (Some v, s') \<and> I s' \<and> validity_right H q v"
proof -
  obtain r s' where r: "Solver_evaluate G S q s = Some (r, s')" "I s'" "\<And>v. r = Some v \<Longrightarrow> validity_right H q v"
    using evaluate_right [OF assms(2-4)] by blast
  have "r \<noteq> None"
  proof -
    obtain v s1 where "si_computeValidity S q s = Some (Some v, s1)" using assms unfolding always_answers_def by blast
    then show ?thesis using r(1) assms(2) by (auto simp: Solver_evaluate_def bool_query_def split: expr.splits)
  qed
  then obtain v where v: "r = Some v" by blast
  from r(3) [OF v] r(1,2) v show ?thesis by blast
qed

text \<open>The three questions of \<open>getRange\<close>.\<close>

lemma ask_bits_answers:
  assumes "always_answers H I S" "query_ok H q" "satisfiable H q" "getWidth (q_expr q) \<le> 64"
    and "I s" "m < of_nat (getWidth (q_expr q))"
  shows "\<exists>s'. ask_bits G S q m s = Some (Some (\<forall>\<rho> \<in> models H (q_constraints q).
      uint (word_value (q_expr q) \<rho>) < 2 ^ unat m), s') \<and> I s'"
proof -
  let ?e = "q_expr q" and ?w = "getWidth (q_expr q)"
  have e: "term_ok H ?e" "wt H ?e" using assms(2) by (simp_all add: query_ok_def term_ok_def)
  then have w: "0 < ?w" by (simp add: wt_width_pos)
  have mw: "unat m < ?w"
    using assms(4,6) by (simp add: word_less_nat_alt unat_of_nat take_bit_nat_eq_self)
  then have "int (unat m) < int ?w" by (simp only: of_nat_less_iff)
  then have um: "uint m < int ?w" by simp
  have "int ?w < 2 ^ ?w" using less_exp [of ?w] by (metis of_nat_less_iff of_nat_numeral of_nat_power)
  with um have um2: "uint m < 2 ^ ?w" by (rule less_trans)
  note c = const_expr_ok [OF w assms(4) um2] and z = const_expr_ok [of ?w 0, OF w assms(4)]
  obtain sh where sh: "LShrExpr_create G ?e (ConstantExpr (APInt ?w (uint m))) = Some sh" "term_ok H sh" "getWidth sh = ?w"
    and sv: "\<And>\<rho>. sem \<rho> sh = bv_lshr (sem \<rho> ?e) (unat m)"
  proof -
    have d: "denotes H \<rho> (LShrExpr_create G ?e (ConstantExpr (APInt ?w (uint m)))) (bv_lshr (sem \<rho> ?e) (unat m))" for \<rho>
      using shifts_orders_sound(2) [of H ?e "ConstantExpr (APInt ?w (uint m))" \<rho>] e c(2)
      by (simp add: bv_binary.simps term_ok_def)
    then obtain x where x: "LShrExpr_create G ?e (ConstantExpr (APInt ?w (uint m))) = Some x" "wt H x"
      unfolding denotes_def by blast
    then have v: "sem \<rho> x = bv_lshr (sem \<rho> ?e) (unat m)" for \<rho> using d [of \<rho>] by simp
    have "plain x" using plain.orders_keep(6) [OF no_const_array_opt _ _ x(1)] e by (simp add: term_ok_def)
    moreover have "getWidth x = ?w"
      using wt_sem_width [OF x(2), of undefined] v [of undefined] e(2) by (simp add: bv_lshr_def mk_ap_def)
    ultimately show ?thesis using that x v by (simp add: term_ok_def)
  qed
  obtain eq where eq: "EqExpr_create G sh (ConstantExpr (APInt ?w 0)) = Some eq" "cond_ok H eq"
      "\<And>\<rho>. true_in \<rho> eq = (sem \<rho> sh = APInt ?w 0)"
    using eq_cond [OF sh(2) z(2)] sh(3) by auto
  have q: "bool_query H (withExpr q eq)" by (rule bool_query_with [OF assms(2) eq(2)])
  have "true_in \<rho> eq = (uint (word_value ?e \<rho>) < 2 ^ unat m)" for \<rho>
  proof -
    note b = word_value_uint [OF e(2) assms(4), of \<rho>]
    have "true_in \<rho> eq = (take_bit ?w (drop_bit (unat m) (ap_value (sem \<rho> ?e))) = 0)"
      using eq(3) sv e(2) by (simp add: bv_lshr_def mk_ap_def)
    then show ?thesis using shifted_out [OF b(3,2), of "unat m"] b(1) by simp
  qed
  then have "valid H (withExpr q eq) = (\<forall>\<rho> \<in> models H (q_constraints q). uint (word_value ?e \<rho>) < 2 ^ unat m)"
    by (simp add: valid_def)
  then show ?thesis using mustBeTrue_answers [OF assms(1) q _ assms(5)] assms(3) c(1) z(1) sh(1) eq(1)
    by (simp add: ask_bits_def)
qed

lemma ask_min_max_answers:
  assumes "always_answers H I S" "query_ok H q" "satisfiable H q" "getWidth (q_expr q) \<le> 64"
    and "I s" "uint m < 2 ^ getWidth (q_expr q)"
  shows "\<exists>s'. ask_min G S q m s = Some (Some (\<exists>\<rho> \<in> models H (q_constraints q). word_value (q_expr q) \<rho> \<le> m), s') \<and> I s'"
    and "\<exists>s'. ask_max G S q m s = Some (Some (\<forall>\<rho> \<in> models H (q_constraints q). word_value (q_expr q) \<rho> \<le> m), s') \<and> I s'"
proof -
  let ?e = "q_expr q" and ?w = "getWidth (q_expr q)"
  have e: "term_ok H ?e" "wt H ?e" using assms(2) by (simp_all add: query_ok_def term_ok_def)
  then have w: "0 < ?w" by (simp add: wt_width_pos)
  note c = const_expr_ok [OF w assms(4,6)]
  obtain le where le: "UleExpr_create G ?e (ConstantExpr (APInt ?w (uint m))) = Some le" "cond_ok H le"
      "\<And>\<rho>. true_in \<rho> le = (ap_value (sem \<rho> ?e) \<le> uint m)"
    using ule_cond [OF e(1) c(2)] by auto
  have q: "bool_query H (withExpr q le)" by (rule bool_query_with [OF assms(2) le(2)])
  have t: "true_in \<rho> le = (word_value ?e \<rho> \<le> m)" for \<rho>
    using word_value_uint(1) [OF e(2) assms(4), of \<rho>] le(3) by (simp add: word_le_def)
  show "\<exists>s'. ask_min G S q m s = Some (Some (\<exists>\<rho> \<in> models H (q_constraints q). word_value (q_expr q) \<rho> \<le> m), s') \<and> I s'"
    using mayBeTrue_answers [OF assms(1) q _ assms(5)] assms(3) c(1) le(1) t by (simp add: ask_min_def refuted_def)
  show "\<exists>s'. ask_max G S q m s = Some (Some (\<forall>\<rho> \<in> models H (q_constraints q). word_value (q_expr q) \<rho> \<le> m), s') \<and> I s'"
    using mustBeTrue_answers [OF assms(1) q _ assms(5)] assms(3) c(1) le(1) t by (simp add: ask_max_def valid_def)
qed

end

text \<open>What \<open>getRange\<close> promises: both bounds are values of the expression, and no value is outside.\<close>

definition range_right :: "(nat \<Rightarrow> array) \<Rightarrow> query \<Rightarrow> apint \<Rightarrow> apint \<Rightarrow> bool" where
  "range_right H q lo hi \<longleftrightarrow>
     (\<exists>\<rho> \<in> models H (q_constraints q). sem \<rho> (q_expr q) = lo) \<and>
     (\<exists>\<rho> \<in> models H (q_constraints q). sem \<rho> (q_expr q) = hi) \<and>
     (\<forall>\<rho> \<in> models H (q_constraints q).
        ap_value lo \<le> ap_value (sem \<rho> (q_expr q)) \<and> ap_value (sem \<rho> (q_expr q)) \<le> ap_value hi)"

definition least_word :: "(nat \<Rightarrow> array) \<Rightarrow> query \<Rightarrow> uint64 \<Rightarrow> bool" where
  "least_word H q m \<longleftrightarrow> (\<exists>\<rho> \<in> models H (q_constraints q). word_value (q_expr q) \<rho> = m)
     \<and> (\<forall>\<rho> \<in> models H (q_constraints q). m \<le> word_value (q_expr q) \<rho>)"

definition greatest_word :: "(nat \<Rightarrow> array) \<Rightarrow> query \<Rightarrow> uint64 \<Rightarrow> bool" where
  "greatest_word H q m \<longleftrightarrow> (\<exists>\<rho> \<in> models H (q_constraints q). word_value (q_expr q) \<rho> = m)
     \<and> (\<forall>\<rho> \<in> models H (q_constraints q). word_value (q_expr q) \<rho> \<le> m)"

lemma word_below: "x < m \<Longrightarrow> x \<le> m - 1" "m \<noteq> 0 \<Longrightarrow> m - 1 < m" for m x :: uint64
proof -
  have "uint (m - 1) = uint m - 1" if "m \<noteq> 0"
  proof -
    have "\<not> m < 1" using that by simp
    then have "uint (1 :: uint64) \<le> uint m" by (simp only: not_less word_le_def)
    then show ?thesis using uint_sub_lem [of 1 m] by simp
  qed
  then show "x < m \<Longrightarrow> x \<le> m - 1" "m \<noteq> 0 \<Longrightarrow> m - 1 < m"
    by (cases "m = 0"; simp add: word_le_def word_less_alt)+
qed

lemma uint_mask: "n \<le> 64 \<Longrightarrow> uint (mask n :: uint64) = 2 ^ n - 1"
proof -
  have "uint (word_of_int (mask n) :: uint64) = take_bit LENGTH(64) (mask n)" by (simp only: unsigned_of_int) (rule nat_0_le, simp only: take_bit_nonnegative)
  moreover assume "n \<le> 64"
  ultimately show ?thesis by (simp only: of_int_mask_eq take_bit_of_mask len_num1 len_bit0 len_bit1) (simp add: mask_eq_exp_minus_1)
qed

lemma asked_fits:
  assumes "m < (mask n :: uint64)" "n \<le> w" "w \<le> 64"
  shows "uint m < 2 ^ w"
proof -
  have "uint m < 2 ^ n" using assms uint_mask [of n] by (simp add: word_less_alt)
  moreover have "(2 :: int) ^ n \<le> 2 ^ w" using assms(2) by (intro power_increasing) simp_all
  ultimately show ?thesis by (rule less_le_trans)
qed

context solver_contract
begin

lemma bits_search:
  assumes "always_answers H I S" "query_ok H q" "satisfiable H q" "getWidth (q_expr q) \<le> 64" "I s"
  shows "\<exists>b s'. range_search (ask_bits G S q) 0 (of_nat (getWidth (q_expr q))) s = Some (b, s') \<and> I s'
    \<and> unat b \<le> getWidth (q_expr q) \<and> (\<forall>\<rho> \<in> models H (q_constraints q). word_value (q_expr q) \<rho> \<le> mask (unat b))"
proof -
  let ?w = "getWidth (q_expr q)" and ?V = "word_value (q_expr q)"
  define P where "P m = (\<forall>\<rho> \<in> models H (q_constraints q). uint (?V \<rho>) < 2 ^ unat m)" for m :: uint64
  have e: "wt H (q_expr q)" using assms(2) by (simp add: query_ok_def term_ok_def)
  have w: "unat (of_nat ?w :: uint64) = ?w" using assms(4) by (simp add: unat_of_nat take_bit_nat_eq_self)
  have "\<exists>m s'. range_search (ask_bits G S q) 0 (of_nat ?w) s = Some (m, s') \<and> I s' \<and> 0 \<le> m
      \<and> m \<le> of_nat ?w \<and> P m \<and> (\<forall>x < m. \<not> P x)"
  proof (rule range_search_least [where ub = "of_nat ?w"])
    show "\<exists>s'. ask_bits G S q m s = Some (Some (P m), s') \<and> I s'" if "I s" "m < of_nat ?w" for m s
      using ask_bits_answers [OF assms(1-4) that] by (simp add: P_def)
    show "P y" if "x \<le> y" "P x" for x y
    proof -
      have "(2 :: int) ^ unat x \<le> 2 ^ unat y" using that(1) by (intro power_increasing) (simp_all add: word_le_nat_alt)
      then show ?thesis using that(2) less_le_trans unfolding P_def by blast
    qed
    show "P (of_nat ?w)" using word_value_uint [OF e assms(4)] by (simp add: P_def w)
  qed (use assms(5) in simp_all)
  then obtain b s' where b: "range_search (ask_bits G S q) 0 (of_nat ?w) s = Some (b, s')" "I s'" "b \<le> of_nat ?w" "P b"
    by blast
  have ub: "unat b \<le> ?w" using b(3) w by (simp add: word_le_nat_alt)
  have "?V \<rho> \<le> mask (unat b)" if "\<rho> \<in> models H (q_constraints q)" for \<rho>
  proof -
    have "uint (?V \<rho>) < 2 ^ unat b" using b(4) that by (simp add: P_def)
    then show ?thesis using uint_mask [of "unat b"] ub assms(4) by (simp add: word_le_def)
  qed
  then show ?thesis using b ub by blast
qed

lemma min_search:
  assumes "always_answers H I S" "query_ok H q" "satisfiable H q" "getWidth (q_expr q) \<le> 64" "I s"
    and n: "n \<le> getWidth (q_expr q)" "\<forall>\<rho> \<in> models H (q_constraints q). word_value (q_expr q) \<rho> \<le> mask n"
  shows "\<exists>m s'. range_search (ask_min G S q) 0 (mask n) s = Some (m, s') \<and> I s' \<and> least_word H q m"
proof -
  let ?w = "getWidth (q_expr q)" and ?V = "word_value (q_expr q)" and ?M = "models H (q_constraints q)"
  define P where "P m = (\<exists>\<rho> \<in> ?M. ?V \<rho> \<le> m)" for m
  have "\<exists>m s'. range_search (ask_min G S q) 0 (mask n) s = Some (m, s') \<and> I s' \<and> 0 \<le> m \<and> m \<le> mask n \<and> P m \<and> (\<forall>x < m. \<not> P x)"
  proof (rule range_search_least [where ub = "mask n"])
    show "\<exists>s'. ask_min G S q m s = Some (Some (P m), s') \<and> I s'" if "I s" "m < mask n" for m s
      using ask_min_max_answers(1) [OF assms(1-4) that(1) asked_fits [OF that(2) n(1) assms(4)]] by (simp add: P_def)
    show "P y" if "x \<le> y" "P x" for x y using that order_trans unfolding P_def by blast
    show "P (mask n)" using assms(3) n(2) by (auto simp: P_def satisfiable_def)
  qed (use assms(5) in simp_all)
  then obtain m s' where m: "range_search (ask_min G S q) 0 (mask n) s = Some (m, s')" "I s'" "P m" "\<forall>x < m. \<not> P x"
    by blast
  have lower: "m \<le> ?V \<rho>" if "\<rho> \<in> ?M" for \<rho>
    using m(4) that unfolding P_def by (meson not_le order_refl)
  then have "least_word H q m"
    using m(3) unfolding least_word_def P_def by (meson antisym)
  then show ?thesis using m by blast
qed

lemma max_search:
  assumes "always_answers H I S" "query_ok H q" "satisfiable H q" "getWidth (q_expr q) \<le> 64" "I s"
    and n: "n \<le> getWidth (q_expr q)" "\<forall>\<rho> \<in> models H (q_constraints q). word_value (q_expr q) \<rho> \<le> mask n"
    and lo: "least_word H q lo"
  shows "\<exists>m s'. range_search (ask_max G S q) lo (mask n) s = Some (m, s') \<and> I s' \<and> greatest_word H q m"
proof -
  let ?w = "getWidth (q_expr q)" and ?V = "word_value (q_expr q)" and ?M = "models H (q_constraints q)"
  define P where "P m = (\<forall>\<rho> \<in> ?M. ?V \<rho> \<le> m)" for m
  have "\<exists>m s'. range_search (ask_max G S q) lo (mask n) s = Some (m, s') \<and> I s' \<and> lo \<le> m \<and> m \<le> mask n \<and> P m \<and> (\<forall>x < m. \<not> P x)"
  proof (rule range_search_least [where ub = "mask n"])
    show "\<exists>s'. ask_max G S q m s = Some (Some (P m), s') \<and> I s'" if "I s" "m < mask n" for m s
      using ask_min_max_answers(2) [OF assms(1-4) that(1) asked_fits [OF that(2) n(1) assms(4)]] by (simp add: P_def)
    show "P y" if "x \<le> y" "P x" for x y using that order_trans unfolding P_def by blast
    show "P (mask n)" using n(2) by (simp add: P_def)
    show "lo \<le> mask n" using lo n(2) by (auto simp: least_word_def)
    show "\<not> P x" if "x < lo" for x using lo that leD unfolding least_word_def P_def by blast
  qed (use assms(5) in simp_all)
  then obtain m s' where m: "range_search (ask_max G S q) lo (mask n) s = Some (m, s')" "I s'" "P m" "\<forall>x < m. \<not> P x"
    by blast
  have "\<exists>\<rho> \<in> ?M. ?V \<rho> = m"
  proof (rule ccontr)
    assume "\<not> ?thesis"
    then have less: "\<forall>\<rho> \<in> ?M. ?V \<rho> < m" using m(3) unfolding P_def by (meson order_le_less)
    obtain \<rho> where "\<rho> \<in> ?M" using assms(3) by (auto simp: satisfiable_def)
    then have pos: "m \<noteq> 0" using less by auto
    have "P (m - 1)" using less pos unfolding P_def by (auto intro: word_below(1))
    moreover have "m - 1 < m" using pos by (rule word_below(2))
    ultimately show False using m(4) by blast
  qed
  then have "greatest_word H q m" using m(3) by (simp add: greatest_word_def P_def)
  then show ?thesis using m by blast
qed

lemma word_const:
  assumes "wt H e" "getWidth e \<le> 64"
  shows "ConstantExpr_create (api G) (word_value e \<rho>) (getWidth e) = Some (sem \<rho> e)"
proof -
  have "0 < getWidth e" using assms(1) by (rule wt_width_pos)
  moreover have "APInt (getWidth e) (ap_value (sem \<rho> e)) = sem \<rho> e"
    using wt_sem_width [OF assms(1), of \<rho>] by (cases "sem \<rho> e") simp
  ultimately show ?thesis
    using const_expr_ok(3) [of "getWidth e" "word_value e \<rho>"] word_value_uint [OF assms, of \<rho>] assms(2) by simp
qed

lemma case_not_constant: "\<not> is_Constant e \<Longrightarrow> (case e of ConstantExpr c \<Rightarrow> f c | _ \<Rightarrow> x) = x"
  by (cases e) (simp_all add: is_Constant_def)

lemma words_range:
  assumes "query_ok H q" "getWidth (q_expr q) \<le> 64" "least_word H q lo" "greatest_word H q hi"
  shows "\<exists>a b. ConstantExpr_create (api G) lo (getWidth (q_expr q)) = Some a
    \<and> ConstantExpr_create (api G) hi (getWidth (q_expr q)) = Some b \<and> range_right H q a b"
proof -
  have e: "wt H (q_expr q)" using assms(1) by (simp add: query_ok_def term_ok_def)
  obtain \<rho>1 where l: "\<rho>1 \<in> models H (q_constraints q)" "word_value (q_expr q) \<rho>1 = lo"
      "\<forall>\<rho> \<in> models H (q_constraints q). lo \<le> word_value (q_expr q) \<rho>"
    using assms(3) by (auto simp: least_word_def)
  obtain \<rho>2 where h: "\<rho>2 \<in> models H (q_constraints q)" "word_value (q_expr q) \<rho>2 = hi"
      "\<forall>\<rho> \<in> models H (q_constraints q). word_value (q_expr q) \<rho> \<le> hi"
    using assms(4) by (auto simp: greatest_word_def)
  have "range_right H q (sem \<rho>1 (q_expr q)) (sem \<rho>2 (q_expr q))"
    unfolding range_right_def
  proof (intro conjI ballI)
    show "\<exists>\<rho> \<in> models H (q_constraints q). sem \<rho> (q_expr q) = sem \<rho>1 (q_expr q)" using l(1) by blast
    show "\<exists>\<rho> \<in> models H (q_constraints q). sem \<rho> (q_expr q) = sem \<rho>2 (q_expr q)" using h(1) by blast
    fix \<rho> assume "\<rho> \<in> models H (q_constraints q)"
    then have "word_value (q_expr q) \<rho>1 \<le> word_value (q_expr q) \<rho>" "word_value (q_expr q) \<rho> \<le> word_value (q_expr q) \<rho>2"
      using l h by auto
    then show "ap_value (sem \<rho>1 (q_expr q)) \<le> ap_value (sem \<rho> (q_expr q))"
      "ap_value (sem \<rho> (q_expr q)) \<le> ap_value (sem \<rho>2 (q_expr q))"
      by (simp_all add: word_le_def word_value_uint(1) [OF e assms(2)])
  qed
  then show ?thesis using word_const [OF e assms(2), of \<rho>1] word_const [OF e assms(2), of \<rho>2] l(2) h(2) by blast
qed

lemma zero_value:
  assumes "query_ok H q" "satisfiable H q" "getWidth (q_expr q) \<le> 64" "always_answers H I S" "I s"
  obtains z eq s' where "const_expr G 0 (getWidth (q_expr q)) = Some z" "EqExpr_create G (q_expr q) z = Some eq"
    "Solver_mayBeTrue G S (withExpr q eq) s = Some (Some (\<exists>\<rho> \<in> models H (q_constraints q). word_value (q_expr q) \<rho> = 0), s')" "I s'"
proof -
  let ?e = "q_expr q" and ?w = "getWidth (q_expr q)"
  have e: "term_ok H ?e" "wt H ?e" using assms(1) by (simp_all add: query_ok_def term_ok_def)
  then have w: "0 < ?w" by (simp add: wt_width_pos)
  note z = const_expr_ok [of ?w 0, OF w assms(3)]
  obtain eq where eq: "EqExpr_create G ?e (ConstantExpr (APInt ?w 0)) = Some eq" "cond_ok H eq"
      "\<And>\<rho>. true_in \<rho> eq = (sem \<rho> ?e = APInt ?w 0)"
    using eq_cond [OF e(1) z(2)] by auto
  have q: "bool_query H (withExpr q eq)" by (rule bool_query_with [OF assms(1) eq(2)])
  have "true_in \<rho> eq = (word_value ?e \<rho> = 0)" for \<rho>
  proof -
    have "word_value ?e \<rho> = 0 \<longleftrightarrow> ap_value (sem \<rho> ?e) = 0"
      using word_value_uint(1) [OF e(2) assms(3), of \<rho>] by (metis uint_0_iff)
    then show ?thesis using eq(3) wt_sem_width [OF e(2), of \<rho>] by (cases "sem \<rho> ?e") simp
  qed
  then have r: "(\<not> refuted H (withExpr q eq)) = (\<exists>\<rho> \<in> models H (q_constraints q). word_value ?e \<rho> = 0)"
    by (simp add: refuted_def)
  obtain s' where "Solver_mayBeTrue G S (withExpr q eq) s = Some (Some (\<not> refuted H (withExpr q eq)), s')" "I s'"
    using mayBeTrue_answers [OF assms(4) q _ assms(5)] assms(2) by auto
  then show ?thesis using that [of "ConstantExpr (APInt ?w 0)" eq s'] z(1) eq(1) unfolding r by simp
qed

lemma bool_words:
  assumes "bool_query H q" "satisfiable H q" "validity_right H q v"
  shows "least_word H q (if v = VTrue then 1 else 0)" "greatest_word H q (if v = VFalse then 0 else 1)"
proof -
  have c: "cond_ok H (q_expr q)" by (rule bool_query_cond [OF assms(1)])
  have V: "word_value (q_expr q) \<rho> = (if true_in \<rho> (q_expr q) then 1 else 0)" for \<rho>
    by (simp add: word_value_def cond_value [OF c] bv_bool_def)
  obtain \<rho> where r: "\<rho> \<in> models H (q_constraints q)" using assms(2) by (auto simp: satisfiable_def)
  show "least_word H q (if v = VTrue then 1 else 0)" "greatest_word H q (if v = VFalse then 0 else 1)"
    using assms(3) r
    by (cases v; auto simp: least_word_def greatest_word_def V validity_right_def valid_def refuted_def)+
qed

theorem getRange_answers:
  assumes "always_answers H I S" "query_ok H q" "satisfiable H q" "getWidth (q_expr q) \<le> 64" "I s"
  shows "\<exists>lo hi s'. Solver_getRange G S q s = Some ((lo, hi), s') \<and> I s' \<and> range_right H q lo hi"
proof -
  let ?e = "q_expr q" and ?w = "getWidth (q_expr q)"
  have e: "wt H ?e" using assms(2) by (simp add: query_ok_def term_ok_def)
  have step: "?thesis" if lg: "least_word H q lo" "greatest_word H q hi" "I s'"
    and eq: "Solver_getRange G S q s = do { a \<leftarrow> ConstantExpr_create (api G) lo ?w; b \<leftarrow> ConstantExpr_create (api G) hi ?w; Some ((a, b), s') }"
    for lo hi s'
    using words_range [OF assms(2,4) lg(1,2)] lg(3) eq by auto
  consider "?w = 1" | c where "?w \<noteq> 1" "?e = ConstantExpr c" | "?w \<noteq> 1" "\<not> is_Constant ?e"
    by (cases ?e) (auto simp: is_Constant_def)
  then show ?thesis
  proof cases
    case 1
    then have b: "bool_query H q" using assms(2) by (simp add: bool_query_def)
    obtain v s' where v: "Solver_evaluate G S q s = Some (Some v, s')" "I s'" "validity_right H q v"
      using evaluate_answers [OF assms(1) b assms(3,5)] by blast
    show ?thesis
      by (rule step [OF bool_words [OF b assms(3) v(3)] v(2)]) (cases v; simp add: Solver_getRange_def Let_def 1 v(1))
  next
    case (2 c)
    have c: "getZExtValue (api G) c 64 = Some (word_value ?e undefined)" "\<And>\<rho>. word_value ?e \<rho> = word_value ?e undefined"
      using getZExtValue_eq [of c] e 2 assms(4) by (simp_all add: word_value_def)
    have "least_word H q (word_value ?e undefined)" "greatest_word H q (word_value ?e undefined)"
      using assms(3) c(2) [THEN eq_refl] c(2) [symmetric, THEN eq_refl] c(2)
      by (simp_all add: least_word_def greatest_word_def satisfiable_def ex_in_conv)
    then show ?thesis
      by (rule step [OF _ _ assms(5)]) (use 2 c(1) in \<open>simp add: Solver_getRange_def Let_def\<close>)
  next
    case 3
    obtain b s1 where b: "range_search (ask_bits G S q) 0 (of_nat ?w) s = Some (b, s1)" "I s1" "unat b \<le> ?w"
        "\<forall>\<rho> \<in> models H (q_constraints q). word_value ?e \<rho> \<le> mask (unat b)"
      using bits_search [OF assms] by blast
    obtain z eq s2 where z: "const_expr G 0 ?w = Some z" "EqExpr_create G ?e z = Some eq"
        "Solver_mayBeTrue G S (withExpr q eq) s1 = Some (Some (\<exists>\<rho> \<in> models H (q_constraints q). word_value ?e \<rho> = 0), s2)" "I s2"
      using zero_value [OF assms(2-4,1) b(2)] by blast
    have m: "bits64_maxValueOfNBits (unat (ucast b :: uint32)) = Some (mask (unat b))"
      using b(3) assms(4) bits64_max_eq [of "unat b"]
      by (simp add: unsigned_ucast_eq take_bit_nat_eq_self)
    obtain lo s3 where lo: "(if \<exists>\<rho> \<in> models H (q_constraints q). word_value ?e \<rho> = 0 then Some (0, s2)
        else range_search (ask_min G S q) 0 (mask (unat b)) s2) = Some (lo, s3)" "I s3" "least_word H q lo"
    proof (cases "\<exists>\<rho> \<in> models H (q_constraints q). word_value ?e \<rho> = 0")
      case True
      then have "least_word H q 0" by (simp add: least_word_def)
      then show ?thesis using that True z(4) by simp
    next
      case False
      then show ?thesis using that min_search [OF assms(1-4) z(4) b(3,4)] by auto
    qed
    obtain hi s4 where hi: "range_search (ask_max G S q) lo (mask (unat b)) s3 = Some (hi, s4)" "I s4" "greatest_word H q hi"
      using max_search [OF assms(1-4) lo(2) b(3,4) lo(3)] by blast
    show ?thesis
    proof (rule step [OF lo(3) hi(3,2)])
      show "Solver_getRange G S q s = do { a \<leftarrow> ConstantExpr_create (api G) lo ?w; b \<leftarrow> ConstantExpr_create (api G) hi ?w; Some ((a, b), s4) }"
        using 3 lo(1) hi(1) by (cases "\<exists>\<rho> \<in> models H (q_constraints q). word_value ?e \<rho> = 0")
          (simp_all add: Solver_getRange_def Let_def case_not_constant b(1) z(1-3) m)
    qed
  qed
qed

end

end
