(* ===== verification/SolverChain.thy ===== *)
theory SolverChain
  imports IndependentValues SolverClass
begin

text \<open>
  \<open>ConstructSolverChain.cpp\<close>: the counterexample cache, the branch cache and the independent
  solver over the core solver, as the options ask for them, and histories of questions to the
  chain through the class \<open>Solver\<close>.
\<close>

section \<open>The chain\<close>

type_synonym 's chain_state = "'s cex_state caching_state"

record chain_options =
  UseCexCache :: bool
  UseBranchCache :: bool
  UseIndependentSolver :: bool

text \<open>A cache that is not used: its state stays and every call goes to the solver below.\<close>

definition no_cex_cache :: "'s solver_impl \<Rightarrow> 's cex_state solver_impl" where
  "no_cex_cache S =
     \<lparr>si_computeValidity = \<lambda>q. cex_call (si_computeValidity S q),
      si_computeTruth = \<lambda>q. cex_call (si_computeTruth S q),
      si_computeValue = \<lambda>q. cex_call (si_computeValue S q),
      si_computeInitialValues = \<lambda>q objects out. cex_call (si_computeInitialValues S q objects out),
      si_getOperationStatusCode = \<lambda>s. si_getOperationStatusCode S (cex_solver s),
      si_setCoreSolverTimeout = \<lambda>t s. s\<lparr>cex_solver := si_setCoreSolverTimeout S t (cex_solver s)\<rparr>\<rparr>"

definition no_branch_cache :: "'s solver_impl \<Rightarrow> 's caching_state solver_impl" where
  "no_branch_cache S =
     \<lparr>si_computeValidity = \<lambda>q. cc_call (si_computeValidity S q),
      si_computeTruth = \<lambda>q. cc_call (si_computeTruth S q),
      si_computeValue = \<lambda>q. cc_call (si_computeValue S q),
      si_computeInitialValues = \<lambda>q objects out. cc_call (si_computeInitialValues S q objects out),
      si_getOperationStatusCode = \<lambda>s. si_getOperationStatusCode S (cc_solver s),
      si_setCoreSolverTimeout = \<lambda>t s. s\<lparr>cc_solver := si_setCoreSolverTimeout S t (cc_solver s)\<rparr>\<rparr>"

definition constructSolverChain ::
  "expr_env \<Rightarrow> chain_options \<Rightarrow> cex_options \<Rightarrow> 's solver_impl \<Rightarrow> 's chain_state solver_impl" where
  "constructSolverChain G opts opt coreSolver =
     (let solver = (if UseCexCache opts then CexCachingSolver G opt coreSolver else no_cex_cache coreSolver);
          solver = (if UseBranchCache opts then CachingSolver G solver else no_branch_cache solver) in
      if UseIndependentSolver opts then IndependentSolver G solver else solver)"

text \<open>The caches are empty when the solvers are created.\<close>

definition chain_init :: "'s \<Rightarrow> 's chain_state" where
  "chain_init s = \<lparr>cc_cache = [], cc_solver = cex_init s\<rparr>"

definition chain_ok :: "expr_env \<Rightarrow> (nat \<Rightarrow> array) \<Rightarrow> ('s \<Rightarrow> bool) \<Rightarrow> 's chain_state \<Rightarrow> bool" where
  "chain_ok G H I = caching_ok H (cex_ok G H I)"

context solver_contract
begin

lemma no_cex_cache_contract: "solver_contract G H D (cex_ok G H I) (no_cex_cache S)"
proof (intro solver_contract.intro solver_contract_axioms.intro, goal_cases)
  case 1
  show ?case by (rule expr_creation_axioms)
next
  case (2 q s)
  then show ?case using truth [OF 2(1,2), of "cex_solver s"]
    by (fastforce simp: no_cex_cache_def cex_call_def cex_ok_def)
next
  case (3 q s)
  then show ?case using validity [OF 3(1,2), of "cex_solver s"]
    by (fastforce simp: no_cex_cache_def cex_call_def cex_ok_def)
next
  case (4 q s)
  then show ?case using val [OF 4(1,2), of "cex_solver s"]
    by (fastforce simp: no_cex_cache_def cex_call_def cex_ok_def)
next
  case (5 q objects out s)
  then show ?case using initial [OF 5(1-5), of "cex_solver s"]
    by (fastforce simp: no_cex_cache_def cex_call_def cex_ok_def)
next
  case (6 s t)
  then show ?case using timeout by (simp add: no_cex_cache_def cex_ok_def)
qed

lemma no_branch_cache_contract: "solver_contract G H D (caching_ok H I) (no_branch_cache S)"
proof (intro solver_contract.intro solver_contract_axioms.intro, goal_cases)
  case 1
  show ?case by (rule expr_creation_axioms)
next
  case (2 q s)
  then show ?case using truth [OF 2(1,2), of "cc_solver s"]
    by (fastforce simp: no_branch_cache_def cc_call_def caching_ok_def)
next
  case (3 q s)
  then show ?case using validity [OF 3(1,2), of "cc_solver s"]
    by (fastforce simp: no_branch_cache_def cc_call_def caching_ok_def)
next
  case (4 q s)
  then show ?case using val [OF 4(1,2), of "cc_solver s"]
    by (fastforce simp: no_branch_cache_def cc_call_def caching_ok_def)
next
  case (5 q objects out s)
  then show ?case using initial [OF 5(1-5), of "cc_solver s"]
    by (fastforce simp: no_branch_cache_def cc_call_def caching_ok_def)
next
  case (6 s t)
  then show ?case using timeout by (simp add: no_branch_cache_def caching_ok_def)
qed

lemma restrict_values:
  assumes "\<And>q. D' q \<Longrightarrow> D q"
  shows "solver_contract G H D' I S"
proof (intro solver_contract.intro solver_contract_axioms.intro, goal_cases)
  case 1
  show ?case by (rule expr_creation_axioms)
next
  case (5 q objects out s)
  show ?case by (rule initial [OF 5(1) assms [OF 5(2)] 5(3-6)])
qed (rule truth validity val timeout; assumption)+

lemma chain_init_ok: "I s \<Longrightarrow> chain_ok G H I (chain_init s)"
  using cex_init_ok by (simp add: chain_ok_def chain_init_def caching_ok_def cache_ok_def)

end

text \<open>Every layer keeps the contract, so the chain does.\<close>

lemma chain_contract:
  assumes S: "solver_contract G H (\<lambda>_. True) I S"
  shows "solver_contract G H (values_domain G H) (chain_ok G H I) (constructSolverChain G opts opt S)"
proof -
  define S1 where "S1 = (if UseCexCache opts then CexCachingSolver G opt S else no_cex_cache S)"
  define S2 where "S2 = (if UseBranchCache opts then CachingSolver G S1 else no_branch_cache S1)"
  have 1: "solver_contract G H (\<lambda>_. True) (cex_ok G H I) S1"
    unfolding S1_def using solver_contract.CexCachingSolver_contract [OF S] solver_contract.no_cex_cache_contract [OF S] by simp
  have 2: "solver_contract G H (\<lambda>_. True) (chain_ok G H I) S2"
    unfolding S2_def chain_ok_def
    using solver_contract.CachingSolver_contract [OF 1] solver_contract.no_branch_cache_contract [OF 1] by simp
  have "solver_contract G H (values_domain G H) (chain_ok G H I) (if UseIndependentSolver opts then IndependentSolver G S2 else S2)"
    using solver_contract.IndependentSolver_contract [OF 2] solver_contract.restrict_values [OF 2] by simp
  then show ?thesis unfolding constructSolverChain_def Let_def S1_def [symmetric] S2_def [symmetric] .
qed

section \<open>Histories of questions\<close>

datatype question =
    Evaluate query | MustBeTrue query | MustBeFalse query | MayBeTrue query | MayBeFalse query
  | GetValue query | GetInitialValues query "array list"

datatype reply = Validity "validity option" | Truth "bool option" | Value "apint option" | Values bool "8 word list list"

fun ask :: "expr_env \<Rightarrow> 's solver_impl \<Rightarrow> question \<Rightarrow> 's \<Rightarrow> (reply \<times> 's) option" where
  "ask G S (Evaluate q) s = map_option (map_prod Validity id) (Solver_evaluate G S q s)"
| "ask G S (MustBeTrue q) s = map_option (map_prod Truth id) (Solver_mustBeTrue G S q s)"
| "ask G S (MustBeFalse q) s = map_option (map_prod Truth id) (Solver_mustBeFalse G S q s)"
| "ask G S (MayBeTrue q) s = map_option (map_prod Truth id) (Solver_mayBeTrue G S q s)"
| "ask G S (MayBeFalse q) s = map_option (map_prod Truth id) (Solver_mayBeFalse G S q s)"
| "ask G S (GetValue q) s = map_option (map_prod Value id) (Solver_getValue S q s)"
| "ask G S (GetInitialValues q objects) s =
     map_option (map_prod (\<lambda>(ok, vs). Values ok vs) id) (Solver_getInitialValues S q objects [] s)"

fun ask_all :: "expr_env \<Rightarrow> 's solver_impl \<Rightarrow> question list \<Rightarrow> 's \<Rightarrow> (reply list \<times> 's) option" where
  "ask_all G S [] s = Some ([], s)"
| "ask_all G S (x # xs) s = do {
     (r, s) \<leftarrow> ask G S x s;
     (rs, s) \<leftarrow> ask_all G S xs s;
     Some (r # rs, s) }"

text \<open>The questions that may be asked, and the replies that are right: a failure says nothing.\<close>

fun question_ok :: "expr_env \<Rightarrow> (nat \<Rightarrow> array) \<Rightarrow> question \<Rightarrow> bool" where
  "question_ok G H (Evaluate q) = (bool_query H q \<and> satisfiable H q)"
| "question_ok G H (MustBeTrue q) = (bool_query H q \<and> satisfiable H q)"
| "question_ok G H (MustBeFalse q) = (bool_query H q \<and> satisfiable H q)"
| "question_ok G H (MayBeTrue q) = (bool_query H q \<and> satisfiable H q)"
| "question_ok G H (MayBeFalse q) = (bool_query H q \<and> satisfiable H q)"
| "question_ok G H (GetValue q) = (query_ok H q \<and> satisfiable H q)"
| "question_ok G H (GetInitialValues q objects) =
     (bool_query H q \<and> values_domain G H q \<and> covers H objects q \<and> (\<forall>x \<in> set objects. array_ok H x))"

fun reply_right :: "(nat \<Rightarrow> array) \<Rightarrow> question \<Rightarrow> reply \<Rightarrow> bool" where
  "reply_right H (Evaluate q) (Validity r) = (\<forall>v. r = Some v \<longrightarrow> validity_right H q v)"
| "reply_right H (MustBeTrue q) (Truth r) = (\<forall>b. r = Some b \<longrightarrow> b = valid H q)"
| "reply_right H (MustBeFalse q) (Truth r) = (\<forall>b. r = Some b \<longrightarrow> b = refuted H q)"
| "reply_right H (MayBeTrue q) (Truth r) = (\<forall>b. r = Some b \<longrightarrow> b = (\<not> refuted H q))"
| "reply_right H (MayBeFalse q) (Truth r) = (\<forall>b. r = Some b \<longrightarrow> b = (\<not> valid H q))"
| "reply_right H (GetValue q) (Value r) =
     (\<forall>c. r = Some c \<longrightarrow> (\<exists>\<rho> \<in> models H (q_constraints q). c = sem \<rho> (q_expr q)))"
| "reply_right H (GetInitialValues q objects) (Values ok vs) =
     (ok \<longrightarrow> (\<exists>a. values_of H objects vs a \<and> assignment_of a \<in> models H (q_constraints q)
        \<and> \<not> true_in (assignment_of a) (q_expr q)))"
| "reply_right H _ _ = False"

lemma ask_right:
  assumes "solver_contract G H (values_domain G H) I S" "question_ok G H x" "I s"
  shows "\<exists>r s'. ask G S x s = Some (r, s') \<and> I s' \<and> reply_right H x r"
proof (cases x)
  case (Evaluate q)
  then have q: "question_ok G H (Evaluate q)" using assms(2) by simp
  show ?thesis using solver_contract.evaluate_right [OF assms(1) _ _ assms(3), of q] q unfolding Evaluate by auto
next
  case (MustBeTrue q)
  then have q: "question_ok G H (MustBeTrue q)" using assms(2) by simp
  show ?thesis using solver_contract.mustBeTrue_right [OF assms(1) _ _ assms(3), of q] q unfolding MustBeTrue by auto
next
  case (MustBeFalse q)
  then have q: "question_ok G H (MustBeFalse q)" using assms(2) by simp
  show ?thesis using solver_contract.mustBeFalse_right [OF assms(1) _ _ assms(3), of q] q unfolding MustBeFalse by auto
next
  case (MayBeTrue q)
  then have q: "question_ok G H (MayBeTrue q)" using assms(2) by simp
  show ?thesis using solver_contract.mayBeTrue_right [OF assms(1) _ _ assms(3), of q] q unfolding MayBeTrue by auto
next
  case (MayBeFalse q)
  then have q: "question_ok G H (MayBeFalse q)" using assms(2) by simp
  show ?thesis using solver_contract.mayBeFalse_right [OF assms(1) _ _ assms(3), of q] q unfolding MayBeFalse by auto
next
  case (GetValue q)
  then have q: "question_ok G H (GetValue q)" using assms(2) by simp
  show ?thesis using solver_contract.getValue_right [OF assms(1) _ _ assms(3), of q] q unfolding GetValue by auto
next
  case (GetInitialValues q objects)
  then obtain ok vs s' where "Solver_getInitialValues S q objects [] s = Some ((ok, vs), s')" "I s'"
      "ok \<longrightarrow> (\<exists>a. values_of H objects vs a \<and> assignment_of a \<in> models H (q_constraints q) \<and> \<not> true_in (assignment_of a) (q_expr q))"
    using solver_contract.getInitialValues_right [OF assms(1), of q objects s] assms(2,3) by auto
  then show ?thesis using GetInitialValues by simp
qed

lemma ask_all_right:
  assumes "solver_contract G H (values_domain G H) I S"
  shows "\<forall>x \<in> set xs. question_ok G H x \<Longrightarrow> I s \<Longrightarrow>
    \<exists>rs s'. ask_all G S xs s = Some (rs, s') \<and> I s' \<and> list_all2 (reply_right H) xs rs"
proof (induction xs arbitrary: s)
  case (Cons x xs)
  obtain r s1 where r: "ask G S x s = Some (r, s1)" "I s1" "reply_right H x r"
    using ask_right [OF assms, of x s] Cons.prems by auto
  obtain rs s2 where "ask_all G S xs s1 = Some (rs, s2)" "I s2" "list_all2 (reply_right H) xs rs"
    using Cons.IH [OF _ r(2)] Cons.prems(1) by auto
  then show ?case using r by simp
qed simp

end
