(* ===== verification/ExhaustiveSolver.thy ===== *)
theory ExhaustiveSolver
  imports CexCachingSound
begin

text \<open>
  A reference solver: it tries every vector of bytes for the given arrays and answers from the
  list of those that satisfy the constraints.  It keeps the contract of \<open>SolverContract\<close> and never
  fails a question about truth; the properties of the solver chain are applied to it.
\<close>

definition all_values :: "array list \<Rightarrow> 8 word list list list" where
  "all_values xs = product_lists (map (\<lambda>x. product_lists (replicate (arr_size x) (map word_of_nat [0..<256]))) xs)"

definition all_inputs :: "array list \<Rightarrow> Assignment list" where
  "all_inputs xs = List.map_filter (\<lambda>vs. Assignment_new xs vs False) (all_values xs)"

definition inputs_satisfying :: "array list \<Rightarrow> expr list \<Rightarrow> Assignment list" where
  "inputs_satisfying xs cs = filter (\<lambda>a. list_all (true_in (assignment_of a)) cs) (all_inputs xs)"

definition object_values :: "Assignment \<Rightarrow> array list \<Rightarrow> 8 word list list" where
  "object_values a objects =
     map (\<lambda>os. case bindings_find os (bindings a) of None \<Rightarrow> replicate (arr_size os) 0 | Some v \<Rightarrow> v) objects"

definition exhaustive_validity :: "array list \<Rightarrow> query \<Rightarrow> validity" where
  "exhaustive_validity xs q =
     (let as = inputs_satisfying xs (q_constraints q); t = (\<lambda>a. true_in (assignment_of a) (q_expr q)) in
      if list_all t as then VTrue else if list_all (Not \<circ> t) as then VFalse else VUnknown)"

definition exhaustive_solver :: "array list \<Rightarrow> unit solver_impl" where
  "exhaustive_solver xs =
     \<lparr>si_computeValidity = \<lambda>q s. Some (Some (exhaustive_validity xs q), s),
      si_computeTruth = \<lambda>q s. Some (Some (exhaustive_validity xs q = VTrue), s),
      si_computeValue = \<lambda>q s. Some (case inputs_satisfying xs (q_constraints q) of
          [] \<Rightarrow> None | a # _ \<Rightarrow> Some (ConstantExpr (sem (assignment_of a) (q_expr q))), s),
      si_computeInitialValues = \<lambda>q objects out s. Some (
        (case find (\<lambda>a. \<not> true_in (assignment_of a) (q_expr q)) (inputs_satisfying xs (q_constraints q)) of
          None \<Rightarrow> (True, out\<lparr>vo_hasSolution := Some False\<rparr>)
        | Some a \<Rightarrow> (True, \<lparr>vo_values = object_values a objects, vo_hasSolution = Some True\<rparr>)), s),
      si_getOperationStatusCode = \<lambda>s. SUCCESS_SOLVABLE,
      si_setCoreSolverTimeout = \<lambda>t s. s\<rparr>"

text \<open>The arrays of the list are all symbolic arrays there are.\<close>

definition all_arrays :: "(nat \<Rightarrow> array) \<Rightarrow> array list \<Rightarrow> bool" where
  "all_arrays H xs \<longleftrightarrow> (\<forall>x \<in> set xs. array_ok H x) \<and> (\<forall>x. array_ok H x \<longrightarrow> isSymbolicArray x \<longrightarrow> x \<in> set xs)"

lemma all_values_iff:
  "vs \<in> set (all_values xs) \<longleftrightarrow> list_all2 (\<lambda>x v. length v = arr_size x) xs vs"
proof -
  have "set (map word_of_nat [0..<256]) = (UNIV :: 8 word set)"
  proof -
    have "w = word_of_nat (unat w) \<and> unat w < 256" for w :: "8 word"
      using unsigned_less [of w, where 'a = nat] by simp
    then show ?thesis by force
  qed
  then have one: "v \<in> set (product_lists (replicate n (map word_of_nat [0..<256]))) \<longleftrightarrow> length v = n"
    for v :: "8 word list" and n
    unfolding product_lists_set list_all2_conv_all_nth by (auto simp del: set_map)
  have "vs \<in> set (all_values xs) \<longleftrightarrow> list_all2 (\<lambda>v x. length v = arr_size x) vs xs"
    unfolding all_values_def by (subst product_lists_set) (simp only: mem_Collect_eq list_all2_map2 one)
  also have "\<dots> \<longleftrightarrow> list_all2 (\<lambda>x v. length v = arr_size x) xs vs"
    by (auto simp: list_all2_conv_all_nth)
  finally show ?thesis .
qed

lemma all_inputs_iff:
  "a \<in> set (all_inputs xs) \<longleftrightarrow> (\<exists>vs. list_all2 (\<lambda>x v. length v = arr_size x) xs vs \<and> Assignment_new xs vs False = Some a)"
  by (force simp: all_inputs_def List.map_filter_def all_values_iff)

lemma all_inputs_ok:
  assumes arrays: "all_arrays H xs" and a: "a \<in> set (all_inputs xs)"
  shows "solution_ok H a"
proof -
  obtain vs where "list_all2 (\<lambda>x v. length v = arr_size x) xs vs" "Assignment_new xs vs False = Some a"
    using a by (auto simp: all_inputs_iff)
  then have "values_of H xs vs a"
    using arrays by (auto simp: values_of_def all_arrays_def list_all2_conv_all_nth)
  then show ?thesis by (rule values_of_solution)
qed

lemma sym_arrays_symbolic: "(\<forall>x \<in> sym_arrays e. isSymbolicArray x)" "(\<forall>x \<in> sym_arrays_unode u. isSymbolicArray x)"
  by (induction e and u) auto

lemma all_inputs_complete:
  assumes arrays: "all_arrays H xs" and r: "\<rho> \<in> inputs H"
  shows "\<exists>a \<in> set (all_inputs xs). \<forall>e. wt H e \<longrightarrow> sem (assignment_of a) e = sem \<rho> e"
proof -
  let ?v = "\<lambda>x. map (\<lambda>i. word_of_int (\<rho> x i)) [0..<arr_size x] :: 8 word list"
  obtain a where a: "Assignment_new xs (map ?v xs) False = Some a"
    using Assignment_new_Some [of xs "map ?v xs" False] by (auto simp only: length_map)
  have "list_all2 (\<lambda>x v. length v = arr_size x) xs (map ?v xs)"
    by (simp add: list_all2_conv_all_nth)
  then have ain: "a \<in> set (all_inputs xs)"
    using a unfolding all_inputs_iff by blast
  have eq: "assignment_of a x = \<rho> x" if x: "x \<in> set xs" for x
  proof
    fix i
    have f: "bindings_find x (bindings a) = Some (?v x)"
      unfolding Assignment_new_lookup [OF a] by (rule object_lookup [of xs H]) (use x arrays in \<open>simp_all add: all_arrays_def\<close>)
    have "0 \<le> \<rho> x i \<and> \<rho> x i < 256 \<and> (arr_size x \<le> i \<longrightarrow> \<rho> x i = 0)"
      using r x arrays by (auto simp: inputs_def all_arrays_def)
    then show "assignment_of a x i = \<rho> x i"
      using f by (cases "i < arr_size x") (simp_all add: assignment_of_def uint_word_of_int)
  qed
  have "sem (assignment_of a) e = sem \<rho> e" if "wt H e" for e
  proof (rule sem_same_reads(1) [OF _ r that])
    show "assignment_of a \<in> inputs H" using all_inputs_ok [OF arrays ain] by (simp add: solution_ok_def)
    show "\<forall>x \<in> sym_arrays e. assignment_of a x = \<rho> x"
      using wt_sym_arrays(1) [OF that] sym_arrays_symbolic(1) [of e] arrays eq
      by (auto simp: all_arrays_def arrays_ok_def)
  qed
  then show ?thesis using ain by blast
qed

lemma inputs_satisfying_models:
  "all_arrays H xs \<Longrightarrow> a \<in> set (inputs_satisfying xs cs) \<Longrightarrow> assignment_of a \<in> models H cs \<and> solution_ok H a"
  using all_inputs_ok [of H xs a] by (auto simp: inputs_satisfying_def models_def solution_ok_def list_all_iff)

lemma inputs_satisfying_all:
  assumes arrays: "all_arrays H xs" and "\<rho> \<in> models H cs" "\<forall>c \<in> set cs. wt H c"
  shows "\<exists>a \<in> set (inputs_satisfying xs cs). \<forall>e. wt H e \<longrightarrow> sem (assignment_of a) e = sem \<rho> e"
proof -
  obtain a where a: "a \<in> set (all_inputs xs)" "\<And>e. wt H e \<Longrightarrow> sem (assignment_of a) e = sem \<rho> e"
    using all_inputs_complete [OF arrays models_inputs [OF assms(2)]] by blast
  then have "a \<in> set (inputs_satisfying xs cs)"
    using assms by (auto simp: inputs_satisfying_def list_all_iff models_def true_in_def)
  then show ?thesis using a(2) by blast
qed

lemma list_valid:
  assumes arrays: "all_arrays H xs" and "query_ok H q"
  shows "list_all (\<lambda>a. true_in (assignment_of a) (q_expr q)) (inputs_satisfying xs (q_constraints q)) \<longleftrightarrow> valid H q"
    and "list_all (Not \<circ> (\<lambda>a. true_in (assignment_of a) (q_expr q))) (inputs_satisfying xs (q_constraints q)) \<longleftrightarrow> refuted H q"
proof -
  have w: "wt H (q_expr q)" "\<forall>c \<in> set (q_constraints q). wt H c"
    using assms by (auto simp: query_ok_def term_ok_def cond_ok_def)
  have *: "(\<exists>\<rho> \<in> models H (q_constraints q). true_in \<rho> (q_expr q) = b) \<longleftrightarrow>
      (\<exists>a \<in> set (inputs_satisfying xs (q_constraints q)). true_in (assignment_of a) (q_expr q) = b)" for b
  proof
    assume "\<exists>\<rho> \<in> models H (q_constraints q). true_in \<rho> (q_expr q) = b"
    then obtain \<rho> where r: "\<rho> \<in> models H (q_constraints q)" "true_in \<rho> (q_expr q) = b" by blast
    then obtain a where "a \<in> set (inputs_satisfying xs (q_constraints q))" "sem (assignment_of a) (q_expr q) = sem \<rho> (q_expr q)"
      using inputs_satisfying_all [OF arrays r(1) w(2)] w(1) by blast
    then show "\<exists>a \<in> set (inputs_satisfying xs (q_constraints q)). true_in (assignment_of a) (q_expr q) = b"
      using r(2) by (intro bexI [of _ a]) (simp_all add: true_in_def)
  qed (use inputs_satisfying_models [OF arrays] in blast)
  show "list_all (\<lambda>a. true_in (assignment_of a) (q_expr q)) (inputs_satisfying xs (q_constraints q)) \<longleftrightarrow> valid H q"
    using * [of False] by (auto simp: list_all_iff valid_def)
  show "list_all (Not \<circ> (\<lambda>a. true_in (assignment_of a) (q_expr q))) (inputs_satisfying xs (q_constraints q)) \<longleftrightarrow> refuted H q"
    using * [of True] by (auto simp: list_all_iff refuted_def)
qed

theorem exhaustive_solver_contract:
  assumes "expr_creation G" "all_arrays H xs"
  shows "solver_contract G H (\<lambda>_. True) (\<lambda>_. True) (exhaustive_solver xs)"
proof (intro solver_contract.intro solver_contract_axioms.intro, goal_cases)
  case 1
  show ?case by (rule assms)
next
  case (2 q s)
  then show ?case
    using list_valid [OF assms(2), of q]
    by (simp add: exhaustive_solver_def exhaustive_validity_def Let_def bool_query_def)
next
  case (3 q s)
  then show ?case
    using list_valid [OF assms(2), of q] valid_not_refuted [of H q]
    by (simp add: exhaustive_solver_def exhaustive_validity_def Let_def bool_query_def validity_right_def)
next
  case (4 q s)
  then obtain \<rho> where "\<rho> \<in> models H (q_constraints q)" by (auto simp: satisfiable_def)
  then obtain a as where "inputs_satisfying xs (q_constraints q) = a # as"
    using inputs_satisfying_all [OF assms(2), of \<rho> "q_constraints q"] 4(1)
    by (cases "inputs_satisfying xs (q_constraints q)") (auto simp: query_ok_def cond_ok_def)
  moreover from this have "assignment_of a \<in> models H (q_constraints q)"
    using inputs_satisfying_models [OF assms(2), of a "q_constraints q"] by simp
  ultimately show ?case by (auto simp: exhaustive_solver_def)
next
  case (5 q objects out s)
  show ?case
  proof (cases "find (\<lambda>a. \<not> true_in (assignment_of a) (q_expr q)) (inputs_satisfying xs (q_constraints q))")
    case None
    then have "list_all (\<lambda>a. true_in (assignment_of a) (q_expr q)) (inputs_satisfying xs (q_constraints q))"
      by (auto simp: find_None_iff list_all_iff)
    then have "valid H q" using list_valid(1) [OF assms(2), of q] 5(1) by (simp add: bool_query_def)
    then show ?thesis using None
      by (intro exI [of _ True] exI [of _ "out\<lparr>vo_hasSolution := Some False\<rparr>"]) (simp add: exhaustive_solver_def initial_right_def)
  next
    case (Some a)
    then have a: "a \<in> set (inputs_satisfying xs (q_constraints q))" "\<not> true_in (assignment_of a) (q_expr q)"
      by (auto simp: find_Some_iff)
    have m: "assignment_of a \<in> models H (q_constraints q)" "solution_ok H a"
      using inputs_satisfying_models [OF assms(2) a(1)] by auto
    obtain b where b: "values_of H objects (object_values a objects) b"
        "\<And>x. x \<in> set objects \<Longrightarrow> assignment_of b x = assignment_of a x"
      using solution_values [OF m(2) 5(4)] unfolding object_values_def by blast
    have bi: "assignment_of b \<in> inputs H" using values_of_inputs [OF b(1)] by simp
    have "true_in (assignment_of b) e = true_in (assignment_of a) e" if "e \<in> set (q_expr q # q_constraints q)" for e
      using 5(3) that bi models_inputs [OF m(1)] b(2) unfolding covers_def by blast
    then have "assignment_of b \<in> models H (q_constraints q) \<and> \<not> true_in (assignment_of b) (q_expr q)"
      using m(1) a(2) bi by (simp add: models_def)
    then show ?thesis using Some b(1) by (auto simp: exhaustive_solver_def initial_right_def)
  qed
qed (simp add: exhaustive_solver_def)

end
