(* ===== verification/SolverProps.thy ===== *)
theory SolverProps
  imports SolverChain ExhaustiveSolver ExprProps
begin

text \<open>
  The properties of the solver layers and of the utilities they use.  The witnesses run over the
  exhaustive solver of \<open>ExhaustiveSolver\<close> for the array of 4 bytes of \<open>ExprProps\<close>.
\<close>

lemma buf_arrays: "all_arrays buf_heap [buf]"
proof -
  have "x = buf" if "array_ok buf_heap x" for x using that by (simp add: array_ok_def buf_heap_def)
  then show ?thesis by (auto simp: all_arrays_def)
qed

interpretation exhaustive: solver_contract default_env buf_heap "\<lambda>_. True" "\<lambda>_. True" "exhaustive_solver [buf]"
  by (rule exhaustive_solver_contract [OF default_env.expr_creation_axioms buf_arrays])

lemma exhaustive_answers: "always_answers buf_heap (\<lambda>_. True) (exhaustive_solver [buf])"
  by (simp add: always_answers_def exhaustive_solver_def)

lemma buf_byte_term [simp]: "0 \<le> i \<Longrightarrow> i < 2 ^ 32 \<Longrightarrow> term_ok buf_heap (buf_byte i)"
  by (simp add: term_ok_def) (simp add: buf_byte_def)

text \<open>Inputs with the same value at every byte of the array.\<close>

lemma constant_inputs: "0 \<le> v \<Longrightarrow> v < 256 \<Longrightarrow> (\<lambda>a i. if i < arr_size a then v else 0) \<in> inputs buf_heap"
  by (simp add: inputs_def)

section \<open>Expressions as keys\<close>

text \<open>
  (C30) \<open>Expr::compare\<close> is a strict total order on well-typed expressions, the lexicographic
  order of the sequences of numbers that it reads, and two expressions have equal sequences
  only if they are equal: sets and maps ordered by it find what was put in.
\<close>

theorem compare_is_key_order:
  assumes "llvm_apint A" "wt H a" "wt H b"
  shows "(expr_compare A a b < 0 \<longleftrightarrow> expr_key A a < expr_key A b) \<and> (expr_key A a = expr_key A b \<longleftrightarrow> a = b)"
  using llvm_apint.expr_compare_less [OF assms] llvm_apint.expr_key_inject [OF assms] by blast

theorem compare_is_key_order_witness:
  "expr_compare apint_model (ConstantExpr (APInt 8 5)) (buf_byte 0) < 0"
proof -
  have "expr_key apint_model (ConstantExpr (APInt 8 5)) < expr_key apint_model (buf_byte 0)"
    by (simp add: buf_byte_def)
  then show ?thesis
    using compare_is_key_order [OF apint_model.llvm_apint_axioms, of buf_heap "ConstantExpr (APInt 8 5)" "buf_byte 0"] by simp
qed

text \<open>
  (C31) \<open>findReads\<close>, asked to visit updates, returns exactly the read expressions that occur in
  an expression, those below indices, updates and their values among them, although it skips
  constants and visits every expression once.
\<close>

theorem find_reads_exact:
  assumes "llvm_apint A" "wt H e"
  shows "set (findReads A e True []) = read_nodes e"
  using llvm_apint.findReads_exact [OF assms] .

theorem find_reads_exact_witness:
  "set (findReads apint_model (ReadExpr buf (UpdateNode NullNode (ConstantExpr (APInt 32 2)) (buf_byte 1))
      (CastExpr ZExt (buf_byte 0) 32)) True [])
    = {buf_byte 0, buf_byte 1, ReadExpr buf (UpdateNode NullNode (ConstantExpr (APInt 32 2)) (buf_byte 1))
        (CastExpr ZExt (buf_byte 0) 32)}"
proof -
  have w: "wt buf_heap (ReadExpr buf (UpdateNode NullNode (ConstantExpr (APInt 32 2)) (buf_byte 1)) (CastExpr ZExt (buf_byte 0) 32))"
    by (simp add: ap_ok_def take_bit_int_eq_self)
  show ?thesis
    using find_reads_exact [OF apint_model.llvm_apint_axioms w] by (auto simp: buf_byte_def)
qed

section \<open>The class Solver\<close>

text \<open>
  (C29) Over a solver that keeps the contract and answers every question about truth,
  \<open>Solver::getRange\<close> fails no assertion, its three binary searches end, and it returns the
  least and the greatest value that the expression has under the inputs that satisfy the
  constraints. The expression has at most 64 bits (wider ones fail the assertion of
  \<open>getZExtValue\<close>), the constraints are satisfiable, and expression and constraints are plain:
  no division by anything but a nonzero constant, no index of more than 32 bits, no
  \<open>NotOptimizedExpr\<close>.
\<close>

theorem get_range_tight:
  assumes "solver_contract G H D I S" "always_answers H I S" "query_ok H q" "satisfiable H q"
    and "getWidth (q_expr q) \<le> 64" "I s"
  shows "\<exists>lo hi s'. Solver_getRange G S q s = Some ((lo, hi), s') \<and> I s' \<and> range_right H q lo hi"
  using solver_contract.getRange_answers [OF assms(1-6)] .

theorem get_range_tight_witness:
  "\<exists>s'. Solver_getRange default_env (exhaustive_solver [buf]) \<lparr>q_constraints = [], q_expr = buf_byte 0\<rparr> ()
     = Some ((APInt 8 0, APInt 8 255), s')"
proof -
  let ?q = "\<lparr>q_constraints = [], q_expr = buf_byte 0\<rparr>" and ?c = "\<lambda>v a i. if i < arr_size a then v else 0 :: int"
  have q: "query_ok buf_heap ?q" "satisfiable buf_heap ?q" "?c 0 \<in> models buf_heap []" "?c 255 \<in> models buf_heap []"
    using constant_inputs [of 0] constant_inputs [of 255] by (auto simp: query_ok_def satisfiable_def models_def)
  obtain lo hi s' where r: "Solver_getRange default_env (exhaustive_solver [buf]) ?q () = Some ((lo, hi), s')"
      "range_right buf_heap ?q lo hi"
    using get_range_tight [OF exhaustive.solver_contract_axioms exhaustive_answers q(1,2), of "()"] by auto
  have v: "ap_value lo \<le> ap_value (sem \<rho> (buf_byte 0)) \<and> ap_value (sem \<rho> (buf_byte 0)) \<le> ap_value hi"
    if "\<rho> \<in> models buf_heap []" for \<rho>
    using r(2) that by (simp add: range_right_def)
  obtain \<rho>1 \<rho>2 where e: "lo = sem \<rho>1 (buf_byte 0)" "hi = sem \<rho>2 (buf_byte 0)"
    using r(2) by (auto simp: range_right_def)
  have "take_bit 8 (\<rho>1 buf 0) \<le> 0" "255 \<le> take_bit 8 (\<rho>2 buf 0)"
    using v [OF q(3)] v [OF q(4)] unfolding e by simp_all
  moreover have "0 \<le> take_bit 8 (\<rho>1 buf 0)" "take_bit 8 (\<rho>2 buf 0) < 2 ^ 8"
    by (simp, rule take_bit_int_less_exp)
  ultimately have "take_bit 8 (\<rho>1 buf 0) = 0" "take_bit 8 (\<rho>2 buf 0) = 255" by simp_all
  then show ?thesis using r(1) e by simp
qed

section \<open>The chain of solvers\<close>

lemma byte_is_cond [simp]:
  "0 \<le> i \<Longrightarrow> i < 2 ^ 32 \<Longrightarrow> 0 \<le> v \<Longrightarrow> v < 256 \<Longrightarrow> cond_ok buf_heap (BinaryExpr Eq (ConstantExpr (APInt 8 v)) (buf_byte i))"
  by (simp add: cond_ok_def ap_ok_def take_bit_int_eq_self) (simp add: buf_byte_def div_kind_def)

lemma byte_is_true [simp]:
  "true_in \<rho> (BinaryExpr Eq (ConstantExpr (APInt 8 v)) (buf_byte i)) \<longleftrightarrow> v = take_bit 8 (\<rho> buf (nat i))"
  by (simp add: true_in_def)

text \<open>
  (C12) The constraints that the independent solver leaves out do not matter: whether the query
  is valid or refuted, and the values that it takes under the inputs that satisfy the
  constraints, are the same under the constraints that share bytes with it. The constraints
  are satisfiable together (of an unsatisfiable query a satisfiable part may be left), and
  query and constraints are plain: no division by anything but a nonzero constant, no index of
  more than 32 bits, no \<open>NotOptimizedExpr\<close>.
\<close>

theorem independent_constraints_suffice:
  assumes "expr_creation G" "query_ok H q" "satisfiable H q"
  shows "\<exists>t. Independent_query G q = Some t \<and> q_expr t = q_expr q
    \<and> (\<lambda>\<rho>. sem \<rho> (q_expr q)) ` models H (q_constraints t) = (\<lambda>\<rho>. sem \<rho> (q_expr q)) ` models H (q_constraints q)
    \<and> valid H t = valid H q \<and> refuted H t = refuted H q"
proof -
  obtain t where t: "Independent_query G q = Some t" "q_expr t = q_expr q"
      "models H (q_constraints q) \<subseteq> models H (q_constraints t)"
      "\<forall>\<rho> \<in> models H (q_constraints t). \<exists>\<rho>' \<in> models H (q_constraints q). sem \<rho>' (q_expr q) = sem \<rho> (q_expr q)"
    using expr_creation.Independent_query_ok [OF assms] by (elim exE conjE) (rule that)
  have im: "(\<lambda>\<rho>. sem \<rho> (q_expr q)) ` models H (q_constraints t) = (\<lambda>\<rho>. sem \<rho> (q_expr q)) ` models H (q_constraints q)"
    (is "?V t = ?V q")
  proof (intro equalityI subsetI)
    fix x assume "x \<in> ?V t"
    then obtain \<rho> where r: "\<rho> \<in> models H (q_constraints t)" "x = sem \<rho> (q_expr q)" by blast
    then obtain \<rho>' where "\<rho>' \<in> models H (q_constraints q)" "sem \<rho>' (q_expr q) = sem \<rho> (q_expr q)" using t(4) by blast
    then show "x \<in> ?V q" using r(2) by (metis imageI)
  next
    fix x assume "x \<in> ?V q"
    then show "x \<in> ?V t" using t(3) by blast
  qed
  have "valid H p = (\<forall>x \<in> ?V p. x = bv_bool True)" "refuted H p = (\<forall>x \<in> ?V p. x \<noteq> bv_bool True)" if "q_expr p = q_expr q" for p
    unfolding valid_def refuted_def true_in_def that by simp_all
  from this [OF t(2)] this [OF refl] have "valid H t = valid H q" "refuted H t = refuted H q" unfolding im by blast+
  then show ?thesis using t(1,2) im by blast
qed

theorem independent_constraints_suffice_witness:
  "\<exists>t. Independent_query default_env
      \<lparr>q_constraints = [BinaryExpr Eq (ConstantExpr (APInt 8 5)) (buf_byte 0), BinaryExpr Eq (ConstantExpr (APInt 8 5)) (buf_byte 1)],
       q_expr = BinaryExpr Eq (ConstantExpr (APInt 8 5)) (buf_byte 0)\<rparr> = Some t \<and> valid buf_heap t"
proof -
  let ?q = "\<lparr>q_constraints = [BinaryExpr Eq (ConstantExpr (APInt 8 5)) (buf_byte 0), BinaryExpr Eq (ConstantExpr (APInt 8 5)) (buf_byte 1)],
       q_expr = BinaryExpr Eq (ConstantExpr (APInt 8 5)) (buf_byte 0)\<rparr>"
  have "query_ok buf_heap ?q" by (simp add: query_ok_def cond_ok_term)
  moreover have "satisfiable buf_heap ?q"
  proof -
    have "(\<lambda>a i. if i < arr_size a then 5 else 0) \<in> models buf_heap (q_constraints ?q)"
      using constant_inputs [of 5] by (simp add: models_def)
    then show ?thesis unfolding satisfiable_def by blast
  qed
  moreover have "valid buf_heap ?q" by (simp add: valid_def models_def)
  ultimately show ?thesis using independent_constraints_suffice [OF default_env.expr_creation_axioms, of buf_heap ?q] by auto
qed

text \<open>
  (C6) Over any core solver that keeps the contract, whatever caches the options ask for, the
  chain that \<open>constructSolverChain\<close> builds answers every history of questions from empty caches
  without a failed assertion, and every reply that it gives is right: validity, truth, values of
  expressions and initial values of arrays.  What a cache has stored for one question is never
  wrong for a later one.  The questions of the history are those of \<open>question_ok\<close>: the
  constraints are satisfiable, and the expressions plain (no division by anything but a nonzero
  constant, no index of more than 32 bits, no \<open>NotOptimizedExpr\<close>).  A question for initial
  values names all arrays that the query reads (\<open>covers\<close>), is not the constant true, can be
  false if it reads no array, and reads every array within its bounds (\<open>values_domain\<close>);
  without this an assertion of the code fails.
\<close>

theorem solver_chain_history:
  assumes "solver_contract G H (\<lambda>_. True) I core" "\<forall>x \<in> set xs. question_ok G H x" "I s"
  shows "\<exists>rs s'. ask_all G (constructSolverChain G opts opt core) xs (chain_init s) = Some (rs, s')
    \<and> list_all2 (reply_right H) xs rs"
  using ask_all_right [OF chain_contract [OF assms(1)] assms(2) solver_contract.chain_init_ok [OF assms(1,3)]] by blast

theorem solver_chain_history_witness:
  "\<exists>rs s'. ask_all default_env
      (constructSolverChain default_env \<lparr>UseCexCache = True, UseBranchCache = True, UseIndependentSolver = True\<rparr>
        \<lparr>DebugCexCacheCheckBinding = False, CexCacheTryAll = False, CexCacheSuperSet = False, CexCacheExperimental = False\<rparr>
        (exhaustive_solver [buf]))
      [MustBeTrue \<lparr>q_constraints = [], q_expr = BinaryExpr Eq (ConstantExpr (APInt 8 5)) (buf_byte 0)\<rparr>,
       GetInitialValues \<lparr>q_constraints = [BinaryExpr Eq (ConstantExpr (APInt 8 5)) (buf_byte 0)], q_expr = ConstantExpr (bv_bool False)\<rparr> [buf]]
      (chain_init ()) = Some (rs, s')
    \<and> list_all2 (reply_right buf_heap)
      [MustBeTrue \<lparr>q_constraints = [], q_expr = BinaryExpr Eq (ConstantExpr (APInt 8 5)) (buf_byte 0)\<rparr>,
       GetInitialValues \<lparr>q_constraints = [BinaryExpr Eq (ConstantExpr (APInt 8 5)) (buf_byte 0)], q_expr = ConstantExpr (bv_bool False)\<rparr> [buf]] rs"
proof -
  let ?c = "BinaryExpr Eq (ConstantExpr (APInt 8 5)) (buf_byte 0)"
  let ?q = "\<lparr>q_constraints = [?c], q_expr = ConstantExpr (bv_bool False)\<rparr>"
  have neg: "createIsZero default_env (ConstantExpr (bv_bool False)) = Some n \<Longrightarrow> n = ConstantExpr (bv_bool True)" for n
    by (auto simp: createIsZero_def EqExpr_create_def CMPCREATE_T_def BCREATE_R_def
      llvm_apint.eq [OF apint_model.llvm_apint_axioms, of "bv_bool False" "bv_bool False"])
  have "(\<lambda>a i. if i < arr_size a then 5 else 0) \<in> models buf_heap [?c]"
    using constant_inputs [of 5] by (simp add: models_def)
  then have "satisfiable buf_heap ?q" by (auto simp: satisfiable_def)
  moreover have "reads_inside ?c" "reads_at (\<lambda>a i. i < arr_size a) \<rho> ?c" for \<rho>
    by (simp_all add: reads_inside_def buf_byte_def)
  moreover have "\<exists>\<rho> \<in> inputs buf_heap. true_in \<rho> (ConstantExpr (bv_bool True))"
    using constant_inputs [of 5] by auto
  ultimately have "values_domain default_env buf_heap ?q"
    by (simp add: values_domain_def del: true_in_const) (auto simp: reads_inside_def dest!: neg)
  moreover have "covers buf_heap [buf] ?q" by (simp add: covers_def)
  moreover have "bool_query buf_heap ?q" "bool_query buf_heap \<lparr>q_constraints = [], q_expr = ?c\<rparr>"
    by (auto simp: bool_query_def query_ok_def cond_ok_term)
  moreover have "satisfiable buf_heap \<lparr>q_constraints = [], q_expr = ?c\<rparr>"
    using constant_inputs [of 5] by (auto simp: satisfiable_def models_def)
  ultimately show ?thesis
    by (intro solver_chain_history [OF exhaustive.solver_contract_axioms]) simp_all
qed

end
