(* ===== verification/Constraints.thy ===== *)
theory Constraints
  imports ExprEval
begin

text \<open>
  \<open>Constraints.cpp\<close>: the constraint manager, which simplifies a condition by the equalities it
  has, splits conjunctions, and rewrites its constraints when an equality with a constant is
  added.  A manager is the vector of its constraints.

  The two visitors replace expressions.  The hash table of visited expressions is left out, as
  for the evaluator: a visit has no effect and its result is that of its argument.
\<close>

section \<open>The visitors\<close>

text \<open>\<open>visitExpr\<close> and \<open>visitExprPost\<close> of \<open>ExprReplaceVisitor\<close>.\<close>

definition replace_action :: "apint_ops \<Rightarrow> expr \<Rightarrow> expr \<Rightarrow> expr \<Rightarrow> action" where
  "replace_action A src dst e = (if expr_eq A e src then ChangeTo dst else DoChildren)"

lemma kids_size: "k \<in> set (kids e) \<Longrightarrow> size k < size e"
  by (cases e) auto

function ExprReplaceVisitor_visit :: "expr_env \<Rightarrow> expr \<Rightarrow> expr \<Rightarrow> expr \<Rightarrow> expr option" where
  "ExprReplaceVisitor_visit G src dst e =
     (if is_Constant e then Some e
      else visitActual G (replace_action (api G) src dst) e (Some (replace_action (api G) src dst e)) (Some DoChildren)
        (those (map (ExprReplaceVisitor_visit G src dst) (kids e))))"
  by pat_completeness auto
termination
  by (relation "measure (\<lambda>(G, src, dst, e). size e)") (auto simp: kids_size)

declare ExprReplaceVisitor_visit.simps [simp del]

text \<open>A \<open>std::map\<close> of expressions: its keys are compared by \<open>Expr::compare\<close>.\<close>

type_synonym replacements = "(expr \<times> expr) list"

fun replacements_find :: "apint_ops \<Rightarrow> expr \<Rightarrow> replacements \<Rightarrow> expr option" where
  "replacements_find A e [] = None"
| "replacements_find A e ((k, v) # m) = (if expr_eq A k e then Some v else replacements_find A e m)"

definition replacements_insert :: "apint_ops \<Rightarrow> expr \<Rightarrow> expr \<Rightarrow> replacements \<Rightarrow> replacements" where
  "replacements_insert A k v m = (if replacements_find A k m = None then m @ [(k, v)] else m)"

text \<open>\<open>visitExprPost\<close> of \<open>ExprReplaceVisitor2\<close>, for a result that is not a constant.\<close>

definition replace_post :: "apint_ops \<Rightarrow> replacements \<Rightarrow> expr \<Rightarrow> expr" where
  "replace_post A m e =
     (if is_Constant e then e
      else case replacements_find A e m of Some x \<Rightarrow> x | None \<Rightarrow> e)"

text \<open>
  The second visitor is recursive: it visits a node that it has rebuilt.  The function visits a
  list of expressions, so that the visits of the kids and of the rebuilt node are calls of it.
\<close>

partial_function (option) ExprReplaceVisitor2_visits :: "expr_env \<Rightarrow> replacements \<Rightarrow> expr list \<Rightarrow> expr list option" where
  "ExprReplaceVisitor2_visits G m es =
     (case es of
        [] \<Rightarrow> Some []
      | e # rest \<Rightarrow> do {
          x \<leftarrow> (if is_Constant e then Some e
               else do {
                 ks \<leftarrow> ExprReplaceVisitor2_visits G m (kids e);
                 e' \<leftarrow> (if list_all2 (expr_eq (api G)) ks (kids e) then Some e
                       else do {
                         r \<leftarrow> rebuild G e ks;
                         xs \<leftarrow> ExprReplaceVisitor2_visits G m [r];
                         Some (hd xs) });
                 Some (replace_post (api G) m e') });
          xs \<leftarrow> ExprReplaceVisitor2_visits G m rest;
          Some (x # xs) })"

definition ExprReplaceVisitor2_visit :: "expr_env \<Rightarrow> replacements \<Rightarrow> expr \<Rightarrow> expr option" where
  "ExprReplaceVisitor2_visit G m e = map_option hd (ExprReplaceVisitor2_visits G m [e])"

section \<open>ConstraintManager\<close>

text \<open>The body of the loop of \<open>simplifyExpr\<close>.\<close>

definition insert_equality :: "apint_ops \<Rightarrow> expr \<Rightarrow> replacements \<Rightarrow> replacements" where
  "insert_equality A c equalities =
     (let holds = replacements_insert A c (ConstantExpr (ConstantExpr_alloc_u64 A 1 Bool_width)) equalities in
      case c of
        BinaryExpr k left right \<Rightarrow>
          if k = Eq \<and> is_Constant left then replacements_insert A right left equalities else holds
      | _ \<Rightarrow> holds)"

definition equalities :: "apint_ops \<Rightarrow> expr list \<Rightarrow> replacements" where
  "equalities A constraints = fold (insert_equality A) constraints []"

definition simplifyExpr :: "expr_env \<Rightarrow> expr list \<Rightarrow> expr \<Rightarrow> expr option" where
  "simplifyExpr G constraints e =
     (if is_Constant e then Some e
      else ExprReplaceVisitor2_visit G (equalities (api G) constraints) e)"

text \<open>
  \<open>rewriteConstraints\<close>: \<open>add\<close> is \<open>addConstraintInternal\<close>; the flag says whether the constraints
  were changed.
\<close>

fun rewrite_loop ::
  "(expr \<Rightarrow> expr list \<Rightarrow> expr list option) \<Rightarrow> apint_ops \<Rightarrow> (expr \<Rightarrow> expr option) \<Rightarrow> expr list \<Rightarrow> expr list \<Rightarrow> bool
   \<Rightarrow> (expr list \<times> bool) option" where
  "rewrite_loop add A visit [] constraints changed = Some (constraints, changed)"
| "rewrite_loop add A visit (ce # old) constraints changed = do {
     e \<leftarrow> visit ce;
     if \<not> expr_eq A e ce then do {
       constraints \<leftarrow> add e constraints;
       rewrite_loop add A visit old constraints True }
     else rewrite_loop add A visit old (constraints @ [ce]) changed }"

definition rewriteConstraints ::
  "(expr \<Rightarrow> expr list \<Rightarrow> expr list option) \<Rightarrow> apint_ops \<Rightarrow> (expr \<Rightarrow> expr option) \<Rightarrow> expr list \<Rightarrow> (expr list \<times> bool) option" where
  "rewriteConstraints add A visit constraints = rewrite_loop add A visit constraints [] False"

lemma rewrite_loop_mono:
  assumes "\<And>e cs. mono_option (\<lambda>f. add f e cs)"
  shows "mono_option (\<lambda>f. rewrite_loop (add f) A visit old constraints changed)"
proof (induction old arbitrary: constraints changed)
  case Nil
  show ?case by (simp add: option.const_mono)
next
  case (Cons ce old)
  show ?case
    unfolding rewrite_loop.simps
    by (intro bind_mono option.const_mono if_mono assms Cons.IH)
qed

lemma rewriteConstraints_mono [partial_function_mono]:
  assumes "\<And>e cs. mono_option (\<lambda>f. add f e cs)"
  shows "mono_option (\<lambda>f. rewriteConstraints (add f) A visit constraints)"
  unfolding rewriteConstraints_def by (rule rewrite_loop_mono [OF assms])

partial_function (option) addConstraintInternal :: "expr_env \<Rightarrow> bool \<Rightarrow> expr \<Rightarrow> expr list \<Rightarrow> expr list option" where
  "addConstraintInternal G RewriteEqualities e constraints =
     (case e of
        ConstantExpr c \<Rightarrow> check (ConstantExpr_isTrue (api G) c) (Some constraints)
      | BinaryExpr k left right \<Rightarrow>
          if k = And then do {
            constraints \<leftarrow> addConstraintInternal G RewriteEqualities left constraints;
            addConstraintInternal G RewriteEqualities right constraints }
          else if k = Eq \<and> RewriteEqualities \<and> is_Constant left then do {
            (constraints, changed) \<leftarrow>
              rewriteConstraints (\<lambda>e cs. addConstraintInternal G RewriteEqualities e cs) (api G)
                (ExprReplaceVisitor_visit G right left) constraints;
            Some (constraints @ [e]) }
          else Some (constraints @ [e])
      | _ \<Rightarrow> Some (constraints @ [e]))"

definition addConstraint :: "expr_env \<Rightarrow> bool \<Rightarrow> expr \<Rightarrow> expr list \<Rightarrow> expr list option" where
  "addConstraint G RewriteEqualities e constraints = do {
     e \<leftarrow> simplifyExpr G constraints e;
     addConstraintInternal G RewriteEqualities e constraints }"

end
