(* ===== verification/ExprWeight.thy ===== *)
theory ExprWeight
  imports ExprPlain
begin

text \<open>
  A weight of expressions that no creation function exceeds: what it returns is plain when its
  operands are, and weighs at most as much as the node it was asked for.  The weight of an
  operand counts twice below an extraction or a cast, since extractions are distributed over
  concatenations, and a disjunction weighs more than a conjunction, since it becomes one when
  it is negated.  Rebuilding a node over lighter operands therefore gives a lighter expression,
  which is why rewriting that visits its own results ends.
\<close>

fun binary_weight :: "binkind \<Rightarrow> nat" where
  "binary_weight Or = 3"
| "binary_weight Shl = 3" | "binary_weight LShr = 3"
| "binary_weight Ult = 3" | "binary_weight Slt = 3" | "binary_weight Ugt = 3" | "binary_weight Sgt = 3"
| "binary_weight Ne = 3"
| "binary_weight Ule = 5" | "binary_weight Sle = 5" | "binary_weight Uge = 5" | "binary_weight Sge = 5"
| "binary_weight _ = 1"

fun weight :: "expr \<Rightarrow> nat" and weight_unode :: "unode \<Rightarrow> nat" where
  "weight (ConstantExpr c) = 1"
| "weight (NotOptimizedExpr e) = weight e + 1"
| "weight (ReadExpr root head index) = weight_unode head + weight index + 1"
| "weight (SelectExpr c t f) = weight c + weight t + weight f + 4"
| "weight (ConcatExpr l r) = weight l + weight r + 1"
| "weight (ExtractExpr e off w) = 2 * weight e"
| "weight (CastExpr k e w) = 2 * weight e"
| "weight (NotExpr e) = weight e + 1"
| "weight (BinaryExpr k l r) = weight l + weight r + binary_weight k"
| "weight_unode NullNode = 0"
| "weight_unode (UpdateNode nx index value) = weight_unode nx + weight index + weight value"


lemma weight_pos [simp]: "0 < weight e" "0 < weight e \<or> weight_unode u \<ge> 0"
  by (induction e and u) auto

lemma binary_weight_pos [simp]: "0 < binary_weight k"
  by (cases k) auto

lemma weight_constant: "is_Constant e \<Longrightarrow> weight e = 1" "\<not> is_Constant e \<Longrightarrow> 1 < weight e"
proof -
  show "is_Constant e \<Longrightarrow> weight e = 1" by (simp add: is_Constant_def split: expr.splits)
  assume e: "\<not> is_Constant e"
  show "1 < weight e"
  proof (cases e)
    case (BinaryExpr k l r)
    show ?thesis unfolding BinaryExpr weight.simps
      using weight_pos(1) [of l] weight_pos(1) [of r] binary_weight_pos [of k] by linarith
  next
    case (ExtractExpr x off w)
    show ?thesis unfolding ExtractExpr weight.simps using weight_pos(1) [of x] by linarith
  next
    case (CastExpr k x w)
    show ?thesis unfolding CastExpr weight.simps using weight_pos(1) [of x] by linarith
  qed (use e in \<open>auto simp: is_Constant_def\<close>)
qed

text \<open>The bound that every creation function keeps.\<close>

definition light :: "nat \<Rightarrow> expr \<Rightarrow> bool" where
  "light n e \<longleftrightarrow> plain e \<and> weight e \<le> n"

lemma light_constant [simp]: "light n (ConstantExpr c) \<longleftrightarrow> 1 \<le> n"
  by (simp add: light_def)

lemma light_mono: "light m e \<Longrightarrow> m \<le> n \<Longrightarrow> light n e"
  by (simp add: light_def)

lemma light_self [simp]: "light (weight e) e \<longleftrightarrow> plain e"
  by (simp add: light_def)

lemma BCREATE_R_light:
  assumes "BCREATE_R A k pl pr st l r = Some e" "1 \<le> n"
    and "\<And>c x. l = ConstantExpr c \<Longrightarrow> pr c r = Some x \<Longrightarrow> light n x"
    and "\<And>c x. r = ConstantExpr c \<Longrightarrow> pl l c = Some x \<Longrightarrow> light n x"
    and "\<And>x. st = Some x \<Longrightarrow> light n x"
  shows "light n e"
  using assms by (auto simp: BCREATE_R_def split: expr.splits)

lemma BCREATE_light:
  assumes "BCREATE A k st l r = Some e" "1 \<le> n" "\<And>x. st l r = Some x \<Longrightarrow> light n x"
  shows "light n e"
  using assms by (auto simp: BCREATE_def split: expr.splits)

lemma And_partial_light: "AndExpr_createPartial A l c = Some e \<Longrightarrow> plain l \<Longrightarrow> light (weight l + 2) e"
  by (auto simp: AndExpr_createPartial_def light_def div_kind_def split: if_splits)

lemma AndExpr_light: "AndExpr_create A l r = Some e \<Longrightarrow> plain l \<Longrightarrow> plain r \<Longrightarrow> light (weight l + weight r + 1) e"
  unfolding AndExpr_create_def
  by (erule BCREATE_R_light)
    (auto simp: AndExpr_createPartialR_def AndExpr_create_static_def light_def div_kind_def dest: And_partial_light)

lemma Or_partial_light: "OrExpr_createPartial A l c = Some e \<Longrightarrow> plain l \<Longrightarrow> light (weight l + 4) e"
  by (auto simp: OrExpr_createPartial_def light_def div_kind_def split: if_splits)

lemma OrExpr_light: "OrExpr_create A l r = Some e \<Longrightarrow> plain l \<Longrightarrow> plain r \<Longrightarrow> light (weight l + weight r + 3) e"
  unfolding OrExpr_create_def
  by (erule BCREATE_R_light)
    (auto simp: OrExpr_createPartialR_def OrExpr_create_static_def light_def div_kind_def dest: Or_partial_light)

lemma Eq_static_light: "EqExpr_create_static A l r = Some e \<Longrightarrow> plain l \<Longrightarrow> plain r \<Longrightarrow> light (weight l + weight r + 1) e"
  by (auto simp: EqExpr_create_static_def light_def div_kind_def split: if_splits)

lemma Eq_partial_light:
  "EqExpr_createPartialR G cl r = Some e \<Longrightarrow> \<not> ConstArrayOpt G \<Longrightarrow> plain r \<Longrightarrow> light (weight r + 2) e"
  "EqExpr_create_cr G x c = Some e \<Longrightarrow> \<not> ConstArrayOpt G \<Longrightarrow> plain x \<Longrightarrow> light (weight x + 2) e"
proof (induction G cl r and G x c arbitrary: e and e rule: EqExpr_createPartialR_EqExpr_create_cr.induct)
  case (1 G cl r)
  note eq = "1.prems"(1) [unfolded EqExpr_createPartialR.simps [of G cl r]]
  have static: "light (weight r + 2) e" if "EqExpr_create_static (api G) (ConstantExpr cl) r = Some e"
    using Eq_static_light [OF that] "1.prems"(3) by simp
  show ?case
  proof (cases "ap_width cl = Bool_width")
    case w: True
    show ?thesis
    proof (cases "ConstantExpr_isTrue (api G) cl")
      case True
      then show ?thesis using eq w "1.prems"(3) by (simp add: light_def)
    next
      case False
      note IH = "1.IH"(1,2) [OF w False]
      show ?thesis
      proof (cases r)
        case (BinaryExpr k a b)
        have p: "plain a" "plain b" using "1.prems"(3) BinaryExpr by simp_all
        consider "k = Eq \<and> EqExpr_is_false_const (api G) a"
          | "\<not> (k = Eq \<and> EqExpr_is_false_const (api G) a)" "k = Or"
          | "\<not> (k = Eq \<and> EqExpr_is_false_const (api G) a)" "k \<noteq> Or" by blast
        then show ?thesis
        proof cases
          case 1
          then have "e = b" using eq w False BinaryExpr by simp
          then show ?thesis using p BinaryExpr by (simp add: light_def)
        next
          case 2
          then obtain za na zb nb where n: "EqExpr_create_cr G a za = Some na" "EqExpr_create_cr G b zb = Some nb"
              "AndExpr_create (api G) na nb = Some e"
            and z: "ConstantExpr_create (api G) 0 (getWidth a) = Some za" "ConstantExpr_create (api G) 0 (getWidth b) = Some zb"
            using eq w False BinaryExpr by (auto simp: bind_eq_Some_conv)
          have "light (weight a + 2) na" using IH(1) [OF BinaryExpr _ _ z(1) n(1) "1.prems"(2) p(1)] 2 by blast
          moreover have "light (weight b + 2) nb" using IH(2) [OF BinaryExpr _ _ z(1) n(1) z(2) n(2) "1.prems"(2) p(2)] 2 by blast
          ultimately show ?thesis using AndExpr_light [OF n(3)] BinaryExpr 2(2) by (simp add: light_def)
        next
          case 3
          then show ?thesis using static eq w False BinaryExpr by (auto split: if_splits)
        qed
      qed (use static eq w False in simp_all)
    qed
  next
    case w: False
    note IH = "1.IH"(4-6) [OF w]
    show ?thesis
    proof (cases r)
      case (CastExpr k src ww)
      show ?thesis
      proof (cases "EqExpr_ext_of_trunc (api G) k cl (getWidth src)")
        case True
        then have "EqExpr_create_cr G src (ConstantExpr_ZExt (api G) cl (getWidth src)) = Some e" using eq w CastExpr by simp
        then have "light (weight src + 2) e" using IH(1) [OF CastExpr True _ "1.prems"(2)] "1.prems"(3) CastExpr by simp
        then show ?thesis using CastExpr by (simp add: light_def)
      next
        case False
        then show ?thesis using eq w CastExpr by auto
      qed
    next
      case (BinaryExpr k a b)
      show ?thesis
      proof (cases a rule: Constant_cases)
        case (Constant c1)
        have b: "plain b" using "1.prems"(3) BinaryExpr by simp
        consider "k = Add" | "k = Sub" | "k \<noteq> Add" "k \<noteq> Sub" by blast
        then show ?thesis
        proof cases
          case 1
          then have "light (weight b + 2) e"
            using eq w BinaryExpr Constant IH(2) [OF BinaryExpr Constant 1 _ _ "1.prems"(2) b] by (simp split: if_splits)
          then show ?thesis using BinaryExpr by (simp add: light_def)
        next
          case 2
          then have "light (weight b + 2) e"
            using eq w BinaryExpr Constant IH(3) [OF BinaryExpr Constant _ 2 _ _ "1.prems"(2) b] by (simp split: if_splits)
          then show ?thesis using BinaryExpr by (simp add: light_def)
        next
          case 3
          then show ?thesis using static eq w BinaryExpr Constant by simp
        qed
      next
        case other
        then show ?thesis using static eq w BinaryExpr by (cases a) (simp_all add: is_Constant_def)
      qed
    qed (use static eq w "1.prems"(2) in simp_all)
  qed
next
  case (2 G x c)
  from "2.prems"(1) show ?case
    unfolding EqExpr_create_cr.simps [of G x c]
    using "2.IH" "2.prems"(2,3) by (auto split: expr.splits if_splits)
qed

lemma EqExpr_light:
  assumes "EqExpr_create G l r = Some e" "\<not> ConstArrayOpt G" "plain l" "plain r"
  shows "light (weight l + weight r + 1) e"
  using assms(1) unfolding EqExpr_create_def CMPCREATE_T_def
  by (rule BCREATE_R_light)
    (use assms in \<open>auto simp: EqExpr_createPartial_def dest: Eq_partial_light Eq_static_light\<close>)

lemma createIsZero_light: "createIsZero G e = Some x \<Longrightarrow> \<not> ConstArrayOpt G \<Longrightarrow> plain e \<Longrightarrow> light (weight e + 2) x"
  by (auto simp: createIsZero_def bind_eq_Some_conv dest!: EqExpr_light)

section \<open>The other binary operators\<close>

lemma Xor_partial_light:
  "XorExpr_createPartialR G c r = Some x \<Longrightarrow> \<not> ConstArrayOpt G \<Longrightarrow> plain r \<Longrightarrow> light (weight r + 2) x"
  using Eq_partial_light(1)
  by (auto simp: XorExpr_createPartialR_def EqExpr_createPartial_def bind_eq_Some_conv light_def div_kind_def split: if_splits)

lemma XorExpr_light:
  "XorExpr_create G l r = Some x \<Longrightarrow> \<not> ConstArrayOpt G \<Longrightarrow> plain l \<Longrightarrow> plain r \<Longrightarrow> light (weight l + weight r + 1) x"
  unfolding XorExpr_create_def
  by (erule BCREATE_R_light)
    (auto simp: XorExpr_createPartial_def XorExpr_create_static_def light_def div_kind_def dest: Xor_partial_light)

lemma AddSub_partial_light:
  "AddExpr_createPartialR G cl r = Some x \<Longrightarrow> \<not> ConstArrayOpt G \<Longrightarrow> plain r \<Longrightarrow> light (weight r + 2) x"
  "SubExpr_createPartialR G cl r = Some x \<Longrightarrow> \<not> ConstArrayOpt G \<Longrightarrow> plain r \<Longrightarrow> light (weight r + 2) x"
  "AddExpr_create_cl G cl r = Some x \<Longrightarrow> \<not> ConstArrayOpt G \<Longrightarrow> plain r \<Longrightarrow> light (weight r + 2) x"
  "SubExpr_create_cl G cl r = Some x \<Longrightarrow> \<not> ConstArrayOpt G \<Longrightarrow> plain r \<Longrightarrow> light (weight r + 2) x"
proof (induction G cl r and G cl r and G cl r and G cl r arbitrary: x and x and x and x
    rule: AddExpr_createPartialR_SubExpr_createPartialR_AddExpr_create_cl_SubExpr_create_cl.induct)
  case (1 G cl r)
  from "1.prems"(1) show ?case
    unfolding AddExpr_createPartialR.simps [of G cl r] using "1.IH" "1.prems"(2,3)
    by (fastforce simp: light_def div_kind_def const_left_Some split: if_splits option.splits
        dest: Xor_partial_light [unfolded light_def])
next
  case (2 G cl r)
  from "2.prems"(1) show ?case
    unfolding SubExpr_createPartialR.simps [of G cl r] using "2.IH" "2.prems"(2,3)
    by (fastforce simp: light_def div_kind_def const_left_Some split: if_splits option.splits
        dest: Xor_partial_light [unfolded light_def])
next
  case (3 G cl r)
  from "3.prems"(1) show ?case
    unfolding AddExpr_create_cl.simps [of G cl r] using "3.IH" "3.prems"(2,3) by (auto split: expr.splits if_splits)
next
  case (4 G cl r)
  from "4.prems"(1) show ?case
    unfolding SubExpr_create_cl.simps [of G cl r] using "4.IH" "4.prems"(2,3) by (auto split: expr.splits if_splits)
qed

lemma Sub_cr_light:
  assumes "SubExpr_create_cr G l c = Some x" "\<not> ConstArrayOpt G" "plain l"
  shows "light (weight l + 2) x"
proof (cases l rule: Constant_cases)
  case (Constant cl)
  then show ?thesis using assms(1) by (auto simp: SubExpr_create_cr_def split: if_splits)
next
  case other
  then have eq: "SubExpr_create_cr G l c = check (getWidth l = ap_width c) (SubExpr_createPartial G l c)"
    by (cases l) (simp_all add: SubExpr_create_cr_def is_Constant_def)
  have "SubExpr_createPartial G l c = Some x" using assms(1) unfolding eq by simp
  then show ?thesis unfolding SubExpr_createPartial_def AddExpr_createPartial_def
    by (rule AddSub_partial_light(1)) (rule assms(2,3))+
qed

lemma AddSub_light:
  "AddExpr_create G l r = Some x \<Longrightarrow> \<not> ConstArrayOpt G \<Longrightarrow> plain l \<Longrightarrow> plain r \<Longrightarrow> light (weight l + weight r + 1) x"
  "SubExpr_create G l r = Some x \<Longrightarrow> \<not> ConstArrayOpt G \<Longrightarrow> plain l \<Longrightarrow> plain r \<Longrightarrow> light (weight l + weight r + 1) x"
  "AddExpr_create_static G l r = Some x \<Longrightarrow> \<not> ConstArrayOpt G \<Longrightarrow> plain l \<Longrightarrow> plain r \<Longrightarrow> light (weight l + weight r + 1) x"
  "SubExpr_create_static G l r = Some x \<Longrightarrow> \<not> ConstArrayOpt G \<Longrightarrow> plain l \<Longrightarrow> plain r \<Longrightarrow> light (weight l + weight r + 1) x"
proof (induction G l r and G l r and G l r and G l r arbitrary: x and x and x and x
    rule: AddExpr_create_SubExpr_create_AddExpr_create_static_SubExpr_create_static.induct)
  case (1 G l r)
  from "1.prems"(1) [unfolded AddExpr_create.simps [of G l r]] show ?case
    by (rule BCREATE_R_light) (use "1.prems" "1.IH" AddSub_partial_light(1) in \<open>auto simp: AddExpr_createPartial_def\<close>)
next
  case (2 G l r)
  from "2.prems"(1) [unfolded SubExpr_create.simps [of G l r]] show ?case
    by (rule BCREATE_R_light)
      (use "2.prems" "2.IH" AddSub_partial_light(1,2) in \<open>auto simp: SubExpr_createPartial_def AddExpr_createPartial_def\<close>)
next
  case (3 G l r)
  from "3.prems"(1) show ?case
    unfolding AddExpr_create_static.simps [of G l r] using "3.IH" "3.prems"(2-4)
    by (fastforce simp: light_def div_kind_def const_left_Some XorExpr_create_static_def bind_eq_Some_conv split: if_splits option.splits
        dest!: AddSub_partial_light(3) [unfolded light_def])
next
  case (4 G l r)
  from "4.prems"(1) show ?case
    unfolding SubExpr_create_static.simps [of G l r] using "4.IH" "4.prems"(2-4)
    by (fastforce simp: light_def div_kind_def const_left_Some XorExpr_create_static_def bind_eq_Some_conv split: if_splits option.splits
        dest!: AddSub_partial_light(3,4) [unfolded light_def] Sub_cr_light [unfolded light_def])
qed

lemma MulExpr_light:
  "MulExpr_create A l r = Some x \<Longrightarrow> plain l \<Longrightarrow> plain r \<Longrightarrow> light (weight l + weight r + 1) x"
  unfolding MulExpr_create_def
  by (erule BCREATE_R_light)
    (auto simp: MulExpr_createPartial_def MulExpr_createPartialR_def MulExpr_create_static_def AndExpr_createPartialR_def
      light_def div_kind_def split: if_splits dest: And_partial_light [unfolded light_def])

lemma division_light:
  assumes "plain l" "plain r" "nonzero_const r"
  shows "UDivExpr_create A l r = Some x \<Longrightarrow> light (weight l + weight r + 1) x"
    "SDivExpr_create A l r = Some x \<Longrightarrow> light (weight l + weight r + 1) x"
    "URemExpr_create A l r = Some x \<Longrightarrow> light (weight l + weight r + 1) x"
    "SRemExpr_create A l r = Some x \<Longrightarrow> light (weight l + weight r + 1) x"
  unfolding UDivExpr_create_def SDivExpr_create_def URemExpr_create_def SRemExpr_create_def
  by (erule BCREATE_light; use assms in \<open>auto simp: UDivExpr_create_static_def SDivExpr_create_static_def
      URemExpr_create_static_def SRemExpr_create_static_def light_def split: if_splits\<close>)+

lemma shift_order_light:
  assumes "\<not> ConstArrayOpt G" "plain l" "plain r"
  shows "ShlExpr_create G l r = Some x \<Longrightarrow> light (weight l + weight r + 3) x"
    "LShrExpr_create G l r = Some x \<Longrightarrow> light (weight l + weight r + 3) x"
    "AShrExpr_create (api G) l r = Some x \<Longrightarrow> light (weight l + weight r + 1) x"
    "UltExpr_create G l r = Some x \<Longrightarrow> light (weight l + weight r + 3) x"
    "SltExpr_create G l r = Some x \<Longrightarrow> light (weight l + weight r + 3) x"
    "UleExpr_create G l r = Some x \<Longrightarrow> light (weight l + weight r + 5) x"
    "SleExpr_create G l r = Some x \<Longrightarrow> light (weight l + weight r + 5) x"
  unfolding ShlExpr_create_def LShrExpr_create_def AShrExpr_create_def UltExpr_create_def SltExpr_create_def
    UleExpr_create_def SleExpr_create_def CMPCREATE_def
  by (erule BCREATE_light; use assms in \<open>auto simp: ShlExpr_create_static_def LShrExpr_create_static_def
      AShrExpr_create_static_def UltExpr_create_static_def SltExpr_create_static_def UleExpr_create_static_def
      SleExpr_create_static_def bind_eq_Some_conv light_def div_kind_def split: if_splits
      dest!: createIsZero_light [unfolded light_def] AndExpr_light [unfolded light_def] OrExpr_light [unfolded light_def]\<close>)+

lemma NeExpr_light:
  "NeExpr_create G l r = Some x \<Longrightarrow> \<not> ConstArrayOpt G \<Longrightarrow> plain l \<Longrightarrow> plain r \<Longrightarrow> light (weight l + weight r + 3) x"
  by (auto simp: NeExpr_create_def bind_eq_Some_conv light_def dest!: EqExpr_light [unfolded light_def])

lemma BinaryExpr_light:
  assumes "BinaryExpr_create G k l r = Some x" "\<not> ConstArrayOpt G" "plain l" "plain r" "div_kind k \<longrightarrow> nonzero_const r"
  shows "light (weight (BinaryExpr k l r)) x"
proof (cases "div_kind k")
  case True
  then show ?thesis using assms(1) division_light [OF assms(3,4), of "api G" x] assms(5)
    by (cases k) (auto simp: div_kind_def)
next
  case False
  then show ?thesis
    using assms(1) AddSub_light(1,2) [of G l r x] MulExpr_light [of "api G" l r x] AndExpr_light [of "api G" l r x]
      OrExpr_light [of "api G" l r x] XorExpr_light [of G l r x] EqExpr_light [of G l r x] NeExpr_light [of G l r x]
      shift_order_light [of G l r x] shift_order_light [of G r l x] assms(2-4)
    by (cases k) (simp_all add: div_kind_def UgtExpr_create_def UgeExpr_create_def SgtExpr_create_def SgeExpr_create_def
        add.commute add.left_commute)
qed

section \<open>Extraction, concatenation, reads and selection\<close>

context llvm_apint
begin

lemma expr_eq_weight: "expr_eq A a b \<Longrightarrow> wt H a \<Longrightarrow> wt H b \<Longrightarrow> weight a = weight b"
  using expr_eq_iff by simp

end

lemma Extract_Concat_light:
  "ExtractExpr_create A e off w = Some x \<Longrightarrow> plain e \<Longrightarrow> light (2 * weight e) x"
  "ConcatExpr_create A l r = Some x \<Longrightarrow> plain l \<Longrightarrow> plain r \<Longrightarrow> light (weight l + weight r + 1) x"
proof (induction A e off w and A l r arbitrary: x and x rule: ExtractExpr_create_ConcatExpr_create.induct)
  case (1 A e off w)
  note eq = "1.prems"(1) [unfolded ExtractExpr_create.simps [of A e off w]]
  have w: "0 < w \<and> off + w \<le> getWidth e" using eq by (simp split: if_splits)
  show ?case
  proof (cases "w = getWidth e")
    case True
    then show ?thesis using eq "1.prems"(2) by (simp add: light_def)
  next
    case False
    show ?thesis
    proof (cases e)
      case (ConcatExpr l r)
      have p: "plain l" "plain r" using "1.prems"(2) ConcatExpr by simp_all
      note ih = "1.IH" [OF w False ConcatExpr]
      consider "getWidth r \<le> off" | "\<not> getWidth r \<le> off" "off + w \<le> getWidth r"
        | "\<not> getWidth r \<le> off" "\<not> off + w \<le> getWidth r" by blast
      then show ?thesis
      proof cases
        case 1
        then have "ExtractExpr_create A l (off - getWidth r) w = Some x" using eq w False ConcatExpr by simp
        from ih(1) [OF 1 this p(1)] show ?thesis using ConcatExpr by (simp add: light_def)
      next
        case 2
        then have "ExtractExpr_create A r off w = Some x" using eq w False ConcatExpr by simp
        from ih(2) [OF 2 this p(2)] show ?thesis using ConcatExpr by (simp add: light_def)
      next
        case 3
        then obtain a b where ab: "ExtractExpr_create A l 0 (w + off - getWidth r) = Some a"
            "ExtractExpr_create A r off (getWidth r - off) = Some b" "ConcatExpr_create A a b = Some x"
          using eq w False ConcatExpr by (auto simp: bind_eq_Some_conv)
        have a: "light (2 * weight l) a" by (rule ih(3) [OF 3 ab(1) p(1)])
        have b: "light (2 * weight r) b" by (rule ih(4) [OF 3 ab(1,2) p(2)])
        have "light (weight a + weight b + 1) x" by (rule ih(5) [OF 3 ab]) (use a b in \<open>simp_all add: light_def\<close>)
        then show ?thesis using a b ConcatExpr by (simp add: light_def)
      qed
    qed (use eq w False "1.prems"(2) in \<open>auto simp: light_def\<close>)
  qed
next
  case (2 A l r)
  note eq = "2.prems"(1) [unfolded ConcatExpr_create.simps [of A l r]]
  show ?case
  proof (cases "\<exists>el lo lw er ro rw. l = ExtractExpr el lo lw \<and> r = ExtractExpr er ro rw
      \<and> expr_eq A el er \<and> ro + rw = lo")
    case True
    then obtain el lo lw er ro rw where lr: "l = ExtractExpr el lo lw" "r = ExtractExpr er ro rw"
      and c: "expr_eq A el er \<and> ro + rw = lo" by blast
    have "light (2 * weight el) x" by (rule "2.IH") (use lr c eq "2.prems"(2) in auto)
    then show ?thesis using lr by (simp add: light_def)
  next
    case False
    then have "x = ConcatExpr l r \<or> (\<exists>c. x = ConstantExpr c)"
      using eq by (auto split: expr.splits if_splits)
    then show ?thesis using "2.prems"(2,3) by (auto simp: light_def)
  qed
qed

lemma CastExpr_light:
  assumes "CastExpr_create A k e w = Some x" "plain e"
  shows "light (2 * weight e) x"
  using assms Extract_Concat_light(1) [of A e 0 w x]
  by (cases k) (auto simp: ZExtExpr_create_def SExtExpr_create_def light_def split: if_splits expr.splits)

lemma case_other: "\<not> is_Constant e \<Longrightarrow> (case e of ConstantExpr c \<Rightarrow> f c | _ \<Rightarrow> y) = y"
  by (cases e) (simp_all add: is_Constant_def)

lemma ReadExpr_scan_light:
  "ReadExpr_scan G index head = Some s \<Longrightarrow> plain_unode head \<Longrightarrow>
    (case s of ScanFound v \<Rightarrow> light (weight_unode head) v
     | ScanStop un b \<Rightarrow> plain_unode un \<and> weight_unode un \<le> weight_unode head)"
proof (induction G index head arbitrary: s rule: ReadExpr_scan.induct)
  case (1 G index)
  then show ?case by auto
next
  case (2 G index nx ui uv)
  have p: "plain_unode nx" "plain ui" "plain uv" using "2.prems"(2) by simp_all
  obtain cond where c: "EqExpr_create G index ui = Some cond" using "2.prems"(1) by (auto simp: bind_eq_Some_conv)
  show ?case
  proof (cases cond rule: Constant_cases)
    case (Constant ce)
    show ?thesis
    proof (cases "ConstantExpr_isTrue (api G) ce")
      case True
      then have "s = ScanFound uv" using "2.prems"(1) c Constant by simp
      then show ?thesis using p by (simp add: light_def)
    next
      case False
      then have "ReadExpr_scan G index nx = Some s" using "2.prems"(1) c Constant by simp
      from "2.IH" [OF c Constant False this p(1)] show ?thesis
        by (auto simp: light_def split: read_scan.splits)
    qed
  next
    case other
    then have "s = ScanStop (UpdateNode nx ui uv) True" using "2.prems"(1) c by (simp add: case_other)
    then show ?thesis using p by simp
  qed
qed

lemma ReadExpr_light:
  assumes "ReadExpr_create G root head index = Some x" "plain (ReadExpr root head index)"
  shows "light (weight (ReadExpr root head index)) x"
proof -
  obtain s where s: "ReadExpr_scan G index head = Some s" using assms(1) by (auto simp: ReadExpr_create_def bind_eq_Some_conv)
  show ?thesis
  proof (cases s)
    case (ScanFound v)
    then show ?thesis using s assms ReadExpr_scan_light [OF s] by (simp add: ReadExpr_create_def light_def)
  next
    case (ScanStop un b)
    have un: "plain_unode un" "weight_unode un \<le> weight_unode head"
      using ReadExpr_scan_light [OF s] ScanStop assms(2) by simp_all
    have "(\<exists>h. x = ReadExpr root h index \<and> (h = un \<or> h = head)) \<or> (\<exists>c. x = ConstantExpr c)"
    proof (cases index rule: Constant_cases)
      case (Constant c)
      then show ?thesis using assms(1) s ScanStop
        by (auto simp: ReadExpr_create_def ReadExpr_shorten_def bind_eq_Some_conv split: if_splits)
    next
      case other
      then show ?thesis using assms(1) s ScanStop
        by (auto simp: ReadExpr_create_def ReadExpr_shorten_def case_other split: if_splits)
    qed
    then show ?thesis using un assms(2) by (auto simp: light_def)
  qed
qed

lemma SelectExpr_light:
  assumes "SelectExpr_create G c t f = Some x" "\<not> ConstArrayOpt G" "plain c" "plain t" "plain f"
  shows "light (weight c + weight t + weight f + 4) x"
proof -
  have eq: "(case c of
           ConstantExpr ce \<Rightarrow> Some (if ConstantExpr_isTrue (api G) ce then t else f)
         | _ \<Rightarrow>
             if expr_eq (api G) t f then Some t
             else if getWidth t = Bool_width then
               (case t of
                  ConstantExpr ct \<Rightarrow>
                    if ConstantExpr_isTrue (api G) ct then OrExpr_create (api G) c f
                    else do { nc \<leftarrow> createIsZero G c; AndExpr_create (api G) nc f }
                | _ \<Rightarrow>
                    (case f of
                       ConstantExpr cf \<Rightarrow>
                         if ConstantExpr_isTrue (api G) cf
                         then do { nc \<leftarrow> createIsZero G c; OrExpr_create (api G) nc t }
                         else AndExpr_create (api G) c t
                     | _ \<Rightarrow> Some (SelectExpr c t f)))
             else Some (SelectExpr c t f)) = Some x"
    using assms(1) by (simp add: SelectExpr_create_def Let_def)
  consider "x = t \<or> x = f \<or> x = SelectExpr c t f" | "OrExpr_create (api G) c f = Some x"
    | nc where "createIsZero G c = Some nc" "AndExpr_create (api G) nc f = Some x"
    | nc cf where "f = ConstantExpr cf" "createIsZero G c = Some nc" "OrExpr_create (api G) nc t = Some x"
    | "AndExpr_create (api G) c t = Some x"
  proof (cases c rule: Constant_cases)
    case (Constant ce)
    then have "x = t \<or> x = f" using eq by (auto split: if_splits)
    then show ?thesis using that(1) by blast
  next
    case c: other
    show ?thesis
    proof (cases "expr_eq (api G) t f \<or> getWidth t \<noteq> Bool_width")
      case True
      then have "x = t \<or> x = SelectExpr c t f" using eq c by (auto simp: case_other split: if_splits)
      then show ?thesis using that(1) by blast
    next
      case w: False
      show ?thesis
      proof (cases t rule: Constant_cases)
        case (Constant ct)
        then have "OrExpr_create (api G) c f = Some x \<or> createIsZero G c \<bind> (\<lambda>nc. AndExpr_create (api G) nc f) = Some x"
          using eq c w by (auto simp: case_other split: if_splits)
        then show ?thesis using that(2,3) by (auto simp: bind_eq_Some_conv)
      next
        case t: other
        show ?thesis
        proof (cases f rule: Constant_cases)
          case (Constant cf)
          then have "createIsZero G c \<bind> (\<lambda>nc. OrExpr_create (api G) nc t) = Some x \<or> AndExpr_create (api G) c t = Some x"
            using eq c w t by (auto simp: case_other split: if_splits)
          then show ?thesis using that(4) [OF Constant] that(5) by (auto simp: bind_eq_Some_conv)
        next
          case other
          then have "x = SelectExpr c t f" using eq c w t by (auto simp: case_other)
          then show ?thesis using that(1) by blast
        qed
      qed
    qed
  qed
  then show ?thesis
  proof cases
    case 1
    then show ?thesis using assms(3-5) by (auto simp: light_def)
  next
    case 2
    then show ?thesis using OrExpr_light [OF 2 assms(3,5)] by (simp add: light_def)
  next
    case (3 nc)
    then show ?thesis using createIsZero_light [OF 3(1) assms(2,3)] AndExpr_light [OF 3(2) _ assms(5)] by (auto simp: light_def)
  next
    case (4 nc cf)
    then show ?thesis using createIsZero_light [OF 4(2) assms(2,3)] OrExpr_light [OF 4(3) _ assms(4)] by (auto simp: light_def)
  next
    case 5
    then show ?thesis using AndExpr_light [OF 5 assms(3,4)] by (simp add: light_def)
  qed
qed

end
