(* ===== verification/ConstraintsSound.thy ===== *)
theory ConstraintsSound
  imports Constraints ExprWeight SolverContract
begin

text \<open>
  The visitors of the constraint manager end, keep the value of an expression under the inputs
  in which the replaced expressions have the values of their replacements, and return a lighter
  expression if they change it.  Hence adding a constraint ends, and the constraints that come
  out have the inputs that satisfy the old ones and the new one.
\<close>

section \<open>Nodes over other kids\<close>

fun with_kids :: "expr \<Rightarrow> expr list \<Rightarrow> expr" where
  "with_kids (NotOptimizedExpr _) [e] = NotOptimizedExpr e"
| "with_kids (ReadExpr root head _) [index] = ReadExpr root head index"
| "with_kids (SelectExpr _ _ _) [c, t, f] = SelectExpr c t f"
| "with_kids (ConcatExpr _ _) [l, r] = ConcatExpr l r"
| "with_kids (ExtractExpr _ off w) [e] = ExtractExpr e off w"
| "with_kids (CastExpr k _ w) [e] = CastExpr k e w"
| "with_kids (NotExpr _) [e] = NotExpr e"
| "with_kids (BinaryExpr k _ _) [l, r] = BinaryExpr k l r"
| "with_kids e _ = e"

lemma rebuild_light:
  assumes "rebuild G e ks = Some x" "\<not> ConstArrayOpt G" "length ks = length (kids e)" "plain (with_kids e ks)"
  shows "light (weight (with_kids e ks)) x"
proof (cases e)
  case (ReadExpr root head index)
  then obtain k where "ks = [k]" using assms(3) by (auto simp: length_Suc_conv)
  then show ?thesis using assms ReadExpr ReadExpr_light [of G root head k x] by simp
next
  case (SelectExpr c t f)
  then obtain k1 k2 k3 where "ks = [k1, k2, k3]" using assms(3) by (auto simp: length_Suc_conv)
  then show ?thesis using assms SelectExpr SelectExpr_light [of G k1 k2 k3 x] by simp
next
  case (ConcatExpr l r)
  then obtain k1 k2 where "ks = [k1, k2]" using assms(3) by (auto simp: length_Suc_conv)
  then show ?thesis using assms ConcatExpr Extract_Concat_light(2) [of "api G" k1 k2 x] by simp
next
  case (ExtractExpr y off w)
  then obtain k where "ks = [k]" using assms(3) by (auto simp: length_Suc_conv)
  then show ?thesis using assms ExtractExpr Extract_Concat_light(1) [of "api G" k off w x] by simp
next
  case (CastExpr c y w)
  then obtain k where "ks = [k]" using assms(3) by (auto simp: length_Suc_conv)
  then show ?thesis using assms CastExpr CastExpr_light [of "api G" c k w x] by simp
next
  case (NotExpr y)
  then obtain k where k: "ks = [k]" using assms(3) by (auto simp: length_Suc_conv)
  then have "x = NotExpr k \<or> (\<exists>c. x = ConstantExpr c)"
    using assms(1) NotExpr by (cases k) (auto simp: NotExpr_create_def)
  then show ?thesis using assms(4) NotExpr k by (auto simp: light_def)
next
  case (BinaryExpr b l r)
  then obtain k1 k2 where "ks = [k1, k2]" using assms(3) by (auto simp: length_Suc_conv)
  then show ?thesis using assms BinaryExpr BinaryExpr_light [of G b k1 k2 x] by simp
next
  case (NotOptimizedExpr y)
  then obtain k where "ks = [k]" using assms(3) by (auto simp: length_Suc_conv)
  then show ?thesis using assms(4) NotOptimizedExpr by simp
qed (use assms in auto)

lemma with_kids_weight:
  assumes "list_all2 (\<lambda>k k'. weight k' \<le> weight k \<and> (k' \<noteq> k \<longrightarrow> weight k' < weight k)) (kids e) ks"
  shows "ks \<noteq> kids e \<Longrightarrow> weight (with_kids e ks) < weight e"
  using assms by (cases e) (auto simp: list_all2_Cons1)

lemma kids_weight: "\<not> is_Constant e \<Longrightarrow> sum_list (map weight (kids e)) < weight e"
  by (cases e) (auto simp: is_Constant_def)

lemma with_kids_kids: "length ks = length (kids e) \<Longrightarrow> kids (with_kids e ks) = ks"
  by (cases e) (auto simp: length_Suc_conv)

lemma with_kids_sem: "length ks = length (kids e) \<Longrightarrow> length vs = length (kids e) \<Longrightarrow> sem_node \<rho> e vs = sem_node \<rho> (with_kids e ks) vs"
  by (cases e) (auto simp: length_Suc_conv)

lemma with_kids_wt:
  assumes "wt H e" "map getWidth ks = map getWidth (kids e)" "\<forall>k \<in> set ks. wt H k"
  shows "wt H (with_kids e ks)" "getWidth (with_kids e ks) = getWidth e"
  using assms by (cases e; auto simp: map_eq_Cons_conv)+

section \<open>What a visit returns\<close>

definition visited :: "(nat \<Rightarrow> array) \<Rightarrow> assignment set \<Rightarrow> expr \<Rightarrow> expr \<Rightarrow> bool" where
  "visited H R e x \<longleftrightarrow> term_ok H x \<and> getWidth x = getWidth e \<and> (\<forall>\<rho> \<in> R. sem \<rho> x = sem \<rho> e)
     \<and> weight x \<le> weight e \<and> (x \<noteq> e \<longrightarrow> weight x < weight e)"

lemma visited_refl: "term_ok H e \<Longrightarrow> visited H R e e"
  by (simp add: visited_def)

lemma visited_trans: "visited H R e x \<Longrightarrow> visited H R x y \<Longrightarrow> visited H R e y"
  unfolding visited_def by force

lemma visited_same_constant: "visited H R e x \<Longrightarrow> is_Constant e \<Longrightarrow> x = e"
  using weight_constant(1) [of e] weight_pos(1) [of x] by (auto simp: visited_def)

text \<open>A replacement: a constant of the width and the value of what it replaces.\<close>

definition replaces :: "(nat \<Rightarrow> array) \<Rightarrow> assignment set \<Rightarrow> expr \<Rightarrow> expr \<Rightarrow> bool" where
  "replaces H R src dst \<longleftrightarrow> wt H src \<and> is_Constant dst \<and> wt H dst \<and> getWidth dst = getWidth src \<and> (\<forall>\<rho> \<in> R. sem \<rho> dst = sem \<rho> src)"

lemma replaces_visited: "replaces H R e x \<Longrightarrow> \<not> is_Constant e \<Longrightarrow> visited H R e x"
  using weight_constant [of e] weight_constant [of x]
  by (auto simp: replaces_def visited_def term_ok_def is_Constant_def split: expr.splits)

lemma plain_with_kids:
  assumes "plain e" "\<forall>k \<in> set ks. plain k" "length ks = length (kids e)" "list_all2 (\<lambda>k k'. is_Constant k \<longrightarrow> k' = k) (kids e) ks"
  shows "plain (with_kids e ks)"
proof (cases e)
  case (BinaryExpr k l r)
  then obtain k1 k2 where ks: "ks = [k1, k2]" using assms(3) by (auto simp: length_Suc_conv)
  have "nonzero_const k2" if "div_kind k"
  proof -
    have "nonzero_const r" using assms(1) BinaryExpr that by simp
    moreover from this have "is_Constant r" by (simp add: nonzero_const_def is_Constant_def split: expr.splits)
    ultimately show ?thesis using assms(4) BinaryExpr ks by simp
  qed
  then show ?thesis using assms(1,2) BinaryExpr ks by simp
qed (use assms(1-3) in \<open>auto simp: length_Suc_conv\<close>)

context expr_creation
begin

lemma rebuild_visited:
  assumes e: "term_ok H e" "\<not> is_Constant e" and ks: "list_all2 (visited H R) (kids e) ks" "ks \<noteq> kids e"
  shows "\<exists>x. rebuild G e ks = Some x \<and> visited H R e x \<and> weight x < weight e"
proof -
  have len: "length ks = length (kids e)" using list_all2_lengthD [OF ks(1)] by simp
  have each: "k \<in> set ks \<Longrightarrow> term_ok H k" for k
    using ks(1) by (auto simp: list_all2_conv_all_nth in_set_conv_nth visited_def)
  then have wtk: "\<forall>k \<in> set ks. wt H k" and plk: "\<forall>k \<in> set ks. plain k" by (auto simp: term_ok_def)
  have wid: "map getWidth ks = map getWidth (kids e)"
    using ks(1) len by (auto simp: list_all2_conv_all_nth visited_def intro!: nth_equalityI)
  have const: "list_all2 (\<lambda>k k'. is_Constant k \<longrightarrow> k' = k) (kids e) ks"
    by (rule list_all2_mono [OF ks(1)]) (blast dest: visited_same_constant)
  have pl: "plain (with_kids e ks)" by (rule plain_with_kids [OF _ plk len const]) (use e in \<open>simp add: term_ok_def\<close>)
  have wt: "wt H (with_kids e ks)" "getWidth (with_kids e ks) = getWidth e"
    using with_kids_wt [OF _ wid wtk] e by (simp_all add: term_ok_def)
  have div: "div_ok \<rho> e ks" for \<rho>
    using div_ok_kids [of \<rho> "with_kids e ks" ks] plain_evaluable(1) [OF pl] with_kids_kids [OF len] len
    by (cases e) (auto simp: div_ok_def length_Suc_conv)
  have node: "sem_node \<rho> e (map (sem \<rho>) ks) = sem \<rho> (with_kids e ks)" for \<rho>
    using with_kids_sem [OF len, of "map (sem \<rho>) ks" \<rho>] len sem_node_kids [of \<rho> "with_kids e ks"] with_kids_kids [OF len] by simp
  have "wt H e" using e(1) by (simp add: term_ok_def)
  then have d: "denotes H \<rho> (rebuild G e ks) (sem \<rho> (with_kids e ks))" for \<rho>
    using rebuild_sound [OF _ e(2) wid wtk div] unfolding node by blast
  then obtain x where x: "rebuild G e ks = Some x" "wt H x" by (auto simp: denotes_def)
  have s: "sem \<rho> x = sem \<rho> (with_kids e ks)" for \<rho> using d [of \<rho>] x by simp
  then have "getWidth x = getWidth e" using wt_sem_width [OF x(2), of undefined] wt_sem_width [OF wt(1), of undefined] wt(2) by simp
  moreover have "sem \<rho> x = sem \<rho> e" if "\<rho> \<in> R" for \<rho>
  proof -
    have "map (sem \<rho>) ks = map (sem \<rho>) (kids e)"
      using ks(1) len that by (auto simp: list_all2_conv_all_nth visited_def intro!: nth_equalityI)
    then show ?thesis using s [of \<rho>] node [of \<rho>] sem_node_kids [of \<rho> e] by simp
  qed
  moreover have l: "light (weight (with_kids e ks)) x" by (rule rebuild_light [OF x(1) no_const_array_opt len pl])
  moreover have "weight (with_kids e ks) < weight e"
    by (rule with_kids_weight [OF list_all2_mono [OF ks(1)] ks(2)]) (simp add: visited_def)
  ultimately show ?thesis using x by (simp add: visited_def light_def term_ok_def)
qed

lemma kids_term: "term_ok H e \<Longrightarrow> k \<in> set (kids e) \<Longrightarrow> term_ok H k"
  by (cases e) (auto simp: term_ok_def)

lemma same_kids:
  assumes "\<forall>k \<in> set ks. term_ok H k" "\<forall>k \<in> set ls. term_ok H k"
  shows "list_all2 (expr_eq (api G)) ks ls \<longleftrightarrow> ks = ls"
proof -
  have "expr_eq (api G) x y \<longleftrightarrow> x = y" if "x \<in> set ks" "y \<in> set ls" for x y
    using assms that by (intro expr_eq_iff [of H]) (simp_all add: term_ok_def)
  then have "list_all2 (expr_eq (api G)) ks ls = list_all2 (=) ks ls" by (intro list.rel_cong) auto
  then show ?thesis by (simp add: list.rel_eq)
qed

lemma visited_kids_term: "list_all2 (visited H R) es ks \<Longrightarrow> \<forall>k \<in> set ks. term_ok H k"
  by (auto simp: list_all2_conv_all_nth in_set_conv_nth visited_def)

section \<open>The visitors\<close>

lemma those_visited:
  assumes "\<And>k. k \<in> set es \<Longrightarrow> \<exists>x. f k = Some x \<and> visited H R k x"
  shows "\<exists>ks. those (map f es) = Some ks \<and> list_all2 (visited H R) es ks"
  using assms
proof (induction es)
  case (Cons e es)
  obtain x where "f e = Some x" "visited H R e x" using Cons.prems by auto
  moreover obtain ks where "those (map f es) = Some ks" "list_all2 (visited H R) es ks" using Cons.IH Cons.prems by auto
  ultimately show ?case by simp
qed simp

lemma ExprReplaceVisitor_visited:
  assumes r: "replaces H R src dst"
  shows "term_ok H e \<Longrightarrow> \<exists>x. ExprReplaceVisitor_visit G src dst e = Some x \<and> visited H R e x"
proof (induction e rule: measure_induct_rule [of size])
  case (less e)
  show ?case
  proof (cases "is_Constant e")
    case True
    then show ?thesis using visited_refl [OF less.prems] by (simp add: ExprReplaceVisitor_visit.simps [of G src dst e])
  next
    case nc: False
    have same: "expr_eq (api G) x src \<longleftrightarrow> x = src" if "wt H x" for x
      using expr_eq_iff [OF that, of src] r by (simp add: replaces_def)
    have post: "visited H R e (if is_Constant x then x else case replace_action (api G) src dst x of ChangeTo y \<Rightarrow> y | _ \<Rightarrow> x)"
      if x: "visited H R e x" for x
    proof (cases "is_Constant x \<or> x \<noteq> src")
      case True
      then show ?thesis using x same [of x] by (auto simp: replace_action_def visited_def term_ok_def)
    next
      case False
      then have "visited H R x dst" using replaces_visited [OF r] by blast
      then show ?thesis using False x same [of x] visited_trans [OF x, of dst] by (simp add: replace_action_def visited_def term_ok_def)
    qed
    obtain ks where ks: "those (map (ExprReplaceVisitor_visit G src dst) (kids e)) = Some ks" "list_all2 (visited H R) (kids e) ks"
      using those_visited [of "kids e" "ExprReplaceVisitor_visit G src dst" H R] less.IH kids_size kids_term [OF less.prems] by blast
    have kt: "\<forall>k \<in> set (kids e). term_ok H k" using kids_term [OF less.prems] by blast
    obtain e' where e': "(if list_all2 (expr_eq (api G)) ks (kids e) then Some e else rebuild G e ks) = Some e'" "visited H R e e'"
      using same_kids [OF visited_kids_term [OF ks(2)] kt] rebuild_visited [OF less.prems nc ks(2)] visited_refl [OF less.prems]
      by (cases "ks = kids e") auto
    show ?thesis
    proof (cases "expr_eq (api G) e src")
      case True
      then have "e = src" using same less.prems by (simp add: term_ok_def)
      then show ?thesis using True nc replaces_visited [OF r]
        by (simp add: ExprReplaceVisitor_visit.simps [of G src dst src] visitActual_def replace_action_def)
    next
      case False
      have "ExprReplaceVisitor_visit G src dst e =
          Some (if is_Constant e' then e' else case replace_action (api G) src dst e' of ChangeTo y \<Rightarrow> y | _ \<Rightarrow> e')"
        using nc False ks(1) e'(1)
        by (simp add: ExprReplaceVisitor_visit.simps [of G src dst e] visitActual_def replace_action_def visit_children_def
            split: if_splits)
      then show ?thesis using post [OF e'(2)] by blast
    qed
  qed
qed

text \<open>The recursive visitor: the nodes that it visits again are lighter.\<close>

definition replacements_ok :: "(nat \<Rightarrow> array) \<Rightarrow> assignment set \<Rightarrow> replacements \<Rightarrow> bool" where
  "replacements_ok H R m \<longleftrightarrow> (\<forall>(k, v) \<in> set m. replaces H R k v)"

lemma replacements_find_ok:
  "replacements_ok H R m \<Longrightarrow> wt H e \<Longrightarrow> replacements_find (api G) e m = Some v \<Longrightarrow> replaces H R e v"
proof (induction m)
  case (Cons y m)
  obtain k w where y: "y = (k, w)" by (cases y)
  have k: "replaces H R k w" "replacements_ok H R m" using Cons.prems(1) y by (simp_all add: replacements_ok_def)
  show ?case
  proof (cases "expr_eq (api G) k e")
    case True
    then have "k = e" using expr_eq_iff [of H k e] k(1) Cons.prems(2) by (simp add: replaces_def)
    then show ?thesis using Cons.prems(3) y k(1) True by simp
  next
    case False
    then show ?thesis using Cons.IH [OF k(2) Cons.prems(2)] Cons.prems(3) y by simp
  qed
qed simp

lemma replace_post_visited:
  assumes "replacements_ok H R m" "visited H R e x"
  shows "visited H R e (replace_post (api G) m x)"
proof (cases "is_Constant x \<or> replacements_find (api G) x m = None")
  case True
  then show ?thesis using assms(2) by (auto simp: replace_post_def)
next
  case False
  then obtain v where v: "replacements_find (api G) x m = Some v" "\<not> is_Constant x" by auto
  have "wt H x" using assms(2) by (simp add: visited_def term_ok_def)
  then have "visited H R x v" using replaces_visited [OF replacements_find_ok [OF assms(1) _ v(1)] v(2)] by blast
  then show ?thesis using visited_trans [OF assms(2)] v by (simp add: replace_post_def)
qed

lemma ExprReplaceVisitor2_visited:
  assumes m: "replacements_ok H R m"
  shows "\<forall>e \<in> set es. term_ok H e \<Longrightarrow>
    \<exists>xs. ExprReplaceVisitor2_visits G m es = Some xs \<and> list_all2 (visited H R) es xs"
proof (induction es rule: measure_induct_rule [of "\<lambda>es. sum_list (map weight es)"])
  case (less es)
  show ?case
  proof (cases es)
    case Nil
    then show ?thesis by (simp add: ExprReplaceVisitor2_visits.simps [of G m "[]"])
  next
    case (Cons e rest)
    have e: "term_ok H e" "\<forall>k \<in> set rest. term_ok H k" using less.prems Cons by simp_all
    have w: "sum_list (map weight es) = weight e + sum_list (map weight rest)" using Cons by simp
    obtain xs where xs: "ExprReplaceVisitor2_visits G m rest = Some xs" "list_all2 (visited H R) rest xs"
      using less.IH [OF _ e(2)] w weight_pos(1) [of e] by auto
    have "\<exists>x. (if is_Constant e then Some e
          else do {
            ks \<leftarrow> ExprReplaceVisitor2_visits G m (kids e);
            e' \<leftarrow> (if list_all2 (expr_eq (api G)) ks (kids e) then Some e
                  else do {
                    r \<leftarrow> rebuild G e ks;
                    xs \<leftarrow> ExprReplaceVisitor2_visits G m [r];
                    Some (hd xs) });
            Some (replace_post (api G) m e') }) = Some x \<and> visited H R e x"
    proof (cases "is_Constant e")
      case True
      then show ?thesis using visited_refl [OF e(1)] by simp
    next
      case nc: False
      have kt: "\<forall>k \<in> set (kids e). term_ok H k" using kids_term [OF e(1)] by blast
      obtain ks where ks: "ExprReplaceVisitor2_visits G m (kids e) = Some ks" "list_all2 (visited H R) (kids e) ks"
        using less.IH [OF _ kt] kids_weight [OF nc] w by auto
      obtain e' where e': "(if list_all2 (expr_eq (api G)) ks (kids e) then Some e
          else do { r \<leftarrow> rebuild G e ks; xs \<leftarrow> ExprReplaceVisitor2_visits G m [r]; Some (hd xs) }) = Some e'" "visited H R e e'"
      proof (cases "ks = kids e")
        case True
        then show ?thesis using that visited_refl [OF e(1)] same_kids [OF visited_kids_term [OF ks(2)] kt] by simp
      next
        case False
        obtain r where r: "rebuild G e ks = Some r" "visited H R e r" "weight r < weight e"
          using rebuild_visited [OF e(1) nc ks(2) False] by blast
        have "term_ok H r" using r(2) by (simp add: visited_def)
        then obtain ys where ys: "ExprReplaceVisitor2_visits G m [r] = Some ys" "list_all2 (visited H R) [r] ys"
          using less.IH [of "[r]"] r(3) w by auto
        then have "visited H R r (hd ys)" by (auto simp: list_all2_Cons1)
        then have "visited H R e (hd ys)" by (rule visited_trans [OF r(2)])
        then show ?thesis using that r(1) ys(1) False same_kids [OF visited_kids_term [OF ks(2)] kt] by simp
      qed
      then show ?thesis using nc ks(1) replace_post_visited [OF m e'(2)] by simp
    qed
    then obtain x where x: "(if is_Constant e then Some e
          else do {
            ks \<leftarrow> ExprReplaceVisitor2_visits G m (kids e);
            e' \<leftarrow> (if list_all2 (expr_eq (api G)) ks (kids e) then Some e
                  else do {
                    r \<leftarrow> rebuild G e ks;
                    xs \<leftarrow> ExprReplaceVisitor2_visits G m [r];
                    Some (hd xs) });
            Some (replace_post (api G) m e') }) = Some x" "visited H R e x" by blast
    have "ExprReplaceVisitor2_visits G m es = Some (x # xs)"
      unfolding Cons ExprReplaceVisitor2_visits.simps [of G m "e # rest"] list.case x(1) xs(1) by simp
    then show ?thesis using Cons x(2) xs(2) by simp
  qed
qed

section \<open>Simplification by the constraints\<close>

lemma replacements_insert_ok: "replacements_ok H R m \<Longrightarrow> replaces H R k v \<Longrightarrow> replacements_ok H R (replacements_insert A k v m)"
  by (auto simp: replacements_insert_def replacements_ok_def)

lemma mk_ap_true: "mk_ap (Suc 0) 1 = bv_bool True"
  by (simp add: mk_ap_def bv_bool_def)

lemma insert_equality_ok:
  assumes c: "cond_ok H c" "\<forall>\<rho> \<in> R. true_in \<rho> c" and m: "replacements_ok H R m"
  shows "replacements_ok H R (insert_equality (api G) c m)"
proof -
  have "replaces H R c (ConstantExpr (ConstantExpr_alloc_u64 (api G) 1 Bool_width))"
    using c by (auto simp: replaces_def cond_ok_def true_in_def is_Constant_def mk_ap_true)
  then have holds: "replacements_ok H R (replacements_insert (api G) c (ConstantExpr (ConstantExpr_alloc_u64 (api G) 1 Bool_width)) m)"
    by (rule replacements_insert_ok [OF m])
  show ?thesis
  proof (cases c)
    case (BinaryExpr k left right)
    show ?thesis
    proof (cases "k = Eq \<and> is_Constant left")
      case True
      have "sem \<rho> left = sem \<rho> right" if "\<rho> \<in> R" for \<rho>
        using c(2) that BinaryExpr True c(1) bv_Eq [of "sem \<rho> left" "sem \<rho> right"] by (auto simp: true_in_def cond_ok_def)
      then have "replaces H R right left" using c(1) BinaryExpr True by (simp add: replaces_def cond_ok_def)
      then show ?thesis using BinaryExpr True replacements_insert_ok [OF m] by (simp add: insert_equality_def Let_def)
    next
      case False
      then show ?thesis using BinaryExpr holds by (auto simp: insert_equality_def Let_def)
    qed
  qed (use holds in \<open>simp_all add: insert_equality_def Let_def\<close>)
qed

lemma equalities_ok:
  assumes "\<forall>c \<in> set cs. cond_ok H c \<and> (\<forall>\<rho> \<in> R. true_in \<rho> c)"
  shows "replacements_ok H R (equalities (api G) cs)"
proof -
  have "replacements_ok H R m \<Longrightarrow> replacements_ok H R (fold (insert_equality (api G)) cs m)" for m
    using assms by (induction cs arbitrary: m) (simp_all add: insert_equality_ok)
  from this [of "[]"] show ?thesis unfolding equalities_def by (simp add: replacements_ok_def)
qed

lemma simplifyExpr_visited:
  assumes "\<forall>c \<in> set cs. cond_ok H c" "term_ok H e"
  shows "\<exists>x. simplifyExpr G cs e = Some x \<and> visited H (models H cs) e x"
proof (cases "is_Constant e")
  case True
  then show ?thesis using visited_refl [OF assms(2)] by (simp add: simplifyExpr_def)
next
  case False
  have "replacements_ok H (models H cs) (equalities (api G) cs)"
    by (rule equalities_ok) (use assms(1) in \<open>simp add: models_def\<close>)
  from ExprReplaceVisitor2_visited [OF this, of "[e]"] assms(2)
  obtain xs where "ExprReplaceVisitor2_visits G (equalities (api G) cs) [e] = Some xs" "list_all2 (visited H (models H cs)) [e] xs"
    by auto
  then show ?thesis using False by (auto simp: simplifyExpr_def ExprReplaceVisitor2_visit_def list_all2_Cons1)
qed

section \<open>Adding constraints\<close>

definition total_weight :: "expr list \<Rightarrow> nat" where
  "total_weight cs = sum_list (map weight cs)"

lemma total_weight_simps [simp]: "total_weight [] = 0" "total_weight (c # cs) = weight c + total_weight cs" "total_weight (cs @ ds) = total_weight cs + total_weight ds"
  by (simp_all add: total_weight_def)

text \<open>What adding \<open>e\<close> to \<open>cs\<close> yields.\<close>

definition added :: "(nat \<Rightarrow> array) \<Rightarrow> expr \<Rightarrow> expr list \<Rightarrow> expr list \<Rightarrow> bool" where
  "added H e cs cs' \<longleftrightarrow> (\<forall>c \<in> set cs'. cond_ok H c) \<and> models H cs' = models H (e # cs) \<and> total_weight cs' \<le> weight e + total_weight cs"

lemma models_Cons: "models H (c # cs) = {\<rho> \<in> models H cs. true_in \<rho> c}"
  by (auto simp: models_def)

lemma models_append: "models H (cs @ ds) = models H cs \<inter> models H ds"
  by (auto simp: models_def)

text \<open>
  The rewriting of the constraints \<open>old\<close> for the equality \<open>e\<close>, given that adding to lighter
  constraints is right: under \<open>e\<close> the constraints mean the same.
\<close>

lemma rewrite_loop_ok:
  assumes visit: "\<And>c. cond_ok H c \<Longrightarrow> \<exists>x. visit c = Some x \<and> visited H {\<rho>. true_in \<rho> e} c x"
    and add: "\<And>c cs. weight c + total_weight cs < n \<Longrightarrow> cond_ok H c \<Longrightarrow> \<forall>c \<in> set cs. cond_ok H c \<Longrightarrow> models H (c # cs) \<noteq> {} \<Longrightarrow>
      \<exists>cs'. add c cs = Some cs' \<and> added H c cs cs'"
  shows "\<forall>c \<in> set old. cond_ok H c \<Longrightarrow> \<forall>c \<in> set new. cond_ok H c \<Longrightarrow> total_weight new + total_weight old \<le> n \<Longrightarrow>
    models H (e # new @ old) \<noteq> {} \<Longrightarrow>
    \<exists>cs ch'. rewrite_loop add (api G) visit old new ch = Some (cs, ch') \<and> (\<forall>c \<in> set cs. cond_ok H c)
      \<and> models H (e # cs) = models H (e # new @ old) \<and> total_weight cs \<le> total_weight new + total_weight old"
proof (induction old arbitrary: new ch)
  case (Cons c old)
  have c: "cond_ok H c" "\<forall>c \<in> set old. cond_ok H c" using Cons.prems(1) by simp_all
  obtain x where x: "visit c = Some x" "visited H {\<rho>. true_in \<rho> e} c x" using visit [OF c(1)] by blast
  have xc: "cond_ok H x" using x(2) c(1) by (simp add: visited_def cond_ok_def term_ok_def)
  have eq: "expr_eq (api G) x c \<longleftrightarrow> x = c" using c(1) xc by (intro expr_eq_iff [of H]) (simp_all add: cond_ok_def)
  have same: "true_in \<rho> x = true_in \<rho> c" if "true_in \<rho> e" for \<rho> using x(2) that by (simp add: visited_def true_in_def)
  show ?case
  proof (cases "x = c")
    case True
    have "models H (e # (new @ [c]) @ old) = models H (e # new @ c # old)" by simp
    then show ?thesis
      using Cons.IH [OF c(2), of "new @ [c]" ch] Cons.prems(2-4) c(1) x(1) eq True by auto
  next
    case False
    have w: "weight x < weight c" using x(2) False by (simp add: visited_def)
    have all: "models H (e # new @ c # old) = {\<rho> \<in> models H (x # new) \<inter> models H old. true_in \<rho> e}"
      using same by (auto simp: models_def)
    then have "models H (x # new) \<noteq> {}" using Cons.prems(4) by auto
    then obtain new1 where n1: "add x new = Some new1" "added H x new new1"
      using add [of x new] w Cons.prems(2,3) xc by auto
    have "models H (e # new1 @ old) = models H (e # new @ c # old)"
      unfolding all using n1(2) by (auto simp: added_def models_Cons models_append)
    moreover have "total_weight new1 + total_weight old \<le> total_weight new + total_weight (c # old)" "\<forall>c \<in> set new1. cond_ok H c"
      using n1(2) w by (simp_all add: added_def)
    ultimately obtain cs ch' where "rewrite_loop add (api G) visit old new1 True = Some (cs, ch')" "\<forall>c \<in> set cs. cond_ok H c"
        "models H (e # cs) = models H (e # new @ c # old)" "total_weight cs \<le> total_weight new1 + total_weight old"
      using Cons.IH [OF c(2), of new1 True] Cons.prems(3,4) by auto
    then show ?thesis using x(1) eq False n1(1) \<open>total_weight new1 + total_weight old \<le> total_weight new + total_weight (c # old)\<close> by auto
  qed
qed simp

theorem addConstraintInternal_ok:
  "cond_ok H e \<Longrightarrow> \<forall>c \<in> set cs. cond_ok H c \<Longrightarrow> models H (e # cs) \<noteq> {} \<Longrightarrow>
    \<exists>cs'. addConstraintInternal G rw e cs = Some cs' \<and> added H e cs cs'"
proof (induction "weight e + total_weight cs" arbitrary: e cs rule: less_induct)
  case less
  have push: "added H e cs (cs @ [e])" using less.prems(1,2) by (auto simp: added_def models_def)
  show ?case
  proof (cases e)
    case (ConstantExpr c)
    have "c = bv_bool True" using less.prems(1,3) ConstantExpr by (auto simp: models_def true_in_def)
    then have "addConstraintInternal G rw e cs = Some cs" using ConstantExpr by (subst addConstraintInternal.simps) simp
    moreover have "models H (e # cs) = models H cs" using \<open>c = bv_bool True\<close> ConstantExpr by (auto simp: models_Cons)
    ultimately show ?thesis using less.prems(2) by (simp add: added_def)
  next
    case (BinaryExpr k l r)
    consider "k = And" | "k = Eq" "rw" "is_Constant l" | "k \<noteq> And" "\<not> (k = Eq \<and> rw \<and> is_Constant l)" by blast
    then show ?thesis
    proof cases
      case 1
      have lr: "cond_ok H l" "cond_ok H r" using less.prems(1) BinaryExpr 1 by (simp_all add: cond_ok_def)
      have tr: "true_in \<rho> e \<longleftrightarrow> true_in \<rho> l \<and> true_in \<rho> r" for \<rho>
      proof -
        have "sem \<rho> e = bv_bool (true_in \<rho> l \<and> true_in \<rho> r)"
          using BinaryExpr 1 cond_value [OF lr(1), of \<rho>] cond_value [OF lr(2), of \<rho>] by simp
        then show ?thesis by (simp add: true_in_def)
      qed
      have "models H (l # cs) \<noteq> {}" using less.prems(3) tr by (auto simp: models_Cons)
      then obtain cs1 where c1: "addConstraintInternal G rw l cs = Some cs1" "added H l cs cs1"
        using less.hyps [of l cs] lr(1) less.prems(2) BinaryExpr by auto
      have "models H (r # cs1) = models H (e # cs)" using c1(2) tr by (auto simp: added_def models_Cons)
      moreover have "weight r + total_weight cs1 < weight e + total_weight cs"
        using c1(2) binary_weight_pos [of k] unfolding BinaryExpr added_def weight.simps by linarith
      ultimately obtain cs2 where c2: "addConstraintInternal G rw r cs1 = Some cs2" "added H r cs1 cs2"
        using less.hyps [of r cs1] lr(2) c1(2) less.prems(3) unfolding added_def by blast
      have "addConstraintInternal G rw e cs = Some cs2"
        using BinaryExpr 1 c1(1) c2(1) by (subst addConstraintInternal.simps) simp
      moreover have "added H e cs cs2"
        using c1(2) c2(2) \<open>models H (r # cs1) = models H (e # cs)\<close> BinaryExpr by (simp add: added_def)
      ultimately show ?thesis by blast
    next
      case 2
      have rep: "replaces H {\<rho>. true_in \<rho> e} r l"
        using less.prems(1) BinaryExpr 2 bv_Eq [of "sem _ l" "sem _ r"] by (auto simp: replaces_def cond_ok_def true_in_def)
      obtain cs1 ch where c1: "rewriteConstraints (\<lambda>e cs. addConstraintInternal G rw e cs) (api G) (ExprReplaceVisitor_visit G r l) cs = Some (cs1, ch)"
          "\<forall>c \<in> set cs1. cond_ok H c" "models H (e # cs1) = models H (e # cs)" "total_weight cs1 \<le> total_weight cs"
        using rewrite_loop_ok [of H "ExprReplaceVisitor_visit G r l" e "total_weight cs" "\<lambda>e cs. addConstraintInternal G rw e cs" cs "[]" False]
          ExprReplaceVisitor_visited [OF rep] less.hyps less.prems weight_pos(1) [of e] cond_ok_term
        by (auto simp: rewriteConstraints_def)
      have "addConstraintInternal G rw e cs = Some (cs1 @ [e])"
        using BinaryExpr 2 c1(1) by (subst addConstraintInternal.simps) simp
      moreover have "added H e cs (cs1 @ [e])"
        using c1(2-4) less.prems(1) by (auto simp: added_def models_def)
      ultimately show ?thesis by blast
    next
      case 3
      then have "addConstraintInternal G rw e cs = Some (cs @ [e])"
        using BinaryExpr by (subst addConstraintInternal.simps) auto
      then show ?thesis using push by blast
    qed
  qed (use push in \<open>subst addConstraintInternal.simps, simp\<close>)+
qed

theorem addConstraint_ok:
  assumes "cond_ok H e" "\<forall>c \<in> set cs. cond_ok H c" "models H (e # cs) \<noteq> {}"
  shows "\<exists>cs'. addConstraint G rw e cs = Some cs' \<and> (\<forall>c \<in> set cs'. cond_ok H c) \<and> models H cs' = models H (e # cs)"
proof -
  obtain x where x: "simplifyExpr G cs e = Some x" "visited H (models H cs) e x"
    using simplifyExpr_visited [OF assms(2) cond_ok_term [OF assms(1)]] by blast
  have xc: "cond_ok H x" using x(2) assms(1) by (simp add: visited_def cond_ok_def term_ok_def)
  have m: "models H (x # cs) = models H (e # cs)" using x(2) by (auto simp: models_Cons visited_def true_in_def)
  then have "models H (x # cs) \<noteq> {}" using assms(3) by simp
  then obtain cs' where "addConstraintInternal G rw x cs = Some cs'" "added H x cs cs'"
    using addConstraintInternal_ok [OF xc assms(2)] by blast
  then show ?thesis using x(1) m by (simp add: addConstraint_def added_def)
qed

end

end
