(* ===== verification/TimingSolver.thy ===== *)
theory TimingSolver
  imports ConstraintsSound SolverChain
begin

text \<open>
  \<open>TimingSolver.cpp\<close>: the solver of the executor, which asks about a state: it answers constant
  expressions itself and simplifies the others by the constraints of the state.  The time it
  takes and adds to the cost of the state is left out.
\<close>

section \<open>The operations\<close>

definition simplify_query :: "expr_env \<Rightarrow> bool \<Rightarrow> expr list \<Rightarrow> expr \<Rightarrow> query option" where
  "simplify_query G simplifyExprs constraints expr = do {
     expr \<leftarrow> (if simplifyExprs then simplifyExpr G constraints expr else Some expr);
     Some \<lparr>q_constraints = constraints, q_expr = expr\<rparr> }"

definition TimingSolver_evaluate ::
  "expr_env \<Rightarrow> 's solver_impl \<Rightarrow> bool \<Rightarrow> expr list \<Rightarrow> expr \<Rightarrow> 's \<Rightarrow> (validity option \<times> 's) option" where
  "TimingSolver_evaluate G S simplifyExprs constraints expr s =
     (case expr of
        ConstantExpr c \<Rightarrow> Some (Some (if ConstantExpr_isTrue (api G) c then VTrue else VFalse), s)
      | _ \<Rightarrow> do { q \<leftarrow> simplify_query G simplifyExprs constraints expr; Solver_evaluate G S q s })"

definition TimingSolver_mustBeTrue ::
  "expr_env \<Rightarrow> 's solver_impl \<Rightarrow> bool \<Rightarrow> expr list \<Rightarrow> expr \<Rightarrow> 's \<Rightarrow> (bool option \<times> 's) option" where
  "TimingSolver_mustBeTrue G S simplifyExprs constraints expr s =
     (case expr of
        ConstantExpr c \<Rightarrow> Some (Some (ConstantExpr_isTrue (api G) c), s)
      | _ \<Rightarrow> do { q \<leftarrow> simplify_query G simplifyExprs constraints expr; Solver_mustBeTrue G S q s })"

definition TimingSolver_mustBeFalse ::
  "expr_env \<Rightarrow> 's solver_impl \<Rightarrow> bool \<Rightarrow> expr list \<Rightarrow> expr \<Rightarrow> 's \<Rightarrow> (bool option \<times> 's) option" where
  "TimingSolver_mustBeFalse G S simplifyExprs constraints expr s = do {
     neg \<leftarrow> createIsZero G expr;
     TimingSolver_mustBeTrue G S simplifyExprs constraints neg s }"

definition TimingSolver_mayBeTrue ::
  "expr_env \<Rightarrow> 's solver_impl \<Rightarrow> bool \<Rightarrow> expr list \<Rightarrow> expr \<Rightarrow> 's \<Rightarrow> (bool option \<times> 's) option" where
  "TimingSolver_mayBeTrue G S simplifyExprs constraints expr s = do {
     (res, s) \<leftarrow> TimingSolver_mustBeFalse G S simplifyExprs constraints expr s;
     Some (map_option Not res, s) }"

definition TimingSolver_mayBeFalse ::
  "expr_env \<Rightarrow> 's solver_impl \<Rightarrow> bool \<Rightarrow> expr list \<Rightarrow> expr \<Rightarrow> 's \<Rightarrow> (bool option \<times> 's) option" where
  "TimingSolver_mayBeFalse G S simplifyExprs constraints expr s = do {
     (res, s) \<leftarrow> TimingSolver_mustBeTrue G S simplifyExprs constraints expr s;
     Some (map_option Not res, s) }"

definition TimingSolver_getValue ::
  "expr_env \<Rightarrow> 's solver_impl \<Rightarrow> bool \<Rightarrow> expr list \<Rightarrow> expr \<Rightarrow> 's \<Rightarrow> (apint option \<times> 's) option" where
  "TimingSolver_getValue G S simplifyExprs constraints expr s =
     (case expr of
        ConstantExpr c \<Rightarrow> Some (Some c, s)
      | _ \<Rightarrow> do { q \<leftarrow> simplify_query G simplifyExprs constraints expr; Solver_getValue S q s })"

definition TimingSolver_getInitialValues ::
  "expr_env \<Rightarrow> 's solver_impl \<Rightarrow> expr list \<Rightarrow> array list \<Rightarrow> 8 word list list \<Rightarrow> 's
   \<Rightarrow> ((bool \<times> 8 word list list) \<times> 's) option" where
  "TimingSolver_getInitialValues G S constraints objects result s =
     (if objects = [] then Some ((True, result), s)
      else Solver_getInitialValues S
        \<lparr>q_constraints = constraints, q_expr = ConstantExpr (ConstantExpr_alloc_u64 (api G) 0 Bool_width)\<rparr>
        objects result s)"

definition TimingSolver_getRange ::
  "expr_env \<Rightarrow> 's solver_impl \<Rightarrow> expr list \<Rightarrow> expr \<Rightarrow> 's \<Rightarrow> ((apint \<times> apint) \<times> 's) option" where
  "TimingSolver_getRange G S constraints expr s =
     Solver_getRange G S \<lparr>q_constraints = constraints, q_expr = expr\<rparr> s"

definition TimingSolver_setTimeout :: "'s solver_impl \<Rightarrow> nat \<Rightarrow> 's \<Rightarrow> 's" where
  "TimingSolver_setTimeout S t s = Solver_setCoreSolverTimeout S t s"

section \<open>What the operations answer\<close>

text \<open>The constraints of a state: conditions that some input satisfies.\<close>

definition path_ok :: "(nat \<Rightarrow> array) \<Rightarrow> expr list \<Rightarrow> bool" where
  "path_ok H cs \<longleftrightarrow> (\<forall>c \<in> set cs. cond_ok H c) \<and> models H cs \<noteq> {}"

definition validity_of :: "(nat \<Rightarrow> array) \<Rightarrow> expr list \<Rightarrow> expr \<Rightarrow> validity \<Rightarrow> bool" where
  "validity_of H cs e v = (case v of
     VTrue \<Rightarrow> (\<forall>\<rho> \<in> models H cs. true_in \<rho> e)
   | VFalse \<Rightarrow> (\<forall>\<rho> \<in> models H cs. \<not> true_in \<rho> e)
   | VUnknown \<Rightarrow> (\<exists>\<rho> \<in> models H cs. true_in \<rho> e) \<and> (\<exists>\<rho> \<in> models H cs. \<not> true_in \<rho> e))"

context expr_creation
begin

lemma simplify_query_ok:
  assumes "path_ok H cs" "term_ok H e"
  shows "\<exists>q. simplify_query G b cs e = Some q \<and> q_constraints q = cs \<and> query_ok H q \<and> satisfiable H q
    \<and> getWidth (q_expr q) = getWidth e \<and> (\<forall>\<rho> \<in> models H cs. sem \<rho> (q_expr q) = sem \<rho> e)"
proof -
  have "\<forall>c \<in> set cs. cond_ok H c" using assms(1) by (simp add: path_ok_def)
  then obtain x where x: "simplifyExpr G cs e = Some x" "visited H (models H cs) e x"
    using simplifyExpr_visited [OF _ assms(2)] by blast
  define y where "y = (if b then x else e)"
  have y: "visited H (models H cs) e y" using x(2) visited_refl [OF assms(2)] by (simp add: y_def)
  have "simplify_query G b cs e = Some \<lparr>q_constraints = cs, q_expr = y\<rparr>" using x(1) by (simp add: simplify_query_def y_def)
  then show ?thesis using y assms(1) by (simp add: visited_def query_ok_def path_ok_def satisfiable_def)
qed

lemma const_truth: "cond_ok H (ConstantExpr c) \<Longrightarrow> ConstantExpr_isTrue (api G) c \<longleftrightarrow> true_in \<rho> (ConstantExpr c)"
  by (rule ap_bool_cases [of c]) (auto simp: cond_ok_def true_in_def)

end

context solver_contract
begin

lemma Timing_evaluate:
  assumes "path_ok H cs" "cond_ok H e" "I s"
  shows "\<exists>r s'. TimingSolver_evaluate G S b cs e s = Some (r, s') \<and> I s' \<and> (\<forall>v. r = Some v \<longrightarrow> validity_of H cs e v)"
proof (cases e rule: Constant_cases)
  case (Constant c)
  then show ?thesis using const_truth [of H c] assms(2,3) by (auto simp: TimingSolver_evaluate_def validity_of_def)
next
  case other
  obtain q where q: "simplify_query G b cs e = Some q" "q_constraints q = cs" "query_ok H q" "satisfiable H q"
      "getWidth (q_expr q) = getWidth e" "\<forall>\<rho> \<in> models H cs. sem \<rho> (q_expr q) = sem \<rho> e"
    using simplify_query_ok [OF assms(1) cond_ok_term [OF assms(2)]] by blast
  have bq: "bool_query H q" using q(3,5) assms(2) by (simp add: bool_query_def cond_ok_def)
  have same: "true_in \<rho> (q_expr q) = true_in \<rho> e" if "\<rho> \<in> models H cs" for \<rho> using q(6) that by (simp add: true_in_def)
  have v: "validity_right H q v \<longleftrightarrow> validity_of H cs e v" for v
    using same by (cases v) (auto simp: validity_right_def validity_of_def valid_def refuted_def q(2))
  show ?thesis using evaluate_right [OF bq q(4) assms(3)] q(1) v other by (simp add: TimingSolver_evaluate_def case_other)
qed

lemma Timing_mustBeTrue:
  assumes "path_ok H cs" "cond_ok H e" "I s"
  shows "\<exists>r s'. TimingSolver_mustBeTrue G S b cs e s = Some (r, s') \<and> I s' \<and>
    (\<forall>v. r = Some v \<longrightarrow> v = (\<forall>\<rho> \<in> models H cs. true_in \<rho> e))"
proof (cases e rule: Constant_cases)
  case (Constant c)
  then show ?thesis using const_truth [of H c] assms by (auto simp: TimingSolver_mustBeTrue_def path_ok_def)
next
  case other
  obtain q where q: "simplify_query G b cs e = Some q" "q_constraints q = cs" "query_ok H q" "satisfiable H q"
      "getWidth (q_expr q) = getWidth e" "\<forall>\<rho> \<in> models H cs. sem \<rho> (q_expr q) = sem \<rho> e"
    using simplify_query_ok [OF assms(1) cond_ok_term [OF assms(2)]] by blast
  have bq: "bool_query H q" using q(3,5) assms(2) by (simp add: bool_query_def cond_ok_def)
  have v: "valid H q \<longleftrightarrow> (\<forall>\<rho> \<in> models H cs. true_in \<rho> e)" using q(6) by (simp add: valid_def q(2) true_in_def)
  show ?thesis using mustBeTrue_right [OF bq q(4) assms(3)] q(1) other
    by (simp add: TimingSolver_mustBeTrue_def case_other v)
qed

lemma Timing_mustBeFalse:
  assumes "path_ok H cs" "cond_ok H e" "I s"
  shows "\<exists>r s'. TimingSolver_mustBeFalse G S b cs e s = Some (r, s') \<and> I s' \<and>
    (\<forall>v. r = Some v \<longrightarrow> v = (\<forall>\<rho> \<in> models H cs. \<not> true_in \<rho> e))"
proof -
  obtain n where n: "createIsZero G e = Some n" "cond_ok H n" "\<forall>\<rho>. true_in \<rho> n = (\<not> true_in \<rho> e)"
    using negate_cond [OF assms(2)] by blast
  show ?thesis using Timing_mustBeTrue [OF assms(1) n(2) assms(3), of b] n(1,3) by (simp add: TimingSolver_mustBeFalse_def)
qed

lemma Timing_mayBeTrue:
  assumes "path_ok H cs" "cond_ok H e" "I s"
  shows "\<exists>r s'. TimingSolver_mayBeTrue G S b cs e s = Some (r, s') \<and> I s' \<and>
    (\<forall>v. r = Some v \<longrightarrow> v = (\<exists>\<rho> \<in> models H cs. true_in \<rho> e))"
proof -
  obtain r s' where r: "TimingSolver_mustBeFalse G S b cs e s = Some (r, s')" "I s'"
      "\<forall>v. r = Some v \<longrightarrow> v = (\<forall>\<rho> \<in> models H cs. \<not> true_in \<rho> e)"
    using Timing_mustBeFalse [OF assms] by blast
  show ?thesis using r by (cases r) (auto simp: TimingSolver_mayBeTrue_def)
qed

lemma Timing_mayBeFalse:
  assumes "path_ok H cs" "cond_ok H e" "I s"
  shows "\<exists>r s'. TimingSolver_mayBeFalse G S b cs e s = Some (r, s') \<and> I s' \<and>
    (\<forall>v. r = Some v \<longrightarrow> v = (\<exists>\<rho> \<in> models H cs. \<not> true_in \<rho> e))"
proof -
  obtain r s' where r: "TimingSolver_mustBeTrue G S b cs e s = Some (r, s')" "I s'"
      "\<forall>v. r = Some v \<longrightarrow> v = (\<forall>\<rho> \<in> models H cs. true_in \<rho> e)"
    using Timing_mustBeTrue [OF assms] by blast
  show ?thesis using r by (cases r) (auto simp: TimingSolver_mayBeFalse_def)
qed

lemma Timing_getValue:
  assumes "path_ok H cs" "term_ok H e" "I s"
  shows "\<exists>r s'. TimingSolver_getValue G S b cs e s = Some (r, s') \<and> I s' \<and>
    (\<forall>c. r = Some c \<longrightarrow> (\<exists>\<rho> \<in> models H cs. c = sem \<rho> e))"
proof (cases e rule: Constant_cases)
  case (Constant c)
  then show ?thesis using assms by (auto simp: TimingSolver_getValue_def path_ok_def)
next
  case other
  obtain q where q: "simplify_query G b cs e = Some q" "q_constraints q = cs" "query_ok H q" "satisfiable H q"
      "\<forall>\<rho> \<in> models H cs. sem \<rho> (q_expr q) = sem \<rho> e"
    using simplify_query_ok [OF assms(1,2)] by blast
  obtain r s' where r: "Solver_getValue S q s = Some (r, s')" "I s'"
      "\<forall>c. r = Some c \<longrightarrow> (\<exists>\<rho> \<in> models H cs. c = sem \<rho> (q_expr q))"
    using getValue_right [OF q(3,4) assms(3)] unfolding q(2) by blast
  have "\<exists>\<rho> \<in> models H cs. c = sem \<rho> e" if "r = Some c" for c using r(3) that q(5) by metis
  then show ?thesis using r(1,2) q(1) other by (simp add: TimingSolver_getValue_def case_other)
qed

lemma Timing_getInitialValues:
  assumes "path_ok H cs" "\<forall>x \<in> set objects. array_ok H x" "I s"
    and "objects \<noteq> [] \<Longrightarrow> D \<lparr>q_constraints = cs, q_expr = ConstantExpr (bv_bool False)\<rparr>"
    and "objects \<noteq> [] \<Longrightarrow> covers H objects \<lparr>q_constraints = cs, q_expr = ConstantExpr (bv_bool False)\<rparr>"
  shows "\<exists>ok vs s'. TimingSolver_getInitialValues G S cs objects [] s = Some ((ok, vs), s') \<and> I s' \<and>
    (ok \<longrightarrow> objects = [] \<or> (\<exists>a. values_of H objects vs a \<and> assignment_of a \<in> models H cs))"
proof (cases "objects = []")
  case True
  then have "TimingSolver_getInitialValues G S cs objects [] s = Some ((True, []), s)" by (simp add: TimingSolver_getInitialValues_def)
  then show ?thesis using assms(3) True by blast
next
  case False
  let ?q = "\<lparr>q_constraints = cs, q_expr = ConstantExpr (bv_bool False)\<rparr>"
  have q: "ConstantExpr (ConstantExpr_alloc_u64 (api G) 0 Bool_width) = ConstantExpr (bv_bool False)" by simp
  have "bool_query H ?q" using assms(1) by (simp add: bool_query_def query_ok_def path_ok_def cond_ok_term)
  then obtain ok vs s' where "Solver_getInitialValues S ?q objects [] s = Some ((ok, vs), s')" "I s'"
      "ok \<longrightarrow> (\<exists>a. values_of H objects vs a \<and> assignment_of a \<in> models H cs)"
    using getInitialValues_right [of ?q objects s] assms(2-5) False by auto
  then show ?thesis using False by (simp add: TimingSolver_getInitialValues_def q)
qed

end

end
