(* ===== verification/SeedInfo.thy ===== *)
theory SeedInfo
  imports TimingSolver
begin

text \<open>
  \<open>SeedInfo.h\<close> and \<open>SeedInfo.cpp\<close>: a seed is an input of the program with the bytes that it gives
  to the arrays met so far. \<open>patchSeed\<close> changes bytes of a seed so that a condition holds.

  A seed's input is the list of the objects of its \<open>KTest\<close>; a pointer to an object is its index.
  Warnings are left out.
\<close>

section \<open>Seeds\<close>

record ktest_object =
  kt_name :: string
  kt_bytes :: "8 word list"

record seed_info =
  seed_assignment :: Assignment
  seed_input :: "ktest_object list"
  seed_inputPosition :: uint32
  seed_used :: "nat set"

definition SeedInfo_new :: "ktest_object list \<Rightarrow> seed_info" where
  "SeedInfo_new input =
     \<lparr>seed_assignment = \<lparr>allowFreeValues = True, bindings = []\<rparr>, seed_input = input, seed_inputPosition = 0, seed_used = {}\<rparr>"

text \<open>
  The object that gives the bytes of a memory object of this name and size: by name, the first
  unused one of the name, otherwise the first unused one if its size is right.
\<close>

definition getNextInput :: "string \<Rightarrow> uint32 \<Rightarrow> bool \<Rightarrow> seed_info \<Rightarrow> nat option \<times> seed_info" where
  "getNextInput name sz byName seed =
     (let input = seed_input seed; used = seed_used seed; n = length input in
      if byName then
        (case find (\<lambda>i. kt_name (input ! i) = name \<and> i \<notin> used) [0..<n] of
           Some i \<Rightarrow> (Some i, seed\<lparr>seed_used := insert i used\<rparr>)
         | None \<Rightarrow>
             (case find (\<lambda>i. i \<notin> used) [0..<n] of
                Some i \<Rightarrow> if length (kt_bytes (input ! i)) = unat sz then (Some i, seed\<lparr>seed_used := insert i used\<rparr>)
                          else (None, seed)
              | None \<Rightarrow> (None, seed)))
      else if unat (seed_inputPosition seed) \<ge> n then (None, seed)
      else (Some (unat (seed_inputPosition seed)), seed\<lparr>seed_inputPosition := seed_inputPosition seed + 1\<rparr>))"

section \<open>patchSeed\<close>

text \<open>The set of pairs of an array and an index, in the order of the pairs.\<close>

fun direct_insert :: "array \<Rightarrow> nat \<Rightarrow> (array \<times> nat) list \<Rightarrow> (array \<times> nat) list" where
  "direct_insert a i [] = [(a, i)]"
| "direct_insert a i ((b, j) # rs) =
     (if arr_addr a < arr_addr b \<or> (arr_addr a = arr_addr b \<and> i < j) then (a, i) # (b, j) # rs
      else if arr_addr a = arr_addr b \<and> i = j then (b, j) # rs
      else (b, j) # direct_insert a i rs)"

text \<open>The reads at constant indices.\<close>

fun direct_reads :: "apint_ops \<Rightarrow> expr list \<Rightarrow> (array \<times> nat) list \<Rightarrow> (array \<times> nat) list option" where
  "direct_reads A [] rs = Some rs"
| "direct_reads A (ReadExpr root head (ConstantExpr c) # es) rs = do {
     x \<leftarrow> getZExtValue A c 32;
     direct_reads A es (direct_insert root (unat (ucast x :: uint32)) rs) }"
| "direct_reads A (_ # es) rs = direct_reads A es rs"

text \<open>
  The body of both loops: the byte is kept if the constraints \<open>tmp\<close> allow it, and replaced by a
  value that they allow otherwise; either way they get the equation for it.
\<close>

definition patch_byte ::
  "expr_env \<Rightarrow> 's solver_impl \<Rightarrow> bool \<Rightarrow> bool \<Rightarrow> array \<Rightarrow> nat \<Rightarrow> 8 word list \<Rightarrow> expr list \<Rightarrow> 's
   \<Rightarrow> (8 word list \<times> expr list \<times> 's) option" where
  "patch_byte G S simplifyExprs rw array i bytes tmp s = do {
     read \<leftarrow> ReadExpr_create G array NullNode (ConstantExpr (ConstantExpr_alloc_u64 (api G) (of_nat i) Int32));
     b \<leftarrow> nth_opt bytes i;
     isSeed \<leftarrow> EqExpr_create G read (ConstantExpr (ConstantExpr_alloc_u64 (api G) (byte64 b) Int8));
     (success, s) \<leftarrow> TimingSolver_mustBeFalse G S simplifyExprs tmp isSeed s;
     res \<leftarrow> success;
     if res then do {
       (success, s) \<leftarrow> TimingSolver_getValue G S simplifyExprs tmp read s;
       v \<leftarrow> success;
       z \<leftarrow> getZExtValue (api G) v 8;
       let b' = (ucast z :: 8 word);
       eq \<leftarrow> EqExpr_create G read (ConstantExpr (ConstantExpr_alloc_u64 (api G) (byte64 b') Int8));
       tmp \<leftarrow> addConstraint G rw eq tmp;
       Some (bytes[i := b'], tmp, s) }
     else do {
       tmp \<leftarrow> addConstraint G rw isSeed tmp;
       Some (bytes, tmp, s) } }"

text \<open>The value of a key that is bound is replaced.\<close>

fun bindings_set :: "array \<Rightarrow> 8 word list \<Rightarrow> (array \<times> 8 word list) list \<Rightarrow> (array \<times> 8 word list) list" where
  "bindings_set a v [] = []"
| "bindings_set a v ((b, w) # bs) = (if arr_addr a = arr_addr b then (b, v) # bs else (b, w) # bindings_set a v bs)"

fun patch_direct ::
  "expr_env \<Rightarrow> 's solver_impl \<Rightarrow> bool \<Rightarrow> bool \<Rightarrow> (array \<times> nat) list \<Rightarrow> (array \<times> 8 word list) list \<Rightarrow> expr list \<Rightarrow> 's
   \<Rightarrow> ((array \<times> 8 word list) list \<times> expr list \<times> 's) option" where
  "patch_direct G S simplifyExprs rw [] bs tmp s = Some (bs, tmp, s)"
| "patch_direct G S simplifyExprs rw ((array, i) # rs) bs tmp s =
     (case bindings_find array bs of
        None \<Rightarrow> patch_direct G S simplifyExprs rw rs bs tmp s
      | Some bytes \<Rightarrow> do {
          (bytes, tmp, s) \<leftarrow> patch_byte G S simplifyExprs rw array i bytes tmp s;
          patch_direct G S simplifyExprs rw rs (bindings_set array bytes bs) tmp s })"

fun patch_bytes ::
  "expr_env \<Rightarrow> 's solver_impl \<Rightarrow> bool \<Rightarrow> bool \<Rightarrow> array \<Rightarrow> nat list \<Rightarrow> 8 word list \<Rightarrow> expr list \<Rightarrow> 's
   \<Rightarrow> (8 word list \<times> expr list \<times> 's) option" where
  "patch_bytes G S simplifyExprs rw array [] bytes tmp s = Some (bytes, tmp, s)"
| "patch_bytes G S simplifyExprs rw array (i # is) bytes tmp s = do {
     (bytes, tmp, s) \<leftarrow> patch_byte G S simplifyExprs rw array i bytes tmp s;
     patch_bytes G S simplifyExprs rw array is bytes tmp s }"

fun patch_arrays ::
  "expr_env \<Rightarrow> 's solver_impl \<Rightarrow> bool \<Rightarrow> bool \<Rightarrow> (array \<times> 8 word list) list \<Rightarrow> expr list \<Rightarrow> 's
   \<Rightarrow> ((array \<times> 8 word list) list \<times> expr list \<times> 's) option" where
  "patch_arrays G S simplifyExprs rw [] tmp s = Some ([], tmp, s)"
| "patch_arrays G S simplifyExprs rw ((array, bytes) # bs) tmp s = do {
     (bytes, tmp, s) \<leftarrow> patch_bytes G S simplifyExprs rw array [0..<arr_size array] bytes tmp s;
     (bs, tmp, s) \<leftarrow> patch_arrays G S simplifyExprs rw bs tmp s;
     Some ((array, bytes) # bs, tmp, s) }"

text \<open>Whether the condition can hold on the path with the bytes of the seed.\<close>

definition seed_may_hold ::
  "expr_env \<Rightarrow> 's solver_impl \<Rightarrow> bool \<Rightarrow> expr list \<Rightarrow> expr \<Rightarrow> Assignment \<Rightarrow> 's \<Rightarrow> (bool \<times> 's) option" where
  "seed_may_hold G S simplifyExprs constraints condition a s = do {
     e \<leftarrow> Assignment_evaluate G a condition;
     (success, s) \<leftarrow> TimingSolver_mayBeTrue G S simplifyExprs constraints e s;
     res \<leftarrow> success;
     Some (res, s) }"

definition patchSeed ::
  "expr_env \<Rightarrow> 's solver_impl \<Rightarrow> bool \<Rightarrow> bool \<Rightarrow> expr list \<Rightarrow> expr \<Rightarrow> seed_info \<Rightarrow> 's \<Rightarrow> (seed_info \<times> 's) option" where
  "patchSeed G S simplifyExprs rw constraints condition seed s = do {
     let a = seed_assignment seed;
     tmp \<leftarrow> addConstraint G rw condition constraints;
     directReads \<leftarrow> direct_reads (api G) (findReads (api G) condition False []) [];
     (bs, tmp, s) \<leftarrow> patch_direct G S simplifyExprs rw directReads (bindings a) tmp s;
     let a = a\<lparr>bindings := bs\<rparr>;
     (res, s) \<leftarrow> seed_may_hold G S simplifyExprs constraints condition a s;
     if res then Some (seed\<lparr>seed_assignment := a\<rparr>, s)
     else do {
       (bs, tmp, s) \<leftarrow> patch_arrays G S simplifyExprs rw bs tmp s;
       let a = a\<lparr>bindings := bs\<rparr>;
       (res, s) \<leftarrow> seed_may_hold G S simplifyExprs constraints condition a s;
       check res (Some (seed\<lparr>seed_assignment := a\<rparr>, s)) } }"

end
