(* ===== verification/ExecutorFork.thy ===== *)
theory ExecutorFork
  imports SeedInfo ExecutorLoop
begin

text \<open>
  \<open>Executor::fork\<close>, \<open>Executor::branch\<close>, \<open>Executor::addConstraint\<close> and
  \<open>Executor::terminateState\<close> of \<open>Executor.cpp\<close>, with \<open>ExecutionState::branch\<close> and
  \<open>ExecutionState::addConstraint\<close>: how a state is split at a condition.

  A state is a number, its fields are found by \<open>ex_states\<close>.  \<open>ivcEnabled\<close> is false, as its only
  assignment leaves it.  The files that record paths, the test cases, the counts of paths and
  the warnings are left out.
\<close>

section \<open>The state of the executor\<close>

record exec_state =
  st_updated :: bool
  st_pc :: nat
  st_prevPC :: nat
  st_constraints :: "expr list"
  st_depth :: uint32
  st_coveredNew :: bool
  st_forkDisabled :: bool
  st_coveredLines :: "(string \<times> uint32) set"

record fork_options =
  fo_SimplifyExprs :: bool
  fo_RewriteEqualities :: bool
  fo_MaxForks :: uint32
  fo_MaxDepth :: uint32
  fo_MaxMemoryInhibit :: bool
  fo_MaxStaticForkPct :: rat
  fo_MaxStaticSolvePct :: rat
  fo_MaxStaticCPForkPct :: rat
  fo_MaxStaticCPSolvePct :: rat
  fo_coreSolverTimeout :: nat
  fo_replayPath :: "bool list option"
  fo_replayKTest :: bool
  fo_OnlyReplaySeeds :: bool

text \<open>What the statistics say at an instruction: of the instruction, of its call path, of all.\<close>

record fork_statistics =
  fs_elapsed60 :: bool
  fs_forks_here :: uint64
  fs_solverTime_here :: uint64
  fs_callPath :: "(uint64 \<times> uint64) option"
  fs_solverTime :: uint64

record 's executor =
  ex_world :: "nat world"
  ex_states :: "nat \<Rightarrow> exec_state option"
  ex_next :: nat
  ex_addedStates :: "nat list"
  ex_removedStates :: "nat list"
  ex_seedMap :: "nat \<Rightarrow> seed_info list option"
  ex_solver :: 's
  ex_forks :: uint64
  ex_replayPosition :: uint32
  ex_atMemoryLimit :: bool
  ex_inhibitForking :: bool
  ex_statistics :: fork_statistics

definition put_state :: "nat \<Rightarrow> exec_state \<Rightarrow> 's executor \<Rightarrow> 's executor" where
  "put_state i st X = X\<lparr>ex_states := (ex_states X)(i \<mapsto> st)\<rparr>"

section \<open>ExecutionState\<close>

definition ExecutionState_addConstraint :: "expr_env \<Rightarrow> bool \<Rightarrow> expr \<Rightarrow> exec_state \<Rightarrow> exec_state option" where
  "ExecutionState_addConstraint G rw e st = do {
     constraints \<leftarrow> addConstraint G rw e (st_constraints st);
     Some (st\<lparr>st_updated := True, st_constraints := constraints\<rparr>) }"

text \<open>The copy of a state: \<open>updated\<close> is false, the other fields are copied.\<close>

definition ExecutionState_copy :: "exec_state \<Rightarrow> exec_state" where
  "ExecutionState_copy st = st\<lparr>st_updated := False\<rparr>"

definition ExecutionState_branch :: "nat \<Rightarrow> 's executor \<Rightarrow> (nat \<times> 's executor) option" where
  "ExecutionState_branch i X = do {
     st \<leftarrow> ex_states X i;
     let st = st\<lparr>st_depth := st_depth st + 1\<rparr>;
         falseState = (ExecutionState_copy st)\<lparr>st_coveredNew := False, st_coveredLines := {}\<rparr>;
         n = ex_next X
     in Some (n, put_state n falseState (put_state i st (X\<lparr>ex_next := n + 1\<rparr>))) }"

section \<open>Constraints and termination\<close>

text \<open>The seeds of a state that violate a condition are patched.\<close>

fun patch_seeds ::
  "expr_env \<Rightarrow> 's solver_impl \<Rightarrow> fork_options \<Rightarrow> expr list \<Rightarrow> expr \<Rightarrow> seed_info list \<Rightarrow> 's \<Rightarrow> (seed_info list \<times> 's) option" where
  "patch_seeds G S opts constraints condition [] s = Some ([], s)"
| "patch_seeds G S opts constraints condition (seed # seeds) s = do {
     e \<leftarrow> Assignment_evaluate G (seed_assignment seed) condition;
     (success, s) \<leftarrow> TimingSolver_mustBeFalse G S (fo_SimplifyExprs opts) constraints e s;
     res \<leftarrow> success;
     (seed, s) \<leftarrow> (if res then patchSeed G S (fo_SimplifyExprs opts) (fo_RewriteEqualities opts) constraints condition seed s
                  else Some (seed, s));
     (seeds, s) \<leftarrow> patch_seeds G S opts constraints condition seeds s;
     Some (seed # seeds, s) }"

definition check_seeds ::
  "expr_env \<Rightarrow> 's solver_impl \<Rightarrow> fork_options \<Rightarrow> nat \<Rightarrow> expr \<Rightarrow> 's executor \<Rightarrow> 's executor option" where
  "check_seeds G S opts i condition X =
     (case ex_seedMap X i of
        None \<Rightarrow> Some X
      | Some seeds \<Rightarrow> do {
          st \<leftarrow> ex_states X i;
          (seeds, s) \<leftarrow> patch_seeds G S opts (st_constraints st) condition seeds (ex_solver X);
          Some (X\<lparr>ex_seedMap := (ex_seedMap X)(i \<mapsto> seeds), ex_solver := s\<rparr>) })"

definition Executor_addConstraint ::
  "expr_env \<Rightarrow> 's solver_impl \<Rightarrow> fork_options \<Rightarrow> nat \<Rightarrow> expr \<Rightarrow> 's executor \<Rightarrow> 's executor option" where
  "Executor_addConstraint G S opts i condition X =
     (case condition of
        ConstantExpr c \<Rightarrow> check (ConstantExpr_isTrue (api G) c) (Some X)
      | _ \<Rightarrow> do {
          X \<leftarrow> check_seeds G S opts i condition X;
          st \<leftarrow> ex_states X i;
          st \<leftarrow> ExecutionState_addConstraint G (fo_RewriteEqualities opts) condition st;
          Some (put_state i st X) })"

definition Executor_terminateState :: "nat \<Rightarrow> 's executor \<Rightarrow> 's executor option" where
  "Executor_terminateState i X = do {
     st \<leftarrow> ex_states X i;
     if i \<notin> set (ex_addedStates X) then
       Some ((put_state i (st\<lparr>st_pc := st_prevPC st\<rparr>) X)\<lparr>ex_removedStates := ex_removedStates X @ [i]\<rparr>)
     else do {
       n \<leftarrow> ptreeNode (w_tree (ex_world X)) i;
       tree \<leftarrow> PTree_remove n (w_tree (ex_world X));
       Some (X\<lparr>ex_addedStates := remove1 i (ex_addedStates X), ex_world := (ex_world X)\<lparr>w_tree := tree\<rparr>,
              ex_states := (ex_states X)(i := None), ex_seedMap := (ex_seedMap X)(i := None)\<rparr>) } }"

definition attach_states :: "nat \<Rightarrow> nat \<Rightarrow> 's executor \<Rightarrow> 's executor option" where
  "attach_states new i X = do {
     n \<leftarrow> ptreeNode (w_tree (ex_world X)) i;
     tree \<leftarrow> PTree_attach n new i (w_tree (ex_world X));
     Some (X\<lparr>ex_world := (ex_world X)\<lparr>w_tree := tree\<rparr>\<rparr>) }"

section \<open>Executor::fork\<close>

definition fork_limits_set :: "fork_options \<Rightarrow> bool" where
  "fork_limits_set opts \<longleftrightarrow> fo_MaxStaticForkPct opts \<noteq> 1 \<or> fo_MaxStaticSolvePct opts \<noteq> 1 \<or>
     fo_MaxStaticCPForkPct opts \<noteq> 1 \<or> fo_MaxStaticCPSolvePct opts \<noteq> 1"

definition fork_limits_hit :: "fork_options \<Rightarrow> 's executor \<Rightarrow> bool" where
  "fork_limits_hit opts X =
     (let sm = ex_statistics X; forks = of_int (uint (ex_forks X)); time = of_int (uint (fs_solverTime sm)) in
      (fo_MaxStaticForkPct opts < 1 \<and> of_int (uint (fs_forks_here sm)) > forks * fo_MaxStaticForkPct opts) \<or>
      (fo_MaxStaticCPForkPct opts < 1 \<and> (case fs_callPath sm of None \<Rightarrow> False
         | Some (f, t) \<Rightarrow> of_int (uint f) > forks * fo_MaxStaticCPForkPct opts)) \<or>
      (fo_MaxStaticSolvePct opts < 1 \<and> of_int (uint (fs_solverTime_here sm)) > time * fo_MaxStaticSolvePct opts) \<or>
      (fo_MaxStaticCPForkPct opts < 1 \<and> (case fs_callPath sm of None \<Rightarrow> False
         | Some (f, t) \<Rightarrow> of_int (uint t) > time * fo_MaxStaticCPSolvePct opts)))"

text \<open>The first part: beyond the limits, the condition is fixed at one of its values.\<close>

definition fork_fix_condition ::
  "expr_env \<Rightarrow> 's solver_impl \<Rightarrow> fork_options \<Rightarrow> nat \<Rightarrow> expr \<Rightarrow> 's executor \<Rightarrow> (expr \<times> 's executor) option" where
  "fork_fix_condition G S opts i condition X =
     (if ex_seedMap X i = None \<and> \<not> is_Constant condition \<and> fork_limits_set opts \<and> fs_elapsed60 (ex_statistics X) \<and> fork_limits_hit opts X then do {
        st \<leftarrow> ex_states X i;
        (value, s) \<leftarrow> TimingSolver_getValue G S (fo_SimplifyExprs opts) (st_constraints st) condition (ex_solver X);
        v \<leftarrow> value;
        eq \<leftarrow> EqExpr_create G (ConstantExpr v) condition;
        X \<leftarrow> Executor_addConstraint G S opts i eq (X\<lparr>ex_solver := s\<rparr>);
        Some (ConstantExpr v, X) }
      else Some (condition, X))"

text \<open>The question to the solver, with its timeout, which is longer for a state with seeds.\<close>

definition fork_evaluate ::
  "expr_env \<Rightarrow> 's solver_impl \<Rightarrow> fork_options \<Rightarrow> nat \<Rightarrow> expr \<Rightarrow> 's executor \<Rightarrow> (validity option \<times> 's executor) option" where
  "fork_evaluate G S opts i condition X = do {
     st \<leftarrow> ex_states X i;
     (res, s) \<leftarrow> TimingSolver_evaluate G S (fo_SimplifyExprs opts) (st_constraints st) condition
       (TimingSolver_setTimeout S
          (fo_coreSolverTimeout opts *
            (case ex_seedMap X i of None \<Rightarrow> 1 | Some seeds \<Rightarrow> unat (of_nat (length seeds) :: uint32))) (ex_solver X));
     Some (res, X\<lparr>ex_solver := TimingSolver_setTimeout S 0 s\<rparr>) }"

text \<open>One side of an undecided condition is followed only: \<open>b\<close> says which one.\<close>

definition fork_take ::
  "expr_env \<Rightarrow> 's solver_impl \<Rightarrow> fork_options \<Rightarrow> nat \<Rightarrow> expr \<Rightarrow> bool \<Rightarrow> 's executor \<Rightarrow> (validity \<times> 's executor) option" where
  "fork_take G S opts i condition b X = do {
     c \<leftarrow> (if b then Some condition else createIsZero G condition);
     X \<leftarrow> Executor_addConstraint G S opts i c X;
     Some (if b then VTrue else VFalse, X) }"

text \<open>
  The decision for a state without seeds: in the replay of a path its branches are taken; where
  forking is not allowed one side is chosen at random.
\<close>

definition fork_inhibited :: "fork_options \<Rightarrow> exec_state \<Rightarrow> 's executor \<Rightarrow> bool" where
  "fork_inhibited opts st X \<longleftrightarrow> (fo_MaxMemoryInhibit opts \<and> ex_atMemoryLimit X) \<or> st_forkDisabled st \<or>
     ex_inhibitForking X \<or> (fo_MaxForks opts \<noteq> - 1 \<and> ex_forks X \<ge> ucast (fo_MaxForks opts))"

definition fork_decide ::
  "expr_env \<Rightarrow> 's solver_impl \<Rightarrow> fork_options \<Rightarrow> nat \<Rightarrow> expr \<Rightarrow> bool \<Rightarrow> validity \<Rightarrow> 's executor \<Rightarrow> (validity \<times> 's executor) option" where
  "fork_decide G S opts i condition isInternal res X = do {
     st \<leftarrow> ex_states X i;
     if ex_seedMap X i \<noteq> None then Some (res, X) else
     (case (if isInternal then None else fo_replayPath opts) of
        Some replayPath \<Rightarrow> do {
          branch \<leftarrow> nth_opt replayPath (unat (ex_replayPosition X));
          let X = X\<lparr>ex_replayPosition := ex_replayPosition X + 1\<rparr> in
          (case res of
             VTrue \<Rightarrow> check branch (Some (res, X))
           | VFalse \<Rightarrow> check (\<not> branch) (Some (res, X))
           | VUnknown \<Rightarrow> fork_take G S opts i condition branch X) }
      | None \<Rightarrow>
          if res = VUnknown then
            check (\<not> fo_replayKTest opts)
              (if fork_inhibited opts st X then do {
                 (b, r) \<leftarrow> RNG_getBool (w_rng (ex_world X));
                 fork_take G S opts i condition b (X\<lparr>ex_world := (ex_world X)\<lparr>w_rng := r\<rparr>\<rparr>) }
               else Some (res, X))
          else Some (res, X)) }"

text \<open>The value of a condition for a seed, by a value that the solver finds for its free bytes.\<close>

definition seed_value ::
  "expr_env \<Rightarrow> 's solver_impl \<Rightarrow> fork_options \<Rightarrow> expr list \<Rightarrow> expr \<Rightarrow> seed_info \<Rightarrow> 's \<Rightarrow> (bool \<times> 's) option" where
  "seed_value G S opts constraints condition seed s = do {
     e \<leftarrow> Assignment_evaluate G (seed_assignment seed) condition;
     (success, s) \<leftarrow> TimingSolver_getValue G S (fo_SimplifyExprs opts) constraints e s;
     res \<leftarrow> success;
     Some (ConstantExpr_isTrue (api G) res, s) }"

text \<open>Whether there are seeds for both sides; the loop stops when both are found.\<close>

fun seed_sides ::
  "expr_env \<Rightarrow> 's solver_impl \<Rightarrow> fork_options \<Rightarrow> expr list \<Rightarrow> expr \<Rightarrow> seed_info list \<Rightarrow> bool \<Rightarrow> bool \<Rightarrow> 's
   \<Rightarrow> (bool \<times> bool \<times> 's) option" where
  "seed_sides G S opts constraints condition [] trueSeed falseSeed s = Some (trueSeed, falseSeed, s)"
| "seed_sides G S opts constraints condition (seed # seeds) trueSeed falseSeed s = do {
     (res, s) \<leftarrow> seed_value G S opts constraints condition seed s;
     let trueSeed = (trueSeed \<or> res); falseSeed = (falseSeed \<or> \<not> res)
     in if trueSeed \<and> falseSeed then Some (trueSeed, falseSeed, s)
        else seed_sides G S opts constraints condition seeds trueSeed falseSeed s }"

text \<open>A state with seeds that must not fork or may only follow seeds takes the side of its seeds.\<close>

definition fork_seeds ::
  "expr_env \<Rightarrow> 's solver_impl \<Rightarrow> fork_options \<Rightarrow> nat \<Rightarrow> expr \<Rightarrow> validity \<Rightarrow> 's executor \<Rightarrow> (validity \<times> 's executor) option" where
  "fork_seeds G S opts i condition res X =
     (case ex_seedMap X i of
        None \<Rightarrow> Some (res, X)
      | Some seeds \<Rightarrow> do {
          st \<leftarrow> ex_states X i;
          if (st_forkDisabled st \<or> fo_OnlyReplaySeeds opts) \<and> res = VUnknown then do {
            (trueSeed, falseSeed, s) \<leftarrow> seed_sides G S opts (st_constraints st) condition seeds False False (ex_solver X);
            let X = X\<lparr>ex_solver := s\<rparr>;
            if \<not> (trueSeed \<and> falseSeed) then
              check (trueSeed \<or> falseSeed) (fork_take G S opts i condition trueSeed X)
            else Some (res, X) }
          else Some (res, X) })"

text \<open>The seeds of a state that forks go to the sides of their values.\<close>

fun seed_split ::
  "expr_env \<Rightarrow> 's solver_impl \<Rightarrow> fork_options \<Rightarrow> expr list \<Rightarrow> expr \<Rightarrow> seed_info list \<Rightarrow> 's
   \<Rightarrow> (seed_info list \<times> seed_info list \<times> 's) option" where
  "seed_split G S opts constraints condition [] s = Some ([], [], s)"
| "seed_split G S opts constraints condition (seed # seeds) s = do {
     (res, s) \<leftarrow> seed_value G S opts constraints condition seed s;
     (trueSeeds, falseSeeds, s) \<leftarrow> seed_split G S opts constraints condition seeds s;
     Some (if res then (seed # trueSeeds, falseSeeds, s) else (trueSeeds, seed # falseSeeds, s)) }"

text \<open>A side without seeds leaves the map; if it is the true one the coverage is swapped.\<close>

definition swap_coverage :: "nat \<Rightarrow> nat \<Rightarrow> 's executor \<Rightarrow> 's executor option" where
  "swap_coverage i j X = do {
     a \<leftarrow> ex_states X i;
     b \<leftarrow> ex_states X j;
     Some (put_state j (b\<lparr>st_coveredNew := st_coveredNew a, st_coveredLines := st_coveredLines a\<rparr>)
            (put_state i (a\<lparr>st_coveredNew := st_coveredNew b, st_coveredLines := st_coveredLines b\<rparr>) X)) }"

definition distribute_seeds ::
  "expr_env \<Rightarrow> 's solver_impl \<Rightarrow> fork_options \<Rightarrow> nat \<Rightarrow> nat \<Rightarrow> expr \<Rightarrow> 's executor \<Rightarrow> 's executor option" where
  "distribute_seeds G S opts trueState falseState condition X =
     (case ex_seedMap X trueState of
        None \<Rightarrow> Some X
      | Some seeds \<Rightarrow> do {
          st \<leftarrow> ex_states X trueState;
          (trueSeeds, falseSeeds, s) \<leftarrow> seed_split G S opts (st_constraints st) condition seeds (ex_solver X);
          let X = X\<lparr>ex_solver := s, ex_seedMap := (ex_seedMap X)
            (trueState := (if trueSeeds = [] then None else Some trueSeeds),
             falseState := (if falseSeeds = [] then None else Some falseSeeds))\<rparr>;
          if trueSeeds = [] then swap_coverage trueState falseState X else Some X })"

text \<open>Both sides: the state follows the true one, its copy the false one.\<close>

definition fork_both ::
  "expr_env \<Rightarrow> 's solver_impl \<Rightarrow> fork_options \<Rightarrow> nat \<Rightarrow> expr \<Rightarrow> 's executor \<Rightarrow> ((nat option \<times> nat option) \<times> 's executor) option" where
  "fork_both G S opts i condition X = do {
     let X = X\<lparr>ex_forks := ex_forks X + 1\<rparr>;
     (falseState, X) \<leftarrow> ExecutionState_branch i X;
     let X = X\<lparr>ex_addedStates := ex_addedStates X @ [falseState]\<rparr>;
     X \<leftarrow> distribute_seeds G S opts i falseState condition X;
     X \<leftarrow> attach_states falseState i X;
     X \<leftarrow> Executor_addConstraint G S opts i condition X;
     neg \<leftarrow> createIsZero G condition;
     X \<leftarrow> Executor_addConstraint G S opts falseState neg X;
     st \<leftarrow> ex_states X i;
     if fo_MaxDepth opts \<noteq> 0 \<and> fo_MaxDepth opts \<le> st_depth st then do {
       X \<leftarrow> Executor_terminateState i X;
       X \<leftarrow> Executor_terminateState falseState X;
       Some ((None, None), X) }
     else Some ((Some i, Some falseState), X) }"

definition Executor_fork ::
  "expr_env \<Rightarrow> 's solver_impl \<Rightarrow> fork_options \<Rightarrow> nat \<Rightarrow> expr \<Rightarrow> bool \<Rightarrow> 's executor
   \<Rightarrow> ((nat option \<times> nat option) \<times> 's executor) option" where
  "Executor_fork G S opts i condition isInternal X = do {
     (condition, X) \<leftarrow> fork_fix_condition G S opts i condition X;
     (success, X) \<leftarrow> fork_evaluate G S opts i condition X;
     (case success of
        None \<Rightarrow> do {
          st \<leftarrow> ex_states X i;
          X \<leftarrow> Executor_terminateState i (put_state i (st\<lparr>st_pc := st_prevPC st\<rparr>) X);
          Some ((None, None), X) }
      | Some res \<Rightarrow> do {
          (res, X) \<leftarrow> fork_decide G S opts i condition isInternal res X;
          (res, X) \<leftarrow> fork_seeds G S opts i condition res X;
          (case res of
             VTrue \<Rightarrow> Some ((Some i, None), X)
           | VFalse \<Rightarrow> Some ((None, Some i), X)
           | VUnknown \<Rightarrow> fork_both G S opts i condition X) }) }"

section \<open>Executor::branch\<close>

text \<open>The loop that makes the states: each new one is a copy of a state made before it.\<close>

primrec branch_states :: "nat \<Rightarrow> nat list \<Rightarrow> 's executor \<Rightarrow> (nat list \<times> 's executor) option" where
  "branch_states 0 result X = Some (result, X)"
| "branch_states (Suc n) result X = do {
     (x, r) \<leftarrow> RNG_getInt32 (w_rng (ex_world X));
     es \<leftarrow> nth_opt result (unat (x mod of_nat (length result)));
     (ns, X) \<leftarrow> ExecutionState_branch es (X\<lparr>ex_world := (ex_world X)\<lparr>w_rng := r\<rparr>\<rparr>);
     X \<leftarrow> attach_states ns es (X\<lparr>ex_addedStates := ex_addedStates X @ [ns]\<rparr>);
     branch_states n (result @ [ns]) X }"

text \<open>The state to which a seed goes: that of the first condition that is true for it.\<close>

fun seed_condition ::
  "expr_env \<Rightarrow> 's solver_impl \<Rightarrow> fork_options \<Rightarrow> expr list \<Rightarrow> expr list \<Rightarrow> seed_info \<Rightarrow> nat \<Rightarrow> 's \<Rightarrow> (nat \<times> 's) option" where
  "seed_condition G S opts constraints [] seed k s = Some (k, s)"
| "seed_condition G S opts constraints (c # conditions) seed k s = do {
     (res, s) \<leftarrow> seed_value G S opts constraints c seed s;
     if res then Some (k, s) else seed_condition G S opts constraints conditions seed (k + 1) s }"

text \<open>No condition is true: one of them is chosen at random. \<open>state\<close> is the state that branches.\<close>

fun branch_seeds ::
  "expr_env \<Rightarrow> 's solver_impl \<Rightarrow> fork_options \<Rightarrow> nat \<Rightarrow> expr list \<Rightarrow> nat option list \<Rightarrow> seed_info list \<Rightarrow> 's executor
   \<Rightarrow> 's executor option" where
  "branch_seeds G S opts state conditions result [] X = Some X"
| "branch_seeds G S opts state conditions result (seed # seeds) X = do {
     st \<leftarrow> ex_states X state;
     (k, s) \<leftarrow> seed_condition G S opts (st_constraints st) conditions seed 0 (ex_solver X);
     let X = X\<lparr>ex_solver := s\<rparr>;
     (k, X) \<leftarrow>
       (if k = length conditions then do {
          (x, r) \<leftarrow> RNG_getInt32 (w_rng (ex_world X));
          Some (unat (x mod of_nat (length conditions)), X\<lparr>ex_world := (ex_world X)\<lparr>w_rng := r\<rparr>\<rparr>) }
        else Some (k, X));
     target \<leftarrow> nth_opt result k;
     let X = (case target of
        None \<Rightarrow> X
      | Some j \<Rightarrow> X\<lparr>ex_seedMap := (ex_seedMap X)(j \<mapsto> (case ex_seedMap X j of None \<Rightarrow> [] | Some v \<Rightarrow> v) @ [seed])\<rparr>);
     branch_seeds G S opts state conditions result seeds X }"

text \<open>Where only seeds are replayed the states without seeds are terminated.\<close>

fun kill_unseeded :: "nat option list \<Rightarrow> 's executor \<Rightarrow> (nat option list \<times> 's executor) option" where
  "kill_unseeded [] X = Some ([], X)"
| "kill_unseeded (r # result) X = do {
     (r, X) \<leftarrow>
       (case r of
          None \<Rightarrow> Some (r, X)
        | Some j \<Rightarrow> if ex_seedMap X j = None then map_option (Pair None) (Executor_terminateState j X) else Some (r, X));
     (result, X) \<leftarrow> kill_unseeded result X;
     Some (r # result, X) }"

definition redistribute_seeds ::
  "expr_env \<Rightarrow> 's solver_impl \<Rightarrow> fork_options \<Rightarrow> nat \<Rightarrow> expr list \<Rightarrow> nat option list \<Rightarrow> 's executor
   \<Rightarrow> (nat option list \<times> 's executor) option" where
  "redistribute_seeds G S opts i conditions result X =
     (case ex_seedMap X i of
        None \<Rightarrow> Some (result, X)
      | Some seeds \<Rightarrow> do {
          X \<leftarrow> branch_seeds G S opts i conditions result seeds (X\<lparr>ex_seedMap := (ex_seedMap X)(i := None)\<rparr>);
          if fo_OnlyReplaySeeds opts then kill_unseeded result X else Some (result, X) })"

fun add_conditions :: "expr_env \<Rightarrow> 's solver_impl \<Rightarrow> fork_options \<Rightarrow> nat option list \<Rightarrow> expr list \<Rightarrow> 's executor \<Rightarrow> 's executor option" where
  "add_conditions G S opts (Some i # result) (c # conditions) X = do {
     X \<leftarrow> Executor_addConstraint G S opts i c X;
     add_conditions G S opts result conditions X }"
| "add_conditions G S opts (None # result) (c # conditions) X = add_conditions G S opts result conditions X"
| "add_conditions G S opts result conditions X = Some X"

definition Executor_branch ::
  "expr_env \<Rightarrow> 's solver_impl \<Rightarrow> fork_options \<Rightarrow> nat \<Rightarrow> expr list \<Rightarrow> 's executor \<Rightarrow> (nat option list \<times> 's executor) option" where
  "Executor_branch G S opts i conditions X =
     (let N = unat (word_of_nat (length conditions) :: uint32) in
      check (N \<noteq> 0) (do {
        (result, X) \<leftarrow>
          (if fo_MaxForks opts \<noteq> - 1 \<and> ex_forks X \<ge> ucast (fo_MaxForks opts) then do {
             (x, r) \<leftarrow> RNG_getInt32 (w_rng (ex_world X));
             let next = unat (x mod of_nat N) in
             Some (map (\<lambda>k. if k = next then Some i else None) [0..<N], X\<lparr>ex_world := (ex_world X)\<lparr>w_rng := r\<rparr>\<rparr>) }
           else do {
             (ids, X) \<leftarrow> branch_states (N - 1) [i] (X\<lparr>ex_forks := ex_forks X + of_nat (N - 1)\<rparr>);
             Some (map Some ids, X) });
        (result, X) \<leftarrow> redistribute_seeds G S opts i conditions result X;
        X \<leftarrow> add_conditions G S opts result conditions X;
        Some (result, X) }))"

end
