(* ===== verification/ExecutorForkSound.thy ===== *)
theory ExecutorForkSound
  imports ExecutorFork
begin

text \<open>
  What \<open>fork\<close> and \<open>branch\<close> do to the inputs that follow each state: the sides of a fork have the
  inputs on which the condition holds and those on which it does not; no other state is
  touched; every state keeps an input; the process tree keeps its leaves.
\<close>

section \<open>The invariant\<close>

definition all_states :: "'s executor \<Rightarrow> nat set" where
  "all_states X = w_states (ex_world X) \<union> set (ex_addedStates X)"

definition running :: "'s executor \<Rightarrow> nat set" where
  "running X = all_states X - set (ex_removedStates X)"

text \<open>The inputs that satisfy the constraints of a state.\<close>

definition inputs_of :: "(nat \<Rightarrow> array) \<Rightarrow> 's executor \<Rightarrow> nat \<Rightarrow> assignment set" where
  "inputs_of H X i = (case ex_states X i of None \<Rightarrow> {} | Some st \<Rightarrow> models H (st_constraints st))"

definition executor_ok :: "(nat \<Rightarrow> array) \<Rightarrow> ('s \<Rightarrow> bool) \<Rightarrow> 's executor \<Rightarrow> bool" where
  "executor_ok H I X \<longleftrightarrow>
     ex_seedMap X = Map.empty \<and> I (ex_solver X) \<and> rng_ok (w_rng (ex_world X)) \<and> w_states (ex_world X) \<noteq> {} \<and>
     distinct (ex_addedStates X) \<and> w_states (ex_world X) \<inter> set (ex_addedStates X) = {} \<and>
     distinct (ex_removedStates X) \<and> set (ex_removedStates X) \<subseteq> w_states (ex_world X) \<and>
     tree_matches (all_states X) (w_tree (ex_world X)) \<and>
     (\<forall>i \<in> all_states X. i < ex_next X \<and> (\<exists>st. ex_states X i = Some st \<and> path_ok H (st_constraints st)))"

lemma put_state_fields [simp]:
  "ex_world (put_state i st X) = ex_world X" "ex_next (put_state i st X) = ex_next X"
  "ex_addedStates (put_state i st X) = ex_addedStates X" "ex_removedStates (put_state i st X) = ex_removedStates X"
  "ex_solver (put_state i st X) = ex_solver X" "ex_seedMap (put_state i st X) = ex_seedMap X" "ex_states (put_state i st X) = (ex_states X)(i \<mapsto> st)"
  "all_states (put_state i st X) = all_states X" "running (put_state i st X) = running X"
  "inputs_of H (put_state i st X) = (inputs_of H X)(i := models H (st_constraints st))"
  by (auto simp: put_state_def all_states_def running_def inputs_of_def fun_eq_iff)

lemma put_state_ok: "executor_ok H I X \<Longrightarrow> path_ok H (st_constraints st) \<Longrightarrow> executor_ok H I (put_state i st X)"
  by (simp add: executor_ok_def)

lemma put_same: "ex_states X i = Some st \<Longrightarrow> put_state i st X = X"
  by (simp add: put_state_def fun_upd_idem)

text \<open>Without seeds the steps that move or patch them do nothing.\<close>

lemma unseeded [simp]:
  "ex_seedMap X = Map.empty \<Longrightarrow> check_seeds G S opts i c X = Some X"
  "ex_seedMap X = Map.empty \<Longrightarrow> fork_seeds G S opts i c res X = Some (res, X)"
  "ex_seedMap X = Map.empty \<Longrightarrow> distribute_seeds G S opts i n c X = Some X"
  "ex_seedMap X = Map.empty \<Longrightarrow> redistribute_seeds G S opts i cs result X = Some (result, X)"
  by (simp_all add: check_seeds_def fork_seeds_def distribute_seeds_def redistribute_seeds_def)

lemma executor_unseeded: "executor_ok H I X \<Longrightarrow> ex_seedMap X = Map.empty"
  by (simp add: executor_ok_def)

text \<open>The solver, the generator and the counters do not enter the states.\<close>

lemma all_states_updates [simp]:
  "all_states (X\<lparr>ex_solver := s\<rparr>) = all_states X" "running (X\<lparr>ex_solver := s\<rparr>) = running X"
  "inputs_of H (X\<lparr>ex_solver := s\<rparr>) = inputs_of H X"
  "all_states (X\<lparr>ex_forks := n\<rparr>) = all_states X" "running (X\<lparr>ex_forks := n\<rparr>) = running X"
  "inputs_of H (X\<lparr>ex_forks := n\<rparr>) = inputs_of H X"
  "all_states (X\<lparr>ex_world := (ex_world X)\<lparr>w_rng := r\<rparr>\<rparr>) = all_states X"
  "running (X\<lparr>ex_world := (ex_world X)\<lparr>w_rng := r\<rparr>\<rparr>) = running X"
  "inputs_of H (X\<lparr>ex_world := (ex_world X)\<lparr>w_rng := r\<rparr>\<rparr>) = inputs_of H X"
  by (auto simp: all_states_def running_def inputs_of_def fun_eq_iff)

lemma executor_ok_updates:
  assumes "executor_ok H I X"
  shows "I s \<Longrightarrow> executor_ok H I (X\<lparr>ex_solver := s\<rparr>)" "executor_ok H I (X\<lparr>ex_forks := n\<rparr>)"
    "rng_ok r \<Longrightarrow> executor_ok H I (X\<lparr>ex_world := (ex_world X)\<lparr>w_rng := r\<rparr>\<rparr>)"
  using assms by (simp_all add: executor_ok_def)

lemma executor_state:
  assumes "executor_ok H I X" "i \<in> all_states X"
  obtains st where "ex_states X i = Some st" "path_ok H (st_constraints st)" "inputs_of H X i = models H (st_constraints st)" "i < ex_next X"
  using assms by (fastforce simp: executor_ok_def inputs_of_def)

lemma running_all: "i \<in> running X \<Longrightarrow> i \<in> all_states X"
  by (simp add: running_def)

section \<open>Adding a constraint\<close>

text \<open>The inputs of a state on which a condition holds, and on which it does not.\<close>

definition holding :: "(nat \<Rightarrow> array) \<Rightarrow> 's executor \<Rightarrow> nat \<Rightarrow> expr \<Rightarrow> assignment set" where
  "holding H X i c = {\<rho> \<in> inputs_of H X i. true_in \<rho> c}"

definition failing :: "(nat \<Rightarrow> array) \<Rightarrow> 's executor \<Rightarrow> nat \<Rightarrow> expr \<Rightarrow> assignment set" where
  "failing H X i c = {\<rho> \<in> inputs_of H X i. \<not> true_in \<rho> c}"

context expr_creation
begin

lemma Executor_addConstraint_ok:
  fixes X :: "'s executor"
  assumes ok: "executor_ok H I X" and i: "i \<in> all_states X" and c: "cond_ok H c" and ne: "holding H X i c \<noteq> {}"
  shows "\<exists>st. Executor_addConstraint G S opts i c X = Some (put_state i st X) \<and> path_ok H (st_constraints st) \<and>
    models H (st_constraints st) = holding H X i c"
proof -
  obtain st where st: "ex_states X i = Some st" "path_ok H (st_constraints st)" "inputs_of H X i = models H (st_constraints st)"
    using executor_state [OF ok i] .
  have m: "models H (c # st_constraints st) = holding H X i c" unfolding holding_def st(3) models_Cons ..
  show ?thesis
  proof (cases c rule: Constant_cases)
    case (Constant a)
    have "ConstantExpr_isTrue (api G) a" and "holding H X i c = inputs_of H X i"
      using ne const_truth [of H a] c unfolding Constant holding_def by auto
    then show ?thesis using st put_same [OF st(1)] Constant by (intro exI [of _ st]) (simp add: Executor_addConstraint_def)
  next
    case other
    have "\<forall>x \<in> set (st_constraints st). cond_ok H x" using st(2) by (simp add: path_ok_def)
    then obtain cs where cs: "addConstraint G (fo_RewriteEqualities opts) c (st_constraints st) = Some cs"
        "\<forall>x \<in> set cs. cond_ok H x" "models H cs = models H (c # st_constraints st)"
      using addConstraint_ok [OF c] ne m by metis
    show ?thesis using cs ne m st(1) other
      by (intro exI [of _ "st\<lparr>st_updated := True, st_constraints := cs\<rparr>"])
        (simp add: Executor_addConstraint_def ExecutionState_addConstraint_def case_other path_ok_def executor_unseeded [OF ok])
  qed
qed

lemma negated_holding:
  assumes "cond_ok H c"
  obtains n where "createIsZero G c = Some n" "cond_ok H n" "holding H X i n = failing H X i c"
  using negate_cond [OF assms] by (auto simp: holding_def failing_def)

end

section \<open>The process tree\<close>

lemma attach_states_ok:
  assumes "tree_matches S (w_tree (ex_world X))" "i \<in> S" "n \<notin> S"
  shows "\<exists>tree. attach_states n i X = Some (X\<lparr>ex_world := (ex_world X)\<lparr>w_tree := tree\<rparr>\<rparr>) \<and> tree_matches (insert n S) tree"
proof -
  obtain t where t: "process_ok (w_tree (ex_world X)) t" "states_of t = S" using assms(1) by (auto simp: tree_matches_def)
  obtain a where a: "ptreeNode (w_tree (ex_world X)) i = Some a" "(i, a) \<in> set (leaves t)"
    using leaf_node [OF t(1), of i] assms(2) t(2) by blast
  obtain h' t' where h: "PTree_attach a n i (w_tree (ex_world X)) = Some h'" "process_ok h' t'" "states_of t' = (states_of t - {i}) \<union> {n, i}"
    using PTree_attach_ok [OF t(1) a(2), of n i] assms t(2) by auto
  have "states_of t' = insert n S" using h(3) assms(2) t(2) by auto
  then show ?thesis using a(1) h(1,2) by (auto simp: attach_states_def tree_matches_def)
qed

text \<open>A copy of a state, announced and attached.\<close>

lemma new_state_ok:
  fixes X :: "'s executor"
  assumes ok: "executor_ok H I X" and i: "i \<in> running X"
  shows "\<exists>n X1 X2. ExecutionState_branch i X = Some (n, X1) \<and>
    attach_states n i (X1\<lparr>ex_addedStates := ex_addedStates X1 @ [n]\<rparr>) = Some X2 \<and>
    n \<notin> all_states X \<and> executor_ok H I X2 \<and> all_states X2 = insert n (all_states X) \<and> running X2 = insert n (running X) \<and>
    inputs_of H X2 = (inputs_of H X)(n := inputs_of H X i) \<and> ex_removedStates X2 = ex_removedStates X \<and>
    w_states (ex_world X2) = w_states (ex_world X)"
proof -
  obtain st where st: "ex_states X i = Some st" "path_ok H (st_constraints st)" "inputs_of H X i = models H (st_constraints st)" "i < ex_next X"
    using executor_state [OF ok running_all [OF i]] .
  define n where "n = ex_next X"
  have n: "n \<notin> all_states X" using ok by (auto simp: executor_ok_def n_def)
  let ?st = "st\<lparr>st_depth := st_depth st + 1\<rparr>"
  let ?f = "(ExecutionState_copy ?st)\<lparr>st_coveredNew := False, st_coveredLines := {}\<rparr>"
  define X1 where "X1 = put_state n ?f (put_state i ?st (X\<lparr>ex_next := n + 1\<rparr>))"
  have b: "ExecutionState_branch i X = Some (n, X1)" using st(1) by (simp add: ExecutionState_branch_def X1_def n_def Let_def)
  let ?X = "X1\<lparr>ex_addedStates := ex_addedStates X1 @ [n]\<rparr>"
  have "tree_matches (all_states X) (w_tree (ex_world ?X))" using ok by (simp add: executor_ok_def X1_def)
  then obtain tree where a: "attach_states n i ?X = Some (?X\<lparr>ex_world := (ex_world ?X)\<lparr>w_tree := tree\<rparr>\<rparr>)"
      "tree_matches (insert n (all_states X)) tree"
    using attach_states_ok running_all [OF i] n by blast
  let ?X2 = "?X\<lparr>ex_world := (ex_world ?X)\<lparr>w_tree := tree\<rparr>\<rparr>"
  have A: "all_states ?X2 = insert n (all_states X)" by (auto simp: all_states_def X1_def)
  have w: "n \<notin> w_states (ex_world X)" "n \<notin> set (ex_addedStates X)" "n \<notin> set (ex_removedStates X)"
    using n ok by (auto simp: all_states_def executor_ok_def)
  have R: "running ?X2 = insert n (running X)" using A w(3) by (auto simp: running_def X1_def)
  have E: "inputs_of H ?X2 = (inputs_of H X)(n := inputs_of H X i)"
    using st(3) by (auto simp: inputs_of_def X1_def ExecutionState_copy_def fun_eq_iff)
  have K: "\<forall>j \<in> all_states ?X2. j < ex_next ?X2 \<and> (\<exists>st. ex_states ?X2 j = Some st \<and> path_ok H (st_constraints st))"
    using ok st(2) unfolding A by (auto simp: executor_ok_def X1_def n_def ExecutionState_copy_def)
  have O: "executor_ok H I ?X2"
    using ok w a(2) K A unfolding executor_ok_def by (simp add: X1_def)
  show ?thesis using b a(1) n O A R E by (intro exI [of _ n] exI [of _ X1] exI [of _ ?X2]) (simp add: X1_def)
qed

text \<open>Termination: the state is not run any more; the others are not touched.\<close>

lemma Executor_terminateState_ok:
  fixes X :: "'s executor"
  assumes ok: "executor_ok H I X" and i: "i \<in> running X"
  shows "\<exists>X'. Executor_terminateState i X = Some X' \<and> executor_ok H I X' \<and> running X' = running X - {i} \<and>
    all_states X' \<subseteq> all_states X \<and> (\<forall>j \<in> running X - {i}. inputs_of H X' j = inputs_of H X j)"
proof -
  obtain st where st: "ex_states X i = Some st" "path_ok H (st_constraints st)" "inputs_of H X i = models H (st_constraints st)" "i < ex_next X"
    using executor_state [OF ok running_all [OF i]] .
  show ?thesis
  proof (cases "i \<in> set (ex_addedStates X)")
    case False
    let ?X = "(put_state i (st\<lparr>st_pc := st_prevPC st\<rparr>) X)\<lparr>ex_removedStates := ex_removedStates X @ [i]\<rparr>"
    have "Executor_terminateState i X = Some ?X" using st(1) False by (simp add: Executor_terminateState_def)
    moreover have A: "all_states ?X = all_states X" by (simp add: all_states_def)
    moreover have "running ?X = running X - {i}" unfolding running_def A by auto
    moreover have "executor_ok H I ?X"
      using ok st(2) i False A unfolding executor_ok_def by (auto simp: running_def all_states_def)
    moreover have "inputs_of H ?X = inputs_of H X" using st(1) by (auto simp: inputs_of_def fun_eq_iff)
    ultimately show ?thesis by simp
  next
    case True
    have w: "i \<notin> w_states (ex_world X)" "i \<notin> set (ex_removedStates X)" using True ok by (auto simp: executor_ok_def)
    have rest: "all_states X - {i} \<noteq> {}" using ok w(1) by (auto simp: executor_ok_def all_states_def)
    have "tree_matches (all_states X) (w_tree (ex_world X))" using ok by (simp add: executor_ok_def)
    then obtain a tree where t: "ptreeNode (w_tree (ex_world X)) i = Some a" "PTree_remove a (w_tree (ex_world X)) = Some tree"
        "tree_matches (all_states X - {i}) tree"
      using PTree_remove_state [of "all_states X" _ i] running_all [OF i] rest by fastforce
    let ?X = "X\<lparr>ex_addedStates := remove1 i (ex_addedStates X), ex_world := (ex_world X)\<lparr>w_tree := tree\<rparr>,
      ex_states := (ex_states X)(i := None), ex_seedMap := (ex_seedMap X)(i := None)\<rparr>"
    have "Executor_terminateState i X = Some ?X" using st(1) True t(1,2) by (simp add: Executor_terminateState_def)
    moreover have d: "set (remove1 i (ex_addedStates X)) = set (ex_addedStates X) - {i}"
      using ok by (simp add: executor_ok_def set_remove1_eq)
    moreover have A: "all_states ?X = all_states X - {i}" using w(1) d by (auto simp: all_states_def)
    moreover have "running ?X = running X - {i}" using A by (auto simp: running_def)
    moreover have "executor_ok H I ?X"
      using ok t(3) A d unfolding executor_ok_def by (auto simp: all_states_def)
    moreover have "inputs_of H ?X j = inputs_of H X j" if "j \<noteq> i" for j using that by (simp add: inputs_of_def)
    ultimately show ?thesis by auto
  qed
qed

section \<open>Executor::fork\<close>

text \<open>
  What a fork of state \<open>i\<close> at condition \<open>c\<close> does: a side that is followed has the inputs of its
  side, the true one in the state itself, the false one in a new state when both are followed.
\<close>

definition fork_result :: "(nat \<Rightarrow> array) \<Rightarrow> 's executor \<Rightarrow> nat \<Rightarrow> expr \<Rightarrow> nat option \<times> nat option \<Rightarrow> 's executor \<Rightarrow> bool" where
  "fork_result H X i c r X' \<longleftrightarrow>
     (\<forall>j \<in> running X - {i}. inputs_of H X' j = inputs_of H X j) \<and>
     (case r of
        (Some a, Some b) \<Rightarrow> a = i \<and> b \<notin> all_states X \<and> running X' = insert b (running X) \<and>
          inputs_of H X' a = holding H X i c \<and> inputs_of H X' b = failing H X i c
      | (Some a, None) \<Rightarrow> a = i \<and> running X' = running X \<and> inputs_of H X' a = holding H X i c
      | (None, Some b) \<Rightarrow> b = i \<and> running X' = running X \<and> inputs_of H X' b = failing H X i c
      | (None, None) \<Rightarrow> running X' = running X - {i})"

text \<open>The modes in which no branch is prescribed and no limit on an instruction is set.\<close>

definition plain_mode :: "fork_options \<Rightarrow> bool \<Rightarrow> bool" where
  "plain_mode opts isInternal \<longleftrightarrow> \<not> fork_limits_set opts \<and> (fo_replayPath opts = None \<or> isInternal) \<and> \<not> fo_replayKTest opts"

text \<open>Nothing inhibits forking.\<close>

definition forking_allowed :: "fork_options \<Rightarrow> 's executor \<Rightarrow> bool" where
  "forking_allowed opts X \<longleftrightarrow> fo_MaxForks opts = - 1 \<and> fo_MaxDepth opts = 0 \<and> \<not> (fo_MaxMemoryInhibit opts \<and> ex_atMemoryLimit X) \<and>
     \<not> ex_inhibitForking X \<and> (\<forall>i st. ex_states X i = Some st \<longrightarrow> \<not> st_forkDisabled st)"

lemma getBool_ok: "rng_ok r \<Longrightarrow> \<exists>b r'. RNG_getBool r = Some (b, r') \<and> rng_ok r'"
  using getInt32_ok [of r] by (auto simp: RNG_getBool_def Let_def)

context solver_contract
begin

lemma Timing_evaluate_answers:
  assumes "always_answers H I S" "path_ok H cs" "cond_ok H e" "I s"
  shows "\<exists>v s'. TimingSolver_evaluate G S b cs e s = Some (Some v, s')"
proof (cases e rule: Constant_cases)
  case (Constant c)
  then show ?thesis by (simp add: TimingSolver_evaluate_def)
next
  case other
  obtain q where q: "simplify_query G b cs e = Some q" "query_ok H q" "satisfiable H q" "getWidth (q_expr q) = getWidth e"
    using simplify_query_ok [OF assms(2) cond_ok_term [OF assms(3)]] by blast
  have "bool_query H q" using q(2,4) assms(3) by (simp add: bool_query_def cond_ok_def)
  then show ?thesis using evaluate_answers [OF assms(1) _ q(3) assms(4)] q(1) other by (auto simp: TimingSolver_evaluate_def case_other)
qed

text \<open>Every step keeps the invariant; the answer is right for the inputs of the state.\<close>

lemma fork_evaluate_ok:
  assumes ok: "executor_ok H I X" and i: "i \<in> all_states X" and c: "cond_ok H c"
  shows "\<exists>r s. fork_evaluate G S opts i c X = Some (r, X\<lparr>ex_solver := s\<rparr>) \<and> I s \<and>
    (r = Some VTrue \<longrightarrow> failing H X i c = {}) \<and> (r = Some VFalse \<longrightarrow> holding H X i c = {}) \<and>
    (r = Some VUnknown \<longrightarrow> holding H X i c \<noteq> {} \<and> failing H X i c \<noteq> {}) \<and> (always_answers H I S \<longrightarrow> r \<noteq> None)"
proof -
  obtain st where st: "ex_states X i = Some st" "path_ok H (st_constraints st)" "inputs_of H X i = models H (st_constraints st)"
    using executor_state [OF ok i] .
  let ?s = "TimingSolver_setTimeout S (fo_coreSolverTimeout opts) (ex_solver X)"
  have I: "I ?s" using ok timeout by (simp add: executor_ok_def TimingSolver_setTimeout_def Solver_setCoreSolverTimeout_def)
  obtain r s where r: "TimingSolver_evaluate G S (fo_SimplifyExprs opts) (st_constraints st) c ?s = Some (r, s)" "I s"
      "\<forall>v. r = Some v \<longrightarrow> validity_of H (st_constraints st) c v"
    using Timing_evaluate [OF st(2) c I] by blast
  have v: "validity_of H (st_constraints st) c x \<longleftrightarrow> (case x of VTrue \<Rightarrow> failing H X i c = {} | VFalse \<Rightarrow> holding H X i c = {}
      | VUnknown \<Rightarrow> holding H X i c \<noteq> {} \<and> failing H X i c \<noteq> {})" for x
    by (cases x) (auto simp: validity_of_def holding_def failing_def st(3))
  have "I (TimingSolver_setTimeout S 0 s)" using r(2) timeout by (simp add: TimingSolver_setTimeout_def Solver_setCoreSolverTimeout_def)
  moreover have "always_answers H I S \<longrightarrow> r \<noteq> None" 
    using Timing_evaluate_answers [OF _ st(2) c I, of "fo_SimplifyExprs opts"] r(1) by auto
  moreover have "fork_evaluate G S opts i c X = Some (r, X\<lparr>ex_solver := TimingSolver_setTimeout S 0 s\<rparr>)"
    using st(1) r(1) executor_unseeded [OF ok] by (simp add: fork_evaluate_def)
  moreover have "(r = Some VTrue \<longrightarrow> failing H X i c = {}) \<and> (r = Some VFalse \<longrightarrow> holding H X i c = {}) \<and>
    (r = Some VUnknown \<longrightarrow> holding H X i c \<noteq> {} \<and> failing H X i c \<noteq> {})"
    using r(3) v by auto
  ultimately show ?thesis by blast
qed

lemma fork_take_ok:
  assumes ok: "executor_ok H I X" and i: "i \<in> running X" and c: "cond_ok H c"
    and ne: "holding H X i c \<noteq> {}" "failing H X i c \<noteq> {}"
  shows "\<exists>X'. fork_take G S opts i c b X = Some (if b then VTrue else VFalse, X') \<and> executor_ok H I X' \<and>
    fork_result H X i c (if b then (Some i, None) else (None, Some i)) X'"
proof -
  obtain n where n: "createIsZero G c = Some n" "cond_ok H n" "holding H X i n = failing H X i c"
    using negated_holding [OF c, where X = X and i = i] .
  define d where "d = (if b then c else n)"
  have d: "cond_ok H d" "holding H X i d = (if b then holding H X i c else failing H X i c)" "holding H X i d \<noteq> {}"
    using n c ne by (simp_all add: d_def)
  obtain st where st: "Executor_addConstraint G S opts i d X = Some (put_state i st X)" "path_ok H (st_constraints st)"
      "models H (st_constraints st) = holding H X i d"
    using Executor_addConstraint_ok [OF ok running_all [OF i] d(1,3)] by blast
  have "fork_take G S opts i c b X = Some (if b then VTrue else VFalse, put_state i st X)"
    using n(1) st(1) by (cases b) (simp_all add: fork_take_def d_def)
  then show ?thesis using put_state_ok [OF ok st(2)] st(3) d(2) by (simp add: fork_result_def)
qed

lemma fork_both_ok:
  assumes ok: "executor_ok H I X" and i: "i \<in> running X" and c: "cond_ok H c"
    and ne: "holding H X i c \<noteq> {}" "failing H X i c \<noteq> {}"
  shows "\<exists>r X'. fork_both G S opts i c X = Some (r, X') \<and> executor_ok H I X' \<and> fork_result H X i c r X' \<and>
    (fo_MaxDepth opts = 0 \<longrightarrow> r \<noteq> (None, None))"
proof -
  let ?Y = "X\<lparr>ex_forks := ex_forks X + 1\<rparr>"
  have Y: "executor_ok H I ?Y" "i \<in> running ?Y" using executor_ok_updates(2) [OF ok] i by simp_all
  obtain n X1 X2 where b: "ExecutionState_branch i ?Y = Some (n, X1)"
      "attach_states n i (X1\<lparr>ex_addedStates := ex_addedStates X1 @ [n]\<rparr>) = Some X2" "n \<notin> all_states X" "executor_ok H I X2"
      "all_states X2 = insert n (all_states X)" "running X2 = insert n (running X)" "inputs_of H X2 = (inputs_of H X)(n := inputs_of H X i)"
    using new_state_ok [OF Y] by auto
  have un: "distribute_seeds G S opts i n c (X1\<lparr>ex_addedStates := ex_addedStates X1 @ [n]\<rparr>) = Some (X1\<lparr>ex_addedStates := ex_addedStates X1 @ [n]\<rparr>)"
    using b(1) executor_unseeded [OF ok] by (auto simp: ExecutionState_branch_def Let_def split: Option.bind_splits)
  have ni: "n \<noteq> i" using b(3) running_all [OF i] by blast
  have h2: "holding H X2 i c = holding H X i c" "failing H X2 n c = failing H X i c" using b(7) ni by (simp_all add: holding_def failing_def)
  have m2: "i \<in> all_states X2" "n \<in> all_states X2" using b(5) running_all [OF i] by auto
  obtain st where st: "Executor_addConstraint G S opts i c X2 = Some (put_state i st X2)" "path_ok H (st_constraints st)"
      "models H (st_constraints st) = holding H X i c"
    using Executor_addConstraint_ok [OF b(4) m2(1) c, of S opts] ne(1) unfolding h2(1) by blast
  let ?X3 = "put_state i st X2"
  have ok3: "executor_ok H I ?X3" by (rule put_state_ok [OF b(4) st(2)])
  obtain neg where neg: "createIsZero G c = Some neg" "cond_ok H neg" "holding H ?X3 n neg = failing H ?X3 n c"
    using negated_holding [OF c, where X = ?X3 and i = n] .
  have h3: "holding H ?X3 n neg = failing H X i c" unfolding neg(3) using h2(2) ni by (simp add: failing_def)
  obtain st' where st': "Executor_addConstraint G S opts n neg ?X3 = Some (put_state n st' ?X3)" "path_ok H (st_constraints st')"
      "models H (st_constraints st') = failing H X i c"
    using Executor_addConstraint_ok [OF ok3 _ neg(2), of n S opts] ne(2) m2(2) unfolding h3 put_state_fields by blast
  let ?X4 = "put_state n st' ?X3"
  have ok4: "executor_ok H I ?X4" by (rule put_state_ok [OF ok3 st'(2)])
  have r4: "running ?X4 = insert n (running X)" using b(6) by simp
  have E: "inputs_of H ?X4 = (inputs_of H X)(i := holding H X i c, n := failing H X i c)" using b(7) st(3) st'(3) ni by (auto simp: fun_eq_iff)
  have f: "ex_states ?X4 i = Some st" using ni by simp
  let ?deep = "fo_MaxDepth opts \<noteq> 0 \<and> fo_MaxDepth opts \<le> st_depth st"
  show ?thesis
  proof (cases ?deep)
    case False
    then have "fork_both G S opts i c X = Some ((Some i, Some n), ?X4)"
      using b(1,2) st(1) neg(1) st'(1) f ni un by (auto simp: fork_both_def Let_def)
    moreover have "fork_result H X i c (Some i, Some n) ?X4" using r4 E b(3) ni running_all [of _ X] by (auto simp: fork_result_def)
    ultimately show ?thesis using ok4 by blast
  next
    case True
    obtain X5 where t5: "Executor_terminateState i ?X4 = Some X5" "executor_ok H I X5" "running X5 = running ?X4 - {i}"
        "\<forall>j \<in> running ?X4 - {i}. inputs_of H X5 j = inputs_of H ?X4 j"
      using Executor_terminateState_ok [OF ok4, of i] r4 i by blast
    obtain X6 where t6: "Executor_terminateState n X5 = Some X6" "executor_ok H I X6" "running X6 = running X5 - {n}"
        "\<forall>j \<in> running X5 - {n}. inputs_of H X6 j = inputs_of H X5 j"
      using Executor_terminateState_ok [OF t5(2), of n] t5(3) r4 ni by blast
    have "fork_both G S opts i c X = Some ((None, None), X6)"
      using b(1,2) st(1) neg(1) st'(1) f True t5(1) t6(1) un by (simp add: fork_both_def Let_def)
    moreover have "running X6 = running X - {i}" using t5(3) t6(3) r4 b(3) by (auto simp: running_def)
    moreover have "inputs_of H X6 j = inputs_of H X j" if "j \<in> running X - {i}" for j
    proof -
      have "j \<in> running ?X4 - {i}" "j \<noteq> n" using that r4 b(3) running_all [of j X] by auto
      moreover have "inputs_of H X6 j = inputs_of H X5 j" using t6(4) t5(3) calculation by blast
      moreover have "inputs_of H X5 j = inputs_of H ?X4 j" using t5(4) calculation(1) by blast
      ultimately show ?thesis using that unfolding E by simp
    qed
    ultimately show ?thesis using t6(2) True by (auto simp: fork_result_def)
  qed
qed

lemma fork_decide_ok:
  assumes ok: "executor_ok H I X" and i: "i \<in> running X" and c: "cond_ok H c" and mode: "plain_mode opts isInternal"
    and ne: "res = VUnknown \<Longrightarrow> holding H X i c \<noteq> {} \<and> failing H X i c \<noteq> {}"
  shows "fork_decide G S opts i c isInternal res X = Some (res, X) \<or>
    (res = VUnknown \<and> \<not> forking_allowed opts X \<and> (\<exists>b X'. fork_decide G S opts i c isInternal res X = Some (if b then VTrue else VFalse, X') \<and>
       executor_ok H I X' \<and> fork_result H X i c (if b then (Some i, None) else (None, Some i)) X'))"
proof -
  obtain st where st: "ex_states X i = Some st" using executor_state [OF ok running_all [OF i]] .
  have m: "(if isInternal then None else fo_replayPath opts) = None" "\<not> fo_replayKTest opts" using mode by (auto simp: plain_mode_def)
  show ?thesis
  proof (cases "res = VUnknown \<and> fork_inhibited opts st X")
    case False
    then show ?thesis using st m by (auto simp: fork_decide_def)
  next
    case True
    obtain b r where r: "RNG_getBool (w_rng (ex_world X)) = Some (b, r)" "rng_ok r"
      using getBool_ok [of "w_rng (ex_world X)"] ok by (auto simp: executor_ok_def)
    let ?Y = "X\<lparr>ex_world := (ex_world X)\<lparr>w_rng := r\<rparr>\<rparr>"
    have "executor_ok H I ?Y" "i \<in> running ?Y" "holding H ?Y i c \<noteq> {}" "failing H ?Y i c \<noteq> {}"
      using executor_ok_updates(3) [OF ok r(2)] i ne True by (simp_all add: holding_def failing_def)
    then obtain X' where X': "fork_take G S opts i c b ?Y = Some (if b then VTrue else VFalse, X')" "executor_ok H I X'"
        "fork_result H ?Y i c (if b then (Some i, None) else (None, Some i)) X'"
      using fork_take_ok [of ?Y i c opts b] c by blast
    have F: "\<not> forking_allowed opts X" using True st by (auto simp: forking_allowed_def fork_inhibited_def)
    have D: "fork_decide G S opts i c isInternal res X = fork_take G S opts i c b ?Y"
      using True st m r(1) executor_unseeded [OF ok] by (simp add: fork_decide_def)
    have R: "fork_result H X i c (if b then (Some i, None) else (None, Some i)) X'"
      using X'(3) by (cases b) (simp_all add: fork_result_def holding_def failing_def)
    show ?thesis using True F R X'(2) unfolding D X'(1) by blast
  qed
qed

text \<open>The whole operation.\<close>

theorem Executor_fork_ok:
  assumes ok: "executor_ok H I X" and i: "i \<in> running X" and c: "cond_ok H c" and mode: "plain_mode opts isInternal"
  shows "\<exists>r X'. Executor_fork G S opts i c isInternal X = Some (r, X') \<and> executor_ok H I X' \<and> fork_result H X i c r X' \<and>
    (forking_allowed opts X \<longrightarrow> always_answers H I S \<longrightarrow>
      r \<noteq> (None, None) \<and> (snd r = None \<longrightarrow> failing H X i c = {}) \<and> (fst r = None \<longrightarrow> holding H X i c = {}))"
proof -
  have fx: "fork_fix_condition G S opts i c X = Some (c, X)" using mode by (simp add: fork_fix_condition_def plain_mode_def)
  obtain a s where a: "fork_evaluate G S opts i c X = Some (a, X\<lparr>ex_solver := s\<rparr>)" "I s"
      "a = Some VTrue \<longrightarrow> failing H X i c = {}" "a = Some VFalse \<longrightarrow> holding H X i c = {}"
      "a = Some VUnknown \<longrightarrow> holding H X i c \<noteq> {} \<and> failing H X i c \<noteq> {}" "always_answers H I S \<longrightarrow> a \<noteq> None"
    using fork_evaluate_ok [OF ok running_all [OF i] c, of opts] by blast
  let ?Y = "X\<lparr>ex_solver := s\<rparr>"
  have Y: "executor_ok H I ?Y" "i \<in> running ?Y" "holding H ?Y i c = holding H X i c" "failing H ?Y i c = failing H X i c"
    using executor_ok_updates(1) [OF ok a(2)] i by (simp_all add: holding_def failing_def)
  have fr: "fork_result H ?Y i c r X' = fork_result H X i c r X'" for r X'
    by (simp add: fork_result_def holding_def failing_def split: prod.split option.split)
  have fa: "forking_allowed opts ?Y = forking_allowed opts X" by (simp add: forking_allowed_def)
  show ?thesis
  proof (cases a)
    case None
    obtain st where st: "ex_states ?Y i = Some st" "path_ok H (st_constraints st)" "inputs_of H ?Y i = models H (st_constraints st)"
      using executor_state [OF Y(1) running_all [OF Y(2)]] .
    let ?Z = "put_state i (st\<lparr>st_pc := st_prevPC st\<rparr>) ?Y"
    have Z: "executor_ok H I ?Z" "i \<in> running ?Z" using put_state_ok [OF Y(1)] st(2) Y(2) by simp_all
    obtain X' where X': "Executor_terminateState i ?Z = Some X'" "executor_ok H I X'" "running X' = running ?Z - {i}"
        "\<forall>j \<in> running ?Z - {i}. inputs_of H X' j = inputs_of H ?Z j"
      using Executor_terminateState_ok [OF Z] by blast
    have "Executor_fork G S opts i c isInternal X = Some ((None, None), X')"
      using fx a(1) None st(1) X'(1) by (simp add: Executor_fork_def)
    moreover have "fork_result H X i c (None, None) X'" using X'(3,4) by (simp add: fork_result_def)
    ultimately show ?thesis using X'(2) a(6) None by blast
  next
    case (Some res)
    have ne: "holding H ?Y i c \<noteq> {} \<and> failing H ?Y i c \<noteq> {}" if "res = VUnknown" using a(5) Some that Y(3,4) by simp
    have run: "Executor_fork G S opts i c isInternal X = (case res' of VTrue \<Rightarrow> Some ((Some i, None), X')
        | VFalse \<Rightarrow> Some ((None, Some i), X') | VUnknown \<Rightarrow> fork_both G S opts i c X')"
      if "fork_decide G S opts i c isInternal res ?Y = Some (res', X')" "executor_ok H I X'" for res' X'
      using fx a(1) Some that executor_unseeded [OF that(2)] by (simp add: Executor_fork_def)
    have "fork_decide G S opts i c isInternal res ?Y = Some (res, ?Y) \<or>
      (res = VUnknown \<and> \<not> forking_allowed opts ?Y \<and> (\<exists>b X'. fork_decide G S opts i c isInternal res ?Y = Some (if b then VTrue else VFalse, X') \<and>
         executor_ok H I X' \<and> fork_result H ?Y i c (if b then (Some i, None) else (None, Some i)) X'))"
      by (rule fork_decide_ok [OF Y(1,2) c mode]) (rule ne)
    then show ?thesis
    proof (elim disjE conjE exE)
      assume d: "fork_decide G S opts i c isInternal res ?Y = Some (res, ?Y)"
      show ?thesis
      proof (cases res)
        case VTrue
        have e: "failing H X i c = {}" using a(3) Some VTrue by simp
        then have "fork_result H X i c (Some i, None) ?Y" by (auto simp: fork_result_def holding_def failing_def)
        then show ?thesis using run [OF d Y(1)] VTrue Y(1) e by simp
      next
        case VFalse
        have e: "holding H X i c = {}" using a(4) Some VFalse by simp
        then have "fork_result H X i c (None, Some i) ?Y" by (auto simp: fork_result_def holding_def failing_def)
        then show ?thesis using run [OF d Y(1)] VFalse Y(1) e by simp
      next
        case VUnknown
        have n: "holding H ?Y i c \<noteq> {}" "failing H ?Y i c \<noteq> {}" using ne [OF VUnknown] by blast+
        obtain r X' where r: "fork_both G S opts i c ?Y = Some (r, X')" "executor_ok H I X'" "fork_result H X i c r X'"
            "fo_MaxDepth opts = 0 \<longrightarrow> r \<noteq> (None, None)"
          using fork_both_ok [OF Y(1,2) c n, of opts] unfolding fr by blast
        have "r = (None, None) \<or> (fst r \<noteq> None \<and> snd r \<noteq> None)"
          using r(1) by (auto simp: fork_both_def Let_def split: Option.bind_splits if_splits)
        then show ?thesis using run [OF d Y(1)] VUnknown r by (auto simp: forking_allowed_def)
      qed
    next
      fix b X'
      assume d: "fork_decide G S opts i c isInternal res ?Y = Some (if b then VTrue else VFalse, X')" "executor_ok H I X'"
        "fork_result H ?Y i c (if b then (Some i, None) else (None, Some i)) X'" "\<not> forking_allowed opts ?Y"
      have "Executor_fork G S opts i c isInternal X = Some (if b then (Some i, None) else (None, Some i), X')"
        using run [OF d(1,2)] by (cases b) simp_all
      then show ?thesis using d(2-4) fr fa by blast
    qed
  qed
qed

end

section \<open>Executor::branch\<close>

text \<open>The states that a result lists.\<close>

fun chosen :: "nat option list \<Rightarrow> nat list" where
  "chosen [] = []"
| "chosen (None # result) = chosen result"
| "chosen (Some a # result) = a # chosen result"

lemma chosen_Some [simp]: "chosen (map Some ids) = ids"
  by (induction ids) simp_all

lemma chosen_one: "distinct ks \<Longrightarrow> chosen (map (\<lambda>k. if k = n then Some i else None) ks) = (if n \<in> set ks then [i] else [])"
  by (induction ks) auto

lemma set_chosen: "set (chosen result) = {a. Some a \<in> set result}"
  by (induction result rule: chosen.induct) auto

text \<open>
  What a branch does: the state that stands for a condition has the inputs on which the
  condition holds; all but the first are new.
\<close>

definition branch_result :: "(nat \<Rightarrow> array) \<Rightarrow> 's executor \<Rightarrow> nat \<Rightarrow> expr list \<Rightarrow> nat option list \<Rightarrow> 's executor \<Rightarrow> bool" where
  "branch_result H X i conditions result X' \<longleftrightarrow>
     length result = length conditions \<and> distinct (chosen result) \<and> set (chosen result) \<inter> all_states X \<subseteq> {i} \<and>
     running X' = running X \<union> set (chosen result) \<and> (\<forall>j \<in> running X - {i}. inputs_of H X' j = inputs_of H X j) \<and>
     (\<forall>k < length conditions. \<forall>a. result ! k = Some a \<longrightarrow> inputs_of H X' a = holding H X i (conditions ! k))"

lemma unat_mod_less: "0 < n \<Longrightarrow> n < 2 ^ 32 \<Longrightarrow> unat (x mod word_of_nat n :: uint32) < n"
  by (simp add: unat_mod take_bit_nat_eq_self unsigned_of_nat)

lemma branch_states_ok:
  fixes X :: "'s executor"
  assumes "executor_ok H I X" "result \<noteq> []" "length result + n < 2 ^ 32" "set result \<subseteq> running X" "distinct result"
    and "\<forall>k \<in> set result. inputs_of H X k = M"
  shows "\<exists>ids X'. branch_states n result X = Some (result @ ids, X') \<and> length ids = n \<and> distinct (result @ ids) \<and>
    executor_ok H I X' \<and> set ids \<inter> all_states X = {} \<and> running X' = running X \<union> set ids \<and> all_states X' = all_states X \<union> set ids \<and>
    (\<forall>k. inputs_of H X' k = (if k \<in> set ids then M else inputs_of H X k))"
  using assms
proof (induction n arbitrary: result X)
  case (Suc n)
  obtain x r where r: "RNG_getInt32 (w_rng (ex_world X)) = Some (x, r)" "rng_ok r"
    using getInt32_ok [of "w_rng (ex_world X)"] Suc.prems(1) by (auto simp: executor_ok_def)
  let ?Y = "X\<lparr>ex_world := (ex_world X)\<lparr>w_rng := r\<rparr>\<rparr>" and ?k = "unat (x mod of_nat (length result))"
  have k: "?k < length result" using unat_mod_less [of "length result" x] Suc.prems(2,3) by simp
  then have e: "nth_opt result ?k = Some (result ! ?k)" "result ! ?k \<in> set result" by (simp_all add: nth_opt_def)
  have Y: "executor_ok H I ?Y" "result ! ?k \<in> running ?Y" using executor_ok_updates(3) [OF Suc.prems(1) r(2)] e(2) Suc.prems(4) by auto
  obtain m X1 X2 where b: "ExecutionState_branch (result ! ?k) ?Y = Some (m, X1)"
      "attach_states m (result ! ?k) (X1\<lparr>ex_addedStates := ex_addedStates X1 @ [m]\<rparr>) = Some X2" "m \<notin> all_states X" "executor_ok H I X2"
      "all_states X2 = insert m (all_states X)" "running X2 = insert m (running X)"
      "inputs_of H X2 = (inputs_of H X)(m := inputs_of H X (result ! ?k))"
    using new_state_ok [OF Y] by auto
  have m: "m \<notin> set result" "m \<notin> running X" using b(3) Suc.prems(4) running_all [of _ X] by auto
  have M: "inputs_of H X2 = (inputs_of H X)(m := M)" using b(7) e(2) Suc.prems(6) by simp
  have "\<exists>ids X'. branch_states n (result @ [m]) X2 = Some ((result @ [m]) @ ids, X') \<and> length ids = n \<and> distinct ((result @ [m]) @ ids) \<and>
    executor_ok H I X' \<and> set ids \<inter> all_states X2 = {} \<and> running X' = running X2 \<union> set ids \<and> all_states X' = all_states X2 \<union> set ids \<and>
    (\<forall>k. inputs_of H X' k = (if k \<in> set ids then M else inputs_of H X2 k))"
    by (rule Suc.IH [OF b(4)]) (use Suc.prems m b(6) M in auto)
  then obtain ids X' where X': "branch_states n (result @ [m]) X2 = Some ((result @ [m]) @ ids, X')" "length ids = n"
      "distinct ((result @ [m]) @ ids)" "executor_ok H I X'" "set ids \<inter> all_states X2 = {}" "running X' = running X2 \<union> set ids"
      "all_states X' = all_states X2 \<union> set ids" "\<forall>k. inputs_of H X' k = (if k \<in> set ids then M else inputs_of H X2 k)"
    by (elim exE conjE) (rule that)
  have "branch_states (Suc n) result X = Some (result @ (m # ids), X')" by (simp add: r(1) e(1) b(1,2) X'(1))
  moreover have "\<forall>k. inputs_of H X' k = (if k \<in> set (m # ids) then M else inputs_of H X k)" using X'(8) M by simp
  ultimately show ?case using X'(2-7) b(3,5,6) by (intro exI [of _ "m # ids"] exI [of _ X']) auto
qed simp

context expr_creation
begin

lemma add_conditions_ok:
  fixes X :: "'s executor"
  assumes "executor_ok H I X" "length result = length conditions" "distinct (chosen result)" "set (chosen result) \<subseteq> all_states X"
    and "\<forall>k < length conditions. cond_ok H (conditions ! k) \<and> (\<forall>a. result ! k = Some a \<longrightarrow> holding H X a (conditions ! k) \<noteq> {})"
  shows "\<exists>X'. add_conditions G S opts result conditions X = Some X' \<and> executor_ok H I X' \<and> all_states X' = all_states X \<and> running X' = running X \<and>
    (\<forall>k. k \<notin> set (chosen result) \<longrightarrow> inputs_of H X' k = inputs_of H X k) \<and>
    (\<forall>k < length conditions. \<forall>a. result ! k = Some a \<longrightarrow> inputs_of H X' a = holding H X a (conditions ! k))"
  using assms
proof (induction result arbitrary: conditions X)
  case (Cons r result)
  obtain c cs where cs: "conditions = c # cs" using Cons.prems(2) by (cases conditions) auto
  have c: "cond_ok H c" "\<And>a. r = Some a \<Longrightarrow> holding H X a c \<noteq> {}" using Cons.prems(5) [rule_format, of 0] by (auto simp: cs)
  have rest: "cond_ok H (cs ! k) \<and> (\<forall>a. result ! k = Some a \<longrightarrow> holding H X a (cs ! k) \<noteq> {})" if "k < length cs" for k
    using Cons.prems(5) [rule_format, of "Suc k"] that by (auto simp: cs)
  show ?case
  proof (cases r)
    case None
    have "\<exists>X'. add_conditions G S opts result cs X = Some X' \<and> executor_ok H I X' \<and> all_states X' = all_states X \<and> running X' = running X \<and>
        (\<forall>k. k \<notin> set (chosen result) \<longrightarrow> inputs_of H X' k = inputs_of H X k) \<and>
        (\<forall>k < length cs. \<forall>a. result ! k = Some a \<longrightarrow> inputs_of H X' a = holding H X a (cs ! k))"
      by (rule Cons.IH [OF Cons.prems(1)]) (use Cons.prems(2-4) None cs rest in simp_all)
    then show ?thesis unfolding cs None by (elim exE conjE) (auto simp: nth_Cons split: nat.splits)
  next
    case (Some i)
    have i: "i \<in> all_states X" "i \<notin> set (chosen result)" using Cons.prems(3,4) Some by auto
    obtain st where st: "Executor_addConstraint G S opts i c X = Some (put_state i st X)" "path_ok H (st_constraints st)"
        "models H (st_constraints st) = holding H X i c"
      using Executor_addConstraint_ok [OF Cons.prems(1) i(1) c(1), of S opts] c(2) [OF Some] by blast
    let ?Y = "put_state i st X"
    have same: "inputs_of H ?Y a = inputs_of H X a" if "a \<in> set (chosen result)" for a using i(2) that by auto
    have hs: "holding H ?Y a d = holding H X a d" if "a \<in> set (chosen result)" for a d unfolding holding_def same [OF that] ..
    have mem: "a \<in> set (chosen result)" if "k < length cs" "result ! k = Some a" for k a
      using that Cons.prems(2) unfolding set_chosen cs by (metis length_Cons mem_Collect_eq nat.inject nth_mem)
    have "\<exists>X'. add_conditions G S opts result cs ?Y = Some X' \<and> executor_ok H I X' \<and> all_states X' = all_states ?Y \<and> running X' = running ?Y \<and>
        (\<forall>k. k \<notin> set (chosen result) \<longrightarrow> inputs_of H X' k = inputs_of H ?Y k) \<and>
        (\<forall>k < length cs. \<forall>a. result ! k = Some a \<longrightarrow> inputs_of H X' a = holding H ?Y a (cs ! k))"
      by (rule Cons.IH [OF put_state_ok [OF Cons.prems(1) st(2)]]) (use Cons.prems(2-4) Some cs rest hs mem in simp_all)
    then obtain X' where X': "add_conditions G S opts result cs ?Y = Some X'" "executor_ok H I X'" "all_states X' = all_states X" "running X' = running X"
        "\<And>k. k \<notin> set (chosen result) \<Longrightarrow> inputs_of H X' k = inputs_of H ?Y k"
        "\<And>k a. k < length cs \<Longrightarrow> result ! k = Some a \<Longrightarrow> inputs_of H X' a = holding H ?Y a (cs ! k)"
      unfolding put_state_fields by blast
    have "inputs_of H X' a = holding H X a (conditions ! k)" if "k < length conditions" "(r # result) ! k = Some a" for k a
    proof (cases k)
      case 0
      then show ?thesis using X'(5) [OF i(2)] st(3) that(2) Some cs by simp
    next
      case (Suc l)
      then have l: "l < length cs" "result ! l = Some a" using that cs by simp_all
      then show ?thesis using X'(6) [OF l] hs [OF mem [OF l]] Suc cs by simp
    qed
    then show ?thesis using X'(1-5) st(1) Some cs by auto
  qed
qed simp

text \<open>The whole operation, on conditions that each leave an input.\<close>

theorem Executor_branch_ok:
  fixes X :: "'s executor"
  assumes ok: "executor_ok H I X" and i: "i \<in> running X" and n: "conditions \<noteq> []" "length conditions < 2 ^ 32"
    and c: "\<forall>c \<in> set conditions. cond_ok H c \<and> holding H X i c \<noteq> {}"
  shows "\<exists>result X'. Executor_branch G S opts i conditions X = Some (result, X') \<and> executor_ok H I X' \<and>
    branch_result H X i conditions result X' \<and> i \<in> set (chosen result) \<and> (fo_MaxForks opts = - 1 \<longrightarrow> None \<notin> set result)"
proof -
  have N: "unat (word_of_nat (length conditions) :: uint32) = length conditions" using n(2) by (simp add: unsigned_of_nat take_bit_nat_eq_self)
  have N0: "length conditions \<noteq> 0" using n(1) by simp
  have hold: "cond_ok H (conditions ! k)" "holding H X i (conditions ! k) \<noteq> {}" if "k < length conditions" for k using c that by auto
  show ?thesis
  proof (cases "fo_MaxForks opts \<noteq> - 1 \<and> ex_forks X \<ge> ucast (fo_MaxForks opts)")
    case True
    obtain x r where r: "RNG_getInt32 (w_rng (ex_world X)) = Some (x, r)" "rng_ok r"
      using getInt32_ok [of "w_rng (ex_world X)"] ok by (auto simp: executor_ok_def)
    let ?Y = "X\<lparr>ex_world := (ex_world X)\<lparr>w_rng := r\<rparr>\<rparr>" and ?k = "unat (x mod of_nat (length conditions))"
    let ?res = "map (\<lambda>k. if k = ?k then Some i else None) [0..<length conditions]"
    have k: "?k < length conditions" using unat_mod_less [of "length conditions" x] n by simp
    have ch: "chosen ?res = [i]" using k by (subst chosen_one) simp_all
    have "\<exists>X'. add_conditions G S opts ?res conditions ?Y = Some X' \<and> executor_ok H I X' \<and> all_states X' = all_states ?Y \<and> running X' = running ?Y \<and>
        (\<forall>k. k \<notin> set (chosen ?res) \<longrightarrow> inputs_of H X' k = inputs_of H ?Y k) \<and>
        (\<forall>k < length conditions. \<forall>a. ?res ! k = Some a \<longrightarrow> inputs_of H X' a = holding H ?Y a (conditions ! k))"
      by (rule add_conditions_ok [OF executor_ok_updates(3) [OF ok r(2)]])
        (use hold running_all [OF i] in \<open>auto simp: ch holding_def split: if_splits\<close>)
    then obtain X' where X': "add_conditions G S opts ?res conditions ?Y = Some X'" "executor_ok H I X'" "running X' = running X"
        "\<And>k. k \<noteq> i \<Longrightarrow> inputs_of H X' k = inputs_of H X k"
        "\<And>k a. k < length conditions \<Longrightarrow> ?res ! k = Some a \<Longrightarrow> inputs_of H X' a = holding H X a (conditions ! k)"
      unfolding ch by (auto simp: holding_def)
    have "Executor_branch G S opts i conditions X = Some (?res, X')"
      using True r(1) X'(1) N0 executor_unseeded [OF ok] by (simp add: Executor_branch_def N Let_def)
    moreover have "branch_result H X i conditions ?res X'"
      unfolding branch_result_def ch using X'(3-5) i by (auto split: if_splits)
    ultimately show ?thesis using X'(2) True ch by auto
  next
    case False
    define m where "m = length conditions - 1"
    let ?Y = "X\<lparr>ex_forks := ex_forks X + of_nat m\<rparr>"
    have "\<exists>ids X'. branch_states m [i] ?Y = Some ([i] @ ids, X') \<and> length ids = m \<and> distinct ([i] @ ids) \<and>
        executor_ok H I X' \<and> set ids \<inter> all_states ?Y = {} \<and> running X' = running ?Y \<union> set ids \<and> all_states X' = all_states ?Y \<union> set ids \<and>
        (\<forall>k. inputs_of H X' k = (if k \<in> set ids then inputs_of H X i else inputs_of H ?Y k))"
      by (rule branch_states_ok [OF executor_ok_updates(2) [OF ok]]) (use n i in \<open>auto simp: m_def\<close>)
    then obtain ids X1 where b: "branch_states m [i] ?Y = Some (i # ids, X1)" "length ids = m"
        "distinct (i # ids)" "executor_ok H I X1" "set ids \<inter> all_states X = {}" "running X1 = running X \<union> set ids"
        "all_states X1 = all_states X \<union> set ids" "\<And>k. inputs_of H X1 k = (if k \<in> set ids then inputs_of H X i else inputs_of H X k)"
      by auto
    let ?res = "map Some (i # ids)"
    have len: "length ?res = length conditions" using b(2) N0 by (simp add: m_def)
    have M: "inputs_of H X1 a = inputs_of H X i" if "a \<in> set (i # ids)" for a using that b(8) by auto
    have hs: "holding H X1 a d = holding H X i d" if "a \<in> set (i # ids)" for a d unfolding holding_def M [OF that] ..
    have mem: "a \<in> set (i # ids)" if "k < length conditions" "?res ! k = Some a" for k a
      using that len by (metis length_map nth_map nth_mem option.inject)
    have "\<exists>X'. add_conditions G S opts ?res conditions X1 = Some X' \<and> executor_ok H I X' \<and> all_states X' = all_states X1 \<and> running X' = running X1 \<and>
        (\<forall>k. k \<notin> set (chosen ?res) \<longrightarrow> inputs_of H X' k = inputs_of H X1 k) \<and>
        (\<forall>k < length conditions. \<forall>a. ?res ! k = Some a \<longrightarrow> inputs_of H X' a = holding H X1 a (conditions ! k))"
    proof (rule add_conditions_ok [OF b(4) len])
      show "distinct (chosen ?res)" "set (chosen ?res) \<subseteq> all_states X1" unfolding chosen_Some using b(3,7) running_all [OF i] by auto
      show "\<forall>k < length conditions. cond_ok H (conditions ! k) \<and> (\<forall>a. ?res ! k = Some a \<longrightarrow> holding H X1 a (conditions ! k) \<noteq> {})"
        using hold hs mem by metis
    qed
    then obtain X' where X': "add_conditions G S opts ?res conditions X1 = Some X'" "executor_ok H I X'" "running X' = running X1"
        "\<And>k. k \<notin> set (i # ids) \<Longrightarrow> inputs_of H X' k = inputs_of H X1 k"
        "\<And>k a. k < length conditions \<Longrightarrow> ?res ! k = Some a \<Longrightarrow> inputs_of H X' a = holding H X1 a (conditions ! k)"
      unfolding chosen_Some by blast
    have "Executor_branch G S opts i conditions X = Some (?res, X')"
      unfolding Executor_branch_def N Let_def m_def [symmetric] if_not_P [OF False] b(1) using X'(1) N0 executor_unseeded [OF b(4)] by simp
    moreover have "branch_result H X i conditions ?res X'"
    proof -
      have "inputs_of H X' a = holding H X i (conditions ! k)" if "k < length conditions" "?res ! k = Some a" for k a
        using X'(5) [OF that] hs [OF mem [OF that]] by simp
      moreover have "inputs_of H X' j = inputs_of H X j" if "j \<in> running X - {i}" for j
      proof -
        have "j \<notin> set (i # ids)" using that b(5) running_all [of j X] by auto
        then show ?thesis using X'(4) b(8) by simp
      qed
      ultimately show ?thesis
        unfolding branch_result_def chosen_Some using len b(3,5,6) X'(3) i by auto
    qed
    moreover have "None \<notin> set ?res \<and> i \<in> set (chosen ?res)" by auto
    ultimately show ?thesis using X'(2) by blast
  qed
qed

end

end
