(* ===== verification/ExecutorRounds.thy ===== *)
theory ExecutorRounds
  imports ExecutorForkSound
begin

text \<open>
  The loop of \<open>Executor::run\<close> over states with constraints: an instruction forks, branches and
  terminates states, a round selects a state, executes an instruction and updates the states.
  Along it the inputs are partitioned by the states.
\<close>

section \<open>What the operations leave alone\<close>

text \<open>The states of the executor, their texts, the limits, and whether a state may fork.\<close>

definition frame :: "'s executor \<Rightarrow> 's executor \<Rightarrow> bool" where
  "frame X X' \<longleftrightarrow> w_states (ex_world X') = w_states (ex_world X) \<and> w_constraints (ex_world X') = w_constraints (ex_world X) \<and>
     ex_atMemoryLimit X' = ex_atMemoryLimit X \<and> ex_inhibitForking X' = ex_inhibitForking X \<and>
     (\<forall>i st'. ex_states X' i = Some st' \<longrightarrow> (\<exists>j st. ex_states X j = Some st \<and> st_forkDisabled st' = st_forkDisabled st))"

lemma frame_refl [simp]: "frame X X"
  unfolding frame_def by blast

lemma frame_trans: "frame X Y \<Longrightarrow> frame Y Z \<Longrightarrow> frame X Z"
  unfolding frame_def by metis

lemma frame_updates [simp]:
  "frame X (Y\<lparr>ex_solver := s\<rparr>) = frame X Y" "frame X (Y\<lparr>ex_forks := n\<rparr>) = frame X Y"
  "frame X (Y\<lparr>ex_seedMap := sm\<rparr>) = frame X Y"
  "frame X (Y\<lparr>ex_addedStates := xs\<rparr>) = frame X Y" "frame X (Y\<lparr>ex_removedStates := xs\<rparr>) = frame X Y"
  "frame X (Y\<lparr>ex_replayPosition := p\<rparr>) = frame X Y" "frame X (Y\<lparr>ex_next := m\<rparr>) = frame X Y"
  "frame X (Y\<lparr>ex_world := (ex_world Y)\<lparr>w_rng := r\<rparr>\<rparr>) = frame X Y"
  "frame X (Y\<lparr>ex_world := (ex_world Y)\<lparr>w_tree := t\<rparr>\<rparr>) = frame X Y"
  by (simp_all add: frame_def)

lemma put_state_limits [simp]:
  "ex_atMemoryLimit (put_state i st X) = ex_atMemoryLimit X" "ex_inhibitForking (put_state i st X) = ex_inhibitForking X"
  by (simp_all add: put_state_def)

lemma frame_put: "frame X Y \<Longrightarrow> ex_states Y j = Some st \<Longrightarrow> st_forkDisabled st' = st_forkDisabled st \<Longrightarrow> frame X (put_state i st' Y)"
  unfolding frame_def by (auto; metis)

lemma frame_world:
  assumes "frame X X'"
  shows "w_states (ex_world X') = w_states (ex_world X)" "feasible (ex_world X) s \<Longrightarrow> feasible (ex_world X') s"
proof -
  show "w_states (ex_world X') = w_states (ex_world X)" using assms by (simp add: frame_def)
  have "w_constraints (ex_world X') = w_constraints (ex_world X)" using assms by (simp add: frame_def)
  then show "feasible (ex_world X) s \<Longrightarrow> feasible (ex_world X') s"
    by (induction s) (simp_all add: scores_high_def score_def)
qed

lemma frame_allowed: "frame X X' \<Longrightarrow> forking_allowed opts X \<Longrightarrow> forking_allowed opts X'"
  unfolding frame_def forking_allowed_def by metis

lemma frame_check_seeds: "check_seeds G S opts i c X = Some X' \<Longrightarrow> frame X X'"
  by (auto simp: check_seeds_def split: option.splits Option.bind_splits)

lemma frame_addConstraint:
  assumes "Executor_addConstraint G S opts i c X = Some X'"
  shows "frame X X'"
proof (cases c rule: Constant_cases)
  case (Constant a)
  then show ?thesis using assms by (simp add: Executor_addConstraint_def split: if_splits)
next
  case other
  obtain Y st cs where y: "check_seeds G S opts i c X = Some Y" "ex_states Y i = Some st"
      "X' = put_state i (st\<lparr>st_updated := True, st_constraints := cs\<rparr>) Y"
    using assms other by (auto simp: Executor_addConstraint_def case_other ExecutionState_addConstraint_def split: Option.bind_splits)
  have "frame Y X'" unfolding y(3) by (rule frame_put [OF frame_refl y(2)]) simp
  with y(1) show ?thesis using frame_check_seeds frame_trans by blast
qed

lemma frame_branch: "ExecutionState_branch i X = Some (n, X') \<Longrightarrow> frame X X'"
  unfolding ExecutionState_branch_def Let_def ExecutionState_copy_def
  by (auto split: Option.bind_splits intro!: frame_put)

lemma frame_attach: "attach_states n i X = Some X' \<Longrightarrow> frame X X'"
  by (auto simp: attach_states_def split: Option.bind_splits)

lemma frame_terminate: "Executor_terminateState i X = Some X' \<Longrightarrow> frame X X'"
  by (auto simp: Executor_terminateState_def frame_put split: Option.bind_splits if_splits) (auto simp: frame_def)

lemma frame_fix: "fork_fix_condition G S opts i c X = Some (c', X') \<Longrightarrow> frame X X'"
  by (auto simp: fork_fix_condition_def split: Option.bind_splits if_splits dest!: frame_addConstraint) (simp add: frame_def)

lemma frame_evaluate: "fork_evaluate G S opts i c X = Some (r, X') \<Longrightarrow> frame X X'"
  by (auto simp: fork_evaluate_def split: Option.bind_splits)

lemma frame_take: "fork_take G S opts i c b X = Some (r, X') \<Longrightarrow> frame X X'"
  by (auto simp: fork_take_def split: Option.bind_splits if_splits dest!: frame_addConstraint)

lemma frame_decide: "fork_decide G S opts i c isInternal res X = Some (r, X') \<Longrightarrow> frame X X'"
  by (auto simp: fork_decide_def Let_def split: Option.bind_splits if_splits option.splits validity.splits dest!: frame_take)
    (simp_all add: frame_def)

lemma frame_fork_seeds: "fork_seeds G S opts i c res X = Some (r, X') \<Longrightarrow> frame X X'"
  by (auto simp: fork_seeds_def Let_def split: option.splits Option.bind_splits if_splits dest!: frame_take) (simp_all add: frame_def)

lemma frame_put_old: "frame X Y \<Longrightarrow> ex_states X j = Some st \<Longrightarrow> st_forkDisabled st' = st_forkDisabled st \<Longrightarrow> frame X (put_state i st' Y)"
  unfolding frame_def by auto

lemma frame_swap:
  assumes "swap_coverage i j X = Some X'"
  shows "frame X X'"
proof -
  obtain a b where x: "ex_states X i = Some a" "ex_states X j = Some b"
      "X' = put_state j (b\<lparr>st_coveredNew := st_coveredNew a, st_coveredLines := st_coveredLines a\<rparr>)
            (put_state i (a\<lparr>st_coveredNew := st_coveredNew b, st_coveredLines := st_coveredLines b\<rparr>) X)"
    using assms by (auto simp: swap_coverage_def split: Option.bind_splits)
  show ?thesis unfolding x(3) by (intro frame_put_old [OF _ x(2)] frame_put_old [OF frame_refl x(1)]) simp_all
qed

lemma frame_distribute: "distribute_seeds G S opts i n c X = Some X' \<Longrightarrow> frame X X'"
  by (auto simp: distribute_seeds_def Let_def split: option.splits Option.bind_splits if_splits dest!: frame_swap) (simp_all add: frame_def)

lemma frame_forks_added [simp]:
  "frame (X\<lparr>ex_forks := n\<rparr>) Y = frame X Y" "frame (X\<lparr>ex_addedStates := xs\<rparr>) Y = frame X Y"
  "frame (X\<lparr>ex_seedMap := sm\<rparr>) Y = frame X Y" "frame (X\<lparr>ex_solver := s\<rparr>) Y = frame X Y"
  by (simp_all add: frame_def)

lemma frame_both:
  assumes "fork_both G S opts i c X = Some (r, X')"
  shows "frame X X'"
proof -
  obtain n X1 X2 X3 X4 neg X5 where x: "ExecutionState_branch i (X\<lparr>ex_forks := ex_forks X + 1\<rparr>) = Some (n, X1)"
      "distribute_seeds G S opts i n c (X1\<lparr>ex_addedStates := ex_addedStates X1 @ [n]\<rparr>) = Some X2"
      "attach_states n i X2 = Some X3" "Executor_addConstraint G S opts i c X3 = Some X4" "Executor_addConstraint G S opts n neg X4 = Some X5"
    and e: "X' = X5 \<or> (\<exists>X6. Executor_terminateState i X5 = Some X6 \<and> Executor_terminateState n X6 = Some X')"
    using assms by (force simp: fork_both_def Let_def split: Option.bind_splits if_splits)
  have "frame X X1" "frame X1 X2" "frame X2 X3" "frame X3 X4" "frame X4 X5"
    using frame_branch [OF x(1)] frame_distribute [OF x(2)] frame_attach [OF x(3)] frame_addConstraint [OF x(4)] frame_addConstraint [OF x(5)] by simp_all
  then have "frame X X5" by (blast intro: frame_trans)
  then show ?thesis using e by (blast intro: frame_trans dest: frame_terminate)
qed

lemma frame_fork:
  assumes "Executor_fork G S opts i c isInternal X = Some (r, X')"
  shows "frame X X'"
proof -
  obtain c1 X1 a X2 where x: "fork_fix_condition G S opts i c X = Some (c1, X1)" "fork_evaluate G S opts i c1 X1 = Some (a, X2)"
    and e: "(case a of None \<Rightarrow> do { st \<leftarrow> ex_states X2 i; X \<leftarrow> Executor_terminateState i (put_state i (st\<lparr>st_pc := st_prevPC st\<rparr>) X2); Some ((None, None), X) }
      | Some res \<Rightarrow> do {
          (res, X) \<leftarrow> fork_decide G S opts i c1 isInternal res X2;
          (res, X) \<leftarrow> fork_seeds G S opts i c1 res X;
          (case res of VTrue \<Rightarrow> Some ((Some i, None), X) | VFalse \<Rightarrow> Some ((None, Some i), X) | VUnknown \<Rightarrow> fork_both G S opts i c1 X) }) = Some (r, X')"
    using assms unfolding Executor_fork_def by (auto split: Option.bind_splits)
  have f: "frame X X2" using frame_fix [OF x(1)] frame_evaluate [OF x(2)] by (rule frame_trans)
  have "frame X2 X'"
  proof (cases a)
    case None
    then obtain st where "ex_states X2 i = Some st" "Executor_terminateState i (put_state i (st\<lparr>st_pc := st_prevPC st\<rparr>) X2) = Some X'"
      using e by (auto split: Option.bind_splits)
    then show ?thesis using frame_terminate frame_put [OF frame_refl] by (metis frame_trans exec_state.select_convs(7) exec_state.update_convs(2) exec_state.surjective)
  next
    case (Some res)
    then obtain r1 X3 r2 X4 where d: "fork_decide G S opts i c1 isInternal res X2 = Some (r1, X3)" "fork_seeds G S opts i c1 r1 X3 = Some (r2, X4)"
      "X' = X4 \<or> fork_both G S opts i c1 X4 = Some (r, X')"
      using e by (fastforce split: Option.bind_splits validity.splits)
    have "frame X2 X4" using frame_decide [OF d(1)] frame_fork_seeds [OF d(2)] by (rule frame_trans)
    then show ?thesis using d(3) frame_both frame_trans by blast
  qed
  with f show ?thesis by (rule frame_trans)
qed

lemma frame_branch_states: "branch_states n result X = Some (r, X') \<Longrightarrow> frame X X'"
proof (induction n arbitrary: result X)
  case (Suc n)
  then show ?case
    by (auto split: Option.bind_splits dest!: frame_branch frame_attach Suc.IH) (auto simp: frame_def; metis)
qed simp

lemma frame_conditions: "add_conditions G S opts result cs X = Some X' \<Longrightarrow> frame X X'"
  by (induction G S opts result cs X rule: add_conditions.induct)
    (auto split: Option.bind_splits dest!: frame_addConstraint intro: frame_trans)

lemma frame_branch_seeds: "branch_seeds G S opts i cs result seeds X = Some X' \<Longrightarrow> frame X X'"
proof (induction seeds arbitrary: X)
  case (Cons seed seeds)
  show ?case using Cons.prems
    by (auto simp: Let_def split: Option.bind_splits if_splits option.splits dest!: Cons.IH) (simp_all add: frame_def)
qed simp

lemma frame_kill: "kill_unseeded result X = Some (r, X') \<Longrightarrow> frame X X'"
proof (induction result arbitrary: X r)
  case (Cons a result)
  obtain b Y r' where x: "(case a of None \<Rightarrow> Some (a, X)
        | Some j \<Rightarrow> if ex_seedMap X j = None then map_option (Pair None) (Executor_terminateState j X) else Some (a, X)) = Some (b, Y)"
      "kill_unseeded result Y = Some (r', X')"
    using Cons.prems by (auto split: Option.bind_splits)
  have "frame X Y" using x(1) by (auto split: option.splits if_splits dest: frame_terminate)
  then show ?case using Cons.IH [OF x(2)] by (rule frame_trans)
qed simp

lemma frame_redistribute: "redistribute_seeds G S opts i cs result X = Some (r, X') \<Longrightarrow> frame X X'"
  by (auto simp: redistribute_seeds_def split: option.splits Option.bind_splits if_splits dest!: frame_branch_seeds frame_kill intro: frame_trans)

lemma frame_Executor_branch:
  assumes "Executor_branch G S opts i cs X = Some (r, X')"
  shows "frame X X'"
proof -
  obtain result X1 X2 where x: "(if fo_MaxForks opts \<noteq> - 1 \<and> ex_forks X \<ge> ucast (fo_MaxForks opts) then do {
             (x, r) \<leftarrow> RNG_getInt32 (w_rng (ex_world X));
             let next = unat (x mod of_nat (unat (word_of_nat (length cs) :: uint32))) in
             Some (map (\<lambda>k. if k = next then Some i else None) [0..<unat (word_of_nat (length cs) :: uint32)], X\<lparr>ex_world := (ex_world X)\<lparr>w_rng := r\<rparr>\<rparr>) }
           else do {
             (ids, X) \<leftarrow> branch_states (unat (word_of_nat (length cs) :: uint32) - 1) [i]
               (X\<lparr>ex_forks := ex_forks X + of_nat (unat (word_of_nat (length cs) :: uint32) - 1)\<rparr>);
             Some (map Some ids, X) }) = Some (result, X1)"
      "redistribute_seeds G S opts i cs result X1 = Some (r, X2)" "add_conditions G S opts r cs X2 = Some X'"
    using assms unfolding Executor_branch_def Let_def by (auto split: Option.bind_splits if_splits)
  have "frame X X1" using x(1) by (auto simp: Let_def split: if_splits Option.bind_splits dest!: frame_branch_states)
  then show ?thesis using frame_redistribute [OF x(2)] frame_conditions [OF x(3)] frame_trans by blast
qed

section \<open>The inputs of the states\<close>

definition disjoint_inputs :: "(nat \<Rightarrow> array) \<Rightarrow> 's executor \<Rightarrow> bool" where
  "disjoint_inputs H X \<longleftrightarrow> (\<forall>i \<in> running X. \<forall>j \<in> running X. i \<noteq> j \<longrightarrow> inputs_of H X i \<inter> inputs_of H X j = {})"

definition explored :: "(nat \<Rightarrow> array) \<Rightarrow> 's executor \<Rightarrow> assignment set" where
  "explored H X = (\<Union>i \<in> running X. inputs_of H X i)"

text \<open>
  A step splits state \<open>i\<close>: the states \<open>new\<close> get disjoint parts of its inputs, the others keep
  theirs.
\<close>

lemma split_inputs:
  assumes d: "disjoint_inputs H X" and i: "i \<in> running X" and run: "running X' = (running X - {i}) \<union> new"
    and new: "new \<inter> (running X - {i}) = {}"
    and others: "\<forall>j \<in> running X - {i}. inputs_of H X' j = inputs_of H X j"
    and parts: "\<forall>j \<in> new. inputs_of H X' j \<subseteq> inputs_of H X i"
    and disj: "\<forall>j \<in> new. \<forall>k \<in> new. j \<noteq> k \<longrightarrow> inputs_of H X' j \<inter> inputs_of H X' k = {}"
  shows "disjoint_inputs H X'" "explored H X' \<subseteq> explored H X"
    "inputs_of H X i \<subseteq> (\<Union>j \<in> new. inputs_of H X' j) \<union> D \<Longrightarrow> explored H X \<subseteq> explored H X' \<union> D"
    "explored H X' \<inter> inputs_of H X i \<subseteq> (\<Union>j \<in> new. inputs_of H X' j)"
proof -
  have sep: "inputs_of H X j \<inter> inputs_of H X i = {}" if "j \<in> running X - {i}" for j using d i that unfolding disjoint_inputs_def by blast
  show "disjoint_inputs H X'" unfolding disjoint_inputs_def
  proof (intro ballI impI)
    fix j k assume jk: "j \<in> running X'" "k \<in> running X'" "j \<noteq> k"
    consider "j \<in> running X - {i}" "k \<in> running X - {i}" | "j \<in> running X - {i}" "k \<in> new" | "j \<in> new" "k \<in> running X - {i}" | "j \<in> new" "k \<in> new"
      using jk run by blast
    then show "inputs_of H X' j \<inter> inputs_of H X' k = {}"
    proof cases
      case 1
      then show ?thesis using d jk(3) others unfolding disjoint_inputs_def by simp
    next
      case 2
      then show ?thesis using sep [OF 2(1)] others [rule_format, OF 2(1)] parts [rule_format, OF 2(2)] by blast
    next
      case 3
      then show ?thesis using sep [OF 3(2)] others [rule_format, OF 3(2)] parts [rule_format, OF 3(1)] by blast
    next
      case 4
      then show ?thesis using disj jk(3) by blast
    qed
  qed
  have E: "explored H X' = (\<Union>j \<in> running X - {i}. inputs_of H X j) \<union> (\<Union>j \<in> new. inputs_of H X' j)"
    unfolding explored_def run using others by auto
  have E0: "explored H X = (\<Union>j \<in> running X - {i}. inputs_of H X j) \<union> inputs_of H X i" unfolding explored_def using i by blast
  show "explored H X' \<subseteq> explored H X" unfolding E E0 using parts by blast
  show "inputs_of H X i \<subseteq> (\<Union>j \<in> new. inputs_of H X' j) \<union> D \<Longrightarrow> explored H X \<subseteq> explored H X' \<union> D" unfolding E E0 by blast
  show "explored H X' \<inter> inputs_of H X i \<subseteq> (\<Union>j \<in> new. inputs_of H X' j)" unfolding E using sep by blast
qed

text \<open>The conditions of a branch exclude each other and one of them holds.\<close>

definition exclusive :: "assignment set \<Rightarrow> expr list \<Rightarrow> bool" where
  "exclusive R cs \<longleftrightarrow> (\<forall>\<rho> \<in> R. \<exists>!k. k < length cs \<and> true_in \<rho> (cs ! k))"

lemma fork_result_inputs:
  assumes f: "fork_result H X i c r X'" and d: "disjoint_inputs H X" and i: "i \<in> running X"
  shows "disjoint_inputs H X'" "explored H X' \<subseteq> explored H X"
    "r \<noteq> (None, None) \<Longrightarrow> (snd r = None \<longrightarrow> failing H X i c = {}) \<Longrightarrow> (fst r = None \<longrightarrow> holding H X i c = {}) \<Longrightarrow> explored H X' = explored H X"
proof -
  define new where "new = (case r of (Some a, Some b) \<Rightarrow> {a, b} | (Some a, None) \<Rightarrow> {a} | (None, Some b) \<Rightarrow> {b} | (None, None) \<Rightarrow> {})"
  have all: "inputs_of H X i = holding H X i c \<union> failing H X i c" "holding H X i c \<inter> failing H X i c = {}"
    by (auto simp: holding_def failing_def)
  have others: "\<forall>j \<in> running X - {i}. inputs_of H X' j = inputs_of H X j" using f by (simp add: fork_result_def)
  obtain t e where r: "r = (t, e)" by (cases r)
  have facts: "running X' = (running X - {i}) \<union> new" "new \<inter> (running X - {i}) = {}"
    "\<forall>j \<in> new. inputs_of H X' j \<subseteq> inputs_of H X i"
    "\<forall>j \<in> new. \<forall>k \<in> new. j \<noteq> k \<longrightarrow> inputs_of H X' j \<inter> inputs_of H X' k = {}"
    using f i all running_all [of _ X] unfolding fork_result_def new_def r
    by (cases t; cases e; auto)+
  note S = split_inputs [OF d i facts(1,2) others facts(3,4)]
  show "disjoint_inputs H X'" by (fact S(1))
  show "explored H X' \<subseteq> explored H X" by (fact S(2))
  assume "r \<noteq> (None, None)" "snd r = None \<longrightarrow> failing H X i c = {}" "fst r = None \<longrightarrow> holding H X i c = {}"
  then have "inputs_of H X i \<subseteq> (\<Union>j \<in> new. inputs_of H X' j) \<union> {}"
    using f all(1) unfolding fork_result_def new_def r by (cases t; cases e; auto)
  then show "explored H X' = explored H X" using S(2,3) by blast
qed

lemma branch_result_inputs:
  assumes b: "branch_result H X i cs result X'" and d: "disjoint_inputs H X" and i: "i \<in> running X"
    and ex: "exclusive (inputs_of H X i) cs" and sel: "set (chosen result) \<noteq> {}"
    and mem: "i \<in> set (chosen result)"
  shows "disjoint_inputs H X'" "explored H X' \<subseteq> explored H X" "None \<notin> set result \<Longrightarrow> explored H X' = explored H X"
proof -
  have len: "length result = length cs" using b by (simp add: branch_result_def)
  have at: "\<exists>k < length cs. result ! k = Some a" if "a \<in> set (chosen result)" for a
    using that len unfolding set_chosen by (auto simp: in_set_conv_nth)
  have val: "inputs_of H X' a = holding H X i (cs ! k)" if "k < length cs" "result ! k = Some a" for k a
    using b that by (simp add: branch_result_def)
  have uniq: "k = l" if "k < length cs" "l < length cs" "\<rho> \<in> holding H X i (cs ! k)" "\<rho> \<in> holding H X i (cs ! l)" for k l \<rho>
    using ex that unfolding exclusive_def holding_def by blast
  have run: "running X' = (running X - {i}) \<union> set (chosen result)" using b i mem by (auto simp: branch_result_def)
  have new: "set (chosen result) \<inter> (running X - {i}) = {}" using b running_all [of _ X] by (fastforce simp: branch_result_def)
  have others: "\<forall>j \<in> running X - {i}. inputs_of H X' j = inputs_of H X j" using b by (simp add: branch_result_def)
  have parts: "\<forall>j \<in> set (chosen result). inputs_of H X' j \<subseteq> inputs_of H X i" using at val by (force simp: holding_def)
  have disj: "inputs_of H X' j \<inter> inputs_of H X' k = {}" if "j \<in> set (chosen result)" "k \<in> set (chosen result)" "j \<noteq> k" for j k
  proof -
    obtain p q where "p < length cs" "result ! p = Some j" "q < length cs" "result ! q = Some k" using at \<open>j \<in> _\<close> \<open>k \<in> _\<close> by blast
    then show ?thesis using val uniq that(3) by fastforce
  qed
  then have "\<forall>j \<in> set (chosen result). \<forall>k \<in> set (chosen result). j \<noteq> k \<longrightarrow> inputs_of H X' j \<inter> inputs_of H X' k = {}" by blast
  note S = split_inputs [OF d i run new others parts this]
  show "disjoint_inputs H X'" by (fact S(1))
  show "explored H X' \<subseteq> explored H X" by (fact S(2))
  assume none: "None \<notin> set result"
  have "\<rho> \<in> (\<Union>j \<in> set (chosen result). inputs_of H X' j)" if r: "\<rho> \<in> inputs_of H X i" for \<rho>
  proof -
    obtain k where k: "k < length cs" "true_in \<rho> (cs ! k)" using ex r unfolding exclusive_def by blast
    have m: "result ! k \<in> set result" using k(1) len by simp
    then obtain a where v: "result ! k = Some a" using none by (metis not_None_eq)
    then have a: "result ! k = Some a" "a \<in> set (chosen result)" using m unfolding set_chosen by simp_all
    have "\<rho> \<in> inputs_of H X' a" using val [OF k(1) a(1)] k(2) r by (simp add: holding_def)
    then show ?thesis using a(2) by blast
  qed
  then have "inputs_of H X i \<subseteq> (\<Union>j \<in> set (chosen result). inputs_of H X' j) \<union> {}" by blast
  then show "explored H X' = explored H X" using S(2,3) by blast
qed

section \<open>Instructions\<close>

text \<open>
  What an instruction does to the states of the executor, as a sequence of forks, branches and
  terminations of states that run; \<open>D\<close> collects the inputs of the states that were terminated.
\<close>

inductive instruction ::
  "expr_env \<Rightarrow> (nat \<Rightarrow> array) \<Rightarrow> 's solver_impl \<Rightarrow> fork_options \<Rightarrow> 's executor \<times> assignment set \<Rightarrow> 's executor \<times> assignment set \<Rightarrow> bool"
  for G :: expr_env and H :: "nat \<Rightarrow> array" and S :: "'s solver_impl" and opts :: fork_options
where
  stop: "instruction G H S opts c c"
| fork: "instruction G H S opts c (X, D) \<Longrightarrow> i \<in> running X \<Longrightarrow> cond_ok H e \<Longrightarrow> plain_mode opts isInternal \<Longrightarrow>
    Executor_fork G S opts i e isInternal X = Some (r, X') \<Longrightarrow> instruction G H S opts c (X', D)"
| branch: "instruction G H S opts c (X, D) \<Longrightarrow> i \<in> running X \<Longrightarrow> es \<noteq> [] \<Longrightarrow> length es < 2 ^ 32 \<Longrightarrow>
    \<forall>e \<in> set es. cond_ok H e \<and> holding H X i e \<noteq> {} \<Longrightarrow> exclusive (inputs_of H X i) es \<Longrightarrow>
    Executor_branch G S opts i es X = Some (result, X') \<Longrightarrow> instruction G H S opts c (X', D)"
| terminate: "instruction G H S opts c (X, D) \<Longrightarrow> i \<in> running X \<Longrightarrow>
    Executor_terminateState i X = Some X' \<Longrightarrow> instruction G H S opts c (X', D \<union> inputs_of H X i)"

text \<open>The states that run and the terminated ones have disjoint inputs.\<close>

definition parted :: "(nat \<Rightarrow> array) \<Rightarrow> 's executor \<Rightarrow> assignment set \<Rightarrow> bool" where
  "parted H X D \<longleftrightarrow> disjoint_inputs H X \<and> explored H X \<inter> D = {}"

context solver_contract
begin

lemma Executor_fork_step:
  assumes "executor_ok H I X" "i \<in> running X" "cond_ok H e" "plain_mode opts isInternal"
    and run: "Executor_fork G S opts i e isInternal X = Some (r, X')" and p: "parted H X E"
  shows "executor_ok H I X'" "parted H X' E" "explored H X' \<subseteq> explored H X"
    "forking_allowed opts X \<Longrightarrow> always_answers H I S \<Longrightarrow> explored H X' = explored H X"
proof -
  have f: "executor_ok H I X'" "fork_result H X i e r X'"
      "forking_allowed opts X \<Longrightarrow> always_answers H I S \<Longrightarrow>
        r \<noteq> (None, None) \<and> (snd r = None \<longrightarrow> failing H X i e = {}) \<and> (fst r = None \<longrightarrow> holding H X i e = {})"
    using Executor_fork_ok [OF assms(1-4)] run by auto
  have d: "disjoint_inputs H X" "explored H X \<inter> E = {}" using p by (simp_all add: parted_def)
  note S = fork_result_inputs [OF f(2) d(1) assms(2)]
  show "executor_ok H I X'" by (rule f(1))
  show "explored H X' \<subseteq> explored H X" by (rule S(2))
  show "parted H X' E" using S(1,2) d(2) by (auto simp: parted_def)
  assume "forking_allowed opts X" "always_answers H I S"
  from f(3) [OF this] show "explored H X' = explored H X" using S(3) by simp
qed

lemma Executor_branch_step:
  assumes "executor_ok H I X" "i \<in> running X" "es \<noteq> []" "length es < 2 ^ 32"
    and "\<forall>e \<in> set es. cond_ok H e \<and> holding H X i e \<noteq> {}" "exclusive (inputs_of H X i) es"
    and run: "Executor_branch G S opts i es X = Some (result, X')" and p: "parted H X E"
  shows "executor_ok H I X'" "parted H X' E" "explored H X' \<subseteq> explored H X"
    "forking_allowed opts X \<Longrightarrow> explored H X' = explored H X"
proof -
  have b: "executor_ok H I X'" "branch_result H X i es result X'" "i \<in> set (chosen result)"
      "fo_MaxForks opts = - 1 \<Longrightarrow> None \<notin> set result"
    using Executor_branch_ok [OF assms(1-5), of S opts] run by auto
  have d: "disjoint_inputs H X" "explored H X \<inter> E = {}" using p by (simp_all add: parted_def)
  have "set (chosen result) \<noteq> {}" using b(3) by auto
  note S = branch_result_inputs [OF b(2) d(1) assms(2,6) this b(3)]
  show "executor_ok H I X'" by (rule b(1))
  show "explored H X' \<subseteq> explored H X" by (rule S(2))
  show "parted H X' E" using S(1,2) d(2) by (auto simp: parted_def)
  assume "forking_allowed opts X"
  then show "explored H X' = explored H X" using S(3) b(4) by (simp add: forking_allowed_def)
qed

lemma Executor_terminate_step:
  assumes "executor_ok H I X" "i \<in> running X" and run: "Executor_terminateState i X = Some X'" and p: "parted H X E"
  shows "executor_ok H I X'" "parted H X' (E \<union> inputs_of H X i)" "explored H X' \<union> (E \<union> inputs_of H X i) = explored H X \<union> E"
proof -
  have t: "executor_ok H I X'" "running X' = running X - {i}" "\<And>j. j \<in> running X - {i} \<Longrightarrow> inputs_of H X' j = inputs_of H X j"
    using Executor_terminateState_ok [OF assms(1,2)] run by auto
  have EX: "explored H X' = (\<Union>j \<in> running X - {i}. inputs_of H X j)" unfolding explored_def t(2) using t(3) by blast
  have dj: "disjoint_inputs H X" "explored H X \<inter> E = {}" using p by (simp_all add: parted_def)
  show "executor_ok H I X'" by (rule t(1))
  show "explored H X' \<union> (E \<union> inputs_of H X i) = explored H X \<union> E" unfolding EX using assms(2) by (auto simp: explored_def)
  have "disjoint_inputs H X'" unfolding disjoint_inputs_def t(2)
  proof (intro ballI impI)
    fix j k assume jk: "j \<in> running X - {i}" "k \<in> running X - {i}" "j \<noteq> k"
    then show "inputs_of H X' j \<inter> inputs_of H X' k = {}"
      using dj(1) unfolding disjoint_inputs_def t(3) [OF jk(1)] t(3) [OF jk(2)] by blast
  qed
  moreover have "inputs_of H X j \<inter> inputs_of H X i = {}" if "j \<in> running X - {i}" for j
    using dj(1) assms(2) that unfolding disjoint_inputs_def by blast
  moreover have "explored H X' \<inter> E = {}" using dj(2) unfolding EX by (auto simp: explored_def)
  ultimately show "parted H X' (E \<union> inputs_of H X i)" unfolding parted_def EX by blast
qed

text \<open>Instructions keep the invariant and partition the inputs further.\<close>

lemma instruction_ok:
  assumes "instruction G H S opts c c'"
  shows "c = (X, E) \<Longrightarrow> c' = (X', E') \<Longrightarrow> executor_ok H I X \<Longrightarrow> parted H X E \<Longrightarrow>
    executor_ok H I X' \<and> parted H X' E' \<and> frame X X' \<and> explored H X' \<union> E' \<subseteq> explored H X \<union> E \<and>
    (forking_allowed opts X \<longrightarrow> always_answers H I S \<longrightarrow> explored H X' \<union> E' = explored H X \<union> E)"
  using assms
proof (induction arbitrary: X' E' rule: instruction.induct)
  case (stop c)
  then show ?case by simp
next
  case (fork c Y F i e isInternal r Z)
  have y: "executor_ok H I Y" "parted H Y F" "frame X Y" "explored H Y \<union> F \<subseteq> explored H X \<union> E"
      "forking_allowed opts X \<longrightarrow> always_answers H I S \<longrightarrow> explored H Y \<union> F = explored H X \<union> E"
    using fork.IH [OF fork.prems(1) refl fork.prems(3,4)] by blast+
  note f = Executor_fork_step [OF y(1) fork.hyps(2-5) y(2)]
  have z: "Z = X'" "F = E'" using fork.prems(2) by simp_all
  show ?case using f y(4,5) frame_trans [OF y(3) frame_fork [OF fork.hyps(5)]] frame_allowed [OF y(3), of opts] unfolding z by blast
next
  case (branch c Y F i es result Z)
  have y: "executor_ok H I Y" "parted H Y F" "frame X Y" "explored H Y \<union> F \<subseteq> explored H X \<union> E"
      "forking_allowed opts X \<longrightarrow> always_answers H I S \<longrightarrow> explored H Y \<union> F = explored H X \<union> E"
    using branch.IH [OF branch.prems(1) refl branch.prems(3,4)] by blast+
  note f = Executor_branch_step [OF y(1) branch.hyps(2-7) y(2)]
  have z: "Z = X'" "F = E'" using branch.prems(2) by simp_all
  show ?case using f y(4,5) frame_trans [OF y(3) frame_Executor_branch [OF branch.hyps(7)]] frame_allowed [OF y(3), of opts] unfolding z by blast
next
  case (terminate c Y F i Z)
  have y: "executor_ok H I Y" "parted H Y F" "frame X Y" "explored H Y \<union> F \<subseteq> explored H X \<union> E"
      "forking_allowed opts X \<longrightarrow> always_answers H I S \<longrightarrow> explored H Y \<union> F = explored H X \<union> E"
    using terminate.IH [OF terminate.prems(1) refl terminate.prems(3,4)] by blast+
  note f = Executor_terminate_step [OF y(1) terminate.hyps(2,3) y(2)]
  have z: "Z = X'" "F \<union> inputs_of H Y i = E'" using terminate.prems(2) by simp_all
  show ?case using f y(4,5) frame_trans [OF y(3) frame_terminate [OF terminate.hyps(3)]] unfolding z by blast
qed

end

section \<open>Rounds\<close>

text \<open>\<open>updateStates\<close> on the whole executor: the lists are cleared, removed states deleted.\<close>

definition Executor_update :: "nat searcher \<Rightarrow> nat option \<Rightarrow> 's executor \<Rightarrow> (nat searcher \<times> 's executor) option" where
  "Executor_update s current X = do {
     (s', w) \<leftarrow> Executor_updateStates (ex_world X) s current (ex_addedStates X) (ex_removedStates X);
     Some (s', X\<lparr>ex_world := w, ex_states := (\<lambda>i. if i \<in> set (ex_removedStates X) then None else ex_states X i),
                  ex_seedMap := (\<lambda>i. if i \<in> set (ex_removedStates X) then None else ex_seedMap X i),
                  ex_addedStates := [], ex_removedStates := []\<rparr>) }"

inductive executor_round ::
  "expr_env \<Rightarrow> (nat \<Rightarrow> array) \<Rightarrow> 's solver_impl \<Rightarrow> fork_options \<Rightarrow> nat searcher \<times> 's executor \<times> assignment set
   \<Rightarrow> nat searcher \<times> 's executor \<times> assignment set \<Rightarrow> bool"
  for G :: expr_env and H :: "nat \<Rightarrow> array" and S :: "'s solver_impl" and opts :: fork_options
where
  "w_states (ex_world X) \<noteq> {} \<Longrightarrow> selectState (ex_world X) s = Some (e, s1, w1) \<Longrightarrow>
   instruction G H S opts (X\<lparr>ex_world := w1\<rparr>, D) (X2, D') \<Longrightarrow> Executor_update s1 (Some e) X2 = Some (s', X') \<Longrightarrow>
   executor_round G H S opts (s, X, D) (s', X', D')"

text \<open>Between two rounds.\<close>

fun round_ok :: "(nat \<Rightarrow> array) \<Rightarrow> ('s \<Rightarrow> bool) \<Rightarrow> nat searcher \<times> 's executor \<times> assignment set \<Rightarrow> bool" where
  "round_ok H I (s, X, D) \<longleftrightarrow> config_ok (s, ex_world X) \<and> ex_addedStates X = [] \<and> ex_removedStates X = [] \<and>
     (w_states (ex_world X) \<noteq> {} \<longrightarrow> executor_ok H I X) \<and> parted H X D"

declare round_ok.simps [simp del]

text \<open>Selecting a state changes the world only.\<close>

lemma inputs_of_world [simp]: "inputs_of H (X\<lparr>ex_world := w\<rparr>) = inputs_of H X"
  by (simp add: inputs_of_def fun_eq_iff)

lemma select_keeps:
  assumes ok: "executor_ok H I X" and w: "world_ok (w_states (ex_world X)) w1 s1" and none: "ex_addedStates X = []"
  shows "executor_ok H I (X\<lparr>ex_world := w1\<rparr>)" "running (X\<lparr>ex_world := w1\<rparr>) = running X"
    "parted H (X\<lparr>ex_world := w1\<rparr>) D = parted H X D" "explored H (X\<lparr>ex_world := w1\<rparr>) = explored H X"
    "forking_allowed opts (X\<lparr>ex_world := w1\<rparr>) = forking_allowed opts X"
proof -
  have S: "w_states w1 = w_states (ex_world X)" using w by (simp add: world_ok_def)
  have A: "all_states (X\<lparr>ex_world := w1\<rparr>) = all_states X" by (simp add: all_states_def S)
  show R: "running (X\<lparr>ex_world := w1\<rparr>) = running X" unfolding running_def A by simp
  show E: "explored H (X\<lparr>ex_world := w1\<rparr>) = explored H X" by (simp add: explored_def R)
  show "parted H (X\<lparr>ex_world := w1\<rparr>) D = parted H X D" unfolding parted_def E by (simp add: disjoint_inputs_def R)
  show "forking_allowed opts (X\<lparr>ex_world := w1\<rparr>) = forking_allowed opts X" by (simp add: forking_allowed_def)
  show "executor_ok H I (X\<lparr>ex_world := w1\<rparr>)"
    using ok w none unfolding executor_ok_def A by (simp add: world_ok_def all_states_def)
qed

context solver_contract
begin

text \<open>What the instruction did is what the searcher expects.\<close>

lemma instruction_executes:
  assumes ok: "executor_ok H I X" "executor_ok H I X2" and f: "frame X X2" and w: "world_ok (w_states (ex_world X)) (ex_world X) s"
    and e: "e \<in> w_states (ex_world X)"
  shows "executes (w_states (ex_world X)) (ex_addedStates X2) s (ex_world X) (ex_world X2)"
    "update_pre (w_states (ex_world X)) (Some e) (ex_addedStates X2) (ex_removedStates X2)"
    "after (w_states (ex_world X)) (ex_addedStates X2) (ex_removedStates X2) = running X2"
proof -
  have S: "w_states (ex_world X2) = w_states (ex_world X)" by (rule frame_world(1) [OF f])
  show "executes (w_states (ex_world X)) (ex_addedStates X2) s (ex_world X) (ex_world X2)"
    using ok(2) w frame_world [OF f] unfolding executes_def executor_ok_def world_ok_def all_states_def by simp
  show "update_pre (w_states (ex_world X)) (Some e) (ex_addedStates X2) (ex_removedStates X2)"
    using ok(2) w e unfolding update_pre_def executor_ok_def world_ok_def S by auto
  show "after (w_states (ex_world X)) (ex_addedStates X2) (ex_removedStates X2) = running X2"
    by (simp add: after_def running_def all_states_def S)
qed

text \<open>An update ends the instruction: the states that run are the states of the executor.\<close>

lemma Executor_update_ok:
  assumes ok: "executor_ok H I X" "executor_ok H I X2" and f: "frame X X2" and w: "world_ok (w_states (ex_world X)) (ex_world X) s"
    and s: "schedules (w_states (ex_world X)) s" and e: "e \<in> w_states (ex_world X) - paused_states s" and p: "parted H X2 E"
  shows "\<exists>s' X'. Executor_update s (Some e) X2 = Some (s', X') \<and> round_ok H I (s', X', E) \<and> explored H X' = explored H X2 \<and>
    w_states (ex_world X') = running X2 \<and> (forking_allowed opts X2 \<longrightarrow> forking_allowed opts X')"
proof -
  note x = instruction_executes [OF ok f w, of e]
  have e': "e \<in> w_states (ex_world X)" "e \<notin> paused_states s" using e by simp_all
  obtain s' w' where u: "Executor_updateStates (ex_world X2) s (Some e) (ex_addedStates X2) (ex_removedStates X2) = Some (s', w')"
      "schedules (running X2) s'" "world_ok (running X2) w' s'"
    using updateStates_ok [OF s w x(1,2) e'(2)] e'(1) unfolding x(3) [OF e'(1)] by blast
  define X' where "X' = X2\<lparr>ex_world := w', ex_states := (\<lambda>i. if i \<in> set (ex_removedStates X2) then None else ex_states X2 i),
                  ex_seedMap := (\<lambda>i. if i \<in> set (ex_removedStates X2) then None else ex_seedMap X2 i), ex_addedStates := [], ex_removedStates := []\<rparr>"
  have run: "Executor_update s (Some e) X2 = Some (s', X')" using u(1) by (simp add: Executor_update_def X'_def)
  have W: "w_states w' = running X2" using u(3) by (simp add: world_ok_def)
  have all: "all_states X' = running X2" "running X' = running X2" using W by (simp_all add: X'_def all_states_def running_def)
  have inp: "inputs_of H X' i = inputs_of H X2 i" if "i \<in> running X2" for i
    using that by (simp add: X'_def inputs_of_def running_def)
  have E: "explored H X' = explored H X2" unfolding explored_def all(2) using inp by simp
  have "disjoint_inputs H X'" using p inp unfolding parted_def disjoint_inputs_def all(2) by simp
  then have P: "parted H X' E" using p unfolding parted_def E by blast
  have C: "config_ok (s', w')" using u(2,3) W by (simp add: config_ok_def)
  have K: "\<forall>i \<in> running X2. i < ex_next X' \<and> (\<exists>st. ex_states X' i = Some st \<and> path_ok H (st_constraints st))"
    using ok(2) by (fastforce simp: executor_ok_def X'_def running_def)
  have "executor_ok H I X'" if "running X2 \<noteq> {}"
    using ok(2) u(3) that K unfolding executor_ok_def all(1) by (simp add: X'_def world_ok_def W fun_eq_iff)
  then have "round_ok H I (s', X', E)" using P C W by (simp add: round_ok.simps X'_def)
  moreover have "forking_allowed opts X2 \<longrightarrow> forking_allowed opts X'" by (simp add: forking_allowed_def X'_def)
  moreover have "w_states (ex_world X') = running X2" using W by (simp add: X'_def)
  ultimately show ?thesis using run E by blast
qed

text \<open>A round from a good configuration.\<close>

lemma round_progress:
  assumes ok: "round_ok H I (s, X, E)" and ne: "w_states (ex_world X) \<noteq> {}"
  shows "\<exists>e s1 w1. selectState (ex_world X) s = Some (e, s1, w1) \<and> e \<in> running (X\<lparr>ex_world := w1\<rparr>) \<and> executor_ok H I (X\<lparr>ex_world := w1\<rparr>) \<and>
    (\<forall>X2 E2. instruction G H S opts (X\<lparr>ex_world := w1\<rparr>, E) (X2, E2) \<longrightarrow> executor_ok H I X2 \<and>
      (\<exists>s' X'. Executor_update s1 (Some e) X2 = Some (s', X') \<and> round_ok H I (s', X', E2) \<and> w_states (ex_world X') = running X2 \<and>
         explored H X' \<union> E2 \<subseteq> explored H X \<union> E \<and>
         (forking_allowed opts X \<longrightarrow> always_answers H I S \<longrightarrow> forking_allowed opts X' \<and> explored H X' \<union> E2 = explored H X \<union> E)))"
proof -
  have c: "schedules (w_states (ex_world X)) s" "world_ok (w_states (ex_world X)) (ex_world X) s" "ex_addedStates X = []" "ex_removedStates X = []"
      "executor_ok H I X" "parted H X E"
    using ok ne by (simp_all add: round_ok.simps config_ok_def)
  obtain e s1 w1 where s: "selectState (ex_world X) s = Some (e, s1, w1)" "e \<in> w_states (ex_world X) - paused_states s1"
      "schedules (w_states (ex_world X)) s1" "world_ok (w_states (ex_world X)) w1 s1"
    using select_ok [OF c(1,2) ne] by blast
  let ?X = "X\<lparr>ex_world := w1\<rparr>"
  note k = select_keeps [OF c(5) s(4) c(3)]
  have W: "w_states (ex_world ?X) = w_states (ex_world X)" using s(4) by (simp add: world_ok_def)
  have p: "parted H ?X E" using c(6) unfolding k(3) .
  have er: "e \<in> running ?X" unfolding k(2) using s(2) c(4) by (simp add: running_def all_states_def)
  have "executor_ok H I X2 \<and> (\<exists>s' X'. Executor_update s1 (Some e) X2 = Some (s', X') \<and> round_ok H I (s', X', E2) \<and> w_states (ex_world X') = running X2 \<and>
         explored H X' \<union> E2 \<subseteq> explored H X \<union> E \<and>
         (forking_allowed opts X \<longrightarrow> always_answers H I S \<longrightarrow> forking_allowed opts X' \<and> explored H X' \<union> E2 = explored H X \<union> E))"
    if i: "instruction G H S opts (?X, E) (X2, E2)" for X2 E2
  proof -
    have a: "executor_ok H I X2" "parted H X2 E2" "frame ?X X2" "explored H X2 \<union> E2 \<subseteq> explored H X \<union> E"
        "forking_allowed opts X \<longrightarrow> always_answers H I S \<longrightarrow> explored H X2 \<union> E2 = explored H X \<union> E"
      using instruction_ok [OF i refl refl k(1) p] unfolding k(4) k(5) by simp_all
    have w: "world_ok (w_states (ex_world ?X)) (ex_world ?X) s1" "schedules (w_states (ex_world ?X)) s1" "e \<in> w_states (ex_world ?X) - paused_states s1"
      using s(2-4) unfolding W by simp_all
    obtain s' X' where u: "Executor_update s1 (Some e) X2 = Some (s', X')" "round_ok H I (s', X', E2)" "explored H X' = explored H X2"
        "w_states (ex_world X') = running X2" "forking_allowed opts X2 \<longrightarrow> forking_allowed opts X'"
      using Executor_update_ok [OF k(1) a(1,3) w a(2), of opts] by blast
    have fa: "forking_allowed opts X \<longrightarrow> forking_allowed opts X'" using u(5) frame_allowed [OF a(3), of opts] unfolding k(5) by blast
    show ?thesis
      by (intro conjI exI [of _ s'] exI [of _ X'] a(1) u(1,2,4)) (use a(4,5) fa in \<open>simp_all add: u(3)\<close>)
  qed
  then show ?thesis using s(1) er k(1) by (intro exI [of _ e] exI [of _ s1] exI [of _ w1]) simp
qed

lemma executor_round_ok:
  assumes "executor_round G H S opts (s, X, E) (s', X', E')" "round_ok H I (s, X, E)"
  shows "round_ok H I (s', X', E') \<and> explored H X' \<union> E' \<subseteq> explored H X \<union> E \<and>
    (forking_allowed opts X \<longrightarrow> always_answers H I S \<longrightarrow> forking_allowed opts X' \<and> explored H X' \<union> E' = explored H X \<union> E)"
  using assms(1)
proof cases
  case (1 e s1 w1 X2)
  show ?thesis using round_progress [OF assms(2) 1(1), of opts] 1(2-4) by fastforce
qed

lemma executor_rounds_ok:
  assumes "(executor_round G H S opts)\<^sup>*\<^sup>* c c'"
  shows "c = (s, X, E) \<Longrightarrow> c' = (s', X', E') \<Longrightarrow> round_ok H I (s, X, E) \<Longrightarrow>
    round_ok H I (s', X', E') \<and> explored H X' \<union> E' \<subseteq> explored H X \<union> E \<and>
    (forking_allowed opts X \<longrightarrow> always_answers H I S \<longrightarrow> forking_allowed opts X' \<and> explored H X' \<union> E' = explored H X \<union> E)"
  using assms
proof (induction arbitrary: s' X' E' rule: rtranclp_induct)
  case base
  then show ?case by simp
next
  case (step y z)
  obtain s1 X1 E1 where y: "y = (s1, X1, E1)" by (cases y)
  have a: "round_ok H I (s1, X1, E1)" "explored H X1 \<union> E1 \<subseteq> explored H X \<union> E"
      "forking_allowed opts X \<longrightarrow> always_answers H I S \<longrightarrow> forking_allowed opts X1 \<and> explored H X1 \<union> E1 = explored H X \<union> E"
    using step.IH [OF step.prems(1) y step.prems(3)] by blast+
  have "executor_round G H S opts (s1, X1, E1) (s', X', E')" using step.hyps(2) step.prems(2) y by simp
  from executor_round_ok [OF this a(1)] show ?case using a(2,3) by blast
qed

end

section \<open>The start\<close>

definition ExecutionState_new :: "nat \<Rightarrow> exec_state" where
  "ExecutionState_new instructions =
     \<lparr>st_updated = False, st_pc = instructions, st_prevPC = instructions, st_constraints = [], st_depth = 0,
      st_coveredNew = False, st_forkDisabled = False, st_coveredLines = {}\<rparr>"

definition executor_new :: "nat world \<Rightarrow> exec_state \<Rightarrow> 's \<Rightarrow> fork_statistics \<Rightarrow> 's executor" where
  "executor_new w st s statistics =
     \<lparr>ex_world = w, ex_states = [0 \<mapsto> st], ex_next = 1, ex_addedStates = [], ex_removedStates = [], ex_seedMap = Map.empty, ex_solver = s,
      ex_forks = 0, ex_replayPosition = 0, ex_atMemoryLimit = False, ex_inhibitForking = False, ex_statistics = statistics\<rparr>"

lemma executor_new_ok:
  assumes "config_ok (s, w)" "w_states w = {0}" "I t" "inputs H \<noteq> {}"
  shows "round_ok H I (s, executor_new w (ExecutionState_new pc) t fs, {})" "explored H (executor_new w (ExecutionState_new pc) t fs) = inputs H"
proof -
  let ?X = "executor_new w (ExecutionState_new pc) t fs"
  have all: "all_states ?X = {0}" "running ?X = {0}" using assms(2) by (simp_all add: all_states_def running_def executor_new_def)
  have i: "inputs_of H ?X 0 = inputs H" by (simp add: inputs_of_def executor_new_def ExecutionState_new_def models_def)
  show E: "explored H ?X = inputs H" by (simp add: explored_def all i)
  have "executor_ok H I ?X"
    using assms unfolding executor_ok_def all
    by (simp add: executor_new_def ExecutionState_new_def config_ok_def world_ok_def path_ok_def models_def) blast
  then show "round_ok H I (s, ?X, {})"
    using assms(1) by (simp add: round_ok.simps parted_def disjoint_inputs_def all) (simp add: executor_new_def)
qed

end
