(* ===== verification/PathProps.thy ===== *)
theory PathProps
  imports ExecutorRounds SolverProps SearchProps
begin

text \<open>
  The properties of path conditions and of the states that carry them: the constraint manager,
  the solver of the executor, forks and branches, and the rounds of the loop.
\<close>

section \<open>Path conditions\<close>

text \<open>
  (C10) Adding a condition to the constraints of a state returns: no assertion fails, and the
  rewriting of the other constraints, which adds the rewritten ones in turn, ends. The new
  constraints hold for exactly the inputs for which the old ones and the condition hold. Old
  constraints and condition hold together for some input, and are plain: no division by
  anything but a nonzero constant, no index of more than 32 bits, no \<open>NotOptimizedExpr\<close>.
\<close>

theorem add_constraint_models:
  assumes "expr_creation G" "cond_ok H e" "\<forall>c \<in> set cs. cond_ok H c" "models H (e # cs) \<noteq> {}"
  shows "\<exists>cs'. addConstraint G rewriteEqualities e cs = Some cs' \<and> (\<forall>c \<in> set cs'. cond_ok H c) \<and>
    models H cs' = models H (e # cs)"
  by (rule expr_creation.addConstraint_ok [OF assms])

theorem add_constraint_models_witness:
  "\<exists>cs. addConstraint default_env True (BinaryExpr Eq (ConstantExpr (APInt 8 5)) (buf_byte 0))
      [BinaryExpr Ult (ConstantExpr (APInt 8 3)) (buf_byte 0)] = Some cs \<and>
    models buf_heap cs = {\<rho> \<in> inputs buf_heap. \<rho> buf 0 = 5}"
proof -
  let ?e = "BinaryExpr Eq (ConstantExpr (APInt 8 5)) (buf_byte 0)" and ?c = "BinaryExpr Ult (ConstantExpr (APInt 8 3)) (buf_byte 0)"
  have c: "cond_ok buf_heap ?c" by (simp add: cond_ok_def ap_ok_def take_bit_int_eq_self) (simp add: buf_byte_def div_kind_def)
  have t: "true_in \<rho> ?c \<longleftrightarrow> 3 < take_bit 8 (\<rho> buf 0)" for \<rho>
    by (simp add: true_in_def bv_binary.simps)
  have b: "0 \<le> \<rho> buf 0 \<and> \<rho> buf 0 < 256" if "\<rho> \<in> inputs buf_heap" for \<rho> using that by (simp add: inputs_def)
  then have m: "models buf_heap [?e, ?c] = {\<rho> \<in> inputs buf_heap. \<rho> buf 0 = 5}"
    using t by (auto simp: models_def take_bit_int_eq_self)
  have "(\<lambda>a i. if i < arr_size a then 5 else 0) \<in> models buf_heap [?e, ?c]"
    unfolding m using constant_inputs [of 5] by simp
  then have ne: "models buf_heap [?e, ?c] \<noteq> {}" by blast
  obtain cs where "addConstraint default_env True ?e [?c] = Some cs" "models buf_heap cs = models buf_heap [?e, ?c]"
    using add_constraint_models [OF default_env.expr_creation_axioms _ _ ne, of True] c by auto
  then show ?thesis unfolding m by blast
qed

text \<open>A path condition, as its conditions are added one after the other to no constraints.\<close>

fun add_all :: "expr_env \<Rightarrow> bool \<Rightarrow> expr list \<Rightarrow> expr list \<Rightarrow> expr list option" where
  "add_all G rw [] cs = Some cs"
| "add_all G rw (e # es) cs = do { cs \<leftarrow> addConstraint G rw e cs; add_all G rw es cs }"

text \<open>Questions about a state: the replies are right for the conditions \<open>es\<close> of its path.\<close>

datatype path_question =
  AskEvaluate expr | AskMustBeTrue expr | AskMustBeFalse expr | AskMayBeTrue expr | AskMayBeFalse expr | AskValue expr

fun path_ask :: "expr_env \<Rightarrow> 's solver_impl \<Rightarrow> bool \<Rightarrow> expr list \<Rightarrow> path_question \<Rightarrow> 's \<Rightarrow> (reply \<times> 's) option" where
  "path_ask G S b cs (AskEvaluate e) s = map_option (map_prod Validity id) (TimingSolver_evaluate G S b cs e s)"
| "path_ask G S b cs (AskMustBeTrue e) s = map_option (map_prod Truth id) (TimingSolver_mustBeTrue G S b cs e s)"
| "path_ask G S b cs (AskMustBeFalse e) s = map_option (map_prod Truth id) (TimingSolver_mustBeFalse G S b cs e s)"
| "path_ask G S b cs (AskMayBeTrue e) s = map_option (map_prod Truth id) (TimingSolver_mayBeTrue G S b cs e s)"
| "path_ask G S b cs (AskMayBeFalse e) s = map_option (map_prod Truth id) (TimingSolver_mayBeFalse G S b cs e s)"
| "path_ask G S b cs (AskValue e) s = map_option (map_prod Value id) (TimingSolver_getValue G S b cs e s)"

fun path_ask_all :: "expr_env \<Rightarrow> 's solver_impl \<Rightarrow> bool \<Rightarrow> expr list \<Rightarrow> path_question list \<Rightarrow> 's \<Rightarrow> (reply list \<times> 's) option" where
  "path_ask_all G S b cs [] s = Some ([], s)"
| "path_ask_all G S b cs (x # xs) s = do {
     (r, s) \<leftarrow> path_ask G S b cs x s;
     (rs, s) \<leftarrow> path_ask_all G S b cs xs s;
     Some (r # rs, s) }"

fun path_question_ok :: "(nat \<Rightarrow> array) \<Rightarrow> path_question \<Rightarrow> bool" where
  "path_question_ok H (AskEvaluate e) = cond_ok H e"
| "path_question_ok H (AskMustBeTrue e) = cond_ok H e"
| "path_question_ok H (AskMustBeFalse e) = cond_ok H e"
| "path_question_ok H (AskMayBeTrue e) = cond_ok H e"
| "path_question_ok H (AskMayBeFalse e) = cond_ok H e"
| "path_question_ok H (AskValue e) = term_ok H e"

fun path_reply_right :: "(nat \<Rightarrow> array) \<Rightarrow> expr list \<Rightarrow> path_question \<Rightarrow> reply \<Rightarrow> bool" where
  "path_reply_right H es (AskEvaluate e) (Validity r) = (\<forall>v. r = Some v \<longrightarrow> validity_of H es e v)"
| "path_reply_right H es (AskMustBeTrue e) (Truth r) = (\<forall>v. r = Some v \<longrightarrow> v = (\<forall>\<rho> \<in> models H es. true_in \<rho> e))"
| "path_reply_right H es (AskMustBeFalse e) (Truth r) = (\<forall>v. r = Some v \<longrightarrow> v = (\<forall>\<rho> \<in> models H es. \<not> true_in \<rho> e))"
| "path_reply_right H es (AskMayBeTrue e) (Truth r) = (\<forall>v. r = Some v \<longrightarrow> v = (\<exists>\<rho> \<in> models H es. true_in \<rho> e))"
| "path_reply_right H es (AskMayBeFalse e) (Truth r) = (\<forall>v. r = Some v \<longrightarrow> v = (\<exists>\<rho> \<in> models H es. \<not> true_in \<rho> e))"
| "path_reply_right H es (AskValue e) (Value r) = (\<forall>c. r = Some c \<longrightarrow> (\<exists>\<rho> \<in> models H es. c = sem \<rho> e))"
| "path_reply_right H es _ _ = False"

lemma add_all_ok:
  assumes "expr_creation G"
  shows "\<forall>e \<in> set es. cond_ok H e \<Longrightarrow> \<forall>c \<in> set cs. cond_ok H c \<Longrightarrow> models H (es @ cs) \<noteq> {} \<Longrightarrow>
    \<exists>cs'. add_all G rw es cs = Some cs' \<and> (\<forall>c \<in> set cs'. cond_ok H c) \<and> models H cs' = models H (es @ cs)"
proof (induction es arbitrary: cs)
  case (Cons e es)
  have ne: "models H (e # cs) \<noteq> {}" using Cons.prems(3) by (auto simp: models_def)
  obtain cs1 where c: "addConstraint G rw e cs = Some cs1" "\<forall>c \<in> set cs1. cond_ok H c" "models H cs1 = models H (e # cs)"
    using expr_creation.addConstraint_ok [OF assms _ Cons.prems(2) ne, of rw] Cons.prems(1) by auto
  have m: "models H (es @ cs1) = models H ((e # es) @ cs)" using c(3) by (auto simp: models_def)
  then have "models H (es @ cs1) \<noteq> {}" using Cons.prems(3) by simp
  then obtain cs2 where "add_all G rw es cs1 = Some cs2" "\<forall>c \<in> set cs2. cond_ok H c" "models H cs2 = models H (es @ cs1)"
    using Cons.IH [of cs1] Cons.prems(1) c(2) by auto
  then show ?case using c(1) m by auto
qed simp

context solver_contract
begin

lemma path_ask_right:
  assumes "path_ok H cs" "models H cs = models H es" "path_question_ok H x" "I s"
  shows "\<exists>r s'. path_ask G S b cs x s = Some (r, s') \<and> I s' \<and> path_reply_right H es x r"
proof -
  have v: "validity_of H cs e u = validity_of H es e u" for e u by (simp add: validity_of_def assms(2) split: validity.split)
  show ?thesis
  proof (cases x)
    case (AskEvaluate e)
    then show ?thesis using Timing_evaluate [OF assms(1) _ assms(4), of e b] assms(3) v by fastforce
  next
    case (AskMustBeTrue e)
    then show ?thesis using Timing_mustBeTrue [OF assms(1) _ assms(4), of e b] assms(2,3) by fastforce
  next
    case (AskMustBeFalse e)
    then show ?thesis using Timing_mustBeFalse [OF assms(1) _ assms(4), of e b] assms(2,3) by fastforce
  next
    case (AskMayBeTrue e)
    then show ?thesis using Timing_mayBeTrue [OF assms(1) _ assms(4), of e b] assms(2,3) by fastforce
  next
    case (AskMayBeFalse e)
    then show ?thesis using Timing_mayBeFalse [OF assms(1) _ assms(4), of e b] assms(2,3) by fastforce
  next
    case (AskValue e)
    then show ?thesis using Timing_getValue [OF assms(1) _ assms(4), of e b] assms(2,3) by fastforce
  qed
qed

lemma path_ask_all_right:
  assumes "path_ok H cs" "models H cs = models H es"
  shows "\<forall>x \<in> set xs. path_question_ok H x \<Longrightarrow> I s \<Longrightarrow>
    \<exists>rs s'. path_ask_all G S b cs xs s = Some (rs, s') \<and> I s' \<and> list_all2 (path_reply_right H es) xs rs"
proof (induction xs arbitrary: s)
  case (Cons x xs)
  obtain r s1 where r: "path_ask G S b cs x s = Some (r, s1)" "I s1" "path_reply_right H es x r"
    using path_ask_right [OF assms, of x s b] Cons.prems by auto
  then obtain rs s2 where "path_ask_all G S b cs xs s1 = Some (rs, s2)" "I s2" "list_all2 (path_reply_right H es) xs rs"
    using Cons.IH [of s1] Cons.prems by auto
  then show ?case using r by auto
qed simp

end

text \<open>
  (C11) The answers that the executor gets about a state: the conditions \<open>es\<close> of a path are added
  one after the other, simplified and rewritten as the manager does, and \<open>TimingSolver\<close>, which
  simplifies the questions in turn, asks the chain of caches over the core solver. Nothing
  fails, and every reply is right for the inputs that satisfy the conditions as they were
  given. The conditions hold together for some input; they and the questions are plain (no
  division by anything but a nonzero constant, no index of more than 32 bits, no
  \<open>NotOptimizedExpr\<close>); the core solver keeps the contract.
\<close>

theorem path_condition_answers:
  assumes "solver_contract G H (\<lambda>_. True) I core" "\<forall>e \<in> set es. cond_ok H e" "models H es \<noteq> {}"
    and "\<forall>x \<in> set xs. path_question_ok H x" "I s"
  shows "\<exists>cs rs s'. add_all G rewriteEqualities es [] = Some cs \<and>
    path_ask_all G (constructSolverChain G opts opt core) simplifyExprs cs xs (chain_init s) = Some (rs, s') \<and>
    list_all2 (path_reply_right H es) xs rs"
proof -
  have "expr_creation G" using assms(1) by (rule solver_contract.axioms(1))
  from add_all_ok [OF this assms(2), of "[]" rewriteEqualities] assms(3)
  obtain cs where cs: "add_all G rewriteEqualities es [] = Some cs" "\<forall>c \<in> set cs. cond_ok H c" "models H cs = models H es" by auto
  have "path_ok H cs" using cs(2,3) assms(3) by (simp add: path_ok_def)
  from solver_contract.path_ask_all_right [OF chain_contract [OF assms(1)] this cs(3) assms(4)
      solver_contract.chain_init_ok [OF assms(1,5)]]
  show ?thesis using cs(1) by blast
qed

theorem path_condition_answers_witness:
  "\<exists>cs rs s'. add_all default_env True [BinaryExpr Eq (ConstantExpr (APInt 8 5)) (buf_byte 0), BinaryExpr Eq (ConstantExpr (APInt 8 5)) (buf_byte 1)] [] = Some cs \<and>
    path_ask_all default_env (constructSolverChain default_env \<lparr>UseCexCache = True, UseBranchCache = True, UseIndependentSolver = True\<rparr>
        \<lparr>DebugCexCacheCheckBinding = False, CexCacheTryAll = False, CexCacheSuperSet = False, CexCacheExperimental = False\<rparr>
        (exhaustive_solver [buf])) True cs
      [AskMustBeTrue (BinaryExpr Eq (ConstantExpr (APInt 8 5)) (buf_byte 1)), AskValue (buf_byte 0)] (chain_init ()) = Some (rs, s') \<and>
    list_all2 (path_reply_right buf_heap [BinaryExpr Eq (ConstantExpr (APInt 8 5)) (buf_byte 0), BinaryExpr Eq (ConstantExpr (APInt 8 5)) (buf_byte 1)])
      [AskMustBeTrue (BinaryExpr Eq (ConstantExpr (APInt 8 5)) (buf_byte 1)), AskValue (buf_byte 0)] rs"
proof -
  have "(\<lambda>a i. if i < arr_size a then 5 else 0) \<in>
      models buf_heap [BinaryExpr Eq (ConstantExpr (APInt 8 5)) (buf_byte 0), BinaryExpr Eq (ConstantExpr (APInt 8 5)) (buf_byte 1)]"
    using constant_inputs [of 5] by (simp add: models_def)
  then show ?thesis by (intro path_condition_answers [OF exhaustive.solver_contract_axioms]) auto
qed

section \<open>Forks\<close>

text \<open>
  (C8) A fork of a state that runs, at a plain condition: \<open>Executor::fork\<close> returns, every state
  keeps an input and its leaf in the process tree (\<open>executor_ok\<close>), and the sides that are
  followed have exactly the inputs of the state on which the condition holds and on which it
  does not, the first in the state itself, the second in a new state if both are followed; no
  other state is touched (\<open>fork_result\<close>). If nothing inhibits forking and the solver answers, a
  side is left out only if it has no input. The solver keeps the contract; no path is replayed
  and the limits on single instructions are off, as they are by default (\<open>plain_mode\<close>).
\<close>

theorem fork_sides:
  assumes "solver_contract G H D I S" "executor_ok H I X" "i \<in> running X" "cond_ok H c" "plain_mode opts isInternal"
  shows "\<exists>r X'. Executor_fork G S opts i c isInternal X = Some (r, X') \<and> executor_ok H I X' \<and> fork_result H X i c r X' \<and>
    (forking_allowed opts X \<longrightarrow> always_answers H I S \<longrightarrow>
      r \<noteq> (None, None) \<and> (snd r = None \<longrightarrow> failing H X i c = {}) \<and> (fst r = None \<longrightarrow> holding H X i c = {}))"
  by (rule solver_contract.Executor_fork_ok [OF assms])

definition demo_fork_options :: fork_options where
  "demo_fork_options = \<lparr>fo_SimplifyExprs = True, fo_RewriteEqualities = True, fo_MaxForks = - 1, fo_MaxDepth = 0, fo_MaxMemoryInhibit = True,
     fo_MaxStaticForkPct = 1, fo_MaxStaticSolvePct = 1, fo_MaxStaticCPForkPct = 1, fo_MaxStaticCPSolvePct = 1,
     fo_coreSolverTimeout = 0, fo_replayPath = None, fo_replayKTest = False, fo_OnlyReplaySeeds = False\<rparr>"

lemma demo_fork_mode [simp]: "plain_mode demo_fork_options b" "fo_MaxForks demo_fork_options = - 1" "fo_MaxDepth demo_fork_options = 0"
  by (simp_all add: plain_mode_def fork_limits_set_def demo_fork_options_def)

definition demo_executor :: "unit executor" where
  "demo_executor = executor_new demo_world (ExecutionState_new 7) ()
     \<lparr>fs_elapsed60 = False, fs_forks_here = 0, fs_solverTime_here = 0, fs_callPath = None, fs_solverTime = 0\<rparr>"

lemma demo_config: "config_ok (DFSSearcher [0], demo_world)" "w_states demo_world = {0}"
  using demo_world_ok by (simp_all add: config_ok_def demo_world_def)

lemma demo_inputs: "inputs buf_heap \<noteq> {}"
  using constant_inputs [of 5] by auto

lemma demo_executor_ok:
  "round_ok buf_heap (\<lambda>_. True) (DFSSearcher [0], demo_executor, {})" "executor_ok buf_heap (\<lambda>_. True) demo_executor"
  "running demo_executor = {0}" "inputs_of buf_heap demo_executor 0 = inputs buf_heap" "w_states (ex_world demo_executor) = {0}"
proof -
  show r: "round_ok buf_heap (\<lambda>_. True) (DFSSearcher [0], demo_executor, {})"
    unfolding demo_executor_def by (rule executor_new_ok(1) [OF demo_config _ demo_inputs]) simp
  show "w_states (ex_world demo_executor) = {0}" by (simp add: demo_executor_def executor_new_def demo_config(2))
  then show "executor_ok buf_heap (\<lambda>_. True) demo_executor" using r by (simp add: round_ok.simps)
  show "running demo_executor = {0}" "inputs_of buf_heap demo_executor 0 = inputs buf_heap"
    by (simp_all add: demo_executor_def executor_new_def running_def all_states_def demo_config(2) inputs_of_def ExecutionState_new_def models_def)
qed

lemma demo_allowed: "forking_allowed demo_fork_options demo_executor"
  by (auto simp: forking_allowed_def demo_executor_def executor_new_def ExecutionState_new_def split: if_splits)

lemma byte0_sides:
  "holding buf_heap demo_executor 0 (BinaryExpr Eq (ConstantExpr (APInt 8 5)) (buf_byte 0)) \<noteq> {}"
  "failing buf_heap demo_executor 0 (BinaryExpr Eq (ConstantExpr (APInt 8 5)) (buf_byte 0)) \<noteq> {}"
proof -
  have "(\<lambda>a i. if i < arr_size a then 5 else 0) \<in> holding buf_heap demo_executor 0 (BinaryExpr Eq (ConstantExpr (APInt 8 5)) (buf_byte 0))"
    using constant_inputs [of 5] by (simp add: holding_def demo_executor_ok(4))
  then show "holding buf_heap demo_executor 0 (BinaryExpr Eq (ConstantExpr (APInt 8 5)) (buf_byte 0)) \<noteq> {}" by blast
  have "(\<lambda>a i. if i < arr_size a then 7 else 0) \<in> failing buf_heap demo_executor 0 (BinaryExpr Eq (ConstantExpr (APInt 8 5)) (buf_byte 0))"
    using constant_inputs [of 7] by (simp add: failing_def demo_executor_ok(4))
  then show "failing buf_heap demo_executor 0 (BinaryExpr Eq (ConstantExpr (APInt 8 5)) (buf_byte 0)) \<noteq> {}" by blast
qed

theorem fork_sides_witness:
  "\<exists>b X'. Executor_fork default_env (exhaustive_solver [buf]) demo_fork_options 0
      (BinaryExpr Eq (ConstantExpr (APInt 8 5)) (buf_byte 0)) False demo_executor = Some ((Some 0, Some b), X') \<and> b \<noteq> 0 \<and>
    running X' = {0, b} \<and> inputs_of buf_heap X' 0 = {\<rho> \<in> inputs buf_heap. \<rho> buf 0 = 5} \<and>
    inputs_of buf_heap X' b = {\<rho> \<in> inputs buf_heap. \<rho> buf 0 \<noteq> 5}"
proof -
  let ?c = "BinaryExpr Eq (ConstantExpr (APInt 8 5)) (buf_byte 0)"
  have "0 \<in> running demo_executor" "cond_ok buf_heap ?c" by (simp_all add: demo_executor_ok(3))
  from fork_sides [OF exhaustive.solver_contract_axioms demo_executor_ok(2) this demo_fork_mode(1) [where b = False]]
  obtain r X' where r0: "Executor_fork default_env (exhaustive_solver [buf]) demo_fork_options 0 ?c False demo_executor = Some (r, X')"
      "fork_result buf_heap demo_executor 0 ?c r X'"
    and both: "forking_allowed demo_fork_options demo_executor \<longrightarrow> always_answers buf_heap (\<lambda>_. True) (exhaustive_solver [buf]) \<longrightarrow>
      r \<noteq> (None, None) \<and> (snd r = None \<longrightarrow> failing buf_heap demo_executor 0 ?c = {}) \<and> (fst r = None \<longrightarrow> holding buf_heap demo_executor 0 ?c = {})"
    by (elim exE conjE) (rule that)
  have r1: "fst r \<noteq> None" "snd r \<noteq> None" using both demo_allowed exhaustive_answers byte0_sides by blast+
  obtain t f where "r = (t, f)" by (cases r)
  then have r: "Executor_fork default_env (exhaustive_solver [buf]) demo_fork_options 0 ?c False demo_executor = Some ((t, f), X')"
      "fork_result buf_heap demo_executor 0 ?c (t, f) X'" "t \<noteq> None" "f \<noteq> None"
    using r0 r1 by simp_all
  obtain a b where ab: "t = Some a" "f = Some b" using r(3,4) by blast
  have v: "take_bit 8 (\<rho> buf 0) = \<rho> buf 0" if "\<rho> \<in> inputs buf_heap" for \<rho>
    using that by (simp add: inputs_def take_bit_int_eq_self)
  have "a = 0 \<and> b \<notin> all_states demo_executor \<and> running X' = insert b {0} \<and>
      inputs_of buf_heap X' a = holding buf_heap demo_executor 0 ?c \<and> inputs_of buf_heap X' b = failing buf_heap demo_executor 0 ?c"
    using r(2) unfolding ab fork_result_def demo_executor_ok(3) prod.case option.case by (rule conjunct2)
  note b = this [THEN conjunct1] this [THEN conjunct2, THEN conjunct1] this [THEN conjunct2, THEN conjunct2, THEN conjunct1]
    this [THEN conjunct2, THEN conjunct2, THEN conjunct2, THEN conjunct1] this [THEN conjunct2, THEN conjunct2, THEN conjunct2, THEN conjunct2]
  have "b \<noteq> 0" using b(2) running_all [of 0 demo_executor] demo_executor_ok(3) by (metis singletonI)
  moreover have h: "holding buf_heap demo_executor 0 ?c = {\<rho> \<in> inputs buf_heap. \<rho> buf 0 = 5}"
    unfolding holding_def demo_executor_ok(4) byte_is_true by (rule Collect_cong) (use v in auto)
  moreover have f: "failing buf_heap demo_executor 0 ?c = {\<rho> \<in> inputs buf_heap. \<rho> buf 0 \<noteq> 5}"
    unfolding failing_def demo_executor_ok(4) byte_is_true by (rule Collect_cong) (use v in auto)
  moreover have "running X' = {0, b}" unfolding b(3) by (rule insert_commute)
  moreover have "inputs_of buf_heap X' 0 = {\<rho> \<in> inputs buf_heap. \<rho> buf 0 = 5}" using b(4) unfolding b(1) h .
  moreover have "inputs_of buf_heap X' b = {\<rho> \<in> inputs buf_heap. \<rho> buf 0 \<noteq> 5}" using b(5) unfolding f .
  ultimately show ?thesis using r(1) unfolding ab b(1) by (intro exI [of _ b] exI [of _ X'] conjI)
qed

text \<open>
  (C9) A branch over several plain conditions, each of which some input of the state satisfies,
  as at a \<open>switch\<close>: \<open>Executor::branch\<close> returns, the state that stands for a condition has
  exactly the inputs on which the condition holds, all but one are new, the process tree has
  them as leaves, and no other state is touched. If the number of forks is not limited there
  is a state for every condition; otherwise one condition is chosen at random.
\<close>

theorem branch_sides:
  assumes "expr_creation G" "executor_ok H I X" "i \<in> running X" "conditions \<noteq> []" "length conditions < 2 ^ 32"
    and "\<forall>c \<in> set conditions. cond_ok H c \<and> holding H X i c \<noteq> {}"
  shows "\<exists>result X'. Executor_branch G S opts i conditions X = Some (result, X') \<and> executor_ok H I X' \<and>
    branch_result H X i conditions result X' \<and> i \<in> set (chosen result) \<and> (fo_MaxForks opts = - 1 \<longrightarrow> None \<notin> set result)"
  by (rule expr_creation.Executor_branch_ok [OF assms])

theorem branch_sides_witness:
  "\<exists>a b X'. Executor_branch default_env (exhaustive_solver [buf]) demo_fork_options 0
      [BinaryExpr Eq (ConstantExpr (APInt 8 5)) (buf_byte 0), BinaryExpr Eq (ConstantExpr (APInt 8 7)) (buf_byte 0)] demo_executor =
      Some ([Some a, Some b], X') \<and> a \<noteq> b \<and> inputs_of buf_heap X' b = {\<rho> \<in> inputs buf_heap. \<rho> buf 0 = 7}"
proof -
  let ?c = "\<lambda>v. BinaryExpr Eq (ConstantExpr (APInt 8 v)) (buf_byte 0)"
  have h: "holding buf_heap demo_executor 0 (?c v) = {\<rho> \<in> inputs buf_heap. \<rho> buf 0 = v}" if "0 \<le> v" "v < 256" for v
    unfolding holding_def demo_executor_ok(4) by (auto simp: inputs_def take_bit_int_eq_self)
  have ne: "holding buf_heap demo_executor 0 (?c v) \<noteq> {}" if "0 \<le> v" "v < 256" for v
  proof -
    have "(\<lambda>a i. if i < arr_size a then v else 0) \<in> holding buf_heap demo_executor 0 (?c v)"
      unfolding h [OF that] using constant_inputs [OF that] by simp
    then show ?thesis by blast
  qed
  have c: "\<forall>c \<in> set [?c 5, ?c 7]. cond_ok buf_heap c \<and> holding buf_heap demo_executor 0 c \<noteq> {}"
    using ne [of 5] ne [of 7] by simp
  obtain result X' where r: "Executor_branch default_env (exhaustive_solver [buf]) demo_fork_options 0 [?c 5, ?c 7] demo_executor = Some (result, X')"
      "branch_result buf_heap demo_executor 0 [?c 5, ?c 7] result X'" "None \<notin> set result"
    using branch_sides [OF default_env.expr_creation_axioms demo_executor_ok(2) _ _ _ c, of "exhaustive_solver [buf]" demo_fork_options]
    unfolding demo_executor_ok(3) by auto
  then have "length result = 2" by (simp add: branch_result_def)
  then obtain x y where "result = [x, y]" by (auto simp: length_Suc_conv eval_nat_numeral)
  then obtain a b where ab: "result = [Some a, Some b]" using r(3) by (cases x; cases y) auto
  have v: "\<forall>k < length [?c 5, ?c 7]. \<forall>a. result ! k = Some a \<longrightarrow> inputs_of buf_heap X' a = holding buf_heap demo_executor 0 ([?c 5, ?c 7] ! k)"
    using r(2) unfolding branch_result_def by (elim conjE)
  have "a \<noteq> b" using r(2) unfolding ab branch_result_def by simp
  moreover have "inputs_of buf_heap X' b = holding buf_heap demo_executor 0 (?c 7)"
    using v [rule_format, of 1 b] by (simp add: ab)
  ultimately show ?thesis using r(1) h [of 7] ab by auto
qed

section \<open>The loop\<close>



text \<open>
  A round of the loop over states with constraints: \<open>selectState\<close> returns a state that
  runs; whatever forks, branches and terminations the instruction has gone through, the next
  fork of any state that runs returns, and \<open>updateStates\<close> returns a good configuration whose
  states are those that run. The solver keeps the contract; conditions are plain, and the
  scores of a feature searcher stay above -100000000 (\<open>round_ok\<close>).
\<close>

theorem executor_round_progress:
  assumes "solver_contract G H D I S" "round_ok H I (s, X, ended)" "w_states (ex_world X) \<noteq> {}"
  shows "\<exists>e s1 w1. selectState (ex_world X) s = Some (e, s1, w1) \<and> e \<in> running X \<and>
    (\<forall>X2 ended2. instruction G H S opts (X\<lparr>ex_world := w1\<rparr>, ended) (X2, ended2) \<longrightarrow>
      (\<forall>i \<in> running X2. \<forall>c isInternal. cond_ok H c \<longrightarrow> plain_mode opts isInternal \<longrightarrow>
         (\<exists>r X3. Executor_fork G S opts i c isInternal X2 = Some (r, X3))) \<and>
      (\<exists>s' X'. Executor_update s1 (Some e) X2 = Some (s', X') \<and> round_ok H I (s', X', ended2) \<and>
         w_states (ex_world X') = running X2))"
proof -
  from solver_contract.round_progress [OF assms, of opts]
  obtain e s1 w1 where r: "selectState (ex_world X) s = Some (e, s1, w1)" "e \<in> running (X\<lparr>ex_world := w1\<rparr>)"
    and all: "\<forall>X2 E2. instruction G H S opts (X\<lparr>ex_world := w1\<rparr>, ended) (X2, E2) \<longrightarrow> executor_ok H I X2 \<and>
      (\<exists>s' X'. Executor_update s1 (Some e) X2 = Some (s', X') \<and> round_ok H I (s', X', E2) \<and> w_states (ex_world X') = running X2 \<and>
         explored H X' \<union> E2 \<subseteq> explored H X \<union> ended \<and>
         (forking_allowed opts X \<longrightarrow> always_answers H I S \<longrightarrow> forking_allowed opts X' \<and> explored H X' \<union> E2 = explored H X \<union> ended))"
    by (elim exE conjE) (rule that)
  have "running (X\<lparr>ex_world := w1\<rparr>) = running X"
  proof -
    have "config_ok (s, ex_world X)" using assms(2) by (simp add: round_ok.simps)
    then have "w_states w1 = w_states (ex_world X)" using select_ok [of "w_states (ex_world X)" s "ex_world X"] assms(3) r(1)
      by (auto simp: config_ok_def world_ok_def)
    then show ?thesis by (simp add: running_def all_states_def)
  qed
  then have "e \<in> running X" using r(2) by simp
  moreover have "(\<forall>i \<in> running X2. \<forall>c isInternal. cond_ok H c \<longrightarrow> plain_mode opts isInternal \<longrightarrow>
         (\<exists>r X3. Executor_fork G S opts i c isInternal X2 = Some (r, X3))) \<and>
      (\<exists>s' X'. Executor_update s1 (Some e) X2 = Some (s', X') \<and> round_ok H I (s', X', ended2) \<and>
         w_states (ex_world X') = running X2)"
    if i: "instruction G H S opts (X\<lparr>ex_world := w1\<rparr>, ended) (X2, ended2)" for X2 ended2
  proof -
    have x: "executor_ok H I X2" "\<exists>s' X'. Executor_update s1 (Some e) X2 = Some (s', X') \<and> round_ok H I (s', X', ended2) \<and>
         w_states (ex_world X') = running X2"
      using all [rule_format, OF i] by blast+
    have "\<exists>r X3. Executor_fork G S opts i c isInternal X2 = Some (r, X3)"
      if "i \<in> running X2" "cond_ok H c" "plain_mode opts isInternal" for i c isInternal
      using solver_contract.Executor_fork_ok [OF assms(1) x(1) that] by blast
    then show ?thesis using x(2) by blast
  qed
  ultimately show ?thesis using r(1) by blast
qed

theorem executor_round_progress_witness:
  "\<exists>e s1 w1. selectState (ex_world demo_executor) (DFSSearcher [0]) = Some (e, s1, w1) \<and> e = 0 \<and>
    (\<exists>s' X'. Executor_update s1 (Some e) (demo_executor\<lparr>ex_world := w1\<rparr>) = Some (s', X'))"
proof -
  have ne: "w_states (ex_world demo_executor) \<noteq> {}" by (simp add: demo_executor_ok(5))
  from executor_round_progress [OF exhaustive.solver_contract_axioms demo_executor_ok(1) ne, of demo_fork_options]
  obtain e s1 w1 where s: "selectState (ex_world demo_executor) (DFSSearcher [0]) = Some (e, s1, w1)" "e \<in> running demo_executor"
    and all: "\<forall>X2 ended2. instruction default_env buf_heap (exhaustive_solver [buf]) demo_fork_options (demo_executor\<lparr>ex_world := w1\<rparr>, {}) (X2, ended2) \<longrightarrow>
      (\<forall>i \<in> running X2. \<forall>c isInternal. cond_ok buf_heap c \<longrightarrow> plain_mode demo_fork_options isInternal \<longrightarrow>
         (\<exists>r X3. Executor_fork default_env (exhaustive_solver [buf]) demo_fork_options i c isInternal X2 = Some (r, X3))) \<and>
      (\<exists>s' X'. Executor_update s1 (Some e) X2 = Some (s', X') \<and> round_ok buf_heap (\<lambda>_. True) (s', X', ended2) \<and>
         w_states (ex_world X') = running X2)"
    by (elim exE conjE) (rule that)
  have "\<exists>s' X'. Executor_update s1 (Some e) (demo_executor\<lparr>ex_world := w1\<rparr>) = Some (s', X')"
    using all [rule_format, OF instruction.stop, THEN conjunct2] by (elim exE conjE) (rule exI, rule exI)
  moreover have "e = 0" using s(2) demo_executor_ok(3) by simp
  ultimately show ?thesis using s(1) by blast
qed

end
