(* ===== verification/Spec2Isabelle.thy ===== *)
theory Spec2Isabelle
  imports IntEval ExprProps MapProps MapOfSetsProps RNGProps SearchProps AddressSpaceProps SolverProps PathProps
begin

text \<open>
  A verification development of the C++ part of FeatMaker: its modified copy of the symbolic
  execution engine KLEE (\<open>src/klee\<close>). FeatMaker runs KLEE many times; each run explores the
  states of a program with \<open>AutoFeatureSearcher\<close>, which scores a state by the features of
  its path condition, and the Python driver learns features and weights from the runs.

  The program and its parts.
  An execution state of KLEE is a program counter with stacks, memory and a path condition.
  The executor keeps a set of states and a process tree whose leaves they are; a searcher
  selects the state to run next; executing an instruction may fork and terminate states,
  which \<open>Executor::updateStates\<close> reports to the searcher, the set and the tree. Path
  conditions are expressions over arrays of symbolic bytes; expressions are simplified when
  they are created and evaluated under assignments of bytes to arrays. Expression updates,
  memory and solver caches rest on persistent maps; random choices on one generator.

  Theories, by part.
  \<^item> \<open>KleePrelude\<close>: the words and options every part uses: \<open>uint32\<close>, \<open>uint64\<close>, \<open>check\<close> for an
    assertion, \<open>nth_opt\<close> for an index within bounds, with their hints.
  \<^item> \<open>Bits\<close>, \<open>IntEval\<close>, \<open>APInt\<close>: \<open>util/Bits.h\<close>, \<open>util/BitArray.h\<close> and \<open>Expr/IntEvaluation.h\<close>; the
    arithmetic of \<open>llvm::APInt\<close> that constant expressions use, as words of a given width.
  \<^item> \<open>ExprCore\<close>, \<open>ExprCreate\<close>, \<open>ExprShape\<close>: \<open>Expr.h\<close>, \<open>Expr.cpp\<close> and \<open>Updates.cpp\<close>: the kinds of
    expression as one datatype, update lists, hashes, comparison, the simplifying
    \<open>create\<close> functions and \<open>rebuild\<close>. \<open>ExprAlgebra\<close> and the \<open>ExprSound\<close> theories give every
    expression its value (\<open>ev\<close>) under an assignment and prove that creation keeps it.
  \<^item> \<open>ExprEval\<close>, \<open>ExprEvalSound\<close>: \<open>ExprVisitor.cpp\<close>, \<open>ExprEvaluator.cpp\<close>, \<open>Assignment.h\<close> and
    \<open>Assignment.cpp\<close>. \<open>ExprProps\<close> holds the properties of expressions.
  \<^item> \<open>ExprPlain\<close>, \<open>ExprWeight\<close>: the plain expressions (no division by anything but a nonzero
    constant, no index of more than 32 bits, no \<open>NotOptimizedExpr\<close>), to which the properties of
    solvers and paths are restricted, and a weight that creation does not exceed. \<open>ExprUtil\<close>:
    \<open>ExprUtil.cpp\<close>, the reads of an expression. \<open>ExprOrder\<close>: \<open>Expr::compare\<close> as a total order.
  \<^item> \<open>SolverCore\<close>, \<open>SolverLayers\<close>, \<open>CexCaching\<close>, \<open>Independent\<close>, \<open>SolverChain\<close>: \<open>Solver.cpp\<close> and
    \<open>SolverImpl.cpp\<close>, and the layers of \<open>lib/Solver\<close>: dummy, staged, validating, assignment
    validating and caching solver, the cache of counterexamples, the independent solver, and
    from \<open>ConstructSolverChain.cpp\<close> the chain of the last three. A solver is a record of its
    operations. The locale \<open>solver_contract\<close> (\<open>SolverContract\<close>) is what a solver promises;
    \<open>SolverSound\<close>, \<open>CexCachingSound\<close>, \<open>IndependentSound\<close> and \<open>IndependentValues\<close> prove that each
    layer keeps it over a solver that does, \<open>SolverClass\<close> what the class \<open>Solver\<close> makes of it, and
    \<open>ExhaustiveSolver\<close> that a solver with the contract exists. \<open>SolverProps\<close> holds the properties.
  \<^item> \<open>Constraints\<close>, \<open>ConstraintsSound\<close>: \<open>Constraints.cpp\<close>, the constraint manager, which rewrites
    path conditions by their equalities. \<open>TimingSolver\<close>: \<open>TimingSolver.cpp\<close>, the solver of the
    executor.
  \<^item> \<open>ExecutorFork\<close>: \<open>fork\<close>, \<open>branch\<close>, \<open>addConstraint\<close> and \<open>terminateState\<close> of \<open>Executor.cpp\<close> and
    the fields of \<open>ExecutionState\<close> that they read and write. \<open>ExecutorForkSound\<close> views a state as
    the set of inputs that satisfy its constraints; \<open>ExecutorRounds\<close> has the rounds of the loop
    over such states. \<open>PathProps\<close> holds the properties of path conditions, forks and rounds.
  \<^item> \<open>Memory\<close>: \<open>Memory.h\<close>, \<open>Memory.cpp\<close> and \<open>ArrayCache.cpp\<close>: memory objects and the states of
    their bytes, each byte concrete, known as an expression, or found in the update list only.
    \<open>MemorySound\<close> views the caches cell by cell; \<open>MemoryValues\<close> gives a byte its value under an
    assignment and states the invariant (\<open>object_ok\<close>, \<open>mem_ok\<close>); \<open>MemoryFlush\<close>, \<open>MemoryBytes\<close>,
    \<open>MemoryAccess\<close> and \<open>MemoryWrite\<close> prove the operations against loads and stores on a map from
    offsets to bytes, inside the locale \<open>mem_model\<close> (what the operations ask of expression
    creation); \<open>MemoryProps\<close> interprets it and holds the properties.
  \<^item> \<open>AddressSpace\<close>: \<open>AddressSpace.cpp\<close>: the objects of a state by address, over a heap of object
    states that spaces share until one writes. \<open>AddressSpaceSound\<close> proves copy on write against
    spaces with memories of their own; \<open>AddressSpaceResolve\<close> resolution, with what is asked of
    the solver as \<open>solver_answers\<close>; \<open>AddressSpaceHost\<close> the copies to and from the memory of the
    process; \<open>AddressSpaceProps\<close> holds the properties.
  \<^item> \<open>ImmutableTree\<close>, \<open>ImmutableTreeIter\<close>, \<open>ImmutableMap\<close>: \<open>ADT/ImmutableTree.h\<close>, \<open>ImmutableMap.h\<close>
    and \<open>ImmutableSet.h\<close>: the height-balanced tree, its iterators with their stack of bounded
    size, and the wrappers. The locale \<open>key_order\<close> is what the tree asks of the comparison,
    \<open>persistent_map\<close> what clients get; \<open>MapProps\<close> holds the properties.
  \<^item> \<open>MapOfSets\<close>, \<open>MapOfSetsProps\<close>: \<open>ADT/MapOfSets.h\<close>, the trie from sets of constraints to
    assignments behind the counterexample cache.
  \<^item> \<open>RNG\<close>, \<open>RNGProps\<close>: \<open>ADT/RNG.h\<close> and \<open>RNG.cpp\<close>, the Mersenne Twister.
  \<^item> \<open>DiscretePDF\<close>, \<open>DiscretePDFSound\<close>: \<open>ADT/DiscretePDF.inc\<close>, a red-black tree of weighted
    items. A pointer to a node is a location: the subtree there and the frames up to the root.
  \<^item> \<open>PTree\<close>: \<open>PTree.cpp\<close>, the nodes in a store with parent pointers, \<open>rep\<close> relating the store
    to a tree; and the walk of \<open>RandomPathSearcher\<close>.
  \<^item> \<open>Searcher\<close>: \<open>Searcher.cpp\<close> and \<open>Searcher.h\<close> as one datatype of searchers with recursive
    \<open>selectState\<close>, \<open>update\<close> and \<open>isEmpty\<close> (the virtual methods), and \<open>Executor::updateStates\<close>.
    The record \<open>world\<close> is what they read and write outside of themselves.
  \<^item> \<open>SearcherSound\<close>, \<open>SearcherContract\<close>, \<open>SearcherUpdate\<close>: the contract of a searcher
    (\<open>tracks\<close>, \<open>schedules\<close>); the locale \<open>weighted_store\<close> is what \<open>WeightedRandomSearcher\<close> asks of
    \<open>DiscretePDF\<close>, which interprets it. \<open>ExecutorLoop\<close> has the locale \<open>scheduler\<close>, what the loop
    of \<open>Executor::run\<close> asks of a searcher, interpreted by the searchers, and the loop as a
    step relation. \<open>UserSearcher\<close>: \<open>UserSearcher.cpp\<close>, the searcher that the options ask for.
    \<open>SearchProps\<close> holds the properties.

  Conventions.
  A failed assertion, an index out of range, a null pointer that is followed and a division
  that traps are \<open>None\<close>; that a function returns is proved as \<open>= Some\<close>. Machine integers
  have their width. A loop that could fail to end is a \<open>partial_function\<close>, where not ending
  is \<open>None\<close>; there is no fuel in the development, apart from the stack of an iterator, whose
  bound is the height of the tree, as in the code. Weights and scores, which are
  \<open>double\<close> in the code, are rational numbers: rounding is not modelled. Hence for weights
  the interval property of \<open>choose\<close> is that of exact sums.

  What is proved.
  Creating an expression keeps its value under every assignment at which no divisor is 0, and
  evaluation finds it, for expressions without a \<open>NotOptimizedExpr\<close> over a constant and with
  indices of at most 32 bits; \<open>compare\<close> decides structural equality; constraints made of an
  assignment characterise it. Histories of the maps and of the weighted tree refine functions
  from keys to values, with order, balance and sums as invariants; reads and writes of memory
  objects refine loads and stores of bytes, at constant and symbolic offsets; copy on write is
  invisible, and resolution of an address is exact for objects that do not overlap. The
  generator is the Mersenne Twister recurrence. The chain of solvers answers every history of
  questions about satisfiable constraints and plain expressions rightly and without a failed
  assertion, if the solver below does; adding a condition to a path ends and gives constraints
  with the same inputs; a fork gives its sides exactly the inputs on which the condition holds
  and fails, and along the loop of the executor every input stays in exactly one state, or in
  those that were terminated. Every searcher that the supported options construct schedules
  exactly the live states, through all forks and terminations, and the loop of the executor
  never gets stuck, as long as the scores of a feature searcher stay above -100000000. The
  feature searcher selects the state with the highest score if one is above that number, and
  its scores are the sums of the weights of the features.

  What is found.
  Iterative deepening over the default searchers selects from an empty weighted searcher or
  updates a state that it does not hold; the feature searcher returns a stale state when no
  score is above -100000000; batches expire at once from 2\<open>^\<close>32 instructions on; a disabled batch
  time comes back; \<open>getFloatL\<close> reaches 1; a \<open>NotOptimizedExpr\<close> over a constant is not folded; a
  quotient of two constants reaches the division without the check of the divisor; a limit of
  one resolution is not kept; the limit of solver time on call paths depends on the option for
  forks.

  Not modelled.
  The operations of \<open>MergingSearcher\<close> and \<open>MergeHandler\<close>; seeds (\<open>seedMap\<close> is empty); the
  interpretation of LLVM instructions by the executor, which is any sequence of forks, branches
  and terminations in \<open>ExecutorRounds\<close> and any change that keeps states and tree together in
  \<open>ExecutorLoop\<close>; of the solver chain the fast counterexample solver, the logs of queries and
  the statistics; expression builders; the memory manager; printers and parsers; the
  translations to STP, Z3 and metaSMT and the passes over LLVM modules, whose libraries are
  not in the repository; the runtime environment in C; the Python driver.
\<close>

end
